(* ===== verification/Croc_Prelude.thy ===== *)
theory Croc_Prelude
  imports Main "HOL-Library.Word" "HOL-Library.Multiset"
begin

text \<open>
  Shared vocabulary of the development: the machine types of the amd64 kernel, the outcome type
  of operations that assert, the compiler builtins on 64-bit words that the sources call
  (\<open>__builtin_ctzll\<close>, \<open>__builtin_clzll\<close>, \<open>__builtin_popcountll\<close>), and the facts about bit sets of
  words and of word arrays that the allocator theories share.
\<close>

unbundle bit_operations_syntax

type_synonym u8 = "8 word"
type_synonym u32 = "32 word"
type_synonym u64 = "64 word"

text \<open>Facts that unfold a model operation, and facts that describe bit sets.\<close>

named_theorems op_defs
named_theorems bitset_simps

text \<open>
  Outcome of code that can panic. \<open>Assertion\<close> is a failed \<open>assert(cond, msg)\<close> or
  \<open>assertNotReached(msg)\<close> of the sources (kernel: panic; tests: exception); \<open>Undefined\<close> marks a
  call outside the domain of a compiler builtin; \<open>Diverges\<close> a loop that exhausts the bound chosen
  in the model.
\<close>

datatype fault = Assertion string | Undefined string | Diverges

type_synonym 'a outcome = "fault + 'a"

definition bindO :: "'a outcome \<Rightarrow> ('a \<Rightarrow> 'b outcome) \<Rightarrow> 'b outcome" where
  "bindO m f = (case m of Inl e \<Rightarrow> Inl e | Inr a \<Rightarrow> f a)"

definition assertO :: "bool \<Rightarrow> string \<Rightarrow> unit outcome" where
  "assertO b msg = (if b then Inr () else Inl (Assertion msg))"

lemma bindO_Inr [simp]: "bindO (Inr a) f = f a"
  by (simp add: bindO_def)

lemma bindO_Inl [simp]: "bindO (Inl e) f = Inl e"
  by (simp add: bindO_def)

lemma bindO_eq_Inr_iff: "bindO m f = Inr b \<longleftrightarrow> (\<exists>a. m = Inr a \<and> f a = Inr b)"
  by (cases m) auto

lemma assertO_eq_Inr_iff [simp]: "assertO b msg = Inr u \<longleftrightarrow> b"
  by (simp add: assertO_def)

lemma assertO_True [simp]: "assertO True msg = Inr ()"
  by (simp add: assertO_def)

lemma assertO_False [simp]: "assertO False msg = Inl (Assertion msg)"
  by (simp add: assertO_def)

text \<open>Subtraction of \<open>size_t\<close> values kept as naturals below 2^64: it wraps.\<close>

definition sub_size :: "nat \<Rightarrow> nat \<Rightarrow> nat" where
  "sub_size a b = (if b \<le> a then a - b else a + 2 ^ 64 - b)"

lemma sub_size_le [simp]: "b \<le> a \<Longrightarrow> sub_size a b = a - b"
  by (simp add: sub_size_def)

subsection \<open>Builtins on 64-bit words\<close>

text \<open>
  The builtins scan from the low or the high end; at 0, where the compiler leaves the result
  undefined, the model gives 64, and the callers of the sources test for 0 first.
\<close>

definition ctzll :: "u64 \<Rightarrow> nat" where
  "ctzll w = (case find (bit w) [0..<64] of None \<Rightarrow> 64 | Some i \<Rightarrow> i)"

definition clzll :: "u64 \<Rightarrow> nat" where
  "clzll w = (case find (\<lambda>i. bit w (63 - i)) [0..<64] of None \<Rightarrow> 64 | Some i \<Rightarrow> i)"

definition popcountll :: "u64 \<Rightarrow> nat" where
  "popcountll w = length (filter (bit w) [0..<64])"

text \<open>The set of set bits of a word.\<close>

definition bits :: "u64 \<Rightarrow> nat set" where
  "bits w = {i. bit w i}"

lemma in_bits [simp]: "i \<in> bits w \<longleftrightarrow> bit w i"
  by (simp add: bits_def)

lemma bit_u64_lt: "bit (w :: u64) i \<Longrightarrow> i < 64"
  using bit_imp_le_length [of w i] by simp

lemma bits_subset: "bits w \<subseteq> {..<64}"
  using bit_u64_lt by auto

lemma finite_bits [simp]: "finite (bits w)"
  by (rule finite_subset [OF bits_subset]) simp

lemma bits_eqI: "bits v = bits w \<Longrightarrow> v = w"
  by (rule bit_word_eqI) (auto simp: bits_def set_eq_iff)

lemma bits_0 [simp]: "bits 0 = {}"
  by (simp add: bits_def)

lemma bits_minus_1 [simp]: "bits (- 1) = {..<64}"
  by (auto simp: bits_def)

lemma bits_not_0 [simp]: "bits (NOT 0) = {..<64}"
  by (auto simp: bits_def)

lemma bits_or [simp]: "bits (v OR w) = bits v \<union> bits w"
  by (auto simp: bits_def bit_or_iff)

lemma bits_and [simp]: "bits (v AND w) = bits v \<inter> bits w"
  by (auto simp: bits_def bit_and_iff)

text \<open>\<open>1ull << i\<close>, for shift amounts below the width.\<close>

definition bit1 :: "nat \<Rightarrow> u64" where
  "bit1 i = push_bit i 1"

lemma bit_bit1: "bit (bit1 i) j \<longleftrightarrow> i < 64 \<and> j = i"
  by (auto simp: bit1_def bit_exp_iff possible_bit_def)

lemma bits_bit1: "i < 64 \<Longrightarrow> bits (bit1 i) = {i}"
  by (auto simp: bits_def bit_bit1)

lemma bits_and_not [simp]: "bits (v AND NOT w) = bits v - bits w"
  by (auto simp: bits_def bit_and_iff bit_not_iff dest: bit_u64_lt)

lemma bits_not: "bits (NOT w) = {..<64} - bits w"
  by (auto simp: bits_def bit_not_iff dest: bit_u64_lt)

lemma bits_xor [simp]: "bits (v XOR w) = (bits v - bits w) \<union> (bits w - bits v)"
  by (auto simp: bits_def bit_xor_iff)

lemma bits_empty_iff: "bits w = {} \<longleftrightarrow> w = 0"
  using bits_eqI [of w 0] by auto

lemma and_eq_0_iff_disjoint: "v AND w = 0 \<longleftrightarrow> bits v \<inter> bits w = {}"
  by (simp flip: bits_empty_iff)

lemma and_bit1_iff: "i < 64 \<Longrightarrow> w AND bit1 i \<noteq> 0 \<longleftrightarrow> bit w i"
  by (simp add: and_eq_0_iff_disjoint bits_bit1)

lemma and_bit1_eq_0_iff: "i < 64 \<Longrightarrow> w AND bit1 i = 0 \<longleftrightarrow> \<not> bit w i"
  by (simp add: and_eq_0_iff_disjoint bits_bit1)

lemma word_nonzero_bit: "(w :: u64) \<noteq> 0 \<Longrightarrow> \<exists>i < 64. bit w i"
  using bits_empty_iff [of w] bit_u64_lt by fastforce

lemma popcountll_card: "popcountll w = card (bits w)"
proof -
  have "popcountll w = card (set (filter (bit w) [0..<64]))"
    unfolding popcountll_def by (rule distinct_card [symmetric]) simp
  also have "set (filter (bit w) [0..<64]) = bits w"
    by (auto simp: bits_def dest: bit_u64_lt)
  finally show ?thesis .
qed

lemma popcountll_0 [simp]: "popcountll 0 = 0"
  by (simp add: popcountll_card)

lemma popcountll_eq_0_iff: "popcountll w = 0 \<longleftrightarrow> w = 0"
  by (simp add: popcountll_card bits_empty_iff)

lemma popcountll_le: "popcountll w \<le> 64"
  using card_mono [OF _ bits_subset [of w]] by (simp add: popcountll_card)

lemma find_upt_Some:
  assumes "P i" "i < n" "\<And>j. j < i \<Longrightarrow> \<not> P j"
  shows "find P [0..<n] = Some i"
  using assms by (auto simp: find_Some_iff intro!: exI [of _ i])

lemma find_upt_cases:
  obtains (none) "find P [0..<n] = None" "\<And>j. j < n \<Longrightarrow> \<not> P j"
  | (some) i where "find P [0..<n] = Some i" "P i" "i < n" "\<And>j. j < i \<Longrightarrow> \<not> P j"
proof (cases "find P [0..<n]")
  case None
  then show ?thesis using none by (auto simp: find_None_iff)
next
  case (Some i)
  then obtain "P i" "i < n" "\<And>j. j < i \<Longrightarrow> \<not> P j"
    by (fastforce simp: find_Some_iff)
  with Some show ?thesis by (rule some)
qed

lemma ctzll_0 [simp]: "ctzll 0 = 64"
  by (simp add: ctzll_def find_None_iff option.case_eq_if)

lemma ctzll_spec:
  assumes "w \<noteq> 0"
  shows "bit w (ctzll w)" "ctzll w < 64" "\<And>j. j < ctzll w \<Longrightarrow> \<not> bit w j"
proof -
  have "find (bit w) [0..<64] \<noteq> None"
    using word_nonzero_bit [OF assms] by (auto simp: find_None_iff)
  then show "bit w (ctzll w)" "ctzll w < 64" "\<And>j. j < ctzll w \<Longrightarrow> \<not> bit w j"
    by (cases rule: find_upt_cases [where P = "bit w" and n = 64]; simp add: ctzll_def)+
qed

lemma ctzll_le: "bit w i \<Longrightarrow> ctzll w \<le> i"
  using ctzll_spec(3) [of w i] by (cases "w = 0") (auto simp: not_less [symmetric])

lemma clzll_spec:
  assumes "w \<noteq> 0"
  shows "bit w (63 - clzll w)" "clzll w < 64" "\<And>j. 63 - clzll w < j \<Longrightarrow> \<not> bit w j"
proof -
  obtain i where i: "i < 64" "bit w i" using word_nonzero_bit [OF assms] by blast
  then have "\<exists>j < 64. bit w (63 - j)" by (intro exI [of _ "63 - i"]) auto
  then have "find (\<lambda>i. bit w (63 - i)) [0..<64] \<noteq> None"
    by (auto simp: find_None_iff)
  then obtain k where k: "find (\<lambda>i. bit w (63 - i)) [0..<64] = Some k" "bit w (63 - k)" "k < 64"
      "\<And>j. j < k \<Longrightarrow> \<not> bit w (63 - j)"
    by (cases rule: find_upt_cases [where P = "\<lambda>i. bit w (63 - i)" and n = 64]) auto
  then have c: "clzll w = k" by (simp add: clzll_def)
  show "bit w (63 - clzll w)" "clzll w < 64" using k c by simp_all
  show "\<not> bit w j" if "63 - clzll w < j" for j
  proof
    assume b: "bit w j"
    then have "j < 64" by (rule bit_u64_lt)
    with that c k(3) have "63 - j < k" by linarith
    from k(4) [OF this] \<open>j < 64\<close> b show False by simp
  qed
qed

text \<open>\<open>w & (w - 1)\<close> clears exactly the lowest set bit.\<close>

lemma bit_and_minus_1:
  assumes "w \<noteq> (0 :: u64)"
  shows "bit (w AND (w - 1)) i \<longleftrightarrow> bit w i \<and> i \<noteq> ctzll w"
proof -
  define k where "k = ctzll w"
  define w' where "w' = w AND NOT (bit1 k)"
  have k: "bit w k" "k < 64" "\<And>j. j < k \<Longrightarrow> \<not> bit w j"
    using ctzll_spec [OF assms] by (auto simp: k_def)
  have bw': "bit w' j \<longleftrightarrow> bit w j \<and> j \<noteq> k" for j
    using k(2) by (auto simp: w'_def bit_and_iff bit_not_iff bit_bit1
        dest: bit_u64_lt)
  have "w = w' OR bit1 k"
    using k by (intro bit_word_eqI) (auto simp: bw' bit_or_iff bit_bit1)
  also have "\<dots> = w' + bit1 k"
    by (rule disjunctive_add_eq_or [symmetric], rule bit_word_eqI)
      (auto simp: bit_and_iff bw' bit_bit1)
  finally have "w - 1 = w' + mask k"
    by (simp add: bit1_def mask_eq_exp_minus_1 algebra_simps)
  also have "\<dots> = w' OR mask k"
    by (rule disjunctive_add_eq_or, rule bit_word_eqI)
      (use k in \<open>auto simp: bit_and_iff bw' bit_mask_iff\<close>)
  finally have "bit (w - 1) i \<longleftrightarrow> bit w' i \<or> (i < k \<and> i < 64)"
    by (auto simp: bit_or_iff bit_mask_iff possible_bit_def)
  then show ?thesis
    using k by (auto simp: bit_and_iff bw' k_def)
qed

lemma bits_and_minus_1: "w \<noteq> 0 \<Longrightarrow> bits (w AND (w - 1)) = bits w - {ctzll w}"
  using bit_and_minus_1 [of w] by (auto simp: bits_def)

subsection \<open>Bit sets of word arrays\<close>

text \<open>
  Bit \<open>b\<close> of an array of 64-bit words is bit \<open>b % 64\<close> of word \<open>b / 64\<close>.
\<close>

definition wbits :: "u64 list \<Rightarrow> nat set" where
  "wbits ws = {b. b div 64 < length ws \<and> bit (ws ! (b div 64)) (b mod 64)}"

lemma in_wbits: "b \<in> wbits ws \<longleftrightarrow> b div 64 < length ws \<and> bit (ws ! (b div 64)) (b mod 64)"
  by (simp add: wbits_def)

lemma wbits_subset: "wbits ws \<subseteq> {..<64 * length ws}"
  by (auto simp: wbits_def)

lemma finite_wbits [simp]: "finite (wbits ws)"
  by (rule finite_subset [OF wbits_subset]) simp

lemma wbits_Nil [simp]: "wbits [] = {}"
  by (simp add: wbits_def)

lemma wbits_update:
  assumes "w < length ws"
  shows "wbits (ws[w := v]) = {b \<in> wbits ws. b div 64 \<noteq> w} \<union> (\<lambda>i. w * 64 + i) ` bits v"
    (is "?l = ?r")
proof (intro set_eqI iffI)
  fix b assume "b \<in> ?l"
  then show "b \<in> ?r"
    using assms by (cases "b div 64 = w")
      (auto simp: in_wbits image_iff intro!: bexI [of _ "b mod 64"])
next
  fix b assume "b \<in> ?r"
  then consider "b \<in> wbits ws" "b div 64 \<noteq> w"
    | i where "bit v i" "i < 64" "b = w * 64 + i"
    using bit_u64_lt [of v] by auto
  then show "b \<in> ?l"
    using assms by cases (auto simp: in_wbits)
qed

lemma wbits_word: "w < length ws \<Longrightarrow> {b \<in> wbits ws. b div 64 = w} = (\<lambda>i. w * 64 + i) ` bits (ws ! w)"
    (is "_ \<Longrightarrow> ?l = ?r")
proof (intro set_eqI iffI)
  fix b assume "b \<in> ?l"
  then show "b \<in> ?r" by (auto simp: in_wbits image_iff intro!: bexI [of _ "b mod 64"])
next
  fix b assume "w < length ws" "b \<in> ?r"
  moreover from \<open>b \<in> ?r\<close> obtain i where "bit (ws ! w) i" "i < 64" "b = w * 64 + i"
    using bit_u64_lt [of "ws ! w"] by auto
  ultimately show "b \<in> ?l" by (auto simp: in_wbits)
qed

lemma wbits_empty_iff: "wbits ws = {} \<longleftrightarrow> (\<forall>w < length ws. ws ! w = 0)"
proof
  assume e: "wbits ws = {}"
  show "\<forall>w < length ws. ws ! w = 0"
  proof (intro allI impI)
    fix w assume "w < length ws"
    with e have "(\<lambda>i. w * 64 + i) ` bits (ws ! w) = {}"
      using wbits_word [of w ws] by simp
    then show "ws ! w = 0" by (simp add: bits_empty_iff)
  qed
next
  assume "\<forall>w < length ws. ws ! w = 0"
  then show "wbits ws = {}" by (auto simp: in_wbits)
qed

lemma wbits_replicate_0 [simp]: "wbits (replicate n 0) = {}"
  by (simp add: wbits_empty_iff)

lemma wbits_replicate_ones [simp]: "wbits (replicate n (- 1)) = {..<64 * n}"
  by (auto simp: in_wbits)

lemma wbits_append: "wbits (xs @ ys) = wbits xs \<union> (\<lambda>b. 64 * length xs + b) ` wbits ys"
    (is "?l = ?r")
proof (intro set_eqI iffI)
  fix b assume b: "b \<in> ?l"
  show "b \<in> ?r"
  proof (cases "b div 64 < length xs")
    case True
    with b show ?thesis by (auto simp: in_wbits nth_append)
  next
    case False
    then have "64 * length xs \<le> b" by linarith
    then obtain c where c: "b = 64 * length xs + c" using le_Suc_ex by blast
    with b False have "c \<in> wbits ys" by (auto simp: in_wbits nth_append)
    with c show ?thesis by blast
  qed
next
  fix b assume "b \<in> ?r"
  then show "b \<in> ?l" by (auto simp: in_wbits nth_append)
qed

lemma wbits_single: "wbits [x] = bits x"
  using bit_u64_lt [of x] by (auto simp: in_wbits div_eq_0_iff)

lemma card_wbits: "card (wbits ws) = sum_list (map popcountll ws)"
proof (induction ws rule: rev_induct)
  case Nil
  then show ?case by simp
next
  case (snoc x xs)
  have "wbits xs \<inter> (\<lambda>b. 64 * length xs + b) ` bits x = {}"
    using wbits_subset [of xs] by auto
  then have "card (wbits (xs @ [x])) = card (wbits xs) + card ((\<lambda>b. 64 * length xs + b) ` bits x)"
    by (simp add: wbits_append wbits_single card_Un_disjoint)
  also have "card ((\<lambda>b. 64 * length xs + b) ` bits x) = popcountll x"
    by (simp add: popcountll_card card_image inj_on_def)
  finally show ?case using snoc by simp
qed

lemmas [bitset_simps] = in_wbits wbits_update bits_bit1

end
