(* ===== verification/Core_Math.thy ===== *)
theory Core_Math
  imports Croc_Prelude
begin

text \<open>
  The arithmetic helpers of \<open>libraries/Core/include/core/math.h\<close>, at the width the sources use
  them: rounding, binary logarithms (with their undefined case at 0), gcd and lcm, the fixed-point
  product and the zero counts. The bitpool, the sort, the page allocator and the size classes call
  them.
\<close>

section \<open>Rounding\<close>

definition divideAndRoundUp :: "'a::len word \<Rightarrow> 'a word \<Rightarrow> 'a word" where
  "divideAndRoundUp numerator denominator = (numerator + (denominator - 1)) div denominator"

definition divideAndRoundDown :: "'a::len word \<Rightarrow> 'a word \<Rightarrow> 'a word" where
  "divideAndRoundDown numerator denominator = numerator div denominator"

definition roundUpToNearestMultiple :: "'a::len word \<Rightarrow> 'a word \<Rightarrow> 'a word" where
  "roundUpToNearestMultiple toRound divisor = divideAndRoundUp toRound divisor * divisor"

definition roundDownToNearestMultiple :: "'a::len word \<Rightarrow> 'a word \<Rightarrow> 'a word" where
  "roundDownToNearestMultiple toRound divisor = divideAndRoundDown toRound divisor * divisor"

section \<open>Logarithms\<close>

text \<open>
  The generic \<open>log2floor\<close> shifts until the value is 0; the overloads count leading zeros, and the
  compiler leaves \<open>__builtin_clz\<close> of 0 undefined.
\<close>

lemma unat_drop_bit_1: "unat (drop_bit 1 w) = unat w div 2"
  using unat_drop_bit_eq [of 1 w] by (simp only: drop_bit_eq_div power_one_right)

function log2floor_generic :: "'a::len word \<Rightarrow> nat" where
  "log2floor_generic value =
     (let value' = drop_bit 1 value
      in if value' \<noteq> 0 then Suc (log2floor_generic value') else 0)"
  by pat_completeness auto
termination
proof (relation "measure unat")
  fix w x :: "'a word" assume x: "x = drop_bit 1 w" "x \<noteq> 0"
  then have "unat x = unat w div 2" by (simp only: unat_drop_bit_1)
  moreover from x have "unat w \<noteq> 0" by (auto simp: unat_eq_0)
  ultimately show "(x, w) \<in> measure unat" by simp
qed simp

definition log2floor_u64 :: "u64 \<Rightarrow> nat outcome" where
  "log2floor_u64 value =
     (if value = 0 then Inl (Undefined ''__builtin_clzl(0)'') else Inr (63 - clzll value))"

text \<open>\<open>__builtin_clz\<close> of a non-zero 32-bit value.\<close>

definition clz32 :: "u32 \<Rightarrow> nat" where
  "clz32 value = clzll (ucast value) - 32"

definition log2floor_u32 :: "u32 \<Rightarrow> nat outcome" where
  "log2floor_u32 value =
     (if value = 0 then Inl (Undefined ''__builtin_clz(0)'') else Inr (63 - clz32 value))"

definition log2floor_u128 :: "128 word \<Rightarrow> nat outcome" where
  "log2floor_u128 value =
     (if drop_bit 64 value = 0 then log2floor_u64 (ucast value)
      else bindO (log2floor_u64 (ucast (drop_bit 64 value))) (\<lambda>l. Inr (l + 64)))"

definition log2ceil_u64 :: "u64 \<Rightarrow> nat outcome" where
  "log2ceil_u64 value = bindO (log2floor_u64 (value - 1)) (\<lambda>l. Inr (l + 1))"

section \<open>Divisors\<close>

function largestPowerOf2Dividing_loop :: "u64 \<Rightarrow> u64 \<Rightarrow> u64" where
  "largestPowerOf2Dividing_loop value result =
     (if value \<noteq> 0 \<and> value AND 1 = 0
      then largestPowerOf2Dividing_loop (drop_bit 1 value) (push_bit 1 result)
      else result)"
  by pat_completeness auto
termination
proof (relation "measure (\<lambda>(v, r). unat v)")
  fix v r :: u64 assume "v \<noteq> 0 \<and> v AND 1 = 0"
  then have "unat v \<noteq> 0" by (auto simp: unat_eq_0)
  then show "((drop_bit 1 v, push_bit 1 r), (v, r)) \<in> measure (\<lambda>(v, r). unat v)"
    using unat_drop_bit_1 [of v] by simp
qed simp

text \<open>The loop is entered for a non-zero value only, so the test for 0 above never decides.\<close>

definition largestPowerOf2Dividing :: "u64 \<Rightarrow> u64" where
  "largestPowerOf2Dividing value =
     (if value = 0 then 0 else largestPowerOf2Dividing_loop value 1)"

function gcd_u64 :: "u64 \<Rightarrow> u64 \<Rightarrow> u64" where
  "gcd_u64 a b = (if b = 0 then a else gcd_u64 b (a mod b))"
  by pat_completeness auto
termination
proof (relation "measure (\<lambda>(a, b). unat b)")
  fix a b :: u64 assume "b \<noteq> 0"
  then have "0 < unat b" by (simp add: unat_gt_0)
  then show "((b, a mod b), (a, b)) \<in> measure (\<lambda>(a, b). unat b)"
    by (simp add: unat_mod)
qed simp

definition lcm_u64 :: "u64 \<Rightarrow> u64 \<Rightarrow> u64" where
  "lcm_u64 a b = (a div gcd_u64 a b) * b"

section \<open>Fixed point and zero counts\<close>

text \<open>
  \<open>static_cast<uint64_t>(static_cast<__uint128_t>(a) * mult) >> shift\<close>: the cast binds tighter
  than the shift.
\<close>

definition multShift64 :: "u64 \<Rightarrow> u64 \<Rightarrow> nat \<Rightarrow> u64" where
  "multShift64 a mul shift = drop_bit shift (ucast ((ucast a :: 128 word) * ucast mul))"

definition countTrailingZeros :: "u64 \<Rightarrow> nat" where
  "countTrailingZeros value = (if value = 0 then 64 else ctzll value)"

definition countTrailingZeros_u32 :: "u32 \<Rightarrow> nat" where
  "countTrailingZeros_u32 value = (if value = 0 then 32 else ctzll (ucast value))"

definition countLeadingZeros :: "u64 \<Rightarrow> nat" where
  "countLeadingZeros value = (if value = 0 then 64 else clzll value)"

definition countLeadingZeros_u32 :: "u32 \<Rightarrow> nat" where
  "countLeadingZeros_u32 value = (if value = 0 then 32 else clz32 value)"

declare log2floor_generic.simps [simp del] gcd_u64.simps [simp del]
  largestPowerOf2Dividing_loop.simps [simp del]

section \<open>Lemmas\<close>

lemma nat_between_powers_of_top_bit:
  assumes "bit (n :: nat) k" "\<And>j. k < j \<Longrightarrow> \<not> bit n j"
  shows "2 ^ k \<le> n \<and> n < 2 ^ (k + 1)"
proof
  show "2 ^ k \<le> n"
  proof (rule ccontr)
    assume "\<not> 2 ^ k \<le> n"
    then have "n div 2 ^ k = 0" by simp
    with assms(1) show False by (simp add: bit_iff_odd)
  qed
  have "drop_bit (k + 1) n = 0"
    by (rule bit_eqI) (use assms(2) in \<open>auto simp: bit_drop_bit_eq\<close>)
  then show "n < 2 ^ (k + 1)"
    by (simp add: drop_bit_eq_div div_eq_0_iff)
qed

lemma bit_unat_u64: "bit (unat (w :: u64)) j \<longleftrightarrow> bit w j"
  by (auto simp: bit_unsigned_iff dest: bit_u64_lt)

lemma clzll_unat:
  assumes "w \<noteq> 0"
  shows "2 ^ (63 - clzll w) \<le> unat w \<and> unat w < 2 ^ (63 - clzll w + 1)"
  using clzll_spec [OF assms] by (intro nat_between_powers_of_top_bit) (auto simp: bit_unat_u64)

lemma log2floor_u64_spec:
  assumes "log2floor_u64 v = Inr l"
  shows "2 ^ l \<le> unat v" "unat v < 2 ^ (l + 1)" "l < 64"
  using assms clzll_unat [of v] by (auto simp: log2floor_u64_def split: if_splits)

lemma log2floor_u64_ok: "v \<noteq> 0 \<Longrightarrow> \<exists>l. log2floor_u64 v = Inr l"
  by (simp add: log2floor_u64_def)

lemma power2_sandwich_unique:
  assumes "(2 :: nat) ^ l \<le> n" "n < 2 ^ (l + 1)" "2 ^ m \<le> n" "n < 2 ^ (m + 1)"
  shows "l = m"
proof (rule ccontr)
  assume "l \<noteq> m"
  then consider "l + 1 \<le> m" | "m + 1 \<le> l" by linarith
  then show False
  proof cases
    case 1
    then have "(2 :: nat) ^ (l + 1) \<le> 2 ^ m" by (rule power_increasing) simp
    with assms show False by linarith
  next
    case 2
    then have "(2 :: nat) ^ (m + 1) \<le> 2 ^ l" by (rule power_increasing) simp
    with assms show False by linarith
  qed
qed

lemma log2floor_u64_iff:
  "log2floor_u64 v = Inr l \<longleftrightarrow> 2 ^ l \<le> unat v \<and> unat v < 2 ^ (l + 1)"
proof
  assume "log2floor_u64 v = Inr l"
  then show "2 ^ l \<le> unat v \<and> unat v < 2 ^ (l + 1)" using log2floor_u64_spec by blast
next
  assume l: "2 ^ l \<le> unat v \<and> unat v < 2 ^ (l + 1)"
  then have "v \<noteq> 0" by auto
  then obtain m where m: "log2floor_u64 v = Inr m" using log2floor_u64_ok by blast
  with l log2floor_u64_spec [OF m] show "log2floor_u64 v = Inr l"
    using power2_sandwich_unique [of m "unat v" l] by simp
qed

lemma log2ceil_u64_spec:
  assumes "log2ceil_u64 v = Inr n" "1 < unat v"
  shows "2 ^ (n - 1) < unat v \<and> unat v \<le> 2 ^ n \<and> 0 < n \<and> n \<le> 64"
proof -
  have "v \<noteq> 0" using assms(2) by auto
  then have 1: "unat (v - 1) = unat v - 1" by (rule unat_minus_one)
  from assms(1) obtain l where l: "log2floor_u64 (v - 1) = Inr l" "n = l + 1"
    by (auto simp: log2ceil_u64_def bindO_eq_Inr_iff)
  show ?thesis using log2floor_u64_spec [OF l(1)] 1 l(2) assms(2) by auto
qed

lemma log2ceil_u64_ok: "v \<noteq> 1 \<Longrightarrow> \<exists>n. log2ceil_u64 v = Inr n"
  using log2floor_u64_ok [of "v - 1"] by (auto simp: log2ceil_u64_def)

lemma log2floor_generic_bounds:
  "v \<noteq> 0 \<Longrightarrow> 2 ^ log2floor_generic v \<le> unat v \<and> unat v < 2 ^ (log2floor_generic v + 1)"
proof (induction v rule: log2floor_generic.induct)
  case (1 v)
  let ?h = "drop_bit 1 v"
  have u: "unat ?h = unat v div 2" by (rule unat_drop_bit_1)
  show ?case
  proof (cases "?h = 0")
    case True
    then have "unat v div 2 = 0" using u by (metis unat_0)
    moreover have "unat v \<noteq> 0" using "1.prems" by (simp add: unat_eq_0)
    moreover have "log2floor_generic v = 0" using True by (simp only: log2floor_generic.simps [of v] Let_def) simp
    ultimately show ?thesis by simp
  next
    case False
    have "log2floor_generic v = Suc (log2floor_generic ?h)"
      using False by (simp only: log2floor_generic.simps [of v] Let_def) simp
    moreover have "2 ^ log2floor_generic ?h \<le> unat v div 2 \<and> unat v div 2 < 2 ^ (log2floor_generic ?h + 1)"
      using "1.IH" [OF refl False False] u by simp
    ultimately show ?thesis by (simp only: power_Suc add_Suc) linarith
  qed
qed

lemma unat_gcd_u64: "unat (gcd_u64 a b) = gcd (unat a) (unat b)"
proof (induction a b rule: gcd_u64.induct)
  case (1 a b)
  show ?case
  proof (cases "b = 0")
    case True
    then show ?thesis by (simp add: gcd_u64.simps [of a 0])
  next
    case False
    then have "unat (gcd_u64 a b) = gcd (unat b) (unat a mod unat b)"
      using 1 by (simp add: gcd_u64.simps [of a b] unat_mod)
    then show ?thesis by (simp add: gcd_red_nat [symmetric] gcd.commute)
  qed
qed

lemma clz32_unat:
  assumes "w \<noteq> 0"
  shows "clz32 w < 32" "2 ^ (31 - clz32 w) \<le> unat w" "unat w < 2 ^ (31 - clz32 w + 1)"
proof -
  let ?v = "ucast w :: u64"
  have w32: "unat w < 2 ^ 32" using unsigned_less [of w] by simp
  then have u: "unat ?v = unat w" by (simp add: unsigned_ucast_eq take_bit_nat_eq_self)
  have "?v \<noteq> 0" using assms u by (metis unat_0 unat_eq_zero)
  note C = clzll_unat [OF this, unfolded u] clzll_spec(2) [OF this]
  from C(1) w32 have "2 ^ (63 - clzll ?v) < (2 :: nat) ^ 32" by linarith
  then have "63 - clzll ?v < 32" by (rule power_less_imp_less_exp [rotated]) simp
  with C(2) have e: "63 - clzll ?v = 31 - clz32 w" and "clz32 w < 32"
    by (simp_all add: clz32_def)
  with C(1) show "clz32 w < 32" "2 ^ (31 - clz32 w) \<le> unat w" "unat w < 2 ^ (31 - clz32 w + 1)"
    by simp_all
qed

lemma unat_round:
  fixes x d :: "'a::len word"
  assumes "d \<noteq> 0"
  shows "unat (roundDownToNearestMultiple x d) = unat x div unat d * unat d"
    "unat x + (unat d - 1) < 2 ^ LENGTH('a) \<Longrightarrow>
       unat (roundUpToNearestMultiple x d) = (unat x + (unat d - 1)) div unat d * unat d"
proof -
  have le: "a div unat d * unat d \<le> a" for a by simp
  have "unat x div unat d * unat d < 2 ^ LENGTH('a)"
    using le_less_trans [OF le unsigned_less [of x]] .
  then show "unat (roundDownToNearestMultiple x d) = unat x div unat d * unat d"
    by (simp add: roundDownToNearestMultiple_def divideAndRoundDown_def unat_mult_lem [THEN iffD1] unat_div)
  assume lt: "unat x + (unat d - 1) < 2 ^ LENGTH('a)"
  have m: "unat (d - 1) = unat d - 1" using assms by (rule unat_minus_one)
  have s: "unat (x + (d - 1)) = unat x + (unat d - 1)" using lt m by (simp add: unat_add_lem [THEN iffD1])
  have "(unat x + (unat d - 1)) div unat d * unat d < 2 ^ LENGTH('a)"
    using le_less_trans [OF le lt] .
  then show "unat (roundUpToNearestMultiple x d) = (unat x + (unat d - 1)) div unat d * unat d"
    using s by (simp add: roundUpToNearestMultiple_def divideAndRoundUp_def unat_mult_lem [THEN iffD1] unat_div)
qed

section \<open>Properties\<close>

text \<open>
  the count-leading-zeros \<open>log2floor\<close> for 64-bit values is the exact binary logarithm where it
  is defined, is undefined exactly at 0, and computes the same as the generic shifting loop.
\<close>

lemma log2floor_u64_exact:
  "log2floor_u64 0 = Inl (Undefined ''__builtin_clzl(0)'') \<and>
   (log2floor_u64 v = Inr l \<longleftrightarrow> 2 ^ l \<le> unat v \<and> unat v < 2 ^ (l + 1)) \<and>
   (log2floor_u64 v = Inr l \<longleftrightarrow> v \<noteq> 0 \<and> log2floor_generic v = l)"
proof (cases "v = 0")
  case True
  then show ?thesis by (simp add: log2floor_u64_def)
next
  case False
  then show ?thesis
    using log2floor_u64_iff [of v l] log2floor_generic_bounds [OF False]
      power2_sandwich_unique [of l "unat v" "log2floor_generic v"]
    by (auto simp: log2floor_u64_def)
qed

text \<open>
  for values above 1, \<open>log2ceil\<close> is defined and is the least exponent whose power of two
  reaches the value; at 1 it runs into the undefined \<open>log2floor(0)\<close>.
\<close>

lemma log2ceil_u64_least:
  assumes "1 < unat v"
  shows "\<exists>n. log2ceil_u64 v = Inr n \<and> unat v \<le> 2 ^ n \<and> (\<forall>m. unat v \<le> 2 ^ m \<longrightarrow> n \<le> m) \<and>
    log2ceil_u64 1 = Inl (Undefined ''__builtin_clzl(0)'')"
proof -
  have "v \<noteq> 1" using assms by auto
  then obtain n where n: "log2ceil_u64 v = Inr n" using log2ceil_u64_ok by blast
  note S = log2ceil_u64_spec [OF n assms]
  have "n \<le> m" if "unat v \<le> 2 ^ m" for m
  proof (rule ccontr)
    assume "\<not> n \<le> m"
    then have "(2 :: nat) ^ m \<le> 2 ^ (n - 1)" by (intro power_increasing) auto
    with that S show False by linarith
  qed
  with S n show ?thesis by (simp add: log2ceil_u64_def log2floor_u64_def)
qed

text \<open>
  The 32-bit overload of \<open>log2floor\<close> subtracts the leading zeros of a 32-bit value from 63: it
  answers 32 more than the logarithm, for every non-zero argument.
\<close>

lemma log2floor_u32_off_by_32:
  assumes "v \<noteq> 0"
  shows "\<exists>l. 2 ^ l \<le> unat v \<and> unat v < 2 ^ (l + 1) \<and> log2floor_u32 v = Inr (l + 32)"
  using clz32_unat [OF assms] assms
  by (intro exI [of _ "31 - clz32 v"]) (simp add: log2floor_u32_def)

text \<open>
  rounding down and, while the sum does not overflow, rounding up give the neighbouring
  multiples of the divisor.
\<close>

lemma round_to_multiple:
  fixes x d :: "'a::len word"
  assumes "d \<noteq> 0" and "unat x + (unat d - 1) < 2 ^ LENGTH('a)"
  shows "unat d dvd unat (roundUpToNearestMultiple x d) \<and> unat d dvd unat (roundDownToNearestMultiple x d) \<and>
    unat x \<le> unat (roundUpToNearestMultiple x d) \<and> unat (roundUpToNearestMultiple x d) < unat x + unat d \<and>
    unat (roundDownToNearestMultiple x d) \<le> unat x \<and> unat x < unat (roundDownToNearestMultiple x d) + unat d"
proof -
  have d: "0 < unat d" using assms(1) by (simp add: unat_gt_0)
  let ?a = "unat x + (unat d - 1)"
  have a: "?a div unat d * unat d + ?a mod unat d = ?a" "?a mod unat d < unat d"
    "unat x div unat d * unat d + unat x mod unat d = unat x" "unat x mod unat d < unat d"
    using d by simp_all
  have up: "unat (roundUpToNearestMultiple x d) = ?a div unat d * unat d" using unat_round(2) [OF assms] .
  have dn: "unat (roundDownToNearestMultiple x d) = unat x div unat d * unat d"
    using unat_round(1) [OF assms(1)] .
  show ?thesis
    unfolding up dn by (intro conjI dvd_triv_right) (use a d in linarith)+
qed

end
