(* ===== verification/Slot_Store.thy ===== *)
theory Slot_Store
  imports Croc_Prelude
begin

text \<open>
  The contract between a slot allocator and its clients: \<open>claim\<close> takes some available slot or
  answers \<open>- 1\<close> when there is none, \<open>release\<close> gives a slot back and refuses one that is already
  pending. \<open>Core::SplitBitmap\<close> provides it (theory \<open>Split_Bitmap\<close>), the slab bookkeeper uses it.
  The loop below is the one every client runs to take several slots.
\<close>

fun claim_loop :: "('s \<Rightarrow> 's \<times> int) \<Rightarrow> nat \<Rightarrow> 's \<Rightarrow> 's \<times> nat list" where
  "claim_loop claim 0 s = (s, [])"
| "claim_loop claim (Suc n) s =
     (case claim s of
        (s1, b) \<Rightarrow> if b < 0 then (s1, [])
                   else case claim_loop claim n s1 of (s2, xs) \<Rightarrow> (s2, nat b # xs))"

locale slot_store =
  fixes claim :: "'s \<Rightarrow> 's \<times> int"
    and release :: "nat \<Rightarrow> 's \<Rightarrow> ('s \<times> bool) outcome"
    and avail :: "'s \<Rightarrow> nat set"
    and width :: "'s \<Rightarrow> nat"
    and inv :: "'s \<Rightarrow> bool"
  assumes finite_avail: "inv s \<Longrightarrow> finite (avail s)"
    and avail_width: "inv s \<Longrightarrow> avail s \<subseteq> {..<width s}"
    and claim_empty: "inv s \<Longrightarrow> claim s = (s', b) \<Longrightarrow> avail s = {} \<Longrightarrow>
      b = - 1 \<and> inv s' \<and> avail s' = {} \<and> width s' = width s"
    and claim_some: "inv s \<Longrightarrow> claim s = (s', b) \<Longrightarrow> avail s \<noteq> {} \<Longrightarrow>
      0 \<le> b \<and> nat b \<in> avail s \<and> avail s' = avail s - {nat b} \<and> inv s' \<and> width s' = width s"
    and release_ok: "inv s \<Longrightarrow> k < width s \<Longrightarrow> k \<notin> avail s \<Longrightarrow>
      \<exists>s' z. release k s = Inr (s', z) \<and> inv s' \<and> avail s' = insert k (avail s) \<and> width s' = width s"
begin

lemma claim_result:
  assumes "inv s" "claim s = (s', b)"
  shows "b < 0 \<longleftrightarrow> avail s = {}" "inv s'" "width s' = width s"
  using claim_empty [OF assms] claim_some [OF assms] by (cases "avail s = {}"; auto)+

lemma claim_loop_spec:
  assumes "inv s" "claim_loop claim n s = (s', xs)"
  shows "inv s' \<and> width s' = width s \<and> distinct xs \<and> set xs \<subseteq> avail s \<and>
    avail s' = avail s - set xs \<and> length xs = min n (card (avail s))"
  using assms
proof (induction n arbitrary: s s' xs)
  case 0
  then show ?case by simp
next
  case (Suc n)
  obtain s1 b where c: "claim s = (s1, b)" by force
  show ?case
  proof (cases "avail s = {}")
    case True
    with Suc.prems c claim_empty [OF Suc.prems(1) c] show ?thesis by auto
  next
    case False
    note step = claim_some [OF Suc.prems(1) c False]
    obtain s2 ys where l: "claim_loop claim n s1 = (s2, ys)" by force
    from Suc.prems(2) c step l have r: "s' = s2" "xs = nat b # ys" by auto
    from step have "inv s1" by blast
    note IH = Suc.IH [OF this l]
    have "card (avail s1) = card (avail s) - 1"
      using step finite_avail [OF Suc.prems(1)] by simp
    moreover have "0 < card (avail s)"
      using False finite_avail [OF Suc.prems(1)] by (simp add: card_gt_0_iff)
    ultimately show ?thesis using IH step r by auto
  qed
qed

text \<open>A slot that was released can be claimed again, and a claimed one is not handed out twice.\<close>

lemma release_claim_roundtrip:
  assumes "inv s" "claim s = (s1, b)" "0 \<le> b"
  shows "\<exists>s2 z. release (nat b) s1 = Inr (s2, z) \<and> inv s2 \<and> avail s2 = avail s"
proof -
  have ne: "avail s \<noteq> {}" using claim_result(1) [OF assms(1,2)] assms(3) by auto
  note c = claim_some [OF assms(1,2) ne]
  have "nat b < width s1" using c avail_width [OF assms(1)] by auto
  with c release_ok [of s1 "nat b"] show ?thesis by fastforce
qed

end

end
