(* ===== verification/Split_Bitmap.thy ===== *)
theory Split_Bitmap
  imports Core_Math Slot_Store
begin

text \<open>
  \<open>Core::SplitBitmap\<close> (\<open>libraries/Core/include/core/atomic/SplitBitmap.h\<close>): the pair of bitmaps
  that one allocating CPU and many freeing CPUs share. The record holds the two word arrays and
  the scan hint (an 8-bit value, as in the source); the template arguments are the length of the
  arrays and the flag \<open>useHint\<close>. Loads and stores of the source are performed one operation after
  the other here; the last section interleaves them.
\<close>

section \<open>State and operations\<close>

record split_bitmap =
  allocBitmap :: "u64 list"
  freeBitmap :: "u64 list"
  hint :: u8
  useHint :: bool

definition firstScanWord :: "split_bitmap \<Rightarrow> nat" where
  "firstScanWord s = (if useHint s then unat (hint s) else 0)"

definition setHint :: "nat \<Rightarrow> split_bitmap \<Rightarrow> split_bitmap" where
  "setHint w s = (if useHint s then s\<lparr>hint := of_nat w\<rparr> else s)"

definition sb_seedAllAvailable :: "split_bitmap \<Rightarrow> split_bitmap" where
  "sb_seedAllAvailable s =
     setHint 0 (s\<lparr>allocBitmap := replicate (length (allocBitmap s)) (NOT 0),
                 freeBitmap := replicate (length (freeBitmap s)) 0\<rparr>)"

definition sb_seedAllUsed :: "split_bitmap \<Rightarrow> split_bitmap" where
  "sb_seedAllUsed s =
     setHint 0 (s\<lparr>allocBitmap := replicate (length (allocBitmap s)) 0,
                 freeBitmap := replicate (length (freeBitmap s)) 0\<rparr>)"

text \<open>The scan of \<open>tryClaimBitNoDrain\<close> from word \<open>w\<close> on; the result is the bit or \<open>- 1\<close>.\<close>

function tryClaim_from :: "nat \<Rightarrow> split_bitmap \<Rightarrow> split_bitmap \<times> int" where
  "tryClaim_from w s =
     (if w < length (allocBitmap s) then
        let a = allocBitmap s ! w in
        if a \<noteq> 0 then
          let b = ctzll a;
              a' = a AND (a - 1);
              s1 = s\<lparr>allocBitmap := (allocBitmap s)[w := a']\<rparr>;
              s2 = (if useHint s \<and> a' = 0 \<and> w = unat (hint s)
                    then s1\<lparr>hint := of_nat (w + 1)\<rparr> else s1)
          in (s2, int (w * 64 + b))
        else
          tryClaim_from (w + 1)
            (if useHint s \<and> w = unat (hint s) then s\<lparr>hint := of_nat (w + 1)\<rparr> else s)
      else (s, - 1))"
  by pat_completeness auto
termination
  by (relation "measure (\<lambda>(w, s). length (allocBitmap s) - w)") auto

definition tryClaimBitNoDrain :: "split_bitmap \<Rightarrow> split_bitmap \<times> int" where
  "tryClaimBitNoDrain s = tryClaim_from (firstScanWord s) s"

text \<open>One word of the drain: exchange the free word with 0 and merge what it held.\<close>

definition drainWord :: "nat \<Rightarrow> split_bitmap \<Rightarrow> split_bitmap" where
  "drainWord w s =
     (let freed = freeBitmap s ! w
      in if freed \<noteq> 0
         then s\<lparr>freeBitmap := (freeBitmap s)[w := 0],
               allocBitmap := (allocBitmap s)[w := allocBitmap s ! w OR freed]\<rparr>
         else s\<lparr>freeBitmap := (freeBitmap s)[w := 0]\<rparr>)"

function drain_from :: "nat \<Rightarrow> nat \<Rightarrow> bool \<Rightarrow> split_bitmap \<Rightarrow> split_bitmap \<times> nat \<times> bool" where
  "drain_from w newHint drained s =
     (if w < length (freeBitmap s) then
        (if freeBitmap s ! w \<noteq> 0
         then drain_from (w + 1) (if newHint = length (freeBitmap s) then w else newHint) True
                (drainWord w s)
         else drain_from (w + 1) newHint drained (drainWord w s))
      else (s, newHint, drained))"
  by pat_completeness auto
termination
  by (relation "measure (\<lambda>(w, n, d, s). length (freeBitmap s) - w)")
    (auto simp: drainWord_def Let_def)

definition drainFreeIntoAlloc :: "split_bitmap \<Rightarrow> split_bitmap \<times> bool" where
  "drainFreeIntoAlloc s =
     (case drain_from 0 (length (freeBitmap s)) False s of
        (s', newHint, drained) \<Rightarrow> (if drained then setHint newHint s' else s', drained))"

definition claimBit :: "split_bitmap \<Rightarrow> split_bitmap \<times> int" where
  "claimBit s =
     (case tryClaimBitNoDrain s of
        (s1, b) \<Rightarrow>
          if b \<ge> 0 then (s1, b)
          else case drainFreeIntoAlloc s1 of
                 (s2, drained) \<Rightarrow> if \<not> drained then (s2, - 1) else tryClaimBitNoDrain s2)"

text \<open>
  \<open>releaseBit\<close> sets the bit first and asserts afterwards; its result says whether the free word
  was zero before. A bit number beyond the arrays is outside the storage.
\<close>

definition releaseBit :: "nat \<Rightarrow> split_bitmap \<Rightarrow> (split_bitmap \<times> bool) outcome" where
  "releaseBit b s =
     (let w = b div 64; m = bit1 (b mod 64)
      in if w < length (freeBitmap s) then
           let prev = freeBitmap s ! w;
               s' = s\<lparr>freeBitmap := (freeBitmap s)[w := prev OR m]\<rparr>
           in bindO (assertO (prev AND m = 0) ''Double free: bit already set in freeBitmap'')
                (\<lambda>_. Inr (s', prev = 0))
         else Inl (Undefined ''freeBitmap index''))"

definition releaseWord :: "nat \<Rightarrow> u64 \<Rightarrow> split_bitmap \<Rightarrow> split_bitmap outcome" where
  "releaseWord w pending s =
     (if pending = 0 then Inr s
      else
        bindO (assertO (allocBitmap s ! w AND pending = 0)
                 ''Double free: bit set in allocBitmap during release'') (\<lambda>_.
        bindO (assertO (freeBitmap s ! w AND pending = 0)
                 ''Double free: bit already set in freeBitmap'') (\<lambda>_.
        Inr (s\<lparr>freeBitmap := (freeBitmap s)[w := freeBitmap s ! w OR pending]\<rparr>))))"

function releaseBitsBulk_from :: "nat \<Rightarrow> u64 list \<Rightarrow> split_bitmap \<Rightarrow> split_bitmap outcome" where
  "releaseBitsBulk_from w pending s =
     (if w < length pending
      then case releaseWord w (pending ! w) s of
             Inl e \<Rightarrow> Inl e
           | Inr s' \<Rightarrow> releaseBitsBulk_from (w + 1) pending s'
      else Inr s)"
  by pat_completeness auto
termination
  by (relation "measure (\<lambda>(w, p, s). length p - w)") auto

definition releaseBitsBulk :: "u64 list \<Rightarrow> split_bitmap \<Rightarrow> split_bitmap outcome" where
  "releaseBitsBulk pending s = releaseBitsBulk_from 0 pending s"

definition reserveBit :: "nat \<Rightarrow> split_bitmap \<Rightarrow> split_bitmap" where
  "reserveBit b s =
     (let w = b div 64; m = bit1 (b mod 64)
      in s\<lparr>allocBitmap := (allocBitmap s)[w := allocBitmap s ! w AND NOT m],
          freeBitmap := (freeBitmap s)[w := freeBitmap s ! w AND NOT m]\<rparr>)"

definition flushWord :: "nat \<Rightarrow> split_bitmap \<Rightarrow> split_bitmap" where
  "flushWord w s =
     (if allocBitmap s ! w \<noteq> 0
      then s\<lparr>freeBitmap := (freeBitmap s)[w := freeBitmap s ! w OR allocBitmap s ! w],
            allocBitmap := (allocBitmap s)[w := 0]\<rparr>
      else s)"

definition flushAllocIntoFree :: "split_bitmap \<Rightarrow> split_bitmap" where
  "flushAllocIntoFree s = setHint 0 (fold flushWord [0..<length (allocBitmap s)] s)"

definition isBitAvailable :: "nat \<Rightarrow> split_bitmap \<Rightarrow> bool" where
  "isBitAvailable b s =
     (let w = b div 64; m = bit1 (b mod 64)
      in allocBitmap s ! w AND m \<noteq> 0 \<or> freeBitmap s ! w AND m \<noteq> 0)"

definition countAvailable :: "split_bitmap \<Rightarrow> nat" where
  "countAvailable s =
     sum_list (map (\<lambda>w. popcountll (allocBitmap s ! w) + popcountll (freeBitmap s ! w))
       [0..<length (allocBitmap s)])"

definition allocSideEmpty :: "split_bitmap \<Rightarrow> bool" where
  "allocSideEmpty s = list_all (\<lambda>w. allocBitmap s ! w = 0) [0..<length (allocBitmap s)]"

declare tryClaim_from.simps [simp del] drain_from.simps [simp del]
  releaseBitsBulk_from.simps [simp del]

section \<open>Abstraction and invariant\<close>

text \<open>
  The bits on the allocator's side, on the freers' side, and available at all. A bitmap is well
  formed when both arrays have the template's length, which the 8-bit hint can hold; the hint is
  right when no word below it has a bit; the invariant adds that no bit is on both sides.
\<close>

definition sb_alloc :: "split_bitmap \<Rightarrow> nat set" where
  "sb_alloc s = wbits (allocBitmap s)"

definition sb_free :: "split_bitmap \<Rightarrow> nat set" where
  "sb_free s = wbits (freeBitmap s)"

definition sb_avail :: "split_bitmap \<Rightarrow> nat set" where
  "sb_avail s = sb_alloc s \<union> sb_free s"

definition sb_bits :: "split_bitmap \<Rightarrow> nat" where
  "sb_bits s = 64 * length (allocBitmap s)"

definition sb_wf :: "split_bitmap \<Rightarrow> bool" where
  "sb_wf s \<longleftrightarrow> length (freeBitmap s) = length (allocBitmap s) \<and>
     (useHint s \<longrightarrow> length (allocBitmap s) < 256)"

definition hint_ok :: "split_bitmap \<Rightarrow> bool" where
  "hint_ok s \<longleftrightarrow> (useHint s \<longrightarrow>
     (\<forall>w < length (allocBitmap s). w < unat (hint s) \<longrightarrow> allocBitmap s ! w = 0))"

definition sb_inv :: "split_bitmap \<Rightarrow> bool" where
  "sb_inv s \<longleftrightarrow> sb_wf s \<and> hint_ok s \<and> sb_alloc s \<inter> sb_free s = {}"

definition same_shape :: "split_bitmap \<Rightarrow> split_bitmap \<Rightarrow> bool" where
  "same_shape s t \<longleftrightarrow> length (allocBitmap t) = length (allocBitmap s) \<and>
     length (freeBitmap t) = length (freeBitmap s) \<and> useHint t = useHint s"

lemma same_shape_refl [simp]: "same_shape s s"
  by (simp add: same_shape_def)

lemma same_shape_trans [trans]: "same_shape s t \<Longrightarrow> same_shape t u \<Longrightarrow> same_shape s u"
  by (simp add: same_shape_def)

lemma same_shape_wf: "same_shape s t \<Longrightarrow> sb_wf t \<longleftrightarrow> sb_wf s"
  by (simp add: same_shape_def sb_wf_def)

lemma same_shape_bits: "same_shape s t \<Longrightarrow> sb_bits t = sb_bits s"
  by (simp add: same_shape_def sb_bits_def)

lemma finite_sb [simp]: "finite (sb_alloc s)" "finite (sb_free s)" "finite (sb_avail s)"
  by (simp_all add: sb_alloc_def sb_free_def sb_avail_def)

lemma sb_avail_bound: "sb_wf s \<Longrightarrow> sb_avail s \<subseteq> {..<sb_bits s}"
  using wbits_subset [of "allocBitmap s"] wbits_subset [of "freeBitmap s"]
  by (simp add: sb_avail_def sb_alloc_def sb_free_def sb_wf_def sb_bits_def)

section \<open>Claiming\<close>

lemma wbits_first_word:
  assumes "w < length ws" "ws ! w \<noteq> 0" "\<forall>v < w. ws ! v = 0"
  shows "Min (wbits ws) = w * 64 + ctzll (ws ! w)"
    and "wbits (ws[w := ws ! w AND (ws ! w - 1)]) = wbits ws - {w * 64 + ctzll (ws ! w)}"
    and "w * 64 + ctzll (ws ! w) \<in> wbits ws"
proof -
  let ?a = "ws ! w" and ?b = "w * 64 + ctzll (ws ! w)"
  note c = ctzll_spec [OF assms(2)]
  show mem: "?b \<in> wbits ws" using assms(1) c(1,2) by (simp add: in_wbits)
  show "Min (wbits ws) = ?b"
  proof (rule Min_eqI)
    fix b assume b: "b \<in> wbits ws"
    with assms(3) have "w \<le> b div 64" by (auto simp: in_wbits not_less [symmetric])
    moreover have "ctzll ?a \<le> b mod 64" if "b div 64 = w"
      using b that by (auto simp: in_wbits intro: ctzll_le)
    moreover have "w * 64 + 64 \<le> b" if "w < b div 64" using that by linarith
    moreover have "b = b div 64 * 64 + b mod 64" by simp
    ultimately show "?b \<le> b"
      using c(2) by (cases "b div 64 = w") linarith+
  qed (use mem in auto)
  define X where "X = {b \<in> wbits ws. b div 64 \<noteq> w}"
  define Y where "Y = (\<lambda>i. w * 64 + i) ` bits ?a"
  have "(\<lambda>i. w * 64 + i) ` bits (?a AND (?a - 1)) = Y - {?b}"
    unfolding bits_and_minus_1 [OF assms(2)] Y_def by auto
  moreover have "wbits ws = X \<union> Y"
    using wbits_word [OF assms(1)] unfolding X_def Y_def by blast
  moreover have "?b \<notin> X" using c(2) by (simp add: X_def)
  ultimately show "wbits (ws[w := ?a AND (?a - 1)]) = wbits ws - {?b}"
    unfolding wbits_update [OF assms(1)] X_def [symmetric] by blast
qed

lemma hint_ok_of_nat:
  assumes "n < 256"
  shows "hint_ok (s\<lparr>hint := of_nat n\<rparr>) \<longleftrightarrow> (useHint s \<longrightarrow>
    (\<forall>w < length (allocBitmap s). w < n \<longrightarrow> allocBitmap s ! w = 0))"
proof -
  have "unat (of_nat n :: u8) = n" by (subst unat_of_nat) (use assms in simp)
  then show ?thesis by (simp add: hint_ok_def)
qed

lemma hint_ok_advance:
  assumes "sb_wf s" "hint_ok s" "w = unat (hint s)" "w < length (allocBitmap s)"
    "allocBitmap s ! w = 0" "useHint s"
  shows "hint_ok (s\<lparr>hint := of_nat (w + 1)\<rparr>)"
proof -
  have "w + 1 < 256" using assms(1,4,6) by (simp add: sb_wf_def)
  with assms(2,3,5) show ?thesis by (subst hint_ok_of_nat) (auto simp: hint_ok_def less_Suc_eq)
qed

definition claim_post :: "split_bitmap \<Rightarrow> split_bitmap \<times> int \<Rightarrow> bool" where
  "claim_post s = (\<lambda>(s', r). same_shape s s' \<and> hint_ok s' \<and> freeBitmap s' = freeBitmap s \<and>
     (if sb_alloc s = {} then r = - 1 \<and> allocBitmap s' = allocBitmap s
      else r = int (Min (sb_alloc s)) \<and> sb_alloc s' = sb_alloc s - {Min (sb_alloc s)}))"

lemma claim_post_cong:
  assumes "claim_post t p" "same_shape s t" "allocBitmap t = allocBitmap s"
    "freeBitmap t = freeBitmap s"
  shows "claim_post s p"
proof -
  have "sb_alloc t = sb_alloc s" using assms(3) by (simp add: sb_alloc_def)
  with assms show ?thesis by (cases p) (simp add: claim_post_def same_shape_def)
qed

lemma tryClaim_from_spec:
  assumes "sb_wf s" "hint_ok s" "\<forall>v < w. v < length (allocBitmap s) \<longrightarrow> allocBitmap s ! v = 0"
  shows "claim_post s (tryClaim_from w s)"
  using assms
proof (induction w s rule: tryClaim_from.induct)
  case (1 w s)
  let ?a = "allocBitmap s ! w"
  show ?case
  proof (cases "w < length (allocBitmap s)")
    case False
    with "1.prems"(3) have "sb_alloc s = {}" by (auto simp: sb_alloc_def wbits_empty_iff)
    with False "1.prems" show ?thesis
      by (simp add: tryClaim_from.simps [of w s] claim_post_def)
  next
    case w: True
    show ?thesis
    proof (cases "?a = 0")
      case True
      define t where
        "t = (if useHint s \<and> w = unat (hint s) then s\<lparr>hint := of_nat (w + 1)\<rparr> else s)"
      have t: "same_shape s t" "allocBitmap t = allocBitmap s" "freeBitmap t = freeBitmap s"
        by (simp_all add: t_def same_shape_def)
      have h: "hint_ok t"
        using "1.prems"(1,2) w True hint_ok_advance [of s w] unfolding t_def by presburger
      have "claim_post t (tryClaim_from (w + 1) t)"
        unfolding t_def
        using w True "1.prems" h t same_shape_wf [OF t(1)]
        by (intro "1.IH") (auto simp: less_Suc_eq t_def [symmetric] simp del: of_nat_add)
      moreover have "tryClaim_from w s = tryClaim_from (w + 1) t"
        unfolding t_def using w True by (subst tryClaim_from.simps) (simp only: Let_def if_True if_False not_True_eq_False simp_thms)
      ultimately show ?thesis using claim_post_cong [OF _ t] by simp
    next
      case False
      let ?a' = "?a AND (?a - 1)"
      let ?s1 = "s\<lparr>allocBitmap := (allocBitmap s)[w := ?a']\<rparr>"
      let ?s2 = "if useHint s \<and> ?a' = 0 \<and> w = unat (hint s)
        then ?s1\<lparr>hint := of_nat (w + 1)\<rparr> else ?s1"
      have z: "\<forall>v < w. allocBitmap s ! v = 0" using "1.prems"(3) w by simp
      note f = wbits_first_word [OF w False z]
      have "unat (hint s) \<le> w" if "useHint s"
        using "1.prems"(2) w False that by (auto simp: hint_ok_def not_less [symmetric])
      then have s1: "hint_ok ?s1" using "1.prems"(2) by (auto simp: hint_ok_def)
      have "sb_wf ?s1" using "1.prems"(1) by (simp add: sb_wf_def)
      then have "hint_ok ?s2" using s1 w hint_ok_advance [of ?s1 w] by (auto simp del: of_nat_add)
      moreover have "tryClaim_from w s = (?s2, int (w * 64 + ctzll ?a))"
        using w False by (simp add: tryClaim_from.simps [of w s] Let_def)
      ultimately show ?thesis
        using f by (auto simp: claim_post_def same_shape_def sb_alloc_def)
    qed
  qed
qed

lemma tryClaimBitNoDrain_spec:
  assumes "sb_wf s" "hint_ok s"
  shows "claim_post s (tryClaimBitNoDrain s)"
  unfolding tryClaimBitNoDrain_def
  by (rule tryClaim_from_spec) (use assms in \<open>auto simp: firstScanWord_def hint_ok_def\<close>)

section \<open>Draining\<close>

lemma drainWord_sel:
  assumes "w < length (freeBitmap s)" "sb_wf s"
  shows "same_shape s (drainWord w s)" "hint (drainWord w s) = hint s"
    "v < length (freeBitmap s) \<Longrightarrow>
       freeBitmap (drainWord w s) ! v = (if v = w then 0 else freeBitmap s ! v)"
    "v < length (freeBitmap s) \<Longrightarrow>
       allocBitmap (drainWord w s) ! v =
         (if v = w then allocBitmap s ! v OR freeBitmap s ! v else allocBitmap s ! v)"
  using assms by (auto simp: drainWord_def Let_def same_shape_def sb_wf_def nth_list_update)

definition drain_post :: "nat \<Rightarrow> nat \<Rightarrow> bool \<Rightarrow> split_bitmap \<Rightarrow> split_bitmap \<times> nat \<times> bool \<Rightarrow> bool"
where
  "drain_post w nh dr s = (\<lambda>(s', nh', dr'). same_shape s s' \<and> hint s' = hint s \<and>
     (\<forall>v < length (freeBitmap s).
        freeBitmap s' ! v = (if v < w then freeBitmap s ! v else 0) \<and>
        allocBitmap s' ! v =
          (if v < w then allocBitmap s ! v else allocBitmap s ! v OR freeBitmap s ! v)) \<and>
     dr' = (dr \<or> (\<exists>v < length (freeBitmap s). w \<le> v \<and> freeBitmap s ! v \<noteq> 0)) \<and>
     (nh = length (freeBitmap s) \<longrightarrow> nh' \<le> length (freeBitmap s) \<and>
        (\<forall>v < nh'. w \<le> v \<longrightarrow> freeBitmap s ! v = 0)) \<and>
     (nh \<noteq> length (freeBitmap s) \<longrightarrow> nh' = nh))"

lemma drain_from_spec:
  assumes "sb_wf s"
  shows "drain_post w nh dr s (drain_from w nh dr s)"
  using assms
proof (induction w nh dr s rule: drain_from.induct)
  case (1 w nh dr s)
  show ?case
  proof (cases "w < length (freeBitmap s)")
    case False
    then show ?thesis by (auto simp: drain_from.simps [of w nh dr s] drain_post_def)
  next
    case w: True
    define t where "t = drainWord w s"
    note t = drainWord_sel [OF w "1.prems", folded t_def]
    have wft: "sb_wf t" using t(1) "1.prems" by (simp add: same_shape_wf)
    have len: "length (freeBitmap t) = length (freeBitmap s)" using t(1) by (simp add: same_shape_def)
    define nh1 where
      "nh1 = (if freeBitmap s ! w \<noteq> 0 \<and> nh = length (freeBitmap s) then w else nh)"
    define dr1 where "dr1 = (freeBitmap s ! w \<noteq> 0 \<or> dr)"
    have step: "drain_from w nh dr s = drain_from (w + 1) nh1 dr1 t"
      using w by (simp add: drain_from.simps [of w nh dr s] t_def nh1_def dr1_def)
    have IH: "drain_post (w + 1) nh1 dr1 t (drain_from (w + 1) nh1 dr1 t)"
      using "1.IH" [OF w] wft unfolding t_def nh1_def dr1_def by (cases "freeBitmap s ! w = 0") auto
    obtain s' nh' dr' where r: "drain_from (w + 1) nh1 dr1 t = (s', nh', dr')"
      by (metis prod_cases3)
    have sh: "same_shape s s'" "hint s' = hint s"
      using IH r t(1,2) same_shape_trans by (auto simp: drain_post_def)
    have words: "freeBitmap s' ! v = (if v < w then freeBitmap s ! v else 0)"
      "allocBitmap s' ! v =
         (if v < w then allocBitmap s ! v else allocBitmap s ! v OR freeBitmap s ! v)"
      if "v < length (freeBitmap s)" for v
      using IH r that len t(3,4) [OF that] by (auto simp: drain_post_def less_Suc_eq split: if_splits)
    have ex: "(\<exists>v < length (freeBitmap s). w + 1 \<le> v \<and> freeBitmap t ! v \<noteq> 0)
        \<longleftrightarrow> (\<exists>v < length (freeBitmap s). w + 1 \<le> v \<and> freeBitmap s ! v \<noteq> 0)"
      using t(3) by (metis not_less_eq_eq Suc_eq_plus1 order_refl)
    have dr': "dr' = (dr \<or> (\<exists>v < length (freeBitmap s). w \<le> v \<and> freeBitmap s ! v \<noteq> 0))"
    proof -
      have "dr' = (dr1 \<or> (\<exists>v < length (freeBitmap s). w + 1 \<le> v \<and> freeBitmap s ! v \<noteq> 0))"
        using IH r ex len by (simp add: drain_post_def)
      moreover have "(\<exists>v < length (freeBitmap s). w \<le> v \<and> freeBitmap s ! v \<noteq> 0) \<longleftrightarrow>
          freeBitmap s ! w \<noteq> 0 \<or> (\<exists>v < length (freeBitmap s). w + 1 \<le> v \<and> freeBitmap s ! v \<noteq> 0)"
        using w by (auto simp: Suc_le_eq le_less)
      ultimately show ?thesis by (auto simp: dr1_def)
    qed
    have nh': "nh' \<le> length (freeBitmap s) \<and> (\<forall>v < nh'. w \<le> v \<longrightarrow> freeBitmap s ! v = 0)"
      if "nh = length (freeBitmap s)"
    proof (cases "freeBitmap s ! w = 0")
      case True
      with IH r len that have le: "nh' \<le> length (freeBitmap s)"
        and z: "\<forall>v < nh'. w + 1 \<le> v \<longrightarrow> freeBitmap t ! v = 0"
        by (auto simp: drain_post_def nh1_def)
      have "freeBitmap s ! v = 0" if v: "v < nh'" "w \<le> v" for v
        using True z v le t(3) [of v] by (cases "v = w") auto
      with le show ?thesis by blast
    next
      case False
      with IH r len that w show ?thesis by (auto simp: drain_post_def nh1_def)
    qed
    have "nh' = nh" if "nh \<noteq> length (freeBitmap s)"
      using IH r len that by (auto simp: drain_post_def nh1_def)
    with sh words dr' nh' show ?thesis
      unfolding step r drain_post_def by simp
  qed
qed

lemma wbits_pointwise_or:
  assumes "length us = length ws" "length vs = length ws"
    "\<And>v. v < length ws \<Longrightarrow> us ! v = ws ! v OR vs ! v"
  shows "wbits us = wbits ws \<union> wbits vs"
  using assms by (auto simp: in_wbits bit_or_iff)

lemma setHint_sel [simp]:
  "allocBitmap (setHint w s) = allocBitmap s" "freeBitmap (setHint w s) = freeBitmap s"
  "useHint (setHint w s) = useHint s"
  by (simp_all add: setHint_def)

lemma same_shape_setHint [simp]: "same_shape s (setHint w t) \<longleftrightarrow> same_shape s t"
  by (simp add: same_shape_def)

lemma hint_ok_setHint:
  assumes "sb_wf s" "n \<le> length (allocBitmap s)"
    "\<And>w. w < n \<Longrightarrow> allocBitmap s ! w = 0"
  shows "hint_ok (setHint n s)"
  using assms hint_ok_of_nat [of n s]
  by (cases "useHint s") (auto simp: setHint_def sb_wf_def hint_ok_def simp del: of_nat_add)

lemma hint_ok_setHint_0 [simp]: "hint_ok (setHint 0 s)"
  by (simp add: setHint_def hint_ok_def)

lemma drainFreeIntoAlloc_spec:
  assumes wf: "sb_wf s" and d: "drainFreeIntoAlloc s = (s', drained)"
  shows "same_shape s s'" "sb_alloc s' = sb_avail s" "sb_free s' = {}"
    "drained \<longleftrightarrow> sb_free s \<noteq> {}"
    "hint_ok s \<Longrightarrow> sb_alloc s = {} \<Longrightarrow> hint_ok s'"
proof -
  obtain t nh where r: "drain_from 0 (length (freeBitmap s)) False s = (t, nh, drained)"
    and s': "s' = (if drained then setHint nh t else t)"
    using d by (auto simp: drainFreeIntoAlloc_def split: prod.splits)
  have len: "length (freeBitmap s) = length (allocBitmap s)" using wf by (simp add: sb_wf_def)
  have P: "drain_post 0 (length (freeBitmap s)) False s (t, nh, drained)"
    using drain_from_spec [OF wf, of 0 "length (freeBitmap s)" False] r by simp
  then have sh: "same_shape s t" and h: "hint t = hint s" by (auto simp: drain_post_def)
  then show "same_shape s s'" by (simp add: s')
  have "wbits (allocBitmap t) = wbits (allocBitmap s) \<union> wbits (freeBitmap s)"
    by (rule wbits_pointwise_or) (use P sh len in \<open>simp_all add: drain_post_def same_shape_def\<close>)
  then show "sb_alloc s' = sb_avail s"
    by (simp add: s' sb_alloc_def sb_avail_def sb_free_def)
  show "sb_free s' = {}"
    using P sh by (auto simp: s' sb_free_def wbits_empty_iff drain_post_def same_shape_def)
  show "drained \<longleftrightarrow> sb_free s \<noteq> {}"
    using P by (auto simp: sb_free_def wbits_empty_iff drain_post_def)
  show "hint_ok s'" if "hint_ok s" "sb_alloc s = {}"
  proof (cases drained)
    case True
    have "\<And>v. v < length (allocBitmap s) \<Longrightarrow> allocBitmap s ! v = 0"
      using that(2) by (simp add: sb_alloc_def wbits_empty_iff)
    with P len have "nh \<le> length (allocBitmap t)" "\<And>v. v < nh \<Longrightarrow> allocBitmap t ! v = 0"
      using sh by (auto simp: drain_post_def same_shape_def)
    then show ?thesis
      using True hint_ok_setHint [of t nh] same_shape_wf [OF sh] wf by (simp add: s')
  next
    case False
    with P len have "\<forall>v < length (allocBitmap s). allocBitmap t ! v = allocBitmap s ! v"
      by (auto simp: drain_post_def)
    with False that(1) sh h show ?thesis by (auto simp: s' hint_ok_def same_shape_def)
  qed
qed

lemma sb_inv_parts: "sb_inv s \<Longrightarrow> sb_wf s" "sb_inv s \<Longrightarrow> hint_ok s"
  "sb_inv s \<Longrightarrow> sb_alloc s \<inter> sb_free s = {}"
  by (simp_all add: sb_inv_def)

lemma tryClaim_None:
  assumes "sb_inv s" "tryClaimBitNoDrain s = (s', r)" "r < 0"
  shows "sb_inv s'" "same_shape s s'" "sb_alloc s = {}" "sb_alloc s' = {}" "sb_free s' = sb_free s"
    "r = - 1"
  using tryClaimBitNoDrain_spec [of s] assms
  by (auto simp: claim_post_def sb_inv_def same_shape_wf sb_alloc_def sb_free_def split: if_splits)

lemma tryClaim_Some:
  assumes "sb_inv s" "tryClaimBitNoDrain s = (s', r)" "r \<ge> 0"
  shows "sb_inv s'" "same_shape s s'" "nat r = Min (sb_alloc s)" "nat r \<in> sb_alloc s"
    "sb_alloc s' = sb_alloc s - {nat r}" "sb_free s' = sb_free s"
proof -
  have P: "claim_post s (s', r)" using tryClaimBitNoDrain_spec [of s] assms by (simp add: sb_inv_def)
  with assms(3) have ne: "sb_alloc s \<noteq> {}" by (auto simp: claim_post_def split: if_splits)
  with P show n: "nat r = Min (sb_alloc s)" and a: "sb_alloc s' = sb_alloc s - {nat r}"
    and sh: "same_shape s s'" and f: "sb_free s' = sb_free s"
    by (auto simp: claim_post_def sb_free_def)
  show "nat r \<in> sb_alloc s" unfolding n by (rule Min_in) (use ne in auto)
  show "sb_inv s'"
    using P a f assms(1) same_shape_wf [OF sh] by (auto simp: sb_inv_def claim_post_def)
qed

lemma drain_inv:
  assumes "sb_inv s" "drainFreeIntoAlloc s = (s', drained)" "sb_alloc s = {}"
  shows "sb_inv s'" "same_shape s s'" "sb_alloc s' = sb_free s" "sb_free s' = {}"
    "drained \<longleftrightarrow> sb_free s \<noteq> {}"
  using drainFreeIntoAlloc_spec [OF _ assms(2)] assms(1,3)
  by (auto simp: sb_inv_def sb_avail_def same_shape_wf)

lemma claimBit_cases:
  assumes "sb_inv s" "claimBit s = (s', r)"
  shows "sb_inv s'" "same_shape s s'"
    "sb_avail s = {} \<Longrightarrow> r = - 1 \<and> sb_avail s' = {}"
    "sb_avail s \<noteq> {} \<Longrightarrow> r \<ge> 0 \<and> sb_avail s' = sb_avail s - {nat r} \<and>
       nat r = Min (if sb_alloc s = {} then sb_free s else sb_alloc s)"
proof -
  obtain s1 b where c: "tryClaimBitNoDrain s = (s1, b)" by force
  obtain s2 d where dr: "drainFreeIntoAlloc s1 = (s2, d)" by force
  consider (hit) "b \<ge> 0" | (dry) "b < 0" "\<not> d" | (drained) "b < 0" d by linarith
  then have "sb_inv s' \<and> same_shape s s' \<and> (sb_avail s = {} \<longrightarrow> r = - 1 \<and> sb_avail s' = {}) \<and>
    (sb_avail s \<noteq> {} \<longrightarrow> r \<ge> 0 \<and> sb_avail s' = sb_avail s - {nat r} \<and>
       nat r = Min (if sb_alloc s = {} then sb_free s else sb_alloc s))"
  proof cases
    case hit
    with assms(2) c have r: "s' = s1" "r = b" by (auto simp: claimBit_def)
    note t = tryClaim_Some [OF assms(1) c hit]
    have "nat b \<notin> sb_free s" using t(4) assms(1) by (auto simp: sb_inv_def)
    with t hit r show ?thesis by (auto simp: sb_avail_def)
  next
    case dry
    note t = tryClaim_None [OF assms(1) c dry(1)]
    note u = drain_inv [OF t(1) dr t(4)]
    from assms(2) c dr dry have r: "s' = s2" "r = - 1" by (auto simp: claimBit_def)
    with t u dry show ?thesis
      using same_shape_trans [OF t(2) u(2)] by (simp add: sb_avail_def)
  next
    case drained
    note t = tryClaim_None [OF assms(1) c drained(1)]
    note u = drain_inv [OF t(1) dr t(4)]
    from assms(2) c dr drained have r: "tryClaimBitNoDrain s2 = (s', r)" by (auto simp: claimBit_def)
    have "\<not> r < 0" using tryClaim_None(3) [OF u(1) r] u(3,5) t(5) drained by auto
    then have "0 \<le> r" by simp
    note v = tryClaim_Some [OF u(1) r this]
    have sh: "same_shape s s'"
      using same_shape_trans [OF same_shape_trans [OF t(2) u(2)] v(2)] .
    with v u t \<open>0 \<le> r\<close> show ?thesis by (auto simp: sb_avail_def)
  qed
  then show "sb_inv s'" "same_shape s s'"
    "sb_avail s = {} \<Longrightarrow> r = - 1 \<and> sb_avail s' = {}"
    "sb_avail s \<noteq> {} \<Longrightarrow> r \<ge> 0 \<and> sb_avail s' = sb_avail s - {nat r} \<and>
       nat r = Min (if sb_alloc s = {} then sb_free s else sb_alloc s)"
    by blast+
qed

lemma claimBit_mem: "sb_inv s \<Longrightarrow> claimBit s = (s', r) \<Longrightarrow> sb_avail s \<noteq> {} \<Longrightarrow> nat r \<in> sb_avail s"
proof -
  assume a: "sb_inv s" "claimBit s = (s', r)" "sb_avail s \<noteq> {}"
  have "Min (if sb_alloc s = {} then sb_free s else sb_alloc s) \<in>
      (if sb_alloc s = {} then sb_free s else sb_alloc s)"
    using a(3) by (intro Min_in) (auto simp: sb_avail_def)
  with claimBit_cases(4) [OF a] show ?thesis by (auto simp: sb_avail_def split: if_splits)
qed

section \<open>Releasing, reserving, flushing, seeding\<close>

lemma eq_iff_div_mod_64: "x = b \<longleftrightarrow> x div 64 = b div 64 \<and> x mod 64 = b mod (64 :: nat)"
  by (metis div_mult_mod_eq)

lemma wbits_set_bit:
  assumes "b div 64 < length ws"
  shows "wbits (ws[b div 64 := ws ! (b div 64) OR bit1 (b mod 64)]) = insert b (wbits ws)"
proof (rule set_eqI)
  fix x
  show "x \<in> wbits (ws[b div 64 := ws ! (b div 64) OR bit1 (b mod 64)]) \<longleftrightarrow> x \<in> insert b (wbits ws)"
    using assms eq_iff_div_mod_64 [of x b]
    by (cases "x div 64 = b div 64") (simp_all add: in_wbits bit_or_iff bit_bit1 disj_commute)
qed

lemma wbits_clear_bit:
  assumes "b div 64 < length ws"
  shows "wbits (ws[b div 64 := ws ! (b div 64) AND NOT (bit1 (b mod 64))]) = wbits ws - {b}"
proof (rule set_eqI)
  fix x
  show "x \<in> wbits (ws[b div 64 := ws ! (b div 64) AND NOT (bit1 (b mod 64))])
      \<longleftrightarrow> x \<in> wbits ws - {b}"
    using assms eq_iff_div_mod_64 [of x b]
    by (cases "x div 64 = b div 64") (auto simp: in_wbits bit_and_iff bit_not_iff bit_bit1)
qed

lemma releaseBit_ok:
  assumes "sb_wf s" "b < sb_bits s" "b \<notin> sb_free s"
  shows "\<exists>s' z. releaseBit b s = Inr (s', z) \<and> same_shape s s' \<and> allocBitmap s' = allocBitmap s \<and>
    hint s' = hint s \<and> sb_free s' = insert b (sb_free s)"
proof -
  let ?w = "b div 64" and ?m = "bit1 (b mod 64)"
  have w: "?w < length (freeBitmap s)" using assms(1,2) by (auto simp: sb_wf_def sb_bits_def)
  have "freeBitmap s ! ?w AND ?m = 0"
    using assms(3) w by (simp add: sb_free_def in_wbits and_bit1_eq_0_iff)
  then show ?thesis
    using w wbits_set_bit [OF w] by (simp add: releaseBit_def Let_def same_shape_def sb_free_def)
qed

lemma releaseBit_double:
  assumes "b \<in> sb_free s"
  shows "releaseBit b s = Inl (Assertion ''Double free: bit already set in freeBitmap'')"
  using assms and_bit1_iff [of "b mod 64" "freeBitmap s ! (b div 64)"]
  by (simp add: releaseBit_def Let_def sb_free_def in_wbits)

lemma releaseBit_inv:
  assumes "sb_inv s" "b < sb_bits s" "b \<notin> sb_avail s"
  shows "\<exists>s' z. releaseBit b s = Inr (s', z) \<and> same_shape s s' \<and> sb_inv s' \<and>
    sb_alloc s' = sb_alloc s \<and> sb_free s' = insert b (sb_free s)"
proof -
  from assms obtain s' z where r: "releaseBit b s = Inr (s', z)" and sh: "same_shape s s'"
    and p: "allocBitmap s' = allocBitmap s" "hint s' = hint s" "sb_free s' = insert b (sb_free s)"
    using releaseBit_ok [of s b] by (auto simp: sb_inv_def sb_avail_def)
  have "sb_inv s'"
    using assms p sh same_shape_wf [OF sh]
    by (auto simp: sb_inv_def hint_ok_def same_shape_def sb_avail_def sb_alloc_def)
  with r sh p show ?thesis by (auto simp: sb_alloc_def)
qed

interpretation sb: slot_store claimBit releaseBit sb_avail sb_bits sb_inv
proof (unfold_locales, goal_cases)
  case (1 s) show ?case by simp
next
  case (2 s) then show ?case using sb_avail_bound by (simp add: sb_inv_def)
next
  case (3 s s' b)
  then show ?case using claimBit_cases [of s s' b] same_shape_bits by auto
next
  case (4 s s' b)
  then show ?case
    using claimBit_cases [of s s' b] same_shape_bits [of s s'] claimBit_mem [of s s' b] by simp
next
  case (5 s b)
  then show ?case using releaseBit_inv [of s b] same_shape_bits
    by (fastforce simp: sb_avail_def)
qed

lemma releaseWord_ok_iff:
  "releaseWord w p s = Inr s' \<longleftrightarrow>
     (p = 0 \<and> s' = s) \<or>
     (p \<noteq> 0 \<and> allocBitmap s ! w AND p = 0 \<and> freeBitmap s ! w AND p = 0 \<and>
      s' = s\<lparr>freeBitmap := (freeBitmap s)[w := freeBitmap s ! w OR p]\<rparr>)"
  by (auto simp: releaseWord_def bindO_eq_Inr_iff)

definition bulk_ok :: "nat \<Rightarrow> u64 list \<Rightarrow> split_bitmap \<Rightarrow> bool" where
  "bulk_ok w pending s \<longleftrightarrow> (\<forall>v < length pending. w \<le> v \<longrightarrow>
     allocBitmap s ! v AND pending ! v = 0 \<and> freeBitmap s ! v AND pending ! v = 0)"

lemma bulk_ok_step:
  assumes "w < length pending" "releaseWord w (pending ! w) s = Inr t"
  shows "bulk_ok w pending s \<longleftrightarrow> bulk_ok (w + 1) pending t"
  using assms by (auto simp: bulk_ok_def releaseWord_ok_iff Suc_le_eq le_less)

lemma releaseBitsBulk_from_spec:
  assumes "length pending = length (freeBitmap s)"
  shows "case releaseBitsBulk_from w pending s of
      Inl _ \<Rightarrow> \<not> bulk_ok w pending s
    | Inr s' \<Rightarrow> bulk_ok w pending s \<and> allocBitmap s' = allocBitmap s \<and> hint s' = hint s \<and>
        useHint s' = useHint s \<and> length (freeBitmap s') = length (freeBitmap s) \<and>
        (\<forall>v < length pending. freeBitmap s' ! v =
           (if w \<le> v then freeBitmap s ! v OR pending ! v else freeBitmap s ! v))"
  using assms
proof (induction w pending s rule: releaseBitsBulk_from.induct)
  case (1 w pending s)
  show ?case
  proof (cases "w < length pending")
    case False
    then show ?thesis by (simp add: releaseBitsBulk_from.simps [of w pending s] bulk_ok_def)
  next
    case w: True
    show ?thesis
    proof (cases "releaseWord w (pending ! w) s")
      case (Inl e)
      then have "\<not> bulk_ok w pending s"
        using w by (auto simp: releaseWord_def bulk_ok_def assertO_def split: if_splits)
      with Inl w show ?thesis by (simp add: releaseBitsBulk_from.simps [of w pending s])
    next
      case (Inr t)
      then have t: "allocBitmap t = allocBitmap s" "hint t = hint s" "useHint t = useHint s"
        "length (freeBitmap t) = length (freeBitmap s)"
        "\<And>v. v < length pending \<Longrightarrow> freeBitmap t ! v =
           (if v = w then freeBitmap s ! v OR pending ! v else freeBitmap s ! v)"
        using "1.prems" by (auto simp: releaseWord_ok_iff nth_list_update)
      have "releaseBitsBulk_from w pending s = releaseBitsBulk_from (w + 1) pending t"
        using w Inr by (simp add: releaseBitsBulk_from.simps [of w pending s])
      moreover note IH = "1.IH" [OF w Inr] and bs = bulk_ok_step [OF w Inr]
      ultimately show ?thesis
        using IH t bs "1.prems"
        by (cases "releaseBitsBulk_from (w + 1) pending t") (auto simp: Suc_le_eq)
    qed
  qed
qed

lemma bulk_ok_disjoint:
  assumes "sb_wf s" "length pending = length (freeBitmap s)"
  shows "bulk_ok 0 pending s \<longleftrightarrow> wbits pending \<inter> sb_avail s = {}"
proof
  assume "bulk_ok 0 pending s"
  then have "\<And>v. v < length pending \<Longrightarrow> bits (allocBitmap s ! v) \<inter> bits (pending ! v) = {} \<and>
      bits (freeBitmap s ! v) \<inter> bits (pending ! v) = {}"
    by (simp add: bulk_ok_def and_eq_0_iff_disjoint)
  then show "wbits pending \<inter> sb_avail s = {}"
    by (fastforce simp: sb_avail_def sb_alloc_def sb_free_def in_wbits disjoint_iff)
next
  assume d: "wbits pending \<inter> sb_avail s = {}"
  show "bulk_ok 0 pending s"
    unfolding bulk_ok_def and_eq_0_iff_disjoint
  proof (intro allI impI conjI)
    fix v assume v: "v < length pending"
    have len: "v < length (allocBitmap s)" using v assms by (simp add: sb_wf_def)
    have n: "\<not> bit (allocBitmap s ! v) i \<and> \<not> bit (freeBitmap s ! v) i" if i: "bit (pending ! v) i" for i
    proof -
      have "i < 64" using i by (rule bit_u64_lt)
      then have "v * 64 + i \<in> wbits pending" using i v by (simp add: in_wbits)
      with d have "v * 64 + i \<notin> sb_avail s" by blast
      then show ?thesis using \<open>i < 64\<close> v len assms
        by (simp add: sb_avail_def sb_alloc_def sb_free_def in_wbits)
    qed
    show "bits (allocBitmap s ! v) \<inter> bits (pending ! v) = {}" using n by auto
    show "bits (freeBitmap s ! v) \<inter> bits (pending ! v) = {}" using n by auto
  qed
qed

lemma releaseBitsBulk_spec:
  assumes "sb_inv s" "length pending = length (freeBitmap s)"
  shows "case releaseBitsBulk pending s of
      Inl _ \<Rightarrow> wbits pending \<inter> sb_avail s \<noteq> {}
    | Inr s' \<Rightarrow> wbits pending \<inter> sb_avail s = {} \<and> sb_inv s' \<and> same_shape s s' \<and>
        sb_alloc s' = sb_alloc s \<and> sb_free s' = sb_free s \<union> wbits pending"
proof (cases "releaseBitsBulk pending s")
  case (Inl e)
  then show ?thesis
    using releaseBitsBulk_from_spec [OF assms(2), of 0] bulk_ok_disjoint [OF _ assms(2)] assms(1)
    by (simp add: releaseBitsBulk_def sb_inv_def)
next
  case (Inr s')
  have P: "bulk_ok 0 pending s" "allocBitmap s' = allocBitmap s" "hint s' = hint s"
    "useHint s' = useHint s" "length (freeBitmap s') = length (freeBitmap s)"
    "\<And>v. v < length pending \<Longrightarrow> freeBitmap s' ! v = freeBitmap s ! v OR pending ! v"
    using releaseBitsBulk_from_spec [OF assms(2), of 0] Inr by (auto simp: releaseBitsBulk_def)
  have d: "wbits pending \<inter> sb_avail s = {}"
    using P(1) bulk_ok_disjoint [OF _ assms(2)] assms(1) by (simp add: sb_inv_def)
  have f: "sb_free s' = sb_free s \<union> wbits pending"
    unfolding sb_free_def by (rule wbits_pointwise_or) (use P assms(2) in auto)
  have sh: "same_shape s s'" using P by (simp add: same_shape_def)
  have "sb_inv s'"
    using assms(1) P(2-4) d f same_shape_wf [OF sh]
    by (auto simp: sb_inv_def hint_ok_def sb_alloc_def sb_avail_def)
  with Inr d f sh P(2) show ?thesis by (simp add: sb_alloc_def)
qed

lemma reserveBit_spec:
  assumes "sb_inv s" "b < sb_bits s"
  shows "sb_inv (reserveBit b s)" "same_shape s (reserveBit b s)"
    "sb_alloc (reserveBit b s) = sb_alloc s - {b}" "sb_free (reserveBit b s) = sb_free s - {b}"
    "sb_avail (reserveBit b s) = sb_avail s - {b}"
proof -
  have w: "b div 64 < length (allocBitmap s)" "b div 64 < length (freeBitmap s)"
    using assms by (auto simp: sb_inv_def sb_wf_def sb_bits_def)
  show sh: "same_shape s (reserveBit b s)"
    by (simp add: reserveBit_def Let_def same_shape_def)
  show a: "sb_alloc (reserveBit b s) = sb_alloc s - {b}" "sb_free (reserveBit b s) = sb_free s - {b}"
    using wbits_clear_bit w by (simp_all add: reserveBit_def Let_def sb_alloc_def sb_free_def)
  have "hint_ok (reserveBit b s)"
    using assms(1) by (simp add: sb_inv_def hint_ok_def reserveBit_def Let_def)
      (metis and_zero_eq nth_list_update nth_list_update_neq zero_and_eq)
  with a assms(1) same_shape_wf [OF sh] show "sb_inv (reserveBit b s)" by (auto simp: sb_inv_def)
  show "sb_avail (reserveBit b s) = sb_avail s - {b}" using a by (auto simp: sb_avail_def)
qed

lemma isBitAvailable_iff: "sb_wf s \<Longrightarrow> b < sb_bits s \<Longrightarrow> isBitAvailable b s \<longleftrightarrow> b \<in> sb_avail s"
  by (auto simp: isBitAvailable_def Let_def sb_wf_def sb_bits_def sb_avail_def sb_alloc_def
      sb_free_def in_wbits and_bit1_eq_0_iff)

lemma flushWord_sel:
  assumes "w < length (allocBitmap s)" "length (freeBitmap s) = length (allocBitmap s)"
  shows "same_shape s (flushWord w s)"
    "v < length (allocBitmap s) \<Longrightarrow>
       allocBitmap (flushWord w s) ! v = (if v = w then 0 else allocBitmap s ! v)"
    "v < length (allocBitmap s) \<Longrightarrow>
       freeBitmap (flushWord w s) ! v =
         (if v = w then freeBitmap s ! v OR allocBitmap s ! v else freeBitmap s ! v)"
  using assms by (auto simp: flushWord_def same_shape_def nth_list_update)

lemma fold_flushWord:
  assumes "sb_wf s" "n \<le> length (allocBitmap s)"
  shows "same_shape s (fold flushWord [0..<n] s) \<and>
    (\<forall>v < length (allocBitmap s).
      allocBitmap (fold flushWord [0..<n] s) ! v = (if v < n then 0 else allocBitmap s ! v) \<and>
      freeBitmap (fold flushWord [0..<n] s) ! v =
        (if v < n then freeBitmap s ! v OR allocBitmap s ! v else freeBitmap s ! v))"
  using assms(2)
proof (induction n)
  case 0
  then show ?case by simp
next
  case (Suc n)
  define t where "t = fold flushWord [0..<n] s"
  have IH: "same_shape s t" "\<And>v. v < length (allocBitmap s) \<Longrightarrow>
      allocBitmap t ! v = (if v < n then 0 else allocBitmap s ! v) \<and>
      freeBitmap t ! v = (if v < n then freeBitmap s ! v OR allocBitmap s ! v else freeBitmap s ! v)"
    using Suc by (auto simp: t_def)
  have step: "fold flushWord [0..<Suc n] s = flushWord n t" by (simp add: t_def)
  have len: "length (allocBitmap t) = length (allocBitmap s)"
    using IH(1) by (simp add: same_shape_def)
  have "n < length (allocBitmap t)" "length (freeBitmap t) = length (allocBitmap t)"
    using Suc.prems IH(1) assms(1) by (auto simp: same_shape_def sb_wf_def)
  note W = flushWord_sel [OF this]
  have "same_shape s (flushWord n t)" using same_shape_trans [OF IH(1) W(1)] .
  moreover have "allocBitmap (flushWord n t) ! v = (if v < Suc n then 0 else allocBitmap s ! v) \<and>
      freeBitmap (flushWord n t) ! v =
        (if v < Suc n then freeBitmap s ! v OR allocBitmap s ! v else freeBitmap s ! v)"
    if "v < length (allocBitmap s)" for v
    using W(2,3) [of v] IH(2) [OF that] that len by (cases "v = n") (auto simp: less_Suc_eq)
  ultimately show ?case unfolding step by blast
qed

lemma flushAllocIntoFree_spec:
  assumes "sb_inv s"
  shows "sb_inv (flushAllocIntoFree s)" "same_shape s (flushAllocIntoFree s)"
    "sb_alloc (flushAllocIntoFree s) = {}" "sb_free (flushAllocIntoFree s) = sb_avail s"
proof -
  define t where "t = fold flushWord [0..<length (allocBitmap s)] s"
  have wf: "sb_wf s" "length (freeBitmap s) = length (allocBitmap s)"
    using assms by (auto simp: sb_inv_def sb_wf_def)
  note F = fold_flushWord [OF wf(1) order_refl, folded t_def]
  have r: "flushAllocIntoFree s = setHint 0 t" by (simp add: flushAllocIntoFree_def t_def)
  show sh: "same_shape s (flushAllocIntoFree s)" using F by (simp add: r)
  have "wbits (freeBitmap t) = wbits (freeBitmap s) \<union> wbits (allocBitmap s)"
    by (rule wbits_pointwise_or) (use F wf in \<open>auto simp: same_shape_def\<close>)
  then show f: "sb_free (flushAllocIntoFree s) = sb_avail s"
    by (auto simp: r sb_free_def sb_avail_def sb_alloc_def)
  show a: "sb_alloc (flushAllocIntoFree s) = {}"
    using F by (auto simp: r sb_alloc_def wbits_empty_iff same_shape_def)
  show "sb_inv (flushAllocIntoFree s)"
    using a wf(1) same_shape_wf [OF sh] by (simp add: sb_inv_def r)
qed

lemma sb_seedAllAvailable_spec:
  assumes "sb_wf s"
  shows "sb_inv (sb_seedAllAvailable s)" "same_shape s (sb_seedAllAvailable s)"
    "sb_alloc (sb_seedAllAvailable s) = {..<sb_bits s}" "sb_free (sb_seedAllAvailable s) = {}"
    "sb_avail (sb_seedAllAvailable s) = {..<sb_bits s}"
proof -
  show sh: "same_shape s (sb_seedAllAvailable s)" by (simp add: sb_seedAllAvailable_def same_shape_def)
  show a: "sb_alloc (sb_seedAllAvailable s) = {..<sb_bits s}" "sb_free (sb_seedAllAvailable s) = {}"
    by (simp_all add: sb_seedAllAvailable_def sb_alloc_def sb_free_def sb_bits_def
        wbits_replicate_ones)
  show "sb_inv (sb_seedAllAvailable s)"
    using a assms same_shape_wf [OF sh] by (simp add: sb_inv_def) (simp add: sb_seedAllAvailable_def)
  show "sb_avail (sb_seedAllAvailable s) = {..<sb_bits s}" using a by (simp add: sb_avail_def)
qed

lemma sb_seedAllUsed_spec:
  assumes "sb_wf s"
  shows "sb_inv (sb_seedAllUsed s)" "same_shape s (sb_seedAllUsed s)" "sb_avail (sb_seedAllUsed s) = {}"
proof -
  show sh: "same_shape s (sb_seedAllUsed s)" by (simp add: sb_seedAllUsed_def same_shape_def)
  show a: "sb_avail (sb_seedAllUsed s) = {}"
    by (simp add: sb_seedAllUsed_def sb_avail_def sb_alloc_def sb_free_def)
  show "sb_inv (sb_seedAllUsed s)"
    using a assms same_shape_wf [OF sh]
    by (auto simp: sb_inv_def sb_avail_def) (simp add: sb_seedAllUsed_def)
qed

lemma sum_list_map_nth_add:
  "length xs = length ys \<Longrightarrow>
     sum_list (map (\<lambda>w. f (xs ! w) + g (ys ! w)) [0..<length xs]) =
     sum_list (map f xs) + (sum_list (map g ys) :: nat)"
proof -
  assume len: "length xs = length ys"
  have "map (\<lambda>w. f (xs ! w)) [0..<length xs] = map f xs"
    by (rule nth_equalityI) simp_all
  moreover have "map (\<lambda>w. g (ys ! w)) [0..<length xs] = map g ys"
    by (rule nth_equalityI) (simp_all add: len)
  ultimately show ?thesis
    using sum_list_addf [of "\<lambda>w. f (xs ! w)" "\<lambda>w. g (ys ! w)" "[0..<length xs]"] by metis
qed

lemma countAvailable_card:
  assumes "sb_inv s"
  shows "countAvailable s = card (sb_avail s)"
proof -
  have "countAvailable s = card (sb_alloc s) + card (sb_free s)"
    using assms sum_list_map_nth_add [of "allocBitmap s" "freeBitmap s" popcountll popcountll]
    by (simp add: countAvailable_def sb_alloc_def sb_free_def card_wbits sb_inv_def sb_wf_def)
  also have "\<dots> = card (sb_avail s)"
    using assms by (simp add: sb_avail_def card_Un_disjoint sb_inv_def)
  finally show ?thesis .
qed

lemma allocSideEmpty_iff: "allocSideEmpty s \<longleftrightarrow> sb_alloc s = {}"
  by (auto simp: allocSideEmpty_def sb_alloc_def wbits_empty_iff list_all_iff)

section \<open>Properties\<close>

text \<open>
  C3: \<open>claimBit\<close> takes the lowest bit of the allocator's side, drains the freers' side only when
  its own is empty, answers \<open>- 1\<close> exactly when no bit is available on either side, removes exactly
  the bit it returns, and keeps the invariant, the hint included.
\<close>

theorem claimBit_correct:
  assumes "sb_inv s" and "claimBit s = (s', r)"
  shows "sb_inv s' \<and>
    (if sb_avail s = {} then r = - 1 \<and> sb_avail s' = {}
     else 0 \<le> r \<and> nat r = Min (if sb_alloc s = {} then sb_free s else sb_alloc s) \<and>
       nat r \<in> sb_avail s \<and> sb_avail s' = sb_avail s - {nat r})"
  using claimBit_cases [OF assms] claimBit_mem [OF assms] by simp

definition drained_demo :: split_bitmap where
  "drained_demo = \<lparr>allocBitmap = [0, 0], freeBitmap = [0, 12], hint = 2, useHint = True\<rparr>"

theorem claimBit_correct_witness:
  "sb_inv drained_demo \<and> sb_inv (fst (claimBit drained_demo)) \<and> snd (claimBit drained_demo) = 66 \<and>
   66 \<in> sb_avail drained_demo \<and> sb_avail (fst (claimBit drained_demo)) = sb_avail drained_demo - {66}"
proof -
  have a: "sb_alloc drained_demo = {}"
    by (simp add: drained_demo_def sb_alloc_def wbits_empty_iff less_Suc_eq)
  then have i: "sb_inv drained_demo"
    by (simp add: drained_demo_def sb_inv_def sb_wf_def hint_ok_def sb_alloc_def less_Suc_eq)
  have r: "snd (claimBit drained_demo) = 66" by code_simp
  have m: "66 \<in> sb_avail drained_demo"
    by (simp add: drained_demo_def sb_avail_def sb_free_def in_wbits)
  then have ne: "sb_avail drained_demo \<noteq> {}" by blast
  note claimBit_correct [OF i prod.collapse [symmetric], unfolded if_not_P [OF ne] r]
  with i r m show ?thesis by simp
qed

end
