(* ===== verification/Split_Bitmap_Conc.thy ===== *)
theory Split_Bitmap_Conc
  imports Split_Bitmap
begin

text \<open>
  The split bitmap with one allocating CPU and any number of freeing CPUs. The allocating CPU
  alone touches \<open>allocBitmap\<close> and the hint, so its scan is one step; its drain and its flush
  access the shared \<open>freeBitmap\<close> one word per step (\<open>exchange\<close>, \<open>fetch_or\<close>), and between any two
  steps another CPU may release a bit that it holds (\<open>fetch_or\<close>). \<open>held\<close> is the ghost set of bits
  that clients own.
\<close>

datatype owner_pc = Idle | Draining nat nat bool | Retry | Flushing nat

record sb_sys =
  bm :: split_bitmap
  held :: "nat set"
  pc :: owner_pc

inductive sb_step :: "sb_sys \<Rightarrow> sb_sys \<Rightarrow> bool" where
  claim_hit: "pc s = Idle \<Longrightarrow> tryClaimBitNoDrain (bm s) = (b', r) \<Longrightarrow> 0 \<le> r \<Longrightarrow>
     sb_step s (s\<lparr>bm := b', held := insert (nat r) (held s)\<rparr>)"
| claim_miss: "pc s = Idle \<Longrightarrow> tryClaimBitNoDrain (bm s) = (b', r) \<Longrightarrow> r < 0 \<Longrightarrow>
     sb_step s (s\<lparr>bm := b', pc := Draining 0 (length (freeBitmap b')) False\<rparr>)"
| drain_word: "pc s = Draining w nh dr \<Longrightarrow> w < length (freeBitmap (bm s)) \<Longrightarrow>
     sb_step s (s\<lparr>bm := drainWord w (bm s),
       pc := (if freeBitmap (bm s) ! w \<noteq> 0
              then Draining (w + 1) (if nh = length (freeBitmap (bm s)) then w else nh) True
              else Draining (w + 1) nh dr)\<rparr>)"
| drain_dry: "pc s = Draining w nh False \<Longrightarrow> \<not> w < length (freeBitmap (bm s)) \<Longrightarrow>
     sb_step s (s\<lparr>pc := Idle\<rparr>)"
| drain_done: "pc s = Draining w nh True \<Longrightarrow> \<not> w < length (freeBitmap (bm s)) \<Longrightarrow>
     sb_step s (s\<lparr>bm := setHint nh (bm s), pc := Retry\<rparr>)"
| retry_hit: "pc s = Retry \<Longrightarrow> tryClaimBitNoDrain (bm s) = (b', r) \<Longrightarrow> 0 \<le> r \<Longrightarrow>
     sb_step s (s\<lparr>bm := b', held := insert (nat r) (held s), pc := Idle\<rparr>)"
| retry_miss: "pc s = Retry \<Longrightarrow> tryClaimBitNoDrain (bm s) = (b', r) \<Longrightarrow> r < 0 \<Longrightarrow>
     sb_step s (s\<lparr>bm := b', pc := Idle\<rparr>)"
| flush_start: "pc s = Idle \<Longrightarrow> sb_step s (s\<lparr>pc := Flushing 0\<rparr>)"
| flush_word: "pc s = Flushing w \<Longrightarrow> w < length (allocBitmap (bm s)) \<Longrightarrow>
     sb_step s (s\<lparr>bm := flushWord w (bm s), pc := Flushing (w + 1)\<rparr>)"
| flush_end: "pc s = Flushing w \<Longrightarrow> \<not> w < length (allocBitmap (bm s)) \<Longrightarrow>
     sb_step s (s\<lparr>bm := setHint 0 (bm s), pc := Idle\<rparr>)"
| release: "b \<in> held s \<Longrightarrow> releaseBit b (bm s) = Inr (b', z) \<Longrightarrow>
     sb_step s (s\<lparr>bm := b', held := held s - {b}\<rparr>)"

definition sb_start :: "split_bitmap \<Rightarrow> sb_sys" where
  "sb_start b = \<lparr>bm = sb_seedAllAvailable b, held = {}, pc = Idle\<rparr>"

inductive sb_reachable :: "split_bitmap \<Rightarrow> sb_sys \<Rightarrow> bool" for b where
  start: "sb_reachable b (sb_start b)"
| step: "sb_reachable b s \<Longrightarrow> sb_step s t \<Longrightarrow> sb_reachable b t"

section \<open>The invariant\<close>

text \<open>
  Every bit of the pool is on exactly one of three sides: allocator, freers, clients. What the
  scan hint promises depends on how far the owner is in its drain.
\<close>

fun hint_phase :: "split_bitmap \<Rightarrow> owner_pc \<Rightarrow> bool" where
  "hint_phase b Idle = hint_ok b"
| "hint_phase b Retry = (hint_ok b \<and> sb_alloc b \<noteq> {})"
| "hint_phase b (Draining w nh dr) =
     ((nh = length (allocBitmap b) \<or> nh < w) \<and> nh \<le> length (allocBitmap b) \<and>
      (\<forall>v < length (allocBitmap b). allocBitmap b ! v \<noteq> 0 \<longrightarrow> nh \<le> v) \<and>
      (dr \<longleftrightarrow> sb_alloc b \<noteq> {}))"
| "hint_phase b (Flushing w) = True"

definition sb_part :: "nat \<Rightarrow> split_bitmap \<Rightarrow> nat set \<Rightarrow> bool" where
  "sb_part n b H \<longleftrightarrow> sb_wf b \<and> sb_bits b = n \<and> sb_alloc b \<inter> sb_free b = {} \<and>
     sb_avail b \<inter> H = {} \<and> sb_avail b \<union> H = {..<n}"

definition sb_sys_inv :: "nat \<Rightarrow> sb_sys \<Rightarrow> bool" where
  "sb_sys_inv n s \<longleftrightarrow> sb_part n (bm s) (held s) \<and> hint_phase (bm s) (pc s)"

lemma sb_part_shape:
  "sb_part n b H \<Longrightarrow> same_shape b b' \<Longrightarrow> sb_alloc b' \<inter> sb_free b' = {} \<Longrightarrow>
     sb_avail b' \<inter> H' = {} \<Longrightarrow> sb_avail b' \<union> H' = sb_avail b \<union> H \<Longrightarrow> sb_part n b' H'"
  using same_shape_wf [of b b'] same_shape_bits [of b b'] by (simp add: sb_part_def)

lemma sb_part_inv: "sb_part n b H \<Longrightarrow> hint_ok b \<Longrightarrow> sb_inv b"
  by (simp add: sb_part_def sb_inv_def)

lemma claim_hit_part:
  assumes "sb_part n b H" "hint_ok b" "tryClaimBitNoDrain b = (b', r)" "0 \<le> r"
  shows "sb_part n b' (insert (nat r) H)" "hint_ok b'" "nat r \<notin> H" "nat r < n"
proof -
  note t = tryClaim_Some [OF sb_part_inv [OF assms(1,2)] assms(3,4)]
  show "nat r \<notin> H" "nat r < n" using assms(1) t(4) by (auto simp: sb_part_def sb_avail_def)
  moreover have "nat r \<notin> sb_free b" using t(4) assms(1) by (auto simp: sb_part_def)
  ultimately show "sb_part n b' (insert (nat r) H)"
    using t(4,5,6) assms(1) by (intro sb_part_shape [OF assms(1) t(2)]) (auto simp: sb_part_def sb_avail_def)
  show "hint_ok b'" using t(1) by (simp add: sb_inv_def)
qed

lemma claim_miss_part:
  assumes "sb_part n b H" "hint_ok b" "tryClaimBitNoDrain b = (b', r)" "r < 0"
  shows "sb_part n b' H" "hint_ok b'" "sb_alloc b = {}" "sb_alloc b' = {}"
proof -
  note t = tryClaim_None [OF sb_part_inv [OF assms(1,2)] assms(3,4)]
  show "sb_part n b' H"
    using t assms(1) by (intro sb_part_shape [OF assms(1) t(2)]) (auto simp: sb_part_def sb_avail_def)
  show "hint_ok b'" "sb_alloc b = {}" "sb_alloc b' = {}" using t by (auto simp: sb_inv_def)
qed

lemma wbits_word_move:
  assumes "length us = length ws" "length vs = length ws" "length xs = length ws" "w < length ws"
    "\<And>v. v < length ws \<Longrightarrow> us ! v = (if v = w then ws ! v OR xs ! v else ws ! v)"
    "\<And>v. v < length ws \<Longrightarrow> vs ! v = (if v = w then 0 else xs ! v)"
  shows "wbits us \<union> wbits vs = wbits ws \<union> wbits xs"
    "wbits ws \<inter> wbits xs = {} \<Longrightarrow> wbits us \<inter> wbits vs = {}"
  using assms(1-4) by (auto simp: in_wbits bit_or_iff assms(5,6) split: if_splits)

lemma drainWord_part:
  assumes "sb_part n b H" "w < length (freeBitmap b)"
  shows "sb_part n (drainWord w b) H"
proof -
  have wf: "sb_wf b" "length (freeBitmap b) = length (allocBitmap b)"
    using assms(1) by (auto simp: sb_part_def sb_wf_def)
  note d = drainWord_sel [OF assms(2) wf(1)]
  have m: "sb_avail (drainWord w b) = sb_avail b"
    "sb_alloc b \<inter> sb_free b = {} \<Longrightarrow> sb_alloc (drainWord w b) \<inter> sb_free (drainWord w b) = {}"
    unfolding sb_avail_def sb_alloc_def sb_free_def
    by (rule wbits_word_move [where w = w];
        use wf(2) assms(2) d in \<open>simp add: same_shape_def\<close>)+
  show ?thesis
    using m assms(1) by (intro sb_part_shape [OF assms(1) d(1)]) (auto simp: sb_part_def)
qed

lemma flushWord_part:
  assumes "sb_part n b H" "w < length (allocBitmap b)"
  shows "sb_part n (flushWord w b) H"
proof -
  have wf: "length (freeBitmap b) = length (allocBitmap b)"
    using assms(1) by (auto simp: sb_part_def sb_wf_def)
  note d = flushWord_sel [OF assms(2) wf]
  have m: "sb_free (flushWord w b) \<union> sb_alloc (flushWord w b) = sb_free b \<union> sb_alloc b"
    "sb_free b \<inter> sb_alloc b = {} \<Longrightarrow> sb_free (flushWord w b) \<inter> sb_alloc (flushWord w b) = {}"
    unfolding sb_alloc_def sb_free_def
    by (rule wbits_word_move [where w = w]; use wf assms(2) d in \<open>simp add: same_shape_def\<close>)+
  then show ?thesis
    using assms(1) by (intro sb_part_shape [OF assms(1) d(1)]) (auto simp: sb_part_def sb_avail_def)
qed

lemma release_part:
  assumes "sb_part n b H" "x \<in> H"
  shows "\<exists>b' z. releaseBit x b = Inr (b', z) \<and> sb_part n b' (H - {x}) \<and>
    (\<forall>p. hint_phase b' p = hint_phase b p)"
proof -
  have x: "x < sb_bits b" "x \<notin> sb_avail b" using assms by (auto simp: sb_part_def)
  then obtain b' z where r: "releaseBit x b = Inr (b', z)" "same_shape b b'"
    "allocBitmap b' = allocBitmap b" "hint b' = hint b" "sb_free b' = insert x (sb_free b)"
    using releaseBit_ok [of b x] assms(1) by (auto simp: sb_part_def sb_avail_def)
  have a: "sb_alloc b' = sb_alloc b" using r(3) by (simp add: sb_alloc_def)
  have "sb_part n b' (H - {x})"
    using assms x a r(5) by (intro sb_part_shape [OF assms(1) r(2)]) (auto simp: sb_part_def sb_avail_def)
  moreover have "hint_phase b' p = hint_phase b p" for p
    using r(2-4) a by (cases p) (auto simp: hint_ok_def same_shape_def)
  ultimately show ?thesis using r(1) by blast
qed

lemma hint_phase_drain_word:
  assumes "sb_part n b H" "hint_phase b (Draining w nh dr)" "w < length (freeBitmap b)"
  shows "hint_phase (drainWord w b)
    (if freeBitmap b ! w \<noteq> 0
     then Draining (w + 1) (if nh = length (freeBitmap b) then w else nh) True
     else Draining (w + 1) nh dr)"
proof -
  have wf: "sb_wf b" "length (freeBitmap b) = length (allocBitmap b)"
    using assms(1) by (auto simp: sb_part_def sb_wf_def)
  note d = drainWord_sel [OF assms(3) wf(1)]
  have len: "length (allocBitmap (drainWord w b)) = length (allocBitmap b)"
    using d(1) by (simp add: same_shape_def)
  have ne: "sb_alloc (drainWord w b) \<noteq> {} \<longleftrightarrow> freeBitmap b ! w \<noteq> 0 \<or> sb_alloc b \<noteq> {}"
  proof (cases "freeBitmap b ! w = 0")
    case True
    have "allocBitmap (drainWord w b) = allocBitmap b"
      by (rule nth_equalityI) (use d True len wf in auto)
    with True show ?thesis by (simp add: sb_alloc_def)
  next
    case False
    have "allocBitmap (drainWord w b) ! w = allocBitmap b ! w OR freeBitmap b ! w"
      using d(4) [of w] assms(3) by simp
    moreover have "\<dots> \<noteq> 0"
      using False by (simp add: or_eq_0_iff)
    ultimately show ?thesis
      using False assms(3) wf len by (auto simp: sb_alloc_def wbits_empty_iff)
  qed
  have words: "allocBitmap (drainWord w b) ! v \<noteq> 0 \<Longrightarrow>
      v = w \<and> freeBitmap b ! w \<noteq> 0 \<or> allocBitmap b ! v \<noteq> 0"
    if "v < length (allocBitmap b)" for v
    using d(4) [of v] that wf(2) by (cases "v = w") (auto simp: or_eq_0_iff)
  let ?L = "length (allocBitmap b)"
  from assms(2) have i: "nh = ?L \<or> nh < w" "nh \<le> ?L" "dr \<longleftrightarrow> sb_alloc b \<noteq> {}"
    "\<And>v. v < ?L \<Longrightarrow> allocBitmap b ! v \<noteq> 0 \<Longrightarrow> nh \<le> v"
    by simp_all
  consider "freeBitmap b ! w = 0" | "freeBitmap b ! w \<noteq> 0" "nh = ?L" | "freeBitmap b ! w \<noteq> 0" "nh \<noteq> ?L"
    by blast
  then show ?thesis
  proof cases
    case 1
    have "nh \<le> v" if "v < ?L" "allocBitmap (drainWord w b) ! v \<noteq> 0" for v
      using words [OF that] i(4) [OF that(1)] 1 by blast
    with 1 i(1-3) ne len show ?thesis by auto
  next
    case 2
    have "w \<le> v" if "v < ?L" "allocBitmap (drainWord w b) ! v \<noteq> 0" for v
      using words [OF that] i(4) [OF that(1)] 2 that(1) by auto
    with 2 ne len wf assms(3) show ?thesis by auto
  next
    case 3
    with i(1) have "nh < w" by blast
    then have "nh \<le> v" if "v < ?L" "allocBitmap (drainWord w b) ! v \<noteq> 0" for v
      using words [OF that] i(4) [OF that(1)] by auto
    with 3 i(2) ne len wf \<open>nh < w\<close> show ?thesis by auto
  qed
qed

section \<open>Reachable states\<close>

lemma sb_start_inv: "sb_wf b \<Longrightarrow> sb_sys_inv (sb_bits b) (sb_start b)"
  using sb_seedAllAvailable_spec [of b] same_shape_bits [of b "sb_seedAllAvailable b"]
  by (simp add: sb_sys_inv_def sb_start_def sb_part_def sb_inv_def)

lemma sb_part_setHint: "sb_part n (setHint w b) H \<longleftrightarrow> sb_part n b H"
  by (simp add: sb_part_def sb_wf_def sb_bits_def sb_alloc_def sb_free_def sb_avail_def)

lemma sb_step_inv:
  assumes "sb_step s t" "sb_sys_inv n s"
  shows "sb_sys_inv n t"
  using assms
proof (induction rule: sb_step.induct)
  case (claim_hit s b' r)
  then show ?case using claim_hit_part [of n "bm s" "held s" b' r] by (simp add: sb_sys_inv_def)
next
  case (claim_miss s b' r)
  then have p: "sb_part n b' (held s)" "sb_alloc b' = {}" "length (freeBitmap b') = length (allocBitmap b')"
    using claim_miss_part [of n "bm s" "held s" b' r]
    by (auto simp: sb_sys_inv_def) (simp add: sb_part_def sb_wf_def)
  then show ?case by (simp add: sb_sys_inv_def sb_alloc_def wbits_empty_iff)
next
  case (drain_word s w nh dr)
  then show ?case
    using drainWord_part [of n "bm s" "held s" w] hint_phase_drain_word [of n "bm s" "held s" w nh dr]
    by (simp add: sb_sys_inv_def)
next
  case (drain_dry s w nh)
  then show ?case by (auto simp: sb_sys_inv_def hint_ok_def sb_alloc_def wbits_empty_iff)
next
  case (drain_done s w nh)
  then have p: "sb_part n (bm s) (held s)" "hint_phase (bm s) (Draining w nh True)"
    by (simp_all add: sb_sys_inv_def)
  then have "hint_ok (setHint nh (bm s))"
    by (intro hint_ok_setHint) (auto simp: sb_part_def dest: leD intro: less_le_trans)
  with p show ?case by (simp add: sb_sys_inv_def sb_part_setHint) (simp add: sb_alloc_def)
next
  case (retry_hit s b' r)
  then show ?case using claim_hit_part [of n "bm s" "held s" b' r] by (simp add: sb_sys_inv_def)
next
  case (retry_miss s b' r)
  then show ?case using claim_miss_part [of n "bm s" "held s" b' r] by (simp add: sb_sys_inv_def)
next
  case (flush_start s)
  then show ?case by (simp add: sb_sys_inv_def)
next
  case (flush_word s w)
  then show ?case using flushWord_part [of n "bm s" "held s" w] by (simp add: sb_sys_inv_def)
next
  case (flush_end s w)
  then show ?case by (simp add: sb_sys_inv_def sb_part_setHint)
next
  case (release x s b' z)
  then show ?case using release_part [of n "bm s" "held s" x] by (auto simp: sb_sys_inv_def)
qed

lemma sb_reachable_inv: "sb_reachable b s \<Longrightarrow> sb_wf b \<Longrightarrow> sb_sys_inv (sb_bits b) s"
  by (induction rule: sb_reachable.induct) (auto intro: sb_start_inv sb_step_inv)

section \<open>Properties\<close>

text \<open>
  C4: in every interleaving of the owner's claims, drains and flushes with releases by other
  CPUs, each bit is on exactly one side (available or held), no bit is lost, a claim never returns
  a bit that a client holds, a client's release of a bit it holds never trips the double-free
  assertion, and the claim after a successful drain always finds a bit.
\<close>

theorem split_bitmap_interleaving_safe:
  assumes "sb_wf b" and "sb_reachable b s"
  shows "sb_avail (bm s) \<inter> held s = {} \<and> sb_avail (bm s) \<union> held s = {..<sb_bits b} \<and>
    (pc s = Idle \<or> pc s = Retry \<longrightarrow> 0 \<le> snd (tryClaimBitNoDrain (bm s)) \<longrightarrow>
       nat (snd (tryClaimBitNoDrain (bm s))) \<in> {..<sb_bits b} - held s) \<and>
    (\<forall>x \<in> held s. \<exists>r. releaseBit x (bm s) = Inr r) \<and>
    (pc s = Retry \<longrightarrow> 0 \<le> snd (tryClaimBitNoDrain (bm s)))"
proof -
  have I: "sb_part (sb_bits b) (bm s) (held s)" "hint_phase (bm s) (pc s)"
    using sb_reachable_inv [OF assms(2,1)] by (simp_all add: sb_sys_inv_def)
  obtain b' r where c: "tryClaimBitNoDrain (bm s) = (b', r)" by force
  have h: "hint_ok (bm s)" if "pc s = Idle \<or> pc s = Retry" using I(2) that by auto
  have "0 \<le> r" if "pc s = Retry"
    using claim_miss_part(3) [OF I(1) h c] I(2) that by (cases "r < 0") auto
  moreover have "\<forall>x \<in> held s. \<exists>r. releaseBit x (bm s) = Inr r"
    using release_part [OF I(1)] by blast
  ultimately show ?thesis
    using I(1) claim_hit_part(3,4) [OF I(1) h c] c by (auto simp: sb_part_def)
qed

definition demo_bitmap :: split_bitmap where
  "demo_bitmap = \<lparr>allocBitmap = [0, 0], freeBitmap = [0, 0], hint = 0, useHint = True\<rparr>"

definition demo_after_claim :: sb_sys where
  "demo_after_claim =
     (let b = sb_seedAllAvailable demo_bitmap
      in \<lparr>bm = fst (tryClaimBitNoDrain b), held = {0}, pc = Idle\<rparr>)"

lemma demo_claim: "snd (tryClaimBitNoDrain (sb_seedAllAvailable demo_bitmap)) = 0"
  by code_simp

lemma demo_reachable: "sb_reachable demo_bitmap demo_after_claim"
proof -
  have "sb_step (sb_start demo_bitmap) demo_after_claim"
    using claim_hit [of "sb_start demo_bitmap" "bm demo_after_claim" 0] demo_claim
    by (simp add: sb_start_def demo_after_claim_def Let_def prod_eq_iff)
  then show ?thesis by (rule sb_reachable.step [OF sb_reachable.start])
qed

theorem split_bitmap_interleaving_safe_witness:
  "sb_wf demo_bitmap \<and> sb_reachable demo_bitmap demo_after_claim \<and>
   0 \<notin> sb_avail (bm demo_after_claim) \<and> (\<exists>r. releaseBit 0 (bm demo_after_claim) = Inr r)"
proof -
  have w: "sb_wf demo_bitmap" by (simp add: sb_wf_def demo_bitmap_def)
  have "0 \<in> held demo_after_claim" by (simp add: demo_after_claim_def Let_def)
  then show ?thesis
    using w demo_reachable split_bitmap_interleaving_safe [OF w demo_reachable] by blast
qed

end
