(* ===== verification/Slab_Bookkeeper.thy ===== *)
theory Slab_Bookkeeper
  imports Split_Bitmap
begin

text \<open>
  \<open>LibAlloc::SlabBookkeeper\<close> and \<open>LibAlloc::Slab\<close> (\<open>libraries/LibAlloc/include/liballoc/Slab.h\<close>)
  with \<open>OccupancyTransition\<close>. The template argument \<open>SlotCount\<close> is a field of the record; the two
  counters are kept modulo the width the source chooses for \<open>SlotCountType\<close>, and \<open>size_t\<close>
  subtraction wraps at 64 bits. A callback that receives each claimed slot is modelled by the list
  of the slots in the order of the calls.
\<close>

section \<open>Occupancy transitions\<close>

datatype OccupancyState = Empty | Partial | Full

record OccupancyTransition =
  before :: OccupancyState
  after :: OccupancyState

definition becameFull :: "OccupancyTransition \<Rightarrow> bool" where
  "becameFull t \<longleftrightarrow> before t \<noteq> Full \<and> after t = Full"

definition becameEmpty :: "OccupancyTransition \<Rightarrow> bool" where
  "becameEmpty t \<longleftrightarrow> before t \<noteq> Empty \<and> after t = Empty"

definition becameAvailable :: "OccupancyTransition \<Rightarrow> bool" where
  "becameAvailable t \<longleftrightarrow> before t = Full \<and> after t \<noteq> Full"

section \<open>The bookkeeper\<close>

record slab_bk =
  bitmap :: split_bitmap
  allocatedCount :: nat
  reservedCount :: nat
  slotCount :: nat

text \<open>\<open>SmallestUInt_t\<close> of a number of bits, and \<open>SlotCountType\<close>.\<close>

definition SmallestUInt :: "nat \<Rightarrow> nat" where
  "SmallestUInt b = (if b \<le> 8 then 8 else if b \<le> 16 then 16 else if b \<le> 32 then 32 else 64)"

definition slotCountWidth :: "nat \<Rightarrow> nat" where
  "slotCountWidth n =
     (case log2ceil_u64 (of_nat (n + 1)) of Inl _ \<Rightarrow> SmallestUInt 0 | Inr b \<Rightarrow> SmallestUInt b)"

definition toCount :: "nat \<Rightarrow> nat \<Rightarrow> nat" where
  "toCount n x = x mod 2 ^ slotCountWidth n"

definition kWordCount :: "nat \<Rightarrow> nat" where
  "kWordCount n = (n + 63) div 64"

definition kTailBits :: "nat \<Rightarrow> nat" where
  "kTailBits n = toCount n (kWordCount n * 64 - n)"

definition stateFromCount :: "nat \<Rightarrow> nat \<Rightarrow> OccupancyState" where
  "stateFromCount c maxA = (if c = 0 then Empty else if c \<ge> maxA then Full else Partial)"

definition maxAlloc :: "slab_bk \<Rightarrow> nat" where
  "maxAlloc s = sub_size (kWordCount (slotCount s) * 64) (reservedCount s)"

definition reserveSlot :: "nat \<Rightarrow> slab_bk \<Rightarrow> slab_bk outcome" where
  "reserveSlot slot s =
     bindO (assertO (allocatedCount s = 0) ''SlabBookkeeper::reserveSlot only valid before any alloc'')
       (\<lambda>_. Inr (if isBitAvailable slot (bitmap s)
                 then s\<lparr>bitmap := reserveBit slot (bitmap s),
                       reservedCount := toCount (slotCount s) (reservedCount s + 1)\<rparr>
                 else s))"

fun reserveSlots :: "nat list \<Rightarrow> slab_bk \<Rightarrow> slab_bk outcome" where
  "reserveSlots [] s = Inr s"
| "reserveSlots (slot # slots) s = bindO (reserveSlot slot s) (reserveSlots slots)"

definition seedAllAvailable_usable :: "nat \<Rightarrow> slab_bk \<Rightarrow> slab_bk outcome" where
  "seedAllAvailable_usable usableCount s =
     bindO (assertO (usableCount \<le> slotCount s)
              ''SlabBookkeeper::seedAllAvailable: usableCount exceeds SlotCount'')
       (\<lambda>_. reserveSlots [usableCount..<kWordCount (slotCount s) * 64]
              (s\<lparr>bitmap := sb_seedAllAvailable (bitmap s), allocatedCount := 0\<rparr>))"

definition seedAllAvailable :: "slab_bk \<Rightarrow> slab_bk outcome" where
  "seedAllAvailable s = seedAllAvailable_usable (slotCount s) s"

definition seedAllUsed :: "slab_bk \<Rightarrow> slab_bk" where
  "seedAllUsed s =
     s\<lparr>bitmap := sb_seedAllUsed (bitmap s),
       allocatedCount := toCount (slotCount s) (maxAlloc s)\<rparr>"

definition allocSlot :: "slab_bk \<Rightarrow> slab_bk \<times> int \<times> OccupancyTransition" where
  "allocSlot s =
     (case tryClaimBitNoDrain (bitmap s) of
        (b1, r1) \<Rightarrow>
          (case (if r1 < 0
                 then case drainFreeIntoAlloc b1 of
                        (b2, drained) \<Rightarrow> if drained then tryClaimBitNoDrain b2 else (b2, r1)
                 else (b1, r1)) of
             (b, r) \<Rightarrow>
               if r < 0
               then let st = stateFromCount (allocatedCount s) (maxAlloc s)
                    in (s\<lparr>bitmap := b\<rparr>, - 1, \<lparr>before = st, after = st\<rparr>)
               else let prev = allocatedCount s
                    in (s\<lparr>bitmap := b, allocatedCount := toCount (slotCount s) (prev + 1)\<rparr>, r,
                        \<lparr>before = stateFromCount prev (maxAlloc s),
                         after = stateFromCount (prev + 1) (maxAlloc s)\<rparr>)))"

text \<open>The claim loop of \<open>allocSlots\<close>: the slots handed to the callback, in order.\<close>

fun allocSlots_loop :: "nat \<Rightarrow> split_bitmap \<Rightarrow> split_bitmap \<times> nat list" where
  "allocSlots_loop 0 b = (b, [])"
| "allocSlots_loop (Suc n) b =
     (case tryClaimBitNoDrain b of
        (b1, r1) \<Rightarrow>
          if r1 < 0 then
            (case drainFreeIntoAlloc b1 of
               (b2, drained) \<Rightarrow>
                 if \<not> drained then (b2, [])
                 else case tryClaimBitNoDrain b2 of
                        (b3, r2) \<Rightarrow> if r2 < 0 then (b3, [])
                          else case allocSlots_loop n b3 of (b4, xs) \<Rightarrow> (b4, nat r2 # xs))
          else case allocSlots_loop n b1 of (b4, xs) \<Rightarrow> (b4, nat r1 # xs))"

definition allocSlots :: "nat \<Rightarrow> slab_bk \<Rightarrow> slab_bk \<times> nat list \<times> OccupancyTransition" where
  "allocSlots n s =
     (case allocSlots_loop n (bitmap s) of
        (b, slots) \<Rightarrow>
          let prev = allocatedCount s; allocated = length slots
          in (s\<lparr>bitmap := b, allocatedCount := toCount (slotCount s) (prev + allocated)\<rparr>, slots,
              \<lparr>before = stateFromCount prev (maxAlloc s),
               after = stateFromCount (prev + allocated) (maxAlloc s)\<rparr>))"

definition freeSlot :: "nat \<Rightarrow> slab_bk \<Rightarrow> (slab_bk \<times> OccupancyTransition) outcome" where
  "freeSlot slot s =
     bindO (releaseBit slot (bitmap s)) (\<lambda>(b, _).
       let prev = allocatedCount s
       in Inr (s\<lparr>bitmap := b,
                allocatedCount := toCount (slotCount s) (prev + 2 ^ slotCountWidth (slotCount s) - 1)\<rparr>,
               \<lparr>before = stateFromCount prev (maxAlloc s),
                after = stateFromCount (sub_size prev 1) (maxAlloc s)\<rparr>))"

definition freeSlotsBulk :: "u64 list \<Rightarrow> nat \<Rightarrow> slab_bk \<Rightarrow> (slab_bk \<times> OccupancyTransition) outcome" where
  "freeSlotsBulk pending releasedCount s =
     bindO (releaseBitsBulk pending (bitmap s)) (\<lambda>b.
       let prev = allocatedCount s; w = 2 ^ slotCountWidth (slotCount s)
       in Inr (s\<lparr>bitmap := b,
                allocatedCount := toCount (slotCount s) (prev + (w - toCount (slotCount s) releasedCount))\<rparr>,
               \<lparr>before = stateFromCount prev (maxAlloc s),
                after = stateFromCount (sub_size prev releasedCount) (maxAlloc s)\<rparr>))"

definition flushAllocSide :: "slab_bk \<Rightarrow> slab_bk" where
  "flushAllocSide s = s\<lparr>bitmap := flushAllocIntoFree (bitmap s)\<rparr>"

definition isSlotFree :: "nat \<Rightarrow> slab_bk \<Rightarrow> bool" where
  "isSlotFree slot s = isBitAvailable slot (bitmap s)"

definition bk_isFull :: "slab_bk \<Rightarrow> bool" where
  "bk_isFull s \<longleftrightarrow> allocatedCount s = toCount (slotCount s) (maxAlloc s)"

definition bk_isEmpty :: "slab_bk \<Rightarrow> bool" where
  "bk_isEmpty s \<longleftrightarrow> allocatedCount s = 0 \<and> reservedCount s = kTailBits (slotCount s)"

definition hasReservedSlots :: "slab_bk \<Rightarrow> bool" where
  "hasReservedSlots s \<longleftrightarrow> reservedCount s > 0"

definition freeSlotCount :: "slab_bk \<Rightarrow> nat" where
  "freeSlotCount s = sub_size (maxAlloc s) (allocatedCount s)"

definition bitmapAvailableCount :: "slab_bk \<Rightarrow> nat" where
  "bitmapAvailableCount s = countAvailable (bitmap s)"

section \<open>The slab over a buffer\<close>

record slab =
  bookkeeper :: slab_bk
  baseAddr :: u64
  slotSize :: nat

definition kRegionSize :: "slab \<Rightarrow> nat" where
  "kRegionSize s = slotCount (bookkeeper s) * slotSize s"

text \<open>Constructors seed the bookkeeper.\<close>

definition mkSlab :: "slab_bk \<Rightarrow> u64 \<Rightarrow> nat \<Rightarrow> slab outcome" where
  "mkSlab bk base sz =
     bindO (seedAllAvailable bk) (\<lambda>bk'. Inr \<lparr>bookkeeper = bk', baseAddr = base, slotSize = sz\<rparr>)"

text \<open>\<open>alloc\<close> answers \<open>nullptr\<close> (\<open>None\<close>) when no slot is left.\<close>

definition slab_alloc :: "slab \<Rightarrow> slab \<times> u64 option \<times> OccupancyTransition" where
  "slab_alloc s =
     (case allocSlot (bookkeeper s) of
        (bk, slot, t) \<Rightarrow>
          (s\<lparr>bookkeeper := bk\<rparr>,
           (if slot < 0 then None else Some (baseAddr s + of_nat (nat slot * slotSize s))), t))"

definition slab_contains :: "u64 \<Rightarrow> slab \<Rightarrow> bool" where
  "slab_contains p s \<longleftrightarrow> baseAddr s \<le> p \<and> p < baseAddr s + of_nat (kRegionSize s)"

definition slab_free :: "u64 \<Rightarrow> slab \<Rightarrow> (slab \<times> OccupancyTransition) outcome" where
  "slab_free p s =
     bindO (assertO (slab_contains p s) ''Slab::free called on out-of-range pointer'') (\<lambda>_.
       let off = unat (p - baseAddr s)
       in bindO (assertO (off mod slotSize s = 0) ''Slab::free called on misaligned pointer'') (\<lambda>_.
          bindO (freeSlot (off div slotSize s) (bookkeeper s)) (\<lambda>(bk, t).
            Inr (s\<lparr>bookkeeper := bk\<rparr>, t))))"

section \<open>Counter widths\<close>

lemma SmallestUInt_ge: "b \<le> 64 \<Longrightarrow> b \<le> SmallestUInt b"
  by (simp add: SmallestUInt_def)

lemma SmallestUInt_ge_6: "6 \<le> SmallestUInt b"
  by (simp add: SmallestUInt_def)

lemma slotCountWidth_bounds:
  assumes "0 < n" "n + 64 < 2 ^ 64"
  shows "n < 2 ^ slotCountWidth n" "kWordCount n * 64 \<le> 2 ^ slotCountWidth n"
    "kWordCount n * 64 < 2 ^ 64" "n \<le> kWordCount n * 64"
proof -
  have u: "unat (of_nat (n + 1) :: u64) = n + 1"
    by (subst unat_of_nat) (use assms in simp)
  then have "(of_nat (n + 1) :: u64) \<noteq> 1" using assms(1) by auto
  then obtain b where b: "log2ceil_u64 (of_nat (n + 1)) = Inr b"
    using log2ceil_u64_ok by blast
  have "n + 1 \<le> 2 ^ b" "b \<le> 64" using log2ceil_u64_spec [OF b] u assms(1) by auto
  moreover have w: "slotCountWidth n = SmallestUInt b" using b by (simp add: slotCountWidth_def)
  moreover have "(2 :: nat) ^ b \<le> 2 ^ slotCountWidth n"
    using SmallestUInt_ge [of b] calculation by (intro power_increasing) simp_all
  ultimately have "n + 1 \<le> 2 ^ slotCountWidth n" by linarith
  then show lt: "n < 2 ^ slotCountWidth n" by simp
  obtain m where m: "(2 :: nat) ^ slotCountWidth n = 64 * m"
    using SmallestUInt_ge_6 [of b] w le_imp_power_dvd [of 6 "slotCountWidth n" "2 :: nat"]
    by (auto simp: dvd_def)
  with lt have "(n + 63) div 64 \<le> m" by linarith
  then show "kWordCount n * 64 \<le> 2 ^ slotCountWidth n" by (simp add: kWordCount_def m)
  show "n \<le> kWordCount n * 64" unfolding kWordCount_def by linarith
  show "kWordCount n * 64 < 2 ^ 64"
    using assms(2) unfolding kWordCount_def by (auto intro: le_less_trans)
qed

lemma toCount_small: "x < 2 ^ slotCountWidth n \<Longrightarrow> toCount n x = x"
  by (simp add: toCount_def)

section \<open>Invariant\<close>

text \<open>
  \<open>L\<close> is the set of live slots, those handed out and not yet freed. Live and available slots are
  disjoint and below \<open>SlotCount\<close>; the counters are the sizes of the live set and of the rest.
\<close>

abbreviation bk_avail :: "slab_bk \<Rightarrow> nat set" where
  "bk_avail s \<equiv> sb_avail (bitmap s)"

definition bk_inv :: "slab_bk \<Rightarrow> nat set \<Rightarrow> bool" where
  "bk_inv s L \<longleftrightarrow> sb_inv (bitmap s) \<and> sb_bits (bitmap s) = kWordCount (slotCount s) * 64 \<and>
     0 < slotCount s \<and> slotCount s + 64 < 2 ^ 64 \<and>
     L \<subseteq> {..<slotCount s} \<and> bk_avail s \<subseteq> {..<slotCount s} \<and> L \<inter> bk_avail s = {} \<and>
     allocatedCount s = card L \<and>
     reservedCount s + card L + card (bk_avail s) = kWordCount (slotCount s) * 64 \<and>
     reservedCount s < 2 ^ slotCountWidth (slotCount s)"

definition occupancy :: "nat set \<Rightarrow> nat set \<Rightarrow> OccupancyState" where
  "occupancy L A = (if L = {} then Empty else if A = {} then Full else Partial)"

lemma bk_inv_finite: "bk_inv s L \<Longrightarrow> finite L"
  by (auto simp: bk_inv_def intro: finite_subset)

lemma bk_inv_bounds:
  assumes "bk_inv s L"
  shows "card L + card (bk_avail s) \<le> slotCount s" "slotCount s < 2 ^ slotCountWidth (slotCount s)"
    "maxAlloc s = card L + card (bk_avail s)"
proof -
  have "card (L \<union> bk_avail s) \<le> card {..<slotCount s}"
    using assms by (intro card_mono) (auto simp: bk_inv_def)
  then show c: "card L + card (bk_avail s) \<le> slotCount s"
    using assms bk_inv_finite [OF assms] by (simp add: card_Un_disjoint bk_inv_def)
  show "slotCount s < 2 ^ slotCountWidth (slotCount s)"
    using assms slotCountWidth_bounds(1) by (simp add: bk_inv_def)
  show "maxAlloc s = card L + card (bk_avail s)"
    using assms by (auto simp: maxAlloc_def sub_size_def bk_inv_def)
qed

lemma stateFromCount_occupancy:
  assumes "finite L" "finite A"
  shows "stateFromCount (card L) (card L + card A) = occupancy L A"
  using assms by (auto simp: stateFromCount_def occupancy_def)

text \<open>Moving slots between the live and the available side keeps the sum of the two sizes.\<close>

lemma bk_inv_move:
  assumes "bk_inv s L" "sb_inv b" "sb_bits b = sb_bits (bitmap s)"
    "L' \<union> sb_avail b = L \<union> bk_avail s" "L' \<inter> sb_avail b = {}"
  shows "bk_inv (s\<lparr>bitmap := b, allocatedCount := card L'\<rparr>) L'"
    "card L' + card (sb_avail b) = card L + card (bk_avail s)"
proof -
  have fin: "finite L'"
    using assms(4) bk_inv_finite [OF assms(1)] by (metis finite_Un finite_sb(3))
  then have "card (L' \<union> sb_avail b) = card L' + card (sb_avail b)"
    using assms(5) by (simp add: card_Un_disjoint)
  moreover have "card (L \<union> bk_avail s) = card L + card (bk_avail s)"
    using assms(1) bk_inv_finite [OF assms(1)] by (simp add: card_Un_disjoint bk_inv_def)
  ultimately show c: "card L' + card (sb_avail b) = card L + card (bk_avail s)"
    using assms(4) by simp
  have "L' \<subseteq> {..<slotCount s}" "sb_avail b \<subseteq> {..<slotCount s}"
    using assms(1,4) by (auto simp: bk_inv_def)
  with assms c show "bk_inv (s\<lparr>bitmap := b, allocatedCount := card L'\<rparr>) L'"
    by (simp add: bk_inv_def)
qed

lemma moved_transition:
  assumes "bk_inv s L" "finite L'" "card L' + card (sb_avail b) = card L + card (bk_avail s)"
  shows "stateFromCount (allocatedCount s) (maxAlloc s) = occupancy L (bk_avail s)"
    "stateFromCount (card L') (maxAlloc s) = occupancy L' (sb_avail b)"
proof -
  have m: "maxAlloc s = card L + card (bk_avail s)" using bk_inv_bounds(3) [OF assms(1)] .
  then show "stateFromCount (allocatedCount s) (maxAlloc s) = occupancy L (bk_avail s)"
    using stateFromCount_occupancy [OF bk_inv_finite [OF assms(1)], of "bk_avail s"] assms(1)
    by (simp add: bk_inv_def)
  show "stateFromCount (card L') (maxAlloc s) = occupancy L' (sb_avail b)"
    using stateFromCount_occupancy [OF assms(2), of "sb_avail b"] assms(3) m by simp
qed

section \<open>Allocation\<close>

lemma claimBit_unfold:
  "claimBit b =
     (case tryClaimBitNoDrain b of
        (b1, r1) \<Rightarrow>
          if r1 < 0 then
            (case drainFreeIntoAlloc b1 of
               (b2, drained) \<Rightarrow> if \<not> drained then (b2, - 1) else tryClaimBitNoDrain b2)
          else (b1, r1))"
  by (auto simp: claimBit_def split: prod.splits)

lemma allocSlots_loop_claim_loop: "allocSlots_loop n b = claim_loop claimBit n b"
proof (induction n arbitrary: b)
  case 0
  then show ?case by simp
next
  case (Suc n)
  then show ?case by (simp add: claimBit_unfold [of b] split: prod.split)
qed

lemma allocSlots_spec:
  assumes "bk_inv s L" "allocSlots n s = (s', xs, t)"
  shows "bk_inv s' (L \<union> set xs)" "distinct xs" "set xs \<subseteq> bk_avail s"
    "bk_avail s' = bk_avail s - set xs" "length xs = min n (card (bk_avail s))"
    "t = \<lparr>before = occupancy L (bk_avail s), after = occupancy (L \<union> set xs) (bk_avail s')\<rparr>"
    "slotCount s' = slotCount s" "reservedCount s' = reservedCount s"
proof -
  obtain b where l: "allocSlots_loop n (bitmap s) = (b, xs)"
    and s': "s' = s\<lparr>bitmap := b, allocatedCount := toCount (slotCount s) (allocatedCount s + length xs)\<rparr>"
    and t: "t = \<lparr>before = stateFromCount (allocatedCount s) (maxAlloc s),
                 after = stateFromCount (allocatedCount s + length xs) (maxAlloc s)\<rparr>"
    using assms(2) by (auto simp: allocSlots_def Let_def split: prod.splits)
  have i: "sb_inv (bitmap s)" "L \<inter> bk_avail s = {}" "allocatedCount s = card L"
    using assms(1) by (auto simp: bk_inv_def)
  note C = sb.claim_loop_spec [OF i(1) l [unfolded allocSlots_loop_claim_loop]]
  then show xs: "distinct xs" "set xs \<subseteq> bk_avail s" "length xs = min n (card (bk_avail s))"
    by blast+
  have d: "L \<inter> set xs = {}" using i(2) xs(2) by blast
  have c: "card (L \<union> set xs) = card L + length xs"
    using d bk_inv_finite [OF assms(1)] xs(1) by (simp add: card_Un_disjoint distinct_card)
  have A: "(L \<union> set xs) \<union> sb_avail b = L \<union> bk_avail s" "(L \<union> set xs) \<inter> sb_avail b = {}"
    using C i(2) by auto
  have b: "sb_inv b" "sb_bits b = sb_bits (bitmap s)" using C by blast+
  note M = bk_inv_move [OF assms(1) b A]
  have "card L + length xs \<le> slotCount s"
    using bk_inv_bounds(1) [OF assms(1)] xs(3) by linarith
  then have "toCount (slotCount s) (card L + length xs) = card L + length xs"
    using bk_inv_bounds(2) [OF assms(1)] by (intro toCount_small) simp
  then have s'': "s' = s\<lparr>bitmap := b, allocatedCount := card (L \<union> set xs)\<rparr>"
    by (simp add: s' c i(3))
  show "bk_inv s' (L \<union> set xs)" using M(1) s'' by simp
  show "bk_avail s' = bk_avail s - set xs" using C by (simp add: s'')
  show "slotCount s' = slotCount s" "reservedCount s' = reservedCount s" by (simp_all add: s'')
  have "finite (L \<union> set xs)" using bk_inv_finite [OF assms(1)] by simp
  from moved_transition [OF assms(1) this M(2)]
  show "t = \<lparr>before = occupancy L (bk_avail s), after = occupancy (L \<union> set xs) (bk_avail s')\<rparr>"
    by (simp add: t s'' c i(3))
qed

lemma allocSlot_allocSlots:
  assumes "bk_inv s L"
  shows "allocSlot s =
    (case allocSlots 1 s of (s', xs, t) \<Rightarrow> (s', (case xs of [] \<Rightarrow> - 1 | x # _ \<Rightarrow> int x), t))"
proof -
  obtain b1 r1 where c: "tryClaimBitNoDrain (bitmap s) = (b1, r1)" by force
  obtain b2 d where dr: "drainFreeIntoAlloc b1 = (b2, d)" by force
  obtain b3 r3 where c3: "tryClaimBitNoDrain b2 = (b3, r3)" by force
  have "toCount (slotCount s) (allocatedCount s) = allocatedCount s"
    using bk_inv_bounds [OF assms] assms by (intro toCount_small) (simp add: bk_inv_def)
  then show ?thesis
    using c dr c3 by (simp add: allocSlot_def allocSlots_def Let_def)
qed

section \<open>Freeing\<close>

lemma freeSlot_spec:
  assumes "bk_inv s L" "x \<in> L"
  shows "\<exists>s' t. freeSlot x s = Inr (s', t) \<and> bk_inv s' (L - {x}) \<and> bk_avail s' = insert x (bk_avail s) \<and>
    t = \<lparr>before = occupancy L (bk_avail s), after = occupancy (L - {x}) (bk_avail s')\<rparr> \<and>
    slotCount s' = slotCount s \<and> reservedCount s' = reservedCount s"
proof -
  have fin: "finite L" using bk_inv_finite [OF assms(1)] .
  have i: "sb_inv (bitmap s)" "x \<notin> bk_avail s" "x < sb_bits (bitmap s)" "allocatedCount s = card L"
    using assms slotCountWidth_bounds(4) [of "slotCount s"] by (auto simp: bk_inv_def)
  obtain b z where r: "releaseBit x (bitmap s) = Inr (b, z)" and b: "sb_inv b"
      "sb_bits b = sb_bits (bitmap s)" "sb_avail b = insert x (bk_avail s)"
    using sb.release_ok [OF i(1,3,2)] by blast
  have A: "(L - {x}) \<union> sb_avail b = L \<union> bk_avail s" "(L - {x}) \<inter> sb_avail b = {}"
    using assms b(3) by (auto simp: bk_inv_def)
  note M = bk_inv_move [OF assms(1) b(1,2) A]
  let ?w = "2 ^ slotCountWidth (slotCount s) :: nat"
  have c: "card L = Suc (card (L - {x}))" using fin assms(2) by (rule card.remove)
  have "card L < ?w" using bk_inv_bounds [OF assms(1)] by linarith
  then have tc: "toCount (slotCount s) (card L + ?w - 1) = card (L - {x})"
    using c by (simp add: toCount_def)
  have T: "stateFromCount (card L) (maxAlloc s) = occupancy L (bk_avail s)"
    "stateFromCount (sub_size (card L) 1) (maxAlloc s) = occupancy (L - {x}) (sb_avail b)"
    using moved_transition [OF assms(1) _ M(2)] fin i(4) c by (simp_all add: sub_size_def)
  show ?thesis using r M(1) T tc b(3) i(4) by (simp add: freeSlot_def Let_def)
qed

lemma freeSlotsBulk_spec:
  assumes "bk_inv s L" "wbits pending \<subseteq> L" "length pending = kWordCount (slotCount s)"
    "k = card (wbits pending)"
  shows "\<exists>s' t. freeSlotsBulk pending k s = Inr (s', t) \<and> bk_inv s' (L - wbits pending) \<and>
    bk_avail s' = bk_avail s \<union> wbits pending \<and>
    t = \<lparr>before = occupancy L (bk_avail s), after = occupancy (L - wbits pending) (bk_avail s')\<rparr> \<and>
    slotCount s' = slotCount s \<and> reservedCount s' = reservedCount s"
proof -
  let ?P = "wbits pending"
  have fin: "finite L" using bk_inv_finite [OF assms(1)] .
  have i: "sb_inv (bitmap s)" "?P \<inter> bk_avail s = {}" "allocatedCount s = card L"
    using assms(1,2) by (auto simp: bk_inv_def)
  have len: "length pending = length (freeBitmap (bitmap s))"
    using assms(1,3) by (simp add: bk_inv_def sb_inv_def sb_wf_def sb_bits_def)
  from releaseBitsBulk_spec [OF i(1) len] i(2) obtain b where r: "releaseBitsBulk pending (bitmap s) = Inr b"
      and b: "sb_inv b" "same_shape (bitmap s) b" "sb_alloc b = sb_alloc (bitmap s)"
        "sb_free b = sb_free (bitmap s) \<union> ?P"
    by (cases "releaseBitsBulk pending (bitmap s)") auto
  have av: "sb_avail b = bk_avail s \<union> ?P" using b(3,4) by (auto simp: sb_avail_def)
  have A: "(L - ?P) \<union> sb_avail b = L \<union> bk_avail s" "(L - ?P) \<inter> sb_avail b = {}"
    using assms(1,2) av by (auto simp: bk_inv_def)
  note M = bk_inv_move [OF assms(1) b(1) same_shape_bits [OF b(2)] A]
  let ?w = "2 ^ slotCountWidth (slotCount s) :: nat"
  have c: "card (L - ?P) = card L - k" "k \<le> card L"
    using assms(2,4) fin by (simp_all add: card_Diff_subset card_mono)
  have lt: "card L < ?w" using bk_inv_bounds [OF assms(1)] by linarith
  then have "toCount (slotCount s) k = k" using c(2) by (intro toCount_small) simp
  moreover have "card L + (?w - k) = card (L - ?P) + ?w" using c lt by linarith
  moreover have "card (L - ?P) < ?w" using c lt by linarith
  ultimately have tc: "toCount (slotCount s) (card L + (?w - toCount (slotCount s) k)) = card (L - ?P)"
    by (simp add: toCount_def)
  have T: "stateFromCount (card L) (maxAlloc s) = occupancy L (bk_avail s)"
    "stateFromCount (sub_size (card L) k) (maxAlloc s) = occupancy (L - ?P) (sb_avail b)"
    using moved_transition [OF assms(1) _ M(2)] fin i(3) c by (simp_all add: sub_size_def)
  show ?thesis using r M(1) T tc av i(3) by (simp add: freeSlotsBulk_def Let_def)
qed

lemma freeSlotsBulk_double_free:
  assumes "bk_inv s L" "wbits pending \<inter> bk_avail s \<noteq> {}" "length pending = kWordCount (slotCount s)"
  shows "\<exists>e. freeSlotsBulk pending k s = Inl e"
proof -
  have i: "sb_inv (bitmap s)" using assms(1) by (simp add: bk_inv_def)
  moreover have "length pending = length (freeBitmap (bitmap s))"
    using assms(1,3) by (simp add: bk_inv_def sb_inv_def sb_wf_def sb_bits_def)
  ultimately show ?thesis
    using releaseBitsBulk_spec [of "bitmap s" pending] assms(2)
    by (cases "releaseBitsBulk pending (bitmap s)") (auto simp: freeSlotsBulk_def)
qed

section \<open>Reserving and seeding\<close>

lemma reserveSlot_spec:
  assumes "bk_inv s {}" "slot < kWordCount (slotCount s) * 64"
    "reservedCount s + 1 < 2 ^ slotCountWidth (slotCount s)"
  shows "\<exists>s'. reserveSlot slot s = Inr s' \<and> bk_inv s' {} \<and> bk_avail s' = bk_avail s - {slot} \<and>
    slotCount s' = slotCount s"
proof -
  have i: "sb_inv (bitmap s)" "slot < sb_bits (bitmap s)" "allocatedCount s = 0"
    using assms(1,2) by (simp_all add: bk_inv_def)
  note R = reserveBit_spec [OF i(1,2)]
  show ?thesis
  proof (cases "slot \<in> bk_avail s")
    case True
    then have "isBitAvailable slot (bitmap s)"
      using isBitAvailable_iff [OF _ i(2)] i(1) by (simp add: sb_inv_def)
    moreover have "card (bk_avail s) = Suc (card (bk_avail s - {slot}))"
      using finite_sb(3) True by (rule card.remove)
    ultimately show ?thesis
      using assms(1,3) R i(3) same_shape_bits [OF R(2)]
      by (auto simp: reserveSlot_def bk_inv_def toCount_small)
  next
    case False
    then have "\<not> isBitAvailable slot (bitmap s)"
      using isBitAvailable_iff [OF _ i(2)] i(1) by (simp add: sb_inv_def)
    with False assms(1) i(3) show ?thesis by (auto simp: reserveSlot_def)
  qed
qed

lemma reserveSlots_spec:
  assumes "sb_inv (bitmap s)" "allocatedCount s = 0" "distinct xs" "set xs \<subseteq> bk_avail s"
    "reservedCount s + length xs < 2 ^ slotCountWidth (slotCount s)"
  shows "\<exists>s'. reserveSlots xs s = Inr s' \<and> sb_inv (bitmap s') \<and> allocatedCount s' = 0 \<and>
    bk_avail s' = bk_avail s - set xs \<and> reservedCount s' = reservedCount s + length xs \<and>
    slotCount s' = slotCount s \<and> sb_bits (bitmap s') = sb_bits (bitmap s)"
  using assms
proof (induction xs arbitrary: s)
  case Nil
  then show ?case by simp
next
  case (Cons x xs)
  have x: "x < sb_bits (bitmap s)" "isBitAvailable x (bitmap s)"
    using Cons.prems(1,4) sb_avail_bound [of "bitmap s"] isBitAvailable_iff [of "bitmap s" x]
    by (auto simp: sb_inv_def)
  note R = reserveBit_spec [OF Cons.prems(1) x(1)]
  let ?t = "s\<lparr>bitmap := reserveBit x (bitmap s), reservedCount := reservedCount s + 1\<rparr>"
  have step: "reserveSlot x s = Inr ?t"
    using Cons.prems(2,5) x(2) by (simp add: reserveSlot_def toCount_small)
  have "\<exists>s'. reserveSlots xs ?t = Inr s' \<and> sb_inv (bitmap s') \<and> allocatedCount s' = 0 \<and>
    bk_avail s' = bk_avail ?t - set xs \<and> reservedCount s' = reservedCount ?t + length xs \<and>
    slotCount s' = slotCount ?t \<and> sb_bits (bitmap s') = sb_bits (bitmap ?t)"
    by (rule Cons.IH) (use Cons.prems R in auto)
  then show ?case using R(5) same_shape_bits [OF R(2)] step by auto
qed

lemma seedAllAvailable_usable_spec:
  assumes "sb_wf (bitmap s)" "sb_bits (bitmap s) = kWordCount (slotCount s) * 64"
    "0 < u" "u \<le> slotCount s" "slotCount s + 64 < 2 ^ 64"
    "reservedCount s + (kWordCount (slotCount s) * 64 - u) < 2 ^ slotCountWidth (slotCount s)"
  shows "\<exists>s'. seedAllAvailable_usable u s = Inr s' \<and> bk_avail s' = {..<u} \<and> allocatedCount s' = 0 \<and>
    sb_inv (bitmap s') \<and> sb_bits (bitmap s') = sb_bits (bitmap s) \<and>
    reservedCount s' = reservedCount s + (kWordCount (slotCount s) * 64 - u) \<and> slotCount s' = slotCount s"
proof -
  let ?t = "s\<lparr>bitmap := sb_seedAllAvailable (bitmap s), allocatedCount := 0\<rparr>"
  note S = sb_seedAllAvailable_spec [OF assms(1)]
  have "u \<le> kWordCount (slotCount s) * 64"
    using assms(3-5) slotCountWidth_bounds(4) [of "slotCount s"] by simp
  then have d: "{..<kWordCount (slotCount s) * 64} - set [u..<kWordCount (slotCount s) * 64] = {..<u}"
    by auto
  have "\<exists>s'. reserveSlots [u..<kWordCount (slotCount s) * 64] ?t = Inr s' \<and> sb_inv (bitmap s') \<and>
      allocatedCount s' = 0 \<and> bk_avail s' = bk_avail ?t - set [u..<kWordCount (slotCount s) * 64] \<and>
      reservedCount s' = reservedCount ?t + length [u..<kWordCount (slotCount s) * 64] \<and>
      slotCount s' = slotCount ?t \<and> sb_bits (bitmap s') = sb_bits (bitmap ?t)"
    by (rule reserveSlots_spec) (use S assms in auto)
  then show ?thesis
    using assms(2,4) S(2,5) same_shape_bits [OF S(2)] d by (auto simp: seedAllAvailable_usable_def)
qed

lemma seedAllAvailable_fresh:
  assumes "sb_wf (bitmap s)" "sb_bits (bitmap s) = kWordCount (slotCount s) * 64"
    "0 < slotCount s" "slotCount s + 64 < 2 ^ 64" "reservedCount s = 0"
  shows "\<exists>s'. seedAllAvailable s = Inr s' \<and> bk_inv s' {} \<and> bk_avail s' = {..<slotCount s} \<and>
    slotCount s' = slotCount s \<and> reservedCount s' = kWordCount (slotCount s) * 64 - slotCount s"
proof -
  note W = slotCountWidth_bounds [OF assms(3,4)]
  have r: "kWordCount (slotCount s) * 64 - slotCount s < 2 ^ slotCountWidth (slotCount s)"
    using W(1,2) assms(3) by linarith
  then obtain s' where "seedAllAvailable_usable (slotCount s) s = Inr s'" "bk_avail s' = {..<slotCount s}"
      "allocatedCount s' = 0" "sb_inv (bitmap s')" "sb_bits (bitmap s') = sb_bits (bitmap s)"
      "reservedCount s' = kWordCount (slotCount s) * 64 - slotCount s" "slotCount s' = slotCount s"
    using seedAllAvailable_usable_spec [OF assms(1,2,3) order_refl assms(4)] assms(5) by auto
  then show ?thesis
    using assms W(4) r by (auto simp: seedAllAvailable_def bk_inv_def)
qed

lemma seedAllUsed_spec:
  assumes "bk_inv s L"
  shows "bk_inv (seedAllUsed s) (L \<union> bk_avail s)" "bk_avail (seedAllUsed s) = {}"
    "slotCount (seedAllUsed s) = slotCount s" "reservedCount (seedAllUsed s) = reservedCount s"
proof -
  have wf: "sb_wf (bitmap s)" using assms by (simp add: bk_inv_def sb_inv_def)
  note S = sb_seedAllUsed_spec [OF wf]
  have b: "sb_bits (sb_seedAllUsed (bitmap s)) = sb_bits (bitmap s)" using same_shape_bits [OF S(2)] .
  have "bk_inv (s\<lparr>bitmap := sb_seedAllUsed (bitmap s), allocatedCount := card (L \<union> bk_avail s)\<rparr>)
      (L \<union> bk_avail s)"
    by (rule bk_inv_move(1) [OF assms S(1) b]) (simp_all add: S(3))
  moreover have "toCount (slotCount s) (maxAlloc s) = card (L \<union> bk_avail s)"
    using bk_inv_bounds [OF assms] assms bk_inv_finite [OF assms]
    by (simp add: toCount_small card_Un_disjoint bk_inv_def)
  ultimately show "bk_inv (seedAllUsed s) (L \<union> bk_avail s)" by (simp add: seedAllUsed_def)
  show "bk_avail (seedAllUsed s) = {}" "slotCount (seedAllUsed s) = slotCount s"
    "reservedCount (seedAllUsed s) = reservedCount s"
    using S(3) by (simp_all add: seedAllUsed_def)
qed

lemma flushAllocSide_spec:
  assumes "bk_inv s L"
  shows "bk_inv (flushAllocSide s) L" "bk_avail (flushAllocSide s) = bk_avail s"
    "slotCount (flushAllocSide s) = slotCount s" "reservedCount (flushAllocSide s) = reservedCount s"
    "allocatedCount (flushAllocSide s) = allocatedCount s"
proof -
  have i: "sb_inv (bitmap s)" using assms by (simp add: bk_inv_def)
  note F = flushAllocIntoFree_spec [OF i]
  show av: "bk_avail (flushAllocSide s) = bk_avail s"
    using F(3,4) by (simp add: flushAllocSide_def sb_avail_def)
  with assms F(1) same_shape_bits [OF F(2)] show "bk_inv (flushAllocSide s) L"
    by (simp add: bk_inv_def flushAllocSide_def)
qed (simp_all add: flushAllocSide_def)

section \<open>Queries\<close>

lemma bk_queries:
  assumes "bk_inv s L"
  shows "bk_isFull s \<longleftrightarrow> bk_avail s = {}"
    "bk_isEmpty s \<longleftrightarrow> L = {} \<and> bk_avail s = {..<slotCount s}"
    "freeSlotCount s = card (bk_avail s)" "bitmapAvailableCount s = card (bk_avail s)"
    "x < kWordCount (slotCount s) * 64 \<Longrightarrow> isSlotFree x s \<longleftrightarrow> x \<in> bk_avail s"
proof -
  note B = bk_inv_bounds [OF assms]
  have fin: "finite L" using bk_inv_finite [OF assms] .
  have "toCount (slotCount s) (maxAlloc s) = card L + card (bk_avail s)"
    using B by (simp add: toCount_small)
  then show "bk_isFull s \<longleftrightarrow> bk_avail s = {}" using assms by (simp add: bk_isFull_def bk_inv_def)
  have n: "0 < slotCount s" "slotCount s + 64 < 2 ^ 64" using assms by (simp_all add: bk_inv_def)
  note W = slotCountWidth_bounds [OF n]
  have tail: "kTailBits (slotCount s) = kWordCount (slotCount s) * 64 - slotCount s"
    unfolding kTailBits_def by (rule toCount_small) (use W n in linarith)
  have full: "card (bk_avail s) = slotCount s \<longleftrightarrow> bk_avail s = {..<slotCount s}"
    using assms card_subset_eq [of "{..<slotCount s}" "bk_avail s"] by (auto simp: bk_inv_def)
  have R: "reservedCount s + card L + card (bk_avail s) = kWordCount (slotCount s) * 64"
    using assms by (simp add: bk_inv_def)
  have "bk_isEmpty s \<longleftrightarrow> card L = 0 \<and> card (bk_avail s) = slotCount s"
    using assms R W(4) B(1) by (auto simp: bk_isEmpty_def tail bk_inv_def)
  then show "bk_isEmpty s \<longleftrightarrow> L = {} \<and> bk_avail s = {..<slotCount s}"
    using fin full by simp
  show "freeSlotCount s = card (bk_avail s)"
    using B(3) assms by (simp add: freeSlotCount_def sub_size_def bk_inv_def)
  show "bitmapAvailableCount s = card (bk_avail s)"
    using assms countAvailable_card by (simp add: bitmapAvailableCount_def bk_inv_def)
  show "x < kWordCount (slotCount s) * 64 \<Longrightarrow> isSlotFree x s \<longleftrightarrow> x \<in> bk_avail s"
    using assms isBitAvailable_iff [of "bitmap s" x] by (simp add: isSlotFree_def bk_inv_def sb_inv_def)
qed

section \<open>Addresses of a slab\<close>

definition slab_inv :: "slab \<Rightarrow> nat set \<Rightarrow> bool" where
  "slab_inv s L \<longleftrightarrow> bk_inv (bookkeeper s) L \<and> 0 < slotSize s \<and>
     unat (baseAddr s) + kRegionSize s < 2 ^ 64"

definition slotAddr :: "slab \<Rightarrow> nat \<Rightarrow> u64" where
  "slotAddr s slot = baseAddr s + of_nat (slot * slotSize s)"

lemma slotAddr_offset:
  assumes "slab_inv s L" "slot < slotCount (bookkeeper s)"
  shows "unat (slotAddr s slot) = unat (baseAddr s) + slot * slotSize s"
    "unat (slotAddr s slot - baseAddr s) = slot * slotSize s" "slab_contains (slotAddr s slot) s"
proof -
  have "slot * slotSize s < kRegionSize s"
    using assms by (simp add: kRegionSize_def slab_inv_def)
  then have lt: "unat (baseAddr s) + slot * slotSize s < 2 ^ 64" "kRegionSize s < 2 ^ 64"
    using assms(1) unfolding slab_inv_def by linarith+
  have u: "unat (of_nat (slot * slotSize s) :: u64) = slot * slotSize s"
    by (subst unat_of_nat) (use lt in simp)
  have r: "unat (of_nat (kRegionSize s) :: u64) = kRegionSize s"
    by (subst unat_of_nat) (use lt in simp)
  show a: "unat (slotAddr s slot) = unat (baseAddr s) + slot * slotSize s"
    using lt u by (simp add: slotAddr_def unat_add_lem [THEN iffD1] del: of_nat_mult)
  show "unat (slotAddr s slot - baseAddr s) = slot * slotSize s"
    using u by (simp add: slotAddr_def del: of_nat_mult)
  have "unat (baseAddr s + of_nat (kRegionSize s)) = unat (baseAddr s) + kRegionSize s"
    using assms(1) r by (simp add: slab_inv_def unat_add_lem [THEN iffD1])
  with a \<open>slot * slotSize s < kRegionSize s\<close> show "slab_contains (slotAddr s slot) s"
    by (simp add: slab_contains_def word_le_nat_alt word_less_nat_alt)
qed

lemma slab_alloc_spec:
  assumes "slab_inv s L" "slab_alloc s = (s', r, t)"
  shows "r = None \<longleftrightarrow> bk_avail (bookkeeper s) = {}"
    "r = Some p \<Longrightarrow> \<exists>slot \<in> bk_avail (bookkeeper s). p = slotAddr s slot \<and> slab_inv s' (insert slot L) \<and>
       bk_avail (bookkeeper s') = bk_avail (bookkeeper s) - {slot} \<and>
       slotSize s' = slotSize s \<and> baseAddr s' = baseAddr s"
proof -
  have i: "bk_inv (bookkeeper s) L" using assms(1) by (simp add: slab_inv_def)
  obtain bk xs where a: "allocSlots 1 (bookkeeper s) = (bk, xs, t)"
    and s': "s' = s\<lparr>bookkeeper := bk\<rparr>"
    and r: "r = (case xs of [] \<Rightarrow> None | x # _ \<Rightarrow> Some (slotAddr s x))"
    using assms(2) allocSlot_allocSlots [OF i]
    by (cases "allocSlots 1 (bookkeeper s)")
      (auto simp: slab_alloc_def slotAddr_def split: list.splits)
  note A = allocSlots_spec [OF i a]
  show "r = None \<longleftrightarrow> bk_avail (bookkeeper s) = {}"
    using A(5) r by (cases xs) (auto simp: min_def split: if_splits)
  assume p: "r = Some p"
  then obtain x where x: "xs = [x]" "p = slotAddr s x"
    using A(5) r by (cases xs) (auto simp: min_def split: if_splits)
  with A s' assms(1) show "\<exists>slot \<in> bk_avail (bookkeeper s). p = slotAddr s slot \<and>
       slab_inv s' (insert slot L) \<and>
       bk_avail (bookkeeper s') = bk_avail (bookkeeper s) - {slot} \<and>
       slotSize s' = slotSize s \<and> baseAddr s' = baseAddr s"
    by (intro bexI [of _ x]) (auto simp: slab_inv_def kRegionSize_def)
qed

lemma slab_free_slot:
  assumes "slab_inv s L" "slot \<in> L"
  shows "\<exists>s' t. slab_free (slotAddr s slot) s = Inr (s', t) \<and> slab_inv s' (L - {slot}) \<and>
    bk_avail (bookkeeper s') = insert slot (bk_avail (bookkeeper s))"
proof -
  have lt: "slot < slotCount (bookkeeper s)" using assms by (auto simp: slab_inv_def bk_inv_def)
  note O = slotAddr_offset [OF assms(1) lt]
  have i: "bk_inv (bookkeeper s) L" "0 < slotSize s" using assms(1) by (simp_all add: slab_inv_def)
  obtain bk t where f: "freeSlot slot (bookkeeper s) = Inr (bk, t)" "bk_inv bk (L - {slot})"
      "bk_avail bk = insert slot (bk_avail (bookkeeper s))" "slotCount bk = slotCount (bookkeeper s)"
    using freeSlot_spec [OF i(1) assms(2)] by blast
  have "slab_free (slotAddr s slot) s = Inr (s\<lparr>bookkeeper := bk\<rparr>, t)"
    using O i(2) f(1) by (simp add: slab_free_def)
  with f assms(1) show ?thesis by (auto simp: slab_inv_def kRegionSize_def)
qed

section \<open>Properties\<close>

text \<open>
  C10: \<open>allocSlots\<close> hands out as many slots as asked for or as there are, each available before,
  each once, all below \<open>SlotCount\<close>; the live set grows by exactly those slots, the counters stay
  exact, and the reported transition is the true occupancy before and after the batch.
\<close>

theorem allocSlots_exact:
  assumes "bk_inv s L" and "allocSlots n s = (s', xs, t)"
  shows "bk_inv s' (L \<union> set xs) \<and> distinct xs \<and> set xs \<subseteq> bk_avail s \<and> set xs \<inter> L = {} \<and>
    bk_avail s' = bk_avail s - set xs \<and> length xs = min n (card (bk_avail s)) \<and>
    before t = occupancy L (bk_avail s) \<and> after t = occupancy (L \<union> set xs) (bk_avail s')"
  using allocSlots_spec [OF assms] assms(1) by (auto simp: bk_inv_def)

text \<open>A slab of 64 slots with one bitmap word, slot 1 live, for the witnesses.\<close>

definition demo_bk :: slab_bk where
  "demo_bk = \<lparr>bitmap = \<lparr>allocBitmap = [NOT (bit1 1)], freeBitmap = [0], hint = 0, useHint = False\<rparr>,
     allocatedCount = 1, reservedCount = 0, slotCount = 64\<rparr>"

lemma demo_bk_avail: "bk_avail demo_bk = {..<64} - {1}"
  by (simp add: demo_bk_def sb_avail_def sb_alloc_def sb_free_def wbits_single bits_not bits_bit1)

lemma demo_bk_inv: "bk_inv demo_bk {1}"
proof -
  have "sb_inv (bitmap demo_bk)"
    by (simp add: demo_bk_def sb_inv_def sb_wf_def hint_ok_def sb_free_def wbits_single)
  moreover have "card (bk_avail demo_bk) = 63" by (simp add: demo_bk_avail)
  ultimately show ?thesis
    unfolding bk_inv_def demo_bk_avail by (simp add: demo_bk_def sb_bits_def kWordCount_def)
qed

theorem allocSlots_exact_witness:
  "bk_inv demo_bk {1} \<and> fst (snd (allocSlots 2 demo_bk)) = [0, 2] \<and>
   bk_inv (fst (allocSlots 2 demo_bk)) ({1} \<union> {0, 2}) \<and>
   after (snd (snd (allocSlots 2 demo_bk))) = Partial"
proof -
  have e: "fst (snd (allocSlots 2 demo_bk)) = [0, 2]" "after (snd (snd (allocSlots 2 demo_bk))) = Partial"
    by code_simp+
  obtain s' xs t where a: "allocSlots 2 demo_bk = (s', xs, t)" by (metis prod_cases3)
  have "xs = [0, 2]" using e(1) a by simp
  then have "bk_inv s' ({1} \<union> set [0, 2])" using allocSlots_exact [OF demo_bk_inv a] by simp
  then show ?thesis using demo_bk_inv e a by (simp add: insert_commute)
qed

text \<open>
  C11: a bulk free of live slots (with the right count) always succeeds, returns exactly those
  slots to the available side and reports the true occupancy change; a bulk free that names an
  available slot is refused by an assertion.
\<close>

theorem freeSlotsBulk_exact:
  assumes "bk_inv s L" and "length pending = kWordCount (slotCount s)"
  shows "(wbits pending \<subseteq> L \<longrightarrow>
      (\<exists>s' t. freeSlotsBulk pending (card (wbits pending)) s = Inr (s', t) \<and>
        bk_inv s' (L - wbits pending) \<and> bk_avail s' = bk_avail s \<union> wbits pending \<and>
        before t = occupancy L (bk_avail s) \<and>
        after t = occupancy (L - wbits pending) (bk_avail s'))) \<and>
    (wbits pending \<inter> bk_avail s \<noteq> {} \<longrightarrow> (\<exists>e. freeSlotsBulk pending k s = Inl e))"
  using freeSlotsBulk_spec [OF assms(1) _ assms(2) refl] freeSlotsBulk_double_free [OF assms(1) _ assms(2)]
  by fastforce

theorem freeSlotsBulk_exact_witness:
  "bk_inv demo_bk {1} \<and> wbits [2] = {1} \<and>
   (\<exists>s' t. freeSlotsBulk [2] (card {1 :: nat}) demo_bk = Inr (s', t) \<and> bk_inv s' {} \<and>
      before t = Partial \<and> after t = Empty) \<and>
   (\<exists>e. freeSlotsBulk [1] 1 demo_bk = Inl e)"
proof -
  have len: "length [x :: u64] = kWordCount (slotCount demo_bk)" for x
    by (simp add: demo_bk_def kWordCount_def)
  have w: "wbits [2] = {1}" "wbits [1] = {0}"
    using bits_bit1 [of 1] bits_bit1 [of 0] by (simp_all add: wbits_single bit1_def)
  have "0 \<in> bk_avail demo_bk" by (simp add: demo_bk_avail)
  then have o: "occupancy {1} (bk_avail demo_bk) = Partial" "occupancy {} A = Empty" for A
    by (auto simp: occupancy_def)
  have d: "wbits [1] \<inter> bk_avail demo_bk \<noteq> {}" by (simp add: w demo_bk_avail)
  obtain s' t where f: "freeSlotsBulk [2] (card (wbits [2])) demo_bk = Inr (s', t)"
      "bk_inv s' ({1} - wbits [2])" "before t = occupancy {1} (bk_avail demo_bk)"
      "after t = occupancy ({1} - wbits [2]) (bk_avail s')"
    using freeSlotsBulk_exact [OF demo_bk_inv len, of 2 0] w(1) by blast
  moreover have "\<exists>e. freeSlotsBulk [1] 1 demo_bk = Inl e"
    using freeSlotsBulk_exact [OF demo_bk_inv len, of 1 1] d by blast
  ultimately show ?thesis using demo_bk_inv w o by simp
qed

text \<open>
  the block that \<open>Slab::alloc\<close> returns lies inside the slab at a multiple of the slot size, is
  refused to nobody else while it is live, and \<open>Slab::free\<close> of it succeeds and makes exactly that
  slot available again.
\<close>

lemma slab_alloc_free_roundtrip:
  assumes "slab_inv s L" and "slab_alloc s = (s', Some p, t)"
  shows "slab_contains p s' \<and> unat (p - baseAddr s') mod slotSize s' = 0 \<and>
    (\<forall>x \<in> L. slotAddr s x \<noteq> p) \<and>
    (\<exists>s'' t'. slab_free p s' = Inr (s'', t') \<and> slab_inv s'' L \<and>
       bk_avail (bookkeeper s'') = bk_avail (bookkeeper s))"
proof -
  obtain slot where slot: "slot \<in> bk_avail (bookkeeper s)" "p = slotAddr s slot"
    and i: "slab_inv s' (insert slot L)" "bk_avail (bookkeeper s') = bk_avail (bookkeeper s) - {slot}"
    and eq: "slotSize s' = slotSize s" "baseAddr s' = baseAddr s"
    using slab_alloc_spec(2) [OF assms] by blast
  have p: "p = slotAddr s' slot" using slot(2) eq by (simp add: slotAddr_def)
  have nl: "slot \<notin> L" using slot(1) assms(1) by (auto simp: slab_inv_def bk_inv_def)
  have lt: "slot < slotCount (bookkeeper s')" using i(1) by (auto simp: slab_inv_def bk_inv_def)
  note O = slotAddr_offset [OF i(1) lt, folded p]
  have "slotAddr s x \<noteq> p" if "x \<in> L" for x
  proof
    assume eqp: "slotAddr s x = p"
    have "x < slotCount (bookkeeper s)" "slot < slotCount (bookkeeper s)"
      using that slot(1) assms(1) by (auto simp: slab_inv_def bk_inv_def)
    then have "x * slotSize s = slot * slotSize s"
      using slotAddr_offset(2) [OF assms(1)] eqp slot(2) by metis
    moreover have "0 < slotSize s" using assms(1) by (simp add: slab_inv_def)
    ultimately show False using that nl by simp
  qed
  moreover have "slab_contains p s' \<and> unat (p - baseAddr s') mod slotSize s' = 0" using O by simp
  moreover obtain s'' t' where "slab_free p s' = Inr (s'', t')" "slab_inv s'' (insert slot L - {slot})"
      "bk_avail (bookkeeper s'') = insert slot (bk_avail (bookkeeper s'))"
    using slab_free_slot [OF i(1), of slot] p by auto
  moreover have "insert slot L - {slot} = L" using nl by simp
  moreover have "insert slot (bk_avail (bookkeeper s')) = bk_avail (bookkeeper s)" using i(2) slot(1) by auto
  ultimately show ?thesis by auto
qed

definition demo_slab :: slab where
  "demo_slab = \<lparr>bookkeeper = demo_bk, baseAddr = 4096, slotSize = 32\<rparr>"

text \<open>
  Seeding a bookkeeper a second time counts the tail bits a second time: \<open>seedAllAvailable\<close>
  makes every bit available again and reserves the tail anew, but never resets \<open>reservedCount\<close>.
  After two seedings of a slab with \<open>0 < tail\<close> the slab holds no allocation, all its slots are
  available, and yet \<open>isEmpty\<close> answers false.
\<close>

lemma seedAllAvailable_twice_miscounts:
  assumes "sb_wf (bitmap s)" and "sb_bits (bitmap s) = kWordCount (slotCount s) * 64"
    and "0 < slotCount s" and "slotCount s + 64 < 2 ^ 64" and "reservedCount s = 0"
    and "slotCount s mod 64 \<noteq> 0"
    and "2 * (kWordCount (slotCount s) * 64 - slotCount s) < 2 ^ slotCountWidth (slotCount s)"
  shows "\<exists>s1 s2. seedAllAvailable s = Inr s1 \<and> seedAllAvailable s1 = Inr s2 \<and> bk_isEmpty s1 \<and>
    bk_avail s2 = {..<slotCount s} \<and> allocatedCount s2 = 0 \<and>
    reservedCount s2 = 2 * (kWordCount (slotCount s) * 64 - slotCount s) \<and> \<not> bk_isEmpty s2"
proof -
  let ?n = "slotCount s" and ?t = "kWordCount (slotCount s) * 64 - slotCount s"
  obtain s1 where s1: "seedAllAvailable s = Inr s1" "bk_inv s1 {}" "bk_avail s1 = {..<?n}"
      "slotCount s1 = ?n" "reservedCount s1 = ?t"
    using seedAllAvailable_fresh [OF assms(1-5)] by auto
  have wf1: "sb_wf (bitmap s1)" "sb_bits (bitmap s1) = kWordCount (slotCount s1) * 64"
    using s1(2) by (simp_all add: bk_inv_def sb_inv_def)
  obtain s2 where s2: "seedAllAvailable_usable ?n s1 = Inr s2" "bk_avail s2 = {..<?n}"
      "allocatedCount s2 = 0" "reservedCount s2 = 2 * ?t" "slotCount s2 = ?n"
    using seedAllAvailable_usable_spec [OF wf1 assms(3)] assms(4,7) s1(4,5) by auto
  have "kTailBits ?n = ?t"
    unfolding kTailBits_def using assms(7) by (intro toCount_small) linarith
  moreover have "0 < ?t"
  proof -
    have "?n \<noteq> kWordCount ?n * 64" using assms(6) by (metis mod_mult_self2_is_0)
    then show ?thesis using slotCountWidth_bounds(4) [OF assms(3,4)] by linarith
  qed
  ultimately have "\<not> bk_isEmpty s2" using s2(4,5) by (simp add: bk_isEmpty_def)
  with s1 s2 bk_queries(2) [OF s1(2)] show ?thesis by (auto simp: seedAllAvailable_def)
qed

definition blank_bk :: "nat \<Rightarrow> slab_bk" where
  "blank_bk n = \<lparr>bitmap = \<lparr>allocBitmap = [0], freeBitmap = [0], hint = 0, useHint = False\<rparr>,
     allocatedCount = 0, reservedCount = 0, slotCount = n\<rparr>"

end
