(* ===== verification/Array_Slices.thy ===== *)
theory Array_Slices
  imports Croc_Prelude "HOL-Library.Multiset"
begin

text \<open>
  Arrays behind a pointer as lists: checked reads and writes (an access outside the array is
  \<open>Undefined\<close>), \<open>swap\<close> of \<open>core/utility.h\<close>, and the vocabulary of in-place algorithms: two arrays
  that agree outside an index range and hold the same elements. The sorts and the heap work on it.
\<close>

definition readAt :: "'a list \<Rightarrow> nat \<Rightarrow> 'a outcome" where
  "readAt data i = (if i < length data then Inr (data ! i) else Inl (Undefined ''out of bounds''))"

definition writeAt :: "'a list \<Rightarrow> nat \<Rightarrow> 'a \<Rightarrow> 'a list outcome" where
  "writeAt data i v =
     (if i < length data then Inr (data[i := v]) else Inl (Undefined ''out of bounds''))"

definition swap :: "'a list \<Rightarrow> nat \<Rightarrow> nat \<Rightarrow> 'a list outcome" where
  "swap data i j =
     bindO (readAt data i) (\<lambda>x. bindO (readAt data j) (\<lambda>y.
       bindO (writeAt data i y) (\<lambda>data'. writeAt data' j x)))"

lemma readAt_ok [simp]: "i < length data \<Longrightarrow> readAt data i = Inr (data ! i)"
  by (simp add: readAt_def)

lemma writeAt_ok [simp]: "i < length data \<Longrightarrow> writeAt data i v = Inr (data[i := v])"
  by (simp add: writeAt_def)

lemma swap_ok [simp]:
  "i < length data \<Longrightarrow> j < length data \<Longrightarrow> swap data i j = Inr (data[i := data ! j, j := data ! i])"
  by (simp add: swap_def)

section \<open>Rearrangements of a range\<close>

definition rearr :: "nat \<Rightarrow> nat \<Rightarrow> 'a list \<Rightarrow> 'a list \<Rightarrow> bool" where
  "rearr lo hi d d' \<longleftrightarrow>
     length d' = length d \<and> mset d' = mset d \<and> (\<forall>k. k < lo \<or> hi \<le> k \<longrightarrow> k < length d \<longrightarrow> d' ! k = d ! k)"

definition segment :: "nat \<Rightarrow> nat \<Rightarrow> 'a list \<Rightarrow> 'a list" where
  "segment lo hi d = take (hi - lo) (drop lo d)"

lemma rearr_refl [simp]: "rearr lo hi d d"
  by (simp add: rearr_def)

lemma rearr_trans: "rearr lo hi d d' \<Longrightarrow> rearr lo hi d' d'' \<Longrightarrow> rearr lo hi d d''"
  by (auto simp: rearr_def)

lemma rearr_mono: "rearr lo hi d d' \<Longrightarrow> lo' \<le> lo \<Longrightarrow> hi \<le> hi' \<Longrightarrow> rearr lo' hi' d d'"
  by (auto simp: rearr_def)

lemma rearr_length [dest]: "rearr lo hi d d' \<Longrightarrow> length d' = length d"
  by (simp add: rearr_def)

lemma rearr_mset: "rearr lo hi d d' \<Longrightarrow> mset d' = mset d"
  by (simp add: rearr_def)

lemma rearr_outside:
  "rearr lo hi d d' \<Longrightarrow> k < lo \<or> hi \<le> k \<Longrightarrow> k < length d \<Longrightarrow> d' ! k = d ! k"
  unfolding rearr_def by blast

lemma rearr_swap:
  assumes "lo \<le> i" "lo \<le> j" "i < hi" "j < hi" "hi \<le> length d"
  shows "rearr lo hi d (d[i := d ! j, j := d ! i])"
  using assms by (auto simp: rearr_def mset_swap nth_list_update)

lemma length_segment [simp]: "hi \<le> length d \<Longrightarrow> length (segment lo hi d) = hi - lo"
  by (simp add: segment_def)

lemma nth_segment [simp]: "lo + k < hi \<Longrightarrow> hi \<le> length d \<Longrightarrow> segment lo hi d ! k = d ! (lo + k)"
  by (simp add: segment_def)

lemma set_segment: "hi \<le> length d \<Longrightarrow> set (segment lo hi d) = {d ! k |k. lo \<le> k \<and> k < hi}"
proof -
  assume hi: "hi \<le> length d"
  have "d ! k \<in> set (segment lo hi d)" if "lo \<le> k" "k < hi" for k
    using that hi nth_segment [of lo "k - lo" hi d] nth_mem [of "k - lo" "segment lo hi d"] by simp
  moreover have "\<exists>k. x = d ! k \<and> lo \<le> k \<and> k < hi" if "x \<in> set (segment lo hi d)" for x
  proof -
    from that hi obtain i where "i < hi - lo" "x = d ! (lo + i)" by (auto simp: in_set_conv_nth)
    then show ?thesis by (intro exI [of _ "lo + i"]) simp
  qed
  ultimately show ?thesis by blast
qed

lemma split_segment: "lo \<le> hi \<Longrightarrow> hi \<le> length d \<Longrightarrow> d = take lo d @ segment lo hi d @ drop hi d"
proof -
  assume le: "lo \<le> hi" "hi \<le> length d"
  have "drop lo d = take (hi - lo) (drop lo d) @ drop hi d"
    using append_take_drop_id [of "hi - lo" "drop lo d"] le by (simp add: drop_drop)
  then show ?thesis unfolding segment_def by (metis append_take_drop_id)
qed

lemma rearr_segment_mset:
  assumes "rearr lo hi d d'" "lo \<le> hi" "hi \<le> length d"
  shows "mset (segment lo hi d') = mset (segment lo hi d)"
proof -
  have t: "take lo d' = take lo d" "drop hi d' = drop hi d"
    using assms by (auto simp: rearr_def intro!: nth_equalityI)
  have "mset d' = mset (take lo d') + mset (segment lo hi d') + mset (drop hi d')"
    using split_segment [of lo hi d'] assms by (metis rearr_length mset_append add.assoc)
  moreover have "mset d = mset (take lo d) + mset (segment lo hi d) + mset (drop hi d)"
    using split_segment [of lo hi d] assms by (metis mset_append add.assoc)
  ultimately show ?thesis using assms(1) t by (simp add: rearr_def)
qed

text \<open>A property of every element of the range survives the rearrangement.\<close>

lemma rearr_all:
  assumes "rearr lo hi d d'" "hi \<le> length d" "\<And>k. lo \<le> k \<Longrightarrow> k < hi \<Longrightarrow> P (d ! k)"
    and "lo \<le> k" "k < hi"
  shows "P (d' ! k)"
proof -
  have "d' ! k \<in> set (segment lo hi d')" using assms(4,5) rearr_length [OF assms(1)] assms(2)
    by (auto simp: set_segment)
  also have "\<dots> = set (segment lo hi d)"
    using rearr_segment_mset [OF assms(1) _ assms(2)] assms(4,5) by (intro mset_eq_setD) simp
  finally show ?thesis using assms(2,3) by (auto simp: set_segment)
qed

lemma rearr_of_parts:
  assumes "mset ys = mset xs"
  shows "rearr (length pre) (length pre + length xs) (pre @ xs @ post) (pre @ ys @ post)"
  using assms mset_eq_length [OF assms]
  by (auto simp: rearr_def nth_append)

end
