(* ===== verification/Sorting.thy ===== *)
theory Sorting
  imports Array_Slices Core_Math
begin

text \<open>
  The introspective sort of \<open>core/algo/sort.h\<close> on an array with a comparator: insertion sort,
  the heap primitive \<open>heapify\<close>, heap sort, median of three, Hoare partition with its reference pivot
  and the depth-limited recursion. Proved for every strict weak order (locale \<open>weak_order\<close>): each
  sort stays in bounds, terminates, permutes only its range and leaves it sorted.
\<close>

section \<open>Comparators\<close>

definition DefaultComparator :: "'a::linorder \<Rightarrow> 'a \<Rightarrow> bool" where
  "DefaultComparator a b = (a < b)"

definition ReversedComparator :: "('a \<Rightarrow> 'a \<Rightarrow> bool) \<Rightarrow> 'a \<Rightarrow> 'a \<Rightarrow> bool" where
  "ReversedComparator cmp a b = cmp b a"

section \<open>Insertion sort\<close>

text \<open>The inner while loop and the final store of the key.\<close>

fun insertKey :: "('a \<Rightarrow> 'a \<Rightarrow> bool) \<Rightarrow> nat \<Rightarrow> 'a \<Rightarrow> 'a list \<Rightarrow> nat \<Rightarrow> 'a list outcome" where
  "insertKey cmp low key data 0 = writeAt data 0 key"
| "insertKey cmp low key data (Suc j) =
     (if low < Suc j then
        bindO (readAt data j) (\<lambda>x.
          if cmp key x
          then bindO (writeAt data (Suc j) x) (\<lambda>data'. insertKey cmp low key data' j)
          else writeAt data (Suc j) key)
      else writeAt data (Suc j) key)"

function insertionSort_from :: "('a \<Rightarrow> 'a \<Rightarrow> bool) \<Rightarrow> nat \<Rightarrow> nat \<Rightarrow> nat \<Rightarrow> 'a list \<Rightarrow> 'a list outcome" where
  "insertionSort_from cmp low high i data =
     (if i \<le> high then
        bindO (readAt data i) (\<lambda>key.
          bindO (insertKey cmp low key data i) (\<lambda>data'. insertionSort_from cmp low high (i + 1) data'))
      else Inr data)"
  by pat_completeness auto
termination by (relation "measure (\<lambda>(cmp, low, high, i, data). Suc high - i)") auto

definition insertionSort :: "('a \<Rightarrow> 'a \<Rightarrow> bool) \<Rightarrow> nat \<Rightarrow> nat \<Rightarrow> 'a list \<Rightarrow> 'a list outcome" where
  "insertionSort cmp low high data = insertionSort_from cmp low high (low + 1) data"

section \<open>Heap sort\<close>

text \<open>The choice of the largest among a node and its children, with the sources' short circuits.\<close>

definition pickLarger :: "('a \<Rightarrow> 'a \<Rightarrow> bool) \<Rightarrow> 'a list \<Rightarrow> nat \<Rightarrow> nat \<Rightarrow> nat \<Rightarrow> nat \<Rightarrow> nat outcome" where
  "pickLarger cmp data heap_size heap_base child largest =
     (if child < heap_size then
        bindO (readAt data (largest + heap_base)) (\<lambda>x. bindO (readAt data (child + heap_base)) (\<lambda>y.
          Inr (if cmp x y then child else largest)))
      else Inr largest)"

definition largestOf :: "('a \<Rightarrow> 'a \<Rightarrow> bool) \<Rightarrow> 'a list \<Rightarrow> nat \<Rightarrow> nat \<Rightarrow> nat \<Rightarrow> nat outcome" where
  "largestOf cmp data heap_size heap_base index =
     bindO (pickLarger cmp data heap_size heap_base (2 * index + 1) index)
       (pickLarger cmp data heap_size heap_base (2 * index + 2))"

lemma pickLarger_cases:
  "pickLarger cmp data n b child l = Inr m \<Longrightarrow> m = l \<or> m = child \<and> child < n"
  by (auto simp: pickLarger_def bindO_eq_Inr_iff split: if_splits)

lemma largestOf_cases:
  assumes "largestOf cmp data n b i = Inr m"
  shows "m = i \<or> (m = 2 * i + 1 \<or> m = 2 * i + 2) \<and> m < n"
  using assms unfolding largestOf_def bindO_eq_Inr_iff by (auto dest!: pickLarger_cases)

function heapify :: "('a \<Rightarrow> 'a \<Rightarrow> bool) \<Rightarrow> nat \<Rightarrow> nat \<Rightarrow> nat \<Rightarrow> 'a list \<Rightarrow> 'a list outcome" where
  "heapify cmp heap_size heap_base index data =
     (case largestOf cmp data heap_size heap_base index of
        Inl e \<Rightarrow> Inl e
      | Inr largest \<Rightarrow>
          if largest \<noteq> index then
            (case swap data (index + heap_base) (largest + heap_base) of
               Inl e \<Rightarrow> Inl e
             | Inr data' \<Rightarrow> heapify cmp heap_size heap_base largest data')
          else Inr data)"
  by pat_completeness auto
termination
  by (relation "measure (\<lambda>(cmp, heap_size, heap_base, index, data). heap_size - index)")
    (auto dest: largestOf_cases)

text \<open>\<open>heapifyDown n\<close> runs \<open>heapify\<close> at the indices n - 1, ..., 0.\<close>

fun heapifyDown :: "('a \<Rightarrow> 'a \<Rightarrow> bool) \<Rightarrow> nat \<Rightarrow> nat \<Rightarrow> nat \<Rightarrow> 'a list \<Rightarrow> 'a list outcome" where
  "heapifyDown cmp heap_size heap_base 0 data = Inr data"
| "heapifyDown cmp heap_size heap_base (Suc i) data =
     bindO (heapify cmp heap_size heap_base i data) (heapifyDown cmp heap_size heap_base i)"

text \<open>\<open>extractMax n\<close> is the second loop, with i = low + n at its head.\<close>

fun extractMax :: "('a \<Rightarrow> 'a \<Rightarrow> bool) \<Rightarrow> nat \<Rightarrow> nat \<Rightarrow> 'a list \<Rightarrow> 'a list outcome" where
  "extractMax cmp low 0 data = Inr data"
| "extractMax cmp low (Suc n) data =
     bindO (swap data low (low + Suc n)) (\<lambda>data1.
       bindO (heapify cmp (Suc n) low 0 data1) (extractMax cmp low n))"

definition heapsort :: "('a \<Rightarrow> 'a \<Rightarrow> bool) \<Rightarrow> nat \<Rightarrow> nat \<Rightarrow> 'a list \<Rightarrow> 'a list outcome" where
  "heapsort cmp low high data =
     (let slice_size = high - low + 1
      in bindO (heapifyDown cmp slice_size low (slice_size div 2) data)
           (extractMax cmp low (high - low)))"

section \<open>Partition\<close>

definition swapIf :: "('a \<Rightarrow> 'a \<Rightarrow> bool) \<Rightarrow> nat \<Rightarrow> nat \<Rightarrow> 'a list \<Rightarrow> 'a list outcome" where
  "swapIf cmp a b data =
     bindO (readAt data a) (\<lambda>x. bindO (readAt data b) (\<lambda>y.
       if cmp x y then swap data b a else Inr data))"

definition medianOfThree :: "('a \<Rightarrow> 'a \<Rightarrow> bool) \<Rightarrow> nat \<Rightarrow> nat \<Rightarrow> 'a list \<Rightarrow> ('a list \<times> nat) outcome" where
  "medianOfThree cmp low high data =
     (let mid = low + (high - low) div 2
      in bindO (swapIf cmp high low data) (\<lambda>d1.
         bindO (swapIf cmp mid low d1) (\<lambda>d2.
         bindO (swapIf cmp high mid d2) (\<lambda>d3.
         bindO (swap d3 low mid) (\<lambda>d4. Inr (d4, low))))))"

text \<open>
  The two do-while scans. \<open>pivot\<close> is a reference to \<open>data[low]\<close>, so every comparison reads that cell
  of the current array. \<open>scanUp\<close> starts at the index its first increment reaches (the initial
  \<open>low - 1\<close> wraps to it); \<open>scanDown\<close> gets the index before its first decrement.
\<close>

function scanUp :: "('a \<Rightarrow> 'a \<Rightarrow> bool) \<Rightarrow> 'a list \<Rightarrow> nat \<Rightarrow> nat \<Rightarrow> nat outcome" where
  "scanUp cmp data low i =
     (if i < length data then
        (if cmp (data ! i) (data ! low) then scanUp cmp data low (i + 1) else Inr i)
      else Inl (Undefined ''out of bounds''))"
  by pat_completeness auto
termination by (relation "measure (\<lambda>(cmp, data, low, i). length data - i)") auto

fun scanDown :: "('a \<Rightarrow> 'a \<Rightarrow> bool) \<Rightarrow> 'a list \<Rightarrow> nat \<Rightarrow> nat \<Rightarrow> nat outcome" where
  "scanDown cmp data low 0 = Inl (Undefined ''out of bounds'')"
| "scanDown cmp data low (Suc j) =
     (if j < length data then
        (if cmp (data ! low) (data ! j) then scanDown cmp data low j else Inr j)
      else Inl (Undefined ''out of bounds''))"

lemma scanDown_less: "scanDown cmp data low j = Inr j' \<Longrightarrow> j' < j"
  by (induction cmp data low j rule: scanDown.induct) (auto split: if_splits)

function partition_loop :: "('a \<Rightarrow> 'a \<Rightarrow> bool) \<Rightarrow> nat \<Rightarrow> nat \<Rightarrow> nat \<Rightarrow> 'a list \<Rightarrow> ('a list \<times> nat) outcome" where
  "partition_loop cmp low i j data =
     (case scanUp cmp data low i of
        Inl e \<Rightarrow> Inl e
      | Inr i' \<Rightarrow>
          (case scanDown cmp data low j of
             Inl e \<Rightarrow> Inl e
           | Inr j' \<Rightarrow>
               if i' \<ge> j' then Inr (data, j')
               else (case swap data i' j' of
                       Inl e \<Rightarrow> Inl e
                     | Inr data' \<Rightarrow> partition_loop cmp low (i' + 1) j' data')))"
  by pat_completeness auto
termination
  by (relation "measure (\<lambda>(cmp, low, i, j, data). j)") (auto dest: scanDown_less)

definition partitionHoare :: "('a \<Rightarrow> 'a \<Rightarrow> bool) \<Rightarrow> nat \<Rightarrow> nat \<Rightarrow> 'a list \<Rightarrow> ('a list \<times> nat) outcome" where
  "partitionHoare cmp low high data =
     bindO (medianOfThree cmp low high data) (\<lambda>(data', _).
       partition_loop cmp low low (high + 1) data')"

section \<open>Introspective sort\<close>

definition INSERTION_SORT_THRESHOLD :: nat where
  "INSERTION_SORT_THRESHOLD = 16"

fun introsort :: "('a \<Rightarrow> 'a \<Rightarrow> bool) \<Rightarrow> nat \<Rightarrow> nat \<Rightarrow> nat \<Rightarrow> 'a list \<Rightarrow> 'a list outcome" where
  "introsort cmp depth_limit low high data =
     (if high - low + 1 \<le> INSERTION_SORT_THRESHOLD then insertionSort cmp low high data
      else case depth_limit of
        0 \<Rightarrow> heapsort cmp low high data
      | Suc depth \<Rightarrow>
          bindO (partitionHoare cmp low high data) (\<lambda>(data', pivotIndex).
            bindO (introsort cmp depth low pivotIndex data')
              (introsort cmp depth (pivotIndex + 1) high)))"

text \<open>
  With size 0 the logarithm is already undefined (and the range 0 to \<open>size - 1\<close> would wrap).
\<close>

definition sort_array :: "('a \<Rightarrow> 'a \<Rightarrow> bool) \<Rightarrow> 'a list \<Rightarrow> nat \<Rightarrow> 'a list outcome" where
  "sort_array cmp data size' =
     bindO (log2floor_u64 (of_nat size')) (\<lambda>l. introsort cmp (l * 2) 0 (size' - 1) data)"

declare insertionSort_from.simps [simp del] heapify.simps [simp del] scanUp.simps [simp del]
  partition_loop.simps [simp del] introsort.simps [simp del]

section \<open>Correctness for a strict weak order\<close>

definition heapOk :: "('a \<Rightarrow> 'a \<Rightarrow> bool) \<Rightarrow> 'a list \<Rightarrow> nat \<Rightarrow> nat \<Rightarrow> bool" where
  "heapOk cmp d b c \<longleftrightarrow> \<not> cmp (d ! (b + (c - 1) div 2)) (d ! (b + c))"

text \<open>
  \<open>heapFrom s\<close>: every node whose parent is at least \<open>s\<close> is no larger than its parent.
  \<open>heapHole s h\<close>: the same except below the hole \<open>h\<close>, whose children are no larger than its parent.
\<close>

definition heapFrom :: "('a \<Rightarrow> 'a \<Rightarrow> bool) \<Rightarrow> nat \<Rightarrow> nat \<Rightarrow> nat \<Rightarrow> 'a list \<Rightarrow> bool" where
  "heapFrom cmp n b s d \<longleftrightarrow> (\<forall>c. 0 < c \<and> c < n \<and> s \<le> (c - 1) div 2 \<longrightarrow> heapOk cmp d b c)"

definition heapHole :: "('a \<Rightarrow> 'a \<Rightarrow> bool) \<Rightarrow> nat \<Rightarrow> nat \<Rightarrow> nat \<Rightarrow> nat \<Rightarrow> 'a list \<Rightarrow> bool" where
  "heapHole cmp n b s h d \<longleftrightarrow>
     (\<forall>c. 0 < c \<and> c < n \<and> s \<le> (c - 1) div 2 \<and> (c - 1) div 2 \<noteq> h \<longrightarrow> heapOk cmp d b c) \<and>
     (\<forall>c. 0 < h \<and> 0 < c \<and> c < n \<and> (c - 1) div 2 = h \<and> s \<le> (h - 1) div 2 \<longrightarrow>
        \<not> cmp (d ! (b + (h - 1) div 2)) (d ! (b + c)))"

definition sortedRange :: "('a \<Rightarrow> 'a \<Rightarrow> bool) \<Rightarrow> nat \<Rightarrow> nat \<Rightarrow> 'a list \<Rightarrow> bool" where
  "sortedRange cmp lo hi d \<longleftrightarrow> (\<forall>i j. lo \<le> i \<and> i < j \<and> j < hi \<longrightarrow> \<not> cmp (d ! j) (d ! i))"

locale weak_order =
  fixes cmp :: "'a \<Rightarrow> 'a \<Rightarrow> bool"
  assumes asym: "cmp x y \<Longrightarrow> \<not> cmp y x"
    and negtrans: "cmp x z \<Longrightarrow> cmp x y \<or> cmp y z"
begin

lemma irrefl [simp]: "\<not> cmp x x"
  using asym by blast

lemma le_trans: "\<not> cmp y x \<Longrightarrow> \<not> cmp z y \<Longrightarrow> \<not> cmp z x"
  using negtrans by blast

lemma less_trans: "cmp x y \<Longrightarrow> cmp y z \<Longrightarrow> cmp x z"
  using negtrans [of y z x] asym by blast

lemma le_less: "\<not> cmp y x \<Longrightarrow> cmp y z \<Longrightarrow> \<not> cmp z x"
  using negtrans asym by blast

subsection \<open>Insertion sort\<close>

lemma insertKey_parts:
  "sorted_wrt (\<lambda>x y. \<not> cmp y x) xs \<Longrightarrow>
   \<exists>ys. insertKey cmp (length pre) key (pre @ xs @ h # post) (length pre + length xs) = Inr (pre @ ys @ post) \<and>
        mset ys = mset (key # xs) \<and> sorted_wrt (\<lambda>x y. \<not> cmp y x) ys"
proof (induction xs arbitrary: h post rule: rev_induct)
  case Nil
  show ?case by (cases "length pre") (auto intro!: exI [of _ "[key]"] simp: list_update_append)
next
  case (snoc x xs)
  let ?n = "length pre + length xs"
  have x: "\<forall>y\<in>set xs. \<not> cmp x y" and s: "sorted_wrt (\<lambda>x y. \<not> cmp y x) xs"
    using snoc.prems by (auto simp: sorted_wrt_append)
  have rd: "(pre @ xs @ x # h # post) ! ?n = x" by (simp add: nth_append)
  show ?case
  proof (cases "cmp key x")
    case True
    obtain ys where ys: "insertKey cmp (length pre) key (pre @ xs @ x # x # post) ?n = Inr (pre @ ys @ x # post)"
      "mset ys = mset (key # xs)" "sorted_wrt (\<lambda>x y. \<not> cmp y x) ys"
      using snoc.IH [OF s, of x "x # post"] by auto
    have "set ys = insert key (set xs)" using mset_eq_setD [OF ys(2)] by simp
    then have "sorted_wrt (\<lambda>x y. \<not> cmp y x) (ys @ [x])"
      using ys(3) x asym [OF True] by (auto simp: sorted_wrt_append)
    moreover have "insertKey cmp (length pre) key (pre @ (xs @ [x]) @ h # post) (length pre + length (xs @ [x]))
        = Inr (pre @ (ys @ [x]) @ post)"
      using True rd ys(1) by (simp add: list_update_append)
    ultimately show ?thesis using ys(2) by (intro exI [of _ "ys @ [x]"]) simp
  next
    case False
    have "insertKey cmp (length pre) key (pre @ (xs @ [x]) @ h # post) (length pre + length (xs @ [x]))
        = Inr (pre @ (xs @ [x, key]) @ post)"
      using False rd by (simp add: list_update_append)
    moreover have "sorted_wrt (\<lambda>x y. \<not> cmp y x) (xs @ [x, key])"
      using x s False le_trans by (auto simp: sorted_wrt_append)
    ultimately show ?thesis by (intro exI [of _ "xs @ [x, key]"]) simp
  qed
qed

lemma insertionSort_from_parts:
  assumes "sorted_wrt (\<lambda>x y. \<not> cmp y x) xs" "low = length pre" "i = low + length xs"
    and "high + 1 = low + length xs + length ys"
  shows "\<exists>zs. insertionSort_from cmp low high i (pre @ xs @ ys @ post) = Inr (pre @ zs @ post) \<and>
     mset zs = mset (xs @ ys) \<and> sorted_wrt (\<lambda>x y. \<not> cmp y x) zs"
  using assms
proof (induction ys arbitrary: xs i)
  case Nil
  then have "\<not> i \<le> high" by simp
  then have "insertionSort_from cmp low high i (pre @ xs @ post) = Inr (pre @ xs @ post)"
    by (simp add: insertionSort_from.simps [of cmp low high i])
  with Nil show ?case by auto
next
  case (Cons y ys)
  obtain zs where zs: "insertKey cmp low y (pre @ xs @ y # ys @ post) i = Inr (pre @ zs @ ys @ post)"
    "mset zs = mset (y # xs)" "sorted_wrt (\<lambda>x y. \<not> cmp y x) zs"
    using insertKey_parts [OF Cons.prems(1), of pre y y "ys @ post"] Cons.prems(2,3) by auto
  have l: "length zs = Suc (length xs)" using mset_eq_length [OF zs(2)] by simp
  obtain ws where "insertionSort_from cmp low high (i + 1) (pre @ zs @ ys @ post) = Inr (pre @ ws @ post)"
    "mset ws = mset (zs @ ys)" "sorted_wrt (\<lambda>x y. \<not> cmp y x) ws"
    using Cons.IH [OF zs(3) Cons.prems(2), of "i + 1"] l Cons.prems(3,4) by auto
  moreover have "(pre @ xs @ y # ys @ post) ! i = y" "i < length (pre @ xs @ y # ys @ post)" "i \<le> high"
    using Cons.prems(2-4) by (auto simp: nth_append)
  ultimately show ?case
    using zs by (intro exI [of _ ws]) (simp add: insertionSort_from.simps [of cmp low high i])
qed

lemma sortedRange_parts:
  assumes "sorted_wrt (\<lambda>x y. \<not> cmp y x) zs"
  shows "sortedRange cmp (length pre) (length pre + length zs) (pre @ zs @ post)"
  unfolding sortedRange_def
proof (intro allI impI)
  fix i j assume ij: "length pre \<le> i \<and> i < j \<and> j < length pre + length zs"
  then have "\<not> cmp (zs ! (j - length pre)) (zs ! (i - length pre))"
    using assms by (auto simp: sorted_wrt_iff_nth_less)
  moreover have "i - length pre < length zs" "j - length pre < length zs" using ij by auto
  ultimately show "\<not> cmp ((pre @ zs @ post) ! j) ((pre @ zs @ post) ! i)"
    using ij by (simp add: nth_append)
qed

lemma insertionSort_correct:
  assumes "low \<le> high" "high < length d"
  shows "\<exists>d'. insertionSort cmp low high d = Inr d' \<and> rearr low (high + 1) d d' \<and>
    sortedRange cmp low (high + 1) d'"
proof -
  let ?pre = "take low d" and ?post = "drop (high + 1) d"
  obtain x ys where xy: "segment low (high + 1) d = x # ys"
    using assms by (cases "segment low (high + 1) d") (auto dest: arg_cong [of _ _ length])
  then have d: "d = ?pre @ [x] @ ys @ ?post" and l: "length (x # ys) = high + 1 - low"
    using split_segment [of low "high + 1" d] assms length_segment [of "high + 1" d low] by auto
  obtain zs where zs: "insertionSort_from cmp low high (low + 1) (?pre @ [x] @ ys @ ?post) = Inr (?pre @ zs @ ?post)"
    "mset zs = mset ([x] @ ys)" "sorted_wrt (\<lambda>x y. \<not> cmp y x) zs"
  proof -
    have "sorted_wrt (\<lambda>x y. \<not> cmp y x) [x]" "low = length ?pre" "low + 1 = low + length [x]"
      "high + 1 = low + length [x] + length ys" using assms l by auto
    from insertionSort_from_parts [OF this, of ?post] that show thesis by blast
  qed
  have len: "length ?pre = low" "length ?pre + length zs = high + 1" "length ?pre + length ([x] @ ys) = high + 1"
    using assms l mset_eq_length [OF zs(2)] by auto
  have "rearr low (high + 1) d (?pre @ zs @ ?post)"
    using rearr_of_parts [OF zs(2), of ?pre ?post] d len by simp
  moreover have "sortedRange cmp low (high + 1) (?pre @ zs @ ?post)"
    using sortedRange_parts [OF zs(3), of ?pre ?post] len by simp
  ultimately show ?thesis using zs(1) d by (auto simp: insertionSort_def)
qed

subsection \<open>Heaps\<close>

lemma pickLarger_ok:
  assumes "largest < n" "b + n \<le> length d"
  shows "pickLarger cmp d n b child largest =
    Inr (if child < n \<and> cmp (d ! (b + largest)) (d ! (b + child)) then child else largest)"
  using assms by (simp add: pickLarger_def add.commute)

lemma largestOf_ok:
  assumes "i < n" "b + n \<le> length d"
  obtains m where "largestOf cmp d n b i = Inr m" "m = i \<or> (m = 2 * i + 1 \<or> m = 2 * i + 2) \<and> m < n"
    and "m \<noteq> i \<Longrightarrow> cmp (d ! (b + i)) (d ! (b + m))"
    and "\<And>c. 0 < c \<Longrightarrow> c < n \<Longrightarrow> (c - 1) div 2 = i \<Longrightarrow> \<not> cmp (d ! (b + m)) (d ! (b + c))"
proof -
  define l where "l = (if 2 * i + 1 < n \<and> cmp (d ! (b + i)) (d ! (b + (2 * i + 1))) then 2 * i + 1 else i)"
  define m where "m = (if 2 * i + 2 < n \<and> cmp (d ! (b + l)) (d ! (b + (2 * i + 2))) then 2 * i + 2 else l)"
  have l: "l < n" using assms by (simp add: l_def)
  have "pickLarger cmp d n b (2 * i + 1) i = Inr l" "pickLarger cmp d n b (2 * i + 2) l = Inr m"
    unfolding l_def m_def by (rule pickLarger_ok [OF assms], rule pickLarger_ok [OF l [unfolded l_def] assms(2)])
  then have "largestOf cmp d n b i = Inr m" by (simp add: largestOf_def)
  moreover have "m = i \<or> (m = 2 * i + 1 \<or> m = 2 * i + 2) \<and> m < n" by (auto simp: m_def l_def)
  moreover have li: "l = i \<or> cmp (d ! (b + i)) (d ! (b + l))" and lm: "l = m \<or> cmp (d ! (b + l)) (d ! (b + m))"
    by (auto simp: m_def l_def)
  then have "cmp (d ! (b + i)) (d ! (b + m))" if "m \<noteq> i"
    using that less_trans [of "d ! (b + i)" "d ! (b + l)" "d ! (b + m)"] by auto
  moreover have "\<not> cmp (d ! (b + m)) (d ! (b + c))" if c: "0 < c" "c < n" "(c - 1) div 2 = i" for c
  proof -
    from c have "c = 2 * i + 1 \<or> c = 2 * i + 2" by presburger
    then have "\<not> cmp (d ! (b + l)) (d ! (b + c)) \<or> m = c"
      using c(2) asym by (auto simp: m_def l_def)
    then show ?thesis using lm le_less [of "d ! (b + l)" "d ! (b + c)" "d ! (b + m)"] negtrans asym irrefl by metis
  qed
  ultimately show thesis using that by blast
qed

lemma child_indices:
  fixes c i :: nat
  assumes "0 < c" "(c - 1) div 2 = i"
  shows "c = 2 * i + 1 \<or> c = 2 * i + 2"
  using assms by presburger

text \<open>One step of sifting down: the hole moves to the larger child.\<close>

lemma heapHole_step:
  assumes hole: "heapHole cmp n b s i d" and i: "s \<le> i" "m = 2 * i + 1 \<or> m = 2 * i + 2" "m < n"
    and len: "b + n \<le> length d" and m: "cmp (d ! (b + i)) (d ! (b + m))"
    and top: "\<And>c. 0 < c \<Longrightarrow> c < n \<Longrightarrow> (c - 1) div 2 = i \<Longrightarrow> \<not> cmp (d ! (b + m)) (d ! (b + c))"
  shows "heapHole cmp n b s m (d[b + i := d ! (b + m), b + m := d ! (b + i)])"
proof -
  define e where "e = d[b + i := d ! (b + m), b + m := d ! (b + i)]"
  have pm: "(m - 1) div 2 = i" "0 < m" "i < m" "i < n" using i by auto
  have nth: "e ! (b + k) = (if k = m then d ! (b + i) else if k = i then d ! (b + m) else d ! (b + k))" if "k < n" for k
    using that len i pm by (auto simp: nth_list_update e_def)
  have ok: "\<not> cmp (d ! (b + (c - 1) div 2)) (d ! (b + c))"
    if "0 < c" "c < n" "s \<le> (c - 1) div 2" "(c - 1) div 2 \<noteq> i" for c
    using hole that by (auto simp: heapHole_def heapOk_def)
  have "heapOk cmp e b c" if c: "0 < c" "c < n" "s \<le> (c - 1) div 2" "(c - 1) div 2 \<noteq> m" for c
  proof -
    have p: "(c - 1) div 2 < n" "c \<noteq> i \<or> (c - 1) div 2 \<noteq> i" using c by auto
    consider (sib) "(c - 1) div 2 = i" "c \<noteq> m" | (m) "c = m" | (i) "c = i" | (other) "(c - 1) div 2 \<noteq> i" "c \<noteq> i" "c \<noteq> m"
      by blast
    then show ?thesis
    proof cases
      case sib
      then show ?thesis using c p nth pm top [of c] by (simp add: heapOk_def)
    next
      case m
      then show ?thesis using c p nth pm asym [OF \<open>cmp (d ! (b + i)) (d ! (b + m))\<close>] by (simp add: heapOk_def)
    next
      case i
      have "\<not> cmp (d ! (b + (i - 1) div 2)) (d ! (b + m))"
        using hole c i pm \<open>m < n\<close> unfolding heapHole_def by (metis)
      moreover have "(i - 1) div 2 \<noteq> i" using c i by auto
      ultimately show ?thesis using c i p nth pm by (simp add: heapOk_def)
    next
      case other
      then show ?thesis using c p nth ok [of c] by (simp add: heapOk_def)
    qed
  qed
  moreover have "\<not> cmp (e ! (b + (m - 1) div 2)) (e ! (b + c))"
    if c: "0 < c" "c < n" "(c - 1) div 2 = m" for c
  proof -
    have "c \<noteq> m" "c \<noteq> i" "(c - 1) div 2 \<noteq> i" using c pm by auto
    moreover have "\<not> cmp (d ! (b + m)) (d ! (b + c))" using ok [of c] c pm i(1) by auto
    ultimately show ?thesis using nth c pm by simp
  qed
  ultimately have "heapHole cmp n b s m e" unfolding heapHole_def by blast
  then show ?thesis by (simp add: e_def)
qed

lemma heapify_correct:
  assumes "heapHole cmp n b s i d" "s \<le> i" "i < n" "b + n \<le> length d"
  shows "\<exists>d'. heapify cmp n b i d = Inr d' \<and> rearr (b + i) (b + n) d d' \<and> heapFrom cmp n b s d'"
  using assms
proof (induction "n - i" arbitrary: i d rule: less_induct)
  case less
  obtain m where m: "largestOf cmp d n b i = Inr m" "m = i \<or> (m = 2 * i + 1 \<or> m = 2 * i + 2) \<and> m < n"
    "m \<noteq> i \<Longrightarrow> cmp (d ! (b + i)) (d ! (b + m))"
    "\<And>c. 0 < c \<Longrightarrow> c < n \<Longrightarrow> (c - 1) div 2 = i \<Longrightarrow> \<not> cmp (d ! (b + m)) (d ! (b + c))"
  proof (rule largestOf_ok [OF less.prems(3,4)], goal_cases)
    case (1 m)
    from 1(1) [OF 1(2-5)] show thesis .
  qed
  show ?case
  proof (cases "m = i")
    case True
    have "heapFrom cmp n b s d"
      unfolding heapFrom_def
    proof (intro allI impI)
      fix c assume c: "0 < c \<and> c < n \<and> s \<le> (c - 1) div 2"
      show "heapOk cmp d b c"
        using less.prems(1) m(4) [of c] c True
        by (cases "(c - 1) div 2 = i") (auto simp: heapHole_def heapOk_def)
    qed
    with True m(1) show ?thesis by (simp add: heapify.simps [of cmp n b i d])
  next
    case False
    with m(2) have mi: "m = 2 * i + 1 \<or> m = 2 * i + 2" "m < n" "i < m" by auto
    let ?d = "d[b + i := d ! (b + m), b + m := d ! (b + i)]"
    have sw: "swap d (i + b) (m + b) = Inr ?d"
      using mi less.prems(4) by (simp add: add.commute)
    have hole: "heapHole cmp n b s m ?d"
      using heapHole_step [OF less.prems(1,2) mi(1,2) less.prems(4) m(3) [OF False]] m(4) by blast
    obtain d' where d': "heapify cmp n b m ?d = Inr d'" "rearr (b + m) (b + n) ?d d'" "heapFrom cmp n b s d'"
    proof -
      have "n - m < n - i" "s \<le> m" "b + n \<le> length ?d" using mi(2,3) less.prems by auto
      from less.hyps [OF this(1) hole this(2) mi(2) this(3)] that show thesis by blast
    qed
    have "rearr (b + i) (b + n) d ?d"
      using rearr_swap [of "b + i" "b + i" "b + m" "b + n" d] mi less.prems by simp
    then have "rearr (b + i) (b + n) d d'"
      by (rule rearr_trans) (rule rearr_mono [OF d'(2)], use mi in simp_all)
    moreover have "heapify cmp n b i d = Inr d'"
      using False m(1) sw d'(1) by (simp add: heapify.simps [of cmp n b i d])
    ultimately show ?thesis using d'(3) by blast
  qed
qed

lemma heapFrom_hole: "heapFrom cmp n b (Suc i) d \<Longrightarrow> heapHole cmp n b i i d"
  by (auto simp: heapFrom_def heapHole_def Suc_le_eq le_less)

lemma heapFrom_leaves: "n div 2 \<le> s \<Longrightarrow> heapFrom cmp n b s d"
  by (auto simp: heapFrom_def)

lemma heapifyDown_correct:
  assumes "heapFrom cmp n b k d" "k \<le> n div 2" "b + n \<le> length d"
  shows "\<exists>d'. heapifyDown cmp n b k d = Inr d' \<and> rearr b (b + n) d d' \<and> heapFrom cmp n b 0 d'"
  using assms
proof (induction k arbitrary: d)
  case 0
  then show ?case by simp
next
  case (Suc i)
  have "heapHole cmp n b i i d" "i < n" using heapFrom_hole [OF Suc.prems(1)] Suc.prems(2) by linarith+
  then obtain d1 where d1: "heapify cmp n b i d = Inr d1" "rearr (b + i) (b + n) d d1" "heapFrom cmp n b i d1"
    using heapify_correct [of n b i i d] Suc.prems(3) by auto
  then obtain d' where d': "heapifyDown cmp n b i d1 = Inr d'" "rearr b (b + n) d1 d'" "heapFrom cmp n b 0 d'"
    using Suc.IH [of d1] Suc.prems rearr_length [OF d1(2)] by auto
  have "rearr b (b + n) d d1" using rearr_mono [OF d1(2), of b "b + n"] by simp
  with d' d1(1) show ?case using rearr_trans by fastforce
qed

lemma heap_root_max:
  assumes "heapFrom cmp n b 0 d" "c < n"
  shows "\<not> cmp (d ! b) (d ! (b + c))"
  using assms(2)
proof (induction c rule: less_induct)
  case (less c)
  show ?case
  proof (cases "c = 0")
    case False
    then have "\<not> cmp (d ! b) (d ! (b + (c - 1) div 2))" using less by simp
    moreover have "\<not> cmp (d ! (b + (c - 1) div 2)) (d ! (b + c))"
      using assms(1) less.prems False by (simp add: heapFrom_def heapOk_def)
    ultimately show ?thesis using le_trans by blast
  qed simp
qed

text \<open>
  The second loop: the last \<open>m - n\<close> elements of the range are in place, the first \<open>n + 1\<close> form a
  heap.
\<close>

lemma extractMax_correct:
  assumes "heapFrom cmp (Suc n) low 0 d" "hi \<le> length d" "low + n < hi"
    and "sortedRange cmp (low + Suc n) hi d"
    and "\<And>i j. low \<le> i \<Longrightarrow> i \<le> low + n \<Longrightarrow> low + n < j \<Longrightarrow> j < hi \<Longrightarrow> \<not> cmp (d ! j) (d ! i)"
  shows "\<exists>d'. extractMax cmp low n d = Inr d' \<and> rearr low hi d d' \<and> sortedRange cmp low hi d'"
  using assms
proof (induction n arbitrary: d)
  case 0
  have "sortedRange cmp low hi d"
    using "0.prems"(4,5) by (auto simp: sortedRange_def) (metis Suc_leI le_neq_implies_less order_refl)
  then show ?case by auto
next
  case (Suc n)
  define e where "e = d[low := d ! (low + Suc n), low + Suc n := d ! low]"
  have sw: "swap d low (low + Suc n) = Inr e" using Suc.prems(2,3) by (simp add: e_def)
  have len: "length e = length d" by (simp add: e_def)
  have nth: "e ! k = (if k = low + Suc n then d ! low else if k = low then d ! (low + Suc n) else d ! k)" for k
    using Suc.prems(2,3) by (auto simp: e_def nth_list_update)
  have re: "rearr low (low + Suc (Suc n)) d e"
    unfolding e_def by (rule rearr_swap) (use Suc.prems(2,3) in auto)
  have "heapHole cmp (Suc n) low 0 0 e"
    using Suc.prems(1) by (auto simp: heapHole_def heapFrom_def heapOk_def nth)
  then obtain f where f: "heapify cmp (Suc n) low 0 e = Inr f" "rearr low (low + Suc n) e f" "heapFrom cmp (Suc n) low 0 f"
    using heapify_correct [of "Suc n" low 0 0 e] Suc.prems(2,3) len by auto
  have same: "f ! k = e ! k" if "low + Suc n \<le> k" "k < hi" for k
    using rearr_outside [OF f(2), of k] that Suc.prems(2) len by auto
  have max: "\<not> cmp (d ! low) (d ! k)" if "low \<le> k" "k \<le> low + Suc n" for k
    using heap_root_max [OF Suc.prems(1), of "k - low"] that by simp
  have le: "\<not> cmp (f ! j) (f ! i)" if ij: "low \<le> i" "i \<le> low + n" "low + n < j" "j < hi" for i j
  proof -
    have "\<not> cmp (e ! j) x" if "\<exists>k. low \<le> k \<and> k < low + Suc n \<and> x = e ! k" for x
    proof -
      from that obtain k where k: "low \<le> k" "k < low + Suc n" "x = e ! k" by blast
      then obtain k' where k': "low \<le> k'" "k' \<le> low + Suc n" "x = d ! k'" using nth by (metis le_add1 less_imp_le order_refl)
      show ?thesis
      proof (cases "j = low + Suc n")
        case True
        then show ?thesis using max k' nth by simp
      next
        case False
        then show ?thesis using Suc.prems(5) [of k' j] k' ij nth [of j] by simp
      qed
    qed
    then have "\<not> cmp (e ! j) (f ! i)"
      using rearr_all [OF f(2), of "\<lambda>x. \<not> cmp (e ! j) x" i] ij Suc.prems(2,3) len by auto
    then show ?thesis using same ij by simp
  qed
  have "sortedRange cmp (low + Suc n) hi f"
    unfolding sortedRange_def
  proof (intro allI impI)
    fix i j assume ij: "low + Suc n \<le> i \<and> i < j \<and> j < hi"
    show "\<not> cmp (f ! j) (f ! i)"
      using ij same nth Suc.prems(4) Suc.prems(5) [of low j]
      by (cases "i = low + Suc n") (auto simp: sortedRange_def)
  qed
  then obtain d' where d': "extractMax cmp low n f = Inr d'" "rearr low hi f d'" "sortedRange cmp low hi d'"
    using Suc.IH [of f] f(3) le Suc.prems(2,3) rearr_length [OF f(2)] len by auto
  have "rearr low hi d f"
    using rearr_trans [OF rearr_mono [OF re] rearr_mono [OF f(2)], of low hi] Suc.prems(3) by simp
  with d' sw f(1) show ?case using rearr_trans by fastforce
qed

lemma heapsort_correct:
  assumes "low \<le> high" "high < length d"
  shows "\<exists>d'. heapsort cmp low high d = Inr d' \<and> rearr low (high + 1) d d' \<and>
    sortedRange cmp low (high + 1) d'"
proof -
  let ?n = "high - low + 1"
  obtain d1 where d1: "heapifyDown cmp ?n low (?n div 2) d = Inr d1" "rearr low (low + ?n) d d1" "heapFrom cmp ?n low 0 d1"
    using heapifyDown_correct [OF heapFrom_leaves, of ?n "?n div 2" low d] assms by auto
  have "sortedRange cmp (high + 1) (high + 1) d1" by (auto simp: sortedRange_def)
  then obtain d2 where "extractMax cmp low (high - low) d1 = Inr d2" "rearr low (high + 1) d1 d2" "sortedRange cmp low (high + 1) d2"
    using extractMax_correct [of "high - low" low d1 "high + 1"] d1 assms rearr_length [OF d1(2)] by auto
  with d1 assms show ?thesis
    by (auto simp: heapsort_def Let_def intro: rearr_trans)
qed

subsection \<open>Partition\<close>

lemma swapIf_rearr:
  assumes "a < length d" "b < length d" "lo \<le> a" "lo \<le> b" "a < hi" "b < hi" "hi \<le> length d"
  obtains d' where "swapIf cmp a b d = Inr d'" "rearr lo hi d d'"
proof -
  have "swapIf cmp a b d = Inr (if cmp (d ! a) (d ! b) then d[b := d ! a, a := d ! b] else d)"
    using assms by (simp add: swapIf_def)
  then show thesis using that rearr_swap [of lo b a hi d] assms by (cases "cmp (d ! a) (d ! b)") auto
qed

lemma medianOfThree_rearr:
  assumes "low \<le> high" "high < length d"
  obtains d' where "medianOfThree cmp low high d = Inr (d', low)" "rearr low (high + 1) d d'"
proof -
  let ?mid = "low + (high - low) div 2"
  have mid: "?mid \<le> high" "low \<le> ?mid" using assms by auto
  obtain d1 where d1: "swapIf cmp high low d = Inr d1" "rearr low (high + 1) d d1"
    by (rule swapIf_rearr [of high d low low "high + 1"]) (use assms in auto)
  obtain d2 where d2: "swapIf cmp ?mid low d1 = Inr d2" "rearr low (high + 1) d1 d2"
    by (rule swapIf_rearr [of ?mid d1 low low "high + 1"]) (use assms mid rearr_length [OF d1(2)] in auto)
  obtain d3 where d3: "swapIf cmp high ?mid d2 = Inr d3" "rearr low (high + 1) d2 d3"
    by (rule swapIf_rearr [of high d2 ?mid low "high + 1"])
      (use assms mid rearr_length [OF d1(2)] rearr_length [OF d2(2)] in auto)
  have l3: "high < length d3" using assms d1(2) d2(2) d3(2) by (simp add: rearr_def)
  define d4 where "d4 = d3[low := d3 ! ?mid, ?mid := d3 ! low]"
  have "swap d3 low ?mid = Inr d4" unfolding d4_def by (rule swap_ok) (use mid l3 in auto)
  moreover have "rearr low (high + 1) d3 d4"
    unfolding d4_def by (rule rearr_swap) (use mid l3 assms in auto)
  ultimately show thesis
    using that d1 d2 d3 rearr_trans [OF rearr_trans [OF rearr_trans [OF d1(2) d2(2)] d3(2)]]
    by (simp add: medianOfThree_def Let_def)
qed

lemma scanUp_finds:
  assumes "i \<le> s" "s < length d" "\<not> cmp (d ! s) (d ! low)"
  obtains i' where "scanUp cmp d low i = Inr i'" "i \<le> i'" "i' \<le> s" "\<not> cmp (d ! i') (d ! low)"
    and "\<And>k. i \<le> k \<Longrightarrow> k < i' \<Longrightarrow> cmp (d ! k) (d ! low)"
proof -
  have "\<exists>i'. scanUp cmp d low i = Inr i' \<and> i \<le> i' \<and> i' \<le> s \<and> \<not> cmp (d ! i') (d ! low) \<and>
      (\<forall>k. i \<le> k \<and> k < i' \<longrightarrow> cmp (d ! k) (d ! low))"
    using assms(1)
  proof (induction "s - i" arbitrary: i)
    case 0
    then have "i = s" by simp
    with assms show ?case by (auto simp: scanUp.simps [of cmp d low s])
  next
    case (Suc n)
    show ?case
    proof (cases "cmp (d ! i) (d ! low)")
      case False
      then show ?thesis using Suc.prems assms(2) by (auto simp: scanUp.simps [of cmp d low i])
    next
      case True
      obtain i' where i': "scanUp cmp d low (i + 1) = Inr i'" "i + 1 \<le> i'" "i' \<le> s" "\<not> cmp (d ! i') (d ! low)"
        "\<forall>k. i + 1 \<le> k \<and> k < i' \<longrightarrow> cmp (d ! k) (d ! low)"
      proof -
        have "n = s - (i + 1)" "i + 1 \<le> s" using Suc.hyps(2) by linarith+
        from Suc.hyps(1) [OF this] that show thesis by blast
      qed
      have "scanUp cmp d low i = Inr i'"
        using True i'(1) Suc.prems assms(2) by (simp add: scanUp.simps [of cmp d low i])
      moreover have "\<forall>k. i \<le> k \<and> k < i' \<longrightarrow> cmp (d ! k) (d ! low)"
        using i'(5) True by (metis Suc_eq_plus1 Suc_leI le_neq_implies_less)
      ultimately show ?thesis using i' by (intro exI [of _ i']) auto
    qed
  qed
  then show thesis using that by blast
qed

lemma scanDown_finds:
  assumes "s < j" "j \<le> length d" "\<not> cmp (d ! low) (d ! s)"
  obtains j' where "scanDown cmp d low j = Inr j'" "s \<le> j'" "j' < j" "\<not> cmp (d ! low) (d ! j')"
    and "\<And>k. j' < k \<Longrightarrow> k < j \<Longrightarrow> cmp (d ! low) (d ! k)"
proof -
  have "\<exists>j'. scanDown cmp d low j = Inr j' \<and> s \<le> j' \<and> j' < j \<and> \<not> cmp (d ! low) (d ! j') \<and>
      (\<forall>k. j' < k \<and> k < j \<longrightarrow> cmp (d ! low) (d ! k))"
    using assms(1,2)
  proof (induction j)
    case (Suc j)
    show ?case
    proof (cases "cmp (d ! low) (d ! j)")
      case False
      then show ?thesis using Suc.prems by auto
    next
      case True
      then have "s < j" using Suc.prems assms(3) by (metis less_Suc_eq)
      then show ?thesis using Suc True by (auto simp: less_Suc_eq)
    qed
  qed simp
  then show thesis using that by blast
qed

definition parted :: "nat \<Rightarrow> nat \<Rightarrow> nat \<Rightarrow> 'a list \<Rightarrow> bool" where
  "parted low high q d \<longleftrightarrow> low \<le> q \<and> q < high \<and>
     (\<exists>p. (\<forall>k. low \<le> k \<and> k \<le> q \<longrightarrow> \<not> cmp p (d ! k)) \<and> (\<forall>k. q < k \<and> k \<le> high \<longrightarrow> \<not> cmp (d ! k) p))"

text \<open>
  After the first exchange the pivot cell stays put: everything before \<open>i\<close> is at most the pivot and
  everything from \<open>j\<close> on at least the pivot.
\<close>

lemma partition_loop_correct:
  assumes "low < i" "i \<le> j" "j \<le> high" "high < length d"
    and "\<And>k. low \<le> k \<Longrightarrow> k < i \<Longrightarrow> \<not> cmp (d ! low) (d ! k)"
    and "\<And>k. j \<le> k \<Longrightarrow> k \<le> high \<Longrightarrow> \<not> cmp (d ! k) (d ! low)"
  shows "\<exists>d' q. partition_loop cmp low i j d = Inr (d', q) \<and> rearr low (high + 1) d d' \<and> parted low high q d'"
  using assms
proof (induction j arbitrary: i d rule: less_induct)
  case (less j)
  have len: "j < length d" using less.prems by linarith
  obtain i' where i': "scanUp cmp d low i = Inr i'" "i \<le> i'" "i' \<le> j" "\<not> cmp (d ! i') (d ! low)"
    "\<And>k. i \<le> k \<Longrightarrow> k < i' \<Longrightarrow> cmp (d ! k) (d ! low)"
    using scanUp_finds [OF less.prems(2) len less.prems(6) [of j]] less.prems(3) by blast
  have lj: "low < j" using less.prems by linarith
  obtain j' where j': "scanDown cmp d low j = Inr j'" "low \<le> j'" "j' < j" "\<not> cmp (d ! low) (d ! j')"
    "\<And>k. j' < k \<Longrightarrow> k < j \<Longrightarrow> cmp (d ! low) (d ! k)"
    using scanDown_finds [OF lj less_imp_le [OF len] irrefl] by blast
  have left: "\<not> cmp (d ! low) (d ! k)" if "low \<le> k" "k < i'" for k
    using that less.prems(5) [of k] i'(5) [of k] asym by (cases "k < i") auto
  have right: "\<not> cmp (d ! k) (d ! low)" if "j' < k" "k \<le> high" for k
    using that less.prems(6) [of k] j'(5) [of k] asym by (cases "k < j") auto
  show ?case
  proof (cases "i' \<ge> j'")
    case True
    then have "\<not> cmp (d ! low) (d ! k)" if "low \<le> k" "k \<le> j'" for k
      using that left [of k] j'(4) by (cases "k = j'") auto
    then have "parted low high j' d"
      using right j'(2,3) less.prems(3) unfolding parted_def by (intro conjI exI [of _ "d ! low"]) auto
    then show ?thesis using True i'(1) j'(1) by (simp add: partition_loop.simps [of cmp low i j d])
  next
    case False
    define e where "e = d[i' := d ! j', j' := d ! i']"
    have bnd: "low < i'" "i' < j'" "j' < length d" using False less.prems(1) i'(2) j'(3) len by linarith+
    have nth: "e ! k = (if k = j' then d ! i' else if k = i' then d ! j' else d ! k)" for k
      using bnd by (auto simp: e_def nth_list_update)
    have re: "rearr low (high + 1) d e"
      unfolding e_def by (rule rearr_swap) (use bnd j'(3) less.prems in auto)
    have "\<exists>d' q. partition_loop cmp low (i' + 1) j' e = Inr (d', q) \<and> rearr low (high + 1) e d' \<and> parted low high q d'"
    proof (rule less.IH)
      show "\<not> cmp (e ! low) (e ! k)" if "low \<le> k" "k < i' + 1" for k
        using that nth bnd left [of k] j'(4) by (cases "k = i'") auto
      show "\<not> cmp (e ! k) (e ! low)" if "j' \<le> k" "k \<le> high" for k
        using that nth bnd right [of k] i'(4) by (cases "k = j'") auto
    qed (use bnd j'(3) less.prems rearr_length [OF re] in auto)
    then obtain d' q where "partition_loop cmp low (i' + 1) j' e = Inr (d', q)"
      "rearr low (high + 1) e d'" "parted low high q d'" by blast
    moreover have "swap d i' j' = Inr e" using bnd by (simp add: e_def)
    ultimately show ?thesis
      using False i'(1) j'(1) rearr_trans [OF re] by (simp add: partition_loop.simps [of cmp low i j d])
  qed
qed

lemma partition_first_correct:
  assumes "low < high" "high < length d"
  shows "\<exists>d' q. partition_loop cmp low low (high + 1) d = Inr (d', q) \<and> rearr low (high + 1) d d' \<and>
    parted low high q d'"
proof -
  have low: "low < length d" using assms by simp
  have up: "scanUp cmp d low low = Inr low" using low by (simp add: scanUp.simps [of cmp d low low])
  obtain j where j: "scanDown cmp d low (high + 1) = Inr j" "low \<le> j" "j < high + 1" "\<not> cmp (d ! low) (d ! j)"
    "\<And>k. j < k \<Longrightarrow> k < high + 1 \<Longrightarrow> cmp (d ! low) (d ! k)"
    using scanDown_finds [of low "high + 1" d low] assms by auto
  show ?thesis
  proof (cases "low \<ge> j")
    case True
    then have "parted low high j d"
      using j assms asym unfolding parted_def by (intro conjI exI [of _ "d ! low"]) auto
    moreover have "partition_loop cmp low low (high + 1) d = Inr (d, j)"
      unfolding partition_loop.simps [of cmp low low "high + 1" d] up j(1) using True by simp
    ultimately show ?thesis by auto
  next
    case False
    define e where "e = d[low := d ! j, j := d ! low]"
    have nth: "e ! k = (if k = j then d ! low else if k = low then d ! j else d ! k)" for k
      using False low j(3) assms by (auto simp: e_def nth_list_update)
    have re: "rearr low (high + 1) d e"
      unfolding e_def by (rule rearr_swap) (use False j(3) assms in auto)
    have "\<exists>d' q. partition_loop cmp low (low + 1) j e = Inr (d', q) \<and> rearr low (high + 1) e d' \<and> parted low high q d'"
    proof (rule partition_loop_correct)
      show "\<not> cmp (e ! low) (e ! k)" if "low \<le> k" "k < low + 1" for k
        using that by (cases "k = low") auto
      show "\<not> cmp (e ! k) (e ! low)" if "j \<le> k" "k \<le> high" for k
        using that nth False j(4) j(5) [of k] asym [of "d ! low" "d ! k"] le_less [of "d ! low" "d ! j" "d ! k"]
        by (cases "k = j") auto
    qed (use False j(3) assms rearr_length [OF re] in auto)
    then obtain d' q where "partition_loop cmp low (low + 1) j e = Inr (d', q)"
      "rearr low (high + 1) e d'" "parted low high q d'" by blast
    moreover have "swap d low j = Inr e" using low j(3) assms by (simp add: e_def)
    moreover from this have "partition_loop cmp low low (high + 1) d = partition_loop cmp low (low + 1) j e"
      unfolding partition_loop.simps [of cmp low low "high + 1" d] up j(1) using False by simp
    ultimately show ?thesis using rearr_trans [OF re] by auto
  qed
qed

lemma partitionHoare_correct:
  assumes "low < high" "high < length d"
  obtains d' q where "partitionHoare cmp low high d = Inr (d', q)" "rearr low (high + 1) d d'" "parted low high q d'"
proof -
  obtain d1 where d1: "medianOfThree cmp low high d = Inr (d1, low)" "rearr low (high + 1) d d1"
    by (rule medianOfThree_rearr [of low high d]) (use assms in auto)
  then obtain d' q where "partition_loop cmp low low (high + 1) d1 = Inr (d', q)"
    "rearr low (high + 1) d1 d'" "parted low high q d'"
    using partition_first_correct [of low high d1] assms rearr_length [OF d1(2)] by auto
  then show thesis using that [of d' q] d1(1) rearr_trans [OF d1(2), of d'] by (simp add: partitionHoare_def)
qed

subsection \<open>The introspective sort\<close>

lemma parted_rearr:
  assumes "parted low high q d" "rearr low (q + 1) d d1" "rearr (q + 1) (high + 1) d1 d2" "high < length d"
  shows "parted low high q d2"
proof -
  obtain p where p: "low \<le> q" "q < high" "\<And>k. low \<le> k \<Longrightarrow> k < q + 1 \<Longrightarrow> \<not> cmp p (d ! k)"
    "\<And>k. q + 1 \<le> k \<Longrightarrow> k < high + 1 \<Longrightarrow> \<not> cmp (d ! k) p"
    using assms(1) unfolding parted_def by (metis Suc_eq_plus1 Suc_le_eq less_Suc_eq_le)
  have l1: "length d1 = length d" using assms(2) by (rule rearr_length)
  have q1: "q + 1 \<le> length d" "high + 1 \<le> length d1" using p assms(4) l1 by auto
  have "\<not> cmp p (d2 ! k)" if "low \<le> k" "k \<le> q" for k
    using rearr_all [OF assms(2) q1(1), of "\<lambda>x. \<not> cmp p x" k] p(3) rearr_outside [OF assms(3), of k] that q1 l1 by auto
  moreover have "\<not> cmp (d1 ! k) p" if "q + 1 \<le> k" "k < high + 1" for k
    using p(4) [OF that] rearr_outside [OF assms(2), of k] that q1 l1 by auto
  then have "\<not> cmp (d2 ! k) p" if "q < k" "k \<le> high" for k
    using rearr_all [OF assms(3) q1(2), of "\<lambda>x. \<not> cmp x p" k] that by auto
  ultimately show ?thesis using p(1,2) unfolding parted_def by blast
qed

lemma parted_sorted:
  assumes "parted low high q d" "sortedRange cmp low (q + 1) d" "sortedRange cmp (q + 1) (high + 1) d"
  shows "sortedRange cmp low (high + 1) d"
  unfolding sortedRange_def
proof (intro allI impI)
  fix i j assume ij: "low \<le> i \<and> i < j \<and> j < high + 1"
  then consider "j \<le> q" | "q < i" | "i \<le> q" "q < j" by linarith
  then show "\<not> cmp (d ! j) (d ! i)"
  proof cases
    case 3
    then show ?thesis using assms(1) ij le_trans unfolding parted_def by (metis less_Suc_eq_le Suc_eq_plus1)
  qed (use assms(2,3) ij in \<open>auto simp: sortedRange_def\<close>)
qed

lemma introsort_correct:
  assumes "low \<le> high" "high < length d"
  shows "\<exists>d'. introsort cmp depth low high d = Inr d' \<and> rearr low (high + 1) d d' \<and>
    sortedRange cmp low (high + 1) d'"
  using assms
proof (induction depth arbitrary: low high d)
  case 0
  then show ?case
    using insertionSort_correct [OF 0] heapsort_correct [OF 0]
    by (auto simp: introsort.simps [of cmp 0])
next
  case (Suc depth)
  show ?case
  proof (cases "high - low + 1 \<le> INSERTION_SORT_THRESHOLD")
    case True
    then show ?thesis
      using insertionSort_correct [OF Suc.prems] by (auto simp: introsort.simps [of cmp "Suc depth"])
  next
    case False
    then have lh: "low < high" by (simp add: INSERTION_SORT_THRESHOLD_def)
    obtain d1 q where d1: "partitionHoare cmp low high d = Inr (d1, q)" "rearr low (high + 1) d d1" "parted low high q d1"
      by (rule partitionHoare_correct [OF lh Suc.prems(2)])
    have q: "low \<le> q" "q < high" "high < length d1"
      using d1(3) Suc.prems(2) rearr_length [OF d1(2)] by (auto simp: parted_def)
    obtain d2 where d2: "introsort cmp depth low q d1 = Inr d2" "rearr low (q + 1) d1 d2" "sortedRange cmp low (q + 1) d2"
      using Suc.IH [of low q d1] q by auto
    obtain d3 where d3: "introsort cmp depth (q + 1) high d2 = Inr d3" "rearr (q + 1) (high + 1) d2 d3"
      "sortedRange cmp (q + 1) (high + 1) d3"
      using Suc.IH [of "q + 1" high d2] q rearr_length [OF d2(2)] by auto
    have "sortedRange cmp low (q + 1) d3"
      using d2(3) rearr_outside [OF d3(2)] q rearr_length [OF d2(2)] by (auto simp: sortedRange_def)
    then have "sortedRange cmp low (high + 1) d3"
      using parted_sorted [OF parted_rearr [OF d1(3) d2(2) d3(2) q(3)] _ d3(3)] by blast
    moreover have "rearr low (high + 1) d d3"
      using rearr_trans [OF d1(2) rearr_trans [OF rearr_mono [OF d2(2)] rearr_mono [OF d3(2)]]] q by simp
    moreover have "introsort cmp (Suc depth) low high d = Inr d3"
      using False d1(1) d2(1) d3(1) by (simp add: introsort.simps [of cmp "Suc depth" low])
    ultimately show ?thesis by blast
  qed
qed

lemma sort_array_correct:
  assumes "0 < n" "n \<le> length d" "n < 2 ^ 64"
  shows "\<exists>d'. sort_array cmp d n = Inr d' \<and> rearr 0 n d d' \<and> sortedRange cmp 0 n d'"
proof -
  have "of_nat n \<noteq> (0 :: u64)" using assms by (simp add: word_of_nat_eq_0_iff nat_dvd_not_less)
  then obtain l where "log2floor_u64 (of_nat n) = Inr l" using log2floor_u64_ok by blast
  then show ?thesis
    using introsort_correct [of 0 "n - 1" d "l * 2"] assms by (auto simp: sort_array_def)
qed

end

section \<open>The comparators of the sources\<close>

interpretation default_order: weak_order "DefaultComparator :: 'a::linorder \<Rightarrow> 'a \<Rightarrow> bool"
  by unfold_locales (auto simp: DefaultComparator_def)

lemma weak_order_reversed:
  assumes "weak_order cmp"
  shows "weak_order (ReversedComparator cmp)"
  using assms unfolding weak_order_def ReversedComparator_def by blast

interpretation reversed_order: weak_order "ReversedComparator (DefaultComparator :: 'a::linorder \<Rightarrow> 'a \<Rightarrow> bool)"
  by (rule weak_order_reversed) unfold_locales

text \<open>A comparator on a key, as the page and range sorts of the kernel pass it.\<close>

lemma weak_order_key: "weak_order (\<lambda>x y. (f x :: 'a::linorder) < f y)"
  by unfold_locales auto

section \<open>Properties\<close>

text \<open>
  C21: for a comparator that is a strict weak order, \<open>algorithm::sort\<close> on the first n elements of an
  array, n positive, terminates without leaving the array, whatever the recursion depth at which it
  falls back to heap sort; it permutes these n elements, leaves the others in place, and no later
  element compares below an earlier one.
\<close>

theorem sort_sorts:
  assumes "\<And>x y. cmp x y \<Longrightarrow> \<not> cmp y x" and "\<And>x y z. cmp x z \<Longrightarrow> cmp x y \<or> cmp y z"
    and "0 < n" and "n \<le> length d" and "n < 2 ^ 64"
  shows "\<exists>d'. sort_array cmp d n = Inr d' \<and> mset (take n d') = mset (take n d) \<and>
    drop n d' = drop n d \<and> sorted_wrt (\<lambda>x y. \<not> cmp y x) (take n d')"
proof -
  have "weak_order cmp" using assms(1,2) by unfold_locales
  then obtain d' where d': "sort_array cmp d n = Inr d'" "rearr 0 n d d'" "sortedRange cmp 0 n d'"
    using weak_order.sort_array_correct [OF _ assms(3-5)] by blast
  have len: "length d' = length d" using d'(2) by (rule rearr_length)
  have "mset (take n d') = mset (take n d)"
    using rearr_segment_mset [OF d'(2) _ assms(4)] by (simp add: segment_def)
  moreover have "drop n d' = drop n d"
    using rearr_outside [OF d'(2)] len by (intro nth_equalityI) auto
  moreover have "sorted_wrt (\<lambda>x y. \<not> cmp y x) (take n d')"
    using d'(3) len assms(4) by (auto simp: sorted_wrt_iff_nth_less sortedRange_def)
  ultimately show ?thesis using d'(1) by blast
qed

theorem sort_sorts_witness:
  "\<exists>d'. sort_array (DefaultComparator :: nat \<Rightarrow> nat \<Rightarrow> bool) [3, 1, 2, 0] 3 = Inr d' \<and>
     mset (take 3 d') = {#1, 2, 3#} \<and> drop 3 d' = [0]"
proof -
  have 1: "\<And>x y :: nat. DefaultComparator x y \<Longrightarrow> \<not> DefaultComparator y x"
    and 2: "\<And>x y z :: nat. DefaultComparator x z \<Longrightarrow> DefaultComparator x y \<or> DefaultComparator y z"
    by (auto simp: DefaultComparator_def)
  have "\<exists>d'. sort_array (DefaultComparator :: nat \<Rightarrow> nat \<Rightarrow> bool) [3, 1, 2, 0] 3 = Inr d' \<and>
      mset (take 3 d') = mset (take 3 [3, 1, 2, 0]) \<and> drop 3 d' = drop 3 [3, 1, 2, 0] \<and>
      sorted_wrt (\<lambda>x y. \<not> DefaultComparator y x) (take 3 d')"
    by (rule sort_sorts) (use 1 2 in auto)
  then show ?thesis by (auto simp: add_mset_commute)
qed

end
