(* ===== verification/Binary_Heap.thy ===== *)
theory Binary_Heap
  imports Sorting
begin

text \<open>
  \<open>Heap<T, Comp>\<close> of \<open>core/ds/Heap.h\<close> over its vector, with \<open>heapify\<close> of the sort as its sift-down.
  The interface a client relies on is the locale \<open>max_queue\<close>; the heap is interpreted as one for
  every strict weak order.
\<close>

section \<open>Operations\<close>

definition parent :: "nat \<Rightarrow> nat" where
  "parent index = (index - 1) div 2"

definition leftChild :: "nat \<Rightarrow> nat" where
  "leftChild index = 2 * index + 1"

definition rightChild :: "nat \<Rightarrow> nat" where
  "rightChild index = 2 * index + 2"

fun bubbleUp :: "('a \<Rightarrow> 'a \<Rightarrow> bool) \<Rightarrow> nat \<Rightarrow> 'a list \<Rightarrow> 'a list outcome" where
  "bubbleUp cmp 0 data = Inr data"
| "bubbleUp cmp (Suc index) data =
     (let parentIndex = parent (Suc index)
      in bindO (readAt data parentIndex) (\<lambda>p. bindO (readAt data (Suc index)) (\<lambda>x.
           if \<not> cmp p x then Inr data
           else bindO (swap data (Suc index) parentIndex) (bubbleUp cmp (index div 2)))))"

definition bubbleDown :: "('a \<Rightarrow> 'a \<Rightarrow> bool) \<Rightarrow> nat \<Rightarrow> 'a list \<Rightarrow> 'a list outcome" where
  "bubbleDown cmp index data = heapify cmp (length data) 0 index data"

fun buildHeap_from :: "('a \<Rightarrow> 'a \<Rightarrow> bool) \<Rightarrow> nat \<Rightarrow> 'a list \<Rightarrow> 'a list outcome" where
  "buildHeap_from cmp 0 data = Inr data"
| "buildHeap_from cmp (Suc i) data = bindO (bubbleDown cmp i data) (buildHeap_from cmp i)"

definition buildHeap :: "('a \<Rightarrow> 'a \<Rightarrow> bool) \<Rightarrow> 'a list \<Rightarrow> 'a list outcome" where
  "buildHeap cmp data =
     (if length data \<le> 1 then Inr data else buildHeap_from cmp (length data div 2) data)"

definition heap_push :: "('a \<Rightarrow> 'a \<Rightarrow> bool) \<Rightarrow> 'a \<Rightarrow> 'a list \<Rightarrow> 'a list outcome" where
  "heap_push cmp val data = bubbleUp cmp (length (data @ [val]) - 1) (data @ [val])"

definition heap_pop :: "('a \<Rightarrow> 'a \<Rightarrow> bool) \<Rightarrow> 'a list \<Rightarrow> ('a list \<times> 'a) outcome" where
  "heap_pop cmp data =
     bindO (assertO (length data > 0) ''Cannot pop from empty heap'') (\<lambda>_.
       let result = data ! 0
       in if length data = 1 then Inr (butlast data, result)
          else bindO (bubbleDown cmp 0 (butlast (data[0 := data ! (length data - 1)]))) (\<lambda>data'.
                 Inr (data', result)))"

definition heap_top :: "'a list \<Rightarrow> 'a outcome" where
  "heap_top data = bindO (assertO (length data > 0) ''Cannot peek at empty heap'') (\<lambda>_. Inr (data ! 0))"

definition heap_empty :: "'a list \<Rightarrow> bool" where
  "heap_empty data \<longleftrightarrow> length data = 0"

section \<open>The queue interface\<close>

text \<open>A client that pops \<open>n\<close> times.\<close>

fun pop_many :: "('q \<Rightarrow> ('q \<times> 'a) outcome) \<Rightarrow> nat \<Rightarrow> 'q \<Rightarrow> ('q \<times> 'a list) outcome" where
  "pop_many pop 0 q = Inr (q, [])"
| "pop_many pop (Suc n) q =
     bindO (pop q) (\<lambda>(q1, x). bindO (pop_many pop n q1) (\<lambda>(q2, xs). Inr (q2, x # xs)))"

locale max_queue = weak_order cmp for cmp :: "'a \<Rightarrow> 'a \<Rightarrow> bool" +
  fixes push :: "'a \<Rightarrow> 'q \<Rightarrow> 'q outcome" and pop :: "'q \<Rightarrow> ('q \<times> 'a) outcome" and top :: "'q \<Rightarrow> 'a outcome"
    and contents :: "'q \<Rightarrow> 'a multiset" and valid :: "'q \<Rightarrow> bool"
  assumes push_spec: "valid q \<Longrightarrow> \<exists>q'. push x q = Inr q' \<and> valid q' \<and> contents q' = add_mset x (contents q)"
    and pop_spec: "valid q \<Longrightarrow> contents q \<noteq> {#} \<Longrightarrow>
      \<exists>q' x. pop q = Inr (q', x) \<and> top q = Inr x \<and> valid q' \<and> contents q = add_mset x (contents q')"
    and top_max: "valid q \<Longrightarrow> top q = Inr x \<Longrightarrow> y \<in># contents q \<Longrightarrow> \<not> cmp x y"
begin

lemma pop_many_descending:
  assumes "valid q" "n \<le> size (contents q)"
  shows "\<exists>q' xs. pop_many pop n q = Inr (q', xs) \<and> valid q' \<and> contents q = mset xs + contents q' \<and>
    sorted_wrt (\<lambda>x y. \<not> cmp x y) xs \<and> (\<forall>x\<in>set xs. \<forall>y\<in>#contents q'. \<not> cmp x y) \<and> length xs = n"
  using assms
proof (induction n arbitrary: q)
  case 0
  then show ?case by simp
next
  case (Suc n)
  from Suc.prems have "contents q \<noteq> {#}" by auto
  then obtain q1 x where q1: "pop q = Inr (q1, x)" "top q = Inr x" "valid q1" "contents q = add_mset x (contents q1)"
    using pop_spec [OF Suc.prems(1)] by blast
  then obtain q' xs where q': "pop_many pop n q1 = Inr (q', xs)" "valid q'" "contents q1 = mset xs + contents q'"
    "sorted_wrt (\<lambda>x y. \<not> cmp x y) xs" "\<forall>x\<in>set xs. \<forall>y\<in>#contents q'. \<not> cmp x y" "length xs = n"
    using Suc.IH [of q1] Suc.prems(2) by auto
  have "\<not> cmp x y" if "y \<in># contents q" for y using top_max [OF Suc.prems(1) q1(2) that] .
  with q1 q' show ?case by (intro exI [of _ q'] exI [of _ "x # xs"]) auto
qed

end

section \<open>The heap is such a queue\<close>

definition is_heap :: "('a \<Rightarrow> 'a \<Rightarrow> bool) \<Rightarrow> 'a list \<Rightarrow> bool" where
  "is_heap cmp data \<longleftrightarrow> heapFrom cmp (length data) 0 0 data"

text \<open>While an element bubbles up: heap order except at its index, whose children fit its parent.\<close>

definition heapRising :: "('a \<Rightarrow> 'a \<Rightarrow> bool) \<Rightarrow> nat \<Rightarrow> 'a list \<Rightarrow> bool" where
  "heapRising cmp r d \<longleftrightarrow>
     (\<forall>c. 0 < c \<and> c < length d \<and> c \<noteq> r \<longrightarrow> heapOk cmp d 0 c) \<and>
     (\<forall>c. 0 < r \<and> 0 < c \<and> c < length d \<and> (c - 1) div 2 = r \<longrightarrow> \<not> cmp (d ! ((r - 1) div 2)) (d ! c))"

context weak_order
begin

lemma heapRising_step:
  assumes rising: "heapRising cmp r d" and r: "0 < r" "r < length d" and p: "p = (r - 1) div 2"
    and up: "cmp (d ! p) (d ! r)"
  shows "heapRising cmp p (d[r := d ! p, p := d ! r])"
proof -
  define e where "e = d[r := d ! p, p := d ! r]"
  have pr: "p < r" using p r by auto
  have nth: "e ! k = (if k = p then d ! r else if k = r then d ! p else d ! k)" if "k < length d" for k
    using that r pr by (auto simp: e_def nth_list_update)
  have ok: "\<not> cmp (d ! ((c - 1) div 2)) (d ! c)" if "0 < c" "c < length d" "c \<noteq> r" for c
    using rising that by (auto simp: heapRising_def heapOk_def)
  have "heapOk cmp e 0 c" if c: "0 < c" "c < length d" "c \<noteq> p" for c
  proof -
    have pc: "(c - 1) div 2 < length d" "(c - 1) div 2 \<noteq> c" using c by auto
    consider (r) "c = r" | (sib) "c \<noteq> r" "(c - 1) div 2 = p" | (below) "c \<noteq> r" "(c - 1) div 2 = r"
      | (other) "c \<noteq> r" "(c - 1) div 2 \<noteq> p" "(c - 1) div 2 \<noteq> r" by blast
    then show ?thesis
    proof cases
      case r
      then show ?thesis using c pc nth p asym [OF up] by (simp add: heapOk_def)
    next
      case sib
      then have "\<not> cmp (d ! r) (d ! c)" using ok [of c] c less_trans [OF up, of "d ! c"] by auto
      with sib show ?thesis using c pc nth by (simp add: heapOk_def)
    next
      case below
      then have "\<not> cmp (d ! p) (d ! c)" using rising c p \<open>0 < r\<close> unfolding heapRising_def by blast
      then show ?thesis using below c pc nth pr by (simp add: heapOk_def)
    next
      case other
      then show ?thesis using c pc nth ok [of c] by (simp add: heapOk_def)
    qed
  qed
  moreover have "\<not> cmp (e ! ((p - 1) div 2)) (e ! c)"
    if c: "0 < p" "0 < c" "c < length d" "(c - 1) div 2 = p" for c
  proof -
    have pp: "(p - 1) div 2 < p" "(p - 1) div 2 < length d" "p < length d" "c \<noteq> p" using c pr r by auto
    have 1: "\<not> cmp (d ! ((p - 1) div 2)) (d ! p)" using ok [of p] c pp pr by auto
    have "\<not> cmp (d ! ((p - 1) div 2)) (d ! c)" if "c \<noteq> r"
      using ok [of c] c that le_trans [OF _ 1] by auto
    then show ?thesis using nth [of "(p - 1) div 2"] nth [of c] pp c pr 1 by (cases "c = r") auto
  qed
  moreover have "length e = length d" by (simp add: e_def)
  ultimately have "heapRising cmp p e" unfolding heapRising_def by simp
  then show ?thesis by (simp add: e_def)
qed

lemma heapRising_heap:
  assumes "heapRising cmp r d" "r = 0 \<or> \<not> cmp (d ! ((r - 1) div 2)) (d ! r)"
  shows "is_heap cmp d"
  using assms unfolding is_heap_def heapFrom_def heapRising_def by (auto simp: heapOk_def)

lemma bubbleUp_correct:
  assumes "heapRising cmp r d" "r < length d"
  shows "\<exists>d'. bubbleUp cmp r d = Inr d' \<and> mset d' = mset d \<and> is_heap cmp d'"
  using assms
proof (induction r arbitrary: d rule: less_induct)
  case (less r)
  show ?case
  proof (cases r)
    case 0
    then show ?thesis using heapRising_heap [OF less.prems(1)] by simp
  next
    case (Suc k)
    define q where "q = (r - 1) div 2"
    have p: "q < r" "q < length d" "parent r = q" "k div 2 = q" "0 < r"
      using Suc less.prems(2) by (auto simp: parent_def q_def)
    have unf: "bubbleUp cmp r d = (if \<not> cmp (d ! q) (d ! r) then Inr d
        else bindO (swap d r q) (bubbleUp cmp q))"
      using p less.prems(2) Suc by (simp add: Let_def)
    show ?thesis
    proof (cases "cmp (d ! q) (d ! r)")
      case False
      then have "is_heap cmp d" using heapRising_heap [OF less.prems(1)] unfolding q_def by blast
      then show ?thesis using False unf by simp
    next
      case True
      define e where "e = d[r := d ! q, q := d ! r]"
      have "heapRising cmp q e"
        using heapRising_step [OF less.prems(1) p(5) less.prems(2) q_def True] by (simp add: e_def)
      moreover have "q < length e" using p(2) by (simp add: e_def)
      ultimately obtain d' where d': "bubbleUp cmp q e = Inr d'" "mset d' = mset e" "is_heap cmp d'"
        using less.IH [OF p(1)] by blast
      have "mset e = mset d" using p less.prems(2) by (simp add: mset_swap e_def)
      moreover have "bubbleUp cmp r d = bubbleUp cmp q e"
        using True p less.prems(2) unf by (simp add: e_def)
      ultimately show ?thesis using d' by simp
    qed
  qed
qed

lemma heap_push_correct:
  assumes "is_heap cmp d"
  shows "\<exists>d'. heap_push cmp x d = Inr d' \<and> is_heap cmp d' \<and> mset d' = add_mset x (mset d)"
proof -
  have "(length d - Suc 0) div 2 \<noteq> length d" if "d \<noteq> []" using that by (cases d) auto
  then have "heapRising cmp (length d) (d @ [x])"
    using assms unfolding heapRising_def is_heap_def heapFrom_def heapOk_def
    by (auto simp: nth_append less_Suc_eq div_less_iff_less_mult)
  then show ?thesis using bubbleUp_correct [of "length d" "d @ [x]"] by (auto simp: heap_push_def)
qed

lemma heap_pop_correct:
  assumes "is_heap cmp d" "d \<noteq> []"
  shows "\<exists>d'. heap_pop cmp d = Inr (d', d ! 0) \<and> is_heap cmp d' \<and> mset d = add_mset (d ! 0) (mset d')"
proof -
  obtain x xs where d: "d = x # xs" using assms(2) by (cases d) auto
  show ?thesis
  proof (cases "xs = []")
    case True
    then show ?thesis using d by (simp add: heap_pop_def is_heap_def heapFrom_def)
  next
    case False
    define e where "e = last xs # butlast xs"
    have e: "butlast (d[0 := d ! (length d - 1)]) = e" using d False by (simp add: e_def last_conv_nth)
    have len: "length e = length xs" using False by (simp add: e_def)
    have nth: "e ! k = d ! k" if "0 < k" "k < length e" for k
      using that len d by (cases k) (auto simp: e_def nth_butlast)
    have "heapHole cmp (length e) 0 0 0 e"
      using assms(1) nth len d unfolding is_heap_def heapHole_def heapFrom_def heapOk_def by auto
    then obtain d' where d': "heapify cmp (length e) 0 0 e = Inr d'" "rearr 0 (length e) e d'" "heapFrom cmp (length e) 0 0 d'"
      using heapify_correct [of "length e" 0 0 0 e] False len by auto
    have "mset e = mset xs" using False append_butlast_last_id [of xs] unfolding e_def
      by (metis add_mset_add_single mset.simps(1,2) mset_append)
    then show ?thesis
      using d' d e False len by (auto simp: heap_pop_def bubbleDown_def is_heap_def rearr_def)
  qed
qed

lemma heap_top_max: "is_heap cmp d \<Longrightarrow> heap_top d = Inr x \<Longrightarrow> y \<in># mset d \<Longrightarrow> \<not> cmp x y"
  using heap_root_max [of "length d" 0 d] by (auto simp: heap_top_def is_heap_def in_set_conv_nth bindO_eq_Inr_iff)

lemma buildHeap_from_correct:
  assumes "heapFrom cmp (length d) 0 k d" "k \<le> length d div 2"
  shows "\<exists>d'. buildHeap_from cmp k d = Inr d' \<and> is_heap cmp d' \<and> mset d' = mset d"
  using assms
proof (induction k arbitrary: d)
  case 0
  then show ?case by (simp add: is_heap_def)
next
  case (Suc i)
  have "i < length d" using Suc.prems(2) by linarith
  then obtain d1 where d1: "bubbleDown cmp i d = Inr d1" "rearr i (length d) d d1" "heapFrom cmp (length d) 0 i d1"
    using heapify_correct [OF heapFrom_hole [OF Suc.prems(1)], simplified] by (auto simp: bubbleDown_def)
  then have "heapFrom cmp (length d1) 0 i d1" "i \<le> length d1 div 2" using Suc.prems(2) by (auto simp: rearr_def)
  from Suc.IH [OF this] d1 show ?case by (auto simp: rearr_def)
qed

lemma buildHeap_correct: "\<exists>d'. buildHeap cmp d = Inr d' \<and> is_heap cmp d' \<and> mset d' = mset d"
proof (cases "length d \<le> 1")
  case True
  then show ?thesis by (auto simp: buildHeap_def is_heap_def heapFrom_def)
next
  case False
  then show ?thesis
    using buildHeap_from_correct [OF heapFrom_leaves, of d "length d div 2"] by (simp add: buildHeap_def)
qed

lemma heap_max_queue: "max_queue cmp (heap_push cmp) (heap_pop cmp) heap_top mset (is_heap cmp)"
proof unfold_locales
  fix d x assume "is_heap cmp d"
  then show "\<exists>d'. heap_push cmp x d = Inr d' \<and> is_heap cmp d' \<and> mset d' = add_mset x (mset d)"
    by (rule heap_push_correct)
next
  fix d assume "is_heap cmp d" "mset d \<noteq> {#}"
  then show "\<exists>d' x. heap_pop cmp d = Inr (d', x) \<and> heap_top d = Inr x \<and> is_heap cmp d' \<and> mset d = add_mset x (mset d')"
    using heap_pop_correct [of d] by (auto simp: heap_top_def)
qed (rule heap_top_max)

end

interpretation default_heap: max_queue "DefaultComparator :: 'a::linorder \<Rightarrow> 'a \<Rightarrow> bool"
  "heap_push DefaultComparator" "heap_pop DefaultComparator" heap_top mset "is_heap DefaultComparator"
  by (rule default_order.heap_max_queue)

section \<open>Properties\<close>

text \<open>
  C22: a heap built from any vector, with any number of pushes behind it, returns its elements in
  descending order of the comparator when popped: \<open>buildHeap\<close>, \<open>push\<close> and \<open>pop\<close> keep the heap order,
  lose and duplicate nothing, and \<open>pop\<close> never yields an element below one that is left.
\<close>

theorem heap_pops_descending:
  assumes "\<And>x y. cmp x y \<Longrightarrow> \<not> cmp y x" and "\<And>x y z. cmp x z \<Longrightarrow> cmp x y \<or> cmp y z"
    and "n \<le> Suc (length v)"
  shows "\<exists>h h' h'' xs. buildHeap cmp v = Inr h \<and> heap_push cmp x h = Inr h' \<and>
    pop_many (heap_pop cmp) n h' = Inr (h'', xs) \<and> add_mset x (mset v) = mset xs + mset h'' \<and>
    sorted_wrt (\<lambda>a b. \<not> cmp a b) xs \<and> (\<forall>a\<in>set xs. \<forall>b\<in>set h''. \<not> cmp a b) \<and> is_heap cmp h''"
proof -
  have w: "weak_order cmp" using assms(1,2) by unfold_locales
  note mq = weak_order.heap_max_queue [OF w]
  obtain h where h: "buildHeap cmp v = Inr h" "is_heap cmp h" "mset h = mset v"
    using weak_order.buildHeap_correct [OF w] by blast
  obtain h' where h': "heap_push cmp x h = Inr h'" "is_heap cmp h'" "mset h' = add_mset x (mset h)"
    using max_queue.push_spec [OF mq h(2)] by blast
  have "n \<le> size (mset h')" using h(3) h'(3) assms(3) by (metis size_add_mset size_mset)
  from max_queue.pop_many_descending [OF mq h'(2) this] show ?thesis using h h' by auto
qed

theorem heap_pops_descending_witness:
  "\<exists>h h' h'' xs. buildHeap DefaultComparator [4, 9, 1 :: nat] = Inr h \<and> heap_push DefaultComparator 7 h = Inr h' \<and>
    pop_many (heap_pop DefaultComparator) 4 h' = Inr (h'', xs) \<and> {#7, 4, 9, 1#} = mset xs + mset h'' \<and>
    is_heap DefaultComparator h''"
proof -
  have "\<exists>h h' h'' xs. buildHeap DefaultComparator [4, 9, 1 :: nat] = Inr h \<and> heap_push DefaultComparator 7 h = Inr h' \<and>
    pop_many (heap_pop DefaultComparator) 4 h' = Inr (h'', xs) \<and> add_mset 7 (mset [4, 9, 1]) = mset xs + mset h'' \<and>
    sorted_wrt (\<lambda>a b. \<not> DefaultComparator a b) xs \<and> (\<forall>a\<in>set xs. \<forall>b\<in>set h''. \<not> DefaultComparator a b) \<and>
    is_heap DefaultComparator h''"
    by (rule heap_pops_descending) (auto simp: DefaultComparator_def)
  then show ?thesis by auto
qed

end
