(* ===== verification/Ring_Buffer.thy ===== *)
theory Ring_Buffer
  imports Croc_Prelude
begin

text \<open>
  \<open>MPMCRingBuffer\<close> of \<open>core/atomic/RingBuffer.h\<close> and its wrapper
  \<open>HighReliabilityRingBuffer\<close>, run by one thread at a time: four logical heads over one array,
  bulk claims against the completed or the claimed reads, completion heads that advance by waiting
  or by scanning generation counters. Heads are naturals (the sources assume fewer than 2^64
  operations); the subtractions on them wrap as \<open>size_t\<close> does. A wait that nobody will end is
  \<open>Diverges\<close>. The callbacks are functions: a write callback maps the index and the old slot to the
  new slot, the values a read callback receives are returned in order.
\<close>

section \<open>Completion heads\<close>

definition advanceCompletionHead :: "nat \<Rightarrow> nat \<Rightarrow> nat \<Rightarrow> nat outcome" where
  "advanceCompletionHead head expected desired =
     (if head = expected then Inr desired
      else if head \<ge> desired then Inr head
      else Inl Diverges)"

text \<open>The inner scan: past every slot whose generation counter has reached the position's.\<close>

lemma scan_bound:
  assumes "g \<noteq> []" "pos div cap + 1 \<le> g ! (pos mod cap)" "pos mod cap < length g" "0 < cap"
  shows "pos < cap * Max (set g)"
proof -
  have "pos div cap + 1 \<le> Max (set g)" using assms by (meson Max_ge List.finite_set nth_mem order_trans)
  then have "pos div cap < Max (set g)" by simp
  then show ?thesis using assms(4) by (simp add: div_less_iff_less_mult mult.commute)
qed

function scanGens :: "nat list \<Rightarrow> nat \<Rightarrow> nat \<Rightarrow> nat outcome" where
  "scanGens genCounters cap scanPos =
     (if cap = 0 \<or> length genCounters \<le> scanPos mod cap then Inl (Undefined ''genCounters access'')
      else if genCounters ! (scanPos mod cap) < scanPos div cap + 1 then Inr scanPos
      else scanGens genCounters cap (scanPos + 1))"
  by pat_completeness auto
termination
proof (relation "measure (\<lambda>(g, cap, pos). cap * Max (set g) - pos)")
  fix g :: "nat list" and cap pos :: nat
  assume a: "\<not> (cap = 0 \<or> length g \<le> pos mod cap)" "\<not> g ! (pos mod cap) < pos div cap + 1"
  then have "g \<noteq> []" by auto
  then have "pos < cap * Max (set g)" using scan_bound [of g pos cap] a by simp
  then show "((g, cap, pos + 1), (g, cap, pos)) \<in> measure (\<lambda>(g, cap, pos). cap * Max (set g) - pos)"
    by simp
qed simp

declare scanGens.simps [simp del]

text \<open>
  Alone, the first exchange fails only when the head is elsewhere; a head inside the batch makes the
  second exchange succeed, and after the scan the head is where the scan stopped.
\<close>

definition advanceCompletionHeadWithScan ::
    "nat \<Rightarrow> nat list \<Rightarrow> nat \<Rightarrow> nat \<Rightarrow> nat \<Rightarrow> nat outcome" where
  "advanceCompletionHeadWithScan head genCounters cap expected desired =
     (if head = expected then scanGens genCounters cap desired
      else if head \<ge> desired then Inr head
      else if head < expected then Inr head
      else scanGens genCounters cap desired)"

section \<open>The buffer\<close>

record 'a mpmc =
  buffer :: "'a list"
  scanOnComplete :: bool
  writeGenCounters :: "nat list"
  readGenCounters :: "nat list"
  rb_cap :: nat
  writeHead :: nat
  writtenHead :: nat
  readingHead :: nat
  readHead :: nat

definition mkMPMC :: "bool \<Rightarrow> 'a list \<Rightarrow> 'a mpmc" where
  "mkMPMC scan storage =
     \<lparr>buffer = storage, scanOnComplete = scan,
      writeGenCounters = (if scan then replicate (length storage) 0 else []),
      readGenCounters = (if scan then replicate (length storage) 0 else []),
      rb_cap = length storage, writeHead = 0, writtenHead = 0, readingHead = 0, readHead = 0\<rparr>"

definition waitForSlotReadable :: "nat \<Rightarrow> 'a mpmc \<Rightarrow> unit outcome" where
  "waitForSlotReadable logicalPos s =
     (if logicalPos < rb_cap s then Inr ()
      else if readHead s < logicalPos - rb_cap s + 1 then Inl Diverges
      else Inr ())"

text \<open>The claims: the first position of the batch, or None.\<close>

definition claimWriteOptimistic :: "nat \<Rightarrow> 'a mpmc \<Rightarrow> 'a mpmc \<times> nat option" where
  "claimWriteOptimistic n s =
     (let claimed = writeHead s
      in if n > sub_size (rb_cap s) (sub_size claimed (readingHead s)) then (s, None)
         else (s\<lparr>writeHead := claimed + n\<rparr>, Some claimed))"

definition claimWriteConservative :: "nat \<Rightarrow> 'a mpmc \<Rightarrow> 'a mpmc \<times> nat option" where
  "claimWriteConservative n s =
     (let claimed = writeHead s
      in if n > sub_size (rb_cap s) (sub_size claimed (readHead s)) then (s, None)
         else (s\<lparr>writeHead := claimed + n\<rparr>, Some claimed))"

definition claimBestEffortWriteConservative :: "nat \<Rightarrow> 'a mpmc \<Rightarrow> 'a mpmc \<times> nat \<times> nat" where
  "claimBestEffortWriteConservative maxCount s =
     (let claimed = writeHead s;
          available = sub_size (rb_cap s) (sub_size claimed (readHead s));
          actualCount = min maxCount available
      in if actualCount = 0 then (s, 0, claimed)
         else (s\<lparr>writeHead := claimed + actualCount\<rparr>, actualCount, claimed))"

definition tryClaimRead :: "nat \<Rightarrow> 'a mpmc \<Rightarrow> 'a mpmc \<times> nat option" where
  "tryClaimRead n s =
     (let claimed = readingHead s
      in if n > sub_size (writtenHead s) claimed then (s, None)
         else (s\<lparr>readingHead := claimed + n\<rparr>, Some claimed))"

definition claimBestEffortRead :: "nat \<Rightarrow> 'a mpmc \<Rightarrow> 'a mpmc \<times> nat \<times> nat" where
  "claimBestEffortRead maxCount s =
     (let claimed = readingHead s;
          available = sub_size (writtenHead s) claimed;
          actualCount = min maxCount available
      in if actualCount = 0 then (s, 0, claimed)
         else (s\<lparr>readingHead := claimed + actualCount\<rparr>, actualCount, claimed))"

text \<open>The slot loops; \<open>buffer[pos % cap]\<close> with capacity 0 is undefined.\<close>

definition putSlot :: "nat \<Rightarrow> ('a \<Rightarrow> 'a) \<Rightarrow> 'a mpmc \<Rightarrow> 'a mpmc outcome" where
  "putSlot pos f s =
     (let i = pos mod rb_cap s
      in if i < length (buffer s) then Inr (s\<lparr>buffer := (buffer s)[i := f (buffer s ! i)]\<rparr>)
         else Inl (Undefined ''buffer access''))"

definition getSlot :: "nat \<Rightarrow> 'a mpmc \<Rightarrow> 'a outcome" where
  "getSlot pos s =
     (let i = pos mod rb_cap s
      in if i < length (buffer s) then Inr (buffer s ! i) else Inl (Undefined ''buffer access''))"

fun writeLoop :: "bool \<Rightarrow> nat \<Rightarrow> nat \<Rightarrow> nat \<Rightarrow> (nat \<Rightarrow> 'a \<Rightarrow> 'a) \<Rightarrow> 'a mpmc \<Rightarrow> 'a mpmc outcome" where
  "writeLoop wait claimed i 0 callback s = Inr s"
| "writeLoop wait claimed i (Suc n) callback s =
     bindO (if wait then waitForSlotReadable (claimed + i) s else Inr ()) (\<lambda>_.
       bindO (putSlot (claimed + i) (callback i) s) (writeLoop wait claimed (i + 1) n callback))"

fun storeGens :: "nat \<Rightarrow> nat \<Rightarrow> nat \<Rightarrow> nat list \<Rightarrow> nat list" where
  "storeGens cap pos 0 g = g"
| "storeGens cap pos (Suc n) g = storeGens cap (pos + 1) n (g[pos mod cap := pos div cap + 1])"

definition completeWrite :: "nat \<Rightarrow> nat \<Rightarrow> 'a mpmc \<Rightarrow> 'a mpmc outcome" where
  "completeWrite claimed n s =
     (if scanOnComplete s then
        let s1 = s\<lparr>writeGenCounters := storeGens (rb_cap s) claimed n (writeGenCounters s)\<rparr>
        in bindO (advanceCompletionHeadWithScan (writtenHead s1) (writeGenCounters s1) (rb_cap s1) claimed (claimed + n))
             (\<lambda>h. Inr (s1\<lparr>writtenHead := h\<rparr>))
      else bindO (advanceCompletionHead (writtenHead s) claimed (claimed + n)) (\<lambda>h. Inr (s\<lparr>writtenHead := h\<rparr>)))"

definition executeWriteWithWait :: "nat \<Rightarrow> nat \<Rightarrow> (nat \<Rightarrow> 'a \<Rightarrow> 'a) \<Rightarrow> 'a mpmc \<Rightarrow> 'a mpmc outcome" where
  "executeWriteWithWait claimed n callback s =
     bindO (writeLoop True claimed 0 n callback s) (completeWrite claimed n)"

definition executeWriteImmediate :: "nat \<Rightarrow> nat \<Rightarrow> (nat \<Rightarrow> 'a \<Rightarrow> 'a) \<Rightarrow> 'a mpmc \<Rightarrow> 'a mpmc outcome" where
  "executeWriteImmediate claimed n callback s =
     bindO (writeLoop False claimed 0 n callback s) (completeWrite claimed n)"

fun readLoop :: "nat \<Rightarrow> nat \<Rightarrow> 'a mpmc \<Rightarrow> 'a list outcome" where
  "readLoop pos 0 s = Inr []"
| "readLoop pos (Suc n) s =
     bindO (getSlot pos s) (\<lambda>x. bindO (readLoop (pos + 1) n s) (\<lambda>xs. Inr (x # xs)))"

definition executeRead :: "nat \<Rightarrow> nat \<Rightarrow> 'a mpmc \<Rightarrow> ('a mpmc \<times> 'a list) outcome" where
  "executeRead claimed n s =
     bindO (readLoop claimed n s) (\<lambda>xs.
       if scanOnComplete s then
         let s1 = s\<lparr>readGenCounters := storeGens (rb_cap s) claimed n (readGenCounters s)\<rparr>
         in bindO (advanceCompletionHeadWithScan (readHead s1) (readGenCounters s1) (rb_cap s1) claimed (claimed + n))
              (\<lambda>h. Inr (s1\<lparr>readHead := h\<rparr>, xs))
       else bindO (advanceCompletionHead (readHead s) claimed (claimed + n)) (\<lambda>h. Inr (s\<lparr>readHead := h\<rparr>, xs)))"

section \<open>Operations\<close>

definition bulkWrite :: "nat \<Rightarrow> (nat \<Rightarrow> 'a \<Rightarrow> 'a) \<Rightarrow> 'a mpmc \<Rightarrow> ('a mpmc \<times> bool) outcome" where
  "bulkWrite n callback s =
     (case claimWriteOptimistic n s of
        (s1, None) \<Rightarrow> Inr (s1, False)
      | (s1, Some claimed) \<Rightarrow> bindO (executeWriteWithWait claimed n callback s1) (\<lambda>s2. Inr (s2, True)))"

definition tryBulkWrite :: "nat \<Rightarrow> (nat \<Rightarrow> 'a \<Rightarrow> 'a) \<Rightarrow> 'a mpmc \<Rightarrow> ('a mpmc \<times> bool) outcome" where
  "tryBulkWrite n callback s =
     (case claimWriteConservative n s of
        (s1, None) \<Rightarrow> Inr (s1, False)
      | (s1, Some claimed) \<Rightarrow> bindO (executeWriteImmediate claimed n callback s1) (\<lambda>s2. Inr (s2, True)))"

definition bulkWriteBestEffort :: "nat \<Rightarrow> (nat \<Rightarrow> 'a \<Rightarrow> 'a) \<Rightarrow> 'a mpmc \<Rightarrow> ('a mpmc \<times> nat) outcome" where
  "bulkWriteBestEffort n callback s =
     (case claimBestEffortWriteConservative n s of
        (s1, actualCount, claimed) \<Rightarrow>
          if actualCount = 0 then Inr (s1, 0)
          else bindO (executeWriteImmediate claimed actualCount callback s1) (\<lambda>s2. Inr (s2, actualCount)))"

definition tryBulkRead :: "nat \<Rightarrow> 'a mpmc \<Rightarrow> ('a mpmc \<times> 'a list option) outcome" where
  "tryBulkRead n s =
     (case tryClaimRead n s of
        (s1, None) \<Rightarrow> Inr (s1, None)
      | (s1, Some claimed) \<Rightarrow> bindO (executeRead claimed n s1) (\<lambda>(s2, xs). Inr (s2, Some xs)))"

definition bulkRead :: "nat \<Rightarrow> 'a mpmc \<Rightarrow> ('a mpmc \<times> 'a list option) outcome" where
  "bulkRead n s = tryBulkRead n s"

definition bulkReadBestEffort :: "nat \<Rightarrow> 'a mpmc \<Rightarrow> ('a mpmc \<times> 'a list) outcome" where
  "bulkReadBestEffort n s =
     (case claimBestEffortRead n s of
        (s1, actualCount, claimed) \<Rightarrow>
          if actualCount = 0 then Inr (s1, []) else executeRead claimed actualCount s1)"

definition rb_write :: "'a \<Rightarrow> 'a mpmc \<Rightarrow> ('a mpmc \<times> bool) outcome" where
  "rb_write v s = bulkWrite 1 (\<lambda>_ _. v) s"

definition tryWrite :: "'a \<Rightarrow> 'a mpmc \<Rightarrow> ('a mpmc \<times> bool) outcome" where
  "tryWrite v s = tryBulkWrite 1 (\<lambda>_ _. v) s"

definition tryRead :: "'a mpmc \<Rightarrow> ('a mpmc \<times> 'a option) outcome" where
  "tryRead s = bindO (tryBulkRead 1 s) (\<lambda>(s', r). Inr (s', case r of None \<Rightarrow> None | Some xs \<Rightarrow> Some (last xs)))"

definition availableToWrite :: "'a mpmc \<Rightarrow> nat" where
  "availableToWrite s = sub_size (rb_cap s) (sub_size (writeHead s) (readHead s))"

definition availableToRead :: "'a mpmc \<Rightarrow> nat" where
  "availableToRead s = sub_size (writtenHead s) (readingHead s)"

definition rb_empty :: "'a mpmc \<Rightarrow> bool" where
  "rb_empty s \<longleftrightarrow> availableToRead s = 0"

definition rb_full :: "'a mpmc \<Rightarrow> bool" where
  "rb_full s \<longleftrightarrow> availableToWrite s = 0"

definition rb_clear :: "'a mpmc \<Rightarrow> 'a mpmc" where
  "rb_clear s = s\<lparr>readingHead := writtenHead s, readHead := writtenHead s\<rparr>"

section \<open>The counted wrapper\<close>

record 'a hr_ring =
  ring :: "'a mpmc"
  logicalCount :: nat

text \<open>
  \<open>drainClaimed\<close>: without another thread, a read that finds nothing will not find anything later, so
  the spins run out and the rest of the claim goes back to \<open>logicalCount\<close>. The loop's spin counter
  is the argument \<open>spins\<close>; \<open>fuel\<close> bounds the turns.
\<close>

fun drainClaimed_loop :: "nat \<Rightarrow> nat \<Rightarrow> nat \<Rightarrow> nat \<Rightarrow> 'a hr_ring \<Rightarrow> ('a hr_ring \<times> 'a list) outcome" where
  "drainClaimed_loop 0 toClaim spins maxSpins s = Inl Diverges"
| "drainClaimed_loop (Suc fuel) toClaim spins maxSpins s =
     (if toClaim = 0 then Inr (s, [])
      else bindO (bulkReadBestEffort toClaim (ring s)) (\<lambda>(r, xs).
        let s1 = s\<lparr>ring := r\<rparr>
        in if xs \<noteq> [] then
             bindO (drainClaimed_loop fuel (toClaim - length xs) 0 maxSpins s1) (\<lambda>(s2, ys). Inr (s2, xs @ ys))
           else if spins + 1 > maxSpins then Inr (s1\<lparr>logicalCount := logicalCount s1 + toClaim\<rparr>, [])
           else drainClaimed_loop fuel toClaim (spins + 1) maxSpins s1))"

definition drainClaimed :: "nat \<Rightarrow> nat \<Rightarrow> 'a hr_ring \<Rightarrow> ('a hr_ring \<times> 'a list) outcome" where
  "drainClaimed toClaim maxSpins s = drainClaimed_loop ((toClaim + 1) * (maxSpins + 2)) toClaim 0 maxSpins s"

definition hr_bulkWrite :: "nat \<Rightarrow> (nat \<Rightarrow> 'a \<Rightarrow> 'a) \<Rightarrow> 'a hr_ring \<Rightarrow> ('a hr_ring \<times> bool) outcome" where
  "hr_bulkWrite n callback s =
     (let s1 = s\<lparr>logicalCount := logicalCount s + n\<rparr>
      in bindO (bulkWrite n callback (ring s1)) (\<lambda>(r, ok).
           if \<not> ok then Inr (s1\<lparr>ring := r, logicalCount := sub_size (logicalCount s1) n\<rparr>, False)
           else Inr (s1\<lparr>ring := r\<rparr>, True)))"

definition hr_bulkWriteBestEffort :: "nat \<Rightarrow> (nat \<Rightarrow> 'a \<Rightarrow> 'a) \<Rightarrow> 'a hr_ring \<Rightarrow> ('a hr_ring \<times> nat) outcome" where
  "hr_bulkWriteBestEffort n callback s =
     bindO (bulkWriteBestEffort n callback (ring s)) (\<lambda>(r, actual).
       Inr (s\<lparr>ring := r, logicalCount := (if actual > 0 then logicalCount s + actual else logicalCount s)\<rparr>, actual))"

definition hr_write :: "'a \<Rightarrow> 'a hr_ring \<Rightarrow> ('a hr_ring \<times> bool) outcome" where
  "hr_write v s = hr_bulkWrite 1 (\<lambda>_ _. v) s"

fun hr_readLoop :: "nat \<Rightarrow> nat \<Rightarrow> nat \<Rightarrow> 'a hr_ring \<Rightarrow> ('a hr_ring \<times> 'a list) outcome" where
  "hr_readLoop 0 remaining maxSpins s = (if remaining = 0 then Inr (s, []) else Inl Diverges)"
| "hr_readLoop (Suc fuel) remaining maxSpins s =
     (if remaining = 0 then Inr (s, [])
      else if logicalCount s = 0 then Inr (s, [])
      else let toClaim = min (logicalCount s) remaining
           in bindO (drainClaimed toClaim maxSpins (s\<lparr>logicalCount := logicalCount s - toClaim\<rparr>)) (\<lambda>(s1, xs).
                bindO (hr_readLoop fuel (remaining - length xs) maxSpins s1) (\<lambda>(s2, ys). Inr (s2, xs @ ys))))"

definition hr_bulkReadBestEffort :: "nat \<Rightarrow> nat \<Rightarrow> 'a hr_ring \<Rightarrow> ('a hr_ring \<times> 'a list) outcome" where
  "hr_bulkReadBestEffort maxCount maxSpins s = hr_readLoop (maxCount + 1) maxCount maxSpins s"

text \<open>The all-or-nothing read: the returned flag, and what the callback received.\<close>

definition hr_bulkRead :: "nat \<Rightarrow> nat \<Rightarrow> 'a hr_ring \<Rightarrow> ('a hr_ring \<times> bool \<times> 'a list) outcome" where
  "hr_bulkRead n maxSpins s =
     (if logicalCount s < n then Inr (s, False, [])
      else bindO (drainClaimed n maxSpins (s\<lparr>logicalCount := logicalCount s - n\<rparr>)) (\<lambda>(s1, xs).
             Inr (s1, length xs = n, xs)))"

definition hr_tryRead :: "nat \<Rightarrow> 'a hr_ring \<Rightarrow> ('a hr_ring \<times> 'a option) outcome" where
  "hr_tryRead maxSpins s =
     bindO (hr_bulkReadBestEffort 1 maxSpins s) (\<lambda>(s1, xs). Inr (s1, if length xs = 1 then Some (last xs) else None))"

definition hr_clear :: "'a hr_ring \<Rightarrow> 'a hr_ring" where
  "hr_clear s = \<lparr>ring = rb_clear (ring s), logicalCount = 0\<rparr>"

end
