(* ===== verification/Ring_Buffer_Fifo.thy ===== *)
theory Ring_Buffer_Fifo
  imports Ring_Buffer
begin

text \<open>
  The ring buffer as a bounded first-in first-out queue: the interface (locale \<open>bounded_fifo\<close>) with
  its client lemma on arbitrary sequences of operations, and the refinement lemmas that make both
  write disciplines, both completion disciplines and the counted wrapper instances of it.
\<close>

section \<open>Interface\<close>

datatype 'a fifo_op = Put 'a | Get

datatype 'a fifo_res = PutResult bool | GetResult "'a option"

fun fifo_spec :: "nat \<Rightarrow> 'a fifo_op list \<Rightarrow> 'a list \<Rightarrow> 'a list \<times> 'a fifo_res list" where
  "fifo_spec cap [] q = (q, [])"
| "fifo_spec cap (Put v # ops) q =
     (if length q < cap
      then (case fifo_spec cap ops (q @ [v]) of (q', rs) \<Rightarrow> (q', PutResult True # rs))
      else (case fifo_spec cap ops q of (q', rs) \<Rightarrow> (q', PutResult False # rs)))"
| "fifo_spec cap (Get # ops) q =
     (case q of
        [] \<Rightarrow> (case fifo_spec cap ops [] of (q', rs) \<Rightarrow> (q', GetResult None # rs))
      | x # xs \<Rightarrow> (case fifo_spec cap ops xs of (q', rs) \<Rightarrow> (q', GetResult (Some x) # rs)))"

fun fifo_run :: "('a \<Rightarrow> 'q \<Rightarrow> ('q \<times> bool) outcome) \<Rightarrow> ('q \<Rightarrow> ('q \<times> 'a option) outcome) \<Rightarrow> 'a fifo_op list \<Rightarrow>
    'q \<Rightarrow> ('q \<times> 'a fifo_res list) outcome" where
  "fifo_run put get [] q = Inr (q, [])"
| "fifo_run put get (Put v # ops) q =
     bindO (put v q) (\<lambda>(q1, b). bindO (fifo_run put get ops q1) (\<lambda>(q2, rs). Inr (q2, PutResult b # rs)))"
| "fifo_run put get (Get # ops) q =
     bindO (get q) (\<lambda>(q1, r). bindO (fifo_run put get ops q1) (\<lambda>(q2, rs). Inr (q2, GetResult r # rs)))"

locale bounded_fifo =
  fixes put :: "'a \<Rightarrow> 'q \<Rightarrow> ('q \<times> bool) outcome" and get :: "'q \<Rightarrow> ('q \<times> 'a option) outcome"
    and items :: "'q \<Rightarrow> 'a list" and limit :: "'q \<Rightarrow> nat" and valid :: "'q \<Rightarrow> bool"
  assumes put_law: "valid q \<Longrightarrow> \<exists>q'. put v q = Inr (q', length (items q) < limit q) \<and> valid q' \<and> limit q' = limit q \<and>
      items q' = (if length (items q) < limit q then items q @ [v] else items q)"
    and get_law: "valid q \<Longrightarrow> \<exists>q'. get q = Inr (q', case items q of [] \<Rightarrow> None | x # xs \<Rightarrow> Some x) \<and> valid q' \<and>
      limit q' = limit q \<and> items q' = tl (items q)"
begin

lemma run_refines:
  assumes "valid q"
  shows "\<exists>q'. fifo_run put get ops q = Inr (q', snd (fifo_spec (limit q) ops (items q))) \<and> valid q' \<and>
    limit q' = limit q \<and> items q' = fst (fifo_spec (limit q) ops (items q))"
  using assms
proof (induction ops arbitrary: q)
  case Nil
  then show ?case by simp
next
  case (Cons op ops)
  show ?case
  proof (cases op)
    case (Put v)
    from put_law [OF Cons.prems, of v] obtain q1 where q1: "put v q = Inr (q1, length (items q) < limit q)" "valid q1"
      "limit q1 = limit q" "items q1 = (if length (items q) < limit q then items q @ [v] else items q)" by blast
    from Cons.IH [OF q1(2)] obtain q2 where "fifo_run put get ops q1 = Inr (q2, snd (fifo_spec (limit q) ops (items q1)))"
      "valid q2" "limit q2 = limit q" "items q2 = fst (fifo_spec (limit q) ops (items q1))"
      using q1(3) by auto
    with q1 Put show ?thesis by (cases "length (items q) < limit q") (simp_all split: prod.splits)
  next
    case Get
    from get_law [OF Cons.prems] obtain q1 where q1: "get q = Inr (q1, case items q of [] \<Rightarrow> None | x # xs \<Rightarrow> Some x)" "valid q1"
      "limit q1 = limit q" "items q1 = tl (items q)" by blast
    from Cons.IH [OF q1(2)] obtain q2 where "fifo_run put get ops q1 = Inr (q2, snd (fifo_spec (limit q) ops (items q1)))"
      "valid q2" "limit q2 = limit q" "items q2 = fst (fifo_spec (limit q) ops (items q1))"
      using q1(3) by auto
    with q1 Get show ?thesis by (cases "items q") (simp_all split: prod.splits)
  qed
qed

end

section \<open>Positions and slots\<close>

lemma mod_slot_distinct:
  assumes "(p :: nat) < q" "q < p + cap"
  shows "p mod cap \<noteq> q mod cap"
proof
  assume eq: "p mod cap = q mod cap"
  then have "cap dvd q - p" using mod_eq_dvd_iff_nat [of p q cap] assms(1) by auto
  then have "cap \<le> q - p" using assms(1) by (intro dvd_imp_le) auto
  with assms show False by linarith
qed

definition gens_ok :: "nat list \<Rightarrow> nat \<Rightarrow> nat \<Rightarrow> bool" where
  "gens_ok g cap h \<longleftrightarrow> length g = cap \<and> (\<forall>pos \<ge> h. g ! (pos mod cap) \<le> pos div cap)"

definition rb_inv :: "'a mpmc \<Rightarrow> bool" where
  "rb_inv s \<longleftrightarrow> 0 < rb_cap s \<and> length (buffer s) = rb_cap s \<and> writeHead s = writtenHead s \<and> readingHead s = readHead s \<and>
     readHead s \<le> writtenHead s \<and> writtenHead s \<le> readHead s + rb_cap s \<and>
     (scanOnComplete s \<longrightarrow> gens_ok (writeGenCounters s) (rb_cap s) (writtenHead s) \<and>
        gens_ok (readGenCounters s) (rb_cap s) (readHead s))"

definition rb_items :: "'a mpmc \<Rightarrow> 'a list" where
  "rb_items s = map (\<lambda>p. buffer s ! (p mod rb_cap s)) [readHead s..<writtenHead s]"

lemma length_rb_items: "length (rb_items s) = writtenHead s - readHead s"
  by (simp add: rb_items_def)

lemma storeGens_length [simp]: "length (storeGens cap pos n g) = length g"
  by (induction cap pos n g rule: storeGens.induct) simp_all

lemma storeGens_ok:
  assumes "gens_ok g cap h" "0 < cap"
  shows "gens_ok (storeGens cap h n g) cap (h + n)"
  using assms
proof (induction n arbitrary: h g)
  case (Suc n)
  have "gens_ok (g[h mod cap := h div cap + 1]) cap (h + 1)"
    unfolding gens_ok_def
  proof (intro conjI allI impI)
    show "length (g[h mod cap := h div cap + 1]) = cap" using Suc.prems(1) by (simp add: gens_ok_def)
    fix pos assume pos: "h + 1 \<le> pos"
    show "g[h mod cap := h div cap + 1] ! (pos mod cap) \<le> pos div cap"
    proof (cases "h mod cap = pos mod cap")
      case True
      then have "h + cap \<le> pos" using mod_slot_distinct [of h pos cap] pos by linarith
      then have "(h + cap) div cap \<le> pos div cap" by (rule div_le_mono)
      moreover have "(h + cap) div cap = h div cap + 1" using Suc.prems(2) div_add_self2 [of cap h] by simp
      ultimately show ?thesis using True Suc.prems by (simp add: gens_ok_def)
    next
      case False
      then show ?thesis using Suc.prems(1) pos by (simp add: gens_ok_def)
    qed
  qed
  from Suc.IH [OF this Suc.prems(2)] show ?case by (simp add: add.commute)
qed simp

lemma scan_stops: "gens_ok g cap h \<Longrightarrow> 0 < cap \<Longrightarrow> scanGens g cap h = Inr h"
  using mod_less_divisor [of cap h]
  by (simp add: scanGens.simps [of g cap h] gens_ok_def not_le less_Suc_eq_le del: mod_less_divisor)

lemma gens_ok_mono: "gens_ok g cap h \<Longrightarrow> h \<le> h' \<Longrightarrow> gens_ok g cap h'"
  by (auto simp: gens_ok_def)

text \<open>Both completion disciplines, when the head is where the batch starts.\<close>

lemma advance_scan_now:
  assumes "gens_ok g cap h" "0 < cap"
  shows "advanceCompletionHeadWithScan h (storeGens cap h n g) cap h (h + n) = Inr (h + n)"
  using scan_stops [OF storeGens_ok [OF assms] assms(2)] by (simp add: advanceCompletionHeadWithScan_def)

section \<open>Slot loops\<close>

lemma writeLoop_spec:
  assumes "0 < rb_cap s" "length (buffer s) = rb_cap s" "n \<le> rb_cap s"
    and "wait \<Longrightarrow> claimed + i + n \<le> readHead s + rb_cap s"
  shows "\<exists>b. writeLoop wait claimed i n f s = Inr (s\<lparr>buffer := b\<rparr>) \<and> length b = rb_cap s \<and>
    (\<forall>j < n. b ! ((claimed + i + j) mod rb_cap s) = f (i + j) (buffer s ! ((claimed + i + j) mod rb_cap s))) \<and>
    (\<forall>x < rb_cap s. (\<forall>j < n. (claimed + i + j) mod rb_cap s \<noteq> x) \<longrightarrow> b ! x = buffer s ! x)"
  using assms
proof (induction n arbitrary: i s)
  case 0
  then show ?case by (intro exI [of _ "buffer s"]) simp
next
  case (Suc n)
  let ?c = "rb_cap s" and ?p = "claimed + i"
  define b1 where "b1 = (buffer s)[?p mod ?c := f i (buffer s ! (?p mod ?c))]"
  have pm: "?p mod ?c < length (buffer s)" using Suc.prems(1,2) by simp
  have w: "(if wait then waitForSlotReadable ?p s else Inr ()) = Inr ()"
    using Suc.prems(4) by (auto simp: waitForSlotReadable_def)
  have p: "putSlot ?p (f i) s = Inr (s\<lparr>buffer := b1\<rparr>)" using pm by (simp add: putSlot_def b1_def Let_def)
  have "\<exists>b. writeLoop wait claimed (i + 1) n f (s\<lparr>buffer := b1\<rparr>) = Inr (s\<lparr>buffer := b1\<rparr>\<lparr>buffer := b\<rparr>) \<and> length b = ?c \<and>
    (\<forall>j < n. b ! ((claimed + (i + 1) + j) mod ?c) = f (i + 1 + j) (b1 ! ((claimed + (i + 1) + j) mod ?c))) \<and>
    (\<forall>x < ?c. (\<forall>j < n. (claimed + (i + 1) + j) mod ?c \<noteq> x) \<longrightarrow> b ! x = b1 ! x)"
    using Suc.IH [of "s\<lparr>buffer := b1\<rparr>" "i + 1"] Suc.prems by (simp add: b1_def)
  then obtain b where b: "writeLoop wait claimed (i + 1) n f (s\<lparr>buffer := b1\<rparr>) = Inr (s\<lparr>buffer := b\<rparr>)" "length b = ?c"
    "\<And>j. j < n \<Longrightarrow> b ! ((?p + Suc j) mod ?c) = f (i + Suc j) (b1 ! ((?p + Suc j) mod ?c))"
    "\<And>x. x < ?c \<Longrightarrow> (\<And>j. j < n \<Longrightarrow> (?p + Suc j) mod ?c \<noteq> x) \<Longrightarrow> b ! x = b1 ! x"
    by (auto simp: add.assoc)
  have ne: "?p mod ?c \<noteq> (?p + Suc j) mod ?c" if "j < n" for j
    using mod_slot_distinct [of ?p "?p + Suc j" ?c] that Suc.prems(3) by simp
  have "b ! ((?p + j) mod ?c) = f (i + j) (buffer s ! ((?p + j) mod ?c))" if "j < Suc n" for j
  proof (cases j)
    case 0
    have "b ! (?p mod ?c) = b1 ! (?p mod ?c)" by (rule b(4)) (use ne Suc.prems(1) in \<open>auto dest: not_sym\<close>)
    then show ?thesis using 0 pm by (simp add: b1_def)
  next
    case (Suc k)
    then show ?thesis using b(3) [of k] that ne [of k] by (simp add: b1_def)
  qed
  moreover have "b ! x = buffer s ! x" if "x < ?c" "\<forall>j < Suc n. (?p + j) mod ?c \<noteq> x" for x
  proof -
    have "(?p + Suc j) mod ?c \<noteq> x" if "j < n" for j using that \<open>\<forall>j < Suc n. (?p + j) mod ?c \<noteq> x\<close> by blast
    then have "b ! x = b1 ! x" using b(4) [OF that(1)] by blast
    moreover have "?p mod ?c \<noteq> x" using that(2) by (metis add_0_right zero_less_Suc)
    ultimately show ?thesis by (simp add: b1_def)
  qed
  ultimately show ?case using w p b(1,2) by (intro exI [of _ b]) simp
qed

lemma readLoop_spec:
  assumes "0 < rb_cap s" "length (buffer s) = rb_cap s"
  shows "readLoop pos n s = Inr (map (\<lambda>p. buffer s ! (p mod rb_cap s)) [pos..<pos + n])"
proof (induction n arbitrary: pos)
  case (Suc n)
  have "[pos..<pos + Suc n] = pos # [pos + 1..<pos + 1 + n]" by (simp add: upt_conv_Cons)
  then show ?case using Suc assms by (simp add: getSlot_def Let_def)
qed simp

section \<open>Batches\<close>

lemma completeWrite_now:
  assumes "rb_inv s" "t = s\<lparr>writeHead := writeHead s + n, buffer := b\<rparr>"
  shows "\<exists>g. completeWrite (writeHead s) n t = Inr (t\<lparr>writtenHead := writeHead s + n, writeGenCounters := g\<rparr>) \<and>
    (scanOnComplete s \<longrightarrow> gens_ok g (rb_cap s) (writtenHead s + n))"
proof (cases "scanOnComplete s")
  case True
  define g where "g = storeGens (rb_cap s) (writeHead s) n (writeGenCounters s)"
  have "gens_ok (writeGenCounters s) (rb_cap s) (writeHead s)" "0 < rb_cap s" "writeHead s = writtenHead s"
    using assms(1) True by (auto simp: rb_inv_def)
  then show ?thesis
    using True assms(2) advance_scan_now [of "writeGenCounters s" "rb_cap s" "writeHead s" n] storeGens_ok [of "writeGenCounters s" "rb_cap s" "writeHead s" n]
    by (intro exI [of _ g]) (simp add: completeWrite_def g_def Let_def)
next
  case False
  then show ?thesis
    using assms by (intro exI [of _ "writeGenCounters s"]) (simp add: completeWrite_def advanceCompletionHead_def rb_inv_def)
qed

text \<open>A batch of n writes appends what the callback makes of the n slots.\<close>

lemma write_batch:
  assumes inv: "rb_inv s" and n: "n \<le> rb_cap s - length (rb_items s)"
  shows "\<exists>s'. bindO (writeLoop wait (writeHead s) 0 n f (s\<lparr>writeHead := writeHead s + n\<rparr>)) (completeWrite (writeHead s) n) = Inr s' \<and>
    rb_inv s' \<and> rb_cap s' = rb_cap s \<and>
    rb_items s' = rb_items s @ map (\<lambda>j. f j (buffer s ! ((writeHead s + j) mod rb_cap s))) [0..<n]"
proof -
  let ?t = "s\<lparr>writeHead := writeHead s + n\<rparr>" and ?c = "rb_cap s" and ?w = "writeHead s"
  have I: "0 < ?c" "length (buffer s) = ?c" "?w = writtenHead s" "readingHead s = readHead s"
    "readHead s \<le> ?w" "?w + n \<le> readHead s + ?c"
    using inv n by (auto simp: rb_inv_def length_rb_items)
  have "\<exists>b. writeLoop wait ?w 0 n f ?t = Inr (?t\<lparr>buffer := b\<rparr>) \<and> length b = rb_cap ?t \<and>
    (\<forall>j < n. b ! ((?w + 0 + j) mod rb_cap ?t) = f (0 + j) (buffer ?t ! ((?w + 0 + j) mod rb_cap ?t))) \<and>
    (\<forall>x < rb_cap ?t. (\<forall>j < n. (?w + 0 + j) mod rb_cap ?t \<noteq> x) \<longrightarrow> b ! x = buffer ?t ! x)"
    by (rule writeLoop_spec) (use I in auto)
  then obtain b where b: "writeLoop wait ?w 0 n f ?t = Inr (?t\<lparr>buffer := b\<rparr>)" "length b = ?c"
    "\<And>j. j < n \<Longrightarrow> b ! ((?w + j) mod ?c) = f j (buffer s ! ((?w + j) mod ?c))"
    "\<And>x. x < ?c \<Longrightarrow> (\<And>j. j < n \<Longrightarrow> (?w + j) mod ?c \<noteq> x) \<Longrightarrow> b ! x = buffer s ! x"
    by auto
  obtain g where g: "completeWrite ?w n (?t\<lparr>buffer := b\<rparr>) = Inr (?t\<lparr>buffer := b, writtenHead := ?w + n, writeGenCounters := g\<rparr>)"
    "scanOnComplete s \<longrightarrow> gens_ok g ?c (writtenHead s + n)"
    using completeWrite_now [OF inv refl, of n b] by auto
  define s' where "s' = ?t\<lparr>buffer := b, writtenHead := ?w + n, writeGenCounters := g\<rparr>"
  have old: "b ! (p mod ?c) = buffer s ! (p mod ?c)" if "readHead s \<le> p" "p < ?w" for p
  proof (rule b(4))
    fix j assume "j < n"
    then show "(?w + j) mod ?c \<noteq> p mod ?c" using mod_slot_distinct [of p "?w + j" ?c] that I(6) by auto
  qed (use I(1) in simp)
  have "rb_inv s'" using inv I b(2) g(2) by (auto simp: rb_inv_def s'_def)
  moreover have "rb_items s' = rb_items s @ map (\<lambda>j. f j (buffer s ! ((?w + j) mod ?c))) [0..<n]"
  proof -
    have "[readHead s..<?w + n] = [readHead s..<?w] @ map (\<lambda>j. ?w + j) [0..<n]"
    proof -
      have "map (\<lambda>j. ?w + j) [0..<n] = [?w..<?w + n]" by (intro nth_equalityI) auto
      then show ?thesis using upt_add_eq_append [OF I(5), of n] by (simp only:)
    qed
    then show ?thesis using I(3) old b(3) by (simp add: rb_items_def s'_def)
  qed
  ultimately show ?thesis using b(1) g(1) by (intro exI [of _ s']) (simp add: s'_def)
qed

lemma read_batch:
  assumes inv: "rb_inv s" and n: "n \<le> length (rb_items s)"
  shows "\<exists>s'. executeRead (readingHead s) n (s\<lparr>readingHead := readingHead s + n\<rparr>) = Inr (s', take n (rb_items s)) \<and>
    rb_inv s' \<and> rb_cap s' = rb_cap s \<and> rb_items s' = drop n (rb_items s)"
proof -
  let ?t = "s\<lparr>readingHead := readingHead s + n\<rparr>" and ?c = "rb_cap s" and ?r = "readHead s"
  have I: "0 < ?c" "length (buffer s) = ?c" "readingHead s = ?r" "?r + n \<le> writtenHead s"
    using inv n by (auto simp: rb_inv_def length_rb_items)
  have rl: "readLoop ?r n ?t = Inr (take n (rb_items s))"
    using readLoop_spec [of ?t ?r n] I by (simp add: rb_items_def take_map)
  have items: "drop n (rb_items s) = map (\<lambda>p. buffer s ! (p mod ?c)) [?r + n..<writtenHead s]"
    by (simp add: rb_items_def drop_map)
  show ?thesis
  proof (cases "scanOnComplete s")
    case True
    define g where "g = storeGens ?c ?r n (readGenCounters s)"
    have gk: "gens_ok (readGenCounters s) ?c ?r" using inv True by (simp add: rb_inv_def)
    then have adv: "advanceCompletionHeadWithScan ?r g ?c ?r (?r + n) = Inr (?r + n)" and "gens_ok g ?c (?r + n)"
      using advance_scan_now storeGens_ok I(1) by (auto simp: g_def)
    then have "rb_inv (?t\<lparr>readGenCounters := g, readHead := ?r + n\<rparr>)" using inv I True by (auto simp: rb_inv_def)
    then show ?thesis
      using True rl adv I(3) items
      by (intro exI [of _ "?t\<lparr>readGenCounters := g, readHead := ?r + n\<rparr>"]) (simp add: executeRead_def g_def Let_def rb_items_def)
  next
    case False
    have "rb_inv (?t\<lparr>readHead := ?r + n\<rparr>)" using inv I False by (auto simp: rb_inv_def)
    then show ?thesis
      using False rl I(3) items
      by (intro exI [of _ "?t\<lparr>readHead := ?r + n\<rparr>"]) (simp add: executeRead_def advanceCompletionHead_def rb_items_def)
  qed
qed

section \<open>Operations\<close>

lemma rb_room:
  assumes "rb_inv s"
  shows "sub_size (rb_cap s) (sub_size (writeHead s) (readHead s)) = rb_cap s - length (rb_items s)"
    "sub_size (rb_cap s) (sub_size (writeHead s) (readingHead s)) = rb_cap s - length (rb_items s)"
    "sub_size (writtenHead s) (readingHead s) = length (rb_items s)" "length (rb_items s) \<le> rb_cap s"
  using assms by (auto simp: rb_inv_def length_rb_items)

definition written :: "(nat \<Rightarrow> 'a \<Rightarrow> 'a) \<Rightarrow> 'a mpmc \<Rightarrow> nat \<Rightarrow> 'a list" where
  "written f s n = map (\<lambda>j. f j (buffer s ! ((writeHead s + j) mod rb_cap s))) [0..<n]"

lemma bulk_writes:
  assumes "rb_inv s"
  shows "n \<le> rb_cap s - length (rb_items s) \<Longrightarrow>
      \<exists>s'. bulkWrite n f s = Inr (s', True) \<and> rb_inv s' \<and> rb_cap s' = rb_cap s \<and> rb_items s' = rb_items s @ written f s n"
    and "n \<le> rb_cap s - length (rb_items s) \<Longrightarrow>
      \<exists>s'. tryBulkWrite n f s = Inr (s', True) \<and> rb_inv s' \<and> rb_cap s' = rb_cap s \<and> rb_items s' = rb_items s @ written f s n"
    and "\<not> n \<le> rb_cap s - length (rb_items s) \<Longrightarrow> bulkWrite n f s = Inr (s, False)"
    and "\<not> n \<le> rb_cap s - length (rb_items s) \<Longrightarrow> tryBulkWrite n f s = Inr (s, False)"
    and "\<exists>s'. bulkWriteBestEffort n f s = Inr (s', min n (rb_cap s - length (rb_items s))) \<and> rb_inv s' \<and> rb_cap s' = rb_cap s \<and>
      rb_items s' = rb_items s @ written f s (min n (rb_cap s - length (rb_items s)))"
proof -
  note R = rb_room [OF assms(1)]
  note W = write_batch [OF assms(1), where f = f, folded written_def [of f s]]
  show "\<exists>s'. bulkWrite n f s = Inr (s', True) \<and> rb_inv s' \<and> rb_cap s' = rb_cap s \<and> rb_items s' = rb_items s @ written f s n"
    if "n \<le> rb_cap s - length (rb_items s)"
    using W [OF that, of True] that R
    by (auto simp: bulkWrite_def claimWriteOptimistic_def executeWriteWithWait_def Let_def)
  show "\<exists>s'. tryBulkWrite n f s = Inr (s', True) \<and> rb_inv s' \<and> rb_cap s' = rb_cap s \<and> rb_items s' = rb_items s @ written f s n"
    if "n \<le> rb_cap s - length (rb_items s)"
    using W [OF that, of False] that R
    by (auto simp: tryBulkWrite_def claimWriteConservative_def executeWriteImmediate_def Let_def)
  show "bulkWrite n f s = Inr (s, False)" if "\<not> n \<le> rb_cap s - length (rb_items s)"
    using that R by (simp add: bulkWrite_def claimWriteOptimistic_def Let_def)
  show "tryBulkWrite n f s = Inr (s, False)" if "\<not> n \<le> rb_cap s - length (rb_items s)"
    using that R by (simp add: tryBulkWrite_def claimWriteConservative_def Let_def)
  show "\<exists>s'. bulkWriteBestEffort n f s = Inr (s', min n (rb_cap s - length (rb_items s))) \<and> rb_inv s' \<and> rb_cap s' = rb_cap s \<and>
      rb_items s' = rb_items s @ written f s (min n (rb_cap s - length (rb_items s)))"
    using W [of "min n (rb_cap s - length (rb_items s))" False] R assms(1)
    by (auto simp: bulkWriteBestEffort_def claimBestEffortWriteConservative_def executeWriteImmediate_def written_def Let_def)
qed

lemma bulk_reads:
  assumes "rb_inv s"
  shows "n \<le> length (rb_items s) \<Longrightarrow>
      \<exists>s'. tryBulkRead n s = Inr (s', Some (take n (rb_items s))) \<and> rb_inv s' \<and> rb_cap s' = rb_cap s \<and> rb_items s' = drop n (rb_items s)"
    and "\<not> n \<le> length (rb_items s) \<Longrightarrow> tryBulkRead n s = Inr (s, None)"
    and "\<exists>s'. bulkReadBestEffort n s = Inr (s', take n (rb_items s)) \<and> rb_inv s' \<and> rb_cap s' = rb_cap s \<and>
      rb_items s' = drop n (rb_items s)"
proof -
  note R = rb_room [OF assms] and W = read_batch [OF assms]
  show "\<exists>s'. tryBulkRead n s = Inr (s', Some (take n (rb_items s))) \<and> rb_inv s' \<and> rb_cap s' = rb_cap s \<and> rb_items s' = drop n (rb_items s)"
    if "n \<le> length (rb_items s)"
    using W [OF that] that R by (auto simp: tryBulkRead_def tryClaimRead_def Let_def)
  show "tryBulkRead n s = Inr (s, None)" if "\<not> n \<le> length (rb_items s)"
    using that R by (simp add: tryBulkRead_def tryClaimRead_def Let_def)
  show "\<exists>s'. bulkReadBestEffort n s = Inr (s', take n (rb_items s)) \<and> rb_inv s' \<and> rb_cap s' = rb_cap s \<and>
      rb_items s' = drop n (rb_items s)"
    using W [of "min n (length (rb_items s))"] R assms
    by (auto simp: bulkReadBestEffort_def claimBestEffortRead_def Let_def min_def)
qed

section \<open>The counted wrapper\<close>

definition hr_inv :: "'a hr_ring \<Rightarrow> bool" where
  "hr_inv s \<longleftrightarrow> rb_inv (ring s) \<and> logicalCount s = length (rb_items (ring s))"

lemma drain_spins:
  assumes "rb_inv (ring s)" "rb_items (ring s) = []" "0 < toClaim" "spins \<le> maxSpins" "maxSpins - spins < fuel"
  shows "drainClaimed_loop fuel toClaim spins maxSpins s = Inr (s\<lparr>logicalCount := logicalCount s + toClaim\<rparr>, [])"
  using assms(3-5)
proof (induction fuel arbitrary: spins)
  case (Suc fuel)
  have "bulkReadBestEffort toClaim (ring s) = Inr (ring s, [])"
    using assms(1,2) rb_room(3) [OF assms(1)] by (simp add: bulkReadBestEffort_def claimBestEffortRead_def Let_def)
  moreover have "s\<lparr>ring := ring s\<rparr> = s" by simp
  ultimately show ?case using Suc.prems Suc.IH [of "spins + 1"] by (cases "spins = maxSpins") auto
qed simp

text \<open>
  One thread alone drains what there is; what it claimed beyond that goes back to the count.
\<close>

lemma drainClaimed_spec:
  assumes inv: "rb_inv (ring s)"
  shows "\<exists>r. drainClaimed n maxSpins s =
      Inr (\<lparr>ring = r, logicalCount = logicalCount s + (n - length (rb_items (ring s)))\<rparr>, take n (rb_items (ring s))) \<and>
    rb_inv r \<and> rb_cap r = rb_cap (ring s) \<and> rb_items r = drop n (rb_items (ring s))"
proof (cases "n = 0 \<or> rb_items (ring s) = []")
  case True
  then show ?thesis
  proof
    assume "n = 0"
    then show ?thesis using inv by (intro exI [of _ "ring s"]) (simp add: drainClaimed_def numeral_2_eq_2)
  next
    assume e: "rb_items (ring s) = []"
    have "0 < n \<Longrightarrow> drainClaimed n maxSpins s = Inr (s\<lparr>logicalCount := logicalCount s + n\<rparr>, [])"
      unfolding drainClaimed_def by (rule drain_spins) (use inv e in auto)
    moreover have "n = 0 \<Longrightarrow> drainClaimed n maxSpins s = Inr (s, [])" by (simp add: drainClaimed_def numeral_2_eq_2)
    ultimately show ?thesis using e inv by (intro exI [of _ "ring s"]) (cases "n = 0"; simp)
  qed
next
  case False
  obtain r where r: "bulkReadBestEffort n (ring s) = Inr (r, take n (rb_items (ring s)))" "rb_inv r"
    "rb_cap r = rb_cap (ring s)" "rb_items r = drop n (rb_items (ring s))"
    using bulk_reads(3) [OF inv] by blast
  obtain k where k: "(n + 1) * (maxSpins + 2) = Suc (Suc k)" "maxSpins \<le> k"
  proof (rule that [of "n * (maxSpins + 2) + maxSpins"])
  qed auto
  let ?m = "n - length (take n (rb_items (ring s)))" and ?s1 = "s\<lparr>ring := r\<rparr>"
  have step: "drainClaimed n maxSpins s = bindO (drainClaimed_loop (Suc k) ?m 0 maxSpins ?s1)
      (\<lambda>(s2, ys). Inr (s2, take n (rb_items (ring s)) @ ys))"
    using False r(1) unfolding drainClaimed_def k(1) by simp
  show ?thesis
  proof (cases "?m = 0")
    case True
    then show ?thesis using step r by (intro exI [of _ r]) simp
  next
    case m: False
    then have "rb_items r = []" using r(4) by auto
    then have "drainClaimed_loop (Suc k) ?m 0 maxSpins ?s1 = Inr (?s1\<lparr>logicalCount := logicalCount ?s1 + ?m\<rparr>, [])"
      by (intro drain_spins) (use r(2) m k(2) in auto)
    then show ?thesis using step r m by (intro exI [of _ r]) (simp add: min_def split: if_splits)
  qed
qed

lemma hr_readLoop_spec:
  assumes "hr_inv s" "n < fuel"
  shows "\<exists>s'. hr_readLoop fuel n maxSpins s = Inr (s', take n (rb_items (ring s))) \<and> hr_inv s' \<and>
    rb_cap (ring s') = rb_cap (ring s) \<and> rb_items (ring s') = drop n (rb_items (ring s))"
proof -
  obtain f where f: "fuel = Suc f" using assms(2) by (cases fuel) auto
  show ?thesis
  proof (cases "n = 0 \<or> logicalCount s = 0")
    case True
    then show ?thesis using assms(1) f by (auto simp: hr_inv_def)
  next
    case False
    let ?m = "min (logicalCount s) n" and ?xs = "rb_items (ring s)"
    have I: "rb_inv (ring s)" "logicalCount s = length ?xs" using assms(1) by (auto simp: hr_inv_def)
    obtain r where r: "drainClaimed ?m maxSpins (s\<lparr>logicalCount := logicalCount s - ?m\<rparr>) =
        Inr (\<lparr>ring = r, logicalCount = logicalCount s - ?m\<rparr>, take ?m ?xs)"
      "rb_inv r" "rb_cap r = rb_cap (ring s)" "rb_items r = drop ?m ?xs"
      using drainClaimed_spec [of "s\<lparr>logicalCount := logicalCount s - ?m\<rparr>" ?m maxSpins] I by auto
    have tk: "take ?m ?xs = take n ?xs" "drop ?m ?xs = drop n ?xs" using I(2) by (auto simp: min_def)
    let ?s1 = "\<lparr>ring = r, logicalCount = logicalCount s - ?m\<rparr>"
    have inv1: "hr_inv ?s1" using r(2,4) I(2) by (auto simp: hr_inv_def)
    have "hr_readLoop f (n - length (take n ?xs)) maxSpins ?s1 = Inr (?s1, [])"
    proof (cases "n \<le> length ?xs")
      case True
      then show ?thesis by (cases f) (auto simp: min_def)
    next
      case n: False
      then have "logicalCount s - ?m = 0" using I(2) by simp
      moreover have "f \<noteq> 0" using n False f assms(2) by (cases f) auto
      ultimately show ?thesis by (cases f) auto
    qed
    then have "hr_readLoop fuel n maxSpins s = Inr (?s1, take n ?xs)"
      using False f r(1) tk by (simp add: Let_def)
    then show ?thesis using inv1 r(3,4) tk by auto
  qed
qed

section \<open>Instances of the interface\<close>

lemma drop_take_one: "(case xs of [] \<Rightarrow> None | x # _ \<Rightarrow> Some x) = (if xs = [] then None else Some (hd xs))"
  by (cases xs) auto

lemma tryRead_fifo:
  assumes "rb_inv s"
  shows "\<exists>s'. tryRead s = Inr (s', case rb_items s of [] \<Rightarrow> None | x # xs \<Rightarrow> Some x) \<and> rb_inv s' \<and>
    rb_cap s' = rb_cap s \<and> rb_items s' = tl (rb_items s)"
proof (cases "rb_items s")
  case Nil
  then show ?thesis using bulk_reads(2) [OF assms, of 1] assms by (simp add: tryRead_def)
next
  case (Cons x xs)
  then show ?thesis using bulk_reads(1) [OF assms, of 1] by (auto simp: tryRead_def)
qed

lemma write_fifo:
  assumes "rb_inv s"
  shows "\<exists>s'. rb_write v s = Inr (s', length (rb_items s) < rb_cap s) \<and> rb_inv s' \<and> rb_cap s' = rb_cap s \<and>
      rb_items s' = (if length (rb_items s) < rb_cap s then rb_items s @ [v] else rb_items s)"
    and "\<exists>s'. tryWrite v s = Inr (s', length (rb_items s) < rb_cap s) \<and> rb_inv s' \<and> rb_cap s' = rb_cap s \<and>
      rb_items s' = (if length (rb_items s) < rb_cap s then rb_items s @ [v] else rb_items s)"
  using bulk_writes(1-4) [OF assms, of 1 "\<lambda>_ _. v"] assms
  by (cases "length (rb_items s) < rb_cap s"; auto simp: rb_write_def tryWrite_def written_def)+

lemma hr_fifo:
  assumes "hr_inv s"
  shows "\<exists>s'. hr_write v s = Inr (s', length (rb_items (ring s)) < rb_cap (ring s)) \<and> hr_inv s' \<and> rb_cap (ring s') = rb_cap (ring s) \<and>
      rb_items (ring s') = (if length (rb_items (ring s)) < rb_cap (ring s) then rb_items (ring s) @ [v] else rb_items (ring s))"
    and "\<exists>s'. hr_tryRead maxSpins s = Inr (s', case rb_items (ring s) of [] \<Rightarrow> None | x # xs \<Rightarrow> Some x) \<and> hr_inv s' \<and>
      rb_cap (ring s') = rb_cap (ring s) \<and> rb_items (ring s') = tl (rb_items (ring s))"
proof -
  have I: "rb_inv (ring s)" "logicalCount s = length (rb_items (ring s))" using assms by (auto simp: hr_inv_def)
  show "\<exists>s'. hr_write v s = Inr (s', length (rb_items (ring s)) < rb_cap (ring s)) \<and> hr_inv s' \<and> rb_cap (ring s') = rb_cap (ring s) \<and>
      rb_items (ring s') = (if length (rb_items (ring s)) < rb_cap (ring s) then rb_items (ring s) @ [v] else rb_items (ring s))"
  proof (cases "length (rb_items (ring s)) < rb_cap (ring s)")
    case True
    then have "1 \<le> rb_cap (ring s) - length (rb_items (ring s))" by simp
    from bulk_writes(1) [OF I(1) this, of "\<lambda>_ _. v"] obtain r where r: "bulkWrite 1 (\<lambda>_ _. v) (ring s) = Inr (r, True)"
      "rb_inv r" "rb_cap r = rb_cap (ring s)" "rb_items r = rb_items (ring s) @ [v]" by (auto simp: written_def)
    then show ?thesis
      using True I by (intro exI [of _ "\<lparr>ring = r, logicalCount = logicalCount s + 1\<rparr>"]) (simp add: hr_write_def hr_bulkWrite_def hr_inv_def Let_def)
  next
    case False
    then have "bulkWrite 1 (\<lambda>_ _. v) (ring s) = Inr (ring s, False)" by (intro bulk_writes(3) [OF I(1)]) simp
    then show ?thesis
      using False I by (intro exI [of _ s]) (simp add: hr_write_def hr_bulkWrite_def hr_inv_def Let_def)
  qed
  show "\<exists>s'. hr_tryRead maxSpins s = Inr (s', case rb_items (ring s) of [] \<Rightarrow> None | x # xs \<Rightarrow> Some x) \<and> hr_inv s' \<and>
      rb_cap (ring s') = rb_cap (ring s) \<and> rb_items (ring s') = tl (rb_items (ring s))"
  proof -
    obtain s' where s': "hr_bulkReadBestEffort 1 maxSpins s = Inr (s', take 1 (rb_items (ring s)))" "hr_inv s'"
      "rb_cap (ring s') = rb_cap (ring s)" "rb_items (ring s') = drop 1 (rb_items (ring s))"
      using hr_readLoop_spec [OF assms, of 1 "1 + 1" maxSpins] unfolding hr_bulkReadBestEffort_def by auto
    then show ?thesis by (cases "rb_items (ring s)") (auto simp: hr_tryRead_def)
  qed
qed

interpretation mpmc_wait: bounded_fifo rb_write tryRead rb_items rb_cap rb_inv
  by unfold_locales (erule write_fifo(1), erule tryRead_fifo)

interpretation mpmc_try: bounded_fifo tryWrite tryRead rb_items rb_cap rb_inv
  by unfold_locales (erule write_fifo(2), erule tryRead_fifo)

interpretation hr_queue: bounded_fifo hr_write "hr_tryRead maxSpins" "rb_items \<circ> ring" "rb_cap \<circ> ring" hr_inv for maxSpins
  by unfold_locales (unfold comp_apply, erule hr_fifo(1), erule hr_fifo(2))

lemma mkMPMC_valid: "storage \<noteq> [] \<Longrightarrow> rb_inv (mkMPMC scan storage) \<and> rb_items (mkMPMC scan storage) = []"
  by (auto simp: rb_inv_def mkMPMC_def rb_items_def gens_ok_def)

section \<open>Properties\<close>

text \<open>
  C25: from construction on, any sequence of single writes and reads, waiting or non-blocking,
  through the plain buffer or the counted wrapper, with either completion discipline, returns what a
  bounded list queue returns: items come out once, in order, a write is refused exactly when
  capacity many items are unread, and no call waits forever.
\<close>

theorem ring_buffer_is_fifo:
  assumes "storage \<noteq> []"
  shows "\<exists>q1 q2 q3. fifo_run rb_write tryRead ops (mkMPMC scan storage) = Inr (q1, snd (fifo_spec (length storage) ops [])) \<and>
    fifo_run tryWrite tryRead ops (mkMPMC scan storage) = Inr (q2, snd (fifo_spec (length storage) ops [])) \<and>
    fifo_run hr_write (hr_tryRead maxSpins) ops \<lparr>ring = mkMPMC scan storage, logicalCount = 0\<rparr> =
      Inr (q3, snd (fifo_spec (length storage) ops [])) \<and>
    rb_items q1 = fst (fifo_spec (length storage) ops []) \<and> rb_items q2 = rb_items q1 \<and> rb_items (ring q3) = rb_items q1"
proof -
  let ?m = "mkMPMC scan storage"
  have v: "rb_inv ?m" "rb_items ?m = []" "rb_cap ?m = length storage"
    using mkMPMC_valid [OF assms] by (auto simp: mkMPMC_def)
  then have h: "hr_inv \<lparr>ring = ?m, logicalCount = 0\<rparr>" by (simp add: hr_inv_def)
  show ?thesis
    using mpmc_wait.run_refines [OF v(1), of ops] mpmc_try.run_refines [OF v(1), of ops]
      hr_queue.run_refines [OF h, of maxSpins ops] v by fastforce
qed

theorem ring_buffer_is_fifo_witness:
  "\<exists>q. fifo_run tryWrite tryRead [Put 1, Put 2, Put 3, Get, Put 4, Get, Get, Get] (mkMPMC True [0, 0 :: nat]) =
     Inr (q, [PutResult True, PutResult True, PutResult False, GetResult (Some 1), PutResult True,
              GetResult (Some 2), GetResult (Some 4), GetResult None])"
proof -
  have "[0, 0 :: nat] \<noteq> []" by simp
  from ring_buffer_is_fifo [OF this, of "[Put 1, Put 2, Put 3, Get, Put 4, Get, Get, Get]" True 5]
  show ?thesis by auto
qed

text \<open>
  The bulk operations, on a quiescent buffer: the all-or-nothing writes append the whole batch
  or change nothing, the best-effort write appends as much as fits, the reads take the oldest items;
  what a write callback makes of the slots is what later reads deliver.
\<close>

lemma ring_bulk_operations:
  assumes "rb_inv s"
  shows "(n \<le> rb_cap s - length (rb_items s) \<longrightarrow>
      (\<exists>s'. bulkWrite n f s = Inr (s', True) \<and> rb_inv s' \<and> rb_items s' = rb_items s @ written f s n) \<and>
      (\<exists>s'. tryBulkWrite n f s = Inr (s', True) \<and> rb_inv s' \<and> rb_items s' = rb_items s @ written f s n)) \<and>
    (\<not> n \<le> rb_cap s - length (rb_items s) \<longrightarrow> bulkWrite n f s = Inr (s, False) \<and> tryBulkWrite n f s = Inr (s, False)) \<and>
    (\<exists>s'. bulkWriteBestEffort n f s = Inr (s', min n (rb_cap s - length (rb_items s))) \<and> rb_inv s' \<and>
      rb_items s' = rb_items s @ written f s (min n (rb_cap s - length (rb_items s)))) \<and>
    (if n \<le> length (rb_items s)
     then \<exists>s'. bulkRead n s = Inr (s', Some (take n (rb_items s))) \<and> rb_inv s' \<and> rb_items s' = drop n (rb_items s)
     else bulkRead n s = Inr (s, None)) \<and>
    (\<exists>s'. bulkReadBestEffort n s = Inr (s', take n (rb_items s)) \<and> rb_inv s' \<and> rb_items s' = drop n (rb_items s)) \<and>
    availableToWrite s = rb_cap s - length (rb_items s) \<and> availableToRead s = length (rb_items s) \<and>
    rb_inv (rb_clear s) \<and> rb_items (rb_clear s) = []"
proof -
  have "rb_inv (rb_clear s)" "rb_items (rb_clear s) = []"
    using assms gens_ok_mono by (auto simp: rb_inv_def rb_clear_def rb_items_def)
  then show ?thesis
    using bulk_writes [OF assms, of n f] bulk_reads [OF assms, of n] rb_room [OF assms]
    by (auto simp: bulkRead_def availableToWrite_def availableToRead_def)
qed

text \<open>
  the spin limit of the counted wrapper does not limit its best-effort read. When the count is
  ahead of the ring (a writer has counted its items and not yet published them), every timed-out
  drain puts its claim back and the outer loop claims it again: the call does not return until the
  writer publishes, for whatever \<open>maxSpins\<close>.
\<close>

lemma hr_bulkReadBestEffort_ignores_spin_limit:
  assumes "rb_inv (ring s)" and "rb_items (ring s) = []" and "0 < logicalCount s" and "0 < maxCount"
  shows "hr_readLoop turns maxCount maxSpins s = Inl Diverges"
proof (induction turns)
  case 0
  then show ?case using assms(4) by simp
next
  case (Suc turns)
  let ?m = "min (logicalCount s) maxCount"
  have "\<exists>r. drainClaimed ?m maxSpins (s\<lparr>logicalCount := logicalCount s - ?m\<rparr>) = Inr (r, []) \<and> r = s"
  proof -
    have "drainClaimed ?m maxSpins (s\<lparr>logicalCount := logicalCount s - ?m\<rparr>) =
        Inr (s\<lparr>logicalCount := logicalCount s - ?m + ?m\<rparr>, [])"
      unfolding drainClaimed_def
      using drain_spins [of "s\<lparr>logicalCount := logicalCount s - ?m\<rparr>" ?m 0 maxSpins "(?m + 1) * (maxSpins + 2)"] assms
      by simp
    then show ?thesis by simp
  qed
  then show ?case using Suc assms(3,4) by (simp add: Let_def)
qed

end
