(* ===== verification/Ring_Buffer_Conc.thy ===== *)
theory Ring_Buffer_Conc
  imports Ring_Buffer_Fifo
begin

text \<open>
  The ring buffer under concurrency, with the waiting completion heads (\<open>ScanOnComplete = false\<close>).
  Any number of threads run bulk writes (waiting or non-blocking) and bulk reads; a step is one
  access to shared memory: a load of a head, a compare-exchange, one slot. The ghost \<open>log\<close> is the
  sequence of values in the order in which the writers' claims succeeded, \<open>outs\<close> the batches
  readers received, in the order in which they completed.

  With one write discipline only, reads deliver the log, in order and once. With both at the same
  time a non-blocking write can overwrite an item nobody has read.
\<close>

section \<open>Threads\<close>

text \<open>
  \<open>WLoad\<close> to \<open>WCas\<close> is the claim loop (\<open>claimWriteOptimistic\<close> when waiting, else
  \<open>claimWriteConservative\<close>), \<open>WFill\<close> the slot loop with i slots written, \<open>WDone\<close> the call of
  \<open>advanceCompletionHead\<close>; the same for readers.
\<close>

datatype 'a pc =
    Idle
  | WLoad bool "'a list" | WCheck bool "'a list" nat | WCas bool "'a list" nat
  | WFill bool "'a list" nat nat | WDone "'a list" nat
  | RLoad nat | RCheck nat nat | RCas nat nat | RFill nat nat "'a list" | RDone nat "'a list"

record 'a ring_sys =
  slots :: "nat \<Rightarrow> 'a"
  wHead :: nat
  wtHead :: nat
  rgHead :: nat
  rHead :: nat
  threads :: "nat \<Rightarrow> 'a pc"
  log :: "'a list"
  outs :: "'a list list"

definition goto :: "nat \<Rightarrow> 'a pc \<Rightarrow> 'a ring_sys \<Rightarrow> 'a ring_sys" where
  "goto t p s = s\<lparr>threads := (threads s)(t := p)\<rparr>"

text \<open>\<open>D\<close> is the set of write disciplines in use: \<open>True\<close> waits, \<open>False\<close> does not block.\<close>

inductive ring_step :: "bool set \<Rightarrow> nat \<Rightarrow> 'a ring_sys \<Rightarrow> 'a ring_sys \<Rightarrow> bool" for D cap where
  start_write: "threads s t = Idle \<Longrightarrow> w \<in> D \<Longrightarrow> ring_step D cap s (goto t (WLoad w vs) s)"
| load_write: "threads s t = WLoad w vs \<Longrightarrow> ring_step D cap s (goto t (WCheck w vs (wHead s)) s)"
| check_write: "threads s t = WCheck w vs claimed \<Longrightarrow>
    ring_step D cap s
      (if length vs > sub_size cap (sub_size claimed (if w then rgHead s else rHead s))
       then goto t Idle s else goto t (WCas w vs claimed) s)"
| cas_write: "threads s t = WCas w vs claimed \<Longrightarrow>
    ring_step D cap s
      (if wHead s = claimed
       then goto t (WFill w vs claimed 0) (s\<lparr>wHead := claimed + length vs, log := log s @ vs\<rparr>)
       else goto t (WLoad w vs) s)"
| fill_slot: "threads s t = WFill w vs claimed i \<Longrightarrow> i < length vs \<Longrightarrow>
    (w \<Longrightarrow> claimed + i < cap \<or> \<not> rHead s < claimed + i - cap + 1) \<Longrightarrow>
    ring_step D cap s
      (goto t (WFill w vs claimed (i + 1)) (s\<lparr>slots := (slots s)((claimed + i) mod cap := vs ! i)\<rparr>))"
| fill_end: "threads s t = WFill w vs claimed i \<Longrightarrow> i = length vs \<Longrightarrow>
    ring_step D cap s (goto t (WDone vs claimed) s)"
| publish: "threads s t = WDone vs claimed \<Longrightarrow> wtHead s = claimed \<Longrightarrow>
    ring_step D cap s (goto t Idle (s\<lparr>wtHead := claimed + length vs\<rparr>))"
| publish_past: "threads s t = WDone vs claimed \<Longrightarrow> wtHead s \<noteq> claimed \<Longrightarrow> wtHead s \<ge> claimed + length vs \<Longrightarrow>
    ring_step D cap s (goto t Idle s)"
| start_read: "threads s t = Idle \<Longrightarrow> ring_step D cap s (goto t (RLoad n) s)"
| load_read: "threads s t = RLoad n \<Longrightarrow> ring_step D cap s (goto t (RCheck n (rgHead s)) s)"
| check_read: "threads s t = RCheck n claimed \<Longrightarrow>
    ring_step D cap s (if n > sub_size (wtHead s) claimed then goto t Idle s else goto t (RCas n claimed) s)"
| cas_read: "threads s t = RCas n claimed \<Longrightarrow>
    ring_step D cap s
      (if rgHead s = claimed then goto t (RFill n claimed []) (s\<lparr>rgHead := claimed + n\<rparr>) else goto t (RLoad n) s)"
| read_slot: "threads s t = RFill n claimed xs \<Longrightarrow> length xs < n \<Longrightarrow>
    ring_step D cap s (goto t (RFill n claimed (xs @ [slots s ((claimed + length xs) mod cap)])) s)"
| read_end: "threads s t = RFill n claimed xs \<Longrightarrow> length xs = n \<Longrightarrow>
    ring_step D cap s (goto t (RDone claimed xs) s)"
| release_read: "threads s t = RDone claimed xs \<Longrightarrow> rHead s = claimed \<Longrightarrow>
    ring_step D cap s (goto t Idle (s\<lparr>rHead := claimed + length xs, outs := outs s @ [xs]\<rparr>))"
| release_past: "threads s t = RDone claimed xs \<Longrightarrow> rHead s \<noteq> claimed \<Longrightarrow> rHead s \<ge> claimed + length xs \<Longrightarrow>
    ring_step D cap s (goto t Idle (s\<lparr>outs := outs s @ [xs]\<rparr>))"

definition ring_start :: "(nat \<Rightarrow> 'a) \<Rightarrow> 'a ring_sys" where
  "ring_start mem = \<lparr>slots = mem, wHead = 0, wtHead = 0, rgHead = 0, rHead = 0, threads = (\<lambda>_. Idle), log = [], outs = []\<rparr>"

inductive ring_reachable :: "bool set \<Rightarrow> nat \<Rightarrow> (nat \<Rightarrow> 'a) \<Rightarrow> 'a ring_sys \<Rightarrow> bool" for D cap mem where
  start: "ring_reachable D cap mem (ring_start mem)"
| step: "ring_reachable D cap mem s \<Longrightarrow> ring_step D cap s s' \<Longrightarrow> ring_reachable D cap mem s'"

section \<open>Invariant\<close>

fun wspan :: "'a pc \<Rightarrow> nat set" where
  "wspan (WFill w vs c i) = {c..<c + length vs}"
| "wspan (WDone vs c) = {c..<c + length vs}"
| "wspan _ = {}"

fun wdone :: "'a pc \<Rightarrow> nat set" where
  "wdone (WFill w vs c i) = {c..<c + i}"
| "wdone (WDone vs c) = {c..<c + length vs}"
| "wdone _ = {}"

fun rspan :: "'a pc \<Rightarrow> nat set" where
  "rspan (RFill n c xs) = {c..<c + n}"
| "rspan (RDone c xs) = {c..<c + length xs}"
| "rspan _ = {}"

text \<open>What a thread's program counter says about the shared state.\<close>

fun pc_ok :: "bool set \<Rightarrow> nat \<Rightarrow> 'a ring_sys \<Rightarrow> 'a pc \<Rightarrow> bool" where
  "pc_ok D cap s Idle \<longleftrightarrow> True"
| "pc_ok D cap s (WLoad w vs) \<longleftrightarrow> w \<in> D"
| "pc_ok D cap s (WCheck w vs c) \<longleftrightarrow> w \<in> D \<and> c \<le> wHead s"
| "pc_ok D cap s (WCas w vs c) \<longleftrightarrow> w \<in> D \<and> c \<le> wHead s \<and> (\<not> w \<and> c = wHead s \<longrightarrow> c + length vs \<le> rHead s + cap)"
| "pc_ok D cap s (WFill w vs c i) \<longleftrightarrow> w \<in> D \<and> i \<le> length vs \<and> take (length vs) (drop c (log s)) = vs"
| "pc_ok D cap s (WDone vs c) \<longleftrightarrow> take (length vs) (drop c (log s)) = vs"
| "pc_ok D cap s (RLoad n) \<longleftrightarrow> True"
| "pc_ok D cap s (RCheck n c) \<longleftrightarrow> c \<le> rgHead s"
| "pc_ok D cap s (RCas n c) \<longleftrightarrow> c \<le> rgHead s \<and> (c = rgHead s \<longrightarrow> c + n \<le> wtHead s)"
| "pc_ok D cap s (RFill n c xs) \<longleftrightarrow> length xs \<le> n \<and> c + n \<le> rgHead s \<and> xs = take (length xs) (drop c (log s))"
| "pc_ok D cap s (RDone c xs) \<longleftrightarrow> xs = take (length xs) (drop c (log s))"

definition heads_ok :: "bool set \<Rightarrow> nat \<Rightarrow> 'a ring_sys \<Rightarrow> bool" where
  "heads_ok D cap s \<longleftrightarrow> 0 < cap \<and> rHead s \<le> rgHead s \<and> rgHead s \<le> wtHead s \<and> wtHead s \<le> wHead s \<and>
     wHead s = length (log s) \<and> wtHead s \<le> rHead s + cap \<and> (False \<in> D \<longrightarrow> wHead s \<le> rHead s + cap) \<and>
     concat (outs s) = take (rHead s) (log s)"

definition spans_ok :: "'a ring_sys \<Rightarrow> bool" where
  "spans_ok s \<longleftrightarrow>
     (\<forall>t. wspan (threads s t) \<subseteq> {wtHead s..<wHead s}) \<and> (\<forall>t. rspan (threads s t) \<subseteq> {rHead s..<rgHead s}) \<and>
     (\<forall>t t'. t \<noteq> t' \<longrightarrow> wspan (threads s t) \<inter> wspan (threads s t') = {} \<and> rspan (threads s t) \<inter> rspan (threads s t') = {})"

definition slots_ok :: "nat \<Rightarrow> 'a ring_sys \<Rightarrow> bool" where
  "slots_ok cap s \<longleftrightarrow>
     (\<forall>p. rHead s \<le> p \<and> p < wtHead s \<longrightarrow> slots s (p mod cap) = log s ! p) \<and>
     (\<forall>t p. p \<in> wdone (threads s t) \<longrightarrow> p < rHead s + cap \<and> slots s (p mod cap) = log s ! p)"

definition ring_inv :: "bool set \<Rightarrow> nat \<Rightarrow> 'a ring_sys \<Rightarrow> bool" where
  "ring_inv D cap s \<longleftrightarrow> heads_ok D cap s \<and> spans_ok s \<and> slots_ok cap s \<and> (\<forall>t. pc_ok D cap s (threads s t))"

lemma goto_simps [simp]:
  "threads (goto t p s) = (threads s)(t := p)" "slots (goto t p s) = slots s" "wHead (goto t p s) = wHead s"
  "wtHead (goto t p s) = wtHead s" "rgHead (goto t p s) = rgHead s" "rHead (goto t p s) = rHead s"
  "log (goto t p s) = log s" "outs (goto t p s) = outs s"
  by (simp_all add: goto_def)

lemma take_drop_append: "c + n \<le> length l \<or> n = 0 \<Longrightarrow> take n (drop c (l @ v)) = take n (drop c l)"
  by (cases "n = 0") auto

lemma take_drop_bound: "xs = take (length xs) (drop c l) \<Longrightarrow> c + length xs \<le> length l \<or> length xs = 0"
  by (metis add.commute diff_le_self le_add_diff_inverse2 length_drop length_take less_diff_conv2 linorder_not_le min.absorb_iff1 min.cobounded2 nat_le_linear diff_is_0_eq' le_trans)

text \<open>Program counters stay valid while the heads move up and the log grows.\<close>

lemma pc_ok_mono:
  assumes "pc_ok D cap s p" "wHead s \<le> wHead s'" "wtHead s \<le> wtHead s'" "rgHead s \<le> rgHead s'" "rHead s \<le> rHead s'"
    and "log s' = log s @ v"
  shows "pc_ok D cap s' p"
proof -
  have L: "take (length xs) (drop c (log s')) = xs" if "take (length xs) (drop c (log s)) = xs" for xs c
    using take_drop_append [of c "length xs" "log s" v] take_drop_bound [of xs c "log s"] that assms(6) by auto
  show ?thesis
    using assms(1-5) L by (cases p) (auto dest: sym)
qed

lemma wdone_wspan: "pc_ok D cap s p \<Longrightarrow> wdone p \<subseteq> wspan p"
  by (cases p) auto

text \<open>A step that moves only a program counter, and gives up positions at most.\<close>

lemma inv_goto:
  assumes "ring_inv D cap s" "pc_ok D cap s p" "wspan p \<subseteq> wspan (threads s t)" "rspan p \<subseteq> rspan (threads s t)"
    and "wdone p \<subseteq> wdone (threads s t)"
  shows "ring_inv D cap (goto t p s)"
proof -
  have pm: "pc_ok D cap (goto t p s) q \<longleftrightarrow> pc_ok D cap s q" for q by (cases q) simp_all
  have "heads_ok D cap (goto t p s)" using assms(1) by (auto simp: ring_inv_def heads_ok_def)
  moreover have "spans_ok (goto t p s)"
  proof -
    have "wspan (threads (goto t p s) u) \<subseteq> wspan (threads s u)" "rspan (threads (goto t p s) u) \<subseteq> rspan (threads s u)" for u
      using assms(3,4) by auto
    then show ?thesis using assms(1) unfolding ring_inv_def spans_ok_def by (simp only: goto_simps(3-6)) blast
  qed
  moreover have "slots_ok cap (goto t p s)"
  proof -
    have "wdone (threads (goto t p s) u) \<subseteq> wdone (threads s u)" for u using assms(5) by auto
    then show ?thesis using assms(1) unfolding ring_inv_def slots_ok_def by (simp only: goto_simps(2,4,6,7)) blast
  qed
  ultimately show ?thesis using assms(1,2) pm by (auto simp: ring_inv_def)
qed

lemma ring_invD:
  assumes "ring_inv D cap s"
  shows "heads_ok D cap s" "spans_ok s" "slots_ok cap s" "\<And>t. pc_ok D cap s (threads s t)"
  using assms by (auto simp: ring_inv_def)

lemma wspan_in: "spans_ok s \<Longrightarrow> x \<in> wspan (threads s t) \<Longrightarrow> wtHead s \<le> x \<and> x < wHead s"
  unfolding spans_ok_def by (meson atLeastLessThan_iff subsetD)

lemma rspan_in: "spans_ok s \<Longrightarrow> x \<in> rspan (threads s t) \<Longrightarrow> rHead s \<le> x \<and> x < rgHead s"
  unfolding spans_ok_def by (meson atLeastLessThan_iff subsetD)

lemma span_disjoint:
  "spans_ok s \<Longrightarrow> t \<noteq> t' \<Longrightarrow> x \<in> wspan (threads s t) \<Longrightarrow> x \<notin> wspan (threads s t')"
  "spans_ok s \<Longrightarrow> t \<noteq> t' \<Longrightarrow> x \<in> rspan (threads s t) \<Longrightarrow> x \<notin> rspan (threads s t')"
  unfolding spans_ok_def by blast+

section \<open>Preservation\<close>

lemma inv_cas_write:
  assumes inv: "ring_inv D cap s" and t: "threads s t = WCas w vs (wHead s)" and D: "D \<subseteq> {w}"
  shows "ring_inv D cap (goto t (WFill w vs (wHead s) 0) (s\<lparr>wHead := wHead s + length vs, log := log s @ vs\<rparr>))"
    (is "ring_inv D cap ?s'")
proof -
  note I = ring_invD [OF inv]
  have H: "heads_ok D cap s" by (rule I(1))
  have room: "\<not> w \<longrightarrow> wHead s + length vs \<le> rHead s + cap" and w: "w \<in> D" using I(4) [of t] t by auto
  have heads: "heads_ok D cap ?s'" using H room D by (auto simp: heads_ok_def)
  have len: "wHead s = length (log s)" "wtHead s \<le> wHead s" using H by (auto simp: heads_ok_def)
  have sp: "wspan (threads s u) \<subseteq> {wtHead s..<wHead s}" for u using I(2) by (auto simp: spans_ok_def)
  have fresh: "x < wHead s" if "x \<in> wspan (threads s u)" for x u using sp [of u] that by auto
  have dis: "wspan (threads s u) \<inter> wspan (threads s u') = {}" if "u \<noteq> u'" for u u'
    using I(2) that unfolding spans_ok_def by blast
  have "wspan (threads ?s' u) \<inter> wspan (threads ?s' u') = {}" if "u \<noteq> u'" for u u'
    using that dis [OF that] by (cases "u = t"; cases "u' = t") (auto dest: fresh)
  moreover have "rspan (threads ?s' u) \<inter> rspan (threads ?s' u') = {}" if "u \<noteq> u'" for u u'
    using that I(2) unfolding spans_ok_def by (cases "u = t"; cases "u' = t") auto
  moreover have "wspan (threads ?s' u) \<subseteq> {wtHead s..<wHead s + length vs}" for u
    using sp [of u] len by (cases "u = t") auto
  moreover have "rspan (threads ?s' u) \<subseteq> {rHead s..<rgHead s}" for u
    using I(2) by (cases "u = t") (auto simp: spans_ok_def)
  ultimately have "spans_ok ?s'" by (simp add: spans_ok_def)
  moreover have "slots_ok cap ?s'"
  proof -
    have "p < length (log s)" if "p \<in> wdone (threads s u)" for p u
      using that sp [of u] wdone_wspan [OF I(4) [of u]] len by fastforce
    then show ?thesis using I(3) len by (auto simp: slots_ok_def nth_append)
  qed
  moreover have "pc_ok D cap ?s' (threads ?s' u)" for u
  proof (cases "u = t")
    case True
    then show ?thesis using w len by simp
  next
    case False
    then show ?thesis using pc_ok_mono [OF I(4) [of u], of ?s' vs] by simp
  qed
  ultimately show ?thesis using heads by (auto simp: ring_inv_def)
qed

lemma inv_fill_slot:
  assumes inv: "ring_inv D cap s" and t: "threads s t = WFill w vs c i" and i: "i < length vs" and D: "D \<subseteq> {w}"
    and wait: "w \<Longrightarrow> c + i < cap \<or> \<not> rHead s < c + i - cap + 1"
  shows "ring_inv D cap (goto t (WFill w vs c (i + 1)) (s\<lparr>slots := (slots s)((c + i) mod cap := vs ! i)\<rparr>))"
    (is "ring_inv D cap ?s'")
proof -
  note I = ring_invD [OF inv]
  have sp: "wspan (threads s u) \<subseteq> {wtHead s..<wHead s}" for u using I(2) by (auto simp: spans_ok_def)
  have own: "c + length vs \<le> wHead s" "wtHead s \<le> c"
    using sp [of t] t i by auto
  have pcs: "w \<in> D" "take (length vs) (drop c (log s)) = vs" using I(4) [of t] t by auto
  have H: "0 < cap" "rHead s \<le> wtHead s" "wHead s = length (log s)" "wtHead s \<le> rHead s + cap"
    "False \<in> D \<Longrightarrow> wHead s \<le> rHead s + cap" using I(1) by (auto simp: heads_ok_def)
  have val: "log s ! (c + i) = vs ! i"
  proof -
    have "vs ! i = take (length vs) (drop c (log s)) ! i" using pcs(2) by simp
    then show ?thesis using i own H(3) by simp
  qed
  have q: "c + i < rHead s + cap"
  proof (cases w)
    case True
    then show ?thesis using wait by linarith
  next
    case False
    then show ?thesis using H(5) pcs(1) own i by auto
  qed
  have apart: "p mod cap \<noteq> (c + i) mod cap" if "p \<noteq> c + i" "rHead s \<le> p" "p < rHead s + cap" for p
    using mod_slot_distinct [of p "c + i" cap] mod_slot_distinct [of "c + i" p cap] that q own(2) H(2)
    by (cases "p < c + i") (auto dest: not_sym)
  have wd: "p \<noteq> c + i \<and> rHead s \<le> p \<and> p < rHead s + cap \<and> slots s (p mod cap) = log s ! p"
    if p: "p \<in> wdone (threads s u)" "u \<noteq> t \<or> p < c + i" for p u
  proof -
    have ps: "p \<in> wspan (threads s u)" using p(1) wdone_wspan [OF I(4)] by blast
    have "p \<noteq> c + i" if "u \<noteq> t"
    proof
      assume "p = c + i"
      then have "p \<in> wspan (threads s t)" using t i by simp
      then show False using ps that I(2) unfolding spans_ok_def by blast
    qed
    moreover have "rHead s \<le> p" using ps sp [of u] H(2) by fastforce
    ultimately show ?thesis using p I(3) by (auto simp: slots_ok_def)
  qed
  have "heads_ok D cap ?s'" using I(1) by (auto simp: heads_ok_def)
  moreover have "spans_ok ?s'"
  proof -
    have "wspan (threads ?s' u) = wspan (threads s u)" "rspan (threads ?s' u) = rspan (threads s u)" for u using t by auto
    then show ?thesis using I(2) unfolding spans_ok_def by simp
  qed
  moreover have "slots_ok cap ?s'"
    unfolding slots_ok_def
  proof (intro conjI allI impI)
    fix p assume "rHead ?s' \<le> p \<and> p < wtHead ?s'"
    then show "slots ?s' (p mod cap) = log ?s' ! p"
      using apart [of p] own(2) H(4) I(3) by (simp add: slots_ok_def)
  next
    fix u p assume p: "p \<in> wdone (threads ?s' u)"
    show "p < rHead ?s' + cap" using p wd [of p u] wd [of p t] q t by (cases "u = t") (auto simp: less_Suc_eq)
    show "slots ?s' (p mod cap) = log ?s' ! p"
    proof (cases "p = c + i")
      case True
      then show ?thesis using val by simp
    next
      case False
      then have "p \<in> wdone (threads s u) \<and> (u \<noteq> t \<or> p < c + i)" using p t by (cases "u = t") auto
      then show ?thesis using wd [of p u] apart [of p] by simp
    qed
  qed
  moreover have "pc_ok D cap ?s' (threads ?s' u)" for u
    using pc_ok_mono [OF I(4) [of u], of ?s' "[]"] I(4) [of t] t i by (cases "u = t") auto
  ultimately show ?thesis by (auto simp: ring_inv_def)
qed

lemma inv_publish:
  assumes inv: "ring_inv D cap s" and t: "threads s t = WDone vs (wtHead s)"
  shows "ring_inv D cap (goto t Idle (s\<lparr>wtHead := wtHead s + length vs\<rparr>))" (is "ring_inv D cap ?s'")
proof -
  note I = ring_invD [OF inv]
  have sp: "wspan (threads s u) \<subseteq> {wtHead s..<wHead s}" for u using I(2) by (auto simp: spans_ok_def)
  have own: "wtHead s + length vs \<le> wHead s"
    using sp [of t] t I(1) by (cases "vs = []") (auto simp: heads_ok_def)
  have dn: "p < rHead s + cap \<and> slots s (p mod cap) = log s ! p" if "wtHead s \<le> p" "p < wtHead s + length vs" for p
    using I(3) t that unfolding slots_ok_def by (metis atLeastLessThan_iff wdone.simps(2))
  have bound: "wtHead s + length vs \<le> rHead s + cap"
  proof (cases "vs = []")
    case True
    then show ?thesis using I(1) by (simp add: heads_ok_def)
  next
    case False
    then have "wtHead s + length vs - 1 < rHead s + cap" using dn [of "wtHead s + length vs - 1"] by (cases vs) auto
    then show ?thesis using False by simp
  qed
  have "heads_ok D cap ?s'" using I(1) own bound by (auto simp: heads_ok_def)
  moreover have "spans_ok ?s'"
  proof -
    have "wspan (threads ?s' u) \<subseteq> {wtHead s + length vs..<wHead s}" for u
    proof (cases "u = t")
      case False
      have "wtHead s + length vs \<le> x \<and> x < wHead s" if "x \<in> wspan (threads s u)" for x
        using wspan_in [OF I(2) that] span_disjoint(1) [OF I(2) False that] t by auto
      then show ?thesis using False by auto
    qed simp
    moreover have "rspan (threads ?s' u) \<subseteq> {rHead s..<rgHead s}" for u
      by (cases "u = t") (auto dest!: rspan_in [OF I(2)])
    moreover have "wspan (threads ?s' u) \<inter> wspan (threads ?s' u') = {} \<and> rspan (threads ?s' u) \<inter> rspan (threads ?s' u') = {}"
      if "u \<noteq> u'" for u u'
      using span_disjoint [OF I(2) that] by (cases "u = t"; cases "u' = t") auto
    ultimately show ?thesis by (simp add: spans_ok_def)
  qed
  moreover have "slots_ok cap ?s'"
  proof -
    have "wdone (threads ?s' u) \<subseteq> wdone (threads s u)" for u by auto
    moreover have "slots s (p mod cap) = log s ! p" if "rHead s \<le> p" "p < wtHead s + length vs" for p
      using that dn [of p] I(3) by (cases "p < wtHead s") (auto simp: slots_ok_def)
    ultimately show ?thesis using I(3) unfolding slots_ok_def by (simp (no_asm_use)) blast
  qed
  moreover have "pc_ok D cap ?s' (threads ?s' u)" for u
    using pc_ok_mono [OF I(4) [of u], of ?s' "[]"] by (cases "u = t") auto
  ultimately show ?thesis by (auto simp: ring_inv_def)
qed

lemma inv_cas_read:
  assumes inv: "ring_inv D cap s" and t: "threads s t = RCas n (rgHead s)"
  shows "ring_inv D cap (goto t (RFill n (rgHead s) []) (s\<lparr>rgHead := rgHead s + n\<rparr>))" (is "ring_inv D cap ?s'")
proof -
  note I = ring_invD [OF inv]
  have n: "rgHead s + n \<le> wtHead s" using I(4) [of t] t by auto
  have sp: "rspan (threads s u) \<subseteq> {rHead s..<rgHead s}" for u using I(2) by (auto simp: spans_ok_def)
  have fresh: "x < rgHead s" if "x \<in> rspan (threads s u)" for x u using sp [of u] that by auto
  have dis: "rspan (threads s u) \<inter> rspan (threads s u') = {}" "wspan (threads s u) \<inter> wspan (threads s u') = {}" if "u \<noteq> u'" for u u'
    using I(2) that unfolding spans_ok_def by blast+
  have H: "rHead s \<le> rgHead s" using I(1) by (simp add: heads_ok_def)
  have "heads_ok D cap ?s'" using I(1) n by (auto simp: heads_ok_def)
  moreover have "spans_ok ?s'"
  proof -
    have "rspan (threads ?s' u) \<inter> rspan (threads ?s' u') = {}" if "u \<noteq> u'" for u u'
      using that dis(1) [OF that] by (cases "u = t"; cases "u' = t") (auto dest: fresh)
    moreover have "rspan (threads ?s' u) \<subseteq> {rHead s..<rgHead s + n}" for u
      using H rspan_in [OF I(2), of _ u] by (cases "u = t") (auto dest!: rspan_in [OF I(2)])
    moreover have "wspan (threads ?s' u) = wspan (threads s u)" for u using t by auto
    ultimately show ?thesis using I(2) unfolding spans_ok_def by simp
  qed
  moreover have "slots_ok cap ?s'" using I(3) by (auto simp: slots_ok_def)
  moreover have "pc_ok D cap ?s' (threads ?s' u)" for u
    using pc_ok_mono [OF I(4) [of u], of ?s' "[]"] by (cases "u = t") auto
  ultimately show ?thesis by (auto simp: ring_inv_def)
qed

lemma inv_read_slot:
  assumes inv: "ring_inv D cap s" and t: "threads s t = RFill n c xs" and l: "length xs < n"
  shows "ring_inv D cap (goto t (RFill n c (xs @ [slots s ((c + length xs) mod cap)])) s)"
proof (rule inv_goto [OF inv])
  note I = ring_invD [OF inv]
  have "c + length xs \<in> rspan (threads s t)" using t l by simp
  then have p: "rHead s \<le> c + length xs" "c + length xs < wtHead s" "c + length xs < length (log s)"
    using I(1) rspan_in [OF I(2)] unfolding heads_ok_def by fastforce+
  then have "slots s ((c + length xs) mod cap) = log s ! (c + length xs)" using I(3) by (simp add: slots_ok_def)
  moreover have "take (length xs + 1) (drop c (log s)) = take (length xs) (drop c (log s)) @ [log s ! (c + length xs)]"
    using p(3) by (simp add: take_Suc_conv_app_nth)
  moreover have "xs = take (length xs) (drop c (log s))" using I(4) [of t] t by simp
  ultimately show "pc_ok D cap s (RFill n c (xs @ [slots s ((c + length xs) mod cap)]))" using l I(4) [of t] t by simp
qed (use t in auto)

lemma inv_release_read:
  assumes inv: "ring_inv D cap s" and t: "threads s t = RDone (rHead s) xs"
  shows "ring_inv D cap (goto t Idle (s\<lparr>rHead := rHead s + length xs, outs := outs s @ [xs]\<rparr>))" (is "ring_inv D cap ?s'")
proof -
  note I = ring_invD [OF inv]
  have sp: "rspan (threads s u) \<subseteq> {rHead s..<rgHead s}" for u using I(2) by (auto simp: spans_ok_def)
  have own: "rHead s + length xs \<le> rgHead s"
    using sp [of t] t I(1) by (cases "xs = []") (auto simp: heads_ok_def)
  have xs: "xs = take (length xs) (drop (rHead s) (log s))" using I(4) [of t] t by simp
  have "take (rHead s + length xs) (log s) = take (rHead s) (log s) @ xs" using xs by (simp add: take_add)
  then have "heads_ok D cap ?s'" using I(1) own by (auto simp: heads_ok_def)
  moreover have "spans_ok ?s'"
  proof -
    have "rspan (threads ?s' u) \<subseteq> {rHead s + length xs..<rgHead s}" for u
    proof (cases "u = t")
      case False
      have "rHead s + length xs \<le> x \<and> x < rgHead s" if "x \<in> rspan (threads s u)" for x
        using rspan_in [OF I(2) that] span_disjoint(2) [OF I(2) False that] t by auto
      then show ?thesis using False by auto
    qed simp
    moreover have "wspan (threads ?s' u) \<subseteq> {wtHead s..<wHead s}" for u
      by (cases "u = t") (auto dest!: wspan_in [OF I(2)])
    moreover have "wspan (threads ?s' u) \<inter> wspan (threads ?s' u') = {} \<and> rspan (threads ?s' u) \<inter> rspan (threads ?s' u') = {}"
      if "u \<noteq> u'" for u u'
      using span_disjoint [OF I(2) that] by (cases "u = t"; cases "u' = t") auto
    ultimately show ?thesis by (simp add: spans_ok_def)
  qed
  moreover have "slots_ok cap ?s'"
  proof -
    have "wdone (threads ?s' u) = wdone (threads s u)" for u using t by auto
    then show ?thesis using I(3) unfolding slots_ok_def by (simp (no_asm_use)) (meson add_leD1 le_add1 less_le_trans add_le_mono1)
  qed
  moreover have "pc_ok D cap ?s' (threads ?s' u)" for u
    using pc_ok_mono [OF I(4) [of u], of ?s' "[]"] by (cases "u = t") auto
  ultimately show ?thesis by (auto simp: ring_inv_def)
qed

lemma inv_release_past:
  assumes inv: "ring_inv D cap s" and t: "threads s t = RDone c xs" and c: "rHead s \<noteq> c" "rHead s \<ge> c + length xs"
  shows "ring_inv D cap (goto t Idle (s\<lparr>outs := outs s @ [xs]\<rparr>))"
proof -
  note I = ring_invD [OF inv]
  have "{c..<c + length xs} \<subseteq> {rHead s..<rgHead s}" using I(2) t unfolding spans_ok_def by (metis rspan.simps(2))
  then have "xs = []" using c by (cases xs) auto
  then have "ring_inv D cap (s\<lparr>outs := outs s @ [xs]\<rparr>)"
  proof -
    have pm: "pc_ok D cap (s\<lparr>outs := outs s @ [xs]\<rparr>) q \<longleftrightarrow> pc_ok D cap s q" for q by (cases q) simp_all
    have "heads_ok D cap (s\<lparr>outs := outs s @ [xs]\<rparr>)" using I(1) \<open>xs = []\<close> by (auto simp: heads_ok_def)
    moreover have "spans_ok (s\<lparr>outs := outs s @ [xs]\<rparr>) \<longleftrightarrow> spans_ok s" "slots_ok cap (s\<lparr>outs := outs s @ [xs]\<rparr>) \<longleftrightarrow> slots_ok cap s"
      by (simp_all add: spans_ok_def slots_ok_def)
    ultimately show ?thesis using I pm by (simp add: ring_inv_def)
  qed
  then show ?thesis by (rule inv_goto) auto
qed

lemma one_discipline:
  assumes "D \<noteq> (UNIV :: bool set)" "w \<in> D"
  shows "D \<subseteq> {w}"
proof
  fix x assume x: "x \<in> D"
  show "x \<in> {w}"
  proof (rule ccontr)
    assume "x \<notin> {w}"
    then have "y \<in> D" for y using x assms(2) by (cases "y = w") auto
    then show False using assms(1) by blast
  qed
qed

lemma ring_inv_step:
  assumes "ring_step D cap s s'" "ring_inv D cap s" "D \<noteq> UNIV"
  shows "ring_inv D cap s'"
  using assms
proof (cases rule: ring_step.cases)
  case (check_write t w vs claimed)
  note I = ring_invD [OF assms(2)]
  have "pc_ok D cap s (WCas w vs claimed)" if "\<not> length vs > sub_size cap (sub_size claimed (if w then rgHead s else rHead s))"
    using I(1) I(4) [of t] check_write(2) that by (auto simp: heads_ok_def)
  then show ?thesis unfolding check_write(1) by (auto intro!: inv_goto [OF assms(2)])
next
  case (cas_write t w vs claimed)
  have w: "D \<subseteq> {w}"
  proof -
    have "w \<in> D" using ring_invD(4) [OF assms(2), of t] cas_write(2) by simp
    then show ?thesis using one_discipline assms(3) by blast
  qed
  show ?thesis
  proof (cases "wHead s = claimed")
    case True
    then show ?thesis using inv_cas_write [OF assms(2) _ w, of t vs] cas_write by simp
  next
    case False
    then show ?thesis unfolding cas_write(1)
      using ring_invD(4) [OF assms(2), of t] cas_write(2) by (auto intro!: inv_goto [OF assms(2)])
  qed
next
  case (fill_slot t w vs claimed i)
  have w: "D \<subseteq> {w}"
  proof -
    have "w \<in> D" using ring_invD(4) [OF assms(2), of t] fill_slot(2) by simp
    then show ?thesis using one_discipline assms(3) by blast
  qed
  show ?thesis unfolding fill_slot(1) by (rule inv_fill_slot [OF assms(2) fill_slot(2,3) w fill_slot(4)])
next
  case (check_read t n claimed)
  note I = ring_invD [OF assms(2)]
  have "pc_ok D cap s (RCas n claimed)" if "\<not> n > sub_size (wtHead s) claimed"
    using I(1) I(4) [of t] check_read(2) that by (auto simp: heads_ok_def)
  then show ?thesis unfolding check_read(1) by (auto intro!: inv_goto [OF assms(2)])
next
  case (cas_read t n claimed)
  show ?thesis
  proof (cases "rgHead s = claimed")
    case True
    then show ?thesis using inv_cas_read [OF assms(2), of t n] cas_read by simp
  next
    case False
    then show ?thesis unfolding cas_read(1) by (auto intro!: inv_goto [OF assms(2)])
  qed
next
  case (read_slot t n claimed xs)
  then show ?thesis using inv_read_slot [OF assms(2)] by simp
next
  case (publish t vs claimed)
  then show ?thesis using inv_publish [OF assms(2), of t vs] by simp
next
  case (release_read t claimed xs)
  then show ?thesis using inv_release_read [OF assms(2), of t xs] by simp
next
  case (release_past t claimed xs)
  then show ?thesis using inv_release_past [OF assms(2)] by simp
next
  case (fill_end t w vs claimed i)
  then show ?thesis using ring_invD(4) [OF assms(2), of t] by (auto intro!: inv_goto [OF assms(2)])
next
  case (read_end t n claimed xs)
  then show ?thesis using ring_invD(4) [OF assms(2), of t] by (auto intro!: inv_goto [OF assms(2)])
next
  case (load_write t w vs)
  then show ?thesis using ring_invD(4) [OF assms(2), of t] by (auto intro!: inv_goto [OF assms(2)])
qed (auto intro!: inv_goto [OF assms(2)])

lemma ring_inv_start: "0 < cap \<Longrightarrow> ring_inv D cap (ring_start mem)"
  by (simp add: ring_inv_def ring_start_def heads_ok_def spans_ok_def slots_ok_def)

lemma ring_inv_reachable:
  assumes "ring_reachable D cap mem s" "0 < cap" "D \<noteq> UNIV"
  shows "ring_inv D cap s"
  using assms by (induction rule: ring_reachable.induct) (auto intro: ring_inv_start ring_inv_step)

section \<open>Running a schedule\<close>

datatype 'a act = StartWrite nat bool "'a list" | StartRead nat nat | Go nat

fun thread_step :: "nat \<Rightarrow> nat \<Rightarrow> 'a ring_sys \<Rightarrow> 'a ring_sys option" where
  "thread_step cap t s =
     (case threads s t of
        Idle \<Rightarrow> None
      | WLoad w vs \<Rightarrow> Some (goto t (WCheck w vs (wHead s)) s)
      | WCheck w vs c \<Rightarrow>
          Some (if length vs > sub_size cap (sub_size c (if w then rgHead s else rHead s))
                then goto t Idle s else goto t (WCas w vs c) s)
      | WCas w vs c \<Rightarrow>
          Some (if wHead s = c then goto t (WFill w vs c 0) (s\<lparr>wHead := c + length vs, log := log s @ vs\<rparr>)
                else goto t (WLoad w vs) s)
      | WFill w vs c i \<Rightarrow>
          if i < length vs then
            if \<not> w \<or> c + i < cap \<or> \<not> rHead s < c + i - cap + 1
            then Some (goto t (WFill w vs c (i + 1)) (s\<lparr>slots := (slots s)((c + i) mod cap := vs ! i)\<rparr>))
            else None
          else if i = length vs then Some (goto t (WDone vs c) s) else None
      | WDone vs c \<Rightarrow>
          if wtHead s = c then Some (goto t Idle (s\<lparr>wtHead := c + length vs\<rparr>))
          else if wtHead s \<ge> c + length vs then Some (goto t Idle s) else None
      | RLoad n \<Rightarrow> Some (goto t (RCheck n (rgHead s)) s)
      | RCheck n c \<Rightarrow> Some (if n > sub_size (wtHead s) c then goto t Idle s else goto t (RCas n c) s)
      | RCas n c \<Rightarrow>
          Some (if rgHead s = c then goto t (RFill n c []) (s\<lparr>rgHead := c + n\<rparr>) else goto t (RLoad n) s)
      | RFill n c xs \<Rightarrow>
          if length xs < n then Some (goto t (RFill n c (xs @ [slots s ((c + length xs) mod cap)])) s)
          else if length xs = n then Some (goto t (RDone c xs) s) else None
      | RDone c xs \<Rightarrow>
          if rHead s = c then Some (goto t Idle (s\<lparr>rHead := c + length xs, outs := outs s @ [xs]\<rparr>))
          else if rHead s \<ge> c + length xs then Some (goto t Idle (s\<lparr>outs := outs s @ [xs]\<rparr>)) else None)"

fun schedule :: "nat \<Rightarrow> 'a act list \<Rightarrow> 'a ring_sys \<Rightarrow> 'a ring_sys option" where
  "schedule cap [] s = Some s"
| "schedule cap (StartWrite t w vs # as) s =
     (if threads s t = Idle then schedule cap as (goto t (WLoad w vs) s) else None)"
| "schedule cap (StartRead t n # as) s =
     (if threads s t = Idle then schedule cap as (goto t (RLoad n) s) else None)"
| "schedule cap (Go t # as) s =
     (case thread_step cap t s of None \<Rightarrow> None | Some s' \<Rightarrow> schedule cap as s')"

lemma thread_step_sound: "thread_step cap t s = Some s' \<Longrightarrow> ring_step D cap s s'"
proof (cases "threads s t")
  case (WCheck w vs c)
  assume "thread_step cap t s = Some s'"
  then have e: "s' = (if length vs > sub_size cap (sub_size c (if w then rgHead s else rHead s))
      then goto t Idle s else goto t (WCas w vs c) s)" using WCheck by simp
  show ?thesis unfolding e by (rule ring_step.check_write [OF WCheck])
next
  case (WCas w vs c)
  assume "thread_step cap t s = Some s'"
  then have e: "s' = (if wHead s = c then goto t (WFill w vs c 0) (s\<lparr>wHead := c + length vs, log := log s @ vs\<rparr>)
      else goto t (WLoad w vs) s)" using WCas by simp
  show ?thesis unfolding e by (rule ring_step.cas_write [OF WCas])
next
  case (WFill w vs c i)
  assume "thread_step cap t s = Some s'"
  then consider (slot) "i < length vs" "\<not> w \<or> c + i < cap \<or> \<not> rHead s < c + i - cap + 1"
      "s' = goto t (WFill w vs c (i + 1)) (s\<lparr>slots := (slots s)((c + i) mod cap := vs ! i)\<rparr>)"
    | (full) "i = length vs" "s' = goto t (WDone vs c) s"
    using WFill by (auto split: if_splits)
  then show ?thesis
  proof cases
    case slot
    show ?thesis unfolding slot(3) by (rule ring_step.fill_slot [OF WFill slot(1)]) (use slot(2) in blast)
  next
    case full
    show ?thesis unfolding full(2) by (rule ring_step.fill_end [OF WFill full(1)])
  qed
next
  case (RCheck n c)
  assume "thread_step cap t s = Some s'"
  then have e: "s' = (if n > sub_size (wtHead s) c then goto t Idle s else goto t (RCas n c) s)" using RCheck by simp
  show ?thesis unfolding e by (rule ring_step.check_read [OF RCheck])
next
  case (RCas n c)
  assume "thread_step cap t s = Some s'"
  then have e: "s' = (if rgHead s = c then goto t (RFill n c []) (s\<lparr>rgHead := c + n\<rparr>) else goto t (RLoad n) s)" using RCas by simp
  show ?thesis unfolding e by (rule ring_step.cas_read [OF RCas])
qed (auto split: if_splits intro: ring_step.intros)

fun disciplines :: "'a act list \<Rightarrow> bool set" where
  "disciplines [] = {}"
| "disciplines (StartWrite t w vs # as) = insert w (disciplines as)"
| "disciplines (_ # as) = disciplines as"

lemma schedule_reachable:
  assumes "schedule cap as s = Some s'" "ring_reachable D cap mem s" "disciplines as \<subseteq> D"
  shows "ring_reachable D cap mem s'"
  using assms
proof (induction cap as s rule: schedule.induct)
  case (2 cap t w vs as s)
  then show ?case by (auto split: if_splits intro: ring_reachable.step ring_step.start_write)
next
  case (3 cap t n as s)
  then show ?case by (auto split: if_splits intro: ring_reachable.step ring_step.start_read)
next
  case (4 cap t as s)
  then show ?case by (auto split: option.splits simp del: thread_step.simps intro: ring_reachable.step thread_step_sound)
qed simp

section \<open>Properties\<close>

text \<open>
  C26: while all writers use the same discipline, every interleaving of bulk writes and bulk reads
  keeps the buffer a queue: the batches readers complete are, end to end, a prefix of the values in
  the order in which they were claimed (nothing lost, duplicated, reordered or torn), every reader
  still copying holds values of the log, the heads never cross, and published items plus those being
  written never exceed the capacity.
\<close>

theorem ring_interleaving_fifo:
  assumes "ring_reachable D cap mem s" and "0 < cap" and "D \<noteq> UNIV"
  shows "concat (outs s) = take (rHead s) (log s) \<and> rHead s \<le> rgHead s \<and> rgHead s \<le> wtHead s \<and> wtHead s \<le> wHead s \<and>
    wtHead s \<le> rHead s + cap \<and> wHead s = length (log s) \<and>
    (\<forall>t n c xs. threads s t = RFill n c xs \<longrightarrow> xs = take (length xs) (drop c (log s)) \<and> c + n \<le> wtHead s) \<and>
    (\<forall>p. rHead s \<le> p \<and> p < wtHead s \<longrightarrow> slots s (p mod cap) = log s ! p)"
proof -
  note I = ring_invD [OF ring_inv_reachable [OF assms]]
  have "xs = take (length xs) (drop c (log s)) \<and> c + n \<le> wtHead s" if t: "threads s t = RFill n c xs" for t n c xs
    using I(1) I(4) [of t] t by (simp add: heads_ok_def)
  then show ?thesis using I(1,3) by (auto simp: heads_ok_def slots_ok_def)
qed

theorem ring_interleaving_fifo_witness:
  "\<exists>s. ring_reachable {False} 1 (\<lambda>_. 0 :: nat) s \<and> outs s = [[5]] \<and> concat (outs s) = take (rHead s) (log s)"
proof -
  define acts :: "nat act list" where "acts = [StartWrite 0 False [5], Go 0, Go 0, Go 0, Go 0, Go 0, Go 0,
    StartRead 1 1, Go 1, Go 1, Go 1, Go 1, Go 1, Go 1]"
  have "\<exists>s. schedule 1 acts (ring_start (\<lambda>_. 0)) = Some s \<and> outs s = [[5]]"
    by (simp add: acts_def ring_start_def goto_def sub_size_def)
  then obtain s where s: "schedule 1 acts (ring_start (\<lambda>_. 0)) = Some s" "outs s = [[5]]" by blast
  have r: "ring_reachable {False} 1 (\<lambda>_. 0) s"
    by (rule schedule_reachable [OF s(1) ring_reachable.start]) (simp add: acts_def)
  have "{False} \<noteq> UNIV" by (auto simp: UNIV_bool)
  with ring_interleaving_fifo [OF r] s(2) r show ?thesis by auto
qed

text \<open>
  Mixing the two disciplines loses data. A buffer of one slot holds the item 1; a reader has
  claimed it and not copied it yet; a waiting write of 2 claims the next position; then the
  non-blocking write of 3 computes its free space as 1 - (2 - 0), which wraps, and overwrites the
  slot at once: the reader, first in line, receives 3, and 1 is gone.
\<close>

lemma mixed_writes_overwrite_unread:
  "\<exists>s. ring_reachable UNIV 1 (\<lambda>_. 0 :: nat) s \<and> log s = [1, 2, 3] \<and> outs s = [[3]] \<and> 1 \<notin> set (concat (outs s)) \<and>
     rHead s = 1"
proof -
  define acts :: "nat act list" where "acts = [StartWrite 0 False [1], Go 0, Go 0, Go 0, Go 0, Go 0, Go 0,
    StartRead 1 1, Go 1, Go 1, Go 1,
    StartWrite 2 True [2], Go 2, Go 2, Go 2,
    StartWrite 0 False [3], Go 0, Go 0, Go 0, Go 0,
    Go 1, Go 1, Go 1]"
  have "\<exists>s. schedule 1 acts (ring_start (\<lambda>_. 0)) = Some s \<and> log s = [1, 2, 3] \<and> outs s = [[3]] \<and> rHead s = 1"
    by (simp add: acts_def ring_start_def goto_def sub_size_def)
  then obtain s where s: "schedule 1 acts (ring_start (\<lambda>_. 0)) = Some s" "log s = [1, 2, 3]" "outs s = [[3]]" "rHead s = 1"
    by blast
  have "ring_reachable UNIV 1 (\<lambda>_. 0) s"
    by (rule schedule_reachable [OF s(1) ring_reachable.start]) simp
  with s show ?thesis by auto
qed

end
