(* ===== verification/Page_Types.thy ===== *)
theory Page_Types
  imports Core_Math
begin

text \<open>
  Addresses, ranges and page references (\<open>kernel/include/mem/MemTypes.h\<close>, \<open>kernel/mm/MemTypes.cpp\<close>,
  the \<open>PageRef\<close> part of \<open>kernel/mm/PageAllocator.cpp\<close>), the allocation flags
  (\<open>core/Flags.h\<close>, \<open>kernel/include/mem/mm.h\<close>) and the bootstrap allocator that lays out the page
  allocator's own structures. Addresses are 64-bit words.
\<close>

type_synonym phys_addr = u64
type_synonym PageRef = u64

definition smallPageSize :: u64 where
  "smallPageSize = 4096"

definition bigPageSize :: u64 where
  "bigPageSize = 2097152"

definition smallPagesPerBigPage :: nat where
  "smallPagesPerBigPage = 512"

section \<open>Ranges\<close>

record phys_memory_range =
  rng_start :: phys_addr
  rng_end :: phys_addr

definition rng_isEmpty :: "phys_memory_range \<Rightarrow> bool" where
  "rng_isEmpty r \<longleftrightarrow> rng_end r \<le> rng_start r"

definition rng_getSize :: "phys_memory_range \<Rightarrow> u64" where
  "rng_getSize r = (if rng_isEmpty r then 0 else rng_end r - rng_start r)"

definition rng_contains :: "phys_addr \<Rightarrow> phys_memory_range \<Rightarrow> bool" where
  "rng_contains a r \<longleftrightarrow> \<not> rng_isEmpty r \<and> rng_start r \<le> a \<and> a < rng_end r"

definition rng_intersect :: "phys_memory_range \<Rightarrow> phys_memory_range \<Rightarrow> phys_memory_range" where
  "rng_intersect r other =
     \<lparr>rng_start = (if rng_start r > rng_start other then rng_start r else rng_start other),
      rng_end = (if rng_end r < rng_end other then rng_end r else rng_end other)\<rparr>"

definition bigPagesInRange :: "phys_memory_range \<Rightarrow> u64" where
  "bigPagesInRange r =
     (roundUpToNearestMultiple (rng_end r) bigPageSize - roundDownToNearestMultiple (rng_start r) bigPageSize)
       div bigPageSize"

section \<open>Page references\<close>

datatype PageSize = BIG | SMALL

definition pr_addr :: "PageRef \<Rightarrow> phys_addr" where
  "pr_addr p = p AND NOT (smallPageSize - 1)"

definition pr_size :: "PageRef \<Rightarrow> PageSize" where
  "pr_size p = (if p AND 1 \<noteq> 0 then BIG else SMALL)"

definition pr_small :: "phys_addr \<Rightarrow> PageRef outcome" where
  "pr_small a =
     bindO (assertO (a mod smallPageSize = 0) ''Physical address is not small page aligned'') (\<lambda>_. Inr a)"

definition pr_big :: "phys_addr \<Rightarrow> PageRef outcome" where
  "pr_big a =
     bindO (assertO (a mod bigPageSize = 0) ''Physical address is not big page aligned'') (\<lambda>_. Inr (a OR 1))"

section \<open>Allocation flags\<close>

datatype AllocBehavior = BIG_PAGE_ONLY | LOCAL_DOMAIN_ONLY | GRACEFUL_OOM

type_synonym AllocFlags = u32

fun flagValue :: "AllocBehavior \<Rightarrow> u32" where
  "flagValue BIG_PAGE_ONLY = 1"
| "flagValue LOCAL_DOMAIN_ONLY = 2"
| "flagValue GRACEFUL_OOM = 4"

definition flags_has :: "AllocFlags \<Rightarrow> AllocBehavior \<Rightarrow> bool" where
  "flags_has f e \<longleftrightarrow> f AND flagValue e = flagValue e"

definition flags_or :: "AllocFlags \<Rightarrow> AllocBehavior \<Rightarrow> AllocFlags" where
  "flags_or f e = f OR flagValue e"

section \<open>The bootstrap allocator\<close>

text \<open>
  \<open>current\<close> and \<open>end\<close> are addresses; in the measuring mode \<open>current\<close> starts at 0 and \<open>end\<close> is the
  null pointer. \<open>sz\<close>, \<open>al\<close> are \<open>sizeof(T)\<close>, \<open>alignof(T)\<close>; the result is the address of the array.
\<close>

record BootstrapAllocator =
  ba_current :: u64
  ba_end :: u64
  ba_measuring :: bool

definition ba_measure :: BootstrapAllocator where
  "ba_measure = \<lparr>ba_current = 0, ba_end = 0, ba_measuring = True\<rparr>"

definition ba_real :: "u64 \<Rightarrow> u64 \<Rightarrow> BootstrapAllocator" where
  "ba_real buf bytes = \<lparr>ba_current = buf, ba_end = buf + bytes, ba_measuring = False\<rparr>"

definition ba_allocate :: "u64 \<Rightarrow> u64 \<Rightarrow> u64 \<Rightarrow> u64 \<Rightarrow> BootstrapAllocator \<Rightarrow> (BootstrapAllocator \<times> u64) outcome" where
  "ba_allocate sz al n alignment a =
     (let aligned = roundUpToNearestMultiple (ba_current a) alignment;
          paddedObjSize = roundUpToNearestMultiple sz al;
          bytes = paddedObjSize * (n - 1) + sz
      in if ba_measuring a then Inr (a\<lparr>ba_current := aligned + bytes\<rparr>, 0)
         else let a' = a\<lparr>ba_current := aligned + bytes\<rparr>
              in bindO (assertO (ba_current a' \<le> ba_end a') ''Bootstrap allocator overflow'') (\<lambda>_. Inr (a', aligned)))"

definition bytesNeeded :: "BootstrapAllocator \<Rightarrow> u64" where
  "bytesNeeded a = ba_current a"

definition bytesRemaining :: "BootstrapAllocator \<Rightarrow> u64" where
  "bytesRemaining a = (if ba_measuring a then 0 else ba_end a - ba_current a)"

text \<open>A boot-time layout is a sequence of requests \<open>(sizeof, alignof, count, alignment)\<close>.\<close>

fun ba_run :: "(u64 \<times> u64 \<times> u64 \<times> u64) list \<Rightarrow> BootstrapAllocator \<Rightarrow> (BootstrapAllocator \<times> u64 list) outcome" where
  "ba_run [] a = Inr (a, [])"
| "ba_run ((sz, al, n, alignment) # rs) a =
     bindO (ba_allocate sz al n alignment a) (\<lambda>(a1, p).
       bindO (ba_run rs a1) (\<lambda>(a2, ps). Inr (a2, p # ps)))"

section \<open>Masks and alignment\<close>

lemma word_split_mask: "(x :: u64) = (x AND NOT (mask n)) + (x AND mask n)"
proof -
  have "(x AND NOT (mask n)) + (x AND mask n) = (x AND NOT (mask n)) OR (x AND mask n)"
    by (rule disjunctive_add_eq_or, rule bit_word_eqI) (auto simp: bit_and_iff bit_not_iff)
  also have "\<dots> = x"
    by (rule bit_word_eqI) (auto simp: bit_and_iff bit_or_iff bit_not_iff)
  finally show ?thesis by simp
qed

lemma unat_and_mask: "unat ((x :: u64) AND mask n) = unat x mod 2 ^ n"
proof -
  have "unat (x AND mask n) = take_bit n (unat x)" by (simp flip: take_bit_eq_mask add: unsigned_take_bit_eq)
  then show ?thesis by (simp add: take_bit_eq_mod)
qed

lemma unat_and_not_mask: "unat ((x :: u64) AND NOT (mask n)) = unat x div 2 ^ n * 2 ^ n"
proof -
  have le: "x AND mask n \<le> x" by (simp add: word_le_nat_alt unat_and_mask)
  have "x AND NOT (mask n) = x - (x AND mask n)" using word_split_mask [of x n] by (simp add: eq_diff_eq)
  then have "unat (x AND NOT (mask n)) = unat x - unat x mod 2 ^ n"
    using unat_sub [OF le] by (simp add: unat_and_mask)
  then show ?thesis by (simp add: minus_mod_eq_div_mult)
qed

lemma unat_lt_64: "unat (x :: u64) < 2 ^ 64"
  using unsigned_less [of x] by simp

lemma unat_of_nat_64: "n < 2 ^ 64 \<Longrightarrow> unat (of_nat n :: u64) = n"
  by (simp add: unat_of_nat)

lemma page_masks: "smallPageSize - 1 = mask 12" "bigPageSize - 1 = mask 21"
  by (simp_all add: smallPageSize_def bigPageSize_def mask_eq_exp_minus_1)

lemma unat_page_sizes [simp]: "unat smallPageSize = 4096" "unat bigPageSize = 2097152"
  "smallPageSize \<noteq> 0" "bigPageSize \<noteq> 0"
  by (simp_all add: smallPageSize_def bigPageSize_def)

text \<open>\<open>v & ~(bigPageSize - 1)\<close>: the base of the big page an address lies in.\<close>

definition bigPageBase :: "phys_addr \<Rightarrow> phys_addr" where
  "bigPageBase a = a AND NOT (bigPageSize - 1)"

lemma unat_pr_addr: "unat (pr_addr p) = unat p div 4096 * 4096"
  using unat_and_not_mask [of p 12] by (simp add: pr_addr_def page_masks)

lemma unat_bigPageBase: "unat (bigPageBase a) = unat a div 2097152 * 2097152"
  using unat_and_not_mask [of a 21] by (simp add: bigPageBase_def page_masks)

lemma and_1_ne_0: "(p :: u64) AND 1 \<noteq> 0 \<longleftrightarrow> odd (unat p)"
proof -
  have "p AND 1 = p AND mask 1" by simp
  then have "unat (p AND 1) = unat p mod 2" using unat_and_mask [of p 1] by simp
  then have "p AND 1 = 0 \<longleftrightarrow> unat p mod 2 = 0" by (simp flip: unat_eq_zero)
  then show ?thesis by presburger
qed

lemma pr_size_odd: "pr_size p = (if odd (unat p) then BIG else SMALL)"
  by (simp add: pr_size_def and_1_ne_0)

lemma mod_page_iff: "a mod smallPageSize = 0 \<longleftrightarrow> 4096 dvd unat a" "a mod bigPageSize = 0 \<longleftrightarrow> 2097152 dvd unat a"
  by (simp_all add: dvd_eq_mod_eq_0 flip: unat_eq_zero add: unat_mod_distrib)

lemma pr_small_ok:
  assumes "4096 dvd unat a"
  shows "pr_small a = Inr a" "pr_addr a = a" "pr_size a = SMALL"
proof -
  show "pr_small a = Inr a" using assms by (simp add: pr_small_def mod_page_iff)
  show "pr_addr a = a" using assms by (simp add: unat_pr_addr word_unat_eq_iff)
  have "even (unat a)" using assms by (meson dvd_trans even_numeral)
  then show "pr_size a = SMALL" by (simp add: pr_size_odd)
qed

lemma pr_big_ok:
  assumes "2097152 dvd unat a"
  shows "pr_big a = Inr (a OR 1)" "pr_addr (a OR 1) = a" "pr_size (a OR 1) = BIG" "unat (a OR 1) = unat a + 1"
proof -
  show "pr_big a = Inr (a OR 1)" using assms by (simp add: pr_big_def mod_page_iff)
  have e: "even (unat a)" using assms by (meson dvd_trans even_numeral)
  then have "a AND 1 = 0" using and_1_ne_0 by blast
  then have "a OR 1 = a + 1" by (simp add: disjunctive_add_eq_or)
  moreover have "unat a + 1 < 2 ^ 64"
    using unat_lt_64 [of a] e by (cases "unat a + 1 = 2 ^ 64") auto
  ultimately show u: "unat (a OR 1) = unat a + 1" by (simp add: unat_word_ariths)
  obtain k where k: "unat a = 2097152 * k" using assms by (auto elim: dvdE)
  then have "(unat a + 1) div 4096 * 4096 = unat a" by simp
  then show "pr_addr (a OR 1) = a" using u by (simp add: unat_pr_addr word_unat_eq_iff)
  show "pr_size (a OR 1) = BIG" using u e by (simp add: pr_size_odd)
qed

section \<open>Measuring and laying out\<close>

definition roundedUp :: "nat \<Rightarrow> nat \<Rightarrow> nat" where
  "roundedUp c d = (c + (d - 1)) div d * d"

definition reqBytes :: "u64 \<times> u64 \<times> u64 \<times> u64 \<Rightarrow> nat" where
  "reqBytes r = (case r of (sz, al, n, alignment) \<Rightarrow> roundedUp (unat sz) (unat al) * (unat n - 1) + unat sz)"

definition reqAlign :: "u64 \<times> u64 \<times> u64 \<times> u64 \<Rightarrow> nat" where
  "reqAlign r = unat (snd (snd (snd r)))"

definition reqEnd :: "u64 \<times> u64 \<times> u64 \<times> u64 \<Rightarrow> nat \<Rightarrow> nat" where
  "reqEnd r c = roundedUp c (reqAlign r) + reqBytes r"

text \<open>No computation of the layout that starts at \<open>c\<close> leaves 64 bits.\<close>

definition reqFits :: "u64 \<times> u64 \<times> u64 \<times> u64 \<Rightarrow> nat \<Rightarrow> bool" where
  "reqFits r c \<longleftrightarrow> (case r of (sz, al, n, alignment) \<Rightarrow>
     sz \<noteq> 0 \<and> al \<noteq> 0 \<and> n \<noteq> 0 \<and> alignment \<noteq> 0 \<and> unat sz + unat al \<le> 2 ^ 64 \<and>
     c + unat alignment \<le> 2 ^ 64 \<and> reqEnd r c < 2 ^ 64)"

fun layoutFits :: "(u64 \<times> u64 \<times> u64 \<times> u64) list \<Rightarrow> nat \<Rightarrow> bool" where
  "layoutFits [] c = True"
| "layoutFits (r # rs) c \<longleftrightarrow> reqFits r c \<and> layoutFits rs (reqEnd r c)"

fun layoutEnd :: "(u64 \<times> u64 \<times> u64 \<times> u64) list \<Rightarrow> nat \<Rightarrow> nat" where
  "layoutEnd [] c = c"
| "layoutEnd (r # rs) c = layoutEnd rs (reqEnd r c)"

lemma alignUp_props:
  assumes "0 < d"
  shows "d dvd roundedUp c d" "c \<le> roundedUp c d" "d dvd b \<Longrightarrow> roundedUp (b + c) d = b + roundedUp c d"
proof -
  show "d dvd roundedUp c d" by (simp add: roundedUp_def)
  have "(c + (d - 1)) mod d < d" using assms by simp
  then show "c \<le> roundedUp c d"
    using div_mult_mod_eq [of "c + (d - 1)" d] assms unfolding roundedUp_def by linarith
  assume "d dvd b"
  then obtain k where k: "b = k * d" by (metis dvdE mult.commute)
  have "(k * d + (c + (d - 1))) div d = k + (c + (d - 1)) div d" using assms by (intro div_mult_self3) simp
  then show "roundedUp (b + c) d = b + roundedUp c d"
    unfolding roundedUp_def k by (metis add.assoc add_mult_distrib)
qed

lemma unat_roundedUp:
  assumes "d \<noteq> (0 :: u64)" "unat x + unat d \<le> 2 ^ 64"
  shows "unat (roundUpToNearestMultiple x d) = roundedUp (unat x) (unat d)"
proof -
  have "0 < unat d" using assms(1) by (simp add: unat_gt_0)
  then show ?thesis using unat_round(2) [OF assms(1), of x] assms(2) by (simp add: roundedUp_def)
qed

lemma reqEnd_mono: "reqFits r c \<Longrightarrow> c \<le> reqEnd r c"
  using alignUp_props(2) [of "reqAlign r" c]
  by (cases r) (auto simp: reqFits_def reqEnd_def reqAlign_def unat_gt_0)

lemma layoutEnd_mono: "layoutFits rs c \<Longrightarrow> c \<le> layoutEnd rs c"
proof (induction rs arbitrary: c)
  case (Cons r rs)
  then have "reqFits r c" "layoutFits rs (reqEnd r c)" by simp_all
  then show ?case using reqEnd_mono [of r c] Cons.IH [of "reqEnd r c"] by simp
qed simp

lemma ba_allocate_nat:
  assumes "reqFits r (unat (ba_current a))" "r = (sz, al, n, alignment)"
  shows "let a' = a\<lparr>ba_current := of_nat (reqEnd r (unat (ba_current a)))\<rparr>
    in unat (ba_current a') = reqEnd r (unat (ba_current a)) \<and>
       (ba_measuring a \<longrightarrow> ba_allocate sz al n alignment a = Inr (a', 0)) \<and>
       (\<not> ba_measuring a \<longrightarrow> reqEnd r (unat (ba_current a)) \<le> unat (ba_end a) \<longrightarrow>
          ba_allocate sz al n alignment a = Inr (a', of_nat (roundedUp (unat (ba_current a)) (unat alignment))))"
proof -
  let ?c = "unat (ba_current a)"
  have F: "al \<noteq> 0" "n \<noteq> 0" "alignment \<noteq> 0" "unat sz + unat al \<le> 2 ^ 64" "?c + unat alignment \<le> 2 ^ 64" "reqEnd r ?c < 2 ^ 64"
    using assms by (auto simp: reqFits_def)
  have "roundedUp ?c (unat alignment) = unat (roundUpToNearestMultiple (ba_current a) alignment)"
    using unat_roundedUp [OF F(3,5)] by simp
  then have al: "roundUpToNearestMultiple (ba_current a) alignment = of_nat (roundedUp ?c (unat alignment))" by simp
  have "roundedUp (unat sz) (unat al) = unat (roundUpToNearestMultiple sz al)"
    using unat_roundedUp [OF F(1,4)] by simp
  then have pad: "roundUpToNearestMultiple sz al = of_nat (roundedUp (unat sz) (unat al))" by simp
  have "1 \<le> n" using F(2) by (simp add: word_le_nat_alt Suc_le_eq unat_gt_0)
  then have "unat (n - 1) = unat n - 1" using unat_sub [of 1 n] by simp
  then have n1: "n - 1 = of_nat (unat n - 1)" by (metis of_nat_unat ucast_id)
  have e: "roundUpToNearestMultiple (ba_current a) alignment + (roundUpToNearestMultiple sz al * (n - 1) + sz) =
      (of_nat (reqEnd r ?c) :: u64)"
    using assms(2) unfolding al pad n1 by (simp add: reqEnd_def reqAlign_def reqBytes_def)
  have u: "unat (of_nat (reqEnd r ?c) :: u64) = reqEnd r ?c" using F(6) by (simp add: unat_of_nat_64)
  have ea: "roundUpToNearestMultiple (ba_current a) alignment + roundUpToNearestMultiple sz al * (n - 1) + sz =
      (of_nat (reqEnd r ?c) :: u64)" using e by (simp add: add.assoc)
  show ?thesis
    using u e ea al by (auto simp: ba_allocate_def Let_def word_le_nat_alt)
qed

lemma layoutFits_shift:
  assumes "\<forall>r \<in> set rs. reqAlign r dvd b" "layoutFits rs (b + c)"
  shows "layoutFits rs c \<and> layoutEnd rs (b + c) = b + layoutEnd rs c"
  using assms
proof (induction rs arbitrary: c)
  case (Cons r rs)
  have "0 < reqAlign r" using Cons.prems(2) by (cases r) (auto simp: reqFits_def reqAlign_def unat_gt_0)
  then have e: "reqEnd r (b + c) = b + reqEnd r c"
    using alignUp_props(3) [of "reqAlign r" b c] Cons.prems(1) by (simp add: reqEnd_def)
  then have "reqFits r c" using Cons.prems(2) by (cases r) (auto simp: reqFits_def)
  then show ?case using Cons.IH [of "reqEnd r c"] Cons.prems e by simp
qed simp

lemma ba_run_measure:
  assumes "layoutFits rs (unat (ba_current a))" "ba_measuring a"
  shows "\<exists>a' ps. ba_run rs a = Inr (a', ps) \<and> unat (ba_current a') = layoutEnd rs (unat (ba_current a))"
  using assms
proof (induction rs arbitrary: a)
  case (Cons r rs)
  obtain sz al n am where r: "r = (sz, al, n, am)" by (cases r)
  let ?a = "a\<lparr>ba_current := of_nat (reqEnd r (unat (ba_current a)))\<rparr>"
  have A: "unat (ba_current ?a) = reqEnd r (unat (ba_current a))" "ba_allocate sz al n am a = Inr (?a, 0)"
    using ba_allocate_nat [OF _ r, of a] Cons.prems by (auto simp: Let_def)
  have "\<exists>a' ps. ba_run rs ?a = Inr (a', ps) \<and> unat (ba_current a') = layoutEnd rs (unat (ba_current ?a))"
    by (rule Cons.IH) (use Cons.prems A(1) in simp_all)
  then obtain a' ps where *: "ba_run rs ?a = Inr (a', ps)" "unat (ba_current a') = layoutEnd rs (unat (ba_current ?a))" by blast
  have "ba_run (r # rs) a = Inr (a', 0 # ps)" using A(2) *(1) r by simp
  then show ?case using *(2) A(1) by auto
qed simp

text \<open>The arrays of a layout: each aligned, after the previous one, the last before \<open>e\<close>.\<close>

fun chained :: "(u64 \<times> u64 \<times> u64 \<times> u64) list \<Rightarrow> u64 list \<Rightarrow> nat \<Rightarrow> nat \<Rightarrow> bool" where
  "chained [] [] c e \<longleftrightarrow> c \<le> e"
| "chained (r # rs) (p # ps) c e \<longleftrightarrow> c \<le> unat p \<and> reqAlign r dvd unat p \<and> chained rs ps (unat p + reqBytes r) e"
| "chained _ _ c e \<longleftrightarrow> False"

lemma ba_run_real:
  assumes "layoutFits rs (unat (ba_current a))" "\<not> ba_measuring a" "layoutEnd rs (unat (ba_current a)) \<le> unat (ba_end a)"
  shows "\<exists>a' ps. ba_run rs a = Inr (a', ps) \<and> unat (ba_current a') = layoutEnd rs (unat (ba_current a)) \<and>
    ba_end a' = ba_end a \<and> \<not> ba_measuring a' \<and> chained rs ps (unat (ba_current a)) (unat (ba_end a))"
  using assms
proof (induction rs arbitrary: a)
  case (Cons r rs)
  obtain sz al n am where r: "r = (sz, al, n, am)" by (cases r)
  let ?c = "unat (ba_current a)"
  let ?a = "a\<lparr>ba_current := of_nat (reqEnd r ?c)\<rparr>" and ?p = "of_nat (roundedUp ?c (unat am)) :: u64"
  have le: "reqEnd r ?c \<le> unat (ba_end a)"
    using Cons.prems(1,3) layoutEnd_mono [of rs "reqEnd r ?c"] by simp
  have A: "unat (ba_current ?a) = reqEnd r ?c" "ba_allocate sz al n am a = Inr (?a, ?p)"
    using ba_allocate_nat [OF _ r, of a] Cons.prems le by (auto simp: Let_def)
  have "\<exists>a' ps. ba_run rs ?a = Inr (a', ps) \<and> unat (ba_current a') = layoutEnd rs (unat (ba_current ?a)) \<and>
      ba_end a' = ba_end ?a \<and> \<not> ba_measuring a' \<and> chained rs ps (unat (ba_current ?a)) (unat (ba_end ?a))"
    by (rule Cons.IH) (use Cons.prems A(1) in simp_all)
  then obtain a' ps where *: "ba_run rs ?a = Inr (a', ps)" "unat (ba_current a') = layoutEnd rs (unat (ba_current ?a))"
      "ba_end a' = ba_end a" "\<not> ba_measuring a'" "chained rs ps (unat (ba_current ?a)) (unat (ba_end a))" by auto
  have run: "ba_run (r # rs) a = Inr (a', ?p # ps)" using A(2) *(1) r by simp
  have am: "reqAlign r = unat am" "0 < unat am" using r Cons.prems(1) by (auto simp: reqAlign_def reqFits_def unat_gt_0)
  have "roundedUp ?c (unat am) < 2 ^ 64"
    using Cons.prems(1) r am(1) by (auto simp: reqFits_def reqEnd_def)
  then have "unat ?p = roundedUp ?c (unat am)" by (simp add: unat_of_nat_64)
  then have "chained (r # rs) (?p # ps) ?c (unat (ba_end a))"
    using alignUp_props(1,2) [OF am(2)] *(5) A(1) am(1) by (simp add: reqEnd_def)
  then show ?case using run *(2-4) A(1) by (intro exI [of _ a'] exI [of _ "?p # ps"]) simp
qed simp

lemma chained_disjoint:
  assumes "chained rs ps c e"
  shows "length ps = length rs" "i < length rs \<Longrightarrow> c \<le> unat (ps ! i) \<and> reqAlign (rs ! i) dvd unat (ps ! i) \<and>
      unat (ps ! i) + reqBytes (rs ! i) \<le> e"
    "i < j \<Longrightarrow> j < length rs \<Longrightarrow> unat (ps ! i) + reqBytes (rs ! i) \<le> unat (ps ! j)"
proof -
  have end_le: "chained rs ps c e \<Longrightarrow> c \<le> e" for rs ps c e
    by (induction rs ps c e rule: chained.induct) auto
  show "length ps = length rs" using assms by (induction rs ps c e rule: chained.induct) auto
  have lo: "chained rs ps c e \<Longrightarrow> i < length rs \<Longrightarrow> c \<le> unat (ps ! i) \<and> reqAlign (rs ! i) dvd unat (ps ! i) \<and>
      unat (ps ! i) + reqBytes (rs ! i) \<le> e" for i rs ps c e
  proof (induction rs ps c e arbitrary: i rule: chained.induct)
    case (2 r rs p ps c e)
    then show ?case using end_le [of rs ps "unat p + reqBytes r" e] by (cases i) fastforce+
  qed auto
  then show "i < length rs \<Longrightarrow> c \<le> unat (ps ! i) \<and> reqAlign (rs ! i) dvd unat (ps ! i) \<and>
      unat (ps ! i) + reqBytes (rs ! i) \<le> e" using assms by blast
  show "i < j \<Longrightarrow> j < length rs \<Longrightarrow> unat (ps ! i) + reqBytes (rs ! i) \<le> unat (ps ! j)"
    using assms
  proof (induction rs ps c e arbitrary: i j rule: chained.induct)
    case (2 r rs p ps c e)
    then show ?case
      using lo [of rs ps "unat p + reqBytes r" e "j - 1"] by (cases i; cases j) auto
  qed auto
qed

section \<open>Properties\<close>

text \<open>
  a page reference keeps both the address and the kind of the page: for an aligned address the
  constructor succeeds and \<open>addr\<close> and \<open>size\<close> read back what went in, so the reference of the small
  page and of the big page at one address differ; a misaligned address is refused by the assertion.
\<close>

lemma page_ref_roundtrip:
  "((\<exists>p. pr_small a = Inr p) \<longleftrightarrow> 4096 dvd unat a) \<and> ((\<exists>q. pr_big a = Inr q) \<longleftrightarrow> 2097152 dvd unat a) \<and>
   (pr_small a = Inr p \<longrightarrow> pr_addr p = a \<and> pr_size p = SMALL) \<and> (pr_big a = Inr q \<longrightarrow> pr_addr q = a \<and> pr_size q = BIG)"
  using pr_small_ok [of a] pr_big_ok [of a] by (auto simp: pr_small_def pr_big_def bindO_eq_Inr_iff mod_page_iff)

text \<open>
  the dry run of the bootstrap allocator measures exactly what the real run needs. When the
  buffer's address is a multiple of every alignment requested and nothing leaves 64 bits, a real
  run of the same requests in a buffer of the measured size never hits the overflow assertion, uses
  the buffer to the last byte, and every array lies inside it, aligned, apart from all others.
\<close>

lemma bootstrap_measure_exact:
  assumes "layoutFits rs (unat buf)" and "\<forall>r \<in> set rs. reqAlign r dvd unat buf"
  shows "\<exists>m qs a ps. ba_run rs ba_measure = Inr (m, qs) \<and> ba_run rs (ba_real buf (bytesNeeded m)) = Inr (a, ps) \<and>
    bytesRemaining a = 0 \<and> length ps = length rs \<and>
    (\<forall>i < length rs. unat buf \<le> unat (ps ! i) \<and> reqAlign (rs ! i) dvd unat (ps ! i) \<and>
       unat (ps ! i) + reqBytes (rs ! i) \<le> unat buf + unat (bytesNeeded m) \<and>
       (\<forall>j. i < j \<and> j < length rs \<longrightarrow> unat (ps ! i) + reqBytes (rs ! i) \<le> unat (ps ! j)))"
proof -
  have sh: "layoutFits rs 0" "layoutEnd rs (unat buf) = unat buf + layoutEnd rs 0"
    using layoutFits_shift [of rs "unat buf" 0] assms by auto
  obtain m qs where m: "ba_run rs ba_measure = Inr (m, qs)" "unat (ba_current m) = layoutEnd rs 0"
    using ba_run_measure [of rs ba_measure] sh(1) by (auto simp: ba_measure_def)
  have lt: "layoutFits rs c \<Longrightarrow> c < 2 ^ 64 \<Longrightarrow> layoutEnd rs c < 2 ^ 64" for c
    by (induction rs arbitrary: c) (auto simp: reqFits_def)
  have "unat (buf + bytesNeeded m) = unat buf + layoutEnd rs 0"
    using lt [OF assms(1) unat_lt_64] sh(2) m(2) by (simp add: unat_word_ariths bytesNeeded_def)
  then have e: "unat (ba_end (ba_real buf (bytesNeeded m))) = layoutEnd rs (unat buf)"
    using sh(2) by (simp add: ba_real_def)
  obtain a ps where a: "ba_run rs (ba_real buf (bytesNeeded m)) = Inr (a, ps)" "unat (ba_current a) = layoutEnd rs (unat buf)"
      "ba_end a = ba_end (ba_real buf (bytesNeeded m))" "chained rs ps (unat buf) (layoutEnd rs (unat buf))"
    using ba_run_real [of rs "ba_real buf (bytesNeeded m)"] assms(1) e by (auto simp: ba_real_def)
  have "ba_current a = ba_end a" using a(2,3) e by (simp add: word_unat_eq_iff)
  then have "bytesRemaining a = 0" by (simp add: bytesRemaining_def)
  then show ?thesis
    using m a(1) chained_disjoint [OF a(4)] sh(2) by (intro exI [of _ m] exI [of _ qs] exI [of _ a] exI [of _ ps]) (simp add: bytesNeeded_def)
qed

end
