(* ===== verification/Page_Blocks.thy ===== *)
theory Page_Blocks
  imports Page_Types Slab_Bookkeeper Array_Slices
begin

text \<open>
  \<open>SmallPageAllocator\<close> and \<open>BigPageMetadata\<close> of \<open>kernel/mm/PageAllocator.cpp\<close>: the 512 small pages of
  one big page. The slots are the bookkeeper's; this layer translates between slots and physical
  addresses and keeps the processor that holds the page for allocation. A callback that receives
  page references is modelled by the list of the references in the order of the calls.
\<close>

fun mapO :: "('a \<Rightarrow> 'b outcome) \<Rightarrow> 'a list \<Rightarrow> 'b list outcome" where
  "mapO f [] = Inr []"
| "mapO f (x # xs) = bindO (f x) (\<lambda>y. bindO (mapO f xs) (\<lambda>ys. Inr (y # ys)))"

section \<open>SmallPageAllocator\<close>

record SmallPageAllocator =
  spa_book :: slab_bk
  spa_base :: phys_addr

text \<open>The constructor runs on memory that the bootstrap allocator has zeroed.\<close>

definition zeroed_book :: slab_bk where
  "zeroed_book =
     \<lparr>bitmap = \<lparr>allocBitmap = replicate 8 0, freeBitmap = replicate 8 0, hint = 0, useHint = True\<rparr>,
      allocatedCount = 0, reservedCount = 0, slotCount = smallPagesPerBigPage\<rparr>"

definition mkSmallPageAllocator :: "phys_addr \<Rightarrow> SmallPageAllocator outcome" where
  "mkSmallPageAllocator b =
     bindO (seedAllAvailable zeroed_book) (\<lambda>bk. Inr \<lparr>spa_book = bk, spa_base = b\<rparr>)"

definition spa_allocAll :: "SmallPageAllocator \<Rightarrow> SmallPageAllocator outcome" where
  "spa_allocAll s =
     bindO (assertO (\<not> hasReservedSlots (spa_book s)) ''Can't allocate all from page with reserved subpages'')
       (\<lambda>_. Inr (s\<lparr>spa_book := seedAllUsed (spa_book s)\<rparr>))"

definition spa_freeAll :: "SmallPageAllocator \<Rightarrow> SmallPageAllocator outcome" where
  "spa_freeAll s =
     bindO (assertO (\<not> hasReservedSlots (spa_book s)) ''Can't free all from page with reserved subpages'')
       (\<lambda>_. bindO (seedAllAvailable (spa_book s)) (\<lambda>bk. Inr (s\<lparr>spa_book := bk\<rparr>)))"

definition fromPageIndex :: "nat \<Rightarrow> SmallPageAllocator \<Rightarrow> phys_addr" where
  "fromPageIndex i s = spa_base s + of_nat i * smallPageSize"

definition flushAllocBitmap :: "SmallPageAllocator \<Rightarrow> SmallPageAllocator" where
  "flushAllocBitmap s = s\<lparr>spa_book := flushAllocSide (spa_book s)\<rparr>"

definition spa_alloc ::
    "nat \<Rightarrow> SmallPageAllocator \<Rightarrow> (SmallPageAllocator \<times> PageRef list \<times> OccupancyTransition) outcome" where
  "spa_alloc n s =
     (case allocSlots n (spa_book s) of
        (bk, slots, t) \<Rightarrow>
          bindO (mapO (\<lambda>slot. pr_small (fromPageIndex slot s)) slots) (\<lambda>refs.
            Inr (s\<lparr>spa_book := bk\<rparr>, refs, t)))"

definition smallPageIndex :: "phys_addr \<Rightarrow> nat" where
  "smallPageIndex a = unat (a div smallPageSize) mod smallPagesPerBigPage"

text \<open>The pending words that \<open>free\<close> collects, one bit per page.\<close>

fun collectPending :: "phys_addr \<Rightarrow> PageRef list \<Rightarrow> u64 list \<Rightarrow> u64 list outcome" where
  "collectPending base [] pending = Inr pending"
| "collectPending base (p # ps) pending =
     bindO (assertO (bigPageBase (pr_addr p) = base) ''Tried to free small page in wrong small page allocator'') (\<lambda>_.
       let i = smallPageIndex (pr_addr p)
       in bindO (readAt pending (i div 64)) (\<lambda>w.
            collectPending base ps (pending[i div 64 := w OR bit1 (i mod 64)])))"

definition spa_free ::
    "PageRef list \<Rightarrow> SmallPageAllocator \<Rightarrow> (SmallPageAllocator \<times> OccupancyTransition) outcome" where
  "spa_free pages s =
     bindO (collectPending (spa_base s) pages (replicate (kWordCount smallPagesPerBigPage) 0)) (\<lambda>pending.
       bindO (freeSlotsBulk pending (length pages) (spa_book s)) (\<lambda>(bk, t). Inr (s\<lparr>spa_book := bk\<rparr>, t)))"

definition isPageFree :: "PageRef \<Rightarrow> SmallPageAllocator \<Rightarrow> bool" where
  "isPageFree p s = isSlotFree (smallPageIndex (pr_addr p)) (spa_book s)"

definition spa_reservePage :: "phys_addr \<Rightarrow> SmallPageAllocator \<Rightarrow> SmallPageAllocator outcome" where
  "spa_reservePage a s =
     bindO (assertO (a mod smallPageSize = 0) ''Address must be page aligned'') (\<lambda>_.
       bindO (reserveSlot (smallPageIndex a) (spa_book s)) (\<lambda>bk. Inr (s\<lparr>spa_book := bk\<rparr>)))"

section \<open>BigPageMetadata\<close>

text \<open>The owner pool is named by its number; \<open>allocHolder\<close> is \<open>SIZE_MAX\<close> when no processor holds the page.\<close>

definition SIZE_MAX :: nat where
  "SIZE_MAX = 2 ^ 64 - 1"

record BigPageMetadata =
  subpageAllocator :: SmallPageAllocator
  ownerPool :: nat
  allocHolder :: nat

definition mkBigPageMetadata :: "nat \<Rightarrow> phys_addr \<Rightarrow> BigPageMetadata outcome" where
  "mkBigPageMetadata pool base =
     bindO (mkSmallPageAllocator base) (\<lambda>s. Inr \<lparr>subpageAllocator = s, ownerPool = pool, allocHolder = SIZE_MAX\<rparr>)"

fun bpm_alloc_loop :: "nat \<Rightarrow> nat \<Rightarrow> OccupancyTransition \<Rightarrow> SmallPageAllocator \<Rightarrow>
    (SmallPageAllocator \<times> PageRef list \<times> OccupancyTransition) outcome" where
  "bpm_alloc_loop 0 rest t s = Inl Diverges"
| "bpm_alloc_loop (Suc fuel) rest t s =
     (if rest = 0 then Inr (s, [], t)
      else bindO (spa_alloc rest s) (\<lambda>(s1, refs, t1).
        if becameFull t1 then Inr (s1, refs, t1)
        else bindO (bpm_alloc_loop fuel (rest - length refs) t1 s1) (\<lambda>(s2, refs2, t2). Inr (s2, refs @ refs2, t2))))"

text \<open>\<open>OccupancyTransition transition{}\<close>\<close>

definition noTransition :: OccupancyTransition where
  "noTransition = \<lparr>before = Empty, after = Empty\<rparr>"

definition bpm_allocatePages ::
    "nat \<Rightarrow> nat \<Rightarrow> OccupancyTransition \<Rightarrow> BigPageMetadata \<Rightarrow> (BigPageMetadata \<times> PageRef list \<times> OccupancyTransition) outcome" where
  "bpm_allocatePages cpu n t m =
     bindO (assertO (allocHolder m \<noteq> SIZE_MAX) ''Allocating from big page without setting alloc holder'') (\<lambda>_.
     bindO (assertO (allocHolder m = cpu) ''Two CPUs allocating from same page simultaneously'') (\<lambda>_.
     bindO (bpm_alloc_loop (n + 1) n t (subpageAllocator m)) (\<lambda>(s, refs, t').
       Inr (m\<lparr>subpageAllocator := s\<rparr>, refs, t'))))"

definition bpm_freePages :: "PageRef list \<Rightarrow> BigPageMetadata \<Rightarrow> (BigPageMetadata \<times> OccupancyTransition) outcome" where
  "bpm_freePages pages m =
     bindO (spa_free pages (subpageAllocator m)) (\<lambda>(s, t). Inr (m\<lparr>subpageAllocator := s\<rparr>, t))"

definition bpm_isEmpty :: "BigPageMetadata \<Rightarrow> bool" where
  "bpm_isEmpty m = bk_isEmpty (spa_book (subpageAllocator m))"

definition bpm_isFull :: "BigPageMetadata \<Rightarrow> bool" where
  "bpm_isFull m = bk_isFull (spa_book (subpageAllocator m))"

definition bpm_allocAll :: "BigPageMetadata \<Rightarrow> BigPageMetadata outcome" where
  "bpm_allocAll m = bindO (spa_allocAll (subpageAllocator m)) (\<lambda>s. Inr (m\<lparr>subpageAllocator := s\<rparr>))"

definition bpm_freeAll :: "BigPageMetadata \<Rightarrow> BigPageMetadata outcome" where
  "bpm_freeAll m = bindO (spa_freeAll (subpageAllocator m)) (\<lambda>s. Inr (m\<lparr>subpageAllocator := s\<rparr>))"

definition bpm_reservePage :: "phys_addr \<Rightarrow> BigPageMetadata \<Rightarrow> BigPageMetadata outcome" where
  "bpm_reservePage a m = bindO (spa_reservePage a (subpageAllocator m)) (\<lambda>s. Inr (m\<lparr>subpageAllocator := s\<rparr>))"

definition hasReservedSubpages :: "BigPageMetadata \<Rightarrow> bool" where
  "hasReservedSubpages m = hasReservedSlots (spa_book (subpageAllocator m))"

definition bpm_base :: "BigPageMetadata \<Rightarrow> phys_addr" where
  "bpm_base m = spa_base (subpageAllocator m)"

definition markAllocHolder :: "nat \<Rightarrow> BigPageMetadata \<Rightarrow> BigPageMetadata outcome" where
  "markAllocHolder cpu m =
     bindO (assertO (allocHolder m = SIZE_MAX) ''markAllocHolder: page already held for allocation by another CPU'')
       (\<lambda>_. Inr (m\<lparr>allocHolder := cpu\<rparr>))"

definition releaseAllocHolder :: "BigPageMetadata \<Rightarrow> BigPageMetadata" where
  "releaseAllocHolder m = m\<lparr>allocHolder := SIZE_MAX\<rparr>"

definition hasAllocHolder :: "BigPageMetadata \<Rightarrow> bool" where
  "hasAllocHolder m \<longleftrightarrow> allocHolder m \<noteq> SIZE_MAX"

definition freeSubpageCount :: "BigPageMetadata \<Rightarrow> nat" where
  "freeSubpageCount m = freeSlotCount (spa_book (subpageAllocator m))"

definition isSubpageAllocated :: "PageRef \<Rightarrow> BigPageMetadata \<Rightarrow> bool" where
  "isSubpageAllocated p m = (\<not> isPageFree p (subpageAllocator m))"

text \<open>What \<open>BigPageMetadata::returnPage\<close> does to the page before it hands it to its pool.\<close>

definition bpm_prepareReturn :: "BigPageMetadata \<Rightarrow> BigPageMetadata" where
  "bpm_prepareReturn m = releaseAllocHolder (m\<lparr>subpageAllocator := flushAllocBitmap (subpageAllocator m)\<rparr>)"

section \<open>Small pages and the pages a reference covers\<close>

text \<open>
  Small pages are numbered by address / 4096. A small reference covers one of them, a big one 512.
\<close>

definition refPages :: "PageRef \<Rightarrow> nat set" where
  "refPages r = (let n = unat (pr_addr r) div 4096 in if pr_size r = BIG then {n..<n + 512} else {n})"

definition refCount :: "PageRef \<Rightarrow> nat" where
  "refCount r = (if pr_size r = BIG then 512 else 1)"

abbreviation covered :: "PageRef list \<Rightarrow> nat set" where
  "covered refs \<equiv> \<Union> (refPages ` set refs)"

definition totalPages :: "PageRef list \<Rightarrow> nat" where
  "totalPages refs = sum_list (map refCount refs)"

lemma refPages_finite [simp]: "finite (refPages r)" "card (refPages r) = refCount r"
  by (simp_all add: refPages_def refCount_def Let_def)

lemma totalPages_append [simp]: "totalPages (xs @ ys) = totalPages xs + totalPages ys" "totalPages [] = 0"
  "totalPages (r # rs) = refCount r + totalPages rs"
  by (simp_all add: totalPages_def)

lemma finite_covered [simp]: "finite (covered refs)"
  by simp

definition pg_first :: "BigPageMetadata \<Rightarrow> nat" where
  "pg_first m = unat (bpm_base m) div 4096"

abbreviation pg_book :: "BigPageMetadata \<Rightarrow> slab_bk" where
  "pg_book m \<equiv> spa_book (subpageAllocator m)"

abbreviation pg_avail :: "BigPageMetadata \<Rightarrow> nat set" where
  "pg_avail m \<equiv> bk_avail (pg_book m)"

definition pg_inv :: "BigPageMetadata \<Rightarrow> nat set \<Rightarrow> bool" where
  "pg_inv m L \<longleftrightarrow> bk_inv (pg_book m) L \<and> slotCount (pg_book m) = 512 \<and> 2097152 dvd unat (bpm_base m)"

lemma pg_invD:
  assumes "pg_inv m L"
  shows "bk_inv (pg_book m) L" "slotCount (pg_book m) = 512" "2097152 dvd unat (bpm_base m)"
    "L \<subseteq> {..<512}" "pg_avail m \<subseteq> {..<512}" "L \<inter> pg_avail m = {}" "finite L"
proof -
  show b: "bk_inv (pg_book m) L" and n: "slotCount (pg_book m) = 512" and "2097152 dvd unat (bpm_base m)"
    using assms unfolding pg_inv_def by blast+
  show "L \<subseteq> {..<512}" "pg_avail m \<subseteq> {..<512}" "L \<inter> pg_avail m = {}"
    using b n unfolding bk_inv_def by simp_all
  show "finite L" using bk_inv_finite [OF b] .
qed

lemma kWordCount_512 [simp]: "kWordCount 512 = 8"
  by (simp add: kWordCount_def)

lemma slot_address:
  assumes "2097152 dvd unat b" "i < 512" "b = spa_base s"
  shows "unat (fromPageIndex i s) = unat b + i * 4096" "pr_small (fromPageIndex i s) = Inr (fromPageIndex i s)"
    "pr_addr (fromPageIndex i s) = fromPageIndex i s" "pr_size (fromPageIndex i s) = SMALL"
    "smallPageIndex (fromPageIndex i s) = i" "bigPageBase (fromPageIndex i s) = b"
    "refPages (fromPageIndex i s) = {unat b div 4096 + i}"
proof -
  obtain k where k: "unat b = 2097152 * k" using assms(1) by (auto elim: dvdE)
  have "2097152 * k < 2097152 * 8796093022208" using unat_lt_64 [of b] k by simp
  then have k2: "k < 8796093022208" by simp
  have i: "unat (of_nat i :: u64) = i" by (rule unat_of_nat_64) (use assms(2) in simp)
  have "unat (of_nat i * smallPageSize) = i * 4096"
    using assms(2) i by (simp add: unat_word_ariths)
  moreover have "unat b + i * 4096 < 2 ^ 64" using k k2 assms(2) by simp
  ultimately show u: "unat (fromPageIndex i s) = unat b + i * 4096"
    by (simp add: fromPageIndex_def assms(3) unat_word_ariths)
  have d: "4096 dvd unat (fromPageIndex i s)" using u k by simp
  note P = pr_small_ok [OF d]
  show "pr_small (fromPageIndex i s) = Inr (fromPageIndex i s)" "pr_addr (fromPageIndex i s) = fromPageIndex i s"
    "pr_size (fromPageIndex i s) = SMALL" by (rule P)+
  have q: "(unat b + i * 4096) div 4096 = 512 * k + i" using k by simp
  then show "smallPageIndex (fromPageIndex i s) = i"
    using u assms(2) by (simp add: smallPageIndex_def smallPagesPerBigPage_def unat_div_distrib)
  have "(2097152 * k + i * 4096) div 2097152 = k" using assms(2) by (intro div_nat_eqI) simp_all
  then show "bigPageBase (fromPageIndex i s) = b"
    using u k by (simp add: word_unat_eq_iff unat_bigPageBase)
  show "refPages (fromPageIndex i s) = {unat b div 4096 + i}"
    using u P q k by (simp add: refPages_def Let_def)
qed

lemma big_ref:
  assumes "2097152 dvd unat b"
  shows "pr_big b = Inr (b OR 1)" "refPages (b OR 1) = {unat b div 4096..<unat b div 4096 + 512}" "refCount (b OR 1) = 512"
  using pr_big_ok [OF assms] by (simp_all add: refPages_def refCount_def Let_def)

lemma mapO_Inr: "(\<And>x. x \<in> set xs \<Longrightarrow> f x = Inr (g x)) \<Longrightarrow> mapO f xs = Inr (map g xs)"
  by (induction xs) simp_all

lemma slot_refs:
  assumes "2097152 dvd unat (spa_base s)" "set xs \<subseteq> {..<512}"
  shows "mapO (\<lambda>slot. pr_small (fromPageIndex slot s)) xs = Inr (map (\<lambda>slot. fromPageIndex slot s) xs)"
    "covered (map (\<lambda>slot. fromPageIndex slot s) xs) = (+) (unat (spa_base s) div 4096) ` set xs"
    "totalPages (map (\<lambda>slot. fromPageIndex slot s) xs) = length xs"
proof -
  show "mapO (\<lambda>slot. pr_small (fromPageIndex slot s)) xs = Inr (map (\<lambda>slot. fromPageIndex slot s) xs)"
    by (rule mapO_Inr) (use assms in \<open>auto simp: slot_address\<close>)
  have "refPages (fromPageIndex i s) = {unat (spa_base s) div 4096 + i}" if "i \<in> set xs" for i
    using assms that by (auto simp: slot_address)
  then show "covered (map (\<lambda>slot. fromPageIndex slot s) xs) = (+) (unat (spa_base s) div 4096) ` set xs" by auto
  show "totalPages (map (\<lambda>slot. fromPageIndex slot s) xs) = length xs"
    using assms by (induction xs) (auto simp: refCount_def slot_address)
qed

section \<open>What the operations of a page do\<close>

lemma pg_alloc_spec:
  assumes "pg_inv m L" "allocHolder m = cpu" "cpu \<noteq> SIZE_MAX" "0 < n" "pg_avail m \<noteq> {}"
  shows "\<exists>m' xs t. bpm_allocatePages cpu n t0 m = Inr (m', map (\<lambda>i. fromPageIndex i (subpageAllocator m)) xs, t) \<and>
    pg_inv m' (L \<union> set xs) \<and> distinct xs \<and> set xs \<subseteq> pg_avail m \<and> pg_avail m' = pg_avail m - set xs \<and>
    length xs = min n (card (pg_avail m)) \<and> (becameFull t \<longleftrightarrow> pg_avail m' = {}) \<and>
    bpm_base m' = bpm_base m \<and> ownerPool m' = ownerPool m \<and> allocHolder m' = cpu \<and>
    reservedCount (pg_book m') = reservedCount (pg_book m)"
proof -
  let ?s = "subpageAllocator m"
  note D = pg_invD [OF assms(1)]
  obtain bk xs t where a: "allocSlots n (pg_book m) = (bk, xs, t)" by (metis prod_cases3)
  note A = allocSlots_spec [OF D(1) a]
  have base: "2097152 dvd unat (spa_base ?s)" using D(3) by (simp add: bpm_base_def)
  have xs: "set xs \<subseteq> {..<512}" using A(3) D(5) by blast
  let ?s1 = "?s\<lparr>spa_book := bk\<rparr>" and ?refs = "map (\<lambda>i. fromPageIndex i ?s) xs"
  have al: "spa_alloc n ?s = Inr (?s1, ?refs, t)" using a slot_refs(1) [OF base xs] by (simp add: spa_alloc_def)
  have "0 < card (pg_avail m)" using assms(5) by (simp add: card_gt_0_iff)
  then have ne: "xs \<noteq> []" using A(5) assms(4) by auto
  have full: "becameFull t \<longleftrightarrow> bk_avail bk = {}" using A(6) assms(5) ne by (auto simp: becameFull_def occupancy_def)
  have len: "bk_avail bk \<noteq> {} \<Longrightarrow> length xs = n"
  proof -
    assume "bk_avail bk \<noteq> {}"
    then have "card (set xs) < card (pg_avail m)" using A(3,4) by (intro psubset_card_mono) auto
    then show "length xs = n" using A(2,5) distinct_card [of xs] by auto
  qed
  have "bpm_alloc_loop (n + 1) n t0 ?s = Inr (?s1, ?refs, t)"
  proof (cases "becameFull t")
    case True
    then show ?thesis using al assms(4) by simp
  next
    case False
    then have "length xs = n" using full len by blast
    moreover obtain k where "n = Suc k" using assms(4) gr0_conv_Suc by blast
    ultimately show ?thesis using al False assms(4) by simp
  qed
  then have run: "bpm_allocatePages cpu n t0 m = Inr (m\<lparr>subpageAllocator := ?s1\<rparr>, ?refs, t)"
    using assms(2,3) by (simp add: bpm_allocatePages_def)
  have "pg_inv (m\<lparr>subpageAllocator := ?s1\<rparr>) (L \<union> set xs)" using A(1,7) D by (simp add: pg_inv_def bpm_base_def)
  then show ?thesis
    using run A full assms(2) by (intro exI [of _ "m\<lparr>subpageAllocator := ?s1\<rparr>"] exI [of _ xs] exI [of _ t]) (simp add: bpm_base_def)
qed

text \<open>On a page with nothing available the loop never ends, whatever the fuel.\<close>

lemma pg_alloc_full:
  assumes "bk_inv (spa_book s) L" "bk_avail (spa_book s) = {}" "0 < n"
  shows "bpm_alloc_loop fuel n t s = Inl Diverges"
  using assms
proof (induction fuel arbitrary: s t)
  case (Suc fuel)
  obtain bk xs t1 where a: "allocSlots n (spa_book s) = (bk, xs, t1)" by (metis prod_cases3)
  note A = allocSlots_spec [OF Suc.prems(1) a]
  have xs: "xs = []" using A(3) Suc.prems(2) by simp
  then have al: "spa_alloc n s = Inr (s\<lparr>spa_book := bk\<rparr>, [], t1)" using a by (simp add: spa_alloc_def)
  have nf: "\<not> becameFull t1" using A(4,6) xs Suc.prems(2) by (simp add: becameFull_def)
  have "bpm_alloc_loop fuel n t1 (s\<lparr>spa_book := bk\<rparr>) = Inl Diverges"
    by (rule Suc.IH) (use A xs Suc.prems in simp_all)
  then show ?case using al nf Suc.prems(3) by simp
qed simp

lemma pg_allocAll_spec:
  assumes "pg_inv m {}" "pg_avail m = {..<512}"
  shows "\<exists>m'. bpm_allocAll m = Inr m' \<and> pg_inv m' {..<512} \<and> pg_avail m' = {} \<and> bpm_base m' = bpm_base m \<and>
    ownerPool m' = ownerPool m \<and> allocHolder m' = allocHolder m \<and> reservedCount (pg_book m') = reservedCount (pg_book m)"
proof -
  note D = pg_invD [OF assms(1)]
  have r: "reservedCount (pg_book m) = 0" using assms(2) D(1,2) by (simp add: bk_inv_def)
  note S = seedAllUsed_spec [OF D(1)]
  show ?thesis
    using S r D(2,3) assms(2)
    by (intro exI [of _ "m\<lparr>subpageAllocator := (subpageAllocator m)\<lparr>spa_book := seedAllUsed (pg_book m)\<rparr>\<rparr>"])
      (simp add: bpm_allocAll_def spa_allocAll_def hasReservedSlots_def pg_inv_def bpm_base_def)
qed

lemma pg_freeAll_spec:
  assumes "pg_inv m {..<512}"
  shows "\<exists>m'. bpm_freeAll m = Inr m' \<and> pg_inv m' {} \<and> pg_avail m' = {..<512} \<and> bpm_base m' = bpm_base m \<and>
    ownerPool m' = ownerPool m \<and> allocHolder m' = allocHolder m"
proof -
  note D = pg_invD [OF assms]
  have av: "pg_avail m = {}" using D(5,6) by blast
  have r: "reservedCount (pg_book m) = 0" using D(1,2) av by (simp add: bk_inv_def)
  have "sb_wf (bitmap (pg_book m))" "sb_bits (bitmap (pg_book m)) = kWordCount (slotCount (pg_book m)) * 64"
    using D(1) by (simp_all add: bk_inv_def sb_inv_def)
  then obtain bk where "seedAllAvailable (pg_book m) = Inr bk" "bk_inv bk {}" "bk_avail bk = {..<512}" "slotCount bk = 512"
    using seedAllAvailable_fresh [of "pg_book m"] D(2) r by auto
  then show ?thesis
    using r D(3)
    by (intro exI [of _ "m\<lparr>subpageAllocator := (subpageAllocator m)\<lparr>spa_book := bk\<rparr>\<rparr>"])
      (simp add: bpm_freeAll_def spa_freeAll_def hasReservedSlots_def pg_inv_def bpm_base_def)
qed

abbreviation refSlot :: "PageRef \<Rightarrow> nat" where
  "refSlot r \<equiv> smallPageIndex (pr_addr r)"

lemma refSlot_lt [simp]: "smallPageIndex a < 512"
  by (simp add: smallPageIndex_def smallPagesPerBigPage_def)

lemma refSlot_page:
  assumes "bigPageBase (pr_addr r) = b"
  shows "unat (pr_addr r) div 4096 = unat b div 4096 + refSlot r"
proof -
  have "unat b div 4096 = unat (pr_addr r) div 4096 div 512 * 512"
    using assms [symmetric] by (simp add: unat_bigPageBase div_mult2_eq [symmetric] mult.commute)
  then show ?thesis
    by (simp add: smallPageIndex_def smallPagesPerBigPage_def unat_div_distrib)
qed

lemma collectPending_spec:
  assumes "\<forall>r \<in> set refs. bigPageBase (pr_addr r) = b" "length pending = 8"
  shows "\<exists>ws. collectPending b refs pending = Inr ws \<and> length ws = 8 \<and> wbits ws = wbits pending \<union> refSlot ` set refs"
  using assms
proof (induction refs arbitrary: pending)
  case (Cons r refs)
  let ?i = "refSlot r"
  have i: "?i < 512" by simp
  then have w: "?i div 64 < length pending" using Cons.prems(2) by linarith
  let ?p = "pending[?i div 64 := pending ! (?i div 64) OR bit1 (?i mod 64)]"
  have bp: "wbits ?p = insert ?i (wbits pending)"
  proof -
    have "(\<lambda>j. ?i div 64 * 64 + j) ` bits (pending ! (?i div 64) OR bit1 (?i mod 64)) =
        insert ?i ((\<lambda>j. ?i div 64 * 64 + j) ` bits (pending ! (?i div 64)))"
      by (simp add: bits_bit1)
    then show ?thesis using wbits_update [OF w] wbits_word [OF w] by auto
  qed
  obtain ws where "collectPending b refs ?p = Inr ws" "length ws = 8" "wbits ws = wbits ?p \<union> refSlot ` set refs"
    using Cons.IH [of ?p] Cons.prems by auto
  then show ?case using Cons.prems(1) w bp by (auto simp: Let_def)
qed simp

lemma pg_free_spec:
  assumes "pg_inv m L" "\<forall>r \<in> set refs. bigPageBase (pr_addr r) = bpm_base m" "distinct (map refSlot refs)"
    "refSlot ` set refs \<subseteq> L"
  shows "\<exists>m' t. bpm_freePages refs m = Inr (m', t) \<and> pg_inv m' (L - refSlot ` set refs) \<and>
    pg_avail m' = pg_avail m \<union> refSlot ` set refs \<and>
    t = \<lparr>before = occupancy L (pg_avail m), after = occupancy (L - refSlot ` set refs) (pg_avail m')\<rparr> \<and>
    bpm_base m' = bpm_base m \<and> ownerPool m' = ownerPool m \<and> allocHolder m' = allocHolder m \<and>
    reservedCount (pg_book m') = reservedCount (pg_book m)"
proof -
  note D = pg_invD [OF assms(1)]
  obtain ws where ws: "collectPending (bpm_base m) refs (replicate 8 0) = Inr ws" "length ws = 8" "wbits ws = refSlot ` set refs"
    using collectPending_spec [OF assms(2), of "replicate 8 0"] by auto
  have "card (wbits ws) = length refs" using distinct_card [OF assms(3)] ws(3) by simp
  then obtain bk t where "freeSlotsBulk ws (length refs) (pg_book m) = Inr (bk, t)" "bk_inv bk (L - wbits ws)"
      "bk_avail bk = pg_avail m \<union> wbits ws" "t = \<lparr>before = occupancy L (pg_avail m), after = occupancy (L - wbits ws) (bk_avail bk)\<rparr>"
      "slotCount bk = 512" "reservedCount bk = reservedCount (pg_book m)"
    using freeSlotsBulk_spec [OF D(1), of ws "length refs"] assms(4) ws(2,3) D(2) by auto
  then show ?thesis
    using ws D(3)
    by (intro exI [of _ "m\<lparr>subpageAllocator := (subpageAllocator m)\<lparr>spa_book := bk\<rparr>\<rparr>"] exI [of _ t])
      (simp add: bpm_freePages_def spa_free_def smallPagesPerBigPage_def pg_inv_def bpm_base_def)
qed

lemma pg_reserve_spec:
  assumes "pg_inv m {}" "4096 dvd unat a"
  shows "\<exists>m'. bpm_reservePage a m = Inr m' \<and> pg_inv m' {} \<and> pg_avail m' = pg_avail m - {smallPageIndex a} \<and>
    bpm_base m' = bpm_base m \<and> ownerPool m' = ownerPool m \<and> allocHolder m' = allocHolder m"
proof -
  note D = pg_invD [OF assms(1)]
  have w: "slotCountWidth 512 = 16" by code_simp
  have "reservedCount (pg_book m) \<le> 512" using D(1,2) by (simp add: bk_inv_def)
  then obtain bk where "reserveSlot (smallPageIndex a) (pg_book m) = Inr bk" "bk_inv bk {}"
      "bk_avail bk = pg_avail m - {smallPageIndex a}" "slotCount bk = 512"
    using reserveSlot_spec [OF D(1), of "smallPageIndex a"] D(2) w by auto
  then show ?thesis
    using D(3) assms(2)
    by (intro exI [of _ "m\<lparr>subpageAllocator := (subpageAllocator m)\<lparr>spa_book := bk\<rparr>\<rparr>"])
      (simp add: bpm_reservePage_def spa_reservePage_def mod_page_iff pg_inv_def bpm_base_def)
qed

lemma mkBigPageMetadata_spec:
  assumes "2097152 dvd unat b"
  shows "\<exists>m. mkBigPageMetadata pool b = Inr m \<and> pg_inv m {} \<and> pg_avail m = {..<512} \<and> bpm_base m = b \<and>
    ownerPool m = pool \<and> allocHolder m = SIZE_MAX"
proof -
  obtain bk where "seedAllAvailable zeroed_book = Inr bk" "bk_inv bk {}" "bk_avail bk = {..<512}" "slotCount bk = 512"
    using seedAllAvailable_fresh [of zeroed_book]
    by (auto simp: zeroed_book_def sb_wf_def sb_bits_def smallPagesPerBigPage_def)
  then show ?thesis
    using assms by (intro exI [of _ "\<lparr>subpageAllocator = \<lparr>spa_book = bk, spa_base = b\<rparr>, ownerPool = pool, allocHolder = SIZE_MAX\<rparr>"])
      (simp add: mkBigPageMetadata_def mkSmallPageAllocator_def pg_inv_def bpm_base_def)
qed

lemma pg_queries:
  assumes "pg_inv m L"
  shows "bpm_isFull m \<longleftrightarrow> pg_avail m = {}" "bpm_isEmpty m \<longleftrightarrow> L = {} \<and> pg_avail m = {..<512}"
    "hasReservedSubpages m \<longleftrightarrow> L \<union> pg_avail m \<noteq> {..<512}" "freeSubpageCount m = card (pg_avail m)"
    "reservedCount (pg_book m) + card L + card (pg_avail m) = 512"
proof -
  note D = pg_invD [OF assms]
  show "bpm_isFull m \<longleftrightarrow> pg_avail m = {}" "bpm_isEmpty m \<longleftrightarrow> L = {} \<and> pg_avail m = {..<512}"
    "freeSubpageCount m = card (pg_avail m)"
    using bk_queries [OF D(1)] D(2) by (simp_all add: bpm_isFull_def bpm_isEmpty_def freeSubpageCount_def)
  show r: "reservedCount (pg_book m) + card L + card (pg_avail m) = 512" using D(1,2) by (simp add: bk_inv_def)
  have "card (L \<union> pg_avail m) = card L + card (pg_avail m)" using D(6,7) by (simp add: card_Un_disjoint)
  moreover have "card (L \<union> pg_avail m) = 512 \<longleftrightarrow> L \<union> pg_avail m = {..<512}"
    using card_subset_eq [of "{..<512}" "L \<union> pg_avail m"] D(4,5) by (metis Un_least card_lessThan finite_lessThan)
  ultimately show "hasReservedSubpages m \<longleftrightarrow> L \<union> pg_avail m \<noteq> {..<512}"
    using r unfolding hasReservedSubpages_def hasReservedSlots_def by linarith
qed

lemma pg_return_spec:
  assumes "pg_inv m L"
  shows "pg_inv (bpm_prepareReturn m) L" "pg_avail (bpm_prepareReturn m) = pg_avail m"
    "bpm_base (bpm_prepareReturn m) = bpm_base m" "ownerPool (bpm_prepareReturn m) = ownerPool m"
    "allocHolder (bpm_prepareReturn m) = SIZE_MAX"
    "reservedCount (pg_book (bpm_prepareReturn m)) = reservedCount (pg_book m)"
  using flushAllocSide_spec [OF pg_invD(1) [OF assms]] assms
  by (simp_all add: bpm_prepareReturn_def releaseAllocHolder_def flushAllocBitmap_def pg_inv_def bpm_base_def)

lemma pg_holder_spec:
  assumes "pg_inv m L"
  shows "pg_inv (m\<lparr>allocHolder := h\<rparr>) L" "pg_avail (m\<lparr>allocHolder := h\<rparr>) = pg_avail m"
    "allocHolder m = SIZE_MAX \<Longrightarrow> markAllocHolder cpu m = Inr (m\<lparr>allocHolder := cpu\<rparr>)"
    "releaseAllocHolder m = m\<lparr>allocHolder := SIZE_MAX\<rparr>"
  using assms by (simp_all add: pg_inv_def bpm_base_def markAllocHolder_def releaseAllocHolder_def)

section \<open>Properties\<close>

text \<open>
  \<open>BigPageMetadata::allocatePages\<close> on a page held by the calling processor, with something
  available, ends and hands out exactly min(requested, available) distinct small pages of this big
  page, all of them available before and live after; the transition reports full exactly when
  nothing is left. Giving the same references to \<open>freePages\<close> restores the live and the available set.
\<close>

lemma big_page_allocate_exact:
  assumes "pg_inv m L" and "allocHolder m = cpu" and "cpu \<noteq> SIZE_MAX" and "0 < n" and "pg_avail m \<noteq> {}"
  shows "\<exists>m1 refs t m2 t2. bpm_allocatePages cpu n t0 m = Inr (m1, refs, t) \<and>
    totalPages refs = min n (card (pg_avail m)) \<and> length refs = min n (card (pg_avail m)) \<and>
    card (covered refs) = length refs \<and> covered refs \<subseteq> (+) (pg_first m) ` pg_avail m \<and>
    covered refs \<inter> (+) (pg_first m) ` L = {} \<and>
    (+) (pg_first m) ` pg_avail m1 = (+) (pg_first m) ` pg_avail m - covered refs \<and>
    (becameFull t \<longleftrightarrow> pg_avail m1 = {}) \<and>
    bpm_freePages refs m1 = Inr (m2, t2) \<and> pg_inv m2 L \<and> pg_avail m2 = pg_avail m"
proof -
  let ?s = "subpageAllocator m"
  note D = pg_invD [OF assms(1)]
  have b: "2097152 dvd unat (spa_base ?s)" using D(3) by (simp add: bpm_base_def)
  obtain m1 xs t where A: "bpm_allocatePages cpu n t0 m = Inr (m1, map (\<lambda>i. fromPageIndex i ?s) xs, t)"
      "pg_inv m1 (L \<union> set xs)" "distinct xs" "set xs \<subseteq> pg_avail m" "pg_avail m1 = pg_avail m - set xs"
      "length xs = min n (card (pg_avail m))" "becameFull t \<longleftrightarrow> pg_avail m1 = {}" "bpm_base m1 = bpm_base m"
    using pg_alloc_spec [OF assms, of t0] by blast
  let ?refs = "map (\<lambda>i. fromPageIndex i ?s) xs"
  have xs: "set xs \<subseteq> {..<512}" using A(4) D(5) by blast
  note R = slot_refs [OF b xs]
  have cov: "covered ?refs = (+) (pg_first m) ` set xs" using R(2) by (simp add: pg_first_def bpm_base_def)
  have sl: "refSlot (fromPageIndex i ?s) = i" "bigPageBase (pr_addr (fromPageIndex i ?s)) = bpm_base m" if "i \<in> set xs" for i
    using slot_address(3,5,6) [OF b, of i ?s] xs that by (auto simp: bpm_base_def)
  have im: "refSlot ` set ?refs = set xs" using sl(1) by (force simp: image_image)
  have "map refSlot ?refs = xs" using sl(1) by (simp add: map_idI)
  then obtain m2 t2 where F: "bpm_freePages ?refs m1 = Inr (m2, t2)" "pg_inv m2 (L \<union> set xs - set xs)"
      "pg_avail m2 = pg_avail m1 \<union> set xs"
    using pg_free_spec [OF A(2), of ?refs] A(3,8) sl(2) im by auto
  have "L \<union> set xs - set xs = L" using A(4) D(6) by blast
  moreover have "pg_avail m1 \<union> set xs = pg_avail m" using A(4,5) by blast
  moreover have "card (covered ?refs) = length xs" using cov distinct_card [OF A(3)] by (simp add: card_image)
  moreover have "covered ?refs \<inter> (+) (pg_first m) ` L = {}" unfolding cov using A(4) D(6) by auto
  moreover have "(+) (pg_first m) ` pg_avail m1 = (+) (pg_first m) ` pg_avail m - covered ?refs"
    unfolding cov A(5) by (rule image_set_diff) (simp add: inj_def)
  moreover have "covered ?refs \<subseteq> (+) (pg_first m) ` pg_avail m" unfolding cov using A(4) by blast
  ultimately show ?thesis
    using A F R(3) by (intro exI [of _ m1] exI [of _ ?refs] exI [of _ t] exI [of _ m2] exI [of _ t2]) simp
qed

end
