(* ===== verification/Atomic_Bit_Pool.thy ===== *)
theory Atomic_Bit_Pool
  imports Core_Math
begin

text \<open>
  \<open>AtomicBitPool\<close> (\<open>core/atomic/AtomicBitPool.h\<close>, \<open>libraries/Core/atomic/AtomicBitPool.cpp\<close>): a
  set of indices as a tree of 64-bit bitmaps. Level 0 holds the members, level k + 1 says which
  entries of level k have members below them, and every entry below the top counts them. The
  entries of all levels lie in one buffer, the top level first; \<open>cells\<close> is that buffer, by entry
  number. A right shift by 64, which C++ leaves undefined, is taken as the amd64 instruction
  performs it.
\<close>

section \<open>Layout\<close>

record Entry =
  ent_bitmap :: u64
  ent_count :: int

record CountResult =
  newCount :: int
  toggledTopLevel :: bool
  poolTransitioned :: bool

record bitpool =
  cells :: "nat \<Rightarrow> Entry"
  entryStride :: nat
  levelCount :: nat
  l1BitmapLog2Width :: nat
  capacity :: nat

datatype AddResult = AlreadyPresent | AddedToNonempty | AddedToEmpty
datatype RemoveResult = NotPresent | RemovedAndMadeEmpty | RemovedAndStayedNonempty
datatype GetResult = Success nat | PoolEmpty | Contended

definition maxLevelCount :: nat where
  "maxLevelCount = 10"

definition sizeofEntry :: nat where
  "sizeofEntry = 16"

definition computeLevelCount :: "nat \<Rightarrow> nat outcome" where
  "computeLevelCount cap =
     (if cap \<le> 64 then Inr 1
      else bindO (log2ceil_u64 (of_nat cap)) (\<lambda>l. Inr ((l + (6 - 1)) div 6)))"

definition computeL1BitmapLog2Width :: "nat \<Rightarrow> nat \<Rightarrow> nat outcome" where
  "computeL1BitmapLog2Width cap levels =
     bindO (log2ceil_u64 (of_nat cap)) (\<lambda>out. Inr (out - 6 * (levels - 1)))"

text \<open>\<open>1ull << log2ceil(capacity)\<close>; the shift by 64 is undefined.\<close>

definition roundedCapacity :: "nat \<Rightarrow> nat outcome" where
  "roundedCapacity cap =
     bindO (log2ceil_u64 (of_nat cap)) (\<lambda>l.
       if l < 64 then Inr (2 ^ l) else Inl (Undefined ''shift count 64''))"

fun upperLevels :: "nat \<Rightarrow> nat \<Rightarrow> nat \<Rightarrow> nat" where
  "upperLevels stride levelEntries 0 = 0"
| "upperLevels stride levelEntries (Suc level) =
     stride * levelEntries + upperLevels stride (levelEntries * 64) level"

definition requiredBufferSize :: "nat \<Rightarrow> nat \<Rightarrow> nat outcome" where
  "requiredBufferSize cap stride =
     bindO (roundedCapacity cap) (\<lambda>cap'. bindO (computeLevelCount cap') (\<lambda>levels.
       let stride' = max stride sizeofEntry
       in Inr (stride' * ((cap' + 63) div 64) + upperLevels stride' 1 (levels - 1))))"

definition mkAtomicBitPool :: "nat \<Rightarrow> (nat \<Rightarrow> Entry) \<Rightarrow> nat \<Rightarrow> bitpool outcome" where
  "mkAtomicBitPool cap buffer stride =
     bindO (roundedCapacity cap) (\<lambda>cap'. bindO (computeLevelCount cap') (\<lambda>levels.
       bindO (computeL1BitmapLog2Width cap' levels) (\<lambda>w. bindO (requiredBufferSize cap' stride) (\<lambda>bytes.
         Inr \<lparr>cells = (\<lambda>n. if n * max stride sizeofEntry < bytes then \<lparr>ent_bitmap = 0, ent_count = 0\<rparr> else buffer n),
              entryStride = max stride sizeofEntry, levelCount = levels, l1BitmapLog2Width = w,
              capacity = cap'\<rparr>))))"

definition geometricSum :: nat where
  "geometricSum = (2 ^ (6 * maxLevelCount) - 1) div 63"

text \<open>\<open>entryAt\<close>: the entry's number in the buffer; its address is the stride times this number.\<close>

definition entrySlot :: "nat \<Rightarrow> nat \<Rightarrow> bitpool \<Rightarrow> nat" where
  "entrySlot index level s =
     geometricSum div 2 ^ (6 * (maxLevelCount + level - levelCount s + 1)) + index"

definition entryAt :: "nat \<Rightarrow> nat \<Rightarrow> bitpool \<Rightarrow> Entry" where
  "entryAt index level s = cells s (entrySlot index level s)"

definition setEntry :: "nat \<Rightarrow> nat \<Rightarrow> Entry \<Rightarrow> bitpool \<Rightarrow> bitpool" where
  "setEntry index level v s = s\<lparr>cells := (cells s)(entrySlot index level s := v)\<rparr>"

definition shiftForLevel :: "nat \<Rightarrow> bitpool \<Rightarrow> nat" where
  "shiftForLevel level s = (if level = 1 then l1BitmapLog2Width s else 6)"

definition cumulativeShift :: "nat \<Rightarrow> bitpool \<Rightarrow> nat" where
  "cumulativeShift level s = (if level \<ge> 2 then 6 * level - (6 - l1BitmapLog2Width s) else 6 * level)"

definition bitIndexForLevel :: "nat \<Rightarrow> nat \<Rightarrow> bitpool \<Rightarrow> nat" where
  "bitIndexForLevel absoluteIndex level s =
     absoluteIndex div 2 ^ cumulativeShift level s mod 2 ^ shiftForLevel level s"

definition entryIndexForLevel :: "nat \<Rightarrow> nat \<Rightarrow> bitpool \<Rightarrow> nat" where
  "entryIndexForLevel absoluteIndex level s =
     absoluteIndex div 2 ^ (cumulativeShift level s + shiftForLevel level s)"

definition childEntryIndex :: "nat \<Rightarrow> nat \<Rightarrow> nat \<Rightarrow> bitpool \<Rightarrow> nat" where
  "childEntryIndex entryIndex bitIndex level s = entryIndex * 2 ^ shiftForLevel level s + bitIndex"

definition parentEntryIndex :: "nat \<Rightarrow> nat \<Rightarrow> bitpool \<Rightarrow> nat" where
  "parentEntryIndex entryIndex level s = entryIndex div 2 ^ shiftForLevel (level + 1) s"

definition bitIndexInParent :: "nat \<Rightarrow> nat \<Rightarrow> bitpool \<Rightarrow> nat" where
  "bitIndexInParent entryIndex level s = entryIndex mod 2 ^ shiftForLevel (level + 1) s"

section \<open>Counts\<close>

definition toggleParent :: "nat \<Rightarrow> nat \<Rightarrow> bitpool \<Rightarrow> bitpool \<times> u64 \<times> u64" where
  "toggleParent entryIndex level s =
     (let parentIdx = parentEntryIndex entryIndex level s;
          b = bit1 (bitIndexInParent entryIndex level s);
          e = entryAt parentIdx (level + 1) s
      in (setEntry parentIdx (level + 1) (e\<lparr>ent_bitmap := ent_bitmap e XOR b\<rparr>) s, ent_bitmap e, b))"

definition incrementCount :: "nat \<Rightarrow> nat \<Rightarrow> bitpool \<Rightarrow> bitpool \<times> CountResult" where
  "incrementCount entryIndex level s =
     (let e = entryAt entryIndex level s; oldCount = ent_count e;
          s1 = setEntry entryIndex level (e\<lparr>ent_count := oldCount + 1\<rparr>) s
      in if oldCount = 0 \<and> level < levelCount s - 1 then
           (case toggleParent entryIndex level s1 of (s2, oldBitmap, b) \<Rightarrow>
              (s2, if level = levelCount s - 2
                   then \<lparr>newCount = oldCount + 1, toggledTopLevel = True, poolTransitioned = (oldBitmap = 0)\<rparr>
                   else \<lparr>newCount = oldCount + 1, toggledTopLevel = False, poolTransitioned = False\<rparr>))
         else (s1, \<lparr>newCount = oldCount + 1, toggledTopLevel = False, poolTransitioned = False\<rparr>))"

definition decrementCount :: "nat \<Rightarrow> nat \<Rightarrow> bitpool \<Rightarrow> bitpool \<times> CountResult" where
  "decrementCount entryIndex level s =
     (let e = entryAt entryIndex level s; oldCount = ent_count e;
          s1 = setEntry entryIndex level (e\<lparr>ent_count := oldCount - 1\<rparr>) s
      in if oldCount = 1 \<and> level < levelCount s - 1 then
           (case toggleParent entryIndex level s1 of (s2, oldBitmap, b) \<Rightarrow>
              (s2, if level = levelCount s - 2
                   then \<lparr>newCount = oldCount - 1, toggledTopLevel = True, poolTransitioned = (oldBitmap XOR b = 0)\<rparr>
                   else \<lparr>newCount = oldCount - 1, toggledTopLevel = False, poolTransitioned = False\<rparr>))
         else (s1, \<lparr>newCount = oldCount - 1, toggledTopLevel = False, poolTransitioned = False\<rparr>))"

section \<open>Operations\<close>

definition fetch_or_L0 :: "nat \<Rightarrow> u64 \<Rightarrow> bitpool \<Rightarrow> bitpool \<times> u64" where
  "fetch_or_L0 entry msk s =
     (let e = entryAt entry 0 s
      in (setEntry entry 0 (e\<lparr>ent_bitmap := ent_bitmap e OR msk\<rparr>) s, ent_bitmap e))"

definition fetch_and_L0 :: "nat \<Rightarrow> u64 \<Rightarrow> bitpool \<Rightarrow> bitpool \<times> u64" where
  "fetch_and_L0 entry msk s =
     (let e = entryAt entry 0 s
      in (setEntry entry 0 (e\<lparr>ent_bitmap := ent_bitmap e AND msk\<rparr>) s, ent_bitmap e))"

text \<open>The count updates of \<open>add\<close> from level k upward, \<open>r\<close> levels left below the top.\<close>

fun add_up :: "nat \<Rightarrow> nat \<Rightarrow> nat \<Rightarrow> bitpool \<Rightarrow> (bitpool \<times> AddResult) outcome" where
  "add_up absoluteIndex k 0 s = Inl (Undefined ''__builtin_unreachable'')"
| "add_up absoluteIndex k (Suc r) s =
     (case incrementCount (entryIndexForLevel absoluteIndex k s) k s of
        (s', cr) \<Rightarrow>
          if k = levelCount s - 2 then
            Inr (s', if toggledTopLevel cr \<and> poolTransitioned cr then AddedToEmpty else AddedToNonempty)
          else add_up absoluteIndex (k + 1) r s')"

definition add :: "nat \<Rightarrow> bitpool \<Rightarrow> (bitpool \<times> AddResult) outcome" where
  "add absoluteIndex s =
     (let l0Entry = entryIndexForLevel absoluteIndex 0 s; msk = bit1 (bitIndexForLevel absoluteIndex 0 s)
      in case fetch_or_L0 l0Entry msk s of
           (s1, old) \<Rightarrow>
             if old AND msk \<noteq> 0 then Inr (s1, AlreadyPresent)
             else if levelCount s = 1 then Inr (s1, if old = 0 then AddedToEmpty else AddedToNonempty)
             else add_up absoluteIndex 0 (levelCount s - 1) s1)"

text \<open>The back-out loop: \<open>incrementCount\<close> at levels j, ..., j + n - 1.\<close>

fun restore_up :: "nat \<Rightarrow> nat \<Rightarrow> nat \<Rightarrow> bitpool \<Rightarrow> bitpool" where
  "restore_up absoluteIndex j 0 s = s"
| "restore_up absoluteIndex j (Suc n) s =
     restore_up absoluteIndex (j + 1) n (fst (incrementCount (entryIndexForLevel absoluteIndex j s) j s))"

text \<open>Phase 1 of \<open>remove\<close>, at levels k - 1, ..., 0: None when a count went negative.\<close>

fun remove_down :: "nat \<Rightarrow> nat \<Rightarrow> bool \<Rightarrow> bitpool \<Rightarrow> bitpool \<times> bool option" where
  "remove_down absoluteIndex 0 madeEmpty s = (s, Some madeEmpty)"
| "remove_down absoluteIndex (Suc k) madeEmpty s =
     (case decrementCount (entryIndexForLevel absoluteIndex k s) k s of
        (s1, cr) \<Rightarrow>
          if newCount cr < 0 then (restore_up absoluteIndex k (levelCount s - 1 - k) s1, None)
          else remove_down absoluteIndex k
                 (if k = levelCount s - 2 \<and> toggledTopLevel cr then poolTransitioned cr else madeEmpty) s1)"

definition remove :: "nat \<Rightarrow> bitpool \<Rightarrow> bitpool \<times> RemoveResult" where
  "remove absoluteIndex s =
     (let l0Entry = entryIndexForLevel absoluteIndex 0 s; msk = bit1 (bitIndexForLevel absoluteIndex 0 s)
      in if levelCount s = 1 then
           (case fetch_and_L0 l0Entry (NOT msk) s of
              (s1, old) \<Rightarrow>
                if old AND msk = 0 then (s1, NotPresent)
                else (s1, if old AND NOT msk = 0 then RemovedAndMadeEmpty else RemovedAndStayedNonempty))
         else
           (case remove_down absoluteIndex (levelCount s - 1) False s of
              (s1, None) \<Rightarrow> (s1, NotPresent)
            | (s1, Some madeEmpty) \<Rightarrow>
                (case fetch_and_L0 l0Entry (NOT msk) s1 of
                   (s2, old) \<Rightarrow>
                     if old AND msk = 0 then (restore_up absoluteIndex 0 (levelCount s - 1) s2, NotPresent)
                     else (s2, if madeEmpty then RemovedAndMadeEmpty else RemovedAndStayedNonempty))))"

text \<open>The amd64 \<open>shl\<close> and \<open>shr\<close> use the low six bits of the count.\<close>

definition shl64 :: "u64 \<Rightarrow> nat \<Rightarrow> u64" where
  "shl64 w n = push_bit (n mod 64) w"

definition shr64 :: "u64 \<Rightarrow> nat \<Rightarrow> u64" where
  "shr64 w n = drop_bit (n mod 64) w"

definition doRotation :: "nat \<Rightarrow> nat \<Rightarrow> u64 \<Rightarrow> nat" where
  "doRotation threadId retryCount bm =
     (let hash = of_nat threadId XOR (of_nat retryCount * 2654435761) :: u64;
          r = unat (hash AND 63);
          rotated = shl64 bm r OR shr64 bm (64 - r);
          b = (if hash AND 64 \<noteq> 0 then 63 - of_nat (countLeadingZeros rotated)
               else of_nat (countTrailingZeros rotated)) :: u64
      in unat ((b + 64 - of_nat r) AND 63))"

fun backout :: "nat \<Rightarrow> nat option list \<Rightarrow> bitpool \<Rightarrow> bitpool" where
  "backout k [] s = s"
| "backout k (d # ds) s =
     (case d of None \<Rightarrow> backout (k + 1) ds s
      | Some e \<Rightarrow> backout (k + 1) ds (fst (incrementCount e k s)))"

text \<open>
  The retry loop of \<open>getAny\<close>. Every turn either goes down a level or uses up a retry.
\<close>

function getAny_loop ::
    "nat \<Rightarrow> nat \<Rightarrow> nat \<Rightarrow> nat \<Rightarrow> nat \<Rightarrow> nat option list \<Rightarrow> bitpool \<Rightarrow> bitpool \<times> GetResult" where
  "getAny_loop threadId maxRetries retryCount level entryIndex decrementedAt s =
     (if retryCount \<le> maxRetries then
        if level = 0 then
          let bm = ent_bitmap (entryAt entryIndex 0 s)
          in if bm = 0 \<and> levelCount s = 1 then (backout 0 (take (levelCount s) decrementedAt) s, PoolEmpty)
             else
               let actualBit = doRotation threadId retryCount bm; msk = bit1 actualBit
               in case fetch_and_L0 entryIndex (NOT msk) s of
                    (s1, old) \<Rightarrow>
                      if old AND msk \<noteq> 0 then (s1, Success (push_bit 6 entryIndex OR actualBit))
                      else getAny_loop threadId maxRetries (retryCount + 1) 0 entryIndex decrementedAt s1
        else
          let bm = ent_bitmap (entryAt entryIndex level s)
          in if bm = 0 then
               if level = levelCount s - 1 then (backout 0 (take (levelCount s) decrementedAt) s, PoolEmpty)
               else
                 let s1 = (case decrementedAt ! level of None \<Rightarrow> s | Some e \<Rightarrow> fst (incrementCount e level s));
                     decrementedAt1 = decrementedAt[level := None]
                 in getAny_loop threadId maxRetries (retryCount + 1) (level + 1)
                      (parentEntryIndex entryIndex level s1) decrementedAt1 s1
             else
               let actualBit = doRotation threadId retryCount bm;
                   childEntry = childEntryIndex entryIndex actualBit level s
               in case decrementCount childEntry (level - 1) s of
                    (s1, cr) \<Rightarrow>
                      if newCount cr < 0 then
                        getAny_loop threadId maxRetries (retryCount + 1) level entryIndex decrementedAt
                          (fst (incrementCount childEntry (level - 1) s1))
                      else getAny_loop threadId maxRetries retryCount (level - 1) childEntry
                             (decrementedAt[level - 1 := Some childEntry]) s1
      else (backout 0 (take (levelCount s) decrementedAt) s, Contended))"
  by pat_completeness auto
termination
  by (relation "measures [\<lambda>(t, m, r, l, e, d, s). Suc m - r, \<lambda>(t, m, r, l, e, d, s). l]") auto

definition getAny :: "nat \<Rightarrow> nat \<Rightarrow> bitpool \<Rightarrow> bitpool \<times> GetResult" where
  "getAny threadId maxRetries s =
     getAny_loop threadId maxRetries 0 (levelCount s - 1) 0 (replicate maxLevelCount None) s"

definition isSet :: "nat \<Rightarrow> bitpool \<Rightarrow> bool" where
  "isSet absoluteIndex s \<longleftrightarrow>
     bit (ent_bitmap (entryAt (entryIndexForLevel absoluteIndex 0 s) 0 s)) (bitIndexForLevel absoluteIndex 0 s)"

definition countSet :: "bitpool \<Rightarrow> nat" where
  "countSet s = (\<Sum>i\<leftarrow>[0..<(capacity s + 63) div 64]. popcountll (ent_bitmap (entryAt i 0 s)))"

declare getAny_loop.simps [simp del]

end
