(* ===== verification/Atomic_Bit_Pool_Set.thy ===== *)
theory Atomic_Bit_Pool_Set
  imports Atomic_Bit_Pool
begin

text \<open>
  The bit pool refines a set of indices. First the geometry: which entries exist, that their places
  in the buffer are distinct and inside it, how indices of neighbouring levels relate. Then the
  effect of one count update on one level, and from it the operations: \<open>add\<close>, \<open>remove\<close> and \<open>getAny\<close>
  act on the set and report its transitions.
\<close>

section \<open>Geometry\<close>

definition bp_geom :: "nat \<Rightarrow> bitpool \<Rightarrow> bool" where
  "bp_geom c s \<longleftrightarrow> 1 \<le> c \<and> c \<le> 60 \<and> capacity s = 2 ^ c \<and>
     levelCount s = (if c \<le> 6 then 1 else (c + 5) div 6) \<and> l1BitmapLog2Width s = c - 6 * (levelCount s - 1)"

definition entriesAt :: "nat \<Rightarrow> nat \<Rightarrow> bitpool \<Rightarrow> nat" where
  "entriesAt c k s = (if k = 0 then 2 ^ (c - 6) else 64 ^ (levelCount s - 1 - k))"

lemma bp_geom_bounds:
  assumes "bp_geom c s"
  shows "1 \<le> levelCount s" "levelCount s \<le> 10" "1 < levelCount s \<Longrightarrow> 1 \<le> l1BitmapLog2Width s"
    "1 < levelCount s \<Longrightarrow> l1BitmapLog2Width s \<le> 6" "1 < levelCount s \<Longrightarrow> c = 6 * (levelCount s - 1) + l1BitmapLog2Width s"
    "1 < levelCount s \<longleftrightarrow> 6 < c"
  using assms unfolding bp_geom_def by (auto split: if_splits)

lemma shift_le:
  assumes "bp_geom c s" "k < levelCount s"
  shows "shiftForLevel k s \<le> 6"
  using bp_geom_bounds(4) [OF assms(1)] assms(2) by (auto simp: shiftForLevel_def)

lemma cumulativeShift_Suc:
  assumes "bp_geom c s" "Suc k < levelCount s"
  shows "cumulativeShift (Suc k) s = cumulativeShift k s + shiftForLevel k s"
  using bp_geom_bounds(3,4) [OF assms(1)] assms(2) by (auto simp: cumulativeShift_def shiftForLevel_def)

lemma top_span:
  assumes "bp_geom c s" "1 < levelCount s"
  shows "cumulativeShift (levelCount s - 1) s + shiftForLevel (levelCount s - 1) s = c"
  using bp_geom_bounds(3-5) [OF assms(1)] assms(2) by (auto simp: cumulativeShift_def shiftForLevel_def)

lemma entryIndex_Suc:
  assumes "bp_geom c s" "Suc k < levelCount s"
  shows "entryIndexForLevel i (Suc k) s = parentEntryIndex (entryIndexForLevel i k s) k s"
  using cumulativeShift_Suc [OF assms]
  by (simp add: entryIndexForLevel_def parentEntryIndex_def div_mult2_eq [symmetric] power_add [symmetric] add.assoc)

lemma entryIndex_top:
  assumes "bp_geom c s" "i < 2 ^ c"
  shows "entryIndexForLevel i (levelCount s - 1) s = 0"
proof (cases "1 < levelCount s")
  case True
  then show ?thesis using top_span [OF assms(1)] assms(2) by (simp add: entryIndexForLevel_def)
next
  case False
  then have l: "levelCount s = 1" "c \<le> 6" using bp_geom_bounds(1,6) [OF assms(1)] by auto
  have "i < 2 ^ 6" using assms(2) power_increasing [OF l(2), of "2 :: nat"] by linarith
  then show ?thesis using l by (simp add: entryIndexForLevel_def cumulativeShift_def shiftForLevel_def)
qed

lemma pow64: "(64 :: nat) ^ n = 2 ^ (6 * n)"
  by (simp add: power_mult)

lemma entriesAt_Suc:
  assumes "bp_geom c s" "Suc k < levelCount s"
  shows "entriesAt c k s = entriesAt c (Suc k) s * 2 ^ shiftForLevel (Suc k) s"
proof (cases "k = 0")
  case True
  have "c - 6 = 6 * (levelCount s - 1 - 1) + l1BitmapLog2Width s"
    using bp_geom_bounds(3-5) [OF assms(1)] assms(2) by (auto simp: diff_mult_distrib2)
  then show ?thesis using True by (simp add: entriesAt_def shiftForLevel_def pow64 power_add)
next
  case False
  then obtain j where j: "levelCount s - 1 - k = Suc j" "levelCount s - 1 - Suc k = j"
    using assms(2) by (metis Suc_diff_Suc diff_Suc_eq_diff_pred less_diff_conv Suc_lessE diff_diff_left plus_1_eq_Suc)
  then show ?thesis using False by (simp add: entriesAt_def shiftForLevel_def)
qed

lemma entriesAt_top: "bp_geom c s \<Longrightarrow> entriesAt c (levelCount s - 1) s = 1"
  using bp_geom_bounds(1,6) [of c s] by (auto simp: entriesAt_def)

lemma entriesAt_le:
  assumes "bp_geom c s" "k < levelCount s"
  shows "entriesAt c k s \<le> 64 ^ (levelCount s - 1 - k)"
proof (cases "k = 0")
  case True
  have "c - 6 \<le> 6 * (levelCount s - 1)"
    using bp_geom_bounds [OF assms(1)] by (cases "1 < levelCount s") auto
  then show ?thesis using True by (simp add: entriesAt_def pow64)
qed (simp add: entriesAt_def)

lemma entryIndex_lt:
  assumes "bp_geom c s" "i < 2 ^ c" "k < levelCount s"
  shows "entryIndexForLevel i k s < entriesAt c k s"
  using assms(3)
proof (induction "levelCount s - 1 - k" arbitrary: k)
  case 0
  then have "k = levelCount s - 1" by simp
  then show ?case using entryIndex_top [OF assms(1,2)] entriesAt_top [OF assms(1)] by simp
next
  case (Suc n)
  then have k: "Suc k < levelCount s" by linarith
  have "entryIndexForLevel i (Suc k) s < entriesAt c (Suc k) s" using Suc k by simp
  then have "entryIndexForLevel i k s div 2 ^ shiftForLevel (Suc k) s < entriesAt c (Suc k) s"
    using entryIndex_Suc [OF assms(1) k] by (simp add: parentEntryIndex_def)
  then show ?case unfolding entriesAt_Suc [OF assms(1) k] by (simp add: div_less_iff_less_mult)
qed

lemma child_lt:
  assumes "bp_geom c s" "Suc k < levelCount s" "e < entriesAt c (Suc k) s" "b < 2 ^ shiftForLevel (Suc k) s"
  shows "childEntryIndex e b (Suc k) s < entriesAt c k s"
proof -
  have "e * 2 ^ shiftForLevel (Suc k) s + b < (e + 1) * 2 ^ shiftForLevel (Suc k) s" using assms(4) by simp
  also have "\<dots> \<le> entriesAt c (Suc k) s * 2 ^ shiftForLevel (Suc k) s" using assms(3) by (intro mult_le_mono1) simp
  finally show ?thesis using entriesAt_Suc [OF assms(1,2)] by (simp add: childEntryIndex_def)
qed

text \<open>The children of an entry and their place in it determine each other.\<close>

lemma child_parent:
  assumes "b < 2 ^ shiftForLevel (Suc k) s"
  shows "e' = childEntryIndex e b (Suc k) s \<longleftrightarrow> parentEntryIndex e' k s = e \<and> bitIndexInParent e' k s = b"
  using assms div_mult_mod_eq [of e' "2 ^ shiftForLevel (Suc k) s"]
  by (auto simp: childEntryIndex_def parentEntryIndex_def bitIndexInParent_def)

lemma parent_lt:
  assumes "bp_geom c s" "Suc k < levelCount s" "e < entriesAt c k s"
  shows "parentEntryIndex e k s < entriesAt c (Suc k) s" "bitIndexInParent e k s < 64"
proof -
  show "parentEntryIndex e k s < entriesAt c (Suc k) s"
    using assms(3) unfolding entriesAt_Suc [OF assms(1,2)] by (simp add: parentEntryIndex_def div_less_iff_less_mult)
  have "bitIndexInParent e k s < 2 ^ shiftForLevel (Suc k) s" by (simp add: bitIndexInParent_def)
  also have "\<dots> \<le> 2 ^ 6" using shift_le [OF assms(1,2)] by (intro power_increasing) auto
  finally show "bitIndexInParent e k s < 64" by simp
qed

subsection \<open>The buffer\<close>

definition levelOffset :: "nat \<Rightarrow> nat" where
  "levelOffset d = (\<Sum>i<d. 64 ^ i)"

lemma levelOffset_closed: "63 * levelOffset d + 1 = 64 ^ d"
  by (induction d) (simp_all add: levelOffset_def)

lemma levelOffset_add: "levelOffset (m + d) = levelOffset m + 64 ^ m * levelOffset d"
  by (induction d) (simp_all add: levelOffset_def power_add algebra_simps)

lemma geometricSum_levelOffset: "geometricSum = levelOffset 10"
  using levelOffset_closed [of 10] by (simp add: geometricSum_def maxLevelCount_def)

lemma geometricSum_shift:
  assumes "d \<le> 10"
  shows "geometricSum div 2 ^ (6 * (10 - d)) = levelOffset d"
proof -
  have "geometricSum = levelOffset (10 - d) + 64 ^ (10 - d) * levelOffset d"
    using assms by (simp add: geometricSum_levelOffset levelOffset_add [symmetric])
  then have "geometricSum div 64 ^ (10 - d) = (levelOffset (10 - d) + 64 ^ (10 - d) * levelOffset d) div 64 ^ (10 - d)"
    by (rule arg_cong)
  moreover have "levelOffset (10 - d) < 64 ^ (10 - d)" using levelOffset_closed [of "10 - d"] by linarith
  ultimately have "geometricSum div 64 ^ (10 - d) = levelOffset d" by (simp del: power_strict_decreasing_iff)
  then show ?thesis by (simp only: pow64)
qed

lemma entrySlot_offset:
  assumes "bp_geom c s" "k < levelCount s"
  shows "entrySlot e k s = levelOffset (levelCount s - 1 - k) + e"
proof -
  have "maxLevelCount + k - levelCount s + 1 = 10 - (levelCount s - 1 - k)"
    using bp_geom_bounds(1,2) [OF assms(1)] assms(2) by (simp add: maxLevelCount_def)
  then show ?thesis
    using geometricSum_shift [of "levelCount s - 1 - k"] bp_geom_bounds(2) [OF assms(1)]
    by (simp add: entrySlot_def)
qed

lemma levelOffset_mono: "d < d' \<Longrightarrow> levelOffset d + 64 ^ d \<le> levelOffset d'"
  by (induction d') (auto simp: levelOffset_def less_Suc_eq)

lemma entrySlot_inj:
  assumes "bp_geom c s" "k < levelCount s" "k' < levelCount s" "e < entriesAt c k s" "e' < entriesAt c k' s"
    and "entrySlot e k s = entrySlot e' k' s"
  shows "e = e' \<and> k = k'"
proof -
  let ?d = "\<lambda>k. levelCount s - 1 - k"
  have e: "e < 64 ^ ?d k" "e' < 64 ^ ?d k'" using entriesAt_le [OF assms(1)] assms(2-5) by (meson less_le_trans)+
  have eq: "levelOffset (?d k) + e = levelOffset (?d k') + e'"
    using assms(6) entrySlot_offset [OF assms(1)] assms(2,3) by simp
  have "\<not> ?d k < ?d k'" "\<not> ?d k' < ?d k"
    using levelOffset_mono [of "?d k" "?d k'"] levelOffset_mono [of "?d k'" "?d k"] e eq by linarith+
  then have "k = k'" using assms(2,3) by linarith
  with eq show ?thesis by simp
qed

subsection \<open>Reading after writing\<close>

lemma setEntry_geometry [simp]:
  "levelCount (setEntry e k v s) = levelCount s" "capacity (setEntry e k v s) = capacity s"
  "l1BitmapLog2Width (setEntry e k v s) = l1BitmapLog2Width s" "entryStride (setEntry e k v s) = entryStride s"
  by (simp_all add: setEntry_def)

definition same_geom :: "bitpool \<Rightarrow> bitpool \<Rightarrow> bool" where
  "same_geom s s' \<longleftrightarrow> levelCount s' = levelCount s \<and> capacity s' = capacity s \<and>
     l1BitmapLog2Width s' = l1BitmapLog2Width s \<and> entryStride s' = entryStride s"

lemma same_geom_refl [simp]: "same_geom s s"
  by (simp add: same_geom_def)

lemma same_geom_trans: "same_geom s t \<Longrightarrow> same_geom t u \<Longrightarrow> same_geom s u"
  by (simp add: same_geom_def)

lemma same_geom_setEntry [simp]: "same_geom s (setEntry e k v s)"
  by (simp add: same_geom_def)

lemma same_geom_fns:
  assumes "same_geom s s'"
  shows "shiftForLevel k s' = shiftForLevel k s" "cumulativeShift k s' = cumulativeShift k s"
    "entryIndexForLevel i k s' = entryIndexForLevel i k s" "bitIndexForLevel i k s' = bitIndexForLevel i k s"
    "childEntryIndex e b k s' = childEntryIndex e b k s" "parentEntryIndex e k s' = parentEntryIndex e k s"
    "bitIndexInParent e k s' = bitIndexInParent e k s" "entrySlot e k s' = entrySlot e k s"
    "entriesAt c k s' = entriesAt c k s" "bp_geom c s' = bp_geom c s" "levelCount s' = levelCount s"
  using assms
  by (simp_all add: same_geom_def shiftForLevel_def cumulativeShift_def entryIndexForLevel_def bitIndexForLevel_def
      childEntryIndex_def parentEntryIndex_def bitIndexInParent_def entrySlot_def entriesAt_def bp_geom_def)

lemmas setEntry_fns [simp] = same_geom_fns [OF same_geom_setEntry]

lemma entryAt_setEntry:
  assumes "bp_geom c s" "k < levelCount s" "k' < levelCount s" "e < entriesAt c k s" "e' < entriesAt c k' s"
  shows "entryAt e' k' (setEntry e k v s) = (if e' = e \<and> k' = k then v else entryAt e' k' s)"
  using entrySlot_inj [OF assms] unfolding entryAt_def setEntry_fns by (auto simp: setEntry_def)

lemma setEntry_same [simp]: "setEntry e k (entryAt e k s) s = s"
  by (simp add: setEntry_def entryAt_def)

lemma setEntry_twice: "setEntry e k w (setEntry e k v s) = setEntry e k w s"
  using setEntry_fns(8) [of e k e k v s] by (simp add: setEntry_def)

section \<open>One count update\<close>

text \<open>
  Both updates add \<open>\<delta>\<close> to one count and toggle the parent's bit when the old count is \<open>t\<close>.
\<close>

definition adjust :: "int \<Rightarrow> int \<Rightarrow> nat \<Rightarrow> nat \<Rightarrow> bitpool \<Rightarrow> bitpool" where
  "adjust \<delta> t e k s =
     (let v = entryAt e k s; s1 = setEntry e k (v\<lparr>ent_count := ent_count v + \<delta>\<rparr>) s
      in if ent_count v = t \<and> k < levelCount s - 1 then fst (toggleParent e k s1) else s1)"

lemma incrementCount_adjust: "fst (incrementCount e k s) = adjust 1 0 e k s"
  by (simp add: incrementCount_def adjust_def Let_def split: prod.splits)

lemma decrementCount_adjust: "fst (decrementCount e k s) = adjust (- 1) 1 e k s"
  by (simp add: decrementCount_def adjust_def Let_def split: prod.splits)

lemma same_geom_toggleParent: "same_geom s (fst (toggleParent e k s))"
  by (simp add: toggleParent_def Let_def)

lemma same_geom_adjust [simp]: "same_geom s (adjust \<delta> t e k s)"
  using same_geom_trans [OF same_geom_setEntry same_geom_toggleParent]
  by (auto simp: adjust_def Let_def)

lemma entryAt_adjust:
  assumes g: "bp_geom c s" and k: "Suc k < levelCount s" and k': "k' < levelCount s"
    and e: "e < entriesAt c k s" and e': "e' < entriesAt c k' s"
  shows "entryAt e' k' (adjust \<delta> t e k s) = (entryAt e' k' s)
    \<lparr>ent_count := ent_count (entryAt e' k' s) + (if e' = e \<and> k' = k then \<delta> else 0),
     ent_bitmap := ent_bitmap (entryAt e' k' s) XOR
       (if e' = parentEntryIndex e k s \<and> k' = Suc k \<and> ent_count (entryAt e k s) = t
        then bit1 (bitIndexInParent e k s) else 0)\<rparr>"
proof -
  define v where "v = entryAt e k s"
  define s1 where "s1 = setEntry e k (v\<lparr>ent_count := ent_count v + \<delta>\<rparr>) s"
  let ?p = "parentEntryIndex e k s" and ?b = "bit1 (bitIndexInParent e k s)"
  have p: "?p < entriesAt c (Suc k) s" using parent_lt(1) [OF g k e] .
  have s1: "same_geom s s1" by (simp add: s1_def)
  note f = same_geom_fns [OF s1]
  have adj: "adjust \<delta> t e k s = (if ent_count v = t \<and> k < levelCount s - 1 then fst (toggleParent e k s1) else s1)"
    by (simp add: adjust_def Let_def v_def s1_def)
  have rd1: "entryAt e'' k'' s1 = (if e'' = e \<and> k'' = k then v\<lparr>ent_count := ent_count v + \<delta>\<rparr> else entryAt e'' k'' s)"
    if "k'' < levelCount s" "e'' < entriesAt c k'' s" for e'' k''
    unfolding s1_def by (rule entryAt_setEntry [OF g]) (use k e that in auto)
  show ?thesis
  proof (cases "ent_count v = t")
    case True
    define w where "w = entryAt ?p (Suc k) s"
    have w1: "entryAt ?p (Suc k) s1 = w" using rd1 [of "Suc k" ?p] k p by (simp add: w_def)
    have "adjust \<delta> t e k s = setEntry ?p (Suc k) (w\<lparr>ent_bitmap := ent_bitmap w XOR ?b\<rparr>) s1"
      using True k w1 f adj by (simp add: toggleParent_def Let_def)
    moreover have "entryAt e' k' (setEntry ?p (Suc k) (w\<lparr>ent_bitmap := ent_bitmap w XOR ?b\<rparr>) s1) =
        (if e' = ?p \<and> k' = Suc k then w\<lparr>ent_bitmap := ent_bitmap w XOR ?b\<rparr> else entryAt e' k' s1)"
      by (rule entryAt_setEntry) (use g k k' e' p f in auto)
    ultimately show ?thesis using rd1 [OF k' e'] True by (simp add: w_def v_def)
  next
    case False
    then have "adjust \<delta> t e k s = s1" by (simp add: adj)
    then show ?thesis using rd1 [OF k' e'] False by (simp add: v_def)
  qed
qed

text \<open>An increment undoes the decrement before it, in every cell.\<close>

lemma cells_setEntry: "cells (setEntry e k v s) = (cells s)(entrySlot e k s := v)"
  by (simp add: setEntry_def)

lemma bitpool_eqI: "same_geom s s' \<Longrightarrow> cells s = cells s' \<Longrightarrow> s = (s' :: bitpool)"
  by (simp add: same_geom_def)

lemma cells_adjust:
  assumes "entrySlot (parentEntryIndex e k s) (Suc k) s \<noteq> entrySlot e k s" "Suc k < levelCount s"
  shows "cells (adjust \<delta> t e k s) = (let v = entryAt e k s; p = parentEntryIndex e k s; w = entryAt p (Suc k) s
    in if ent_count v = t
       then (cells s)(entrySlot e k s := v\<lparr>ent_count := ent_count v + \<delta>\<rparr>,
              entrySlot p (Suc k) s := w\<lparr>ent_bitmap := ent_bitmap w XOR bit1 (bitIndexInParent e k s)\<rparr>)
       else (cells s)(entrySlot e k s := v\<lparr>ent_count := ent_count v + \<delta>\<rparr>))"
  using assms by (auto simp: adjust_def toggleParent_def Let_def cells_setEntry entryAt_def)

lemma ent_count_update_idem: "ent_count v = n \<Longrightarrow> v\<lparr>ent_count := n\<rparr> = (v :: Entry)"
  by simp

lemma adjust_undo:
  assumes g: "bp_geom c s" and k: "Suc k < levelCount s" and e: "e < entriesAt c k s"
  shows "adjust 1 0 e k (adjust (- 1) 1 e k s) = s"
proof -
  let ?t = "adjust (- 1) 1 e k s" and ?p = "parentEntryIndex e k s"
  have ne: "entrySlot ?p (Suc k) s \<noteq> entrySlot e k s"
    using entrySlot_inj [OF g k _ parent_lt(1) [OF g k e] e] k by auto
  note f = same_geom_fns [OF same_geom_adjust [of s "- 1" 1 e k]]
  have "cells (adjust 1 0 e k ?t) = cells s"
    using cells_adjust [of e k ?t 1 0] cells_adjust [of e k s "- 1" 1] ne k
    by (auto simp: f Let_def entryAt_def xor.assoc ent_count_update_idem)
  then show ?thesis
    using same_geom_trans [OF same_geom_adjust same_geom_adjust] bitpool_eqI by (metis)
qed

section \<open>The invariant\<close>

definition below :: "nat set \<Rightarrow> nat \<Rightarrow> nat \<Rightarrow> bitpool \<Rightarrow> nat set" where
  "below S k e s = {i \<in> S. entryIndexForLevel i k s = e}"

text \<open>Level k: the counts of its entries and the bitmaps above them.\<close>

definition level_ok :: "nat \<Rightarrow> nat set \<Rightarrow> nat \<Rightarrow> bitpool \<Rightarrow> bool" where
  "level_ok c S k s \<longleftrightarrow>
     (\<forall>e < entriesAt c k s. ent_count (entryAt e k s) = int (card (below S k e s))) \<and>
     (\<forall>e < entriesAt c (Suc k) s. \<forall>b. bit (ent_bitmap (entryAt e (Suc k) s)) b \<longleftrightarrow>
        b < 2 ^ shiftForLevel (Suc k) s \<and> below S k (childEntryIndex e b (Suc k) s) s \<noteq> {})"

definition leaves_ok :: "nat \<Rightarrow> nat set \<Rightarrow> bitpool \<Rightarrow> bool" where
  "leaves_ok c S s \<longleftrightarrow>
     (\<forall>e < entriesAt c 0 s. \<forall>b. bit (ent_bitmap (entryAt e 0 s)) b \<longleftrightarrow> b < 64 \<and> e * 64 + b \<in> S)"

definition bp_inv :: "nat \<Rightarrow> nat set \<Rightarrow> bitpool \<Rightarrow> bool" where
  "bp_inv c S s \<longleftrightarrow> bp_geom c s \<and> S \<subseteq> {..<2 ^ c} \<and> leaves_ok c S s \<and> (\<forall>k. Suc k < levelCount s \<longrightarrow> level_ok c S k s)"

lemma finite_members: "S \<subseteq> {..<2 ^ c} \<Longrightarrow> finite (S :: nat set)"
  by (rule finite_subset) auto

lemma finite_below: "finite S \<Longrightarrow> finite (below S k e s)"
  by (simp add: below_def)

lemma below_cong: "same_geom s s' \<Longrightarrow> below S k e s' = below S k e s"
  by (simp add: below_def same_geom_fns)

lemma leaf_index:
  "entryIndexForLevel i 0 s = i div 64" "bitIndexForLevel i 0 s = i mod 64"
  by (simp_all add: entryIndexForLevel_def bitIndexForLevel_def cumulativeShift_def shiftForLevel_def)

text \<open>An update at level k leaves the other levels and the members alone.\<close>

lemma adjust_frame:
  assumes g: "bp_geom c s" and k: "Suc k < levelCount s" and e: "e < entriesAt c k s"
  shows "Suc j < levelCount s \<Longrightarrow> j \<noteq> k \<Longrightarrow> level_ok c S j (adjust \<delta> t e k s) \<longleftrightarrow> level_ok c S j s"
    and "leaves_ok c S (adjust \<delta> t e k s) \<longleftrightarrow> leaves_ok c S s"
proof -
  note f = same_geom_fns [OF same_geom_adjust [of s \<delta> t e k]]
  note rd = entryAt_adjust [OF g k _ e]
  show "level_ok c S j (adjust \<delta> t e k s) \<longleftrightarrow> level_ok c S j s" if "Suc j < levelCount s" "j \<noteq> k"
    using that by (simp add: level_ok_def f below_def rd)
  show "leaves_ok c S (adjust \<delta> t e k s) \<longleftrightarrow> leaves_ok c S s"
    using k by (simp add: leaves_ok_def f rd)
qed

text \<open>
  The one level an update concerns: the counts follow the set when the member \<open>i\<close> below the entry
  is added or removed.
\<close>

lemma card_below_insert:
  assumes "finite S" "i \<notin> S"
  shows "card (below (insert i S) k e s) = card (below S k e s) + (if e = entryIndexForLevel i k s then 1 else 0)"
proof -
  have "below (insert i S) k e s = (if e = entryIndexForLevel i k s then insert i (below S k e s) else below S k e s)"
    by (auto simp: below_def)
  moreover have "i \<notin> below S k x s" for x using assms by (simp add: below_def)
  ultimately show ?thesis using finite_below [OF assms(1)] by simp
qed

lemma bit_xor_bit1: "n < 64 \<Longrightarrow> bit (w XOR bit1 n) b \<longleftrightarrow> (if b = n then \<not> bit w b else bit w b)"
  by (auto simp: bit_xor_iff bit_bit1)

lemma adjust_level:
  assumes g: "bp_geom c s" and k: "Suc k < levelCount s" and i: "i < 2 ^ c" "i \<notin> S" and S: "finite S"
  defines "e \<equiv> entryIndexForLevel i k s"
  shows "level_ok c S k s \<Longrightarrow> level_ok c (insert i S) k (adjust 1 0 e k s)"
    and "level_ok c (insert i S) k s \<Longrightarrow> level_ok c S k (adjust (- 1) 1 e k s)"
proof -
  have e: "e < entriesAt c k s" using entryIndex_lt [OF g i(1)] k by (simp add: e_def)
  note p = parent_lt [OF g k e]
  have kk: "k < levelCount s" using k by simp
  have cb: "below (insert i S) k x s = (if x = e then insert i (below S k x s) else below S k x s)" for x
    by (auto simp: below_def e_def)
  have ch: "childEntryIndex x b (Suc k) s = e \<longleftrightarrow> x = parentEntryIndex e k s \<and> b = bitIndexInParent e k s"
    if "b < 2 ^ shiftForLevel (Suc k) s" for x b
    using child_parent [OF that, of e x] by auto
  have bp: "bitIndexInParent e k s < 2 ^ shiftForLevel (Suc k) s" by (simp add: bitIndexInParent_def)
  note crd = card_below_insert [OF S i(2), of k _ s, folded e_def]
  show "level_ok c (insert i S) k (adjust 1 0 e k s)" if ok: "level_ok c S k s"
  proof -
    note f = same_geom_fns [OF same_geom_adjust [of s 1 0 e k]]
    note rd = entryAt_adjust [OF g k _ e, of _ _ 1 0]
    have c0: "ent_count (entryAt e k s) = 0 \<longleftrightarrow> below S k e s = {}"
      using ok e finite_below [OF S] by (simp add: level_ok_def)
    have "ent_count (entryAt x k (adjust 1 0 e k s)) = int (card (below (insert i S) k x s))" if "x < entriesAt c k s" for x
      using ok that rd [OF kk that] crd by (simp add: level_ok_def)
    moreover have "bit (ent_bitmap (entryAt x (Suc k) (adjust 1 0 e k s))) b \<longleftrightarrow>
        b < 2 ^ shiftForLevel (Suc k) s \<and> below (insert i S) k (childEntryIndex x b (Suc k) s) s \<noteq> {}"
      if x: "x < entriesAt c (Suc k) s" for x b
    proof -
      have old: "bit (ent_bitmap (entryAt x (Suc k) s)) b \<longleftrightarrow>
          b < 2 ^ shiftForLevel (Suc k) s \<and> below S k (childEntryIndex x b (Suc k) s) s \<noteq> {}"
        using ok x by (simp add: level_ok_def)
      show ?thesis
        using rd [OF k x] old c0 bp ch [of b x] p(2) cb [of "childEntryIndex x b (Suc k) s"]
        by (auto simp: bit_xor_bit1)
    qed
    ultimately show ?thesis by (simp add: level_ok_def f below_cong [OF same_geom_adjust])
  qed
  show "level_ok c S k (adjust (- 1) 1 e k s)" if ok: "level_ok c (insert i S) k s"
  proof -
    note f = same_geom_fns [OF same_geom_adjust [of s "- 1" 1 e k]]
    note rd = entryAt_adjust [OF g k _ e, of _ _ "- 1" 1]
    have c1: "ent_count (entryAt e k s) = 1 \<longleftrightarrow> below S k e s = {}"
      using ok e finite_below [OF S] crd [of e] by (simp add: level_ok_def)
    have "ent_count (entryAt x k (adjust (- 1) 1 e k s)) = int (card (below S k x s))" if "x < entriesAt c k s" for x
      using ok that rd [OF kk that] crd by (simp add: level_ok_def)
    moreover have "bit (ent_bitmap (entryAt x (Suc k) (adjust (- 1) 1 e k s))) b \<longleftrightarrow>
        b < 2 ^ shiftForLevel (Suc k) s \<and> below S k (childEntryIndex x b (Suc k) s) s \<noteq> {}"
      if x: "x < entriesAt c (Suc k) s" for x b
    proof -
      have old: "bit (ent_bitmap (entryAt x (Suc k) s)) b \<longleftrightarrow>
          b < 2 ^ shiftForLevel (Suc k) s \<and> below (insert i S) k (childEntryIndex x b (Suc k) s) s \<noteq> {}"
        using ok x by (simp add: level_ok_def)
      show ?thesis
        using rd [OF k x] old c1 bp ch [of b x] p(2) cb [of "childEntryIndex x b (Suc k) s"]
        by (auto simp: bit_xor_bit1)
    qed
    ultimately show ?thesis by (simp add: level_ok_def f below_cong [OF same_geom_adjust])
  qed
qed

section \<open>Add and remove\<close>

lemma incrementCount_result:
  assumes g: "bp_geom c s" and k: "Suc k < levelCount s" and e: "e < entriesAt c k s"
  shows "incrementCount e k s = (adjust 1 0 e k s,
    \<lparr>newCount = ent_count (entryAt e k s) + 1,
     toggledTopLevel = (ent_count (entryAt e k s) = 0 \<and> k = levelCount s - 2),
     poolTransitioned = (ent_count (entryAt e k s) = 0 \<and> k = levelCount s - 2 \<and>
       ent_bitmap (entryAt (parentEntryIndex e k s) (Suc k) s) = 0)\<rparr>)"
proof -
  have "entryAt (parentEntryIndex e k s) (Suc k) (setEntry e k v s) = entryAt (parentEntryIndex e k s) (Suc k) s" for v
    using entryAt_setEntry [OF g _ k e parent_lt(1) [OF g k e]] k by simp
  moreover have "k < levelCount s - 1" "levelCount s - 2 < levelCount s - Suc 0" using k by linarith+
  ultimately show ?thesis
    by (simp add: incrementCount_adjust [symmetric]) (simp add: incrementCount_def toggleParent_def Let_def)
qed

lemma decrementCount_result:
  assumes g: "bp_geom c s" and k: "Suc k < levelCount s" and e: "e < entriesAt c k s"
  shows "decrementCount e k s = (adjust (- 1) 1 e k s,
    \<lparr>newCount = ent_count (entryAt e k s) - 1,
     toggledTopLevel = (ent_count (entryAt e k s) = 1 \<and> k = levelCount s - 2),
     poolTransitioned = (ent_count (entryAt e k s) = 1 \<and> k = levelCount s - 2 \<and>
       ent_bitmap (entryAt (parentEntryIndex e k s) (Suc k) s) XOR bit1 (bitIndexInParent e k s) = 0)\<rparr>)"
proof -
  have "entryAt (parentEntryIndex e k s) (Suc k) (setEntry e k v s) = entryAt (parentEntryIndex e k s) (Suc k) s" for v
    using entryAt_setEntry [OF g _ k e parent_lt(1) [OF g k e]] k by simp
  moreover have "k < levelCount s - 1" "levelCount s - 2 < levelCount s - Suc 0" using k by linarith+
  ultimately show ?thesis
    by (simp add: decrementCount_adjust [symmetric]) (simp add: decrementCount_def toggleParent_def Let_def)
qed

lemma top_bitmap_empty:
  assumes g: "bp_geom c s" and l: "1 < levelCount s" and ok: "level_ok c S (levelCount s - 2) s" and S: "S \<subseteq> {..<2 ^ c}"
  shows "ent_bitmap (entryAt 0 (levelCount s - 1) s) = 0 \<longleftrightarrow> S = {}"
proof
  let ?k = "levelCount s - 2"
  have k: "Suc ?k < levelCount s" "Suc ?k = levelCount s - 1" using l by auto
  have bm: "bit (ent_bitmap (entryAt 0 (levelCount s - 1) s)) b \<longleftrightarrow>
      b < 2 ^ shiftForLevel (Suc ?k) s \<and> below S ?k (childEntryIndex 0 b (Suc ?k) s) s \<noteq> {}" for b
    using ok k(2) entriesAt_top [OF g] by (simp add: level_ok_def)
  show "S = {}" if z: "ent_bitmap (entryAt 0 (levelCount s - 1) s) = 0"
  proof (rule ccontr)
    assume "S \<noteq> {}"
    then obtain i where i: "i \<in> S" "i < 2 ^ c" using S by auto
    let ?e = "entryIndexForLevel i ?k s"
    have "parentEntryIndex ?e ?k s = 0" using entryIndex_Suc [OF g k(1)] entryIndex_top [OF g i(2)] k(2) by simp
    moreover have "bitIndexInParent ?e ?k s < 2 ^ shiftForLevel (Suc ?k) s" by (simp add: bitIndexInParent_def)
    ultimately have "bit (ent_bitmap (entryAt 0 (levelCount s - 1) s)) (bitIndexInParent ?e ?k s)"
      using bm child_parent [of "bitIndexInParent ?e ?k s" ?k s ?e 0] i(1) by (auto simp: below_def)
    with z show False by simp
  qed
  show "ent_bitmap (entryAt 0 (levelCount s - 1) s) = 0" if "S = {}"
    using that bm by (intro bit_word_eqI) (simp add: below_def)
qed

lemma add_up_correct:
  assumes "bp_geom c s" "Suc k < levelCount s" "r = levelCount s - 1 - k" "S \<subseteq> {..<2 ^ c}" "i < 2 ^ c" "i \<notin> S"
    and "leaves_ok c (insert i S) s" "\<And>j. j < k \<Longrightarrow> level_ok c (insert i S) j s"
    and "\<And>j. k \<le> j \<Longrightarrow> Suc j < levelCount s \<Longrightarrow> level_ok c S j s"
  shows "\<exists>s'. add_up i k r s = Inr (s', if S = {} then AddedToEmpty else AddedToNonempty) \<and>
    bp_inv c (insert i S) s' \<and> same_geom s s'"
  using assms
proof (induction r arbitrary: k s)
  case 0
  then show ?case by simp
next
  case (Suc r)
  let ?e = "entryIndexForLevel i k s" and ?s' = "adjust 1 0 (entryIndexForLevel i k s) k s"
  have e: "?e < entriesAt c k s" using entryIndex_lt [OF Suc.prems(1,5)] Suc.prems(2) by simp
  have fin: "finite S" using finite_members [OF Suc.prems(4)] .
  note inc = incrementCount_result [OF Suc.prems(1,2) e]
  note frame = adjust_frame [OF Suc.prems(1,2) e]
  note f = same_geom_fns [OF same_geom_adjust [of s 1 0 ?e k]]
  have lk: "level_ok c (insert i S) k ?s'"
    using adjust_level(1) [OF Suc.prems(1,2,5,6) fin] Suc.prems(9) [of k] Suc.prems(2) by simp
  have lt: "level_ok c (insert i S) j ?s'" if "j \<le> k" for j
    using that lk frame(1) [of j] Suc.prems(2) Suc.prems(8) [of j] by (cases "j = k") auto
  have gt: "level_ok c S j ?s'" if "k < j" "Suc j < levelCount s" for j
    using that frame(1) [of j] Suc.prems(9) [of j] by auto
  have lv: "leaves_ok c (insert i S) ?s'" using frame(2) Suc.prems(7) by simp
  show ?case
  proof (cases "k = levelCount s - 2")
    case True
    have l: "1 < levelCount s" using Suc.prems(2) by simp
    have par: "parentEntryIndex ?e k s = 0" "Suc k = levelCount s - 1"
      using entryIndex_Suc [OF Suc.prems(1,2)] entryIndex_top [OF Suc.prems(1,5)] True l by (auto simp: Suc_diff_Suc numeral_2_eq_2)
    have lok: "level_ok c S k s" using Suc.prems(2,9) by simp
    have cnt: "ent_count (entryAt ?e k s) = 0" if "S = {}"
      using lok e that by (simp add: level_ok_def below_def)
    have "bp_inv c (insert i S) ?s'"
      unfolding bp_inv_def using Suc.prems(1,4,5) lv lt True f by auto
    moreover have "ent_bitmap (entryAt 0 (Suc k) s) = 0 \<longleftrightarrow> S = {}"
      using top_bitmap_empty [OF Suc.prems(1) l _ Suc.prems(4)] lok True par(2) by simp
    ultimately show ?thesis
      using inc True par cnt by (auto simp: f)
  next
    case False
    then have k: "Suc (Suc k) < levelCount s" using Suc.prems(2) by linarith
    have "\<exists>s'. add_up i (Suc k) r ?s' = Inr (s', if S = {} then AddedToEmpty else AddedToNonempty) \<and>
      bp_inv c (insert i S) s' \<and> same_geom ?s' s'"
      by (rule Suc.IH) (use Suc.prems(1,3-6) k lv lt gt f in auto)
    then show ?thesis using inc False same_geom_trans [OF same_geom_adjust] by auto
  qed
qed

lemma leaves_bit:
  assumes "leaves_ok c S s" "bp_geom c s" "i < 2 ^ c"
  shows "bit (ent_bitmap (entryAt (i div 64) 0 s)) (i mod 64) \<longleftrightarrow> i \<in> S"
  using assms entryIndex_lt [OF assms(2,3), of 0] bp_geom_bounds(1) [OF assms(2)]
  by (simp add: leaves_ok_def leaf_index)

text \<open>Writing one leaf bitmap, with the bit of \<open>i\<close> set or cleared.\<close>

lemma setLeaf_frame:
  assumes g: "bp_geom c s" and e: "e < entriesAt c 0 s" and w: "w = entryAt e 0 s"
  shows "Suc k < levelCount s \<Longrightarrow> level_ok c S k (setEntry e 0 (w\<lparr>ent_bitmap := b\<rparr>) s) \<longleftrightarrow> level_ok c S k s"
proof -
  have rd: "entryAt x j (setEntry e 0 (w\<lparr>ent_bitmap := b\<rparr>) s) = (if x = e \<and> j = 0 then w\<lparr>ent_bitmap := b\<rparr> else entryAt x j s)"
    if "j < levelCount s" "x < entriesAt c j s" for x j
    by (rule entryAt_setEntry [OF g]) (use that e bp_geom_bounds(1) [OF g] in auto)
  show "level_ok c S k (setEntry e 0 (w\<lparr>ent_bitmap := b\<rparr>) s) \<longleftrightarrow> level_ok c S k s" if "Suc k < levelCount s"
  proof -
    have "ent_count (entryAt x k (setEntry e 0 (w\<lparr>ent_bitmap := b\<rparr>) s)) = ent_count (entryAt x k s)"
      if "x < entriesAt c k s" for x using rd [of k x] that \<open>Suc k < levelCount s\<close> w by simp
    moreover have "entryAt x (Suc k) (setEntry e 0 (w\<lparr>ent_bitmap := b\<rparr>) s) = entryAt x (Suc k) s"
      if "x < entriesAt c (Suc k) s" for x using rd [of "Suc k" x] that \<open>Suc k < levelCount s\<close> by simp
    ultimately show ?thesis unfolding level_ok_def by (simp add: below_def)
  qed
qed

lemma leaves_insert:
  assumes g: "bp_geom c s" and i: "i < 2 ^ c" and ok: "leaves_ok c S s"
  shows "leaves_ok c (insert i S) (fst (fetch_or_L0 (i div 64) (bit1 (i mod 64)) s))"
    and "leaves_ok c (S - {i}) (fst (fetch_and_L0 (i div 64) (NOT (bit1 (i mod 64))) s))"
proof -
  have e: "i div 64 < entriesAt c 0 s" and l: "0 < levelCount s"
    using entryIndex_lt [OF g i, of 0] bp_geom_bounds(1) [OF g] by (auto simp: leaf_index)
  have ie: "x * 64 + b = i \<longleftrightarrow> x = i div 64 \<and> b = i mod 64" if "b < 64" for x b :: nat using that by auto
  note rd = entryAt_setEntry [OF g l l e]
  show "leaves_ok c (insert i S) (fst (fetch_or_L0 (i div 64) (bit1 (i mod 64)) s))"
    using ok ie rd unfolding leaves_ok_def fetch_or_L0_def Let_def
    by (auto simp: bit_or_iff bit_bit1)
  show "leaves_ok c (S - {i}) (fst (fetch_and_L0 (i div 64) (NOT (bit1 (i mod 64))) s))"
    using ok ie rd unfolding leaves_ok_def fetch_and_L0_def Let_def
    by (auto simp: bit_and_iff bit_not_iff bit_bit1)
qed

lemma bp_invD:
  assumes "bp_inv c S s"
  shows "bp_geom c s" "S \<subseteq> {..<2 ^ c}" "finite S" "leaves_ok c S s"
    "\<And>k. Suc k < levelCount s \<Longrightarrow> level_ok c S k s"
  using assms finite_members by (auto simp: bp_inv_def)

lemma leaves_single:
  assumes "bp_inv c S s" "levelCount s = 1"
  shows "ent_bitmap (entryAt 0 0 s) = 0 \<longleftrightarrow> S = {}"
proof -
  note I = bp_invD [OF assms(1)]
  have c: "c \<le> 6" using bp_geom_bounds(6) [OF I(1)] assms(2) by simp
  have "(2 :: nat) ^ c \<le> 2 ^ 6" by (rule power_increasing [OF c]) simp
  then have S: "i < 64" if "i \<in> S" for i using that I(2) by auto
  have "bits (ent_bitmap (entryAt 0 0 s)) = S"
    using I(4) c S by (auto simp: leaves_ok_def entriesAt_def bits_def)
  then show ?thesis by (simp flip: bits_empty_iff)
qed

lemma fetch_or_present:
  assumes "bit (ent_bitmap (entryAt e 0 s)) b" "b < 64"
  shows "fetch_or_L0 e (bit1 b) s = (s, ent_bitmap (entryAt e 0 s))"
proof -
  have "ent_bitmap (entryAt e 0 s) OR bit1 b = ent_bitmap (entryAt e 0 s)"
    using assms by (intro bit_word_eqI) (auto simp: bit_or_iff bit_bit1)
  then show ?thesis by (simp add: fetch_or_L0_def Let_def)
qed

lemma fetch_and_absent:
  assumes "\<not> bit (ent_bitmap (entryAt e 0 s)) b"
  shows "fetch_and_L0 e (NOT (bit1 b)) s = (s, ent_bitmap (entryAt e 0 s))"
proof -
  have "ent_bitmap (entryAt e 0 s) AND NOT (bit1 b) = ent_bitmap (entryAt e 0 s)"
    using assms by (intro bit_word_eqI) (auto simp: bit_and_iff bit_not_iff bit_bit1)
  then show ?thesis by (simp add: fetch_and_L0_def Let_def)
qed

lemma snd_fetch [simp]:
  "snd (fetch_or_L0 e m s) = ent_bitmap (entryAt e 0 s)" "snd (fetch_and_L0 e m s) = ent_bitmap (entryAt e 0 s)"
  by (simp_all add: fetch_or_L0_def fetch_and_L0_def Let_def)

lemma same_geom_fetch [simp]: "same_geom s (fst (fetch_or_L0 e m s))" "same_geom s (fst (fetch_and_L0 e m s))"
  by (simp_all add: fetch_or_L0_def fetch_and_L0_def Let_def)

lemma fetch_levels:
  assumes "bp_geom c s" "e < entriesAt c 0 s" "Suc k < levelCount s"
  shows "level_ok c S k (fst (fetch_or_L0 e m s)) \<longleftrightarrow> level_ok c S k s"
    "level_ok c S k (fst (fetch_and_L0 e m s)) \<longleftrightarrow> level_ok c S k s"
  using setLeaf_frame [OF assms(1,2) refl assms(3)] by (simp_all add: fetch_or_L0_def fetch_and_L0_def Let_def)

lemma add_correct:
  assumes inv: "bp_inv c S s" and i: "i < 2 ^ c"
  shows "\<exists>s'. add i s = Inr (s', if i \<in> S then AlreadyPresent else if S = {} then AddedToEmpty else AddedToNonempty) \<and>
    bp_inv c (insert i S) s' \<and> same_geom s s'"
proof -
  note I = bp_invD [OF inv]
  let ?e = "i div 64" and ?b = "i mod 64"
  define old where "old = ent_bitmap (entryAt ?e 0 s)"
  define s1 where "s1 = fst (fetch_or_L0 ?e (bit1 ?b) s)"
  have f: "fetch_or_L0 ?e (bit1 ?b) s = (s1, old)" by (simp add: s1_def old_def prod_eq_iff)
  have m: "old AND bit1 ?b \<noteq> 0 \<longleftrightarrow> i \<in> S"
    using leaves_bit [OF I(4,1) i] and_bit1_iff [of ?b old] by (simp add: old_def)
  have g1: "same_geom s s1" by (simp add: s1_def)
  note gf = same_geom_fns [OF g1]
  have e: "?e < entriesAt c 0 s" using entryIndex_lt [OF I(1) i, of 0] bp_geom_bounds(1) [OF I(1)] by (simp add: leaf_index)
  have lv1: "leaves_ok c (insert i S) s1" using leaves_insert(1) [OF I(1) i I(4)] by (simp add: s1_def)
  have lk1: "level_ok c S k s1" if "Suc k < levelCount s" for k
    using fetch_levels(1) [OF I(1) e that] I(5) [OF that] by (simp add: s1_def)
  show ?thesis
  proof (cases "i \<in> S")
    case True
    then have "s1 = s" using fetch_or_present [of ?e s ?b] leaves_bit [OF I(4,1) i] by (simp add: s1_def)
    then show ?thesis using True f m inv by (simp add: add_def leaf_index insert_absorb)
  next
    case False
    show ?thesis
    proof (cases "levelCount s = 1")
      case True
      have "?e = 0" using e entriesAt_top [OF I(1)] True by simp
      then have "old = 0 \<longleftrightarrow> S = {}" using leaves_single [OF inv True] by (simp add: old_def)
      moreover have "bp_inv c (insert i S) s1" unfolding bp_inv_def using I(1,2) i lv1 True gf by auto
      ultimately show ?thesis using False True f m g1 by (simp add: add_def leaf_index)
    next
      case l: False
      then have l: "1 < levelCount s" using bp_geom_bounds(1) [OF I(1)] by simp
      have "\<exists>s'. add_up i 0 (levelCount s - 1) s1 = Inr (s', if S = {} then AddedToEmpty else AddedToNonempty) \<and>
        bp_inv c (insert i S) s' \<and> same_geom s1 s'"
        by (rule add_up_correct) (use I(1,2) i False lv1 lk1 l gf in auto)
      then show ?thesis using False l f m same_geom_trans [OF g1] by (auto simp: add_def leaf_index)
    qed
  qed
qed

subsection \<open>Backing out\<close>

lemma incrementCount_fst: "fst (incrementCount e k s) = adjust 1 0 e k s"
  by (rule incrementCount_adjust)

lemma same_geom_restore: "same_geom s (restore_up i j n s)"
  by (induction i j n s rule: restore_up.induct)
    (auto simp: incrementCount_fst intro: same_geom_trans [OF same_geom_adjust])

text \<open>
  Phase 1 of \<open>remove\<close> for any index: either it backs out to the state it started from, or
  restoring from level 0 would.
\<close>

lemma remove_down_restores:
  assumes "bp_geom c s" "i < 2 ^ c" "k \<le> levelCount s - 1" "restore_up i k (levelCount s - 1 - k) s = s0"
  shows "case remove_down i k me s of
      (s', None) \<Rightarrow> s' = s0
    | (s', Some m) \<Rightarrow> restore_up i 0 (levelCount s - 1) s' = s0 \<and> same_geom s s' \<and>
        (\<forall>e < entriesAt c 0 s. ent_bitmap (entryAt e 0 s') = ent_bitmap (entryAt e 0 s))"
  using assms
proof (induction k arbitrary: me s)
  case 0
  then show ?case by simp
next
  case (Suc k)
  let ?e = "entryIndexForLevel i k s" and ?s1 = "adjust (- 1) 1 (entryIndexForLevel i k s) k s"
  have k: "Suc k < levelCount s" using Suc.prems(3) by linarith
  have e: "?e < entriesAt c k s" using entryIndex_lt [OF Suc.prems(1,2)] k by simp
  note f = same_geom_fns [OF same_geom_adjust [of s "- 1" 1 ?e k]]
  have r: "restore_up i k (levelCount s - 1 - k) ?s1 = s0"
  proof -
    have "levelCount s - 1 - k = Suc (levelCount s - 1 - Suc k)" using k by linarith
    then show ?thesis
      using adjust_undo [OF Suc.prems(1) k e] Suc.prems(4) by (simp add: incrementCount_fst f)
  qed
  have leaf: "ent_bitmap (entryAt e' 0 ?s1) = ent_bitmap (entryAt e' 0 s)" if "e' < entriesAt c 0 s" for e'
    using entryAt_adjust [OF Suc.prems(1) k _ e that] bp_geom_bounds(1) [OF Suc.prems(1)] by simp
  note dec = decrementCount_result [OF Suc.prems(1) k e]
  show ?case
  proof (cases "ent_count (entryAt ?e k s) - 1 < 0")
    case True
    then show ?thesis using dec r by simp
  next
    case False
    define cr where "cr = snd (decrementCount ?e k s)"
    have D: "decrementCount ?e k s = (?s1, cr)" "newCount cr = ent_count (entryAt ?e k s) - 1"
      using dec by (simp_all add: cr_def)
    define me' where "me' = (if k = levelCount s - 2 \<and> toggledTopLevel cr then poolTransitioned cr else me)"
    have unf: "remove_down i (Suc k) me s = remove_down i k me' ?s1" using False D(2) by (simp add: D(1) me'_def)
    have IH: "case remove_down i k me' ?s1 of (s', None) \<Rightarrow> s' = s0
        | (s', Some m) \<Rightarrow> restore_up i 0 (levelCount ?s1 - 1) s' = s0 \<and> same_geom ?s1 s' \<and>
            (\<forall>e < entriesAt c 0 ?s1. ent_bitmap (entryAt e 0 s') = ent_bitmap (entryAt e 0 ?s1))"
      by (rule Suc.IH) (use Suc.prems(1,2) k r f in auto)
    obtain s' m where "remove_down i k me' ?s1 = (s', m)" by (cases "remove_down i k me' ?s1")
    then show ?thesis
      using IH leaf unfolding unf f by (cases m) (auto intro: same_geom_trans [OF same_geom_adjust])
  qed
qed

text \<open>Phase 1 for a member.\<close>

lemma remove_down_member:
  assumes "bp_geom c s" "i < 2 ^ c" "i \<notin> S" "S \<subseteq> {..<2 ^ c}" "k \<le> levelCount s - 1"
    and "\<And>j. j < k \<Longrightarrow> level_ok c (insert i S) j s" "\<And>j. k \<le> j \<Longrightarrow> Suc j < levelCount s \<Longrightarrow> level_ok c S j s"
    and "k < levelCount s - 1 \<Longrightarrow> me \<longleftrightarrow> S = {}" "k = levelCount s - 1 \<Longrightarrow> \<not> me" "leaves_ok c T s" "1 < levelCount s"
  shows "\<exists>s'. remove_down i k me s = (s', Some (S = {})) \<and> same_geom s s' \<and> leaves_ok c T s' \<and>
    (\<forall>j. Suc j < levelCount s \<longrightarrow> level_ok c S j s')"
  using assms
proof (induction k arbitrary: me s)
  case 0
  then show ?case by simp
next
  case (Suc k)
  let ?e = "entryIndexForLevel i k s" and ?s1 = "adjust (- 1) 1 (entryIndexForLevel i k s) k s"
  have k: "Suc k < levelCount s" using Suc.prems(5,11) by linarith
  have e: "?e < entriesAt c k s" using entryIndex_lt [OF Suc.prems(1,2)] k by simp
  have fin: "finite S" using finite_members [OF Suc.prems(4)] .
  note f = same_geom_fns [OF same_geom_adjust [of s "- 1" 1 ?e k]]
  note frame = adjust_frame [OF Suc.prems(1) k e]
  note dec = decrementCount_result [OF Suc.prems(1) k e]
  have okk: "level_ok c (insert i S) k s" using Suc.prems(6) by simp
  have cnt: "ent_count (entryAt ?e k s) = int (card (below S k ?e s)) + 1"
    using okk e card_below_insert [OF fin Suc.prems(3), of k ?e s] by (simp add: level_ok_def)
  have lk: "level_ok c S k ?s1" using adjust_level(2) [OF Suc.prems(1) k Suc.prems(2,3) fin okk] .
  have lt: "level_ok c (insert i S) j ?s1" if "j < k" for j
    using that frame(1) [of j] Suc.prems(6) [of j] k by auto
  have ge: "level_ok c S j ?s1" if "k \<le> j" "Suc j < levelCount s" for j
    using that lk frame(1) [of j] Suc.prems(7) [of j] by (cases "j = k") auto
  have lv: "leaves_ok c T ?s1" using frame(2) Suc.prems(10) by simp
  define cr where "cr = snd (decrementCount ?e k s)"
  have D: "decrementCount ?e k s = (?s1, cr)" "newCount cr = ent_count (entryAt ?e k s) - 1"
    using dec by (simp_all add: cr_def)
  define me' where "me' = (if k = levelCount s - 2 \<and> toggledTopLevel cr then poolTransitioned cr else me)"
  have unf: "remove_down i (Suc k) me s = remove_down i k me' ?s1" using cnt D(2) by (simp add: D(1) me'_def)
  have me': "me' \<longleftrightarrow> S = {}"
  proof (cases "k = levelCount s - 2")
    case True
    have par: "parentEntryIndex ?e k s = 0" "Suc k = levelCount s - 1"
      using entryIndex_Suc [OF Suc.prems(1) k] entryIndex_top [OF Suc.prems(1,2)] True k by (auto simp: Suc_diff_Suc numeral_2_eq_2)
    have nme: "\<not> me" using Suc.prems(9) True par(2) by simp
    have top: "ent_bitmap (entryAt 0 (Suc k) ?s1) = 0 \<longleftrightarrow> S = {}"
      using top_bitmap_empty [of c ?s1 S] Suc.prems(1,4,11) lk True par(2) f by simp
    have "ent_bitmap (entryAt 0 (Suc k) ?s1) = ent_bitmap (entryAt 0 (Suc k) s) XOR
        (if ent_count (entryAt ?e k s) = 1 then bit1 (bitIndexInParent ?e k s) else 0)"
      using entryAt_adjust [OF Suc.prems(1) k k e, of 0 "- 1" 1] par entriesAt_top [OF Suc.prems(1)] by simp
    moreover have "ent_count (entryAt ?e k s) = 1" if "S = {}" using cnt that by (simp add: below_def)
    ultimately show ?thesis using True nme dec par top by (auto simp: me'_def cr_def)
  next
    case False
    then show ?thesis using Suc.prems(8) k by (simp add: me'_def)
  qed
  have "\<exists>s'. remove_down i k me' ?s1 = (s', Some (S = {})) \<and> same_geom ?s1 s' \<and> leaves_ok c T s' \<and>
    (\<forall>j. Suc j < levelCount ?s1 \<longrightarrow> level_ok c S j s')"
    by (rule Suc.IH) (use Suc.prems(1-4,11) k lt ge lv me' f in auto)
  then show ?case unfolding unf f by (blast intro: same_geom_trans [OF same_geom_adjust])
qed

lemma remove_correct:
  assumes inv: "bp_inv c S s" and i: "i < 2 ^ c"
  shows "i \<notin> S \<Longrightarrow> remove i s = (s, NotPresent)"
    and "i \<in> S \<Longrightarrow> \<exists>s'. remove i s = (s', if S = {i} then RemovedAndMadeEmpty else RemovedAndStayedNonempty) \<and>
      bp_inv c (S - {i}) s' \<and> same_geom s s'"
proof -
  note I = bp_invD [OF inv]
  let ?e = "i div 64" and ?b = "i mod 64"
  have e: "?e < entriesAt c 0 s" using entryIndex_lt [OF I(1) i, of 0] bp_geom_bounds(1) [OF I(1)] by (simp add: leaf_index)
  note lb = leaves_bit [OF I(4,1) i]
  have m: "ent_bitmap (entryAt ?e 0 s) AND bit1 ?b = 0 \<longleftrightarrow> i \<notin> S"
    using lb and_bit1_eq_0_iff [of ?b "ent_bitmap (entryAt ?e 0 s)"] by simp
  show "remove i s = (s, NotPresent)" if nin: "i \<notin> S"
  proof (cases "levelCount s = 1")
    case True
    then show ?thesis using fetch_and_absent [of ?e s ?b] lb nin m by (simp add: remove_def leaf_index)
  next
    case False
    have R: "case remove_down i (levelCount s - 1) False s of (s', None) \<Rightarrow> s' = s
      | (s', Some m) \<Rightarrow> restore_up i 0 (levelCount s - 1) s' = s \<and> same_geom s s' \<and>
          (\<forall>e < entriesAt c 0 s. ent_bitmap (entryAt e 0 s') = ent_bitmap (entryAt e 0 s))"
      by (rule remove_down_restores) (use I(1) i in auto)
    show ?thesis
    proof (cases "remove_down i (levelCount s - 1) False s")
      case (Pair s1 r)
      then show ?thesis
        using R False fetch_and_absent [of ?e s1 ?b] lb nin m e
        by (cases r) (auto simp: remove_def leaf_index)
    qed
  qed
  show "\<exists>s'. remove i s = (s', if S = {i} then RemovedAndMadeEmpty else RemovedAndStayedNonempty) \<and>
      bp_inv c (S - {i}) s' \<and> same_geom s s'" if mem: "i \<in> S"
  proof (cases "levelCount s = 1")
    case True
    define s1 where "s1 = fst (fetch_and_L0 ?e (NOT (bit1 ?b)) s)"
    have f: "fetch_and_L0 ?e (NOT (bit1 ?b)) s = (s1, ent_bitmap (entryAt ?e 0 s))" by (simp add: s1_def prod_eq_iff)
    have g1: "same_geom s s1" by (simp add: s1_def)
    have inv1: "bp_inv c (S - {i}) s1"
      unfolding bp_inv_def using I(1,2) leaves_insert(2) [OF I(1) i I(4)] True same_geom_fns [OF g1] by (auto simp: s1_def)
    have e0: "?e = 0" using e entriesAt_top [OF I(1)] True by simp
    have "ent_bitmap (entryAt 0 0 s1) = ent_bitmap (entryAt 0 0 s) AND NOT (bit1 ?b)"
      using entryAt_setEntry [OF I(1), of 0 0 0 0] e e0 True by (simp add: s1_def fetch_and_L0_def Let_def)
    moreover have "ent_bitmap (entryAt 0 0 s1) = 0 \<longleftrightarrow> S = {i}"
      using leaves_single [OF inv1] True same_geom_fns(11) [OF g1] mem by auto
    ultimately show ?thesis using f m mem True inv1 g1 e0 by (simp add: remove_def leaf_index)
  next
    case False
    then have l: "1 < levelCount s" using bp_geom_bounds(1) [OF I(1)] by simp
    have S: "insert i (S - {i}) = S" using mem by blast
    have "\<exists>s'. remove_down i (levelCount s - 1) False s = (s', Some (S - {i} = {})) \<and> same_geom s s' \<and>
      leaves_ok c S s' \<and> (\<forall>j. Suc j < levelCount s \<longrightarrow> level_ok c (S - {i}) j s')"
      by (rule remove_down_member) (use I i S l in auto)
    then obtain s1 where s1: "remove_down i (levelCount s - 1) False s = (s1, Some (S - {i} = {}))" "same_geom s s1"
      "leaves_ok c S s1" "\<And>j. Suc j < levelCount s \<Longrightarrow> level_ok c (S - {i}) j s1" by blast
    note f1 = same_geom_fns [OF s1(2)]
    have g1: "bp_geom c s1" using I(1) f1 by simp
    define s2 where "s2 = fst (fetch_and_L0 ?e (NOT (bit1 ?b)) s1)"
    have f: "fetch_and_L0 ?e (NOT (bit1 ?b)) s1 = (s2, ent_bitmap (entryAt ?e 0 s1))" by (simp add: s2_def prod_eq_iff)
    have m1: "ent_bitmap (entryAt ?e 0 s1) AND bit1 ?b \<noteq> 0"
      using leaves_bit [OF s1(3) g1 i] mem and_bit1_iff [of ?b "ent_bitmap (entryAt ?e 0 s1)"] by simp
    have g2: "same_geom s1 s2" by (simp add: s2_def)
    have "bp_inv c (S - {i}) s2"
      unfolding bp_inv_def using g1 I(2) leaves_insert(2) [OF g1 i s1(3)] fetch_levels(2) [OF g1, of ?e] e s1(4)
        same_geom_fns [OF g2] f1 by (auto simp: s2_def)
    moreover have "S - {i} = {} \<longleftrightarrow> S = {i}" using mem by auto
    ultimately show ?thesis using s1(1) f m1 False same_geom_trans [OF s1(2) g2] by (auto simp: remove_def leaf_index)
  qed
qed

end
