(* ===== verification/Atomic_Bit_Pool_Get.thy ===== *)
theory Atomic_Bit_Pool_Get
  imports Atomic_Bit_Pool_Set
begin

text \<open>
  The rest of the bit pool's contract: the rotation picks a set bit, \<open>getAny\<close> takes a member, the
  constructor gives an empty pool whose entries lie inside the buffer, and the pool as an instance of
  the interface its clients use (locale \<open>index_pool\<close>).
\<close>

section \<open>Rotation\<close>

lemma bit_rotated:
  assumes "r < 64"
  shows "bit (shl64 w r OR shr64 w (64 - r)) j \<longleftrightarrow> j < 64 \<and> bit w ((j + 64 - r) mod 64)"
proof (cases "j < 64")
  case False
  then show ?thesis by (auto dest: bit_u64_lt)
next
  case j: True
  have big: "\<not> bit w n" if "64 \<le> n" for n using that by (auto dest: bit_u64_lt)
  consider "r = 0" | "0 < r" "r \<le> j" | "0 < r" "j < r" by linarith
  then show ?thesis
  proof cases
    case 1
    then show ?thesis using j by (simp add: shl64_def shr64_def)
  next
    case 2
    have eq: "j + 64 - r = (j - r) + 64" using 2 by simp
    have "(j + 64 - r) mod 64 = j - r" unfolding eq using j by simp
    moreover have "(64 - r) mod 64 = 64 - r" using 2 by simp
    ultimately show ?thesis
      using 2 j assms big [of "64 + j - r"]
      by (auto simp: shl64_def shr64_def bit_or_iff bit_push_bit_iff bit_drop_bit_eq possible_bit_def)
  next
    case 3
    then have "(j + 64 - r) mod 64 = j + 64 - r" "(64 - r) mod 64 = 64 - r" by auto
    then show ?thesis
      using 3 j assms by (auto simp: shl64_def shr64_def bit_or_iff bit_push_bit_iff bit_drop_bit_eq add.commute)
  qed
qed

lemma unat_and_63: "unat (w AND 63 :: u64) = unat w mod 64"
proof -
  have "w AND 63 = take_bit 6 w" by (simp add: take_bit_eq_mask mask_eq_exp_minus_1)
  then have "unat (w AND 63) = take_bit 6 (unat w)" by (simp only: unsigned_take_bit_eq)
  then show ?thesis by (simp only: take_bit_eq_mod) simp
qed

lemma doRotation_bit:
  assumes "w \<noteq> 0"
  shows "bit w (doRotation t n w)"
proof -
  define hash :: u64 where "hash = of_nat t XOR (of_nat n * 2654435761)"
  define r where "r = unat (hash AND 63)"
  define rot where "rot = shl64 w r OR shr64 w (64 - r)"
  define b where "b = (if hash AND 64 \<noteq> 0 then 63 - clzll rot else ctzll rot)"
  have r: "r < 64" by (simp add: r_def unat_and_63)
  note rotj = bit_rotated [OF r, of w, folded rot_def]
  obtain i where i: "i < 64" "bit w i" using word_nonzero_bit [OF assms] by blast
  have "((i + r) mod 64 + 64 - r) mod 64 = i"
    using i r by (cases "i + r < 64") (auto simp: mod_if)
  then have "bit rot ((i + r) mod 64)" using rotj i by simp
  then have rot: "rot \<noteq> 0" by auto
  have b: "b < 64" "bit rot b" using ctzll_spec [OF rot] clzll_spec [OF rot] by (auto simp: b_def)
  have word: "(if hash AND 64 \<noteq> 0 then 63 - of_nat (countLeadingZeros rot) else of_nat (countTrailingZeros rot)) = (of_nat b :: u64)"
    using rot clzll_spec(2) [OF rot] of_nat_diff [of "clzll rot" 63, where 'a = u64]
    by (simp add: b_def countLeadingZeros_def countTrailingZeros_def)
  have "of_nat b + 64 - of_nat r = (of_nat (b + 64 - r) :: u64)" using r by (simp add: of_nat_diff)
  then have "doRotation t n w = unat ((of_nat (b + 64 - r) :: u64) AND 63)"
    unfolding doRotation_def Let_def hash_def [symmetric] r_def [symmetric] rot_def [symmetric] word by simp
  also have "\<dots> = (b + 64 - r) mod 64"
    using b(1) by (simp only: unat_and_63 unat_of_nat) (simp add: take_bit_eq_mod mod_mod_cancel)
  finally show ?thesis using rotj b by simp
qed

section \<open>Taking a member\<close>

lemma leaf_address:
  assumes "b < 64"
  shows "push_bit 6 (e :: nat) OR b = e * 64 + b"
proof -
  have "\<not> bit b n" if "6 \<le> n" for n
  proof -
    have "b < 2 ^ n" using assms power_increasing [OF that, of "2 :: nat"] by simp
    then show ?thesis by (simp add: bit_iff_odd)
  qed
  then have "push_bit 6 e AND b = 0" by (intro bit_eqI) (auto simp: bit_and_iff bit_push_bit_iff)
  then have "push_bit 6 e OR b = push_bit 6 e + b" by (rule disjunctive_add_eq_or [symmetric])
  then show ?thesis by (simp add: push_bit_eq_mult)
qed

lemma getAny_loop_member:
  assumes "bp_geom c s" "S \<subseteq> {..<2 ^ c}" "leaves_ok c S s" "l < levelCount s" "e < entriesAt c l s"
    and "x \<in> S" "entryIndexForLevel x l s = e" "\<And>j. j < l \<Longrightarrow> level_ok c S j s"
    and "\<And>j y. l \<le> j \<Longrightarrow> Suc j < levelCount s \<Longrightarrow> y \<in> S \<Longrightarrow> entryIndexForLevel y l s = e \<Longrightarrow> level_ok c (S - {y}) j s"
    and "n \<le> m"
  shows "\<exists>y s'. getAny_loop t m n l e ds s = (s', Success y) \<and> y \<in> S \<and> bp_inv c (S - {y}) s' \<and> same_geom s s'"
  using assms
proof (induction l arbitrary: e x ds s)
  case 0
  define bm where "bm = ent_bitmap (entryAt e 0 s)"
  have leaf: "bit bm b \<longleftrightarrow> b < 64 \<and> e * 64 + b \<in> S" for b
    using "0.prems"(3,5) by (simp add: leaves_ok_def bm_def)
  have "e * 64 + x mod 64 = x" using "0.prems"(7) div_mult_mod_eq [of x 64] by (simp only: leaf_index)
  then have "bit bm (x mod 64)" unfolding leaf using "0.prems"(6) by simp
  then have "bm \<noteq> 0" by auto
  define b where "b = doRotation t n bm"
  define y where "y = e * 64 + b"
  have b: "bit bm b" "b < 64" "y \<in> S" using doRotation_bit [OF \<open>bm \<noteq> 0\<close>] leaf by (auto simp: b_def y_def)
  have ye: "y div 64 = e" "y mod 64 = b" using b(2) by (auto simp: y_def)
  have y: "y < 2 ^ c" using b(3) "0.prems"(2) by auto
  define s1 where "s1 = fst (fetch_and_L0 e (NOT (bit1 b)) s)"
  have f: "fetch_and_L0 e (NOT (bit1 b)) s = (s1, bm)" by (simp add: s1_def bm_def prod_eq_iff)
  have g1: "same_geom s s1" by (simp add: s1_def)
  have "leaves_ok c (S - {y}) s1" using leaves_insert(2) [OF "0.prems"(1) y "0.prems"(3)] ye by (simp add: s1_def)
  moreover have "level_ok c (S - {y}) j s1" if "Suc j < levelCount s" for j
    using fetch_levels(2) [OF "0.prems"(1,5) that] "0.prems"(9) [of j y] that b(3) ye by (simp add: s1_def leaf_index)
  ultimately have "bp_inv c (S - {y}) s1"
    unfolding bp_inv_def using "0.prems"(1,2) same_geom_fns [OF g1] by auto
  moreover have "getAny_loop t m n 0 e ds s = (s1, Success y)"
  proof -
    have "bm AND bit1 b \<noteq> 0" using and_bit1_iff [OF b(2)] b(1) by blast
    then have "getAny_loop t m n 0 e ds s = (s1, Success (push_bit 6 e OR b))"
      unfolding getAny_loop.simps [of t m n 0 e ds s] Let_def bm_def [symmetric] b_def [symmetric] f
      using "0.prems"(10) \<open>bm \<noteq> 0\<close> by simp
    then show ?thesis unfolding leaf_address [OF b(2)] y_def .
  qed
  ultimately show ?case using b(3) g1 by blast
next
  case (Suc k)
  have k: "Suc k < levelCount s" using Suc.prems(4) .
  have okk: "level_ok c S k s" using Suc.prems(8) by simp
  define bm where "bm = ent_bitmap (entryAt e (Suc k) s)"
  have lev: "bit bm b \<longleftrightarrow> b < 2 ^ shiftForLevel (Suc k) s \<and> below S k (childEntryIndex e b (Suc k) s) s \<noteq> {}" for b
    using okk Suc.prems(5) by (simp add: level_ok_def bm_def)
  let ?ex = "entryIndexForLevel x k s"
  have "parentEntryIndex ?ex k s = e" using entryIndex_Suc [OF Suc.prems(1) k] Suc.prems(7) by simp
  moreover have "bitIndexInParent ?ex k s < 2 ^ shiftForLevel (Suc k) s" by (simp add: bitIndexInParent_def)
  ultimately have "bit bm (bitIndexInParent ?ex k s)"
    using lev child_parent [of "bitIndexInParent ?ex k s" k s ?ex e] Suc.prems(6) by (auto simp: below_def)
  then have nz: "bm \<noteq> 0" by auto
  define b where "b = doRotation t n bm"
  define ch where "ch = childEntryIndex e b (Suc k) s"
  have b: "b < 2 ^ shiftForLevel (Suc k) s" "below S k ch s \<noteq> {}"
    using doRotation_bit [OF nz] lev by (auto simp: b_def ch_def)
  have ch: "ch < entriesAt c k s" unfolding ch_def by (rule child_lt [OF Suc.prems(1) k Suc.prems(5) b(1)])
  have par: "parentEntryIndex ch k s = e" using child_parent [OF b(1), of ch e] by (simp add: ch_def)
  obtain z where z: "z \<in> S" "entryIndexForLevel z k s = ch" using b(2) by (auto simp: below_def)
  have fin: "finite S" using finite_members [OF Suc.prems(2)] .
  have cnt: "ent_count (entryAt ch k s) = int (card (below S k ch s))" using okk ch by (simp add: level_ok_def)
  have pos: "0 < card (below S k ch s)" using b(2) finite_below [OF fin] by (simp add: card_gt_0_iff)
  define s1 where "s1 = adjust (- 1) 1 ch k s"
  have g1: "same_geom s s1" by (simp add: s1_def)
  note f = same_geom_fns [OF g1]
  note frame = adjust_frame [OF Suc.prems(1) k ch, where \<delta> = "- 1" and t = 1, folded s1_def]
  define cr where "cr = snd (decrementCount ch k s)"
  have D: "decrementCount ch k s = (s1, cr)" "\<not> newCount cr < 0"
    using decrementCount_result [OF Suc.prems(1) k ch] cnt pos by (auto simp: cr_def s1_def)
  have up: "level_ok c (S - {y}) j s1"
    if "k \<le> j" "Suc j < levelCount s1" "y \<in> S" "entryIndexForLevel y k s1 = ch" for j y
  proof (cases "j = k")
    case True
    have "insert y (S - {y}) = S" "y < 2 ^ c" using that(3) Suc.prems(2) by auto
    then show ?thesis
      using adjust_level(2) [OF Suc.prems(1) k, of y "S - {y}"] okk fin that(4) True f by (simp add: s1_def)
  next
    case False
    have "entryIndexForLevel y (Suc k) s = e" using entryIndex_Suc [OF Suc.prems(1) k] that(4) par f by simp
    then have "level_ok c (S - {y}) j s" using Suc.prems(9) [of j y] that False f by simp
    then show ?thesis using frame(1) [of j] that False f by simp
  qed
  have "\<exists>y s'. getAny_loop t m n k ch (ds[k := Some ch]) s1 = (s', Success y) \<and> y \<in> S \<and> bp_inv c (S - {y}) s' \<and> same_geom s1 s'"
  proof (rule Suc.IH [of s1 ch z])
    show "level_ok c S j s1" if "j < k" for j using frame(1) [of j] that k Suc.prems(8) [of j] by simp
    show "level_ok c (S - {y}) j s1"
      if "k \<le> j" "Suc j < levelCount s1" "y \<in> S" "entryIndexForLevel y k s1 = ch" for j y
      using up that by blast
    show "leaves_ok c S s1" using frame(2) Suc.prems(3) by simp
  qed (use Suc.prems(1,2,10) k ch z f in auto)
  moreover have "getAny_loop t m n (Suc k) e ds s = getAny_loop t m n k ch (ds[k := Some ch]) s1"
    using Suc.prems(10) nz D
    by (simp add: getAny_loop.simps [of t m n "Suc k"] Let_def bm_def [symmetric] b_def [symmetric] ch_def [symmetric])
  ultimately show ?case using same_geom_trans [OF g1] by auto
qed

lemma backout_nothing: "backout k (replicate n None) s = s"
  by (induction n arbitrary: k) simp_all

lemma getAny_correct:
  assumes inv: "bp_inv c S s"
  shows "S = {} \<Longrightarrow> getAny t m s = (s, PoolEmpty)"
    and "S \<noteq> {} \<Longrightarrow> \<exists>y s'. getAny t m s = (s', Success y) \<and> y \<in> S \<and> bp_inv c (S - {y}) s' \<and> same_geom s s'"
proof -
  note I = bp_invD [OF inv]
  show "getAny t m s = (s, PoolEmpty)" if e: "S = {}"
  proof (cases "levelCount s = 1")
    case True
    then show ?thesis
      using leaves_single [OF inv] e
      by (simp add: getAny_def getAny_loop.simps [of t m 0 0] Let_def backout_nothing)
  next
    case False
    then have l: "1 < levelCount s" using bp_geom_bounds(1) [OF I(1)] by simp
    then have "ent_bitmap (entryAt 0 (levelCount s - 1) s) = 0"
      using top_bitmap_empty [OF I(1) l I(5) I(2)] e by (simp add: Suc_diff_Suc numeral_2_eq_2)
    then show ?thesis
      unfolding getAny_def getAny_loop.simps [of t m 0 "levelCount s - 1"] Let_def
      using l by (simp add: backout_nothing)
  qed
  show "\<exists>y s'. getAny t m s = (s', Success y) \<and> y \<in> S \<and> bp_inv c (S - {y}) s' \<and> same_geom s s'" if "S \<noteq> {}"
  proof -
    obtain x where x: "x \<in> S" "x < 2 ^ c" using \<open>S \<noteq> {}\<close> I(2) by blast
    show ?thesis
      unfolding getAny_def
      by (rule getAny_loop_member [where x = x])
        (use I x entryIndex_top [OF I(1) x(2)] entriesAt_top [OF I(1)] bp_geom_bounds(1) [OF I(1)] in auto)
  qed
qed

section \<open>Construction\<close>

lemma unat_of_nat_pow: "c \<le> 60 \<Longrightarrow> unat (of_nat (2 ^ c) :: u64) = 2 ^ c"
proof -
  assume "c \<le> 60"
  then have "(2 :: nat) ^ c \<le> 2 ^ 60" by (rule power_increasing) simp
  then show ?thesis by (subst unat_of_nat) (simp add: take_bit_nat_eq_self)
qed

lemma log2ceil_pow:
  assumes "1 \<le> c" "c \<le> 60"
  shows "log2ceil_u64 (of_nat (2 ^ c)) = Inr c"
proof -
  let ?v = "of_nat (2 ^ c) :: u64"
  obtain k where k: "c = Suc k" using assms(1) by (cases c) auto
  have u: "unat ?v = 2 ^ c" by (rule unat_of_nat_pow [OF assms(2)])
  then have "?v \<noteq> 0" by (metis unat_0 power_not_zero zero_neq_numeral)
  then have "unat (?v - 1) = 2 ^ c - 1" using unat_minus_one u by metis
  moreover have "(1 :: nat) \<le> 2 ^ k" by simp
  ultimately have "log2floor_u64 (?v - 1) = Inr k" unfolding log2floor_u64_iff k by simp
  then show ?thesis using k by (simp add: log2ceil_u64_def)
qed

lemma computeLevelCount_pow:
  assumes "1 \<le> c" "c \<le> 60"
  shows "computeLevelCount (2 ^ c) = Inr (if c \<le> 6 then 1 else (c + 5) div 6)"
proof -
  have "(2 :: nat) ^ c \<le> 64 \<longleftrightarrow> c \<le> 6" using power_increasing_iff [of "2 :: nat" c 6] by simp
  then show ?thesis using log2ceil_pow [OF assms] by (simp add: computeLevelCount_def)
qed

lemma roundedCapacity_pow: "1 \<le> c \<Longrightarrow> c \<le> 60 \<Longrightarrow> roundedCapacity (2 ^ c) = Inr (2 ^ c)"
  using log2ceil_pow [of c] by (simp add: roundedCapacity_def)

lemma upperLevels_offset: "upperLevels stride m n = stride * m * levelOffset n"
proof (induction n arbitrary: m)
  case (Suc n)
  have "levelOffset (Suc n) = 1 + 64 * levelOffset n" using levelOffset_add [of 1 n] by (simp add: levelOffset_def)
  then show ?case using Suc by (simp add: algebra_simps)
qed (simp add: levelOffset_def)

lemma leaf_entries:
  assumes "1 \<le> c"
  shows "(2 ^ c + 63) div 64 = (2 :: nat) ^ (c - 6)"
proof (cases "c \<le> 6")
  case True
  have "(2 :: nat) ^ c \<le> 2 ^ 6" by (rule power_increasing [OF True]) simp
  moreover have "(1 :: nat) \<le> 2 ^ c" by simp
  ultimately have "(2 ^ c + 63) div 64 = (1 :: nat)" by (intro div_nat_eqI) auto
  then show ?thesis using True by simp
next
  case False
  then have "(2 :: nat) ^ c = 64 * 2 ^ (c - 6)" using power_add [of "2 :: nat" 6 "c - 6"] by simp
  then show ?thesis by simp
qed

lemma requiredBufferSize_pow:
  assumes "1 \<le> c" "c \<le> 60" "bp_geom c s"
  shows "requiredBufferSize (2 ^ c) stride =
    Inr (max stride sizeofEntry * (levelOffset (levelCount s - 1) + entriesAt c 0 s))"
  using assms computeLevelCount_pow [OF assms(1,2)] roundedCapacity_pow [OF assms(1,2)] leaf_entries [OF assms(1)]
  by (simp add: requiredBufferSize_def Let_def upperLevels_offset bp_geom_def entriesAt_def algebra_simps)

lemma entrySlot_bound:
  assumes "bp_geom c s" "k < levelCount s" "e < entriesAt c k s"
  shows "entrySlot e k s < levelOffset (levelCount s - 1) + entriesAt c 0 s"
proof (cases "k = 0")
  case True
  then show ?thesis using entrySlot_offset [OF assms(1,2)] assms(3) by simp
next
  case False
  then have "levelOffset (levelCount s - 1 - k) + 64 ^ (levelCount s - 1 - k) \<le> levelOffset (levelCount s - 1)"
    using assms(2) by (intro levelOffset_mono) auto
  then show ?thesis
    using entrySlot_offset [OF assms(1,2)] entriesAt_le [OF assms(1,2)] assms(3) by (simp add: trans_less_add1)
qed

lemma mkAtomicBitPool_correct:
  assumes "2 \<le> cap" "cap \<le> 2 ^ 60"
  obtains c s where "mkAtomicBitPool cap buffer stride = Inr s" "bp_inv c {} s" "cap \<le> 2 ^ c" "2 ^ (c - 1) < cap"
proof -
  have u: "unat (of_nat cap :: u64) = cap"
    using assms(2) by (subst unat_of_nat) (simp add: take_bit_nat_eq_self)
  have "(of_nat cap :: u64) \<noteq> 1" using u assms(1) by (metis unat_1 numeral_le_one_iff semiring_norm(69))
  then obtain c where c: "log2ceil_u64 (of_nat cap) = Inr c" using log2ceil_u64_ok by blast
  have C: "2 ^ (c - 1) < cap" "cap \<le> 2 ^ c" "1 \<le> c" using log2ceil_u64_spec [OF c] u assms(1) by auto
  have "(2 :: nat) ^ (c - 1) < 2 ^ 60" using C(1) assms(2) by linarith
  then have "c - 1 < 60" by (rule power_less_imp_less_exp [rotated]) simp
  then have c60: "c \<le> 60" by simp
  have rc: "roundedCapacity cap = Inr (2 ^ c)" using c c60 by (simp add: roundedCapacity_def)
  define levels where "levels = (if c \<le> 6 then 1 else (c + 5) div 6)"
  define bytes where "bytes = max stride sizeofEntry * (levelOffset (levels - 1) + 2 ^ (c - 6))"
  define s where "s = \<lparr>cells = (\<lambda>n. if n * max stride sizeofEntry < bytes then \<lparr>ent_bitmap = 0, ent_count = 0\<rparr> else buffer n),
    entryStride = max stride sizeofEntry, levelCount = levels, l1BitmapLog2Width = c - 6 * (levels - 1), capacity = 2 ^ c\<rparr>"
  have g: "bp_geom c s" using C(3) c60 by (simp add: bp_geom_def s_def levels_def)
  have rb: "requiredBufferSize (2 ^ c) stride = Inr bytes"
    using requiredBufferSize_pow [OF C(3) c60 g] by (simp add: bytes_def s_def entriesAt_def)
  have "mkAtomicBitPool cap buffer stride = Inr s"
    using rc computeLevelCount_pow [OF C(3) c60] log2ceil_pow [OF C(3) c60] rb
    by (simp add: mkAtomicBitPool_def computeL1BitmapLog2Width_def s_def levels_def)
  moreover have zero: "entryAt e k s = \<lparr>ent_bitmap = 0, ent_count = 0\<rparr>" if "k < levelCount s" "e < entriesAt c k s" for e k
  proof -
    have "entrySlot e k s < levelOffset (levels - 1) + 2 ^ (c - 6)"
      using entrySlot_bound [OF g that] by (simp add: s_def entriesAt_def)
    then have "entrySlot e k s * max stride sizeofEntry < bytes"
      unfolding bytes_def by (subst mult.commute) (simp add: sizeofEntry_def)
    then show ?thesis by (simp add: entryAt_def s_def)
  qed
  then have "bp_inv c {} s"
    using g bp_geom_bounds(1) [OF g] by (auto simp: bp_inv_def leaves_ok_def level_ok_def below_def)
  ultimately show thesis using that C(1,2) by blast
qed

lemma countSet_correct:
  assumes "bp_inv c S s"
  shows "countSet s = card S"
proof -
  note I = bp_invD [OF assms]
  define ws where "ws = map (\<lambda>i. ent_bitmap (entryAt i 0 s)) [0..<2 ^ (c - 6)]"
  have c: "1 \<le> c" using I(1) by (simp add: bp_geom_def)
  have ent: "entriesAt c 0 s = 2 ^ (c - 6)" by (simp add: entriesAt_def)
  have "countSet s = sum_list (map popcountll ws)"
    using I(1) leaf_entries [OF c] by (simp add: countSet_def ws_def bp_geom_def comp_def)
  also have "\<dots> = card (wbits ws)" by (rule card_wbits [symmetric])
  also have "wbits ws = S"
  proof (intro set_eqI iffI)
    fix i assume "i \<in> wbits ws"
    then show "i \<in> S" using I(4) ent by (auto simp: in_wbits ws_def leaves_ok_def)
  next
    fix i assume i: "i \<in> S"
    then have "i < 2 ^ c" using I(2) by auto
    then have "i div 64 < 2 ^ (c - 6)" "bit (ent_bitmap (entryAt (i div 64) 0 s)) (i mod 64)"
      using entryIndex_lt [OF I(1), of i 0] bp_geom_bounds(1) [OF I(1)] leaves_bit [OF I(4,1)] i ent
      by (auto simp: leaf_index)
    then show "i \<in> wbits ws" by (simp add: in_wbits ws_def)
  qed
  finally show ?thesis .
qed

section \<open>The interface of the pools\<close>

text \<open>A client that takes indices until the pool reports that it is empty, at most n of them.\<close>

fun take_all :: "('p \<Rightarrow> 'p \<times> GetResult) \<Rightarrow> nat \<Rightarrow> 'p \<Rightarrow> 'p \<times> nat list" where
  "take_all get 0 p = (p, [])"
| "take_all get (Suc n) p =
     (case get p of
        (p', Success i) \<Rightarrow> (case take_all get n p' of (p'', is) \<Rightarrow> (p'', i # is))
      | (p', _) \<Rightarrow> (p', []))"

locale index_pool =
  fixes padd :: "nat \<Rightarrow> 'p \<Rightarrow> ('p \<times> AddResult) outcome" and premove :: "nat \<Rightarrow> 'p \<Rightarrow> 'p \<times> RemoveResult"
    and pget :: "'p \<Rightarrow> 'p \<times> GetResult" and holds :: "nat set \<Rightarrow> 'p \<Rightarrow> bool" and bound :: nat
  assumes add_law: "holds S p \<Longrightarrow> i < bound \<Longrightarrow> \<exists>p'. holds (insert i S) p' \<and>
      padd i p = Inr (p', if i \<in> S then AlreadyPresent else if S = {} then AddedToEmpty else AddedToNonempty)"
    and remove_law: "holds S p \<Longrightarrow> i < bound \<Longrightarrow> \<exists>p'. holds (S - {i}) p' \<and>
      premove i p = (p', if i \<notin> S then NotPresent else if S = {i} then RemovedAndMadeEmpty else RemovedAndStayedNonempty)"
    and get_law: "holds S p \<Longrightarrow> (if S = {} then pget p = (p, PoolEmpty)
      else \<exists>i p'. pget p = (p', Success i) \<and> i \<in> S \<and> holds (S - {i}) p')"
    and finite_law: "holds S p \<Longrightarrow> finite S"
begin

lemma take_all_exact:
  assumes "holds S p" "card S \<le> n"
  shows "\<exists>p' is. take_all pget n p = (p', is) \<and> holds {} p' \<and> distinct is \<and> set is = S"
  using assms
proof (induction n arbitrary: S p)
  case 0
  then have "S = {}" using finite_law [OF "0.prems"(1)] by simp
  with 0 show ?case by simp
next
  case (Suc n)
  show ?case
  proof (cases "S = {}")
    case True
    then show ?thesis using Suc.prems(1) get_law [OF Suc.prems(1)] by simp
  next
    case False
    then obtain i p1 where p1: "pget p = (p1, Success i)" "i \<in> S" "holds (S - {i}) p1"
      using get_law [OF Suc.prems(1)] by auto
    then have "card (S - {i}) \<le> n" using Suc.prems(2) finite_law [OF Suc.prems(1)] by simp
    from Suc.IH [OF p1(3) this] p1 show ?thesis by (auto simp: insert_absorb)
  qed
qed

lemma add_then_remove:
  assumes "holds S p" "i < bound" "i \<notin> S" "padd i p = Inr (p', r)"
  shows "\<exists>p''. premove i p' = (p'', if S = {} then RemovedAndMadeEmpty else RemovedAndStayedNonempty) \<and> holds S p''"
proof -
  have "holds (insert i S) p'" using add_law [OF assms(1,2)] assms(4) by auto
  from remove_law [OF this assms(2)] assms(3) show ?thesis by (auto simp: insert_eq_iff split: if_splits)
qed

end

interpretation bp: index_pool add remove "getAny t m" "bp_inv c" "2 ^ c" for t m c
proof unfold_locales
  fix S :: "nat set" and p and i :: nat assume "bp_inv c S p" "i < 2 ^ c"
  then show "\<exists>p'. bp_inv c (insert i S) p' \<and>
      add i p = Inr (p', if i \<in> S then AlreadyPresent else if S = {} then AddedToEmpty else AddedToNonempty)"
    using add_correct by blast
next
  fix S :: "nat set" and p and i :: nat assume "bp_inv c S p" "i < 2 ^ c"
  then show "\<exists>p'. bp_inv c (S - {i}) p' \<and>
      remove i p = (p', if i \<notin> S then NotPresent else if S = {i} then RemovedAndMadeEmpty else RemovedAndStayedNonempty)"
    using remove_correct [of c S p i] by (cases "i \<in> S") auto
next
  fix S p assume "bp_inv c S p"
  then show "if S = {} then getAny t m p = (p, PoolEmpty)
      else \<exists>i p'. getAny t m p = (p', Success i) \<and> i \<in> S \<and> bp_inv c (S - {i}) p'"
    using getAny_correct [of c S p t m] by auto
qed (auto dest: bp_invD)

section \<open>Properties\<close>

text \<open>
  C23: run without interference, the bit pool is a set of indices. \<open>add\<close> inserts and reports whether
  the index was there, or else whether the pool was empty; \<open>remove\<close> deletes and reports whether it
  emptied the pool; a \<open>remove\<close> of an absent index backs out to the very state it started from;
  \<open>getAny\<close> takes some member whatever the thread id, answers Empty exactly on the empty set and
  never Contended; \<open>isSet\<close> and \<open>countSet\<close> read the set.
\<close>

theorem bit_pool_refines_set:
  assumes "bp_inv c S s" and "i < 2 ^ c"
  shows "(\<exists>s'. add i s = Inr (s', if i \<in> S then AlreadyPresent else if S = {} then AddedToEmpty else AddedToNonempty)
            \<and> bp_inv c (insert i S) s') \<and>
    (i \<notin> S \<longrightarrow> remove i s = (s, NotPresent)) \<and>
    (i \<in> S \<longrightarrow> (\<exists>s'. remove i s = (s', if S = {i} then RemovedAndMadeEmpty else RemovedAndStayedNonempty)
            \<and> bp_inv c (S - {i}) s')) \<and>
    (S = {} \<longrightarrow> getAny threadId maxRetries s = (s, PoolEmpty)) \<and>
    (S \<noteq> {} \<longrightarrow> (\<exists>y s'. getAny threadId maxRetries s = (s', Success y) \<and> y \<in> S \<and> bp_inv c (S - {y}) s')) \<and>
    (isSet i s \<longleftrightarrow> i \<in> S) \<and> countSet s = card S"
  using add_correct [OF assms] remove_correct [OF assms] getAny_correct [OF assms(1), of threadId maxRetries]
    leaves_bit [OF bp_invD(4,1) [OF assms(1)] assms(2)] countSet_correct [OF assms(1)]
  by (auto simp: isSet_def leaf_index)

theorem bit_pool_refines_set_witness:
  "\<exists>c s s'. mkAtomicBitPool 5000 (\<lambda>_. \<lparr>ent_bitmap = 0, ent_count = 0\<rparr>) 64 = Inr s \<and> bp_inv c {} s \<and>
     17 < (2 :: nat) ^ c \<and> add 17 s = Inr (s', AddedToEmpty) \<and> getAny 0 16 s = (s, PoolEmpty)"
proof -
  obtain c s where s: "mkAtomicBitPool 5000 (\<lambda>_. \<lparr>ent_bitmap = 0, ent_count = 0\<rparr>) 64 = Inr s" "bp_inv c {} s" "5000 \<le> (2 :: nat) ^ c"
    by (rule mkAtomicBitPool_correct [of 5000]) auto
  then have "17 < (2 :: nat) ^ c" by linarith
  with bit_pool_refines_set [OF s(2) this, of 0 16] s show ?thesis by (auto split: if_splits)
qed

text \<open>
  A pool constructed for 2 to 2^60 indices starts empty with room for the rounded-up capacity;
  every entry of every level occupies a range of bytes of its own, inside the
  \<open>requiredBufferSize\<close> bytes of the buffer.
\<close>

lemma bit_pool_layout:
  assumes "2 \<le> cap" and "cap \<le> 2 ^ 60"
  shows "\<exists>c s bytes. mkAtomicBitPool cap buffer stride = Inr s \<and> bp_inv c {} s \<and> cap \<le> capacity s \<and>
    capacity s < 2 * cap \<and> requiredBufferSize cap stride = Inr bytes \<and>
    (\<forall>k e. k < levelCount s \<and> e < entriesAt c k s \<longrightarrow>
       entryStride s * entrySlot e k s + sizeofEntry \<le> bytes \<and>
       (\<forall>k' e'. k' < levelCount s \<and> e' < entriesAt c k' s \<and> (k', e') \<noteq> (k, e) \<longrightarrow>
          entryStride s * entrySlot e k s + sizeofEntry \<le> entryStride s * entrySlot e' k' s \<or>
          entryStride s * entrySlot e' k' s + sizeofEntry \<le> entryStride s * entrySlot e k s))"
proof -
  obtain c s where s: "mkAtomicBitPool cap buffer stride = Inr s" "bp_inv c {} s" "cap \<le> 2 ^ c" "2 ^ (c - 1) < cap"
    using mkAtomicBitPool_correct [OF assms] by blast
  have g: "bp_geom c s" and c: "1 \<le> c" "c \<le> 60" using bp_invD(1) [OF s(2)] by (auto simp: bp_geom_def)
  have cap: "capacity s = 2 ^ c" using g by (simp add: bp_geom_def)
  obtain rc where rc: "roundedCapacity cap = Inr rc" "rc = capacity s" and str: "entryStride s = max stride sizeofEntry"
    using s(1) by (auto simp: mkAtomicBitPool_def bindO_eq_Inr_iff)
  define bytes where "bytes = max stride sizeofEntry * (levelOffset (levelCount s - 1) + entriesAt c 0 s)"
  have "requiredBufferSize cap stride = requiredBufferSize (2 ^ c) stride"
    using rc cap roundedCapacity_pow [OF c] by (simp add: requiredBufferSize_def)
  then have rb: "requiredBufferSize cap stride = Inr bytes"
    using requiredBufferSize_pow [OF c g] by (simp add: bytes_def)
  have step: "entryStride s * n + sizeofEntry \<le> entryStride s * n'" if "n < n'" for n n'
  proof -
    have "entryStride s * n + sizeofEntry \<le> entryStride s * (n + 1)" using str by simp
    also have "\<dots> \<le> entryStride s * n'" using that by (intro mult_le_mono2) simp
    finally show ?thesis .
  qed
  have "(2 :: nat) ^ c = 2 * 2 ^ (c - 1)" using c(1) by (cases c) auto
  then have "capacity s < 2 * cap" using cap s(4) by simp
  moreover have "entryStride s * entrySlot e k s + sizeofEntry \<le> bytes" if "k < levelCount s" "e < entriesAt c k s" for k e
    using step [OF entrySlot_bound [OF g that]] str by (simp add: bytes_def)
  moreover have "entryStride s * entrySlot e k s + sizeofEntry \<le> entryStride s * entrySlot e' k' s \<or>
      entryStride s * entrySlot e' k' s + sizeofEntry \<le> entryStride s * entrySlot e k s"
    if "k < levelCount s" "e < entriesAt c k s" "k' < levelCount s" "e' < entriesAt c k' s" "(k', e') \<noteq> (k, e)" for k e k' e'
  proof -
    have "entrySlot e k s \<noteq> entrySlot e' k' s" using entrySlot_inj [OF g that(1,3,2,4)] that(5) by auto
    then show ?thesis using step by (metis nat_neq_iff)
  qed
  ultimately show ?thesis using s cap rb by (intro exI [of _ c] exI [of _ s] exI [of _ bytes]) auto
qed

text \<open>
  C24: a client that keeps calling \<open>getAny\<close> until the pool reports Empty gets every member exactly
  once, and nothing else.
\<close>

theorem bit_pool_drain_exact:
  assumes "bp_inv c S s" and "card S \<le> n"
  shows "\<exists>s' is. take_all (getAny threadId maxRetries) n s = (s', is) \<and> bp_inv c {} s' \<and> distinct is \<and> set is = S"
  using bp.take_all_exact [OF assms] .

theorem bit_pool_drain_exact_witness:
  "\<exists>c s0 s s' is. mkAtomicBitPool 100 (\<lambda>_. \<lparr>ent_bitmap = 0, ent_count = 0\<rparr>) 64 = Inr s0 \<and> add 17 s0 = Inr (s, AddedToEmpty) \<and>
     take_all (getAny 3 16) 5 s = (s', is) \<and> bp_inv c {} s' \<and> distinct is \<and> set is = {17}"
proof -
  obtain c s0 where s0: "mkAtomicBitPool 100 (\<lambda>_. \<lparr>ent_bitmap = 0, ent_count = 0\<rparr>) 64 = Inr s0" "bp_inv c {} s0" "100 \<le> (2 :: nat) ^ c"
    by (rule mkAtomicBitPool_correct [of 100]) auto
  then have "17 < (2 :: nat) ^ c" by linarith
  then obtain s where s: "add 17 s0 = Inr (s, AddedToEmpty)" "bp_inv c {17} s"
    using add_correct [OF s0(2), of 17] by auto
  have "card {17 :: nat} \<le> 5" by simp
  from bit_pool_drain_exact [OF s(2) this, of 3 16] s s0(1) show ?thesis by blast
qed

end
