(* ===== verification/Numa_Pool.thy ===== *)
theory Numa_Pool
  imports Page_Blocks Atomic_Bit_Pool_Get Ring_Buffer_Fifo
begin

text \<open>
  \<open>NUMAPool\<close> of \<open>kernel/mm/PageAllocator.cpp\<close>: the big pages of one memory domain, routed between the
  ring of wholly free big pages and the pool of partially allocated ones. A pointer to a
  \<open>BigPageMetadata\<close> of the pool is its index in \<open>bigPageMetadataBuffer\<close>. The ring's read callbacks
  touch only page metadata and the caller's locals, so they are run on the list of entries read.
\<close>

record SubrangeInfo =
  rangeStart :: phys_addr
  rangeEnd :: phys_addr
  metadataBase :: nat

record NUMAPool =
  bigPageMetadataBuffer :: "BigPageMetadata list"
  freeBigPages :: "nat hr_ring"
  paPages :: bitpool
  associatedDomain :: nat
  subrangeInfo :: "SubrangeInfo list"
  bigPageCount :: nat

definition DEFAULT_MAX_SPINS :: nat where
  "DEFAULT_MAX_SPINS = 10000"

definition PA_BITPOOL_RELAXED_RETRIES :: nat where
  "PA_BITPOOL_RELAXED_RETRIES = 16"

definition PA_BITPOOL_DETERMINED_RETRIES :: nat where
  "PA_BITPOOL_DETERMINED_RETRIES = 1000000"

abbreviation metaAt :: "NUMAPool \<Rightarrow> nat \<Rightarrow> BigPageMetadata" where
  "metaAt p i \<equiv> bigPageMetadataBuffer p ! i"

definition setMeta :: "nat \<Rightarrow> BigPageMetadata \<Rightarrow> NUMAPool \<Rightarrow> NUMAPool" where
  "setMeta i m p = p\<lparr>bigPageMetadataBuffer := (bigPageMetadataBuffer p)[i := m]\<rparr>"

section \<open>Construction\<close>

text \<open>
  The publishing callback: \<open>freeIdx\<close> moves past pages with reserved subpages; \<open>ms\<close> is the buffer from
  \<open>freeIdx\<close> on.
\<close>

fun collectFree :: "nat \<Rightarrow> nat \<Rightarrow> BigPageMetadata list \<Rightarrow> nat list outcome" where
  "collectFree 0 freeIdx ms = Inr []"
| "collectFree (Suc n) freeIdx [] = Inl (Undefined ''out of bounds'')"
| "collectFree (Suc n) freeIdx (m # ms) =
     (if hasReservedSubpages m then collectFree (Suc n) (freeIdx + 1) ms
      else bindO (collectFree n (freeIdx + 1) ms) (\<lambda>xs. Inr (freeIdx # xs)))"

definition publishFree :: "nat \<Rightarrow> NUMAPool \<Rightarrow> NUMAPool outcome" where
  "publishFree n p =
     bindO (collectFree n 0 (bigPageMetadataBuffer p)) (\<lambda>xs.
       bindO (hr_bulkWrite n (\<lambda>i _. xs ! i) (freeBigPages p)) (\<lambda>(r, ok). Inr (p\<lparr>freeBigPages := r\<rparr>)))"

fun addReserved :: "nat \<Rightarrow> BigPageMetadata list \<Rightarrow> bitpool \<Rightarrow> bitpool outcome" where
  "addReserved i [] pa = Inr pa"
| "addReserved i (m # ms) pa =
     (if hasReservedSubpages m then bindO (add i pa) (\<lambda>(pa', _). addReserved (i + 1) ms pa')
      else addReserved (i + 1) ms pa)"

definition mkNUMAPool ::
    "BigPageMetadata list \<Rightarrow> nat list \<Rightarrow> bitpool \<Rightarrow> SubrangeInfo list \<Rightarrow> nat \<Rightarrow> nat \<Rightarrow> NUMAPool outcome" where
  "mkNUMAPool metadataBuffer freeBuffer pool subranges totalBigPageCount domain =
     (let p = \<lparr>bigPageMetadataBuffer = metadataBuffer,
               freeBigPages = \<lparr>ring = mkMPMC True freeBuffer, logicalCount = 0\<rparr>,
               paPages = pool, associatedDomain = domain, subrangeInfo = subranges, bigPageCount = totalBigPageCount\<rparr>;
          freePagesCount = length (filter (\<lambda>m. \<not> hasReservedSubpages m) (take totalBigPageCount metadataBuffer))
      in bindO (publishFree freePagesCount p) (\<lambda>p1.
           bindO (addReserved 0 (take totalBigPageCount metadataBuffer) (paPages p1)) (\<lambda>pa. Inr (p1\<lparr>paPages := pa\<rparr>))))"

section \<open>Lookup and init-time reservation\<close>

fun findSubrange :: "phys_addr \<Rightarrow> SubrangeInfo list \<Rightarrow> nat option" where
  "findSubrange addrAligned [] = None"
| "findSubrange addrAligned (sr # srs) =
     (if rangeStart sr \<le> addrAligned \<and> addrAligned < rangeEnd sr
      then Some (metadataBase sr + unat ((addrAligned - rangeStart sr) div bigPageSize))
      else findSubrange addrAligned srs)"

definition findMetadata :: "phys_addr \<Rightarrow> NUMAPool \<Rightarrow> nat option" where
  "findMetadata addr p = findSubrange (roundDownToNearestMultiple addr bigPageSize) (subrangeInfo p)"

fun reserveLoop :: "nat \<Rightarrow> phys_addr \<Rightarrow> phys_addr \<Rightarrow> BigPageMetadata \<Rightarrow> BigPageMetadata outcome" where
  "reserveLoop 0 addr e m = (if addr < e then Inl Diverges else Inr m)"
| "reserveLoop (Suc fuel) addr e m =
     (if addr < e then bindO (bpm_reservePage addr m) (reserveLoop fuel (addr + smallPageSize) e) else Inr m)"

definition reserveInPage :: "phys_memory_range \<Rightarrow> BigPageMetadata \<Rightarrow> BigPageMetadata outcome" where
  "reserveInPage rng m =
     (let bigStart = bpm_base m; bigEnd = bigStart + bigPageSize
      in if rng_end rng \<le> bigStart \<or> bigEnd \<le> rng_start rng then Inr m
         else let alignedStart = roundDownToNearestMultiple (max (rng_start rng) bigStart) smallPageSize;
                  alignedEnd = roundUpToNearestMultiple (min (rng_end rng) bigEnd) smallPageSize
              in reserveLoop smallPagesPerBigPage alignedStart alignedEnd m)"

fun fixupPages :: "nat \<Rightarrow> BigPageMetadata list \<Rightarrow> bitpool \<Rightarrow> bitpool outcome" where
  "fixupPages i [] pa = Inr pa"
| "fixupPages i (m # ms) pa =
     (if \<not> hasReservedSubpages m then fixupPages (i + 1) ms pa
      else if \<not> bpm_isFull m then bindO (add i pa) (\<lambda>(pa', _). fixupPages (i + 1) ms pa')
      else fixupPages (i + 1) ms (fst (remove i pa)))"

definition fixupAfterReserveRange :: "NUMAPool \<Rightarrow> NUMAPool outcome" where
  "fixupAfterReserveRange p =
     bindO (hr_bulkReadBestEffort (bigPageCount p) DEFAULT_MAX_SPINS (freeBigPages p)) (\<lambda>(r, _).
       let pages = take (bigPageCount p) (bigPageMetadataBuffer p);
           newFreeCount = length (filter (\<lambda>m. \<not> hasReservedSubpages m) pages)
       in bindO (fixupPages 0 pages (paPages p)) (\<lambda>pa.
            publishFree newFreeCount (p\<lparr>freeBigPages := r, paPages := pa\<rparr>)))"

definition np_reserveRange :: "phys_memory_range \<Rightarrow> NUMAPool \<Rightarrow> NUMAPool outcome" where
  "np_reserveRange rng p =
     bindO (mapO (reserveInPage rng) (take (bigPageCount p) (bigPageMetadataBuffer p))) (\<lambda>ms.
       fixupAfterReserveRange (p\<lparr>bigPageMetadataBuffer := ms @ drop (bigPageCount p) (bigPageMetadataBuffer p)\<rparr>))"

section \<open>Returning a page\<close>

definition np_returnPage :: "nat \<Rightarrow> bool \<Rightarrow> NUMAPool \<Rightarrow> NUMAPool outcome" where
  "np_returnPage i evictedAsFull p =
     bindO (readAt (bigPageMetadataBuffer p) i) (\<lambda>m.
       if evictedAsFull \<or> bpm_isFull m then Inr p
       else if bpm_isEmpty m then bindO (hr_write i (freeBigPages p)) (\<lambda>(r, _). Inr (p\<lparr>freeBigPages := r\<rparr>))
       else bindO (add i (paPages p)) (\<lambda>(pa, _). Inr (p\<lparr>paPages := pa\<rparr>)))"

definition bpm_returnPage :: "nat \<Rightarrow> bool \<Rightarrow> NUMAPool \<Rightarrow> NUMAPool outcome" where
  "bpm_returnPage i evictedAsFull p =
     bindO (readAt (bigPageMetadataBuffer p) i) (\<lambda>m.
       np_returnPage i evictedAsFull (setMeta i (bpm_prepareReturn m) p))"

section \<open>Allocation\<close>

text \<open>
  The locals of \<open>NUMAPool::allocatePages\<close> that its lambdas share, with the pool and the references
  handed to the callback so far.
\<close>

record alloc_locals =
  al_pool :: NUMAPool
  smallPageCount :: nat
  allocatedPages :: nat
  paPageRemaining :: "nat option"
  al_out :: "PageRef list"

definition giveWhole :: "nat \<Rightarrow> alloc_locals \<Rightarrow> alloc_locals outcome" where
  "giveWhole i st =
     bindO (readAt (bigPageMetadataBuffer (al_pool st)) i) (\<lambda>m.
       bindO (bpm_allocAll m) (\<lambda>m'. bindO (pr_big (bpm_base m)) (\<lambda>r.
         Inr (st\<lparr>al_pool := setMeta i m' (al_pool st), al_out := al_out st @ [r]\<rparr>))))"

fun takeWhole :: "nat list \<Rightarrow> alloc_locals \<Rightarrow> alloc_locals outcome" where
  "takeWhole [] st = Inr st"
| "takeWhole (i # is) st = bindO (giveWhole i st) (takeWhole is)"

definition readFree :: "nat \<Rightarrow> alloc_locals \<Rightarrow> (alloc_locals \<times> nat list) outcome" where
  "readFree n st =
     bindO (hr_bulkReadBestEffort n DEFAULT_MAX_SPINS (freeBigPages (al_pool st))) (\<lambda>(r, xs).
       Inr (st\<lparr>al_pool := (al_pool st)\<lparr>freeBigPages := r\<rparr>\<rparr>, xs))"

definition tookPages :: "nat \<Rightarrow> alloc_locals \<Rightarrow> alloc_locals" where
  "tookPages k st =
     st\<lparr>smallPageCount := sub_size (smallPageCount st) k, allocatedPages := allocatedPages st + k\<rparr>"

definition allocFromPage :: "nat \<Rightarrow> nat \<Rightarrow> OccupancyTransition \<Rightarrow> alloc_locals \<Rightarrow> (alloc_locals \<times> nat \<times> OccupancyTransition) outcome" where
  "allocFromPage cpu i t st =
     bindO (readAt (bigPageMetadataBuffer (al_pool st)) i) (\<lambda>m.
       bindO (bpm_allocatePages cpu (smallPageCount st) t m) (\<lambda>(m', refs, t').
         Inr (st\<lparr>al_pool := setMeta i m' (al_pool st), al_out := al_out st @ refs\<rparr>, length refs, t')))"

definition holdPage :: "nat \<Rightarrow> nat \<Rightarrow> alloc_locals \<Rightarrow> alloc_locals outcome" where
  "holdPage cpu i st =
     bindO (readAt (bigPageMetadataBuffer (al_pool st)) i) (\<lambda>m.
       bindO (markAllocHolder cpu m) (\<lambda>m'. Inr (st\<lparr>al_pool := setMeta i m' (al_pool st)\<rparr>)))"

definition releasePage :: "nat \<Rightarrow> alloc_locals \<Rightarrow> alloc_locals outcome" where
  "releasePage i st =
     bindO (readAt (bigPageMetadataBuffer (al_pool st)) i) (\<lambda>m.
       Inr (st\<lparr>al_pool := setMeta i (releaseAllocHolder m) (al_pool st)\<rparr>))"

text \<open>The \<open>while (true)\<close> over one partially allocated page.\<close>

fun drainPage :: "nat \<Rightarrow> nat \<Rightarrow> nat \<Rightarrow> OccupancyTransition \<Rightarrow> alloc_locals \<Rightarrow> alloc_locals outcome" where
  "drainPage 0 cpu i t st = Inl Diverges"
| "drainPage (Suc fuel) cpu i t st =
     bindO (allocFromPage cpu i t st) (\<lambda>(st1, allocated, t1).
       bindO (assertO (allocated > 0) ''A page in the PAPage bitmap should never be full'') (\<lambda>_.
         let st2 = tookPages allocated st1
         in if becameFull t1 then releasePage i st2
            else if smallPageCount st2 = 0 then releasePage i (st2\<lparr>paPageRemaining := Some i\<rparr>)
            else drainPage fuel cpu i t1 st2))"

text \<open>\<open>allocateFromPAPages\<close>: each turn takes one index out of the pool.\<close>

fun fromPAPages :: "nat \<Rightarrow> nat \<Rightarrow> nat \<Rightarrow> alloc_locals \<Rightarrow> alloc_locals outcome" where
  "fromPAPages 0 cpu maxRetries st = Inl Diverges"
| "fromPAPages (Suc fuel) cpu maxRetries st =
     (if smallPageCount st = 0 then Inr st
      else case getAny cpu maxRetries (paPages (al_pool st)) of
        (pa, Success i) \<Rightarrow>
          bindO (holdPage cpu i (st\<lparr>al_pool := (al_pool st)\<lparr>paPages := pa\<rparr>\<rparr>)) (\<lambda>st1.
            bindO (drainPage (smallPageCount st + 1) cpu i noTransition st1) (fromPAPages fuel cpu maxRetries))
      | (pa, _) \<Rightarrow> Inr (st\<lparr>al_pool := (al_pool st)\<lparr>paPages := pa\<rparr>\<rparr>))"

definition allocateFromPAPages :: "nat \<Rightarrow> nat \<Rightarrow> alloc_locals \<Rightarrow> alloc_locals outcome" where
  "allocateFromPAPages cpu maxRetries st = fromPAPages (countSet (paPages (al_pool st)) + 1) cpu maxRetries st"

text \<open>The read callback of the second phase: with a remainder, the first page is set aside.\<close>

fun grabPages :: "bool \<Rightarrow> nat list \<Rightarrow> alloc_locals \<Rightarrow> alloc_locals outcome" where
  "grabPages setAside [] st = Inr st"
| "grabPages setAside (i # is) st =
     bindO (readAt (bigPageMetadataBuffer (al_pool st)) i) (\<lambda>m.
       bindO (assertO (bpm_isEmpty m) ''Big pages in the free pool should be FREE'') (\<lambda>_.
         bindO (if setAside then Inr (st\<lparr>paPageRemaining := Some i\<rparr>) else giveWhole i st) (grabPages False is)))"

text \<open>One more big page, split for the remainder.\<close>

definition splitRemainder :: "nat \<Rightarrow> nat \<Rightarrow> alloc_locals \<Rightarrow> alloc_locals outcome" where
  "splitRemainder cpu i st =
     bindO (holdPage cpu i st) (\<lambda>st1.
     bindO (allocFromPage cpu i noTransition st1) (\<lambda>(st2, smallAllocd, _).
     bindO (releasePage i st2) (\<lambda>st3.
       let st4 = tookPages smallAllocd st3
       in bindO (assertO (smallPageCount st4 = 0) ''OK, we should only be here if we need less than a full big page, and yet the allocation wasn't totally fulfilled'')
            (\<lambda>_. Inr st4))))"

text \<open>The loop over the ring of free pages; the flag tells \<open>return\<close> from falling out of the loop.\<close>

fun fromFreePages :: "nat \<Rightarrow> nat \<Rightarrow> alloc_locals \<Rightarrow> (alloc_locals \<times> bool) outcome" where
  "fromFreePages 0 cpu st = Inl Diverges"
| "fromFreePages (Suc fuel) cpu st =
     (if smallPageCount st = 0 then Inr (st, False)
      else let requiredPages = unat (divideAndRoundUp (of_nat (smallPageCount st) :: u64) 512);
               bigPageDivisible = ((of_nat (smallPageCount st) :: u64) AND 511 = 0)
           in bindO (readFree requiredPages st) (\<lambda>(st1, xs).
              bindO (grabPages (\<not> bigPageDivisible) xs st1) (\<lambda>st2.
                let grabbedPages = length xs
                in if grabbedPages = 0 then Inr (st2, False)
                   else if bigPageDivisible then
                     fromFreePages fuel cpu (tookPages (grabbedPages * smallPagesPerBigPage) st2)
                   else case paPageRemaining st2 of
                     None \<Rightarrow> Inl (Undefined ''null pointer'')
                   | Some i \<Rightarrow>
                     if grabbedPages < requiredPages then
                       bindO (giveWhole i st2) (\<lambda>st3.
                         fromFreePages fuel cpu
                           (tookPages (grabbedPages * smallPagesPerBigPage) (st3\<lparr>paPageRemaining := None\<rparr>)))
                     else
                       bindO (splitRemainder cpu i (tookPages ((grabbedPages - 1) * smallPagesPerBigPage) st2)) (\<lambda>st3. Inr (st3, True)))))"

definition startAlloc :: "nat \<Rightarrow> NUMAPool \<Rightarrow> alloc_locals" where
  "startAlloc n p = \<lparr>al_pool = p, smallPageCount = n, allocatedPages = 0, paPageRemaining = None, al_out = []\<rparr>"

definition np_allocBigOnly :: "nat \<Rightarrow> NUMAPool \<Rightarrow> alloc_locals outcome" where
  "np_allocBigOnly n p =
     bindO (readFree (unat (divideAndRoundUp (of_nat n :: u64) 512)) (startAlloc n p)) (\<lambda>(st, xs).
       bindO (takeWhole xs st) (\<lambda>st1. Inr (st1\<lparr>allocatedPages := length xs * smallPagesPerBigPage\<rparr>)))"

definition np_allocatePages :: "nat \<Rightarrow> nat \<Rightarrow> AllocFlags \<Rightarrow> NUMAPool \<Rightarrow> alloc_locals outcome" where
  "np_allocatePages cpu n flags p =
     (if flags_has flags BIG_PAGE_ONLY then np_allocBigOnly n p
      else bindO (readFree (unat (divideAndRoundDown (of_nat n :: u64) 512)) (startAlloc n p)) (\<lambda>(st, xs).
           bindO (takeWhole xs st) (\<lambda>st1.
           bindO (allocateFromPAPages cpu PA_BITPOOL_RELAXED_RETRIES (tookPages (length xs * smallPagesPerBigPage) st1)) (\<lambda>st2.
           bindO (fromFreePages (smallPageCount st2 + 1) cpu st2) (\<lambda>(st3, returned).
             if returned then Inr st3
             else allocateFromPAPages cpu PA_BITPOOL_DETERMINED_RETRIES st3)))))"

end
