(* ===== verification/Numa_Pool_Alloc.thy ===== *)
theory Numa_Pool_Alloc
  imports Numa_Pool
begin

text \<open>
  What \<open>NUMAPool::allocatePages\<close> guarantees. The invariant of a pool names, for each big page, its
  live small pages \<open>L i\<close>; \<open>S\<close> is the set of pages in the partially allocated pool and \<open>H\<close> the set of
  pages detached from both routes (held by a processor or in transit).
\<close>

section \<open>The pool invariant\<close>

abbreviation np_avail :: "NUMAPool \<Rightarrow> nat \<Rightarrow> nat set" where
  "np_avail p i \<equiv> pg_avail (metaAt p i)"

abbreviation np_items :: "NUMAPool \<Rightarrow> nat list" where
  "np_items p \<equiv> rb_items (ring (freeBigPages p))"

definition pages_ok :: "(nat \<Rightarrow> nat set) \<Rightarrow> NUMAPool \<Rightarrow> bool" where
  "pages_ok L p \<longleftrightarrow> length (bigPageMetadataBuffer p) = bigPageCount p \<and>
     (\<forall>i < bigPageCount p. pg_inv (metaAt p i) (L i)) \<and>
     (\<forall>i < bigPageCount p. \<forall>j < bigPageCount p. bpm_base (metaAt p i) = bpm_base (metaAt p j) \<longrightarrow> i = j)"

definition routes_ok :: "nat \<Rightarrow> nat set \<Rightarrow> (nat \<Rightarrow> nat set) \<Rightarrow> nat set \<Rightarrow> NUMAPool \<Rightarrow> bool" where
  "routes_ok c H L S p \<longleftrightarrow> bigPageCount p \<le> 2 ^ c \<and> hr_inv (freeBigPages p) \<and>
     rb_cap (ring (freeBigPages p)) = bigPageCount p \<and> distinct (np_items p) \<and>
     set (np_items p) \<union> S \<union> H \<subseteq> {..<bigPageCount p} \<and> bp_inv c S (paPages p) \<and>
     (\<forall>i \<in> set (np_items p). L i = {} \<and> np_avail p i = {..<512}) \<and> (\<forall>i \<in> S. np_avail p i \<noteq> {}) \<and>
     set (np_items p) \<inter> S = {} \<and> H \<inter> (set (np_items p) \<union> S) = {} \<and>
     (\<forall>i < bigPageCount p. i \<notin> H \<longrightarrow> allocHolder (metaAt p i) = SIZE_MAX \<and>
        (np_avail p i \<noteq> {} \<longrightarrow> i \<in> set (np_items p) \<union> S))"

definition pool_inv :: "nat \<Rightarrow> nat set \<Rightarrow> (nat \<Rightarrow> nat set) \<Rightarrow> nat set \<Rightarrow> NUMAPool \<Rightarrow> bool" where
  "pool_inv c H L S p \<longleftrightarrow> pages_ok L p \<and> routes_ok c H L S p"

lemma pool_pages:
  assumes "pool_inv c H L S p"
  shows "length (bigPageMetadataBuffer p) = bigPageCount p" "i < bigPageCount p \<Longrightarrow> pg_inv (metaAt p i) (L i)"
    "i < bigPageCount p \<Longrightarrow> j < bigPageCount p \<Longrightarrow> i \<noteq> j \<Longrightarrow> bpm_base (metaAt p i) \<noteq> bpm_base (metaAt p j)"
  using assms by (auto simp: pool_inv_def pages_ok_def)

lemma pool_routes:
  assumes "pool_inv c H L S p"
  shows "bigPageCount p \<le> 2 ^ c" "hr_inv (freeBigPages p)" "rb_cap (ring (freeBigPages p)) = bigPageCount p"
    "distinct (np_items p)" "set (np_items p) \<subseteq> {..<bigPageCount p}" "S \<subseteq> {..<bigPageCount p}" "H \<subseteq> {..<bigPageCount p}"
    "bp_inv c S (paPages p)" "i \<in> set (np_items p) \<Longrightarrow> L i = {} \<and> np_avail p i = {..<512}"
    "i \<in> S \<Longrightarrow> np_avail p i \<noteq> {}" "set (np_items p) \<inter> S = {}" "H \<inter> set (np_items p) = {}" "H \<inter> S = {}"
    "i < bigPageCount p \<Longrightarrow> i \<notin> H \<Longrightarrow> allocHolder (metaAt p i) = SIZE_MAX"
    "i < bigPageCount p \<Longrightarrow> i \<notin> H \<Longrightarrow> np_avail p i \<noteq> {} \<Longrightarrow> i \<in> set (np_items p) \<union> S"
  using assms by (auto simp: pool_inv_def routes_ok_def)

section \<open>Detaching and attaching pages\<close>

lemma detach_free:
  assumes "pool_inv c H L S p"
  shows "\<exists>r. hr_bulkReadBestEffort k spins (freeBigPages p) = Inr (r, take k (np_items p)) \<and>
    pool_inv c (H \<union> set (take k (np_items p))) L S (p\<lparr>freeBigPages := r\<rparr>) \<and>
    np_items (p\<lparr>freeBigPages := r\<rparr>) = drop k (np_items p)"
proof -
  note R = pool_routes [OF assms]
  obtain r where r: "hr_bulkReadBestEffort k spins (freeBigPages p) = Inr (r, take k (np_items p))" "hr_inv r"
      "rb_cap (ring r) = bigPageCount p" "rb_items (ring r) = drop k (np_items p)"
    using hr_readLoop_spec [OF R(2), of k "k + 1" spins] R(3) unfolding hr_bulkReadBestEffort_def by auto
  have dj: "set (take k (np_items p)) \<inter> set (drop k (np_items p)) = {}"
    using R(4) by (rule set_take_disj_set_drop_if_distinct) simp
  have un: "set (np_items p) = set (take k (np_items p)) \<union> set (drop k (np_items p))"
    by (metis append_take_drop_id set_append)
  have "pages_ok L (p\<lparr>freeBigPages := r\<rparr>)" using assms by (simp add: pool_inv_def pages_ok_def)
  moreover have "routes_ok c (H \<union> set (take k (np_items p))) L S (p\<lparr>freeBigPages := r\<rparr>)"
    using assms r dj un R(4) unfolding pool_inv_def routes_ok_def by auto
  ultimately show ?thesis using r by (simp add: pool_inv_def)
qed

lemma detach_pa:
  assumes "pool_inv c H L S p"
  shows "S = {} \<Longrightarrow> getAny cpu retries (paPages p) = (paPages p, PoolEmpty)"
    and "S \<noteq> {} \<Longrightarrow> \<exists>i pa. getAny cpu retries (paPages p) = (pa, Success i) \<and> i \<in> S \<and>
      pool_inv c (insert i H) L (S - {i}) (p\<lparr>paPages := pa\<rparr>)"
proof -
  note R = pool_routes [OF assms]
  have G: "if S = {} then getAny cpu retries (paPages p) = (paPages p, PoolEmpty)
      else \<exists>i p'. getAny cpu retries (paPages p) = (p', Success i) \<and> i \<in> S \<and> bp_inv c (S - {i}) p'"
    by (rule bp.get_law) (rule R(8))
  then show "getAny cpu retries (paPages p) = (paPages p, PoolEmpty)" if "S = {}" using that by simp
  show "\<exists>i pa. getAny cpu retries (paPages p) = (pa, Success i) \<and> i \<in> S \<and>
      pool_inv c (insert i H) L (S - {i}) (p\<lparr>paPages := pa\<rparr>)" if ne: "S \<noteq> {}"
  proof -
    obtain i pa where i: "getAny cpu retries (paPages p) = (pa, Success i)" "i \<in> S" "bp_inv c (S - {i}) pa"
      using G ne by auto
    have "pages_ok L (p\<lparr>paPages := pa\<rparr>)" using assms by (simp add: pool_inv_def pages_ok_def)
    moreover have "routes_ok c (insert i H) L (S - {i}) (p\<lparr>paPages := pa\<rparr>)"
      using assms i unfolding pool_inv_def routes_ok_def by auto
    ultimately show ?thesis using i by (auto simp: pool_inv_def)
  qed
qed

lemma setMeta_simps [simp]:
  "bigPageCount (setMeta i m p) = bigPageCount p" "freeBigPages (setMeta i m p) = freeBigPages p"
  "paPages (setMeta i m p) = paPages p" "subrangeInfo (setMeta i m p) = subrangeInfo p"
  "associatedDomain (setMeta i m p) = associatedDomain p"
  "length (bigPageMetadataBuffer (setMeta i m p)) = length (bigPageMetadataBuffer p)"
  by (simp_all add: setMeta_def)

lemma metaAt_setMeta:
  "i < length (bigPageMetadataBuffer p) \<Longrightarrow> metaAt (setMeta i m p) j = (if j = i then m else metaAt p j)"
  by (simp add: setMeta_def nth_list_update)

lemma update_detached:
  assumes "pool_inv c H L S p" "i \<in> H" "pg_inv m X" "bpm_base m = bpm_base (metaAt p i)"
  shows "pool_inv c H (L(i := X)) S (setMeta i m p)"
proof -
  note P = pool_pages [OF assms(1)] and R = pool_routes [OF assms(1)]
  have i: "i < bigPageCount p" "i \<notin> set (np_items p)" "i \<notin> S" using assms(2) R(7,12,13) by auto
  have "pages_ok (L(i := X)) (setMeta i m p)"
    using P i assms(3,4) by (auto simp: pages_ok_def metaAt_setMeta)
  moreover have "routes_ok c H (L(i := X)) S (setMeta i m p)"
  proof -
    have s: "metaAt (setMeta i m p) j = metaAt p j" if "j \<noteq> i" for j using that i(1) P(1) by (simp add: metaAt_setMeta)
    have "j \<noteq> i" if "j \<in> set (np_items p) \<union> S" for j using that i by auto
    moreover have "j \<noteq> i" if "j \<notin> H" for j using that assms(2) by auto
    ultimately show ?thesis
      using assms(1) s unfolding pool_inv_def routes_ok_def by auto
  qed
  ultimately show ?thesis by (simp add: pool_inv_def)
qed

lemma forget_full:
  assumes "pool_inv c H L S p" "i < bigPageCount p" "np_avail p i = {}" "allocHolder (metaAt p i) = SIZE_MAX"
  shows "pool_inv c (H - {i}) L S p"
  using assms unfolding pool_inv_def routes_ok_def by auto

section \<open>Granting slots of a detached page\<close>

definition pagesOf :: "NUMAPool \<Rightarrow> (nat \<Rightarrow> nat set) \<Rightarrow> nat set" where
  "pagesOf p X = (\<Union>i < bigPageCount p. (+) (pg_first (metaAt p i)) ` X i)"

lemma in_pagesOf: "x \<in> pagesOf p X \<longleftrightarrow> (\<exists>i < bigPageCount p. \<exists>s \<in> X i. x = pg_first (metaAt p i) + s)"
  by (auto simp: pagesOf_def)

lemma page_slots_disjoint:
  assumes "2097152 dvd unat (bpm_base m)" "2097152 dvd unat (bpm_base m')" "s < 512" "s' < 512"
    "pg_first m + s = pg_first m' + s'"
  shows "bpm_base m = bpm_base m' \<and> s = s'"
proof -
  obtain k k' where k: "unat (bpm_base m) = 2097152 * k" "unat (bpm_base m') = 2097152 * k'"
    using assms(1,2) by (auto elim!: dvdE)
  then have f: "pg_first m = 512 * k" "pg_first m' = 512 * k'" by (simp_all add: pg_first_def)
  have "512 * k + s = 512 * k' + s'" using assms(5) f by simp
  moreover have "(512 * k + s) div 512 = k" "(512 * k' + s') div 512 = k'" using assms(3,4) by simp_all
  ultimately have "k = k'" by metis
  then have "k = k' \<and> s = s'" using \<open>512 * k + s = 512 * k' + s'\<close> by simp
  then show ?thesis using k by (simp add: word_unat_eq_iff)
qed

lemma pool_slot_inj:
  assumes "pages_ok L p" "i < bigPageCount p" "j < bigPageCount p" "s < 512" "s' < 512"
    "pg_first (metaAt p i) + s = pg_first (metaAt p j) + s'"
  shows "i = j \<and> s = s'"
proof -
  have "2097152 dvd unat (bpm_base (metaAt p i))" "2097152 dvd unat (bpm_base (metaAt p j))"
    using assms(1-3) pg_invD(3) by (auto simp: pages_ok_def)
  from page_slots_disjoint [OF this assms(4-6)] show ?thesis
    using assms(1-3) by (auto simp: pages_ok_def)
qed

text \<open>
  The references handed out since the start (\<open>p0\<close>, \<open>L0\<close>) cover exactly the pages that became live, each once.
\<close>

definition same_frame :: "NUMAPool \<Rightarrow> NUMAPool \<Rightarrow> bool" where
  "same_frame p q \<longleftrightarrow> bigPageCount q = bigPageCount p \<and> subrangeInfo q = subrangeInfo p \<and>
     associatedDomain q = associatedDomain p \<and>
     (\<forall>i < bigPageCount p. bpm_base (metaAt q i) = bpm_base (metaAt p i) \<and> ownerPool (metaAt q i) = ownerPool (metaAt p i))"

definition granted :: "NUMAPool \<Rightarrow> (nat \<Rightarrow> nat set) \<Rightarrow> NUMAPool \<Rightarrow> (nat \<Rightarrow> nat set) \<Rightarrow> PageRef list \<Rightarrow> bool" where
  "granted p0 L0 p L out \<longleftrightarrow> same_frame p0 p \<and>
     (\<forall>i < bigPageCount p0. L0 i \<subseteq> L i \<and> np_avail p0 i = np_avail p i \<union> (L i - L0 i)) \<and>
     covered out = pagesOf p0 (\<lambda>i. L i - L0 i) \<and> totalPages out = card (covered out)"

lemma same_frame_first:
  "same_frame p q \<Longrightarrow> i < bigPageCount p \<Longrightarrow> pg_first (metaAt q i) = pg_first (metaAt p i)"
  by (simp add: same_frame_def pg_first_def)

lemma granted_refl: "granted p L p L []"
  by (simp add: granted_def same_frame_def pagesOf_def)

lemma granted_step:
  assumes g: "granted p0 L0 p L out" and ok: "pages_ok L p" and i: "i < bigPageCount p"
    and m: "pg_inv m (L i \<union> X)" "X \<subseteq> np_avail p i" "pg_avail m = np_avail p i - X"
      "bpm_base m = bpm_base (metaAt p i)" "ownerPool m = ownerPool (metaAt p i)"
    and rs: "covered rs = (+) (pg_first (metaAt p i)) ` X" "totalPages rs = card X"
  shows "granted p0 L0 (setMeta i m p) (L(i := L i \<union> X)) (out @ rs)"
proof -
  let ?N = "bigPageCount p0" and ?f = "\<lambda>j. pg_first (metaAt p0 j)"
  have fr: "same_frame p0 p" and N: "bigPageCount p = ?N" using g by (auto simp: granted_def same_frame_def)
  have len: "length (bigPageMetadataBuffer p) = ?N" using ok N by (simp add: pages_ok_def)
  have inv: "pg_inv (metaAt p j) (L j)" if "j < ?N" for j using ok that N by (simp add: pages_ok_def)
  have D: "L j \<inter> np_avail p j = {}" "np_avail p j \<subseteq> {..<512}" "L j \<subseteq> {..<512}" if "j < ?N" for j
    using pg_invD(4-6) [OF inv [OF that]] by blast+
  have fr': "same_frame p0 (setMeta i m p)"
    using fr m(4,5) i N len by (auto simp: same_frame_def metaAt_setMeta)
  have av: "\<forall>j < ?N. L0 j \<subseteq> (L(i := L i \<union> X)) j \<and>
      np_avail p0 j = np_avail (setMeta i m p) j \<union> ((L(i := L i \<union> X)) j - L0 j)"
  proof (intro allI impI)
    fix j assume j: "j < ?N"
    then have G: "L0 j \<subseteq> L j" "np_avail p0 j = np_avail p j \<union> (L j - L0 j)" using g by (auto simp: granted_def)
    show "L0 j \<subseteq> (L(i := L i \<union> X)) j \<and> np_avail p0 j = np_avail (setMeta i m p) j \<union> ((L(i := L i \<union> X)) j - L0 j)"
    proof (cases "j = i")
      case True
      have "X \<inter> L0 i = {}" using G(1) True D(1) [OF j] m(2) by blast
      then have "np_avail p j = (np_avail p i - X) \<union> (X - L0 i)" using True m(2) by blast
      then show ?thesis using True G m(3) len i N by (auto simp: metaAt_setMeta)
    next
      case False
      then show ?thesis using G i N len by (simp add: metaAt_setMeta)
    qed
  qed
  have iN: "i < ?N" using i N by simp
  have "L0 i \<subseteq> L i" using g iN by (simp add: granted_def)
  then have X0: "X \<inter> L0 i = {}" "X \<inter> L i = {}" using D(1) [OF iN] m(2) by blast+
  have f: "?f i = pg_first (metaAt p i)" using same_frame_first [OF fr iN] by simp
  have cov: "pagesOf p0 (\<lambda>j. (L(i := L i \<union> X)) j - L0 j) = pagesOf p0 (\<lambda>j. L j - L0 j) \<union> (+) (?f i) ` X"
  proof (intro set_eqI iffI)
    fix x assume "x \<in> pagesOf p0 (\<lambda>j. (L(i := L i \<union> X)) j - L0 j)"
    then show "x \<in> pagesOf p0 (\<lambda>j. L j - L0 j) \<union> (+) (?f i) ` X" by (auto simp: in_pagesOf split: if_splits)
  next
    fix x assume "x \<in> pagesOf p0 (\<lambda>j. L j - L0 j) \<union> (+) (?f i) ` X"
    then show "x \<in> pagesOf p0 (\<lambda>j. (L(i := L i \<union> X)) j - L0 j)"
      using X0(1) iN by (fastforce simp: in_pagesOf)
  qed
  have "pagesOf p0 (\<lambda>j. L j - L0 j) \<inter> (+) (?f i) ` X = {}"
  proof (rule ccontr)
    assume "\<not> ?thesis"
    then obtain j s s' where j: "j < ?N" "s \<in> L j" "s' \<in> X" "?f j + s = ?f i + s'" by (force simp: in_pagesOf)
    have "s < 512" "s' < 512" using D(3) [OF j(1)] D(2) [OF iN] j m(2) by auto
    then have "j = i \<and> s = s'"
      using pool_slot_inj [OF ok, of j i s s'] j iN N same_frame_first [OF fr] by simp
    then show False using j X0(2) by auto
  qed
  then have "card (pagesOf p0 (\<lambda>j. L j - L0 j) \<union> (+) (?f i) ` X) = card (pagesOf p0 (\<lambda>j. L j - L0 j)) + card X"
    using g finite_covered [of out] finite_subset [OF m(2)]
    by (subst card_Un_disjoint) (auto simp: granted_def card_image)
  then show ?thesis using g fr' av cov rs f by (auto simp: granted_def)
qed

section \<open>Handing out whole pages\<close>

text \<open>A page just read from the ring: nothing live, everything available, not held.\<close>

definition fresh :: "(nat \<Rightarrow> nat set) \<Rightarrow> NUMAPool \<Rightarrow> nat \<Rightarrow> bool" where
  "fresh L p i \<longleftrightarrow> L i = {} \<and> np_avail p i = {..<512} \<and> allocHolder (metaAt p i) = SIZE_MAX"

text \<open>Outside the detached pages an operation changes nothing but the set \<open>X\<close> of pages.\<close>

definition untouched :: "nat set \<Rightarrow> (nat \<Rightarrow> nat set) \<Rightarrow> NUMAPool \<Rightarrow> (nat \<Rightarrow> nat set) \<Rightarrow> NUMAPool \<Rightarrow> bool" where
  "untouched X L p L' p' \<longleftrightarrow> (\<forall>j. j \<notin> X \<longrightarrow> L' j = L j \<and> metaAt p' j = metaAt p j)"

lemma untouched_fresh: "untouched X L p L' p' \<Longrightarrow> j \<notin> X \<Longrightarrow> fresh L' p' j \<longleftrightarrow> fresh L p j"
  by (simp add: untouched_def fresh_def)

lemma giveWhole_spec:
  assumes inv: "pool_inv c H L S (al_pool st)" and g: "granted p0 L0 (al_pool st) L (al_out st)"
    and i: "i \<in> H" "fresh L (al_pool st) i"
  shows "\<exists>p' r. giveWhole i st = Inr (st\<lparr>al_pool := p', al_out := al_out st @ [r]\<rparr>) \<and> refCount r = 512 \<and>
    pool_inv c (H - {i}) (L(i := {..<512})) S p' \<and> granted p0 L0 p' (L(i := {..<512})) (al_out st @ [r]) \<and>
    untouched {i} L (al_pool st) (L(i := {..<512})) p' \<and> freeBigPages p' = freeBigPages (al_pool st) \<and>
    paPages p' = paPages (al_pool st)"
proof -
  let ?p = "al_pool st" and ?m = "metaAt (al_pool st) i"
  have iN: "i < bigPageCount ?p" using pool_routes(7) [OF inv] i(1) by auto
  have len: "i < length (bigPageMetadataBuffer ?p)" using iN pool_pages(1) [OF inv] by simp
  have L: "L i = {}" "pg_avail ?m = {..<512}" "allocHolder ?m = SIZE_MAX" using i(2) by (auto simp: fresh_def)
  have pi: "pg_inv ?m {}" using pool_pages(2) [OF inv iN] L(1) by simp
  obtain m' where m': "bpm_allocAll ?m = Inr m'" "pg_inv m' {..<512}" "pg_avail m' = {}" "bpm_base m' = bpm_base ?m"
      "ownerPool m' = ownerPool ?m" "allocHolder m' = allocHolder ?m"
    using pg_allocAll_spec [OF pi L(2)] by blast
  let ?r = "bpm_base ?m OR 1" and ?p' = "setMeta i m' ?p"
  note B = big_ref [OF pg_invD(3) [OF pi]]
  have run: "giveWhole i st = Inr (st\<lparr>al_pool := ?p', al_out := al_out st @ [?r]\<rparr>)"
    using len m'(1) B(1) by (simp add: giveWhole_def)
  have "pool_inv c H (L(i := {..<512})) S ?p'" by (rule update_detached [OF inv i(1) m'(2,4)])
  then have p': "pool_inv c (H - {i}) (L(i := {..<512})) S ?p'"
    by (rule forget_full) (use iN len m' L in \<open>simp_all add: metaAt_setMeta\<close>)
  have cov: "covered [?r] = (+) (pg_first ?m) ` {..<512}"
    using B(2) by (simp add: pg_first_def lessThan_atLeast0 image_add_atLeastLessThan add.commute)
  have "granted p0 L0 ?p' (L(i := L i \<union> {..<512})) (al_out st @ [?r])"
    by (rule granted_step [OF g _ iN]) (use inv m' L cov B(3) in \<open>simp_all add: pool_inv_def\<close>)
  then have gr: "granted p0 L0 ?p' (L(i := {..<512})) (al_out st @ [?r])" using L(1) by simp
  have "untouched {i} L ?p (L(i := {..<512})) ?p'" using len by (auto simp: untouched_def metaAt_setMeta)
  then show ?thesis using run p' gr B(3) by (intro exI [of _ ?p'] exI [of _ ?r]) simp
qed

lemma takeWhole_spec:
  assumes "pool_inv c H L S (al_pool st)" "granted p0 L0 (al_pool st) L (al_out st)"
    "distinct xs" "set xs \<subseteq> H" "\<forall>i \<in> set xs. fresh L (al_pool st) i"
  shows "\<exists>p' rs L'. takeWhole xs st = Inr (st\<lparr>al_pool := p', al_out := al_out st @ rs\<rparr>) \<and> totalPages rs = 512 * length xs \<and>
    pool_inv c (H - set xs) L' S p' \<and> granted p0 L0 p' L' (al_out st @ rs) \<and> untouched (set xs) L (al_pool st) L' p' \<and>
    freeBigPages p' = freeBigPages (al_pool st) \<and> paPages p' = paPages (al_pool st)"
  using assms
proof (induction xs arbitrary: H L st)
  case Nil
  then show ?case by (intro exI [of _ "al_pool st"] exI [of _ "[]"] exI [of _ L]) (simp add: untouched_def)
next
  case (Cons i xs)
  from Cons.prems obtain p1 r where 1: "giveWhole i st = Inr (st\<lparr>al_pool := p1, al_out := al_out st @ [r]\<rparr>)" "refCount r = 512"
      "pool_inv c (H - {i}) (L(i := {..<512})) S p1" "granted p0 L0 p1 (L(i := {..<512})) (al_out st @ [r])"
      "untouched {i} L (al_pool st) (L(i := {..<512})) p1" "freeBigPages p1 = freeBigPages (al_pool st)" "paPages p1 = paPages (al_pool st)"
    using giveWhole_spec [of c H L S st p0 L0 i] by auto
  let ?st = "st\<lparr>al_pool := p1, al_out := al_out st @ [r]\<rparr>"
  have fr: "\<forall>j \<in> set xs. fresh (L(i := {..<512})) (al_pool ?st) j"
  proof
    fix j assume j: "j \<in> set xs"
    then have "j \<notin> {i}" using Cons.prems(3) by auto
    from untouched_fresh [OF 1(5) this] j Cons.prems(5) show "fresh (L(i := {..<512})) (al_pool ?st) j" by simp
  qed
  have pre: "pool_inv c (H - {i}) (L(i := {..<512})) S (al_pool ?st)"
    "granted p0 L0 (al_pool ?st) (L(i := {..<512})) (al_out ?st)" "distinct xs" "set xs \<subseteq> H - {i}"
    using 1(3,4) Cons.prems(3,4) by auto
  obtain p' rs L' where 2: "takeWhole xs ?st = Inr (?st\<lparr>al_pool := p', al_out := al_out ?st @ rs\<rparr>)" "totalPages rs = 512 * length xs"
      "pool_inv c (H - {i} - set xs) L' S p'" "granted p0 L0 p' L' (al_out ?st @ rs)"
      "untouched (set xs) (L(i := {..<512})) (al_pool ?st) L' p'"
      "freeBigPages p' = freeBigPages (al_pool ?st)" "paPages p' = paPages (al_pool ?st)"
    using Cons.IH [OF pre fr] by blast
  have "H - {i} - set xs = H - set (i # xs)" by auto
  moreover have "untouched (set (i # xs)) L (al_pool st) L' p'" using 1(5) 2(5) by (simp add: untouched_def)
  ultimately show ?case
    using 1 2 by (intro exI [of _ p'] exI [of _ "r # rs"] exI [of _ L']) simp
qed

section \<open>Handing out small pages\<close>

definition hold :: "nat \<Rightarrow> nat \<Rightarrow> NUMAPool \<Rightarrow> NUMAPool" where
  "hold i h p = setMeta i ((metaAt p i)\<lparr>allocHolder := h\<rparr>) p"

lemma hold_frame:
  assumes "i < length (bigPageMetadataBuffer p)"
  shows "metaAt (hold i h p) j = (if j = i then (metaAt p i)\<lparr>allocHolder := h\<rparr> else metaAt p j)"
    "np_avail (hold i h p) j = np_avail p j" "bpm_base (metaAt (hold i h p) j) = bpm_base (metaAt p j)"
    "ownerPool (metaAt (hold i h p) j) = ownerPool (metaAt p j)" "bigPageCount (hold i h p) = bigPageCount p"
    "freeBigPages (hold i h p) = freeBigPages p" "paPages (hold i h p) = paPages p"
    "subrangeInfo (hold i h p) = subrangeInfo p" "associatedDomain (hold i h p) = associatedDomain p"
    "length (bigPageMetadataBuffer (hold i h p)) = length (bigPageMetadataBuffer p)"
  using assms by (simp_all add: hold_def metaAt_setMeta bpm_base_def)

lemma hold_granted:
  assumes "granted p0 L0 p L out" "i < length (bigPageMetadataBuffer p)"
  shows "granted p0 L0 (hold i h p) L out"
  using assms(1) hold_frame [OF assms(2)] by (simp add: granted_def same_frame_def)

lemma hold_inv:
  assumes "pool_inv c H L S p" "i \<in> H"
  shows "pool_inv c H L S (hold i h p)"
proof -
  have iN: "i < bigPageCount p" using pool_routes(7) [OF assms(1)] assms(2) by auto
  have "pool_inv c H (L(i := L i)) S (setMeta i ((metaAt p i)\<lparr>allocHolder := h\<rparr>) p)"
    by (rule update_detached [OF assms])
      (use pg_holder_spec(1) [OF pool_pages(2) [OF assms(1) iN]] in \<open>simp_all add: bpm_base_def\<close>)
  then show ?thesis by (simp add: hold_def)
qed

lemma holdPage_spec:
  assumes "i < length (bigPageMetadataBuffer (al_pool st))"
  shows "allocHolder (metaAt (al_pool st) i) = SIZE_MAX \<Longrightarrow> holdPage cpu i st = Inr (st\<lparr>al_pool := hold i cpu (al_pool st)\<rparr>)"
    "releasePage i st = Inr (st\<lparr>al_pool := hold i SIZE_MAX (al_pool st)\<rparr>)"
  using assms by (simp_all add: holdPage_def releasePage_def markAllocHolder_def releaseAllocHolder_def hold_def)

lemma allocFromPage_spec:
  assumes inv: "pool_inv c H L S (al_pool st)" and g: "granted p0 L0 (al_pool st) L (al_out st)"
    and i: "i \<in> H" "allocHolder (metaAt (al_pool st) i) = cpu" "cpu \<noteq> SIZE_MAX"
    and n: "0 < smallPageCount st" "np_avail (al_pool st) i \<noteq> {}"
  shows "\<exists>p' rs X t'. allocFromPage cpu i t st = Inr (st\<lparr>al_pool := p', al_out := al_out st @ rs\<rparr>, length rs, t') \<and>
    totalPages rs = length rs \<and> length rs = min (smallPageCount st) (card (np_avail (al_pool st) i)) \<and> length rs = card X \<and>
    X \<subseteq> np_avail (al_pool st) i \<and> np_avail p' i = np_avail (al_pool st) i - X \<and>
    pool_inv c H (L(i := L i \<union> X)) S p' \<and> granted p0 L0 p' (L(i := L i \<union> X)) (al_out st @ rs) \<and>
    (becameFull t' \<longleftrightarrow> np_avail p' i = {}) \<and> untouched {i} L (al_pool st) (L(i := L i \<union> X)) p' \<and>
    freeBigPages p' = freeBigPages (al_pool st) \<and> paPages p' = paPages (al_pool st) \<and> bigPageCount p' = bigPageCount (al_pool st)"
proof -
  let ?p = "al_pool st" and ?m = "metaAt (al_pool st) i"
  let ?s = "subpageAllocator ?m"
  have iN: "i < bigPageCount ?p" using pool_routes(7) [OF inv] i(1) by auto
  have len: "i < length (bigPageMetadataBuffer ?p)" using iN pool_pages(1) [OF inv] by simp
  have pi: "pg_inv ?m (L i)" using pool_pages(2) [OF inv iN] .
  note D = pg_invD [OF pi]
  obtain m' xs t' where A: "bpm_allocatePages cpu (smallPageCount st) t ?m = Inr (m', map (\<lambda>j. fromPageIndex j ?s) xs, t')"
      "pg_inv m' (L i \<union> set xs)" "distinct xs" "set xs \<subseteq> pg_avail ?m" "pg_avail m' = pg_avail ?m - set xs"
      "length xs = min (smallPageCount st) (card (pg_avail ?m))" "becameFull t' \<longleftrightarrow> pg_avail m' = {}"
      "bpm_base m' = bpm_base ?m" "ownerPool m' = ownerPool ?m"
    using pg_alloc_spec [OF pi i(2,3) n, of t] by blast
  let ?rs = "map (\<lambda>j. fromPageIndex j ?s) xs" and ?p' = "setMeta i m' ?p"
  have b: "2097152 dvd unat (spa_base ?s)" using D(3) by (simp add: bpm_base_def)
  have xs: "set xs \<subseteq> {..<512}" using A(4) D(5) by blast
  note R = slot_refs [OF b xs]
  have run: "allocFromPage cpu i t st = Inr (st\<lparr>al_pool := ?p', al_out := al_out st @ ?rs\<rparr>, length ?rs, t')"
    using len A(1) by (simp add: allocFromPage_def)
  have p': "pool_inv c H (L(i := L i \<union> set xs)) S ?p'" by (rule update_detached [OF inv i(1) A(2,8)])
  have gr: "granted p0 L0 ?p' (L(i := L i \<union> set xs)) (al_out st @ ?rs)"
    by (rule granted_step [OF g _ iN A(2,4,5,8,9)])
      (use inv R(2,3) distinct_card [OF A(3)] in \<open>simp_all add: pool_inv_def pg_first_def bpm_base_def\<close>)
  have "untouched {i} L ?p (L(i := L i \<union> set xs)) ?p'" using len by (auto simp: untouched_def metaAt_setMeta)
  moreover have "metaAt ?p' i = m'" using len by (simp add: metaAt_setMeta)
  ultimately show ?thesis
    using run p' gr A(4-7) R(3) distinct_card [OF A(3)]
    by (intro exI [of _ ?p'] exI [of _ ?rs] exI [of _ "set xs"] exI [of _ t']) simp
qed

section \<open>The phases of an allocation\<close>

definition al_inv :: "nat \<Rightarrow> nat set \<Rightarrow> NUMAPool \<Rightarrow> (nat \<Rightarrow> nat set) \<Rightarrow> nat \<Rightarrow> (nat \<Rightarrow> nat set) \<Rightarrow> nat set \<Rightarrow> alloc_locals \<Rightarrow> bool" where
  "al_inv c H p0 L0 n L S st \<longleftrightarrow> pool_inv c (H \<union> set_option (paPageRemaining st)) L S (al_pool st) \<and>
     granted p0 L0 (al_pool st) L (al_out st) \<and> totalPages (al_out st) = allocatedPages st \<and>
     smallPageCount st + allocatedPages st = n \<and>
     (\<forall>j \<in> H. metaAt (al_pool st) j = metaAt p0 j) \<and>
     (\<forall>i. paPageRemaining st = Some i \<longrightarrow> i \<notin> H \<and> smallPageCount st = 0 \<and> allocHolder (metaAt (al_pool st) i) = SIZE_MAX \<and>
        np_avail (al_pool st) i \<noteq> {})"

lemma tookPages_simps [simp]:
  "al_pool (tookPages k st) = al_pool st" "al_out (tookPages k st) = al_out st"
  "paPageRemaining (tookPages k st) = paPageRemaining st" "allocatedPages (tookPages k st) = allocatedPages st + k"
  "smallPageCount (tookPages k st) = sub_size (smallPageCount st) k"
  by (simp_all add: tookPages_def)

lemma drainPage_spec:
  assumes inv: "pool_inv c (insert i H) L S (al_pool st)" and g: "granted p0 L0 (al_pool st) L (al_out st)"
    and i: "i \<notin> H" "allocHolder (metaAt (al_pool st) i) = cpu" "cpu \<noteq> SIZE_MAX"
    and n: "0 < smallPageCount st" "np_avail (al_pool st) i \<noteq> {}" "paPageRemaining st = None"
    and cnt: "totalPages (al_out st) = allocatedPages st" "smallPageCount st + allocatedPages st = n"
    and keep: "\<forall>j \<in> H. metaAt (al_pool st) j = metaAt p0 j"
  shows "\<exists>st' L'. drainPage (Suc fuel) cpu i t st = Inr st' \<and> al_inv c H p0 L0 n L' S st' \<and>
    freeBigPages (al_pool st') = freeBigPages (al_pool st)"
proof -
  obtain p' rs X t' where A: "allocFromPage cpu i t st = Inr (st\<lparr>al_pool := p', al_out := al_out st @ rs\<rparr>, length rs, t')"
      "totalPages rs = length rs" "length rs = min (smallPageCount st) (card (np_avail (al_pool st) i))" "length rs = card X"
      "X \<subseteq> np_avail (al_pool st) i" "np_avail p' i = np_avail (al_pool st) i - X"
      "pool_inv c (insert i H) (L(i := L i \<union> X)) S p'" "granted p0 L0 p' (L(i := L i \<union> X)) (al_out st @ rs)"
      "becameFull t' \<longleftrightarrow> np_avail p' i = {}" "freeBigPages p' = freeBigPages (al_pool st)"
      "untouched {i} L (al_pool st) (L(i := L i \<union> X)) p'"
    using allocFromPage_spec [OF inv g insertI1 i(2,3) n(1,2), of t] by blast
  let ?L = "L(i := L i \<union> X)" and ?k = "length rs"
  let ?st2 = "tookPages ?k (st\<lparr>al_pool := p', al_out := al_out st @ rs\<rparr>)" and ?p'' = "hold i SIZE_MAX p'"
  have iN: "i < bigPageCount p'" using pool_routes(7) [OF A(7)] by auto
  have len: "i < length (bigPageMetadataBuffer p')" using iN pool_pages(1) [OF A(7)] by simp
  note F = hold_frame [OF len]
  have k: "0 < ?k" "?k \<le> smallPageCount st" using A(3) n(1,2) by (simp_all add: card_gt_0_iff)
  have h: "pool_inv c (insert i H) ?L S ?p''" by (rule hold_inv [OF A(7)]) simp
  have gh: "granted p0 L0 ?p'' ?L (al_out st @ rs)" using hold_granted [OF A(8) len] .
  have hm: "allocHolder (metaAt ?p'' i) = SIZE_MAX" using F(1) by simp
  have keep': "\<forall>j \<in> H. metaAt ?p'' j = metaAt p0 j" using keep A(11) F(1) i(1) by (auto simp: untouched_def)
  show ?thesis
  proof (cases "becameFull t'")
    case True
    have "pool_inv c (insert i H - {i}) ?L S ?p''"
      by (rule forget_full [OF h]) (use iN F A(9) True hm in simp_all)
    moreover have "insert i H - {i} = H" using i(1) by simp
    ultimately have "al_inv c H p0 L0 n ?L S (?st2\<lparr>al_pool := ?p''\<rparr>)"
      using gh n(3) cnt A(2) k(2) keep' by (simp add: al_inv_def tookPages_def)
    moreover have "drainPage (Suc fuel) cpu i t st = Inr (?st2\<lparr>al_pool := ?p''\<rparr>)"
      using A(1) k True holdPage_spec(2) [of i ?st2] len by simp
    ultimately show ?thesis using A(10) F(6) by (intro exI [of _ "?st2\<lparr>al_pool := ?p''\<rparr>"] exI [of _ ?L]) simp
  next
    case False
    then have "X \<noteq> np_avail (al_pool st) i" using A(6,9) by auto
    then have "card X < card (np_avail (al_pool st) i)" using A(5) by (intro psubset_card_mono) auto
    then have z: "?k = smallPageCount st" using A(3,4) by linarith
    let ?st3 = "?st2\<lparr>paPageRemaining := Some i\<rparr>"
    have "al_inv c H p0 L0 n ?L S (?st3\<lparr>al_pool := ?p''\<rparr>)"
      using h gh cnt A(2) z i(1) hm keep' False A(9) F(2) by (simp add: al_inv_def tookPages_def)
    moreover have "drainPage (Suc fuel) cpu i t st = Inr (?st3\<lparr>al_pool := ?p''\<rparr>)"
      using A(1) k False z holdPage_spec(2) [of i ?st3] len by simp
    ultimately show ?thesis using A(10) F(6) by (intro exI [of _ "?st3\<lparr>al_pool := ?p''\<rparr>"] exI [of _ ?L]) simp
  qed
qed

lemma fromPAPages_spec:
  assumes "al_inv c H p0 L0 n L S st" "card S < fuel" "cpu \<noteq> SIZE_MAX"
  shows "\<exists>st' L' S'. fromPAPages fuel cpu retries st = Inr st' \<and> al_inv c H p0 L0 n L' S' st' \<and>
    (smallPageCount st' = 0 \<or> S' = {}) \<and> freeBigPages (al_pool st') = freeBigPages (al_pool st)"
  using assms
proof (induction fuel arbitrary: st L S)
  case (Suc fuel)
  let ?p = "al_pool st"
  show ?case
  proof (cases "smallPageCount st = 0")
    case True
    then show ?thesis using Suc.prems(1) by (intro exI [of _ st] exI [of _ L] exI [of _ S]) simp
  next
    case False
    then have ex: "paPageRemaining st = None" and inv: "pool_inv c H L S ?p" and g: "granted p0 L0 ?p L (al_out st)"
      and cnt: "totalPages (al_out st) = allocatedPages st" "smallPageCount st + allocatedPages st = n"
      and keep: "\<forall>j \<in> H. metaAt ?p j = metaAt p0 j"
      using Suc.prems(1) by (auto simp: al_inv_def)
    show ?thesis
    proof (cases "S = {}")
      case True
      have "fromPAPages (Suc fuel) cpu retries st = Inr st"
        using detach_pa(1) [OF inv True, of cpu retries] False by simp
      then show ?thesis using Suc.prems(1) True by (intro exI [of _ st] exI [of _ L] exI [of _ S]) simp
    next
      case ne: False
      obtain i pa where i: "getAny cpu retries (paPages ?p) = (pa, Success i)" "i \<in> S"
          "pool_inv c (insert i H) L (S - {i}) (?p\<lparr>paPages := pa\<rparr>)"
        using detach_pa(2) [OF inv ne, of cpu retries] by blast
      let ?q = "?p\<lparr>paPages := pa\<rparr>"
      let ?st1 = "st\<lparr>al_pool := ?q\<rparr>" and ?st2 = "st\<lparr>al_pool := hold i cpu ?q\<rparr>"
      note R = pool_routes [OF inv]
      have iH: "i \<notin> H" "i < bigPageCount ?p" using i(2) R(6,13) by auto
      have len: "i < length (bigPageMetadataBuffer ?q)" using iH(2) pool_pages(1) [OF inv] by simp
      note F = hold_frame [OF len]
      have "holdPage cpu i ?st1 = Inr ?st2"
        using holdPage_spec(1) [of i ?st1 cpu] len R(14) [OF iH(2,1)] by simp
      moreover have "\<exists>st' L'. drainPage (Suc (smallPageCount st)) cpu i noTransition ?st2 = Inr st' \<and>
          al_inv c H p0 L0 n L' (S - {i}) st' \<and> freeBigPages (al_pool st') = freeBigPages (al_pool ?st2)"
      proof (rule drainPage_spec)
        show "pool_inv c (insert i H) L (S - {i}) (al_pool ?st2)" using hold_inv [OF i(3), of i cpu] by simp
        have "granted p0 L0 ?q L (al_out st)" using g by (simp add: granted_def same_frame_def)
        then show "granted p0 L0 (al_pool ?st2) L (al_out ?st2)" using hold_granted [OF _ len] by simp
        show "np_avail (al_pool ?st2) i \<noteq> {}" using R(10) [OF i(2)] F(2) [of cpu i] by simp
        show "\<forall>j \<in> H. metaAt (al_pool ?st2) j = metaAt p0 j" using keep iH(1) F(1) by auto
      qed (use iH F(1) [of cpu i] Suc.prems(3) False ex cnt in simp_all)
      ultimately obtain st3 L3 where 3: "drainPage (smallPageCount st + 1) cpu i noTransition ?st2 = Inr st3"
          "al_inv c H p0 L0 n L3 (S - {i}) st3" "freeBigPages (al_pool st3) = freeBigPages ?p" "holdPage cpu i ?st1 = Inr ?st2"
        using F(6) [of cpu] by auto
      have "finite S" using finite_subset [OF R(6)] by simp
      then have "card (S - {i}) < fuel" using Suc.prems(2) card_Suc_Diff1 [OF _ i(2)] by simp
      from Suc.IH [OF 3(2) this Suc.prems(3)] obtain st' L' S' where 4: "fromPAPages fuel cpu retries st3 = Inr st'"
          "al_inv c H p0 L0 n L' S' st'" "smallPageCount st' = 0 \<or> S' = {}" "freeBigPages (al_pool st') = freeBigPages (al_pool st3)"
        by blast
      have "fromPAPages (Suc fuel) cpu retries st = Inr st'" using False i(1) 3(1,4) 4(1) by simp
      then show ?thesis using 4 3(3) by (intro exI [of _ st'] exI [of _ L'] exI [of _ S']) simp
    qed
  qed
qed simp

lemma allocateFromPAPages_spec:
  assumes "al_inv c H p0 L0 n L S st" "cpu \<noteq> SIZE_MAX"
  shows "\<exists>st' L' S'. allocateFromPAPages cpu retries st = Inr st' \<and> al_inv c H p0 L0 n L' S' st' \<and>
    (smallPageCount st' = 0 \<or> S' = {}) \<and> freeBigPages (al_pool st') = freeBigPages (al_pool st)"
proof -
  have "bp_inv c S (paPages (al_pool st))" using assms(1) by (simp add: al_inv_def pool_inv_def routes_ok_def)
  then have "card S < countSet (paPages (al_pool st)) + 1" by (simp add: countSet_correct)
  from fromPAPages_spec [OF assms(1) this assms(2)] show ?thesis by (simp add: allocateFromPAPages_def)
qed

lemma readFree_spec:
  assumes inv: "pool_inv c H L S (al_pool st)" and g: "granted p0 L0 (al_pool st) L (al_out st)"
  shows "\<exists>p1. readFree k st = Inr (st\<lparr>al_pool := p1\<rparr>, take k (np_items (al_pool st))) \<and>
    pool_inv c (H \<union> set (take k (np_items (al_pool st)))) L S p1 \<and> granted p0 L0 p1 L (al_out st) \<and>
    np_items p1 = drop k (np_items (al_pool st)) \<and> (\<forall>i \<in> set (take k (np_items (al_pool st))). fresh L p1 i) \<and>
    paPages p1 = paPages (al_pool st) \<and> bigPageMetadataBuffer p1 = bigPageMetadataBuffer (al_pool st)"
proof -
  let ?p = "al_pool st"
  note R = pool_routes [OF inv]
  obtain r where r: "hr_bulkReadBestEffort k DEFAULT_MAX_SPINS (freeBigPages ?p) = Inr (r, take k (np_items ?p))"
      "pool_inv c (H \<union> set (take k (np_items ?p))) L S (?p\<lparr>freeBigPages := r\<rparr>)"
      "np_items (?p\<lparr>freeBigPages := r\<rparr>) = drop k (np_items ?p)"
    using detach_free [OF inv] by blast
  have "fresh L (?p\<lparr>freeBigPages := r\<rparr>) i" if "i \<in> set (take k (np_items ?p))" for i
  proof -
    have i: "i \<in> set (np_items ?p)" using that by (rule in_set_takeD)
    then have "i < bigPageCount ?p" "i \<notin> H" using R(5,12) by auto
    then show ?thesis using R(9) [OF i] R(14) by (simp add: fresh_def)
  qed
  moreover have "granted p0 L0 (?p\<lparr>freeBigPages := r\<rparr>) L (al_out st)" using g by (simp add: granted_def same_frame_def)
  ultimately show ?thesis using r by (intro exI [of _ "?p\<lparr>freeBigPages := r\<rparr>"]) (simp add: readFree_def)
qed

lemma fresh_isEmpty: "pool_inv c H L S p \<Longrightarrow> i < bigPageCount p \<Longrightarrow> fresh L p i \<Longrightarrow> bpm_isEmpty (metaAt p i)"
  using pg_queries(2) [OF pool_pages(2)] by (simp add: fresh_def)

lemma grabPages_takeWhole:
  assumes "pool_inv c H L S (al_pool st)" "granted p0 L0 (al_pool st) L (al_out st)"
    "distinct xs" "set xs \<subseteq> H" "\<forall>i \<in> set xs. fresh L (al_pool st) i"
  shows "grabPages False xs st = takeWhole xs st"
  using assms
proof (induction xs arbitrary: H L st)
  case (Cons i xs)
  then have iH: "i \<in> H" "fresh L (al_pool st) i" by simp_all
  have iN: "i < bigPageCount (al_pool st)" using pool_routes(7) [OF Cons.prems(1)] iH(1) by auto
  have len: "i < length (bigPageMetadataBuffer (al_pool st))" using iN pool_pages(1) [OF Cons.prems(1)] by simp
  obtain p1 r where 1: "giveWhole i st = Inr (st\<lparr>al_pool := p1, al_out := al_out st @ [r]\<rparr>)"
      "pool_inv c (H - {i}) (L(i := {..<512})) S p1" "granted p0 L0 p1 (L(i := {..<512})) (al_out st @ [r])"
      "untouched {i} L (al_pool st) (L(i := {..<512})) p1"
    using giveWhole_spec [OF Cons.prems(1,2) iH] by blast
  let ?st = "st\<lparr>al_pool := p1, al_out := al_out st @ [r]\<rparr>"
  have "grabPages False xs ?st = takeWhole xs ?st"
  proof (rule Cons.IH)
    show "\<forall>j \<in> set xs. fresh (L(i := {..<512})) (al_pool ?st) j"
    proof
      fix j assume j: "j \<in> set xs"
      then have "j \<notin> {i}" using Cons.prems(3) by auto
      from untouched_fresh [OF 1(4) this] j Cons.prems(5) show "fresh (L(i := {..<512})) (al_pool ?st) j" by simp
    qed
    show "pool_inv c (H - {i}) (L(i := {..<512})) S (al_pool ?st)" using 1(2) by simp
    show "granted p0 L0 (al_pool ?st) (L(i := {..<512})) (al_out ?st)" using 1(3) by simp
    show "distinct xs" "set xs \<subseteq> H - {i}" using Cons.prems(3,4) by auto
  qed
  then show ?case using len fresh_isEmpty [OF Cons.prems(1) iN iH(2)] 1(1) by simp
qed simp

text \<open>The last big page, split for what is left of the request.\<close>

lemma split_page:
  assumes inv: "pool_inv c (insert i H) L S (al_pool st)" and g: "granted p0 L0 (al_pool st) L (al_out st)"
    and i: "i \<notin> H" "fresh L (al_pool st) i" "cpu \<noteq> SIZE_MAX" and n: "0 < smallPageCount st" "smallPageCount st < 512"
    and cnt: "totalPages (al_out st) = allocatedPages st" "smallPageCount st + allocatedPages st = n"
    and keep: "\<forall>j \<in> H. metaAt (al_pool st) j = metaAt p0 j" and ex: "paPageRemaining st = Some i"
  shows "\<exists>st' L'. splitRemainder cpu i st = Inr st' \<and> al_inv c H p0 L0 n L' S st' \<and> smallPageCount st' = 0"
proof -
  let ?p = "al_pool st"
  have iN: "i < bigPageCount ?p" using pool_routes(7) [OF inv] by auto
  have len: "i < length (bigPageMetadataBuffer ?p)" using iN pool_pages(1) [OF inv] by simp
  let ?st3 = "st\<lparr>al_pool := hold i cpu ?p\<rparr>"
  note F = hold_frame [OF len]
  have h: "holdPage cpu i st = Inr ?st3" using holdPage_spec(1) [OF len] i(2) by (simp add: fresh_def)
  have av: "np_avail (al_pool ?st3) i = {..<512}" using F(2) [of cpu i] i(2) by (simp add: fresh_def)
  have inv3: "pool_inv c (insert i H) L S (al_pool ?st3)" using hold_inv [OF inv insertI1] by simp
  have g3: "granted p0 L0 (al_pool ?st3) L (al_out ?st3)" using hold_granted [OF g len] by simp
  have "allocHolder (metaAt (al_pool ?st3) i) = cpu" "0 < smallPageCount ?st3" "np_avail (al_pool ?st3) i \<noteq> {}"
    using F(1) [of cpu i] n(1) av by (simp_all add: lessThan_empty_iff)
  from allocFromPage_spec [OF inv3 g3 insertI1 this(1) i(3) this(2,3), of noTransition]
  obtain p' rs X t' where A: "allocFromPage cpu i noTransition ?st3 = Inr (?st3\<lparr>al_pool := p', al_out := al_out ?st3 @ rs\<rparr>, length rs, t')"
      "totalPages rs = length rs" "length rs = min (smallPageCount ?st3) (card (np_avail (al_pool ?st3) i))"
      "pool_inv c (insert i H) (L(i := L i \<union> X)) S p'" "granted p0 L0 p' (L(i := L i \<union> X)) (al_out ?st3 @ rs)"
      "length rs = card X" "np_avail p' i = np_avail (al_pool ?st3) i - X" "untouched {i} L (al_pool ?st3) (L(i := L i \<union> X)) p'" by blast
  have k: "length rs = smallPageCount st" using A(3) av n(2) by simp
  have "card X < card {..<512 :: nat}" using A(6) k n(2) by simp
  then have "\<not> {..<512} \<subseteq> X" using card_mono [of X "{..<512 :: nat}"] card.infinite [of X] A(6) k n(1) by fastforce
  then have left: "np_avail p' i \<noteq> {}" using A(7) av by auto
  let ?st4 = "?st3\<lparr>al_pool := p', al_out := al_out ?st3 @ rs\<rparr>"
  have len': "i < length (bigPageMetadataBuffer p')"
    using pool_routes(7) [OF A(4)] pool_pages(1) [OF A(4)] by auto
  let ?st5 = "?st4\<lparr>al_pool := hold i SIZE_MAX p'\<rparr>"
  have keep': "\<forall>j \<in> H. metaAt (hold i SIZE_MAX p') j = metaAt p0 j"
    using keep A(8) F(1) hold_frame(1) [OF len'] i(1) by (auto simp: untouched_def)
  have r: "releasePage i ?st4 = Inr ?st5" using holdPage_spec(2) [of i ?st4] len' by simp
  have "al_inv c H p0 L0 n (L(i := L i \<union> X)) S (tookPages (smallPageCount st) ?st5)"
    using hold_inv [OF A(4) insertI1, of SIZE_MAX] hold_granted [OF A(5) len', of SIZE_MAX] hold_frame(1) [OF len', of SIZE_MAX i]
      A(2) k cnt ex i(1) keep' left hold_frame(2) [OF len'] by (simp add: al_inv_def)
  then show ?thesis
    using h A(1) r k by (intro exI [of _ "tookPages (smallPageCount st) ?st5"] exI [of _ "L(i := L i \<union> X)"])
      (simp add: splitRemainder_def Let_def)
qed

lemma size_words:
  assumes "r + 511 < 2 ^ 64"
  shows "unat (divideAndRoundUp (of_nat r :: u64) 512) = (r + 511) div 512"
    "unat (divideAndRoundDown (of_nat r :: u64) 512) = r div 512"
    "(of_nat r :: u64) AND 511 = 0 \<longleftrightarrow> r mod 512 = 0"
proof -
  have u: "unat (of_nat r :: u64) = r" by (rule unat_of_nat_64) (use assms in simp)
  show "unat (divideAndRoundUp (of_nat r :: u64) 512) = (r + 511) div 512"
    using assms u by (simp add: divideAndRoundUp_def unat_div_distrib unat_word_ariths)
  show "unat (divideAndRoundDown (of_nat r :: u64) 512) = r div 512"
    using u by (simp add: divideAndRoundDown_def unat_div_distrib)
  have "(511 :: u64) = mask 9" by (simp add: mask_eq_exp_minus_1)
  then have "unat ((of_nat r :: u64) AND 511) = r mod 512" using unat_and_mask [of "of_nat r" 9] u by simp
  then show "(of_nat r :: u64) AND 511 = 0 \<longleftrightarrow> r mod 512 = 0" by (metis unat_eq_zero)
qed

lemma fromFreePages_spec:
  assumes "al_inv c H p0 L0 n L S st" "smallPageCount st < fuel" "cpu \<noteq> SIZE_MAX" "n + 511 < 2 ^ 64"
  shows "\<exists>st' L' b. fromFreePages fuel cpu st = Inr (st', b) \<and> al_inv c H p0 L0 n L' S st' \<and>
    (b \<longrightarrow> smallPageCount st' = 0) \<and> (smallPageCount st' = 0 \<or> np_items (al_pool st') = [])"
  using assms
proof (induction fuel arbitrary: st L)
  case (Suc fuel)
  let ?p = "al_pool st" and ?r = "smallPageCount st"
  show ?case
  proof (cases "?r = 0")
    case True
    then show ?thesis using Suc.prems(1) by (intro exI [of _ st] exI [of _ L] exI [of _ False]) simp
  next
    case False
    then have ex: "paPageRemaining st = None" and inv: "pool_inv c H L S ?p" and g: "granted p0 L0 ?p L (al_out st)"
      and cnt: "totalPages (al_out st) = allocatedPages st" "?r + allocatedPages st = n"
      and keep: "\<forall>j \<in> H. metaAt ?p j = metaAt p0 j"
      using Suc.prems(1) by (auto simp: al_inv_def)
    have "?r + 511 < 2 ^ 64" using cnt(2) Suc.prems(4) by linarith
    note W = size_words [OF this]
    define req where "req = (?r + 511) div 512"
    define xs where "xs = take req (np_items ?p)"
    obtain p1 where 1: "readFree req st = Inr (st\<lparr>al_pool := p1\<rparr>, xs)" "pool_inv c (H \<union> set xs) L S p1"
        "granted p0 L0 p1 L (al_out st)" "np_items p1 = drop req (np_items ?p)" "\<forall>i \<in> set xs. fresh L p1 i" "bigPageMetadataBuffer p1 = bigPageMetadataBuffer ?p"
      using readFree_spec [OF inv g, of req] unfolding xs_def by blast
    let ?st1 = "st\<lparr>al_pool := p1\<rparr>"
    have req: "0 < req" using False by (simp add: req_def)
    have dx: "distinct xs" using pool_routes(4) [OF inv] by (simp add: xs_def distinct_take)
    have Hx: "H \<inter> set xs = {}" using pool_routes(12) [OF inv] set_take_subset [of req "np_items ?p"] unfolding xs_def by blast
    have lx: "length xs \<le> req" by (simp add: xs_def)
    have unf: "fromFreePages (Suc fuel) cpu st =
        bindO (grabPages (?r mod 512 \<noteq> 0) xs ?st1) (\<lambda>st2.
          if xs = [] then Inr (st2, False)
          else if ?r mod 512 = 0 then fromFreePages fuel cpu (tookPages (length xs * 512) st2)
          else case paPageRemaining st2 of None \<Rightarrow> Inl (Undefined ''null pointer'')
            | Some i \<Rightarrow> if length xs < req
                then bindO (giveWhole i st2) (\<lambda>st3. fromFreePages fuel cpu (tookPages (length xs * 512) (st3\<lparr>paPageRemaining := None\<rparr>)))
                else bindO (splitRemainder cpu i (tookPages ((length xs - 1) * 512) st2)) (\<lambda>st3. Inr (st3, True)))"
      unfolding fromFreePages.simps(2) Let_def W req_def [symmetric] smallPagesPerBigPage_def using False 1(1) by simp
    show ?thesis
    proof (cases xs)
      case Nil
      then have "np_items ?p = []" using req by (simp add: xs_def)
      then have "np_items p1 = []" using 1(4) by simp
      moreover have "al_inv c H p0 L0 n L S ?st1" using 1(2,3,6) Nil ex cnt keep by (simp add: al_inv_def)
      ultimately show ?thesis using unf Nil by (intro exI [of _ ?st1] exI [of _ L] exI [of _ False]) simp
    next
      case (Cons i ys)
      have HH: "H \<union> set xs - set xs = H" using Hx by blast
      show ?thesis
      proof (cases "?r mod 512 = 0")
        case True
        have st1: "pool_inv c (H \<union> set xs) L S (al_pool ?st1)" "granted p0 L0 (al_pool ?st1) L (al_out ?st1)"
          "set xs \<subseteq> H \<union> set xs" "\<forall>i \<in> set xs. fresh L (al_pool ?st1) i" using 1 by simp_all
        obtain p2 rs L2 where 2: "takeWhole xs ?st1 = Inr (?st1\<lparr>al_pool := p2, al_out := al_out ?st1 @ rs\<rparr>)"
            "totalPages rs = 512 * length xs" "pool_inv c (H \<union> set xs - set xs) L2 S p2" "granted p0 L0 p2 L2 (al_out ?st1 @ rs)"
            "untouched (set xs) L (al_pool ?st1) L2 p2"
          using takeWhole_spec [OF st1(1,2) dx st1(3,4)] by blast
        let ?st2 = "?st1\<lparr>al_pool := p2, al_out := al_out ?st1 @ rs\<rparr>"
        let ?st3 = "tookPages (length xs * 512) ?st2"
        have "length xs * 512 \<le> req * 512" using lx by (rule mult_le_mono1)
        moreover have "req * 512 = ?r" using True by (auto simp: req_def)
        ultimately have le: "length xs * 512 \<le> ?r" by simp
        have "\<forall>j \<in> H. metaAt p2 j = metaAt p0 j" using keep 2(5) 1(6) Hx by (auto simp: untouched_def)
        then have a3: "al_inv c H p0 L0 n L2 S ?st3" using 2 HH ex cnt le by (simp add: al_inv_def)
        have "smallPageCount ?st3 < fuel" using le Cons Suc.prems(2) by simp
        from Suc.IH [OF a3 this Suc.prems(3,4)] show ?thesis
          using unf True Cons 2(1) grabPages_takeWhole [OF st1(1,2) dx st1(3,4)] by simp
      next
        case nd: False
        let ?st2 = "?st1\<lparr>paPageRemaining := Some i\<rparr>"
        have iy: "i \<notin> set ys" "distinct ys" and iH: "i \<notin> H" using dx Hx Cons by auto
        have iN: "i < bigPageCount p1" using pool_routes(7) [OF 1(2)] Cons by auto
        have len: "i < length (bigPageMetadataBuffer p1)" using iN pool_pages(1) [OF 1(2)] by simp
        have "bpm_isEmpty (metaAt p1 i)" using fresh_isEmpty [OF 1(2) iN] 1(5) Cons by simp
        then have gp: "grabPages (?r mod 512 \<noteq> 0) xs ?st1 = grabPages False ys ?st2" using nd Cons len by simp
        have st2: "pool_inv c (H \<union> set xs) L S (al_pool ?st2)" "granted p0 L0 (al_pool ?st2) L (al_out ?st2)"
          "set ys \<subseteq> H \<union> set xs" "\<forall>i \<in> set ys. fresh L (al_pool ?st2) i" using 1 Cons by auto
        obtain p3 rs L3 where 3: "takeWhole ys ?st2 = Inr (?st2\<lparr>al_pool := p3, al_out := al_out ?st2 @ rs\<rparr>)"
            "totalPages rs = 512 * length ys" "pool_inv c (H \<union> set xs - set ys) L3 S p3" "granted p0 L0 p3 L3 (al_out ?st2 @ rs)"
            "untouched (set ys) L (al_pool ?st2) L3 p3"
          using takeWhole_spec [OF st2(1,2) iy(2) st2(3,4)] by blast
        let ?st3 = "?st2\<lparr>al_pool := p3, al_out := al_out ?st2 @ rs\<rparr>"
        have gr: "grabPages (?r mod 512 \<noteq> 0) xs ?st1 = Inr ?st3"
          using gp grabPages_takeWhole [OF st2(1,2) iy(2) st2(3,4)] 3(1) by simp
        have "H \<union> set xs - set ys = insert i H" using Hx Cons iy by auto
        then have inv3: "pool_inv c (insert i H) L3 S p3" using 3(3) by simp
        have "fresh L3 p3 i \<longleftrightarrow> fresh L (al_pool ?st2) i" by (rule untouched_fresh [OF 3(5) iy(1)])
        then have fr3: "fresh L3 p3 i" using 1(5) Cons by simp
        have keep3: "\<forall>j \<in> H. metaAt p3 j = metaAt p0 j" using keep 3(5) 1(6) Hx Cons by (auto simp: untouched_def)
        show ?thesis
        proof (cases "length xs < req")
          case True
          have st3: "pool_inv c (insert i H) L3 S (al_pool ?st3)" "granted p0 L0 (al_pool ?st3) L3 (al_out ?st3)"
            "fresh L3 (al_pool ?st3) i" using inv3 3(4) fr3 by simp_all
          obtain p4 r where 4: "giveWhole i ?st3 = Inr (?st3\<lparr>al_pool := p4, al_out := al_out ?st3 @ [r]\<rparr>)" "refCount r = 512"
              "pool_inv c (insert i H - {i}) (L3(i := {..<512})) S p4" "granted p0 L0 p4 (L3(i := {..<512})) (al_out ?st3 @ [r])"
              "untouched {i} L3 (al_pool ?st3) (L3(i := {..<512})) p4"
            using giveWhole_spec [OF st3(1,2) insertI1 st3(3)] by blast
          let ?st4 = "?st3\<lparr>al_pool := p4, al_out := al_out ?st3 @ [r]\<rparr>"
          let ?st5 = "tookPages (length xs * 512) (?st4\<lparr>paPageRemaining := None\<rparr>)"
          have "length xs * 512 \<le> (req - 1) * 512" using True by (intro mult_le_mono1) simp
          also have "(req - 1) * 512 \<le> ?r" by (simp add: req_def)
          finally have le: "length xs * 512 \<le> ?r" .
          have "\<forall>j \<in> H. metaAt p4 j = metaAt p0 j" using keep3 4(5) iH by (auto simp: untouched_def)
          moreover have "insert i H - {i} = H" using iH by simp
          ultimately have a5: "al_inv c H p0 L0 n (L3(i := {..<512})) S ?st5" using 4 3(2) cnt le Cons by (simp add: al_inv_def)
          have "smallPageCount ?st5 < fuel" using le Cons Suc.prems(2) by simp
          from Suc.IH [OF a5 this Suc.prems(3,4)] show ?thesis using unf nd Cons gr True 4(1) by simp
        next
          case False
          then have lxr: "length xs = req" using lx by simp
          let ?st4 = "tookPages ((length xs - 1) * 512) ?st3"
          have "?r \<noteq> req * 512" using nd by auto
          moreover have "(req - 1) * 512 < ?r" "?r \<le> req * 512" using \<open>?r \<noteq> 0\<close> by (simp_all add: req_def)
          ultimately have sz: "(length xs - 1) * 512 < ?r" "?r - (length xs - 1) * 512 < 512" using req unfolding lxr by (simp_all add: diff_mult_distrib)
          have sp: "smallPageCount ?st4 = ?r - (length xs - 1) * 512" using sz by simp
          have "\<exists>st' L'. splitRemainder cpu i ?st4 = Inr st' \<and> al_inv c H p0 L0 n L' S st' \<and> smallPageCount st' = 0"
          proof (rule split_page)
            show "pool_inv c (insert i H) L3 S (al_pool ?st4)" "granted p0 L0 (al_pool ?st4) L3 (al_out ?st4)"
              "fresh L3 (al_pool ?st4) i" "paPageRemaining ?st4 = Some i" using inv3 3(4) fr3 by simp_all
            show "totalPages (al_out ?st4) = allocatedPages ?st4" using 3(2) cnt(1) Cons by simp
            show "smallPageCount ?st4 + allocatedPages ?st4 = n" unfolding sp using cnt(2) sz(1) by simp
            show "0 < smallPageCount ?st4" "smallPageCount ?st4 < 512" unfolding sp using sz by simp_all
            show "\<forall>j \<in> H. metaAt (al_pool ?st4) j = metaAt p0 j" using keep3 by simp
          qed (use iH Suc.prems(3) in simp_all)
          then obtain st' L' where 5: "splitRemainder cpu i ?st4 = Inr st'" "al_inv c H p0 L0 n L' S st'" "smallPageCount st' = 0" by blast
          then show ?thesis using unf nd Cons gr False by (intro exI [of _ st'] exI [of _ L'] exI [of _ True]) simp
        qed
      qed
    qed
  qed
qed simp

section \<open>The whole allocation\<close>

lemma granted_sets:
  assumes g: "granted p0 L0 p L out" and ok0: "pages_ok L0 p0" and ok: "pages_ok L p"
  shows "covered out \<subseteq> pagesOf p0 (np_avail p0)" "pagesOf p0 L = pagesOf p0 L0 \<union> covered out"
    "covered out \<inter> pagesOf p0 L0 = {}" "pagesOf p0 (np_avail p) = pagesOf p0 (np_avail p0) - covered out"
proof -
  let ?N = "bigPageCount p0"
  have G: "L0 i \<subseteq> L i" "np_avail p0 i = np_avail p i \<union> (L i - L0 i)" if "i < ?N" for i
    using g that by (auto simp: granted_def)
  have cov: "covered out = pagesOf p0 (\<lambda>i. L i - L0 i)" and N: "bigPageCount p = ?N"
    using g by (simp_all add: granted_def same_frame_def)
  have I: "pg_inv (metaAt p i) (L i)" if "i < ?N" for i using ok that N by (simp add: pages_ok_def)
  have D: "L i \<subseteq> {..<512}" "L i \<inter> np_avail p i = {}" "np_avail p i \<subseteq> {..<512}" if "i < ?N" for i
    using pg_invD(4-6) [OF I [OF that]] by blast+
  show "covered out \<subseteq> pagesOf p0 (np_avail p0)" using G unfolding cov by (fastforce simp: in_pagesOf)
  show "pagesOf p0 L = pagesOf p0 L0 \<union> covered out" using G(1) unfolding cov by (fastforce simp: in_pagesOf)
  have key: "i = j \<and> s = s'" if "i < ?N" "j < ?N" "s \<in> L i" "s' \<in> L j \<union> np_avail p j"
      "pg_first (metaAt p0 i) + s = pg_first (metaAt p0 j) + s'" for i j s s'
    using pool_slot_inj [OF ok0 that(1,2) _ _ that(5)] D [OF that(1)] D [OF that(2)] that(3,4) by blast
  show "covered out \<inter> pagesOf p0 L0 = {}"
  proof (rule ccontr)
    assume "covered out \<inter> pagesOf p0 L0 \<noteq> {}"
    then obtain i s j s' where "i < ?N" "s \<in> L i" "s \<notin> L0 i" "j < ?N" "s' \<in> L0 j"
        "pg_first (metaAt p0 i) + s = pg_first (metaAt p0 j) + s'"
      unfolding cov by (force simp: in_pagesOf)
    moreover then have "s' \<in> L j" using G(1) by blast
    ultimately show False using key [of i j s s'] by blast
  qed
  show "pagesOf p0 (np_avail p) = pagesOf p0 (np_avail p0) - covered out"
  proof (intro set_eqI iffI)
    fix x assume "x \<in> pagesOf p0 (np_avail p)"
    then obtain j s' where x: "j < ?N" "s' \<in> np_avail p j" "x = pg_first (metaAt p0 j) + s'" by (auto simp: in_pagesOf)
    have "x \<notin> covered out"
    proof
      assume "x \<in> covered out"
      then obtain i s where i: "i < ?N" "s \<in> L i" "x = pg_first (metaAt p0 i) + s" unfolding cov by (auto simp: in_pagesOf)
      have "i = j \<and> s = s'" by (rule key [OF i(1) x(1) i(2)]) (use i(3) x in auto)
      then show False using i(2) x(1,2) D(2) [of j] by blast
    qed
    then show "x \<in> pagesOf p0 (np_avail p0) - covered out" using x G(2) by (auto simp: in_pagesOf)
  next
    fix x assume a: "x \<in> pagesOf p0 (np_avail p0) - covered out"
    then obtain i s where i: "i < ?N" "s \<in> np_avail p0 i" "x = pg_first (metaAt p0 i) + s" by (auto simp: in_pagesOf)
    have "s \<notin> L i - L0 i" using a i(1,3) unfolding cov Diff_iff in_pagesOf by blast
    then have "s \<in> np_avail p i" using i(2) G(2) [OF i(1)] by blast
    then show "x \<in> pagesOf p0 (np_avail p)" using i(1,3) unfolding in_pagesOf by blast
  qed
qed

lemma np_allocatePages_spec:
  assumes inv: "pool_inv c H L S p" and cpu: "cpu \<noteq> SIZE_MAX" and n: "n + 511 < 2 ^ 64" and fl: "\<not> flags_has flags BIG_PAGE_ONLY"
  shows "\<exists>st L' S'. np_allocatePages cpu n flags p = Inr st \<and> al_inv c H p L n L' S' st \<and>
    (smallPageCount st = 0 \<or> (\<forall>i < bigPageCount p. i \<notin> H \<longrightarrow> np_avail (al_pool st) i = {}))"
proof -
  let ?st0 = "startAlloc n p" and ?k = "n div 512"
  let ?xs = "take ?k (np_items p)"
  have s0: "pool_inv c H L S (al_pool ?st0)" "granted p L (al_pool ?st0) L (al_out ?st0)"
    using inv granted_refl by (simp_all add: startAlloc_def)
  obtain p1 where 1: "readFree ?k ?st0 = Inr (?st0\<lparr>al_pool := p1\<rparr>, ?xs)" "pool_inv c (H \<union> set ?xs) L S p1"
      "granted p L p1 L []" "\<forall>i \<in> set ?xs. fresh L p1 i" "bigPageMetadataBuffer p1 = bigPageMetadataBuffer p"
    using readFree_spec [OF s0, of ?k] by (auto simp: startAlloc_def)
  let ?st1 = "?st0\<lparr>al_pool := p1\<rparr>"
  have dx: "distinct ?xs" using pool_routes(4) [OF inv] by (simp add: distinct_take)
  have st1: "pool_inv c (H \<union> set ?xs) L S (al_pool ?st1)" "granted p L (al_pool ?st1) L (al_out ?st1)"
    "set ?xs \<subseteq> H \<union> set ?xs" "\<forall>i \<in> set ?xs. fresh L (al_pool ?st1) i" using 1 by (simp_all add: startAlloc_def)
  obtain p2 rs L2 where 2: "takeWhole ?xs ?st1 = Inr (?st1\<lparr>al_pool := p2, al_out := al_out ?st1 @ rs\<rparr>)"
      "totalPages rs = 512 * length ?xs" "pool_inv c (H \<union> set ?xs - set ?xs) L2 S p2" "granted p L p2 L2 (al_out ?st1 @ rs)"
      "untouched (set ?xs) L (al_pool ?st1) L2 p2"
    using takeWhole_spec [OF st1(1,2) dx st1(3,4)] by blast
  let ?st2 = "tookPages (length ?xs * 512) (?st1\<lparr>al_pool := p2, al_out := al_out ?st1 @ rs\<rparr>)"
  have Hx: "H \<inter> set ?xs = {}" using pool_routes(12) [OF inv] set_take_subset [of ?k "np_items p"] by blast
  then have HH: "H \<union> set ?xs - set ?xs = H" by blast
  have "\<forall>j \<in> H. metaAt p2 j = metaAt p j" using 2(5) 1(5) Hx by (auto simp: untouched_def)
  note keep = this
  have "length ?xs * 512 \<le> ?k * 512" by (intro mult_le_mono1) simp
  then have le: "length ?xs * 512 \<le> n" by (rule order_trans) simp
  have a2: "al_inv c H p L n L2 S ?st2" using 2(2-4) HH le keep by (simp add: al_inv_def startAlloc_def)
  obtain st3 L3 S3 where 3: "allocateFromPAPages cpu PA_BITPOOL_RELAXED_RETRIES ?st2 = Inr st3" "al_inv c H p L n L3 S3 st3"
    using allocateFromPAPages_spec [OF a2 cpu] by blast
  obtain st4 L4 b where 4: "fromFreePages (smallPageCount st3 + 1) cpu st3 = Inr (st4, b)" "al_inv c H p L n L4 S3 st4"
      "b \<longrightarrow> smallPageCount st4 = 0" "smallPageCount st4 = 0 \<or> np_items (al_pool st4) = []"
    using fromFreePages_spec [OF 3(2) less_add_one cpu n] by blast
  have run: "np_allocatePages cpu n flags p = (if b then Inr st4 else allocateFromPAPages cpu PA_BITPOOL_DETERMINED_RETRIES st4)"
    using fl size_words(2) [OF n] 1(1) 2(1) 3(1) 4(1) by (simp add: np_allocatePages_def smallPagesPerBigPage_def)
  show ?thesis
  proof (cases b)
    case True
    then show ?thesis using run 4 by (intro exI [of _ st4] exI [of _ L4] exI [of _ S3]) simp
  next
    case False
    obtain st5 L5 S5 where 5: "allocateFromPAPages cpu PA_BITPOOL_DETERMINED_RETRIES st4 = Inr st5" "al_inv c H p L n L5 S5 st5"
        "smallPageCount st5 = 0 \<or> S5 = {}" "freeBigPages (al_pool st5) = freeBigPages (al_pool st4)"
      using allocateFromPAPages_spec [OF 4(2) cpu] by blast
    have "\<forall>i < bigPageCount p. i \<notin> H \<longrightarrow> np_avail (al_pool st5) i = {}" if nz: "smallPageCount st5 \<noteq> 0"
    proof -
      have S5: "S5 = {}" and ex: "paPageRemaining st5 = None" using nz 5(2,3) by (auto simp: al_inv_def)
      have "smallPageCount st4 \<noteq> 0"
      proof
        assume z: "smallPageCount st4 = 0"
        then have "allocateFromPAPages cpu PA_BITPOOL_DETERMINED_RETRIES st4 = Inr st4" by (simp add: allocateFromPAPages_def)
        then show False using 5(1) nz z by simp
      qed
      then have it: "np_items (al_pool st5) = []" using 4(4) 5(4) by simp
      have I: "pool_inv c H L5 S5 (al_pool st5)" "bigPageCount (al_pool st5) = bigPageCount p"
        using 5(2) ex by (simp_all add: al_inv_def granted_def same_frame_def)
      show ?thesis using pool_routes(15) [OF I(1)] it S5 I(2) by auto
    qed
    then show ?thesis using run False 5 by (intro exI [of _ st5] exI [of _ L5] exI [of _ S5]) auto
  qed
qed

end
