(* ===== verification/Numa_Pool_Init.thy ===== *)
theory Numa_Pool_Init
  imports Numa_Pool_Alloc
begin

text \<open>
  Construction of a \<open>NUMAPool\<close> and the init-time reservation of ranges: both leave the pool in a state
  that satisfies the invariant.
\<close>

section \<open>Publishing pages\<close>

definition indicesOf :: "(BigPageMetadata \<Rightarrow> bool) \<Rightarrow> nat \<Rightarrow> BigPageMetadata list \<Rightarrow> nat list" where
  "indicesOf P k ms = map fst (filter (P \<circ> snd) (enumerate k ms))"

lemma indicesOf_Cons [simp]:
  "indicesOf P k [] = []" "indicesOf P k (m # ms) = (if P m then k # indicesOf P (Suc k) ms else indicesOf P (Suc k) ms)"
  by (simp_all add: indicesOf_def)

lemma length_indicesOf: "length (indicesOf P k ms) = length (filter P ms)"
  by (induction ms arbitrary: k) simp_all

lemma set_indicesOf: "set (indicesOf P k ms) = {i. k \<le> i \<and> i < k + length ms \<and> P (ms ! (i - k))}"
proof (induction ms arbitrary: k)
  case (Cons m ms)
  have "set (indicesOf P k (m # ms)) = (if P m then {k} else {}) \<union> {i. Suc k \<le> i \<and> i < Suc k + length ms \<and> P (ms ! (i - Suc k))}"
    using Cons.IH [of "Suc k"] by simp
  also have "\<dots> = {i. k \<le> i \<and> i < k + length (m # ms) \<and> P ((m # ms) ! (i - k))}"
  proof (intro set_eqI)
    fix i show "i \<in> (if P m then {k} else {}) \<union> {i. Suc k \<le> i \<and> i < Suc k + length ms \<and> P (ms ! (i - Suc k))} \<longleftrightarrow>
        i \<in> {i. k \<le> i \<and> i < k + length (m # ms) \<and> P ((m # ms) ! (i - k))}"
    proof (cases "Suc k \<le> i")
      case True
      then obtain d where "i = Suc k + d" using le_Suc_ex by blast
      then show ?thesis by simp
    next
      case False
      then show ?thesis by (cases "i = k") auto
    qed
  qed
  finally show ?case .
qed simp

lemma distinct_indicesOf: "distinct (indicesOf P k ms)"
  by (induction ms arbitrary: k) (auto simp: set_indicesOf)

lemma collectFree_spec:
  "collectFree (length (filter (\<lambda>m. \<not> hasReservedSubpages m) ms)) k ms = Inr (indicesOf (\<lambda>m. \<not> hasReservedSubpages m) k ms)"
proof (induction ms arbitrary: k)
  case (Cons m ms)
  show ?case
  proof (cases "hasReservedSubpages m")
    case True
    have "collectFree n k (m # ms) = collectFree n (k + 1) ms" for n using True by (cases n) simp_all
    then show ?thesis using True Cons.IH [of "k + 1"] by simp
  next
    case False
    then show ?thesis using Cons.IH [of "k + 1"] by simp
  qed
qed simp

lemma hr_bulkWrite_spec:
  assumes "hr_inv s" "n \<le> rb_cap (ring s) - length (rb_items (ring s))"
  shows "\<exists>s'. hr_bulkWrite n f s = Inr (s', True) \<and> hr_inv s' \<and> rb_cap (ring s') = rb_cap (ring s) \<and>
    rb_items (ring s') = rb_items (ring s) @ written f (ring s) n"
proof -
  have I: "rb_inv (ring s)" "logicalCount s = length (rb_items (ring s))" using assms(1) by (auto simp: hr_inv_def)
  obtain r where r: "bulkWrite n f (ring s) = Inr (r, True)" "rb_inv r" "rb_cap r = rb_cap (ring s)"
      "rb_items r = rb_items (ring s) @ written f (ring s) n" using bulk_writes(1) [OF I(1) assms(2)] by blast
  have "length (written f (ring s) n) = n" by (simp add: written_def)
  then show ?thesis
    using r I by (intro exI [of _ "\<lparr>ring = r, logicalCount = logicalCount s + n\<rparr>"]) (simp add: hr_bulkWrite_def hr_inv_def Let_def)
qed

lemma publishFree_spec:
  assumes "hr_inv (freeBigPages p)" "np_items p = []" "rb_cap (ring (freeBigPages p)) = length (bigPageMetadataBuffer p)"
    "n = length (filter (\<lambda>m. \<not> hasReservedSubpages m) (bigPageMetadataBuffer p))"
  shows "\<exists>r. publishFree n p = Inr (p\<lparr>freeBigPages := r\<rparr>) \<and> hr_inv r \<and> rb_cap (ring r) = length (bigPageMetadataBuffer p) \<and>
    rb_items (ring r) = indicesOf (\<lambda>m. \<not> hasReservedSubpages m) 0 (bigPageMetadataBuffer p)"
proof -
  let ?xs = "indicesOf (\<lambda>m. \<not> hasReservedSubpages m) 0 (bigPageMetadataBuffer p)"
  have n: "n \<le> rb_cap (ring (freeBigPages p)) - length (np_items p)" using assms(2-4) by simp
  obtain r where r: "hr_bulkWrite n (\<lambda>i _. ?xs ! i) (freeBigPages p) = Inr (r, True)" "hr_inv r"
      "rb_cap (ring r) = rb_cap (ring (freeBigPages p))" "rb_items (ring r) = np_items p @ written (\<lambda>i _. ?xs ! i) (ring (freeBigPages p)) n"
    using hr_bulkWrite_spec [OF assms(1) n] by blast
  have "length ?xs = n" using assms(4) by (simp add: length_indicesOf)
  then have "written (\<lambda>i _. ?xs ! i) (ring (freeBigPages p)) n = ?xs" using map_nth [of ?xs] by (simp add: written_def)
  then show ?thesis using r assms(2-4) collectFree_spec by (intro exI [of _ r]) (simp add: publishFree_def)
qed

lemma addReserved_spec:
  assumes "bp_inv c S pa" "k + length ms \<le> 2 ^ c"
  shows "\<exists>pa'. addReserved k ms pa = Inr pa' \<and> bp_inv c (S \<union> set (indicesOf hasReservedSubpages k ms)) pa'"
  using assms
proof (induction ms arbitrary: k pa S)
  case (Cons m ms)
  show ?case
  proof (cases "hasReservedSubpages m")
    case True
    obtain pa1 where pa1: "add k pa = Inr (pa1, if k \<in> S then AlreadyPresent else if S = {} then AddedToEmpty else AddedToNonempty)"
        "bp_inv c (insert k S) pa1" using add_correct [OF Cons.prems(1), of k] Cons.prems(2) by auto
    obtain pa' where "addReserved (k + 1) ms pa1 = Inr pa'"
        "bp_inv c (insert k S \<union> set (indicesOf hasReservedSubpages (k + 1) ms)) pa'"
      using Cons.IH [OF pa1(2), of "k + 1"] Cons.prems(2) by auto
    then show ?thesis using True pa1(1) by simp
  next
    case False
    then show ?thesis using Cons.IH [OF Cons.prems(1), of "k + 1"] Cons.prems(2) by simp
  qed
qed simp

text \<open>Routing by the state of the pages alone, nothing being live.\<close>

lemma initial_pool_inv:
  assumes ms: "length (bigPageMetadataBuffer p) = bigPageCount p" "bigPageCount p \<le> 2 ^ c"
    "\<forall>i < bigPageCount p. pg_inv (metaAt p i) {} \<and> allocHolder (metaAt p i) = SIZE_MAX"
    "\<forall>i < bigPageCount p. \<forall>j < bigPageCount p. bpm_base (metaAt p i) = bpm_base (metaAt p j) \<longrightarrow> i = j"
    and rt: "hr_inv (freeBigPages p)" "rb_cap (ring (freeBigPages p)) = bigPageCount p"
      "np_items p = indicesOf (\<lambda>m. \<not> hasReservedSubpages m) 0 (bigPageMetadataBuffer p)"
    and S: "bp_inv c S (paPages p)" "S = {i. i < bigPageCount p \<and> hasReservedSubpages (metaAt p i) \<and> np_avail p i \<noteq> {}}"
  shows "pool_inv c {} (\<lambda>_. {}) S p"
proof -
  have it: "set (np_items p) = {i. i < bigPageCount p \<and> \<not> hasReservedSubpages (metaAt p i)}"
    using ms(1) unfolding rt(3) set_indicesOf by simp
  have av: "np_avail p i = {..<512}" if "i \<in> set (np_items p)" for i
    using pg_queries(3) [of "metaAt p i" "{}"] ms(3) that it by auto
  have "pages_ok (\<lambda>_. {}) p" using ms by (simp add: pages_ok_def)
  moreover have "routes_ok c {} (\<lambda>_. {}) S p"
    using ms(2,3) rt S av it distinct_indicesOf [of _ 0 "bigPageMetadataBuffer p"] unfolding routes_ok_def by auto
  ultimately show ?thesis by (simp add: pool_inv_def)
qed

lemma mkNUMAPool_run:
  assumes "length ms = n" "0 < n" "n \<le> 2 ^ c" "length freeBuffer = n" "bp_inv c {} pa"
  shows "\<exists>r pa'. mkNUMAPool ms freeBuffer pa srs n dm = Inr \<lparr>bigPageMetadataBuffer = ms, freeBigPages = r, paPages = pa',
      associatedDomain = dm, subrangeInfo = srs, bigPageCount = n\<rparr> \<and> hr_inv r \<and> rb_cap (ring r) = n \<and>
    rb_items (ring r) = indicesOf (\<lambda>m. \<not> hasReservedSubpages m) 0 ms \<and> bp_inv c {i. i < n \<and> hasReservedSubpages (ms ! i)} pa'"
proof -
  let ?p = "\<lparr>bigPageMetadataBuffer = ms, freeBigPages = \<lparr>ring = mkMPMC True freeBuffer, logicalCount = 0\<rparr>,
    paPages = pa, associatedDomain = dm, subrangeInfo = srs, bigPageCount = n\<rparr>"
  have fb: "freeBuffer \<noteq> []" using assms(2,4) by auto
  note V = mkMPMC_valid [OF fb, of True]
  have h: "hr_inv (freeBigPages ?p)" "np_items ?p = []" "rb_cap (ring (freeBigPages ?p)) = length (bigPageMetadataBuffer ?p)"
    using V assms(1,4) by (simp_all add: hr_inv_def mkMPMC_def)
  let ?n = "length (filter (\<lambda>m. \<not> hasReservedSubpages m) (take n ms))"
  have "?n = length (filter (\<lambda>m. \<not> hasReservedSubpages m) (bigPageMetadataBuffer ?p))" using assms(1) by simp
  from publishFree_spec [OF h this] obtain r where r: "publishFree ?n ?p = Inr (?p\<lparr>freeBigPages := r\<rparr>)" "hr_inv r"
      "rb_cap (ring r) = n" "rb_items (ring r) = indicesOf (\<lambda>m. \<not> hasReservedSubpages m) 0 ms" using assms(1) by auto
  obtain pa' where pa': "addReserved 0 ms pa = Inr pa'" "bp_inv c ({} \<union> set (indicesOf hasReservedSubpages 0 ms)) pa'"
    using addReserved_spec [OF assms(5), of 0 ms] assms(1,3) by auto
  have "set (indicesOf hasReservedSubpages 0 ms) = {i. i < n \<and> hasReservedSubpages (ms ! i)}"
    using assms(1) by (simp add: set_indicesOf)
  moreover have "mkNUMAPool ms freeBuffer pa srs n dm = Inr (?p\<lparr>freeBigPages := r, paPages := pa'\<rparr>)"
    unfolding mkNUMAPool_def Let_def r(1) using pa'(1) assms(1) by simp
  ultimately show ?thesis using r(2-4) pa'(2) by (intro exI [of _ r] exI [of _ pa']) simp
qed

lemma mkNUMAPool_spec:
  assumes "length ms = n" "0 < n" "n \<le> 2 ^ c" "length freeBuffer = n" "bp_inv c {} pa"
    "\<forall>i < n. pg_inv (ms ! i) {} \<and> allocHolder (ms ! i) = SIZE_MAX"
    "\<forall>i < n. \<forall>j < n. bpm_base (ms ! i) = bpm_base (ms ! j) \<longrightarrow> i = j"
    "\<forall>i < n. hasReservedSubpages (ms ! i) \<longrightarrow> pg_avail (ms ! i) \<noteq> {}"
  shows "\<exists>p. mkNUMAPool ms freeBuffer pa srs n dm = Inr p \<and> pool_inv c {} (\<lambda>_. {}) {i. i < n \<and> hasReservedSubpages (ms ! i)} p \<and>
    bigPageMetadataBuffer p = ms \<and> bigPageCount p = n \<and> subrangeInfo p = srs \<and> associatedDomain p = dm"
proof -
  obtain r pa' where r: "mkNUMAPool ms freeBuffer pa srs n dm = Inr \<lparr>bigPageMetadataBuffer = ms, freeBigPages = r, paPages = pa',
      associatedDomain = dm, subrangeInfo = srs, bigPageCount = n\<rparr>" "hr_inv r" "rb_cap (ring r) = n"
      "rb_items (ring r) = indicesOf (\<lambda>m. \<not> hasReservedSubpages m) 0 ms" "bp_inv c {i. i < n \<and> hasReservedSubpages (ms ! i)} pa'"
    using mkNUMAPool_run [OF assms(1-5), of srs dm] by blast
  let ?q = "\<lparr>bigPageMetadataBuffer = ms, freeBigPages = r, paPages = pa', associatedDomain = dm, subrangeInfo = srs, bigPageCount = n\<rparr>"
  have Q: "bigPageMetadataBuffer ?q = ms" "bigPageCount ?q = n" "paPages ?q = pa'" "freeBigPages ?q = r"
    "subrangeInfo ?q = srs" "associatedDomain ?q = dm" by simp_all
  have "pool_inv c {} (\<lambda>_. {}) {i. i < n \<and> hasReservedSubpages (ms ! i)} ?q"
    by (rule initial_pool_inv, unfold Q) (use assms r(2-5) in auto)
  then show ?thesis using r(1) Q by blast
qed

section \<open>Reserving a range\<close>

lemma reserveLoop_spec:
  assumes "pg_inv m {}" "unat a = unat (bpm_base m) + 4096 * j" "unat e = unat (bpm_base m) + 4096 * k"
    "k \<le> 512" "k - j \<le> fuel" "unat (bpm_base m) + 2097152 < 2 ^ 64"
  shows "\<exists>m'. reserveLoop fuel a e m = Inr m' \<and> pg_inv m' {} \<and> pg_avail m' = pg_avail m - {j..<k} \<and>
    bpm_base m' = bpm_base m \<and> ownerPool m' = ownerPool m \<and> allocHolder m' = allocHolder m"
  using assms
proof (induction fuel arbitrary: a j m)
  case 0
  then show ?case by (simp add: word_less_nat_alt)
next
  case (Suc fuel)
  show ?case
  proof (cases "j < k")
    case False
    then show ?thesis using Suc.prems by (intro exI [of _ m]) (simp add: word_less_nat_alt)
  next
    case True
    have b: "2097152 dvd unat (bpm_base m)" using pg_invD(3) [OF Suc.prems(1)] .
    have lt: "a < e" using True Suc.prems(2,3) by (simp add: word_less_nat_alt)
    have "fromPageIndex j (subpageAllocator m) = a"
      using slot_address(1) [OF b _ bpm_base_def, of j] True Suc.prems(2,4) by (simp add: word_unat_eq_iff)
    then have sl: "smallPageIndex a = j" using slot_address(5) [OF b _ bpm_base_def, of j] True Suc.prems(4) by simp
    have "(4096 :: nat) dvd 2097152" by simp
    then have "4096 dvd unat (bpm_base m)" using b by (rule dvd_trans)
    then have "4096 dvd unat a" using Suc.prems(2) by simp
    then obtain m1 where m1: "bpm_reservePage a m = Inr m1" "pg_inv m1 {}" "pg_avail m1 = pg_avail m - {j}"
        "bpm_base m1 = bpm_base m" "ownerPool m1 = ownerPool m" "allocHolder m1 = allocHolder m"
      using pg_reserve_spec [OF Suc.prems(1), of a] sl by auto
    have "unat (a + smallPageSize) = unat (bpm_base m1) + 4096 * (j + 1)"
      using Suc.prems(2,4,6) True m1(4) by (simp add: unat_word_ariths)
    moreover have "k - (j + 1) \<le> fuel" using Suc.prems(5) by linarith
    ultimately obtain m' where m':
        "reserveLoop fuel (a + smallPageSize) e m1 = Inr m'" "pg_inv m' {}" "pg_avail m' = pg_avail m1 - {j + 1..<k}"
        "bpm_base m' = bpm_base m1" "ownerPool m' = ownerPool m1" "allocHolder m' = allocHolder m1"
      using Suc.IH [OF m1(2), of "a + smallPageSize" "j + 1"] m1(4) Suc.prems(3,4,6) by auto
    have "pg_avail m - {j} - {j + 1..<k} = pg_avail m - {j..<k}" using True by auto
    then show ?thesis using m1 m' lt by (intro exI [of _ m']) simp
  qed
qed

text \<open>The slots of a page that overlap a range.\<close>

definition hitSlots :: "phys_memory_range \<Rightarrow> BigPageMetadata \<Rightarrow> nat set" where
  "hitSlots rg m = {s. s < 512 \<and> unat (bpm_base m) + 4096 * s < unat (rng_end rg) \<and>
     unat (rng_start rg) < unat (bpm_base m) + 4096 * (s + 1)}"

lemma hit_interval:
  fixes b st en :: nat
  assumes "4096 dvd b"
  shows "{(max st b div 4096 * 4096 - b) div 4096..<(min en (b + 2097152) + 4095) div 4096 - b div 4096} =
    {s. s < 512 \<and> b + 4096 * s < en \<and> st < b + 4096 * (s + 1)}"
proof -
  obtain q where q: "b = 4096 * q" using assms by (auto elim: dvdE)
  have "max st b div 4096 * 4096 - b = 4096 * (max st b div 4096 - q)" by (simp add: q diff_mult_distrib2 mult.commute)
  then have lo: "(max st b div 4096 * 4096 - b) div 4096 = max st b div 4096 - q" by simp
  have "max st b div 4096 - q \<le> s \<longleftrightarrow> max st b div 4096 < q + s + 1" for s by linarith
  also have "max st b div 4096 < q + s + 1 \<longleftrightarrow> st < b + 4096 * (s + 1)" for s
    by (subst div_less_iff_less_mult) (auto simp: q algebra_simps)
  finally have 1: "max st b div 4096 - q \<le> s \<longleftrightarrow> st < b + 4096 * (s + 1)" for s .
  have "s < (min en (b + 2097152) + 4095) div 4096 - q \<longleftrightarrow> q + s + 1 \<le> (min en (b + 2097152) + 4095) div 4096" for s by linarith
  also have "q + s + 1 \<le> (min en (b + 2097152) + 4095) div 4096 \<longleftrightarrow> s < 512 \<and> b + 4096 * s < en" for s
    by (subst less_eq_div_iff_mult_less_eq) (auto simp: q algebra_simps)
  finally have 2: "s < (min en (b + 2097152) + 4095) div 4096 - q \<longleftrightarrow> s < 512 \<and> b + 4096 * s < en" for s .
  have "b div 4096 = q" by (simp add: q)
  then show ?thesis unfolding lo using 1 2 by auto
qed

lemma reserveInPage_spec:
  assumes "pg_inv m {}" "unat (bpm_base m) + 2097152 < 2 ^ 64"
  shows "\<exists>m'. reserveInPage rg m = Inr m' \<and> pg_inv m' {} \<and> pg_avail m' = pg_avail m - hitSlots rg m \<and>
    bpm_base m' = bpm_base m \<and> ownerPool m' = ownerPool m \<and> allocHolder m' = allocHolder m"
proof -
  let ?b = "unat (bpm_base m)" and ?s = "unat (rng_start rg)" and ?e = "unat (rng_end rg)"
  have b21: "2097152 dvd ?b" using pg_invD(3) [OF assms(1)] .
  have "(4096 :: nat) dvd 2097152" by simp
  then have b12: "4096 dvd ?b" using b21 by (rule dvd_trans)
  have be: "unat (bpm_base m + bigPageSize) = ?b + 2097152" using assms(2) by (simp add: unat_word_ariths)
  show ?thesis
  proof (cases "rng_end rg \<le> bpm_base m \<or> bpm_base m + bigPageSize \<le> rng_start rg")
    case True
    then have "hitSlots rg m = {}" using be by (auto simp: hitSlots_def word_le_nat_alt)
    then show ?thesis using True assms(1) by (intro exI [of _ m]) (simp add: reserveInPage_def Let_def)
  next
    case False
    then have c: "?b < ?e" "?s < ?b + 2097152" using be by (simp_all add: word_le_nat_alt)
    let ?a = "roundDownToNearestMultiple (max (rng_start rg) (bpm_base m)) smallPageSize"
    let ?z = "roundUpToNearestMultiple (min (rng_end rg) (bpm_base m + bigPageSize)) smallPageSize"
    have mx: "unat (max (rng_start rg) (bpm_base m)) = max ?s ?b" by (simp add: max_def word_le_nat_alt)
    have mn: "unat (min (rng_end rg) (bpm_base m + bigPageSize)) = min ?e (?b + 2097152)" using be by (simp add: min_def word_le_nat_alt)
    have lt: "min ?e (?b + 2097152) + 4095 < 2 ^ 64"
    proof -
      obtain q where "?b = 2097152 * q" using b21 by (auto elim: dvdE)
      then have "?b + 2097152 + 4095 < 2 ^ 64" using assms(2) by simp
      then show ?thesis by (simp add: min_def)
    qed
    have ua: "unat ?a = max ?s ?b div 4096 * 4096" using unat_round(1) [of smallPageSize] mx by simp
    have uz: "unat ?z = (min ?e (?b + 2097152) + 4095) div 4096 * 4096"
      using unat_round(2) [of smallPageSize "min (rng_end rg) (bpm_base m + bigPageSize)"] mn lt by simp
    obtain q where q: "?b = 4096 * q" using b12 by (auto elim: dvdE)
    define j where "j = (max ?s ?b div 4096 * 4096 - ?b) div 4096"
    define k where "k = (min ?e (?b + 2097152) + 4095) div 4096 - ?b div 4096"
    have "q \<le> max ?s ?b div 4096" using q by (simp add: max_def) linarith
    then have "unat ?a = ?b + 4096 * j" using ua q by (simp add: j_def diff_mult_distrib2)
    moreover have "q \<le> (min ?e (?b + 2097152) + 4095) div 4096" using c(1) q by (simp add: min_def) linarith
    then have "unat ?z = ?b + 4096 * k" using uz q by (simp add: k_def diff_mult_distrib2)
    moreover have "(min ?e (?b + 2097152) + 4095) div 4096 \<le> (4096 * (q + 512) + 4095) div 4096"
      by (rule div_le_mono) (simp add: q)
    then have "k \<le> 512" "k - j \<le> 512" by (simp_all add: k_def q)
    ultimately obtain m' where "reserveLoop 512 ?a ?z m = Inr m'" "pg_inv m' {}" "pg_avail m' = pg_avail m - {j..<k}"
        "bpm_base m' = bpm_base m" "ownerPool m' = ownerPool m" "allocHolder m' = allocHolder m"
      using reserveLoop_spec [OF assms(1) _ _ _ _ assms(2), of ?a j ?z k 512] by auto
    moreover have "{j..<k} = hitSlots rg m" unfolding j_def k_def hitSlots_def by (rule hit_interval [OF b12])
    ultimately show ?thesis using False by (intro exI [of _ m']) (simp add: reserveInPage_def Let_def smallPagesPerBigPage_def)
  qed
qed

lemma mapO_list_all2:
  assumes "\<And>x. x \<in> set xs \<Longrightarrow> \<exists>y. f x = Inr y \<and> Q x y"
  shows "\<exists>ys. mapO f xs = Inr ys \<and> list_all2 Q xs ys"
  using assms
proof (induction xs)
  case (Cons x xs)
  obtain y where "f x = Inr y" "Q x y" using Cons.prems [of x] by auto
  moreover obtain ys where "mapO f xs = Inr ys" "list_all2 Q xs ys" using Cons by force
  ultimately show ?case by (intro exI [of _ "y # ys"]) simp
qed simp

abbreviation partlyReserved :: "BigPageMetadata \<Rightarrow> bool" where
  "partlyReserved m \<equiv> hasReservedSubpages m \<and> \<not> bpm_isFull m"

abbreviation whollyReserved :: "BigPageMetadata \<Rightarrow> bool" where
  "whollyReserved m \<equiv> hasReservedSubpages m \<and> bpm_isFull m"

lemma fixupPages_spec:
  assumes "bp_inv c S pa" "k + length ms \<le> 2 ^ c"
  shows "\<exists>pa'. fixupPages k ms pa = Inr pa' \<and>
    bp_inv c ((S \<union> set (indicesOf partlyReserved k ms)) - set (indicesOf whollyReserved k ms)) pa'"
  using assms
proof (induction ms arbitrary: k pa S)
  case (Cons m ms)
  let ?A = "set (indicesOf partlyReserved (Suc k) ms)" and ?B = "set (indicesOf whollyReserved (Suc k) ms)"
  have k: "k \<notin> ?A" "k \<notin> ?B" "k < 2 ^ c" "Suc k + length ms \<le> 2 ^ c" using Cons.prems(2) by (auto simp: set_indicesOf)
  consider "\<not> hasReservedSubpages m" | "partlyReserved m" | "whollyReserved m" by blast
  then show ?case
  proof cases
    case 1
    then show ?thesis using Cons.IH [OF Cons.prems(1) k(4)] by simp
  next
    case 2
    obtain pa1 r where pa1: "add k pa = Inr (pa1, r)" "bp_inv c (insert k S) pa1"
      using add_correct [OF Cons.prems(1) k(3)] by auto
    have "(insert k S \<union> ?A) - ?B = (S \<union> insert k ?A) - ?B" by blast
    then show ?thesis using 2 pa1 Cons.IH [OF pa1(2) k(4)] by simp
  next
    case 3
    have "bp_inv c (S - {k}) (fst (remove k pa))"
      using remove_correct [OF Cons.prems(1) k(3)] Cons.prems(1) by (cases "k \<in> S") auto
    moreover have "(S - {k} \<union> ?A) - ?B = (S \<union> ?A) - insert k ?B" using k(1) by blast
    ultimately show ?thesis using 3 Cons.IH [of "S - {k}" "fst (remove k pa)" "Suc k"] k(4) by simp
  qed
qed simp

lemma fixupAfterReserveRange_spec:
  assumes len: "length (bigPageMetadataBuffer p) = bigPageCount p" and c: "bigPageCount p \<le> 2 ^ c"
    and pg: "\<forall>i < bigPageCount p. pg_inv (metaAt p i) {} \<and> allocHolder (metaAt p i) = SIZE_MAX"
    and ba: "\<forall>i < bigPageCount p. \<forall>j < bigPageCount p. bpm_base (metaAt p i) = bpm_base (metaAt p j) \<longrightarrow> i = j"
    and rt: "hr_inv (freeBigPages p)" "rb_cap (ring (freeBigPages p)) = bigPageCount p"
    and S: "bp_inv c S (paPages p)" "S \<subseteq> {i. i < bigPageCount p \<and> hasReservedSubpages (metaAt p i)}"
  shows "\<exists>p' S'. fixupAfterReserveRange p = Inr p' \<and> pool_inv c {} (\<lambda>_. {}) S' p' \<and>
    bigPageMetadataBuffer p' = bigPageMetadataBuffer p \<and> bigPageCount p' = bigPageCount p \<and>
    subrangeInfo p' = subrangeInfo p \<and> associatedDomain p' = associatedDomain p"
proof -
  let ?N = "bigPageCount p" and ?ms = "bigPageMetadataBuffer p"
  have "length (np_items p) \<le> ?N" using rt rb_room(4) [of "ring (freeBigPages p)"] by (auto simp: hr_inv_def)
  then obtain r where r: "hr_bulkReadBestEffort ?N DEFAULT_MAX_SPINS (freeBigPages p) = Inr (r, np_items p)" "hr_inv r"
      "rb_cap (ring r) = ?N" "rb_items (ring r) = []"
    using hr_readLoop_spec [OF rt(1), of ?N "?N + 1" DEFAULT_MAX_SPINS] rt(2) unfolding hr_bulkReadBestEffort_def by auto
  let ?A = "set (indicesOf partlyReserved 0 ?ms)" and ?B = "set (indicesOf whollyReserved 0 ?ms)"
  let ?S = "(S \<union> ?A) - ?B"
  obtain pa where pa: "fixupPages 0 ?ms (paPages p) = Inr pa" "bp_inv c ?S pa"
    using fixupPages_spec [OF S(1), of 0 ?ms] len c by auto
  let ?q = "p\<lparr>freeBigPages := r, paPages := pa\<rparr>"
  let ?n = "length (filter (\<lambda>m. \<not> hasReservedSubpages m) ?ms)"
  have "rb_cap (ring (freeBigPages ?q)) = length (bigPageMetadataBuffer ?q)" using r(3) len by simp
  then obtain r' where r': "publishFree ?n ?q = Inr (?q\<lparr>freeBigPages := r'\<rparr>)" "hr_inv r'"
      "rb_cap (ring r') = ?N" "rb_items (ring r') = indicesOf (\<lambda>m. \<not> hasReservedSubpages m) 0 ?ms"
    using publishFree_spec [of ?q ?n] r(2,4) len by auto
  let ?p = "?q\<lparr>freeBigPages := r'\<rparr>"
  have run: "fixupAfterReserveRange p = Inr ?p"
    using r(1) pa(1) r'(1) len by (simp add: fixupAfterReserveRange_def Let_def)
  have Q: "bigPageMetadataBuffer ?p = ?ms" "bigPageCount ?p = ?N" "paPages ?p = pa" "freeBigPages ?p = r'"
    "subrangeInfo ?p = subrangeInfo p" "associatedDomain ?p = associatedDomain p" by simp_all
  have full: "bpm_isFull (?ms ! i) \<longleftrightarrow> pg_avail (?ms ! i) = {}" if "i < ?N" for i using pg_queries(1) pg that by blast
  have "?S = {i. i < ?N \<and> hasReservedSubpages (?ms ! i) \<and> pg_avail (?ms ! i) \<noteq> {}}"
    using S(2) len full unfolding set_indicesOf by auto
  then have "pool_inv c {} (\<lambda>_. {}) ?S ?p"
    by (intro initial_pool_inv, unfold Q) (use len c pg ba r'(2-4) pa(2) in auto)
  then show ?thesis using run Q by blast
qed

lemma np_reserveRange_spec:
  assumes inv: "pool_inv c {} (\<lambda>_. {}) S p" and S: "\<forall>i \<in> S. hasReservedSubpages (metaAt p i)"
    and top: "\<forall>i < bigPageCount p. unat (bpm_base (metaAt p i)) + 2097152 < 2 ^ 64"
  shows "\<exists>p' S'. np_reserveRange rg p = Inr p' \<and> pool_inv c {} (\<lambda>_. {}) S' p' \<and> same_frame p p' \<and>
    (\<forall>i < bigPageCount p. np_avail p' i = np_avail p i - hitSlots rg (metaAt p i))"
proof -
  let ?N = "bigPageCount p" and ?ms = "bigPageMetadataBuffer p"
  note P = pool_pages [OF inv] and R = pool_routes [OF inv]
  define Q where "Q = (\<lambda>m m'. pg_inv m' {} \<and> pg_avail m' = pg_avail m - hitSlots rg m \<and> bpm_base m' = bpm_base m \<and>
    ownerPool m' = ownerPool m \<and> allocHolder m' = allocHolder m)"
  have "\<exists>m'. reserveInPage rg m = Inr m' \<and> Q m m'" if "m \<in> set ?ms" for m
    using that P(1,2) top reserveInPage_spec [of m rg] unfolding Q_def by (auto simp: in_set_conv_nth)
  then obtain ms' where ms': "mapO (reserveInPage rg) ?ms = Inr ms'" "list_all2 Q ?ms ms'"
    using mapO_list_all2 [of ?ms "reserveInPage rg" Q] by blast
  have len: "length ms' = ?N" using list_all2_lengthD [OF ms'(2)] P(1) by simp
  have q: "Q (?ms ! i) (ms' ! i)" if "i < ?N" for i using list_all2_nthD [OF ms'(2)] that P(1) by simp
  let ?q = "p\<lparr>bigPageMetadataBuffer := ms'\<rparr>"
  have E: "bigPageMetadataBuffer ?q = ms'" "bigPageCount ?q = ?N" "freeBigPages ?q = freeBigPages p" "paPages ?q = paPages p"
    by simp_all
  have res: "hasReservedSubpages (ms' ! i)" if i: "i \<in> S" for i
  proof -
    have iN: "i < ?N" using i R(6) by auto
    then have "pg_avail (?ms ! i) \<noteq> {..<512}" using pg_queries(3) [OF P(2) [OF iN]] S i by auto
    then have "pg_avail (ms' ! i) \<noteq> {..<512}" using q [OF iN] pg_invD(5) [OF P(2) [OF iN]] unfolding Q_def by auto
    then show ?thesis using pg_queries(3) [of "ms' ! i" "{}"] q [OF iN] unfolding Q_def by auto
  qed
  have "\<exists>p' S'. fixupAfterReserveRange ?q = Inr p' \<and> pool_inv c {} (\<lambda>_. {}) S' p' \<and> bigPageMetadataBuffer p' = bigPageMetadataBuffer ?q \<and>
      bigPageCount p' = bigPageCount ?q \<and> subrangeInfo p' = subrangeInfo ?q \<and> associatedDomain p' = associatedDomain ?q"
  proof (rule fixupAfterReserveRange_spec, unfold E)
    show "\<forall>i < ?N. pg_inv (ms' ! i) {} \<and> allocHolder (ms' ! i) = SIZE_MAX" using q R(14) by (auto simp: Q_def)
    show "\<forall>i < ?N. \<forall>j < ?N. bpm_base (ms' ! i) = bpm_base (ms' ! j) \<longrightarrow> i = j" using q P(3) unfolding Q_def by metis
    show "S \<subseteq> {i. i < ?N \<and> hasReservedSubpages (ms' ! i)}" using res R(6) by auto
  qed (use len R in auto)
  then obtain p' S' where p': "fixupAfterReserveRange ?q = Inr p'" "pool_inv c {} (\<lambda>_. {}) S' p'" "bigPageMetadataBuffer p' = ms'"
      "bigPageCount p' = ?N" "subrangeInfo p' = subrangeInfo p" "associatedDomain p' = associatedDomain p" by auto
  have "np_reserveRange rg p = Inr p'" using ms'(1) p'(1) P(1) by (simp add: np_reserveRange_def)
  moreover have "same_frame p p'" using p'(3-6) q by (auto simp: same_frame_def Q_def)
  moreover have "\<forall>i < ?N. np_avail p' i = np_avail p i - hitSlots rg (metaAt p i)" using p'(3) q by (simp add: Q_def)
  ultimately show ?thesis using p'(2) by blast
qed

section \<open>A small pool\<close>

text \<open>Two free big pages at 4 MiB and 6 MiB, for the witnesses.\<close>

definition demo_srs :: "SubrangeInfo list" where
  "demo_srs = [\<lparr>rangeStart = 4194304, rangeEnd = 8388608, metadataBase = 0\<rparr>]"

lemma demo_pool:
  obtains m0 m1 pa c p where "mkBigPageMetadata 0 4194304 = Inr m0" "mkBigPageMetadata 0 6291456 = Inr m1"
    "mkAtomicBitPool 2 (\<lambda>_. \<lparr>ent_bitmap = 0, ent_count = 0\<rparr>) 64 = Inr pa"
    "mkNUMAPool [m0, m1] [0, 0] pa demo_srs 2 0 = Inr p" "pool_inv c {} (\<lambda>_. {}) {} p" "bigPageCount p = 2"
    "metaAt p 0 = m0" "metaAt p 1 = m1" "bpm_base m0 = 4194304" "bpm_base m1 = 6291456" "np_avail p 0 = {..<512}" "np_avail p 1 = {..<512}"
    "subrangeInfo p = demo_srs"
proof -
  have "2097152 dvd unat (4194304 :: u64)" "2097152 dvd unat (6291456 :: u64)" by simp_all
  then obtain m0 m1 where m: "mkBigPageMetadata 0 4194304 = Inr m0" "pg_inv m0 {}" "pg_avail m0 = {..<512}" "bpm_base m0 = 4194304"
      "allocHolder m0 = SIZE_MAX" "mkBigPageMetadata 0 6291456 = Inr m1" "pg_inv m1 {}" "pg_avail m1 = {..<512}" "bpm_base m1 = 6291456"
      "allocHolder m1 = SIZE_MAX"
    using mkBigPageMetadata_spec [of 4194304 0] mkBigPageMetadata_spec [of 6291456 0] by blast
  obtain c pa where pa: "mkAtomicBitPool 2 (\<lambda>_. \<lparr>ent_bitmap = 0, ent_count = 0\<rparr>) 64 = Inr pa" "bp_inv c {} pa" "2 \<le> (2 :: nat) ^ c"
    by (rule mkAtomicBitPool_correct [of 2]) auto
  have nr: "\<not> hasReservedSubpages m0" "\<not> hasReservedSubpages m1"
    using pg_queries(3) [OF m(2)] pg_queries(3) [OF m(7)] m(3,8) by simp_all
  have all2: "(\<forall>i < 2. P i) \<longleftrightarrow> P 0 \<and> P 1" for P :: "nat \<Rightarrow> bool" by (auto simp: less_2_cases_iff)
  have "\<exists>p. mkNUMAPool [m0, m1] [0, 0] pa demo_srs 2 0 = Inr p \<and>
      pool_inv c {} (\<lambda>_. {}) {i. i < 2 \<and> hasReservedSubpages ([m0, m1] ! i)} p \<and>
      bigPageMetadataBuffer p = [m0, m1] \<and> bigPageCount p = 2 \<and> subrangeInfo p = demo_srs \<and> associatedDomain p = 0"
    by (rule mkNUMAPool_spec) (use m pa nr in \<open>simp_all add: all2\<close>)
  moreover have "\<not> hasReservedSubpages ([m0, m1] ! i)" if "i < 2" for i using nr that by (auto simp: less_2_cases_iff)
  then have "{i. i < 2 \<and> hasReservedSubpages ([m0, m1] ! i)} = {}" by blast
  ultimately show ?thesis using that [OF m(1,6) pa(1)] m by auto
qed

section \<open>Properties\<close>



text \<open>
  \<open>NUMAPool::reserveRange\<close>, called before any allocation, takes exactly the small pages that
  overlap the range out of every big page: it ends without an assertion, no other page changes, and
  the free ring and the partially-allocated pool are rebuilt so that the pool invariant holds.
\<close>

lemma reserve_range_exact:
  assumes "pool_inv c {} (\<lambda>_. {}) S p" and "\<forall>i \<in> S. hasReservedSubpages (metaAt p i)"
    and "\<forall>i < bigPageCount p. unat (bpm_base (metaAt p i)) + 2097152 < 2 ^ 64"
  shows "\<exists>p' S'. np_reserveRange rg p = Inr p' \<and> pool_inv c {} (\<lambda>_. {}) S' p' \<and> same_frame p p' \<and>
    (\<forall>i < bigPageCount p. \<forall>s < 512. s \<in> np_avail p' i \<longleftrightarrow> s \<in> np_avail p i \<and>
       \<not> (unat (bpm_base (metaAt p i)) + 4096 * s < unat (rng_end rg) \<and>
          unat (rng_start rg) < unat (bpm_base (metaAt p i)) + 4096 * (s + 1)))"
  using np_reserveRange_spec [OF assms, of rg] by (auto simp: hitSlots_def)

text \<open>
  The constructor puts a big page with no usable small page into the pool of partially allocated
  pages (it tests only for reserved subpages, where \<open>fixupAfterReserveRange\<close> also tests for full).
  A pool whose pages are all of this kind is constructed without complaint, and the first request
  for a small page never returns.
\<close>

lemma wholly_reserved_page_hangs:
  assumes "length ms = n" and "2 \<le> n" and "n \<le> 2 ^ c" and "bp_inv c {} pa" and "cpu < 256"
    and "\<forall>i < n. pg_inv (ms ! i) {} \<and> allocHolder (ms ! i) = SIZE_MAX \<and> pg_avail (ms ! i) = {}"
  shows "\<exists>p. mkNUMAPool ms (replicate n 0) pa srs n dm = Inr p \<and> np_allocatePages cpu 1 0 p = Inl Diverges"
proof -
  have av: "pg_inv (ms ! i) {}" "pg_avail (ms ! i) = {}" "hasReservedSubpages (ms ! i)" if "i < n" for i
    using assms(6) pg_queries(3) [of "ms ! i" "{}"] that lessThan_empty_iff [of "512 :: nat"] by auto
  have "length (replicate n (0 :: nat)) = n" "0 < n" using assms(2) by simp_all
  then obtain r pa' where r: "mkNUMAPool ms (replicate n 0) pa srs n dm = Inr \<lparr>bigPageMetadataBuffer = ms, freeBigPages = r, paPages = pa',
      associatedDomain = dm, subrangeInfo = srs, bigPageCount = n\<rparr>" "hr_inv r" "bp_inv c {i. i < n \<and> hasReservedSubpages (ms ! i)} pa'"
    using mkNUMAPool_run [OF assms(1) _ assms(3) _ assms(4), of "replicate n 0" srs dm] by blast
  let ?p = "\<lparr>bigPageMetadataBuffer = ms, freeBigPages = r, paPages = pa', associatedDomain = dm, subrangeInfo = srs, bigPageCount = n\<rparr>"
  let ?S = "{i. i < n \<and> hasReservedSubpages (ms ! i)}"
  obtain r' where r': "hr_bulkReadBestEffort 0 DEFAULT_MAX_SPINS r = Inr (r', [])"
    using hr_readLoop_spec [OF r(2), of 0 1 DEFAULT_MAX_SPINS] unfolding hr_bulkReadBestEffort_def by auto
  have ne: "0 \<in> ?S" using av [of 0] assms(2) by simp
  from bp.get_law [OF r(3), of cpu PA_BITPOOL_RELAXED_RETRIES] obtain i pa2 where
    i: "getAny cpu PA_BITPOOL_RELAXED_RETRIES pa' = (pa2, Success i)" "i \<in> ?S" using ne by (auto split: if_splits)
  let ?st = "tookPages 0 ((startAlloc 1 ?p)\<lparr>al_pool := ?p\<lparr>freeBigPages := r'\<rparr>\<rparr>)"
  let ?st1 = "?st\<lparr>al_pool := (al_pool ?st)\<lparr>paPages := pa2\<rparr>\<rparr>"
  let ?st2 = "?st1\<lparr>al_pool := hold i cpu (al_pool ?st1)\<rparr>"
  have len: "i < length (bigPageMetadataBuffer (al_pool ?st1))" using i(2) assms(1) by (simp add: startAlloc_def)
  have h: "holdPage cpu i ?st1 = Inr ?st2"
    using holdPage_spec(1) [OF len] i(2) assms(6) by (simp add: startAlloc_def)
  have m2: "metaAt (al_pool ?st2) i = (ms ! i)\<lparr>allocHolder := cpu\<rparr>"
    using hold_frame(1) [OF len, of cpu i] by (simp add: startAlloc_def)
  have len2: "i < length (bigPageMetadataBuffer (al_pool ?st2))" using hold_frame(10) [OF len, of cpu] len by simp
  have "bpm_alloc_loop 2 1 noTransition (subpageAllocator (ms ! i)) = Inl Diverges"
    using pg_alloc_full [of "subpageAllocator (ms ! i)" "{}" 1 2] av [of i] i(2) pg_invD(1) by auto
  moreover have "cpu \<noteq> SIZE_MAX" using assms(5) by (simp add: SIZE_MAX_def)
  ultimately have "allocFromPage cpu i noTransition ?st2 = Inl Diverges"
    using m2 len2 by (simp add: allocFromPage_def bpm_allocatePages_def startAlloc_def numeral_2_eq_2)
  then have dr: "drainPage 2 cpu i noTransition ?st2 = Inl Diverges" by (simp add: numeral_2_eq_2)
  have "fromPAPages (Suc k) cpu PA_BITPOOL_RELAXED_RETRIES ?st = Inl Diverges" for k
    using i(1) h dr by (simp add: startAlloc_def numeral_2_eq_2)
  then have "allocateFromPAPages cpu PA_BITPOOL_RELAXED_RETRIES ?st = Inl Diverges" by (simp add: allocateFromPAPages_def)
  then have "np_allocatePages cpu 1 0 ?p = Inl Diverges"
    using r' by (simp add: np_allocatePages_def flags_has_def divideAndRoundDown_def readFree_def startAlloc_def)
  then show ?thesis using r(1) by blast
qed

end
