(* ===== verification/Numa_Pool_Free.thy ===== *)
theory Numa_Pool_Free
  imports Numa_Pool_Init
begin

text \<open>
  \<open>NUMAPool::findMetadata\<close>, \<open>returnPage\<close> and \<open>freePages\<close>: how pages find their metadata and their way
  back to the ring of free pages and the pool of partially allocated ones.
\<close>

section \<open>Freeing\<close>

text \<open>
  A run of big pages: the ring's write callback checks and frees each page and stores its index;
  when the ring has no room it is not called at all.
\<close>

fun freeWhole :: "nat list \<Rightarrow> NUMAPool \<Rightarrow> NUMAPool outcome" where
  "freeWhole [] p = Inr p"
| "freeWhole (i # is) p =
     bindO (readAt (bigPageMetadataBuffer p) i) (\<lambda>m.
     bindO (assertO (bpm_isFull m) ''We should only take this path when freeing totally occupied big pages'') (\<lambda>_.
     bindO (bpm_freeAll m) (\<lambda>m'. freeWhole is (setMeta i m' p))))"

definition runIndex :: "nat \<Rightarrow> PageRef list \<Rightarrow> nat \<Rightarrow> nat" where
  "runIndex i0 run j = i0 + unat (divideAndRoundDown (run ! j - run ! 0) bigPageSize)"

definition freeBigPageRun :: "nat option \<Rightarrow> PageRef list \<Rightarrow> NUMAPool \<Rightarrow> NUMAPool outcome" where
  "freeBigPageRun firstMetadata run p =
     (case firstMetadata of
        None \<Rightarrow> Inl (Undefined ''null pointer'')
      | Some i0 \<Rightarrow>
          bindO (hr_bulkWrite (length run) (\<lambda>j _. runIndex i0 run j) (freeBigPages p)) (\<lambda>(r, ok).
            if ok then freeWhole (map (runIndex i0 run) [0..<length run]) (p\<lparr>freeBigPages := r\<rparr>)
            else Inr (p\<lparr>freeBigPages := r\<rparr>)))"

text \<open>
  The wait for the holder of a page that was full cannot succeed without another processor: the
  spin limit is reached and the assertion fails.
\<close>

definition freeSmallPageRun :: "nat option \<Rightarrow> PageRef list \<Rightarrow> NUMAPool \<Rightarrow> NUMAPool outcome" where
  "freeSmallPageRun superpage run p =
     (case superpage of
        None \<Rightarrow> Inl (Undefined ''null pointer'')
      | Some i \<Rightarrow>
          bindO (readAt (bigPageMetadataBuffer p) i) (\<lambda>m.
          bindO (bpm_freePages run m) (\<lambda>(m', t).
            let p1 = setMeta i m' p
            in if becameEmpty t then
                 if hasAllocHolder m' then Inr p1
                 else if before t = Partial then
                   (case remove i (paPages p1) of
                      (pa, NotPresent) \<Rightarrow> Inr (p1\<lparr>paPages := pa\<rparr>)
                    | (pa, _) \<Rightarrow>
                        if \<not> bpm_isEmpty m' then bindO (add i pa) (\<lambda>(pa', _). Inr (p1\<lparr>paPages := pa'\<rparr>))
                        else bindO (hr_write i (freeBigPages p1)) (\<lambda>(r, _). Inr (p1\<lparr>paPages := pa, freeBigPages := r\<rparr>)))
                 else bindO (hr_write i (freeBigPages p1)) (\<lambda>(r, _). Inr (p1\<lparr>freeBigPages := r\<rparr>))
               else if becameAvailable t then
                 bindO (assertO (\<not> hasAllocHolder m') ''stuck waiting for alloc holder to release hold'') (\<lambda>_.
                   bindO (add i (paPages p1)) (\<lambda>(pa, _). Inr (p1\<lparr>paPages := pa\<rparr>)))
               else Inr p1)))"

text \<open>
  The walk over the sorted references: a big one starts a run that ends with its subrange (the
  cursor \<open>srs\<close> only moves forward), a small one a run inside its big page. The first reference of a
  run always satisfies the run's own condition.
\<close>

function freePagesFrom :: "PageRef list \<Rightarrow> SubrangeInfo list \<Rightarrow> NUMAPool \<Rightarrow> NUMAPool outcome" where
  "freePagesFrom [] srs p = Inr p"
| "freePagesFrom (r # rs) srs p =
     (if pr_size r = BIG then
        (case dropWhile (\<lambda>sr. rangeEnd sr \<le> pr_addr r) srs of
           [] \<Rightarrow> Inl (Assertion ''NUMAPool::freePages: big page address outside all subranges'')
         | sr # srs' \<Rightarrow>
             bindO (freeBigPageRun (findMetadata (pr_addr r) p)
                      (r # takeWhile (\<lambda>q. pr_size q = BIG \<and> pr_addr q < rangeEnd sr) rs) p)
               (freePagesFrom (dropWhile (\<lambda>q. pr_size q = BIG \<and> pr_addr q < rangeEnd sr) rs) (sr # srs')))
      else
        bindO (freeSmallPageRun (findMetadata (pr_addr r) p)
                 (r # takeWhile (\<lambda>q. pr_size q = SMALL \<and> bigPageBase (pr_addr q) = bigPageBase (pr_addr r)) rs) p)
          (freePagesFrom (dropWhile (\<lambda>q. pr_size q = SMALL \<and> bigPageBase (pr_addr q) = bigPageBase (pr_addr r)) rs) srs))"
  by pat_completeness auto
termination
  by (relation "measure (\<lambda>(rs, _, _). length rs)") (auto simp: le_imp_less_Suc length_dropWhile_le)

definition np_freePages :: "PageRef list \<Rightarrow> NUMAPool \<Rightarrow> NUMAPool outcome" where
  "np_freePages pages p = freePagesFrom pages (subrangeInfo p) p"

definition np_countTotalFreePages :: "NUMAPool \<Rightarrow> nat" where
  "np_countTotalFreePages p = sum_list (map freeSubpageCount (take (bigPageCount p) (bigPageMetadataBuffer p)))"

declare freePagesFrom.simps [simp del]

section \<open>Lookup\<close>

text \<open>
  The subranges of a pool: sorted, disjoint, bounded by big pages, each with its own stretch of the
  metadata array, and every page of the array in one of them.
\<close>

definition srs_ok :: "NUMAPool \<Rightarrow> bool" where
  "srs_ok p \<longleftrightarrow> sorted_wrt (\<lambda>a b. rangeEnd a \<le> rangeStart b) (subrangeInfo p) \<and>
     (\<forall>sr \<in> set (subrangeInfo p). 2097152 dvd unat (rangeStart sr) \<and> 2097152 dvd unat (rangeEnd sr) \<and>
        (\<forall>k. unat (rangeStart sr) + k * 2097152 < unat (rangeEnd sr) \<longrightarrow>
           metadataBase sr + k < bigPageCount p \<and>
           unat (bpm_base (metaAt p (metadataBase sr + k))) = unat (rangeStart sr) + k * 2097152)) \<and>
     (\<forall>i < bigPageCount p. \<exists>sr \<in> set (subrangeInfo p). \<exists>k. i = metadataBase sr + k \<and>
        unat (rangeStart sr) + k * 2097152 < unat (rangeEnd sr))"

lemma srs_ok_frame: "srs_ok p \<Longrightarrow> same_frame p q \<Longrightarrow> srs_ok q"
  unfolding srs_ok_def same_frame_def by auto

lemma findSubrange_spec:
  assumes "sorted_wrt (\<lambda>a b. rangeEnd a \<le> rangeStart b) srs" "sr \<in> set srs" "rangeStart sr \<le> a" "a < rangeEnd sr"
  shows "findSubrange a srs = Some (metadataBase sr + unat ((a - rangeStart sr) div bigPageSize))"
  using assms
proof (induction srs)
  case (Cons s srs)
  show ?case
  proof (cases "sr = s")
    case True
    then show ?thesis using Cons.prems(3,4) by simp
  next
    case False
    then have sr: "sr \<in> set srs" using Cons.prems(2) by simp
    then have "rangeEnd s \<le> rangeStart sr" using Cons.prems(1) by simp
    then have "\<not> a < rangeEnd s" using Cons.prems(3) by (simp add: word_le_nat_alt word_less_nat_alt)
    then show ?thesis using Cons.IH [OF _ sr Cons.prems(3,4)] Cons.prems(1) by simp
  qed
qed simp

lemma roundDown_bigPageBase: "roundDownToNearestMultiple a bigPageSize = bigPageBase a"
  using unat_round(1) [of bigPageSize a] unat_bigPageBase [of a] by (simp add: word_unat_eq_iff)

lemma findMetadata_spec:
  assumes "srs_ok p" "i < bigPageCount p" "bigPageBase a = bpm_base (metaAt p i)"
  shows "findMetadata a p = Some i"
    and "\<exists>sr \<in> set (subrangeInfo p). \<exists>k. i = metadataBase sr + k \<and> unat (rangeStart sr) + k * 2097152 < unat (rangeEnd sr) \<and>
      unat (bpm_base (metaAt p i)) = unat (rangeStart sr) + k * 2097152"
proof -
  obtain sr k where sr: "sr \<in> set (subrangeInfo p)" "i = metadataBase sr + k" "unat (rangeStart sr) + k * 2097152 < unat (rangeEnd sr)"
    using assms(1,2) unfolding srs_ok_def by blast
  have b: "unat (bpm_base (metaAt p i)) = unat (rangeStart sr) + k * 2097152"
    using assms(1) sr unfolding srs_ok_def by blast
  let ?b = "bpm_base (metaAt p i)"
  have le: "rangeStart sr \<le> ?b" "?b < rangeEnd sr" using b sr(3) by (simp_all add: word_le_nat_alt word_less_nat_alt)
  have "unat ((?b - rangeStart sr) div bigPageSize) = (unat ?b - unat (rangeStart sr)) div 2097152"
    using unat_sub [OF le(1)] by (simp add: unat_div_distrib)
  also have "\<dots> = k" using b by simp
  finally have "findSubrange ?b (subrangeInfo p) = Some i"
    using findSubrange_spec [OF _ sr(1) le] assms(1) sr(2) by (simp add: srs_ok_def)
  then show "findMetadata a p = Some i" using assms(3) by (simp add: findMetadata_def roundDown_bigPageBase)
  show "\<exists>sr \<in> set (subrangeInfo p). \<exists>k. i = metadataBase sr + k \<and> unat (rangeStart sr) + k * 2097152 < unat (rangeEnd sr) \<and>
      unat (bpm_base (metaAt p i)) = unat (rangeStart sr) + k * 2097152" using sr b by blast
qed

lemma findSubrange_None: "(\<And>sr. sr \<in> set srs \<Longrightarrow> \<not> (rangeStart sr \<le> a \<and> a < rangeEnd sr)) \<Longrightarrow> findSubrange a srs = None"
  by (induction srs) auto

section \<open>Attaching a detached page\<close>

lemma detach_index:
  assumes "pool_inv c H L S p" "i \<in> S"
  shows "\<exists>pa r. remove i (paPages p) = (pa, r) \<and> r \<noteq> NotPresent \<and> pool_inv c (insert i H) L (S - {i}) (p\<lparr>paPages := pa\<rparr>)"
proof -
  note R = pool_routes [OF assms(1)]
  have "i < 2 ^ c" using assms(2) R(1,6) by auto
  then obtain pa where pa: "remove i (paPages p) = (pa, if S = {i} then RemovedAndMadeEmpty else RemovedAndStayedNonempty)"
      "bp_inv c (S - {i}) pa" using remove_correct(2) [OF R(8) _ assms(2)] by blast
  have "pages_ok L (p\<lparr>paPages := pa\<rparr>)" using assms by (simp add: pool_inv_def pages_ok_def)
  moreover have "routes_ok c (insert i H) L (S - {i}) (p\<lparr>paPages := pa\<rparr>)"
    using assms pa(2) unfolding pool_inv_def routes_ok_def by auto
  ultimately show ?thesis using pa(1) by (auto simp: pool_inv_def)
qed

lemma detach_full:
  assumes "pool_inv c H L S p" "i < bigPageCount p" "np_avail p i = {}"
  shows "pool_inv c (insert i H) L S p"
proof -
  note R = pool_routes [OF assms(1)]
  have "i \<notin> S" using R(10) assms(3) by blast
  moreover have "i \<notin> set (np_items p)" using R(9) [of i] assms(3) lessThan_empty_iff [of "512 :: nat"] by auto
  ultimately show ?thesis using assms unfolding pool_inv_def routes_ok_def by auto
qed

lemma attach_pa:
  assumes "pool_inv c (insert i H) L S p" "i \<notin> H" "np_avail p i \<noteq> {}" "allocHolder (metaAt p i) = SIZE_MAX"
  shows "\<exists>pa r. add i (paPages p) = Inr (pa, r) \<and> pool_inv c H L (insert i S) (p\<lparr>paPages := pa\<rparr>)"
proof -
  note R = pool_routes [OF assms(1)]
  have "i < 2 ^ c" using R(1,7) by auto
  then obtain pa r where pa: "add i (paPages p) = Inr (pa, r)" "bp_inv c (insert i S) pa" using add_correct [OF R(8)] by blast
  have "pages_ok L (p\<lparr>paPages := pa\<rparr>)" using assms by (simp add: pool_inv_def pages_ok_def)
  moreover have "routes_ok c H L (insert i S) (p\<lparr>paPages := pa\<rparr>)"
    using assms pa(2) unfolding pool_inv_def routes_ok_def by auto
  ultimately show ?thesis using pa(1) by (auto simp: pool_inv_def)
qed

lemma distinct_room:
  assumes "distinct (xs @ ys)" "set (xs @ ys) \<subseteq> {..<n :: nat}"
  shows "length ys \<le> n - length xs"
proof -
  have "card (set (xs @ ys)) \<le> card {..<n}" by (rule card_mono [OF _ assms(2)]) simp
  then show ?thesis using distinct_card [OF assms(1)] by simp
qed

lemma attach_free_run:
  assumes inv: "pool_inv c (H \<union> set xs) L S p" and xs: "distinct xs" "H \<inter> set xs = {}" "\<forall>i \<in> set xs. fresh L p i"
    and w: "\<And>b. written f b (length xs) = xs"
  shows "\<exists>r. hr_bulkWrite (length xs) f (freeBigPages p) = Inr (r, True) \<and> pool_inv c H L S (p\<lparr>freeBigPages := r\<rparr>)"
proof -
  note R = pool_routes [OF inv]
  have "distinct (np_items p @ xs)" "set (np_items p @ xs) \<subseteq> {..<bigPageCount p}" using R(4,5,7,12) xs(1) by auto
  then have "length xs \<le> rb_cap (ring (freeBigPages p)) - length (np_items p)" using distinct_room R(3) by metis
  then obtain r where r: "hr_bulkWrite (length xs) f (freeBigPages p) = Inr (r, True)" "hr_inv r"
      "rb_cap (ring r) = bigPageCount p" "rb_items (ring r) = np_items p @ xs"
    using hr_bulkWrite_spec [OF R(2), of "length xs" f] w R(3) by metis
  have "pages_ok L (p\<lparr>freeBigPages := r\<rparr>)" using inv by (simp add: pool_inv_def pages_ok_def)
  moreover have "routes_ok c H L S (p\<lparr>freeBigPages := r\<rparr>)"
    using inv r xs unfolding pool_inv_def routes_ok_def fresh_def by auto
  ultimately show ?thesis using r(1) by (auto simp: pool_inv_def)
qed

lemma attach_free:
  assumes "pool_inv c (insert i H) L S p" "i \<notin> H" "fresh L p i"
  shows "\<exists>r. hr_write i (freeBigPages p) = Inr (r, True) \<and> pool_inv c H L S (p\<lparr>freeBigPages := r\<rparr>)"
  using attach_free_run [of c H "[i]" L S p "\<lambda>_ _. i"] assms by (simp add: hr_write_def written_def)

section \<open>Returning a held page\<close>

lemma setMeta_same_frame:
  assumes "i < length (bigPageMetadataBuffer p)" "bpm_base m = bpm_base (metaAt p i)" "ownerPool m = ownerPool (metaAt p i)"
  shows "same_frame p (setMeta i m p)"
  using assms by (simp add: same_frame_def metaAt_setMeta)

lemma same_frame_routes [simp]:
  "same_frame p (q\<lparr>freeBigPages := r\<rparr>) = same_frame p q" "same_frame p (q\<lparr>paPages := pa\<rparr>) = same_frame p q"
  by (simp_all add: same_frame_def)

lemma same_frame_refl [simp]: "same_frame p p"
  by (simp add: same_frame_def)

lemma same_frame_trans: "same_frame p q \<Longrightarrow> same_frame q r \<Longrightarrow> same_frame p r"
  by (simp add: same_frame_def)

lemma returnPage_spec:
  assumes inv: "pool_inv c (insert i H) L S p" and i: "i \<notin> H" and ev: "ev \<longrightarrow> np_avail p i = {}"
  shows "\<exists>p' S'. bpm_returnPage i ev p = Inr p' \<and> pool_inv c H L S' p' \<and> same_frame p p' \<and>
    (\<forall>j. np_avail p' j = np_avail p j) \<and> (\<forall>j. j \<noteq> i \<longrightarrow> metaAt p' j = metaAt p j)"
proof -
  have iN: "i < bigPageCount p" using pool_routes(7) [OF inv] by auto
  have len: "i < length (bigPageMetadataBuffer p)" using iN pool_pages(1) [OF inv] by simp
  have pi: "pg_inv (metaAt p i) (L i)" using pool_pages(2) [OF inv iN] .
  let ?m = "bpm_prepareReturn (metaAt p i)"
  let ?q = "setMeta i ?m p"
  note T = pg_return_spec [OF pi]
  have q: "pool_inv c (insert i H) L S ?q" using update_detached [OF inv insertI1 T(1,3)] by simp
  have mq: "metaAt ?q i = ?m" "\<And>j. j \<noteq> i \<Longrightarrow> metaAt ?q j = metaAt p j" using len by (simp_all add: metaAt_setMeta)
  have fr: "same_frame p ?q" using setMeta_same_frame [OF len T(3,4)] .
  have av: "np_avail ?q j = np_avail p j" for j using mq T(2) by (cases "j = i") simp_all
  have run: "bpm_returnPage i ev p = np_returnPage i ev ?q" using len by (simp add: bpm_returnPage_def)
  note Qy = pg_queries [OF T(1)]
  consider "ev \<or> bpm_isFull ?m" | "\<not> ev" "\<not> bpm_isFull ?m" "bpm_isEmpty ?m" | "\<not> ev" "\<not> bpm_isFull ?m" "\<not> bpm_isEmpty ?m" by blast
  then show ?thesis
  proof cases
    case 1
    then have "pool_inv c (insert i H - {i}) L S ?q"
      using ev Qy(1) T(2,5) mq(1) by (intro forget_full [OF q]) (auto simp: iN)
    then have "pool_inv c H L S ?q" using i by simp
    moreover have "np_returnPage i ev ?q = Inr ?q" using 1 mq(1) len by (auto simp: np_returnPage_def)
    ultimately show ?thesis using run fr av mq(2) by auto
  next
    case 2
    then have "fresh L ?q i" using Qy(2) T(2,5) mq(1) by (simp add: fresh_def)
    then obtain r where "hr_write i (freeBigPages ?q) = Inr (r, True)" "pool_inv c H L S (?q\<lparr>freeBigPages := r\<rparr>)"
      using attach_free [OF q i] by blast
    moreover then have "np_returnPage i ev ?q = Inr (?q\<lparr>freeBigPages := r\<rparr>)" using 2 mq(1) len by (simp add: np_returnPage_def)
    ultimately show ?thesis using run fr av mq(2) by auto
  next
    case 3
    then obtain pa r where "add i (paPages ?q) = Inr (pa, r)" "pool_inv c H L (insert i S) (?q\<lparr>paPages := pa\<rparr>)"
      using attach_pa [OF q i] Qy(1) mq(1) T(2,5) by auto
    moreover then have "np_returnPage i ev ?q = Inr (?q\<lparr>paPages := pa\<rparr>)" using 3 mq(1) len by (simp add: np_returnPage_def)
    ultimately show ?thesis using run fr av mq(2) by auto
  qed
qed

section \<open>Runs of references\<close>

lemma update_pa:
  assumes "pool_inv c H L S p" "i \<in> S" "pg_inv m X" "pg_avail m \<noteq> {}" "bpm_base m = bpm_base (metaAt p i)"
    "allocHolder m = allocHolder (metaAt p i)"
  shows "pool_inv c H (L(i := X)) S (setMeta i m p)"
proof -
  note P = pool_pages [OF assms(1)] and R = pool_routes [OF assms(1)]
  have i: "i < bigPageCount p" "i \<notin> set (np_items p)" using assms(2) R(6,11) by auto
  have mt: "metaAt (setMeta i m p) j = (if j = i then m else metaAt p j)" for j using i(1) P(1) by (simp add: metaAt_setMeta)
  have "pages_ok (L(i := X)) (setMeta i m p)" using P assms(3,5) mt by (auto simp: pages_ok_def)
  moreover have "routes_ok c H (L(i := X)) S (setMeta i m p)"
    using assms i mt unfolding pool_inv_def routes_ok_def by auto
  ultimately show ?thesis by (simp add: pool_inv_def)
qed

text \<open>What a step of freeing leaves behind: the slots in \<open>X i\<close> have moved from live to available.\<close>

definition freed :: "NUMAPool \<Rightarrow> (nat \<Rightarrow> nat set) \<Rightarrow> NUMAPool \<Rightarrow> bool" where
  "freed p X p' \<longleftrightarrow> same_frame p p' \<and>
     (\<forall>i < bigPageCount p. np_avail p' i = np_avail p i \<union> X i \<and> allocHolder (metaAt p' i) = allocHolder (metaAt p i) \<and>
        reservedCount (pg_book (metaAt p' i)) = reservedCount (pg_book (metaAt p i)))"

lemma freed_refl: "(\<And>i. i < bigPageCount p \<Longrightarrow> X i = {}) \<Longrightarrow> freed p X p"
  by (simp add: freed_def)

lemma freed_trans:
  assumes "freed p X q" "freed q Y r"
  shows "freed p (\<lambda>i. X i \<union> Y i) r"
  using assms same_frame_trans [of p q r] by (auto simp: freed_def same_frame_def)

lemma freed_setMeta:
  assumes "i < length (bigPageMetadataBuffer p)" "length (bigPageMetadataBuffer p) = bigPageCount p"
    "bpm_base m = bpm_base (metaAt p i)" "ownerPool m = ownerPool (metaAt p i)" "allocHolder m = allocHolder (metaAt p i)"
    "pg_avail m = np_avail p i \<union> X" "reservedCount (pg_book m) = reservedCount (pg_book (metaAt p i))"
  shows "freed p (\<lambda>j. if j = i then X else {}) (setMeta i m p)"
  using assms setMeta_same_frame [OF assms(1,3,4)] by (simp add: freed_def metaAt_setMeta)

lemma freed_routes [simp]: "freed p X (q\<lparr>freeBigPages := r\<rparr>) = freed p X q" "freed p X (q\<lparr>paPages := pa\<rparr>) = freed p X q"
  by (simp_all add: freed_def)

lemma free_small_run:
  assumes inv: "pool_inv c H L S p" and i: "i < bigPageCount p" and ne: "run \<noteq> []"
    and run: "\<forall>r \<in> set run. bigPageBase (pr_addr r) = bpm_base (metaAt p i)" "distinct (map refSlot run)"
      "refSlot ` set run \<subseteq> L i"
    and held: "i \<in> H \<longrightarrow> hasAllocHolder (metaAt p i) \<and> np_avail p i \<noteq> {}"
    and res: "np_avail p i = {} \<and> hasReservedSubpages (metaAt p i) \<longrightarrow> refSlot ` set run \<noteq> L i"
  shows "\<exists>p' S'. freeSmallPageRun (Some i) run p = Inr p' \<and> pool_inv c H (L(i := L i - refSlot ` set run)) S' p' \<and>
    freed p (\<lambda>j. if j = i then refSlot ` set run else {}) p'"
proof -
  let ?X = "refSlot ` set run" and ?m = "metaAt p i"
  note P = pool_pages [OF inv] and R = pool_routes [OF inv]
  have len: "i < length (bigPageMetadataBuffer p)" using i P(1) by simp
  have pi: "pg_inv ?m (L i)" using P(2) [OF i] .
  obtain m' t where m': "bpm_freePages run ?m = Inr (m', t)" "pg_inv m' (L i - ?X)" "pg_avail m' = pg_avail ?m \<union> ?X"
      "t = \<lparr>before = occupancy (L i) (pg_avail ?m), after = occupancy (L i - ?X) (pg_avail m')\<rparr>"
      "bpm_base m' = bpm_base ?m" "ownerPool m' = ownerPool ?m" "allocHolder m' = allocHolder ?m"
      "reservedCount (pg_book m') = reservedCount (pg_book ?m)"
    using pg_free_spec [OF pi run] by blast
  let ?L = "L(i := L i - ?X)" and ?q = "setMeta i m' p"
  have Xne: "?X \<noteq> {}" "L i \<noteq> {}" using ne run(3) by auto
  have av': "pg_avail m' \<noteq> {}" unfolding m'(3) using Xne(1) by simp
  have fq: "freed p (\<lambda>j. if j = i then ?X else {}) ?q" using freed_setMeta [OF len P(1) m'(5-7,3,8)] .
  have mq: "metaAt ?q i = m'" using len by (simp add: metaAt_setMeta)
  have sub: "L i - ?X = {} \<longleftrightarrow> L i = ?X" using run(3) by blast
  have bt: "before t = (if pg_avail ?m = {} then Full else Partial)" "after t = (if L i = ?X then Empty else Partial)"
    using Xne(2) av' sub by (simp_all add: m'(4) occupancy_def)
  have unf: "freeSmallPageRun (Some i) run p =
      (if becameEmpty t then
         if hasAllocHolder m' then Inr ?q
         else if before t = Partial then
           (case remove i (paPages p) of (pa, NotPresent) \<Rightarrow> Inr (?q\<lparr>paPages := pa\<rparr>)
            | (pa, _) \<Rightarrow> if \<not> bpm_isEmpty m' then bindO (add i pa) (\<lambda>(pa', _). Inr (?q\<lparr>paPages := pa'\<rparr>))
                else bindO (hr_write i (freeBigPages p)) (\<lambda>(r, _). Inr (?q\<lparr>paPages := pa, freeBigPages := r\<rparr>)))
         else bindO (hr_write i (freeBigPages p)) (\<lambda>(r, _). Inr (?q\<lparr>freeBigPages := r\<rparr>))
       else if becameAvailable t then
         bindO (assertO (\<not> hasAllocHolder m') ''stuck waiting for alloc holder to release hold'') (\<lambda>_.
           bindO (add i (paPages p)) (\<lambda>(pa, _). Inr (?q\<lparr>paPages := pa\<rparr>)))
       else Inr ?q)"
    using len m'(1) by (simp add: freeSmallPageRun_def Let_def split: prod.splits RemoveResult.splits)
  have trans: "becameEmpty t \<longleftrightarrow> L i = ?X" "becameAvailable t \<longleftrightarrow> pg_avail ?m = {}"
    using bt by (auto simp: becameEmpty_def becameAvailable_def split: if_splits)
  have swap: "(setMeta i m' p)\<lparr>paPages := pa\<rparr> = setMeta i m' (p\<lparr>paPages := pa\<rparr>)" for pa by (simp add: setMeta_def)
  show ?thesis
  proof (cases "i \<in> H")
    case True
    have "pool_inv c H ?L S ?q" by (rule update_detached [OF inv True m'(2,5)])
    moreover have "freeSmallPageRun (Some i) run p = Inr ?q"
      using unf trans held True m'(7) by (simp add: hasAllocHolder_def)
    ultimately show ?thesis using fq by blast
  next
    case iH: False
    have nh: "\<not> hasAllocHolder m'" "allocHolder m' = SIZE_MAX" using R(14) [OF i iH] m'(7) by (simp_all add: hasAllocHolder_def)
    show ?thesis
    proof (cases "pg_avail ?m = {}")
      case full: True
      have q: "pool_inv c (insert i H) ?L S ?q" by (rule update_detached [OF detach_full [OF inv i full] insertI1 m'(2,5)])
      show ?thesis
      proof (cases "L i = ?X")
        case True
        then have "\<not> hasReservedSubpages ?m" using res full by blast
        then have "L i = {..<512}" using pg_queries(3) [OF pi] full by simp
        then have "fresh ?L ?q i" using True m'(3) full mq nh(2) by (simp add: fresh_def)
        then obtain r where r: "hr_write i (freeBigPages ?q) = Inr (r, True)" "pool_inv c H ?L S (?q\<lparr>freeBigPages := r\<rparr>)"
          using attach_free [OF q iH] by blast
        moreover have "freeSmallPageRun (Some i) run p = Inr (?q\<lparr>freeBigPages := r\<rparr>)"
          using unf trans nh(1) True bt(1) full r(1) by simp
        ultimately show ?thesis using fq by (metis freed_routes(1))
      next
        case False
        obtain pa r where r: "add i (paPages ?q) = Inr (pa, r)" "pool_inv c H ?L (insert i S) (?q\<lparr>paPages := pa\<rparr>)"
          using attach_pa [OF q iH] av' mq nh(2) by auto
        moreover have "freeSmallPageRun (Some i) run p = Inr (?q\<lparr>paPages := pa\<rparr>)"
          using unf trans nh(1) False full r(1) by simp
        ultimately show ?thesis using fq by (metis freed_routes(2))
      qed
    next
      case part: False
      have "i \<notin> set (np_items p)" using R(9) Xne(2) by blast
      then have iS: "i \<in> S" using R(15) [OF i iH part] by blast
      show ?thesis
      proof (cases "L i = ?X")
        case False
        have "pool_inv c H ?L S ?q" using update_pa [OF inv iS m'(2) av' m'(5,7)] .
        moreover have "freeSmallPageRun (Some i) run p = Inr ?q" using unf trans False part by simp
        ultimately show ?thesis using fq by blast
      next
        case emp: True
        obtain pa rr where rm: "remove i (paPages p) = (pa, rr)" "rr \<noteq> NotPresent"
            "pool_inv c (insert i H) L (S - {i}) (p\<lparr>paPages := pa\<rparr>)" using detach_index [OF inv iS] by blast
        let ?q1 = "?q\<lparr>paPages := pa\<rparr>"
        have q1: "pool_inv c (insert i H) ?L (S - {i}) ?q1" unfolding swap
          by (rule update_detached [OF rm(3) insertI1 m'(2)]) (simp add: m'(5))
        have mq1: "metaAt ?q1 i = m'" using mq by simp
        have unf2: "freeSmallPageRun (Some i) run p =
            (if \<not> bpm_isEmpty m' then bindO (add i pa) (\<lambda>(pa', _). Inr (?q\<lparr>paPages := pa'\<rparr>))
             else bindO (hr_write i (freeBigPages p)) (\<lambda>(r, _). Inr (?q\<lparr>paPages := pa, freeBigPages := r\<rparr>)))"
          using unf trans nh(1) emp bt(1) part rm(1,2) by (cases rr) simp_all
        show ?thesis
        proof (cases "bpm_isEmpty m'")
          case True
          then have "fresh ?L ?q1 i" using pg_queries(2) [OF m'(2)] mq1 nh(2) by (simp add: fresh_def)
          then obtain r where r: "hr_write i (freeBigPages ?q1) = Inr (r, True)" "pool_inv c H ?L (S - {i}) (?q1\<lparr>freeBigPages := r\<rparr>)"
            using attach_free [OF q1 iH] by blast
          moreover have "freeSmallPageRun (Some i) run p = Inr (?q1\<lparr>freeBigPages := r\<rparr>)" using unf2 True r(1) by simp
          ultimately show ?thesis using fq by (metis freed_routes)
        next
          case False
          obtain pa' r where r: "add i (paPages ?q1) = Inr (pa', r)" "pool_inv c H ?L (insert i (S - {i})) (?q1\<lparr>paPages := pa'\<rparr>)"
            using attach_pa [OF q1 iH] av' mq1 nh(2) by auto
          moreover have "freeSmallPageRun (Some i) run p = Inr (?q1\<lparr>paPages := pa'\<rparr>)" using unf2 False r(1) by simp
          ultimately show ?thesis using fq by (metis freed_routes(2))
        qed
      qed
    qed
  qed
qed

lemma freeWhole_ring:
  "freeWhole xs (p\<lparr>freeBigPages := r\<rparr>) = (case freeWhole xs p of Inl e \<Rightarrow> Inl e | Inr q \<Rightarrow> Inr (q\<lparr>freeBigPages := r\<rparr>))"
proof (induction xs arbitrary: p)
  case (Cons i xs)
  have sw: "setMeta i m (p\<lparr>freeBigPages := r\<rparr>) = (setMeta i m p)\<lparr>freeBigPages := r\<rparr>" for m by (simp add: setMeta_def)
  show ?case by (simp add: bindO_def sw Cons.IH split: sum.splits)
qed simp

lemma freeWhole_spec:
  assumes "pool_inv c H L S p" "distinct xs" "set xs \<subseteq> H"
    "\<forall>i \<in> set xs. L i = {..<512} \<and> allocHolder (metaAt p i) = SIZE_MAX"
  shows "\<exists>p'. freeWhole xs p = Inr p' \<and> pool_inv c H (\<lambda>j. if j \<in> set xs then {} else L j) S p' \<and>
    freed p (\<lambda>j. if j \<in> set xs then {..<512} else {}) p' \<and> freeBigPages p' = freeBigPages p \<and>
    (\<forall>i \<in> set xs. fresh (\<lambda>j. if j \<in> set xs then {} else L j) p' i)"
  using assms
proof (induction xs arbitrary: p L)
  case Nil
  then show ?case by (auto intro: freed_refl)
next
  case (Cons i xs)
  note P = pool_pages [OF Cons.prems(1)]
  have iN: "i < bigPageCount p" using pool_routes(7) [OF Cons.prems(1)] Cons.prems(3) by auto
  have len: "i < length (bigPageMetadataBuffer p)" using iN P(1) by simp
  have pi: "pg_inv (metaAt p i) {..<512}" using P(2) [OF iN] Cons.prems(4) by simp
  have av: "np_avail p i = {}" using pg_invD(5,6) [OF pi] by blast
  obtain m' where m': "bpm_freeAll (metaAt p i) = Inr m'" "pg_inv m' {}" "pg_avail m' = {..<512}" "bpm_base m' = bpm_base (metaAt p i)"
      "ownerPool m' = ownerPool (metaAt p i)" "allocHolder m' = allocHolder (metaAt p i)"
    using pg_freeAll_spec [OF pi] by blast
  let ?q = "setMeta i m' p"
  have iH: "i \<in> H" "i \<notin> set xs" "distinct xs" "set xs \<subseteq> H" using Cons.prems(2,3) by auto
  have q: "pool_inv c H (L(i := {})) S ?q" by (rule update_detached [OF Cons.prems(1) iH(1) m'(2,4)])
  have rc: "reservedCount (pg_book m') = reservedCount (pg_book (metaAt p i))"
    using pg_queries(5) [OF pi] pg_queries(5) [OF m'(2)] m'(3) av by simp
  have f1: "freed p (\<lambda>j. if j = i then {..<512} else {}) ?q"
    by (rule freed_setMeta [OF len P(1) m'(4-6) _ rc]) (simp add: m'(3) av)
  have mq: "metaAt ?q j = (if j = i then m' else metaAt p j)" for j using len by (simp add: metaAt_setMeta)
  have "\<forall>j \<in> set xs. (L(i := {})) j = {..<512} \<and> allocHolder (metaAt ?q j) = SIZE_MAX"
    using Cons.prems(4) iH(2) mq by auto
  from Cons.IH [OF q iH(3,4) this] obtain p' where p': "freeWhole xs ?q = Inr p'"
      "pool_inv c H (\<lambda>j. if j \<in> set xs then {} else (L(i := {})) j) S p'"
      "freed ?q (\<lambda>j. if j \<in> set xs then {..<512} else {}) p'" "freeBigPages p' = freeBigPages ?q"
      "\<forall>j \<in> set xs. fresh (\<lambda>j. if j \<in> set xs then {} else (L(i := {})) j) p' j" by blast
  have L: "(\<lambda>j. if j \<in> set xs then {} else (L(i := {})) j) = (\<lambda>j. if j \<in> set (i # xs) then {} else L j)" by (simp add: fun_eq_iff)
  have X: "(\<lambda>j. (if j = i then {..<512} else {}) \<union> (if j \<in> set xs then {..<512} else {})) =
      (\<lambda>j. if j \<in> set (i # xs) then {..<512 :: nat} else {})" by (simp add: fun_eq_iff)
  have fr: "freed p (\<lambda>j. if j \<in> set (i # xs) then {..<512} else {}) p'" using freed_trans [OF f1 p'(3)] unfolding X .
  have "np_avail p' i = {..<512}" "allocHolder (metaAt p' i) = SIZE_MAX"
    using fr iN av Cons.prems(4) by (simp_all add: freed_def)
  then have "\<forall>j \<in> set (i # xs). fresh (\<lambda>j. if j \<in> set (i # xs) then {} else L j) p' j"
    using p'(5) unfolding L by (simp add: fresh_def)
  moreover have "freeWhole (i # xs) p = Inr p'"
    using len m'(1) p'(1) pg_queries(1) [OF pi] av by simp
  ultimately show ?case using p'(2,4) fr unfolding L by auto
qed

lemma detach_full_list:
  assumes "pool_inv c H L S p" "\<forall>i \<in> set xs. i < bigPageCount p \<and> np_avail p i = {}"
  shows "pool_inv c (H \<union> set xs) L S p"
  using assms by (induction xs arbitrary: H) (auto dest: detach_full)

lemma free_big_run:
  assumes inv: "pool_inv c H L S p"
    and xs: "xs = map (runIndex i0 run) [0..<length run]" "distinct xs" "H \<inter> set xs = {}"
      "\<forall>i \<in> set xs. i < bigPageCount p \<and> L i = {..<512}"
  shows "\<exists>p'. freeBigPageRun (Some i0) run p = Inr p' \<and> pool_inv c H (\<lambda>j. if j \<in> set xs then {} else L j) S p' \<and>
    freed p (\<lambda>j. if j \<in> set xs then {..<512} else {}) p'"
proof -
  have av: "\<forall>i \<in> set xs. i < bigPageCount p \<and> np_avail p i = {}"
    using xs(4) pg_invD(5,6) [OF pool_pages(2) [OF inv]] by blast
  have d: "pool_inv c (H \<union> set xs) L S p" by (rule detach_full_list [OF inv av])
  have h: "\<forall>i \<in> set xs. L i = {..<512} \<and> allocHolder (metaAt p i) = SIZE_MAX"
    using xs(3,4) pool_routes(14) [OF inv] by blast
  obtain p' where p': "freeWhole xs p = Inr p'" "pool_inv c (H \<union> set xs) (\<lambda>j. if j \<in> set xs then {} else L j) S p'"
      "freed p (\<lambda>j. if j \<in> set xs then {..<512} else {}) p'" "freeBigPages p' = freeBigPages p"
      "\<forall>i \<in> set xs. fresh (\<lambda>j. if j \<in> set xs then {} else L j) p' i"
    using freeWhole_spec [OF d xs(2) _ h] by blast
  have len: "length xs = length run" by (simp add: xs(1))
  have w: "written (\<lambda>j _. runIndex i0 run j) b (length xs) = xs" for b by (simp add: written_def xs(1))
  obtain r where r: "hr_bulkWrite (length xs) (\<lambda>j _. runIndex i0 run j) (freeBigPages p') = Inr (r, True)"
      "pool_inv c H (\<lambda>j. if j \<in> set xs then {} else L j) S (p'\<lparr>freeBigPages := r\<rparr>)"
    using attach_free_run [OF p'(2) xs(2,3) p'(5) w] by blast
  have "freeBigPageRun (Some i0) run p = Inr (p'\<lparr>freeBigPages := r\<rparr>)"
    using r(1) p'(1,4) len freeWhole_ring [of xs r p] by (simp add: freeBigPageRun_def xs(1) [symmetric])
  then show ?thesis using r(2) p'(3) by auto
qed

section \<open>Counting references\<close>

lemma card_covered_le: "card (covered refs) \<le> totalPages refs"
proof (induction refs)
  case (Cons r rs)
  have "card (refPages r \<union> covered rs) \<le> card (refPages r) + card (covered rs)" by (rule card_Un_le)
  then show ?case using Cons.IH by simp
qed simp

lemma covered_append: "covered (xs @ ys) = covered xs \<union> covered ys"
  by auto

lemma exact_append:
  assumes "totalPages (xs @ ys) = card (covered (xs @ ys))"
  shows "totalPages xs = card (covered xs)" "totalPages ys = card (covered ys)" "covered xs \<inter> covered ys = {}"
proof -
  have "card (covered xs \<union> covered ys) + card (covered xs \<inter> covered ys) = card (covered xs) + card (covered ys)"
    by (rule card_Un_Int [symmetric]) simp_all
  moreover have "card (covered xs) \<le> totalPages xs" "card (covered ys) \<le> totalPages ys" by (rule card_covered_le)+
  moreover have "card (covered xs \<union> covered ys) = totalPages xs + totalPages ys" using assms unfolding covered_append by simp
  ultimately have "totalPages xs = card (covered xs)" "totalPages ys = card (covered ys)" "card (covered xs \<inter> covered ys) = 0"
    by linarith+
  then show "totalPages xs = card (covered xs)" "totalPages ys = card (covered ys)" "covered xs \<inter> covered ys = {}" by simp_all
qed

definition slotsOf :: "NUMAPool \<Rightarrow> PageRef list \<Rightarrow> nat \<Rightarrow> nat set" where
  "slotsOf p refs i = {s. s < 512 \<and> pg_first (metaAt p i) + s \<in> covered refs}"

lemma slotsOf_append: "slotsOf p (xs @ ys) i = slotsOf p xs i \<union> slotsOf p ys i"
  by (auto simp: slotsOf_def)

lemma slotsOf_frame: "same_frame p q \<Longrightarrow> i < bigPageCount p \<Longrightarrow> slotsOf q refs i = slotsOf p refs i"
  by (simp add: slotsOf_def same_frame_first)

lemma slotsOf_live:
  assumes "pages_ok L p" "covered refs \<subseteq> pagesOf p L" "i < bigPageCount p"
  shows "slotsOf p refs i \<subseteq> L i"
proof
  fix s assume "s \<in> slotsOf p refs i"
  then have s: "s < 512" "pg_first (metaAt p i) + s \<in> pagesOf p L" using assms(2) by (auto simp: slotsOf_def)
  then obtain j s' where j: "j < bigPageCount p" "s' \<in> L j" "pg_first (metaAt p i) + s = pg_first (metaAt p j) + s'"
    by (auto simp: in_pagesOf)
  have "pg_inv (metaAt p j) (L j)" using assms(1) j(1) by (simp add: pages_ok_def)
  then have "s' < 512" using pg_invD(4) j(2) by blast
  then show "s \<in> L i" using pool_slot_inj [OF assms(1,3) j(1) s(1) _ j(3)] j(2) by simp
qed

lemma pagesOf_minus:
  assumes "pages_ok L p" "covered refs \<subseteq> pagesOf p L"
  shows "pagesOf p (\<lambda>i. L i - slotsOf p refs i) = pagesOf p L - covered refs"
proof -
  have lt: "s < 512" if "i < bigPageCount p" "s \<in> L i" for i s
    using assms(1) that pg_invD(4) [of "metaAt p i" "L i"] unfolding pages_ok_def by blast
  show ?thesis
  proof (intro set_eqI iffI)
    fix x assume "x \<in> pagesOf p (\<lambda>i. L i - slotsOf p refs i)"
    then show "x \<in> pagesOf p L - covered refs" using lt by (auto simp: in_pagesOf slotsOf_def)
  next
    fix x assume a: "x \<in> pagesOf p L - covered refs"
    then obtain i s where "i < bigPageCount p" "s \<in> L i" "x = pg_first (metaAt p i) + s" by (auto simp: in_pagesOf)
    moreover then have "s \<notin> slotsOf p refs i" using a by (simp add: slotsOf_def)
    ultimately show "x \<in> pagesOf p (\<lambda>i. L i - slotsOf p refs i)" by (auto simp: in_pagesOf)
  qed
qed

text \<open>A reference this pool may be asked to free.\<close>

definition ref_ok :: "NUMAPool \<Rightarrow> nat set \<Rightarrow> PageRef \<Rightarrow> bool" where
  "ref_ok p H r \<longleftrightarrow> (\<exists>i < bigPageCount p.
     pr_size r = BIG \<and> r = bpm_base (metaAt p i) OR 1 \<and> i \<notin> H \<or>
     pr_size r = SMALL \<and> bigPageBase (pr_addr r) = bpm_base (metaAt p i))"

lemma ref_ok_frame: "same_frame p q \<Longrightarrow> ref_ok p H r \<Longrightarrow> ref_ok q H r"
  by (auto simp: ref_ok_def same_frame_def)

lemma small_ref_pages:
  "pr_size r = SMALL \<Longrightarrow> bigPageBase (pr_addr r) = bpm_base m \<Longrightarrow> refPages r = {pg_first m + refSlot r}"
  using refSlot_page [of r "bpm_base m"] by (simp add: refPages_def pg_first_def Let_def)

lemma slots_small_run:
  assumes ok: "pages_ok L p" and i: "i < bigPageCount p"
    and run: "\<forall>r \<in> set run. pr_size r = SMALL \<and> bigPageBase (pr_addr r) = bpm_base (metaAt p i)"
    and ex: "totalPages run = card (covered run)"
  shows "covered run = (+) (pg_first (metaAt p i)) ` refSlot ` set run" "distinct (map refSlot run)"
    "j < bigPageCount p \<Longrightarrow> slotsOf p run j = (if j = i then refSlot ` set run else {})"
proof -
  let ?f = "pg_first (metaAt p i)"
  have rp: "refPages r = {?f + refSlot r}" if "r \<in> set run" for r using small_ref_pages run that by blast
  then show cov: "covered run = (+) ?f ` refSlot ` set run" by auto
  have "totalPages run = length run" using run by (induction run) (auto simp: refCount_def)
  then have "card ((+) ?f ` set (map refSlot run)) = length run" using ex cov by simp
  then have "card (set (map refSlot run)) = length (map refSlot run)" by (simp add: card_image)
  then show "distinct (map refSlot run)" by (rule card_distinct)
  assume j: "j < bigPageCount p"
  have "s \<in> slotsOf p run j \<longleftrightarrow> j = i \<and> s \<in> refSlot ` set run" for s
  proof
    assume "s \<in> slotsOf p run j"
    then obtain s' where s: "s < 512" "s' \<in> refSlot ` set run" "pg_first (metaAt p j) + s = ?f + s'"
      unfolding slotsOf_def cov by auto
    moreover then have "s' < 512" by auto
    ultimately show "j = i \<and> s \<in> refSlot ` set run" using pool_slot_inj [OF ok j i] by blast
  next
    assume "j = i \<and> s \<in> refSlot ` set run"
    then show "s \<in> slotsOf p run j" unfolding slotsOf_def cov by auto
  qed
  then show "slotsOf p run j = (if j = i then refSlot ` set run else {})" by auto
qed

lemma big_ref_addr:
  assumes "pages_ok L p" "i < bigPageCount p" "r = bpm_base (metaAt p i) OR 1"
  shows "pr_addr r = bpm_base (metaAt p i)" "pr_size r = BIG" "unat r = unat (bpm_base (metaAt p i)) + 1"
    "refPages r = (+) (pg_first (metaAt p i)) ` {..<512}" "refCount r = 512" "bigPageBase (pr_addr r) = bpm_base (metaAt p i)"
proof -
  have "pg_inv (metaAt p i) (L i)" using assms(1,2) by (simp add: pages_ok_def)
  then have d: "2097152 dvd unat (bpm_base (metaAt p i))" by (rule pg_invD(3))
  show a: "pr_addr r = bpm_base (metaAt p i)" and "pr_size r = BIG" "unat r = unat (bpm_base (metaAt p i)) + 1"
    using pr_big_ok [OF d] assms(3) by simp_all
  show "refPages r = (+) (pg_first (metaAt p i)) ` {..<512}" "refCount r = 512"
    using big_ref(2,3) [OF d] assms(3) by (simp_all add: pg_first_def lessThan_atLeast0 image_add_atLeastLessThan add.commute)
  show "bigPageBase (pr_addr r) = bpm_base (metaAt p i)" using d a by (simp add: word_unat_eq_iff unat_bigPageBase)
qed

lemma slots_big_run:
  assumes ok: "pages_ok L p" and xs: "length xs = length run" "\<forall>j < length run. xs ! j < bigPageCount p \<and> run ! j = bpm_base (metaAt p (xs ! j)) OR 1"
    and ex: "totalPages run = card (covered run)"
  shows "distinct xs" "k < bigPageCount p \<Longrightarrow> slotsOf p run k = (if k \<in> set xs then {..<512} else {})"
proof -
  have xN: "x < bigPageCount p" if "x \<in> set xs" for x using xs that by (auto simp: in_set_conv_nth)
  have "set run = (!) run ` {..<length run}" by (auto simp: in_set_conv_nth)
  then have "covered run = (\<Union>j < length run. refPages (run ! j))" by auto
  also have "\<dots> = (\<Union>j < length xs. (+) (pg_first (metaAt p (xs ! j))) ` {..<512})"
    using big_ref_addr(4) [OF ok] xs by auto
  also have "\<dots> = (\<Union>x \<in> (!) xs ` {..<length xs}. (+) (pg_first (metaAt p x)) ` {..<512})" by simp
  also have "(!) xs ` {..<length xs} = set xs" by (auto simp: in_set_conv_nth)
  finally have cov: "covered run = (\<Union>x \<in> set xs. (+) (pg_first (metaAt p x)) ` {..<512})" .
  have "refCount r = 512" if "r \<in> set run" for r using big_ref_addr(5) [OF ok] xs(2) that by (auto simp: in_set_conv_nth)
  then have "totalPages run = 512 * length run" by (induction run) auto
  moreover have "card (covered run) \<le> 512 * card (set xs)"
    unfolding cov using card_UN_le [of "set xs" "\<lambda>x. (+) (pg_first (metaAt p x)) ` {..<512}"] by (simp add: card_image)
  ultimately have "length xs \<le> card (set xs)" using ex xs(1) by simp
  then show "distinct xs" using card_distinct [of xs] card_length [of xs] by simp
  assume k: "k < bigPageCount p"
  have "s \<in> slotsOf p run k \<longleftrightarrow> k \<in> set xs \<and> s < 512" for s
  proof
    assume "s \<in> slotsOf p run k"
    then obtain x s' where s: "s < 512" "x \<in> set xs" "s' < 512" "pg_first (metaAt p k) + s = pg_first (metaAt p x) + s'"
      unfolding slotsOf_def cov by auto
    then show "k \<in> set xs \<and> s < 512" using pool_slot_inj [OF ok k xN [OF s(2)] s(1,3,4)] by simp
  next
    assume "k \<in> set xs \<and> s < 512"
    then show "s \<in> slotsOf p run k" unfolding slotsOf_def cov by auto
  qed
  then show "slotsOf p run k = (if k \<in> set xs then {..<512} else {})" by auto
qed

lemma index_in_range:
  assumes sr: "srs_ok p" "sr \<in> set (subrangeInfo p)" and ok: "pages_ok L p" and i: "i < bigPageCount p"
    "rangeStart sr \<le> bpm_base (metaAt p i)" "bpm_base (metaAt p i) < rangeEnd sr"
  shows "i = metadataBase sr + (unat (bpm_base (metaAt p i)) - unat (rangeStart sr)) div 2097152"
    "2097152 dvd unat (bpm_base (metaAt p i)) - unat (rangeStart sr)"
proof -
  let ?b = "unat (bpm_base (metaAt p i))" and ?s = "unat (rangeStart sr)"
  have "pg_inv (metaAt p i) (L i)" using ok i(1) by (simp add: pages_ok_def)
  then have "2097152 dvd ?b" by (rule pg_invD(3))
  moreover have "2097152 dvd ?s" using sr unfolding srs_ok_def by blast
  ultimately show d: "2097152 dvd ?b - ?s" by (rule dvd_diff_nat)
  let ?k = "(?b - ?s) div 2097152"
  have k: "?s + ?k * 2097152 = ?b" using d i(2) by (simp add: word_le_nat_alt)
  then have lt: "?s + ?k * 2097152 < unat (rangeEnd sr)" using i(3) by (simp add: word_less_nat_alt)
  then have m: "metadataBase sr + ?k < bigPageCount p" "unat (bpm_base (metaAt p (metadataBase sr + ?k))) = ?s + ?k * 2097152"
    using sr unfolding srs_ok_def by blast+
  then have "bpm_base (metaAt p i) = bpm_base (metaAt p (metadataBase sr + ?k))" using k by (simp add: word_unat_eq_iff)
  then show "i = metadataBase sr + ?k" using ok i(1) m(1) unfolding pages_ok_def by blast
qed

lemma runIndex_page:
  assumes sr: "srs_ok p" "sr \<in> set (subrangeInfo p)" and ok: "pages_ok L p"
    and a: "i < bigPageCount p" "run ! 0 = bpm_base (metaAt p i) OR 1" "rangeStart sr \<le> pr_addr (run ! 0)"
    and b: "x < bigPageCount p" "run ! j = bpm_base (metaAt p x) OR 1" "pr_addr (run ! 0) \<le> pr_addr (run ! j)" "pr_addr (run ! j) < rangeEnd sr"
  shows "runIndex i run j = x"
proof -
  note A = big_ref_addr [OF ok a(1,2)] and B = big_ref_addr [OF ok b(1,2)]
  let ?a = "unat (bpm_base (metaAt p i))" and ?b = "unat (bpm_base (metaAt p x))" and ?s = "unat (rangeStart sr)"
  have le: "?s \<le> ?a" "?a \<le> ?b" "?b < unat (rangeEnd sr)" using a(3) b(3,4) A(1) B(1) by (simp_all add: word_le_nat_alt word_less_nat_alt)
  have i: "i = metadataBase sr + (?a - ?s) div 2097152" "2097152 dvd ?a - ?s"
    using index_in_range [OF sr ok a(1)] le by (simp_all add: word_le_nat_alt word_less_nat_alt)
  have x: "x = metadataBase sr + (?b - ?s) div 2097152" "2097152 dvd ?b - ?s"
    using index_in_range [OF sr ok b(1)] le by (simp_all add: word_le_nat_alt word_less_nat_alt)
  have "run ! 0 \<le> run ! j" using A(3) B(3) le by (simp add: word_le_nat_alt)
  then have "unat (run ! j - run ! 0) = ?b - ?a" using unat_sub [of "run ! 0" "run ! j"] A(3) B(3) by simp
  then have r: "runIndex i run j = i + (?b - ?a) div 2097152" by (simp add: runIndex_def divideAndRoundDown_def unat_div_distrib)
  obtain u v where "?a - ?s = 2097152 * u" "?b - ?s = 2097152 * v" using i(2) x(2) by (auto elim!: dvdE)
  moreover then have "?b - ?a = 2097152 * (v - u)" "u \<le> v" using le by linarith+
  ultimately show ?thesis using r i(1) x(1) by simp
qed

lemma cursor_finds:
  assumes ok: "srs_ok p" and pre: "subrangeInfo p = pre @ srs" "\<forall>s \<in> set pre. rangeEnd s \<le> a"
    and sr: "sr \<in> set (subrangeInfo p)" "rangeStart sr \<le> a" "a < rangeEnd sr"
  shows "\<exists>srs'. dropWhile (\<lambda>s. rangeEnd s \<le> a) srs = sr # srs'"
proof -
  have "sr \<notin> set pre" using pre(2) sr(3) by (auto simp: not_le [symmetric])
  then have "sr \<in> set srs" using sr(1) pre(1) by auto
  moreover have "sorted_wrt (\<lambda>a b. rangeEnd a \<le> rangeStart b) srs" using ok pre(1) by (simp add: srs_ok_def sorted_wrt_append)
  ultimately show ?thesis
  proof (induction srs)
    case (Cons s srs)
    show ?case
    proof (cases "s = sr")
      case True
      then have "\<not> rangeEnd s \<le> a" using sr(3) by simp
      then show ?thesis using True by simp
    next
      case False
      then have "rangeEnd s \<le> rangeStart sr" using Cons.prems by auto
      then have "rangeEnd s \<le> a" using sr(2) by (rule order_trans)
      then show ?thesis using Cons.IH Cons.prems False by auto
    qed
  qed simp
qed

section \<open>The walk\<close>

text \<open>What the walk needs of its references, relative to the live sets \<open>L\<close>.\<close>

definition free_pre :: "nat set \<Rightarrow> (nat \<Rightarrow> nat set) \<Rightarrow> NUMAPool \<Rightarrow> PageRef list \<Rightarrow> bool" where
  "free_pre H L p refs \<longleftrightarrow> sorted_wrt (\<lambda>a b. pr_addr a \<le> pr_addr b) refs \<and> (\<forall>r \<in> set refs. ref_ok p H r) \<and>
     covered refs \<subseteq> pagesOf p L \<and> totalPages refs = card (covered refs) \<and>
     (\<forall>i \<in> H. hasAllocHolder (metaAt p i) \<and> np_avail p i \<noteq> {}) \<and>
     (\<forall>i < bigPageCount p. np_avail p i = {} \<and> hasReservedSubpages (metaAt p i) \<longrightarrow> \<not> L i \<subseteq> slotsOf p refs i)"

lemma free_pre_rest:
  assumes pre: "free_pre H L p (run @ rest)" and ok: "pages_ok L p" and H: "H \<subseteq> {..<bigPageCount p}"
    and f: "freed p X p'" "\<And>i. i < bigPageCount p \<Longrightarrow> X i = slotsOf p run i"
  shows "free_pre H (\<lambda>i. L i - slotsOf p run i) p' rest"
proof -
  note E = exact_append [OF conjunct1 [OF conjunct2 [OF conjunct2 [OF conjunct2 [OF pre [unfolded free_pre_def]]]]]]
  have fr: "same_frame p p'" and N: "bigPageCount p' = bigPageCount p" using f(1) by (auto simp: freed_def same_frame_def)
  have av: "np_avail p' i = np_avail p i \<union> slotsOf p run i" "allocHolder (metaAt p' i) = allocHolder (metaAt p i)"
    "reservedCount (pg_book (metaAt p' i)) = reservedCount (pg_book (metaAt p i))" if "i < bigPageCount p" for i
    using f that by (simp_all add: freed_def)
  have pg: "pagesOf p' Y = pagesOf p Y" for Y using same_frame_first [OF fr] N unfolding pagesOf_def by simp
  have sub: "covered run \<subseteq> pagesOf p L" "covered rest \<subseteq> pagesOf p L" using pre by (auto simp: free_pre_def)
  have "covered rest \<subseteq> pagesOf p' (\<lambda>i. L i - slotsOf p run i)"
    unfolding pg pagesOf_minus [OF ok sub(1)] using sub(2) E(3) by blast
  moreover have "\<forall>i < bigPageCount p'. np_avail p' i = {} \<and> hasReservedSubpages (metaAt p' i) \<longrightarrow>
      \<not> L i - slotsOf p run i \<subseteq> slotsOf p' rest i"
  proof (intro allI impI notI)
    fix i assume i: "i < bigPageCount p'" "np_avail p' i = {} \<and> hasReservedSubpages (metaAt p' i)"
      "L i - slotsOf p run i \<subseteq> slotsOf p' rest i"
    then have iN: "i < bigPageCount p" using N by simp
    have "np_avail p i = {}" "slotsOf p run i = {}" using av(1) [OF iN] i(2) by auto
    moreover have "hasReservedSubpages (metaAt p i)"
      using i(2) av(3) [OF iN] by (simp add: hasReservedSubpages_def hasReservedSlots_def)
    moreover have "L i \<subseteq> slotsOf p (run @ rest) i"
      using i(3) slotsOf_frame [OF fr iN, of rest] slotsOf_append [of p run rest i] by auto
    ultimately show False using pre iN by (auto simp: free_pre_def)
  qed
  moreover have "\<forall>i \<in> H. hasAllocHolder (metaAt p' i) \<and> np_avail p' i \<noteq> {}"
    using pre H av(1,2) unfolding free_pre_def hasAllocHolder_def by (metis (no_types, lifting) Un_empty lessThan_iff subsetD)
  moreover have "\<forall>r \<in> set rest. ref_ok p' H r" using pre ref_ok_frame [OF fr] by (auto simp: free_pre_def)
  moreover have "sorted_wrt (\<lambda>a b. pr_addr a \<le> pr_addr b) rest" using pre by (simp add: free_pre_def sorted_wrt_append)
  ultimately show ?thesis using E(2) by (simp add: free_pre_def)
qed

lemma free_pre_covered: "free_pre H L p (run @ rest) \<Longrightarrow> covered run \<subseteq> pagesOf p L"
  by (auto simp: free_pre_def)

definition walk_post :: "nat \<Rightarrow> nat set \<Rightarrow> (nat \<Rightarrow> nat set) \<Rightarrow> NUMAPool \<Rightarrow> PageRef list \<Rightarrow> NUMAPool outcome \<Rightarrow> bool" where
  "walk_post c H L p refs res \<longleftrightarrow> (\<exists>p' S' L'. res = Inr p' \<and> pool_inv c H L' S' p' \<and> freed p (slotsOf p refs) p' \<and>
     (\<forall>i < bigPageCount p. L' i = L i - slotsOf p refs i))"

lemma walk_post_step:
  assumes p1: "freed p X p1" "\<And>i. i < bigPageCount p \<Longrightarrow> X i = slotsOf p run i"
    and L1: "\<And>i. i < bigPageCount p \<Longrightarrow> L1 i = L i - slotsOf p run i"
    and w: "walk_post c H L1 p1 rest res"
  shows "walk_post c H L p (run @ rest) res"
proof -
  obtain p' S' L' where p': "res = Inr p'" "pool_inv c H L' S' p'" "freed p1 (slotsOf p1 rest) p'"
      "\<forall>i < bigPageCount p1. L' i = L1 i - slotsOf p1 rest i" using w by (auto simp: walk_post_def)
  have fr: "same_frame p p1" and N: "bigPageCount p1 = bigPageCount p" using p1(1) by (auto simp: freed_def same_frame_def)
  have "slotsOf p1 rest i = slotsOf p rest i" if "i < bigPageCount p" for i using slotsOf_frame [OF fr that] .
  then have "freed p (slotsOf p (run @ rest)) p'"
    using freed_trans [OF p1(1) p'(3)] p1(2) by (simp add: freed_def slotsOf_append)
  moreover have "\<forall>i < bigPageCount p. L' i = L i - slotsOf p (run @ rest) i"
    using p'(4) L1 N slotsOf_frame [OF fr] by (auto simp: slotsOf_append)
  ultimately show ?thesis using p'(1,2) by (auto simp: walk_post_def)
qed

lemma pool_inv_cong:
  assumes "pool_inv c H L S p" "\<And>i. i < bigPageCount p \<Longrightarrow> L' i = L i"
  shows "pool_inv c H L' S p"
proof -
  have "pages_ok L' p" using assms by (simp add: pool_inv_def pages_ok_def)
  moreover have "routes_ok c H L' S p"
    using assms pool_routes(5) [OF assms(1)] unfolding pool_inv_def routes_ok_def by auto
  ultimately show ?thesis by (simp add: pool_inv_def)
qed

lemma walk_small:
  assumes inv: "pool_inv c H L S p" and ok: "srs_ok p" and pre: "free_pre H L p (r # rs)" and sz: "pr_size r = SMALL"
  defines "P \<equiv> \<lambda>q. pr_size q = SMALL \<and> bigPageBase (pr_addr q) = bigPageBase (pr_addr r)"
  shows "\<exists>p1 S1 L1. freeSmallPageRun (findMetadata (pr_addr r) p) (r # takeWhile P rs) p = Inr p1 \<and> pool_inv c H L1 S1 p1 \<and>
    freed p (slotsOf p (r # takeWhile P rs)) p1 \<and> (\<forall>i < bigPageCount p. L1 i = L i - slotsOf p (r # takeWhile P rs) i) \<and>
    free_pre H L1 p1 (dropWhile P rs)"
proof -
  let ?run = "r # takeWhile P rs"
  have po: "pages_ok L p" using inv by (simp add: pool_inv_def)
  have app: "free_pre H L p (?run @ dropWhile P rs)" using pre by simp
  obtain i where i: "i < bigPageCount p" "bigPageBase (pr_addr r) = bpm_base (metaAt p i)"
    using pre sz by (auto simp: free_pre_def ref_ok_def)
  have run: "\<forall>q \<in> set ?run. pr_size q = SMALL \<and> bigPageBase (pr_addr q) = bpm_base (metaAt p i)"
    using sz i(2) by (auto simp: P_def dest: set_takeWhileD)
  have "totalPages (?run @ dropWhile P rs) = card (covered (?run @ dropWhile P rs))" using app by (simp add: free_pre_def)
  note E = exact_append(1) [OF this]
  note S = slots_small_run [OF po i(1) run E]
  have X: "refSlot ` set ?run \<subseteq> L i" using slotsOf_live [OF po free_pre_covered [OF app] i(1)] S(3) [OF i(1)] by simp
  have held: "i \<in> H \<longrightarrow> hasAllocHolder (metaAt p i) \<and> np_avail p i \<noteq> {}" using pre by (auto simp: free_pre_def)
  have sub: "slotsOf p ?run i \<subseteq> slotsOf p (r # rs) i"
    using slotsOf_append [of p ?run "dropWhile P rs" i] by simp
  have "np_avail p i = {} \<and> hasReservedSubpages (metaAt p i) \<longrightarrow> \<not> L i \<subseteq> slotsOf p (r # rs) i"
    using pre i(1) unfolding free_pre_def by blast
  then have res: "np_avail p i = {} \<and> hasReservedSubpages (metaAt p i) \<longrightarrow> refSlot ` set ?run \<noteq> L i"
    using sub S(3) [OF i(1)] by (metis (no_types, lifting))
  have "\<forall>q \<in> set ?run. bigPageBase (pr_addr q) = bpm_base (metaAt p i)" using run by blast
  then obtain p1 S1 where p1: "freeSmallPageRun (Some i) ?run p = Inr p1" "pool_inv c H (L(i := L i - refSlot ` set ?run)) S1 p1"
      "freed p (\<lambda>j. if j = i then refSlot ` set ?run else {}) p1"
    using free_small_run [OF inv i(1) _ _ S(2) X held res] by blast
  have sl: "(if j = i then refSlot ` set ?run else {}) = slotsOf p ?run j" if "j < bigPageCount p" for j using S(3) [OF that] by simp
  have N: "bigPageCount p1 = bigPageCount p" using p1(3) by (simp add: freed_def same_frame_def)
  have "pool_inv c H (\<lambda>j. L j - slotsOf p ?run j) S1 p1"
    by (rule pool_inv_cong [OF p1(2)]) (use S(3) N in auto)
  moreover have "free_pre H (\<lambda>j. L j - slotsOf p ?run j) p1 (dropWhile P rs)"
    by (rule free_pre_rest [OF app po pool_routes(7) [OF inv] p1(3) sl])
  moreover have "freed p (slotsOf p ?run) p1" using p1(3) sl by (simp add: freed_def)
  moreover have "findMetadata (pr_addr r) p = Some i" by (rule findMetadata_spec(1) [OF ok i])
  ultimately show ?thesis using p1(1) by (intro exI [of _ p1] exI [of _ S1] exI [of _ "\<lambda>j. L j - slotsOf p ?run j"]) simp
qed

lemma walk_big:
  assumes inv: "pool_inv c H L S p" and ok: "srs_ok p" and pre: "free_pre H L p (r # rs)" and sz: "pr_size r = BIG"
    and cur: "subrangeInfo p = done' @ srs" "\<forall>s \<in> set done'. rangeEnd s \<le> pr_addr r"
  shows "\<exists>sr srs' p1 S1 L1. dropWhile (\<lambda>s. rangeEnd s \<le> pr_addr r) srs = sr # srs' \<and>
    (let P = \<lambda>q. pr_size q = BIG \<and> pr_addr q < rangeEnd sr
     in freeBigPageRun (findMetadata (pr_addr r) p) (r # takeWhile P rs) p = Inr p1 \<and> pool_inv c H L1 S1 p1 \<and>
        freed p (slotsOf p (r # takeWhile P rs)) p1 \<and> (\<forall>i < bigPageCount p. L1 i = L i - slotsOf p (r # takeWhile P rs) i) \<and>
        free_pre H L1 p1 (dropWhile P rs))"
proof -
  have po: "pages_ok L p" using inv by (simp add: pool_inv_def)
  obtain i where i: "i < bigPageCount p" "r = bpm_base (metaAt p i) OR 1"
    using pre sz by (auto simp: free_pre_def ref_ok_def)
  note B = big_ref_addr [OF po i]
  obtain sr where sr: "sr \<in> set (subrangeInfo p)" "rangeStart sr \<le> pr_addr r" "pr_addr r < rangeEnd sr"
    using findMetadata_spec(2) [OF ok i(1) B(6)] B(1) by (auto simp: word_le_nat_alt word_less_nat_alt)
  obtain srs' where dw: "dropWhile (\<lambda>s. rangeEnd s \<le> pr_addr r) srs = sr # srs'" using cursor_finds [OF ok cur sr] by blast
  define P where "P = (\<lambda>q. pr_size q = BIG \<and> pr_addr q < rangeEnd sr)"
  let ?run = "r # takeWhile P rs"
  have app: "free_pre H L p (?run @ dropWhile P rs)" using pre by simp
  have "sorted_wrt (\<lambda>a b. pr_addr a \<le> pr_addr b) (r # rs)" using pre by (simp add: free_pre_def)
  then have run: "pr_size q = BIG \<and> pr_addr q < rangeEnd sr \<and> pr_addr r \<le> pr_addr q \<and> ref_ok p H q" if "q \<in> set ?run" for q
    using that sz sr(3) pre by (auto simp: P_def free_pre_def dest: set_takeWhileD)
  define xs where "xs = map (runIndex i ?run) [0..<length ?run]"
  have xs: "xs ! j < bigPageCount p \<and> ?run ! j = bpm_base (metaAt p (xs ! j)) OR 1 \<and> xs ! j \<notin> H" if j: "j < length ?run" for j
  proof -
    have m: "?run ! j \<in> set ?run" using j by (rule nth_mem)
    obtain x where x: "x < bigPageCount p" "?run ! j = bpm_base (metaAt p x) OR 1" "x \<notin> H"
      using run [OF m] by (auto simp: ref_ok_def)
    have "runIndex i ?run j = x"
      by (rule runIndex_page [OF ok sr(1) po i(1)]) (use i(2) sr(2) x run [OF m] in simp_all)
    then show ?thesis using x j by (simp add: xs_def nth_map [of j "[0..<length ?run]"] del: upt_Suc)
  qed
  have lx: "length xs = length ?run" by (simp add: xs_def)
  have "totalPages (?run @ dropWhile P rs) = card (covered (?run @ dropWhile P rs))" using app by (simp add: free_pre_def)
  note E = exact_append(1) [OF this]
  have xs': "\<forall>j < length ?run. xs ! j < bigPageCount p \<and> ?run ! j = bpm_base (metaAt p (xs ! j)) OR 1" using xs by blast
  note S = slots_big_run [OF po lx xs' E]
  have live: "L x = {..<512}" if "x \<in> set xs" "x < bigPageCount p" for x
    using slotsOf_live [OF po free_pre_covered [OF app] that(2)] S(2) [OF that(2)] that(1) pg_invD(4) [OF pool_pages(2) [OF inv that(2)]] by auto
  have xN: "x < bigPageCount p \<and> x \<notin> H" if "x \<in> set xs" for x using xs that lx by (auto simp: in_set_conv_nth)
  have h: "H \<inter> set xs = {}" "\<forall>x \<in> set xs. x < bigPageCount p \<and> L x = {..<512}" using xN live by auto
  obtain p1 where p1: "freeBigPageRun (Some i) ?run p = Inr p1" "pool_inv c H (\<lambda>j. if j \<in> set xs then {} else L j) S p1"
      "freed p (\<lambda>j. if j \<in> set xs then {..<512} else {}) p1"
    using free_big_run [OF inv xs_def S(1) h] by blast
  have sl: "(if j \<in> set xs then {..<512} else {}) = slotsOf p ?run j" if "j < bigPageCount p" for j using S(2) [OF that] by simp
  have N: "bigPageCount p1 = bigPageCount p" using p1(3) by (simp add: freed_def same_frame_def)
  have "pool_inv c H (\<lambda>j. L j - slotsOf p ?run j) S p1"
    by (rule pool_inv_cong [OF p1(2)]) (use S(2) N h(2) in auto)
  moreover have "free_pre H (\<lambda>j. L j - slotsOf p ?run j) p1 (dropWhile P rs)"
    by (rule free_pre_rest [OF app po pool_routes(7) [OF inv] p1(3) sl])
  moreover have "freed p (slotsOf p ?run) p1" using p1(3) sl by (simp add: freed_def)
  moreover have "findMetadata (pr_addr r) p = Some i" by (rule findMetadata_spec(1) [OF ok i(1) B(6)])
  ultimately show ?thesis
    using p1(1) dw unfolding Let_def P_def
    by (intro exI [of _ sr] exI [of _ srs'] exI [of _ p1] exI [of _ S] exI [of _ "\<lambda>j. L j - slotsOf p ?run j"]) (simp add: P_def)
qed

lemma walk_spec:
  assumes "pool_inv c H L S p" "srs_ok p" "free_pre H L p refs"
    "subrangeInfo p = done' @ srs" "\<forall>s \<in> set done'. \<forall>r \<in> set refs. rangeEnd s \<le> pr_addr r"
  shows "walk_post c H L p refs (freePagesFrom refs srs p)"
  using assms
proof (induction "length refs" arbitrary: refs L S p done' srs rule: less_induct)
  case less
  show ?case
  proof (cases refs)
    case Nil
    then show ?thesis using less.prems(1) by (auto simp: walk_post_def freePagesFrom.simps freed_def slotsOf_def same_frame_refl)
  next
    case (Cons r rs)
    note pre = less.prems(3) [unfolded Cons]
    have step: "walk_post c H L p (r # rs) (freePagesFrom (dropWhile P rs) srs1 p1)"
      if p1: "freed p (slotsOf p (r # takeWhile P rs)) p1" "pool_inv c H L1 S1 p1" "free_pre H L1 p1 (dropWhile P rs)"
        "\<forall>i < bigPageCount p. L1 i = L i - slotsOf p (r # takeWhile P rs) i"
        and c: "subrangeInfo p = done1 @ srs1" "\<forall>s \<in> set done1. \<forall>q \<in> set rs. rangeEnd s \<le> pr_addr q" for P p1 L1 S1 done1 srs1
    proof -
      have fr: "same_frame p p1" using p1(1) by (simp add: freed_def)
      have "walk_post c H L1 p1 (dropWhile P rs) (freePagesFrom (dropWhile P rs) srs1 p1)"
        by (rule less.hyps [OF _ p1(2) srs_ok_frame [OF less.prems(2) fr] p1(3)])
          (use Cons c fr length_dropWhile_le [of P rs] in \<open>auto simp: same_frame_def dest: set_dropWhileD\<close>)
      from walk_post_step [OF p1(1) refl _ this] p1(4) show ?thesis by simp
    qed
    show ?thesis
    proof (cases "pr_size r")
      case SMALL
      define P where "P = (\<lambda>q. pr_size q = SMALL \<and> bigPageBase (pr_addr q) = bigPageBase (pr_addr r))"
      obtain p1 S1 L1 where w: "freeSmallPageRun (findMetadata (pr_addr r) p) (r # takeWhile P rs) p = Inr p1"
          "pool_inv c H L1 S1 p1" "freed p (slotsOf p (r # takeWhile P rs)) p1"
          "\<forall>i < bigPageCount p. L1 i = L i - slotsOf p (r # takeWhile P rs) i" "free_pre H L1 p1 (dropWhile P rs)"
        using walk_small [OF less.prems(1,2) pre SMALL] unfolding P_def by blast
      have "walk_post c H L p (r # rs) (freePagesFrom (dropWhile P rs) srs p1)"
        by (rule step [OF w(3,2,5,4) less.prems(4)]) (use less.prems(5) Cons in simp)
      then show ?thesis using SMALL w(1) by (simp add: Cons freePagesFrom.simps P_def)
    next
      case BIG
      have d: "\<forall>s \<in> set done'. rangeEnd s \<le> pr_addr r" using less.prems(5) Cons by simp
      obtain sr srs' p1 S1 L1 P where w: "dropWhile (\<lambda>s. rangeEnd s \<le> pr_addr r) srs = sr # srs'"
          "P = (\<lambda>q. pr_size q = BIG \<and> pr_addr q < rangeEnd sr)"
          "freeBigPageRun (findMetadata (pr_addr r) p) (r # takeWhile P rs) p = Inr p1" "pool_inv c H L1 S1 p1"
          "freed p (slotsOf p (r # takeWhile P rs)) p1" "\<forall>i < bigPageCount p. L1 i = L i - slotsOf p (r # takeWhile P rs) i"
          "free_pre H L1 p1 (dropWhile P rs)"
        using walk_big [OF less.prems(1,2) pre BIG less.prems(4) d] unfolding Let_def by blast
      let ?t = "takeWhile (\<lambda>s. rangeEnd s \<le> pr_addr r) srs"
      have "subrangeInfo p = (done' @ ?t) @ sr # srs'" using less.prems(4) w(1) takeWhile_dropWhile_id [of "\<lambda>s. rangeEnd s \<le> pr_addr r" srs] by simp
      moreover have "\<forall>s \<in> set (done' @ ?t). \<forall>q \<in> set rs. rangeEnd s \<le> pr_addr q"
        using d pre by (auto simp: free_pre_def dest!: set_takeWhileD intro: order_trans)
      ultimately have "walk_post c H L p (r # rs) (freePagesFrom (dropWhile P rs) (sr # srs') p1)"
        by (rule step [OF w(5,4,7,6)])
      then show ?thesis using BIG w(1-3) by (simp add: Cons freePagesFrom.simps)
    qed
  qed
qed

end
