(* ===== verification/Numa_Pool_Laws.thy ===== *)
theory Numa_Pool_Laws
  imports Numa_Pool_Free
begin

text \<open>
  What a NUMA pool promises its callers: the laws of \<open>findMetadata\<close>, \<open>freePages\<close>, the
  \<open>BIG_PAGE_ONLY\<close> requests and \<open>returnPage\<close>, and the one history in which the code breaks them.
\<close>

section \<open>Exact freeing\<close>

lemma pagesOf_slotsOf:
  assumes "pages_ok L p" "covered refs \<subseteq> pagesOf p L"
  shows "pagesOf p (slotsOf p refs) = covered refs"
proof (intro set_eqI iffI)
  fix x assume x: "x \<in> covered refs"
  then have "x \<in> pagesOf p L" using assms(2) by blast
  then obtain i s where i: "i < bigPageCount p" "s \<in> L i" "x = pg_first (metaAt p i) + s" by (auto simp: in_pagesOf)
  have "pg_inv (metaAt p i) (L i)" using assms(1) i(1) by (simp add: pages_ok_def)
  then have "s < 512" using pg_invD(4) i(2) by blast
  then show "x \<in> pagesOf p (slotsOf p refs)" using x i by (auto simp: in_pagesOf slotsOf_def)
qed (auto simp: in_pagesOf slotsOf_def)

lemma pagesOf_frame: "same_frame p q \<Longrightarrow> pagesOf q X = pagesOf p X"
  using same_frame_first [of p q] by (simp add: pagesOf_def same_frame_def)

lemma pagesOf_cong: "(\<And>i. i < bigPageCount p \<Longrightarrow> X i = Y i) \<Longrightarrow> pagesOf p X = pagesOf p Y"
  by (simp add: pagesOf_def)

lemma pagesOf_Un: "pagesOf p (\<lambda>i. X i \<union> Y i) = pagesOf p X \<union> pagesOf p Y"
  by (auto simp: pagesOf_def)

lemma np_freePages_spec:
  assumes inv: "pool_inv c H L S p" and ok: "srs_ok p" and pre: "free_pre H L p refs"
  shows "\<exists>p' L' S'. np_freePages refs p = Inr p' \<and> pool_inv c H L' S' p' \<and> freed p (slotsOf p refs) p' \<and> same_frame p p' \<and>
    pagesOf p L' = pagesOf p L - covered refs \<and> pagesOf p (np_avail p') = pagesOf p (np_avail p) \<union> covered refs"
proof -
  obtain p' S' L' where p': "np_freePages refs p = Inr p'" "pool_inv c H L' S' p'" "freed p (slotsOf p refs) p'"
      "\<forall>i < bigPageCount p. L' i = L i - slotsOf p refs i"
    using walk_spec [OF inv ok pre, of "[]" "subrangeInfo p"] by (auto simp: walk_post_def np_freePages_def)
  have po: "pages_ok L p" "covered refs \<subseteq> pagesOf p L" using inv pre by (simp_all add: pool_inv_def free_pre_def)
  have "pagesOf p L' = pagesOf p L - covered refs"
    using pagesOf_minus [OF po] pagesOf_cong [of p L' "\<lambda>i. L i - slotsOf p refs i"] p'(4) by simp
  moreover have "pagesOf p (np_avail p') = pagesOf p (\<lambda>i. np_avail p i \<union> slotsOf p refs i)"
    by (rule pagesOf_cong) (use p'(3) in \<open>simp add: freed_def\<close>)
  ultimately show ?thesis using p' pagesOf_slotsOf [OF po] by (auto simp: pagesOf_Un freed_def)
qed

section \<open>Whole big pages\<close>

lemma np_bigOnly_spec:
  assumes "pool_inv c H L S p" and "n + 511 < 2 ^ 64" and "flags_has flags BIG_PAGE_ONLY"
  shows "\<exists>st L'. np_allocatePages cpu n flags p = Inr st \<and> pool_inv c H L' S (al_pool st) \<and> granted p L (al_pool st) L' (al_out st) \<and>
    paPages (al_pool st) = paPages p \<and> allocatedPages st = 512 * min ((n + 511) div 512) (length (np_items p)) \<and>
    totalPages (al_out st) = allocatedPages st \<and> paPageRemaining st = None \<and> (\<forall>j \<in> H. metaAt (al_pool st) j = metaAt p j)"
proof -
  let ?k = "(n + 511) div 512" and ?st0 = "startAlloc n p"
  let ?xs = "take ?k (np_items p)"
  have k: "unat (divideAndRoundUp (of_nat n :: u64) 512) = ?k"
  proof -
    have "unat ((of_nat n :: u64) + 511) = n + 511" using assms(2) by (simp add: unat_word_ariths unat_of_nat_64)
    then show ?thesis by (simp add: divideAndRoundUp_def unat_div_distrib)
  qed
  have s0: "pool_inv c H L S (al_pool ?st0)" "granted p L (al_pool ?st0) L (al_out ?st0)"
    using assms(1) granted_refl by (simp_all add: startAlloc_def)
  obtain p1 where 1: "readFree ?k ?st0 = Inr (?st0\<lparr>al_pool := p1\<rparr>, ?xs)" "pool_inv c (H \<union> set ?xs) L S p1"
      "granted p L p1 L []" "\<forall>i \<in> set ?xs. fresh L p1 i" "paPages p1 = paPages p"
      "bigPageMetadataBuffer p1 = bigPageMetadataBuffer p"
    using readFree_spec [OF s0, of ?k] by (auto simp: startAlloc_def)
  let ?st1 = "?st0\<lparr>al_pool := p1\<rparr>"
  have dx: "distinct ?xs" "(H \<union> set ?xs) - set ?xs = H"
    using pool_routes(4,12) [OF assms(1)] set_take_subset [of ?k "np_items p"] by (auto simp: distinct_take)
  have st1: "pool_inv c (H \<union> set ?xs) L S (al_pool ?st1)" "granted p L (al_pool ?st1) L (al_out ?st1)"
    "set ?xs \<subseteq> H \<union> set ?xs" "\<forall>i \<in> set ?xs. fresh L (al_pool ?st1) i" using 1 by (simp_all add: startAlloc_def)
  obtain p2 rs L2 where 2: "takeWhole ?xs ?st1 = Inr (?st1\<lparr>al_pool := p2, al_out := rs\<rparr>)" "totalPages rs = 512 * length ?xs"
      "pool_inv c H L2 S p2" "granted p L p2 L2 rs" "paPages p2 = paPages p" "untouched (set ?xs) L (al_pool ?st1) L2 p2"
    using takeWhole_spec [OF st1(1,2) dx(1) st1(3,4)] dx(2) 1(5) by (auto simp: startAlloc_def)
  let ?st = "?st1\<lparr>al_pool := p2, al_out := rs, allocatedPages := length ?xs * smallPagesPerBigPage\<rparr>"
  have run: "np_allocatePages cpu n flags p = Inr ?st"
    using assms(3) k 1(1) 2(1) by (simp add: np_allocatePages_def np_allocBigOnly_def)
  have "H \<inter> set ?xs = {}" using pool_routes(12) [OF assms(1)] set_take_subset [of ?k "np_items p"] by blast
  then have "\<forall>j \<in> H. metaAt p2 j = metaAt p j" using 2(6) 1(6) by (auto simp: untouched_def)
  moreover have "smallPagesPerBigPage = 512" by (simp add: smallPagesPerBigPage_def)
  ultimately show ?thesis
    using run 2 by (intro exI [of _ ?st] exI [of _ L2]) (simp add: min.commute mult.commute startAlloc_def)
qed

section \<open>Draining a pool\<close>

lemma finite_pagesOf: "pages_ok L p \<Longrightarrow> finite (pagesOf p (np_avail p))"
  unfolding pagesOf_def pages_ok_def
  by (intro finite_UN_I finite_imageI) (auto intro: finite_subset [OF pg_invD(5) [THEN order_trans]])

text \<open>A request for as many pages as are available takes all of them.\<close>

lemma allocate_everything:
  assumes inv: "pool_inv c {} L S p" and n: "n = card (pagesOf p (np_avail p))" "n + 511 < 2 ^ 64" and cpu: "cpu \<noteq> SIZE_MAX"
  shows "\<exists>st L' S'. np_allocatePages cpu n 0 p = Inr st \<and> pool_inv c {} L' S' (al_pool st) \<and> same_frame p (al_pool st) \<and>
    (\<forall>i < bigPageCount p. np_avail (al_pool st) i = {} \<and> L' i = L i \<union> np_avail p i)"
proof -
  have fl: "\<not> flags_has 0 BIG_PAGE_ONLY" by (simp add: flags_has_def)
  obtain st L' S' where st: "np_allocatePages cpu n 0 p = Inr st" "al_inv c {} p L n L' S' st"
      "smallPageCount st = 0 \<or> (\<forall>i < bigPageCount p. np_avail (al_pool st) i = {})"
    using np_allocatePages_spec [OF inv cpu n(2) fl] by auto
  note I = st(2) [unfolded al_inv_def]
  have po: "pages_ok L p" "pages_ok L' (al_pool st)" using inv I by (simp_all add: pool_inv_def)
  have G: "granted p L (al_pool st) L' (al_out st)" using I by blast
  note S = granted_sets [OF G po]
  have e: "\<forall>i < bigPageCount p. np_avail (al_pool st) i = {}"
  proof (cases "smallPageCount st = 0")
    case True
    then have "card (covered (al_out st)) = card (pagesOf p (np_avail p))" using I n(1) by (auto simp: granted_def)
    then have "covered (al_out st) = pagesOf p (np_avail p)" by (rule card_subset_eq [OF finite_pagesOf [OF po(1)] S(1)])
    then have "pagesOf p (np_avail (al_pool st)) = {}" using S(4) by simp
    then show ?thesis by (auto simp: pagesOf_def)
  next
    case False
    then show ?thesis using st(3) by simp
  qed
  moreover have "L' i = L i \<union> np_avail p i" if "i < bigPageCount p" for i
    using G e that by (auto simp: granted_def)
  moreover have fr: "same_frame p (al_pool st)" using G by (simp add: granted_def)
  moreover have "pool_inv c {} L' S' (al_pool st)"
  proof (cases "paPageRemaining st")
    case (Some i)
    then have h: "pool_inv c {i} L' S' (al_pool st)" "allocHolder (metaAt (al_pool st) i) = SIZE_MAX" using I by auto
    then have i: "i < bigPageCount (al_pool st)" using pool_routes(7) [OF h(1)] by simp
    then have "np_avail (al_pool st) i = {}" using e fr by (simp add: same_frame_def)
    then show ?thesis using forget_full [OF h(1) i _ h(2)] by simp
  qed (use I in simp)
  ultimately show ?thesis using st(1) by blast
qed

section \<open>A drained pool of two pages\<close>

lemma demo_srs_ok:
  assumes "bigPageCount p = 2" "subrangeInfo p = demo_srs" "bpm_base (metaAt p 0) = 4194304" "bpm_base (metaAt p 1) = 6291456"
  shows "srs_ok p"
proof -
  have "i < 2 \<longleftrightarrow> i = 0 \<or> i = 1" for i :: nat by (auto simp: less_2_cases_iff)
  moreover have "unat (4194304 :: u64) + k * 2097152 < unat (8388608 :: u64) \<longleftrightarrow> k = 0 \<or> k = 1" for k by auto
  ultimately show ?thesis using assms unfolding srs_ok_def demo_srs_def by auto
qed

lemma demo_pages:
  assumes "bigPageCount p = 2" "bpm_base (metaAt p 0) = 4194304" "bpm_base (metaAt p 1) = 6291456"
  shows "pagesOf p X = (+) 1024 ` X 0 \<union> (+) 1536 ` X 1"
proof -
  have "{..<2 :: nat} = {0, 1}" by auto
  then show ?thesis using assms by (simp add: pagesOf_def pg_first_def)
qed

lemma demo_drained:
  obtains m0 m1 pa c p st L S where "mkBigPageMetadata 0 4194304 = Inr m0" "mkBigPageMetadata 0 6291456 = Inr m1"
    "mkAtomicBitPool 2 (\<lambda>_. \<lparr>ent_bitmap = 0, ent_count = 0\<rparr>) 64 = Inr pa"
    "mkNUMAPool [m0, m1] [0, 0] pa demo_srs 2 0 = Inr p" "np_allocatePages 0 1024 0 p = Inr st" "pool_inv c {} L S (al_pool st)"
    "srs_ok (al_pool st)" "bigPageCount (al_pool st) = 2" "bpm_base (metaAt (al_pool st) 0) = 4194304"
    "bpm_base (metaAt (al_pool st) 1) = 6291456" "L 0 = {..<512}" "L 1 = {..<512}" "np_avail (al_pool st) 0 = {}" "np_avail (al_pool st) 1 = {}"
proof -
  obtain m0 m1 pa c p where d: "mkBigPageMetadata 0 4194304 = Inr m0" "mkBigPageMetadata 0 6291456 = Inr m1"
    "mkAtomicBitPool 2 (\<lambda>_. \<lparr>ent_bitmap = 0, ent_count = 0\<rparr>) 64 = Inr pa"
    "mkNUMAPool [m0, m1] [0, 0] pa demo_srs 2 0 = Inr p" "pool_inv c {} (\<lambda>_. {}) {} p" "bigPageCount p = 2"
    "metaAt p 0 = m0" "metaAt p 1 = m1" "bpm_base m0 = 4194304" "bpm_base m1 = 6291456" "np_avail p 0 = {..<512}" "np_avail p 1 = {..<512}"
    "subrangeInfo p = demo_srs" by (rule demo_pool)
  have b: "bpm_base (metaAt p 0) = 4194304" "bpm_base (metaAt p 1) = 6291456" using d(7-10) by simp_all
  have "pagesOf p (np_avail p) = (+) 1024 ` {..<512} \<union> (+) 1536 ` {..<512}" using demo_pages [OF d(6) b] d(11,12) by simp
  also have "\<dots> = {1024..<2048}" by (auto simp: lessThan_atLeast0 image_add_atLeastLessThan)
  finally have n: "1024 = card (pagesOf p (np_avail p))" by simp
  obtain st L S where st: "np_allocatePages 0 1024 0 p = Inr st" "pool_inv c {} L S (al_pool st)" "same_frame p (al_pool st)"
      "\<forall>i < bigPageCount p. np_avail (al_pool st) i = {} \<and> L i = {} \<union> np_avail p i"
    using allocate_everything [OF d(5) n, of 0] by (auto simp: SIZE_MAX_def)
  have fr: "bigPageCount (al_pool st) = 2" "bpm_base (metaAt (al_pool st) 0) = 4194304" "bpm_base (metaAt (al_pool st) 1) = 6291456"
    "subrangeInfo (al_pool st) = demo_srs" using st(3) d(6,13) b by (simp_all add: same_frame_def)
  show ?thesis
    by (rule that [OF d(1-4) st(1,2) demo_srs_ok [OF fr(1,4,2,3)] fr(1-3)]) (use st(4) d(6,11,12) in simp_all)
qed

section \<open>Properties\<close>

text \<open>
  C28: \<open>NUMAPool::freePages\<close> is exact. For sorted references to pages of this pool that are all live
  and that name no small page twice, the walk ends without hitting an assertion and the invariant
  holds again: every big page is back in the free ring, in the pool of partially allocated pages or
  nowhere, as its occupancy demands. The live pages shrink and the available ones grow by exactly
  the pages named. The last hypothesis excludes the one case in which the code misroutes a page.
\<close>

theorem numa_pool_free_exact:
  assumes "pool_inv c {} L S p" and "srs_ok p" and "sorted_wrt (\<lambda>a b. pr_addr a \<le> pr_addr b) refs"
    and "\<forall>r \<in> set refs. ref_ok p {} r" and "covered refs \<subseteq> pagesOf p L" and "totalPages refs = card (covered refs)"
    and "\<forall>i < bigPageCount p. np_avail p i = {} \<and> hasReservedSubpages (metaAt p i) \<longrightarrow> \<not> L i \<subseteq> slotsOf p refs i"
  shows "\<exists>p' L' S'. np_freePages refs p = Inr p' \<and> pool_inv c {} L' S' p' \<and> same_frame p p' \<and>
    pagesOf p L' = pagesOf p L - covered refs \<and> pagesOf p (np_avail p') = pagesOf p (np_avail p) \<union> covered refs"
proof -
  have "free_pre {} L p refs" using assms(3-7) by (simp add: free_pre_def)
  then show ?thesis using np_freePages_spec [OF assms(1,2)] by blast
qed

theorem numa_pool_free_exact_witness:
  "\<exists>m0 m1 pa p st p'. mkBigPageMetadata 0 4194304 = Inr m0 \<and> mkBigPageMetadata 0 6291456 = Inr m1 \<and>
     mkAtomicBitPool 2 (\<lambda>_. \<lparr>ent_bitmap = 0, ent_count = 0\<rparr>) 64 = Inr pa \<and> mkNUMAPool [m0, m1] [0, 0] pa demo_srs 2 0 = Inr p \<and>
     np_allocatePages 0 1024 0 p = Inr st \<and> np_freePages [4194305, 6295552] (al_pool st) = Inr p' \<and>
     pagesOf (al_pool st) (np_avail p') = insert 1537 {1024..<1536}"
proof -
  obtain m0 m1 pa c p st L S where d: "mkBigPageMetadata 0 4194304 = Inr m0" "mkBigPageMetadata 0 6291456 = Inr m1"
    "mkAtomicBitPool 2 (\<lambda>_. \<lparr>ent_bitmap = 0, ent_count = 0\<rparr>) 64 = Inr pa"
    "mkNUMAPool [m0, m1] [0, 0] pa demo_srs 2 0 = Inr p" "np_allocatePages 0 1024 0 p = Inr st" "pool_inv c {} L S (al_pool st)"
    "srs_ok (al_pool st)" "bigPageCount (al_pool st) = 2" "bpm_base (metaAt (al_pool st) 0) = 4194304"
    "bpm_base (metaAt (al_pool st) 1) = 6291456" "L 0 = {..<512}" "L 1 = {..<512}" "np_avail (al_pool st) 0 = {}" "np_avail (al_pool st) 1 = {}"
    by (rule demo_drained)
  let ?p = "al_pool st" and ?refs = "[4194305, 6295552] :: PageRef list"
  note pg = demo_pages [OF d(8-10)]
  have A: "pr_addr 4194305 = 4194304" "pr_size 4194305 = BIG" "pr_addr 6295552 = 6295552" "pr_size 6295552 = SMALL"
    by (simp_all add: pr_addr_def pr_size_def smallPageSize_def)
  have c: "covered ?refs = insert 1537 {1024..<1536}" "totalPages ?refs = 513" using A by (auto simp: refPages_def refCount_def)
  have all2: "(\<forall>i < 2. P i) \<longleftrightarrow> P 0 \<and> P 1" for P :: "nat \<Rightarrow> bool" by (auto simp: less_2_cases_iff)
  have P: "pg_inv (metaAt ?p 0) {..<512}" "pg_inv (metaAt ?p 1) {..<512}" using pool_pages(2) [OF d(6)] d(8,11,12) by (metis zero_less_numeral, metis one_less_numeral_iff semiring_norm(76))
  have nr: "\<not> hasReservedSubpages (metaAt ?p 0)" "\<not> hasReservedSubpages (metaAt ?p 1)"
    using pg_queries(3) [OF P(1)] pg_queries(3) [OF P(2)] d(13,14) by simp_all
  have "\<exists>p' L' S'. np_freePages ?refs ?p = Inr p' \<and> pool_inv c {} L' S' p' \<and> same_frame ?p p' \<and>
    pagesOf ?p L' = pagesOf ?p L - covered ?refs \<and> pagesOf ?p (np_avail p') = pagesOf ?p (np_avail ?p) \<union> covered ?refs"
  proof (rule numa_pool_free_exact [OF d(6,7)])
    show "sorted_wrt (\<lambda>a b. pr_addr a \<le> pr_addr b) ?refs" using A by simp
    have "ref_ok ?p {} 4194305" "ref_ok ?p {} 6295552" using A d(8-10) unfolding ref_ok_def
      by (auto simp: bigPageBase_def bigPageSize_def intro: exI [of _ 0] exI [of _ 1])
    then show "\<forall>r \<in> set ?refs. ref_ok ?p {} r" by simp
    show "covered ?refs \<subseteq> pagesOf ?p L" unfolding c pg d(11,12) by (auto simp: lessThan_atLeast0 image_add_atLeastLessThan)
    show "totalPages ?refs = card (covered ?refs)" unfolding c by simp
    show "\<forall>i < bigPageCount ?p. np_avail ?p i = {} \<and> hasReservedSubpages (metaAt ?p i) \<longrightarrow> \<not> L i \<subseteq> slotsOf ?p ?refs i"
      using nr by (simp add: d(8) all2)
  qed
  moreover have "pagesOf ?p (np_avail ?p) = {}" using pg d(13,14) by simp
  ultimately show ?thesis using d(1-5) c(1) by auto
qed

text \<open>
  \<open>NUMAPool::allocatePages\<close> with \<open>BIG_PAGE_ONLY\<close> hands out whole big pages only: as many as the
  request needs after rounding up, or all of the free ring when it has fewer, each counted as 512
  small pages, so that more than the requested number may be given; the partially allocated pages
  are not looked at.
\<close>

lemma numa_pool_big_only:
  assumes "pool_inv c H L S p" and "n + 511 < 2 ^ 64" and "flags_has flags BIG_PAGE_ONLY"
  shows "\<exists>st L'. np_allocatePages cpu n flags p = Inr st \<and> pool_inv c H L' S (al_pool st) \<and> paPages (al_pool st) = paPages p \<and>
    allocatedPages st = 512 * min ((n + 511) div 512) (length (np_items p)) \<and>
    allocatedPages st = card (covered (al_out st)) \<and> covered (al_out st) \<subseteq> pagesOf p (np_avail p) \<and>
    pagesOf p L' = pagesOf p L \<union> covered (al_out st) \<and> covered (al_out st) \<inter> pagesOf p L = {}"
proof -
  obtain st L' where st: "np_allocatePages cpu n flags p = Inr st" "pool_inv c H L' S (al_pool st)" "granted p L (al_pool st) L' (al_out st)"
      "paPages (al_pool st) = paPages p" "allocatedPages st = 512 * min ((n + 511) div 512) (length (np_items p))"
      "totalPages (al_out st) = allocatedPages st"
    using np_bigOnly_spec [OF assms] by blast
  have "pages_ok L p" "pages_ok L' (al_pool st)" using assms(1) st(2) by (simp_all add: pool_inv_def)
  moreover have "totalPages (al_out st) = card (covered (al_out st))" using st(3) by (simp add: granted_def)
  ultimately show ?thesis using st granted_sets [OF st(3)] by (intro exI [of _ st] exI [of _ L']) simp
qed

text \<open>
  \<open>NUMAPool::findMetadata\<close> finds the metadata of exactly the pages of the pool: an address in a
  big page of the pool yields that page's index, any other address yields no metadata.
\<close>

lemma find_metadata_exact:
  assumes "pool_inv c H L S p" and "srs_ok p"
  shows "findMetadata a p = Some i \<longleftrightarrow> i < bigPageCount p \<and> bigPageBase a = bpm_base (metaAt p i)"
proof
  assume "i < bigPageCount p \<and> bigPageBase a = bpm_base (metaAt p i)"
  then show "findMetadata a p = Some i" using findMetadata_spec(1) [OF assms(2)] by blast
next
  assume f: "findMetadata a p = Some i"
  let ?b = "bigPageBase a"
  have "\<exists>sr \<in> set (subrangeInfo p). rangeStart sr \<le> ?b \<and> ?b < rangeEnd sr"
    using f findSubrange_None [of "subrangeInfo p" ?b] by (auto simp: findMetadata_def roundDown_bigPageBase)
  then obtain sr where sr: "sr \<in> set (subrangeInfo p)" "rangeStart sr \<le> ?b" "?b < rangeEnd sr" by blast
  define k where "k = (unat ?b - unat (rangeStart sr)) div 2097152"
  have "2097152 dvd unat ?b" by (simp add: unat_bigPageBase)
  moreover have "2097152 dvd unat (rangeStart sr)" using assms(2) sr(1) unfolding srs_ok_def by blast
  ultimately have "2097152 dvd unat ?b - unat (rangeStart sr)" by (rule dvd_diff_nat)
  then have k: "unat (rangeStart sr) + k * 2097152 = unat ?b" using sr(2) by (simp add: k_def word_le_nat_alt)
  then have "unat (rangeStart sr) + k * 2097152 < unat (rangeEnd sr)" using sr(3) by (simp add: word_less_nat_alt)
  then have m: "metadataBase sr + k < bigPageCount p" "unat (bpm_base (metaAt p (metadataBase sr + k))) = unat ?b"
    using assms(2) sr(1) k unfolding srs_ok_def by metis+
  then have "findMetadata a p = Some (metadataBase sr + k)"
    using findMetadata_spec(1) [OF assms(2) m(1), of a] by (simp add: word_unat_eq_iff)
  then show "i < bigPageCount p \<and> bigPageBase a = bpm_base (metaAt p i)" using f m by (simp add: word_unat_eq_iff)
qed

text \<open>
  freeing misroutes a big page with reserved small pages. When such a page is full and one run
  of small pages frees everything that was allocated in it, its transition is from full to empty, and
  \<open>freePages\<close> writes it to the ring of free big pages without the \<open>isEmpty\<close> test of the other branch.
  The next request for a whole big page takes it from there and fails the assertion of \<open>allocAll\<close>.
\<close>

lemma reserved_page_misrouted:
  assumes "pool_inv c {} L S p" and "i < bigPageCount p" and "np_avail p i = {}" and "hasReservedSubpages (metaAt p i)"
    and "\<forall>r \<in> set run. bigPageBase (pr_addr r) = bpm_base (metaAt p i)" and "distinct (map refSlot run)"
    and "refSlot ` set run = L i" and "run \<noteq> []" and "np_items p = []"
  shows "\<exists>p'. freeSmallPageRun (Some i) run p = Inr p' \<and> np_items p' = [i] \<and> \<not> bpm_isEmpty (metaAt p' i) \<and>
    np_allocatePages cpu 512 0 p' = Inl (Assertion ''Can't allocate all from page with reserved subpages'')"
proof -
  let ?m = "metaAt p i"
  note P = pool_pages [OF assms(1)] and R = pool_routes [OF assms(1)]
  have len: "i < length (bigPageMetadataBuffer p)" using assms(2) P(1) by simp
  have pi: "pg_inv ?m (L i)" using P(2) [OF assms(2)] .
  have sub: "refSlot ` set run \<subseteq> L i" using assms(7) by simp
  obtain m' where m': "bpm_freePages run ?m = Inr (m', \<lparr>before = occupancy (L i) (pg_avail ?m), after = occupancy {} (pg_avail m')\<rparr>)"
      "pg_inv m' {}" "pg_avail m' = L i" "allocHolder m' = allocHolder ?m" "reservedCount (pg_book m') = reservedCount (pg_book ?m)"
    using pg_free_spec [OF pi assms(5,6) sub] assms(3,7) by auto
  have L: "L i \<noteq> {}" using assms(7,8) by auto
  have nh: "\<not> hasAllocHolder m'" using R(14) [OF assms(2)] m'(4) by (simp add: hasAllocHolder_def)
  have res: "hasReservedSubpages m'" using assms(4) m'(5) by (simp add: hasReservedSubpages_def hasReservedSlots_def)
  have "1 \<le> rb_cap (ring (freeBigPages p)) - length (np_items p)" using R(3) assms(2,9) by simp
  then obtain r where r: "hr_bulkWrite 1 (\<lambda>_ _. i) (freeBigPages p) = Inr (r, True)" "hr_inv r"
      "rb_items (ring r) = [] @ written (\<lambda>_ _. i) (ring (freeBigPages p)) 1"
    using hr_bulkWrite_spec [OF R(2), of 1 "\<lambda>_ _. i"] assms(9) by auto
  have w: "hr_write i (freeBigPages p) = Inr (r, True)" "rb_items (ring r) = [i]" using r(1,3) by (simp_all add: hr_write_def written_def)
  let ?p' = "(setMeta i m' p)\<lparr>freeBigPages := r\<rparr>"
  have run: "freeSmallPageRun (Some i) run p = Inr ?p'"
    using len m'(1) L assms(3) nh w(1) by (simp add: freeSmallPageRun_def Let_def occupancy_def becameEmpty_def)
  have mi: "metaAt ?p' i = m'" using len by (simp add: metaAt_setMeta)
  obtain r' where r': "hr_bulkReadBestEffort 1 DEFAULT_MAX_SPINS r = Inr (r', [i])"
    using hr_readLoop_spec [OF r(2), of 1 2 DEFAULT_MAX_SPINS] w(2) unfolding hr_bulkReadBestEffort_def by (auto simp: numeral_2_eq_2)
  have "bpm_allocAll m' = Inl (Assertion ''Can't allocate all from page with reserved subpages'')"
    using res by (simp add: bpm_allocAll_def spa_allocAll_def hasReservedSubpages_def assertO_def)
  then have "np_allocatePages cpu 512 0 ?p' = Inl (Assertion ''Can't allocate all from page with reserved subpages'')"
    using r' mi len by (simp add: np_allocatePages_def flags_has_def divideAndRoundDown_def readFree_def startAlloc_def giveWhole_def)
  moreover have "\<not> bpm_isEmpty m'" using pg_queries(2,3) [OF m'(2)] res by auto
  ultimately show ?thesis using run w(2) mi by (intro exI [of _ ?p']) simp
qed

end
