(* ===== verification/Numa_Topology.thy ===== *)
theory Numa_Topology
  imports Page_Types Sorting
begin

text \<open>
  The NUMA topology of \<open>kernel/mm/NUMA.cpp\<close>: \<open>buildInternal\<close> normalises the firmware's proximity
  domains and fills the lookup tables and distance matrices, the queries read them, and
  \<open>NUMAPolicy\<close> keeps what the allocator needs on its hot path. A matrix is a list of rows; its
  subscript asserts the bounds. The warnings sent to the kernel log are not modelled.
\<close>

section \<open>Types\<close>

type_synonym DomainID = "16 word"
type_synonym ClockDomainID = "16 word"
type_synonym ProcessorID = nat

text \<open>\<open>ProcessorID\<close> is \<open>uint8_t\<close>: the numbers below 256. A conversion from a larger integer drops the upper bits.\<close>

definition toProcessorID :: "nat \<Rightarrow> ProcessorID" where
  "toProcessorID i = i mod 256"

definition noDomain :: DomainID where
  "noDomain = 65535"

datatype MemoryType = Volatile | Nonvolatile
datatype DataQualityLevel = Absolute | Relative | Inferred
datatype DistanceMetric = Latency | Bandwidth | Balanced
datatype AccessDirection = ReadAccess | WriteAccess

definition DISTANCE_NO_DATA :: u64 where
  "DISTANCE_NO_DATA = 18446744073709551614"

record PciSBDF =
  pci_segment :: nat
  pci_bus :: nat
  pci_device :: nat
  pci_function :: nat

datatype DeviceHandle = PciDevice PciSBDF | AcpiDevice u32

record MemoryRegion =
  mreg_range :: phys_memory_range
  mreg_type :: MemoryType

record ProcessorAffinityEntry =
  pae_cpuId :: ProcessorID
  pae_rawDomainId :: u32
  pae_rawClockDomainId :: u32

record MemoryRangeAffinityEntry =
  mae_range :: phys_memory_range
  mae_rawDomainId :: u32
  mae_memType :: MemoryType

record GenericInitiatorEntry =
  gie_device :: DeviceHandle
  gie_rawDomainId :: u32

record LatencyEntry =
  le_rawInitiatorDomainId :: u32
  le_rawTargetDomainId :: u32
  le_readLatency :: u64
  le_writeLatency :: u64
  le_absolute :: bool

record BandwidthEntry =
  be_rawInitiatorDomainId :: u32
  be_rawTargetDomainId :: u32
  be_readBandwidth :: u64
  be_writeBandwidth :: u64

record DomainDistance =
  dd_domainId :: DomainID
  dd_distance :: u64
  dd_quality :: DataQualityLevel

record ProximityDomain =
  pd_id :: DomainID
  pd_processors :: "ProcessorID list"
  pd_memoryRegions :: "MemoryRegion list"
  pd_genericInitiators :: "DeviceHandle list"
  isInitiatorDomain :: bool
  isTargetDomain :: bool
  preferredInitiatorDomain :: DomainID

record ClockDomain =
  cd_id :: ClockDomainID
  cd_cpus :: "ProcessorID list"
  cd_proximityDomains :: "DomainID list"

record DomainCacheInfo =
  cacheForDomain :: DomainID
  cacheLineSizeBytes :: u32
  totalCacheSizeBytes :: u64
  associativity :: nat

record NUMATopology =
  proximityDomains :: "ProximityDomain list"
  clockDomains :: "ClockDomain list"
  cpuToDomain :: "DomainID list"
  cpuToClockDomain :: "ClockDomainID list"
  readLatencyMatrix :: "u64 list list option"
  writeLatencyMatrix :: "u64 list list option"
  readBandwidthMatrix :: "u64 list list option"
  writeBandwidthMatrix :: "u64 list list option"
  cacheInfo :: "DomainCacheInfo option list"
  latencyQuality :: DataQualityLevel
  bandwidthQuality :: DataQualityLevel

definition emptyDomain :: "DomainID \<Rightarrow> ProximityDomain" where
  "emptyDomain d = \<lparr>pd_id = d, pd_processors = [], pd_memoryRegions = [], pd_genericInitiators = [],
     isInitiatorDomain = False, isTargetDomain = False, preferredInitiatorDomain = noDomain\<rparr>"

definition emptyTopology :: NUMATopology where
  "emptyTopology = \<lparr>proximityDomains = [], clockDomains = [], cpuToDomain = [], cpuToClockDomain = [],
     readLatencyMatrix = None, writeLatencyMatrix = None, readBandwidthMatrix = None, writeBandwidthMatrix = None,
     cacheInfo = [], latencyQuality = Inferred, bandwidthQuality = Inferred\<rparr>"

section \<open>Normalising identifiers\<close>

text \<open>
  \<open>NormMap\<close>: the hash map inside is a finite map here; a new identifier is the next number, cut to 16 bits. The hash map
  starts empty and is only inserted into and read, so that it has no tombstones and grows before it is full: the
  assertion of a table without an empty entry, which \<open>Hash_Map\<close> models, is not reached (\<open>hash_map_fill_exact\<close> there).
\<close>

record NormMap =
  nm_map :: "u32 \<rightharpoonup> 16 word"
  nextId :: nat

definition emptyNorm :: NormMap where
  "emptyNorm = \<lparr>nm_map = Map.empty, nextId = 0\<rparr>"

definition norm_get :: "u32 \<Rightarrow> NormMap \<Rightarrow> 16 word \<times> NormMap" where
  "norm_get raw m =
     (case nm_map m raw of
        Some existing \<Rightarrow> (existing, m)
      | None \<Rightarrow> let newId = of_nat (nextId m)
                in (newId, m\<lparr>nm_map := (nm_map m)(raw \<mapsto> newId), nextId := nextId m + 1\<rparr>))"

definition norm_contains :: "u32 \<Rightarrow> NormMap \<Rightarrow> bool" where
  "norm_contains raw m \<longleftrightarrow> nm_map m raw \<noteq> None"

definition norm_all :: "u32 list \<Rightarrow> NormMap \<Rightarrow> NormMap" where
  "norm_all raws m = fold (\<lambda>raw m. snd (norm_get raw m)) raws m"

text \<open>The lookups of the second pass: every identifier is known by then, so that the map stays as it is.\<close>

definition norm_id :: "NormMap \<Rightarrow> u32 \<Rightarrow> 16 word" where
  "norm_id m raw = fst (norm_get raw m)"

section \<open>Building the topology\<close>

definition trivialTopology :: "nat \<Rightarrow> NUMATopology" where
  "trivialTopology totalCpus =
     emptyTopology\<lparr>proximityDomains := [(emptyDomain 0)\<lparr>isInitiatorDomain := True, pd_processors := map toProcessorID [0..<totalCpus]\<rparr>],
       cacheInfo := [None], cpuToDomain := replicate totalCpus 0, cpuToClockDomain := replicate totalCpus 65535\<rparr>"

definition rawDomains :: "ProcessorAffinityEntry list \<Rightarrow> MemoryRangeAffinityEntry list \<Rightarrow> GenericInitiatorEntry list \<Rightarrow>
    LatencyEntry list \<Rightarrow> BandwidthEntry list \<Rightarrow> u32 list" where
  "rawDomains procs mems gens lats bws =
     map pae_rawDomainId procs @ map mae_rawDomainId mems @ map gie_rawDomainId gens @
     concat (map (\<lambda>e. [le_rawInitiatorDomainId e, le_rawTargetDomainId e]) lats) @
     concat (map (\<lambda>e. [be_rawInitiatorDomainId e, be_rawTargetDomainId e]) bws)"

definition maxCpuId :: "ProcessorAffinityEntry list \<Rightarrow> nat" where
  "maxCpuId procs = fold (\<lambda>e m. if m < pae_cpuId e then pae_cpuId e else m) procs 0"

definition upd :: "nat \<Rightarrow> ('a \<Rightarrow> 'a) \<Rightarrow> 'a list \<Rightarrow> 'a list outcome" where
  "upd i f xs = bindO (readAt xs i) (\<lambda>x. Inr (xs[i := f x]))"

text \<open>One processor entry; \<open>seen\<close> is \<open>cpuSeen\<close>, \<open>prox\<close> the hash sets \<open>clockProxSeen\<close>.\<close>

definition addProcessor :: "NormMap \<Rightarrow> NormMap \<Rightarrow> ProcessorAffinityEntry \<Rightarrow> bool list \<times> DomainID set list \<times> NUMATopology \<Rightarrow>
    (bool list \<times> DomainID set list \<times> NUMATopology) outcome" where
  "addProcessor domainMap clockMap e = (\<lambda>(seen, prox, t).
     let cpu = pae_cpuId e; did = norm_id domainMap (pae_rawDomainId e); cid = norm_id clockMap (pae_rawClockDomainId e)
     in bindO (readAt seen cpu) (\<lambda>dup.
        if dup then Inr (seen, prox, t)
        else bindO (upd (unat did) (\<lambda>d. d\<lparr>pd_processors := pd_processors d @ [cpu]\<rparr>) (proximityDomains t)) (\<lambda>ds.
             bindO (upd (unat cid) (\<lambda>c. c\<lparr>cd_cpus := cd_cpus c @ [cpu]\<rparr>) (clockDomains t)) (\<lambda>cs.
             bindO (readAt prox (unat cid)) (\<lambda>known.
             bindO (if did \<in> known then Inr cs
                    else upd (unat cid) (\<lambda>c. c\<lparr>cd_proximityDomains := cd_proximityDomains c @ [did]\<rparr>) cs) (\<lambda>cs'.
             bindO (upd cpu (\<lambda>_. did) (cpuToDomain t)) (\<lambda>cd.
             bindO (upd cpu (\<lambda>_. cid) (cpuToClockDomain t)) (\<lambda>cc.
               Inr (seen[cpu := True], prox[unat cid := insert did known],
                    t\<lparr>proximityDomains := ds, clockDomains := cs', cpuToDomain := cd, cpuToClockDomain := cc\<rparr>)))))))))"

fun foldO :: "('a \<Rightarrow> 'b \<Rightarrow> 'b outcome) \<Rightarrow> 'a list \<Rightarrow> 'b \<Rightarrow> 'b outcome" where
  "foldO f [] s = Inr s"
| "foldO f (x # xs) s = bindO (f x s) (foldO f xs)"

definition addMemory :: "NormMap \<Rightarrow> MemoryRangeAffinityEntry \<Rightarrow> NUMATopology \<Rightarrow> NUMATopology outcome" where
  "addMemory domainMap e t =
     bindO (upd (unat (norm_id domainMap (mae_rawDomainId e)))
              (\<lambda>d. if \<exists>r \<in> set (pd_memoryRegions d). mreg_range r = mae_range e then d
                   else d\<lparr>pd_memoryRegions := pd_memoryRegions d @ [\<lparr>mreg_range = mae_range e, mreg_type = mae_memType e\<rparr>]\<rparr>)
              (proximityDomains t)) (\<lambda>ds. Inr (t\<lparr>proximityDomains := ds\<rparr>))"

definition addInitiator :: "NormMap \<Rightarrow> GenericInitiatorEntry \<Rightarrow> NUMATopology \<Rightarrow> NUMATopology outcome" where
  "addInitiator domainMap e t =
     bindO (upd (unat (norm_id domainMap (gie_rawDomainId e)))
              (\<lambda>d. d\<lparr>pd_genericInitiators := pd_genericInitiators d @ [gie_device e]\<rparr>)
              (proximityDomains t)) (\<lambda>ds. Inr (t\<lparr>proximityDomains := ds\<rparr>))"

definition roleFlags :: "ProximityDomain \<Rightarrow> ProximityDomain" where
  "roleFlags d = d\<lparr>isInitiatorDomain := pd_processors d \<noteq> [] \<or> pd_genericInitiators d \<noteq> [],
     isTargetDomain := pd_memoryRegions d \<noteq> []\<rparr>"

definition preferInitiator :: "ProximityDomain list \<Rightarrow> ProximityDomain list" where
  "preferInitiator ds =
     (case filter isInitiatorDomain ds of
        [sole] \<Rightarrow> map (\<lambda>d. if isTargetDomain d \<and> \<not> isInitiatorDomain d then d\<lparr>preferredInitiatorDomain := pd_id sole\<rparr> else d) ds
      | _ \<Rightarrow> ds)"

text \<open>Processors the firmware has left out go to domain 0.\<close>

definition coverCpu :: "nat \<Rightarrow> NUMATopology \<Rightarrow> NUMATopology outcome" where
  "coverCpu i t =
     bindO (readAt (cpuToDomain t) i) (\<lambda>d.
       if d \<noteq> noDomain then Inr t
       else bindO (upd 0 (\<lambda>d. d\<lparr>pd_processors := pd_processors d @ [toProcessorID i], isInitiatorDomain := True\<rparr>) (proximityDomains t)) (\<lambda>ds.
              Inr (t\<lparr>proximityDomains := ds, cpuToDomain := (cpuToDomain t)[i := 0],
                     cpuToClockDomain := (cpuToClockDomain t)[i := 0]\<rparr>)))"

definition coverCpus :: "nat \<Rightarrow> NUMATopology \<Rightarrow> NUMATopology outcome" where
  "coverCpus totalCpus t =
     (let k = totalCpus - length (cpuToDomain t)
      in foldO coverCpu [0..<totalCpus]
           (t\<lparr>cpuToDomain := cpuToDomain t @ replicate k noDomain, cpuToClockDomain := cpuToClockDomain t @ replicate k 65535\<rparr>))"

section \<open>Distance matrices\<close>

definition matrixAt :: "u64 list list \<Rightarrow> nat \<Rightarrow> nat \<Rightarrow> u64 outcome" where
  "matrixAt m i j =
     (if i < length m \<and> j < length (m ! i) then Inr (m ! i ! j) else Inl (Assertion ''DArray: index out of bounds''))"

definition noDataMatrix :: "nat \<Rightarrow> u64 list list" where
  "noDataMatrix n = replicate n (replicate n DISTANCE_NO_DATA)"

text \<open>One cell: the first value wins, and an entry without a value is skipped.\<close>

definition putCell :: "nat \<Rightarrow> nat \<Rightarrow> u64 \<Rightarrow> u64 list list option \<Rightarrow> u64 list list option outcome" where
  "putCell i j v mo =
     (if v = DISTANCE_NO_DATA then Inr mo
      else case mo of
        None \<Rightarrow> Inl (Undefined ''empty Optional'')
      | Some m \<Rightarrow> bindO (matrixAt m i j) (\<lambda>cell.
          Inr (Some (if cell \<noteq> DISTANCE_NO_DATA then m else m[i := (m ! i)[j := v]]))))"

fun fillMatrix :: "(nat \<times> nat \<times> u64) list \<Rightarrow> u64 list list option \<Rightarrow> u64 list list option outcome" where
  "fillMatrix [] mo = Inr mo"
| "fillMatrix ((i, j, v) # es) mo = bindO (putCell i j v mo) (fillMatrix es)"

text \<open>The matrix of one direction exists only when some entry has a value for it.\<close>

definition buildMatrix :: "nat \<Rightarrow> (nat \<times> nat \<times> u64) list \<Rightarrow> u64 list list option outcome" where
  "buildMatrix n es =
     fillMatrix es (if \<exists>(_, _, v) \<in> set es. v \<noteq> DISTANCE_NO_DATA then Some (noDataMatrix n) else None)"

definition addLatencies :: "NormMap \<Rightarrow> nat \<Rightarrow> LatencyEntry list \<Rightarrow> NUMATopology \<Rightarrow> NUMATopology outcome" where
  "addLatencies domainMap n lats t =
     (if lats = [] then Inr t
      else let useAbsolute = (\<exists>e \<in> set lats. le_absolute e);
               used = filter (\<lambda>e. le_absolute e = useAbsolute) lats;
               cells = (\<lambda>f. map (\<lambda>e. (unat (norm_id domainMap (le_rawInitiatorDomainId e)),
                                      unat (norm_id domainMap (le_rawTargetDomainId e)), f e)) used)
           in bindO (buildMatrix n (cells le_readLatency)) (\<lambda>r.
              bindO (buildMatrix n (cells le_writeLatency)) (\<lambda>w.
                Inr (t\<lparr>readLatencyMatrix := r, writeLatencyMatrix := w,
                       latencyQuality := (if useAbsolute then Absolute else Relative)\<rparr>))))"

definition addBandwidths :: "NormMap \<Rightarrow> nat \<Rightarrow> BandwidthEntry list \<Rightarrow> NUMATopology \<Rightarrow> NUMATopology outcome" where
  "addBandwidths domainMap n bws t =
     (if bws = [] then Inr t
      else let cells = (\<lambda>f. map (\<lambda>e. (unat (norm_id domainMap (be_rawInitiatorDomainId e)),
                                      unat (norm_id domainMap (be_rawTargetDomainId e)), f e)) bws)
           in bindO (buildMatrix n (cells be_readBandwidth)) (\<lambda>r.
              bindO (buildMatrix n (cells be_writeBandwidth)) (\<lambda>w.
                Inr (t\<lparr>readBandwidthMatrix := r, writeBandwidthMatrix := w, bandwidthQuality := Absolute\<rparr>))))"

definition MAX_PROCESSOR_COUNT :: nat where
  "MAX_PROCESSOR_COUNT = 256"

definition buildInternal :: "nat \<Rightarrow> ProcessorAffinityEntry list \<Rightarrow> MemoryRangeAffinityEntry list \<Rightarrow> GenericInitiatorEntry list \<Rightarrow>
    LatencyEntry list \<Rightarrow> BandwidthEntry list \<Rightarrow> NUMATopology outcome" where
  "buildInternal totalCpus procs mems gens lats bws =
     (if procs = [] \<and> mems = [] \<and> gens = [] then Inr (trivialTopology totalCpus)
      else let domainMap = norm_all (rawDomains procs mems gens lats bws) emptyNorm;
               clockMap = norm_all (map pae_rawClockDomainId procs) emptyNorm;
               nDomains = nextId domainMap; nClockDomains = nextId clockMap; cpuTableSize = maxCpuId procs + 1;
               t0 = emptyTopology\<lparr>proximityDomains := map (\<lambda>i. emptyDomain (of_nat i)) [0..<nDomains],
                      clockDomains := map (\<lambda>i. \<lparr>cd_id = of_nat i, cd_cpus = [], cd_proximityDomains = []\<rparr>) [0..<nClockDomains],
                      cpuToDomain := replicate cpuTableSize noDomain, cpuToClockDomain := replicate cpuTableSize 65535\<rparr>
           in bindO (foldO (addProcessor domainMap clockMap) procs
                       (replicate MAX_PROCESSOR_COUNT False, replicate nClockDomains {}, t0)) (\<lambda>(_, _, t1).
              bindO (foldO (addMemory domainMap) mems t1) (\<lambda>t2.
              bindO (foldO (addInitiator domainMap) gens t2) (\<lambda>t3.
              bindO (coverCpus totalCpus
                       (t3\<lparr>proximityDomains := preferInitiator (map roleFlags (proximityDomains t3))\<rparr>)) (\<lambda>t4.
              bindO (addLatencies domainMap nDomains lats t4) (\<lambda>t5.
              bindO (addBandwidths domainMap nDomains bws t5) (\<lambda>t6.
                Inr (t6\<lparr>cacheInfo := replicate nDomains None\<rparr>))))))))"

section \<open>Queries\<close>

definition domainForCpu :: "ProcessorID \<Rightarrow> NUMATopology \<Rightarrow> ProximityDomain outcome" where
  "domainForCpu cpu t =
     bindO (assertO (cpu < length (cpuToDomain t)) ''NUMATopology::domainForCpu: CPU ID out of range'') (\<lambda>_.
       let did = cpuToDomain t ! cpu
       in bindO (assertO (did \<noteq> noDomain) ''NUMATopology::domainForCpu: CPU has no NUMA domain'') (\<lambda>_.
            readAt (proximityDomains t) (unat did)))"

definition domainForAddress :: "phys_addr \<Rightarrow> NUMATopology \<Rightarrow> ProximityDomain option" where
  "domainForAddress a t = find (\<lambda>d. \<exists>r \<in> set (pd_memoryRegions d). rng_contains a (mreg_range r)) (proximityDomains t)"

definition domainForDevice :: "PciSBDF \<Rightarrow> NUMATopology \<Rightarrow> ProximityDomain option" where
  "domainForDevice sbdf t = find (\<lambda>d. PciDevice sbdf \<in> set (pd_genericInitiators d)) (proximityDomains t)"

definition domainAt :: "DomainID \<Rightarrow> NUMATopology \<Rightarrow> ProximityDomain outcome" where
  "domainAt i t =
     bindO (assertO (i \<noteq> noDomain \<and> unat i < length (proximityDomains t)) ''NUMATopology::domain: invalid domain ID'')
       (\<lambda>_. Inr (proximityDomains t ! unat i))"

definition clockDomainForCpu :: "ProcessorID \<Rightarrow> NUMATopology \<Rightarrow> ClockDomain outcome" where
  "clockDomainForCpu cpu t =
     bindO (assertO (cpu < length (cpuToClockDomain t)) ''NUMATopology::clockDomainForCpu: CPU ID out of range'') (\<lambda>_.
       let cid = cpuToClockDomain t ! cpu
       in bindO (assertO (cid \<noteq> 65535) ''NUMATopology::clockDomainForCpu: CPU has no clock domain'') (\<lambda>_.
            readAt (clockDomains t) (unat cid)))"

definition shareClockDomain :: "ProcessorID \<Rightarrow> ProcessorID \<Rightarrow> NUMATopology \<Rightarrow> bool outcome" where
  "shareClockDomain a b t =
     bindO (assertO (a < length (cpuToClockDomain t) \<and> b < length (cpuToClockDomain t))
              ''NUMATopology::shareClockDomain: CPU ID out of range'')
       (\<lambda>_. Inr (cpuToClockDomain t ! a = cpuToClockDomain t ! b))"

definition allMemoryRegions :: "NUMATopology \<Rightarrow> (MemoryRegion \<times> DomainID) list" where
  "allMemoryRegions t = concat (map (\<lambda>d. map (\<lambda>r. (r, pd_id d)) (pd_memoryRegions d)) (proximityDomains t))"

definition bandwidthBefore :: "DomainDistance \<Rightarrow> DomainDistance \<Rightarrow> bool" where
  "bandwidthBefore a b =
     (let aSentinel = DISTANCE_NO_DATA \<le> dd_distance a; bSentinel = DISTANCE_NO_DATA \<le> dd_distance b
      in if aSentinel \<noteq> bSentinel then \<not> aSentinel
         else if aSentinel then dd_distance a < dd_distance b
         else dd_distance b < dd_distance a)"

definition closerThan :: "DomainDistance \<Rightarrow> DomainDistance \<Rightarrow> bool" where
  "closerThan a b \<longleftrightarrow> dd_distance a < dd_distance b"

definition distancesFrom :: "u64 list list \<Rightarrow> nat \<Rightarrow> nat \<Rightarrow> DataQualityLevel \<Rightarrow> DomainDistance list outcome" where
  "distancesFrom m i n q =
     foldO (\<lambda>j acc. bindO (matrixAt m i j) (\<lambda>v.
       Inr (acc @ [\<lparr>dd_domainId = of_nat j, dd_distance = v, dd_quality = q\<rparr>]))) [0..<n] []"

definition domainsOrdered :: "DomainID \<Rightarrow> DistanceMetric \<Rightarrow> NUMATopology \<Rightarrow> DomainDistance list outcome" where
  "domainsOrdered ini metric t =
     (let n = length (proximityDomains t)
      in bindO (assertO (ini \<noteq> noDomain \<and> unat ini < n) ''NUMATopology::domainsOrdered: invalid initiator domain'') (\<lambda>_.
         case (if metric = Latency then None else readBandwidthMatrix t) of
           Some m \<Rightarrow> bindO (distancesFrom m (unat ini) n (bandwidthQuality t)) (\<lambda>ds. sort_array bandwidthBefore ds (length ds))
         | None \<Rightarrow>
             (case readLatencyMatrix t of
                Some m \<Rightarrow> bindO (distancesFrom m (unat ini) n (latencyQuality t)) (\<lambda>ds. sort_array closerThan ds (length ds))
              | None \<Rightarrow> sort_array closerThan
                  (map (\<lambda>j. \<lparr>dd_domainId = of_nat j, dd_distance = (if j = unat ini then 0 else 1), dd_quality = Inferred\<rparr>) [0..<n]) n)))"

definition domainsOrderedByLatency :: "DomainID \<Rightarrow> NUMATopology \<Rightarrow> DomainDistance list outcome" where
  "domainsOrderedByLatency ini t = domainsOrdered ini Latency t"

definition domainsOrderedByBandwidth :: "DomainID \<Rightarrow> NUMATopology \<Rightarrow> DomainDistance list outcome" where
  "domainsOrderedByBandwidth ini t = domainsOrdered ini Bandwidth t"

definition measuredValue :: "u64 list list option \<Rightarrow> DomainID \<Rightarrow> DomainID \<Rightarrow> u64 option outcome" where
  "measuredValue mo a b =
     (case mo of
        None \<Rightarrow> Inr None
      | Some m \<Rightarrow> bindO (matrixAt m (unat a) (unat b)) (\<lambda>v. Inr (if DISTANCE_NO_DATA \<le> v then None else Some v)))"

definition latencyBetween :: "DomainID \<Rightarrow> DomainID \<Rightarrow> AccessDirection \<Rightarrow> NUMATopology \<Rightarrow> u64 option outcome" where
  "latencyBetween a b dir t = measuredValue (if dir = WriteAccess then writeLatencyMatrix t else readLatencyMatrix t) a b"

definition bandwidthBetween :: "DomainID \<Rightarrow> DomainID \<Rightarrow> AccessDirection \<Rightarrow> NUMATopology \<Rightarrow> u64 option outcome" where
  "bandwidthBetween a b dir t = measuredValue (if dir = WriteAccess then writeBandwidthMatrix t else readBandwidthMatrix t) a b"

definition cacheInfoForDomain :: "DomainID \<Rightarrow> NUMATopology \<Rightarrow> DomainCacheInfo option outcome" where
  "cacheInfoForDomain i t =
     bindO (assertO (i \<noteq> noDomain \<and> unat i < length (cacheInfo t)) ''NUMATopology::cacheInfoForDomain: invalid domain ID'')
       (\<lambda>_. Inr (cacheInfo t ! unat i))"

definition isTrivial :: "NUMATopology \<Rightarrow> bool" where
  "isTrivial t \<longleftrightarrow> length (proximityDomains t) \<le> 1"

section \<open>The policy\<close>

text \<open>The flat \<open>fallbackOrder\<close> array, \<open>domainCount\<close> entries for each domain.\<close>

record NUMAPolicy =
  cpuHomeDomain :: "DomainID list"
  cpuClockDomain :: "ClockDomainID list"
  fallbackOrder :: "DomainID list"
  policyDomainCount :: nat
  policyQuality :: DataQualityLevel

definition homeOf :: "NUMATopology \<Rightarrow> nat \<Rightarrow> DomainID \<times> ClockDomainID" where
  "homeOf t i =
     (if i < length (cpuToDomain t) \<and> cpuToDomain t ! i \<noteq> noDomain then (cpuToDomain t ! i, cpuToClockDomain t ! i) else (0, 0))"

definition fallbackRow :: "NUMATopology \<Rightarrow> nat \<Rightarrow> DomainID list outcome" where
  "fallbackRow t i =
     (let n = length (proximityDomains t)
      in bindO (domainsOrdered (of_nat i) Latency t) (\<lambda>ordered.
           Inr (map (\<lambda>j. if j < length ordered then dd_domainId (ordered ! j) else of_nat j) [0..<n])))"

definition mkNUMAPolicy :: "NUMATopology \<Rightarrow> NUMAPolicy outcome" where
  "mkNUMAPolicy t =
     bindO (foldO (\<lambda>i acc. bindO (fallbackRow t i) (\<lambda>row. Inr (acc @ row))) [0..<length (proximityDomains t)] []) (\<lambda>order.
       Inr \<lparr>cpuHomeDomain = map (fst \<circ> homeOf t) [0..<length (cpuToDomain t)],
            cpuClockDomain = map (snd \<circ> homeOf t) [0..<length (cpuToDomain t)], fallbackOrder = order,
            policyDomainCount = length (proximityDomains t), policyQuality = latencyQuality t\<rparr>)"

definition homeDomain :: "ProcessorID \<Rightarrow> NUMAPolicy \<Rightarrow> DomainID outcome" where
  "homeDomain cpu p =
     bindO (assertO (cpu < length (cpuHomeDomain p)) ''NUMAPolicy::homeDomain: CPU ID out of range'') (\<lambda>_. Inr (cpuHomeDomain p ! cpu))"

definition clockDomain :: "ProcessorID \<Rightarrow> NUMAPolicy \<Rightarrow> ClockDomainID outcome" where
  "clockDomain cpu p =
     bindO (assertO (cpu < length (cpuHomeDomain p)) ''NUMAPolicy::clockDomain: CPU ID out of range'') (\<lambda>_. Inr (cpuClockDomain p ! cpu))"

definition domainOrder :: "DomainID \<Rightarrow> NUMAPolicy \<Rightarrow> DomainID list outcome" where
  "domainOrder ini p =
     bindO (assertO (ini \<noteq> noDomain \<and> unat ini < policyDomainCount p) ''NUMAPolicy::domainOrder: invalid domain ID'') (\<lambda>_.
       Inr (take (policyDomainCount p) (drop (unat ini * policyDomainCount p) (fallbackOrder p))))"

definition policyShareClockDomain :: "ProcessorID \<Rightarrow> ProcessorID \<Rightarrow> NUMAPolicy \<Rightarrow> bool outcome" where
  "policyShareClockDomain a b p =
     bindO (assertO (a < length (cpuHomeDomain p) \<and> b < length (cpuHomeDomain p)) ''NUMAPolicy::shareClockDomain: CPU ID out of range'')
       (\<lambda>_. Inr (cpuClockDomain p ! a = cpuClockDomain p ! b))"

end
