(* ===== verification/Numa_Topology_Laws.thy ===== *)
theory Numa_Topology_Laws
  imports Numa_Topology
begin

text \<open>
  The topology is well formed whatever the firmware reports, its orderings list every domain once,
  and the policy answers from tables that agree with it.
\<close>

section \<open>Normalised identifiers\<close>

lemma unat_of_nat_16: "k < 65536 \<Longrightarrow> unat (of_nat k :: 16 word) = k"
  by (simp add: unat_of_nat take_bit_nat_eq_self)

definition norm_ok :: "NormMap \<Rightarrow> bool" where
  "norm_ok m \<longleftrightarrow> bij_betw (\<lambda>r. unat (the (nm_map m r))) (dom (nm_map m)) {..<nextId m}"

lemma norm_ok_empty: "norm_ok emptyNorm" "dom (nm_map emptyNorm) = {}" "nextId emptyNorm = 0"
  by (simp_all add: norm_ok_def emptyNorm_def bij_betw_def)

lemma norm_ok_card: "norm_ok m \<Longrightarrow> nextId m = card (dom (nm_map m))"
  unfolding norm_ok_def using bij_betw_same_card by fastforce

lemma norm_get_spec:
  assumes ok: "norm_ok m" and lt: "nextId m < 65536"
  shows "norm_ok (snd (norm_get r m))" "dom (nm_map (snd (norm_get r m))) = insert r (dom (nm_map m))"
proof -
  let ?m' = "snd (norm_get r m)"
  show d: "dom (nm_map ?m') = insert r (dom (nm_map m))" by (auto simp: norm_get_def Let_def split: option.splits)
  show "norm_ok ?m'"
  proof (cases "nm_map m r")
    case None
    let ?f = "\<lambda>x. unat (the (nm_map m x))" and ?g = "\<lambda>x. unat (the (nm_map ?m' x))"
    have g: "?g x = (if x = r then nextId m else ?f x)" for x
      using None lt by (simp add: norm_get_def Let_def unat_of_nat_16)
    have n: "nextId ?m' = Suc (nextId m)" using None by (simp add: norm_get_def Let_def)
    have "bij_betw ?g (dom (nm_map m)) {..<nextId m}"
      using ok None unfolding norm_ok_def g by (subst bij_betw_cong [of _ _ ?f]) auto
    then have "bij_betw ?g (insert r (dom (nm_map m))) (insert (nextId m) {..<nextId m})"
      using None g [of r] unfolding bij_betw_def inj_on_insert image_insert by (auto simp: domIff)
    then show ?thesis unfolding norm_ok_def d n by (simp add: lessThan_Suc)
  qed (use ok in \<open>simp add: norm_get_def\<close>)
qed

lemma norm_all_spec:
  assumes "norm_ok m" "card (dom (nm_map m) \<union> set rs) \<le> 65536" "finite (dom (nm_map m))"
  shows "norm_ok (norm_all rs m)" "dom (nm_map (norm_all rs m)) = dom (nm_map m) \<union> set rs"
proof -
  have "norm_ok (norm_all rs m) \<and> dom (nm_map (norm_all rs m)) = dom (nm_map m) \<union> set rs"
    using assms
  proof (induction rs arbitrary: m)
    case (Cons r rs)
    show ?case
    proof (cases "r \<in> dom (nm_map m)")
      case True
      then have "norm_all (r # rs) m = norm_all rs m" by (auto simp: norm_all_def norm_get_def)
      then show ?thesis using Cons.IH [of m] Cons.prems True by (auto simp: insert_absorb)
    next
      case False
      have "card (insert r (dom (nm_map m))) \<le> card (dom (nm_map m) \<union> set (r # rs))"
        using Cons.prems(3) by (intro card_mono) auto
      then have lt: "nextId m < 65536" using Cons.prems False norm_ok_card [OF Cons.prems(1)] by simp
      note G = norm_get_spec [OF Cons.prems(1) lt, of r]
      have "norm_all (r # rs) m = norm_all rs (snd (norm_get r m))" by (simp add: norm_all_def)
      moreover have "dom (nm_map (snd (norm_get r m))) \<union> set rs = dom (nm_map m) \<union> set (r # rs)" unfolding G(2) by auto
      ultimately show ?thesis using Cons.IH [OF G(1)] Cons.prems(2,3) G(2) by simp
    qed
  qed (simp add: norm_all_def)
  then show "norm_ok (norm_all rs m)" "dom (nm_map (norm_all rs m)) = dom (nm_map m) \<union> set rs" by blast+
qed

lemma norm_build:
  assumes "card (set rs) \<le> 65536"
  shows "norm_ok (norm_all rs emptyNorm)" "dom (nm_map (norm_all rs emptyNorm)) = set rs"
    "nextId (norm_all rs emptyNorm) = card (set rs)" "r \<in> set rs \<Longrightarrow> unat (norm_id (norm_all rs emptyNorm) r) < card (set rs)"
    "r \<in> set rs \<Longrightarrow> snd (norm_get r (norm_all rs emptyNorm)) = norm_all rs emptyNorm"
proof -
  let ?m = "norm_all rs emptyNorm"
  show ok: "norm_ok ?m" and d: "dom (nm_map ?m) = set rs"
    using norm_all_spec [OF norm_ok_empty(1), of rs] assms norm_ok_empty by simp_all
  show n: "nextId ?m = card (set rs)" using norm_ok_card [OF ok] d by simp
  assume r: "r \<in> set rs"
  then obtain v where v: "nm_map ?m r = Some v" using d by blast
  then show "snd (norm_get r ?m) = ?m" by (simp add: norm_get_def)
  have "unat (the (nm_map ?m r)) \<in> {..<nextId ?m}"
    using ok r d unfolding norm_ok_def bij_betw_def by blast
  then show "unat (norm_id ?m r) < card (set rs)" using v n by (simp add: norm_id_def norm_get_def)
qed

section \<open>The processor tables\<close>

lemma upd_simp [simp]: "i < length xs \<Longrightarrow> upd i f xs = Inr (xs[i := f (xs ! i)])"
  by (simp add: upd_def)

text \<open>
  The list of processors of each domain and the table of domains by processor say the same; a
  processor without an entry has the null domain.
\<close>

definition cpu_map_ok :: "nat \<Rightarrow> NUMATopology \<Rightarrow> bool" where
  "cpu_map_ok n t \<longleftrightarrow> length (proximityDomains t) = n \<and> length (cpuToClockDomain t) = length (cpuToDomain t) \<and>
     (\<forall>d \<in> set (cpuToDomain t). d = noDomain \<or> unat d < n) \<and>
     (\<forall>k < n. pd_id (proximityDomains t ! k) = of_nat k \<and> distinct (pd_processors (proximityDomains t ! k)) \<and>
        (\<forall>c. c \<in> set (pd_processors (proximityDomains t ! k)) \<longleftrightarrow> c < length (cpuToDomain t) \<and> cpuToDomain t ! c = of_nat k))"

text \<open>Giving a processor its domain, as both loops do.\<close>

lemma cpu_map_assign:
  assumes ok: "cpu_map_ok n t" and n: "n \<le> 65535" and c: "c < length (cpuToDomain t)" "cpuToDomain t ! c = noDomain"
    and d: "unat did < n"
    and t': "proximityDomains t' = (proximityDomains t)[unat did := f (proximityDomains t ! unat did)]"
      "pd_processors (f (proximityDomains t ! unat did)) = pd_processors (proximityDomains t ! unat did) @ [c]"
      "pd_id (f (proximityDomains t ! unat did)) = pd_id (proximityDomains t ! unat did)"
      "cpuToDomain t' = (cpuToDomain t)[c := did]" "length (cpuToClockDomain t') = length (cpuToClockDomain t)"
  shows "cpu_map_ok n t'"
proof -
  let ?k = "unat did"
  have P: "pd_id (proximityDomains t ! k) = of_nat k" "distinct (pd_processors (proximityDomains t ! k))"
      "x \<in> set (pd_processors (proximityDomains t ! k)) \<longleftrightarrow> x < length (cpuToDomain t) \<and> cpuToDomain t ! x = of_nat k"
    if "k < n" for k x using ok that by (auto simp: cpu_map_ok_def)
  have no: "noDomain \<noteq> (of_nat k :: 16 word)" if "k < n" for k
    using that n by (simp add: noDomain_def word_unat_eq_iff unat_of_nat_16)
  have dk: "(of_nat k = did) \<longleftrightarrow> k = ?k" if "k < n" for k using that n by (auto simp: unat_of_nat_16)
  have nth: "proximityDomains t' ! k = (if k = ?k then f (proximityDomains t ! ?k) else proximityDomains t ! k)" if "k < n" for k
    using ok that t'(1) by (simp add: cpu_map_ok_def nth_list_update)
  have cd: "cpuToDomain t' ! x = of_nat k \<longleftrightarrow> (if x = c then k = ?k else cpuToDomain t ! x = of_nat k)"
    if "k < n" "x < length (cpuToDomain t)" for k x using dk [OF that(1)] that(2) unfolding t'(4) by (auto simp: nth_list_update)
  have cn: "\<not> (cpuToDomain t ! c = of_nat k)" if "k < n" for k using no [OF that] c(2) by simp
  have mem: "x \<in> set (pd_processors (proximityDomains t' ! k)) \<longleftrightarrow> x < length (cpuToDomain t') \<and> cpuToDomain t' ! x = of_nat k"
    if k: "k < n" for k x
    using nth [OF k] t'(2) P(3) [OF k, of x] cd [OF k, of x] cn [OF k] c(1) t'(4) by (cases "k = ?k"; cases "x = c") simp_all
  have dist: "distinct (pd_processors (proximityDomains t' ! k))" if k: "k < n" for k
    using nth [OF k] t'(2) P(2) [OF k] P(3) [OF k, of c] cn [OF k] by (cases "k = ?k") simp_all
  have ids: "pd_id (proximityDomains t' ! k) = of_nat k" if k: "k < n" for k using nth [OF k] t'(3) P(1) [OF k] by (cases "k = ?k") simp_all
  have "x = noDomain \<or> unat x < n" if "x \<in> set (cpuToDomain t')" for x
    using that d ok set_update_subset_insert [of "cpuToDomain t" c did] unfolding t'(4) cpu_map_ok_def by blast
  then show ?thesis using ok t'(1,4,5) mem dist ids by (simp add: cpu_map_ok_def)
qed

lemma foldO_inv:
  assumes "\<And>x s. x \<in> set xs \<Longrightarrow> I s \<Longrightarrow> \<exists>s'. f x s = Inr s' \<and> I s'" "I s"
  shows "\<exists>s'. foldO f xs s = Inr s' \<and> I s'"
  using assms
proof (induction xs arbitrary: s)
  case (Cons x xs)
  obtain s1 where "f x s = Inr s1" "I s1" using Cons.prems(1) [of x s] Cons.prems(2) by auto
  then show ?case using Cons.IH [of s1] Cons.prems(1) by simp
qed simp

definition no_matrices :: "NUMATopology \<Rightarrow> bool" where
  "no_matrices t \<longleftrightarrow> readLatencyMatrix t = None \<and> writeLatencyMatrix t = None \<and> readBandwidthMatrix t = None \<and>
     writeBandwidthMatrix t = None \<and> latencyQuality t = Inferred \<and> bandwidthQuality t = Inferred"

definition proc_inv :: "nat \<Rightarrow> nat \<Rightarrow> nat \<Rightarrow> bool list \<times> DomainID set list \<times> NUMATopology \<Rightarrow> bool" where
  "proc_inv n nc N = (\<lambda>(seen, prox, t). cpu_map_ok n t \<and> no_matrices t \<and> length seen = 256 \<and> length prox = nc \<and> length (clockDomains t) = nc \<and>
     length (cpuToDomain t) = N \<and> (\<forall>c < N. c < 256 \<longrightarrow> (seen ! c \<longleftrightarrow> cpuToDomain t ! c \<noteq> noDomain)))"

lemma addProcessor_spec:
  assumes inv: "proc_inv n nc N s" and n: "n \<le> 65535" and cpu: "pae_cpuId e < N" "pae_cpuId e < 256"
    and ids: "unat (norm_id dm (pae_rawDomainId e)) < n" "unat (norm_id cm (pae_rawClockDomainId e)) < nc"
  shows "\<exists>s'. addProcessor dm cm e s = Inr s' \<and> proc_inv n nc N s'"
proof -
  obtain seen prox t where s: "s = (seen, prox, t)" by (cases s)
  let ?c = "pae_cpuId e"
  define did where "did = norm_id dm (pae_rawDomainId e)"
  define cid where "cid = norm_id cm (pae_rawClockDomainId e)"
  have I: "cpu_map_ok n t" "no_matrices t" "length seen = 256" "length prox = nc" "length (clockDomains t) = nc" "length (cpuToDomain t) = N"
      "c < N \<Longrightarrow> c < 256 \<Longrightarrow> seen ! c \<longleftrightarrow> cpuToDomain t ! c \<noteq> noDomain" for c
    using inv s by (auto simp: proc_inv_def)
  have L: "length (proximityDomains t) = n" "length (cpuToClockDomain t) = N" using I(1,6) by (simp_all add: cpu_map_ok_def)
  show ?thesis
  proof (cases "seen ! ?c")
    case True
    then show ?thesis using inv s I(3) cpu by (simp add: addProcessor_def)
  next
    case False
    then have free: "cpuToDomain t ! ?c = noDomain" using I(7) cpu by simp
    let ?cs = "(clockDomains t)[unat cid := (clockDomains t ! unat cid)\<lparr>cd_cpus := cd_cpus (clockDomains t ! unat cid) @ [?c]\<rparr>]"
    define cs' where "cs' = (if did \<in> prox ! unat cid then ?cs
      else ?cs[unat cid := (?cs ! unat cid)\<lparr>cd_proximityDomains := cd_proximityDomains (?cs ! unat cid) @ [did]\<rparr>])"
    let ?f = "\<lambda>d :: ProximityDomain. d\<lparr>pd_processors := pd_processors d @ [?c]\<rparr>"
    let ?t = "t\<lparr>proximityDomains := (proximityDomains t)[unat did := ?f (proximityDomains t ! unat did)], clockDomains := cs',
      cpuToDomain := (cpuToDomain t)[?c := did], cpuToClockDomain := (cpuToClockDomain t)[?c := cid]\<rparr>"
    have run: "addProcessor dm cm e s = Inr (seen[?c := True], prox[unat cid := insert did (prox ! unat cid)], ?t)"
      using False s I(3-6) L cpu ids did_def cid_def by (simp add: addProcessor_def Let_def cs'_def)
    have "cpu_map_ok n ?t"
      by (rule cpu_map_assign [OF I(1) n _ free, of did _ ?f]) (use ids cpu I(6) in \<open>simp_all add: did_def\<close>)
    moreover have "did \<noteq> noDomain" using ids n by (auto simp: did_def noDomain_def)
    then have "(seen[?c := True]) ! c \<longleftrightarrow> (cpuToDomain t)[?c := did] ! c \<noteq> noDomain" if "c < N" "c < 256" for c
      using I(3,6,7) that cpu by (cases "c = ?c") simp_all
    moreover have "length cs' = nc" using I(5) by (simp add: cs'_def)
    ultimately have "proc_inv n nc N (seen[?c := True], prox[unat cid := insert did (prox ! unat cid)], ?t)"
      using I(2-6) by (simp add: proc_inv_def no_matrices_def)
    then show ?thesis using run by blast
  qed
qed

text \<open>The later loops change no processor list but that of a processor the firmware left out.\<close>

lemma cpu_map_frame:
  assumes "cpu_map_ok n t" "length ds = n" "\<And>k. k < n \<Longrightarrow> pd_id (ds ! k) = pd_id (proximityDomains t ! k) \<and>
    pd_processors (ds ! k) = pd_processors (proximityDomains t ! k)"
  shows "cpu_map_ok n (t\<lparr>proximityDomains := ds\<rparr>)"
  using assms by (simp add: cpu_map_ok_def)

lemma upd_domain:
  assumes "cpu_map_ok n t" "k < n" "\<And>d. pd_id (f d) = pd_id d \<and> pd_processors (f d) = pd_processors d"
  shows "\<exists>t'. bindO (upd k f (proximityDomains t)) (\<lambda>ds. Inr (t\<lparr>proximityDomains := ds\<rparr>)) = Inr t' \<and> cpu_map_ok n t' \<and>
    cpuToDomain t' = cpuToDomain t \<and> (no_matrices t \<longrightarrow> no_matrices t')"
proof -
  have len: "length (proximityDomains t) = n" using assms(1) by (simp add: cpu_map_ok_def)
  let ?ds = "(proximityDomains t)[k := f (proximityDomains t ! k)]"
  have "pd_id (?ds ! j) = pd_id (proximityDomains t ! j) \<and> pd_processors (?ds ! j) = pd_processors (proximityDomains t ! j)" if "j < n" for j
    using that len assms(3) by (cases "j = k") simp_all
  then have "cpu_map_ok n (t\<lparr>proximityDomains := ?ds\<rparr>)" using cpu_map_frame [OF assms(1)] len by simp
  then show ?thesis using assms(2) len by (auto simp: no_matrices_def)
qed

lemma addMemory_spec:
  assumes "cpu_map_ok n t" "unat (norm_id dm (mae_rawDomainId e)) < n"
  shows "\<exists>t'. addMemory dm e t = Inr t' \<and> cpu_map_ok n t' \<and> cpuToDomain t' = cpuToDomain t \<and> (no_matrices t \<longrightarrow> no_matrices t')"
  unfolding addMemory_def by (rule upd_domain [OF assms]) simp

lemma addInitiator_spec:
  assumes "cpu_map_ok n t" "unat (norm_id dm (gie_rawDomainId e)) < n"
  shows "\<exists>t'. addInitiator dm e t = Inr t' \<and> cpu_map_ok n t' \<and> cpuToDomain t' = cpuToDomain t \<and> (no_matrices t \<longrightarrow> no_matrices t')"
  unfolding addInitiator_def by (rule upd_domain [OF assms]) simp

lemma addMemories_spec:
  assumes "cpu_map_ok n t" "no_matrices t" "\<And>e. e \<in> set mems \<Longrightarrow> unat (norm_id dm (mae_rawDomainId e)) < n"
  shows "\<exists>t'. foldO (addMemory dm) mems t = Inr t' \<and> cpu_map_ok n t' \<and> no_matrices t'"
  using assms
proof (induction mems arbitrary: t)
  case (Cons e mems)
  obtain t1 where "addMemory dm e t = Inr t1" "cpu_map_ok n t1" "no_matrices t1" using addMemory_spec [of n t dm e] Cons.prems by auto
  then show ?case using Cons.IH [of t1] Cons.prems(3) by simp
qed simp

lemma addInitiators_spec:
  assumes "cpu_map_ok n t" "no_matrices t" "\<And>e. e \<in> set gens \<Longrightarrow> unat (norm_id dm (gie_rawDomainId e)) < n"
  shows "\<exists>t'. foldO (addInitiator dm) gens t = Inr t' \<and> cpu_map_ok n t' \<and> no_matrices t'"
  using assms
proof (induction gens arbitrary: t)
  case (Cons e gens)
  obtain t1 where "addInitiator dm e t = Inr t1" "cpu_map_ok n t1" "no_matrices t1" using addInitiator_spec [of n t dm e] Cons.prems by auto
  then show ?case using Cons.IH [of t1] Cons.prems(3) by simp
qed simp

lemma preferInitiator_frame:
  "length (preferInitiator ds) = length ds"
  "k < length ds \<Longrightarrow> pd_id (preferInitiator ds ! k) = pd_id (ds ! k) \<and> pd_processors (preferInitiator ds ! k) = pd_processors (ds ! k)"
  by (auto simp: preferInitiator_def split: list.splits)

lemma toProcessorID_id [simp]: "i < 256 \<Longrightarrow> toProcessorID i = i"
  by (simp add: toProcessorID_def)

lemma toProcessorID_upt: "n \<le> 256 \<Longrightarrow> map toProcessorID [0..<n] = [0..<n]"
  by (rule map_idI) simp

lemma coverCpu_spec:
  assumes ok: "cpu_map_ok n t" and n: "0 < n" "n \<le> 65535" and i: "i < length (cpuToDomain t)" "i < 256"
  shows "\<exists>t'. coverCpu i t = Inr t' \<and> cpu_map_ok n t' \<and> length (cpuToDomain t') = length (cpuToDomain t) \<and>
    cpuToDomain t' ! i \<noteq> noDomain \<and> (\<forall>j. cpuToDomain t ! j \<noteq> noDomain \<longrightarrow> cpuToDomain t' ! j = cpuToDomain t ! j) \<and>
    (no_matrices t \<longrightarrow> no_matrices t')"
proof (cases "cpuToDomain t ! i = noDomain")
  case True
  let ?f = "\<lambda>d :: ProximityDomain. d\<lparr>pd_processors := pd_processors d @ [i], isInitiatorDomain := True\<rparr>"
  let ?t = "t\<lparr>proximityDomains := (proximityDomains t)[0 := ?f (proximityDomains t ! 0)], cpuToDomain := (cpuToDomain t)[i := 0],
    cpuToClockDomain := (cpuToClockDomain t)[i := 0]\<rparr>"
  have "cpu_map_ok n ?t" by (rule cpu_map_assign [OF ok n(2) i(1) True, of 0 _ ?f]) (use n in simp_all)
  moreover have "coverCpu i t = Inr ?t" using True i n(1) ok by (simp add: coverCpu_def cpu_map_ok_def)
  moreover have "(cpuToDomain t)[i := 0] ! j = cpuToDomain t ! j" if "cpuToDomain t ! j \<noteq> noDomain" for j
    using that True by (cases "j = i") simp_all
  ultimately show ?thesis using i by (auto simp: no_matrices_def noDomain_def)
qed (use assms in \<open>simp add: coverCpu_def\<close>)

lemma coverCpus_loop:
  assumes "cpu_map_ok n t" "no_matrices t" "0 < n" "n \<le> 65535" "set is \<subseteq> {..<length (cpuToDomain t)}" "set is \<subseteq> {..<256}"
  shows "\<exists>t'. foldO coverCpu is t = Inr t' \<and> cpu_map_ok n t' \<and> no_matrices t' \<and> length (cpuToDomain t') = length (cpuToDomain t) \<and>
    (\<forall>i \<in> set is. cpuToDomain t' ! i \<noteq> noDomain) \<and> (\<forall>j. cpuToDomain t ! j \<noteq> noDomain \<longrightarrow> cpuToDomain t' ! j = cpuToDomain t ! j)"
  using assms
proof (induction "is" arbitrary: t)
  case (Cons i "is")
  obtain t1 where t1: "coverCpu i t = Inr t1" "cpu_map_ok n t1" "length (cpuToDomain t1) = length (cpuToDomain t)" "cpuToDomain t1 ! i \<noteq> noDomain"
      "\<forall>j. cpuToDomain t ! j \<noteq> noDomain \<longrightarrow> cpuToDomain t1 ! j = cpuToDomain t ! j" "no_matrices t1"
    using coverCpu_spec [OF Cons.prems(1,3,4), of i] Cons.prems(2,5,6) by auto
  obtain t' where t': "foldO coverCpu is t1 = Inr t'" "cpu_map_ok n t'" "no_matrices t'" "length (cpuToDomain t') = length (cpuToDomain t1)"
      "\<forall>i \<in> set is. cpuToDomain t' ! i \<noteq> noDomain" "\<forall>j. cpuToDomain t1 ! j \<noteq> noDomain \<longrightarrow> cpuToDomain t' ! j = cpuToDomain t1 ! j"
    using Cons.IH [OF t1(2,6) Cons.prems(3,4)] t1(3) Cons.prems(5,6) by auto
  show ?case using t1 t' by auto
qed simp

lemma coverCpus_spec:
  assumes ok: "cpu_map_ok n t" "no_matrices t" and n: "0 < n" "n \<le> 65535" and total': "total' \<le> 256"
  shows "\<exists>t'. coverCpus total' t = Inr t' \<and> cpu_map_ok n t' \<and> no_matrices t' \<and> total' \<le> length (cpuToDomain t') \<and>
    (\<forall>i < total'. cpuToDomain t' ! i \<noteq> noDomain) \<and>
    (\<forall>i < length (cpuToDomain t). cpuToDomain t ! i \<noteq> noDomain \<longrightarrow> cpuToDomain t' ! i = cpuToDomain t ! i)"
proof -
  let ?k = "total' - length (cpuToDomain t)"
  let ?t = "t\<lparr>cpuToDomain := cpuToDomain t @ replicate ?k noDomain, cpuToClockDomain := cpuToClockDomain t @ replicate ?k 65535\<rparr>"
  have no: "noDomain \<noteq> (of_nat k :: 16 word)" if "k < n" for k
    using that n by (simp add: noDomain_def word_unat_eq_iff unat_of_nat_16)
  have "cpu_map_ok n ?t"
    using ok(1) no unfolding cpu_map_ok_def by (auto simp: nth_append)
  moreover have "no_matrices ?t" using ok(2) by (simp add: no_matrices_def)
  moreover have "set [0..<total'] \<subseteq> {..<length (cpuToDomain ?t)}" by auto
  moreover have "set [0..<total'] \<subseteq> {..<256}" using total' by auto
  ultimately obtain t' where t': "foldO coverCpu [0..<total'] ?t = Inr t'" "cpu_map_ok n t'" "no_matrices t'"
      "length (cpuToDomain t') = length (cpuToDomain ?t)" "\<forall>i \<in> set [0..<total']. cpuToDomain t' ! i \<noteq> noDomain"
      "\<forall>j. cpuToDomain ?t ! j \<noteq> noDomain \<longrightarrow> cpuToDomain t' ! j = cpuToDomain ?t ! j"
    using coverCpus_loop [of n ?t "[0..<total']"] n by blast
  show ?thesis
  proof (intro exI [of _ t'] conjI)
    show "coverCpus total' t = Inr t'" using t'(1) by (simp add: coverCpus_def Let_def)
    show "\<forall>i < length (cpuToDomain t). cpuToDomain t ! i \<noteq> noDomain \<longrightarrow> cpuToDomain t' ! i = cpuToDomain t ! i"
      using t'(6) by (simp add: nth_append)
  qed (use t' in auto)
qed

section \<open>Distance matrices\<close>

definition mat_ok :: "nat \<Rightarrow> u64 list list \<Rightarrow> bool" where
  "mat_ok n m \<longleftrightarrow> length m = n \<and> (\<forall>i < n. length (m ! i) = n)"

text \<open>The value of a cell: that of the first entry for it that has one.\<close>

definition firstValue :: "(nat \<times> nat \<times> u64) list \<Rightarrow> nat \<Rightarrow> nat \<Rightarrow> u64" where
  "firstValue es i j =
     (case find (\<lambda>(a, b, v). a = i \<and> b = j \<and> v \<noteq> DISTANCE_NO_DATA) es of Some (_, _, v) \<Rightarrow> v | None \<Rightarrow> DISTANCE_NO_DATA)"

lemma fillMatrix_spec:
  assumes "mat_ok n m" "\<forall>(i, j, v) \<in> set es. i < n \<and> j < n"
  shows "\<exists>m'. fillMatrix es (Some m) = Inr (Some m') \<and> mat_ok n m' \<and>
    (\<forall>i < n. \<forall>j < n. m' ! i ! j = (if m ! i ! j \<noteq> DISTANCE_NO_DATA then m ! i ! j else firstValue es i j))"
  using assms
proof (induction es arbitrary: m)
  case (Cons e es)
  obtain i j v where e: "e = (i, j, v)" by (cases e)
  have ij: "i < n" "j < n" using Cons.prems(2) e by auto
  define m1 where "m1 = (if v = DISTANCE_NO_DATA \<or> m ! i ! j \<noteq> DISTANCE_NO_DATA then m else m[i := (m ! i)[j := v]])"
  have run: "fillMatrix (e # es) (Some m) = fillMatrix es (Some m1)"
    using Cons.prems(1) ij by (auto simp: e putCell_def matrixAt_def mat_ok_def m1_def)
  have ok1: "mat_ok n m1" using Cons.prems(1) ij by (auto simp: m1_def mat_ok_def nth_list_update)
  have at1: "m1 ! a ! b = (if a = i \<and> b = j \<and> m ! a ! b = DISTANCE_NO_DATA then v else m ! a ! b)" if "a < n" "b < n" for a b
    using Cons.prems(1) that by (cases "a = i"; cases "b = j") (auto simp: m1_def mat_ok_def nth_list_update)
  obtain m' where m': "fillMatrix es (Some m1) = Inr (Some m')" "mat_ok n m'"
      "\<forall>i < n. \<forall>j < n. m' ! i ! j = (if m1 ! i ! j \<noteq> DISTANCE_NO_DATA then m1 ! i ! j else firstValue es i j)"
    using Cons.IH [OF ok1] Cons.prems(2) by auto
  have "m' ! a ! b = (if m ! a ! b \<noteq> DISTANCE_NO_DATA then m ! a ! b else firstValue (e # es) a b)" if "a < n" "b < n" for a b
    using m'(3) at1 [OF that] that by (auto simp: firstValue_def e)
  then show ?case using run m' by auto
qed (auto simp: firstValue_def)

lemma fillMatrix_none: "\<forall>(i, j, v) \<in> set es. v = DISTANCE_NO_DATA \<Longrightarrow> fillMatrix es mo = Inr mo"
  by (induction es) (auto simp: putCell_def)

lemma buildMatrix_spec:
  assumes "\<forall>(i, j, v) \<in> set es. i < n \<and> j < n"
  shows "(\<forall>(i, j, v) \<in> set es. v = DISTANCE_NO_DATA) \<and> buildMatrix n es = Inr None \<or>
    (\<exists>m. buildMatrix n es = Inr (Some m) \<and> mat_ok n m \<and> (\<forall>i < n. \<forall>j < n. m ! i ! j = firstValue es i j))"
proof (cases "\<exists>(i, j, v) \<in> set es. v \<noteq> DISTANCE_NO_DATA")
  case True
  have "mat_ok n (noDataMatrix n)" by (simp add: mat_ok_def noDataMatrix_def)
  from fillMatrix_spec [OF this assms] obtain m where m: "fillMatrix es (Some (noDataMatrix n)) = Inr (Some m)" "mat_ok n m"
      "\<forall>i < n. \<forall>j < n. m ! i ! j = (if noDataMatrix n ! i ! j \<noteq> DISTANCE_NO_DATA then noDataMatrix n ! i ! j else firstValue es i j)" by blast
  have "\<forall>i < n. \<forall>j < n. m ! i ! j = firstValue es i j" using m(3) by (simp add: noDataMatrix_def)
  then show ?thesis using m(1,2) True by (auto simp: buildMatrix_def)
next
  case False
  then have "\<forall>(i, j, v) \<in> set es. v = DISTANCE_NO_DATA" by auto
  then show ?thesis using fillMatrix_none False by (auto simp: buildMatrix_def)
qed

definition mats_ok :: "nat \<Rightarrow> NUMATopology \<Rightarrow> bool" where
  "mats_ok n t \<longleftrightarrow> (\<forall>mo \<in> {readLatencyMatrix t, writeLatencyMatrix t, readBandwidthMatrix t, writeBandwidthMatrix t}.
     \<forall>m. mo = Some m \<longrightarrow> mat_ok n m)"

lemma buildMatrix_ok:
  assumes "\<forall>(i, j, v) \<in> set es. i < n \<and> j < n"
  shows "\<exists>mo. buildMatrix n es = Inr mo \<and> (\<forall>m. mo = Some m \<longrightarrow> mat_ok n m)"
  using buildMatrix_spec [OF assms] by auto

section \<open>The topology\<close>

definition latCells :: "NormMap \<Rightarrow> LatencyEntry list \<Rightarrow> (LatencyEntry \<Rightarrow> u64) \<Rightarrow> (nat \<times> nat \<times> u64) list" where
  "latCells dm lats f = map (\<lambda>e. (unat (norm_id dm (le_rawInitiatorDomainId e)), unat (norm_id dm (le_rawTargetDomainId e)), f e))
     (filter (\<lambda>e. le_absolute e = (\<exists>e \<in> set lats. le_absolute e)) lats)"

lemma addLatencies_spec:
  assumes "\<forall>e \<in> set lats. unat (norm_id dm (le_rawInitiatorDomainId e)) < n \<and> unat (norm_id dm (le_rawTargetDomainId e)) < n"
  shows "\<exists>r w q. addLatencies dm n lats t = Inr (t\<lparr>readLatencyMatrix := r, writeLatencyMatrix := w, latencyQuality := q\<rparr>) \<and>
    (if lats = [] then r = readLatencyMatrix t \<and> w = writeLatencyMatrix t
     else buildMatrix n (latCells dm lats le_readLatency) = Inr r \<and> buildMatrix n (latCells dm lats le_writeLatency) = Inr w)"
proof (cases "lats = []")
  case True
  then show ?thesis by (intro exI [of _ "readLatencyMatrix t"] exI [of _ "writeLatencyMatrix t"] exI [of _ "latencyQuality t"]) (simp add: addLatencies_def)
next
  case False
  have c: "\<forall>(i, j, v) \<in> set (latCells dm lats f). i < n \<and> j < n" for f using assms by (auto simp: latCells_def)
  obtain r w where "buildMatrix n (latCells dm lats le_readLatency) = Inr r" "buildMatrix n (latCells dm lats le_writeLatency) = Inr w"
    using buildMatrix_ok [OF c] by metis
  then show ?thesis using False by (auto simp: addLatencies_def latCells_def Let_def)
qed

lemma addBandwidths_spec:
  assumes "\<forall>e \<in> set bws. unat (norm_id dm (be_rawInitiatorDomainId e)) < n \<and> unat (norm_id dm (be_rawTargetDomainId e)) < n"
    "\<forall>m. readBandwidthMatrix t = Some m \<longrightarrow> mat_ok n m" "\<forall>m. writeBandwidthMatrix t = Some m \<longrightarrow> mat_ok n m"
  shows "\<exists>r w q. addBandwidths dm n bws t = Inr (t\<lparr>readBandwidthMatrix := r, writeBandwidthMatrix := w, bandwidthQuality := q\<rparr>) \<and>
    (\<forall>m. r = Some m \<longrightarrow> mat_ok n m) \<and> (\<forall>m. w = Some m \<longrightarrow> mat_ok n m)"
proof (cases "bws = []")
  case True
  then show ?thesis using assms(2,3)
    by (intro exI [of _ "readBandwidthMatrix t"] exI [of _ "writeBandwidthMatrix t"] exI [of _ "bandwidthQuality t"]) (simp add: addBandwidths_def)
next
  case False
  define cells where "cells = (\<lambda>f. map (\<lambda>e. (unat (norm_id dm (be_rawInitiatorDomainId e)), unat (norm_id dm (be_rawTargetDomainId e)), f e :: u64)) bws)"
  have c: "\<forall>(i, j, v) \<in> set (cells f). i < n \<and> j < n" for f using assms(1) by (auto simp: cells_def)
  obtain r w where "buildMatrix n (cells be_readBandwidth) = Inr r" "\<forall>m. r = Some m \<longrightarrow> mat_ok n m"
      "buildMatrix n (cells be_writeBandwidth) = Inr w" "\<forall>m. w = Some m \<longrightarrow> mat_ok n m"
    using buildMatrix_ok [OF c] by metis
  then show ?thesis using False by (auto simp: addBandwidths_def cells_def Let_def)
qed

text \<open>What the firmware may report: processor numbers of the architecture and fewer domains than identifiers.\<close>

definition affinity_ok :: "ProcessorAffinityEntry list \<Rightarrow> MemoryRangeAffinityEntry list \<Rightarrow> GenericInitiatorEntry list \<Rightarrow>
    LatencyEntry list \<Rightarrow> BandwidthEntry list \<Rightarrow> bool" where
  "affinity_ok procs mems gens lats bws \<longleftrightarrow> (\<forall>e \<in> set procs. pae_cpuId e < 256) \<and>
     card (set (rawDomains procs mems gens lats bws)) \<le> 65535 \<and> card (set (map pae_rawClockDomainId procs)) \<le> 65535"

definition topo_ok :: "nat \<Rightarrow> NUMATopology \<Rightarrow> bool" where
  "topo_ok n t \<longleftrightarrow> 0 < n \<and> n \<le> 65535 \<and> cpu_map_ok n t \<and> mats_ok n t"

lemma maxCpuId_ge: "e \<in> set procs \<Longrightarrow> pae_cpuId e \<le> maxCpuId procs"
proof -
  have f: "(\<lambda>e m. if m < pae_cpuId e then pae_cpuId e else m) = (\<lambda>e :: ProcessorAffinityEntry. max (pae_cpuId e))"
    by (auto simp: fun_eq_iff max_def)
  have "(m :: nat) \<le> fold (\<lambda>e. max (pae_cpuId e)) ps m \<and> (\<forall>e \<in> set ps. pae_cpuId e \<le> fold (\<lambda>e. max (pae_cpuId e)) ps m)"
    for ps :: "ProcessorAffinityEntry list" and m
    by (induction ps arbitrary: m) (auto dest: max.boundedE intro: order_trans [OF max.cobounded2] order_trans [OF max.cobounded1])
  then show "e \<in> set procs \<Longrightarrow> pae_cpuId e \<le> maxCpuId procs" unfolding maxCpuId_def f by blast
qed

lemma build_tables:
  assumes n: "0 < n" "n \<le> 65535" and cpus: "totalCpus \<le> 256"
    and procs: "\<And>e. e \<in> set procs \<Longrightarrow> pae_cpuId e < N \<and> pae_cpuId e < 256 \<and> unat (norm_id dm (pae_rawDomainId e)) < n \<and>
      unat (norm_id cm (pae_rawClockDomainId e)) < nc"
    and mems: "\<And>e. e \<in> set mems \<Longrightarrow> unat (norm_id dm (mae_rawDomainId e)) < n"
    and gens: "\<And>e. e \<in> set gens \<Longrightarrow> unat (norm_id dm (gie_rawDomainId e)) < n"
  defines "t0 \<equiv> emptyTopology\<lparr>proximityDomains := map (\<lambda>i. emptyDomain (of_nat i)) [0..<n],
    clockDomains := map (\<lambda>i. \<lparr>cd_id = of_nat i, cd_cpus = [], cd_proximityDomains = []\<rparr>) [0..<nc],
    cpuToDomain := replicate N noDomain, cpuToClockDomain := replicate N 65535\<rparr>"
  shows "\<exists>seen prox t1 t2 t3 t4.
    foldO (addProcessor dm cm) procs (replicate MAX_PROCESSOR_COUNT False, replicate nc {}, t0) = Inr (seen, prox, t1) \<and>
    foldO (addMemory dm) mems t1 = Inr t2 \<and> foldO (addInitiator dm) gens t2 = Inr t3 \<and>
    coverCpus totalCpus (t3\<lparr>proximityDomains := preferInitiator (map roleFlags (proximityDomains t3))\<rparr>) = Inr t4 \<and>
    cpu_map_ok n t4 \<and> no_matrices t4 \<and> totalCpus \<le> length (cpuToDomain t4) \<and> (\<forall>i < totalCpus. cpuToDomain t4 ! i \<noteq> noDomain)"
proof -
  have no: "noDomain \<noteq> (of_nat k :: 16 word)" if "k < n" for k
    using that n by (simp add: noDomain_def word_unat_eq_iff unat_of_nat_16)
  have "cpu_map_ok n t0" "no_matrices t0" "length (clockDomains t0) = nc" "cpuToDomain t0 = replicate N noDomain"
    using no by (auto simp: t0_def cpu_map_ok_def emptyDomain_def emptyTopology_def no_matrices_def)
  then have i0: "proc_inv n nc N (replicate MAX_PROCESSOR_COUNT False, replicate nc {}, t0)"
    by (simp add: proc_inv_def MAX_PROCESSOR_COUNT_def)
  have "\<exists>s. foldO (addProcessor dm cm) procs (replicate MAX_PROCESSOR_COUNT False, replicate nc {}, t0) = Inr s \<and> proc_inv n nc N s"
    by (rule foldO_inv [OF addProcessor_spec i0]) (use n procs in auto)
  then obtain seen prox t1 where t1: "foldO (addProcessor dm cm) procs (replicate MAX_PROCESSOR_COUNT False, replicate nc {}, t0) = Inr (seen, prox, t1)"
      "cpu_map_ok n t1" "no_matrices t1" by (auto simp: proc_inv_def)
  obtain t2 where t2: "foldO (addMemory dm) mems t1 = Inr t2" "cpu_map_ok n t2" "no_matrices t2"
    using addMemories_spec [OF t1(2,3) mems] by blast
  obtain t3 where t3: "foldO (addInitiator dm) gens t2 = Inr t3" "cpu_map_ok n t3" "no_matrices t3"
    using addInitiators_spec [OF t2(2,3) gens] by blast
  let ?t3 = "t3\<lparr>proximityDomains := preferInitiator (map roleFlags (proximityDomains t3))\<rparr>"
  have l3: "length (proximityDomains t3) = n" using t3(2) by (simp add: cpu_map_ok_def)
  have "cpu_map_ok n ?t3"
    by (rule cpu_map_frame [OF t3(2)]) (use l3 preferInitiator_frame in \<open>simp_all add: roleFlags_def\<close>)
  moreover have "no_matrices ?t3" using t3(3) by (simp add: no_matrices_def)
  ultimately obtain t4 where "coverCpus totalCpus ?t3 = Inr t4" "cpu_map_ok n t4" "no_matrices t4" "totalCpus \<le> length (cpuToDomain t4)"
      "\<forall>i < totalCpus. cpuToDomain t4 ! i \<noteq> noDomain" using coverCpus_spec [OF _ _ n cpus] by blast
  then show ?thesis using t1(1) t2(1) t3(1) by blast
qed

lemma buildInternal_spec:
  assumes ok: "affinity_ok procs mems gens lats bws" and ne: "\<not> (procs = [] \<and> mems = [] \<and> gens = [])"
    and cpus: "totalCpus \<le> 256"
  defines "dm \<equiv> norm_all (rawDomains procs mems gens lats bws) emptyNorm"
  shows "\<exists>t. buildInternal totalCpus procs mems gens lats bws = Inr t \<and> topo_ok (nextId dm) t \<and> totalCpus \<le> length (cpuToDomain t) \<and>
    (\<forall>i < totalCpus. cpuToDomain t ! i \<noteq> noDomain) \<and>
    (if lats = [] then readLatencyMatrix t = None else buildMatrix (nextId dm) (latCells dm lats le_readLatency) = Inr (readLatencyMatrix t))"
proof -
  let ?rs = "rawDomains procs mems gens lats bws" and ?cs = "map pae_rawClockDomainId procs"
  define cm where "cm = norm_all ?cs emptyNorm"
  have c: "card (set ?rs) \<le> 65536" "card (set ?cs) \<le> 65536" using ok by (simp_all add: affinity_ok_def)
  note D = norm_build [OF c(1), folded dm_def] and C = norm_build [OF c(2), folded cm_def]
  define n where "n = nextId dm"
  define nc where "nc = nextId cm"
  define N where "N = maxCpuId procs + 1"
  have "set ?rs \<noteq> {}" using ne by (auto simp: rawDomains_def)
  then have "0 < card (set ?rs)" by (simp add: card_gt_0_iff)
  then have n: "0 < n" "n \<le> 65535" using D(3) ok by (simp_all add: n_def affinity_ok_def)
  have did: "unat (norm_id dm r) < n" if "r \<in> set ?rs" for r using D(3,4) that by (simp add: n_def)
  have cid: "unat (norm_id cm r) < nc" if "r \<in> set ?cs" for r using C(3,4) that by (simp add: nc_def)
  have procs: "pae_cpuId e < N \<and> pae_cpuId e < 256 \<and> unat (norm_id dm (pae_rawDomainId e)) < n \<and>
      unat (norm_id cm (pae_rawClockDomainId e)) < nc" if "e \<in> set procs" for e
    using maxCpuId_ge [OF that] ok did cid that by (auto simp: N_def affinity_ok_def rawDomains_def)
  have ids: "e \<in> set mems \<Longrightarrow> unat (norm_id dm (mae_rawDomainId e)) < n" "g \<in> set gens \<Longrightarrow> unat (norm_id dm (gie_rawDomainId g)) < n" for e g
    using did by (simp_all add: rawDomains_def)
  note T = build_tables [OF n cpus procs ids, of procs mems gens]
  then obtain seen prox t1 t2 t3 t4 where t: "foldO (addProcessor dm cm) procs (replicate MAX_PROCESSOR_COUNT False, replicate nc {},
        emptyTopology\<lparr>proximityDomains := map (\<lambda>i. emptyDomain (of_nat i)) [0..<n],
          clockDomains := map (\<lambda>i. \<lparr>cd_id = of_nat i, cd_cpus = [], cd_proximityDomains = []\<rparr>) [0..<nc],
          cpuToDomain := replicate N noDomain, cpuToClockDomain := replicate N 65535\<rparr>) = Inr (seen, prox, t1)"
      "foldO (addMemory dm) mems t1 = Inr t2" "foldO (addInitiator dm) gens t2 = Inr t3"
      "coverCpus totalCpus (t3\<lparr>proximityDomains := preferInitiator (map roleFlags (proximityDomains t3))\<rparr>) = Inr t4"
      "cpu_map_ok n t4" "no_matrices t4" "totalCpus \<le> length (cpuToDomain t4)" "\<forall>i < totalCpus. cpuToDomain t4 ! i \<noteq> noDomain" by blast
  have lat: "\<forall>e \<in> set lats. unat (norm_id dm (le_rawInitiatorDomainId e)) < n \<and> unat (norm_id dm (le_rawTargetDomainId e)) < n"
    and bw: "\<forall>e \<in> set bws. unat (norm_id dm (be_rawInitiatorDomainId e)) < n \<and> unat (norm_id dm (be_rawTargetDomainId e)) < n"
    using did by (auto simp: rawDomains_def)
  obtain r w q where 5: "addLatencies dm n lats t4 = Inr (t4\<lparr>readLatencyMatrix := r, writeLatencyMatrix := w, latencyQuality := q\<rparr>)"
      "if lats = [] then r = readLatencyMatrix t4 \<and> w = writeLatencyMatrix t4
       else buildMatrix n (latCells dm lats le_readLatency) = Inr r \<and> buildMatrix n (latCells dm lats le_writeLatency) = Inr w"
    using addLatencies_spec [OF lat] by blast
  have lc: "\<forall>(i, j, v) \<in> set (latCells dm lats f). i < n \<and> j < n" for f using lat by (auto simp: latCells_def)
  have mk: "\<forall>m. r = Some m \<longrightarrow> mat_ok n m" "\<forall>m. w = Some m \<longrightarrow> mat_ok n m"
    using 5(2) t(6) buildMatrix_ok [OF lc [of le_readLatency]] buildMatrix_ok [OF lc [of le_writeLatency]]
    by (auto simp: no_matrices_def split: if_splits)
  let ?t5 = "t4\<lparr>readLatencyMatrix := r, writeLatencyMatrix := w, latencyQuality := q\<rparr>"
  obtain r' w' q' where 6: "addBandwidths dm n bws ?t5 = Inr (?t5\<lparr>readBandwidthMatrix := r', writeBandwidthMatrix := w', bandwidthQuality := q'\<rparr>)"
      "\<forall>m. r' = Some m \<longrightarrow> mat_ok n m" "\<forall>m. w' = Some m \<longrightarrow> mat_ok n m"
    using addBandwidths_spec [OF bw, of ?t5] t(6) by (auto simp: no_matrices_def)
  let ?t = "?t5\<lparr>readBandwidthMatrix := r', writeBandwidthMatrix := w', bandwidthQuality := q', cacheInfo := replicate n None\<rparr>"
  have run: "buildInternal totalCpus procs mems gens lats bws = Inr ?t"
    unfolding buildInternal_def Let_def dm_def [symmetric] cm_def [symmetric] n_def [symmetric] nc_def [symmetric] N_def [symmetric]
      if_not_P [OF ne] t(1) using t(2-4) 5(1) 6(1) by simp
  have "topo_ok n ?t" using n t(5) mk 6(2,3) by (simp add: topo_ok_def cpu_map_ok_def mats_ok_def)
  then show ?thesis using run t(6-8) 5(2) by (auto simp: n_def no_matrices_def)
qed

section \<open>Orderings\<close>

lemma distancesFrom_spec:
  assumes "mat_ok n m" "i < n"
  shows "distancesFrom m i n q = Inr (map (\<lambda>j. \<lparr>dd_domainId = of_nat j, dd_distance = m ! i ! j, dd_quality = q\<rparr>) [0..<n])"
proof -
  let ?f = "\<lambda>j acc. bindO (matrixAt m i j) (\<lambda>v. Inr (acc @ [\<lparr>dd_domainId = of_nat j, dd_distance = v, dd_quality = q\<rparr>]))"
  have "set js \<subseteq> {..<n} \<Longrightarrow> foldO ?f js acc = Inr (acc @ map (\<lambda>j. \<lparr>dd_domainId = of_nat j, dd_distance = m ! i ! j, dd_quality = q\<rparr>) js)" for js acc
    using assms by (induction js arbitrary: acc) (auto simp: matrixAt_def mat_ok_def)
  from this [of "[0..<n]" "[]"] show ?thesis by (simp add: distancesFrom_def atLeast0LessThan)
qed

lemma weak_order_closerThan: "weak_order closerThan"
  unfolding closerThan_def by (rule weak_order_key)

lemma weak_order_bandwidthBefore: "weak_order bandwidthBefore"
  by unfold_locales (auto simp: bandwidthBefore_def Let_def split: if_splits)

lemma sort_distances:
  assumes "weak_order cmp" "length ds = n" "0 < n" "n \<le> 65535" "map dd_domainId ds = map of_nat [0..<n]"
  shows "\<exists>ds'. sort_array cmp ds n = Inr ds' \<and> mset ds' = mset ds \<and> sorted_wrt (\<lambda>a b. \<not> cmp b a) ds' \<and>
    mset (map dd_domainId ds') = mset (map of_nat [0..<n])"
proof -
  have "ds \<noteq> []" "length ds < 2 ^ 64" using assms by auto
  obtain ds' where ds': "sort_array cmp ds (length ds) = Inr ds'" "rearr 0 (length ds) ds ds'" "sortedRange cmp 0 (length ds) ds'"
    using weak_order.sort_array_correct [OF assms(1), of "length ds" ds] \<open>ds \<noteq> []\<close> \<open>length ds < 2 ^ 64\<close> by auto
  have len: "length ds' = length ds" using ds'(2) by (rule rearr_length)
  have ms: "mset ds' = mset ds" using rearr_segment_mset [OF ds'(2)] len by (simp add: segment_def)
  have "sorted_wrt (\<lambda>a b. \<not> cmp b a) ds'" using ds'(3) len by (auto simp: sorted_wrt_iff_nth_less sortedRange_def)
  moreover have "mset (map dd_domainId ds') = mset (map of_nat [0..<n])" using ms assms(5) by (metis mset_map)
  ultimately show ?thesis using ds'(1) ms assms(2) by auto
qed

definition metricOrder :: "DistanceMetric \<Rightarrow> NUMATopology \<Rightarrow> DomainDistance \<Rightarrow> DomainDistance \<Rightarrow> bool" where
  "metricOrder metric t = (if metric \<noteq> Latency \<and> readBandwidthMatrix t \<noteq> None then bandwidthBefore else closerThan)"

text \<open>The distances a metric uses, with the fallbacks.\<close>

definition distanceRow :: "DomainID \<Rightarrow> DistanceMetric \<Rightarrow> NUMATopology \<Rightarrow> DomainDistance list" where
  "distanceRow ini metric t =
     (let n = length (proximityDomains t);
          row = (\<lambda>v q. map (\<lambda>j. \<lparr>dd_domainId = of_nat j, dd_distance = v j, dd_quality = q\<rparr>) [0..<n])
      in case (if metric = Latency then None else readBandwidthMatrix t) of
           Some m \<Rightarrow> row (\<lambda>j. m ! unat ini ! j) (bandwidthQuality t)
         | None \<Rightarrow> (case readLatencyMatrix t of
             Some m \<Rightarrow> row (\<lambda>j. m ! unat ini ! j) (latencyQuality t)
           | None \<Rightarrow> row (\<lambda>j. if j = unat ini then 0 else 1) Inferred))"

lemma domainsOrdered_spec:
  assumes ok: "topo_ok n t" and i: "unat ini < n"
  shows "\<exists>ds. domainsOrdered ini metric t = Inr ds \<and> mset ds = mset (distanceRow ini metric t) \<and>
    sorted_wrt (\<lambda>a b. \<not> metricOrder metric t b a) ds \<and> mset (map dd_domainId ds) = mset (map of_nat [0..<n])"
proof -
  have n: "0 < n" "n \<le> 65535" "length (proximityDomains t) = n" using ok by (simp_all add: topo_ok_def cpu_map_ok_def)
  have M: "readLatencyMatrix t = Some m \<Longrightarrow> mat_ok n m" "readBandwidthMatrix t = Some m \<Longrightarrow> mat_ok n m" for m
    using ok by (simp_all add: topo_ok_def mats_ok_def)
  have "ini \<noteq> noDomain" using i n(2) by (auto simp: noDomain_def)
  then have run: "domainsOrdered ini metric t = sort_array (metricOrder metric t) (distanceRow ini metric t) n"
    using i n(3) M distancesFrom_spec [of n _ "unat ini"]
    by (auto simp: domainsOrdered_def distanceRow_def metricOrder_def Let_def split: option.splits)
  have "map dd_domainId (distanceRow ini metric t) = map of_nat [0..<n]" "length (distanceRow ini metric t) = n"
    using n(3) by (auto simp: distanceRow_def Let_def comp_def split: option.splits)
  moreover have "weak_order (metricOrder metric t)" using weak_order_closerThan weak_order_bandwidthBefore by (simp add: metricOrder_def)
  ultimately show ?thesis unfolding run using sort_distances [OF _ _ n(1,2)] by blast
qed

section \<open>The policy\<close>

lemma concat_block:
  assumes "\<And>r. r \<in> set rows \<Longrightarrow> length r = n" "k < length rows"
  shows "take n (drop (k * n) (concat rows)) = rows ! k"
  using assms
proof (induction rows arbitrary: k)
  case (Cons r rows)
  then show ?case by (cases k) auto
qed simp

lemma fold_rows:
  assumes "\<And>i. i \<in> set is \<Longrightarrow> f i = Inr (g i)"
  shows "foldO (\<lambda>i acc. bindO (f i) (\<lambda>row. Inr (acc @ row))) is acc = Inr (acc @ concat (map g is))"
  using assms by (induction "is" arbitrary: acc) simp_all

lemma mkNUMAPolicy_spec:
  assumes ok: "topo_ok n t"
  shows "\<exists>p. mkNUMAPolicy t = Inr p \<and> policyDomainCount p = n \<and> length (cpuHomeDomain p) = length (cpuToDomain t) \<and>
    (\<forall>d. unat d < n \<longrightarrow> (\<exists>ds. domainsOrdered d Latency t = Inr ds \<and> domainOrder d p = Inr (map dd_domainId ds))) \<and>
    (\<forall>c < length (cpuToDomain t). homeDomain c p = Inr (if cpuToDomain t ! c = noDomain then 0 else cpuToDomain t ! c))"
proof -
  have n: "0 < n" "n \<le> 65535" "length (proximityDomains t) = n" using ok by (simp_all add: topo_ok_def cpu_map_ok_def)
  define g where "g = (\<lambda>i. SOME row. fallbackRow t i = Inr row)"
  have row: "\<exists>ds. domainsOrdered (of_nat i) Latency t = Inr ds \<and> fallbackRow t i = Inr (map dd_domainId ds) \<and> length ds = n" if "i < n" for i
  proof -
    have u: "unat (of_nat i :: 16 word) < n" using that n(2) by (simp add: unat_of_nat_16)
    obtain ds where ds: "domainsOrdered (of_nat i) Latency t = Inr ds" "mset (map dd_domainId ds) = mset (map of_nat [0..<n])"
      using domainsOrdered_spec [OF ok u, of Latency] by blast
    have len: "length ds = n" using arg_cong [OF ds(2), of size] by simp
    have "map (\<lambda>j. if j < n then dd_domainId (ds ! j) else of_nat j) [0..<n] = map dd_domainId ds"
      using len by (intro nth_equalityI) simp_all
    then show ?thesis using ds(1) len n(3) by (simp add: fallbackRow_def)
  qed
  have g: "fallbackRow t i = Inr (g i)" "length (g i) = n" if "i < n" for i
    using row [OF that] unfolding g_def by auto
  let ?p = "\<lparr>cpuHomeDomain = map (fst \<circ> homeOf t) [0..<length (cpuToDomain t)],
    cpuClockDomain = map (snd \<circ> homeOf t) [0..<length (cpuToDomain t)], fallbackOrder = concat (map g [0..<n]),
    policyDomainCount = n, policyQuality = latencyQuality t\<rparr>"
  have mk: "mkNUMAPolicy t = Inr ?p" using fold_rows [of "[0..<n]" "fallbackRow t" g "[]"] g(1) n(3) by (simp add: mkNUMAPolicy_def)
  have "\<exists>ds. domainsOrdered d Latency t = Inr ds \<and> domainOrder d ?p = Inr (map dd_domainId ds)" if d: "unat d < n" for d
  proof -
    obtain ds where ds: "domainsOrdered d Latency t = Inr ds" "fallbackRow t (unat d) = Inr (map dd_domainId ds)" using row [OF d] by auto
    have "take n (drop (unat d * n) (concat (map g [0..<n]))) = g (unat d)"
    proof -
      have "\<And>r. r \<in> set (map g [0..<n]) \<Longrightarrow> length r = n" using g(2) by auto
      then show ?thesis using concat_block [of "map g [0..<n]" n "unat d"] d by simp
    qed
    moreover have "d \<noteq> noDomain" using d n(2) by (auto simp: noDomain_def)
    ultimately show ?thesis using ds g(1) [OF d] d by (auto simp: domainOrder_def)
  qed
  moreover have "homeDomain c ?p = Inr (if cpuToDomain t ! c = noDomain then 0 else cpuToDomain t ! c)" if "c < length (cpuToDomain t)" for c
    using that by (simp add: homeDomain_def homeOf_def)
  ultimately show ?thesis using mk by (intro exI [of _ ?p]) simp
qed

section \<open>Properties\<close>

text \<open>
  C30: whatever affinity entries the firmware reports (duplicates, processors or domains it leaves out), as long as
  they name at most 65535 different domains and clock domains, and on a machine of at most 256 processors, the bound
  \<open>MAX_PROCESSOR_COUNT\<close> of the processor numbers, \<open>buildInternal\<close> ends without a fault in a well-formed topology: domain
  \<open>k\<close> carries the identifier \<open>k\<close>, every processor is in the list of exactly the domain its table entry names and in it
  once, every processor of the machine has a domain, and all distance matrices are square.
\<close>

theorem topology_well_formed:
  assumes "affinity_ok procs mems gens lats bws" "totalCpus \<le> 256"
  shows "\<exists>t n. buildInternal totalCpus procs mems gens lats bws = Inr t \<and> length (proximityDomains t) = n \<and> 0 < n \<and> mats_ok n t \<and>
    (\<forall>k < n. pd_id (proximityDomains t ! k) = of_nat k \<and> distinct (pd_processors (proximityDomains t ! k))) \<and>
    (\<forall>c < length (cpuToDomain t). \<forall>k < n. c \<in> set (pd_processors (proximityDomains t ! k)) \<longleftrightarrow> cpuToDomain t ! c = of_nat k) \<and>
    (\<forall>c < totalCpus. \<exists>d. domainForCpu c t = Inr d \<and> d \<in> set (proximityDomains t) \<and> c \<in> set (pd_processors d))"
proof -
  have "\<exists>t n. buildInternal totalCpus procs mems gens lats bws = Inr t \<and> topo_ok n t \<and> totalCpus \<le> length (cpuToDomain t) \<and>
      (\<forall>i < totalCpus. cpuToDomain t ! i \<noteq> noDomain)"
  proof (cases "procs = [] \<and> mems = [] \<and> gens = []")
    case True
    let ?t = "trivialTopology totalCpus"
    have "topo_ok 1 ?t" using assms(2)
      by (auto simp: topo_ok_def cpu_map_ok_def mats_ok_def trivialTopology_def emptyTopology_def emptyDomain_def noDomain_def toProcessorID_upt)
    then show ?thesis using True by (intro exI [of _ ?t] exI [of _ 1]) (simp add: buildInternal_def trivialTopology_def emptyTopology_def noDomain_def)
  next
    case False
    then show ?thesis using buildInternal_spec [OF assms(1) False assms(2)] by blast
  qed
  then obtain t n where t: "buildInternal totalCpus procs mems gens lats bws = Inr t" "topo_ok n t" "totalCpus \<le> length (cpuToDomain t)"
      "\<forall>i < totalCpus. cpuToDomain t ! i \<noteq> noDomain" by blast
  have n: "0 < n" "length (proximityDomains t) = n" "mats_ok n t" "cpu_map_ok n t" using t(2) by (simp_all add: topo_ok_def cpu_map_ok_def)
  have "\<exists>d. domainForCpu c t = Inr d \<and> d \<in> set (proximityDomains t) \<and> c \<in> set (pd_processors d)" if c: "c < totalCpus" for c
  proof -
    have "unat (cpuToDomain t ! c) < n" using n(4) t(3,4) c unfolding cpu_map_ok_def by (metis less_le_trans nth_mem)
    then show ?thesis using n(2,4) t(3,4) c by (intro exI [of _ "proximityDomains t ! unat (cpuToDomain t ! c)"])
        (simp add: domainForCpu_def cpu_map_ok_def)
  qed
  then show ?thesis using t(1) n by (intro exI [of _ t] exI [of _ n]) (simp add: cpu_map_ok_def)
qed

theorem topology_well_formed_witness:
  "\<exists>t. buildInternal 3 [\<lparr>pae_cpuId = 0, pae_rawDomainId = 7, pae_rawClockDomainId = 0\<rparr>, \<lparr>pae_cpuId = 1, pae_rawDomainId = 9, pae_rawClockDomainId = 0\<rparr>]
       [\<lparr>mae_range = \<lparr>rng_start = 0, rng_end = 4096\<rparr>, mae_rawDomainId = 7, mae_memType = Volatile\<rparr>] [] [] [] = Inr t \<and>
     (\<exists>d. domainForCpu 2 t = Inr d \<and> 2 \<in> set (pd_processors d))"
proof -
  let ?ps = "[\<lparr>pae_cpuId = 0, pae_rawDomainId = 7, pae_rawClockDomainId = 0\<rparr>, \<lparr>pae_cpuId = 1, pae_rawDomainId = 9, pae_rawClockDomainId = 0\<rparr>] :: ProcessorAffinityEntry list"
  let ?ms = "[\<lparr>mae_range = \<lparr>rng_start = 0, rng_end = 4096\<rparr>, mae_rawDomainId = 7, mae_memType = Volatile\<rparr>] :: MemoryRangeAffinityEntry list"
  have "affinity_ok ?ps ?ms [] [] []" by (simp add: affinity_ok_def rawDomains_def card_insert_if)
  then obtain t n where "buildInternal 3 ?ps ?ms [] [] [] = Inr t"
      "\<forall>c < 3. \<exists>d. domainForCpu c t = Inr d \<and> d \<in> set (proximityDomains t) \<and> c \<in> set (pd_processors d)"
    using topology_well_formed [of ?ps ?ms "[]" "[]" "[]" 3] by auto
  moreover have "(2 :: nat) < 3" by simp
  ultimately show ?thesis by blast
qed

text \<open>
  the bound on the processors is needed: on a larger machine without affinity data the conversion to \<open>ProcessorID\<close>
  wraps, and processor 0 is listed twice.
\<close>

lemma processor_numbers_wrap:
  assumes "256 < totalCpus"
  shows "\<exists>t. buildInternal totalCpus [] [] [] lats bws = Inr t \<and> \<not> distinct (pd_processors (proximityDomains t ! 0))"
proof -
  have "map toProcessorID [0..<totalCpus] ! 0 = map toProcessorID [0..<totalCpus] ! 256" using assms by (simp add: toProcessorID_def)
  then have "\<not> distinct (map toProcessorID [0..<totalCpus])" using assms by (subst distinct_conv_nth) (force intro!: exI [of _ 0] exI [of _ 256])
  then show ?thesis by (simp add: buildInternal_def trivialTopology_def emptyTopology_def emptyDomain_def)
qed

text \<open>
  \<open>domainsOrdered\<close> returns every domain exactly once, sorted by the metric: by bandwidth, highest
  first with missing and unreachable values last, when bandwidth was asked for and is known; else
  by read latency, lowest first; else the initiator's own domain before all others.
\<close>

lemma domains_ordered_complete:
  assumes "topo_ok n t" and "unat ini < n"
  shows "\<exists>ds. domainsOrdered ini metric t = Inr ds \<and> mset ds = mset (distanceRow ini metric t) \<and>
    sorted_wrt (\<lambda>a b. \<not> metricOrder metric t b a) ds \<and> mset (map dd_domainId ds) = mset (map of_nat [0..<n])"
  by (rule domainsOrdered_spec [OF assms])

text \<open>
  the policy derived from a well-formed topology is that topology, tabulated: it is built without
  a fault, its fallback order of every domain is the topology's latency ordering, and every
  processor's home domain is the topology's, or domain 0 for a processor without one.
\<close>

lemma policy_tabulates_topology:
  assumes "topo_ok n t"
  shows "\<exists>p. mkNUMAPolicy t = Inr p \<and>
    (\<forall>d. unat d < n \<longrightarrow> (\<exists>ds. domainsOrdered d Latency t = Inr ds \<and> domainOrder d p = Inr (map dd_domainId ds))) \<and>
    (\<forall>c < length (cpuToDomain t). homeDomain c p = Inr (if cpuToDomain t ! c = noDomain then 0 else cpuToDomain t ! c))"
  using mkNUMAPolicy_spec [OF assms] by blast

end
