(* ===== verification/Local_Pool.thy ===== *)
theory Local_Pool
  imports Numa_Pool_Laws Numa_Topology_Laws
begin

text \<open>
  \<open>LocalPool\<close> of \<open>kernel/mm/PageAllocator.cpp\<close>: the up to two partially allocated big pages a processor
  keeps for itself. The pools of the machine are a list; a pointer to a \<open>NUMAPool\<close> is its position
  and a pointer to a \<open>BigPageMetadata\<close> is the pair of its pool and its index there.
\<close>

type_synonym PagePtr = "nat \<times> nat"

record LocalPool =
  paPage1 :: "PagePtr option"
  paPage2 :: "PagePtr option"
  lp_topology :: "NUMATopology option"
  homePool :: "nat option"
  lp_pid :: ProcessorID

definition mkLocalPool :: "NUMATopology option \<Rightarrow> nat option \<Rightarrow> ProcessorID \<Rightarrow> LocalPool" where
  "mkLocalPool topo hp proc_id = \<lparr>paPage1 = None, paPage2 = None, lp_topology = topo, homePool = hp, lp_pid = proc_id\<rparr>"

section \<open>Page metadata through pointers\<close>

definition pageMeta :: "PagePtr \<Rightarrow> NUMAPool list \<Rightarrow> BigPageMetadata outcome" where
  "pageMeta ptr ps = (case ptr of (k, i) \<Rightarrow> bindO (readAt ps k) (\<lambda>p. readAt (bigPageMetadataBuffer p) i))"

definition putMeta :: "PagePtr \<Rightarrow> BigPageMetadata \<Rightarrow> NUMAPool list \<Rightarrow> NUMAPool list" where
  "putMeta ptr m ps = (case ptr of (k, i) \<Rightarrow> ps[k := setMeta i m (ps ! k)])"

definition returnPtr :: "PagePtr \<Rightarrow> bool \<Rightarrow> NUMAPool list \<Rightarrow> NUMAPool list outcome" where
  "returnPtr ptr evictedAsFull ps =
     (case ptr of (k, i) \<Rightarrow> bindO (readAt ps k) (\<lambda>p. bindO (bpm_returnPage i evictedAsFull p) (\<lambda>p'. Inr (ps[k := p']))))"

definition holdPtr :: "ProcessorID \<Rightarrow> PagePtr \<Rightarrow> NUMAPool list \<Rightarrow> NUMAPool list outcome" where
  "holdPtr pid ptr ps =
     bindO (pageMeta ptr ps) (\<lambda>m. bindO (markAllocHolder pid m) (\<lambda>m'. Inr (putMeta ptr m' ps)))"

section \<open>Allocation from the cached pages\<close>

record lp_locals =
  lo_pools :: "NUMAPool list"
  lo_count :: nat
  lo_allocated :: nat
  lo_out :: "PageRef list"

definition allocFromPAPage :: "nat \<Rightarrow> LocalPool \<Rightarrow> PagePtr \<Rightarrow> lp_locals \<Rightarrow> (lp_locals \<times> bool) outcome" where
  "allocFromPAPage cpu lp ptr st =
     bindO (pageMeta ptr (lo_pools st)) (\<lambda>m.
       if bpm_isEmpty m \<and> \<not> (paPage2 lp = None \<and> homePool lp = Some (ownerPool m)) then
         bindO (returnPtr ptr False (lo_pools st)) (\<lambda>ps. Inr (st\<lparr>lo_pools := ps\<rparr>, True))
       else
         bindO (bpm_allocatePages cpu (lo_count st) noTransition m) (\<lambda>(m', refs, transition).
           let st1 = st\<lparr>lo_pools := putMeta ptr m' (lo_pools st), lo_count := sub_size (lo_count st) (length refs),
                        lo_allocated := lo_allocated st + length refs, lo_out := lo_out st @ refs\<rparr>
           in if becameFull transition then
                bindO (returnPtr ptr True (lo_pools st1)) (\<lambda>ps. Inr (st1\<lparr>lo_pools := ps\<rparr>, True))
              else Inr (st1, False)))"

definition lp_allocatePages :: "nat \<Rightarrow> nat \<Rightarrow> AllocFlags \<Rightarrow> LocalPool \<Rightarrow> NUMAPool list \<Rightarrow> (LocalPool \<times> lp_locals) outcome" where
  "lp_allocatePages cpu n flags lp ps =
     (let st = \<lparr>lo_pools = ps, lo_count = n, lo_allocated = 0, lo_out = []\<rparr>
      in if flags_has flags BIG_PAGE_ONLY then Inr (lp, st)
         else bindO (case paPage1 lp of
                       None \<Rightarrow> Inr (lp, st)
                     | Some ptr \<Rightarrow> bindO (allocFromPAPage cpu lp ptr st) (\<lambda>(st1, gone).
                         Inr (if gone then lp\<lparr>paPage1 := paPage2 lp, paPage2 := None\<rparr> else lp, st1))) (\<lambda>(lp1, st1).
              if lo_count st1 = 0 then Inr (lp1, st1)
              else case paPage1 lp1 of
                     None \<Rightarrow> Inr (lp1, st1)
                   | Some ptr \<Rightarrow> bindO (allocFromPAPage cpu lp1 ptr st1) (\<lambda>(st2, gone).
                       Inr (if gone then lp1\<lparr>paPage1 := None\<rparr> else lp1, st2))))"

section \<open>Taking over a page\<close>

definition distanceTo :: "NUMATopology \<Rightarrow> DomainID \<Rightarrow> PagePtr \<Rightarrow> NUMAPool list \<Rightarrow> u64 outcome" where
  "distanceTo t cpuDomain ptr ps =
     bindO (pageMeta ptr ps) (\<lambda>m. bindO (readAt ps (ownerPool m)) (\<lambda>p.
       bindO (latencyBetween cpuDomain (of_nat (associatedDomain p)) ReadAccess t) (\<lambda>lat.
         Inr (case lat of Some v \<Rightarrow> v | None \<Rightarrow> - 1))))"

text \<open>With one page cached, or two of which the second gives way: closest first.\<close>

definition insertPage :: "LocalPool \<Rightarrow> PagePtr \<Rightarrow> u64 \<Rightarrow> u64 \<Rightarrow> LocalPool" where
  "insertPage lp ptr dNew d1 =
     (if dNew \<le> d1 then lp\<lparr>paPage2 := paPage1 lp, paPage1 := Some ptr\<rparr> else lp\<lparr>paPage2 := Some ptr\<rparr>)"

definition givePlain :: "PagePtr \<Rightarrow> LocalPool \<Rightarrow> NUMAPool list \<Rightarrow> (LocalPool \<times> NUMAPool list) outcome" where
  "givePlain ptr lp ps =
     (if paPage1 lp = None then bindO (holdPtr (lp_pid lp) ptr ps) (\<lambda>ps'. Inr (lp\<lparr>paPage1 := Some ptr\<rparr>, ps'))
      else if paPage2 lp = None then bindO (holdPtr (lp_pid lp) ptr ps) (\<lambda>ps'. Inr (lp\<lparr>paPage2 := Some ptr\<rparr>, ps'))
      else bindO (returnPtr ptr False ps) (\<lambda>ps'. Inr (lp, ps')))"

definition giveByDistance :: "NUMATopology \<Rightarrow> PagePtr \<Rightarrow> LocalPool \<Rightarrow> NUMAPool list \<Rightarrow> (LocalPool \<times> NUMAPool list) outcome" where
  "giveByDistance t ptr lp ps =
     bindO (domainForCpu (lp_pid lp) t) (\<lambda>d. let cpuDomain = pd_id d in
     bindO (distanceTo t cpuDomain ptr ps) (\<lambda>dNew.
       case paPage1 lp of
         None \<Rightarrow> bindO (holdPtr (lp_pid lp) ptr ps) (\<lambda>ps'. Inr (lp\<lparr>paPage1 := Some ptr\<rparr>, ps'))
       | Some q1 \<Rightarrow>
           (case paPage2 lp of
              None \<Rightarrow> bindO (holdPtr (lp_pid lp) ptr ps) (\<lambda>ps'.
                        bindO (distanceTo t cpuDomain q1 ps') (\<lambda>d1. Inr (insertPage lp ptr dNew d1, ps')))
            | Some q2 \<Rightarrow>
                bindO (distanceTo t cpuDomain q2 ps) (\<lambda>d2.
                  if d2 \<le> dNew then bindO (returnPtr ptr False ps) (\<lambda>ps'. Inr (lp, ps'))
                  else bindO (holdPtr (lp_pid lp) ptr ps) (\<lambda>ps1.
                       bindO (distanceTo t cpuDomain q1 ps1) (\<lambda>d1.
                       bindO (returnPtr q2 False ps1) (\<lambda>ps2. Inr (insertPage lp ptr dNew d1, ps2))))))))"

definition releasesHeld :: "LocalPool \<Rightarrow> BigPageMetadata \<Rightarrow> NUMAPool list \<Rightarrow> bool outcome" where
  "releasesHeld lp m ps =
     (case paPage1 lp of
        None \<Rightarrow> Inr False
      | Some q1 \<Rightarrow> bindO (pageMeta q1 ps) (\<lambda>m1.
          Inr (bpm_isEmpty m1 \<and> paPage2 lp = None \<and> homePool lp = Some (ownerPool m1) \<and> homePool lp = Some (ownerPool m))))"

definition tryGivePAPage :: "PagePtr \<Rightarrow> LocalPool \<Rightarrow> NUMAPool list \<Rightarrow> (LocalPool \<times> NUMAPool list) outcome" where
  "tryGivePAPage ptr lp ps =
     bindO (pageMeta ptr ps) (\<lambda>m.
       if bpm_isEmpty m then bindO (returnPtr ptr False ps) (\<lambda>ps'. Inr (lp, ps'))
       else bindO (releasesHeld lp m ps) (\<lambda>rel.
         if rel then
           bindO (returnPtr (the (paPage1 lp)) False ps) (\<lambda>ps1.
             bindO (holdPtr (lp_pid lp) ptr ps1) (\<lambda>ps2. Inr (lp\<lparr>paPage1 := Some ptr\<rparr>, ps2)))
         else case lp_topology lp of
             None \<Rightarrow> givePlain ptr lp ps
           | Some t \<Rightarrow> giveByDistance t ptr lp ps))"

section \<open>The pools of the machine\<close>

text \<open>
  \<open>H\<close> are the pages detached from their pools, \<open>L k\<close> the live slots of pool \<open>k\<close>. No two pools have a big page
  in common.
\<close>

definition heldIn :: "PagePtr set \<Rightarrow> nat \<Rightarrow> nat set" where
  "heldIn H k = {i. (k, i) \<in> H}"

abbreviation ptrMeta :: "NUMAPool list \<Rightarrow> PagePtr \<Rightarrow> BigPageMetadata" where
  "ptrMeta ps q \<equiv> metaAt (ps ! fst q) (snd q)"

definition world :: "(nat \<Rightarrow> nat) \<Rightarrow> PagePtr set \<Rightarrow> (nat \<Rightarrow> nat \<Rightarrow> nat set) \<Rightarrow> (nat \<Rightarrow> nat set) \<Rightarrow> NUMAPool list \<Rightarrow> bool" where
  "world c H L S ps \<longleftrightarrow> (\<forall>k < length ps. pool_inv (c k) (heldIn H k) (L k) (S k) (ps ! k) \<and>
       (\<forall>i < bigPageCount (ps ! k). ownerPool (metaAt (ps ! k) i) = k)) \<and>
     (\<forall>k < length ps. \<forall>k' < length ps. k \<noteq> k' \<longrightarrow>
       (\<forall>i < bigPageCount (ps ! k). \<forall>i' < bigPageCount (ps ! k'). bpm_base (metaAt (ps ! k) i) \<noteq> bpm_base (metaAt (ps ! k') i'))) \<and>
     (\<forall>q \<in> H. fst q < length ps)"

definition liveAll :: "(nat \<Rightarrow> nat \<Rightarrow> nat set) \<Rightarrow> NUMAPool list \<Rightarrow> nat set" where
  "liveAll L ps = (\<Union>k < length ps. pagesOf (ps ! k) (L k))"

definition availAll :: "NUMAPool list \<Rightarrow> nat set" where
  "availAll ps = (\<Union>k < length ps. pagesOf (ps ! k) (np_avail (ps ! k)))"

text \<open>Pages handed out: available before, live after, each named once.\<close>

definition same_pools :: "NUMAPool list \<Rightarrow> NUMAPool list \<Rightarrow> bool" where
  "same_pools ps ps' \<longleftrightarrow> length ps' = length ps \<and> (\<forall>k < length ps. same_frame (ps ! k) (ps' ! k))"

definition took :: "NUMAPool list \<Rightarrow> (nat \<Rightarrow> nat \<Rightarrow> nat set) \<Rightarrow> PageRef list \<Rightarrow> NUMAPool list \<Rightarrow> (nat \<Rightarrow> nat \<Rightarrow> nat set) \<Rightarrow> bool" where
  "took ps L out ps' L' \<longleftrightarrow> same_pools ps ps' \<and> covered out \<subseteq> availAll ps \<and> availAll ps' = availAll ps - covered out \<and>
     liveAll L' ps' = liveAll L ps \<union> covered out \<and> totalPages out = card (covered out)"

lemma worldD:
  assumes "world c H L S ps" "k < length ps"
  shows "pool_inv (c k) (heldIn H k) (L k) (S k) (ps ! k)" "i < bigPageCount (ps ! k) \<Longrightarrow> ownerPool (metaAt (ps ! k) i) = k"
    "k' < length ps \<Longrightarrow> k \<noteq> k' \<Longrightarrow> i < bigPageCount (ps ! k) \<Longrightarrow> i' < bigPageCount (ps ! k') \<Longrightarrow>
       bpm_base (metaAt (ps ! k) i) \<noteq> bpm_base (metaAt (ps ! k') i')"
  using assms by (auto simp: world_def)

lemma same_pools_refl: "same_pools ps ps"
  by (simp add: same_pools_def)

lemma same_pools_trans: "same_pools ps qs \<Longrightarrow> same_pools qs rs \<Longrightarrow> same_pools ps rs"
  unfolding same_pools_def using same_frame_trans by auto

lemma took_refl: "took ps L [] ps L"
  by (simp add: took_def same_pools_refl)

lemma took_trans:
  assumes "took ps L a qs M" "took qs M b rs N"
  shows "took ps L (a @ b) rs N"
proof -
  have d: "covered a \<inter> covered b = {}" using assms by (auto simp: took_def)
  have "card (covered (a @ b)) = card (covered a) + card (covered b)"
    using card_Un_disjoint [OF finite_covered finite_covered d] by (simp add: covered_append)
  then show ?thesis using assms same_pools_trans [of ps qs rs] by (auto simp: took_def covered_append)
qed

section \<open>A step of one pool\<close>

lemma world_upd:
  assumes w: "world c H L S ps" and k: "k < length ps" and p': "pool_inv (c k) (heldIn H' k) Lk Sk p'" "same_frame (ps ! k) p'"
    and H': "\<And>j. j \<noteq> k \<Longrightarrow> heldIn H' j = heldIn H j" "\<forall>q \<in> H'. fst q < length ps"
  shows "world c H' (L(k := Lk)) (S(k := Sk)) (ps[k := p'])"
proof -
  have F: "bigPageCount p' = bigPageCount (ps ! k)"
    "i < bigPageCount (ps ! k) \<Longrightarrow> bpm_base (metaAt p' i) = bpm_base (metaAt (ps ! k) i) \<and> ownerPool (metaAt p' i) = ownerPool (metaAt (ps ! k) i)" for i
    using p'(2) by (auto simp: same_frame_def)
  show ?thesis unfolding world_def
    using worldD [OF w] p'(1) H' k F by (auto simp: nth_list_update)
qed

lemma pools_disjoint:
  assumes w: "world c H L S ps" and k: "k < length ps" "j < length ps" "k \<noteq> j"
    and X: "\<And>i. i < bigPageCount (ps ! k) \<Longrightarrow> X i \<subseteq> {..<512}" "\<And>i. i < bigPageCount (ps ! j) \<Longrightarrow> Y i \<subseteq> {..<512}"
  shows "pagesOf (ps ! k) X \<inter> pagesOf (ps ! j) Y = {}"
proof -
  { fix i i' s s' assume *: "i < bigPageCount (ps ! k)" "i' < bigPageCount (ps ! j)" "s \<in> X i" "s' \<in> Y i'"
      "pg_first (metaAt (ps ! k) i) + s = pg_first (metaAt (ps ! j) i') + s'"
    have "2097152 dvd unat (bpm_base (metaAt (ps ! k) i))" "2097152 dvd unat (bpm_base (metaAt (ps ! j) i'))"
      using pg_invD(3) [OF pool_pages(2) [OF worldD(1) [OF w k(1)] *(1)]] pg_invD(3) [OF pool_pages(2) [OF worldD(1) [OF w k(2)] *(2)]] by simp_all
    from page_slots_disjoint [OF this _ _ *(5)] have False using X *(1-4) worldD(3) [OF w k(1,2,3) *(1,2)] by blast }
  then show ?thesis by (auto simp: in_pagesOf)
qed

lemma avail_slots:
  assumes "world c H L S ps" "k < length ps" "i < bigPageCount (ps ! k)"
  shows "np_avail (ps ! k) i \<subseteq> {..<512}" "L k i \<subseteq> {..<512}"
  using pg_invD(4,5) [OF pool_pages(2) [OF worldD(1) [OF assms(1,2)] assms(3)]] by blast+

lemma UN_split: "k < (n :: nat) \<Longrightarrow> (\<Union>j < n. f j) = f k \<union> (\<Union>j \<in> {..<n} - {k}. f j)"
  by auto

lemma took_upd:
  assumes w: "world c H L S ps" and k: "k < length ps" and p': "pages_ok Lk p'" and g: "granted (ps ! k) (L k) p' Lk out"
  shows "took ps L out (ps[k := p']) (L(k := Lk))"
proof -
  let ?n = "length ps" and ?p = "ps ! k"
  have fr: "same_frame ?p p'" and tot: "totalPages out = card (covered out)" using g by (simp_all add: granted_def)
  have ok: "pages_ok (L k) ?p" using worldD(1) [OF w k] by (simp add: pool_inv_def)
  note G = granted_sets [OF g ok p']
  have P: "pagesOf p' X = pagesOf ?p X" for X using pagesOf_frame [OF fr] .
  have live: "liveAll (L(k := Lk)) (ps[k := p']) = pagesOf ?p Lk \<union> (\<Union>j \<in> {..<?n} - {k}. pagesOf (ps ! j) (L j))"
    "liveAll L ps = pagesOf ?p (L k) \<union> (\<Union>j \<in> {..<?n} - {k}. pagesOf (ps ! j) (L j))"
    unfolding liveAll_def length_list_update UN_split [OF k] using k P by simp_all
  have av: "availAll (ps[k := p']) = pagesOf ?p (np_avail p') \<union> (\<Union>j \<in> {..<?n} - {k}. pagesOf (ps ! j) (np_avail (ps ! j)))"
    "availAll ps = pagesOf ?p (np_avail ?p) \<union> (\<Union>j \<in> {..<?n} - {k}. pagesOf (ps ! j) (np_avail (ps ! j)))"
    unfolding availAll_def length_list_update UN_split [OF k] using k P by simp_all
  have "covered out \<inter> (\<Union>j \<in> {..<?n} - {k}. pagesOf (ps ! j) (np_avail (ps ! j))) = {}"
  proof -
    have "pagesOf ?p (np_avail ?p) \<inter> pagesOf (ps ! j) (np_avail (ps ! j)) = {}" if "j < ?n" "j \<noteq> k" for j
      by (rule pools_disjoint [OF w k]) (use that avail_slots(1) [OF w] k in auto)
    then show ?thesis using G(1) by blast
  qed
  moreover have "same_pools ps (ps[k := p'])" using fr k by (simp add: same_pools_def nth_list_update)
  moreover have "a' = a - out \<Longrightarrow> out \<inter> R = {} \<Longrightarrow> a' \<union> R = a \<union> R - out" for a a' R and out :: "nat set" by blast
  moreover have "a' = a \<union> out \<Longrightarrow> a' \<union> R = a \<union> R \<union> out" for a a' R and out :: "nat set" by blast
  ultimately show ?thesis unfolding took_def live av using G tot by (simp add: le_supI1)
qed

section \<open>What the pointer operations do\<close>

lemma heldIn_insert: "heldIn (insert (k, i) H) k = insert i (heldIn H k)" "j \<noteq> k \<Longrightarrow> heldIn (insert (k, i) H) j = heldIn H j"
  "i \<in> heldIn H k \<longleftrightarrow> (k, i) \<in> H"
  by (auto simp: heldIn_def)

lemma world_page:
  assumes "world c H L S ps" "q \<in> H"
  shows "fst q < length ps" "snd q < bigPageCount (ps ! fst q)" "snd q < length (bigPageMetadataBuffer (ps ! fst q))"
    "pageMeta q ps = Inr (ptrMeta ps q)" "pg_inv (ptrMeta ps q) (L (fst q) (snd q))" "ownerPool (ptrMeta ps q) = fst q"
proof -
  show f: "fst q < length ps" using assms by (auto simp: world_def)
  note I = worldD(1) [OF assms(1) f]
  show n: "snd q < bigPageCount (ps ! fst q)" using pool_routes(7) [OF I] assms(2) heldIn_insert(3) [of "snd q" H "fst q"] by auto
  then show l: "snd q < length (bigPageMetadataBuffer (ps ! fst q))" using pool_pages(1) [OF I] by simp
  show "pageMeta q ps = Inr (ptrMeta ps q)" using f l by (simp add: pageMeta_def case_prod_beta)
  show "pg_inv (ptrMeta ps q) (L (fst q) (snd q))" using pool_pages(2) [OF I n] .
  show "ownerPool (ptrMeta ps q) = fst q" using worldD(2) [OF assms(1) f n] .
qed

text \<open>All pages but \<open>q\<close> are as before.\<close>

definition others_kept :: "PagePtr \<Rightarrow> NUMAPool list \<Rightarrow> NUMAPool list \<Rightarrow> bool" where
  "others_kept q ps ps' \<longleftrightarrow> (\<forall>r. fst r < length ps \<longrightarrow> r \<noteq> q \<longrightarrow> ptrMeta ps' r = ptrMeta ps r)"

lemma others_kept_upd:
  assumes "\<forall>j. j \<noteq> i \<longrightarrow> metaAt p' j = metaAt (ps ! k) j" "k < length ps"
  shows "others_kept (k, i) ps (ps[k := p'])"
  unfolding others_kept_def
proof (intro allI impI)
  fix r assume r: "fst r < length ps" "r \<noteq> (k, i)"
  show "ptrMeta (ps[k := p']) r = ptrMeta ps r"
  proof (cases "fst r = k")
    case True
    then have "snd r \<noteq> i" using r(2) by (metis prod.collapse)
    then show ?thesis using assms True by simp
  qed simp
qed

lemma returnPtr_spec:
  assumes w: "world c (insert q H) L S ps" and q: "q \<notin> H" and ev: "ev \<longrightarrow> pg_avail (ptrMeta ps q) = {}"
  shows "\<exists>ps' S'. returnPtr q ev ps = Inr ps' \<and> world c H L S' ps' \<and> took ps L [] ps' L \<and> others_kept q ps ps'"
proof -
  obtain k i where ki: "q = (k, i)" by (cases q)
  note W = world_page [OF w insertI1] and Q = ki [simp]
  have k: "k < length ps" using W(1) by simp
  have i: "pool_inv (c k) (insert i (heldIn H k)) (L k) (S k) (ps ! k)" "i \<notin> heldIn H k"
    using worldD(1) [OF w k] q by (simp_all add: heldIn_insert)
  have "ev \<longrightarrow> np_avail (ps ! k) i = {}" using ev by simp
  from returnPage_spec [OF i this] obtain p' Sk where p': "bpm_returnPage i ev (ps ! k) = Inr p'" "pool_inv (c k) (heldIn H k) (L k) Sk p'"
      "same_frame (ps ! k) p'" "\<forall>j. np_avail p' j = np_avail (ps ! k) j" "\<forall>j. j \<noteq> i \<longrightarrow> metaAt p' j = metaAt (ps ! k) j"
    by blast
  have H: "\<And>j. j \<noteq> k \<Longrightarrow> heldIn H j = heldIn (insert q H) j" "\<forall>q \<in> H. fst q < length ps"
    using w by (auto simp: heldIn_def world_def)
  have "world c H (L(k := L k)) (S(k := Sk)) (ps[k := p'])" by (rule world_upd [OF w k p'(2,3) H])
  moreover have "took ps L [] (ps[k := p']) (L(k := L k))"
    by (rule took_upd [OF w k]) (use p' in \<open>simp_all add: pool_inv_def granted_def pagesOf_def\<close>)
  moreover have "returnPtr q ev ps = Inr (ps[k := p'])" using k p'(1) by (simp add: returnPtr_def)
  ultimately show ?thesis using others_kept_upd [OF p'(5) k] by auto
qed

lemma holdPtr_spec:
  assumes w: "world c H L S ps" and q: "q \<in> H" and free: "allocHolder (ptrMeta ps q) = SIZE_MAX"
  shows "\<exists>ps'. holdPtr pid q ps = Inr ps' \<and> world c H L S ps' \<and> took ps L [] ps' L \<and> others_kept q ps ps' \<and>
    allocHolder (ptrMeta ps' q) = pid \<and> pg_avail (ptrMeta ps' q) = pg_avail (ptrMeta ps q)"
proof -
  obtain k i where ki: "q = (k, i)" by (cases q)
  note W = world_page [OF w q] and Q = ki [simp]
  have k: "k < length ps" and len: "i < length (bigPageMetadataBuffer (ps ! k))" using W(1,3) by simp_all
  let ?p' = "hold i pid (ps ! k)"
  note F = hold_frame [OF len]
  have inv: "pool_inv (c k) (heldIn H k) (L k) (S k) ?p'"
    using hold_inv [OF worldD(1) [OF w k]] q by (simp add: heldIn_insert(3))
  have fr: "same_frame (ps ! k) ?p'" using F by (simp add: same_frame_def)
  have "world c H (L(k := L k)) (S(k := S k)) (ps[k := ?p'])"
    by (rule world_upd [OF w k inv fr]) (use w in \<open>auto simp: world_def\<close>)
  moreover have "took ps L [] (ps[k := ?p']) (L(k := L k))"
    by (rule took_upd [OF w k]) (use inv fr F in \<open>simp_all add: pool_inv_def granted_def pagesOf_def\<close>)
  moreover have "holdPtr pid q ps = Inr (ps[k := ?p'])"
    using W(4) pg_holder_spec(3) [OF W(5) free] by (simp add: holdPtr_def putMeta_def hold_def)
  moreover have "others_kept q ps (ps[k := ?p'])" using others_kept_upd [of i ?p' ps k] F(1) k by simp
  ultimately show ?thesis using F k by (intro exI [of _ "ps[k := ?p']"]) simp
qed

lemma allocPtr_spec:
  assumes w: "world c H L S ps" and q: "q \<in> H" "allocHolder (ptrMeta ps q) = cpu" "cpu \<noteq> SIZE_MAX" "pg_avail (ptrMeta ps q) \<noteq> {}"
    and n: "0 < n"
  shows "\<exists>m' refs t L'. bpm_allocatePages cpu n t0 (ptrMeta ps q) = Inr (m', refs, t) \<and> world c H L' S (putMeta q m' ps) \<and>
    took ps L refs (putMeta q m' ps) L' \<and> others_kept q ps (putMeta q m' ps) \<and> ptrMeta (putMeta q m' ps) q = m' \<and>
    totalPages refs = length refs \<and> length refs \<le> n \<and> allocHolder m' = cpu \<and>
    (becameFull t \<longleftrightarrow> pg_avail m' = {}) \<and> (pg_avail m' \<noteq> {} \<longrightarrow> length refs = n)"
proof -
  obtain k i where ki: "q = (k, i)" by (cases q)
  note W = world_page [OF w q(1)] and Q = ki [simp]
  let ?m = "metaAt (ps ! k) i" and ?s = "subpageAllocator (metaAt (ps ! k) i)"
  have k: "k < length ps" and len: "i < length (bigPageMetadataBuffer (ps ! k))" and iN: "i < bigPageCount (ps ! k)" using W(1-3) by simp_all
  have pi: "pg_inv ?m (L k i)" using W(5) by simp
  note D = pg_invD [OF pi] and inv = worldD(1) [OF w k]
  have av: "pg_avail ?m \<noteq> {}" "allocHolder ?m = cpu" using q by simp_all
  obtain m' xs t where A: "bpm_allocatePages cpu n t0 ?m = Inr (m', map (\<lambda>j. fromPageIndex j ?s) xs, t)" "pg_inv m' (L k i \<union> set xs)"
      "distinct xs" "set xs \<subseteq> pg_avail ?m" "pg_avail m' = pg_avail ?m - set xs" "length xs = min n (card (pg_avail ?m))"
      "becameFull t \<longleftrightarrow> pg_avail m' = {}" "bpm_base m' = bpm_base ?m" "ownerPool m' = ownerPool ?m" "allocHolder m' = cpu"
    using pg_alloc_spec [OF pi av(2) q(3) n av(1), of t0] by blast
  let ?rs = "map (\<lambda>j. fromPageIndex j ?s) xs" and ?p' = "setMeta i m' (ps ! k)" and ?L = "(L k)(i := L k i \<union> set xs)"
  have b: "2097152 dvd unat (spa_base ?s)" using D(3) by (simp add: bpm_base_def)
  have "set xs \<subseteq> {..<512}" using A(4) D(5) by blast
  note R = slot_refs [OF b this]
  have inv': "pool_inv (c k) (heldIn H k) ?L (S k) ?p'"
    by (rule update_detached [OF inv _ A(2,8)]) (use q(1) in \<open>simp add: heldIn_insert(3)\<close>)
  have g: "granted (ps ! k) (L k) ?p' ?L ([] @ ?rs)"
    by (rule granted_step [OF granted_refl [of "ps ! k" "L k"] _ iN A(2,4,5,8,9)])
      (use inv R(2,3) distinct_card [OF A(3)] in \<open>simp_all add: pool_inv_def pg_first_def bpm_base_def\<close>)
  have fr: "same_frame (ps ! k) ?p'" using setMeta_same_frame [OF len A(8,9)] .
  have pm: "putMeta q m' ps = ps[k := ?p']" by (simp add: putMeta_def)
  have "world c H (L(k := ?L)) (S(k := S k)) (ps[k := ?p'])"
    by (rule world_upd [OF w k inv' fr]) (use w in \<open>auto simp: world_def\<close>)
  moreover have "took ps L ?rs (ps[k := ?p']) (L(k := ?L))"
    by (rule took_upd [OF w k]) (use inv' g in \<open>simp_all add: pool_inv_def\<close>)
  moreover have "others_kept q ps (ps[k := ?p'])" using others_kept_upd [of i ?p' ps k] len k by (simp add: metaAt_setMeta)
  moreover have "length xs = n" if "pg_avail m' \<noteq> {}"
  proof -
    have "card (set xs) < card (pg_avail ?m)" using that A(4,5) by (intro psubset_card_mono) auto
    then show ?thesis using A(6) distinct_card [OF A(3)] by simp
  qed
  ultimately show ?thesis unfolding pm using A(1,6,7,10) R(3) k len
    by (intro exI [of _ m'] exI [of _ ?rs] exI [of _ t] exI [of _ "L(k := ?L)"]) (simp add: metaAt_setMeta putMeta_def)
qed

section \<open>The cached pages\<close>

definition lp_pages :: "LocalPool \<Rightarrow> PagePtr set" where
  "lp_pages lp = set_option (paPage1 lp) \<union> set_option (paPage2 lp)"

text \<open>
  The first slot is filled first, no page is cached twice, and every cached page is marked as held by
  the processor and has a page to give.
\<close>

definition lp_shape :: "LocalPool \<Rightarrow> bool" where
  "lp_shape lp \<longleftrightarrow> (paPage1 lp = None \<longrightarrow> paPage2 lp = None) \<and> (paPage1 lp = None \<or> paPage1 lp \<noteq> paPage2 lp)"

definition holds :: "ProcessorID \<Rightarrow> PagePtr set \<Rightarrow> NUMAPool list \<Rightarrow> bool" where
  "holds cpu X ps \<longleftrightarrow> (\<forall>q \<in> X. fst q < length ps \<and> allocHolder (ptrMeta ps q) = cpu \<and> pg_avail (ptrMeta ps q) \<noteq> {})"

definition lp_ok :: "NUMAPool list \<Rightarrow> LocalPool \<Rightarrow> bool" where
  "lp_ok ps lp \<longleftrightarrow> lp_shape lp \<and> holds (lp_pid lp) (lp_pages lp) ps"

definition kept :: "PagePtr set \<Rightarrow> NUMAPool list \<Rightarrow> NUMAPool list \<Rightarrow> bool" where
  "kept X ps ps' \<longleftrightarrow> (\<forall>r \<in> X. ptrMeta ps' r = ptrMeta ps r)"

lemma kept_others: "others_kept q ps ps' \<Longrightarrow> q \<notin> X \<Longrightarrow> \<forall>r \<in> X. fst r < length ps \<Longrightarrow> kept X ps ps'"
  unfolding others_kept_def kept_def by blast

lemma kept_trans: "kept X ps qs \<Longrightarrow> kept X qs rs \<Longrightarrow> kept X ps rs"
  by (simp add: kept_def)

lemma kept_mono: "kept X ps qs \<Longrightarrow> Y \<subseteq> X \<Longrightarrow> kept Y ps qs"
  by (auto simp: kept_def)

lemma holds_kept: "holds cpu X ps \<Longrightarrow> kept X ps ps' \<Longrightarrow> length ps' = length ps \<Longrightarrow> holds cpu X ps'"
  by (simp add: holds_def kept_def)

lemma took_length: "took ps L out ps' L' \<Longrightarrow> length ps' = length ps"
  by (simp add: took_def same_pools_def)

lemma allocFromPAPage_spec:
  assumes w: "world c (insert q H) L S (lo_pools st)" and q: "q \<notin> H" and hq: "holds cpu {q} (lo_pools st)" and cpu: "cpu \<noteq> SIZE_MAX"
  shows "\<exists>st' gone out L' S'. allocFromPAPage cpu lp q st = Inr (st', gone) \<and>
    world c (if gone then H else insert q H) L' S' (lo_pools st') \<and> took (lo_pools st) L out (lo_pools st') L' \<and>
    lo_out st' = lo_out st @ out \<and> lo_allocated st' = lo_allocated st + totalPages out \<and>
    lo_count st' + totalPages out = lo_count st \<and> kept H (lo_pools st) (lo_pools st') \<and>
    (\<not> gone \<longrightarrow> holds cpu {q} (lo_pools st') \<and> lo_count st' = 0)"
proof -
  let ?ps = "lo_pools st" and ?m = "ptrMeta (lo_pools st) q"
  note W = world_page [OF w insertI1]
  have Hl: "\<forall>r \<in> H. fst r < length ?ps" using w by (auto simp: world_def)
  have hold: "allocHolder ?m = cpu" "pg_avail ?m \<noteq> {}" using hq by (simp_all add: holds_def)
  define drop where "drop = (bpm_isEmpty ?m \<and> \<not> (paPage2 lp = None \<and> homePool lp = Some (ownerPool ?m)))"
  have run: "allocFromPAPage cpu lp q st =
      (if drop then bindO (returnPtr q False ?ps) (\<lambda>ps. Inr (st\<lparr>lo_pools := ps\<rparr>, True))
       else bindO (bpm_allocatePages cpu (lo_count st) noTransition ?m) (\<lambda>(m', refs, transition).
           let st1 = st\<lparr>lo_pools := putMeta q m' ?ps, lo_count := sub_size (lo_count st) (length refs),
                        lo_allocated := lo_allocated st + length refs, lo_out := lo_out st @ refs\<rparr>
           in if becameFull transition then bindO (returnPtr q True (lo_pools st1)) (\<lambda>ps. Inr (st1\<lparr>lo_pools := ps\<rparr>, True))
              else Inr (st1, False)))"
    unfolding allocFromPAPage_def W(4) drop_def bindO_Inr ..
  show ?thesis
  proof (cases drop)
    case True
    obtain ps' S' where r: "returnPtr q False ?ps = Inr ps'" "world c H L S' ps'" "took ?ps L [] ps' L" "others_kept q ?ps ps'"
      using returnPtr_spec [OF w q, of False] by blast
    have "allocFromPAPage cpu lp q st = Inr (st\<lparr>lo_pools := ps'\<rparr>, True)"
      unfolding run using True r(1) by simp
    then show ?thesis using r kept_others [OF r(4) q Hl]
      by (intro exI [of _ "st\<lparr>lo_pools := ps'\<rparr>"] exI [of _ True] exI [of _ "[]"] exI [of _ L] exI [of _ S']) simp
  next
    case False
    show ?thesis
    proof (cases "lo_count st = 0")
      case True
      have "bpm_allocatePages cpu 0 noTransition ?m = Inr (?m, [], noTransition)"
        using hold cpu by (simp add: bpm_allocatePages_def)
      moreover have "putMeta q ?m ?ps = ?ps" by (simp add: putMeta_def setMeta_def case_prod_beta)
      ultimately have "allocFromPAPage cpu lp q st = Inr (st, False)"
        unfolding run using False True by (simp add: noTransition_def becameFull_def)
      then show ?thesis using w hq True
        by (intro exI [of _ st] exI [of _ False] exI [of _ "[]"] exI [of _ L] exI [of _ S]) (simp add: took_refl kept_def)
    next
      case nz: False
      obtain m' refs t L' where A: "bpm_allocatePages cpu (lo_count st) noTransition ?m = Inr (m', refs, t)"
          "world c (insert q H) L' S (putMeta q m' ?ps)" "took ?ps L refs (putMeta q m' ?ps) L'" "others_kept q ?ps (putMeta q m' ?ps)"
          "ptrMeta (putMeta q m' ?ps) q = m'" "totalPages refs = length refs" "length refs \<le> lo_count st" "allocHolder m' = cpu"
          "becameFull t \<longleftrightarrow> pg_avail m' = {}" "pg_avail m' \<noteq> {} \<longrightarrow> length refs = lo_count st"
        using allocPtr_spec [OF w insertI1 hold(1) cpu hold(2), of "lo_count st" noTransition] nz by blast
      let ?ps1 = "putMeta q m' ?ps"
      let ?st1 = "st\<lparr>lo_pools := ?ps1, lo_count := lo_count st - length refs, lo_allocated := lo_allocated st + length refs, lo_out := lo_out st @ refs\<rparr>"
      note K = kept_others [OF A(4) q Hl]
      show ?thesis
      proof (cases "becameFull t")
        case True
        have "True \<longrightarrow> pg_avail (ptrMeta ?ps1 q) = {}" using A(5,9) True by simp
        from returnPtr_spec [OF A(2) q this] obtain ps' S' where r: "returnPtr q True ?ps1 = Inr ps'" "world c H L' S' ps'" "took ?ps1 L' [] ps' L'"
          "others_kept q ?ps1 ps'" by blast
        have Hl1: "\<forall>r \<in> H. fst r < length ?ps1" using Hl took_length [OF A(3)] by simp
        have "allocFromPAPage cpu lp q st = Inr (?st1\<lparr>lo_pools := ps'\<rparr>, True)"
          unfolding run using False A(1,7) True r(1) by simp
        then show ?thesis using r took_trans [OF A(3) r(3)] kept_trans [OF K kept_others [OF r(4) q Hl1]] A(6,7)
          by (intro exI [of _ "?st1\<lparr>lo_pools := ps'\<rparr>"] exI [of _ True] exI [of _ refs] exI [of _ L'] exI [of _ S']) simp
      next
        case nf: False
        have "allocFromPAPage cpu lp q st = Inr (?st1, False)" unfolding run using False A(1,7) nf by simp
        moreover have "holds cpu {q} ?ps1" using A(5,8,9) nf W(1) took_length [OF A(3)] by (simp add: holds_def)
        ultimately show ?thesis using A K nf
          by (intro exI [of _ ?st1] exI [of _ False] exI [of _ refs] exI [of _ L'] exI [of _ S]) simp
      qed
    qed
  qed
qed

end
