(* ===== verification/Local_Pool_Laws.thy ===== *)
theory Local_Pool_Laws
  imports Local_Pool
begin

text \<open>
  What \<open>LocalPool::allocatePages\<close> and \<open>LocalPool::tryGivePAPage\<close> guarantee. \<open>X\<close> is the set of the detached
  pages that are not the processor's own: those other processors cache.
\<close>

section \<open>Allocation\<close>

definition lp_settings :: "LocalPool \<Rightarrow> NUMATopology option \<times> nat option \<times> ProcessorID" where
  "lp_settings lp = (lp_topology lp, homePool lp, lp_pid lp)"

definition lp_post :: "(nat \<Rightarrow> nat) \<Rightarrow> PagePtr set \<Rightarrow> (nat \<Rightarrow> nat \<Rightarrow> nat set) \<Rightarrow> NUMAPool list \<Rightarrow> LocalPool \<Rightarrow> nat \<Rightarrow>
    LocalPool \<Rightarrow> lp_locals \<Rightarrow> bool" where
  "lp_post c X L ps lp n lp' st \<longleftrightarrow> (\<exists>L' S'. world c (X \<union> lp_pages lp') L' S' (lo_pools st) \<and> took ps L (lo_out st) (lo_pools st) L') \<and>
     X \<inter> lp_pages lp' = {} \<and> lp_ok (lo_pools st) lp' \<and> kept X ps (lo_pools st) \<and> lp_settings lp' = lp_settings lp \<and>
     lo_allocated st = totalPages (lo_out st) \<and> lo_count st + lo_allocated st = n"

lemma lp_pages_simps [simp]:
  "lp_pages (lp\<lparr>paPage1 := a, paPage2 := b\<rparr>) = set_option a \<union> set_option b"
  "lp_pages (lp\<lparr>paPage1 := a\<rparr>) = set_option a \<union> set_option (paPage2 lp)"
  "lp_pages (lp\<lparr>paPage2 := b\<rparr>) = set_option (paPage1 lp) \<union> set_option b"
  by (simp_all add: lp_pages_def)

lemma holds_Un: "holds cpu (A \<union> B) ps \<longleftrightarrow> holds cpu A ps \<and> holds cpu B ps"
  by (auto simp: holds_def)

text \<open>One cached page, with the rest of the cache among the other pages.\<close>

lemma cached_step:
  assumes w: "world c (insert q Y) L S (lo_pools st)" and q: "q \<notin> Y" "holds cpu {q} (lo_pools st)" "holds cpu Z (lo_pools st)" "Z \<subseteq> Y"
    and cpu: "cpu \<noteq> SIZE_MAX" and pre: "took ps L0 (lo_out st) (lo_pools st) L" "lo_allocated st = totalPages (lo_out st)"
      "lo_count st + lo_allocated st = n" "kept X ps (lo_pools st)" "X \<subseteq> Y"
  shows "\<exists>st' gone L' S'. allocFromPAPage cpu lp q st = Inr (st', gone) \<and> world c (if gone then Y else insert q Y) L' S' (lo_pools st') \<and>
    took ps L0 (lo_out st') (lo_pools st') L' \<and> lo_allocated st' = totalPages (lo_out st') \<and> lo_count st' + lo_allocated st' = n \<and>
    kept X ps (lo_pools st') \<and> holds cpu Z (lo_pools st') \<and> (\<not> gone \<longrightarrow> holds cpu {q} (lo_pools st') \<and> lo_count st' = 0)"
proof -
  obtain st' gone out L' S' where a: "allocFromPAPage cpu lp q st = Inr (st', gone)"
      "world c (if gone then Y else insert q Y) L' S' (lo_pools st')" "took (lo_pools st) L out (lo_pools st') L'"
      "lo_out st' = lo_out st @ out" "lo_allocated st' = lo_allocated st + totalPages out" "lo_count st' + totalPages out = lo_count st"
      "kept Y (lo_pools st) (lo_pools st')" "\<not> gone \<longrightarrow> holds cpu {q} (lo_pools st') \<and> lo_count st' = 0"
    using allocFromPAPage_spec [OF w q(1,2) cpu, of lp] by blast
  have "holds cpu Z (lo_pools st')" by (rule holds_kept [OF q(3) kept_mono [OF a(7) q(4)] took_length [OF a(3)]])
  moreover have "kept X ps (lo_pools st')" by (rule kept_trans [OF pre(4) kept_mono [OF a(7) pre(5)]])
  moreover have "took ps L0 (lo_out st') (lo_pools st') L'" unfolding a(4) by (rule took_trans [OF pre(1) a(3)])
  ultimately show ?thesis using a pre(2,3) by (intro exI [of _ st'] exI [of _ gone] exI [of _ L'] exI [of _ S']) simp
qed

lemma lp_allocatePages_spec:
  assumes w: "world c (X \<union> lp_pages lp) L S ps" and X: "X \<inter> lp_pages lp = {}" and ok: "lp_ok ps lp"
    and cpu: "lp_pid lp = cpu" "cpu \<noteq> SIZE_MAX"
  shows "\<exists>lp' st. lp_allocatePages cpu n flags lp ps = Inr (lp', st) \<and> lp_post c X L ps lp n lp' st \<and>
    (\<not> flags_has flags BIG_PAGE_ONLY \<longrightarrow> lo_count st \<noteq> 0 \<longrightarrow> lp_pages lp' = {})"
proof -
  let ?st0 = "\<lparr>lo_pools = ps, lo_count = n, lo_allocated = 0, lo_out = []\<rparr>"
  have H: "holds cpu (lp_pages lp) ps" and sh: "lp_shape lp" using ok cpu(1) by (simp_all add: lp_ok_def)
  have post0: "lp_post c X L ps lp n lp ?st0"
    unfolding lp_post_def using w X ok took_refl [of ps L] by (auto simp: kept_def)
  show ?thesis
  proof (cases "flags_has flags BIG_PAGE_ONLY \<or> paPage1 lp = None")
    case True
    moreover have "paPage1 lp = None \<longrightarrow> lp_pages lp = {}" using sh by (auto simp: lp_shape_def lp_pages_def)
    ultimately show ?thesis using post0 by (auto simp: lp_allocatePages_def Let_def)
  next
    case False
    then obtain q where q: "paPage1 lp = Some q" "\<not> flags_has flags BIG_PAGE_ONLY" by auto
    let ?Z = "set_option (paPage2 lp)"
    have qZ: "q \<notin> ?Z" "q \<notin> X" using sh q(1) X by (auto simp: lp_shape_def lp_pages_def)
    have pg: "lp_pages lp = insert q ?Z" using q(1) by (simp add: lp_pages_def)
    have Hq: "holds cpu {q} ps" "holds cpu ?Z ps" using H unfolding pg by (auto simp: holds_def)
    have w1: "world c (insert q (X \<union> ?Z)) L S (lo_pools ?st0)" using w unfolding pg by simp
    obtain st1 gone L1 S1 where 1: "allocFromPAPage cpu lp q ?st0 = Inr (st1, gone)"
        "world c (if gone then X \<union> ?Z else insert q (X \<union> ?Z)) L1 S1 (lo_pools st1)" "took ps L (lo_out st1) (lo_pools st1) L1"
        "lo_allocated st1 = totalPages (lo_out st1)" "lo_count st1 + lo_allocated st1 = n" "kept X ps (lo_pools st1)"
        "holds cpu ?Z (lo_pools st1)" "\<not> gone \<longrightarrow> holds cpu {q} (lo_pools st1) \<and> lo_count st1 = 0"
      using cached_step [OF w1, of cpu ?Z ps L n X lp] qZ Hq cpu(2) took_refl [of ps L] by (auto simp: kept_def)
    show ?thesis
    proof (cases gone)
      case False
      have "lp_post c X L ps lp n lp st1" unfolding lp_post_def lp_ok_def pg
        using 1 False sh X pg cpu(1) by (auto simp: holds_def)
      then show ?thesis using q 1(1,8) False by (simp add: lp_allocatePages_def)
    next
      case True
      let ?lp1 = "lp\<lparr>paPage1 := paPage2 lp, paPage2 := None\<rparr>"
      have post1: "lp_post c X L ps lp n ?lp1 st1" unfolding lp_post_def lp_ok_def
        using 1 True X pg cpu(1) by (auto simp: lp_shape_def lp_settings_def)
      show ?thesis
      proof (cases "lo_count st1 = 0 \<or> paPage2 lp = None")
        case True
        then show ?thesis using q 1(1) \<open>gone\<close> post1 by (auto simp: lp_allocatePages_def)
      next
        case nz: False
        then obtain q2 where q2: "paPage2 lp = Some q2" by auto
        have w2: "world c (insert q2 X) L1 S1 (lo_pools st1)" using 1(2) True q2 by simp
        have "q2 \<notin> X" using X pg q2 by simp
        moreover have "holds cpu {q2} (lo_pools st1)" "holds cpu {} (lo_pools st1)" using 1(7) q2 by (simp_all add: holds_def)
        ultimately obtain st2 gone2 L2 S2 where 2: "allocFromPAPage cpu ?lp1 q2 st1 = Inr (st2, gone2)"
            "world c (if gone2 then X else insert q2 X) L2 S2 (lo_pools st2)" "took ps L (lo_out st2) (lo_pools st2) L2"
            "lo_allocated st2 = totalPages (lo_out st2)" "lo_count st2 + lo_allocated st2 = n" "kept X ps (lo_pools st2)"
            "\<not> gone2 \<longrightarrow> holds cpu {q2} (lo_pools st2) \<and> lo_count st2 = 0"
          using cached_step [OF w2 _ _ _ empty_subsetI cpu(2) 1(3-6) subset_refl, of ?lp1] by blast
        let ?lp2 = "if gone2 then ?lp1\<lparr>paPage1 := None\<rparr> else ?lp1"
        have "lp_post c X L ps lp n ?lp2 st2" unfolding lp_post_def lp_ok_def
          using 2 \<open>q2 \<notin> X\<close> q2 cpu(1) by (cases gone2) (auto simp: lp_shape_def lp_settings_def holds_def)
        then show ?thesis using q 1(1) 2(1,7) True nz q2 by (cases gone2) (simp_all add: lp_allocatePages_def)
      qed
    qed
  qed
qed

section \<open>Giving a page\<close>

definition give_post :: "(nat \<Rightarrow> nat) \<Rightarrow> PagePtr set \<Rightarrow> (nat \<Rightarrow> nat \<Rightarrow> nat set) \<Rightarrow> NUMAPool list \<Rightarrow> LocalPool \<Rightarrow>
    LocalPool \<Rightarrow> NUMAPool list \<Rightarrow> bool" where
  "give_post c X L ps lp lp' ps' \<longleftrightarrow> (\<exists>S'. world c (X \<union> lp_pages lp') L S' ps') \<and> took ps L [] ps' L \<and>
     X \<inter> lp_pages lp' = {} \<and> lp_ok ps' lp' \<and> kept X ps ps' \<and> lp_settings lp' = lp_settings lp"

lemma accept_page:
  assumes w: "world c (insert q Y) L S ps" and q: "q \<notin> Y" "allocHolder (ptrMeta ps q) = SIZE_MAX" "pg_avail (ptrMeta ps q) \<noteq> {}"
    and P: "holds pid P ps" "P \<subseteq> Y"
  shows "\<exists>ps'. holdPtr pid q ps = Inr ps' \<and> world c (insert q Y) L S ps' \<and> took ps L [] ps' L \<and> kept Y ps ps' \<and> holds pid (insert q P) ps'"
proof -
  obtain ps' where h: "holdPtr pid q ps = Inr ps'" "world c (insert q Y) L S ps'" "took ps L [] ps' L" "others_kept q ps ps'"
      "allocHolder (ptrMeta ps' q) = pid" "pg_avail (ptrMeta ps' q) = pg_avail (ptrMeta ps q)"
    using holdPtr_spec [OF w insertI1 q(2)] by blast
  have "\<forall>r \<in> Y. fst r < length ps" using w by (auto simp: world_def)
  then have k: "kept Y ps ps'" using kept_others [OF h(4) q(1)] by blast
  have "holds pid P ps'" by (rule holds_kept [OF P(1) kept_mono [OF k P(2)] took_length [OF h(3)]])
  moreover have "holds pid {q} ps'" using h(5,6) q(3) world_page(1) [OF h(2) insertI1] by (simp add: holds_def)
  ultimately have "holds pid (insert q P) ps'" by (simp add: holds_def)
  then show ?thesis using h k by blast
qed

lemma return_page:
  assumes w: "world c (insert q Y) L S ps" and q: "q \<notin> Y" and P: "holds pid P ps" "P \<subseteq> Y"
  shows "\<exists>ps' S'. returnPtr q False ps = Inr ps' \<and> world c Y L S' ps' \<and> took ps L [] ps' L \<and> kept Y ps ps' \<and> holds pid P ps'"
proof -
  obtain ps' S' where r: "returnPtr q False ps = Inr ps'" "world c Y L S' ps'" "took ps L [] ps' L" "others_kept q ps ps'"
    using returnPtr_spec [OF w q, of False] by blast
  have "\<forall>r \<in> Y. fst r < length ps" using w by (auto simp: world_def)
  then have k: "kept Y ps ps'" using kept_others [OF r(4) q] by blast
  then show ?thesis using r holds_kept [OF P(1) kept_mono [OF k P(2)] took_length [OF r(3)]] by blast
qed

text \<open>
  The topology of a local pool covers the processor and the domains of all pools; the distance of a page
  is then the read latency from the processor's domain, or the largest value when none is known.
\<close>

definition serves :: "NUMAPool list \<Rightarrow> ProcessorID \<Rightarrow> NUMATopology \<Rightarrow> bool" where
  "serves ps pid t \<longleftrightarrow> (\<exists>n. topo_ok n t \<and> pid < length (cpuToDomain t) \<and> cpuToDomain t ! pid \<noteq> noDomain \<and>
     (\<forall>p \<in> set ps. associatedDomain p < n))"

definition pageDistance :: "NUMATopology \<Rightarrow> ProcessorID \<Rightarrow> NUMAPool list \<Rightarrow> PagePtr \<Rightarrow> u64" where
  "pageDistance t pid ps q =
     (case latencyBetween (cpuToDomain t ! pid) (of_nat (associatedDomain (ps ! fst q))) ReadAccess t of Inr (Some v) \<Rightarrow> v | _ \<Rightarrow> - 1)"

lemma serves_home:
  assumes "serves ps pid t"
  shows "\<exists>d. domainForCpu pid t = Inr d \<and> pd_id d = cpuToDomain t ! pid"
proof -
  obtain n where n: "topo_ok n t" "pid < length (cpuToDomain t)" "cpuToDomain t ! pid \<noteq> noDomain" using assms by (auto simp: serves_def)
  have h: "unat (cpuToDomain t ! pid) < n" using n nth_mem [OF n(2)] unfolding topo_ok_def cpu_map_ok_def by blast
  then show ?thesis using n by (simp add: domainForCpu_def topo_ok_def cpu_map_ok_def)
qed

lemma distanceTo_ok:
  assumes w: "world c H L S ps" and q: "q \<in> H" and t: "serves ps pid t"
  shows "distanceTo t (cpuToDomain t ! pid) q ps = Inr (pageDistance t pid ps q)"
proof -
  obtain n where n: "topo_ok n t" "pid < length (cpuToDomain t)" "cpuToDomain t ! pid \<noteq> noDomain" "\<forall>p \<in> set ps. associatedDomain p < n"
    using t by (auto simp: serves_def)
  note W = world_page [OF w q]
  have h: "unat (cpuToDomain t ! pid) < n" using n nth_mem [OF n(2)] unfolding topo_ok_def cpu_map_ok_def by blast
  have "associatedDomain (ps ! fst q) < n" using n(4) W(1) by simp
  then have d: "unat (of_nat (associatedDomain (ps ! fst q)) :: 16 word) < n"
    using n(1) by (simp add: topo_ok_def unat_of_nat_16)
  have "\<exists>l. latencyBetween (cpuToDomain t ! pid) (of_nat (associatedDomain (ps ! fst q))) ReadAccess t = Inr l"
  proof (cases "readLatencyMatrix t")
    case None
    then show ?thesis by (simp add: latencyBetween_def measuredValue_def)
  next
    case (Some m)
    then have "mat_ok n m" using n(1) by (simp add: topo_ok_def mats_ok_def)
    then have "\<exists>v. matrixAt m (unat (cpuToDomain t ! pid)) (unat (of_nat (associatedDomain (ps ! fst q)) :: 16 word)) = Inr v"
      using h d by (simp add: mat_ok_def matrixAt_def del: unat_of_nat)
    then show ?thesis using Some by (auto simp: latencyBetween_def measuredValue_def simp del: unat_of_nat)
  qed
  then obtain l where l: "latencyBetween (cpuToDomain t ! pid) (of_nat (associatedDomain (ps ! fst q))) ReadAccess t = Inr l" by blast
  show ?thesis unfolding distanceTo_def W(4) bindO_Inr W(6) readAt_ok [OF W(1)] pageDistance_def l by (simp split: option.split)
qed

lemma serves_same:
  assumes s: "serves ps pid t" and k: "took ps L out ps' L'"
  shows "serves ps' pid t"
proof -
  have len: "length ps' = length ps" and d: "\<And>i. i < length ps \<Longrightarrow> associatedDomain (ps' ! i) = associatedDomain (ps ! i)"
    using k by (auto simp: took_def same_pools_def same_frame_def)
  have "(\<forall>p \<in> set ps'. associatedDomain p < n) \<longleftrightarrow> (\<forall>p \<in> set ps. associatedDomain p < n)" for n
    unfolding all_set_conv_all_nth using len d by simp
  then show ?thesis using s by (simp add: serves_def)
qed

lemma giveByDistance_spec:
  assumes w: "world c (insert q (X \<union> lp_pages lp)) L S ps" and q: "q \<notin> X \<union> lp_pages lp" "allocHolder (ptrMeta ps q) = SIZE_MAX"
      "pg_avail (ptrMeta ps q) \<noteq> {}" and X: "X \<inter> lp_pages lp = {}" and ok: "lp_ok ps lp" and t: "serves ps (lp_pid lp) t"
  shows "\<exists>lp' ps'. giveByDistance t q lp ps = Inr (lp', ps') \<and> give_post c X L ps lp lp' ps' \<and> lp_pages lp' \<subseteq> insert q (lp_pages lp) \<and>
    (\<forall>r \<in> insert q (lp_pages lp) - lp_pages lp'. paPage2 lp \<noteq> None \<and>
       (pageDistance t (lp_pid lp) ps (the (paPage2 lp)) \<le> pageDistance t (lp_pid lp) ps r) \<and> pageDistance t (lp_pid lp) ps q \<le> pageDistance t (lp_pid lp) ps r)"
proof -
  let ?pid = "lp_pid lp" and ?d = "pageDistance t (lp_pid lp) ps" and ?dom = "cpuToDomain t ! lp_pid lp"
  have H: "holds ?pid (lp_pages lp) ps" and sh: "lp_shape lp" using ok by (simp_all add: lp_ok_def)
  obtain d where home: "domainForCpu ?pid t = Inr d" "pd_id d = ?dom" using serves_home [OF t] by blast
  note D = distanceTo_ok [OF w _ t]
  have sub: "lp_pages lp \<subseteq> X \<union> lp_pages lp" by blast
  obtain ps1 where h: "holdPtr ?pid q ps = Inr ps1" "world c (insert q (X \<union> lp_pages lp)) L S ps1" "took ps L [] ps1 L" "kept (X \<union> lp_pages lp) ps ps1"
      "holds ?pid (insert q (lp_pages lp)) ps1" using accept_page [OF w q H sub] by blast
  note D1 = distanceTo_ok [OF h(2) _ serves_same [OF t h(3)]]
  have same: "pageDistance t ?pid ps1 r = ?d r" if "r \<in> insert q (X \<union> lp_pages lp)" for r
    using h(3) world_page(1) [OF w that] by (simp add: pageDistance_def took_def same_pools_def same_frame_def)
  have run0: "giveByDistance t q lp ps = (case paPage1 lp of
         None \<Rightarrow> bindO (holdPtr ?pid q ps) (\<lambda>ps'. Inr (lp\<lparr>paPage1 := Some q\<rparr>, ps'))
       | Some q1 \<Rightarrow>
           (case paPage2 lp of
              None \<Rightarrow> bindO (holdPtr ?pid q ps) (\<lambda>ps'. bindO (distanceTo t ?dom q1 ps') (\<lambda>d1. Inr (insertPage lp q (?d q) d1, ps')))
            | Some q2 \<Rightarrow>
                bindO (distanceTo t ?dom q2 ps) (\<lambda>d2.
                  if d2 \<le> ?d q then bindO (returnPtr q False ps) (\<lambda>ps'. Inr (lp, ps'))
                  else bindO (holdPtr ?pid q ps) (\<lambda>ps1. bindO (distanceTo t ?dom q1 ps1) (\<lambda>d1.
                       bindO (returnPtr q2 False ps1) (\<lambda>ps2. Inr (insertPage lp q (?d q) d1, ps2)))))))"
    unfolding giveByDistance_def home(1) bindO_Inr Let_def home(2) D [OF insertI1] ..
  have post: "give_post c X L ps lp lp' ps'" if "lp_shape lp'" "lp_settings lp' = lp_settings lp" "world c (X \<union> lp_pages lp') L S' ps'"
      "took ps L [] ps' L" "kept X ps ps'" "holds ?pid (lp_pages lp') ps'" "lp_pages lp' \<subseteq> insert q (lp_pages lp)" for lp' ps' S'
    unfolding give_post_def lp_ok_def using that X q(1) by (auto simp: lp_settings_def)
  have keptX: "kept X ps ps1" using kept_mono [OF h(4)] by blast
  show ?thesis
  proof (cases "paPage1 lp")
    case None
    have p2: "paPage2 lp = None" using sh None by (simp add: lp_shape_def)
    then have pg: "lp_pages lp = {}" using None by (simp add: lp_pages_def)
    have "give_post c X L ps lp (lp\<lparr>paPage1 := Some q\<rparr>) ps1"
      by (rule post) (use h p2 pg keptX in \<open>simp_all add: lp_shape_def lp_settings_def\<close>)
    then show ?thesis unfolding run0 using None h(1) p2 pg by simp
  next
    case (Some q1)
    have nq: "insertPage lp q a b = lp\<lparr>paPage1 := paPage1 (insertPage lp q a b), paPage2 := paPage2 (insertPage lp q a b)\<rparr>" for a b
      by (simp add: insertPage_def)
    have q1: "q1 \<in> lp_pages lp" "q1 \<in> insert q (X \<union> lp_pages lp)" "q1 \<noteq> q" using Some q(1) by (auto simp: lp_pages_def)
    let ?lp' = "insertPage lp q (?d q) (?d q1)"
    have lp': "lp_pages ?lp' = {q, q1}" "lp_shape ?lp'" "lp_settings ?lp' = lp_settings lp"
      using Some q1(3) by (auto simp: insertPage_def lp_shape_def lp_settings_def)
    have d1: "distanceTo t ?dom q1 ps1 = Inr (?d q1)" using D1 [OF q1(2)] same [OF q1(2)] by simp
    show ?thesis
    proof (cases "paPage2 lp")
      case None
      have pg: "lp_pages lp = {q1}" using Some None by (simp add: lp_pages_def)
      have "give_post c X L ps lp ?lp' ps1"
        by (rule post [OF lp'(2,3)]) (use h lp'(1) pg keptX in \<open>simp_all add: insert_commute\<close>)
      then show ?thesis unfolding run0 using Some None h(1) d1 lp'(1) pg by auto
    next
      case q2: (Some q2)
      have pg: "lp_pages lp = {q1, q2}" "q1 \<noteq> q2" "q2 \<noteq> q" using Some q2 sh q(1) by (auto simp: lp_pages_def lp_shape_def)
      have d2: "distanceTo t ?dom q2 ps = Inr (?d q2)" using D [of q2] pg(1) by simp
      show ?thesis
      proof (cases "?d q2 \<le> ?d q")
        case True
        obtain ps' S' where r: "returnPtr q False ps = Inr ps'" "world c (X \<union> lp_pages lp) L S' ps'" "took ps L [] ps' L"
            "kept (X \<union> lp_pages lp) ps ps'" "holds ?pid (lp_pages lp) ps'" using return_page [OF w q(1) H sub] by blast
        have "give_post c X L ps lp lp ps'" by (rule post [OF sh refl r(2,3) _ r(5)]) (use kept_mono [OF r(4)] in auto)
        then show ?thesis unfolding run0 using Some q2 d2 True r(1) by auto
      next
        case False
        have w2: "world c (insert q2 (X \<union> {q, q1})) L S ps1" using h(2) unfolding pg(1) by (simp add: insert_commute)
        have n2: "q2 \<notin> X \<union> {q, q1}" using pg X by auto
        have "holds ?pid {q, q1} ps1" using h(5) unfolding pg(1) by (auto simp: holds_def)
        then obtain ps2 S' where r: "returnPtr q2 False ps1 = Inr ps2" "world c (X \<union> {q, q1}) L S' ps2" "took ps1 L [] ps2 L"
            "kept (X \<union> {q, q1}) ps1 ps2" "holds ?pid {q, q1} ps2" using return_page [OF w2 n2] by blast
        have "kept X ps ps2" using kept_trans [OF keptX kept_mono [OF r(4)]] by blast
        then have "give_post c X L ps lp ?lp' ps2"
          by (intro post [OF lp'(2,3)]) (use r lp'(1) pg took_trans [OF h(3) r(3)] in auto)
        then show ?thesis unfolding run0 using Some q2 d2 False h(1) d1 r(1) lp'(1) pg(1) by auto
      qed
    qed
  qed
qed

lemma givePlain_spec:
  assumes w: "world c (insert q (X \<union> lp_pages lp)) L S ps" and q: "q \<notin> X \<union> lp_pages lp" "allocHolder (ptrMeta ps q) = SIZE_MAX"
      "pg_avail (ptrMeta ps q) \<noteq> {}" and X: "X \<inter> lp_pages lp = {}" and ok: "lp_ok ps lp"
  shows "\<exists>lp' ps'. givePlain q lp ps = Inr (lp', ps') \<and> give_post c X L ps lp lp' ps' \<and> lp_pages lp' \<subseteq> insert q (lp_pages lp)"
proof -
  let ?pid = "lp_pid lp"
  have H: "holds ?pid (lp_pages lp) ps" and sh: "lp_shape lp" using ok by (simp_all add: lp_ok_def)
  have sub: "lp_pages lp \<subseteq> X \<union> lp_pages lp" by blast
  show ?thesis
  proof (cases "paPage2 lp = None")
    case True
    obtain ps1 where h: "holdPtr ?pid q ps = Inr ps1" "world c (insert q (X \<union> lp_pages lp)) L S ps1" "took ps L [] ps1 L"
        "kept (X \<union> lp_pages lp) ps ps1" "holds ?pid (insert q (lp_pages lp)) ps1" using accept_page [OF w q H sub] by blast
    let ?lp' = "if paPage1 lp = None then lp\<lparr>paPage1 := Some q\<rparr> else lp\<lparr>paPage2 := Some q\<rparr>"
    have lp': "lp_pages ?lp' = insert q (lp_pages lp)" "lp_shape ?lp'" "lp_settings ?lp' = lp_settings lp" "lp_pid ?lp' = ?pid"
      using True q(1) by (auto simp: lp_pages_def lp_shape_def lp_settings_def)
    have "kept X ps ps1" using kept_mono [OF h(4)] by blast
    then have "give_post c X L ps lp ?lp' ps1" unfolding give_post_def lp_ok_def lp'(1,3,4) using h lp'(2) X q(1) by auto
    moreover have "givePlain q lp ps = Inr (?lp', ps1)" using True h(1) by (simp add: givePlain_def)
    ultimately show ?thesis using lp'(1) by blast
  next
    case False
    then have p1: "paPage1 lp \<noteq> None" using sh by (auto simp: lp_shape_def)
    obtain ps' S' where r: "returnPtr q False ps = Inr ps'" "world c (X \<union> lp_pages lp) L S' ps'" "took ps L [] ps' L"
        "kept (X \<union> lp_pages lp) ps ps'" "holds ?pid (lp_pages lp) ps'" using return_page [OF w q(1) H sub] by blast
    have "kept X ps ps'" using kept_mono [OF r(4)] by blast
    then have "give_post c X L ps lp lp ps'" unfolding give_post_def lp_ok_def using r sh X by auto
    moreover have "givePlain q lp ps = Inr (lp, ps')" using False p1 r(1) by (auto simp: givePlain_def)
    ultimately show ?thesis by blast
  qed
qed

definition lp_serves :: "NUMAPool list \<Rightarrow> LocalPool \<Rightarrow> bool" where
  "lp_serves ps lp \<longleftrightarrow> (\<forall>t. lp_topology lp = Some t \<longrightarrow> serves ps (lp_pid lp) t)"

lemma tryGivePAPage_spec:
  assumes w: "world c (insert q (X \<union> lp_pages lp)) L S ps" and q: "q \<notin> X \<union> lp_pages lp" "allocHolder (ptrMeta ps q) = SIZE_MAX"
      "pg_avail (ptrMeta ps q) \<noteq> {}" and X: "X \<inter> lp_pages lp = {}" and ok: "lp_ok ps lp" and t: "lp_serves ps lp"
  shows "\<exists>lp' ps'. tryGivePAPage q lp ps = Inr (lp', ps') \<and> give_post c X L ps lp lp' ps' \<and> lp_pages lp' \<subseteq> insert q (lp_pages lp)"
proof -
  let ?pid = "lp_pid lp" and ?m = "ptrMeta ps q"
  have H: "holds ?pid (lp_pages lp) ps" and sh: "lp_shape lp" using ok by (simp_all add: lp_ok_def)
  have sub: "lp_pages lp \<subseteq> X \<union> lp_pages lp" by blast
  note W = world_page [OF w insertI1]
  have "\<exists>b. releasesHeld lp ?m ps = Inr b \<and> (b \<longrightarrow> (\<exists>q1. paPage1 lp = Some q1 \<and> paPage2 lp = None))"
    using world_page(4) [OF w] by (cases "paPage1 lp") (auto simp: releasesHeld_def lp_pages_def)
  then obtain b where b: "releasesHeld lp ?m ps = Inr b" "b \<Longrightarrow> \<exists>q1. paPage1 lp = Some q1 \<and> paPage2 lp = None" by blast
  have run: "tryGivePAPage q lp ps = (if bpm_isEmpty ?m then bindO (returnPtr q False ps) (\<lambda>ps'. Inr (lp, ps'))
      else if b then bindO (returnPtr (the (paPage1 lp)) False ps) (\<lambda>ps1. bindO (holdPtr ?pid q ps1) (\<lambda>ps2. Inr (lp\<lparr>paPage1 := Some q\<rparr>, ps2)))
      else case lp_topology lp of None \<Rightarrow> givePlain q lp ps | Some t \<Rightarrow> giveByDistance t q lp ps)"
    unfolding tryGivePAPage_def W(4) bindO_Inr b(1) ..
  consider (empty) "bpm_isEmpty ?m" | (release) "\<not> bpm_isEmpty ?m" b | (plain) "\<not> bpm_isEmpty ?m" "\<not> b" "lp_topology lp = None"
    | (topo) t where "\<not> bpm_isEmpty ?m" "\<not> b" "lp_topology lp = Some t" by blast
  then show ?thesis
  proof cases
    case empty
    obtain ps' S' where r: "returnPtr q False ps = Inr ps'" "world c (X \<union> lp_pages lp) L S' ps'" "took ps L [] ps' L"
        "kept (X \<union> lp_pages lp) ps ps'" "holds ?pid (lp_pages lp) ps'" using return_page [OF w q(1) H sub] by blast
    have "kept X ps ps'" using kept_mono [OF r(4)] by blast
    then have "give_post c X L ps lp lp ps'" unfolding give_post_def lp_ok_def using r sh X by auto
    then show ?thesis unfolding run using empty r(1) by auto
  next
    case release
    then obtain q1 where q1: "paPage1 lp = Some q1" "paPage2 lp = None" using b(2) by blast
    have pg: "lp_pages lp = {q1}" using q1 by (simp add: lp_pages_def)
    have w1: "world c (insert q1 (insert q X)) L S ps" using w unfolding pg by (simp add: insert_commute)
    have n1: "q1 \<notin> insert q X" "q \<notin> X" using q(1) X pg by auto
    have "holds ?pid {} ps" by (simp add: holds_def)
    from return_page [OF w1 n1(1) this] obtain ps1 S1 where r: "returnPtr q1 False ps = Inr ps1" "world c (insert q X) L S1 ps1"
        "took ps L [] ps1 L" "kept (insert q X) ps ps1" by blast
    have m: "ptrMeta ps1 q = ptrMeta ps q" using r(4) by (simp add: kept_def)
    have "holds ?pid {} ps1" by (simp add: holds_def)
    from accept_page [OF r(2) n1(2) _ _ this] obtain ps2 where h: "holdPtr ?pid q ps1 = Inr ps2" "world c (insert q X) L S1 ps2"
        "took ps1 L [] ps2 L" "kept X ps1 ps2" "holds ?pid {q} ps2" using m q(2,3) by auto
    have "kept X ps ps2" using kept_trans [OF kept_mono [OF r(4)] h(4)] by blast
    moreover have "took ps L [] ps2 L" using took_trans [OF r(3) h(3)] by simp
    ultimately have "give_post c X L ps lp (lp\<lparr>paPage1 := Some q\<rparr>) ps2" unfolding give_post_def lp_ok_def
      using h n1 q1 by (auto simp: lp_shape_def lp_settings_def)
    then show ?thesis unfolding run using release q1 r(1) h(1) by auto
  next
    case plain
    then show ?thesis unfolding run using givePlain_spec [OF w q X ok] by simp
  next
    case (topo t')
    then have "serves ps ?pid t'" using t by (simp add: lp_serves_def)
    then show ?thesis unfolding run using giveByDistance_spec [OF w q X ok] topo by fastforce
  qed
qed

end
