(* ===== verification/Pool_Factory.thy ===== *)
theory Pool_Factory
  imports Numa_Pool_Laws Sorting
begin

text \<open>
  The factory of the NUMA pools: \<open>computeMergedRanges\<close> rounds the memory ranges of a domain to big
  pages and merges those that share one, and \<open>createNumaPool\<close> builds the metadata, reserves the small
  pages that no range covers and publishes the rest. The theory shows that the pool so built offers
  exactly the small pages of the given ranges and satisfies the pool invariant.
\<close>

section \<open>Merging ranges\<close>

record TempMergedRange =
  mr_start :: phys_addr
  mr_end :: phys_addr
  firstOrigIdx :: nat
  lastOrigIdx :: nat
  mr_bigPageCount :: u64

definition MAX_RANGES_PER_DOMAIN :: nat where
  "MAX_RANGES_PER_DOMAIN = 64"

definition startsBefore :: "phys_memory_range \<Rightarrow> phys_memory_range \<Rightarrow> bool" where
  "startsBefore a b \<longleftrightarrow> rng_start a < rng_start b"

definition mergedRange :: "phys_addr \<Rightarrow> phys_addr \<Rightarrow> nat \<Rightarrow> nat \<Rightarrow> TempMergedRange" where
  "mergedRange s e f l = \<lparr>mr_start = s, mr_end = e, firstOrigIdx = f, lastOrigIdx = l, mr_bigPageCount = (e - s) div bigPageSize\<rparr>"

text \<open>The loop from index \<open>i\<close> on; the last equation emits the final range.\<close>

fun mergeLoop :: "nat \<Rightarrow> phys_memory_range list \<Rightarrow> nat \<Rightarrow> phys_addr \<Rightarrow> phys_addr \<Rightarrow> nat \<Rightarrow> TempMergedRange list \<Rightarrow>
    TempMergedRange list outcome" where
  "mergeLoop maxOut (r # rs) i mergedStart mergedEnd firstIdx out =
     (let nextBigPageStart = roundDownToNearestMultiple (rng_start r) bigPageSize
      in if nextBigPageStart < mergedEnd then
           let candidate = roundUpToNearestMultiple (rng_end r) bigPageSize
           in mergeLoop maxOut rs (i + 1) mergedStart (if mergedEnd < candidate then candidate else mergedEnd) firstIdx out
         else
           bindO (assertO (length out < maxOut) ''Merged range overflow'') (\<lambda>_.
             mergeLoop maxOut rs (i + 1) nextBigPageStart (roundUpToNearestMultiple (rng_end r) bigPageSize) i
               (out @ [mergedRange mergedStart mergedEnd firstIdx (i - 1)])))"
| "mergeLoop maxOut [] i mergedStart mergedEnd firstIdx out =
     bindO (assertO (length out < maxOut) ''Merged range overflow'') (\<lambda>_.
       Inr (out @ [mergedRange mergedStart mergedEnd firstIdx (i - 1)]))"

definition computeMergedRanges :: "phys_memory_range list \<Rightarrow> nat \<Rightarrow> (TempMergedRange list \<times> phys_memory_range list) outcome" where
  "computeMergedRanges ranges maxOut =
     (let n = length ranges
      in bindO (assertO (n \<le> MAX_RANGES_PER_DOMAIN) ''Too many memory ranges for NUMA domain'') (\<lambda>_.
         bindO (assertO (n \<le> maxOut) ''Not enough space for merged ranges'') (\<lambda>_.
         if n = 0 then Inr ([], [])
         else bindO (if 1 < n then sort_array startsBefore ranges n else Inr ranges) (\<lambda>sortedOut.
              bindO (readAt sortedOut 0) (\<lambda>r0.
              bindO (mergeLoop maxOut (tl sortedOut) 1 (roundDownToNearestMultiple (rng_start r0) bigPageSize)
                       (roundUpToNearestMultiple (rng_end r0) bigPageSize) 0 []) (\<lambda>out.
                Inr (out, sortedOut)))))))"

section \<open>Reserving what no range covers\<close>

definition reserveSmallPageRange :: "BigPageMetadata \<Rightarrow> phys_addr \<Rightarrow> phys_addr \<Rightarrow> BigPageMetadata outcome" where
  "reserveSmallPageRange m reserveStart reserveEnd =
     bindO (assertO (reserveStart mod smallPageSize = 0) ''reserveStart not small-page aligned'') (\<lambda>_.
     bindO (assertO (reserveEnd mod smallPageSize = 0) ''reserveEnd not small-page aligned'') (\<lambda>_.
       reserveLoop 512 reserveStart reserveEnd m))"

fun coverGaps :: "phys_addr \<Rightarrow> phys_addr \<Rightarrow> phys_memory_range list \<Rightarrow> phys_addr \<Rightarrow> BigPageMetadata \<Rightarrow>
    (phys_addr \<times> BigPageMetadata) outcome" where
  "coverGaps bigPageStart bigPageEnd [] prevEnd m = Inr (prevEnd, m)"
| "coverGaps bigPageStart bigPageEnd (orig # rs) prevEnd m =
     (let origClampedStart = if bigPageStart < rng_start orig then rng_start orig else bigPageStart;
          origClampedEnd = if rng_end orig < bigPageEnd then rng_end orig else bigPageEnd
      in if bigPageEnd \<le> origClampedStart then Inr (prevEnd, m)
         else if origClampedEnd \<le> bigPageStart then coverGaps bigPageStart bigPageEnd rs prevEnd m
         else bindO (if prevEnd < origClampedStart then reserveSmallPageRange m prevEnd origClampedStart else Inr m) (\<lambda>m'.
                coverGaps bigPageStart bigPageEnd rs (if prevEnd < origClampedEnd then origClampedEnd else prevEnd) m'))"

definition carvePage :: "phys_memory_range list \<Rightarrow> BigPageMetadata \<Rightarrow> phys_addr \<Rightarrow> BigPageMetadata outcome" where
  "carvePage origs m bigPageStart =
     (let bigPageEnd = bigPageStart + bigPageSize
      in bindO (coverGaps bigPageStart bigPageEnd origs bigPageStart m) (\<lambda>(prevEnd, m').
           if prevEnd < bigPageEnd then reserveSmallPageRange m' prevEnd bigPageEnd else Inr m'))"

section \<open>Building a pool\<close>

text \<open>The metadata of one merged range: all pages are constructed, then carved.\<close>

definition pageBases :: "TempMergedRange \<Rightarrow> phys_addr list" where
  "pageBases mr = map (\<lambda>k. mr_start mr + of_nat k * bigPageSize) [0..<unat (mr_bigPageCount mr)]"

definition rangeMetadata :: "nat \<Rightarrow> phys_memory_range list \<Rightarrow> TempMergedRange \<Rightarrow> BigPageMetadata list outcome" where
  "rangeMetadata poolPtr sortedRanges mr =
     (let origs = take (lastOrigIdx mr + 1 - firstOrigIdx mr) (drop (firstOrigIdx mr) sortedRanges)
      in bindO (mapO (mkBigPageMetadata poolPtr) (pageBases mr)) (\<lambda>ms.
           mapO (\<lambda>(m, b). carvePage origs m b) (zip ms (pageBases mr))))"

fun populate :: "nat \<Rightarrow> phys_memory_range list \<Rightarrow> nat \<Rightarrow> TempMergedRange list \<Rightarrow> (BigPageMetadata list \<times> SubrangeInfo list) outcome" where
  "populate poolPtr sortedRanges metaIdx [] = Inr ([], [])"
| "populate poolPtr sortedRanges metaIdx (mr # mrs) =
     bindO (rangeMetadata poolPtr sortedRanges mr) (\<lambda>ms.
     bindO (populate poolPtr sortedRanges (metaIdx + unat (mr_bigPageCount mr)) mrs) (\<lambda>(ms', srs).
       Inr (ms @ ms', \<lparr>rangeStart = mr_start mr, rangeEnd = mr_end mr, metadataBase = metaIdx\<rparr> # srs)))"

text \<open>
  \<open>sizeof\<close> and \<open>alignof\<close> of the types placed in the boot buffer, which the compiler fixes; the bit
  pool and the pool itself are placed in memory that the bootstrap allocator has zeroed.
\<close>

record type_layout =
  tl_size :: u64
  tl_align :: u64

record pool_abi =
  abi_pool :: type_layout
  abi_metadata :: type_layout
  abi_pointer :: type_layout
  abi_counter :: type_layout
  abi_subrange :: type_layout

definition CACHE_LINE_SIZE :: nat where
  "CACHE_LINE_SIZE = 64"

abbreviation request :: "type_layout \<Rightarrow> nat \<Rightarrow> u64 \<times> u64 \<times> u64 \<times> u64" where
  "request t n \<equiv> (tl_size t, tl_align t, of_nat n, tl_align t)"

definition poolRequests :: "pool_abi \<Rightarrow> nat \<Rightarrow> nat \<Rightarrow> nat \<Rightarrow> (u64 \<times> u64 \<times> u64 \<times> u64) list" where
  "poolRequests abi totalBigPageCount bitPoolBytes mergedCount =
     [request (abi_pool abi) 1, request (abi_metadata abi) totalBigPageCount, request (abi_pointer abi) totalBigPageCount,
      request (abi_counter abi) totalBigPageCount, request (abi_counter abi) totalBigPageCount,
      (1, 1, of_nat bitPoolBytes, of_nat CACHE_LINE_SIZE), request (abi_subrange abi) mergedCount]"

definition createNumaPool :: "pool_abi \<Rightarrow> nat \<Rightarrow> phys_memory_range list \<Rightarrow> nat \<Rightarrow> BootstrapAllocator \<Rightarrow>
    (BootstrapAllocator \<times> NUMAPool option) outcome" where
  "createNumaPool abi poolPtr ranges domain alloc =
     bindO (computeMergedRanges ranges MAX_RANGES_PER_DOMAIN) (\<lambda>(merged, sortedRanges).
       let totalBigPageCount = unat (sum_list (map mr_bigPageCount merged))
       in bindO (assertO (0 < totalBigPageCount) ''createNumaPool: domain has no big pages'') (\<lambda>_.
          bindO (requiredBufferSize totalBigPageCount CACHE_LINE_SIZE) (\<lambda>bitPoolBytes.
          bindO (ba_run (poolRequests abi totalBigPageCount bitPoolBytes (length merged)) alloc) (\<lambda>(alloc', _).
            if ba_measuring alloc then Inr (alloc', None)
            else bindO (populate poolPtr sortedRanges 0 merged) (\<lambda>(metadata, subranges).
                 bindO (mkAtomicBitPool totalBigPageCount (\<lambda>_. \<lparr>ent_bitmap = 0, ent_count = 0\<rparr>) CACHE_LINE_SIZE) (\<lambda>pa.
                 bindO (mkNUMAPool metadata (replicate totalBigPageCount 0) pa subranges totalBigPageCount domain) (\<lambda>p.
                   Inr (alloc', Some p))))))))"

section \<open>The merged ranges\<close>

text \<open>
  What the merge needs of its input (non-empty ranges that do not end in the last big page of the
  address space), and what one merged range has: big-page bounds around the original ranges
  with its indices, and no big page that none of them touches.
\<close>

definition range_ok :: "phys_memory_range \<Rightarrow> bool" where
  "range_ok r \<longleftrightarrow> rng_start r < rng_end r \<and> unat (rng_end r) + 2097152 \<le> 2 ^ 64"

definition merged_ok :: "phys_memory_range list \<Rightarrow> phys_addr \<Rightarrow> phys_addr \<Rightarrow> nat \<Rightarrow> nat \<Rightarrow> bool" where
  "merged_ok R s e f l \<longleftrightarrow> f \<le> l \<and> l < length R \<and> s < e \<and> 2097152 dvd unat s \<and> 2097152 dvd unat e \<and>
     (\<forall>i \<in> {f..l}. s \<le> rng_start (R ! i) \<and> rng_end (R ! i) \<le> e) \<and>
     (\<forall>b. 2097152 dvd b \<and> unat s \<le> b \<and> b < unat e \<longrightarrow>
        (\<exists>i \<in> {f..l}. unat (rng_start (R ! i)) < b + 2097152 \<and> b < unat (rng_end (R ! i))))"

abbreviation mr_ok :: "phys_memory_range list \<Rightarrow> TempMergedRange \<Rightarrow> bool" where
  "mr_ok R mr \<equiv> merged_ok R (mr_start mr) (mr_end mr) (firstOrigIdx mr) (lastOrigIdx mr)"

definition merge_inv :: "phys_memory_range list \<Rightarrow> TempMergedRange list \<Rightarrow> bool" where
  "merge_inv R out \<longleftrightarrow> sorted_wrt (\<lambda>a b. mr_end a \<le> mr_start b) out \<and>
     (\<forall>mr \<in> set out. mr_ok R mr \<and> mr_bigPageCount mr = (mr_end mr - mr_start mr) div bigPageSize)"

abbreviation indices :: "TempMergedRange list \<Rightarrow> nat list" where
  "indices out \<equiv> concat (map (\<lambda>mr. [firstOrigIdx mr..<lastOrigIdx mr + 1]) out)"

lemma roundUp_big:
  assumes "unat a + 2097152 \<le> 2 ^ 64"
  shows "unat (roundUpToNearestMultiple a bigPageSize) = (unat a + 2097151) div 2097152 * 2097152"
  using unat_round(2) [of bigPageSize a] assms by simp

lemma roundDown_big: "unat (roundDownToNearestMultiple a bigPageSize) = unat a div 2097152 * 2097152"
  using unat_round(1) [of bigPageSize a] by simp

lemma multiple_below: "(d :: nat) dvd a \<Longrightarrow> d dvd b \<Longrightarrow> a < b \<Longrightarrow> a + d \<le> b"
  by (auto elim!: dvdE simp: mult_less_cancel1) (metis Suc_leI mult_Suc_right mult_le_mono2 add.commute)

lemma merged_start:
  assumes "range_ok (R ! i)" "i < length R"
  shows "merged_ok R (roundDownToNearestMultiple (rng_start (R ! i)) bigPageSize)
    (roundUpToNearestMultiple (rng_end (R ! i)) bigPageSize) i i"
proof -
  let ?s = "unat (rng_start (R ! i))" and ?e = "unat (rng_end (R ! i))"
  have r: "?s < ?e" "unat (rng_end (R ! i)) + 2097152 \<le> 2 ^ 64" using assms(1) by (simp_all add: range_ok_def word_less_nat_alt)
  note U = roundUp_big [OF r(2)] and D = roundDown_big [of "rng_start (R ! i)"]
  have d: "?s div 2097152 * 2097152 \<le> ?s" "?s < ?s div 2097152 * 2097152 + 2097152"
    and u: "?e \<le> (?e + 2097151) div 2097152 * 2097152" "(?e + 2097151) div 2097152 * 2097152 < ?e + 2097152" by linarith+
  show ?thesis
    unfolding merged_ok_def word_less_nat_alt word_le_nat_alt U D
  proof (intro conjI ballI allI impI)
    fix b assume b: "2097152 dvd b \<and> ?s div 2097152 * 2097152 \<le> b \<and> b < (?e + 2097151) div 2097152 * 2097152"
    then have "b + 2097152 \<le> (?e + 2097151) div 2097152 * 2097152" using multiple_below [of 2097152 b] by simp
    then show "\<exists>j \<in> {i..i}. unat (rng_start (R ! j)) < b + 2097152 \<and> b < unat (rng_end (R ! j))" using b d u by simp
  qed (use assms(2) r d u in auto)
qed

lemma merged_extend:
  assumes ok: "merged_ok R s e f l" and i: "Suc l < length R" "range_ok (R ! Suc l)"
    and le: "rng_start (R ! f) \<le> rng_start (R ! Suc l)" "roundDownToNearestMultiple (rng_start (R ! Suc l)) bigPageSize < e"
  defines "c \<equiv> roundUpToNearestMultiple (rng_end (R ! Suc l)) bigPageSize"
  shows "merged_ok R s (if e < c then c else e) f (Suc l)"
proof -
  let ?s = "unat (rng_start (R ! Suc l))" and ?e = "unat (rng_end (R ! Suc l))"
  note M = ok [unfolded merged_ok_def word_less_nat_alt word_le_nat_alt]
  have r: "unat (rng_end (R ! Suc l)) + 2097152 \<le> 2 ^ 64" using i(2) by (simp add: range_ok_def)
  have c: "unat c = (?e + 2097151) div 2097152 * 2097152" unfolding c_def by (rule roundUp_big [OF r])
  have cb: "?e \<le> unat c" "unat c < ?e + 2097152" "2097152 dvd unat c" unfolding c by (simp, linarith, simp)
  have sd: "?s div 2097152 * 2097152 < unat e" using le(2) by (simp add: word_less_nat_alt roundDown_big)
  have "?s < ?s div 2097152 * 2097152 + 2097152" by linarith
  also have "\<dots> \<le> unat e" using multiple_below [OF _ _ sd] M by simp
  finally have se: "?s < unat e" .
  have "unat s \<le> unat (rng_start (R ! f))" using M by simp
  then have ms: "unat s \<le> ?s" using le(1) by (simp add: word_le_nat_alt)
  define E where "E = (if e < c then c else e)"
  have E: "unat E = max (unat e) (unat c)" by (simp add: E_def word_less_nat_alt max_def)
  have "merged_ok R s E f (Suc l)"
    unfolding merged_ok_def word_less_nat_alt word_le_nat_alt E
  proof (intro conjI ballI allI impI)
    fix b assume b: "2097152 dvd b \<and> unat s \<le> b \<and> b < max (unat e) (unat c)"
    show "\<exists>j \<in> {f..Suc l}. unat (rng_start (R ! j)) < b + 2097152 \<and> b < unat (rng_end (R ! j))"
    proof (cases "b < unat e")
      case True
      then show ?thesis using M b by (metis atLeastAtMost_iff le_Suc_eq)
    next
      case False
      then have bc: "b < unat c" using b by linarith
      have "b + 2097152 \<le> unat c" by (rule multiple_below [OF _ cb(3) bc]) (use b in simp)
      then have "?s < b + 2097152 \<and> b < ?e" using False se cb(2) by linarith
      moreover have "Suc l \<in> {f..Suc l}" using M by simp
      ultimately show ?thesis by blast
    qed
  next
    fix j assume "j \<in> {f..Suc l}"
    then have "j \<in> {f..l} \<or> j = Suc l" by auto
    then show "unat s \<le> unat (rng_start (R ! j))" "unat (rng_end (R ! j)) \<le> max (unat e) (unat c)"
      using M ms cb(1) by (auto simp: le_max_iff_disj)
  next
    show "2097152 dvd max (unat e) (unat c)" using M cb(3) by (simp add: max_def)
  qed (use M i(1) in auto)
  then show ?thesis by (simp only: E_def)
qed

lemma mergeLoop_spec:
  assumes R: "\<forall>r \<in> set R. range_ok r" "sorted_wrt (\<lambda>a b. rng_start a \<le> rng_start b) R"
    and "drop i R = rs" "0 < i" "i \<le> length R" "merge_inv R out" "merged_ok R ms me fi (i - 1)" "\<forall>mr \<in> set out. mr_end mr \<le> ms"
    "indices out @ [fi..<i] = [0..<i]" "length out + length rs < maxOut"
  shows "\<exists>out'. mergeLoop maxOut rs i ms me fi out = Inr out' \<and> merge_inv R out' \<and> indices out' = [0..<length R] \<and> out' \<noteq> []"
  using assms(3-)
proof (induction rs arbitrary: i ms me fi out)
  case Nil
  have "i = length R" using Nil.prems(1,3) by simp
  moreover have "merge_inv R (out @ [mergedRange ms me fi (i - 1)])"
    using Nil.prems(4-6) by (auto simp: merge_inv_def sorted_wrt_append mergedRange_def)
  moreover have "indices (out @ [mergedRange ms me fi (i - 1)]) = [0..<i]" using Nil.prems(2,7) by (simp add: mergedRange_def del: upt_Suc)
  ultimately show ?case using Nil.prems(8) by simp
next
  case (Cons r rs)
  have i: "i < length R" "R ! i = r" "drop (Suc i) R = rs"
    using Cons.prems(1,3) tl_drop [of i R] by (auto simp: nth_via_drop drop_Suc intro: ccontr)
  have ok: "range_ok (R ! i)" using R(1) i(1) by simp
  have "fi \<le> i - 1" "ms < me" using Cons.prems(5) by (simp_all add: merged_ok_def)
  then have fi: "fi < i" "ms < me" using Cons.prems(2) by simp_all
  let ?n = "roundDownToNearestMultiple (rng_start r) bigPageSize" and ?c = "roundUpToNearestMultiple (rng_end r) bigPageSize"
  show ?case
  proof (cases "?n < me")
    case True
    have "rng_start (R ! fi) \<le> rng_start (R ! i)" using R(2) fi(1) i(1) by (simp add: sorted_wrt_iff_nth_less)
    moreover obtain l where l: "i = Suc l" using Cons.prems(2) by (cases i) simp_all
    ultimately have "merged_ok R ms (if me < ?c then ?c else me) fi (Suc i - 1)"
      using merged_extend [of R ms me fi l] Cons.prems(5) i(1) ok True unfolding i(2) [symmetric] l diff_Suc_1 by blast
    then have "\<exists>out'. mergeLoop maxOut rs (Suc i) ms (if me < ?c then ?c else me) fi out = Inr out' \<and> merge_inv R out' \<and>
        indices out' = [0..<length R] \<and> out' \<noteq> []"
      using Cons.prems fi by (intro Cons.IH) (use i in auto)
    then show ?thesis using True by (simp add: Let_def)
  next
    case False
    let ?m = "mergedRange ms me fi (i - 1)"
    have n: "merged_ok R ?n ?c i i" using merged_start [OF ok i(1)] i(2) by simp
    have le: "me \<le> ?n" "ms \<le> ?n" using False fi(2) by simp_all
    have "merge_inv R (out @ [?m])"
      using Cons.prems(4-6) by (auto simp: merge_inv_def sorted_wrt_append mergedRange_def)
    moreover have "indices (out @ [?m]) = [0..<i]" using Cons.prems(2,7) by (simp add: mergedRange_def del: upt_Suc)
    then have "indices (out @ [?m]) @ [i..<Suc i] = [0..<Suc i]" unfolding upt_Suc by simp
    moreover have "\<forall>mr \<in> set (out @ [?m]). mr_end mr \<le> ?n" using Cons.prems(6) le by (auto simp: mergedRange_def intro: order_trans)
    ultimately have "\<exists>out'. mergeLoop maxOut rs (Suc i) ?n ?c i (out @ [?m]) = Inr out' \<and> merge_inv R out' \<and>
        indices out' = [0..<length R] \<and> out' \<noteq> []"
      using Cons.prems(8) n by (intro Cons.IH) (use i in auto)
    then show ?thesis using False Cons.prems(8) by (simp add: Let_def)
  qed
qed

lemma sort_all:
  assumes "weak_order cmp" "d \<noteq> []" "length d < 2 ^ 64"
  shows "\<exists>d'. sort_array cmp d (length d) = Inr d' \<and> mset d' = mset d \<and> sorted_wrt (\<lambda>x y. \<not> cmp y x) d'"
proof -
  obtain d' where d': "sort_array cmp d (length d) = Inr d'" "rearr 0 (length d) d d'" "sortedRange cmp 0 (length d) d'"
    using weak_order.sort_array_correct [OF assms(1), of "length d" d] assms(2,3) by auto
  have len: "length d' = length d" using d'(2) by (rule rearr_length)
  have "mset d' = mset d" using rearr_segment_mset [OF d'(2)] len by (simp add: segment_def)
  moreover have "sorted_wrt (\<lambda>x y. \<not> cmp y x) d'" using d'(3) len by (auto simp: sorted_wrt_iff_nth_less sortedRange_def)
  ultimately show ?thesis using d'(1) by blast
qed

lemma computeMergedRanges_spec:
  assumes "\<forall>r \<in> set ranges. range_ok r" "ranges \<noteq> []" "length ranges \<le> maxOut" "length ranges \<le> MAX_RANGES_PER_DOMAIN"
  shows "\<exists>out R. computeMergedRanges ranges maxOut = Inr (out, R) \<and> mset R = mset ranges \<and>
    sorted_wrt (\<lambda>a b. rng_start a \<le> rng_start b) R \<and> merge_inv R out \<and> indices out = [0..<length R] \<and> out \<noteq> []"
proof -
  let ?n = "length ranges"
  have wo: "weak_order startsBefore" unfolding startsBefore_def by (rule weak_order_key)
  have "\<exists>R. (if 1 < ?n then sort_array startsBefore ranges ?n else Inr ranges) = Inr R \<and> mset R = mset ranges \<and>
      sorted_wrt (\<lambda>a b. rng_start a \<le> rng_start b) R"
  proof (cases "1 < ?n")
    case True
    then show ?thesis using sort_all [OF wo assms(2)] assms(4) by (auto simp: startsBefore_def not_less MAX_RANGES_PER_DOMAIN_def)
  next
    case False
    then obtain x where "ranges = [x]" using assms(2) by (cases ranges) auto
    then show ?thesis by simp
  qed
  then obtain R where R: "(if 1 < ?n then sort_array startsBefore ranges ?n else Inr ranges) = Inr R" "mset R = mset ranges"
      "sorted_wrt (\<lambda>a b. rng_start a \<le> rng_start b) R" by blast
  have len: "length R = ?n" and st: "set R = set ranges" using R(2) by (metis size_mset, metis set_mset_mset)
  have ok: "\<forall>r \<in> set R. range_ok r" using assms(1) st by simp
  have z: "0 < length R" "Suc 0 \<le> ?n" "?n - Suc 0 < maxOut" using len assms(2,3) by (cases ranges; simp)+
  let ?s = "roundDownToNearestMultiple (rng_start (R ! 0)) bigPageSize" and ?e = "roundUpToNearestMultiple (rng_end (R ! 0)) bigPageSize"
  have "\<exists>out. mergeLoop maxOut (tl R) 1 ?s ?e 0 [] = Inr out \<and> merge_inv R out \<and> indices out = [0..<length R] \<and> out \<noteq> []"
    by (rule mergeLoop_spec [OF ok R(3)])
      (use z len assms(3) merged_start [of R 0] ok in \<open>auto simp: merge_inv_def drop_Suc\<close>)
  then show ?thesis using R z len assms(2-4) by (auto simp: computeMergedRanges_def Let_def)
qed

section \<open>Carving a page\<close>

text \<open>The small page in slot \<open>s\<close> of the big page at \<open>b\<close> lies in the range.\<close>

definition slotIn :: "nat \<Rightarrow> nat \<Rightarrow> phys_memory_range \<Rightarrow> bool" where
  "slotIn b s r \<longleftrightarrow> unat (rng_start r) \<le> b + 4096 * s \<and> b + 4096 * s < unat (rng_end r)"

definition page_aligned :: "phys_memory_range \<Rightarrow> bool" where
  "page_aligned r \<longleftrightarrow> 4096 dvd unat (rng_start r) \<and> 4096 dvd unat (rng_end r) \<and> rng_start r < rng_end r"

text \<open>The page a metadata entry describes never changes while it is carved.\<close>

definition same_page :: "BigPageMetadata \<Rightarrow> BigPageMetadata \<Rightarrow> bool" where
  "same_page m m' \<longleftrightarrow> bpm_base m' = bpm_base m \<and> ownerPool m' = ownerPool m \<and> allocHolder m' = allocHolder m"

lemma reserveSmallPageRange_spec:
  assumes "pg_inv m {}" "unat a = unat (bpm_base m) + 4096 * j" "unat e = unat (bpm_base m) + 4096 * k"
    "k \<le> 512" "unat (bpm_base m) + 2097152 < 2 ^ 64"
  shows "\<exists>m'. reserveSmallPageRange m a e = Inr m' \<and> pg_inv m' {} \<and> pg_avail m' = pg_avail m - {j..<k} \<and> same_page m m'"
proof -
  have "(4096 :: nat) dvd 2097152" by simp
  then have "4096 dvd unat (bpm_base m)" using pg_invD(3) [OF assms(1)] by (rule dvd_trans)
  then have "a mod smallPageSize = 0" "e mod smallPageSize = 0" using assms(2,3) by (simp_all add: mod_page_iff)
  then show ?thesis using reserveLoop_spec [OF assms(1-4) _ assms(5), of 512] assms(4)
    by (simp add: reserveSmallPageRange_def same_page_def)
qed

lemma page_slot:
  assumes "2097152 dvd b" "4096 dvd (x :: nat)" "b \<le> x" "x \<le> b + 2097152"
  obtains k where "x = b + 4096 * k" "k \<le> 512"
proof -
  have "(4096 :: nat) dvd 2097152" by simp
  then have "4096 dvd b" using assms(1) by (rule dvd_trans)
  then have "4096 dvd x - b" using assms(2) by (intro dvd_diff_nat)
  then obtain k where "x - b = 4096 * k" by (auto elim: dvdE)
  then show ?thesis using that [of k] assms(3,4) by simp
qed

lemma clamped_slots:
  assumes "2097152 dvd b" "4096 dvd x" "4096 dvd y" "x < y" "x < b + 2097152" "b < (y :: nat)"
  obtains a e where "max b x = b + 4096 * a" "min y (b + 2097152) = b + 4096 * e" "a < e" "e \<le> 512" "0 < a \<longrightarrow> x = b + 4096 * a"
    "\<And>s. s < 512 \<Longrightarrow> x \<le> b + 4096 * s \<and> b + 4096 * s < y \<longleftrightarrow> a \<le> s \<and> s < e"
proof -
  have "(4096 :: nat) dvd 2097152" by simp
  then have b: "4096 dvd b" using assms(1) by (rule dvd_trans)
  have mx: "4096 dvd max b x" "b \<le> max b x" "max b x \<le> b + 2097152" using b assms(2,5) by (simp_all add: max_def)
  obtain a where a: "max b x = b + 4096 * a" by (rule page_slot [OF assms(1) mx])
  have mn: "4096 dvd min y (b + 2097152)" "b \<le> min y (b + 2097152)" "min y (b + 2097152) \<le> b + 2097152"
    using b assms(3,6) by (simp_all add: min_def)
  obtain e where e: "min y (b + 2097152) = b + 4096 * e" "e \<le> 512" by (rule page_slot [OF assms(1) mn])
  have "x \<le> b + 4096 * s \<longleftrightarrow> a \<le> s" for s using a by (auto simp: max_def split: if_splits)
  moreover have "b + 4096 * s < y \<longleftrightarrow> s < e" if "s < 512" for s using e that by (auto simp: min_def split: if_splits)
  moreover have "a < e" "0 < a \<longrightarrow> x = b + 4096 * a" using a e assms(4-6) by (auto simp: max_def min_def split: if_splits)
  ultimately show ?thesis using that [OF a e(1) _ e(2)] by simp
qed

lemma coverGaps_spec:
  assumes "pg_inv m {}" "bpm_base m = bs" "unat bs + 2097152 < 2 ^ 64" "unat pe = unat bs + 4096 * j" "j \<le> 512" "{j..<512} \<subseteq> pg_avail m"
    "\<forall>r \<in> set rs. page_aligned r" "sorted_wrt (\<lambda>a b. rng_start a \<le> rng_start b) rs"
    "\<forall>r \<in> set rs. \<forall>s < j. s \<notin> pg_avail m \<longrightarrow> \<not> slotIn (unat bs) s r"
  shows "\<exists>pe' j' m'. coverGaps bs (bs + bigPageSize) rs pe m = Inr (pe', m') \<and> unat pe' = unat bs + 4096 * j' \<and> j' \<le> 512 \<and>
    pg_inv m' {} \<and> same_page m m' \<and> {j'..<512} \<subseteq> pg_avail m' \<and>
    pg_avail m' \<inter> {..<j'} = (pg_avail m \<inter> {..<j}) \<union> {s. s < 512 \<and> (\<exists>r \<in> set rs. slotIn (unat bs) s r)}"
  using assms
proof (induction rs arbitrary: pe m j)
  case Nil
  then show ?case by (auto simp: same_page_def)
next
  case (Cons r rs)
  let ?b = "unat bs" and ?be = "bs + bigPageSize"
  have b: "2097152 dvd ?b" using pg_invD(3) [OF Cons.prems(1)] Cons.prems(2) by simp
  have be: "unat ?be = ?b + 2097152" using Cons.prems(3) by (simp add: unat_word_ariths)
  have al: "4096 dvd unat (rng_start r)" "4096 dvd unat (rng_end r)" "unat (rng_start r) < unat (rng_end r)"
    using Cons.prems(7) by (simp_all add: page_aligned_def word_less_nat_alt)
  have later: "unat (rng_start r) \<le> unat (rng_start q)" if "q \<in> set rs" for q using Cons.prems(8) that by (simp add: word_le_nat_alt)
  define cs where "cs = (if bs < rng_start r then rng_start r else bs)"
  define ce where "ce = (if rng_end r < ?be then rng_end r else ?be)"
  have cs: "unat cs = max ?b (unat (rng_start r))" by (simp add: cs_def word_less_nat_alt max_def)
  have ce: "unat ce = min (unat (rng_end r)) (?b + 2097152)" by (simp add: ce_def word_less_nat_alt min_def be)
  have unf: "coverGaps bs ?be (r # rs) pe m =
      (if ?be \<le> cs then Inr (pe, m) else if ce \<le> bs then coverGaps bs ?be rs pe m
       else bindO (if pe < cs then reserveSmallPageRange m pe cs else Inr m) (\<lambda>m'. coverGaps bs ?be rs (if pe < ce then ce else pe) m'))"
    by (simp add: Let_def cs_def ce_def)
  consider (past) "?be \<le> cs" | (below) "\<not> ?be \<le> cs" "ce \<le> bs" | (mid) "\<not> ?be \<le> cs" "\<not> ce \<le> bs" by blast
  then show ?case
  proof cases
    case past
    then have "?b + 2097152 \<le> unat (rng_start r)" using cs be by (simp add: word_le_nat_alt)
    then have "\<not> slotIn ?b s q" if "s < 512" "q \<in> set (r # rs)" for s q using that later by (force simp: slotIn_def)
    then have "{s. s < 512 \<and> (\<exists>q \<in> set (r # rs). slotIn ?b s q)} = {}" by blast
    then show ?thesis using Cons.prems past unf by (auto simp: same_page_def)
  next
    case below
    then have "unat (rng_end r) \<le> ?b" using ce by (simp add: word_le_nat_alt)
    then have no: "\<not> slotIn ?b s r" for s by (simp add: slotIn_def)
    have "\<exists>pe' j' m'. coverGaps bs ?be rs pe m = Inr (pe', m') \<and> unat pe' = ?b + 4096 * j' \<and> j' \<le> 512 \<and>
        pg_inv m' {} \<and> same_page m m' \<and> {j'..<512} \<subseteq> pg_avail m' \<and>
        pg_avail m' \<inter> {..<j'} = (pg_avail m \<inter> {..<j}) \<union> {s. s < 512 \<and> (\<exists>r \<in> set rs. slotIn ?b s r)}"
      by (rule Cons.IH) (use Cons.prems in auto)
    then show ?thesis using below unf no by simp
  next
    case mid
    have lt: "unat (rng_start r) < ?b + 2097152" "?b < unat (rng_end r)" using mid cs ce be by (auto simp: word_le_nat_alt)
    obtain a e where ae: "unat cs = ?b + 4096 * a" "unat ce = ?b + 4096 * e" "a < e" "e \<le> 512"
        "0 < a \<longrightarrow> unat (rng_start r) = ?b + 4096 * a" "\<And>s. s < 512 \<Longrightarrow> slotIn ?b s r \<longleftrightarrow> a \<le> s \<and> s < e"
      unfolding cs ce slotIn_def using clamped_slots [OF b al lt] by metis
    have "\<exists>m1. (if pe < cs then reserveSmallPageRange m pe cs else Inr m) = Inr m1 \<and> pg_inv m1 {} \<and>
        pg_avail m1 = pg_avail m - {j..<a} \<and> same_page m m1"
    proof (cases "pe < cs")
      case True
      then show ?thesis using reserveSmallPageRange_spec [of m pe j cs a] Cons.prems(1-4) ae(1,3,4) by simp
    next
      case False
      then show ?thesis using Cons.prems(1,4) ae(1) by (simp add: word_less_nat_alt same_page_def)
    qed
    then obtain m1 where m1: "(if pe < cs then reserveSmallPageRange m pe cs else Inr m) = Inr m1" "pg_inv m1 {}"
        "pg_avail m1 = pg_avail m - {j..<a}" "same_page m m1" by blast
    let ?j = "max j e" and ?pe = "if pe < ce then ce else pe"
    have pe: "unat ?pe = ?b + 4096 * ?j" using ae(2) Cons.prems(4) by (simp add: word_less_nat_alt max_def)
    have un: "\<not> slotIn ?b s q" if q: "q \<in> set rs" and s: "s < ?j" "s \<notin> pg_avail m1" for q s
    proof (cases "s < j \<and> s \<notin> pg_avail m")
      case True
      then show ?thesis using Cons.prems(9) q by simp
    next
      case False
      then have "j \<le> s" "s < a" using s m1(3) Cons.prems(5,6) ae(3,4) by (auto simp: subset_iff)
      then show ?thesis using ae(5) later [OF q] by (simp add: slotIn_def)
    qed
    have "\<exists>pe' j' m'. coverGaps bs ?be rs ?pe m1 = Inr (pe', m') \<and> unat pe' = ?b + 4096 * j' \<and> j' \<le> 512 \<and>
        pg_inv m' {} \<and> same_page m1 m' \<and> {j'..<512} \<subseteq> pg_avail m' \<and>
        pg_avail m' \<inter> {..<j'} = (pg_avail m1 \<inter> {..<?j}) \<union> {s. s < 512 \<and> (\<exists>r \<in> set rs. slotIn ?b s r)}"
      by (rule Cons.IH [OF m1(2) _ Cons.prems(3) pe]) (use Cons.prems m1(3,4) ae(3,4) un in \<open>auto simp: same_page_def\<close>)
    moreover have "pg_avail m1 \<inter> {..<?j} = (pg_avail m \<inter> {..<j}) \<union> {s. s < 512 \<and> slotIn ?b s r}"
    proof (intro set_eqI iffI)
      fix s assume "s \<in> pg_avail m1 \<inter> {..<?j}"
      then show "s \<in> (pg_avail m \<inter> {..<j}) \<union> {s. s < 512 \<and> slotIn ?b s r}" using m1(3) ae(4,6) by fastforce
    next
      fix s assume "s \<in> (pg_avail m \<inter> {..<j}) \<union> {s. s < 512 \<and> slotIn ?b s r}"
      then have "s \<in> pg_avail m \<and> s < j \<or> s < 512 \<and> slotIn ?b s r" by blast
      moreover have "s \<in> pg_avail m" if "s < 512" "slotIn ?b s r" using that Cons.prems(6,9) by (cases "s < j") auto
      ultimately show "s \<in> pg_avail m1 \<inter> {..<?j}" using m1(3) ae(6) by fastforce
    qed
    ultimately show ?thesis using mid unf m1(1,4) by (auto simp: same_page_def)
  qed
qed

lemma carvePage_spec:
  assumes m: "pg_inv m {}" "bpm_base m = bs" "pg_avail m = {..<512}" "unat bs + 2097152 < 2 ^ 64"
    and rs: "\<forall>r \<in> set rs. page_aligned r" "sorted_wrt (\<lambda>a b. rng_start a \<le> rng_start b) rs"
  shows "\<exists>m'. carvePage rs m bs = Inr m' \<and> pg_inv m' {} \<and> same_page m m' \<and>
    pg_avail m' = {s. s < 512 \<and> (\<exists>r \<in> set rs. slotIn (unat bs) s r)}"
proof -
  let ?b = "unat bs" and ?be = "bs + bigPageSize"
  have be: "unat ?be = ?b + 4096 * 512" using m(4) by (simp add: unat_word_ariths)
  obtain pe j m1 where c: "coverGaps bs ?be rs bs m = Inr (pe, m1)" "unat pe = ?b + 4096 * j" "j \<le> 512"
      "pg_inv m1 {}" "same_page m m1" "{j..<512} \<subseteq> pg_avail m1"
      "pg_avail m1 \<inter> {..<j} = {s. s < 512 \<and> (\<exists>r \<in> set rs. slotIn ?b s r)}"
    using coverGaps_spec [OF m(1,2,4), of bs 0 rs] m(3) rs by (auto simp: lessThan_atLeast0)
  have b1: "bpm_base m1 = bs" using c(5) m(2) by (simp add: same_page_def)
  have sub: "pg_avail m1 \<subseteq> {..<512}" by (rule pg_invD(5) [OF c(4)])
  show ?thesis
  proof (cases "pe < ?be")
    case True
    obtain m2 where m2: "reserveSmallPageRange m1 pe ?be = Inr m2" "pg_inv m2 {}" "pg_avail m2 = pg_avail m1 - {j..<512}" "same_page m1 m2"
      using reserveSmallPageRange_spec [OF c(4), of pe j ?be 512] c(2) be b1 m(4) by auto
    have "pg_avail m2 = pg_avail m1 \<inter> {..<j}" using m2(3) sub by auto
    then show ?thesis using True c m2 by (auto simp: carvePage_def Let_def same_page_def)
  next
    case False
    then have "j = 512" using c(2,3) be by (simp add: word_less_nat_alt)
    then have "pg_avail m1 = pg_avail m1 \<inter> {..<j}" using sub by auto
    then show ?thesis using False c by (auto simp: carvePage_def Let_def)
  qed
qed

end
