(* ===== verification/Pool_Create.thy ===== *)
theory Pool_Create
  imports Pool_Factory
begin

text \<open>
  \<open>createNumaPool\<close> builds a correct pool: the metadata array and the subranges fit together, every
  page has something to offer, and the available small pages are those of the given ranges.
\<close>

section \<open>The metadata of one merged range\<close>

definition pageCount :: "TempMergedRange \<Rightarrow> nat" where
  "pageCount mr = (unat (mr_end mr) - unat (mr_start mr)) div 2097152"

text \<open>What the metadata of page \<open>k\<close> of a merged range looks like after carving.\<close>

definition page_made :: "nat \<Rightarrow> phys_memory_range list \<Rightarrow> TempMergedRange \<Rightarrow> nat \<Rightarrow> BigPageMetadata \<Rightarrow> bool" where
  "page_made pp R mr k m \<longleftrightarrow> pg_inv m {} \<and> unat (bpm_base m) = unat (mr_start mr) + k * 2097152 \<and> ownerPool m = pp \<and>
     allocHolder m = SIZE_MAX \<and> pg_avail m \<noteq> {} \<and>
     pg_avail m = {s. s < 512 \<and> (\<exists>i \<in> {firstOrigIdx mr..lastOrigIdx mr}. slotIn (unat (bpm_base m)) s (R ! i))}"

lemma merged_okD:
  assumes "merged_ok R s e f l"
  shows "2097152 dvd unat s" "2097152 dvd unat e" "l < length R" "i \<le> l \<Longrightarrow> R ! i \<in> set R"
    "f \<le> i \<Longrightarrow> i \<le> l \<Longrightarrow> unat s \<le> unat (rng_start (R ! i)) \<and> unat (rng_end (R ! i)) \<le> unat e"
  using assms by (simp_all add: merged_ok_def word_le_nat_alt)

lemma page_base_4096: "pg_inv m L \<Longrightarrow> 4096 dvd unat (bpm_base m)"
proof -
  assume "pg_inv m L"
  moreover have "(4096 :: nat) dvd 2097152" by simp
  ultimately show ?thesis using pg_invD(3) dvd_trans by blast
qed

lemma merged_ok_span:
  assumes "mr_ok R mr"
  shows "unat (mr_start mr) + pageCount mr * 2097152 = unat (mr_end mr)"
    "unat (mr_start mr) + k * 2097152 < unat (mr_end mr) \<longleftrightarrow> k < pageCount mr"
proof -
  have "2097152 dvd unat (mr_end mr) - unat (mr_start mr)" "unat (mr_start mr) \<le> unat (mr_end mr)"
    using assms by (auto simp: merged_ok_def word_less_nat_alt intro: dvd_diff_nat)
  then show a: "unat (mr_start mr) + pageCount mr * 2097152 = unat (mr_end mr)" by (simp add: pageCount_def)
  show "unat (mr_start mr) + k * 2097152 < unat (mr_end mr) \<longleftrightarrow> k < pageCount mr" unfolding a [symmetric] by simp
qed

lemma unat_bigPageCount:
  assumes "mr_ok R mr" "mr_bigPageCount mr = (mr_end mr - mr_start mr) div bigPageSize"
  shows "unat (mr_bigPageCount mr) = pageCount mr"
proof -
  have "mr_start mr \<le> mr_end mr" using assms(1) unfolding merged_ok_def by (blast intro: less_imp_le)
  then show ?thesis using assms(2) unat_sub [of "mr_start mr" "mr_end mr"] by (simp add: pageCount_def unat_div_distrib)
qed

lemma pageBases_spec:
  assumes "mr_ok R mr" "mr_bigPageCount mr = (mr_end mr - mr_start mr) div bigPageSize"
  shows "length (pageBases mr) = pageCount mr"
    "k < pageCount mr \<Longrightarrow> unat (pageBases mr ! k) = unat (mr_start mr) + k * 2097152"
proof -
  show len: "length (pageBases mr) = pageCount mr" using unat_bigPageCount [OF assms] by (simp add: pageBases_def)
  assume k: "k < pageCount mr"
  have lt: "unat (mr_start mr) + k * 2097152 < 2 ^ 64"
    using merged_ok_span(2) [OF assms(1), of k] k unat_lt_64 [of "mr_end mr"] by simp
  have "unat (of_nat k :: u64) = k" using lt by (simp add: unat_of_nat_64)
  then have "unat (of_nat k * bigPageSize) = k * 2097152" using lt by (simp add: unat_word_ariths)
  then show "unat (pageBases mr ! k) = unat (mr_start mr) + k * 2097152"
    using lt k unat_bigPageCount [OF assms] by (simp add: pageBases_def unat_word_ariths)
qed

lemma page_offers:
  assumes "2097152 dvd b" "page_aligned r" "unat (rng_start r) < b + 2097152" "b < unat (rng_end r)"
  obtains s where "s < 512" "slotIn b s r"
proof -
  have r: "4096 dvd unat (rng_start r)" "4096 dvd unat (rng_end r)" "unat (rng_start r) < unat (rng_end r)"
    using assms(2) by (simp_all add: page_aligned_def word_less_nat_alt)
  obtain a e where "a < e" "e \<le> 512" "\<And>s. s < 512 \<Longrightarrow> slotIn b s r \<longleftrightarrow> a \<le> s \<and> s < e"
    unfolding slotIn_def using clamped_slots [OF assms(1) r assms(3,4)] by metis
  then show ?thesis using that [of a] by simp
qed

lemma rangeMetadata_spec:
  assumes R: "\<forall>r \<in> set R. page_aligned r" "sorted_wrt (\<lambda>a b. rng_start a \<le> rng_start b) R"
    and mr: "mr_ok R mr" "mr_bigPageCount mr = (mr_end mr - mr_start mr) div bigPageSize"
  shows "\<exists>ms. rangeMetadata pp R mr = Inr ms \<and> length ms = pageCount mr \<and> (\<forall>k < pageCount mr. page_made pp R mr k (ms ! k))"
proof -
  let ?f = "firstOrigIdx mr" and ?l = "lastOrigIdx mr" and ?bs = "pageBases mr"
  define origs where "origs = take (?l + 1 - ?f) (drop ?f R)"
  have M: "?f \<le> ?l" "?l < length R" "2097152 dvd unat (mr_start mr)" using mr(1) by (simp_all add: merged_ok_def)
  have "origs = map ((!) R) [?f..<?l + 1]" using M(1,2) by (intro nth_equalityI) (simp_all add: origs_def del: upt_Suc)
  then have so: "set origs = (!) R ` {?f..?l}" by (simp add: atLeastLessThanSuc_atLeastAtMost del: upt_Suc)
  have al: "\<forall>r \<in> set origs. page_aligned r" using R(1) so M(2) by auto
  have srt: "sorted_wrt (\<lambda>a b. rng_start a \<le> rng_start b) origs" unfolding origs_def by (intro sorted_wrt_take sorted_wrt_drop R(2))
  note B = pageBases_spec [OF mr]
  define made where "made = (\<lambda>b m. pg_inv m {} \<and> pg_avail m = {..<512} \<and> bpm_base m = b \<and> ownerPool m = pp \<and> allocHolder m = SIZE_MAX)"
  have dv: "2097152 dvd unat b" if "b \<in> set ?bs" for b using that B M(3) by (auto simp: in_set_conv_nth)
  have "\<exists>m. mkBigPageMetadata pp b = Inr m \<and> made b m" if "b \<in> set ?bs" for b
    using mkBigPageMetadata_spec [OF dv [OF that]] by (simp add: made_def)
  then obtain ms where ms: "mapO (mkBigPageMetadata pp) ?bs = Inr ms" "list_all2 made ?bs ms" using mapO_list_all2 by metis
  have lm: "length ms = pageCount mr" using ms(2) B(1) by (simp add: list_all2_lengthD)
  have mk: "made (?bs ! k) (ms ! k)" if "k < pageCount mr" for k using list_all2_nthD [OF ms(2)] that B(1) by simp
  have top: "unat (?bs ! k) + 2097152 < 2 ^ 64" if "k < pageCount mr" for k
  proof -
    have "unat (mr_start mr) + k * 2097152 + 2097152 \<le> unat (mr_start mr) + pageCount mr * 2097152" using that by simp
    then show ?thesis using merged_ok_span(1) [OF mr(1)] B(2) [OF that] unat_lt_64 [of "mr_end mr"] by simp
  qed
  define carved where "carved = (\<lambda>(m, b :: u64) m'. pg_inv m' {} \<and> same_page m m' \<and> pg_avail m' = {s. s < 512 \<and> (\<exists>r \<in> set origs. slotIn (unat b) s r)})"
  have "\<exists>m'. (\<lambda>(m, b). carvePage origs m b) x = Inr m' \<and> carved x m'" if "x \<in> set (zip ms ?bs)" for x
  proof -
    obtain k where k: "x = (ms ! k, ?bs ! k)" "k < pageCount mr" using \<open>x \<in> set (zip ms ?bs)\<close> lm B(1) by (auto simp: set_zip)
    show ?thesis using carvePage_spec [of "ms ! k" "?bs ! k" origs] mk [OF k(2)] top [OF k(2)] al srt k(1)
      by (simp add: made_def carved_def)
  qed
  then obtain ms' where ms': "mapO (\<lambda>(m, b). carvePage origs m b) (zip ms ?bs) = Inr ms'" "list_all2 carved (zip ms ?bs) ms'"
    using mapO_list_all2 by metis
  have l': "length ms' = pageCount mr" using ms'(2) lm B(1) by (simp add: list_all2_lengthD [symmetric])
  have "page_made pp R mr k (ms' ! k)" if k: "k < pageCount mr" for k
  proof -
    have c: "carved (ms ! k, ?bs ! k) (ms' ! k)" using list_all2_nthD [OF ms'(2), of k] k lm B(1) by simp
    have b: "bpm_base (ms' ! k) = ?bs ! k" "ownerPool (ms' ! k) = pp" "allocHolder (ms' ! k) = SIZE_MAX"
      using c mk [OF k] by (simp_all add: carved_def same_page_def made_def)
    have av: "pg_avail (ms' ! k) = {s. s < 512 \<and> (\<exists>i \<in> {?f..?l}. slotIn (unat (bpm_base (ms' ! k))) s (R ! i))}"
      using c b(1) so by (simp add: carved_def)
    have bk: "2097152 dvd unat (?bs ! k)" using dv B(1) k by simp
    have "unat (mr_start mr) + k * 2097152 < unat (mr_end mr)" using merged_ok_span(2) [OF mr(1)] k by simp
    then obtain i where i: "i \<in> {?f..?l}" "unat (rng_start (R ! i)) < unat (?bs ! k) + 2097152" "unat (?bs ! k) < unat (rng_end (R ! i))"
      using mr(1) B(2) [OF k] bk unfolding merged_ok_def by (metis le_add1)
    have "page_aligned (R ! i)" using R(1) i(1) M(2) by simp
    then obtain s where "s < 512" "slotIn (unat (?bs ! k)) s (R ! i)" by (rule page_offers [OF bk _ i(2,3)])
    then have ne: "pg_avail (ms' ! k) \<noteq> {}" unfolding av b(1) using i(1) by blast
    have pi: "pg_inv (ms' ! k) {}" "unat (bpm_base (ms' ! k)) = unat (mr_start mr) + k * 2097152"
      using c b(1) B(2) [OF k] by (simp_all add: carved_def)
    show ?thesis unfolding page_made_def by (intro conjI pi b(2,3) ne av)
  qed
  then show ?thesis using ms(1) ms'(1) l' by (auto simp: rangeMetadata_def origs_def Let_def)
qed

section \<open>All merged ranges\<close>

fun laid_out :: "nat \<Rightarrow> phys_memory_range list \<Rightarrow> nat \<Rightarrow> TempMergedRange list \<Rightarrow> BigPageMetadata list \<Rightarrow> SubrangeInfo list \<Rightarrow> bool" where
  "laid_out pp R i0 [] ms srs \<longleftrightarrow> ms = [] \<and> srs = []"
| "laid_out pp R i0 (mr # mrs) ms srs \<longleftrightarrow> (\<exists>ms1 ms2 srs2. ms = ms1 @ ms2 \<and>
     srs = \<lparr>rangeStart = mr_start mr, rangeEnd = mr_end mr, metadataBase = i0\<rparr> # srs2 \<and>
     length ms1 = pageCount mr \<and> (\<forall>k < pageCount mr. page_made pp R mr k (ms1 ! k)) \<and>
     laid_out pp R (i0 + pageCount mr) mrs ms2 srs2)"

lemma populate_spec:
  assumes R: "\<forall>r \<in> set R. page_aligned r" "sorted_wrt (\<lambda>a b. rng_start a \<le> rng_start b) R"
    and "\<forall>mr \<in> set mrs. mr_ok R mr \<and> mr_bigPageCount mr = (mr_end mr - mr_start mr) div bigPageSize"
  shows "\<exists>ms srs. populate pp R i0 mrs = Inr (ms, srs) \<and> laid_out pp R i0 mrs ms srs"
  using assms(3)
proof (induction mrs arbitrary: i0)
  case (Cons mr mrs)
  have mr: "mr_ok R mr" "mr_bigPageCount mr = (mr_end mr - mr_start mr) div bigPageSize" using Cons.prems by simp_all
  obtain ms1 where ms1: "rangeMetadata pp R mr = Inr ms1" "length ms1 = pageCount mr" "\<forall>k < pageCount mr. page_made pp R mr k (ms1 ! k)"
    using rangeMetadata_spec [OF R mr] by blast
  obtain ms2 srs2 where ms2: "populate pp R (i0 + pageCount mr) mrs = Inr (ms2, srs2)" "laid_out pp R (i0 + pageCount mr) mrs ms2 srs2"
    using Cons.IH [of "i0 + pageCount mr"] Cons.prems by auto
  show ?case using ms1 ms2 unat_bigPageCount [OF mr] by auto
qed simp

lemma laid_out_ConsE:
  assumes "laid_out pp R i0 (mr # mrs) ms srs"
  obtains ms1 ms2 srs2 where "ms = ms1 @ ms2" "srs = \<lparr>rangeStart = mr_start mr, rangeEnd = mr_end mr, metadataBase = i0\<rparr> # srs2"
    "length ms1 = pageCount mr" "\<forall>k < pageCount mr. page_made pp R mr k (ms1 ! k)" "laid_out pp R (i0 + pageCount mr) mrs ms2 srs2"
  using assms by auto

lemma laid_out_pages:
  assumes "laid_out pp R i0 mrs ms srs"
  shows "(\<forall>m \<in> set ms. \<exists>mr \<in> set mrs. \<exists>k < pageCount mr. page_made pp R mr k m) \<and>
    (\<forall>mr \<in> set mrs. \<forall>k < pageCount mr. \<exists>m \<in> set ms. page_made pp R mr k m)"
  using assms
proof (induction mrs arbitrary: i0 ms srs)
  case (Cons mr mrs)
  obtain ms1 ms2 srs2 where u: "ms = ms1 @ ms2" "length ms1 = pageCount mr" "\<forall>k < pageCount mr. page_made pp R mr k (ms1 ! k)"
      "laid_out pp R (i0 + pageCount mr) mrs ms2 srs2" using Cons.prems by (rule laid_out_ConsE)
  have "\<exists>k < pageCount mr. page_made pp R mr k m" if "m \<in> set ms1" for m using that u(2,3) by (auto simp: in_set_conv_nth)
  moreover have "\<exists>m \<in> set ms1. page_made pp R mr k m" if "k < pageCount mr" for k using u(2,3) that by (auto intro: bexI [of _ "ms1 ! k"])
  ultimately show ?case using Cons.IH [OF u(4)] unfolding u(1) by simp blast
qed simp

lemma laid_out_shape:
  "laid_out pp R i0 mrs ms srs \<Longrightarrow> length ms = sum_list (map pageCount mrs) \<and>
     map rangeStart srs = map mr_start mrs \<and> map rangeEnd srs = map mr_end mrs"
  by (induction mrs arbitrary: i0 ms srs) (simp, elim laid_out_ConsE, auto)

text \<open>How a subrange and its stretch of the metadata array fit together.\<close>

definition stretch :: "nat \<Rightarrow> BigPageMetadata list \<Rightarrow> SubrangeInfo \<Rightarrow> bool" where
  "stretch i0 ms sr \<longleftrightarrow> (\<exists>q. metadataBase sr = i0 + q \<and>
     (\<forall>k. unat (rangeStart sr) + k * 2097152 < unat (rangeEnd sr) \<longrightarrow>
        q + k < length ms \<and> unat (bpm_base (ms ! (q + k))) = unat (rangeStart sr) + k * 2097152))"

lemma stretch_Cons: "stretch (i0 + length ms1) ms2 sr \<Longrightarrow> stretch i0 (ms1 @ ms2) sr"
  unfolding stretch_def by (elim exE, rule_tac x = "length ms1 + q" in exI) (auto simp: nth_append)

lemma laid_out_stretch:
  assumes "laid_out pp R i0 mrs ms srs" "\<forall>mr \<in> set mrs. mr_ok R mr"
  shows "\<forall>sr \<in> set srs. stretch i0 ms sr"
  using assms
proof (induction mrs arbitrary: i0 ms srs)
  case (Cons mr mrs)
  have ok: "mr_ok R mr" "\<forall>m \<in> set mrs. mr_ok R m" using Cons.prems(2) by simp_all
  obtain ms1 ms2 srs2 where u: "ms = ms1 @ ms2" "srs = \<lparr>rangeStart = mr_start mr, rangeEnd = mr_end mr, metadataBase = i0\<rparr> # srs2"
      "length ms1 = pageCount mr" "\<forall>k < pageCount mr. page_made pp R mr k (ms1 ! k)" "laid_out pp R (i0 + pageCount mr) mrs ms2 srs2"
    using Cons.prems(1) by (rule laid_out_ConsE)
  have "stretch i0 ms \<lparr>rangeStart = mr_start mr, rangeEnd = mr_end mr, metadataBase = i0\<rparr>"
    unfolding stretch_def using u(1,3,4) merged_ok_span(2) [OF ok(1)] by (intro exI [of _ 0]) (auto simp: page_made_def nth_append)
  then show ?case using Cons.IH [OF u(5) ok(2)] stretch_Cons [of i0 ms1 ms2] u(1-3) by auto
qed simp

lemma laid_out_covers:
  assumes "laid_out pp R i0 mrs ms srs" "\<forall>mr \<in> set mrs. mr_ok R mr" "i < length ms"
  shows "\<exists>sr \<in> set srs. \<exists>k. i0 + i = metadataBase sr + k \<and> unat (rangeStart sr) + k * 2097152 < unat (rangeEnd sr)"
  using assms
proof (induction mrs arbitrary: i0 ms srs i)
  case (Cons mr mrs)
  have ok: "mr_ok R mr" "\<forall>m \<in> set mrs. mr_ok R m" using Cons.prems(2) by simp_all
  obtain ms1 ms2 srs2 where u: "ms = ms1 @ ms2" "srs = \<lparr>rangeStart = mr_start mr, rangeEnd = mr_end mr, metadataBase = i0\<rparr> # srs2"
      "length ms1 = pageCount mr" "laid_out pp R (i0 + pageCount mr) mrs ms2 srs2"
    using Cons.prems(1) by (rule laid_out_ConsE)
  show ?case
  proof (cases "i < pageCount mr")
    case True
    then show ?thesis using u(2) merged_ok_span(2) [OF ok(1), of i]
      by (intro bexI [of _ "\<lparr>rangeStart = mr_start mr, rangeEnd = mr_end mr, metadataBase = i0\<rparr>"]) auto
  next
    case False
    then have "i - pageCount mr < length ms2" using Cons.prems(3) u(1,3) by auto
    then have "\<exists>sr \<in> set srs2. \<exists>k. i0 + pageCount mr + (i - pageCount mr) = metadataBase sr + k \<and>
        unat (rangeStart sr) + k * 2097152 < unat (rangeEnd sr)"
      by (rule Cons.IH [OF u(4) ok(2)])
    then show ?thesis using False u(2) by auto
  qed
qed simp

lemma laid_out_bases:
  assumes "laid_out pp R i0 mrs ms srs" "\<forall>mr \<in> set mrs. mr_ok R mr" "sorted_wrt (\<lambda>a b. mr_end a \<le> mr_start b) mrs"
  shows "distinct (map bpm_base ms)"
  using assms
proof (induction mrs arbitrary: i0 ms srs)
  case (Cons mr mrs)
  have ok: "mr_ok R mr" "\<forall>m \<in> set mrs. mr_ok R m" using Cons.prems by simp_all
  obtain ms1 ms2 srs2 where u: "ms = ms1 @ ms2" "length ms1 = pageCount mr" "\<forall>k < pageCount mr. page_made pp R mr k (ms1 ! k)"
      "laid_out pp R (i0 + pageCount mr) mrs ms2 srs2"
    using Cons.prems(1) by (rule laid_out_ConsE)
  have b: "unat (bpm_base (ms1 ! k)) = unat (mr_start mr) + k * 2097152" if "k < pageCount mr" for k
    using u(3) that by (simp add: page_made_def)
  have "distinct (map bpm_base ms1)"
    unfolding distinct_conv_nth using b u(2) by (simp add: word_unat_eq_iff)
  moreover have "unat (bpm_base m) < unat (mr_end mr)" if "m \<in> set ms1" for m
    using that b merged_ok_span(2) [OF ok(1)] u(2) by (auto simp: in_set_conv_nth)
  moreover have "unat (mr_end mr) \<le> unat (bpm_base m)" if m: "m \<in> set ms2" for m
  proof -
    obtain mr' k where mr': "mr' \<in> set mrs" "page_made pp R mr' k m" using laid_out_pages [OF u(4)] m by blast
    then have "mr_end mr \<le> mr_start mr'" using Cons.prems(3) by simp
    then show ?thesis using mr'(2) by (simp add: page_made_def word_le_nat_alt)
  qed
  ultimately show ?case using Cons.IH [OF u(4) ok(2)] Cons.prems(3) u(1) by (fastforce simp: word_unat_eq_iff)
qed simp

section \<open>The pool\<close>

lemma merged_total:
  assumes "\<forall>mr \<in> set mrs. mr_ok R mr" "sorted_wrt (\<lambda>a b. mr_end a \<le> mr_start b) mrs" "\<forall>mr \<in> set mrs. x \<le> unat (mr_start mr)" "x < 2 ^ 64"
  shows "x + sum_list (map pageCount mrs) * 2097152 < 2 ^ 64"
  using assms
proof (induction mrs arbitrary: x)
  case (Cons mr mrs)
  have "unat (mr_end mr) + sum_list (map pageCount mrs) * 2097152 < 2 ^ 64"
    by (rule Cons.IH) (use Cons.prems unat_lt_64 [of "mr_end mr"] in \<open>auto simp: word_le_nat_alt\<close>)
  moreover have "unat (mr_start mr) + pageCount mr * 2097152 = unat (mr_end mr)" using merged_ok_span(1) [of R mr] Cons.prems(1) by auto
  moreover have "x \<le> unat (mr_start mr)" using Cons.prems(3) by simp
  ultimately show ?case by (simp add: algebra_simps)
qed simp

lemma unat_sum_list:
  fixes xs :: "u64 list"
  shows "sum_list (map unat xs) < 2 ^ 64 \<Longrightarrow> unat (sum_list xs) = sum_list (map unat xs)"
  by (induction xs) (simp_all add: unat_word_ariths)

lemma laid_out_pool:
  assumes inv: "merge_inv R mrs" "indices mrs = [0..<length R]" and lo: "laid_out pp R 0 mrs ms srs"
    and p: "bigPageMetadataBuffer p = ms" "subrangeInfo p = srs" "bigPageCount p = length ms"
  shows "srs_ok p" "pagesOf p (np_avail p) = {n. \<exists>r \<in> set R. unat (rng_start r) \<le> 4096 * n \<and> 4096 * n < unat (rng_end r)}"
proof -
  have ok: "\<forall>mr \<in> set mrs. mr_ok R mr" and srt: "sorted_wrt (\<lambda>a b. mr_end a \<le> mr_start b) mrs" using inv(1) by (auto simp: merge_inv_def)
  note sh = laid_out_shape [OF lo] and pg = laid_out_pages [OF lo] and st = laid_out_stretch [OF lo ok]
  have len: "length srs = length mrs" using sh map_eq_imp_length_eq by blast
  have nth: "rangeStart (srs ! i) = mr_start (mrs ! i)" "rangeEnd (srs ! i) = mr_end (mrs ! i)" if "i < length mrs" for i
    using sh that len by (metis nth_map)+
  have "sorted_wrt (\<lambda>a b. rangeEnd a \<le> rangeStart b) srs" using srt nth len by (simp add: sorted_wrt_iff_nth_less)
  moreover have "2097152 dvd unat (rangeStart sr) \<and> 2097152 dvd unat (rangeEnd sr)" if "sr \<in> set srs" for sr
    using that ok nth len merged_okD(1,2) by (metis in_set_conv_nth)
  ultimately show "srs_ok p"
    unfolding srs_ok_def p using st laid_out_covers [OF lo ok] by (auto simp: stretch_def)
  show "pagesOf p (np_avail p) = {n. \<exists>r \<in> set R. unat (rng_start r) \<le> 4096 * n \<and> 4096 * n < unat (rng_end r)}"
  proof (intro set_eqI iffI)
    fix n assume "n \<in> pagesOf p (np_avail p)"
    then obtain m s where m: "m \<in> set ms" "s \<in> pg_avail m" "n = pg_first m + s"
      unfolding in_pagesOf p by (auto dest: nth_mem)
    then obtain mr k where mr: "mr \<in> set mrs" "page_made pp R mr k m" using pg by blast
    then obtain i where i: "i \<le> lastOrigIdx mr" "slotIn (unat (bpm_base m)) s (R ! i)" using m(2) by (auto simp: page_made_def)
    have "4096 dvd unat (bpm_base m)" using mr(2) page_base_4096 unfolding page_made_def by blast
    then have "4096 * n = unat (bpm_base m) + 4096 * s" using m(3) by (simp add: pg_first_def)
    moreover have "R ! i \<in> set R" using i(1) ok mr(1) merged_okD(4) by blast
    ultimately show "n \<in> {n. \<exists>r \<in> set R. unat (rng_start r) \<le> 4096 * n \<and> 4096 * n < unat (rng_end r)}" using i(2) by (auto simp: slotIn_def)
  next
    fix n assume "n \<in> {n. \<exists>r \<in> set R. unat (rng_start r) \<le> 4096 * n \<and> 4096 * n < unat (rng_end r)}"
    then obtain i where i: "i < length R" "unat (rng_start (R ! i)) \<le> 4096 * n" "4096 * n < unat (rng_end (R ! i))" by (auto simp: in_set_conv_nth)
    have "i \<in> set (indices mrs)" using i(1) inv(2) by simp
    then obtain mr where mr: "mr \<in> set mrs" "firstOrigIdx mr \<le> i" "i \<le> lastOrigIdx mr" by auto
    have okm: "mr_ok R mr" using ok mr(1) by blast
    then have b: "unat (mr_start mr) \<le> 4096 * n" "4096 * n < unat (mr_end mr)" "2097152 dvd unat (mr_start mr)"
      using i(2,3) merged_okD(1) [OF okm] merged_okD(5) [OF okm mr(2,3)] by simp_all
    define k where "k = (4096 * n - unat (mr_start mr)) div 2097152"
    have k: "unat (mr_start mr) + k * 2097152 \<le> 4096 * n" "4096 * n < unat (mr_start mr) + k * 2097152 + 2097152"
      unfolding k_def using b(1) by linarith+
    then have "k < pageCount mr" using merged_ok_span(2) [OF okm, of k] b(2) by simp
    then obtain m where m: "m \<in> set ms" "page_made pp R mr k m" using pg mr(1) by blast
    have bm: "unat (bpm_base m) = unat (mr_start mr) + k * 2097152" using m(2) by (simp add: page_made_def)
    have d: "4096 dvd unat (bpm_base m)" using m(2) page_base_4096 unfolding page_made_def by blast
    define s where "s = n - pg_first m"
    have s: "unat (bpm_base m) + 4096 * s = 4096 * n" "s < 512" "n = pg_first m + s"
      using d k unfolding bm [symmetric] s_def pg_first_def by (auto elim!: dvdE)
    then have "s \<in> pg_avail m" using m(2) i mr(2,3) by (auto simp: page_made_def slotIn_def)
    then show "n \<in> pagesOf p (np_avail p)" using m(1) s(3) by (auto simp: in_pagesOf p in_set_conv_nth)
  qed
qed

lemma bit_pool_buffer:
  assumes "mkAtomicBitPool n buf stride = Inr pa"
  obtains b where "requiredBufferSize n stride = Inr b"
  using assms by (auto simp: mkAtomicBitPool_def requiredBufferSize_def bindO_def Let_def split: sum.splits)

lemma two_pages:
  assumes inv: "merge_inv T mrs" "indices mrs = [0..<length T]" "mrs \<noteq> []" and ok: "\<forall>r \<in> set T. range_ok r"
    and two: "r \<in> set T" "q \<in> set T" "unat (rng_start r) div 2097152 \<noteq> (unat (rng_end q) - 1) div 2097152"
  shows "2 \<le> sum_list (map pageCount mrs)"
proof (rule ccontr)
  assume n: "\<not> 2 \<le> sum_list (map pageCount mrs)"
  have pos: "0 < pageCount mr" if "mr \<in> set mrs" for mr
    using merged_ok_span(1) [of T mr] that inv(1) by (force simp: merge_inv_def merged_ok_def word_less_nat_alt)
  obtain mr rest where m: "mrs = mr # rest" using inv(3) by (cases mrs) auto
  have "rest = []"
  proof (cases rest)
    case (Cons mr2 rest2)
    then show ?thesis using n pos [of mr] pos [of mr2] by (simp add: m)
  qed
  then have one: "pageCount mr = 1" "[firstOrigIdx mr..<lastOrigIdx mr + 1] = [0..<length T]" using n pos [of mr] inv(2) m by (simp_all del: upt_Suc)
  have okm: "mr_ok T mr" using inv(1) m by (simp add: merge_inv_def)
  have e: "unat (mr_end mr) = unat (mr_start mr) + 2097152" using merged_ok_span(1) [OF okm] one(1) by simp
  have d: "2097152 dvd unat (mr_start mr)" by (rule merged_okD(1) [OF okm])
  have "unat (mr_start mr) \<le> unat (rng_start x) \<and> unat (rng_start x) < unat (rng_end x) \<and> unat (rng_end x) \<le> unat (mr_start mr) + 2097152"
    if x: "x \<in> set T" for x
  proof -
    obtain i where i: "i < length T" "x = T ! i" using x by (auto simp: in_set_conv_nth)
    then have "i \<in> set [firstOrigIdx mr..<lastOrigIdx mr + 1]" unfolding one(2) by simp
    then have "firstOrigIdx mr \<le> i" "i \<le> lastOrigIdx mr" by auto
    then show ?thesis using merged_okD(5) [OF okm] i ok e by (simp add: range_ok_def word_less_nat_alt)
  qed
  note X = this [OF two(1)] this [OF two(2)]
  obtain k where k: "unat (mr_start mr) = 2097152 * k" using d by (auto elim: dvdE)
  then have "unat (rng_start r) div 2097152 = k" "(unat (rng_end q) - 1) div 2097152 = k" using X by linarith+
  then show False using two(3) by simp
qed

lemma createNumaPool_spec:
  assumes R: "ranges \<noteq> []" "length ranges \<le> MAX_RANGES_PER_DOMAIN" "\<forall>r \<in> set ranges. range_ok r \<and> page_aligned r"
    and two: "\<exists>r \<in> set ranges. \<exists>q \<in> set ranges. unat (rng_start r) div 2097152 \<noteq> (unat (rng_end q) - 1) div 2097152"
  shows "\<exists>reqs p c S. (\<forall>alloc. createNumaPool abi pp ranges dm alloc =
      bindO (ba_run reqs alloc) (\<lambda>(alloc', _). Inr (alloc', if ba_measuring alloc then None else Some p))) \<and>
    pool_inv c {} (\<lambda>_. {}) S p \<and> srs_ok p \<and> associatedDomain p = dm \<and> (\<forall>i \<in> S. hasReservedSubpages (metaAt p i)) \<and>
    (\<forall>i < bigPageCount p. ownerPool (metaAt p i) = pp) \<and>
    pagesOf p (np_avail p) = {n. \<exists>r \<in> set ranges. unat (rng_start r) \<le> 4096 * n \<and> 4096 * n < unat (rng_end r)}"
proof -
  obtain mrs T where T: "computeMergedRanges ranges MAX_RANGES_PER_DOMAIN = Inr (mrs, T)" "mset T = mset ranges"
      "sorted_wrt (\<lambda>a b. rng_start a \<le> rng_start b) T" "merge_inv T mrs" "indices mrs = [0..<length T]" "mrs \<noteq> []"
    using computeMergedRanges_spec [of ranges MAX_RANGES_PER_DOMAIN] R by auto
  have sT: "set T = set ranges" using T(2) by (metis set_mset_mset)
  have al: "\<forall>r \<in> set T. page_aligned r" using R(3) sT by blast
  have ok: "\<forall>mr \<in> set mrs. mr_ok T mr \<and> mr_bigPageCount mr = (mr_end mr - mr_start mr) div bigPageSize"
    and srt: "sorted_wrt (\<lambda>a b. mr_end a \<le> mr_start b) mrs" using T(4) by (auto simp: merge_inv_def)
  obtain ms srs where m: "populate pp T 0 mrs = Inr (ms, srs)" "laid_out pp T 0 mrs ms srs" using populate_spec [OF al T(3) ok] by blast
  define N where "N = sum_list (map pageCount mrs)"
  have len: "length ms = N" using laid_out_shape [OF m(2)] by (simp add: N_def)
  have "0 + N * 2097152 < 2 ^ 64" unfolding N_def by (rule merged_total [of mrs T]) (use ok srt in auto)
  then have N60: "N \<le> 2 ^ 60" "N < 2 ^ 64" by simp_all
  have "map unat (map mr_bigPageCount mrs) = map pageCount mrs" using ok unat_bigPageCount [of T] by auto
  then have tot: "unat (sum_list (map mr_bigPageCount mrs)) = N" using unat_sum_list [of "map mr_bigPageCount mrs"] N60(2) unfolding N_def by metis
  obtain r q where rq: "r \<in> set T" "q \<in> set T" "unat (rng_start r) div 2097152 \<noteq> (unat (rng_end q) - 1) div 2097152"
    using two sT by blast
  have "\<forall>r \<in> set T. range_ok r" using R(3) sT by blast
  then have "2 \<le> N" unfolding N_def by (rule two_pages [OF T(4,5,6) _ rq])
  then obtain c pa where pa: "mkAtomicBitPool N (\<lambda>_. \<lparr>ent_bitmap = 0, ent_count = 0\<rparr>) CACHE_LINE_SIZE = Inr pa" "bp_inv c {} pa" "N \<le> 2 ^ c"
    using N60(1) by (rule mkAtomicBitPool_correct)
  obtain b where b: "requiredBufferSize N CACHE_LINE_SIZE = Inr b" by (rule bit_pool_buffer [OF pa(1)])
  have made: "pg_inv (ms ! i) {} \<and> allocHolder (ms ! i) = SIZE_MAX \<and> ownerPool (ms ! i) = pp \<and> pg_avail (ms ! i) \<noteq> {}" if "i < N" for i
    using laid_out_pages [OF m(2)] that len nth_mem [of i ms] unfolding page_made_def by blast
  have okm: "\<forall>mr \<in> set mrs. mr_ok T mr" using ok by blast
  have bases: "\<forall>i < N. \<forall>j < N. bpm_base (ms ! i) = bpm_base (ms ! j) \<longrightarrow> i = j"
    using laid_out_bases [OF m(2) okm srt] len by (auto simp: distinct_conv_nth)
  have "\<exists>p. mkNUMAPool ms (replicate N 0) pa srs N dm = Inr p \<and> pool_inv c {} (\<lambda>_. {}) {i. i < N \<and> hasReservedSubpages (ms ! i)} p \<and>
      bigPageMetadataBuffer p = ms \<and> bigPageCount p = N \<and> subrangeInfo p = srs \<and> associatedDomain p = dm"
    by (rule mkNUMAPool_spec [OF len _ pa(3) _ pa(2)]) (use made bases \<open>2 \<le> N\<close> in simp_all)
  then obtain p where p: "mkNUMAPool ms (replicate N 0) pa srs N dm = Inr p" "pool_inv c {} (\<lambda>_. {}) {i. i < N \<and> hasReservedSubpages (ms ! i)} p"
      "bigPageMetadataBuffer p = ms" "bigPageCount p = N" "subrangeInfo p = srs" "associatedDomain p = dm" by blast
  let ?reqs = "poolRequests abi N b (length mrs)"
  have run: "createNumaPool abi pp ranges dm alloc =
      bindO (ba_run ?reqs alloc) (\<lambda>(alloc', _). Inr (alloc', if ba_measuring alloc then None else Some p))" for alloc
    using T(1) tot b m(1) pa(1) p(1) \<open>2 \<le> N\<close>
    by (simp add: createNumaPool_def Let_def bindO_def split: sum.splits prod.splits)
  note L = laid_out_pool [OF T(4,5) m(2) p(3,5)]
  have "bigPageCount p = length ms" using p(4) len by simp
  note L = L [OF this]
  show ?thesis
    by (intro exI [of _ ?reqs] exI [of _ p] exI [of _ c] exI [of _ "{i. i < N \<and> hasReservedSubpages (ms ! i)}"] conjI)
      (use run p L sT made in auto)
qed

text \<open>Sizes for the witness; the pool does not depend on them.\<close>

definition demo_abi :: pool_abi where
  "demo_abi = \<lparr>abi_pool = \<lparr>tl_size = 512, tl_align = 64\<rparr>, abi_metadata = \<lparr>tl_size = 192, tl_align = 64\<rparr>,
     abi_pointer = \<lparr>tl_size = 8, tl_align = 8\<rparr>, abi_counter = \<lparr>tl_size = 8, tl_align = 8\<rparr>,
     abi_subrange = \<lparr>tl_size = 24, tl_align = 8\<rparr>\<rparr>"

section \<open>Properties\<close>

text \<open>
  \<open>computeMergedRanges\<close> on up to 64 non-empty ranges sorts them by start and returns merged
  ranges that are aligned to big pages, in order, and disjoint; their index intervals partition the
  sorted ranges, each merged range contains its originals, and every big page of a merged range is
  touched by one of them, so that no merged range is larger than it must be.
\<close>

lemma merged_ranges_exact:
  assumes "\<forall>r \<in> set ranges. range_ok r" and "ranges \<noteq> []" and "length ranges \<le> 64"
  shows "\<exists>out R. computeMergedRanges ranges MAX_RANGES_PER_DOMAIN = Inr (out, R) \<and> mset R = mset ranges \<and>
    sorted_wrt (\<lambda>a b. rng_start a \<le> rng_start b) R \<and> sorted_wrt (\<lambda>a b. mr_end a \<le> mr_start b) out \<and>
    concat (map (\<lambda>mr. [firstOrigIdx mr..<lastOrigIdx mr + 1]) out) = [0..<length R] \<and>
    (\<forall>mr \<in> set out. merged_ok R (mr_start mr) (mr_end mr) (firstOrigIdx mr) (lastOrigIdx mr) \<and>
       unat (mr_start mr) + unat (mr_bigPageCount mr) * 2097152 = unat (mr_end mr))"
proof -
  obtain out R where o: "computeMergedRanges ranges MAX_RANGES_PER_DOMAIN = Inr (out, R)" "mset R = mset ranges"
      "sorted_wrt (\<lambda>a b. rng_start a \<le> rng_start b) R" "merge_inv R out" "indices out = [0..<length R]"
    using computeMergedRanges_spec [of ranges MAX_RANGES_PER_DOMAIN] assms by (auto simp: MAX_RANGES_PER_DOMAIN_def)
  have "mr_ok R mr \<and> unat (mr_start mr) + unat (mr_bigPageCount mr) * 2097152 = unat (mr_end mr)" if "mr \<in> set out" for mr
    using o(4) that unat_bigPageCount [of R mr] merged_ok_span(1) [of R mr] by (auto simp: merge_inv_def)
  then show ?thesis using o by (auto simp: merge_inv_def simp del: upt_Suc)
qed

text \<open>
  C31: \<open>createNumaPool\<close> builds exactly the pool its ranges describe. For non-empty ranges aligned to
  small pages that lie in at least two big pages, the run asks the bootstrap allocator for the same
  sequence of blocks whether it measures or builds, builds the same pool wherever its memory is, and
  this pool satisfies the pool and subrange invariants, has no live pages, and offers precisely the
  small pages inside the given ranges.
\<close>

theorem create_numa_pool_exact:
  assumes "ranges \<noteq> []" and "length ranges \<le> MAX_RANGES_PER_DOMAIN" and "\<forall>r \<in> set ranges. range_ok r \<and> page_aligned r"
    and "\<exists>r \<in> set ranges. \<exists>q \<in> set ranges. unat (rng_start r) div 2097152 \<noteq> (unat (rng_end q) - 1) div 2097152"
  shows "\<exists>reqs p c S. (\<forall>alloc. createNumaPool abi pp ranges dm alloc =
      bindO (ba_run reqs alloc) (\<lambda>(alloc', _). Inr (alloc', if ba_measuring alloc then None else Some p))) \<and>
    pool_inv c {} (\<lambda>_. {}) S p \<and> srs_ok p \<and> associatedDomain p = dm \<and>
    pagesOf p (np_avail p) = {n. \<exists>r \<in> set ranges. unat (rng_start r) \<le> 4096 * n \<and> 4096 * n < unat (rng_end r)}"
  using createNumaPool_spec [OF assms] by blast

theorem create_numa_pool_exact_witness:
  "\<exists>reqs p c S. (\<forall>alloc. createNumaPool demo_abi 0 [\<lparr>rng_start = 4198400, rng_end = 8384512\<rparr>] 0 alloc =
      bindO (ba_run reqs alloc) (\<lambda>(alloc', _). Inr (alloc', if ba_measuring alloc then None else Some p))) \<and>
    pool_inv c {} (\<lambda>_. {}) S p \<and> pagesOf p (np_avail p) = {1025..<2047}"
proof -
  let ?r = "\<lparr>rng_start = 4198400, rng_end = 8384512\<rparr> :: phys_memory_range"
  have "\<exists>reqs p c S. (\<forall>alloc. createNumaPool demo_abi 0 [?r] 0 alloc =
      bindO (ba_run reqs alloc) (\<lambda>(alloc', _). Inr (alloc', if ba_measuring alloc then None else Some p))) \<and>
    pool_inv c {} (\<lambda>_. {}) S p \<and> srs_ok p \<and> associatedDomain p = 0 \<and>
    pagesOf p (np_avail p) = {n. \<exists>r \<in> set [?r]. unat (rng_start r) \<le> 4096 * n \<and> 4096 * n < unat (rng_end r)}"
    by (rule create_numa_pool_exact) (simp_all add: MAX_RANGES_PER_DOMAIN_def range_ok_def page_aligned_def)
  moreover have "{n. \<exists>r \<in> set [?r]. unat (rng_start r) \<le> 4096 * n \<and> 4096 * n < unat (rng_end r)} = {1025..<2047}" by auto
  ultimately show ?thesis by (simp only:) blast
qed

end
