(* ===== verification/Page_Allocator.thy ===== *)
theory Page_Allocator
  imports Local_Pool_Laws Pool_Create
begin

text \<open>
  \<open>PageAllocatorImpl\<close> of \<open>kernel/mm/PageAllocator.cpp\<close>: the pools of all domains, the caches of the
  processors and the table that maps addresses to pools. \<open>pa_pools\<close> is the storage of the pools;
  the pool pointers of the code are positions in it. \<open>cpu\<close> is the current processor.
\<close>

record NUMADomainEntry =
  nde_start :: phys_addr
  nde_end :: phys_addr
  nde_pool :: nat

record PageAllocatorImpl =
  pa_pools :: "NUMAPool list"
  numaPools :: "nat option list"
  localPools :: "LocalPool list"
  domainTable :: "NUMADomainEntry list"
  unownedPool :: "nat option"
  numaPolicy :: "NUMAPolicy option"
  cpuNearestPool :: "DomainID list"

definition deref :: "'a option \<Rightarrow> 'a outcome" where
  "deref x = (case x of Some a \<Rightarrow> Inr a | None \<Rightarrow> Inl (Undefined ''null pointer''))"

definition nearestPool :: "ProcessorID \<Rightarrow> PageAllocatorImpl \<Rightarrow> nat outcome" where
  "nearestPool cpu a =
     bindO (readAt (cpuNearestPool a) cpu) (\<lambda>domain.
       if domain = noDomain then
         bindO (assertO (unownedPool a \<noteq> None) ''no NUMAPool found for CPU'') (\<lambda>_. deref (unownedPool a))
       else bindO (readAt (numaPools a) (unat domain)) deref)"

section \<open>Lookup\<close>

function tableSearch :: "phys_addr \<Rightarrow> NUMADomainEntry list \<Rightarrow> nat \<Rightarrow> nat \<Rightarrow> nat option" where
  "tableSearch addr table lo hi =
     (if lo < hi then
        let mid = lo + (hi - lo) div 2
        in if addr < nde_start (table ! mid) then tableSearch addr table lo mid
           else if nde_end (table ! mid) \<le> addr then tableSearch addr table (mid + 1) hi
           else Some mid
      else None)"
  by pat_completeness auto
termination
  by (relation "measure (\<lambda>(_, _, lo, hi). hi - lo)") auto

declare tableSearch.simps [simp del]

definition pa_findMetadata :: "phys_addr \<Rightarrow> PageAllocatorImpl \<Rightarrow> PagePtr option" where
  "pa_findMetadata addr a =
     (case tableSearch addr (domainTable a) 0 (length (domainTable a)) of
        None \<Rightarrow> None
      | Some mid \<Rightarrow> (let k = nde_pool (domainTable a ! mid)
                     in map_option (Pair k) (findMetadata addr (pa_pools a ! k))))"

section \<open>Construction\<close>

definition DOMAIN_TABLE_SIZE :: nat where
  "DOMAIN_TABLE_SIZE = 512"

definition addEntry :: "nat \<Rightarrow> SubrangeInfo \<Rightarrow> NUMADomainEntry list \<Rightarrow> NUMADomainEntry list outcome" where
  "addEntry k sr table =
     bindO (assertO (length table < DOMAIN_TABLE_SIZE) ''Domain table overflow'') (\<lambda>_.
       Inr (table @ [\<lparr>nde_start = rangeStart sr, nde_end = rangeEnd sr, nde_pool = k\<rparr>]))"

definition addPool :: "NUMAPool list \<Rightarrow> nat option \<Rightarrow> NUMADomainEntry list \<Rightarrow> NUMADomainEntry list outcome" where
  "addPool ps slot table =
     (case slot of
        None \<Rightarrow> Inr table
      | Some k \<Rightarrow> bindO (readAt ps k) (\<lambda>p. foldO (addEntry k) (subrangeInfo p) table))"

definition entryBefore :: "NUMADomainEntry \<Rightarrow> NUMADomainEntry \<Rightarrow> bool" where
  "entryBefore a b \<longleftrightarrow> nde_start a < nde_start b"

definition buildDomainTable :: "NUMAPool list \<Rightarrow> nat option list \<Rightarrow> NUMADomainEntry list outcome" where
  "buildDomainTable ps slots =
     bindO (foldO (addPool ps) slots []) (\<lambda>table.
       if 1 < length table then sort_array entryBefore table (length table) else Inr table)"

text \<open>The first domain of the order that has a pool.\<close>

definition nearestDomain :: "nat option list \<Rightarrow> DomainID list \<Rightarrow> DomainID" where
  "nearestDomain slots order =
     (case find (\<lambda>d. unat d < length slots \<and> slots ! unat d \<noteq> None) order of Some d \<Rightarrow> d | None \<Rightarrow> noDomain)"

definition nearestTable :: "nat option list \<Rightarrow> NUMAPolicy \<Rightarrow> nat \<Rightarrow> DomainID list outcome" where
  "nearestTable slots policy processorCount =
     foldO (\<lambda>p row. bindO (homeDomain p policy) (\<lambda>home. bindO (domainOrder home policy) (\<lambda>order.
       if p < length row then Inr (row[p := nearestDomain slots order]) else Inl (Undefined ''out of bounds''))))
       [0..<processorCount] (replicate MAX_PROCESSOR_COUNT noDomain)"

definition singleDomain :: "nat option list \<Rightarrow> nat option \<Rightarrow> nat outcome" where
  "singleDomain slots unowned =
     bindO (assertO (unowned = None) ''createPageAllocator: unownedPool must be null when numaPolicy is null'') (\<lambda>_.
     bindO (foldO (\<lambda>i s. if slots ! i \<noteq> None
              then bindO (assertO (s = length slots) ''createPageAllocator: more than one NUMAPool provided with null numaPolicy'') (\<lambda>_. Inr i)
              else Inr s) [0..<length slots] (length slots)) (\<lambda>singleDomainIdx.
     bindO (assertO (singleDomainIdx \<noteq> length slots) ''createPageAllocator: no NUMAPool provided with null numaPolicy'') (\<lambda>_.
       Inr singleDomainIdx)))"

definition createPageAllocator :: "NUMAPool list \<Rightarrow> nat option list \<Rightarrow> LocalPool list \<Rightarrow> nat \<Rightarrow> nat option \<Rightarrow> NUMAPolicy option \<Rightarrow>
    PageAllocatorImpl outcome" where
  "createPageAllocator ps slots locals processorCount unowned policy =
     (if MAX_PROCESSOR_COUNT < length slots then Inl (Undefined ''out of bounds'')
      else bindO (buildDomainTable ps slots) (\<lambda>table.
        bindO (case policy of
                 Some pol \<Rightarrow> nearestTable slots pol processorCount
               | None \<Rightarrow> bindO (singleDomain slots unowned) (\<lambda>i.
                   if MAX_PROCESSOR_COUNT < processorCount then Inl (Undefined ''out of bounds'')
                   else Inr (replicate processorCount (of_nat i) @ replicate (MAX_PROCESSOR_COUNT - processorCount) noDomain))) (\<lambda>row.
          Inr \<lparr>pa_pools = ps, numaPools = slots, localPools = locals, domainTable = table, unownedPool = unowned,
               numaPolicy = policy, cpuNearestPool = row\<rparr>)))"

definition reservePool :: "phys_memory_range \<Rightarrow> nat option \<Rightarrow> NUMAPool list \<Rightarrow> NUMAPool list outcome" where
  "reservePool rng slot ps =
     (case slot of
        None \<Rightarrow> Inr ps
      | Some k \<Rightarrow> bindO (readAt ps k) (\<lambda>p. bindO (np_reserveRange rng p) (\<lambda>p'. Inr (ps[k := p']))))"

definition pa_reserveRange :: "phys_memory_range \<Rightarrow> PageAllocatorImpl \<Rightarrow> PageAllocatorImpl outcome" where
  "pa_reserveRange rng a =
     bindO (foldO (reservePool rng) (numaPools a) (pa_pools a)) (\<lambda>ps1.
       bindO (reservePool rng (unownedPool a) ps1) (\<lambda>ps2. Inr (a\<lparr>pa_pools := ps2\<rparr>)))"

section \<open>Allocation near a domain\<close>

definition startRequest :: "nat \<Rightarrow> NUMAPool list \<Rightarrow> lp_locals" where
  "startRequest n ps = \<lparr>lo_pools = ps, lo_count = n, lo_allocated = 0, lo_out = []\<rparr>"

text \<open>What both allocation paths do with the result of a pool; \<open>smallPageCount\<close> stops at 0.\<close>

definition tookFrom :: "nat \<Rightarrow> alloc_locals \<Rightarrow> lp_locals \<Rightarrow> lp_locals" where
  "tookFrom k al st =
     st\<lparr>lo_pools := (lo_pools st)[k := al_pool al], lo_count := lo_count st - min (allocatedPages al) (lo_count st),
        lo_allocated := lo_allocated st + allocatedPages al, lo_out := lo_out st @ al_out al\<rparr>"

definition allocFromPool :: "nat \<Rightarrow> AllocFlags \<Rightarrow> nat \<Rightarrow> lp_locals \<Rightarrow> lp_locals outcome" where
  "allocFromPool cpu flags k st =
     (if lo_count st = 0 then Inr st
      else bindO (readAt (lo_pools st) k) (\<lambda>p.
           bindO (np_allocatePages cpu (lo_count st) flags p) (\<lambda>al.
             let st1 = tookFrom k al st
             in case paPageRemaining al of
                  None \<Rightarrow> Inr st1
                | Some i \<Rightarrow> bindO (returnPtr (k, i) False (lo_pools st1)) (\<lambda>ps. Inr (st1\<lparr>lo_pools := ps\<rparr>)))))"

definition allocFromDomain :: "nat \<Rightarrow> AllocFlags \<Rightarrow> PageAllocatorImpl \<Rightarrow> DomainID \<Rightarrow> lp_locals \<Rightarrow> lp_locals outcome" where
  "allocFromDomain cpu flags a d st =
     (if lo_count st = 0 then Inr st
      else if unat d < length (numaPools a) then
        (case numaPools a ! unat d of Some k \<Rightarrow> allocFromPool cpu flags k st | None \<Rightarrow> Inr st)
      else Inr st)"

definition finishRequest :: "AllocFlags \<Rightarrow> lp_locals \<Rightarrow> lp_locals outcome" where
  "finishRequest flags st =
     (if \<not> flags_has flags GRACEFUL_OOM \<and> lo_count st \<noteq> 0
      then Inl (Assertion ''Panic!!! Page allocator is out of memory'') else Inr st)"

definition allocateInDomain :: "nat \<Rightarrow> nat \<Rightarrow> DomainID \<Rightarrow> AllocFlags \<Rightarrow> PageAllocatorImpl \<Rightarrow> (PageAllocatorImpl \<times> nat \<times> PageRef list) outcome" where
  "allocateInDomain cpu n targetDomain flags a =
     (let st0 = startRequest n (pa_pools a)
      in bindO (case numaPolicy a of
                  Some pol \<Rightarrow>
                    if flags_has flags LOCAL_DOMAIN_ONLY then allocFromDomain cpu flags a targetDomain st0
                    else bindO (domainOrder targetDomain pol) (\<lambda>order. foldO (allocFromDomain cpu flags a) order st0)
                | None \<Rightarrow> bindO (nearestPool 0 a) (\<lambda>k. allocFromPool cpu flags k st0)) (\<lambda>st1.
         bindO (case unownedPool a of Some k \<Rightarrow> allocFromPool cpu flags k st1 | None \<Rightarrow> Inr st1) (\<lambda>st2.
         bindO (finishRequest flags st2) (\<lambda>st3. Inr (a\<lparr>pa_pools := lo_pools st3\<rparr>, lo_allocated st3, lo_out st3)))))"

definition allocateForProcessor :: "nat \<Rightarrow> nat \<Rightarrow> ProcessorID \<Rightarrow> AllocFlags \<Rightarrow> PageAllocatorImpl \<Rightarrow> (PageAllocatorImpl \<times> nat \<times> PageRef list) outcome" where
  "allocateForProcessor cpu n targetProc flags a =
     bindO (case numaPolicy a of Some pol \<Rightarrow> homeDomain targetProc pol | None \<Rightarrow> readAt (cpuNearestPool a) targetProc) (\<lambda>d.
       allocateInDomain cpu n d flags a)"

section \<open>Allocation for the current processor\<close>

definition fromLocalPool :: "nat \<Rightarrow> nat \<Rightarrow> AllocFlags \<Rightarrow> LocalPool \<times> lp_locals \<Rightarrow> (LocalPool \<times> lp_locals) outcome" where
  "fromLocalPool cpu n f s =
     (case s of (lp, st) \<Rightarrow> bindO (lp_allocatePages cpu n f lp (lo_pools st)) (\<lambda>(lp', r).
        Inr (lp', st\<lparr>lo_pools := lo_pools r, lo_count := sub_size (lo_count st) (lo_allocated r),
                     lo_allocated := lo_allocated st + lo_allocated r, lo_out := lo_out st @ lo_out r\<rparr>)))"

definition fromNumaPool :: "nat \<Rightarrow> nat \<Rightarrow> nat \<Rightarrow> AllocFlags \<Rightarrow> LocalPool \<times> lp_locals \<Rightarrow> (LocalPool \<times> lp_locals) outcome" where
  "fromNumaPool cpu n k f s =
     (case s of (lp, st) \<Rightarrow>
        bindO (readAt (lo_pools st) k) (\<lambda>p. bindO (np_allocatePages cpu n f p) (\<lambda>al.
          let st1 = tookFrom k al st
          in case paPageRemaining al of
               None \<Rightarrow> Inr (lp, st1)
             | Some i \<Rightarrow> bindO (tryGivePAPage (k, i) lp (lo_pools st1)) (\<lambda>(lp', ps). Inr (lp', st1\<lparr>lo_pools := ps\<rparr>)))))"

text \<open>The loop over the domains of the order; it stops as soon as the request is met.\<close>

fun fallbackLoop :: "nat \<Rightarrow> AllocFlags \<Rightarrow> PageAllocatorImpl \<Rightarrow> DomainID list \<Rightarrow> LocalPool \<times> lp_locals \<Rightarrow> (LocalPool \<times> lp_locals) outcome" where
  "fallbackLoop cpu flags a [] s = Inr s"
| "fallbackLoop cpu flags a (d # ds) s =
     bindO (readAt (numaPools a) (unat d)) (\<lambda>slot.
     bindO (case slot of Some k \<Rightarrow> fromNumaPool cpu (lo_count (snd s)) k flags s | None \<Rightarrow> Inr s) (\<lambda>s1.
       if lo_count (snd s1) = 0 then Inr s1 else fallbackLoop cpu flags a ds s1))"

definition bigFirst :: "nat \<Rightarrow> AllocFlags \<Rightarrow> PageAllocatorImpl \<Rightarrow> LocalPool \<times> lp_locals \<Rightarrow> (LocalPool \<times> lp_locals) outcome" where
  "bigFirst cpu flags a s =
     bindO (nearestPool cpu a) (\<lambda>k.
     bindO (fromNumaPool cpu (unat (roundDownToNearestMultiple (of_nat (lo_count (snd s)) :: u64) 512)) k (flags_or flags BIG_PAGE_ONLY) s) (\<lambda>s1.
       fromLocalPool cpu (lo_count (snd s1)) (flags_or flags LOCAL_DOMAIN_ONLY) s1))"

definition fromDomains :: "nat \<Rightarrow> AllocFlags \<Rightarrow> PageAllocatorImpl \<Rightarrow> LocalPool \<times> lp_locals \<Rightarrow> (LocalPool \<times> lp_locals) outcome" where
  "fromDomains cpu flags a s =
     (case numaPolicy a of
        Some pol \<Rightarrow>
          bindO (homeDomain cpu pol) (\<lambda>homeID.
            if flags_has flags LOCAL_DOMAIN_ONLY then
              bindO (nearestPool cpu a) (\<lambda>k. fromNumaPool cpu (lo_count (snd s)) k flags s)
            else bindO (domainOrder homeID pol) (\<lambda>order. fallbackLoop cpu flags a order s))
      | None \<Rightarrow> bindO (nearestPool cpu a) (\<lambda>k. fromNumaPool cpu (lo_count (snd s)) k flags s))"

text \<open>After the loop over the domains; the loop itself returns when the request is met.\<close>

definition lastResort :: "nat \<Rightarrow> AllocFlags \<Rightarrow> PageAllocatorImpl \<Rightarrow> LocalPool \<times> lp_locals \<Rightarrow> (LocalPool \<times> lp_locals) outcome" where
  "lastResort cpu flags a s =
     bindO (if flags_has flags BIG_PAGE_ONLY then Inr s else fromLocalPool cpu (lo_count (snd s)) flags s) (\<lambda>s1.
     bindO (case unownedPool a of Some k \<Rightarrow> fromNumaPool cpu (lo_count (snd s1)) k flags s1 | None \<Rightarrow> Inr s1) (\<lambda>s2.
       bindO (finishRequest flags (snd s2)) (\<lambda>_. Inr s2)))"

definition returnsEarly :: "AllocFlags \<Rightarrow> PageAllocatorImpl \<Rightarrow> bool" where
  "returnsEarly flags a \<longleftrightarrow> numaPolicy a \<noteq> None \<and> \<not> flags_has flags LOCAL_DOMAIN_ONLY"

definition allocateFallback :: "nat \<Rightarrow> nat \<Rightarrow> AllocFlags \<Rightarrow> LocalPool \<Rightarrow> NUMAPool list \<Rightarrow> PageAllocatorImpl \<Rightarrow> (LocalPool \<times> lp_locals) outcome" where
  "allocateFallback cpu n flags lp ps a =
     (let s0 = (lp, startRequest n ps)
      in bindO (if flags_has flags BIG_PAGE_ONLY then Inr s0 else bigFirst cpu flags a s0) (\<lambda>s1.
           if lo_count (snd s1) = 0 then Inr s1
           else bindO (fromDomains cpu flags a s1) (\<lambda>s2.
             if returnsEarly flags a \<and> lo_count (snd s2) = 0 then Inr s2 else lastResort cpu flags a s2)))"

definition allocateFast :: "nat \<Rightarrow> nat \<Rightarrow> AllocFlags \<Rightarrow> LocalPool \<Rightarrow> NUMAPool list \<Rightarrow> (LocalPool \<times> lp_locals) outcome" where
  "allocateFast cpu n flags lp ps =
     (if \<not> flags_has flags BIG_PAGE_ONLY \<and> n < smallPagesPerBigPage
      then lp_allocatePages cpu n (flags_or flags LOCAL_DOMAIN_ONLY) lp ps
      else Inr (lp, startRequest n ps))"

definition pa_allocatePages :: "nat \<Rightarrow> nat \<Rightarrow> AllocFlags \<Rightarrow> PageAllocatorImpl \<Rightarrow> (PageAllocatorImpl \<times> nat \<times> PageRef list) outcome" where
  "pa_allocatePages cpu n flags a =
     bindO (readAt (localPools a) cpu) (\<lambda>lp.
     bindO (allocateFast cpu n flags lp (pa_pools a)) (\<lambda>(lp1, r).
       if lo_allocated r \<noteq> n then
         bindO (allocateFallback cpu (sub_size n (lo_allocated r)) flags lp1 (lo_pools r) a) (\<lambda>(lp2, st).
           Inr (a\<lparr>pa_pools := lo_pools st, localPools := (localPools a)[cpu := lp2]\<rparr>, lo_allocated r + lo_allocated st, lo_out r @ lo_out st))
       else Inr (a\<lparr>pa_pools := lo_pools r, localPools := (localPools a)[cpu := lp1]\<rparr>, lo_allocated r, lo_out r)))"

section \<open>Freeing\<close>

definition addrBefore :: "PageRef \<Rightarrow> PageRef \<Rightarrow> bool" where
  "addrBefore p1 p2 \<longleftrightarrow> pr_addr p1 < pr_addr p2"

definition flushPool :: "nat option \<Rightarrow> PageRef list \<Rightarrow> NUMAPool list \<Rightarrow> NUMAPool list outcome" where
  "flushPool runPool run ps =
     (case runPool of
        None \<Rightarrow> Inr ps
      | Some k \<Rightarrow> bindO (readAt ps k) (\<lambda>p. bindO (np_freePages run p) (\<lambda>p'. Inr (ps[k := p']))))"

text \<open>The cursor is what is left of the table; \<open>run\<close> are the pages since \<open>runStart\<close>.\<close>

fun freeWalk :: "NUMADomainEntry list \<Rightarrow> nat option \<Rightarrow> PageRef list \<Rightarrow> PageRef list \<Rightarrow> NUMAPool list \<Rightarrow> NUMAPool list outcome" where
  "freeWalk table runPool run [] ps = flushPool runPool run ps"
| "freeWalk table runPool run (r # rs) ps =
     (let table' = dropWhile (\<lambda>e. nde_end e \<le> pr_addr r) table;
          pagePool = (case table' of e # _ \<Rightarrow> if nde_start e \<le> pr_addr r then Some (nde_pool e) else None | [] \<Rightarrow> None)
      in if pagePool \<noteq> runPool then bindO (flushPool runPool run ps) (\<lambda>ps'. freeWalk table' pagePool [r] rs ps')
         else freeWalk table' runPool (run @ [r]) rs ps)"

definition pa_freePages :: "PageRef list \<Rightarrow> PageAllocatorImpl \<Rightarrow> PageAllocatorImpl outcome" where
  "pa_freePages pages a =
     bindO (sort_array addrBefore pages (length pages)) (\<lambda>sorted'.
       bindO (freeWalk (domainTable a) None [] sorted' (pa_pools a)) (\<lambda>ps. Inr (a\<lparr>pa_pools := ps\<rparr>)))"

section \<open>Queries and wrappers\<close>

definition pa_countFreePages :: "PageAllocatorImpl \<Rightarrow> nat outcome" where
  "pa_countFreePages a =
     foldO (\<lambda>slot total'. case slot of None \<Rightarrow> Inr total'
       | Some k \<Rightarrow> bindO (readAt (pa_pools a) k) (\<lambda>p. Inr (total' + np_countTotalFreePages p))) (numaPools a @ [unownedPool a]) 0"

definition pa_isPageAllocated :: "PageRef \<Rightarrow> PageAllocatorImpl \<Rightarrow> bool outcome" where
  "pa_isPageAllocated page a =
     (case pa_findMetadata (pr_addr page) a of
        None \<Rightarrow> Inr False
      | Some ptr \<Rightarrow> bindO (pageMeta ptr (pa_pools a)) (\<lambda>m.
          Inr (if pr_size page = BIG then bpm_isFull m else isSubpageAllocated page m)))"

text \<open>The result is the address of the last reference the callback sees.\<close>

definition lastAddr :: "PageRef list \<Rightarrow> phys_addr" where
  "lastAddr refs = (if refs = [] then 0 else pr_addr (last refs))"

definition smallResult :: "PageAllocatorImpl \<times> nat \<times> PageRef list \<Rightarrow> (PageAllocatorImpl \<times> phys_addr) outcome" where
  "smallResult r = (case r of (a, _, refs) \<Rightarrow>
     bindO (assertO (lastAddr refs < 0xffe0000) ''Result out of bounds???'') (\<lambda>_. Inr (a, lastAddr refs)))"

definition allocateSmallPage :: "nat \<Rightarrow> PageAllocatorImpl \<Rightarrow> (PageAllocatorImpl \<times> phys_addr) outcome" where
  "allocateSmallPage cpu a = bindO (pa_allocatePages cpu 1 0 a) smallResult"

definition allocateSmallPageInDomain :: "nat \<Rightarrow> DomainID \<Rightarrow> PageAllocatorImpl \<Rightarrow> (PageAllocatorImpl \<times> phys_addr) outcome" where
  "allocateSmallPageInDomain cpu d a = bindO (allocateInDomain cpu 1 d 0 a) smallResult"

definition allocateSmallPageForProcessor :: "nat \<Rightarrow> ProcessorID \<Rightarrow> PageAllocatorImpl \<Rightarrow> (PageAllocatorImpl \<times> phys_addr) outcome" where
  "allocateSmallPageForProcessor cpu proc a = bindO (allocateForProcessor cpu 1 proc 0 a) smallResult"

definition bigResult :: "PageAllocatorImpl \<times> nat \<times> PageRef list \<Rightarrow> (PageAllocatorImpl \<times> phys_addr) outcome" where
  "bigResult r = (case r of (a, _, refs) \<Rightarrow> Inr (a, lastAddr refs))"

definition allocateBigPage :: "nat \<Rightarrow> PageAllocatorImpl \<Rightarrow> (PageAllocatorImpl \<times> phys_addr) outcome" where
  "allocateBigPage cpu a = bindO (pa_allocatePages cpu smallPagesPerBigPage (flagValue BIG_PAGE_ONLY) a) bigResult"

definition allocateBigPageInDomain :: "nat \<Rightarrow> DomainID \<Rightarrow> PageAllocatorImpl \<Rightarrow> (PageAllocatorImpl \<times> phys_addr) outcome" where
  "allocateBigPageInDomain cpu d a = bindO (allocateInDomain cpu smallPagesPerBigPage d (flagValue BIG_PAGE_ONLY) a) bigResult"

definition allocateBigPageForProcessor :: "nat \<Rightarrow> ProcessorID \<Rightarrow> PageAllocatorImpl \<Rightarrow> (PageAllocatorImpl \<times> phys_addr) outcome" where
  "allocateBigPageForProcessor cpu proc a = bindO (allocateForProcessor cpu smallPagesPerBigPage proc (flagValue BIG_PAGE_ONLY) a) bigResult"

text \<open>Bulk requests: with \<open>BIG_PAGE_ONLY\<close> the count is in big pages; the multiplication wraps at 64 bits.\<close>

definition inUnits :: "AllocFlags \<Rightarrow> nat \<Rightarrow> (nat \<Rightarrow> (PageAllocatorImpl \<times> nat \<times> PageRef list) outcome) \<Rightarrow>
    (PageAllocatorImpl \<times> nat \<times> PageRef list) outcome" where
  "inUnits flags n alloc =
     (if flags_has flags BIG_PAGE_ONLY
      then bindO (alloc (n * smallPagesPerBigPage mod 2 ^ 64)) (\<lambda>(a, k, refs). Inr (a, k div smallPagesPerBigPage, refs))
      else alloc n)"

definition allocatePagesImpl :: "nat \<Rightarrow> nat \<Rightarrow> AllocFlags \<Rightarrow> PageAllocatorImpl \<Rightarrow> (PageAllocatorImpl \<times> nat \<times> PageRef list) outcome" where
  "allocatePagesImpl cpu n flags a = inUnits flags n (\<lambda>k. pa_allocatePages cpu k flags a)"

definition allocatePagesInDomain :: "nat \<Rightarrow> nat \<Rightarrow> DomainID \<Rightarrow> AllocFlags \<Rightarrow> PageAllocatorImpl \<Rightarrow> (PageAllocatorImpl \<times> nat \<times> PageRef list) outcome" where
  "allocatePagesInDomain cpu n d flags a = inUnits flags n (\<lambda>k. allocateInDomain cpu k d flags a)"

definition allocatePagesForProcessor :: "nat \<Rightarrow> nat \<Rightarrow> ProcessorID \<Rightarrow> AllocFlags \<Rightarrow> PageAllocatorImpl \<Rightarrow> (PageAllocatorImpl \<times> nat \<times> PageRef list) outcome" where
  "allocatePagesForProcessor cpu n proc flags a = inUnits flags n (\<lambda>k. allocateForProcessor cpu k proc flags a)"

definition freeSmallPage :: "phys_addr \<Rightarrow> PageAllocatorImpl \<Rightarrow> PageAllocatorImpl outcome" where
  "freeSmallPage addr a = bindO (pr_small addr) (\<lambda>r. pa_freePages [r] a)"

definition freeBigPage :: "phys_addr \<Rightarrow> PageAllocatorImpl \<Rightarrow> PageAllocatorImpl outcome" where
  "freeBigPage addr a = bindO (pr_big addr) (\<lambda>r. pa_freePages [r] a)"

end
