(* ===== verification/Page_Alloc_Laws.thy ===== *)
theory Page_Alloc_Laws
  imports Page_Allocator
begin

text \<open>
  What the allocation paths of \<open>PageAllocatorImpl\<close> guarantee, over all pools of the machine and the
  cache of the current processor; \<open>X\<close> are the pages that other processors cache.
\<close>

section \<open>One request to one pool\<close>

definition extraPage :: "nat \<Rightarrow> alloc_locals \<Rightarrow> PagePtr set" where
  "extraPage k al = (case paPageRemaining al of None \<Rightarrow> {} | Some i \<Rightarrow> {(k, i)})"

text \<open>Outside of the detached pages \<open>H\<close> the pools in \<open>K\<close> have nothing left.\<close>

definition drained :: "PagePtr set \<Rightarrow> NUMAPool list \<Rightarrow> nat set \<Rightarrow> bool" where
  "drained H ps K \<longleftrightarrow> (\<forall>k \<in> K. \<forall>i < bigPageCount (ps ! k). (k, i) \<notin> H \<longrightarrow> np_avail (ps ! k) i = {})"

text \<open>The pools in \<open>K\<close> were emptied this way and the others not touched.\<close>

definition swept :: "PagePtr set \<Rightarrow> NUMAPool list \<Rightarrow> NUMAPool list \<Rightarrow> nat set \<Rightarrow> bool" where
  "swept H ps ps' K \<longleftrightarrow> drained H ps' K \<and> (\<forall>j. j \<notin> K \<longrightarrow> ps' ! j = ps ! j)"

lemma swept_refl: "swept H ps ps {}"
  by (simp add: swept_def drained_def)

lemma swept_trans: "swept H ps qs A \<Longrightarrow> swept H qs rs B \<Longrightarrow> swept H ps rs (A \<union> B)"
  unfolding swept_def drained_def by (metis Un_iff)

lemma np_alloc_any:
  assumes "pool_inv c H L S p" "cpu \<noteq> SIZE_MAX" "m + 511 < 2 ^ 64"
  shows "\<exists>al L' S'. np_allocatePages cpu m f p = Inr al \<and> pool_inv c (H \<union> set_option (paPageRemaining al)) L' S' (al_pool al) \<and>
    granted p L (al_pool al) L' (al_out al) \<and> totalPages (al_out al) = allocatedPages al \<and> (\<forall>j \<in> H. metaAt (al_pool al) j = metaAt p j) \<and>
    (\<forall>i. paPageRemaining al = Some i \<longrightarrow> i \<notin> H \<and> allocHolder (metaAt (al_pool al) i) = SIZE_MAX \<and> np_avail (al_pool al) i \<noteq> {} \<and>
       m \<le> allocatedPages al) \<and>
    (\<not> flags_has f BIG_PAGE_ONLY \<longrightarrow> allocatedPages al \<le> m \<and>
       (allocatedPages al < m \<longrightarrow> paPageRemaining al = None \<and> (\<forall>i < bigPageCount p. i \<notin> H \<longrightarrow> np_avail (al_pool al) i = {}))) \<and>
    (flags_has f BIG_PAGE_ONLY \<longrightarrow> paPageRemaining al = None \<and> (512 dvd m \<longrightarrow> allocatedPages al \<le> m))"
proof (cases "flags_has f BIG_PAGE_ONLY")
  case True
  then obtain al L' where a: "np_allocatePages cpu m f p = Inr al" "pool_inv c H L' S (al_pool al)" "granted p L (al_pool al) L' (al_out al)"
      "totalPages (al_out al) = allocatedPages al" "paPageRemaining al = None" "\<forall>j \<in> H. metaAt (al_pool al) j = metaAt p j"
      "allocatedPages al = 512 * min ((m + 511) div 512) (length (np_items p))"
    using np_bigOnly_spec [OF assms(1,3) True] by blast
  moreover have "allocatedPages al \<le> m" if "512 dvd m" using a(7) that by (auto elim!: dvdE)
  ultimately show ?thesis using True by (intro exI [of _ al] exI [of _ L'] exI [of _ S]) simp
next
  case False
  obtain al L' S' where a: "np_allocatePages cpu m f p = Inr al" "al_inv c H p L m L' S' al"
      "smallPageCount al = 0 \<or> (\<forall>i < bigPageCount p. i \<notin> H \<longrightarrow> np_avail (al_pool al) i = {})"
    using np_allocatePages_spec [OF assms False] by blast
  have I: "pool_inv c (H \<union> set_option (paPageRemaining al)) L' S' (al_pool al)" "granted p L (al_pool al) L' (al_out al)"
      "totalPages (al_out al) = allocatedPages al" "smallPageCount al + allocatedPages al = m" "\<forall>j \<in> H. metaAt (al_pool al) j = metaAt p j"
      "\<forall>i. paPageRemaining al = Some i \<longrightarrow> i \<notin> H \<and> smallPageCount al = 0 \<and> allocHolder (metaAt (al_pool al) i) = SIZE_MAX \<and> np_avail (al_pool al) i \<noteq> {}"
    using a(2) by (simp_all add: al_inv_def)
  have lt: "paPageRemaining al = None \<and> (\<forall>i < bigPageCount p. i \<notin> H \<longrightarrow> np_avail (al_pool al) i = {})" if "allocatedPages al < m"
    using that a(3) I(4,6) by (cases "paPageRemaining al") auto
  have "m \<le> allocatedPages al" if "paPageRemaining al = Some i" for i using that I(4,6) by simp
  then show ?thesis using a(1) I lt False by (intro exI [of _ al] exI [of _ L'] exI [of _ S']) auto
qed

lemma pool_alloc_step:
  assumes w: "world c H L S ps" and k: "k < length ps" and cpu: "cpu \<noteq> SIZE_MAX" and m: "m + 511 < 2 ^ 64"
  shows "\<exists>al L' S'. np_allocatePages cpu m f (ps ! k) = Inr al \<and> world c (H \<union> extraPage k al) L' S' (ps[k := al_pool al]) \<and>
    took ps L (al_out al) (ps[k := al_pool al]) L' \<and> totalPages (al_out al) = allocatedPages al \<and> kept H ps (ps[k := al_pool al]) \<and>
    (\<forall>q \<in> extraPage k al. q \<notin> H \<and> allocHolder (ptrMeta (ps[k := al_pool al]) q) = SIZE_MAX \<and>
       pg_avail (ptrMeta (ps[k := al_pool al]) q) \<noteq> {} \<and> m \<le> allocatedPages al) \<and>
    (\<not> flags_has f BIG_PAGE_ONLY \<longrightarrow> allocatedPages al \<le> m \<and>
       (allocatedPages al < m \<longrightarrow> extraPage k al = {} \<and> drained H (ps[k := al_pool al]) {k})) \<and>
    (flags_has f BIG_PAGE_ONLY \<longrightarrow> extraPage k al = {} \<and> (512 dvd m \<longrightarrow> allocatedPages al \<le> m))"
proof -
  obtain al L' S' where a: "np_allocatePages cpu m f (ps ! k) = Inr al"
      "pool_inv (c k) (heldIn H k \<union> set_option (paPageRemaining al)) L' S' (al_pool al)"
      "granted (ps ! k) (L k) (al_pool al) L' (al_out al)" "totalPages (al_out al) = allocatedPages al"
      "\<forall>j \<in> heldIn H k. metaAt (al_pool al) j = metaAt (ps ! k) j"
      "\<forall>i. paPageRemaining al = Some i \<longrightarrow> i \<notin> heldIn H k \<and> allocHolder (metaAt (al_pool al) i) = SIZE_MAX \<and> np_avail (al_pool al) i \<noteq> {} \<and>
         m \<le> allocatedPages al"
      "\<not> flags_has f BIG_PAGE_ONLY \<longrightarrow> allocatedPages al \<le> m \<and> (allocatedPages al < m \<longrightarrow> paPageRemaining al = None \<and>
         (\<forall>i < bigPageCount (ps ! k). i \<notin> heldIn H k \<longrightarrow> np_avail (al_pool al) i = {}))"
      "flags_has f BIG_PAGE_ONLY \<longrightarrow> paPageRemaining al = None \<and> (512 dvd m \<longrightarrow> allocatedPages al \<le> m)"
    using np_alloc_any [OF worldD(1) [OF w k] cpu m] by blast
  let ?ps = "ps[k := al_pool al]"
  have fr: "same_frame (ps ! k) (al_pool al)" "bigPageCount (al_pool al) = bigPageCount (ps ! k)" using a(3) by (simp_all add: granted_def same_frame_def)
  have h: "heldIn (H \<union> extraPage k al) k = heldIn H k \<union> set_option (paPageRemaining al)" "\<And>j. j \<noteq> k \<Longrightarrow> heldIn (H \<union> extraPage k al) j = heldIn H j"
    by (auto simp: heldIn_def extraPage_def split: option.splits)
  have "world c (H \<union> extraPage k al) (L(k := L')) (S(k := S')) ?ps"
    by (rule world_upd [OF w k _ fr(1) h(2)]) (use a(2) h(1) w k in \<open>auto simp: world_def extraPage_def split: option.splits\<close>)
  moreover have "took ps L (al_out al) ?ps (L(k := L'))" by (rule took_upd [OF w k _ a(3)]) (use a(2) in \<open>simp add: pool_inv_def\<close>)
  moreover have "kept H ps ?ps" using a(5) k by (auto simp: kept_def nth_list_update heldIn_def)
  moreover have "drained H ?ps {k}" if "\<forall>i < bigPageCount (ps ! k). i \<notin> heldIn H k \<longrightarrow> np_avail (al_pool al) i = {}"
    using that k fr(2) by (simp add: drained_def heldIn_def)
  ultimately show ?thesis using a(1,4,6-8) k
    by (intro exI [of _ al] exI [of _ "L(k := L')"] exI [of _ "S(k := S')"])
      (auto simp: extraPage_def heldIn_def split: option.splits)
qed

section \<open>The state of a request\<close>

text \<open>
  A request for \<open>n\<close> pages began at the pools \<open>ps0\<close> with the cache \<open>lp0\<close>; \<open>s\<close> is the cache and the locals now.
  What was handed out so far was available at the start, the caches of other processors are untouched,
  and \<open>lo_count\<close> is what is still missing.
\<close>

definition req_inv :: "(nat \<Rightarrow> nat) \<Rightarrow> PagePtr set \<Rightarrow> NUMAPool list \<Rightarrow> (nat \<Rightarrow> nat \<Rightarrow> nat set) \<Rightarrow> LocalPool \<Rightarrow> nat \<Rightarrow>
    LocalPool \<times> lp_locals \<Rightarrow> bool" where
  "req_inv c X ps0 L0 lp0 n s \<longleftrightarrow> (case s of (lp, st) \<Rightarrow>
     (\<exists>L S. world c (X \<union> lp_pages lp) L S (lo_pools st) \<and> took ps0 L0 (lo_out st) (lo_pools st) L) \<and>
     X \<inter> lp_pages lp = {} \<and> lp_ok (lo_pools st) lp \<and> kept X ps0 (lo_pools st) \<and> lp_settings lp = lp_settings lp0 \<and>
     lo_allocated st = totalPages (lo_out st) \<and> lo_count st = n - lo_allocated st)"

definition req_ok :: "NUMAPool list \<Rightarrow> LocalPool \<Rightarrow> nat \<Rightarrow> bool" where
  "req_ok ps lp cpu \<longleftrightarrow> lp_pid lp = cpu \<and> cpu \<noteq> SIZE_MAX \<and> lp_serves ps lp"

lemma req_start:
  assumes "world c (X \<union> lp_pages lp) L S ps" "X \<inter> lp_pages lp = {}" "lp_ok ps lp"
  shows "req_inv c X ps L lp n (lp, startRequest n ps)"
  using assms took_refl [of ps L] by (auto simp: req_inv_def startRequest_def kept_def)

lemma req_serves:
  assumes "req_inv c X ps0 L0 lp0 n (lp, st)" "req_ok ps0 lp0 cpu"
  shows "lp_serves (lo_pools st) lp" "lp_pid lp = cpu" "length (lo_pools st) = length ps0"
proof -
  obtain L where t: "took ps0 L0 (lo_out st) (lo_pools st) L" and "lp_settings lp = lp_settings lp0" using assms(1) by (auto simp: req_inv_def)
  then have s: "lp_pid lp = lp_pid lp0" "lp_topology lp = lp_topology lp0" by (simp_all add: lp_settings_def)
  show "lp_serves (lo_pools st) lp" using assms(2) s serves_same [OF _ t] by (auto simp: req_ok_def lp_serves_def)
  show "lp_pid lp = cpu" "length (lo_pools st) = length ps0" using assms(2) s took_length [OF t] by (simp_all add: req_ok_def)
qed

text \<open>One more piece of the request, given by what it took and what the cache became.\<close>

lemma req_step:
  assumes I: "req_inv c X ps0 L0 lp0 n (lp, st)" and t: "\<And>L S. world c (X \<union> lp_pages lp) L S (lo_pools st) \<Longrightarrow>
      \<exists>L' S'. world c (X \<union> lp_pages lp') L' S' (lo_pools st') \<and> took (lo_pools st) L out (lo_pools st') L'"
    and o: "lo_out st' = lo_out st @ out" "lo_allocated st' = lo_allocated st + totalPages out"
      "lo_count st' = lo_count st - totalPages out"
    and lp': "X \<inter> lp_pages lp' = {}" "lp_ok (lo_pools st') lp'" "kept X (lo_pools st) (lo_pools st')" "lp_settings lp' = lp_settings lp"
  shows "req_inv c X ps0 L0 lp0 n (lp', st')"
proof -
  obtain L S where L: "world c (X \<union> lp_pages lp) L S (lo_pools st)" "took ps0 L0 (lo_out st) (lo_pools st) L"
    using I by (auto simp: req_inv_def)
  obtain L' S' where L': "world c (X \<union> lp_pages lp') L' S' (lo_pools st')" "took (lo_pools st) L out (lo_pools st') L'"
    using t [OF L(1)] by blast
  have "took ps0 L0 (lo_out st') (lo_pools st') L'" unfolding o(1) by (rule took_trans [OF L(2) L'(2)])
  moreover have "totalPages (lo_out st') = totalPages (lo_out st) + totalPages out"
    unfolding o(1) by (simp add: totalPages_append)
  ultimately show ?thesis using I L'(1) lp' o(2,3) kept_trans [of X ps0 "lo_pools st" "lo_pools st'"] by (auto simp: req_inv_def)
qed

section \<open>From the cache\<close>

lemma fromLocalPool_spec:
  assumes I: "req_inv c X ps0 L0 lp0 n (lp, st)" and r: "req_ok ps0 lp0 cpu"
  shows "\<exists>lp' st'. fromLocalPool cpu (lo_count st) f (lp, st) = Inr (lp', st') \<and> req_inv c X ps0 L0 lp0 n (lp', st') \<and>
    (lo_allocated st \<le> n \<longrightarrow> lo_allocated st' \<le> n) \<and> lo_count st' \<le> lo_count st \<and>
    (\<not> flags_has f BIG_PAGE_ONLY \<longrightarrow> lo_count st' \<noteq> 0 \<longrightarrow> lp_pages lp' = {})"
proof -
  obtain L S where L: "world c (X \<union> lp_pages lp) L S (lo_pools st)" "X \<inter> lp_pages lp = {}" "lp_ok (lo_pools st) lp"
    using I by (auto simp: req_inv_def)
  note R = req_serves [OF I r]
  have cpu: "cpu \<noteq> SIZE_MAX" using r by (simp add: req_ok_def)
  obtain lp' q where q: "lp_allocatePages cpu (lo_count st) f lp (lo_pools st) = Inr (lp', q)" "lp_post c X L (lo_pools st) lp (lo_count st) lp' q"
      "\<not> flags_has f BIG_PAGE_ONLY \<longrightarrow> lo_count q \<noteq> 0 \<longrightarrow> lp_pages lp' = {}"
    using lp_allocatePages_spec [OF L R(2) cpu] by blast
  let ?st' = "st\<lparr>lo_pools := lo_pools q, lo_count := lo_count st - lo_allocated q, lo_allocated := lo_allocated st + lo_allocated q,
    lo_out := lo_out st @ lo_out q\<rparr>"
  have P: "X \<inter> lp_pages lp' = {}" "lp_ok (lo_pools q) lp'" "kept X (lo_pools st) (lo_pools q)" "lp_settings lp' = lp_settings lp"
    "lo_allocated q = totalPages (lo_out q)" "lo_count q + lo_allocated q = lo_count st" using q(2) by (simp_all add: lp_post_def)
  have "req_inv c X ps0 L0 lp0 n (lp', ?st')"
  proof (rule req_step [OF I])
    fix M T assume w: "world c (X \<union> lp_pages lp) M T (lo_pools st)"
    obtain lp2 q2 where "lp_allocatePages cpu (lo_count st) f lp (lo_pools st) = Inr (lp2, q2)" "lp_post c X M (lo_pools st) lp (lo_count st) lp2 q2"
      using lp_allocatePages_spec [OF w L(2,3) R(2) cpu] by blast
    then show "\<exists>L' S'. world c (X \<union> lp_pages lp') L' S' (lo_pools ?st') \<and> took (lo_pools st) M (lo_out q) (lo_pools ?st') L'"
      using q(1) by (simp add: lp_post_def)
  qed (use P in simp_all)
  moreover have "fromLocalPool cpu (lo_count st) f (lp, st) = Inr (lp', ?st')"
    using q(1) P(6) by (simp add: fromLocalPool_def)
  moreover have "lo_allocated st \<le> n \<longrightarrow> lo_allocated st + lo_allocated q \<le> n"
    using I P(6) by (auto simp: req_inv_def)
  ultimately show ?thesis using q(3) P(6) by (intro exI [of _ lp'] exI [of _ ?st']) auto
qed

lemma fromLocalPool_empty:
  assumes "lp_pages lp = {}"
  shows "fromLocalPool cpu m f (lp, st) = Inr (lp, st)"
  using assms by (auto simp: fromLocalPool_def lp_allocatePages_def lp_pages_def Let_def)

section \<open>From a pool\<close>

lemma lp_ok_kept:
  assumes "lp_ok ps lp" "kept H ps ps'" "lp_pages lp \<subseteq> H" "length ps' = length ps"
  shows "lp_ok ps' lp"
  using assms holds_kept [OF _ kept_mono [OF assms(2,3)] assms(4)] by (simp add: lp_ok_def)

lemma tookFrom_simps [simp]:
  "lo_pools (tookFrom k al st) = (lo_pools st)[k := al_pool al]" "lo_out (tookFrom k al st) = lo_out st @ al_out al"
  "lo_allocated (tookFrom k al st) = lo_allocated st + allocatedPages al" "lo_count (tookFrom k al st) = lo_count st - allocatedPages al"
  by (simp_all add: tookFrom_def)

lemma fromNumaPool_spec:
  assumes I: "req_inv c X ps0 L0 lp0 n (lp, st)" and r: "req_ok ps0 lp0 cpu" and k: "k < length ps0" and m: "m + 511 < 2 ^ 64"
  shows "\<exists>lp' st'. fromNumaPool cpu m k f (lp, st) = Inr (lp', st') \<and> req_inv c X ps0 L0 lp0 n (lp', st') \<and>
    (lo_allocated st \<le> n \<longrightarrow> m \<le> lo_count st \<longrightarrow> (flags_has f BIG_PAGE_ONLY \<longrightarrow> 512 dvd m) \<longrightarrow> lo_allocated st' \<le> n) \<and>
    lo_count st' \<le> lo_count st \<and>
    (\<not> flags_has f BIG_PAGE_ONLY \<longrightarrow> m = lo_count st \<longrightarrow> lo_count st' \<noteq> 0 \<longrightarrow>
       lp' = lp \<and> swept (X \<union> lp_pages lp) (lo_pools st) (lo_pools st') {k})"
proof -
  obtain L S where L: "world c (X \<union> lp_pages lp) L S (lo_pools st)" and X: "X \<inter> lp_pages lp = {}" and ok: "lp_ok (lo_pools st) lp"
    using I by (auto simp: req_inv_def)
  note R = req_serves [OF I r]
  have cpu: "cpu \<noteq> SIZE_MAX" and kl: "k < length (lo_pools st)" using r R(3) k by (simp_all add: req_ok_def)
  let ?H = "X \<union> lp_pages lp" and ?ps = "lo_pools st"
  obtain al L1 S1 where a: "np_allocatePages cpu m f (?ps ! k) = Inr al" "world c (?H \<union> extraPage k al) L1 S1 (?ps[k := al_pool al])"
      "took ?ps L (al_out al) (?ps[k := al_pool al]) L1" "totalPages (al_out al) = allocatedPages al" "kept ?H ?ps (?ps[k := al_pool al])"
      "\<forall>q \<in> extraPage k al. q \<notin> ?H \<and> allocHolder (ptrMeta (?ps[k := al_pool al]) q) = SIZE_MAX \<and>
         pg_avail (ptrMeta (?ps[k := al_pool al]) q) \<noteq> {} \<and> m \<le> allocatedPages al"
      "\<not> flags_has f BIG_PAGE_ONLY \<longrightarrow> allocatedPages al \<le> m \<and> (allocatedPages al < m \<longrightarrow> extraPage k al = {} \<and> drained ?H (?ps[k := al_pool al]) {k})"
      "flags_has f BIG_PAGE_ONLY \<longrightarrow> extraPage k al = {} \<and> (512 dvd m \<longrightarrow> allocatedPages al \<le> m)"
    using pool_alloc_step [OF L kl cpu m, of f] by blast
  let ?st1 = "tookFrom k al st"
  have ok1: "lp_ok (lo_pools ?st1) lp" using lp_ok_kept [OF ok a(5)] by simp
  have kX: "kept X ?ps (lo_pools ?st1)" using kept_mono [OF a(5)] by simp
  have fits: "lo_allocated st + allocatedPages al \<le> n" if "lo_allocated st \<le> n" "m \<le> lo_count st" "flags_has f BIG_PAGE_ONLY \<longrightarrow> 512 dvd m"
    using that I a(7,8) by (cases "flags_has f BIG_PAGE_ONLY") (auto simp: req_inv_def)
  show ?thesis
  proof (cases "paPageRemaining al")
    case None
    then have e: "extraPage k al = {}" by (simp add: extraPage_def)
    have I1: "req_inv c X ps0 L0 lp0 n (lp, ?st1)"
    proof (rule req_step [OF I])
      fix M T assume w: "world c ?H M T ?ps"
      show "\<exists>L' S'. world c ?H L' S' (lo_pools ?st1) \<and> took ?ps M (al_out al) (lo_pools ?st1) L'"
        using pool_alloc_step [OF w kl cpu m, of f] a(1) e by auto
    qed (use a(4) X ok1 kX in simp_all)
    have "fromNumaPool cpu m k f (lp, st) = Inr (lp, ?st1)" using a(1) kl None by (simp add: fromNumaPool_def)
    then show ?thesis using I1 fits a(7) by (intro exI [of _ lp] exI [of _ ?st1]) (auto simp: swept_def)
  next
    case (Some i)
    let ?q = "(k, i)"
    have e: "extraPage k al = {?q}" using Some by (simp add: extraPage_def)
    have q: "?q \<notin> ?H" "allocHolder (ptrMeta (lo_pools ?st1) ?q) = SIZE_MAX" "pg_avail (ptrMeta (lo_pools ?st1) ?q) \<noteq> {}" "m \<le> allocatedPages al"
      using a(6) e by simp_all
    have sv: "lp_serves (lo_pools ?st1) lp" using R(1) serves_same [OF _ a(3)] by (auto simp: lp_serves_def)
    have w1: "world c (insert ?q ?H) L1 S1 (lo_pools ?st1)" using a(2) e by simp
    obtain lp' ps' where g: "tryGivePAPage ?q lp (lo_pools ?st1) = Inr (lp', ps')" "give_post c X L1 (lo_pools ?st1) lp lp' ps'"
      using tryGivePAPage_spec [OF w1 q(1-3) X ok1 sv] by blast
    let ?st2 = "?st1\<lparr>lo_pools := ps'\<rparr>"
    have I2: "req_inv c X ps0 L0 lp0 n (lp', ?st2)"
    proof (rule req_step [OF I])
      fix M T assume w: "world c ?H M T ?ps"
      obtain M1 T1 where M1: "world c (insert ?q ?H) M1 T1 (lo_pools ?st1)" "took ?ps M (al_out al) (lo_pools ?st1) M1"
        using pool_alloc_step [OF w kl cpu m, of f] a(1) e by auto
      have "give_post c X M1 (lo_pools ?st1) lp lp' ps'"
        using tryGivePAPage_spec [OF M1(1) q(1-3) X ok1 sv] g(1) by auto
      then show "\<exists>L' S'. world c (X \<union> lp_pages lp') L' S' (lo_pools ?st2) \<and> took ?ps M (al_out al) (lo_pools ?st2) L'"
        using took_trans [OF M1(2), of "[]" ps'] by (auto simp: give_post_def)
    qed (use a(4) g(2) kept_trans [OF kX] in \<open>simp_all add: give_post_def\<close>)
    have "fromNumaPool cpu m k f (lp, st) = Inr (lp', ?st2)" using a(1) kl Some g(1) by (simp add: fromNumaPool_def)
    then show ?thesis using I2 fits q(4) by (intro exI [of _ lp'] exI [of _ ?st2]) auto
  qed
qed

section \<open>The loop over the domains\<close>

definition poolsOf :: "PageAllocatorImpl \<Rightarrow> DomainID list \<Rightarrow> nat set" where
  "poolsOf a ds = {k. \<exists>d \<in> set ds. numaPools a ! unat d = Some k}"

lemma poolsOf_simps [simp]:
  "poolsOf a [] = {}" "poolsOf a (d # ds) = set_option (numaPools a ! unat d) \<union> poolsOf a ds"
  by (auto simp: poolsOf_def)

text \<open>The request goes on from \<open>s\<close> to \<open>s'\<close>; if it is still not met, the pools in \<open>K\<close> are empty now.\<close>

definition proceeds :: "PagePtr set \<Rightarrow> nat \<Rightarrow> AllocFlags \<Rightarrow> nat set \<Rightarrow> LocalPool \<times> lp_locals \<Rightarrow> LocalPool \<times> lp_locals \<Rightarrow> bool" where
  "proceeds X n f K s s' \<longleftrightarrow> lo_count (snd s') \<le> lo_count (snd s) \<and> (\<not> flags_has f BIG_PAGE_ONLY \<longrightarrow>
     (lo_allocated (snd s) \<le> n \<longrightarrow> lo_allocated (snd s') \<le> n) \<and>
     (lo_count (snd s') \<noteq> 0 \<longrightarrow> fst s' = fst s \<and> swept (X \<union> lp_pages (fst s)) (lo_pools (snd s)) (lo_pools (snd s')) K))"

lemma proceeds_refl: "proceeds X n f {} s s"
  by (simp add: proceeds_def swept_refl)

lemma proceeds_trans:
  assumes "proceeds X n f A s s'" "proceeds X n f B s' s''"
  shows "proceeds X n f (A \<union> B) s s''"
  using assms swept_trans unfolding proceeds_def by fastforce

lemma proceeds_met: "proceeds X n f A s s' \<Longrightarrow> lo_count (snd s') = 0 \<Longrightarrow> proceeds X n f B s s'"
  by (simp add: proceeds_def)

lemma fromNumaPool_rest:
  assumes "req_inv c X ps0 L0 lp0 n s" "req_ok ps0 lp0 cpu" "k < length ps0" "n + 511 < 2 ^ 64"
  shows "\<exists>s'. fromNumaPool cpu (lo_count (snd s)) k f s = Inr s' \<and> req_inv c X ps0 L0 lp0 n s' \<and> proceeds X n f {k} s s'"
proof -
  have "lo_count (snd s) + 511 < 2 ^ 64" using assms(1,4) by (auto simp: req_inv_def)
  then show ?thesis using fromNumaPool_spec [of c X ps0 L0 lp0 n "fst s" "snd s" cpu k _ f] assms
    by (fastforce simp: proceeds_def)
qed

lemma fallbackLoop_spec:
  assumes "req_inv c X ps0 L0 lp0 n s" "req_ok ps0 lp0 cpu" "n + 511 < 2 ^ 64"
    and "\<forall>d \<in> set ds. unat d < length (numaPools a)" "\<forall>k. Some k \<in> set (numaPools a) \<longrightarrow> k < length ps0"
  shows "\<exists>s'. fallbackLoop cpu f a ds s = Inr s' \<and> req_inv c X ps0 L0 lp0 n s' \<and> proceeds X n f (poolsOf a ds) s s'"
  using assms(1,4)
proof (induction ds arbitrary: s)
  case Nil
  then show ?case by (simp add: proceeds_refl)
next
  case (Cons d ds)
  let ?slot = "numaPools a ! unat d"
  have d: "readAt (numaPools a) (unat d) = Inr ?slot" "?slot \<in> set (numaPools a)" using Cons.prems(2) by simp_all
  have "\<exists>s1. (case ?slot of Some k \<Rightarrow> fromNumaPool cpu (lo_count (snd s)) k f s | None \<Rightarrow> Inr s) = Inr s1 \<and>
    req_inv c X ps0 L0 lp0 n s1 \<and> proceeds X n f (set_option ?slot) s s1"
  proof (cases ?slot)
    case None
    then show ?thesis using Cons.prems(1) by (simp add: proceeds_refl)
  next
    case (Some k)
    then have "k < length ps0" using d(2) assms(5) by simp
    then show ?thesis using fromNumaPool_rest [OF Cons.prems(1) assms(2) _ assms(3)] Some by simp
  qed
  then obtain s1 where 1: "(case ?slot of Some k \<Rightarrow> fromNumaPool cpu (lo_count (snd s)) k f s | None \<Rightarrow> Inr s) = Inr s1"
    "req_inv c X ps0 L0 lp0 n s1" "proceeds X n f (set_option ?slot) s s1" by blast
  have run: "fallbackLoop cpu f a (d # ds) s = (if lo_count (snd s1) = 0 then Inr s1 else fallbackLoop cpu f a ds s1)"
    unfolding fallbackLoop.simps d(1) bindO_Inr 1(1) ..
  show ?case
  proof (cases "lo_count (snd s1) = 0")
    case True
    then show ?thesis unfolding run using 1(2) proceeds_met [OF 1(3) True] by simp
  next
    case False
    obtain s' where "fallbackLoop cpu f a ds s1 = Inr s'" "req_inv c X ps0 L0 lp0 n s'" "proceeds X n f (poolsOf a ds) s1 s'"
      using Cons.IH [OF 1(2)] Cons.prems(2) by auto
    then show ?thesis unfolding run using False proceeds_trans [OF 1(3)] by simp
  qed
qed

section \<open>The fallback path\<close>

text \<open>
  What the allocation paths need of the wiring of the allocator for a processor: it has a nearest pool,
  the slots name pools, and the policy orders domains that have a slot.
\<close>

definition wired :: "nat \<Rightarrow> PageAllocatorImpl \<Rightarrow> bool" where
  "wired cpu a \<longleftrightarrow> (\<exists>k. nearestPool cpu a = Inr k \<and> k < length (pa_pools a)) \<and>
     (\<forall>k. Some k \<in> insert (unownedPool a) (set (numaPools a)) \<longrightarrow> k < length (pa_pools a)) \<and>
     (\<forall>pol. numaPolicy a = Some pol \<longrightarrow> (\<exists>h order. homeDomain cpu pol = Inr h \<and> domainOrder h pol = Inr order \<and>
        (\<forall>d \<in> set order. unat d < length (numaPools a))))"

text \<open>The pools asked before the last resort.\<close>

definition visited :: "nat \<Rightarrow> AllocFlags \<Rightarrow> PageAllocatorImpl \<Rightarrow> nat set" where
  "visited cpu flags a =
     (if returnsEarly flags a
      then {k. \<exists>h order. homeDomain cpu (the (numaPolicy a)) = Inr h \<and> domainOrder h (the (numaPolicy a)) = Inr order \<and> k \<in> poolsOf a order}
      else {k. nearestPool cpu a = Inr k})"

lemma flags_or_has [simp]:
  "flags_has (flags_or f LOCAL_DOMAIN_ONLY) BIG_PAGE_ONLY = flags_has f BIG_PAGE_ONLY"
  "flags_has (flags_or f LOCAL_DOMAIN_ONLY) LOCAL_DOMAIN_ONLY" "flags_has (flags_or f BIG_PAGE_ONLY) BIG_PAGE_ONLY"
proof -
  have "(f OR 2) AND 1 = f AND 1" "(f OR 2) AND 2 = 2" "(f OR 1) AND 1 = 1" for f :: u32
    by (simp_all add: bit.conj_disj_distrib2 and.assoc)
  then show "flags_has (flags_or f LOCAL_DOMAIN_ONLY) BIG_PAGE_ONLY = flags_has f BIG_PAGE_ONLY"
    "flags_has (flags_or f LOCAL_DOMAIN_ONLY) LOCAL_DOMAIN_ONLY" "flags_has (flags_or f BIG_PAGE_ONLY) BIG_PAGE_ONLY"
    by (simp_all add: flags_has_def flags_or_def)
qed

lemma bigFirst_spec:
  assumes I: "req_inv c X ps0 L0 lp0 n s" and r: "req_ok ps0 lp0 cpu" and n: "n + 511 < 2 ^ 64"
    and wi: "wired cpu a" "length ps0 = length (pa_pools a)" and f: "\<not> flags_has f BIG_PAGE_ONLY"
  shows "\<exists>s'. bigFirst cpu f a s = Inr s' \<and> req_inv c X ps0 L0 lp0 n s' \<and> (lo_allocated (snd s) \<le> n \<longrightarrow> lo_allocated (snd s') \<le> n) \<and>
    (lo_count (snd s') \<noteq> 0 \<longrightarrow> lp_pages (fst s') = {})"
proof -
  obtain lp st where s: "s = (lp, st)" by (cases s)
  obtain k where k: "nearestPool cpu a = Inr k" "k < length ps0" using wi by (auto simp: wired_def)
  let ?m = "unat (roundDownToNearestMultiple (of_nat (lo_count st) :: u64) 512)"
  have "lo_count st < 2 ^ 64" using I n by (auto simp: s req_inv_def)
  then have m: "?m = lo_count st div 512 * 512"
    using unat_round(1) [of "512 :: u64" "of_nat (lo_count st)"] by (simp add: unat_of_nat_64)
  have "lo_count st div 512 * 512 \<le> lo_count st" by simp
  then have m': "?m + 511 < 2 ^ 64" "512 dvd ?m" "?m \<le> lo_count st" using I n unfolding m by (auto simp: s req_inv_def)
  obtain lp1 st1 where 1: "fromNumaPool cpu ?m k (flags_or f BIG_PAGE_ONLY) (lp, st) = Inr (lp1, st1)" "req_inv c X ps0 L0 lp0 n (lp1, st1)"
      "lo_allocated st \<le> n \<longrightarrow> lo_allocated st1 \<le> n"
    using fromNumaPool_spec [OF I [unfolded s] r k(2) m'(1), of "flags_or f BIG_PAGE_ONLY"] m'(2,3) by blast
  have f': "\<not> flags_has (flags_or f LOCAL_DOMAIN_ONLY) BIG_PAGE_ONLY" using f by simp
  obtain lp2 st2 where 2: "fromLocalPool cpu (lo_count st1) (flags_or f LOCAL_DOMAIN_ONLY) (lp1, st1) = Inr (lp2, st2)"
      "req_inv c X ps0 L0 lp0 n (lp2, st2)" "lo_allocated st1 \<le> n \<longrightarrow> lo_allocated st2 \<le> n" "lo_count st2 \<noteq> 0 \<longrightarrow> lp_pages lp2 = {}"
    using fromLocalPool_spec [OF 1(2) r, of "flags_or f LOCAL_DOMAIN_ONLY"] f' by blast
  show ?thesis using 1 2 k(1) by (simp add: bigFirst_def s)
qed

lemma fromDomains_spec:
  assumes I: "req_inv c X ps0 L0 lp0 n s" and r: "req_ok ps0 lp0 cpu" and n: "n + 511 < 2 ^ 64"
    and wi: "wired cpu a" "length ps0 = length (pa_pools a)"
  shows "\<exists>s'. fromDomains cpu f a s = Inr s' \<and> req_inv c X ps0 L0 lp0 n s' \<and> proceeds X n f (visited cpu f a) s s'"
proof -
  obtain k where k: "nearestPool cpu a = Inr k" "k < length ps0" using wi by (auto simp: wired_def)
  note near = fromNumaPool_rest [OF I r k(2) n, of f]
  have slots: "\<forall>k. Some k \<in> set (numaPools a) \<longrightarrow> k < length ps0" using wi by (auto simp: wired_def)
  show ?thesis
  proof (cases "numaPolicy a")
    case None
    then show ?thesis using near k(1) by (simp add: fromDomains_def visited_def returnsEarly_def)
  next
    case (Some pol)
    then obtain h order where o: "homeDomain cpu pol = Inr h" "domainOrder h pol = Inr order" "\<forall>d \<in> set order. unat d < length (numaPools a)"
      using wi(1) by (auto simp: wired_def)
    show ?thesis
    proof (cases "flags_has f LOCAL_DOMAIN_ONLY")
      case True
      then show ?thesis using near k(1) o(1) Some by (simp add: fromDomains_def visited_def returnsEarly_def)
    next
      case False
      then show ?thesis using fallbackLoop_spec [OF I r n o(3) slots, of f] o Some
        by (simp add: fromDomains_def visited_def returnsEarly_def)
    qed
  qed
qed

abbreviation oom :: "'a outcome" where
  "oom \<equiv> Inl (Assertion ''Panic!!! Page allocator is out of memory'')"

text \<open>A request that is not met ends in a panic, unless the caller asked for a graceful failure.\<close>

definition concludes :: "AllocFlags \<Rightarrow> LocalPool \<times> lp_locals \<Rightarrow> (LocalPool \<times> lp_locals) outcome" where
  "concludes f s = (if lo_count (snd s) \<noteq> 0 \<and> \<not> flags_has f GRACEFUL_OOM then oom else Inr s)"

lemma lastResort_spec:
  assumes I: "req_inv c X ps0 L0 lp0 n s" and r: "req_ok ps0 lp0 cpu" and n: "n + 511 < 2 ^ 64"
    and wi: "wired cpu a" "length ps0 = length (pa_pools a)"
    and e: "\<not> flags_has f BIG_PAGE_ONLY \<longrightarrow> lo_count (snd s) \<noteq> 0 \<longrightarrow> lp_pages (fst s) = {}"
  shows "\<exists>s'. lastResort cpu f a s = concludes f s' \<and> req_inv c X ps0 L0 lp0 n s' \<and> proceeds X n f (set_option (unownedPool a)) s s'"
proof -
  obtain lp st where s: "s = (lp, st)" by (cases s)
  have "\<exists>s1. (if flags_has f BIG_PAGE_ONLY then Inr s else fromLocalPool cpu (lo_count (snd s)) f s) = Inr s1 \<and>
    req_inv c X ps0 L0 lp0 n s1 \<and> proceeds X n f {} s s1"
  proof (cases "flags_has f BIG_PAGE_ONLY \<or> lo_count st \<noteq> 0")
    case True
    then show ?thesis using I e fromLocalPool_empty [of lp] proceeds_refl by (cases "flags_has f BIG_PAGE_ONLY") (auto simp: s)
  next
    case False
    then obtain lp1 st1 where "fromLocalPool cpu (lo_count st) f (lp, st) = Inr (lp1, st1)" "req_inv c X ps0 L0 lp0 n (lp1, st1)"
        "lo_allocated st \<le> n \<longrightarrow> lo_allocated st1 \<le> n" "lo_count st1 \<le> lo_count st"
      using fromLocalPool_spec [OF I [unfolded s] r, of f] by blast
    then show ?thesis using False by (simp add: s proceeds_def)
  qed
  then obtain s1 where 1: "(if flags_has f BIG_PAGE_ONLY then Inr s else fromLocalPool cpu (lo_count (snd s)) f s) = Inr s1"
    "req_inv c X ps0 L0 lp0 n s1" "proceeds X n f {} s s1" by blast
  have "\<exists>s2. (case unownedPool a of Some k \<Rightarrow> fromNumaPool cpu (lo_count (snd s1)) k f s1 | None \<Rightarrow> Inr s1) = Inr s2 \<and>
    req_inv c X ps0 L0 lp0 n s2 \<and> proceeds X n f (set_option (unownedPool a)) s1 s2"
  proof (cases "unownedPool a")
    case None
    then show ?thesis using 1(2) by (simp add: proceeds_refl)
  next
    case (Some k)
    then have "k < length ps0" using wi by (auto simp: wired_def)
    then show ?thesis using fromNumaPool_rest [OF 1(2) r _ n] Some by simp
  qed
  then obtain s2 where 2: "(case unownedPool a of Some k \<Rightarrow> fromNumaPool cpu (lo_count (snd s1)) k f s1 | None \<Rightarrow> Inr s1) = Inr s2"
    "req_inv c X ps0 L0 lp0 n s2" "proceeds X n f (set_option (unownedPool a)) s1 s2" by blast
  have "lastResort cpu f a s = bindO (finishRequest f (snd s2)) (\<lambda>_. Inr s2)"
    unfolding lastResort_def 1(1) bindO_Inr 2(1) ..
  also have "\<dots> = concludes f s2" by (simp add: finishRequest_def concludes_def)
  finally show ?thesis using 2(2) proceeds_trans [OF 1(3) 2(3)] by (intro exI [of _ s2]) simp
qed

lemma allocateFallback_spec:
  assumes w: "world c (X \<union> lp_pages lp) L S ps" "X \<inter> lp_pages lp = {}" "lp_ok ps lp" and r: "req_ok ps lp cpu" and n: "n + 511 < 2 ^ 64"
    and wi: "wired cpu a" "length ps = length (pa_pools a)"
  shows "\<exists>s. allocateFallback cpu n f lp ps a = concludes f s \<and> req_inv c X ps L lp n s \<and> (\<not> flags_has f BIG_PAGE_ONLY \<longrightarrow>
    lo_allocated (snd s) \<le> n \<and> (lo_count (snd s) \<noteq> 0 \<longrightarrow> lp_pages (fst s) = {} \<and>
      drained X (lo_pools (snd s)) (visited cpu f a \<union> set_option (unownedPool a))))"
proof -
  let ?s0 = "(lp, startRequest n ps)"
  note I0 = req_start [OF w, of n]
  have "\<exists>s1. (if flags_has f BIG_PAGE_ONLY then Inr ?s0 else bigFirst cpu f a ?s0) = Inr s1 \<and> req_inv c X ps L lp n s1 \<and>
    (\<not> flags_has f BIG_PAGE_ONLY \<longrightarrow> lo_allocated (snd s1) \<le> n \<and> (lo_count (snd s1) \<noteq> 0 \<longrightarrow> lp_pages (fst s1) = {}))"
    using I0 bigFirst_spec [OF I0 r n wi, of f] by (cases "flags_has f BIG_PAGE_ONLY") (auto simp: startRequest_def)
  then obtain s1 where 1: "(if flags_has f BIG_PAGE_ONLY then Inr ?s0 else bigFirst cpu f a ?s0) = Inr s1" "req_inv c X ps L lp n s1"
    "\<not> flags_has f BIG_PAGE_ONLY \<longrightarrow> lo_allocated (snd s1) \<le> n \<and> (lo_count (snd s1) \<noteq> 0 \<longrightarrow> lp_pages (fst s1) = {})" by blast
  obtain s2 where 2: "fromDomains cpu f a s1 = Inr s2" "req_inv c X ps L lp n s2" "proceeds X n f (visited cpu f a) s1 s2"
    using fromDomains_spec [OF 1(2) r n wi] by blast
  have "\<not> flags_has f BIG_PAGE_ONLY \<longrightarrow> lo_count (snd s2) \<noteq> 0 \<longrightarrow> lp_pages (fst s2) = {}"
    using 1(3) 2(3) by (auto simp: proceeds_def)
  then obtain s3 where 3: "lastResort cpu f a s2 = concludes f s3" "req_inv c X ps L lp n s3" "proceeds X n f (set_option (unownedPool a)) s2 s3"
    using lastResort_spec [OF 2(2) r n wi] by blast
  have P: "proceeds X n f (visited cpu f a \<union> set_option (unownedPool a)) s1 s3" using proceeds_trans [OF 2(3) 3(3)] .
  have run: "allocateFallback cpu n f lp ps a =
      (if lo_count (snd s1) = 0 then Inr s1 else if returnsEarly f a \<and> lo_count (snd s2) = 0 then Inr s2 else concludes f s3)"
    unfolding allocateFallback_def Let_def 1(1) bindO_Inr 2(1) 3(1) ..
  consider (first) "lo_count (snd s1) = 0" | (loop) "lo_count (snd s1) \<noteq> 0" "returnsEarly f a \<and> lo_count (snd s2) = 0"
    | (last) "lo_count (snd s1) \<noteq> 0" "\<not> (returnsEarly f a \<and> lo_count (snd s2) = 0)" by blast
  then show ?thesis
  proof cases
    case first
    then show ?thesis unfolding run using 1(2,3)
      by (intro exI [of _ s1]) (simp add: concludes_def)
  next
    case loop
    then show ?thesis unfolding run using 1(3) 2(2,3)
      by (intro exI [of _ s2]) (simp add: concludes_def proceeds_def)
  next
    case last
    then have e: "allocateFallback cpu n f lp ps a = concludes f s3" unfolding run by auto
    show ?thesis using e 1(3) 3(2) P last
      by (intro exI [of _ s3]) (simp add: proceeds_def swept_def)
  qed
qed

end
