(* ===== verification/Page_Alloc_Correct.thy ===== *)
theory Page_Alloc_Correct
  imports Page_Alloc_Laws
begin

text \<open>
  The page allocator as a whole: the invariant over the pools of the machine and the caches of all
  processors, and what \<open>allocatePages\<close> and \<open>freePages\<close> do to the set of available pages.
\<close>

section \<open>The pages a processor can get\<close>

text \<open>The available pages outside of the detached big pages \<open>X\<close>, by page number.\<close>

definition reachable :: "PagePtr set \<Rightarrow> NUMAPool list \<Rightarrow> nat set" where
  "reachable X ps = {pg_first (metaAt (ps ! k) i) + s | k i s. k < length ps \<and> i < bigPageCount (ps ! k) \<and> (k, i) \<notin> X \<and> s \<in> np_avail (ps ! k) i}"

lemma page_unique:
  assumes w: "world c H L S ps" and k: "k < length ps" "k' < length ps" and i: "i < bigPageCount (ps ! k)" "i' < bigPageCount (ps ! k')"
    and s: "s < 512" "s' < 512" "pg_first (metaAt (ps ! k) i) + s = pg_first (metaAt (ps ! k') i') + s'"
  shows "k = k' \<and> i = i' \<and> s = s'"
proof -
  have d: "2097152 dvd unat (bpm_base (metaAt (ps ! k) i))" "2097152 dvd unat (bpm_base (metaAt (ps ! k') i'))"
    using pg_invD(3) [OF pool_pages(2) [OF worldD(1) [OF w k(1)] i(1)]] pg_invD(3) [OF pool_pages(2) [OF worldD(1) [OF w k(2)] i(2)]] by simp_all
  have e: "bpm_base (metaAt (ps ! k) i) = bpm_base (metaAt (ps ! k') i') \<and> s = s'" by (rule page_slots_disjoint [OF d s])
  then have "k = k'" using worldD(3) [OF w k _ i] by blast
  then show ?thesis using e pool_pages(3) [OF worldD(1) [OF w k(1)] i(1)] i(2) by blast
qed

lemma in_availAll: "x \<in> availAll ps \<longleftrightarrow> (\<exists>k < length ps. \<exists>i < bigPageCount (ps ! k). \<exists>s \<in> np_avail (ps ! k) i. x = pg_first (metaAt (ps ! k) i) + s)"
  by (auto simp: availAll_def in_pagesOf)

lemma reachable_avail: "reachable X ps \<subseteq> availAll ps"
  by (intro subsetI) (unfold reachable_def in_availAll, blast)

lemma same_poolsD:
  assumes "same_pools ps ps'" "k < length ps"
  shows "length ps' = length ps" "bigPageCount (ps' ! k) = bigPageCount (ps ! k)"
    "i < bigPageCount (ps ! k) \<Longrightarrow> pg_first (metaAt (ps' ! k) i) = pg_first (metaAt (ps ! k) i)"
  using assms by (auto simp: same_pools_def same_frame_def pg_first_def)

lemma took_reachable:
  assumes t: "took ps L out ps' L'" and kp: "kept X ps ps'"
  shows "covered out \<subseteq> reachable X ps"
proof
  fix x assume x: "x \<in> covered out"
  have same: "same_pools ps ps'" and av: "x \<in> availAll ps" "x \<notin> availAll ps'" using t x by (auto simp: took_def)
  then obtain k i s where k: "k < length ps" "i < bigPageCount (ps ! k)" "s \<in> np_avail (ps ! k) i" "x = pg_first (metaAt (ps ! k) i) + s"
    by (auto simp: in_availAll)
  note S = same_poolsD [OF same k(1)]
  have "(k, i) \<notin> X"
  proof
    assume "(k, i) \<in> X"
    then have "metaAt (ps' ! k) i = metaAt (ps ! k) i" using kp by (auto simp: kept_def)
    then have "x \<in> availAll ps'" unfolding in_availAll using k S by (intro exI [of _ k] conjI exI [of _ i] bexI [of _ s]) simp_all
    then show False using av(2) by simp
  qed
  then show "x \<in> reachable X ps" using k by (auto simp: reachable_def)
qed

lemma took_all:
  assumes w0: "world c0 H0 L0 S0 ps" and w: "world c H L S ps'" and t: "took ps L0 out ps' L'" and d: "drained X ps' {..<length ps}"
  shows "reachable X ps \<subseteq> covered out"
proof
  fix x assume x: "x \<in> reachable X ps"
  have same: "same_pools ps ps'" using t by (simp add: took_def)
  obtain k i s where k: "k < length ps" "i < bigPageCount (ps ! k)" "(k, i) \<notin> X" "s \<in> np_avail (ps ! k) i" "x = pg_first (metaAt (ps ! k) i) + s"
    using x by (auto simp: reachable_def)
  note S = same_poolsD [OF same k(1)]
  show "x \<in> covered out"
  proof (rule ccontr)
    assume "x \<notin> covered out"
    then have "x \<in> availAll ps'" using x reachable_avail t by (auto simp: took_def)
    then obtain k' i' s' where k': "k' < length ps'" "i' < bigPageCount (ps' ! k')" "s' \<in> np_avail (ps' ! k') i'" "x = pg_first (metaAt (ps' ! k') i') + s'"
      by (auto simp: in_availAll)
    have "(k', i') \<in> X" using d k'(1-3) took_length [OF t] by (auto simp: drained_def)
    moreover have "k = k' \<and> i = i' \<and> s = s'"
      by (rule page_unique [OF w _ k'(1) _ k'(2)]) (use k k' S avail_slots(1) [OF w0 k(1,2)] avail_slots(1) [OF w k'(1,2)] in auto)
    ultimately show False using k(3) by simp
  qed
qed

section \<open>The invariant of the allocator\<close>

definition allCaches :: "PageAllocatorImpl \<Rightarrow> PagePtr set" where
  "allCaches a = (\<Union>lp \<in> set (localPools a). lp_pages lp)"

definition otherCaches :: "nat \<Rightarrow> PageAllocatorImpl \<Rightarrow> PagePtr set" where
  "otherCaches cpu a = (\<Union>i \<in> {..<length (localPools a)} - {cpu}. lp_pages (localPools a ! i))"

text \<open>Every pool stands in a slot, and the processor's domain order names every slot that has a pool.\<close>

definition covers :: "nat \<Rightarrow> PageAllocatorImpl \<Rightarrow> bool" where
  "covers cpu a \<longleftrightarrow> (\<forall>k < length (pa_pools a). Some k \<in> insert (unownedPool a) (set (numaPools a))) \<and>
     (case numaPolicy a of
        None \<Rightarrow> \<forall>k. Some k \<in> set (numaPools a) \<longrightarrow> nearestPool cpu a = Inr k
      | Some pol \<Rightarrow> \<forall>h order. homeDomain cpu pol = Inr h \<longrightarrow> domainOrder h pol = Inr order \<longrightarrow>
          (\<forall>i < length (numaPools a). numaPools a ! i \<noteq> None \<longrightarrow> (\<exists>d \<in> set order. unat d = i)))"

definition pa_inv :: "(nat \<Rightarrow> nat) \<Rightarrow> (nat \<Rightarrow> nat \<Rightarrow> nat set) \<Rightarrow> (nat \<Rightarrow> nat set) \<Rightarrow> PageAllocatorImpl \<Rightarrow> bool" where
  "pa_inv c L S a \<longleftrightarrow> world c (allCaches a) L S (pa_pools a) \<and>
     (\<forall>i < length (localPools a). lp_ok (pa_pools a) (localPools a ! i) \<and> req_ok (pa_pools a) (localPools a ! i) i \<and> wired i a \<and> covers i a) \<and>
     (\<forall>i < length (localPools a). \<forall>j < length (localPools a). i \<noteq> j \<longrightarrow> lp_pages (localPools a ! i) \<inter> lp_pages (localPools a ! j) = {})"

lemma pa_invD:
  assumes "pa_inv c L S a" "i < length (localPools a)"
  shows "world c (allCaches a) L S (pa_pools a)" "lp_ok (pa_pools a) (localPools a ! i)" "req_ok (pa_pools a) (localPools a ! i) i"
    "wired i a" "covers i a" "j < length (localPools a) \<Longrightarrow> i \<noteq> j \<Longrightarrow> lp_pages (localPools a ! i) \<inter> lp_pages (localPools a ! j) = {}"
  using assms by (simp_all add: pa_inv_def)

lemma caches_split: "i < length (localPools a) \<Longrightarrow> allCaches a = otherCaches i a \<union> lp_pages (localPools a ! i)"
proof -
  assume i: "i < length (localPools a)"
  have "set (localPools a) = (!) (localPools a) ` insert i ({..<length (localPools a)} - {i})"
    unfolding insert_Diff [OF lessThan_iff [THEN iffD2, OF i]] by (auto simp: in_set_conv_nth image_iff)
  then show ?thesis unfolding allCaches_def otherCaches_def by auto
qed

lemma caches_upd: "i < length (localPools a) \<Longrightarrow> allCaches (a\<lparr>pa_pools := ps, localPools := (localPools a)[i := lp]\<rparr>) = otherCaches i a \<union> lp_pages lp"
  using caches_split [of i "a\<lparr>pa_pools := ps, localPools := (localPools a)[i := lp]\<rparr>"] by (simp add: otherCaches_def)

lemma wiring_upd:
  assumes "length ps = length (pa_pools a)"
  shows "wired i (a\<lparr>pa_pools := ps, localPools := lps\<rparr>) = wired i a" "covers i (a\<lparr>pa_pools := ps, localPools := lps\<rparr>) = covers i a"
proof -
  have "nearestPool i (a\<lparr>pa_pools := ps, localPools := lps\<rparr>) = nearestPool i a" by (simp add: nearestPool_def cong: if_cong)
  then show "wired i (a\<lparr>pa_pools := ps, localPools := lps\<rparr>) = wired i a" "covers i (a\<lparr>pa_pools := ps, localPools := lps\<rparr>) = covers i a"
    using assms by (simp_all add: wired_def covers_def split: option.split)
qed

lemma visited_all:
  assumes "wired cpu a" "covers cpu a" "\<not> flags_has f LOCAL_DOMAIN_ONLY"
  shows "{..<length (pa_pools a)} \<subseteq> visited cpu f a \<union> set_option (unownedPool a)"
proof
  fix k assume k: "k \<in> {..<length (pa_pools a)}"
  show "k \<in> visited cpu f a \<union> set_option (unownedPool a)"
  proof (cases "unownedPool a = Some k")
    case False
    then obtain i where i: "i < length (numaPools a)" "numaPools a ! i = Some k"
      using k assms(2) by (auto simp: covers_def in_set_conv_nth)
    show ?thesis
    proof (cases "numaPolicy a")
      case None
      then have "nearestPool cpu a = Inr k" using assms(2) i nth_mem [OF i(1)] by (simp add: covers_def)
      then show ?thesis using None by (simp add: visited_def returnsEarly_def)
    next
      case (Some pol)
      then obtain h order where o: "homeDomain cpu pol = Inr h" "domainOrder h pol = Inr order" using assms(1) by (auto simp: wired_def)
      then have "\<exists>d \<in> set order. unat d = i" using assms(2) Some i by (simp add: covers_def)
      then have "k \<in> poolsOf a order" using i by (auto simp: poolsOf_def)
      then show ?thesis using Some o assms(3) by (simp add: visited_def returnsEarly_def)
    qed
  qed simp
qed

text \<open>The invariant after a request of one processor.\<close>

lemma pa_inv_upd:
  assumes I: "pa_inv c L S a" and i: "i < length (localPools a)"
    and w: "world c (otherCaches i a \<union> lp_pages lp) L' S' ps" and t: "took (pa_pools a) L out ps L'"
    and lp: "otherCaches i a \<inter> lp_pages lp = {}" "lp_ok ps lp" "kept (otherCaches i a) (pa_pools a) ps" "lp_settings lp = lp_settings (localPools a ! i)"
  shows "pa_inv c L' S' (a\<lparr>pa_pools := ps, localPools := (localPools a)[i := lp]\<rparr>)"
proof -
  let ?a = "a\<lparr>pa_pools := ps, localPools := (localPools a)[i := lp]\<rparr>" and ?l = "localPools a"
  note len = took_length [OF t]
  have sub: "lp_pages (?l ! j) \<subseteq> otherCaches i a" if "j < length ?l" "j \<noteq> i" for j using that by (auto simp: otherCaches_def)
  have rq: "req_ok ps l j" if "req_ok (pa_pools a) l j" for l j using that serves_same [OF _ t] by (auto simp: req_ok_def lp_serves_def)
  have "req_ok ps lp i" using rq [OF pa_invD(3) [OF I i]] lp(4) by (auto simp: req_ok_def lp_serves_def lp_settings_def)
  moreover have "lp_ok ps (?l ! j)" if "j < length ?l" "j \<noteq> i" for j
    using lp_ok_kept [OF pa_invD(2) [OF I that(1)] lp(3) sub [OF that] len] .
  ultimately have each: "lp_ok ps (?l[i := lp] ! j) \<and> req_ok ps (?l[i := lp] ! j) j" if "j < length ?l" for j
    using that rq [OF pa_invD(3) [OF I that]] lp(2) i by (cases "j = i") simp_all
  have "lp_pages (?l[i := lp] ! j) \<inter> lp_pages (?l[i := lp] ! j') = {}" if "j < length ?l" "j' < length ?l" "j \<noteq> j'" for j j'
    using that sub [of j] sub [of j'] lp(1) pa_invD(6) [OF I that] i by (cases "j = i"; cases "j' = i") auto
  then show ?thesis unfolding pa_inv_def caches_upd [OF i] wiring_upd [OF len]
    using w each pa_invD(4,5) [OF I] i by simp
qed

section \<open>Requests of the current processor\<close>

lemma allocateFast_spec:
  assumes w: "world c (X \<union> lp_pages lp) L S ps" "X \<inter> lp_pages lp = {}" "lp_ok ps lp" and r: "req_ok ps lp cpu"
  shows "\<exists>lp' st. allocateFast cpu n f lp ps = Inr (lp', st) \<and> lp_post c X L ps lp n lp' st"
proof -
  have cpu: "lp_pid lp = cpu" "cpu \<noteq> SIZE_MAX" using r by (simp_all add: req_ok_def)
  have "lp_post c X L ps lp n lp (startRequest n ps)"
    using w took_refl [of ps L] by (auto simp: lp_post_def startRequest_def kept_def)
  then show ?thesis using lp_allocatePages_spec [OF w cpu, of n "flags_or f LOCAL_DOMAIN_ONLY"] by (auto simp: allocateFast_def)
qed

lemma pa_allocatePages_spec:
  assumes I: "pa_inv c L S a" and cpu: "cpu < length (localPools a)" and n: "n + 511 < 2 ^ 64"
  shows "\<exists>lp ps out L' S'. let a' = a\<lparr>pa_pools := ps, localPools := (localPools a)[cpu := lp]\<rparr> in
    pa_allocatePages cpu n f a = (if totalPages out < n \<and> \<not> flags_has f GRACEFUL_OOM then oom else Inr (a', totalPages out, out)) \<and>
    pa_inv c L' S' a' \<and> took (pa_pools a) L out ps L' \<and> kept (otherCaches cpu a) (pa_pools a) ps \<and>
    (\<not> flags_has f BIG_PAGE_ONLY \<longrightarrow> totalPages out \<le> n \<and> (totalPages out < n \<longrightarrow>
       drained (otherCaches cpu a) ps (visited cpu f a \<union> set_option (unownedPool a))))"
proof -
  let ?lp = "localPools a ! cpu" and ?X = "otherCaches cpu a" and ?ps = "pa_pools a"
  note D = pa_invD [OF I cpu]
  have w: "world c (?X \<union> lp_pages ?lp) L S ?ps" using D(1) caches_split [OF cpu] by simp
  have X: "?X \<inter> lp_pages ?lp = {}" using pa_invD(6) [OF I cpu] unfolding otherCaches_def by blast
  obtain lp1 r where 1: "allocateFast cpu n f ?lp ?ps = Inr (lp1, r)" "lp_post c ?X L ?ps ?lp n lp1 r"
    using allocateFast_spec [OF w X D(2,3)] by blast
  then obtain L1 S1 where P: "world c (?X \<union> lp_pages lp1) L1 S1 (lo_pools r)" "took ?ps L (lo_out r) (lo_pools r) L1" "?X \<inter> lp_pages lp1 = {}"
      "lp_ok (lo_pools r) lp1" "kept ?X ?ps (lo_pools r)" "lp_settings lp1 = lp_settings ?lp" "lo_allocated r = totalPages (lo_out r)"
      "lo_count r + lo_allocated r = n" by (auto simp: lp_post_def)
  have r1: "req_ok (lo_pools r) lp1 cpu" using D(3) serves_same [OF _ P(2)] P(6) by (auto simp: req_ok_def lp_serves_def lp_settings_def)
  show ?thesis
  proof (cases "lo_allocated r = n")
    case True
    have "pa_allocatePages cpu n f a = Inr (a\<lparr>pa_pools := lo_pools r, localPools := (localPools a)[cpu := lp1]\<rparr>, totalPages (lo_out r), lo_out r)"
      using 1(1) True cpu P(7) by (simp add: pa_allocatePages_def)
    then show ?thesis using pa_inv_upd [OF I cpu P(1-6)] P(2,5,7) True unfolding Let_def
      by (intro exI [of _ lp1] exI [of _ "lo_pools r"] exI [of _ "lo_out r"] exI [of _ L1] exI [of _ S1]) simp
  next
    case False
    let ?n = "n - lo_allocated r"
    have le: "lo_allocated r \<le> n" and n': "?n + 511 < 2 ^ 64" using P(8) n by simp_all
    have "wired cpu a" "length (lo_pools r) = length (pa_pools a)" using D(4) took_length [OF P(2)] by simp_all
    then obtain lp2 st where 2: "allocateFallback cpu ?n f lp1 (lo_pools r) a = concludes f (lp2, st)"
        "req_inv c ?X (lo_pools r) L1 lp1 ?n (lp2, st)" "\<not> flags_has f BIG_PAGE_ONLY \<longrightarrow> lo_allocated st \<le> ?n \<and> (lo_count st \<noteq> 0 \<longrightarrow>
          drained ?X (lo_pools st) (visited cpu f a \<union> set_option (unownedPool a)))"
      using allocateFallback_spec [OF P(1,3,4) r1 n', of a f] by auto
    then obtain L2 S2 where Q: "world c (?X \<union> lp_pages lp2) L2 S2 (lo_pools st)" "took (lo_pools r) L1 (lo_out st) (lo_pools st) L2"
        "?X \<inter> lp_pages lp2 = {}" "lp_ok (lo_pools st) lp2" "kept ?X (lo_pools r) (lo_pools st)" "lp_settings lp2 = lp_settings lp1"
        "lo_allocated st = totalPages (lo_out st)" "lo_count st = ?n - lo_allocated st" by (auto simp: req_inv_def)
    let ?out = "lo_out r @ lo_out st" and ?a = "a\<lparr>pa_pools := lo_pools st, localPools := (localPools a)[cpu := lp2]\<rparr>"
    note T = took_trans [OF P(2) Q(2)] and K = kept_trans [OF P(5) Q(5)]
    have inv: "pa_inv c L2 S2 ?a" by (rule pa_inv_upd [OF I cpu Q(1) T Q(3,4) K]) (use P(6) Q(6) in simp)
    have unmet: "lo_count st \<noteq> 0 \<longleftrightarrow> totalPages ?out < n" using Q(7,8) P(7) le by auto
    have "pa_allocatePages cpu n f a = (if totalPages ?out < n \<and> \<not> flags_has f GRACEFUL_OOM then oom else Inr (?a, totalPages ?out, ?out))"
      using 1(1) 2(1) False cpu P(7) Q(7) le unmet by (simp add: pa_allocatePages_def concludes_def)
    moreover have "\<not> flags_has f BIG_PAGE_ONLY \<longrightarrow> totalPages ?out \<le> n" using 2(3) Q(7) P(7) le by auto
    ultimately show ?thesis using inv T K 2(3) unmet unfolding Let_def
      by (intro exI [of _ lp2] exI [of _ "lo_pools st"] exI [of _ ?out] exI [of _ L2] exI [of _ S2]) simp
  qed
qed

lemma finite_availAll:
  assumes "world c H L S ps"
  shows "finite (availAll ps)"
  unfolding availAll_def using worldD(1) [OF assms] by (auto intro: finite_pagesOf simp: pool_inv_def)

text \<open>What is handed out to a processor, against what it can reach.\<close>

lemma served_count:
  assumes "pa_inv c L S a" "pa_inv c L' S' a'" "took (pa_pools a) L out (pa_pools a') L'" "kept X (pa_pools a) (pa_pools a')"
    and "totalPages out \<le> n" "totalPages out < n \<Longrightarrow> drained X (pa_pools a') {..<length (pa_pools a)}"
  shows "totalPages out = min n (card (reachable X (pa_pools a)))"
proof -
  have w: "world c (allCaches a) L S (pa_pools a)" "world c (allCaches a') L' S' (pa_pools a')" using assms(1,2) by (simp_all add: pa_inv_def)
  have fin: "finite (reachable X (pa_pools a))" using finite_subset [OF reachable_avail finite_availAll [OF w(1)]] .
  have sub: "covered out \<subseteq> reachable X (pa_pools a)" using took_reachable [OF assms(3,4)] .
  have tot: "totalPages out = card (covered out)" using assms(3) by (simp add: took_def)
  show ?thesis
  proof (cases "totalPages out < n")
    case True
    have "reachable X (pa_pools a) \<subseteq> covered out" by (rule took_all [OF w assms(3) assms(6) [OF True]])
    then have "covered out = reachable X (pa_pools a)" using sub by blast
    then show ?thesis using True tot by simp
  next
    case False
    then show ?thesis using assms(5) tot card_mono [OF fin sub] by simp
  qed
qed

lemma allocate_exact:
  assumes "pa_inv c L S a" and "cpu < length (localPools a)" and "n + 511 < 2 ^ 64"
    and "\<not> flags_has f BIG_PAGE_ONLY" and "\<not> flags_has f LOCAL_DOMAIN_ONLY"
  shows "let r = card (reachable (otherCaches cpu a) (pa_pools a)) in
    if n \<le> r \<or> flags_has f GRACEFUL_OOM
    then \<exists>a' refs L' S'. pa_allocatePages cpu n f a = Inr (a', min n r, refs) \<and> pa_inv c L' S' a' \<and>
           took (pa_pools a) L refs (pa_pools a') L' \<and> totalPages refs = min n r \<and> covered refs \<subseteq> reachable (otherCaches cpu a) (pa_pools a) \<and>
           (\<exists>lp. a' = a\<lparr>pa_pools := pa_pools a', localPools := (localPools a)[cpu := lp]\<rparr>)
    else pa_allocatePages cpu n f a = Inl (Assertion ''Panic!!! Page allocator is out of memory'')"
proof -
  let ?X = "otherCaches cpu a" and ?r = "card (reachable (otherCaches cpu a) (pa_pools a))"
  obtain lp ps out L' S' where A: "pa_allocatePages cpu n f a = (if totalPages out < n \<and> \<not> flags_has f GRACEFUL_OOM then oom
        else Inr (a\<lparr>pa_pools := ps, localPools := (localPools a)[cpu := lp]\<rparr>, totalPages out, out))"
      "pa_inv c L' S' (a\<lparr>pa_pools := ps, localPools := (localPools a)[cpu := lp]\<rparr>)" "took (pa_pools a) L out ps L'" "kept ?X (pa_pools a) ps"
      "totalPages out \<le> n" "totalPages out < n \<longrightarrow> drained ?X ps (visited cpu f a \<union> set_option (unownedPool a))"
    using pa_allocatePages_spec [OF assms(1-3), of f] assms(4) unfolding Let_def by blast
  have "{..<length (pa_pools a)} \<subseteq> visited cpu f a \<union> set_option (unownedPool a)"
    using visited_all pa_invD(4,5) [OF assms(1,2)] assms(5) by blast
  then have "drained ?X ps {..<length (pa_pools a)}" if "totalPages out < n" using A(6) that unfolding drained_def by blast
  then have "totalPages out = min n ?r" using served_count [OF assms(1) A(2)] A(3-5) by simp
  moreover from this have "totalPages out < n \<longleftrightarrow> \<not> n \<le> ?r" by linarith
  ultimately show ?thesis unfolding Let_def using A(1-3) took_reachable [OF A(3,4)] by auto
qed

end
