(* ===== verification/Page_Alloc_Free.thy ===== *)
theory Page_Alloc_Free
  imports Page_Alloc_Correct
begin

text \<open>
  Freeing through the allocator: the table that maps addresses to pools, the binary search in it, and
  the walk of \<open>PageAllocatorImpl::freePages\<close> that cuts the sorted references into runs of one pool each.
\<close>

section \<open>Pages given back\<close>

definition inPool :: "NUMAPool \<Rightarrow> PageRef \<Rightarrow> bool" where
  "inPool p r \<longleftrightarrow> (\<exists>i < bigPageCount p. bigPageBase (pr_addr r) = bpm_base (metaAt p i))"

text \<open>The counterpart of \<open>took\<close>. No holder changes and no cached page loses an available slot.\<close>

definition gave :: "NUMAPool list \<Rightarrow> (nat \<Rightarrow> nat \<Rightarrow> nat set) \<Rightarrow> PageRef list \<Rightarrow> NUMAPool list \<Rightarrow> (nat \<Rightarrow> nat \<Rightarrow> nat set) \<Rightarrow> bool" where
  "gave ps L refs ps' L' \<longleftrightarrow> same_pools ps ps' \<and> liveAll L' ps' = liveAll L ps - covered refs \<and> availAll ps' = availAll ps \<union> covered refs \<and>
     (\<forall>k < length ps. \<forall>i < bigPageCount (ps ! k). allocHolder (metaAt (ps' ! k) i) = allocHolder (metaAt (ps ! k) i) \<and>
        np_avail (ps ! k) i \<subseteq> np_avail (ps' ! k) i)"

lemma gave_refl: "gave ps L [] ps L"
  by (simp add: gave_def same_pools_refl)

lemma gave_trans:
  assumes "gave ps L a qs M" "gave qs M b rs N"
  shows "gave ps L (a @ b) rs N"
proof -
  have s: "same_pools ps rs" using assms same_pools_trans by (auto simp: gave_def)
  have l: "length qs = length ps" "\<And>k. k < length ps \<Longrightarrow> bigPageCount (qs ! k) = bigPageCount (ps ! k)"
    using assms(1) by (auto simp: gave_def same_pools_def same_frame_def)
  have "allocHolder (metaAt (rs ! k) i) = allocHolder (metaAt (ps ! k) i) \<and> np_avail (ps ! k) i \<subseteq> np_avail (rs ! k) i"
    if "k < length ps" "i < bigPageCount (ps ! k)" for k i
    using assms that l by (fastforce simp: gave_def)
  then show ?thesis using assms s unfolding gave_def covered_append by auto
qed

lemma gave_upd:
  assumes w: "world c H L S ps" and k: "k < length ps" and pre: "pages_ok (L k) (ps ! k)" "covered refs \<subseteq> pagesOf (ps ! k) (L k)"
    and f: "freed (ps ! k) (slotsOf (ps ! k) refs) p'" and L': "\<forall>i < bigPageCount (ps ! k). Lk i = L k i - slotsOf (ps ! k) refs i"
  shows "gave ps L refs (ps[k := p']) (L(k := Lk))"
proof -
  let ?n = "length ps" and ?p = "ps ! k"
  have fr: "same_frame ?p p'" using f by (simp add: freed_def)
  have P: "pagesOf p' X = pagesOf ?p X" for X using pagesOf_frame [OF fr] .
  have Lk: "pagesOf ?p Lk = pagesOf ?p (L k) - covered refs"
    using pagesOf_minus [OF pre] pagesOf_cong [of ?p Lk "\<lambda>i. L k i - slotsOf ?p refs i"] L' by simp
  have "pagesOf ?p (np_avail p') = pagesOf ?p (\<lambda>i. np_avail ?p i \<union> slotsOf ?p refs i)"
    by (rule pagesOf_cong) (use f in \<open>simp add: freed_def\<close>)
  then have Av: "pagesOf ?p (np_avail p') = pagesOf ?p (np_avail ?p) \<union> covered refs" using pagesOf_slotsOf [OF pre] by (simp add: pagesOf_Un)
  have live: "liveAll (L(k := Lk)) (ps[k := p']) = pagesOf ?p Lk \<union> (\<Union>j \<in> {..<?n} - {k}. pagesOf (ps ! j) (L j))"
    "liveAll L ps = pagesOf ?p (L k) \<union> (\<Union>j \<in> {..<?n} - {k}. pagesOf (ps ! j) (L j))"
    unfolding liveAll_def length_list_update UN_split [OF k] using k P by simp_all
  have av: "availAll (ps[k := p']) = pagesOf ?p (np_avail p') \<union> (\<Union>j \<in> {..<?n} - {k}. pagesOf (ps ! j) (np_avail (ps ! j)))"
    "availAll ps = pagesOf ?p (np_avail ?p) \<union> (\<Union>j \<in> {..<?n} - {k}. pagesOf (ps ! j) (np_avail (ps ! j)))"
    unfolding availAll_def length_list_update UN_split [OF k] using k P by simp_all
  have "covered refs \<inter> (\<Union>j \<in> {..<?n} - {k}. pagesOf (ps ! j) (L j)) = {}"
  proof -
    have "pagesOf ?p (L k) \<inter> pagesOf (ps ! j) (L j) = {}" if "j < ?n" "j \<noteq> k" for j
      by (rule pools_disjoint [OF w k]) (use that avail_slots(2) [OF w] k in auto)
    then show ?thesis using pre(2) by blast
  qed
  moreover have "a' = a - out \<Longrightarrow> out \<inter> R = {} \<Longrightarrow> a' \<union> R = a \<union> R - out" for a a' R and out :: "nat set" by blast
  moreover have "a' = a \<union> out \<Longrightarrow> a' \<union> R = a \<union> R \<union> out" for a a' R and out :: "nat set" by blast
  moreover have "same_pools ps (ps[k := p'])" using fr k by (simp add: same_pools_def nth_list_update)
  ultimately show ?thesis unfolding gave_def live av using Lk Av f k by (simp add: freed_def nth_list_update)
qed

section \<open>One run\<close>

text \<open>What the walk needs: each reference names a page of one of the pools \<open>K\<close>, and what falls into a pool can be freed there.\<close>

definition frees_ok :: "PagePtr set \<Rightarrow> (nat \<Rightarrow> nat \<Rightarrow> nat set) \<Rightarrow> NUMAPool list \<Rightarrow> nat set \<Rightarrow> PageRef list \<Rightarrow> bool" where
  "frees_ok H L ps K refs \<longleftrightarrow> sorted_wrt (\<lambda>a b. pr_addr a \<le> pr_addr b) refs \<and> K \<subseteq> {..<length ps} \<and> (\<forall>r \<in> set refs. \<exists>k \<in> K. inPool (ps ! k) r) \<and>
     (\<forall>k \<in> K. srs_ok (ps ! k) \<and> free_pre (heldIn H k) (L k) (ps ! k) (filter (inPool (ps ! k)) refs))"

lemma inPool_unique:
  assumes "world c H L S ps" "k < length ps" "j < length ps" "inPool (ps ! k) r" "inPool (ps ! j) r"
  shows "k = j"
  using assms worldD(3) [OF assms(1-3)] unfolding inPool_def by metis

lemma inPool_frame: "same_frame p q \<Longrightarrow> inPool q = inPool p"
  by (auto simp: inPool_def same_frame_def fun_eq_iff)

lemma free_pre_prefix:
  assumes "free_pre H L p (run @ rest)"
  shows "free_pre H L p run"
proof -
  note E = exact_append [OF conjunct1 [OF conjunct2 [OF conjunct2 [OF conjunct2 [OF assms [unfolded free_pre_def]]]]]]
  show ?thesis using assms E(1) unfolding free_pre_def slotsOf_append by (auto simp: sorted_wrt_append)
qed

lemma free_pre_live:
  assumes "free_pre H M p refs" "\<forall>i < bigPageCount p. L i = M i"
  shows "free_pre H L p refs"
  using assms pagesOf_cong [of p L M] by (auto simp: free_pre_def)

lemma flush_run:
  assumes w: "world c H L S ps" and F: "frees_ok H L ps K (run @ rest)" and k: "k \<in> K" "\<forall>r \<in> set run. inPool (ps ! k) r"
  shows "\<exists>ps' L' S'. flushPool (Some k) run ps = Inr ps' \<and> world c H L' S' ps' \<and> gave ps L run ps' L' \<and> frees_ok H L' ps' K rest"
proof -
  let ?p = "ps ! k" and ?H = "heldIn H k"
  have K: "K \<subseteq> {..<length ps}" and kl: "k < length ps" using F k(1) by (auto simp: frees_ok_def)
  note I = worldD(1) [OF w kl]
  have po: "pages_ok (L k) ?p" using I by (simp add: pool_inv_def)
  have pre: "srs_ok ?p" "free_pre ?H (L k) ?p (run @ filter (inPool ?p) rest)" using F k(1) filter_True [OF k(2)] by (auto simp: frees_ok_def)
  note pr = free_pre_prefix [OF pre(2)]
  obtain p' S' L' where p': "np_freePages run ?p = Inr p'" "pool_inv (c k) ?H L' S' p'" "freed ?p (slotsOf ?p run) p'"
      "\<forall>i < bigPageCount ?p. L' i = L k i - slotsOf ?p run i"
    using walk_spec [OF I pre(1) pr, of "[]" "subrangeInfo ?p"] by (auto simp: walk_post_def np_freePages_def)
  have fr: "same_frame ?p p'" and N: "bigPageCount p' = bigPageCount ?p" using p'(3) by (simp_all add: freed_def same_frame_def)
  have "world c H (L(k := L')) (S(k := S')) (ps[k := p'])" by (rule world_upd [OF w kl p'(2) fr]) (use w in \<open>auto simp: world_def\<close>)
  moreover have "gave ps L run (ps[k := p']) (L(k := L'))"
    by (rule gave_upd [OF w kl po _ p'(3,4)]) (use pr in \<open>simp add: free_pre_def\<close>)
  moreover have "frees_ok H (L(k := L')) (ps[k := p']) K rest"
  proof -
    have mine: "free_pre ?H L' p' (filter (inPool ?p) rest)"
      by (rule free_pre_live [OF free_pre_rest [OF pre(2) po pool_routes(7) [OF I] p'(3)]]) (use p'(4) N in simp_all)
    have other: "filter (inPool (ps ! j)) run = []" if "j < length ps" "j \<noteq> k" for j
      using k(2) inPool_unique [OF w that(1) kl] that(2) by (auto simp: filter_empty_conv)
    have "srs_ok ((ps[k := p']) ! j) \<and> free_pre (heldIn H j) ((L(k := L')) j) ((ps[k := p']) ! j) (filter (inPool ((ps[k := p']) ! j)) rest)"
      if j: "j \<in> K" for j
    proof (cases "j = k")
      case True
      then show ?thesis using mine srs_ok_frame [OF pre(1) fr] inPool_frame [OF fr] kl by simp
    next
      case False
      have "free_pre (heldIn H j) (L j) (ps ! j) (filter (inPool (ps ! j)) (run @ rest))" "srs_ok (ps ! j)" using F j by (simp_all add: frees_ok_def)
      then show ?thesis using other [of j] False j K by auto
    qed
    moreover have "inPool ((ps[k := p']) ! j) = inPool (ps ! j)" for j using inPool_frame [OF fr] kl by (cases "j = k") simp_all
    ultimately show ?thesis using F by (simp add: frees_ok_def sorted_wrt_append)
  qed
  moreover have "flushPool (Some k) run ps = Inr (ps[k := p'])" using p'(1) kl by (simp add: flushPool_def)
  ultimately show ?thesis by blast
qed

section \<open>The walk\<close>

definition table_for :: "NUMAPool list \<Rightarrow> nat set \<Rightarrow> NUMADomainEntry list \<Rightarrow> bool" where
  "table_for ps K t \<longleftrightarrow> sorted_wrt (\<lambda>x y. nde_end x \<le> nde_start y) t \<and>
     (\<forall>k \<in> K. \<forall>sr \<in> set (subrangeInfo (ps ! k)). \<lparr>nde_start = rangeStart sr, nde_end = rangeEnd sr, nde_pool = k\<rparr> \<in> set t) \<and>
     (\<forall>e \<in> set t. nde_start e < nde_end e) \<and> (\<forall>e \<in> set t. \<exists>k \<in> K. \<exists>sr \<in> set (subrangeInfo (ps ! k)). e = \<lparr>nde_start = rangeStart sr, nde_end = rangeEnd sr, nde_pool = k\<rparr>)"

text \<open>The cursor stops at the entry that holds the address.\<close>

lemma entry_reached:
  assumes "sorted_wrt (\<lambda>x y. nde_end x \<le> nde_start y) (pre @ t)" "\<forall>e \<in> set pre. nde_end e \<le> a" "e \<in> set (pre @ t)" "nde_start e \<le> a" "a < nde_end e"
  shows "\<exists>t'. dropWhile (\<lambda>e. nde_end e \<le> a) t = e # t'"
proof -
  have "e \<in> set t" using assms(2,3,5) by (auto simp: not_le [symmetric])
  moreover have "sorted_wrt (\<lambda>x y. nde_end x \<le> nde_start y) t" using assms(1) by (simp add: sorted_wrt_append)
  ultimately show ?thesis
  proof (induction t)
    case (Cons x t)
    show ?case
    proof (cases "x = e")
      case True
      then show ?thesis using assms(5) by (auto simp: not_le [symmetric])
    next
      case False
      then have "nde_end x \<le> nde_start e" using Cons.prems by auto
      then have "nde_end x \<le> a" using assms(4) by (rule order_trans)
      then show ?thesis using Cons.IH Cons.prems False by auto
    qed
  qed simp
qed

lemma pool_entry:
  assumes "srs_ok p" and i: "i < bigPageCount p" "bigPageBase a = bpm_base (metaAt p i)"
  shows "\<exists>sr \<in> set (subrangeInfo p). rangeStart sr \<le> a \<and> a < rangeEnd sr"
proof -
  obtain sr k where sr: "sr \<in> set (subrangeInfo p)" "unat (rangeStart sr) + k * 2097152 < unat (rangeEnd sr)"
      "unat (bpm_base (metaAt p i)) = unat (rangeStart sr) + k * 2097152"
    using findMetadata_spec(2) [OF assms(1) i] by blast
  have "2097152 dvd unat (rangeStart sr)" "2097152 dvd unat (rangeEnd sr)" using assms(1) sr(1) unfolding srs_ok_def by blast+
  then obtain u v where uv: "unat (rangeStart sr) = 2097152 * u" "unat (rangeEnd sr) = 2097152 * v" by (auto elim!: dvdE)
  have "unat a div 2097152 * 2097152 = 2097152 * (u + k)" using sr(3) i(2) uv(1) unat_bigPageBase [of a] by simp
  then have b: "unat a div 2097152 = u + k" by simp
  have "u + k < v" using sr(2) uv by simp
  then have "2097152 * u \<le> unat a" "unat a < 2097152 * v" using b by linarith+
  then show ?thesis using sr(1) uv by (intro bexI [of _ sr]) (simp_all add: word_le_nat_alt word_less_nat_alt)
qed

lemma pool_found:
  assumes t: "table_for ps K (pre @ t)" and k: "k \<in> K" "srs_ok (ps ! k)" "inPool (ps ! k) r" and pre: "\<forall>e \<in> set pre. nde_end e \<le> pr_addr r"
  shows "\<exists>e t'. dropWhile (\<lambda>e. nde_end e \<le> pr_addr r) t = e # t' \<and> nde_start e \<le> pr_addr r \<and> nde_pool e = k"
proof -
  obtain sr where sr: "sr \<in> set (subrangeInfo (ps ! k))" "rangeStart sr \<le> pr_addr r" "pr_addr r < rangeEnd sr" using pool_entry [OF k(2)] k(3) unfolding inPool_def by blast
  let ?e = "\<lparr>nde_start = rangeStart sr, nde_end = rangeEnd sr, nde_pool = k\<rparr>"
  have "\<exists>t'. dropWhile (\<lambda>e. nde_end e \<le> pr_addr r) t = ?e # t'"
    by (rule entry_reached [of pre]) (use t k(1) sr pre in \<open>auto simp: table_for_def\<close>)
  then show ?thesis using sr(2) by auto
qed

lemma table_for_same: "same_pools ps ps' \<Longrightarrow> K \<subseteq> {..<length ps} \<Longrightarrow> table_for ps' K t = table_for ps K t"
proof -
  assume "same_pools ps ps'" "K \<subseteq> {..<length ps}"
  then have "\<And>k. k \<in> K \<Longrightarrow> subrangeInfo (ps' ! k) = subrangeInfo (ps ! k)" by (auto simp: same_pools_def same_frame_def)
  then show ?thesis unfolding table_for_def by simp
qed

lemma freeWalk_spec:
  assumes "world c H L S ps" "frees_ok H L ps K (run @ rest)" "table_for ps K (pre @ t)" "\<forall>e \<in> set pre. \<forall>r \<in> set rest. nde_end e \<le> pr_addr r"
    and "runPool = None \<and> run = [] \<or> (\<exists>k \<in> K. runPool = Some k \<and> (\<forall>r \<in> set run. inPool (ps ! k) r))"
  shows "\<exists>ps' L' S'. freeWalk t runPool run rest ps = Inr ps' \<and> world c H L' S' ps' \<and> gave ps L (run @ rest) ps' L'"
  using assms
proof (induction rest arbitrary: t pre runPool run ps L S)
  case Nil
  then show ?case
  proof (cases runPool)
    case None
    then show ?thesis using Nil gave_refl by (auto simp: flushPool_def)
  next
    case (Some k)
    then have "k \<in> K" "\<forall>r \<in> set run. inPool (ps ! k) r" using Nil(5) by auto
    from flush_run [OF Nil(1,2) this] show ?thesis using Some by auto
  qed
next
  case (Cons r rest)
  let ?t = "dropWhile (\<lambda>e. nde_end e \<le> pr_addr r) t" and ?pre = "pre @ takeWhile (\<lambda>e. nde_end e \<le> pr_addr r) t"
  obtain k where k: "k \<in> K" "inPool (ps ! k) r" "srs_ok (ps ! k)" using Cons.prems(2) by (auto simp: frees_ok_def)
  obtain e t' where e: "?t = e # t'" "nde_start e \<le> pr_addr r" "nde_pool e = k"
    using pool_found [OF Cons.prems(3) k(1,3,2)] Cons.prems(4) by auto
  have srt: "\<forall>q \<in> set rest. pr_addr r \<le> pr_addr q" using Cons.prems(2) by (auto simp: frees_ok_def sorted_wrt_append)
  have cur: "table_for ps K (?pre @ ?t)" "\<forall>e \<in> set ?pre. \<forall>q \<in> set rest. nde_end e \<le> pr_addr q"
    using Cons.prems(3,4) srt by (auto simp: takeWhile_dropWhile_id dest!: set_takeWhileD intro: order_trans)
  have run: "freeWalk t runPool run (r # rest) ps = (if Some k \<noteq> runPool then bindO (flushPool runPool run ps) (\<lambda>ps'. freeWalk ?t (Some k) [r] rest ps')
      else freeWalk ?t runPool (run @ [r]) rest ps)"
    unfolding freeWalk.simps Let_def using e by simp
  show ?case
  proof (cases "runPool = Some k")
    case True
    have "\<exists>ps' L' S'. freeWalk ?t runPool (run @ [r]) rest ps = Inr ps' \<and> world c H L' S' ps' \<and> gave ps L ((run @ [r]) @ rest) ps' L'"
      by (rule Cons.IH [OF Cons.prems(1) _ cur]) (use Cons.prems(2,5) True k in auto)
    then show ?thesis unfolding run using True by simp
  next
    case False
    have "\<exists>ps1 L1 S1. flushPool runPool run ps = Inr ps1 \<and> world c H L1 S1 ps1 \<and> gave ps L run ps1 L1 \<and> frees_ok H L1 ps1 K (r # rest)"
    proof (cases runPool)
      case None
      then show ?thesis using Cons.prems(1,2,5) gave_refl by (auto simp: flushPool_def)
    next
      case (Some j)
      then show ?thesis using flush_run [OF Cons.prems(1,2)] Cons.prems(5) by auto
    qed
    then obtain ps1 L1 S1 where 1: "flushPool runPool run ps = Inr ps1" "world c H L1 S1 ps1" "gave ps L run ps1 L1" "frees_ok H L1 ps1 K (r # rest)" by blast
    have same: "same_pools ps ps1" and K: "K \<subseteq> {..<length ps}" using 1(3) Cons.prems(2) by (auto simp: gave_def frees_ok_def)
    have "\<exists>ps' L' S'. freeWalk ?t (Some k) [r] rest ps1 = Inr ps' \<and> world c H L' S' ps' \<and> gave ps1 L1 ([r] @ rest) ps' L'"
    proof (rule Cons.IH [OF 1(2) _ _ cur(2)])
      show "table_for ps1 K (?pre @ ?t)" using cur(1) table_for_same [OF same K] by simp
      have "same_frame (ps ! k) (ps1 ! k)" using same k(1) K by (auto simp: same_pools_def)
      then show "Some k = None \<and> [r] = [] \<or> (\<exists>j \<in> K. Some k = Some j \<and> (\<forall>q \<in> set [r]. inPool (ps1 ! j) q))"
        using k(1,2) inPool_frame by simp
    qed (use 1(4) in simp)
    then show ?thesis unfolding run using False 1(1) gave_trans [OF 1(3)] by fastforce
  qed
qed

section \<open>The references of a caller\<close>

lemma ref_in_page:
  assumes "ref_ok p {} r" "pages_ok L p"
  shows "\<exists>i < bigPageCount p. bigPageBase (pr_addr r) = bpm_base (metaAt p i) \<and> refPages r \<subseteq> (+) (pg_first (metaAt p i)) ` {..<512} \<and>
    (pr_size r = BIG \<longrightarrow> r = bpm_base (metaAt p i) OR 1 \<and> refPages r = (+) (pg_first (metaAt p i)) ` {..<512})"
proof -
  obtain i where i: "i < bigPageCount p" "pr_size r = BIG \<and> r = bpm_base (metaAt p i) OR 1 \<or> pr_size r = SMALL \<and> bigPageBase (pr_addr r) = bpm_base (metaAt p i)"
    using assms(1) by (auto simp: ref_ok_def)
  from i(2) show ?thesis
  proof (elim disjE conjE)
    assume "pr_size r = BIG" and r: "r = bpm_base (metaAt p i) OR 1"
    then show ?thesis using big_ref_addr [OF assms(2) i(1) r] i(1) by blast
  next
    assume s: "pr_size r = SMALL" "bigPageBase (pr_addr r) = bpm_base (metaAt p i)"
    moreover have "refSlot r < 512" by simp
    ultimately show ?thesis using small_ref_pages [OF s] i(1) by (intro exI [of _ i]) simp
  qed
qed

text \<open>Live pages under the references of one pool are live pages of that pool.\<close>

lemma ref_live_here:
  assumes w: "world c H L S ps" and k: "k < length ps" "ref_ok (ps ! k) {} r" and live: "refPages r \<subseteq> liveAll L ps"
  shows "refPages r \<subseteq> pagesOf (ps ! k) (L k)"
proof
  fix x assume x: "x \<in> refPages r"
  have po: "pages_ok (L k) (ps ! k)" using worldD(1) [OF w k(1)] by (simp add: pool_inv_def)
  obtain i s where i: "i < bigPageCount (ps ! k)" "s < 512" "x = pg_first (metaAt (ps ! k) i) + s"
    using ref_in_page [OF k(2) po] x by blast
  obtain j i' s' where j: "j < length ps" "i' < bigPageCount (ps ! j)" "s' \<in> L j i'" "x = pg_first (metaAt (ps ! j) i') + s'"
    using subsetD [OF live x] by (auto simp: liveAll_def in_pagesOf)
  have s': "s' < 512" using avail_slots(2) [OF w j(1,2)] j(3) by blast
  have "k = j \<and> i = i' \<and> s = s'" by (rule page_unique [OF w k(1) j(1) i(1) j(2) i(2) s']) (use i(3) j(4) in simp)
  then show "x \<in> pagesOf (ps ! k) (L k)" using i j(3) by (auto simp: in_pagesOf)
qed

lemma ref_not_held:
  assumes w: "world c H L S ps" and k: "k < length ps" "ref_ok (ps ! k) {} r" and live: "refPages r \<subseteq> liveAll L ps"
    and held: "\<forall>i \<in> heldIn H k. np_avail (ps ! k) i \<noteq> {}"
  shows "ref_ok (ps ! k) (heldIn H k) r"
proof -
  note I = worldD(1) [OF w k(1)]
  have po: "pages_ok (L k) (ps ! k)" using I by (simp add: pool_inv_def)
  obtain i where i: "i < bigPageCount (ps ! k)" "bigPageBase (pr_addr r) = bpm_base (metaAt (ps ! k) i)"
      "pr_size r = BIG \<longrightarrow> r = bpm_base (metaAt (ps ! k) i) OR 1 \<and> refPages r = (+) (pg_first (metaAt (ps ! k) i)) ` {..<512}"
    using ref_in_page [OF k(2) po] by blast
  have "i \<notin> heldIn H k" if "pr_size r = BIG"
  proof
    assume "i \<in> heldIn H k"
    then obtain s where s: "s \<in> np_avail (ps ! k) i" using held by blast
    have s': "s < 512" "s \<notin> L k i" using pg_invD(5,6) [OF pool_pages(2) [OF I i(1)]] s by auto
    then have "pg_first (metaAt (ps ! k) i) + s \<in> pagesOf (ps ! k) (L k)" using ref_live_here [OF w k live] i(3) that by auto
    then obtain i' t where t: "i' < bigPageCount (ps ! k)" "t \<in> L k i'" "pg_first (metaAt (ps ! k) i) + s = pg_first (metaAt (ps ! k) i') + t"
      by (auto simp: in_pagesOf)
    then have "t < 512" using avail_slots(2) [OF w k(1) t(1)] by blast
    then show False using page_unique [OF w k(1,1) i(1) t(1) s'(1) _ t(3)] t(2) s'(2) by blast
  qed
  then show ?thesis using i by (cases "pr_size r") (auto simp: ref_ok_def)
qed

lemma exact_filter:
  assumes "totalPages refs = card (covered refs)"
  shows "totalPages (filter P refs) = card (covered (filter P refs))"
proof -
  have "totalPages (filter P refs @ filter (\<lambda>r. \<not> P r) refs) = totalPages refs"
    unfolding totalPages_def by (induction refs) auto
  moreover have "covered (filter P refs @ filter (\<lambda>r. \<not> P r) refs) = covered refs" by auto
  ultimately show ?thesis using exact_append(1) assms by metis
qed

text \<open>
  The pools of the domains, their subranges and the table built from them; \<open>hazard_free\<close> excludes the one case in which
  \<open>NUMAPool::freePages\<close> misroutes a big page with reserved small pages.
\<close>

definition ownedPools :: "PageAllocatorImpl \<Rightarrow> nat set" where
  "ownedPools a = {k. Some k \<in> set (numaPools a)}"

definition table_ok :: "PageAllocatorImpl \<Rightarrow> bool" where
  "table_ok a \<longleftrightarrow> ownedPools a \<subseteq> {..<length (pa_pools a)} \<and> (\<forall>k \<in> ownedPools a. srs_ok (pa_pools a ! k)) \<and>
     table_for (pa_pools a) (ownedPools a) (domainTable a)"

definition hazard_free :: "(nat \<Rightarrow> nat \<Rightarrow> nat set) \<Rightarrow> NUMAPool list \<Rightarrow> PageRef list \<Rightarrow> bool" where
  "hazard_free L ps refs \<longleftrightarrow> (\<forall>k < length ps. \<forall>i < bigPageCount (ps ! k).
     np_avail (ps ! k) i = {} \<and> hasReservedSubpages (metaAt (ps ! k) i) \<longrightarrow> \<not> L k i \<subseteq> slotsOf (ps ! k) refs i)"

lemma caches_hold:
  assumes "pa_inv c L S a" "i \<in> heldIn (allCaches a) k"
  shows "hasAllocHolder (metaAt (pa_pools a ! k) i) \<and> np_avail (pa_pools a ! k) i \<noteq> {}"
proof -
  obtain j where j: "j < length (localPools a)" "(k, i) \<in> lp_pages (localPools a ! j)"
    using assms(2) by (auto simp: heldIn_def allCaches_def in_set_conv_nth)
  have "holds (lp_pid (localPools a ! j)) (lp_pages (localPools a ! j)) (pa_pools a)" "lp_pid (localPools a ! j) = j" "j \<noteq> SIZE_MAX"
    using pa_invD(2,3) [OF assms(1) j(1)] by (simp_all add: lp_ok_def req_ok_def)
  then show ?thesis using j(2) by (force simp: holds_def hasAllocHolder_def)
qed

lemma frees_ok_of:
  assumes I: "pa_inv c L S a" and t: "table_ok a" and names: "\<forall>r \<in> set refs. \<exists>k \<in> ownedPools a. ref_ok (pa_pools a ! k) {} r"
    and live: "covered refs \<subseteq> liveAll L (pa_pools a)" and tot: "totalPages refs = card (covered refs)" and hz: "hazard_free L (pa_pools a) refs"
    and srt: "sorted_wrt (\<lambda>a b. pr_addr a \<le> pr_addr b) refs"
  shows "frees_ok (allCaches a) L (pa_pools a) (ownedPools a) refs"
proof -
  let ?ps = "pa_pools a" and ?H = "allCaches a"
  have w: "world c ?H L S ?ps" using I by (simp add: pa_inv_def)
  have K: "ownedPools a \<subseteq> {..<length ?ps}" using t by (simp add: table_ok_def)
  have inP: "inPool (?ps ! k) r" if "k < length ?ps" "ref_ok (?ps ! k) {} r" for k r
    using ref_in_page [OF that(2), of "L k"] worldD(1) [OF w that(1)] by (auto simp: inPool_def pool_inv_def)
  have ref: "ref_ok (?ps ! k) {} r" if k: "k \<in> ownedPools a" and r: "r \<in> set refs" and here: "inPool (?ps ! k) r" for k r
  proof -
    obtain j where j: "j \<in> ownedPools a" "ref_ok (?ps ! j) {} r" using names r by blast
    then have "k = j" using inPool_unique [OF w _ _ here] inP k K by blast
    then show ?thesis using j(2) by simp
  qed
  have "free_pre (heldIn ?H k) (L k) (?ps ! k) (filter (inPool (?ps ! k)) refs)" if k: "k \<in> ownedPools a" for k
  proof -
    have kl: "k < length ?ps" using k K by blast
    have held: "\<forall>i \<in> heldIn ?H k. hasAllocHolder (metaAt (?ps ! k) i) \<and> np_avail (?ps ! k) i \<noteq> {}" using caches_hold [OF I] by blast
    have each: "ref_ok (?ps ! k) (heldIn ?H k) r \<and> refPages r \<subseteq> pagesOf (?ps ! k) (L k)" if "r \<in> set refs" "inPool (?ps ! k) r" for r
    proof -
      have r: "ref_ok (?ps ! k) {} r" "refPages r \<subseteq> liveAll L ?ps" using ref [OF k that] live that(1) by auto
      then show ?thesis using ref_not_held [OF w kl r] ref_live_here [OF w kl r] held by simp
    qed
    have "slotsOf (?ps ! k) (filter P refs) i \<subseteq> slotsOf (?ps ! k) refs i" for P i by (auto simp: slotsOf_def)
    then show ?thesis unfolding free_pre_def
      using each held hz kl exact_filter [OF tot] sorted_wrt_filter [OF srt] by (fastforce simp: hazard_free_def)
  qed
  then show ?thesis using srt K names inP t unfolding frees_ok_def table_ok_def by blast
qed

text \<open>The invariant after pages were given back.\<close>

lemma pa_inv_gave:
  assumes I: "pa_inv c L S a" and w: "world c (allCaches a) L' S' ps" and g: "gave (pa_pools a) L refs ps L'"
  shows "pa_inv c L' S' (a\<lparr>pa_pools := ps\<rparr>)"
proof -
  have len: "length ps = length (pa_pools a)" and same: "same_pools (pa_pools a) ps" using g by (simp_all add: gave_def same_pools_def)
  have dom: "associatedDomain (ps ! k) = associatedDomain (pa_pools a ! k)" if "k < length (pa_pools a)" for k
    using same that by (simp add: same_pools_def same_frame_def)
  have "(\<forall>p \<in> set ps. associatedDomain p < n) \<longleftrightarrow> (\<forall>p \<in> set (pa_pools a). associatedDomain p < n)" for n
    unfolding all_set_conv_all_nth using len dom by simp
  then have rq: "req_ok ps l i = req_ok (pa_pools a) l i" for l i by (simp add: req_ok_def lp_serves_def serves_def)
  have w0: "world c (allCaches a) L S (pa_pools a)" using I by (simp add: pa_inv_def)
  have "lp_ok ps (localPools a ! j)" if j: "j < length (localPools a)" for j
  proof -
    have "allocHolder (ptrMeta ps q) = allocHolder (ptrMeta (pa_pools a) q) \<and> pg_avail (ptrMeta (pa_pools a) q) \<subseteq> pg_avail (ptrMeta ps q)"
      if q: "q \<in> lp_pages (localPools a ! j)" for q
    proof -
      have "q \<in> allCaches a" using q j by (auto simp: allCaches_def)
      then show ?thesis using world_page(1,2) [OF w0] g by (simp add: gave_def)
    qed
    then have "holds pid (lp_pages (localPools a ! j)) ps" if "holds pid (lp_pages (localPools a ! j)) (pa_pools a)" for pid
      using that len unfolding holds_def by (metis subset_empty)
    then show ?thesis using pa_invD(2) [OF I j] by (simp add: lp_ok_def)
  qed
  moreover have "wired i (a\<lparr>pa_pools := ps\<rparr>) = wired i a \<and> covers i (a\<lparr>pa_pools := ps\<rparr>) = covers i a" for i
    using wiring_upd [OF len, of i "localPools a"] by simp
  ultimately show ?thesis using I w rq by (simp add: pa_inv_def allCaches_def)
qed

lemma covered_mset: "mset xs = mset ys \<Longrightarrow> covered xs = covered ys \<and> totalPages xs = totalPages ys"
  unfolding totalPages_def by (metis mset_eq_setD mset_map sum_mset_sum_list)

lemma hazard_free_mset: "mset xs = mset ys \<Longrightarrow> hazard_free L ps xs = hazard_free L ps ys"
  using covered_mset [of xs ys] by (simp add: hazard_free_def slotsOf_def)

lemma table_ok_same:
  assumes "table_ok a" "same_pools (pa_pools a) ps"
  shows "table_ok (a\<lparr>pa_pools := ps, localPools := lps\<rparr>)"
proof -
  let ?K = "ownedPools a"
  have K: "?K \<subseteq> {..<length (pa_pools a)}" "length ps = length (pa_pools a)" using assms by (auto simp: table_ok_def same_pools_def)
  have "srs_ok (ps ! k)" if "k \<in> ?K" for k
    using assms that K(1) srs_ok_frame [of "pa_pools a ! k" "ps ! k"] by (auto simp: table_ok_def same_pools_def)
  then show ?thesis using assms K table_for_same [OF assms(2) K(1)] by (simp add: table_ok_def ownedPools_def)
qed

lemma free_exact:
  assumes "pa_inv c L S a" and "table_ok a" and "refs \<noteq> []" and "length refs < 2 ^ 64"
    and "\<forall>r \<in> set refs. \<exists>k \<in> ownedPools a. ref_ok (pa_pools a ! k) {} r"
    and "covered refs \<subseteq> liveAll L (pa_pools a)" and "totalPages refs = card (covered refs)" and "hazard_free L (pa_pools a) refs"
  shows "\<exists>a' L' S'. pa_freePages refs a = Inr a' \<and> pa_inv c L' S' a' \<and> localPools a' = localPools a \<and> table_ok a' \<and>
    liveAll L' (pa_pools a') = liveAll L (pa_pools a) - covered refs \<and> availAll (pa_pools a') = availAll (pa_pools a) \<union> covered refs"
proof -
  let ?ps = "pa_pools a"
  have "weak_order addrBefore" using weak_order_key [of pr_addr] by (simp add: addrBefore_def [abs_def])
  then obtain rs where rs: "sort_array addrBefore refs (length refs) = Inr rs" "mset rs = mset refs" "sorted_wrt (\<lambda>x y. \<not> addrBefore y x) rs"
    using sort_all [of addrBefore refs] assms(3,4) by blast
  note M = covered_mset [OF rs(2)]
  have srt: "sorted_wrt (\<lambda>a b. pr_addr a \<le> pr_addr b) rs" using rs(3) by (simp add: addrBefore_def not_less)
  have "set rs = set refs" using rs(2) by (rule mset_eq_setD)
  then have F: "frees_ok (allCaches a) L ?ps (ownedPools a) rs"
    using frees_ok_of [OF assms(1,2) _ _ _ _ srt] assms(5-8) M hazard_free_mset [OF rs(2)] by simp
  have w: "world c (allCaches a) L S ?ps" using assms(1) by (simp add: pa_inv_def)
  have "table_for ?ps (ownedPools a) ([] @ domainTable a)" using assms(2) by (simp add: table_ok_def)
  from freeWalk_spec [OF w _ this, of "[]" rs None] obtain ps' L' S' where f: "freeWalk (domainTable a) None [] rs ?ps = Inr ps'"
      "world c (allCaches a) L' S' ps'" "gave ?ps L rs ps' L'" using F by auto
  moreover have "table_ok (a\<lparr>pa_pools := ps'\<rparr>)" using table_ok_same [OF assms(2), of ps' "localPools a"] f(3) by (simp add: gave_def)
  ultimately show ?thesis using pa_inv_gave [OF assms(1) f(2,3)] rs(1) M
    by (intro exI [of _ "a\<lparr>pa_pools := ps'\<rparr>"] exI [of _ L'] exI [of _ S']) (simp add: pa_freePages_def gave_def)
qed

section \<open>Building the table\<close>

definition entriesOf :: "NUMAPool list \<Rightarrow> nat option list \<Rightarrow> NUMADomainEntry list" where
  "entriesOf ps slots = concat (map (\<lambda>slot. case slot of None \<Rightarrow> []
     | Some k \<Rightarrow> map (\<lambda>sr. \<lparr>nde_start = rangeStart sr, nde_end = rangeEnd sr, nde_pool = k\<rparr>) (subrangeInfo (ps ! k))) slots)"

lemma addEntries_spec:
  "length t + length srs \<le> DOMAIN_TABLE_SIZE \<Longrightarrow>
   foldO (addEntry k) srs t = Inr (t @ map (\<lambda>sr. \<lparr>nde_start = rangeStart sr, nde_end = rangeEnd sr, nde_pool = k\<rparr>) srs)"
  by (induction srs arbitrary: t) (simp_all add: addEntry_def assertO_def)

lemma addPools_spec:
  "\<forall>k. Some k \<in> set slots \<longrightarrow> k < length ps \<Longrightarrow> length t + length (entriesOf ps slots) \<le> DOMAIN_TABLE_SIZE \<Longrightarrow>
   foldO (addPool ps) slots t = Inr (t @ entriesOf ps slots)"
proof (induction slots arbitrary: t)
  case (Cons slot slots)
  show ?case
  proof (cases slot)
    case None
    then show ?thesis using Cons by (simp add: addPool_def entriesOf_def)
  next
    case (Some k)
    then have "addPool ps slot t = Inr (t @ map (\<lambda>sr. \<lparr>nde_start = rangeStart sr, nde_end = rangeEnd sr, nde_pool = k\<rparr>) (subrangeInfo (ps ! k)))"
      using Cons.prems addEntries_spec [of t "subrangeInfo (ps ! k)" k] by (simp add: addPool_def entriesOf_def)
    then show ?thesis using Cons.IH [of "t @ map (\<lambda>sr. \<lparr>nde_start = rangeStart sr, nde_end = rangeEnd sr, nde_pool = k\<rparr>) (subrangeInfo (ps ! k))"]
        Cons.prems Some by (simp add: entriesOf_def)
  qed
qed (simp add: entriesOf_def)

lemma buildDomainTable_spec:
  assumes "\<forall>k. Some k \<in> set slots \<longrightarrow> k < length ps" "length (entriesOf ps slots) \<le> DOMAIN_TABLE_SIZE"
  shows "\<exists>t. buildDomainTable ps slots = Inr t \<and> mset t = mset (entriesOf ps slots) \<and> sorted_wrt (\<lambda>x y. nde_start x \<le> nde_start y) t"
proof -
  let ?t = "entriesOf ps slots"
  have f: "foldO (addPool ps) slots [] = Inr ?t" using addPools_spec [OF assms(1), of "[]"] assms(2) by simp
  show ?thesis
  proof (cases "1 < length ?t")
    case True
    have wo: "weak_order entryBefore" using weak_order_key [of nde_start] by (simp add: entryBefore_def [abs_def])
    have "?t \<noteq> []" "length ?t < 2 ^ 64" using True assms(2) by (auto simp: DOMAIN_TABLE_SIZE_def)
    from sort_all [OF wo this] obtain t where "sort_array entryBefore ?t (length ?t) = Inr t" "mset t = mset ?t" "sorted_wrt (\<lambda>x y. \<not> entryBefore y x) t" by blast
    then show ?thesis using f True by (auto simp: buildDomainTable_def entryBefore_def not_less)
  next
    case False
    then have "sorted_wrt (\<lambda>x y. nde_start x \<le> nde_start y) ?t" by (cases ?t) auto
    then show ?thesis using f False by (simp add: buildDomainTable_def)
  qed
qed

text \<open>Subranges of distinct pools share no big page, hence do not overlap.\<close>

definition apart :: "NUMADomainEntry \<Rightarrow> NUMADomainEntry \<Rightarrow> bool" where
  "apart x y \<longleftrightarrow> nde_end x \<le> nde_start y \<or> nde_end y \<le> nde_start x"

definition good_slots :: "NUMAPool list \<Rightarrow> nat option list \<Rightarrow> bool" where
  "good_slots ps slots \<longleftrightarrow> distinct (filter (\<lambda>s. s \<noteq> None) slots) \<and> (\<forall>k. Some k \<in> set slots \<longrightarrow> k < length ps \<and> srs_ok (ps ! k) \<and>
     (\<forall>sr \<in> set (subrangeInfo (ps ! k)). rangeStart sr < rangeEnd sr)) \<and> length (entriesOf ps slots) \<le> DOMAIN_TABLE_SIZE"

lemma entry_of:
  "e \<in> set (entriesOf ps slots) \<longleftrightarrow> (\<exists>k. Some k \<in> set slots \<and> (\<exists>sr \<in> set (subrangeInfo (ps ! k)).
     e = \<lparr>nde_start = rangeStart sr, nde_end = rangeEnd sr, nde_pool = k\<rparr>))"
  unfolding entriesOf_def by (induction slots) (auto split: option.splits)

lemma subrange_page:
  assumes "srs_ok p" "sr \<in> set (subrangeInfo p)" "2097152 dvd a" "unat (rangeStart sr) \<le> a" "a < unat (rangeEnd sr)"
  shows "\<exists>i < bigPageCount p. unat (bpm_base (metaAt p i)) = a"
proof -
  have "2097152 dvd unat (rangeStart sr)" using assms(1,2) unfolding srs_ok_def by blast
  then have "2097152 dvd a - unat (rangeStart sr)" using assms(3) dvd_diff_nat by blast
  then obtain k where "a - unat (rangeStart sr) = 2097152 * k" by (rule dvdE)
  then have "a = unat (rangeStart sr) + k * 2097152" using assms(4) by simp
  then show ?thesis using assms(1,2,5) unfolding srs_ok_def by blast
qed

lemma pools_apart:
  assumes w: "world c H L S ps" and k: "k < length ps" "j < length ps" "k \<noteq> j" and ok: "srs_ok (ps ! k)" "srs_ok (ps ! j)"
    and sr: "sr \<in> set (subrangeInfo (ps ! k))" "sr' \<in> set (subrangeInfo (ps ! j))" "rangeStart sr < rangeEnd sr" "rangeStart sr' < rangeEnd sr'"
  shows "rangeEnd sr \<le> rangeStart sr' \<or> rangeEnd sr' \<le> rangeStart sr"
proof (rule ccontr)
  assume no: "\<not> ?thesis"
  let ?m = "max (unat (rangeStart sr)) (unat (rangeStart sr'))"
  have "2097152 dvd unat (rangeStart sr)" "2097152 dvd unat (rangeStart sr')" using ok sr(1,2) unfolding srs_ok_def by blast+
  then have d: "2097152 dvd ?m" by (simp add: max_def)
  have lt: "?m < unat (rangeEnd sr)" "?m < unat (rangeEnd sr')" using no sr(3,4) by (simp_all add: word_less_nat_alt word_le_nat_alt)
  obtain i i' where i: "i < bigPageCount (ps ! k)" "unat (bpm_base (metaAt (ps ! k) i)) = ?m"
      "i' < bigPageCount (ps ! j)" "unat (bpm_base (metaAt (ps ! j) i')) = ?m"
    using subrange_page [OF ok(1) sr(1) d _ lt(1)] subrange_page [OF ok(2) sr(2) d _ lt(2)] by auto
  then have "bpm_base (metaAt (ps ! k) i) = bpm_base (metaAt (ps ! j) i')" by (simp add: word_unat_eq_iff)
  then show False using worldD(3) [OF w k i(1,3)] by simp
qed

lemma sorted_apart:
  assumes "sorted_wrt (\<lambda>a b. rangeEnd a \<le> rangeStart b) srs" "x \<in> set srs" "y \<in> set srs" "x \<noteq> y"
  shows "rangeEnd x \<le> rangeStart y \<or> rangeEnd y \<le> rangeStart x"
  using assms by (induction srs) auto

lemma entries_apart:
  assumes w: "world c H L S ps" and g: "good_slots ps slots" and e: "x \<in> set (entriesOf ps slots)" "y \<in> set (entriesOf ps slots)" "x \<noteq> y"
  shows "apart x y"
proof -
  obtain k sr where x: "Some k \<in> set slots" "sr \<in> set (subrangeInfo (ps ! k))" "x = \<lparr>nde_start = rangeStart sr, nde_end = rangeEnd sr, nde_pool = k\<rparr>"
    using e(1) by (auto simp: entry_of)
  obtain j sr' where y: "Some j \<in> set slots" "sr' \<in> set (subrangeInfo (ps ! j))" "y = \<lparr>nde_start = rangeStart sr', nde_end = rangeEnd sr', nde_pool = j\<rparr>"
    using e(2) by (auto simp: entry_of)
  have G: "k < length ps" "j < length ps" "srs_ok (ps ! k)" "srs_ok (ps ! j)" "rangeStart sr < rangeEnd sr" "rangeStart sr' < rangeEnd sr'"
    using g x y by (auto simp: good_slots_def)
  show ?thesis
  proof (cases "k = j")
    case True
    then have "sr \<noteq> sr'" using e(3) x(3) y(3) by auto
    then show ?thesis using sorted_apart [of "subrangeInfo (ps ! k)" sr sr'] G(3) x y True by (simp add: apart_def srs_ok_def)
  next
    case False
    then show ?thesis using pools_apart [OF w G(1,2) False G(3,4) x(2) y(2) G(5,6)] x(3) y(3) by (simp add: apart_def)
  qed
qed

lemma entries_distinct:
  assumes "distinct (filter (\<lambda>s. s \<noteq> None) slots)"
    and "\<forall>k. Some k \<in> set slots \<longrightarrow> sorted_wrt (\<lambda>a b. rangeEnd a \<le> rangeStart b) (subrangeInfo (ps ! k)) \<and>
      (\<forall>sr \<in> set (subrangeInfo (ps ! k)). rangeStart sr < rangeEnd sr)"
  shows "distinct (entriesOf ps slots)"
  using assms
proof (induction slots)
  case (Cons slot slots)
  have IH: "distinct (entriesOf ps slots)" using Cons by (cases slot) auto
  have one: "distinct (map (\<lambda>sr. \<lparr>nde_start = rangeStart sr, nde_end = rangeEnd sr, nde_pool = k\<rparr>) srs)"
    if "sorted_wrt (\<lambda>a b. rangeEnd a \<le> rangeStart b) srs" "\<forall>sr \<in> set srs. rangeStart sr < rangeEnd sr" for k srs
    using that by (induction srs) fastforce+
  show ?case
  proof (cases slot)
    case None
    then show ?thesis using IH by (simp add: entriesOf_def)
  next
    case (Some k)
    let ?es = "map (\<lambda>sr. \<lparr>nde_start = rangeStart sr, nde_end = rangeEnd sr, nde_pool = k\<rparr>) (subrangeInfo (ps ! k))"
    have "nde_pool e \<noteq> k" if "e \<in> set (entriesOf ps slots)" for e using that Cons.prems(1) Some by (auto simp: entry_of)
    then have "set ?es \<inter> set (entriesOf ps slots) = {}" by force
    moreover have "entriesOf ps (slot # slots) = ?es @ entriesOf ps slots" using Some by (simp add: entriesOf_def)
    moreover have "distinct ?es" using one [of "subrangeInfo (ps ! k)" k] Cons.prems(2) Some by simp
    ultimately show ?thesis using IH by simp
  qed
qed (simp add: entriesOf_def)

lemma table_for_built:
  assumes w: "world c H L S ps" and g: "good_slots ps slots" and t: "mset t = mset (entriesOf ps slots)" "sorted_wrt (\<lambda>x y. nde_start x \<le> nde_start y) t"
  shows "table_for ps {k. Some k \<in> set slots} t"
proof -
  have st: "set t = set (entriesOf ps slots)" using t(1) by (rule mset_eq_setD)
  have d: "distinct t" using mset_eq_imp_distinct_iff [OF t(1)] entries_distinct [of slots ps] g by (auto simp: good_slots_def srs_ok_def)
  have ne: "nde_start e < nde_end e" if "e \<in> set t" for e using that g unfolding st entry_of good_slots_def by auto
  have "nde_end (t ! i) \<le> nde_start (t ! j)" if "i < j" "j < length t" for i j
  proof -
    have m: "t ! i \<in> set t" "t ! j \<in> set t" "t ! i \<noteq> t ! j" using that d by (auto simp: nth_eq_iff_index_eq)
    have le: "nde_start (t ! i) \<le> nde_start (t ! j)" using t(2) that by (auto simp: sorted_wrt_iff_nth_less)
    show ?thesis using entries_apart [OF w g m [unfolded st]] le ne [OF m(2)] by (auto simp: apart_def)
  qed
  moreover have "\<forall>e \<in> set (entriesOf ps slots). nde_start e < nde_end e" using ne unfolding st by blast
  ultimately show ?thesis unfolding table_for_def st by (auto simp: sorted_wrt_iff_nth_less entry_of)
qed

end
