(* ===== verification/Memory_Partition.thy ===== *)
theory Memory_Partition
  imports Numa_Topology_Laws Pool_Factory
begin

text \<open>
  \<open>partitionMemoryByDomain\<close>: usable memory is cut at the boundaries of the NUMA regions and handed to
  the domain each piece lies in, and every processor is given the closest domain with memory.
\<close>

section \<open>Cutting a usable range\<close>

record NUMAMemoryPartition =
  rangesPerDomain :: "phys_memory_range list list"
  unownedRanges :: "phys_memory_range list"
  processorDomain :: "DomainID list"

definition kMinPartitionRangeSize :: u64 where
  "kMinPartitionRangeSize = smallPageSize"

definition alignedBounds :: "phys_memory_range \<Rightarrow> u64 \<times> u64" where
  "alignedBounds r = (roundUpToNearestMultiple (rng_start r) smallPageSize, roundDownToNearestMultiple (rng_end r) smallPageSize)"

definition splitPoints :: "NUMATopology \<Rightarrow> u64 \<Rightarrow> u64 \<Rightarrow> u64 list" where
  "splitPoints t s e =
     [s, e] @ concat (map (\<lambda>(mr, _). let (rs, re) = alignedBounds (mreg_range mr)
       in (if s < rs \<and> rs < e then [rs] else []) @ (if s < re \<and> re < e then [re] else [])) (allMemoryRegions t))"

text \<open>One step of the insertion sort: \<open>key\<close> moves left past the larger values of the sorted prefix.\<close>

definition insertSplit :: "u64 \<Rightarrow> u64 list \<Rightarrow> u64 list" where
  "insertSplit key xs =
     rev (dropWhile (\<lambda>x. key < x) (rev xs)) @ [key] @ rev (takeWhile (\<lambda>x. key < x) (rev xs))"

definition sortSplits :: "u64 list \<Rightarrow> u64 list" where
  "sortSplits xs = (case xs of [] \<Rightarrow> [] | x # xs' \<Rightarrow> fold insertSplit xs' [x])"

definition flushRun :: "ProximityDomain option \<Rightarrow> u64 \<Rightarrow> u64 \<Rightarrow> NUMAMemoryPartition \<Rightarrow> NUMAMemoryPartition outcome" where
  "flushRun runDomain runStart flushEnd part =
     (let r = \<lparr>rng_start = runStart, rng_end = flushEnd\<rparr>
      in if rng_getSize r < kMinPartitionRangeSize then Inr part
         else case runDomain of
           Some d \<Rightarrow> bindO (upd (unat (pd_id d)) (\<lambda>rs. rs @ [r]) (rangesPerDomain part)) (\<lambda>rpd. Inr (part\<lparr>rangesPerDomain := rpd\<rparr>))
         | None \<Rightarrow> Inr (part\<lparr>unownedRanges := unownedRanges part @ [r]\<rparr>))"

text \<open>The walk over consecutive split points; domains are compared by identity in the code.\<close>

fun walkIntervals :: "NUMATopology \<Rightarrow> u64 \<Rightarrow> u64 list \<Rightarrow> ProximityDomain option \<times> u64 \<times> NUMAMemoryPartition \<Rightarrow>
    (ProximityDomain option \<times> u64 \<times> NUMAMemoryPartition) outcome" where
  "walkIntervals t alignedStart (a # b # xs) (runDomain, runStart, part) =
     (if a = b then walkIntervals t alignedStart (b # xs) (runDomain, runStart, part)
      else let intervalDomain = domainForAddress a t
           in if intervalDomain \<noteq> runDomain then
                bindO (if alignedStart < a then flushRun runDomain runStart a part else Inr part) (\<lambda>part'.
                  walkIntervals t alignedStart (b # xs) (intervalDomain, a, part'))
              else walkIntervals t alignedStart (b # xs) (runDomain, runStart, part))"
| "walkIntervals t alignedStart _ st = Inr st"

definition splitRange :: "NUMATopology \<Rightarrow> phys_memory_range \<Rightarrow> NUMAMemoryPartition \<Rightarrow> NUMAMemoryPartition outcome" where
  "splitRange t entry part =
     (let (alignedStart, alignedEnd) = alignedBounds entry
      in if alignedEnd \<le> alignedStart then Inr part
         else bindO (walkIntervals t alignedStart (sortSplits (splitPoints t alignedStart alignedEnd)) (None, alignedStart, part))
                (\<lambda>(runDomain, runStart, part'). flushRun runDomain runStart alignedEnd part'))"

section \<open>Giving processors a domain\<close>

definition firstDomainWithMemory :: "phys_memory_range list list \<Rightarrow> DomainID" where
  "firstDomainWithMemory rpd =
     (case find (\<lambda>d. rpd ! d \<noteq> []) [0..<length rpd] of Some d \<Rightarrow> of_nat d | None \<Rightarrow> noDomain)"

fun nearestWithMemory :: "phys_memory_range list list \<Rightarrow> DomainDistance list \<Rightarrow> DomainID outcome" where
  "nearestWithMemory rpd [] = Inr noDomain"
| "nearestWithMemory rpd (dd # dds) =
     bindO (readAt rpd (unat (dd_domainId dd))) (\<lambda>rs. if rs \<noteq> [] then Inr (dd_domainId dd) else nearestWithMemory rpd dds)"

definition chooseDomain :: "NUMATopology \<Rightarrow> DistanceMetric \<Rightarrow> phys_memory_range list list \<Rightarrow> DomainID \<Rightarrow> nat \<Rightarrow> DomainID outcome" where
  "chooseDomain t metric rpd fallback cpu =
     bindO (domainForCpu cpu t) (\<lambda>home.
     bindO (domainsOrdered (pd_id home) metric t) (\<lambda>ds.
     bindO (nearestWithMemory rpd ds) (\<lambda>chosen. Inr (if chosen = noDomain then fallback else chosen))))"

definition partitionMemoryByDomain :: "phys_memory_range list \<Rightarrow> nat \<Rightarrow> NUMATopology \<Rightarrow> DistanceMetric \<Rightarrow> NUMAMemoryPartition outcome" where
  "partitionMemoryByDomain usableRanges processorCount t metric =
     bindO (foldO (splitRange t) usableRanges
              \<lparr>rangesPerDomain = replicate (length (proximityDomains t)) [], unownedRanges = [], processorDomain = []\<rparr>) (\<lambda>part.
       let rpd = rangesPerDomain part; fallback = firstDomainWithMemory rpd
       in foldO (\<lambda>cpu part. bindO (chooseDomain t metric rpd fallback cpu) (\<lambda>d.
            Inr (part\<lparr>processorDomain := processorDomain part @ [d]\<rparr>))) [0..<processorCount] part)"

section \<open>The split points\<close>

lemma insertSplit_spec:
  assumes "sorted xs"
  shows "sorted (insertSplit k xs)" "mset (insertSplit k xs) = add_mset k (mset xs)"
proof -
  let ?P = "\<lambda>x. k < x"
  have split: "xs = rev (dropWhile ?P (rev xs)) @ rev (takeWhile ?P (rev xs))"
    by (metis rev_append rev_rev_ident takeWhile_dropWhile_id)
  have "mset xs = mset (dropWhile ?P (rev xs)) + mset (takeWhile ?P (rev xs))" using arg_cong [OF split, of mset] by simp
  then show "mset (insertSplit k xs) = add_mset k (mset xs)" by (simp add: insertSplit_def)
  have s: "sorted (rev (dropWhile ?P (rev xs)) @ rev (takeWhile ?P (rev xs)))" using assms split by simp
  have lo: "x \<le> k" if x: "x \<in> set (dropWhile ?P (rev xs))" for x
  proof -
    obtain y ys where y: "dropWhile ?P (rev xs) = y # ys" using x by (cases "dropWhile ?P (rev xs)") auto
    then have "\<not> k < y" using hd_dropWhile [of ?P "rev xs"] by simp
    moreover have "sorted (rev (y # ys))" using s y by (simp add: sorted_append)
    then have "x \<le> y" using x y by (auto simp: sorted_append)
    ultimately show ?thesis by simp
  qed
  have hi: "k \<le> x" if "x \<in> set (takeWhile ?P (rev xs))" for x using set_takeWhileD [OF that] by auto
  show "sorted (insertSplit k xs)" unfolding insertSplit_def using s lo hi by (auto simp: sorted_append intro: order_trans)
qed

lemma sortSplits_spec: "sorted (sortSplits xs)" "mset (sortSplits xs) = mset xs"
proof -
  have "sorted ys \<Longrightarrow> sorted (fold insertSplit zs ys) \<and> mset (fold insertSplit zs ys) = mset zs + mset ys" for ys zs
    by (induction zs arbitrary: ys) (simp_all add: insertSplit_spec)
  then show "sorted (sortSplits xs)" "mset (sortSplits xs) = mset xs" by (auto simp: sortSplits_def split: list.splits)
qed

lemma aligned_round:
  "4096 dvd unat (roundUpToNearestMultiple x smallPageSize)" "4096 dvd unat (roundDownToNearestMultiple x smallPageSize)"
  "4096 dvd unat x \<Longrightarrow> roundUpToNearestMultiple x smallPageSize = x"
  "4096 dvd unat x \<Longrightarrow> roundDownToNearestMultiple x smallPageSize = x"
proof -
  have d: "4096 dvd unat (q * smallPageSize)" for q :: u64
    by (simp add: unat_word_ariths dvd_mod_iff)
  show "4096 dvd unat (roundUpToNearestMultiple x smallPageSize)" "4096 dvd unat (roundDownToNearestMultiple x smallPageSize)"
    by (simp_all only: roundUpToNearestMultiple_def roundDownToNearestMultiple_def d)
  assume "4096 dvd unat x"
  then obtain k where k: "unat x = 4096 * k" by blast
  then have b: "unat x + (unat smallPageSize - 1) < 2 ^ 64" using unat_lt_64 [of x] by simp
  have "(4096 * k + 4095) div 4096 = k" by simp
  then show "roundUpToNearestMultiple x smallPageSize = x" using unat_round(2) [of smallPageSize x] b k by (simp add: word_unat_eq_iff)
  show "roundDownToNearestMultiple x smallPageSize = x" using unat_round(1) [of smallPageSize x] k by (simp add: word_unat_eq_iff)
qed

text \<open>All regions of the topology start and end on small-page boundaries.\<close>

definition regions_aligned :: "NUMATopology \<Rightarrow> bool" where
  "regions_aligned t \<longleftrightarrow> (\<forall>d \<in> set (proximityDomains t). \<forall>r \<in> set (pd_memoryRegions d).
     4096 dvd unat (rng_start (mreg_range r)) \<and> 4096 dvd unat (rng_end (mreg_range r)))"

lemma splitPoints_aligned: "4096 dvd unat s \<Longrightarrow> 4096 dvd unat e \<Longrightarrow> x \<in> set (splitPoints t s e) \<Longrightarrow> 4096 dvd unat x"
  by (auto simp: splitPoints_def alignedBounds_def aligned_round split: if_splits)

lemma splitPoints_bounds: "s < e \<Longrightarrow> x \<in> set (splitPoints t s e) \<Longrightarrow> s \<le> x \<and> x \<le> e"
  by (auto simp: splitPoints_def alignedBounds_def split: if_splits)

lemma splitPoints_complete:
  assumes al: "regions_aligned t" and d: "d \<in> set (proximityDomains t)" "r \<in> set (pd_memoryRegions d)"
  shows "s < rng_start (mreg_range r) \<Longrightarrow> rng_start (mreg_range r) < e \<Longrightarrow> rng_start (mreg_range r) \<in> set (splitPoints t s e)"
    "s < rng_end (mreg_range r) \<Longrightarrow> rng_end (mreg_range r) < e \<Longrightarrow> rng_end (mreg_range r) \<in> set (splitPoints t s e)"
proof -
  have m: "(r, pd_id d) \<in> set (allMemoryRegions t)" using d by (auto simp: allMemoryRegions_def)
  have "alignedBounds (mreg_range r) = (rng_start (mreg_range r), rng_end (mreg_range r))"
    using al d by (simp add: regions_aligned_def alignedBounds_def aligned_round)
  then show "s < rng_start (mreg_range r) \<Longrightarrow> rng_start (mreg_range r) < e \<Longrightarrow> rng_start (mreg_range r) \<in> set (splitPoints t s e)"
    "s < rng_end (mreg_range r) \<Longrightarrow> rng_end (mreg_range r) < e \<Longrightarrow> rng_end (mreg_range r) \<in> set (splitPoints t s e)"
    unfolding splitPoints_def using m by (auto intro!: bexI [of _ "(r, pd_id d)"])
qed

text \<open>Between consecutive split points the domain does not change.\<close>

lemma domain_constant:
  assumes al: "regions_aligned t" and xz: "s \<le> x" "x \<le> z" "z < e" and no: "\<forall>y \<in> set (splitPoints t s e). \<not> (x < y \<and> y \<le> z)"
  shows "domainForAddress z t = domainForAddress x t"
proof -
  have "rng_contains z (mreg_range r) \<longleftrightarrow> rng_contains x (mreg_range r)"
    if d: "d \<in> set (proximityDomains t)" "r \<in> set (pd_memoryRegions d)" for d r
  proof -
    have b: "\<not> (x < rng_start (mreg_range r) \<and> rng_start (mreg_range r) \<le> z)" "\<not> (x < rng_end (mreg_range r) \<and> rng_end (mreg_range r) \<le> z)"
      using splitPoints_complete [OF al d, of s e] no xz by (meson le_less_trans order_le_less_trans)+
    then show ?thesis using xz by (auto simp: rng_contains_def)
  qed
  then show ?thesis unfolding domainForAddress_def by (intro find_cong) auto
qed

lemma splits_successive:
  assumes al: "regions_aligned t" and se: "s < e"
  shows "successively (\<lambda>x y. \<forall>z. x \<le> z \<and> z < y \<longrightarrow> domainForAddress z t = domainForAddress x t) (sortSplits (splitPoints t s e))"
proof -
  let ?xs = "sortSplits (splitPoints t s e)"
  have S: "set ?xs = set (splitPoints t s e)" by (metis set_mset_mset sortSplits_spec(2))
  have "domainForAddress z t = domainForAddress (?xs ! i) t" if i: "Suc i < length ?xs" and z: "?xs ! i \<le> z" "z < ?xs ! Suc i" for i z
  proof (rule domain_constant [OF al _ z(1)])
    show "s \<le> ?xs ! i" using splitPoints_bounds [OF se, of "?xs ! i"] nth_mem [of i ?xs] S i by simp
    have "?xs ! Suc i \<in> set (splitPoints t s e)" using nth_mem [OF i] S by simp
    then show "z < e" using splitPoints_bounds [OF se] z(2) by (blast intro: order_less_le_trans)
    show "\<forall>y \<in> set (splitPoints t s e). \<not> (?xs ! i < y \<and> y \<le> z)"
    proof
      fix y assume "y \<in> set (splitPoints t s e)"
      then obtain j where j: "j < length ?xs" "y = ?xs ! j" using S by (metis in_set_conv_nth)
      show "\<not> (?xs ! i < y \<and> y \<le> z)"
      proof (cases "j \<le> i")
        case True
        then have "y \<le> ?xs ! i" using sorted_nth_mono [OF sortSplits_spec(1)] i j by simp
        then show ?thesis by auto
      next
        case False
        then have "?xs ! Suc i \<le> y" using sorted_nth_mono [OF sortSplits_spec(1)] j by simp
        then show ?thesis using z(2) by auto
      qed
    qed
  qed
  then show ?thesis by (simp add: successively_conv_nth)
qed

lemma splits_ends:
  assumes "s < e"
  shows "\<exists>xs. sortSplits (splitPoints t s e) = s # xs \<and> last (s # xs) = e"
proof -
  let ?xs = "sortSplits (splitPoints t s e)"
  have S: "set ?xs = set (splitPoints t s e)" by (metis set_mset_mset sortSplits_spec(2))
  then have in_: "s \<in> set ?xs" "e \<in> set ?xs" by (simp_all add: splitPoints_def)
  then have ne: "?xs \<noteq> []" by auto
  have b: "s \<le> x \<and> x \<le> e" if "x \<in> set ?xs" for x using splitPoints_bounds [OF assms] that S by blast
  have "hd ?xs \<le> s" using in_(1) sortSplits_spec(1) [of "splitPoints t s e"] by (cases ?xs) auto
  moreover have "e \<le> last ?xs" using in_(2) sortSplits_spec(1) [of "splitPoints t s e"] by (cases ?xs rule: rev_cases) (auto simp: sorted_append)
  ultimately have "hd ?xs = s" "last ?xs = e" using b ne by (simp_all add: order_antisym)
  then show ?thesis using ne by (cases ?xs) auto
qed

section \<open>The walk\<close>

definition rangeAddrs :: "phys_memory_range list \<Rightarrow> phys_addr set" where
  "rangeAddrs rs = (\<Union>r \<in> set rs. {rng_start r..<rng_end r})"

text \<open>The addresses a partition gives to a domain, or to none.\<close>

definition partAddrs :: "NUMAMemoryPartition \<Rightarrow> DomainID option \<Rightarrow> phys_addr set" where
  "partAddrs part l = rangeAddrs (case l of Some d \<Rightarrow> rangesPerDomain part ! unat d | None \<Rightarrow> unownedRanges part)"

definition labelOf :: "NUMATopology \<Rightarrow> phys_addr \<Rightarrow> DomainID option" where
  "labelOf t a = map_option pd_id (domainForAddress a t)"

definition part_ok :: "nat \<Rightarrow> NUMAMemoryPartition \<Rightarrow> bool" where
  "part_ok n part \<longleftrightarrow> length (rangesPerDomain part) = n \<and>
     (\<forall>rs \<in> insert (unownedRanges part) (set (rangesPerDomain part)). \<forall>r \<in> set rs. page_aligned r)"

text \<open>A partition grown by the addresses of a set that carry each label.\<close>

definition grown :: "NUMATopology \<Rightarrow> nat \<Rightarrow> NUMAMemoryPartition \<Rightarrow> phys_addr set \<Rightarrow> NUMAMemoryPartition \<Rightarrow> bool" where
  "grown t n part A part' \<longleftrightarrow> part_ok n part' \<and> processorDomain part' = processorDomain part \<and>
     (\<forall>l. (\<forall>d. l = Some d \<longrightarrow> unat d < n) \<longrightarrow> partAddrs part' l = partAddrs part l \<union> {a \<in> A. labelOf t a = l})"

lemma grown_refl: "part_ok n part \<Longrightarrow> grown t n part {} part"
  by (simp add: grown_def)

lemma grown_ok: "grown t n p A q \<Longrightarrow> part_ok n q"
  by (simp add: grown_def)

lemma grown_trans: "grown t n p A q \<Longrightarrow> grown t n q B r \<Longrightarrow> grown t n p (A \<union> B) r"
  unfolding grown_def by fastforce

lemma domainForAddress_id:
  assumes "topo_ok n t" "domainForAddress a t = Some d"
  shows "unat (pd_id d) < n"
proof -
  obtain k where "k < n" "d = proximityDomains t ! k" using assms by (auto simp: domainForAddress_def find_Some_iff topo_ok_def cpu_map_ok_def)
  then show ?thesis using assms(1) by (simp add: topo_ok_def cpu_map_ok_def unat_of_nat_16)
qed

lemma aligned_gap:
  assumes "4096 dvd unat a" "4096 dvd unat b" "a < b"
  shows "4096 \<le> unat b - unat a"
  using assms by (metis dvd_diff_nat dvd_imp_le word_less_nat_alt zero_less_diff)

lemma partAddrs_push:
  assumes "unat d < length (rangesPerDomain part)" "\<forall>d'. l = Some d' \<longrightarrow> unat d' < length (rangesPerDomain part)"
  shows "partAddrs (part\<lparr>rangesPerDomain := (rangesPerDomain part)[unat d := rangesPerDomain part ! unat d @ [r]]\<rparr>) l =
    partAddrs part l \<union> (if l = Some d then {rng_start r..<rng_end r} else {})"
proof (cases l)
  case (Some a)
  have "unat d = unat a \<longleftrightarrow> a = d" by (auto simp: word_unat_eq_iff)
  then show ?thesis using assms Some by (simp add: partAddrs_def rangeAddrs_def nth_list_update Un_commute)
qed (simp add: partAddrs_def)

lemma flushRun_spec:
  assumes ok: "topo_ok n t" "part_ok n part" and al: "4096 dvd unat rs" "4096 dvd unat fe" "rs \<le> fe"
    and run: "\<forall>z. rs \<le> z \<and> z < fe \<longrightarrow> domainForAddress z t = run"
  shows "\<exists>part'. flushRun run rs fe part = Inr part' \<and> grown t n part {rs..<fe} part'"
proof (cases "rs = fe")
  case True
  then show ?thesis using grown_refl [OF ok(2)] by (simp add: flushRun_def rng_getSize_def rng_isEmpty_def kMinPartitionRangeSize_def smallPageSize_def)
next
  case False
  let ?r = "\<lparr>rng_start = rs, rng_end = fe\<rparr> :: phys_memory_range"
  have lt: "rs < fe" using False al(3) by simp
  have "\<not> rng_getSize ?r < kMinPartitionRangeSize" using aligned_gap [OF al(1,2) lt] lt
    by (auto simp: rng_getSize_def rng_isEmpty_def kMinPartitionRangeSize_def not_less word_le_nat_alt unat_sub)
  moreover have pa: "page_aligned ?r" using al lt by (simp add: page_aligned_def)
  moreover have dom: "domainForAddress rs t = run" using run lt by simp
  moreover have lab: "labelOf t z = map_option pd_id run" if "rs \<le> z" "z < fe" for z using run that by (simp add: labelOf_def)
  have A: "{a \<in> {rs..<fe}. labelOf t a = l} = (if l = map_option pd_id run then {rs..<fe} else {})" for l
    using lab by auto
  have A': "grown t n part {rs..<fe} part' \<longleftrightarrow> part_ok n part' \<and> processorDomain part' = processorDomain part \<and> (\<forall>l. (\<forall>d. l = Some d \<longrightarrow> unat d < n) \<longrightarrow>
      partAddrs part' l = partAddrs part l \<union> (if l = map_option pd_id run then {rs..<fe} else {}))" for part'
    unfolding grown_def A ..
  have ok2: "length (rangesPerDomain part) = n" "\<forall>r \<in> set (unownedRanges part). page_aligned r"
      "\<forall>rs \<in> set (rangesPerDomain part). \<forall>r \<in> set rs. page_aligned r" using ok(2) by (auto simp: part_ok_def)
  show ?thesis
  proof (cases run)
    case None
    then show ?thesis using calculation ok2 by (simp add: flushRun_def A' part_ok_def partAddrs_def rangeAddrs_def Un_commute split: option.splits)
  next
    case (Some d)
    have d: "unat (pd_id d) < n" using domainForAddress_id [OF ok(1)] dom Some by blast
    let ?rpd = "(rangesPerDomain part)[unat (pd_id d) := rangesPerDomain part ! unat (pd_id d) @ [?r]]"
    have "\<forall>rs \<in> set ?rpd. \<forall>r \<in> set rs. page_aligned r"
      using ok2(1,3) pa d set_update_subset_insert [of "rangesPerDomain part" "unat (pd_id d)"] by (fastforce dest: subsetD)
    then have "part_ok n (part\<lparr>rangesPerDomain := ?rpd\<rparr>)" using ok2 by (simp add: part_ok_def)
    then have "grown t n part {rs..<fe} (part\<lparr>rangesPerDomain := ?rpd\<rparr>)"
      unfolding A' using partAddrs_push [of "pd_id d" part _ ?r] d ok2(1) Some by simp
    then show ?thesis using Some calculation(1) ok2(1) d by (simp add: flushRun_def)
  qed
qed

lemma walkIntervals_spec:
  assumes ok: "topo_ok n t" and s: "s \<le> rs" "rs \<le> a" and srt: "sorted (a # xs)" "\<forall>x \<in> set (a # xs). 4096 dvd unat x" "4096 dvd unat rs"
    and succ: "successively (\<lambda>x y. \<forall>z. x \<le> z \<and> z < y \<longrightarrow> domainForAddress z t = domainForAddress x t) (a # xs)"
    and part: "part_ok n part" and run: "\<forall>z. rs \<le> z \<and> z < a \<longrightarrow> domainForAddress z t = run"
  shows "\<exists>run' rs' part'. walkIntervals t s (a # xs) (run, rs, part) = Inr (run', rs', part') \<and> rs \<le> rs' \<and> rs' \<le> last (a # xs) \<and>
    4096 dvd unat rs' \<and> (\<forall>z. rs' \<le> z \<and> z < last (a # xs) \<longrightarrow> domainForAddress z t = run') \<and> grown t n part {rs..<rs'} part'"
  using assms(2-)
proof (induction xs arbitrary: a run rs part)
  case Nil
  then show ?case using grown_refl by simp
next
  case (Cons b xs)
  have ab: "a \<le> b" using Cons.prems(3) by simp
  have const: "z < b \<Longrightarrow> a \<le> z \<Longrightarrow> domainForAddress z t = domainForAddress a t" for z
    using Cons.prems(6) unfolding successively.simps by blast
  have succ: "successively (\<lambda>x y. \<forall>z. x \<le> z \<and> z < y \<longrightarrow> domainForAddress z t = domainForAddress x t) (b # xs)"
    using Cons.prems(6) unfolding successively.simps by blast
  consider (skip) "a = b \<or> domainForAddress a t = run" | (flush) "a \<noteq> b" "domainForAddress a t \<noteq> run" by blast
  then show ?case
  proof cases
    case skip
    have "domainForAddress z t = run" if "rs \<le> z" "z < b" for z
    proof (cases "z < a")
      case True
      then show ?thesis using Cons.prems(8) that(1) by blast
    next
      case False
      then have "domainForAddress z t = domainForAddress a t" "a \<noteq> b" using const [OF that(2)] that(2) by (auto simp: not_less)
      then show ?thesis using skip by simp
    qed
    then have "\<forall>z. rs \<le> z \<and> z < b \<longrightarrow> domainForAddress z t = run" by blast
    moreover have "walkIntervals t s (a # b # xs) (run, rs, part) = walkIntervals t s (b # xs) (run, rs, part)" using skip by auto
    ultimately show ?thesis using Cons.IH [OF Cons.prems(1) order_trans [OF Cons.prems(2) ab] _ _ Cons.prems(5) succ Cons.prems(7), of run]
        Cons.prems(3,4) by simp
  next
    case flush
    obtain p1 where p1: "(if s < a then flushRun run rs a part else Inr part) = Inr p1" "grown t n part {rs..<a} p1"
    proof (cases "s < a")
      case True
      then show ?thesis using that flushRun_spec [OF ok Cons.prems(7,5) _ Cons.prems(2,8)] Cons.prems(4) by auto
    next
      case False
      then have "rs = a" using Cons.prems(1,2) by simp
      then show ?thesis using that False grown_refl [OF Cons.prems(7)] by simp
    qed
    have ok1: "part_ok n p1" by (rule grown_ok [OF p1(2)])
    have sa: "s \<le> a" using Cons.prems(1,2) by simp
    obtain run' rs' part' where r: "walkIntervals t s (b # xs) (domainForAddress a t, a, p1) = Inr (run', rs', part')" "a \<le> rs'"
        "rs' \<le> last (b # xs)" "4096 dvd unat rs'" "\<forall>z. rs' \<le> z \<and> z < last (b # xs) \<longrightarrow> domainForAddress z t = run'" "grown t n p1 {a..<rs'} part'"
      using Cons.IH [OF sa ab _ _ _ succ ok1, of "domainForAddress a t"] Cons.prems(3,4) const by auto
    have "{rs..<a} \<union> {a..<rs'} = {rs..<rs'}" using Cons.prems(2) r(2) by auto
    then have "grown t n part {rs..<rs'} part'" using grown_trans [OF p1(2) r(6)] by simp
    then show ?thesis using r p1(1) flush Cons.prems(2) by auto
  qed
qed

lemma splitRange_spec:
  assumes ok: "topo_ok n t" "regions_aligned t" "part_ok n part"
  shows "\<exists>part'. splitRange t r part = Inr part' \<and> grown t n part {fst (alignedBounds r)..<snd (alignedBounds r)} part'"
proof (cases "snd (alignedBounds r) \<le> fst (alignedBounds r)")
  case True
  then show ?thesis using grown_refl [OF ok(3)] by (simp add: splitRange_def case_prod_beta)
next
  case False
  let ?s = "fst (alignedBounds r)" and ?e = "snd (alignedBounds r)"
  have se: "?s < ?e" and al: "4096 dvd unat ?s" "4096 dvd unat ?e" using False by (simp_all add: alignedBounds_def aligned_round)
  obtain xs where xs: "sortSplits (splitPoints t ?s ?e) = ?s # xs" "last (?s # xs) = ?e" using splits_ends [OF se] by blast
  have srt: "sorted (?s # xs)" using sortSplits_spec(1) [of "splitPoints t ?s ?e"] xs(1) by simp
  have "set (?s # xs) = set (splitPoints t ?s ?e)" using xs(1) by (metis set_mset_mset sortSplits_spec(2))
  then have ala: "\<forall>x \<in> set (?s # xs). 4096 dvd unat x" using splitPoints_aligned [OF al] by blast
  obtain run rs p1 where w: "walkIntervals t ?s (?s # xs) (None, ?s, part) = Inr (run, rs, p1)" "?s \<le> rs" "rs \<le> ?e" "4096 dvd unat rs"
      "\<forall>z. rs \<le> z \<and> z < ?e \<longrightarrow> domainForAddress z t = run" "grown t n part {?s..<rs} p1"
    using walkIntervals_spec [OF ok(1) order_refl order_refl srt ala al(1) _ ok(3), of None] splits_successive [OF ok(2) se]
    unfolding xs by (auto dest: order_le_less_trans)
  obtain p2 where p2: "flushRun run rs ?e p1 = Inr p2" "grown t n p1 {rs..<?e} p2"
    using flushRun_spec [OF ok(1) grown_ok [OF w(6)] w(4) al(2) w(3,5)] by blast
  have "{?s..<rs} \<union> {rs..<?e} = {?s..<?e}" using w(2,3) by auto
  then have "grown t n part {?s..<?e} p2" using grown_trans [OF w(6) p2(2)] by simp
  then show ?thesis using False w(1) xs(1) p2(1) by (simp add: splitRange_def case_prod_beta)
qed

lemma splitRanges_spec:
  assumes ok: "topo_ok n t" "regions_aligned t" "part_ok n part"
  shows "\<exists>part'. foldO (splitRange t) rs part = Inr part' \<and>
    grown t n part (\<Union>r \<in> set rs. {fst (alignedBounds r)..<snd (alignedBounds r)}) part'"
  using ok(3)
proof (induction rs arbitrary: part)
  case Nil
  then show ?case using grown_refl by simp
next
  case (Cons r rs)
  obtain p1 where p1: "splitRange t r part = Inr p1" "grown t n part {fst (alignedBounds r)..<snd (alignedBounds r)} p1"
    using splitRange_spec [OF ok(1,2) Cons.prems] by blast
  obtain p2 where p2: "foldO (splitRange t) rs p1 = Inr p2" "grown t n p1 (\<Union>r \<in> set rs. {fst (alignedBounds r)..<snd (alignedBounds r)}) p2"
    using Cons.IH [OF grown_ok [OF p1(2)]] by blast
  show ?case using p1(1) p2(1) grown_trans [OF p1(2) p2(2)] by simp
qed

section \<open>The processors\<close>

definition firstWithMemory :: "phys_memory_range list list \<Rightarrow> DomainDistance list \<Rightarrow> DomainDistance option" where
  "firstWithMemory rpd = find (\<lambda>dd. rpd ! unat (dd_domainId dd) \<noteq> [])"

lemma nearestWithMemory_spec:
  "\<forall>dd \<in> set ds. unat (dd_domainId dd) < length rpd \<Longrightarrow>
   nearestWithMemory rpd ds = Inr (case firstWithMemory rpd ds of Some dd \<Rightarrow> dd_domainId dd | None \<Rightarrow> noDomain)"
  by (induction ds) (simp_all add: firstWithMemory_def)

text \<open>A processor's domain has memory, and no domain its home domain prefers has any.\<close>

definition nearest_memory :: "NUMATopology \<Rightarrow> DistanceMetric \<Rightarrow> phys_memory_range list list \<Rightarrow> nat \<Rightarrow> DomainID \<Rightarrow> bool" where
  "nearest_memory t metric rpd cpu d \<longleftrightarrow> (\<exists>dd \<in> set (distanceRow (cpuToDomain t ! cpu) metric t).
     dd_domainId dd = d \<and> rpd ! unat d \<noteq> [] \<and>
     (\<forall>dd' \<in> set (distanceRow (cpuToDomain t ! cpu) metric t). metricOrder metric t dd' dd \<longrightarrow> rpd ! unat (dd_domainId dd') = []))"

lemma find_sorted:
  assumes "sorted_wrt R xs" "find P xs = Some x" "y \<in> set xs" "P y"
  shows "x = y \<or> R x y"
proof -
  obtain i where i: "i < length xs" "x = xs ! i" "\<forall>j < i. \<not> P (xs ! j)" using assms(2) by (auto simp: find_Some_iff)
  obtain j where j: "j < length xs" "y = xs ! j" using assms(3) by (metis in_set_conv_nth)
  then have "i \<le> j" using i(3) assms(4) by (metis not_le)
  then show ?thesis using sorted_wrt_nth_less [OF assms(1)] i j by (cases "i = j") simp_all
qed

lemma chooseDomain_spec:
  assumes ok: "topo_ok n t" and cpu: "cpu < length (cpuToDomain t)" "cpuToDomain t ! cpu \<noteq> noDomain" and rpd: "length rpd = n"
  shows "\<exists>d. chooseDomain t metric rpd fb cpu = Inr d \<and> (if \<forall>rs \<in> set rpd. rs = [] then d = fb else nearest_memory t metric rpd cpu d)"
proof -
  let ?h = "cpuToDomain t ! cpu"
  have n: "length (proximityDomains t) = n" "n \<le> 65535" using ok by (simp_all add: topo_ok_def cpu_map_ok_def)
  have h: "unat ?h < n" using ok cpu nth_mem [OF cpu(1)] unfolding topo_ok_def cpu_map_ok_def by blast
  obtain ds where ds: "domainsOrdered ?h metric t = Inr ds" "mset ds = mset (distanceRow ?h metric t)"
      "sorted_wrt (\<lambda>a b. \<not> metricOrder metric t b a) ds" "mset (map dd_domainId ds) = mset (map of_nat [0..<n])"
    using domainsOrdered_spec [OF ok h, of metric] by blast
  have ids: "dd_domainId ` set ds = of_nat ` {0..<n}" using arg_cong [OF ds(4), of set_mset] by simp
  have lt: "unat (dd_domainId dd) < n" if dd: "dd \<in> set ds" for dd
  proof -
    obtain k where "k < n" "dd_domainId dd = of_nat k" using ids dd by fastforce
    then show ?thesis using n(2) by (simp add: unat_of_nat_16)
  qed
  have nd: "dd_domainId dd \<noteq> noDomain" if "dd \<in> set ds" for dd using lt [OF that] n(2) by (auto simp: noDomain_def)
  have S: "set ds = set (distanceRow ?h metric t)" using arg_cong [OF ds(2), of set_mset] by simp
  have home: "domainForCpu cpu t = Inr (proximityDomains t ! unat ?h)" "pd_id (proximityDomains t ! unat ?h) = ?h"
    using cpu h n(1) ok by (simp_all add: domainForCpu_def topo_ok_def cpu_map_ok_def)
  have run: "chooseDomain t metric rpd fb cpu = Inr (case firstWithMemory rpd ds of Some dd \<Rightarrow> dd_domainId dd | None \<Rightarrow> fb)"
  proof -
    have "dd_domainId dd \<noteq> noDomain" if "firstWithMemory rpd ds = Some dd" for dd
      using that nd nth_mem by (auto simp: firstWithMemory_def find_Some_iff)
    then show ?thesis using home ds(1) nearestWithMemory_spec [of ds rpd] lt rpd
      by (cases "firstWithMemory rpd ds") (simp_all add: chooseDomain_def)
  qed
  show ?thesis
  proof (cases "firstWithMemory rpd ds")
    case None
    have "rs = []" if rs: "rs \<in> set rpd" for rs
    proof -
      obtain k where k: "k < n" "rs = rpd ! k" using rs rpd by (auto simp: in_set_conv_nth)
      then have "of_nat k \<in> dd_domainId ` set ds" unfolding ids by simp
      then obtain dd where "dd \<in> set ds" "dd_domainId dd = of_nat k" by auto
      then show ?thesis using None k n(2) by (auto simp: firstWithMemory_def find_None_iff unat_of_nat_16)
    qed
    then show ?thesis using run None by simp
  next
    case (Some dd)
    then have dd: "dd \<in> set ds" "rpd ! unat (dd_domainId dd) \<noteq> []" by (auto simp: firstWithMemory_def find_Some_iff)
    have "rpd ! unat (dd_domainId dd') = []" if d': "dd' \<in> set ds" "metricOrder metric t dd' dd" for dd'
    proof (rule ccontr)
      assume ne: "rpd ! unat (dd_domainId dd') \<noteq> []"
      have "dd = dd' \<or> \<not> metricOrder metric t dd' dd"
        using find_sorted [OF ds(3) Some [unfolded firstWithMemory_def] d'(1)] ne by simp
      moreover have "\<not> metricOrder metric t dd dd"
        by (simp add: metricOrder_def closerThan_def bandwidthBefore_def Let_def)
      ultimately show False using d'(2) by blast
    qed
    then have "nearest_memory t metric rpd cpu (dd_domainId dd)" unfolding nearest_memory_def using dd S by blast
    moreover have "\<exists>rs \<in> set rpd. rs \<noteq> []" using dd lt [OF dd(1)] rpd nth_mem by metis
    ultimately show ?thesis using run Some by auto
  qed
qed

lemma chooseDomains_spec:
  assumes "topo_ok n t" "length rpd = n" "\<forall>cpu \<in> set cpus. cpu < length (cpuToDomain t) \<and> cpuToDomain t ! cpu \<noteq> noDomain"
  shows "\<exists>ds. foldO (\<lambda>cpu part. bindO (chooseDomain t metric rpd fb cpu) (\<lambda>d. Inr (part\<lparr>processorDomain := processorDomain part @ [d]\<rparr>))) cpus part =
      Inr (part\<lparr>processorDomain := processorDomain part @ ds\<rparr>) \<and>
    list_all2 (\<lambda>cpu d. if \<forall>rs \<in> set rpd. rs = [] then d = fb else nearest_memory t metric rpd cpu d) cpus ds"
  using assms(3)
proof (induction cpus arbitrary: part)
  case Nil
  then show ?case by simp
next
  case (Cons c cpus)
  obtain d where d: "chooseDomain t metric rpd fb c = Inr d" "if \<forall>rs \<in> set rpd. rs = [] then d = fb else nearest_memory t metric rpd c d"
    using chooseDomain_spec [OF assms(1) _ _ assms(2), of c metric fb] Cons.prems by auto
  obtain ds where ds: "foldO (\<lambda>cpu part. bindO (chooseDomain t metric rpd fb cpu) (\<lambda>d. Inr (part\<lparr>processorDomain := processorDomain part @ [d]\<rparr>))) cpus
        (part\<lparr>processorDomain := processorDomain part @ [d]\<rparr>) = Inr (part\<lparr>processorDomain := (processorDomain part @ [d]) @ ds\<rparr>)"
      "list_all2 (\<lambda>cpu d. if \<forall>rs \<in> set rpd. rs = [] then d = fb else nearest_memory t metric rpd cpu d) cpus ds"
    using Cons.IH [of "part\<lparr>processorDomain := processorDomain part @ [d]\<rparr>"] Cons.prems by auto
  show ?case using d ds by (intro exI [of _ "d # ds"]) simp
qed

definition cpus_placed :: "nat \<Rightarrow> NUMATopology \<Rightarrow> bool" where
  "cpus_placed k t \<longleftrightarrow> k \<le> length (cpuToDomain t) \<and> (\<forall>c < k. cpuToDomain t ! c \<noteq> noDomain)"

lemma partition_spec:
  assumes ok: "topo_ok n t" "regions_aligned t" "cpus_placed k t"
  shows "\<exists>part. partitionMemoryByDomain rs k t metric = Inr part \<and> part_ok n part \<and> length (processorDomain part) = k \<and>
    (\<forall>l. (\<forall>d. l = Some d \<longrightarrow> unat d < n) \<longrightarrow>
       partAddrs part l = {a \<in> \<Union>r \<in> set rs. {fst (alignedBounds r)..<snd (alignedBounds r)}. labelOf t a = l}) \<and>
    (\<forall>c < k. if \<forall>rs \<in> set (rangesPerDomain part). rs = [] then processorDomain part ! c = noDomain
      else nearest_memory t metric (rangesPerDomain part) c (processorDomain part ! c))"
proof -
  let ?p0 = "\<lparr>rangesPerDomain = replicate (length (proximityDomains t)) [], unownedRanges = [], processorDomain = []\<rparr> :: NUMAMemoryPartition"
  have n: "length (proximityDomains t) = n" using ok(1) by (simp add: topo_ok_def cpu_map_ok_def)
  have p0: "part_ok n ?p0" "\<forall>l. (\<forall>d. l = Some d \<longrightarrow> unat d < n) \<longrightarrow> partAddrs ?p0 l = {}"
    using n by (auto simp: part_ok_def partAddrs_def rangeAddrs_def split: option.splits)
  obtain p1 where p1: "foldO (splitRange t) rs ?p0 = Inr p1" "grown t n ?p0 (\<Union>r \<in> set rs. {fst (alignedBounds r)..<snd (alignedBounds r)}) p1"
    using splitRanges_spec [OF ok(1,2) p0(1), of rs] by blast
  let ?rpd = "rangesPerDomain p1" and ?fb = "firstDomainWithMemory (rangesPerDomain p1)"
  have len: "length ?rpd = n" using grown_ok [OF p1(2)] by (simp add: part_ok_def)
  have pd: "processorDomain p1 = []" using p1(2) by (simp add: grown_def)
  have cpus: "\<forall>c \<in> set [0..<k]. c < length (cpuToDomain t) \<and> cpuToDomain t ! c \<noteq> noDomain" using ok(3) by (auto simp: cpus_placed_def)
  obtain ds where ds: "foldO (\<lambda>cpu part. bindO (chooseDomain t metric ?rpd ?fb cpu) (\<lambda>d. Inr (part\<lparr>processorDomain := processorDomain part @ [d]\<rparr>))) [0..<k] p1 =
      Inr (p1\<lparr>processorDomain := processorDomain p1 @ ds\<rparr>)"
      "list_all2 (\<lambda>cpu d. if \<forall>rs \<in> set ?rpd. rs = [] then d = ?fb else nearest_memory t metric ?rpd cpu d) [0..<k] ds"
    using chooseDomains_spec [OF ok(1) len cpus] by blast
  have fb: "?fb = noDomain" if "\<forall>rs \<in> set ?rpd. rs = []"
    using that by (auto simp: firstDomainWithMemory_def find_Some_iff split: option.splits)
  let ?p = "p1\<lparr>processorDomain := ds\<rparr>"
  have "partitionMemoryByDomain rs k t metric = Inr ?p" using p1(1) ds(1) pd by (simp add: partitionMemoryByDomain_def Let_def)
  moreover have "part_ok n ?p" using grown_ok [OF p1(2)] by (simp add: part_ok_def)
  moreover have "length ds = k" using ds(2) by (simp add: list_all2_lengthD [symmetric])
  moreover have "partAddrs ?p l = partAddrs p1 l" for l by (simp add: partAddrs_def split: option.split)
  moreover have "if \<forall>rs \<in> set ?rpd. rs = [] then ds ! c = noDomain else nearest_memory t metric ?rpd c (ds ! c)" if "c < k" for c
    using list_all2_nthD [OF ds(2), of c] fb that by (cases "\<forall>rs \<in> set ?rpd. rs = []") auto
  ultimately show ?thesis using p0(2) p1(2) by (intro exI [of _ ?p]) (simp add: grown_def)
qed

section \<open>Properties\<close>

text \<open>
  C29: for a well-formed topology whose regions start and end on page boundaries the partition is exact,
  address by address: a domain is given those whole pages of the usable ranges that lie in it, what
  lies in no domain becomes unowned memory, nothing is lost or given twice to different domains, and
  every range handed out is page aligned and not empty.
\<close>

theorem partition_exact:
  assumes "topo_ok n t" and "regions_aligned t" and "cpus_placed k t"
  shows "\<exists>part. partitionMemoryByDomain rs k t metric = Inr part \<and> part_ok n part \<and>
    rangeAddrs (unownedRanges part) = {a \<in> \<Union>r \<in> set rs. {fst (alignedBounds r)..<snd (alignedBounds r)}. domainForAddress a t = None} \<and>
    (\<forall>j < n. rangeAddrs (rangesPerDomain part ! j) =
       {a \<in> \<Union>r \<in> set rs. {fst (alignedBounds r)..<snd (alignedBounds r)}. domainForAddress a t = Some (proximityDomains t ! j)})"
proof -
  obtain part where p: "partitionMemoryByDomain rs k t metric = Inr part" "part_ok n part" "\<forall>l. (\<forall>d. l = Some d \<longrightarrow> unat d < n) \<longrightarrow>
      partAddrs part l = {a \<in> \<Union>r \<in> set rs. {fst (alignedBounds r)..<snd (alignedBounds r)}. labelOf t a = l}"
    using partition_spec [OF assms, of rs metric] by blast
  have ids: "pd_id (proximityDomains t ! j) = of_nat j" "unat (of_nat j :: 16 word) = j" if "j < n" for j
    using assms(1) that by (simp_all add: topo_ok_def cpu_map_ok_def unat_of_nat_16)
  have lab: "labelOf t a = Some (of_nat j) \<longleftrightarrow> domainForAddress a t = Some (proximityDomains t ! j)" if j: "j < n" for a j
  proof
    assume "labelOf t a = Some (of_nat j)"
    then obtain d where d: "domainForAddress a t = Some d" "pd_id d = of_nat j" by (auto simp: labelOf_def)
    obtain i where i: "i < n" "d = proximityDomains t ! i" using d(1) assms(1) by (auto simp: domainForAddress_def find_Some_iff topo_ok_def cpu_map_ok_def)
    then have "i = j" using d(2) ids [OF j] ids [of i] by metis
    then show "domainForAddress a t = Some (proximityDomains t ! j)" using d(1) i(2) by simp
  qed (use ids [OF j] in \<open>simp add: labelOf_def\<close>)
  have "rangeAddrs (rangesPerDomain part ! j) = {a \<in> \<Union>r \<in> set rs. {fst (alignedBounds r)..<snd (alignedBounds r)}. domainForAddress a t = Some (proximityDomains t ! j)}"
    if j: "j < n" for j
    using p(3) [rule_format, of "Some (of_nat j)"] ids [OF j] j by (simp add: partAddrs_def lab [OF j])
  moreover have "rangeAddrs (unownedRanges part) = {a \<in> \<Union>r \<in> set rs. {fst (alignedBounds r)..<snd (alignedBounds r)}. domainForAddress a t = None}"
    using p(3) [rule_format, of None] by (simp add: partAddrs_def labelOf_def)
  ultimately show ?thesis using p(1,2) by blast
qed

text \<open>
  Every processor is given a domain that has memory whenever some domain has, and none that its home
  domain prefers under the metric has any; only when no domain at all has memory is it the null domain.
\<close>

lemma processor_nearest_memory:
  assumes "topo_ok n t" and "regions_aligned t" and "cpus_placed k t"
  shows "\<exists>part. partitionMemoryByDomain rs k t metric = Inr part \<and> length (processorDomain part) = k \<and>
    (\<forall>c < k. if \<forall>rs \<in> set (rangesPerDomain part). rs = [] then processorDomain part ! c = noDomain
      else nearest_memory t metric (rangesPerDomain part) c (processorDomain part ! c))"
  using partition_spec [OF assms] by blast

text \<open>A machine with two domains, 8 KiB in the first and nothing in the second.\<close>

definition demo_topology :: NUMATopology where
  "demo_topology = emptyTopology\<lparr>
     proximityDomains := [(emptyDomain 0)\<lparr>pd_processors := [0],
         pd_memoryRegions := [\<lparr>mreg_range = \<lparr>rng_start = 0, rng_end = 8192\<rparr>, mreg_type = Volatile\<rparr>]\<rparr>,
       (emptyDomain 1)\<lparr>pd_processors := [1]\<rparr>],
     cpuToDomain := [0, 1], cpuToClockDomain := [0, 0]\<rparr>"

lemma demo_topology_ok: "topo_ok 2 demo_topology" "regions_aligned demo_topology" "cpus_placed 2 demo_topology"
proof -
  have "x < Suc (Suc 0) \<and> [0 :: 16 word, 1] ! x = of_nat k \<longleftrightarrow> x = k" if "k < 2" for x k
    using that by (cases x; cases "x - 1"; cases k) auto
  then show "topo_ok 2 demo_topology"
    by (auto simp: topo_ok_def cpu_map_ok_def mats_ok_def demo_topology_def emptyTopology_def emptyDomain_def less_2_cases_iff)
  show "regions_aligned demo_topology" by (simp add: regions_aligned_def demo_topology_def emptyDomain_def)
  show "cpus_placed 2 demo_topology" by (auto simp: cpus_placed_def demo_topology_def noDomain_def less_2_cases_iff)
qed

theorem partition_exact_witness:
  "\<exists>part. partitionMemoryByDomain [\<lparr>rng_start = 100, rng_end = 20000\<rparr>] 2 demo_topology Latency = Inr part \<and>
     rangeAddrs (rangesPerDomain part ! 0) = {4096..<8192} \<and> rangeAddrs (rangesPerDomain part ! 1) = {} \<and> rangeAddrs (unownedRanges part) = {8192..<16384}"
proof -
  have b: "alignedBounds \<lparr>rng_start = 100, rng_end = 20000\<rparr> = (4096, 16384)"
    by (simp add: alignedBounds_def roundUpToNearestMultiple_def roundDownToNearestMultiple_def divideAndRoundUp_def divideAndRoundDown_def smallPageSize_def)
  have d: "domainForAddress a demo_topology = (if a < 8192 then Some (proximityDomains demo_topology ! 0) else None)" for a
    by (simp add: domainForAddress_def demo_topology_def emptyDomain_def rng_contains_def rng_isEmpty_def)
  have ne: "proximityDomains demo_topology ! 0 \<noteq> proximityDomains demo_topology ! 1" by (simp add: demo_topology_def emptyDomain_def)
  obtain part where p: "partitionMemoryByDomain [\<lparr>rng_start = 100, rng_end = 20000\<rparr>] 2 demo_topology Latency = Inr part"
      "rangeAddrs (unownedRanges part) = {a \<in> {4096..<16384}. domainForAddress a demo_topology = None}"
      "\<forall>j < 2. rangeAddrs (rangesPerDomain part ! j) = {a \<in> {4096..<16384}. domainForAddress a demo_topology = Some (proximityDomains demo_topology ! j)}"
    using partition_exact [OF demo_topology_ok, of "[\<lparr>rng_start = 100, rng_end = 20000\<rparr>]" Latency] b by auto
  have "a < 8192 \<Longrightarrow> a < 16384" "8192 \<le> a \<Longrightarrow> 4096 \<le> a" for a :: u64 by (simp_all add: word_less_nat_alt word_le_nat_alt)
  then have "rangeAddrs (unownedRanges part) = {8192..<16384}" "rangeAddrs (rangesPerDomain part ! 0) = {4096..<8192}"
    unfolding p(2) p(3) [rule_format, of 0, simplified] d by (auto simp: not_less)
  moreover have "rangeAddrs (rangesPerDomain part ! 1) = {}" using p(3) [rule_format, of 1] ne by (simp add: d)
  ultimately show ?thesis using p(1) by blast
qed

end
