(* ===== verification/Page_Alloc_Create.thy ===== *)
theory Page_Alloc_Create
  imports Page_Alloc_Free Memory_Partition "HOL-Library.While_Combinator"
begin

text \<open>
  Construction of the page allocator and lookup in it: \<open>createPageAllocator\<close> establishes the invariant of
  allocation and freeing, and \<open>findMetadata\<close> finds exactly the pages of the domains' pools. Pages of the
  unowned pool are not in the table.
\<close>

section \<open>The nearest pool of each processor\<close>

lemma foldO_append: "foldO f (xs @ ys) s = bindO (foldO f xs s) (foldO f ys)"
  by (induction xs arbitrary: s) (auto split: sum.splits simp: bindO_def)

lemma fold_rows_upd:
  assumes "\<And>p row. p < n \<Longrightarrow> h p row = (if p < length row then Inr (row[p := g p]) else e)" "n \<le> length row"
  shows "foldO h [0..<n] row = Inr (map g [0..<n] @ drop n row)"
  using assms
proof (induction n)
  case (Suc n)
  have "map g [0..<n] @ drop n row = (map g [0..<n] @ [row ! n]) @ drop (Suc n) row" using Suc.prems(2) by (simp add: Cons_nth_drop_Suc)
  then have "(map g [0..<n] @ drop n row)[n := g n] = (map g [0..<n] @ [g n]) @ drop (Suc n) row"
    by (simp add: list_update_append)
  then show ?case using Suc by (simp add: foldO_append)
qed simp

definition orderFor :: "NUMAPolicy \<Rightarrow> nat \<Rightarrow> DomainID list" where
  "orderFor pol p = (case bindO (homeDomain p pol) (\<lambda>h. domainOrder h pol) of Inr ds \<Rightarrow> ds | Inl _ \<Rightarrow> [])"

lemma policy_order:
  assumes t: "topo_ok n t" "mkNUMAPolicy t = Inr pol" "p < length (cpuToDomain t)"
  shows "\<exists>h. homeDomain p pol = Inr h \<and> domainOrder h pol = Inr (orderFor pol p) \<and> unat ` set (orderFor pol p) = {..<n}"
proof -
  let ?h = "if cpuToDomain t ! p = noDomain then 0 else cpuToDomain t ! p"
  have n: "0 < n" "n \<le> 65535" using t(1) by (simp_all add: topo_ok_def)
  have P: "\<forall>d. unat d < n \<longrightarrow> (\<exists>ds. domainsOrdered d Latency t = Inr ds \<and> domainOrder d pol = Inr (map dd_domainId ds))" "homeDomain p pol = Inr ?h"
    using mkNUMAPolicy_spec [OF t(1)] t(2,3) by auto
  have h: "unat ?h < n" using t(1,3) nth_mem [OF t(3)] n(1) unfolding topo_ok_def cpu_map_ok_def by (cases "cpuToDomain t ! p = noDomain") auto
  obtain ds where ds: "domainsOrdered ?h Latency t = Inr ds" "domainOrder ?h pol = Inr (map dd_domainId ds)" using P(1) h by blast
  then have "mset (map dd_domainId ds) = mset (map of_nat [0..<n])" using domainsOrdered_spec [OF t(1) h, of Latency] by auto
  then have "set (map dd_domainId ds) = of_nat ` {..<n}" using mset_eq_setD by fastforce
  then have "unat ` set (map dd_domainId ds) = (\<lambda>i. unat (of_nat i :: 16 word)) ` {..<n}" by (simp add: image_image del: unat_of_nat)
  also have "\<dots> = {..<n}" using n(2) by (simp add: unat_of_nat_16)
  finally show ?thesis using P(2) ds(2) by (intro exI [of _ ?h]) (simp add: orderFor_def)
qed

lemma nearestTable_spec:
  assumes "topo_ok n t" "mkNUMAPolicy t = Inr pol" "pc \<le> length (cpuToDomain t)" "pc \<le> MAX_PROCESSOR_COUNT"
  shows "\<exists>row. nearestTable slots pol pc = Inr row \<and> pc \<le> length row \<and> (\<forall>p < pc. row ! p = nearestDomain slots (orderFor pol p))"
proof -
  let ?g = "\<lambda>p. nearestDomain slots (orderFor pol p)" and ?row = "replicate MAX_PROCESSOR_COUNT noDomain"
  have "nearestTable slots pol pc = Inr (map ?g [0..<pc] @ drop pc ?row)"
    unfolding nearestTable_def
  proof (rule fold_rows_upd)
    fix p row assume "p < pc"
    then obtain h where "homeDomain p pol = Inr h" "domainOrder h pol = Inr (orderFor pol p)" using policy_order [OF assms(1,2), of p] assms(3) by auto
    then show "bindO (homeDomain p pol) (\<lambda>home. bindO (domainOrder home pol) (\<lambda>order.
        if p < length row then Inr (row[p := nearestDomain slots order]) else Inl (Undefined ''out of bounds''))) =
      (if p < length row then Inr (row[p := ?g p]) else Inl (Undefined ''out of bounds''))" by simp
  qed (use assms(4) in simp)
  then show ?thesis by (intro exI [of _ "map ?g [0..<pc] @ drop pc ?row"]) (simp add: nth_append)
qed

lemma nearestDomain_spec:
  assumes "unat ` set order = {..<length slots}" "length slots \<le> MAX_PROCESSOR_COUNT"
  shows "if \<exists>s \<in> set slots. s \<noteq> None then nearestDomain slots order \<noteq> noDomain \<and> unat (nearestDomain slots order) < length slots \<and>
      slots ! unat (nearestDomain slots order) \<noteq> None else nearestDomain slots order = noDomain"
proof (cases "find (\<lambda>d. unat d < length slots \<and> slots ! unat d \<noteq> None) order")
  case None
  have "s = None" if s: "s \<in> set slots" for s
  proof -
    obtain i where i: "i < length slots" "slots ! i = s" using s by (auto simp: in_set_conv_nth)
    then obtain d where "d \<in> set order" "unat d = i" using assms(1) by (metis (no_types, lifting) imageE lessThan_iff)
    then show ?thesis using None i by (auto simp: find_None_iff)
  qed
  then show ?thesis using None by (auto simp: nearestDomain_def)
next
  case (Some d)
  then have d: "unat d < length slots" "slots ! unat d \<noteq> None" "d \<in> set order" by (auto simp: find_Some_iff)
  have "unat d < unat noDomain" using d(1) assms(2) by (simp add: noDomain_def MAX_PROCESSOR_COUNT_def)
  then have "d \<noteq> noDomain" by blast
  moreover have "\<exists>s \<in> set slots. s \<noteq> None" using d(1,2) by (metis nth_mem)
  ultimately show ?thesis using Some d by (simp add: nearestDomain_def)
qed

lemma singleDomain_spec:
  assumes "i < length slots" "slots ! i \<noteq> None" "\<forall>j < length slots. j \<noteq> i \<longrightarrow> slots ! j = None"
  shows "singleDomain slots None = Inr i"
proof -
  let ?f = "\<lambda>i s. if slots ! i \<noteq> None
    then bindO (assertO (s = length slots) ''createPageAllocator: more than one NUMAPool provided with null numaPolicy'') (\<lambda>_. Inr i) else Inr s"
  have "m \<le> length slots \<Longrightarrow> foldO ?f [0..<m] (length slots) = Inr (if i < m then i else length slots)" for m
  proof (induction m)
    case (Suc m)
    then have IH: "foldO ?f [0..<m] (length slots) = Inr (if i < m then i else length slots)" by simp
    show ?case
    proof (cases "m = i")
      case True
      then show ?thesis using IH assms(2) by (simp add: foldO_append)
    next
      case False
      then have "slots ! m = None" using assms(3) Suc.prems by simp
      then show ?thesis using IH False by (auto simp: foldO_append)
    qed
  qed simp
  from this [of "length slots"] have "foldO ?f [0..<length slots] (length slots) = Inr i" using assms(1) by simp
  then show ?thesis using assms(1) by (simp add: singleDomain_def)
qed

section \<open>Construction establishes the invariant\<close>

text \<open>
  What the caller provides: without a policy exactly one pool; with one, the policy of a topology that has a
  domain for every slot and covers the processors, and at least one pool.
\<close>

definition good_policy :: "nat option list \<Rightarrow> nat \<Rightarrow> nat option \<Rightarrow> NUMAPolicy option \<Rightarrow> bool" where
  "good_policy slots pc unowned policy \<longleftrightarrow> (case policy of
     None \<Rightarrow> unowned = None \<and> (\<exists>i < length slots. slots ! i \<noteq> None \<and> (\<forall>j < length slots. j \<noteq> i \<longrightarrow> slots ! j = None))
   | Some pol \<Rightarrow> (\<exists>t. topo_ok (length slots) t \<and> mkNUMAPolicy t = Inr pol \<and> pc \<le> length (cpuToDomain t)) \<and>
       (unowned \<noteq> None \<or> (\<exists>s \<in> set slots. s \<noteq> None)))"

definition fresh_locals :: "NUMAPool list \<Rightarrow> LocalPool list \<Rightarrow> bool" where
  "fresh_locals ps locals \<longleftrightarrow> (\<forall>i < length locals. \<exists>topo hp. locals ! i = mkLocalPool topo hp i \<and> (\<forall>t. topo = Some t \<longrightarrow> serves ps i t))"

lemma nearestPool_slot:
  assumes "p < length (cpuNearestPool a)" "cpuNearestPool a ! p = d" "d \<noteq> noDomain" "unat d < length (numaPools a)" "numaPools a ! unat d = Some k"
  shows "nearestPool p a = Inr k"
  using assms by (simp add: nearestPool_def deref_def)

definition slots_for :: "PageAllocatorImpl \<Rightarrow> bool" where
  "slots_for a \<longleftrightarrow> length (numaPools a) \<le> MAX_PROCESSOR_COUNT \<and> (\<forall>k. Some k \<in> insert (unownedPool a) (set (numaPools a)) \<longleftrightarrow> k < length (pa_pools a))"

lemma wired_single:
  assumes a: "slots_for a" "numaPolicy a = None" "unownedPool a = None"
    and i: "i < length (numaPools a)" "numaPools a ! i \<noteq> None" "\<forall>j < length (numaPools a). j \<noteq> i \<longrightarrow> numaPools a ! j = None"
    and p: "p < length (cpuNearestPool a)" "cpuNearestPool a ! p = of_nat i"
  shows "wired p a" "covers p a"
proof -
  obtain k where k: "numaPools a ! i = Some k" using i(2) by auto
  have "i < 65535" using a(1) i(1) by (simp add: slots_for_def MAX_PROCESSOR_COUNT_def)
  then have u: "unat (of_nat i :: 16 word) = i" "(of_nat i :: 16 word) \<noteq> noDomain"
    by (auto simp: unat_of_nat_16 noDomain_def word_unat_eq_iff)
  have n: "nearestPool p a = Inr k" using nearestPool_slot [OF p u(2)] u(1) i(1) k by simp
  have "Some k \<in> set (numaPools a)" using i(1) k nth_mem by metis
  then have "k < length (pa_pools a)" using a(1) by (auto simp: slots_for_def)
  then show "wired p a" using a n by (auto simp: wired_def slots_for_def)
  have "j = i" if "j < length (numaPools a)" "numaPools a ! j = Some k'" for j k' using i(3) that by fastforce
  then have "k' = k" if "Some k' \<in> set (numaPools a)" for k' using that k by (auto simp: in_set_conv_nth)
  then show "covers p a" using a n by (simp add: covers_def slots_for_def)
qed

lemma wired_policy:
  assumes a: "slots_for a" "numaPolicy a = Some pol" "topo_ok (length (numaPools a)) t" "mkNUMAPolicy t = Inr pol" "p < length (cpuToDomain t)"
    and some: "unownedPool a \<noteq> None \<or> (\<exists>s \<in> set (numaPools a). s \<noteq> None)"
    and p: "p < length (cpuNearestPool a)" "cpuNearestPool a ! p = nearestDomain (numaPools a) (orderFor pol p)"
  shows "wired p a" "covers p a"
proof -
  let ?d = "nearestDomain (numaPools a) (orderFor pol p)"
  obtain h where h: "homeDomain p pol = Inr h" "domainOrder h pol = Inr (orderFor pol p)" "unat ` set (orderFor pol p) = {..<length (numaPools a)}"
    using policy_order [OF a(3-5)] by blast
  have D: "if \<exists>s \<in> set (numaPools a). s \<noteq> None then ?d \<noteq> noDomain \<and> unat ?d < length (numaPools a) \<and> numaPools a ! unat ?d \<noteq> None
      else ?d = noDomain"
    by (rule nearestDomain_spec [OF h(3)]) (use a(1) in \<open>simp add: slots_for_def\<close>)
  have "\<exists>k. nearestPool p a = Inr k \<and> k < length (pa_pools a)"
  proof (cases "\<exists>s \<in> set (numaPools a). s \<noteq> None")
    case True
    then obtain k where k: "numaPools a ! unat ?d = Some k" "?d \<noteq> noDomain" "unat ?d < length (numaPools a)" using D by auto
    then have "Some k \<in> set (numaPools a)" by (metis nth_mem)
    then show ?thesis using nearestPool_slot [OF p k(2,3,1)] a(1) by (auto simp: slots_for_def)
  next
    case False
    then obtain k where "unownedPool a = Some k" using some by auto
    moreover have "?d = noDomain" using D False by simp
    ultimately show ?thesis using a(1) p by (auto simp: nearestPool_def deref_def slots_for_def)
  qed
  moreover have "unat d < length (numaPools a)" if "d \<in> set (orderFor pol p)" for d using h(3) that by blast
  ultimately show "wired p a" using a(1,2) h by (simp add: wired_def slots_for_def)
  have "\<exists>d \<in> set (orderFor pol p). unat d = i" if "i < length (numaPools a)" for i using h(3) that by (metis (no_types, lifting) imageE lessThan_iff)
  then show "covers p a" using a(1,2) h by (simp add: covers_def slots_for_def)
qed

lemma createPageAllocator_run:
  assumes g: "good_slots ps slots" and len: "length slots \<le> MAX_PROCESSOR_COUNT" "length locals \<le> MAX_PROCESSOR_COUNT"
    and u: "\<forall>k. Some k \<in> insert unowned (set slots) \<longleftrightarrow> k < length ps" and pol: "good_policy slots (length locals) unowned policy"
  shows "\<exists>t row. createPageAllocator ps slots locals (length locals) unowned policy =
      Inr \<lparr>pa_pools = ps, numaPools = slots, localPools = locals, domainTable = t, unownedPool = unowned, numaPolicy = policy, cpuNearestPool = row\<rparr> \<and>
    mset t = mset (entriesOf ps slots) \<and> sorted_wrt (\<lambda>x y. nde_start x \<le> nde_start y) t \<and>
    (\<forall>p < length locals. wired p \<lparr>pa_pools = ps, numaPools = slots, localPools = locals, domainTable = t, unownedPool = unowned, numaPolicy = policy, cpuNearestPool = row\<rparr> \<and>
      covers p \<lparr>pa_pools = ps, numaPools = slots, localPools = locals, domainTable = t, unownedPool = unowned, numaPolicy = policy, cpuNearestPool = row\<rparr>)"
proof -
  obtain t where t: "buildDomainTable ps slots = Inr t" "mset t = mset (entriesOf ps slots)" "sorted_wrt (\<lambda>x y. nde_start x \<le> nde_start y) t"
    using buildDomainTable_spec [of slots ps] g by (auto simp: good_slots_def)
  let ?pc = "length locals"
  let ?a = "\<lambda>row. \<lparr>pa_pools = ps, numaPools = slots, localPools = locals, domainTable = t, unownedPool = unowned, numaPolicy = policy, cpuNearestPool = row\<rparr>"
  have sf: "slots_for (?a row)" for row using len(1) u by (simp add: slots_for_def)
  show ?thesis
  proof (cases policy)
    case None
    then obtain i where i: "unowned = None" "i < length slots" "slots ! i \<noteq> None" "\<forall>j < length slots. j \<noteq> i \<longrightarrow> slots ! j = None"
      using pol by (auto simp: good_policy_def)
    let ?row = "replicate ?pc (of_nat i) @ replicate (MAX_PROCESSOR_COUNT - ?pc) noDomain"
    have run: "createPageAllocator ps slots locals ?pc unowned policy = Inr (?a ?row)"
      using None i(1) len t(1) singleDomain_spec [OF i(2-4)] by (simp add: createPageAllocator_def)
    have "wired p (?a ?row)" "covers p (?a ?row)" if "p < ?pc" for p
      by (rule wired_single [OF sf, of _ i]; use None i that in \<open>simp add: nth_append\<close>)+
    then show ?thesis using run t(2,3) by blast
  next
    case (Some pl)
    then obtain tp where tp: "topo_ok (length slots) tp" "mkNUMAPolicy tp = Inr pl" "?pc \<le> length (cpuToDomain tp)"
        "unowned \<noteq> None \<or> (\<exists>s \<in> set slots. s \<noteq> None)"
      using pol by (auto simp: good_policy_def)
    obtain row where row: "nearestTable slots pl ?pc = Inr row" "?pc \<le> length row" "\<forall>p < ?pc. row ! p = nearestDomain slots (orderFor pl p)"
      using nearestTable_spec [OF tp(1-3) len(2)] by blast
    have run: "createPageAllocator ps slots locals ?pc unowned policy = Inr (?a row)"
      using Some len t(1) row(1) by (simp add: createPageAllocator_def)
    have "wired p (?a row)" "covers p (?a row)" if "p < ?pc" for p
      by (rule wired_policy [OF sf, of _ pl tp]; use Some tp that row in simp)+
    then show ?thesis using run t(2,3) by blast
  qed
qed

lemma fresh_lp:
  "lp_ok ps (mkLocalPool topo hp i)" "lp_pages (mkLocalPool topo hp i) = {}" "lp_pid (mkLocalPool topo hp i) = i" "lp_topology (mkLocalPool topo hp i) = topo"
  by (simp_all add: mkLocalPool_def lp_ok_def lp_shape_def lp_pages_def holds_def)

lemma create_ok:
  assumes "world c {} L S ps" and "good_slots ps slots" and "length slots \<le> MAX_PROCESSOR_COUNT" and "length locals \<le> MAX_PROCESSOR_COUNT"
    and "\<forall>k. Some k \<in> insert unowned (set slots) \<longleftrightarrow> k < length ps" and "good_policy slots (length locals) unowned policy" and "fresh_locals ps locals"
  shows "\<exists>a. createPageAllocator ps slots locals (length locals) unowned policy = Inr a \<and> pa_inv c L S a \<and> table_ok a \<and>
    pa_pools a = ps \<and> localPools a = locals \<and> numaPools a = slots \<and> unownedPool a = unowned \<and> allCaches a = {} \<and> numaPolicy a = policy"
proof -
  obtain t row where c: "createPageAllocator ps slots locals (length locals) unowned policy =
      Inr \<lparr>pa_pools = ps, numaPools = slots, localPools = locals, domainTable = t, unownedPool = unowned, numaPolicy = policy, cpuNearestPool = row\<rparr>"
      "mset t = mset (entriesOf ps slots)" "sorted_wrt (\<lambda>x y. nde_start x \<le> nde_start y) t"
      "\<forall>p < length locals. wired p \<lparr>pa_pools = ps, numaPools = slots, localPools = locals, domainTable = t, unownedPool = unowned, numaPolicy = policy, cpuNearestPool = row\<rparr> \<and>
        covers p \<lparr>pa_pools = ps, numaPools = slots, localPools = locals, domainTable = t, unownedPool = unowned, numaPolicy = policy, cpuNearestPool = row\<rparr>"
    using createPageAllocator_run [OF assms(2-6)] by blast
  let ?a = "\<lparr>pa_pools = ps, numaPools = slots, localPools = locals, domainTable = t, unownedPool = unowned, numaPolicy = policy, cpuNearestPool = row\<rparr>"
  have lp: "lp_ok ps (locals ! i) \<and> lp_pages (locals ! i) = {} \<and> req_ok ps (locals ! i) i" if "i < length locals" for i
  proof -
    obtain topo hp where "locals ! i = mkLocalPool topo hp i" "\<forall>t. topo = Some t \<longrightarrow> serves ps i t" using assms(7) \<open>i < length locals\<close> by (auto simp: fresh_locals_def)
    moreover have "i \<noteq> SIZE_MAX" using that assms(4) by (simp add: SIZE_MAX_def MAX_PROCESSOR_COUNT_def)
    ultimately show ?thesis using fresh_lp by (simp add: req_ok_def lp_serves_def)
  qed
  have e: "allCaches ?a = {}" using lp by (auto simp: allCaches_def in_set_conv_nth)
  have "pa_inv c L S ?a" unfolding pa_inv_def e using assms(1) c(4) lp by simp
  moreover have "table_ok ?a" unfolding table_ok_def ownedPools_def
    using table_for_built [OF assms(1,2) c(2,3)] assms(2) by (auto simp: good_slots_def)
  ultimately show ?thesis using c(1) e by (intro exI [of _ ?a]) simp
qed

section \<open>Lookup by address\<close>

text \<open>The binary search as the loop of the source: \<open>while (lo < hi)\<close> with a return from its body.\<close>

definition searchStep :: "phys_addr \<Rightarrow> NUMADomainEntry list \<Rightarrow> nat \<times> nat \<times> nat option \<Rightarrow> nat \<times> nat \<times> nat option" where
  "searchStep addr table s = (case s of (lo, hi, _) \<Rightarrow>
     let mid = lo + (hi - lo) div 2
     in if addr < nde_start (table ! mid) then (lo, mid, None)
        else if nde_end (table ! mid) \<le> addr then (mid + 1, hi, None)
        else (lo, hi, Some mid))"

definition searchLoop :: "phys_addr \<Rightarrow> NUMADomainEntry list \<Rightarrow> nat \<times> nat \<times> nat option \<Rightarrow> (nat \<times> nat \<times> nat option) option" where
  "searchLoop addr table = while_option (\<lambda>(lo, hi, found). found = None \<and> lo < hi) (searchStep addr table)"

lemma searchLoop_tableSearch: "\<exists>lo' hi'. searchLoop addr table (lo, hi, None) = Some (lo', hi', tableSearch addr table lo hi)"
proof (induction addr table lo hi rule: tableSearch.induct)
  case (1 addr table lo hi)
  let ?b = "\<lambda>(lo, hi, found). found = None \<and> lo < hi" and ?mid = "lo + (hi - lo) div 2"
  have unf: "searchLoop addr table s = (if ?b s then searchLoop addr table (searchStep addr table s) else Some s)" for s
    unfolding searchLoop_def by (rule while_option_unfold)
  show ?case
  proof (cases "lo < hi")
    case False
    then show ?thesis by (simp add: unf [of "(lo, hi, None)"] tableSearch.simps [of addr table lo hi])
  next
    case True
    have "searchLoop addr table (lo, hi, Some m) = Some (lo, hi, Some m)" for m by (simp add: unf [of "(lo, hi, Some m)"])
    then show ?thesis using 1 True by (simp add: unf [of "(lo, hi, None)"] tableSearch.simps [of addr table lo hi] searchStep_def Let_def)
  qed
qed

lemma tableSearch_sound:
  "tableSearch addr table lo hi = Some m \<longrightarrow> lo \<le> m \<and> m < hi \<and> nde_start (table ! m) \<le> addr \<and> addr < nde_end (table ! m)"
proof (induction addr table lo hi rule: tableSearch.induct)
  case (1 addr table lo hi)
  show ?case
  proof (cases "lo < hi")
    case True
    let ?mid = "lo + (hi - lo) div 2"
    have mid: "lo \<le> ?mid" "?mid < hi" using True by (simp_all add: div_less_dividend less_diff_conv2 [symmetric])
    show ?thesis using 1 [OF True refl] mid True
      by (simp add: tableSearch.simps [of addr table lo hi] Let_def not_less not_le split: if_splits) force
  qed (simp add: tableSearch.simps [of addr table lo hi])
qed

lemma tableSearch_spec:
  assumes "sorted_wrt (\<lambda>x y. nde_end x \<le> nde_start y) table" "\<forall>e \<in> set table. nde_start e < nde_end e" "hi \<le> length table"
  shows "tableSearch addr table lo hi = Some m \<longleftrightarrow> lo \<le> m \<and> m < hi \<and> nde_start (table ! m) \<le> addr \<and> addr < nde_end (table ! m)"
  using assms
proof (induction addr table lo hi rule: tableSearch.induct)
  case (1 addr table lo hi)
  let ?mid = "lo + (hi - lo) div 2"
  have srt: "nde_end (table ! i) \<le> nde_start (table ! j)" if "i < j" "j < length table" for i j
    using 1(3) that by (auto simp: sorted_wrt_iff_nth_less)
  have ne: "nde_start (table ! i) < nde_end (table ! i)" if "i < length table" for i using 1(4) that by simp
  have mono: "nde_start (table ! i) \<le> nde_start (table ! j)" "nde_end (table ! i) \<le> nde_end (table ! j)" if "i \<le> j" "j < length table" for i j
    using srt [of i j] ne [of i] ne [of j] that by (cases "i = j"; fastforce)+
  show ?case
  proof (cases "lo < hi")
    case False
    then show ?thesis by (simp add: tableSearch.simps [of addr table lo hi])
  next
    case True
    then have mid: "lo \<le> ?mid" "?mid < hi" by simp_all
    then have ml: "?mid < length table" using 1(5) by simp
    consider (left) "addr < nde_start (table ! ?mid)" | (right) "\<not> addr < nde_start (table ! ?mid)" "nde_end (table ! ?mid) \<le> addr"
      | (here) "\<not> addr < nde_start (table ! ?mid)" "\<not> nde_end (table ! ?mid) \<le> addr" by blast
    then show ?thesis
    proof cases
      case left
      have "m < ?mid" if "nde_start (table ! m) \<le> addr" "m < hi"
        proof (rule ccontr)
        assume "\<not> m < ?mid"
        then have "nde_start (table ! ?mid) \<le> nde_start (table ! m)" using mono(1) [of ?mid m] that(2) 1(5) by simp
        then show False using order_trans [OF _ that(1)] left by (simp add: not_le [symmetric])
      qed
      then show ?thesis using 1(1) [OF True refl left] 1(3-5) True left mid by (auto simp: Let_def tableSearch.simps [of addr table lo hi])
    next
      case right
      have "?mid + 1 \<le> m" if "addr < nde_end (table ! m)"
        proof (rule ccontr)
        assume "\<not> ?mid + 1 \<le> m"
        then have "nde_end (table ! m) \<le> nde_end (table ! ?mid)" using mono(2) [of m ?mid] ml by simp
        then show False using order_trans [OF _ right(2)] that by (simp add: not_le [symmetric])
      qed
      then show ?thesis using 1(2) [OF True refl right] 1(3-5) True right mid by (auto simp: Let_def tableSearch.simps [of addr table lo hi])
    next
      case here
      have "m = ?mid" if "nde_start (table ! m) \<le> addr" "addr < nde_end (table ! m)" "m < hi"
        proof (rule ccontr)
        assume "m \<noteq> ?mid"
        then consider "m < ?mid" | "?mid < m" by linarith
        then show False
        proof cases
          assume "m < ?mid"
          then show False using order_trans [OF srt [OF _ ml], of m] here(1) that(2) by (simp add: not_less not_le [symmetric])
        next
          assume "?mid < m"
          then show False using order_trans [OF srt [of ?mid m] that(1)] here(2) that(3) 1(5) by simp
        qed
      qed
      then show ?thesis using True here mid by (auto simp: Let_def not_less not_le tableSearch.simps [of addr table lo hi])
    qed
  qed
qed

lemma findMetadata_iff:
  assumes I: "pa_inv c L S a" and t: "table_ok a"
  shows "pa_findMetadata addr a = Some (k, i) \<longleftrightarrow> k \<in> ownedPools a \<and> i < bigPageCount (pa_pools a ! k) \<and> bigPageBase addr = bpm_base (metaAt (pa_pools a ! k) i)"
proof -
  let ?t = "domainTable a" and ?ps = "pa_pools a"
  have w: "world c (allCaches a) L S ?ps" using I by (simp add: pa_inv_def)
  have T: "sorted_wrt (\<lambda>x y. nde_end x \<le> nde_start y) ?t" "\<forall>e \<in> set ?t. nde_start e < nde_end e" using t by (simp_all add: table_ok_def table_for_def)
  have E: "\<forall>k \<in> ownedPools a. \<forall>sr \<in> set (subrangeInfo (?ps ! k)). \<lparr>nde_start = rangeStart sr, nde_end = rangeEnd sr, nde_pool = k\<rparr> \<in> set ?t"
    "\<forall>e \<in> set ?t. \<exists>k \<in> ownedPools a. \<exists>sr \<in> set (subrangeInfo (?ps ! k)). e = \<lparr>nde_start = rangeStart sr, nde_end = rangeEnd sr, nde_pool = k\<rparr>"
    using t unfolding table_ok_def table_for_def by blast+
  have K: "k < length ?ps" "srs_ok (?ps ! k)" if "k \<in> ownedPools a" for k using t that by (auto simp: table_ok_def)
  have P: "findMetadata addr (?ps ! k) = Some i \<longleftrightarrow> i < bigPageCount (?ps ! k) \<and> bigPageBase addr = bpm_base (metaAt (?ps ! k) i)" if "k \<in> ownedPools a" for k i
    by (rule find_metadata_exact [OF worldD(1) [OF w K(1) [OF that]] K(2) [OF that]])
  note S = tableSearch_spec [OF T order_refl, of addr 0]
  show ?thesis
  proof
    assume f: "pa_findMetadata addr a = Some (k, i)"
    then obtain m where m: "tableSearch addr ?t 0 (length ?t) = Some m" "nde_pool (?t ! m) = k" "findMetadata addr (?ps ! k) = Some i"
      by (auto simp: pa_findMetadata_def Let_def split: option.splits)
    then have "?t ! m \<in> set ?t" using S [of m] by simp
    then have "k \<in> ownedPools a" using E(2) m(2) by force
    then show "k \<in> ownedPools a \<and> i < bigPageCount (?ps ! k) \<and> bigPageBase addr = bpm_base (metaAt (?ps ! k) i)" using P m(3) by simp
  next
    assume h: "k \<in> ownedPools a \<and> i < bigPageCount (?ps ! k) \<and> bigPageBase addr = bpm_base (metaAt (?ps ! k) i)"
    obtain sr where sr: "sr \<in> set (subrangeInfo (?ps ! k))" "rangeStart sr \<le> addr" "addr < rangeEnd sr" using pool_entry [of "?ps ! k" i addr] K h by blast
    then obtain m where m: "m < length ?t" "?t ! m = \<lparr>nde_start = rangeStart sr, nde_end = rangeEnd sr, nde_pool = k\<rparr>"
      using E(1) h by (metis in_set_conv_nth)
    then have "tableSearch addr ?t 0 (length ?t) = Some m" using S [of m] sr by simp
    moreover have "findMetadata addr (?ps ! k) = Some i" using P h by simp
    ultimately show "pa_findMetadata addr a = Some (k, i)" using m(2) by (simp add: pa_findMetadata_def)
  qed
qed

section \<open>The unowned pool\<close>

lemma unowned_entry:
  assumes I: "pa_inv c L S a" and t: "table_ok a" and u: "u < length (pa_pools a)" "u \<notin> ownedPools a"
    and r: "inPool (pa_pools a ! u) r" and e: "e \<in> set (domainTable a)"
  shows "\<not> (nde_start e \<le> pr_addr r \<and> pr_addr r < nde_end e)"
proof
  let ?ps = "pa_pools a"
  assume in': "nde_start e \<le> pr_addr r \<and> pr_addr r < nde_end e"
  have w: "world c (allCaches a) L S ?ps" using I by (simp add: pa_inv_def)
  obtain k sr where k: "k \<in> ownedPools a" "sr \<in> set (subrangeInfo (?ps ! k))" "e = \<lparr>nde_start = rangeStart sr, nde_end = rangeEnd sr, nde_pool = k\<rparr>"
    using t e unfolding table_ok_def table_for_def by blast
  then have kl: "k < length ?ps" "srs_ok (?ps ! k)" "k \<noteq> u" using t u(2) by (auto simp: table_ok_def)
  obtain i where i: "i < bigPageCount (?ps ! u)" "bigPageBase (pr_addr r) = bpm_base (metaAt (?ps ! u) i)" using r by (auto simp: inPool_def)
  have "2097152 dvd unat (rangeStart sr)" "2097152 dvd unat (rangeEnd sr)" using kl(2) k(2) unfolding srs_ok_def by blast+
  then obtain x y where xy: "unat (rangeStart sr) = 2097152 * x" "unat (rangeEnd sr) = 2097152 * y" by (auto elim!: dvdE)
  let ?q = "unat (pr_addr r) div 2097152"
  have b: "unat (bpm_base (metaAt (?ps ! u) i)) = ?q * 2097152" using i(2) unat_bigPageBase [of "pr_addr r"] by simp
  have "2097152 * x \<le> unat (pr_addr r)" "unat (pr_addr r) < 2097152 * y" using in' k(3) xy by (simp_all add: word_le_nat_alt word_less_nat_alt)
  then have "x \<le> ?q" "?q < y" by (auto simp: div_less_iff_less_mult mult.commute less_eq_div_iff_mult_less_eq)
  then obtain i' where "i' < bigPageCount (?ps ! k)" "unat (bpm_base (metaAt (?ps ! k) i')) = ?q * 2097152"
    using subrange_page [OF kl(2) k(2), of "?q * 2097152"] xy by auto
  then show False using worldD(3) [OF w kl(1) u(1) kl(3) _ i(1), of i'] b by (simp add: word_unat_eq_iff)
qed

lemma freeWalk_none:
  assumes "\<forall>r \<in> set rest. \<forall>e \<in> set t. \<not> (nde_start e \<le> pr_addr r \<and> pr_addr r < nde_end e)"
  shows "freeWalk t None run rest ps = Inr ps"
  using assms
proof (induction rest arbitrary: t run)
  case Nil
  then show ?case by (simp add: flushPool_def)
next
  case (Cons r rest)
  let ?t = "dropWhile (\<lambda>e. nde_end e \<le> pr_addr r) t"
  have "(case ?t of e # _ \<Rightarrow> if nde_start e \<le> pr_addr r then Some (nde_pool e) else None | [] \<Rightarrow> None) = None"
  proof (cases ?t)
    case (Cons e es)
    then have "e \<in> set t" "\<not> nde_end e \<le> pr_addr r" using set_dropWhileD [of e "\<lambda>e. nde_end e \<le> pr_addr r" t] hd_dropWhile [of "\<lambda>e. nde_end e \<le> pr_addr r" t] by auto
    then have "\<not> nde_start e \<le> pr_addr r" using Cons.prems by auto
    then show ?thesis using Cons by simp
  next
    case Nil
    then show ?thesis by (simp only: list.case)
  qed
  moreover have "freeWalk ?t None (run @ [r]) rest ps = Inr ps" by (rule Cons.IH) (use Cons.prems set_dropWhileD [of _ _ t] in fastforce)
  ultimately show ?case unfolding freeWalk.simps Let_def by simp
qed

end
