(* ===== verification/Page_Alloc_Domain.thy ===== *)
theory Page_Alloc_Domain
  imports Page_Alloc_Correct
begin

text \<open>
  Requests for a given domain or processor: \<open>allocatePages\<close> with a target. They bypass the caches; a big page
  that is only partly used goes back to its pool.
\<close>

section \<open>One pool\<close>

text \<open>The request is followed with an empty cache in the place of the processor's.\<close>

abbreviation noCache :: LocalPool where
  "noCache \<equiv> mkLocalPool None None 0"

lemma noCache_simps [simp]: "lp_pages noCache = {}" "lp_ok ps noCache"
  by (simp_all add: mkLocalPool_def lp_pages_def lp_ok_def lp_shape_def holds_def)

lemma allocFromPool_spec:
  assumes I: "req_inv c X ps0 L0 noCache n (noCache, st)" and cpu: "cpu \<noteq> SIZE_MAX" and k: "k < length ps0" and n: "n + 511 < 2 ^ 64"
  shows "\<exists>st'. allocFromPool cpu f k st = Inr st' \<and> req_inv c X ps0 L0 noCache n (noCache, st') \<and> proceeds X n f {k} (noCache, st) (noCache, st')"
proof (cases "lo_count st = 0")
  case True
  then show ?thesis using I by (intro exI [of _ st]) (simp add: allocFromPool_def proceeds_def)
next
  case False
  let ?ps = "lo_pools st" and ?m = "lo_count st"
  obtain L S where L: "world c X L S ?ps" "took ps0 L0 (lo_out st) ?ps L" using I by (auto simp: req_inv_def)
  have kl: "k < length ?ps" and m: "?m + 511 < 2 ^ 64" using k n I took_length [OF L(2)] by (auto simp: req_inv_def)
  obtain al L1 S1 where a: "np_allocatePages cpu ?m f (?ps ! k) = Inr al" "world c (X \<union> extraPage k al) L1 S1 (?ps[k := al_pool al])"
      "took ?ps L (al_out al) (?ps[k := al_pool al]) L1" "totalPages (al_out al) = allocatedPages al" "kept X ?ps (?ps[k := al_pool al])"
      "\<forall>q \<in> extraPage k al. q \<notin> X \<and> ?m \<le> allocatedPages al"
      "\<not> flags_has f BIG_PAGE_ONLY \<longrightarrow> allocatedPages al \<le> ?m \<and> (allocatedPages al < ?m \<longrightarrow> extraPage k al = {} \<and> drained X (?ps[k := al_pool al]) {k})"
    using pool_alloc_step [OF L(1) kl cpu m, of f] by blast
  let ?st1 = "tookFrom k al st"
  have "\<exists>ps' S'. (case paPageRemaining al of None \<Rightarrow> Inr ?st1
      | Some i \<Rightarrow> bindO (returnPtr (k, i) False (lo_pools ?st1)) (\<lambda>ps. Inr (?st1\<lparr>lo_pools := ps\<rparr>))) = Inr (?st1\<lparr>lo_pools := ps'\<rparr>) \<and>
    world c X L1 S' ps' \<and> took (lo_pools ?st1) L1 [] ps' L1 \<and> kept X ?ps ps' \<and> (extraPage k al = {} \<longrightarrow> ps' = ?ps[k := al_pool al])"
  proof (cases "paPageRemaining al")
    case None
    then show ?thesis using a(2,5) took_refl [of "lo_pools ?st1" L1]
      by (intro exI [of _ "?ps[k := al_pool al]"] exI [of _ S1]) (simp add: extraPage_def tookFrom_def)
  next
    case (Some i)
    then have e: "extraPage k al = {(k, i)}" by (simp add: extraPage_def)
    have w: "world c (insert (k, i) X) L1 S1 (lo_pools ?st1)" "(k, i) \<notin> X" using a(2,6) e by simp_all
    obtain ps' S' where r: "returnPtr (k, i) False (lo_pools ?st1) = Inr ps'" "world c X L1 S' ps'" "took (lo_pools ?st1) L1 [] ps' L1"
        "others_kept (k, i) (lo_pools ?st1) ps'" using returnPtr_spec [OF w, of False] by blast
    have "\<forall>r \<in> X. fst r < length (lo_pools ?st1)" using w(1) by (auto simp: world_def)
    then have "kept X ?ps ps'" using kept_trans [of X ?ps "lo_pools ?st1" ps'] a(5) kept_others [OF r(4) w(2)] by simp
    then show ?thesis using Some r e by (intro exI [of _ ps'] exI [of _ S']) simp
  qed
  then obtain ps' S' where p: "(case paPageRemaining al of None \<Rightarrow> Inr ?st1
      | Some i \<Rightarrow> bindO (returnPtr (k, i) False (lo_pools ?st1)) (\<lambda>ps. Inr (?st1\<lparr>lo_pools := ps\<rparr>))) = Inr (?st1\<lparr>lo_pools := ps'\<rparr>)"
    "world c X L1 S' ps'" "took (lo_pools ?st1) L1 [] ps' L1" "kept X ?ps ps'" "extraPage k al = {} \<longrightarrow> ps' = ?ps[k := al_pool al]" by blast
  let ?st2 = "?st1\<lparr>lo_pools := ps'\<rparr>"
  have run: "allocFromPool cpu f k st = Inr ?st2" using False kl a(1) p(1) by (simp add: allocFromPool_def)
  have "took ?ps L (al_out al) ps' L1" using took_trans [OF a(3), of "[]" ps' L1] p(3) by simp
  then have "took ps0 L0 (lo_out ?st2) (lo_pools ?st2) L1" using took_trans [OF L(2)] by simp
  then have I2: "req_inv c X ps0 L0 noCache n (noCache, ?st2)"
    using I p(2,4) a(4) kept_trans [of X ps0 ?ps ps'] by (auto simp: req_inv_def)
  have "proceeds X n f {k} (noCache, st) (noCache, ?st2)"
  proof -
    have "lo_allocated ?st2 \<le> n" if "\<not> flags_has f BIG_PAGE_ONLY" "lo_allocated st \<le> n" using that a(7) I by (auto simp: req_inv_def)
    moreover have "swept X ?ps ps' {k}" if "\<not> flags_has f BIG_PAGE_ONLY" "lo_count ?st2 \<noteq> 0"
    proof -
      have "extraPage k al = {}" "drained X (?ps[k := al_pool al]) {k}" using a(7) that by auto
      then show ?thesis using p(5) by (simp add: swept_def)
    qed
    ultimately show ?thesis by (simp add: proceeds_def)
  qed
  then show ?thesis using run I2 by blast
qed

section \<open>The domains in order\<close>

lemma domains_in_order:
  assumes "req_inv c X ps0 L0 noCache n (noCache, st)" "cpu \<noteq> SIZE_MAX" "n + 511 < 2 ^ 64"
    and "\<forall>d \<in> set ds. unat d < length (numaPools a)" "\<forall>k. Some k \<in> set (numaPools a) \<longrightarrow> k < length ps0"
  shows "\<exists>st'. foldO (allocFromDomain cpu f a) ds st = Inr st' \<and> req_inv c X ps0 L0 noCache n (noCache, st') \<and>
    proceeds X n f (poolsOf a ds) (noCache, st) (noCache, st')"
  using assms(1,4)
proof (induction ds arbitrary: st)
  case Nil
  then show ?case by (simp add: proceeds_refl)
next
  case (Cons d ds)
  let ?slot = "numaPools a ! unat d"
  have d: "unat d < length (numaPools a)" "?slot \<in> set (numaPools a)" using Cons.prems(2) by simp_all
  have "\<exists>st1. allocFromDomain cpu f a d st = Inr st1 \<and> req_inv c X ps0 L0 noCache n (noCache, st1) \<and>
    proceeds X n f (set_option ?slot) (noCache, st) (noCache, st1)"
  proof (cases ?slot)
    case None
    then show ?thesis using Cons.prems(1) d by (intro exI [of _ st]) (simp add: allocFromDomain_def proceeds_refl)
  next
    case (Some k)
    then have "k < length ps0" using d(2) assms(5) by simp
    from allocFromPool_spec [OF Cons.prems(1) assms(2) this assms(3), of f] show ?thesis
      using Some d by (auto simp: allocFromDomain_def allocFromPool_def)
  qed
  then obtain st1 where 1: "allocFromDomain cpu f a d st = Inr st1" "req_inv c X ps0 L0 noCache n (noCache, st1)"
    "proceeds X n f (set_option ?slot) (noCache, st) (noCache, st1)" by blast
  obtain st' where "foldO (allocFromDomain cpu f a) ds st1 = Inr st'" "req_inv c X ps0 L0 noCache n (noCache, st')"
      "proceeds X n f (poolsOf a ds) (noCache, st1) (noCache, st')"
    using Cons.IH [OF 1(2)] Cons.prems(2) by auto
  then show ?case using 1(1) proceeds_trans [OF 1(3)] by auto
qed

text \<open>The invariant when no cache changes.\<close>

lemma pa_inv_took:
  assumes I: "pa_inv c L S a" and w: "world c (allCaches a) L' S' ps" and t: "took (pa_pools a) L out ps L'" and k: "kept (allCaches a) (pa_pools a) ps"
  shows "pa_inv c L' S' (a\<lparr>pa_pools := ps\<rparr>)"
proof -
  note len = took_length [OF t]
  have "req_ok ps l i" if "req_ok (pa_pools a) l i" for l i using that serves_same [OF _ t] by (auto simp: req_ok_def lp_serves_def)
  moreover have "lp_ok ps (localPools a ! i)" if "i < length (localPools a)" for i
  proof -
    have "lp_pages (localPools a ! i) \<subseteq> allCaches a" using nth_mem [OF that] unfolding allCaches_def by blast
    from lp_ok_kept [OF pa_invD(2) [OF I that] k this len] show ?thesis .
  qed
  moreover have "wired i (a\<lparr>pa_pools := ps\<rparr>) = wired i a \<and> covers i (a\<lparr>pa_pools := ps\<rparr>) = covers i a" for i
    using wiring_upd [OF len, of i "localPools a"] by simp
  ultimately show ?thesis using I w by (simp add: pa_inv_def allCaches_def)
qed

lemma allocateInDomain_exact:
  assumes I: "pa_inv c L S a" and cpu: "cpu < length (localPools a)" and n: "n + 511 < 2 ^ 64"
    and f: "\<not> flags_has f BIG_PAGE_ONLY" "\<not> flags_has f LOCAL_DOMAIN_ONLY"
    and pol: "numaPolicy a = Some pol" "domainOrder d pol = Inr order" "unat ` set order = {..<length (numaPools a)}"
  shows "let r = card (reachable (allCaches a) (pa_pools a)) in
    if n \<le> r \<or> flags_has f GRACEFUL_OOM
    then \<exists>a' refs L' S'. allocateInDomain cpu n d f a = Inr (a', min n r, refs) \<and> pa_inv c L' S' a' \<and>
           took (pa_pools a) L refs (pa_pools a') L' \<and> totalPages refs = min n r \<and> localPools a' = localPools a
    else allocateInDomain cpu n d f a = oom"
proof -
  let ?X = "allCaches a" and ?ps = "pa_pools a" and ?r = "card (reachable (allCaches a) (pa_pools a))"
  note D = pa_invD [OF I cpu]
  have c: "cpu \<noteq> SIZE_MAX" using D(3) by (simp add: req_ok_def)
  have sl: "\<forall>k. Some k \<in> set (numaPools a) \<longrightarrow> k < length ?ps" "\<forall>k. unownedPool a = Some k \<longrightarrow> k < length ?ps" using D(4) by (auto simp: wired_def)
  have I0: "req_inv c ?X ?ps L noCache n (noCache, startRequest n ?ps)" using req_start [of c ?X noCache L S ?ps n] D(1) by simp
  have ord: "\<forall>d \<in> set order. unat d < length (numaPools a)" using pol(3) by blast
  obtain st1 where 1: "foldO (allocFromDomain cpu f a) order (startRequest n ?ps) = Inr st1" "req_inv c ?X ?ps L noCache n (noCache, st1)"
      "proceeds ?X n f (poolsOf a order) (noCache, startRequest n ?ps) (noCache, st1)"
    using domains_in_order [OF I0 c n ord sl(1)] by blast
  have "\<exists>st2. (case unownedPool a of Some k \<Rightarrow> allocFromPool cpu f k st1 | None \<Rightarrow> Inr st1) = Inr st2 \<and>
      req_inv c ?X ?ps L noCache n (noCache, st2) \<and> proceeds ?X n f (set_option (unownedPool a)) (noCache, st1) (noCache, st2)"
    using 1(2) allocFromPool_spec [OF 1(2) c _ n] sl(2) by (cases "unownedPool a") (auto simp: proceeds_refl)
  then obtain st2 where 2: "(case unownedPool a of Some k \<Rightarrow> allocFromPool cpu f k st1 | None \<Rightarrow> Inr st1) = Inr st2"
      "req_inv c ?X ?ps L noCache n (noCache, st2)" "proceeds ?X n f (set_option (unownedPool a)) (noCache, st1) (noCache, st2)" by blast
  let ?a' = "a\<lparr>pa_pools := lo_pools st2\<rparr>"
  have P: "proceeds ?X n f (poolsOf a order \<union> set_option (unownedPool a)) (noCache, startRequest n ?ps) (noCache, st2)"
    by (rule proceeds_trans [OF 1(3) 2(3)])
  obtain L' S' where Q: "world c ?X L' S' (lo_pools st2)" "took ?ps L (lo_out st2) (lo_pools st2) L'" "kept ?X ?ps (lo_pools st2)"
      "lo_allocated st2 = totalPages (lo_out st2)" "lo_count st2 = n - lo_allocated st2" using 2(2) by (auto simp: req_inv_def)
  have inv: "pa_inv c L' S' ?a'" by (rule pa_inv_took [OF I Q(1-3)])
  have le: "lo_allocated st2 \<le> n" using P f(1) by (simp add: proceeds_def startRequest_def)
  have "{..<length ?ps} \<subseteq> poolsOf a order \<union> set_option (unownedPool a)"
  proof
    fix k assume "k \<in> {..<length ?ps}"
    then have "Some k \<in> insert (unownedPool a) (set (numaPools a))" using D(5) by (auto simp: covers_def)
    then consider "unownedPool a = Some k" | i where "i < length (numaPools a)" "numaPools a ! i = Some k" by (auto simp: in_set_conv_nth)
    then show "k \<in> poolsOf a order \<union> set_option (unownedPool a)"
    proof cases
      case (2 i)
      then obtain d' where "d' \<in> set order" "unat d' = i" using pol(3) by (metis (no_types, lifting) imageE lessThan_iff)
      then show ?thesis using 2 by (auto simp: poolsOf_def)
    qed simp
  qed
  then have "drained ?X (lo_pools st2) {..<length ?ps}" if "totalPages (lo_out st2) < n"
    using P f(1) Q(4,5) that by (auto simp: proceeds_def swept_def drained_def)
  then have tot: "totalPages (lo_out st2) = min n ?r" using served_count [OF I inv] Q(2-4) le by simp
  have run: "allocateInDomain cpu n d f a = bindO (finishRequest f st2) (\<lambda>st3. Inr (a\<lparr>pa_pools := lo_pools st3\<rparr>, lo_allocated st3, lo_out st3))"
    unfolding allocateInDomain_def Let_def pol(1) option.case using f(2) pol(2) 1(1) 2(1) by simp
  have "lo_count st2 \<noteq> 0 \<longleftrightarrow> \<not> n \<le> ?r" using Q(4,5) tot by linarith
  then show ?thesis unfolding Let_def run using inv Q(2,4) tot
    by (auto simp: finishRequest_def intro!: exI [of _ L'] exI [of _ S'])
qed

end
