(* ===== verification/Page_Alloc_Props.thy ===== *)
theory Page_Alloc_Props
  imports Page_Alloc_Create Page_Alloc_Domain
begin

text \<open>
  The properties of the page allocator as a whole, with an allocator of two big pages on which they are
  instantiated.
\<close>

section \<open>A small allocator\<close>

definition pairOfPages :: "nat \<Rightarrow> phys_addr \<Rightarrow> NUMAPool outcome" where
  "pairOfPages owner b =
     bindO (mkBigPageMetadata owner b) (\<lambda>m0. bindO (mkBigPageMetadata owner (b + 2097152)) (\<lambda>m1.
     bindO (mkAtomicBitPool 2 (\<lambda>_. \<lparr>ent_bitmap = 0, ent_count = 0\<rparr>) 64) (\<lambda>pa.
       mkNUMAPool [m0, m1] [0, 0] pa [\<lparr>rangeStart = b, rangeEnd = b + 4194304, metadataBase = 0\<rparr>] 2 0)))"

lemma pair_of_pages:
  assumes "2097152 dvd unat b" "unat b + 4194304 < 2 ^ 64"
  obtains p c where "pairOfPages owner b = Inr p" "pool_inv c {} (\<lambda>_. {}) {} p" "bigPageCount p = 2" "bpm_base (metaAt p 0) = b"
    "bpm_base (metaAt p 1) = b + 2097152" "np_avail p 0 = {..<512}" "np_avail p 1 = {..<512}" "\<forall>i < 2. ownerPool (metaAt p i) = owner"
    "subrangeInfo p = [\<lparr>rangeStart = b, rangeEnd = b + 4194304, metadataBase = 0\<rparr>]" "associatedDomain p = 0" "srs_ok p"
proof -
  let ?srs = "[\<lparr>rangeStart = b, rangeEnd = b + 4194304, metadataBase = 0\<rparr>] :: SubrangeInfo list"
  have u: "unat (b + 2097152) = unat b + 2097152" "unat (b + 4194304) = unat b + 4194304" using assms(2) by (simp_all add: unat_word_ariths)
  have d: "2097152 dvd unat (b + 2097152)" "2097152 dvd unat b + 4194304" unfolding u(1) using assms(1) by (auto elim!: dvdE)
  obtain m0 m1 where m: "mkBigPageMetadata owner b = Inr m0" "pg_inv m0 {}" "pg_avail m0 = {..<512}" "bpm_base m0 = b" "allocHolder m0 = SIZE_MAX" "ownerPool m0 = owner"
      "mkBigPageMetadata owner (b + 2097152) = Inr m1" "pg_inv m1 {}" "pg_avail m1 = {..<512}" "bpm_base m1 = b + 2097152" "allocHolder m1 = SIZE_MAX" "ownerPool m1 = owner"
    using mkBigPageMetadata_spec [OF assms(1), of owner] mkBigPageMetadata_spec [OF d(1), of owner] by blast
  obtain c pa where pa: "mkAtomicBitPool 2 (\<lambda>_. \<lparr>ent_bitmap = 0, ent_count = 0\<rparr>) 64 = Inr pa" "bp_inv c {} pa" "2 \<le> (2 :: nat) ^ c"
    by (rule mkAtomicBitPool_correct [of 2]) auto
  have nr: "\<not> hasReservedSubpages m0" "\<not> hasReservedSubpages m1" using pg_queries(3) [OF m(2)] pg_queries(3) [OF m(8)] m(3,9) by simp_all
  have ne: "b \<noteq> b + 2097152" by simp
  have all2: "(\<forall>i < 2. P i) \<longleftrightarrow> P 0 \<and> P 1" for P :: "nat \<Rightarrow> bool" by (auto simp: less_2_cases_iff)
  have "\<exists>p. mkNUMAPool [m0, m1] [0, 0] pa ?srs 2 0 = Inr p \<and> pool_inv c {} (\<lambda>_. {}) {i. i < 2 \<and> hasReservedSubpages ([m0, m1] ! i)} p \<and>
      bigPageMetadataBuffer p = [m0, m1] \<and> bigPageCount p = 2 \<and> subrangeInfo p = ?srs \<and> associatedDomain p = 0"
    by (rule mkNUMAPool_spec) (use m pa nr ne in \<open>simp_all add: all2\<close>)
  then obtain p where p: "mkNUMAPool [m0, m1] [0, 0] pa ?srs 2 0 = Inr p" "pool_inv c {} (\<lambda>_. {}) {i. i < 2 \<and> hasReservedSubpages ([m0, m1] ! i)} p"
      "bigPageMetadataBuffer p = [m0, m1]" "bigPageCount p = 2" "subrangeInfo p = ?srs" "associatedDomain p = 0" by blast
  have "\<not> hasReservedSubpages ([m0, m1] ! i)" if "i < 2" for i using nr that by (auto simp: less_2_cases_iff)
  then have e: "{i. i < 2 \<and> hasReservedSubpages ([m0, m1] ! i)} = {}" by blast
  have mt: "metaAt p 0 = m0" "metaAt p 1 = m1" using p(3) by simp_all
  have step: "k < 2 \<and> unat (bpm_base (metaAt p k)) = unat b + k * 2097152" if "unat b + k * 2097152 < unat (b + 4194304)" for k
  proof -
    have "k < 2" using that u(2) by simp
    then show ?thesis using u(1) m(4,10) mt by (auto simp: less_2_cases_iff)
  qed
  have "srs_ok p" unfolding srs_ok_def p(4,5) using assms(1) d(2) u step by (auto simp: less_2_cases_iff)
  then show ?thesis using that [of p c] p e m pa(1) mt by (simp add: pairOfPages_def all2)
qed

lemma pair_pages:
  assumes "bigPageCount p = 2" "bpm_base (metaAt p 0) = b" "bpm_base (metaAt p 1) = b + 2097152" "2097152 dvd unat b" "unat b + 4194304 < 2 ^ 64"
  shows "pg_first (metaAt p 0) = unat b div 4096" "pg_first (metaAt p 1) = unat b div 4096 + 512"
proof -
  obtain k where "unat b = 2097152 * k" using assms(4) by (auto elim!: dvdE)
  moreover have "unat (b + 2097152) = unat b + 2097152" using assms(5) by (simp add: unat_word_ariths)
  ultimately show "pg_first (metaAt p 0) = unat b div 4096" "pg_first (metaAt p 1) = unat b div 4096 + 512"
    using assms(2,3) by (simp_all add: pg_first_def)
qed

lemma pair_world:
  assumes "pool_inv c {} (\<lambda>_. {}) {} p" "bigPageCount p = 2" "\<forall>i < 2. ownerPool (metaAt p i) = 0"
  shows "world (\<lambda>_. c) {} (\<lambda>_ _. {}) (\<lambda>_. {}) [p]"
  using assms by (simp add: world_def heldIn_def)

lemma range_1024: "(\<Union>i < 2 :: nat. (+) (f i) ` X i) = {n..<n + 1024 :: nat}" if "f 0 = n" "f 1 = n + 512" "X 0 = {..<512}" "X 1 = {..<512}"
proof -
  have "{..<2 :: nat} = {0, 1}" by auto
  then have "(\<Union>i < 2 :: nat. (+) (f i) ` X i) = {n..<n + 512} \<union> {n + 512..<n + 1024}"
    using that by (simp add: lessThan_atLeast0 add.commute)
  then show ?thesis by (simp add: ivl_disj_un_two(3))
qed

lemma single_allocator:
  assumes b: "2097152 dvd unat b" "unat b + 4194304 < 2 ^ 64"
  obtains p a c where "pairOfPages 0 b = Inr p" "createPageAllocator [p] [Some 0] [mkLocalPool None (Some 0) 0] 1 None None = Inr a"
    "pa_inv c (\<lambda>_ _. {}) (\<lambda>_. {}) a" "table_ok a" "pa_pools a = [p]" "length (localPools a) = 1" "otherCaches 0 a = {}" "ownedPools a = {0}"
    "bigPageCount p = 2" "bpm_base (metaAt p 0) = b" "bpm_base (metaAt p 1) = b + 2097152"
    "reachable {} [p] = {unat b div 4096..<unat b div 4096 + 1024}" "world c {} (\<lambda>_ _. {}) (\<lambda>_. {}) [p]" "good_slots [p] [Some 0]"
proof -
  obtain p c where p: "pairOfPages 0 b = Inr p" "pool_inv c {} (\<lambda>_. {}) {} p" "bigPageCount p = 2" "bpm_base (metaAt p 0) = b"
    "bpm_base (metaAt p 1) = b + 2097152" "np_avail p 0 = {..<512}" "np_avail p 1 = {..<512}" "\<forall>i < 2. ownerPool (metaAt p i) = 0"
    "subrangeInfo p = [\<lparr>rangeStart = b, rangeEnd = b + 4194304, metadataBase = 0\<rparr>]" "associatedDomain p = 0" "srs_ok p"
    using pair_of_pages [OF b] by blast
  let ?lp = "mkLocalPool None (Some 0) 0"
  have w: "world (\<lambda>_. c) {} (\<lambda>_ _. {}) (\<lambda>_. {}) [p]" by (rule pair_world [OF p(2,3,8)])
  have "b < b + 4194304" using b(2) by (simp add: word_less_nat_alt unat_word_ariths)
  then have g: "good_slots [p] [Some 0]" using p(9,11) by (simp add: good_slots_def entriesOf_def DOMAIN_TABLE_SIZE_def)
  have "\<exists>a. createPageAllocator [p] [Some 0] [?lp] (length [?lp]) None None = Inr a \<and> pa_inv (\<lambda>_. c) (\<lambda>_ _. {}) (\<lambda>_. {}) a \<and> table_ok a \<and>
      pa_pools a = [p] \<and> localPools a = [?lp] \<and> numaPools a = [Some 0] \<and> unownedPool a = None \<and> allCaches a = {} \<and> numaPolicy a = None"
    by (rule create_ok [OF w g]) (auto simp: MAX_PROCESSOR_COUNT_def good_policy_def fresh_locals_def)
  then obtain a where a: "createPageAllocator [p] [Some 0] [?lp] 1 None None = Inr a" "pa_inv (\<lambda>_. c) (\<lambda>_ _. {}) (\<lambda>_. {}) a" "table_ok a"
      "pa_pools a = [p]" "localPools a = [?lp]" "numaPools a = [Some 0]" by auto
  have "reachable {} [p] = (\<Union>i < 2. (+) (pg_first (metaAt p i)) ` np_avail p i)"
    using p(3) by (auto simp: reachable_def)
  also have "\<dots> = {unat b div 4096..<unat b div 4096 + 1024}"
    by (rule range_1024) (use pair_pages [OF p(3-5) b] p(6,7) in simp_all)
  finally have r: "reachable {} [p] = {unat b div 4096..<unat b div 4096 + 1024}" .
  have o: "otherCaches 0 a = {}" "ownedPools a = {0}" using a(5,6) by (auto simp: otherCaches_def ownedPools_def)
  show ?thesis by (rule that [OF p(1) a(1-4) _ o p(3-5) r w g]) (use a(5) in simp)
qed

text \<open>The same allocator with every page handed out.\<close>

lemma exhausted_allocator:
  obtains p a a' refs c L S where "pairOfPages 0 4194304 = Inr p" "createPageAllocator [p] [Some 0] [mkLocalPool None (Some 0) 0] 1 None None = Inr a"
    "pa_allocatePages 0 1024 0 a = Inr (a', 1024, refs)" "pa_inv c L S a'" "table_ok a'" "ownedPools a' = {0}" "length (pa_pools a') = 1"
    "bigPageCount (pa_pools a' ! 0) = 2" "bpm_base (metaAt (pa_pools a' ! 0) 0) = 4194304" "bpm_base (metaAt (pa_pools a' ! 0) 1) = 6291456"
    "liveAll L (pa_pools a') = {1024..<2048}"
proof -
  have b: "2097152 dvd unat (4194304 :: u64)" "unat (4194304 :: u64) + 4194304 < 2 ^ 64" by simp_all
  obtain p a c where d: "pairOfPages 0 4194304 = Inr p" "createPageAllocator [p] [Some 0] [mkLocalPool None (Some 0) 0] 1 None None = Inr a"
    "pa_inv c (\<lambda>_ _. {}) (\<lambda>_. {}) a" "table_ok a" "pa_pools a = [p]" "length (localPools a) = 1" "otherCaches 0 a = {}" "ownedPools a = {0}"
    "bigPageCount p = 2" "bpm_base (metaAt p 0) = 4194304" "bpm_base (metaAt p 1) = 4194304 + 2097152"
    "reachable {} [p] = {unat (4194304 :: u64) div 4096..<unat (4194304 :: u64) div 4096 + 1024}"
    using single_allocator [OF b] by metis
  have r: "reachable (otherCaches 0 a) (pa_pools a) = {1024..<2048}" using d(5,7,12) by simp
  obtain a' refs L S where A: "pa_allocatePages 0 1024 0 a = Inr (a', 1024, refs)" "pa_inv c L S a'" "took (pa_pools a) (\<lambda>_ _. {}) refs (pa_pools a') L"
      "totalPages refs = 1024" "covered refs \<subseteq> {1024..<2048}" "\<exists>lp. a' = a\<lparr>pa_pools := pa_pools a', localPools := (localPools a)[0 := lp]\<rparr>"
  proof -
    have "\<not> flags_has 0 BIG_PAGE_ONLY" "\<not> flags_has 0 LOCAL_DOMAIN_ONLY" "0 < length (localPools a)" "(1024 :: nat) + 511 < 2 ^ 64"
      using d(6) by (simp_all add: flags_has_def)
    from allocate_exact [OF d(3) this(3,4,1,2)] show ?thesis using that unfolding r Let_def by (simp split: if_splits) metis
  qed
  have same: "same_pools (pa_pools a) (pa_pools a')" and cv: "card (covered refs) = 1024" and l: "liveAll L (pa_pools a') = covered refs"
    using A(3,4) by (simp_all add: took_def liveAll_def pagesOf_def)
  have "covered refs = {1024..<2048}" by (rule card_subset_eq) (use A(5) cv in simp_all)
  moreover obtain lp where lp: "a' = a\<lparr>pa_pools := pa_pools a', localPools := (localPools a)[0 := lp]\<rparr>" using A(6) by blast
  have "table_ok a'" using table_ok_same [OF d(4) same, of "(localPools a)[0 := lp]"] unfolding lp [symmetric] .
  moreover have "numaPools a' = numaPools a" by (subst lp) simp
  then have "ownedPools a' = {0}" using d(8) by (simp add: ownedPools_def)
  moreover have "length (pa_pools a') = 1" "bigPageCount (pa_pools a' ! 0) = 2" "bpm_base (metaAt (pa_pools a' ! 0) 0) = 4194304"
      "bpm_base (metaAt (pa_pools a' ! 0) 1) = 6291456"
    using same d(5,9-11) by (simp_all add: same_pools_def same_frame_def)
  ultimately show ?thesis using that [OF d(1,2) A(1,2)] l by simp
qed

text \<open>Two pools, of which the second belongs to no domain.\<close>

lemma unowned_allocator:
  obtains p q pol a c where "pairOfPages 0 4194304 = Inr p" "pairOfPages 1 16777216 = Inr q" "mkNUMAPolicy (trivialTopology 1) = Inr pol"
    "createPageAllocator [p, q] [Some 0] [mkLocalPool None (Some 0) 0] 1 (Some 1) (Some pol) = Inr a" "pa_inv c (\<lambda>_ _. {}) (\<lambda>_. {}) a"
    "table_ok a" "pa_pools a = [p, q]" "numaPools a = [Some 0]" "unownedPool a = Some 1" "bigPageCount q = 2" "bpm_base (metaAt q 0) = 16777216"
    "localPools a = [mkLocalPool None (Some 0) 0]" "numaPolicy a = Some pol" "bigPageCount p = 2" "bpm_base (metaAt p 0) = 4194304" "np_avail p 0 = {..<512}"
    "allCaches a = {}" "topo_ok 1 (trivialTopology 1)"
proof -
  have b: "2097152 dvd unat (4194304 :: u64)" "unat (4194304 :: u64) + 4194304 < 2 ^ 64"
    "2097152 dvd unat (16777216 :: u64)" "unat (16777216 :: u64) + 4194304 < 2 ^ 64" by simp_all
  obtain p c where p: "pairOfPages 0 4194304 = Inr p" "pool_inv c {} (\<lambda>_. {}) {} p" "bigPageCount p = 2" "bpm_base (metaAt p 0) = 4194304"
    "bpm_base (metaAt p 1) = 4194304 + 2097152" "\<forall>i < 2. ownerPool (metaAt p i) = 0"
    "subrangeInfo p = [\<lparr>rangeStart = 4194304, rangeEnd = 4194304 + 4194304, metadataBase = 0\<rparr>]" "srs_ok p" "np_avail p 0 = {..<512}"
    using pair_of_pages [OF b(1,2), of 0] by metis
  obtain q c' where q: "pairOfPages 1 16777216 = Inr q" "pool_inv c' {} (\<lambda>_. {}) {} q" "bigPageCount q = 2" "bpm_base (metaAt q 0) = 16777216"
    "bpm_base (metaAt q 1) = 16777216 + 2097152" "\<forall>i < 2. ownerPool (metaAt q i) = 1"
    using pair_of_pages [OF b(3,4), of 1] by metis
  have tp: "topo_ok 1 (trivialTopology 1)"
    by (auto simp: topo_ok_def cpu_map_ok_def mats_ok_def trivialTopology_def emptyTopology_def emptyDomain_def noDomain_def toProcessorID_def)
  obtain pol where pol: "mkNUMAPolicy (trivialTopology 1) = Inr pol" using mkNUMAPolicy_spec [OF tp] by blast
  have apart': "bpm_base (metaAt p i) \<noteq> bpm_base (metaAt q j)" if "i < 2" "j < 2" for i j
    using less_2_cases [OF that(1)] less_2_cases [OF that(2)] p(4,5) q(4,5) by (elim disjE) simp_all
  have all2: "(\<forall>i < Suc (Suc 0). P i) \<longleftrightarrow> P 0 \<and> P 1" for P :: "nat \<Rightarrow> bool" by (auto simp: less_Suc_eq)
  have w: "world (\<lambda>k. if k = 0 then c else c') {} (\<lambda>_ _. {}) (\<lambda>_. {}) [p, q]"
    using p(2,3,6) q(2,3,6) apart' apart' [symmetric] unfolding world_def heldIn_def by (simp add: all2)
  have g: "good_slots [p, q] [Some 0]" using p(7,8) by (simp add: good_slots_def entriesOf_def DOMAIN_TABLE_SIZE_def)
  let ?lp = "mkLocalPool None (Some 0) 0"
  have "\<exists>a. createPageAllocator [p, q] [Some 0] [?lp] (length [?lp]) (Some 1) (Some pol) = Inr a \<and>
      pa_inv (\<lambda>k. if k = 0 then c else c') (\<lambda>_ _. {}) (\<lambda>_. {}) a \<and> table_ok a \<and>
      pa_pools a = [p, q] \<and> localPools a = [?lp] \<and> numaPools a = [Some 0] \<and> unownedPool a = Some 1 \<and> allCaches a = {} \<and> numaPolicy a = Some pol"
  proof (rule create_ok [OF w g])
    show "good_policy [Some 0] (length [?lp]) (Some 1) (Some pol)" unfolding good_policy_def
      using tp pol by (auto simp: trivialTopology_def emptyTopology_def)
  qed (auto simp: MAX_PROCESSOR_COUNT_def fresh_locals_def)
  then show ?thesis using that [OF p(1) q(1) pol] p(3,4,9) q(3,4) tp by auto
qed

section \<open>Properties\<close>

text \<open>
  C1: \<open>PageAllocatorImpl::allocatePages\<close> for the current processor, without \<open>BIG_PAGE_ONLY\<close> and
  \<open>LOCAL_DOMAIN_ONLY\<close>: through its cache, the big pages of its nearest pool, the pools of all domains in order
  and the unowned pool, the processor gets every page that is available and not cached by another
  processor, as many as it asked for and no more. Every page handed out was available and is now live,
  no page is handed out twice, and the invariant of pools and caches is kept. The kernel panics exactly when
  fewer pages can be reached than asked for and the caller did not ask for a graceful failure.
\<close>

theorem page_allocator_exact:
  assumes "pa_inv c L S a" and "cpu < length (localPools a)" and "n + 511 < 2 ^ 64"
    and "\<not> flags_has f BIG_PAGE_ONLY" and "\<not> flags_has f LOCAL_DOMAIN_ONLY"
  shows "let r = card (reachable (otherCaches cpu a) (pa_pools a)) in
    if n \<le> r \<or> flags_has f GRACEFUL_OOM
    then \<exists>a' refs L' S'. pa_allocatePages cpu n f a = Inr (a', min n r, refs) \<and> pa_inv c L' S' a' \<and>
           took (pa_pools a) L refs (pa_pools a') L' \<and> totalPages refs = min n r \<and> covered refs \<subseteq> reachable (otherCaches cpu a) (pa_pools a) \<and>
           (\<exists>lp. a' = a\<lparr>pa_pools := pa_pools a', localPools := (localPools a)[cpu := lp]\<rparr>)
    else pa_allocatePages cpu n f a = Inl (Assertion ''Panic!!! Page allocator is out of memory'')"
  by (rule allocate_exact [OF assms])

theorem page_allocator_exact_witness:
  "\<exists>p a a' refs. pairOfPages 0 4194304 = Inr p \<and> createPageAllocator [p] [Some 0] [mkLocalPool None (Some 0) 0] 1 None None = Inr a \<and>
     pa_allocatePages 0 1000 0 a = Inr (a', 1000, refs) \<and> totalPages refs = 1000 \<and> pa_allocatePages 0 1025 0 a = Inl (Assertion ''Panic!!! Page allocator is out of memory'')"
proof -
  have b: "2097152 dvd unat (4194304 :: u64)" "unat (4194304 :: u64) + 4194304 < 2 ^ 64" by simp_all
  obtain p a c where d: "pairOfPages 0 4194304 = Inr p" "createPageAllocator [p] [Some 0] [mkLocalPool None (Some 0) 0] 1 None None = Inr a"
    "pa_inv c (\<lambda>_ _. {}) (\<lambda>_. {}) a" "pa_pools a = [p]" "length (localPools a) = 1" "otherCaches 0 a = {}"
    "reachable {} [p] = {unat (4194304 :: u64) div 4096..<unat (4194304 :: u64) div 4096 + 1024}"
    using single_allocator [OF b] by metis
  have r: "card (reachable (otherCaches 0 a) (pa_pools a)) = 1024" using d(4,6,7) by simp
  have f: "\<not> flags_has 0 BIG_PAGE_ONLY" "\<not> flags_has 0 LOCAL_DOMAIN_ONLY" "\<not> flags_has 0 GRACEFUL_OOM" "0 < length (localPools a)"
    using d(5) by (simp_all add: flags_has_def)
  show ?thesis using page_allocator_exact [OF d(3) f(4) _ f(1,2), of 1000] page_allocator_exact [OF d(3) f(4) _ f(1,2), of 1025] d(1,2) f(3)
    unfolding r by auto
qed

text \<open>
  C2: \<open>PageAllocatorImpl::freePages\<close> is exact. For any non-empty array of references, in any order and across
  any domains, that name live pages of the domains' pools and no page twice, the sort, the walk along the table
  and the frees of all runs end without an assertion; exactly the named pages become available again,
  and the invariant over all pools and all processor caches holds afterwards. The last hypothesis excludes the one
  misrouted case of \<open>NUMAPool::freePages\<close>.
\<close>

theorem page_allocator_free_exact:
  assumes "pa_inv c L S a" and "table_ok a" and "refs \<noteq> []" and "length refs < 2 ^ 64"
    and "\<forall>r \<in> set refs. \<exists>k \<in> ownedPools a. ref_ok (pa_pools a ! k) {} r"
    and "covered refs \<subseteq> liveAll L (pa_pools a)" and "totalPages refs = card (covered refs)" and "hazard_free L (pa_pools a) refs"
  shows "\<exists>a' L' S'. pa_freePages refs a = Inr a' \<and> pa_inv c L' S' a' \<and> localPools a' = localPools a \<and> table_ok a' \<and>
    liveAll L' (pa_pools a') = liveAll L (pa_pools a) - covered refs \<and> availAll (pa_pools a') = availAll (pa_pools a) \<union> covered refs"
  by (rule free_exact [OF assms])

theorem page_allocator_free_exact_witness:
  "\<exists>p a a' refs b. pairOfPages 0 4194304 = Inr p \<and> createPageAllocator [p] [Some 0] [mkLocalPool None (Some 0) 0] 1 None None = Inr a \<and>
     pa_allocatePages 0 1024 0 a = Inr (a', 1024, refs) \<and> pa_freePages [6295552, 4198400] a' = Inr b \<and>
     availAll (pa_pools b) = availAll (pa_pools a') \<union> {1537, 1025}"
proof -
  obtain p a a' refs c L S where d: "pairOfPages 0 4194304 = Inr p" "createPageAllocator [p] [Some 0] [mkLocalPool None (Some 0) 0] 1 None None = Inr a"
    "pa_allocatePages 0 1024 0 a = Inr (a', 1024, refs)" "pa_inv c L S a'" "table_ok a'" "ownedPools a' = {0}" "length (pa_pools a') = 1"
    "bigPageCount (pa_pools a' ! 0) = 2" "bpm_base (metaAt (pa_pools a' ! 0) 0) = 4194304" "bpm_base (metaAt (pa_pools a' ! 0) 1) = 6291456"
    "liveAll L (pa_pools a') = {1024..<2048}"
    by (rule exhausted_allocator)
  let ?refs = "[6295552, 4198400] :: PageRef list" and ?p = "pa_pools a' ! 0"
  have A: "pr_addr 6295552 = 6295552" "pr_size 6295552 = SMALL" "pr_addr 4198400 = 4198400" "pr_size 4198400 = SMALL"
    "bigPageBase 6295552 = 6291456" "bigPageBase 4198400 = 4194304"
    by (simp_all add: pr_addr_def pr_size_def smallPageSize_def bigPageBase_def bigPageSize_def)
  have cv: "covered ?refs = {1537, 1025}" "totalPages ?refs = 2" using A by (auto simp: refPages_def refCount_def)
  have "\<exists>i < bigPageCount ?p. pr_size 6295552 = SMALL \<and> bigPageBase (pr_addr 6295552) = bpm_base (metaAt ?p i)"
    by (intro exI [of _ 1]) (use d(8-10) A in simp)
  moreover have "\<exists>i < bigPageCount ?p. pr_size 4198400 = SMALL \<and> bigPageBase (pr_addr 4198400) = bpm_base (metaAt ?p i)"
    by (intro exI [of _ 0]) (use d(8-10) A in simp)
  ultimately have ref: "\<forall>r \<in> set ?refs. \<exists>k \<in> ownedPools a'. ref_ok (pa_pools a' ! k) {} r" using d(6) by (auto simp: ref_ok_def)
  have w: "world c (allCaches a') L S (pa_pools a')" using d(4) by (simp add: pa_inv_def)
  have fst': "pg_first (metaAt ?p 0) = 1024" "pg_first (metaAt ?p 1) = 1536" using d(9,10) by (simp_all add: pg_first_def)
  have live2: "2 \<in> L 0 i" if i: "i < 2" for i
  proof -
    have "pg_first (metaAt ?p i) + 2 \<in> liveAll L (pa_pools a')" unfolding d(11) using fst' i by (auto simp: less_2_cases_iff)
    then obtain j s where j: "j < bigPageCount ?p" "s \<in> L 0 j" "pg_first (metaAt ?p i) + 2 = pg_first (metaAt ?p j) + s"
      using d(7) by (auto simp: liveAll_def in_pagesOf)
    have "s < 512" using avail_slots(2) [OF w _ j(1)] j(2) d(7) by auto
    then show ?thesis using page_unique [OF w _ _ _ j(1) _ _ j(3)] i d(7,8) j(2) by auto
  qed
  have "2 \<notin> slotsOf ?p ?refs i" if "i < 2" for i using that fst' cv(1) by (auto simp: slotsOf_def less_2_cases_iff)
  then have hz: "hazard_free L (pa_pools a') ?refs" using live2 d(7,8) by (auto simp: hazard_free_def)
  have "\<exists>b L' S'. pa_freePages ?refs a' = Inr b \<and> pa_inv c L' S' b \<and> localPools b = localPools a' \<and> table_ok b \<and>
    liveAll L' (pa_pools b) = liveAll L (pa_pools a') - covered ?refs \<and> availAll (pa_pools b) = availAll (pa_pools a') \<union> covered ?refs"
  proof (rule page_allocator_free_exact [OF d(4,5) _ _ ref _ _ hz])
    show "covered ?refs \<subseteq> liveAll L (pa_pools a')" unfolding cv(1) d(11) by simp
    show "totalPages ?refs = card (covered ?refs)" unfolding cv by simp
  qed simp_all
  then obtain b where "pa_freePages ?refs a' = Inr b" "availAll (pa_pools b) = availAll (pa_pools a') \<union> {1537, 1025}" unfolding cv(1) by blast
  with d(1-3) show ?thesis by (intro exI conjI)
qed

text \<open>
  C32: \<open>createPageAllocator\<close> establishes what allocation and freeing rely on. From the pools of the domains, of
  which no two share a big page, fresh caches, and either exactly one pool and no policy or the policy of a
  topology with a domain for each slot, it builds the allocator without an assertion; every processor has a
  nearest pool, its domain order reaches every pool, the table holds every subrange of the domains' pools in
  address order and the invariant holds.
\<close>

theorem create_page_allocator_ok:
  assumes "world c {} L S ps" and "good_slots ps slots" and "length slots \<le> MAX_PROCESSOR_COUNT" and "length locals \<le> MAX_PROCESSOR_COUNT"
    and "\<forall>k. Some k \<in> insert unowned (set slots) \<longleftrightarrow> k < length ps" and "good_policy slots (length locals) unowned policy" and "fresh_locals ps locals"
  shows "\<exists>a. createPageAllocator ps slots locals (length locals) unowned policy = Inr a \<and> pa_inv c L S a \<and> table_ok a \<and>
    pa_pools a = ps \<and> localPools a = locals \<and> numaPools a = slots \<and> unownedPool a = unowned \<and> allCaches a = {} \<and> numaPolicy a = policy"
  by (rule create_ok [OF assms])

theorem create_page_allocator_ok_witness:
  "\<exists>p a. pairOfPages 0 4194304 = Inr p \<and> createPageAllocator [p] [Some 0] [mkLocalPool None (Some 0) 0] 1 None None = Inr a \<and> table_ok a"
proof -
  have b: "2097152 dvd unat (4194304 :: u64)" "unat (4194304 :: u64) + 4194304 < 2 ^ 64" by simp_all
  obtain p c where d: "pairOfPages 0 4194304 = Inr p" "world c {} (\<lambda>_ _. {}) (\<lambda>_. {}) [p]" "good_slots [p] [Some 0]"
    using single_allocator [OF b] by metis
  have "\<exists>a. createPageAllocator [p] [Some 0] [mkLocalPool None (Some 0) 0] (length [mkLocalPool None (Some 0) 0]) None None = Inr a \<and> pa_inv c (\<lambda>_ _. {}) (\<lambda>_. {}) a \<and> table_ok a \<and>
      pa_pools a = [p] \<and> localPools a = [mkLocalPool None (Some 0) 0] \<and> numaPools a = [Some 0] \<and> unownedPool a = None \<and> allCaches a = {} \<and> numaPolicy a = None"
    by (rule create_page_allocator_ok [OF d(2,3)]) (auto simp: MAX_PROCESSOR_COUNT_def good_policy_def fresh_locals_def)
  then show ?thesis using d(1) by auto
qed

text \<open>
  the lookup of the allocator is exact: for any address, the binary search in the table and the search in the
  pool it names give the metadata of big page \<open>i\<close> of pool \<open>k\<close> exactly if the address lies in that page and the
  pool belongs to a domain; otherwise the result is null.
\<close>

lemma allocator_lookup_exact:
  assumes "pa_inv c L S a" and "table_ok a"
  shows "pa_findMetadata addr a = Some (k, i) \<longleftrightarrow>
    k \<in> ownedPools a \<and> i < bigPageCount (pa_pools a ! k) \<and> bigPageBase addr = bpm_base (metaAt (pa_pools a ! k) i)"
  by (rule findMetadata_iff [OF assms])

text \<open>
  C33: the binary search of \<open>findMetadata\<close>, as the loop it is, returns on every table, sorted or not, and for every
  address, and an entry it returns is in the table and holds the address. On a table of non-empty ranges in address order
  that do not overlap, it moreover returns the one entry that holds the address if there is one and none otherwise.
\<close>

theorem domain_search_terminates:
  "\<exists>lo hi found. searchLoop addr table (0, length table, None) = Some (lo, hi, found) \<and>
    (\<forall>m. found = Some m \<longrightarrow> m < length table \<and> nde_start (table ! m) \<le> addr \<and> addr < nde_end (table ! m)) \<and>
    (sorted_wrt (\<lambda>x y. nde_end x \<le> nde_start y) table \<and> (\<forall>e \<in> set table. nde_start e < nde_end e) \<longrightarrow>
      (\<forall>m. found = Some m \<longleftrightarrow> m < length table \<and> nde_start (table ! m) \<le> addr \<and> addr < nde_end (table ! m)))"
proof -
  obtain lo hi where "searchLoop addr table (0, length table, None) = Some (lo, hi, tableSearch addr table 0 (length table))"
    using searchLoop_tableSearch by blast
  moreover have "\<forall>m. tableSearch addr table 0 (length table) = Some m \<longrightarrow> m < length table \<and> nde_start (table ! m) \<le> addr \<and> addr < nde_end (table ! m)"
    using tableSearch_sound by blast
  moreover have "\<forall>m. tableSearch addr table 0 (length table) = Some m \<longleftrightarrow> m < length table \<and> nde_start (table ! m) \<le> addr \<and> addr < nde_end (table ! m)"
    if "sorted_wrt (\<lambda>x y. nde_end x \<le> nde_start y) table \<and> (\<forall>e \<in> set table. nde_start e < nde_end e)"
    using tableSearch_spec [OF conjunct1 [OF that] conjunct2 [OF that] order_refl, of addr 0] by simp
  ultimately show ?thesis
    by (intro exI [of _ lo] exI [of _ hi] exI [of _ "tableSearch addr table 0 (length table)"] conjI impI)
qed

theorem domain_search_terminates_witness:
  "\<exists>lo hi. searchLoop 5 [\<lparr>nde_start = 0, nde_end = 4, nde_pool = 0\<rparr>, \<lparr>nde_start = 4, nde_end = 9, nde_pool = 1\<rparr>] (0, 2, None) = Some (lo, hi, Some 1)"
proof -
  let ?t = "[\<lparr>nde_start = 0, nde_end = 4, nde_pool = 0\<rparr>, \<lparr>nde_start = 4, nde_end = 9, nde_pool = 1\<rparr>] :: NUMADomainEntry list"
  obtain lo hi found where f: "searchLoop 5 ?t (0, length ?t, None) = Some (lo, hi, found)"
    "sorted_wrt (\<lambda>x y. nde_end x \<le> nde_start y) ?t \<and> (\<forall>e \<in> set ?t. nde_start e < nde_end e) \<longrightarrow>
      (\<forall>m. found = Some m \<longleftrightarrow> m < length ?t \<and> nde_start (?t ! m) \<le> 5 \<and> 5 < nde_end (?t ! m))"
    using domain_search_terminates [of 5 ?t] by (elim exE conjE)
  have "\<forall>m. found = Some m \<longleftrightarrow> m < length ?t \<and> nde_start (?t ! m) \<le> 5 \<and> 5 < nde_end (?t ! m)" by (rule mp [OF f(2)]) simp
  from spec [OF this, of 1] have "found = Some 1" by simp
  moreover have "length ?t = 2" by simp
  ultimately show ?thesis using f(1) by metis
qed

text \<open>
  the pages of the unowned pool can be allocated but not freed. The table is built from the pools of the
  domains only, so \<open>freePages\<close> finds no pool for them: it returns without an assertion and leaves the allocator as it
  was, the pages stay live for good, and \<open>findMetadata\<close> does not know them.
\<close>

lemma unowned_pages_never_freed:
  assumes "pa_inv c L S a" and "table_ok a" and "unownedPool a = Some u" and "u < length (pa_pools a)" and "u \<notin> ownedPools a"
    and "refs \<noteq> []" and "length refs < 2 ^ 64" and "\<forall>r \<in> set refs. inPool (pa_pools a ! u) r"
  shows "pa_freePages refs a = Inr a \<and> (\<forall>r \<in> set refs. pa_findMetadata (pr_addr r) a = None)"
proof -
  have "weak_order addrBefore" using weak_order_key [of pr_addr] by (simp add: addrBefore_def [abs_def])
  then obtain rs where rs: "sort_array addrBefore refs (length refs) = Inr rs" "mset rs = mset refs"
    using sort_all [of addrBefore refs] assms(6,7) by blast
  have st: "set rs = set refs" using rs(2) by (rule mset_eq_setD)
  have "freeWalk (domainTable a) None [] rs (pa_pools a) = Inr (pa_pools a)"
    by (rule freeWalk_none) (use unowned_entry [OF assms(1,2,4,5)] assms(8) st in blast)
  then have "pa_freePages refs a = Inr a" using rs(1) by (simp add: pa_freePages_def)
  moreover have "pa_findMetadata (pr_addr r) a = None" if r: "r \<in> set refs" for r
  proof -
    have "\<not> (nde_start e \<le> pr_addr r \<and> pr_addr r < nde_end e)" if "e \<in> set (domainTable a)" for e
      using unowned_entry [OF assms(1,2,4,5) _ that] assms(8) r by blast
    moreover have "sorted_wrt (\<lambda>x y. nde_end x \<le> nde_start y) (domainTable a)" "\<forall>e \<in> set (domainTable a). nde_start e < nde_end e"
      using assms(2) by (simp_all add: table_ok_def table_for_def)
    ultimately have "tableSearch (pr_addr r) (domainTable a) 0 (length (domainTable a)) \<noteq> Some m" for m
      using tableSearch_spec [OF _ _ order_refl] by auto
    then have "tableSearch (pr_addr r) (domainTable a) 0 (length (domainTable a)) = None" by (meson not_None_eq)
    then show ?thesis by (simp add: pa_findMetadata_def)
  qed
  ultimately show ?thesis by blast
qed

text \<open>
  \<open>allocateSmallPage\<close> only works below address \<open>0xffe0000\<close> (just under 256 MiB): when every page the processor
  can reach lies at or above it, a request for one page that could be met fails the assertion on the
  result instead.
\<close>

lemma small_page_address_limit:
  assumes "pa_inv c L S a" and "cpu < length (localPools a)" and "reachable (otherCaches cpu a) (pa_pools a) \<noteq> {}"
    and "\<forall>n \<in> reachable (otherCaches cpu a) (pa_pools a). 0xffe0 \<le> n"
  shows "allocateSmallPage cpu a = Inl (Assertion ''Result out of bounds???'')"
proof -
  let ?R = "reachable (otherCaches cpu a) (pa_pools a)"
  have w: "world c (allCaches a) L S (pa_pools a)" using assms(1) by (simp add: pa_inv_def)
  have "finite ?R" using finite_subset [OF reachable_avail finite_availAll [OF w]] .
  then have "1 \<le> card ?R" using assms(3) by (simp add: Suc_le_eq card_gt_0_iff)
  moreover have f: "\<not> flags_has 0 BIG_PAGE_ONLY" "\<not> flags_has 0 LOCAL_DOMAIN_ONLY" "(1 :: nat) + 511 < 2 ^ 64" by (simp_all add: flags_has_def)
  ultimately obtain a' refs where A: "pa_allocatePages cpu 1 0 a = Inr (a', 1, refs)" "totalPages refs = 1" "covered refs \<subseteq> ?R"
    using allocate_exact [OF assms(1,2) f(3,1,2)] unfolding Let_def by (auto simp: min_def)
  obtain r rs where r: "refs = r # rs" using A(2) by (cases refs) auto
  have pos: "0 < refCount q" for q by (simp add: refCount_def)
  have one: "rs = []" "refCount r = 1" using A(2) pos [of r] pos [of "hd rs"] unfolding r by (cases rs; simp)+
  then have "refPages r = {unat (pr_addr r) div 4096}" by (auto simp: refPages_def refCount_def Let_def split: if_splits)
  then have "0xffe0 \<le> unat (pr_addr r) div 4096" using A(3) assms(4) unfolding r by auto
  then have "0xffe0 * 4096 \<le> unat (pr_addr r)" by linarith
  then have "\<not> pr_addr r < 0xffe0000" by (simp add: word_less_nat_alt)
  then show ?thesis using A(1) one(1) unfolding r by (simp add: allocateSmallPage_def smallResult_def lastAddr_def assertO_def)
qed

text \<open>
  A request for a given domain, without \<open>BIG_PAGE_ONLY\<close> and \<open>LOCAL_DOMAIN_ONLY\<close>, takes from the pools of all domains in the
  order of the target's distances and then from the unowned pool. It bypasses the caches of all processors, the
  requesting one's too, and changes none of them; of the pages outside the caches it gets as many as it asked for,
  or all of them, and the kernel panics exactly when they do not suffice and no graceful failure was asked for.
\<close>

lemma domain_request_exact:
  assumes "pa_inv c L S a" and "cpu < length (localPools a)" and "n + 511 < 2 ^ 64"
    and "\<not> flags_has f BIG_PAGE_ONLY" and "\<not> flags_has f LOCAL_DOMAIN_ONLY"
    and "numaPolicy a = Some pol" and "domainOrder d pol = Inr order" and "unat ` set order = {..<length (numaPools a)}"
  shows "let r = card (reachable (allCaches a) (pa_pools a)) in
    if n \<le> r \<or> flags_has f GRACEFUL_OOM
    then \<exists>a' refs L' S'. allocateInDomain cpu n d f a = Inr (a', min n r, refs) \<and> pa_inv c L' S' a' \<and>
           took (pa_pools a) L refs (pa_pools a') L' \<and> totalPages refs = min n r \<and> localPools a' = localPools a
    else allocateInDomain cpu n d f a = Inl (Assertion ''Panic!!! Page allocator is out of memory'')"
  by (rule allocateInDomain_exact [OF assms])

end
