(* ===== verification/Hash_Table.thy ===== *)
theory Hash_Table
  imports Array_Slices Core_Math
begin

text \<open>
  \<open>IndexedHashTable\<close> of \<open>core/ds/IndexedHashTable.h\<close>, open addressing with tombstones, and its clients \<open>HashMap\<close>,
  \<open>HashSet\<close> and \<open>ImmutableIndexedHashSet\<close>. The hasher and the extractor are template parameters of the code and
  arguments here. An entry's value is only constructed while it is occupied.
\<close>

section \<open>The table\<close>

datatype 'e HashEntry = Empty | Tombstone | Occupied 'e

text \<open>\<open>None\<close> is the null buffer of a cleared or moved-from table; otherwise \<open>capacity\<close> is the length of the buffer.\<close>

record 'e IndexedHashTable =
  entryBuffer :: "'e HashEntry list option"
  ht_count :: nat

definition capacity :: "'e IndexedHashTable \<Rightarrow> nat" where
  "capacity t = (case entryBuffer t of None \<Rightarrow> 0 | Some buf \<Rightarrow> length buf)"

fun isOccupied :: "'e HashEntry \<Rightarrow> bool" where
  "isOccupied (Occupied _) = True"
| "isOccupied _ = False"

definition mkTable :: "nat \<Rightarrow> 'e IndexedHashTable" where
  "mkTable init_capacity = \<lparr>entryBuffer = Some (replicate init_capacity Empty), ht_count = 0\<rparr>"

definition clear :: "'e IndexedHashTable \<Rightarrow> 'e IndexedHashTable" where
  "clear t = (if entryBuffer t = None then t else \<lparr>entryBuffer = None, ht_count = 0\<rparr>)"

text \<open>The moved-to table and what is left of the source.\<close>

definition moveTable :: "'e IndexedHashTable \<Rightarrow> 'e IndexedHashTable \<times> 'e IndexedHashTable" where
  "moveTable other = (other, \<lparr>entryBuffer = None, ht_count = 0\<rparr>)"

section \<open>Resizing\<close>

text \<open>The inner loop of \<open>resize\<close>; in a full buffer it would not end.\<close>

fun freeEntry :: "'e HashEntry list \<Rightarrow> nat \<Rightarrow> nat \<Rightarrow> nat outcome" where
  "freeEntry buf index 0 = Inl Diverges"
| "freeEntry buf index (Suc n) = (if isOccupied (buf ! index) then freeEntry buf ((index + 1) mod length buf) n else Inr index)"

fun rehash :: "('k \<Rightarrow> nat) \<Rightarrow> ('e \<Rightarrow> 'k) \<Rightarrow> 'e HashEntry list \<Rightarrow> 'e HashEntry list \<Rightarrow> 'e HashEntry list outcome" where
  "rehash hasher extractor [] newEntries = Inr newEntries"
| "rehash hasher extractor (Occupied e # es) newEntries =
     (if length newEntries = 0 then Inl (Undefined ''division by zero'')
      else bindO (freeEntry newEntries (hasher (extractor e) mod length newEntries) (length newEntries)) (\<lambda>i.
        rehash hasher extractor es (newEntries[i := Occupied e])))"
| "rehash hasher extractor (_ # es) newEntries = rehash hasher extractor es newEntries"

definition resize :: "('k \<Rightarrow> nat) \<Rightarrow> ('e \<Rightarrow> 'k) \<Rightarrow> nat \<Rightarrow> 'e IndexedHashTable \<Rightarrow> 'e IndexedHashTable outcome" where
  "resize hasher extractor newCapacity t =
     bindO (rehash hasher extractor (case entryBuffer t of None \<Rightarrow> [] | Some buf \<Rightarrow> buf) (replicate newCapacity Empty)) (\<lambda>newEntries.
       Inr (t\<lparr>entryBuffer := Some newEntries\<rparr>))"

definition LOAD_FACTOR_PERCENTAGE_INCREASE_THRESHOLD :: nat where
  "LOAD_FACTOR_PERCENTAGE_INCREASE_THRESHOLD = 75"

definition LOAD_FACTOR_PERCENTAGE_DECREASE_THRESHOLD :: nat where
  "LOAD_FACTOR_PERCENTAGE_DECREASE_THRESHOLD = 30"

text \<open>The products are of type \<open>size_t\<close> and wrap.\<close>

definition resizeIfNecessary :: "('k \<Rightarrow> nat) \<Rightarrow> ('e \<Rightarrow> 'k) \<Rightarrow> 'e IndexedHashTable \<Rightarrow> ('e IndexedHashTable \<times> bool) outcome" where
  "resizeIfNecessary hasher extractor t =
     (if capacity t = 0 then bindO (resize hasher extractor 8 t) (\<lambda>t'. Inr (t', True))
      else let loadFactorPercentage = (ht_count t * 100 mod 2 ^ 64) div capacity t
           in if LOAD_FACTOR_PERCENTAGE_INCREASE_THRESHOLD < loadFactorPercentage
              then bindO (resize hasher extractor (ht_count t * 2 mod 2 ^ 64) t) (\<lambda>t'. Inr (t', True))
              else if loadFactorPercentage < LOAD_FACTOR_PERCENTAGE_DECREASE_THRESHOLD \<and> 16 < capacity t
              then bindO (resize hasher extractor (max (((ht_count t * 6 mod 2 ^ 64) + 4) mod 2 ^ 64 div 5) 16) t) (\<lambda>t'. Inr (t', True))
              else Inr (t, False))"

section \<open>Probing\<close>

text \<open>
  \<open>n\<close> is how many entries are left until the index is back at its start. The pointer the code
  calls \<open>firstSeenTombstone\<close> is moved at every tombstone.
\<close>

fun probeLoop :: "('e \<Rightarrow> 'k) \<Rightarrow> 'k \<Rightarrow> 'e HashEntry list \<Rightarrow> nat \<Rightarrow> nat \<Rightarrow> nat option \<Rightarrow> nat outcome" where
  "probeLoop extractor key buf index 0 seen = Inl (Assertion ''HashMap did not obey its own load limit'')"
| "probeLoop extractor key buf index (Suc n) seen =
     (case buf ! index of
        Empty \<Rightarrow> Inr (case seen of Some i \<Rightarrow> i | None \<Rightarrow> index)
      | Occupied e \<Rightarrow> if extractor e = key then Inr index else probeLoop extractor key buf ((index + 1) mod length buf) n seen
      | Tombstone \<Rightarrow> probeLoop extractor key buf ((index + 1) mod length buf) n (Some index))"

definition probeBuffer :: "('k \<Rightarrow> nat) \<Rightarrow> ('e \<Rightarrow> 'k) \<Rightarrow> 'k \<Rightarrow> 'e HashEntry list \<Rightarrow> nat outcome" where
  "probeBuffer hasher extractor key buf =
     (if length buf = 0 then Inl (Undefined ''division by zero'')
      else probeLoop extractor key buf (hasher key mod length buf) (length buf) None)"

definition probeEntry :: "('k \<Rightarrow> nat) \<Rightarrow> ('e \<Rightarrow> 'k) \<Rightarrow> 'k \<Rightarrow> 'e IndexedHashTable \<Rightarrow> (nat \<times> 'e HashEntry) outcome" where
  "probeEntry hasher extractor key t =
     (case entryBuffer t of
        None \<Rightarrow> Inl (Undefined ''division by zero'')
      | Some buf \<Rightarrow> bindO (probeBuffer hasher extractor key buf) (\<lambda>i. Inr (i, buf ! i)))"

definition putEntry :: "nat \<Rightarrow> 'e HashEntry \<Rightarrow> 'e IndexedHashTable \<Rightarrow> 'e IndexedHashTable" where
  "putEntry i x t = t\<lparr>entryBuffer := map_option (\<lambda>buf. buf[i := x]) (entryBuffer t)\<rparr>"

section \<open>Insertion and removal\<close>

text \<open>\<open>fresh\<close> is what \<open>Inserter::freshInsert\<close> constructs, \<open>over\<close> what \<open>Inserter::overwrite\<close> does to the value.\<close>

definition ht_insert :: "('k \<Rightarrow> nat) \<Rightarrow> ('e \<Rightarrow> 'k) \<Rightarrow> 'k \<Rightarrow> 'e \<Rightarrow> ('e \<Rightarrow> 'e) \<Rightarrow> 'e IndexedHashTable \<Rightarrow> 'e IndexedHashTable outcome" where
  "ht_insert hasher extractor key fresh over t =
     bindO (resizeIfNecessary hasher extractor t) (\<lambda>(t1, _).
     bindO (probeEntry hasher extractor key t1) (\<lambda>(i, entry).
       case entry of
         Occupied e \<Rightarrow> Inr (putEntry i (Occupied (over e)) t1)
       | _ \<Rightarrow> bindO (resizeIfNecessary hasher extractor (putEntry i (Occupied fresh) (t1\<lparr>ht_count := ht_count t1 + 1\<rparr>))) (\<lambda>(t2, _). Inr t2)))"

definition eraseAt :: "('k \<Rightarrow> nat) \<Rightarrow> ('e \<Rightarrow> 'k) \<Rightarrow> nat \<Rightarrow> 'e IndexedHashTable \<Rightarrow> 'e IndexedHashTable outcome" where
  "eraseAt hasher extractor i t =
     bindO (resizeIfNecessary hasher extractor ((putEntry i Tombstone t)\<lparr>ht_count := sub_size (ht_count t) 1\<rparr>)) (\<lambda>(t', _). Inr t')"

definition ht_remove :: "('k \<Rightarrow> nat) \<Rightarrow> ('e \<Rightarrow> 'k) \<Rightarrow> 'k \<Rightarrow> 'e IndexedHashTable \<Rightarrow> ('e IndexedHashTable \<times> bool) outcome" where
  "ht_remove hasher extractor key t =
     (if entryBuffer t = None then Inr (t, False)
      else bindO (probeEntry hasher extractor key t) (\<lambda>(i, entry).
        if isOccupied entry then bindO (eraseAt hasher extractor i t) (\<lambda>t'. Inr (t', True)) else Inr (t, False)))"

definition ht_contains :: "('k \<Rightarrow> nat) \<Rightarrow> ('e \<Rightarrow> 'k) \<Rightarrow> 'k \<Rightarrow> 'e IndexedHashTable \<Rightarrow> bool outcome" where
  "ht_contains hasher extractor key t =
     (if entryBuffer t = None then Inr False
      else bindO (probeEntry hasher extractor key t) (\<lambda>(_, entry). Inr (isOccupied entry)))"

text \<open>What an iterator visits, from the first index to the last.\<close>

definition iterated :: "'e IndexedHashTable \<Rightarrow> 'e list" where
  "iterated t = (case entryBuffer t of None \<Rightarrow> [] | Some buf \<Rightarrow> concat (map (\<lambda>x. case x of Occupied e \<Rightarrow> [e] | _ \<Rightarrow> []) buf))"

section \<open>The map\<close>

type_synonym ('k, 'v) HashMap = "('k \<times> 'v) IndexedHashTable"

definition hm_insert :: "('k \<Rightarrow> nat) \<Rightarrow> 'k \<Rightarrow> 'v \<Rightarrow> ('k, 'v) HashMap \<Rightarrow> ('k, 'v) HashMap outcome" where
  "hm_insert hasher key value = ht_insert hasher fst key (key, value) (\<lambda>e. (fst e, value))"

definition hm_get :: "('k \<Rightarrow> nat) \<Rightarrow> 'k \<Rightarrow> ('k, 'v) HashMap \<Rightarrow> 'v option outcome" where
  "hm_get hasher key t =
     bindO (probeEntry hasher fst key t) (\<lambda>(_, entry). Inr (case entry of Occupied e \<Rightarrow> Some (snd e) | _ \<Rightarrow> None))"

definition hm_remove :: "('k \<Rightarrow> nat) \<Rightarrow> 'k \<Rightarrow> ('k, 'v) HashMap \<Rightarrow> (('k, 'v) HashMap \<times> bool) outcome" where
  "hm_remove hasher key t =
     bindO (probeEntry hasher fst key t) (\<lambda>(i, entry).
       if isOccupied entry then bindO (eraseAt hasher fst i t) (\<lambda>t'. Inr (t', True)) else Inr (t, False))"

definition hm_at :: "('k \<Rightarrow> nat) \<Rightarrow> 'k \<Rightarrow> ('k, 'v) HashMap \<Rightarrow> 'v outcome" where
  "hm_at hasher key t =
     bindO (probeEntry hasher fst key t) (\<lambda>(_, entry).
       case entry of Occupied e \<Rightarrow> Inr (snd e) | _ \<Rightarrow> Inl (Assertion ''Key not found in HashMap::at()''))"

text \<open>
  \<open>operator[]\<close>: a missing key gets the value \<open>V{}\<close>. The count is raised before the resize, while the new
  entry is not yet in the buffer. The result is the index of the entry the reference is into.
\<close>

definition hm_index :: "('k \<Rightarrow> nat) \<Rightarrow> 'v \<Rightarrow> 'k \<Rightarrow> ('k, 'v) HashMap \<Rightarrow> (('k, 'v) HashMap \<times> nat) outcome" where
  "hm_index hasher dflt key t =
     bindO (probeEntry hasher fst key t) (\<lambda>(i, entry).
       if isOccupied entry then Inr (t, i)
       else bindO (resizeIfNecessary hasher fst (t\<lparr>ht_count := ht_count t + 1\<rparr>)) (\<lambda>(t1, resized).
            bindO (if resized then bindO (probeEntry hasher fst key t1) (\<lambda>(j, _). Inr j) else Inr i) (\<lambda>j.
              Inr (putEntry j (Occupied (key, dflt)) t1, j))))"

section \<open>The sets\<close>

type_synonym 't HashSet = "'t IndexedHashTable"

definition hs_insert :: "('t \<Rightarrow> nat) \<Rightarrow> 't \<Rightarrow> 't HashSet \<Rightarrow> ('t HashSet \<times> bool) outcome" where
  "hs_insert hasher element t =
     bindO (ht_contains hasher id element t) (\<lambda>present.
       if present then Inr (t, True)
       else bindO (ht_insert hasher id element element (\<lambda>_. element) t) (\<lambda>t'. Inr (t', False)))"

text \<open>
  \<open>moved\<close> is what the move constructor of the element type leaves behind: the parameter pack of \<open>_insert\<close> is by value, so
  the element is moved out of before the body runs, and the key, a reference to it, is what is left.
\<close>

definition hs_insertMove :: "('t \<Rightarrow> nat) \<Rightarrow> ('t \<Rightarrow> 't) \<Rightarrow> 't \<Rightarrow> 't HashSet \<Rightarrow> ('t HashSet \<times> bool) outcome" where
  "hs_insertMove hasher moved element t =
     bindO (ht_contains hasher id element t) (\<lambda>present.
       bindO (ht_insert hasher id (moved element) element (\<lambda>_. element) t) (\<lambda>t'. Inr (t', present)))"

definition hs_remove :: "('t \<Rightarrow> nat) \<Rightarrow> 't \<Rightarrow> 't HashSet \<Rightarrow> 't HashSet outcome" where
  "hs_remove hasher element t = bindO (ht_remove hasher id element t) (\<lambda>(t', _). Inr t')"

definition indexOf :: "('t \<Rightarrow> nat) \<Rightarrow> 't \<Rightarrow> 't HashSet \<Rightarrow> nat option outcome" where
  "indexOf hasher element t = bindO (probeEntry hasher id element t) (\<lambda>(i, entry). Inr (if isOccupied entry then Some i else None))"

definition fromIndex :: "nat \<Rightarrow> 't HashSet \<Rightarrow> 't option" where
  "fromIndex index t =
     (if capacity t \<le> index then None
      else case entryBuffer t of None \<Rightarrow> None | Some buf \<Rightarrow> (case buf ! index of Occupied e \<Rightarrow> Some e | _ \<Rightarrow> None))"

end
