(* ===== verification/Hash_Table_Laws.thy ===== *)
theory Hash_Table_Laws
  imports Hash_Table "HOL-Library.Multiset"
begin

text \<open>
  The invariant of a hash table buffer: the keys are distinct and every entry can be probed for from the index its
  key hashes to without crossing an empty one. Probing, rehashing and the updates of one entry against it.
\<close>

section \<open>What a buffer holds\<close>

fun content :: "'e HashEntry \<Rightarrow> 'e list" where
  "content (Occupied e) = [e]"
| "content _ = []"

definition occupants :: "'e HashEntry list \<Rightarrow> 'e list" where
  "occupants buf = concat (map content buf)"

definition tableOf :: "('e \<Rightarrow> 'k) \<Rightarrow> 'e list \<Rightarrow> 'k \<rightharpoonup> 'e" where
  "tableOf extractor es = map_of (map (\<lambda>e. (extractor e, e)) es)"

lemma occupants_simps [simp]:
  "occupants [] = []"
  "occupants (x # buf) = content x @ occupants buf"
  "occupants (buf @ buf') = occupants buf @ occupants buf'"
  by (simp_all add: occupants_def)

lemma occupants_replicate [simp]: "occupants (replicate n Empty) = []"
  by (induction n) simp_all

lemma content_not_occupied [simp]: "\<not> isOccupied x \<Longrightarrow> content x = []"
  by (cases x) simp_all

lemma isOccupied_iff: "isOccupied x \<longleftrightarrow> (\<exists>e. x = Occupied e)"
  by (cases x) simp_all

lemma set_occupants: "e \<in> set (occupants buf) \<longleftrightarrow> Occupied e \<in> set buf"
proof (induction buf)
  case (Cons x buf)
  then show ?case by (cases x) auto
qed simp

lemma occupant_at: "\<lbrakk>i < length buf; buf ! i = Occupied e\<rbrakk> \<Longrightarrow> e \<in> set (occupants buf)"
  by (simp add: set_occupants) (metis nth_mem)

lemma occupantE:
  assumes "e \<in> set (occupants buf)"
  obtains i where "i < length buf" "buf ! i = Occupied e"
proof -
  have "Occupied e \<in> set buf" using assms by (simp add: set_occupants)
  then show ?thesis using that by (auto simp: in_set_conv_nth)
qed

lemma length_content: "length (content x) \<le> 1"
  by (cases x) simp_all

lemma length_occupants: "length (occupants buf) \<le> length buf"
proof (induction buf)
  case (Cons x buf)
  then show ?case using length_content [of x] by simp
qed simp

lemma room_left:
  assumes "length (occupants buf) < length buf"
  obtains i where "i < length buf" "\<not> isOccupied (buf ! i)"
proof -
  have "\<exists>x\<in>set buf. \<not> isOccupied x"
    using assms
  proof (induction buf)
    case (Cons x buf)
    then show ?case by (cases x) (auto dest: Suc_lessD)
  qed simp
  then show ?thesis using that by (auto simp: in_set_conv_nth)
qed

text \<open>Writing one entry, as a split of the buffer around it.\<close>

lemma update_split:
  assumes "i < length buf"
  obtains xs ys where "buf = xs @ buf ! i # ys" "length xs = i" "\<And>x. buf[i := x] = xs @ x # ys"
proof
  show "buf = take i buf @ buf ! i # drop (Suc i) buf" using assms by (rule id_take_nth_drop)
  show "length (take i buf) = i" using assms by simp
  show "buf[i := x] = take i buf @ x # drop (Suc i) buf" for x using assms by (rule upd_conv_take_nth_drop)
qed

lemma mset_occupants_update:
  assumes "i < length buf" "\<not> isOccupied (buf ! i)"
  shows "mset (occupants (buf[i := Occupied e])) = add_mset e (mset (occupants buf))"
proof -
  obtain xs ys where s: "buf = xs @ buf ! i # ys" "\<And>x. buf[i := x] = xs @ x # ys" using update_split [OF assms(1)] by metis
  have "occupants buf = occupants xs @ occupants ys" by (subst s(1)) (simp add: assms(2))
  then show ?thesis by (simp add: s(2))
qed

lemma mset_occupants_replace:
  assumes "i < length buf" "buf ! i = Occupied e"
  shows "mset (occupants (buf[i := Occupied e'])) = add_mset e' (mset (occupants buf) - {#e#})"
    and "mset (occupants (buf[i := Tombstone])) = mset (occupants buf) - {#e#}"
proof -
  obtain xs ys where s: "buf = xs @ buf ! i # ys" "\<And>x. buf[i := x] = xs @ x # ys" using update_split [OF assms(1)] by metis
  have "occupants buf = occupants xs @ e # occupants ys" by (subst s(1)) (simp add: assms(2))
  then show "mset (occupants (buf[i := Occupied e'])) = add_mset e' (mset (occupants buf) - {#e#})"
    and "mset (occupants (buf[i := Tombstone])) = mset (occupants buf) - {#e#}" by (simp_all add: s(2))
qed

section \<open>The map of a list of entries with distinct keys\<close>

text \<open>Everything below only depends on the multiset of the entries.\<close>

definition unique_keys :: "('e \<Rightarrow> 'k) \<Rightarrow> 'e list \<Rightarrow> bool" where
  "unique_keys extractor es \<longleftrightarrow> distinct (map extractor es)"

lemma unique_keys_mset:
  assumes "mset es = mset es'"
  shows "unique_keys extractor es \<longleftrightarrow> unique_keys extractor es'"
proof -
  have "mset (map extractor es) = mset (map extractor es')" using assms by simp
  then show ?thesis unfolding unique_keys_def by (rule mset_eq_imp_distinct_iff)
qed

lemma tableOf_iff:
  assumes "unique_keys extractor es"
  shows "tableOf extractor es k = Some e \<longleftrightarrow> e \<in> set es \<and> extractor e = k"
proof -
  have "distinct (map fst (map (\<lambda>e. (extractor e, e)) es))" using assms by (simp add: unique_keys_def comp_def)
  then show ?thesis by (auto simp: tableOf_def)
qed

lemma tableOf_None_iff: "tableOf extractor es k = None \<longleftrightarrow> k \<notin> extractor ` set es"
  by (auto simp: tableOf_def map_of_eq_None_iff image_image)

lemma tableOf_mset:
  assumes "mset es = mset es'" "unique_keys extractor es"
  shows "tableOf extractor es = tableOf extractor es'"
proof
  fix k
  have u: "unique_keys extractor es'" using assms unique_keys_mset by blast
  have "set es = set es'" using assms(1) by (rule mset_eq_setD)
  then show "tableOf extractor es k = tableOf extractor es' k"
    using tableOf_iff [OF assms(2), of k] tableOf_iff [OF u, of k]
    by (cases "tableOf extractor es k"; cases "tableOf extractor es' k") auto
qed

lemma unique_keys_add:
  assumes "mset es' = add_mset e (mset es)" "unique_keys extractor es" "extractor e \<notin> extractor ` set es"
  shows "unique_keys extractor es'" "tableOf extractor es' = (tableOf extractor es)(extractor e \<mapsto> e)"
proof -
  have m: "mset es' = mset (e # es)" using assms(1) by simp
  have u: "unique_keys extractor (e # es)" using assms by (simp add: unique_keys_def)
  then show "unique_keys extractor es'" using unique_keys_mset [OF m, of extractor] by simp
  have "tableOf extractor (e # es) = tableOf extractor es'" using tableOf_mset [OF m [symmetric] u] .
  then show "tableOf extractor es' = (tableOf extractor es)(extractor e \<mapsto> e)" by (simp add: tableOf_def)
qed

lemma unique_keys_del:
  assumes "mset es' = mset es - {#e#}" "e \<in> set es" "unique_keys extractor es"
  shows "unique_keys extractor es'" "tableOf extractor es' = (tableOf extractor es)(extractor e := None)"
    "extractor e \<notin> extractor ` set es'"
proof -
  have m: "mset es = mset (e # es')" using assms(1,2) by simp
  have u: "unique_keys extractor (e # es')" using assms(3) unique_keys_mset [OF m, of extractor] by simp
  then show u': "unique_keys extractor es'" and n: "extractor e \<notin> extractor ` set es'" by (simp_all add: unique_keys_def)
  have "tableOf extractor es = tableOf extractor (e # es')" using tableOf_mset [OF m assms(3)] .
  moreover have "tableOf extractor es' (extractor e) = None" using n by (simp add: tableOf_None_iff)
  ultimately show "tableOf extractor es' = (tableOf extractor es)(extractor e := None)" by (auto simp: tableOf_def)
qed

lemma unique_keys_replace:
  assumes "mset es' = add_mset e' (mset es - {#e#})" "e \<in> set es" "unique_keys extractor es" "extractor e' = extractor e"
  shows "unique_keys extractor es'" "tableOf extractor es' = (tableOf extractor es)(extractor e \<mapsto> e')"
proof -
  obtain ds where d: "mset ds = mset es - {#e#}" using ex_mset by blast
  note del = unique_keys_del [OF d assms(2,3)]
  have a: "mset es' = add_mset e' (mset ds)" using assms(1) d by simp
  have n: "extractor e' \<notin> extractor ` set ds" using del(3) assms(4) by simp
  note add = unique_keys_add [OF a del(1) n]
  show "unique_keys extractor es'" by (fact add(1))
  show "tableOf extractor es' = (tableOf extractor es)(extractor e \<mapsto> e')" using add(2) del(2) assms(4) by simp
qed

section \<open>Probe sequences\<close>

definition probes :: "'e HashEntry list \<Rightarrow> nat \<Rightarrow> nat \<Rightarrow> bool" where
  "probes buf s i \<longleftrightarrow> (\<exists>d<length buf. i = (s + d) mod length buf \<and> (\<forall>d'<d. buf ! ((s + d') mod length buf) \<noteq> Empty))"

text \<open>An index is \<open>s\<close> plus some distance, around the end.\<close>

lemma around:
  fixes s i n :: nat
  assumes "i < n" "s < n"
  obtains d where "d < n" "i = (s + d) mod n"
proof (cases "s \<le> i")
  case True
  then show ?thesis using assms that [of "i - s"] by simp
next
  case False
  have "(s + (n - s + i)) mod n = (i + n) mod n" using assms False by (intro arg_cong [of _ _ "\<lambda>x. x mod n"]) linarith
  then show ?thesis using assms False that [of "n - s + i"] by simp
qed

lemma probes_mono:
  assumes "probes buf s i" "length buf' = length buf" "\<And>j. \<lbrakk>j < length buf; buf' ! j = Empty\<rbrakk> \<Longrightarrow> buf ! j = Empty"
  shows "probes buf' s i"
proof -
  obtain d where d: "d < length buf" "i = (s + d) mod length buf" "\<forall>d'<d. buf ! ((s + d') mod length buf) \<noteq> Empty"
    using assms(1) by (auto simp: probes_def)
  have "buf' ! ((s + d') mod length buf) \<noteq> Empty" if "d' < d" for d'
  proof -
    have "0 < length buf" using d(1) by linarith
    then have "(s + d') mod length buf < length buf" by simp
    then show ?thesis using d(3) that assms(3) by blast
  qed
  then show ?thesis using d assms(2) by (auto simp: probes_def)
qed

lemma probes_update:
  "\<lbrakk>probes buf s i; x \<noteq> Empty\<rbrakk> \<Longrightarrow> probes (buf[j := x]) s i"
  by (erule probes_mono) (simp, metis nth_list_update_eq nth_list_update_neq)

definition well_placed :: "('k \<Rightarrow> nat) \<Rightarrow> ('e \<Rightarrow> 'k) \<Rightarrow> 'e HashEntry list \<Rightarrow> bool" where
  "well_placed hasher extractor buf \<longleftrightarrow>
     (\<forall>i<length buf. case buf ! i of Occupied e \<Rightarrow> probes buf (hasher (extractor e) mod length buf) i | _ \<Rightarrow> True)"

lemma well_placedD:
  "\<lbrakk>well_placed hasher extractor buf; i < length buf; buf ! i = Occupied e\<rbrakk> \<Longrightarrow> probes buf (hasher (extractor e) mod length buf) i"
  by (fastforce simp: well_placed_def)

lemma well_placed_update:
  assumes "well_placed hasher extractor buf" "x \<noteq> Empty"
    "\<And>e. x = Occupied e \<Longrightarrow> probes buf (hasher (extractor e) mod length buf) i"
  shows "well_placed hasher extractor (buf[i := x])"
  unfolding well_placed_def
proof (intro allI impI)
  fix j
  assume j: "j < length (buf[i := x])"
  show "case buf[i := x] ! j of Occupied e \<Rightarrow> probes (buf[i := x]) (hasher (extractor e) mod length (buf[i := x])) j | _ \<Rightarrow> True"
  proof (cases "buf[i := x] ! j")
    case (Occupied e)
    then have "probes buf (hasher (extractor e) mod length buf) j"
      using assms(1,3) j by (cases "i = j") (auto dest: well_placedD)
    then show ?thesis using probes_update [OF _ assms(2)] Occupied by simp
  qed simp_all
qed

lemma well_placed_replicate [simp]: "well_placed hasher extractor (replicate n Empty)"
  by (simp add: well_placed_def)


section \<open>Probing\<close>

definition hole :: "'e HashEntry list \<Rightarrow> bool" where
  "hole buf \<longleftrightarrow> Empty \<in> set buf"

lemma mod_step: "((s + d) mod n + 1) mod n = (s + Suc d) mod (n::nat)"
  by (simp add: mod_Suc_eq)

text \<open>What the loop finds, whatever the placement of the entries.\<close>

definition seenNot :: "('e \<Rightarrow> 'k) \<Rightarrow> 'k \<Rightarrow> 'e HashEntry list \<Rightarrow> nat \<Rightarrow> nat \<Rightarrow> bool" where
  "seenNot extractor key buf s d \<longleftrightarrow>
     (\<forall>d'<d. buf ! ((s + d') mod length buf) \<noteq> Empty \<and> (\<forall>e. buf ! ((s + d') mod length buf) = Occupied e \<longrightarrow> extractor e \<noteq> key))"

definition probed :: "('e \<Rightarrow> 'k) \<Rightarrow> 'k \<Rightarrow> 'e HashEntry list \<Rightarrow> nat \<Rightarrow> nat outcome \<Rightarrow> bool" where
  "probed extractor key buf s r \<longleftrightarrow>
     (case r of
        Inl x \<Rightarrow> x = Assertion ''HashMap did not obey its own load limit'' \<and> seenNot extractor key buf s (length buf)
      | Inr i \<Rightarrow> i < length buf \<and>
          ((\<exists>e. buf ! i = Occupied e \<and> extractor e = key) \<or>
           (\<not> isOccupied (buf ! i) \<and> probes buf s i \<and>
            (\<exists>d<length buf. seenNot extractor key buf s d \<and> buf ! ((s + d) mod length buf) = Empty))))"

lemma seenNot_Suc:
  "seenNot extractor key buf s (Suc d) \<longleftrightarrow>
     seenNot extractor key buf s d \<and> buf ! ((s + d) mod length buf) \<noteq> Empty \<and>
     (\<forall>e. buf ! ((s + d) mod length buf) = Occupied e \<longrightarrow> extractor e \<noteq> key)"
  by (auto simp: seenNot_def less_Suc_eq)

lemma seenNot_probes: "\<lbrakk>seenNot extractor key buf s d; d < length buf\<rbrakk> \<Longrightarrow> probes buf s ((s + d) mod length buf)"
  by (auto simp: seenNot_def probes_def)

lemma probeLoop_probed:
  assumes "d + n = length buf" "seenNot extractor key buf s d"
    "\<And>i. seen = Some i \<Longrightarrow> i < length buf \<and> \<not> isOccupied (buf ! i) \<and> probes buf s i"
  shows "probed extractor key buf s (probeLoop extractor key buf ((s + d) mod length buf) n seen)"
  using assms
proof (induction n arbitrary: d seen)
  case 0
  then show ?case by (simp add: probed_def)
next
  case (Suc n)
  let ?i = "(s + d) mod length buf"
  have l: "d < length buf" and i: "?i < length buf" using Suc.prems(1) by simp_all (metis less_zeroE linorder_neqE_nat mod_less_divisor add_is_0 nat.distinct(1))
  have p: "probes buf s ?i" using Suc.prems(2) l by (rule seenNot_probes)
  have m: "(?i + 1) mod length buf = (s + Suc d) mod length buf" by (rule mod_step)
  have n: "Suc d + n = length buf" using Suc.prems(1) by simp
  show ?case
  proof (cases "buf ! ?i")
    case Empty
    show ?thesis
    proof (cases seen)
      case None
      then show ?thesis using Suc.prems(2) Empty l i p by (auto simp: probed_def)
    next
      case (Some j)
      then show ?thesis using Suc.prems(2) Suc.prems(3) [OF Some] Empty l by (auto simp: probed_def)
    qed
  next
    case Tombstone
    then have "seenNot extractor key buf s (Suc d)" using Suc.prems(2) by (simp add: seenNot_Suc)
    from Suc.IH [OF n this, of "Some ?i"] show ?thesis using Tombstone m i p by simp
  next
    case (Occupied e)
    show ?thesis
    proof (cases "extractor e = key")
      case True
      then show ?thesis using Occupied i by (auto simp: probed_def)
    next
      case False
      then have "seenNot extractor key buf s (Suc d)" using Suc.prems(2) Occupied by (simp add: seenNot_Suc)
      from Suc.IH [OF n this Suc.prems(3)] show ?thesis using Occupied False m by simp
    qed
  qed
qed

definition buffer_ok :: "('k \<Rightarrow> nat) \<Rightarrow> ('e \<Rightarrow> 'k) \<Rightarrow> 'e HashEntry list \<Rightarrow> bool" where
  "buffer_ok hasher extractor buf \<longleftrightarrow> unique_keys extractor (occupants buf) \<and> well_placed hasher extractor buf"

abbreviation mapOf :: "('e \<Rightarrow> 'k) \<Rightarrow> 'e HashEntry list \<Rightarrow> 'k \<rightharpoonup> 'e" where
  "mapOf extractor buf \<equiv> tableOf extractor (occupants buf)"

lemma probeBuffer_probed:
  assumes "buf \<noteq> []"
  shows "probed extractor key buf (hasher key mod length buf) (probeBuffer hasher extractor key buf)"
  using probeLoop_probed [of 0 "length buf" buf extractor key "hasher key mod length buf" None] assms
  by (simp add: probeBuffer_def seenNot_def)

text \<open>An entry for the key is on the probe sequence before the first empty one.\<close>

lemma seenNot_absent:
  assumes "buffer_ok hasher extractor buf" "mapOf extractor buf key = Some e"
    "d < length buf" "seenNot extractor key buf (hasher key mod length buf) d"
  shows "buf ! ((hasher key mod length buf + d) mod length buf) \<noteq> Empty" "\<not> seenNot extractor key buf (hasher key mod length buf) (length buf)"
proof -
  have "e \<in> set (occupants buf)" and k: "extractor e = key"
    using assms(1,2) by (simp_all add: buffer_ok_def tableOf_iff)
  then obtain i where i: "i < length buf" "buf ! i = Occupied e" by (auto elim: occupantE)
  then have "probes buf (hasher key mod length buf) i" using assms(1) k by (auto simp: buffer_ok_def dest: well_placedD)
  then obtain d' where d': "d' < length buf" "i = (hasher key mod length buf + d') mod length buf"
    "\<forall>x<d'. buf ! ((hasher key mod length buf + x) mod length buf) \<noteq> Empty" by (auto simp: probes_def)
  then show "\<not> seenNot extractor key buf (hasher key mod length buf) (length buf)" using i k by (auto simp: seenNot_def)
  have "\<not> d' < d" using assms(4) d' i k by (auto simp: seenNot_def)
  then consider "d = d'" | "d < d'" by linarith
  then show "buf ! ((hasher key mod length buf + d) mod length buf) \<noteq> Empty" using d' i by cases auto
qed

lemma probe_present:
  assumes "buffer_ok hasher extractor buf" "mapOf extractor buf key = Some e"
  obtains i where "probeBuffer hasher extractor key buf = Inr i" "i < length buf" "buf ! i = Occupied e" "extractor e = key"
proof -
  have u: "unique_keys extractor (occupants buf)" using assms(1) by (simp add: buffer_ok_def)
  have ne: "buf \<noteq> []" using assms(2) by (auto simp: tableOf_def)
  note p = probeBuffer_probed [OF ne, of extractor key hasher]
  note a = seenNot_absent [OF assms]
  show ?thesis
  proof (cases "probeBuffer hasher extractor key buf")
    case (Inl x)
    then have "seenNot extractor key buf (hasher key mod length buf) (length buf)" using p by (simp add: probed_def)
    then show ?thesis using a(2) [of 0] ne by (simp add: seenNot_def)
  next
    case (Inr i)
    then obtain e' where e': "i < length buf" "buf ! i = Occupied e'" "extractor e' = key"
      using p a(1) by (auto simp: probed_def)
    then have "mapOf extractor buf key = Some e'" using tableOf_iff [OF u] occupant_at by metis
    then show ?thesis using that [OF Inr] e' assms(2) by simp
  qed
qed

lemma probe_absent:
  assumes "buffer_ok hasher extractor buf" "mapOf extractor buf key = None" "hole buf"
  obtains i where "probeBuffer hasher extractor key buf = Inr i" "i < length buf" "\<not> isOccupied (buf ! i)"
    "probes buf (hasher key mod length buf) i"
proof -
  have ne: "buf \<noteq> []" using assms(3) by (auto simp: hole_def)
  obtain j where j: "j < length buf" "buf ! j = Empty" using assms(3) by (auto simp: hole_def in_set_conv_nth)
  have "hasher key mod length buf < length buf" using ne by simp
  then obtain d where d: "d < length buf" "j = (hasher key mod length buf + d) mod length buf" using around [OF j(1)] by metis
  note p = probeBuffer_probed [OF ne, of extractor key hasher]
  have n: "\<And>i e. \<lbrakk>i < length buf; buf ! i = Occupied e\<rbrakk> \<Longrightarrow> extractor e \<noteq> key"
    using assms(2) by (auto simp: tableOf_None_iff dest: occupant_at)
  show ?thesis
  proof (cases "probeBuffer hasher extractor key buf")
    case (Inl x)
    then show ?thesis using p d j by (auto simp: probed_def seenNot_def)
  next
    case (Inr i)
    then show ?thesis using p n that by (auto simp: probed_def)
  qed
qed

text \<open>With no empty entry left, a key that is not in the table is an assertion failure.\<close>

lemma probe_fails:
  assumes "mapOf extractor buf key = None" "\<not> hole buf" "buf \<noteq> []"
  shows "probeBuffer hasher extractor key buf = Inl (Assertion ''HashMap did not obey its own load limit'')"
proof -
  note p = probeBuffer_probed [OF assms(3), of extractor key hasher]
  have n: "\<And>i e. \<lbrakk>i < length buf; buf ! i = Occupied e\<rbrakk> \<Longrightarrow> extractor e \<noteq> key"
    using assms(1) by (auto simp: tableOf_None_iff dest: occupant_at)
  have m: "(hasher key mod length buf + d) mod length buf < length buf" for d using assms(3) by simp
  then have "buf ! ((hasher key mod length buf + d) mod length buf) \<noteq> Empty" for d using assms(2) by (metis hole_def nth_mem)
  then show ?thesis using p n by (cases "probeBuffer hasher extractor key buf") (auto simp: probed_def)
qed

text \<open>An empty entry at the index the key hashes to ends the probe at once.\<close>

lemma probeEntry_home:
  assumes "entryBuffer t = Some buf" "i < length buf" "hasher key mod length buf = i" "buf ! i = Empty"
  shows "probeEntry hasher extractor key t = Inr (i, Empty)"
proof -
  obtain n where n: "length buf = Suc n" using assms(2) by (cases buf) auto
  have "probeLoop extractor key buf i (Suc n) None = Inr i" using assms(4) by simp
  then have "probeBuffer hasher extractor key buf = Inr i" using assms(3) n by (simp add: probeBuffer_def)
  then show ?thesis using assms by (simp add: probeEntry_def)
qed

end
