(* ===== verification/Hash_Table_Ops.thy ===== *)
theory Hash_Table_Ops
  imports Hash_Table_Laws
begin

text \<open>
  Every operation of the hash table against the map its entries represent: rehashing and resizing keep the entries,
  drop the tombstones and leave an empty entry; insertion, removal and lookup are those of the map as long as the
  key is there, an empty entry is left or the table is resized first.
\<close>

section \<open>One entry\<close>

lemma buffer_put:
  assumes "buffer_ok hasher extractor buf" "mapOf extractor buf (extractor e) = None"
    "i < length buf" "\<not> isOccupied (buf ! i)" "probes buf (hasher (extractor e) mod length buf) i"
  shows "buffer_ok hasher extractor (buf[i := Occupied e])"
    "mapOf extractor (buf[i := Occupied e]) = (mapOf extractor buf)(extractor e \<mapsto> e)"
    "length (occupants (buf[i := Occupied e])) = length (occupants buf) + 1"
proof -
  have ok: "unique_keys extractor (occupants buf)" "well_placed hasher extractor buf" using assms(1) by (simp_all add: buffer_ok_def)
  note m = mset_occupants_update [OF assms(3,4), of e]
  have n: "extractor e \<notin> extractor ` set (occupants buf)" using assms(2) by (simp add: tableOf_None_iff)
  note u = unique_keys_add [OF m ok(1) n]
  show "mapOf extractor (buf[i := Occupied e]) = (mapOf extractor buf)(extractor e \<mapsto> e)" by (fact u(2))
  have "well_placed hasher extractor (buf[i := Occupied e])" using ok(2) assms(5) by (intro well_placed_update) auto
  then show "buffer_ok hasher extractor (buf[i := Occupied e])" using u(1) by (simp add: buffer_ok_def)
  show "length (occupants (buf[i := Occupied e])) = length (occupants buf) + 1" using arg_cong [OF m, of size] by simp
qed

lemma buffer_overwrite:
  assumes "buffer_ok hasher extractor buf" "i < length buf" "buf ! i = Occupied e" "extractor e' = extractor e"
  shows "buffer_ok hasher extractor (buf[i := Occupied e'])"
    "mapOf extractor (buf[i := Occupied e']) = (mapOf extractor buf)(extractor e \<mapsto> e')"
    "length (occupants (buf[i := Occupied e'])) = length (occupants buf)"
proof -
  have ok: "unique_keys extractor (occupants buf)" "well_placed hasher extractor buf" using assms(1) by (simp_all add: buffer_ok_def)
  have e: "e \<in> set (occupants buf)" using assms(2,3) by (rule occupant_at)
  note m = mset_occupants_replace(1) [OF assms(2,3), of e']
  note u = unique_keys_replace [OF m e ok(1) assms(4)]
  show "mapOf extractor (buf[i := Occupied e']) = (mapOf extractor buf)(extractor e \<mapsto> e')" by (fact u(2))
  have "well_placed hasher extractor (buf[i := Occupied e'])"
    using ok(2) assms(4) well_placedD [OF ok(2) assms(2,3)] by (intro well_placed_update) auto
  then show "buffer_ok hasher extractor (buf[i := Occupied e'])" using u(1) by (simp add: buffer_ok_def)
  have "0 < length (occupants buf)" using e by (cases "occupants buf") auto
  then show "length (occupants (buf[i := Occupied e'])) = length (occupants buf)"
    using arg_cong [OF m, of size] e by (simp add: size_Diff_singleton)
qed

lemma buffer_erase:
  assumes "buffer_ok hasher extractor buf" "i < length buf" "buf ! i = Occupied e"
  shows "buffer_ok hasher extractor (buf[i := Tombstone])"
    "mapOf extractor (buf[i := Tombstone]) = (mapOf extractor buf)(extractor e := None)"
    "length (occupants buf) = Suc (length (occupants (buf[i := Tombstone])))"
proof -
  have ok: "unique_keys extractor (occupants buf)" "well_placed hasher extractor buf" using assms(1) by (simp_all add: buffer_ok_def)
  have e: "e \<in> set (occupants buf)" using assms(2,3) by (rule occupant_at)
  note m = mset_occupants_replace(2) [OF assms(2,3)]
  note u = unique_keys_del [OF m e ok(1)]
  show "mapOf extractor (buf[i := Tombstone]) = (mapOf extractor buf)(extractor e := None)" by (fact u(2))
  have "well_placed hasher extractor (buf[i := Tombstone])" using ok(2) by (intro well_placed_update) auto
  then show "buffer_ok hasher extractor (buf[i := Tombstone])" using u(1) by (simp add: buffer_ok_def)
  have "0 < length (occupants buf)" using e by (cases "occupants buf") auto
  then show "length (occupants buf) = Suc (length (occupants (buf[i := Tombstone])))"
    using arg_cong [OF m, of size] e by (simp add: size_Diff_singleton)
qed

section \<open>Rehashing\<close>

lemma freeEntry_from:
  assumes "d + n = length buf" "\<forall>d'<d. isOccupied (buf ! ((s + d') mod length buf))"
    "d0 < length buf" "\<not> isOccupied (buf ! ((s + d0) mod length buf))"
  shows "\<exists>i. freeEntry buf ((s + d) mod length buf) n = Inr i \<and> i < length buf \<and> \<not> isOccupied (buf ! i) \<and> probes buf s i"
  using assms
proof (induction n arbitrary: d)
  case 0
  then show ?case by auto
next
  case (Suc n)
  let ?i = "(s + d) mod length buf"
  show ?case
  proof (cases "isOccupied (buf ! ?i)")
    case True
    then have "\<forall>d'<Suc d. isOccupied (buf ! ((s + d') mod length buf))" using Suc.prems(2) by (auto simp: less_Suc_eq)
    moreover have "Suc d + n = length buf" using Suc.prems(1) by simp
    ultimately show ?thesis using Suc.IH [of "Suc d"] Suc.prems(3,4) True mod_step [of s d "length buf"] by simp
  next
    case False
    have "0 < length buf" using Suc.prems(3) by linarith
    then have "?i < length buf" by simp
    moreover have "probes buf s ?i" unfolding probes_def
      using Suc.prems(1,2) by (intro exI [of _ d]) (auto simp: isOccupied_iff)
    ultimately show ?thesis using False by simp
  qed
qed

lemma freeEntry_spec:
  assumes "length (occupants buf) < length buf" "s < length buf"
  obtains i where "freeEntry buf s (length buf) = Inr i" "i < length buf" "\<not> isOccupied (buf ! i)" "probes buf s i"
proof -
  obtain j where j: "j < length buf" "\<not> isOccupied (buf ! j)" using assms(1) by (rule room_left)
  obtain d where d: "d < length buf" "j = (s + d) mod length buf" using around [OF j(1) assms(2)] by metis
  have "\<exists>i. freeEntry buf ((s + 0) mod length buf) (length buf) = Inr i \<and> i < length buf \<and> \<not> isOccupied (buf ! i) \<and> probes buf s i"
    using j d by (intro freeEntry_from [where ?d0.0 = d]) simp_all
  then show ?thesis using that assms(2) by auto
qed

lemma rehash_spec:
  assumes "buffer_ok hasher extractor buf" "unique_keys extractor (occupants (es) @ occupants buf)"
    "length (occupants es) + length (occupants buf) < length buf" "Tombstone \<notin> set buf"
  shows "\<exists>buf'. rehash hasher extractor es buf = Inr buf' \<and> buffer_ok hasher extractor buf' \<and> length buf' = length buf \<and>
     mset (occupants buf') = mset (occupants es) + mset (occupants buf) \<and> Tombstone \<notin> set buf'"
  using assms
proof (induction hasher extractor es buf rule: rehash.induct)
  case (2 hasher extractor e es buf)
  have l: "length (occupants buf) < length buf" using "2.prems"(3) by simp
  then have p: "0 < length buf" by linarith
  then have s: "hasher (extractor e) mod length buf < length buf" by simp
  obtain i where i: "freeEntry buf (hasher (extractor e) mod length buf) (length buf) = Inr i" "i < length buf"
    "\<not> isOccupied (buf ! i)" "probes buf (hasher (extractor e) mod length buf) i" using l s by (rule freeEntry_spec)
  let ?buf = "buf[i := Occupied e]"
  have n: "mapOf extractor buf (extractor e) = None" using "2.prems"(2) by (auto simp: unique_keys_def tableOf_None_iff)
  note put = buffer_put [OF "2.prems"(1) n i(2,3,4)]
  note m = mset_occupants_update [OF i(2,3), of e]
  have "mset (occupants es @ occupants ?buf) = mset (occupants (Occupied e # es) @ occupants buf)" using m by simp
  then have u: "unique_keys extractor (occupants es @ occupants ?buf)" using "2.prems"(2) unique_keys_mset by blast
  have t: "Tombstone \<notin> set ?buf" using "2.prems"(4) set_update_subset_insert [of buf i "Occupied e"] by auto
  have len: "length (occupants es) + length (occupants ?buf) < length ?buf" using "2.prems"(3) put(3) by simp
  have "length buf \<noteq> 0" using p by simp
  from "2.IH" [OF this put(1) u len t] obtain buf' where "rehash hasher extractor es ?buf = Inr buf'" "buffer_ok hasher extractor buf'"
    "length buf' = length ?buf" "mset (occupants buf') = mset (occupants es) + mset (occupants ?buf)" "Tombstone \<notin> set buf'" by blast
  then show ?case using i(1) p m by (intro exI [of _ buf']) simp
qed simp_all

text \<open>A buffer without tombstones and with room has an empty entry.\<close>

lemma hole_if_room: "\<lbrakk>length (occupants buf) < length buf; Tombstone \<notin> set buf\<rbrakk> \<Longrightarrow> hole buf"
proof (induction buf)
  case (Cons x buf)
  then show ?case by (cases x) (auto simp: hole_def)
qed simp

definition tableBuffer :: "'e IndexedHashTable \<Rightarrow> 'e HashEntry list" where
  "tableBuffer t = (case entryBuffer t of None \<Rightarrow> [] | Some buf \<Rightarrow> buf)"

lemma tableBuffer_Some [simp]: "entryBuffer t = Some buf \<Longrightarrow> tableBuffer t = buf"
  by (simp add: tableBuffer_def)

lemma capacity_eq: "capacity t = length (tableBuffer t)"
  by (simp add: capacity_def tableBuffer_def split: option.split)

lemma iterated_eq: "iterated t = occupants (tableBuffer t)"
proof -
  have "case_HashEntry [] [] (\<lambda>e. [e]) = (content :: 'a HashEntry \<Rightarrow> 'a list)" by (rule ext) (simp split: HashEntry.split)
  then show ?thesis by (simp add: iterated_def tableBuffer_def occupants_def split: option.split)
qed

lemma resize_spec:
  assumes "buffer_ok hasher extractor (tableBuffer t)" "length (occupants (tableBuffer t)) < newCapacity"
  obtains buf where "resize hasher extractor newCapacity t = Inr (t\<lparr>entryBuffer := Some buf\<rparr>)" "buffer_ok hasher extractor buf"
    "length buf = newCapacity" "mset (occupants buf) = mset (occupants (tableBuffer t))" "Tombstone \<notin> set buf" "hole buf"
proof -
  let ?new = "replicate newCapacity Empty :: 'b HashEntry list"
  have "buffer_ok hasher extractor ?new" by (simp add: buffer_ok_def unique_keys_def)
  moreover have "unique_keys extractor (occupants (tableBuffer t) @ occupants ?new)" using assms(1) by (simp add: buffer_ok_def)
  ultimately obtain buf where b: "rehash hasher extractor (tableBuffer t) ?new = Inr buf" "buffer_ok hasher extractor buf"
    "length buf = newCapacity" "mset (occupants buf) = mset (occupants (tableBuffer t))" "Tombstone \<notin> set buf"
    using rehash_spec [of hasher extractor ?new "tableBuffer t"] assms(2) by auto
  have "length (occupants buf) = length (occupants (tableBuffer t))" using arg_cong [OF b(4), of size] by simp
  then have "hole buf" using hole_if_room [of buf] b assms(2) by simp
  then show ?thesis using that [of buf] b by (simp add: resize_def tableBuffer_def)
qed

text \<open>When an operation rehashes: \<open>n\<close> is the count at that moment.\<close>

definition rehashes :: "nat \<Rightarrow> nat \<Rightarrow> bool" where
  "rehashes n cap \<longleftrightarrow> cap = 0 \<or> 75 < n * 100 div cap \<or> n * 100 div cap < 30 \<and> 16 < cap"

lemma resizeIfNecessary_spec:
  assumes "buffer_ok hasher extractor (tableBuffer t)" "length (occupants (tableBuffer t)) \<le> ht_count t" "ht_count t < 2 ^ 57"
    "rehashes (ht_count t) (capacity t)"
  obtains buf where "resizeIfNecessary hasher extractor t = Inr (t\<lparr>entryBuffer := Some buf\<rparr>, True)" "buffer_ok hasher extractor buf"
    "mset (occupants buf) = mset (occupants (tableBuffer t))" "Tombstone \<notin> set buf" "hole buf"
    "length (occupants (tableBuffer t)) < length buf"
proof -
  let ?c = "ht_count t"
  define n where "n = (if capacity t = 0 then 8 else if 75 < ?c * 100 div capacity t then ?c * 2 else max ((?c * 6 + 4) div 5) 16)"
  have w: "?c * 100 mod 2 ^ 64 = ?c * 100" "?c * 2 mod 2 ^ 64 = ?c * 2" "(?c * 6 mod 2 ^ 64 + 4) mod 2 ^ 64 = ?c * 6 + 4"
    using assms(3) by simp_all
  have o: "length (occupants (tableBuffer t)) < n"
  proof -
    have "?c < n" if "capacity t \<noteq> 0"
    proof (cases "75 < ?c * 100 div capacity t")
      case True
      then have "?c \<noteq> 0" by (intro notI) simp
      then show ?thesis using True that by (simp add: n_def)
    next
      case False
      have "?c < max ((?c * 6 + 4) div 5) 16" by (cases "?c < 16") (auto simp: max_def)
      then show ?thesis using that False by (simp add: n_def)
    qed
    moreover have "length (occupants (tableBuffer t)) = 0" if "capacity t = 0" using that by (simp add: capacity_eq)
    ultimately show ?thesis using assms(2) by (cases "capacity t = 0") (simp_all add: n_def)
  qed
  obtain buf where b: "resize hasher extractor n t = Inr (t\<lparr>entryBuffer := Some buf\<rparr>)" "buffer_ok hasher extractor buf"
    "length buf = n" "mset (occupants buf) = mset (occupants (tableBuffer t))" "Tombstone \<notin> set buf" "hole buf"
    using assms(1) o by (rule resize_spec)
  have "resizeIfNecessary hasher extractor t = bindO (resize hasher extractor n t) (\<lambda>t'. Inr (t', True))"
    using assms(4) unfolding resizeIfNecessary_def w n_def rehashes_def
    by (auto simp: LOAD_FACTOR_PERCENTAGE_INCREASE_THRESHOLD_def LOAD_FACTOR_PERCENTAGE_DECREASE_THRESHOLD_def Let_def)
  then show ?thesis using that [of buf] b o by simp
qed

lemma resizeIfNecessary_keep:
  assumes "ht_count t < 2 ^ 57" "\<not> rehashes (ht_count t) (capacity t)"
  shows "resizeIfNecessary hasher extractor t = Inr (t, False)"
proof -
  have "ht_count t * 100 mod 2 ^ 64 = ht_count t * 100" using assms(1) by simp
  then show ?thesis using assms(2) unfolding resizeIfNecessary_def rehashes_def
    by (auto simp: LOAD_FACTOR_PERCENTAGE_INCREASE_THRESHOLD_def LOAD_FACTOR_PERCENTAGE_DECREASE_THRESHOLD_def)
qed


section \<open>The table\<close>

definition ht_inv :: "('k \<Rightarrow> nat) \<Rightarrow> ('e \<Rightarrow> 'k) \<Rightarrow> 'e IndexedHashTable \<Rightarrow> bool" where
  "ht_inv hasher extractor t \<longleftrightarrow> buffer_ok hasher extractor (tableBuffer t) \<and> ht_count t = length (occupants (tableBuffer t))"

abbreviation ht_map :: "('e \<Rightarrow> 'k) \<Rightarrow> 'e IndexedHashTable \<Rightarrow> 'k \<rightharpoonup> 'e" where
  "ht_map extractor t \<equiv> mapOf extractor (tableBuffer t)"

text \<open>What the callers of \<open>resizeIfNecessary\<close> know after it.\<close>

definition settled :: "('k \<Rightarrow> nat) \<Rightarrow> ('e \<Rightarrow> 'k) \<Rightarrow> 'e IndexedHashTable \<Rightarrow> 'e IndexedHashTable \<Rightarrow> bool" where
  "settled hasher extractor t t' \<longleftrightarrow>
     ht_inv hasher extractor t' \<and> ht_map extractor t' = ht_map extractor t \<and> ht_count t' = ht_count t \<and> entryBuffer t' \<noteq> None \<and>
     (rehashes (ht_count t) (capacity t) \<longrightarrow> hole (tableBuffer t') \<and> Tombstone \<notin> set (tableBuffer t')) \<and>
     (\<not> rehashes (ht_count t) (capacity t) \<longrightarrow> t' = t)"

lemma settled_capacity: "settled hasher extractor t t' \<Longrightarrow> 0 < capacity t'"
proof (cases "rehashes (ht_count t) (capacity t)")
  case True
  assume "settled hasher extractor t t'"
  then have "hole (tableBuffer t')" using True by (simp add: settled_def)
  then show ?thesis by (auto simp: hole_def capacity_eq dest: length_pos_if_in_set)
qed (auto simp: settled_def rehashes_def)

lemma entryBuffer_present: "\<not> rehashes n (capacity t) \<Longrightarrow> \<exists>buf. entryBuffer t = Some buf \<and> buf \<noteq> []"
  by (cases "entryBuffer t") (auto simp: rehashes_def capacity_def)

lemma resizeIfNecessary_settles:
  assumes "ht_inv hasher extractor t" "ht_count t < 2 ^ 57"
  obtains t' where "resizeIfNecessary hasher extractor t = Inr (t', rehashes (ht_count t) (capacity t))" "settled hasher extractor t t'"
proof (cases "rehashes (ht_count t) (capacity t)")
  case True
  have i: "buffer_ok hasher extractor (tableBuffer t)" "length (occupants (tableBuffer t)) \<le> ht_count t"
    using assms(1) by (simp_all add: ht_inv_def)
  obtain buf where b: "resizeIfNecessary hasher extractor t = Inr (t\<lparr>entryBuffer := Some buf\<rparr>, True)" "buffer_ok hasher extractor buf"
    "mset (occupants buf) = mset (occupants (tableBuffer t))" "Tombstone \<notin> set buf" "hole buf"
    using resizeIfNecessary_spec [OF i assms(2) True] by metis
  have "length (occupants buf) = ht_count t" using arg_cong [OF b(3), of size] assms(1) by (simp add: ht_inv_def)
  moreover have "mapOf extractor buf = ht_map extractor t" using b(2,3) by (intro tableOf_mset) (simp_all add: buffer_ok_def)
  ultimately have "settled hasher extractor t (t\<lparr>entryBuffer := Some buf\<rparr>)"
    using b True by (simp add: settled_def ht_inv_def tableBuffer_def)
  then show ?thesis using that b(1) True by simp
next
  case False
  have "settled hasher extractor t t" using assms(1) False entryBuffer_present [OF False] by (auto simp: settled_def)
  then show ?thesis using that resizeIfNecessary_keep [OF assms(2) False] False by metis
qed

text \<open>\<open>probeEntry\<close> finds the key's entry, or where it can go, or fails.\<close>

lemma probeEntry_present:
  assumes "ht_inv hasher extractor t" "ht_map extractor t key = Some e"
  obtains i where "probeEntry hasher extractor key t = Inr (i, Occupied e)" "i < length (tableBuffer t)" "tableBuffer t ! i = Occupied e"
    "extractor e = key"
proof -
  obtain i where i: "probeBuffer hasher extractor key (tableBuffer t) = Inr i" "i < length (tableBuffer t)" "tableBuffer t ! i = Occupied e"
    "extractor e = key" using probe_present [OF _ assms(2)] assms(1) ht_inv_def by metis
  then obtain buf where "entryBuffer t = Some buf" by (cases "entryBuffer t") (auto simp: tableBuffer_def)
  then show ?thesis using that i by (simp add: probeEntry_def)
qed

lemma probeEntry_absent:
  assumes "ht_inv hasher extractor t" "ht_map extractor t key = None" "hole (tableBuffer t)"
  obtains i x where "probeEntry hasher extractor key t = Inr (i, x)" "\<not> isOccupied x" "i < length (tableBuffer t)" "tableBuffer t ! i = x"
    "probes (tableBuffer t) (hasher key mod length (tableBuffer t)) i"
proof -
  obtain i where i: "probeBuffer hasher extractor key (tableBuffer t) = Inr i" "i < length (tableBuffer t)"
    "\<not> isOccupied (tableBuffer t ! i)" "probes (tableBuffer t) (hasher key mod length (tableBuffer t)) i"
    using probe_absent [OF _ assms(2,3)] assms(1) ht_inv_def by metis
  then obtain buf where "entryBuffer t = Some buf" by (cases "entryBuffer t") (auto simp: tableBuffer_def)
  then show ?thesis using that i by (simp add: probeEntry_def)
qed

definition loadLimit :: fault where
  "loadLimit = Assertion ''HashMap did not obey its own load limit''"

lemma probeEntry_fails:
  assumes "ht_map extractor t key = None" "\<not> hole (tableBuffer t)" "0 < capacity t"
  shows "probeEntry hasher extractor key t = Inl loadLimit"
proof -
  have "tableBuffer t \<noteq> []" using assms(3) by (auto simp: capacity_eq)
  then show ?thesis using probe_fails [OF assms(1,2)]
    by (cases "entryBuffer t") (auto simp: probeEntry_def loadLimit_def tableBuffer_def)
qed

text \<open>A key is served when it is in the table or an empty entry can end the probe.\<close>

definition answers :: "('e \<Rightarrow> 'k) \<Rightarrow> 'k \<Rightarrow> 'e IndexedHashTable \<Rightarrow> bool" where
  "answers extractor key t \<longleftrightarrow> ht_map extractor t key \<noteq> None \<or> hole (tableBuffer t)"

lemma putEntry_table [simp]:
  "tableBuffer (putEntry i x t) = (tableBuffer t)[i := x]" "ht_count (putEntry i x t) = ht_count t"
  "entryBuffer (putEntry i x t) = None \<longleftrightarrow> entryBuffer t = None"
  by (simp_all add: putEntry_def tableBuffer_def split: option.split)

lemma tableBuffer_count [simp]: "tableBuffer (ht_count_update f t) = tableBuffer t"
  by (simp add: tableBuffer_def)

lemma capacity_count [simp]: "capacity (ht_count_update f t) = capacity t"
  by (simp add: capacity_eq)

lemma capacity_putEntry [simp]: "capacity (putEntry i x t) = capacity t"
  by (simp add: capacity_eq)

lemma put_inv:
  assumes "ht_inv hasher extractor t" "ht_map extractor t (extractor e) = None" "i < length (tableBuffer t)"
    "\<not> isOccupied (tableBuffer t ! i)" "probes (tableBuffer t) (hasher (extractor e) mod length (tableBuffer t)) i"
  shows "ht_inv hasher extractor (putEntry i (Occupied e) (t\<lparr>ht_count := ht_count t + 1\<rparr>))"
    "ht_map extractor (putEntry i (Occupied e) (t\<lparr>ht_count := ht_count t + 1\<rparr>)) = (ht_map extractor t)(extractor e \<mapsto> e)"
proof -
  have b: "buffer_ok hasher extractor (tableBuffer t)" using assms(1) by (simp add: ht_inv_def)
  note w = buffer_put [OF b assms(2-5)]
  show "ht_inv hasher extractor (putEntry i (Occupied e) (t\<lparr>ht_count := ht_count t + 1\<rparr>))"
    and "ht_map extractor (putEntry i (Occupied e) (t\<lparr>ht_count := ht_count t + 1\<rparr>)) = (ht_map extractor t)(extractor e \<mapsto> e)"
    using w assms(1) by (simp_all add: ht_inv_def)
qed

text \<open>A table without tombstones that is not rehashed has an empty entry.\<close>

lemma load_room:
  assumes "ht_inv hasher extractor t" "Tombstone \<notin> set (tableBuffer t)" "\<not> rehashes (ht_count t) (capacity t)"
  shows "hole (tableBuffer t)"
proof -
  have c: "capacity t \<noteq> 0" "ht_count t * 100 div capacity t < 76" using assms(3) by (auto simp: rehashes_def)
  then have "ht_count t * 100 < 76 * capacity t" by (simp add: div_less_iff_less_mult)
  then have "length (occupants (tableBuffer t)) < length (tableBuffer t)" using assms(1) by (simp add: ht_inv_def capacity_eq)
  then show ?thesis using assms(2) by (rule hole_if_room)
qed

lemma settled_room: "\<lbrakk>settled hasher extractor t t'; Tombstone \<notin> set (tableBuffer t)\<rbrakk> \<Longrightarrow> Tombstone \<notin> set (tableBuffer t') \<and> hole (tableBuffer t')"
  using load_room [of hasher extractor t] by (cases "rehashes (ht_count t) (capacity t)") (auto simp: settled_def)

lemma hole_overwrite: "\<lbrakk>hole buf; i < length buf; buf ! i = Occupied e\<rbrakk> \<Longrightarrow> hole (buf[i := x])"
  unfolding hole_def by (metis HashEntry.distinct(3) in_set_conv_nth length_list_update nth_list_update_neq)

section \<open>The operations\<close>

lemma ht_insert_spec:
  assumes "ht_inv hasher extractor t" "ht_count t + 1 < 2 ^ 57" "extractor fresh = key" "\<And>e. extractor e = key \<Longrightarrow> extractor (over e) = key"
    "answers extractor key t \<or> rehashes (ht_count t) (capacity t)"
  obtains t' where "ht_insert hasher extractor key fresh over t = Inr t'" "ht_inv hasher extractor t'"
    "ht_map extractor t' = (ht_map extractor t)(key \<mapsto> (case ht_map extractor t key of None \<Rightarrow> fresh | Some e \<Rightarrow> over e))"
    "entryBuffer t' \<noteq> None"
    "Tombstone \<notin> set (tableBuffer t) \<Longrightarrow> Tombstone \<notin> set (tableBuffer t') \<and> hole (tableBuffer t')"
proof -
  have "ht_count t < 2 ^ 57" using assms(2) by simp
  then obtain t1 where t1: "resizeIfNecessary hasher extractor t = Inr (t1, rehashes (ht_count t) (capacity t))" "settled hasher extractor t t1"
    using resizeIfNecessary_settles [OF assms(1)] by metis
  then have s: "ht_inv hasher extractor t1" "ht_map extractor t1 = ht_map extractor t" "ht_count t1 = ht_count t" "entryBuffer t1 \<noteq> None"
    "ht_map extractor t1 key = None \<Longrightarrow> hole (tableBuffer t1)"
    using assms(5) by (auto simp: settled_def answers_def)
  note room = settled_room [OF t1(2)]
  have tomb: "Tombstone \<notin> set ((tableBuffer t1)[i := Occupied x])" if "Tombstone \<notin> set (tableBuffer t1)" for i x
    using that set_update_subset_insert [of "tableBuffer t1" i "Occupied x"] by auto
  show ?thesis
  proof (cases "ht_map extractor t1 key")
    case (Some e)
    obtain i where i: "probeEntry hasher extractor key t1 = Inr (i, Occupied e)" "i < length (tableBuffer t1)" "tableBuffer t1 ! i = Occupied e"
      "extractor e = key" using s(1) Some by (rule probeEntry_present)
    have b: "buffer_ok hasher extractor (tableBuffer t1)" using s(1) by (simp add: ht_inv_def)
    have "extractor (over e) = extractor e" using assms(4) i(4) by simp
    note w = buffer_overwrite [OF b i(2,3) this]
    show ?thesis
    proof (rule that)
      show "ht_insert hasher extractor key fresh over t = Inr (putEntry i (Occupied (over e)) t1)" using t1(1) i(1) by (simp add: ht_insert_def)
      show "ht_inv hasher extractor (putEntry i (Occupied (over e)) t1)" using w s(1) by (simp add: ht_inv_def)
      show "ht_map extractor (putEntry i (Occupied (over e)) t1) = (ht_map extractor t)(key \<mapsto> (case ht_map extractor t key of None \<Rightarrow> fresh | Some e \<Rightarrow> over e))"
        using w(2) s(2) Some i(4) by simp
      show "entryBuffer (putEntry i (Occupied (over e)) t1) \<noteq> None" using s(4) by simp
      show "Tombstone \<notin> set (tableBuffer (putEntry i (Occupied (over e)) t1)) \<and> hole (tableBuffer (putEntry i (Occupied (over e)) t1))"
        if "Tombstone \<notin> set (tableBuffer t)" using room [OF that] tomb hole_overwrite [OF _ i(2,3)] by simp
    qed
  next
    case None
    obtain i x where i: "probeEntry hasher extractor key t1 = Inr (i, x)" "\<not> isOccupied x" "i < length (tableBuffer t1)" "tableBuffer t1 ! i = x"
      "probes (tableBuffer t1) (hasher key mod length (tableBuffer t1)) i" using s(1) None s(5) [OF None] by (rule probeEntry_absent)
    let ?t2 = "putEntry i (Occupied fresh) (t1\<lparr>ht_count := ht_count t1 + 1\<rparr>)"
    have p: "ht_inv hasher extractor ?t2" "ht_map extractor ?t2 = (ht_map extractor t1)(key \<mapsto> fresh)"
      using put_inv [OF s(1), of fresh i] assms(3) i None by simp_all
    have "ht_count ?t2 < 2 ^ 57" using s(3) assms(2) by simp
    then obtain t3 where t3: "resizeIfNecessary hasher extractor ?t2 = Inr (t3, rehashes (ht_count ?t2) (capacity ?t2))" "settled hasher extractor ?t2 t3"
      using resizeIfNecessary_settles [OF p(1)] by metis
    have e: "ht_insert hasher extractor key fresh over t = Inr t3" using t1(1) i(1,2) t3(1) by (cases x) (simp_all add: ht_insert_def)
    have s3: "ht_inv hasher extractor t3" "ht_map extractor t3 = (ht_map extractor t)(key \<mapsto> fresh)" "entryBuffer t3 \<noteq> None"
      using t3(2) p(2) s(2) by (simp_all add: settled_def)
    have "Tombstone \<notin> set (tableBuffer t3) \<and> hole (tableBuffer t3)" if "Tombstone \<notin> set (tableBuffer t)"
      using settled_room [OF t3(2)] tomb [of i fresh] room [OF that] by simp
    then show ?thesis using that [OF e s3(1) _ s3(3)] s3(2) None s(2) by simp
  qed
qed

lemma ht_insert_fails:
  assumes "ht_count t < 2 ^ 57" "\<not> answers extractor key t" "\<not> rehashes (ht_count t) (capacity t)"
  shows "ht_insert hasher extractor key fresh over t = Inl loadLimit"
proof -
  have "0 < capacity t" using assms(3) by (auto simp: rehashes_def)
  then have "probeEntry hasher extractor key t = Inl loadLimit" using assms(2) by (intro probeEntry_fails) (simp_all add: answers_def)
  then show ?thesis using resizeIfNecessary_keep [OF assms(1,3), of hasher extractor] by (simp add: ht_insert_def)
qed

lemma eraseAt_spec:
  assumes "ht_inv hasher extractor t" "ht_count t < 2 ^ 57" "i < length (tableBuffer t)" "tableBuffer t ! i = Occupied e"
  obtains t' where "eraseAt hasher extractor i t = Inr t'" "ht_inv hasher extractor t'"
    "ht_map extractor t' = (ht_map extractor t)(extractor e := None)" "ht_count t = Suc (ht_count t')" "entryBuffer t' \<noteq> None" "0 < capacity t'"
proof -
  let ?t1 = "(putEntry i Tombstone t)\<lparr>ht_count := sub_size (ht_count t) 1\<rparr>"
  have b: "buffer_ok hasher extractor (tableBuffer t)" using assms(1) by (simp add: ht_inv_def)
  note w = buffer_erase [OF b assms(3,4)]
  have c: "ht_count t = Suc (ht_count ?t1)" using w(3) assms(1) by (simp add: ht_inv_def)
  have i1: "ht_inv hasher extractor ?t1" using w c assms(1) by (simp add: ht_inv_def)
  have "ht_count ?t1 < 2 ^ 57" using c assms(2) by linarith
  then obtain t' where t': "resizeIfNecessary hasher extractor ?t1 = Inr (t', rehashes (ht_count ?t1) (capacity ?t1))" "settled hasher extractor ?t1 t'"
    using resizeIfNecessary_settles [OF i1] by metis
  have e: "eraseAt hasher extractor i t = Inr t'" using t'(1) by (simp add: eraseAt_def)
  have "ht_map extractor ?t1 = (ht_map extractor t)(extractor e := None)" using w(2) by simp
  then show ?thesis using that [OF e] t'(2) c settled_capacity [OF t'(2)] unfolding settled_def by metis
qed

end
