(* ===== verification/Hash_Map.thy ===== *)
theory Hash_Map
  imports Hash_Table_Ops
begin

text \<open>
  \<open>HashMap\<close> and the sets as maps and sets: the interface of a lookup table, its laws for \<open>HashMap\<close>, filling a new map,
  and what tombstones do to a table whose entries are removed again.
\<close>

section \<open>The interface of a lookup table\<close>

text \<open>
  \<open>readable\<close> is when a lookup of the key ends, \<open>writable\<close> when an insertion of it does. A key that is in the table can
  always be read.
\<close>

locale lookup_table =
  fixes good :: "'t \<Rightarrow> bool" and model :: "'t \<Rightarrow> 'k \<rightharpoonup> 'v"
    and readable :: "'k \<Rightarrow> 't \<Rightarrow> bool" and writable :: "'k \<Rightarrow> 't \<Rightarrow> bool"
    and holds :: "'k \<Rightarrow> 't \<Rightarrow> bool outcome" and fetch :: "'k \<Rightarrow> 't \<Rightarrow> 'v outcome"
    and store :: "'k \<Rightarrow> 'v \<Rightarrow> 't \<Rightarrow> 't outcome" and discard :: "'k \<Rightarrow> 't \<Rightarrow> ('t \<times> bool) outcome"
  assumes present_readable: "\<lbrakk>good t; model t k = Some v\<rbrakk> \<Longrightarrow> readable k t"
    and holds: "\<lbrakk>good t; readable k t\<rbrakk> \<Longrightarrow> holds k t = Inr (model t k \<noteq> None)"
    and fetch: "\<lbrakk>good t; model t k = Some v\<rbrakk> \<Longrightarrow> fetch k t = Inr v"
    and store: "\<lbrakk>good t; writable k t\<rbrakk> \<Longrightarrow> \<exists>t'. store k v t = Inr t' \<and> good t' \<and> model t' = (model t)(k \<mapsto> v)"
    and discard: "\<lbrakk>good t; readable k t\<rbrakk> \<Longrightarrow>
      \<exists>t'. discard k t = Inr (t', model t k \<noteq> None) \<and> good t' \<and> model t' = (model t)(k := None)"
begin

lemma stored_is_held:
  assumes "good t" "writable k t"
  shows "\<exists>t'. store k v t = Inr t' \<and> good t' \<and> holds k t' = Inr True \<and> fetch k t' = Inr v"
proof -
  obtain t' where t': "store k v t = Inr t'" "good t'" "model t' = (model t)(k \<mapsto> v)" using store [OF assms] by blast
  then have m: "model t' k = Some v" by simp
  then show ?thesis using t' fetch [OF t'(2) m] holds [OF t'(2) present_readable [OF t'(2) m]] by simp
qed

lemma stored_then_discarded:
  assumes "good t" "writable k t" "model t k = None"
  shows "\<exists>t' t''. store k v t = Inr t' \<and> discard k t' = Inr (t'', True) \<and> good t'' \<and> model t'' = model t"
proof -
  obtain t' where t': "store k v t = Inr t'" "good t'" "model t' = (model t)(k \<mapsto> v)" using store [OF assms(1,2)] by blast
  then have m: "model t' k = Some v" by simp
  obtain t'' where "discard k t' = Inr (t'', model t' k \<noteq> None)" "good t''" "model t'' = (model t')(k := None)"
    using discard [OF t'(2) present_readable [OF t'(2) m]] by blast
  then show ?thesis using t' m assms(3) by (intro exI [of _ t'] exI [of _ t'']) auto
qed

end

section \<open>The map\<close>

definition hm_map :: "('k, 'v) HashMap \<Rightarrow> 'k \<rightharpoonup> 'v" where
  "hm_map t = map_of (iterated t)"

definition hm_inv :: "('k \<Rightarrow> nat) \<Rightarrow> ('k, 'v) HashMap \<Rightarrow> bool" where
  "hm_inv hasher t \<longleftrightarrow> ht_inv hasher fst t"

definition hm_reads :: "'k \<Rightarrow> ('k, 'v) HashMap \<Rightarrow> bool" where
  "hm_reads key t \<longleftrightarrow> answers fst key t \<and> ht_count t < 2 ^ 57"

definition hm_writes :: "'k \<Rightarrow> ('k, 'v) HashMap \<Rightarrow> bool" where
  "hm_writes key t \<longleftrightarrow> (answers fst key t \<or> rehashes (ht_count t) (capacity t)) \<and> ht_count t + 1 < 2 ^ 57"

lemma hm_map_eq: "hm_map t = map_option snd \<circ> ht_map fst t"
proof -
  have "map_of es k = map_option snd (tableOf fst es k)" for es :: "('a \<times> 'b) list" and k
    by (induction es) (auto simp: tableOf_def)
  then show ?thesis by (auto simp: hm_map_def iterated_eq)
qed

lemma hm_map_None: "hm_map t k = None \<longleftrightarrow> ht_map fst t k = None"
  by (simp add: hm_map_eq)

lemma ht_map_fst: "\<lbrakk>hm_inv hasher t; hm_map t k = Some v\<rbrakk> \<Longrightarrow> ht_map fst t k = Some (k, v)"
  by (auto simp: hm_map_eq hm_inv_def ht_inv_def buffer_ok_def tableOf_iff)

lemma ht_contains_spec:
  assumes "ht_inv hasher extractor t" "answers extractor key t"
  shows "ht_contains hasher extractor key t = Inr (ht_map extractor t key \<noteq> None)"
proof (cases "ht_map extractor t key")
  case None
  then have h: "hole (tableBuffer t)" using assms(2) by (simp add: answers_def)
  obtain i x where "probeEntry hasher extractor key t = Inr (i, x)" "\<not> isOccupied x" using assms(1) None h by (rule probeEntry_absent)
  moreover have "entryBuffer t \<noteq> None" using h by (cases "entryBuffer t") (simp_all add: hole_def tableBuffer_def)
  ultimately show ?thesis using None by (simp add: ht_contains_def)
next
  case (Some e)
  obtain i where "probeEntry hasher extractor key t = Inr (i, Occupied e)" "i < length (tableBuffer t)" using assms(1) Some by (rule probeEntry_present)
  moreover then have "entryBuffer t \<noteq> None" by (cases "entryBuffer t") (simp_all add: tableBuffer_def)
  ultimately show ?thesis using Some by (simp add: ht_contains_def)
qed

lemma hm_get_spec:
  assumes "hm_inv hasher t" "answers fst key t"
  shows "hm_get hasher key t = Inr (hm_map t key)"
proof (cases "ht_map fst t key")
  case None
  then have h: "hole (tableBuffer t)" using assms(2) by (simp add: answers_def)
  obtain i x where p: "probeEntry hasher fst key t = Inr (i, x)" "\<not> isOccupied x"
    using assms(1) None h unfolding hm_inv_def by (rule probeEntry_absent)
  then show ?thesis using None by (cases x) (simp_all add: hm_get_def hm_map_eq)
next
  case (Some e)
  obtain i where "probeEntry hasher fst key t = Inr (i, Occupied e)" using assms(1) Some unfolding hm_inv_def by (rule probeEntry_present)
  then show ?thesis using Some by (simp add: hm_get_def hm_map_eq)
qed

lemma hm_at_spec:
  assumes "hm_inv hasher t" "hm_map t key = Some v"
  shows "hm_at hasher key t = Inr v"
proof -
  have m: "ht_map fst t key = Some (key, v)" using assms by (rule ht_map_fst)
  obtain i where "probeEntry hasher fst key t = Inr (i, Occupied (key, v))" using assms(1) m unfolding hm_inv_def by (rule probeEntry_present)
  then show ?thesis by (simp add: hm_at_def)
qed

lemma hm_at_missing:
  assumes "hm_inv hasher t" "answers fst key t" "hm_map t key = None"
  shows "hm_at hasher key t = Inl (Assertion ''Key not found in HashMap::at()'')"
proof -
  have n: "ht_map fst t key = None" using assms(3) by (simp add: hm_map_None)
  then have h: "hole (tableBuffer t)" using assms(2) by (simp add: answers_def)
  obtain i x where "probeEntry hasher fst key t = Inr (i, x)" "\<not> isOccupied x"
    using assms(1) n h unfolding hm_inv_def by (rule probeEntry_absent)
  then show ?thesis by (cases x) (simp_all add: hm_at_def)
qed

lemma hm_insert_spec:
  assumes "hm_inv hasher t" "hm_writes key t"
  obtains t' where "hm_insert hasher key v t = Inr t'" "hm_inv hasher t'" "hm_map t' = (hm_map t)(key \<mapsto> v)"
    "Tombstone \<notin> set (tableBuffer t) \<Longrightarrow> Tombstone \<notin> set (tableBuffer t') \<and> hole (tableBuffer t')"
proof -
  have b: "ht_count t + 1 < 2 ^ 57" and s: "answers fst key t \<or> rehashes (ht_count t) (capacity t)" using assms(2) by (simp_all add: hm_writes_def)
  obtain t' where t': "ht_insert hasher fst key (key, v) (\<lambda>e. (fst e, v)) t = Inr t'" "ht_inv hasher fst t'"
    "ht_map fst t' = (ht_map fst t)(key \<mapsto> (case ht_map fst t key of None \<Rightarrow> (key, v) | Some e \<Rightarrow> (fst e, v)))"
    "Tombstone \<notin> set (tableBuffer t) \<Longrightarrow> Tombstone \<notin> set (tableBuffer t') \<and> hole (tableBuffer t')"
    using assms(1) [unfolded hm_inv_def] b by (rule ht_insert_spec [where fresh = "(key, v)" and over = "\<lambda>e. (fst e, v)"]) (use s in auto)
  have "hm_map t' = (hm_map t)(key \<mapsto> v)" unfolding hm_map_eq t'(3) by (auto split: option.split)
  then show ?thesis using that t' by (simp add: hm_insert_def hm_inv_def)
qed

lemma hm_remove_spec:
  assumes "hm_inv hasher t" "hm_reads key t"
  obtains t' where "hm_remove hasher key t = Inr (t', hm_map t key \<noteq> None)" "hm_inv hasher t'" "hm_map t' = (hm_map t)(key := None)"
    "0 < capacity t \<Longrightarrow> 0 < capacity t'"
proof (cases "ht_map fst t key")
  case None
  then have h: "hole (tableBuffer t)" using assms(2) by (simp add: answers_def hm_reads_def)
  obtain i x where p: "probeEntry hasher fst key t = Inr (i, x)" "\<not> isOccupied x"
    using assms(1) None h unfolding hm_inv_def by (rule probeEntry_absent)
  have "hm_map t key = None" using None by (simp add: hm_map_None)
  moreover then have "hm_map t = (hm_map t)(key := None)" by auto
  ultimately show ?thesis using p that [of t] assms(1) by (simp add: hm_remove_def)
next
  case (Some e)
  have c: "ht_count t < 2 ^ 57" using assms(2) by (simp add: hm_reads_def)
  obtain i where i: "probeEntry hasher fst key t = Inr (i, Occupied e)" "i < length (tableBuffer t)" "tableBuffer t ! i = Occupied e" "fst e = key"
    using assms(1) Some unfolding hm_inv_def by (rule probeEntry_present)
  obtain t' where t': "eraseAt hasher fst i t = Inr t'" "ht_inv hasher fst t'" "ht_map fst t' = (ht_map fst t)(fst e := None)" "0 < capacity t'"
    using assms(1) [unfolded hm_inv_def] c i(2,3) by (rule eraseAt_spec)
  have "hm_map t' = (hm_map t)(key := None)" unfolding hm_map_eq t'(3) i(4) by auto
  moreover have "hm_map t key \<noteq> None" using Some by (simp add: hm_map_None)
  ultimately show ?thesis using that t' i(1) by (simp add: hm_remove_def hm_inv_def)
qed

text \<open>The counter is the number of keys.\<close>

lemma count_is_card:
  assumes "hm_inv hasher t"
  shows "ht_count t = card (dom (hm_map t))" "distinct (map fst (iterated t))"
proof -
  show d: "distinct (map fst (iterated t))" using assms by (simp add: hm_inv_def ht_inv_def buffer_ok_def unique_keys_def iterated_eq)
  have "dom (hm_map t) = set (map fst (iterated t))" by (simp add: hm_map_def dom_map_of_conv_image_fst)
  then have "card (dom (hm_map t)) = length (iterated t)" using distinct_card [OF d] by simp
  then show "ht_count t = card (dom (hm_map t))" using assms by (simp add: hm_inv_def ht_inv_def iterated_eq)
qed

lemma iterated_set:
  assumes "hm_inv hasher t"
  shows "set (iterated t) = {(k, v). hm_map t k = Some v}"
  using count_is_card(2) [OF assms] by (auto simp: hm_map_def)

lemma present_capacity: "hm_map t key = Some v \<Longrightarrow> 0 < capacity t"
  by (cases "tableBuffer t") (auto simp: hm_map_def iterated_eq capacity_eq)

lemma finite_dom_hm: "finite (dom (hm_map t))"
  by (simp add: hm_map_def finite_dom_map_of)

lemma count_after_insert:
  assumes "hm_inv hasher t" "hm_inv hasher t'" "hm_map t' = (hm_map t)(key \<mapsto> v)"
  shows "ht_count t' \<le> ht_count t + 1"
  using count_is_card(1) [OF assms(1)] count_is_card(1) [OF assms(2)] assms(3) finite_dom_hm [of t]
  by (simp add: card_insert_if)

lemma count_after_remove:
  assumes "hm_inv hasher t" "hm_inv hasher t'" "hm_map t' = (hm_map t)(key := None)"
  shows "ht_count t' \<le> ht_count t"
  using count_is_card(1) [OF assms(1)] count_is_card(1) [OF assms(2)] assms(3) finite_dom_hm [of t]
  by (simp add: card_Diff1_le)

text \<open>\<open>hm\<close>: a \<open>HashMap\<close> with a buffer implements the interface.\<close>

definition hm_contains :: "('k \<Rightarrow> nat) \<Rightarrow> 'k \<Rightarrow> ('k, 'v) HashMap \<Rightarrow> bool outcome" where
  "hm_contains hasher = ht_contains hasher fst"

definition hm_good :: "('k \<Rightarrow> nat) \<Rightarrow> ('k, 'v) HashMap \<Rightarrow> bool" where
  "hm_good hasher t \<longleftrightarrow> hm_inv hasher t \<and> ht_count t < 2 ^ 57 \<and> 0 < capacity t"

interpretation hm: lookup_table "hm_good hasher" hm_map hm_reads hm_writes "hm_contains hasher" "hm_at hasher" "hm_insert hasher" "hm_remove hasher"
  for hasher :: "'k \<Rightarrow> nat"
proof unfold_locales
  fix t :: "('k, 'v) HashMap" and k v
  assume g: "hm_good hasher t"
  then have i: "hm_inv hasher t" and b: "ht_count t < 2 ^ 57" and p: "0 < capacity t" by (simp_all add: hm_good_def)
  show "hm_reads k t" if "hm_map t k = Some v" using b that by (auto simp: hm_reads_def answers_def hm_map_eq)
  show "hm_contains hasher k t = Inr (hm_map t k \<noteq> None)" if "hm_reads k t"
    using i that by (simp add: hm_contains_def ht_contains_spec hm_map_None hm_inv_def hm_reads_def)
  show "hm_at hasher k t = Inr v" if "hm_map t k = Some v" using i that by (rule hm_at_spec)
  show "\<exists>t'. hm_insert hasher k v t = Inr t' \<and> hm_good hasher t' \<and> hm_map t' = (hm_map t)(k \<mapsto> v)" if w: "hm_writes k t"
  proof -
    obtain t' where t': "hm_insert hasher k v t = Inr t'" "hm_inv hasher t'" "hm_map t' = (hm_map t)(k \<mapsto> v)"
      using hm_insert_spec [OF i w] by metis
    then have "ht_count t' < 2 ^ 57" using count_after_insert [OF i t'(2,3)] w by (simp add: hm_writes_def)
    then show ?thesis using t' present_capacity [of t' k v] by (simp add: hm_good_def)
  qed
  show "\<exists>t'. hm_remove hasher k t = Inr (t', hm_map t k \<noteq> None) \<and> hm_good hasher t' \<and> hm_map t' = (hm_map t)(k := None)" if r: "hm_reads k t"
  proof -
    obtain t' where t': "hm_remove hasher k t = Inr (t', hm_map t k \<noteq> None)" "hm_inv hasher t'" "hm_map t' = (hm_map t)(k := None)" "0 < capacity t'"
      using hm_remove_spec [OF i r] p by metis
    then have "ht_count t' < 2 ^ 57" using count_after_remove [OF i t'(2,3)] b by simp
    then show ?thesis using t' by (simp add: hm_good_def)
  qed
qed

section \<open>\<open>operator[]\<close>\<close>

text \<open>The counter runs ahead of the entries during the resize; the index returned is the key's.\<close>

lemma hm_index_present:
  assumes "hm_inv hasher t" "hm_map t key = Some v"
  obtains i where "hm_index hasher dflt key t = Inr (t, i)" "i < length (tableBuffer t)" "tableBuffer t ! i = Occupied (key, v)"
proof -
  have m: "ht_map fst t key = Some (key, v)" using assms by (rule ht_map_fst)
  obtain i where "probeEntry hasher fst key t = Inr (i, Occupied (key, v))" "i < length (tableBuffer t)" "tableBuffer t ! i = Occupied (key, v)"
    using assms(1) m unfolding hm_inv_def by (rule probeEntry_present)
  then show ?thesis using that by (simp add: hm_index_def)
qed

lemma hm_index_fresh:
  assumes "hm_inv hasher t" "hm_map t key = None" "hole (tableBuffer t)" "ht_count t + 1 < 2 ^ 57"
  obtains t' i where "hm_index hasher dflt key t = Inr (t', i)" "hm_inv hasher t'" "hm_map t' = (hm_map t)(key \<mapsto> dflt)"
    "i < length (tableBuffer t')" "tableBuffer t' ! i = Occupied (key, dflt)"
proof -
  have n: "ht_map fst t key = None" using assms(2) by (simp add: hm_map_None)
  have inv: "ht_inv hasher fst t" using assms(1) by (simp add: hm_inv_def)
  obtain i x where p: "probeEntry hasher fst key t = Inr (i, x)" "\<not> isOccupied x" "i < length (tableBuffer t)" "tableBuffer t ! i = x"
    "probes (tableBuffer t) (hasher key mod length (tableBuffer t)) i" using inv n assms(3) by (rule probeEntry_absent)
  let ?t1 = "t\<lparr>ht_count := ht_count t + 1\<rparr>"
  note found = that
  have final: thesis if r: "resizeIfNecessary hasher fst ?t1 = Inr (u\<lparr>ht_count := ht_count u + 1\<rparr>, rs)" and u: "ht_inv hasher fst u" "ht_map fst u = ht_map fst t"
    and j: "(if rs then bindO (probeEntry hasher fst key (u\<lparr>ht_count := ht_count u + 1\<rparr>)) (\<lambda>(j, _). Inr j) else Inr i) = Inr j"
    "\<not> isOccupied (tableBuffer u ! j)" "j < length (tableBuffer u)" "probes (tableBuffer u) (hasher key mod length (tableBuffer u)) j" for u rs j
  proof (rule found)
    let ?t' = "putEntry j (Occupied (key, dflt)) (u\<lparr>ht_count := ht_count u + 1\<rparr>)"
    show "hm_index hasher dflt key t = Inr (?t', j)"
      using p(1,2) r j(1) by (cases rs) (simp_all add: hm_index_def)
    have a: "ht_inv hasher fst ?t'" "ht_map fst ?t' = (ht_map fst u)(key \<mapsto> (key, dflt))"
      using put_inv [OF u(1), of "(key, dflt)" j] u(2) n j(2-4) by simp_all
    show "hm_inv hasher ?t'" using a(1) by (simp add: hm_inv_def)
    show "hm_map ?t' = (hm_map t)(key \<mapsto> dflt)" unfolding hm_map_eq a(2) u(2) by auto
    show "j < length (tableBuffer ?t')" "tableBuffer ?t' ! j = Occupied (key, dflt)" using j(3) by simp_all
  qed
  show ?thesis
  proof (cases "rehashes (ht_count ?t1) (capacity ?t1)")
    case False
    have "resizeIfNecessary hasher fst ?t1 = Inr (?t1, False)" using assms(4) False by (intro resizeIfNecessary_keep) simp_all
    then show ?thesis using final [of t False i] inv p by simp
  next
    case True
    have b: "buffer_ok hasher fst (tableBuffer ?t1)" "length (occupants (tableBuffer ?t1)) \<le> ht_count ?t1" "ht_count ?t1 < 2 ^ 57"
      using inv assms(4) by (simp_all add: ht_inv_def)
    obtain buf where r: "resizeIfNecessary hasher fst ?t1 = Inr (?t1\<lparr>entryBuffer := Some buf\<rparr>, True)" "buffer_ok hasher fst buf"
      "mset (occupants buf) = mset (occupants (tableBuffer ?t1))" "hole buf" using resizeIfNecessary_spec [OF b True] by metis
    let ?u = "t\<lparr>entryBuffer := Some buf\<rparr>"
    have e: "?t1\<lparr>entryBuffer := Some buf\<rparr> = ?u\<lparr>ht_count := ht_count ?u + 1\<rparr>" by simp
    have "length (occupants buf) = ht_count t" using arg_cong [OF r(3), of size] inv by (simp add: ht_inv_def)
    then have u: "ht_inv hasher fst ?u" using r(2) by (simp add: ht_inv_def tableBuffer_def)
    have m: "ht_map fst ?u = ht_map fst t" using tableOf_mset [OF r(3), of fst] r(2) by (simp add: buffer_ok_def tableBuffer_def)
    obtain j where j: "probeBuffer hasher fst key buf = Inr j" "j < length buf" "\<not> isOccupied (buf ! j)" "probes buf (hasher key mod length buf) j"
      using probe_absent [OF r(2) _ r(4), of key] m n by (auto simp: tableBuffer_def)
    have "probeEntry hasher fst key (?u\<lparr>ht_count := ht_count ?u + 1\<rparr>) = Inr (j, buf ! j)" using j(1) by (simp add: probeEntry_def)
    then show ?thesis using final [of ?u True j] r(1) e u m j by (simp add: tableBuffer_def)
  qed
qed

lemma hm_index_spec:
  assumes "hm_inv hasher t" "ht_count t + 1 < 2 ^ 57" "answers fst key t"
  shows "\<exists>t' i. hm_index hasher dflt key t = Inr (t', i) \<and> hm_inv hasher t' \<and>
    hm_map t' = (if key \<in> dom (hm_map t) then hm_map t else (hm_map t)(key \<mapsto> dflt)) \<and>
    (\<exists>w. hm_map t' key = Some w \<and> tableBuffer t' ! i = Occupied (key, w))"
proof (cases "hm_map t key")
  case None
  then have h: "hole (tableBuffer t)" using assms(3) by (simp add: answers_def hm_map_None)
  obtain t' i where "hm_index hasher dflt key t = Inr (t', i)" "hm_inv hasher t'" "hm_map t' = (hm_map t)(key \<mapsto> dflt)"
    "tableBuffer t' ! i = Occupied (key, dflt)" using hm_index_fresh [OF assms(1) None h assms(2)] by metis
  then show ?thesis using None by (intro exI [of _ t'] exI [of _ i]) auto
next
  case (Some w)
  obtain i where "hm_index hasher dflt key t = Inr (t, i)" "tableBuffer t ! i = Occupied (key, w)"
    using hm_index_present [OF assms(1) Some] by metis
  then show ?thesis using Some assms(1) by (intro exI [of _ t] exI [of _ i]) auto
qed

text \<open>A table without a buffer has no keys, so that its counter is 0 already.\<close>

lemma clear_spec:
  assumes "hm_inv hasher t"
  shows "hm_inv hasher (clear t) \<and> hm_map (clear t) = Map.empty \<and> entryBuffer (clear t) = None \<and> ht_count (clear t) = 0"
proof (cases "entryBuffer t")
  case None
  then have "tableBuffer t = []" by (simp add: tableBuffer_def)
  then show ?thesis using assms None by (simp add: clear_def hm_map_def iterated_eq hm_inv_def ht_inv_def)
qed (simp add: clear_def hm_map_def iterated_eq hm_inv_def ht_inv_def tableBuffer_def buffer_ok_def unique_keys_def well_placed_def)

section \<open>Filling a new map\<close>

fun hm_fill :: "('k \<Rightarrow> nat) \<Rightarrow> ('k \<times> 'v) list \<Rightarrow> ('k, 'v) HashMap \<Rightarrow> ('k, 'v) HashMap outcome" where
  "hm_fill hasher [] t = Inr t"
| "hm_fill hasher ((k, v) # kvs) t = bindO (hm_insert hasher k v t) (hm_fill hasher kvs)"

lemma mkTable_inv: "hm_inv hasher (mkTable n)" "hm_map (mkTable n) = Map.empty" "Tombstone \<notin> set (tableBuffer (mkTable n))"
  by (simp_all add: hm_inv_def ht_inv_def buffer_ok_def unique_keys_def mkTable_def hm_map_def iterated_eq tableBuffer_def)

lemma tombstone_free_ready:
  assumes "hm_inv hasher t" "Tombstone \<notin> set (tableBuffer t)" "ht_count t + 1 < 2 ^ 57"
  shows "hm_writes key t"
proof (cases "rehashes (ht_count t) (capacity t)")
  case False
  then have "hole (tableBuffer t)" using load_room [of hasher fst t] assms(1,2) by (simp add: hm_inv_def)
  then show ?thesis using assms(3) by (simp add: hm_writes_def answers_def)
qed (use assms(3) in \<open>simp add: hm_writes_def\<close>)

lemma hm_fill_spec:
  assumes "hm_inv hasher t" "Tombstone \<notin> set (tableBuffer t)" "ht_count t + length kvs < 2 ^ 57" "kvs \<noteq> [] \<or> hole (tableBuffer t)"
  shows "\<exists>t'. hm_fill hasher kvs t = Inr t' \<and> hm_inv hasher t' \<and> hole (tableBuffer t') \<and> hm_map t' = hm_map t ++ map_of (rev kvs)"
  using assms
proof (induction hasher kvs t rule: hm_fill.induct)
  case (2 hasher k v kvs t)
  have w: "hm_writes k t" using "2.prems"(1-3) by (intro tombstone_free_ready) simp_all
  obtain t' where t': "hm_insert hasher k v t = Inr t'" "hm_inv hasher t'" "hm_map t' = (hm_map t)(k \<mapsto> v)"
    "Tombstone \<notin> set (tableBuffer t')" "hole (tableBuffer t')" using hm_insert_spec [OF "2.prems"(1) w] "2.prems"(2) by metis
  have c: "ht_count t' + length kvs < 2 ^ 57" using count_after_insert [OF "2.prems"(1) t'(2,3)] "2.prems"(3) by simp
  obtain t'' where "hm_fill hasher kvs t' = Inr t''" "hm_inv hasher t''" "hole (tableBuffer t'')" "hm_map t'' = hm_map t' ++ map_of (rev kvs)"
    using "2.IH" [OF t'(2,4) c] t'(5) by blast
  then show ?case using t'(1,3) by (intro exI [of _ t'']) simp
qed simp

section \<open>Tombstones\<close>

text \<open>Insert one key and take it out again, key after key.\<close>

fun hm_churn :: "('k \<Rightarrow> nat) \<Rightarrow> 'v \<Rightarrow> 'k list \<Rightarrow> ('k, 'v) HashMap \<Rightarrow> ('k, 'v) HashMap outcome" where
  "hm_churn hasher v [] t = Inr t"
| "hm_churn hasher v (k # ks) t =
     bindO (hm_insert hasher k v t) (\<lambda>t1. bindO (hm_remove hasher k t1) (\<lambda>(t2, _). hm_churn hasher v ks t2))"

lemma no_hole_fails:
  assumes "\<not> answers fst key t" "0 < capacity t"
  shows "hm_get hasher key t = Inl loadLimit" "hm_contains hasher key t = Inl loadLimit" "hm_at hasher key t = Inl loadLimit"
    "hm_remove hasher key t = Inl loadLimit" "hm_index hasher dflt key t = Inl loadLimit"
proof -
  have p: "probeEntry hasher fst key t = Inl loadLimit" using assms by (intro probeEntry_fails) (simp_all only: answers_def de_Morgan_disj not_not simp_thms)
  have "entryBuffer t \<noteq> None" using assms(2) by (cases "entryBuffer t") (simp_all add: capacity_def)
  then show "hm_contains hasher key t = Inl loadLimit" using p by (simp add: hm_contains_def ht_contains_def)
  show "hm_get hasher key t = Inl loadLimit" "hm_at hasher key t = Inl loadLimit" "hm_remove hasher key t = Inl loadLimit"
    "hm_index hasher dflt key t = Inl loadLimit" using p by (simp_all add: hm_get_def hm_at_def hm_remove_def hm_index_def)
qed

lemma no_buffer_fails:
  assumes "capacity t = 0"
  shows "hm_get hasher key t = Inl (Undefined ''division by zero'')" "hm_at hasher key t = Inl (Undefined ''division by zero'')"
    "hm_remove hasher key t = Inl (Undefined ''division by zero'')" "hm_index hasher dflt key t = Inl (Undefined ''division by zero'')"
    "hm_contains hasher key t = (if entryBuffer t = None then Inr False else Inl (Undefined ''division by zero''))"
proof -
  have p: "probeEntry hasher fst key t = Inl (Undefined ''division by zero'')"
    using assms by (cases "entryBuffer t") (simp_all add: probeEntry_def probeBuffer_def capacity_def)
  then show "hm_get hasher key t = Inl (Undefined ''division by zero'')" "hm_at hasher key t = Inl (Undefined ''division by zero'')"
    "hm_remove hasher key t = Inl (Undefined ''division by zero'')" "hm_index hasher dflt key t = Inl (Undefined ''division by zero'')"
    "hm_contains hasher key t = (if entryBuffer t = None then Inr False else Inl (Undefined ''division by zero''))"
    by (simp_all add: hm_get_def hm_at_def hm_remove_def hm_index_def hm_contains_def ht_contains_def)
qed

text \<open>An empty table of capacity \<open>n\<close> with tombstones at the indices \<open>S\<close>; one that also has an entry or a tombstone at \<open>h\<close>.\<close>

definition wornBuffer :: "nat \<Rightarrow> nat set \<Rightarrow> 'e HashEntry list" where
  "wornBuffer n S = map (\<lambda>i. if i \<in> S then Tombstone else Empty) [0..<n]"

definition wornWith :: "nat \<Rightarrow> nat set \<Rightarrow> nat \<Rightarrow> 'e HashEntry \<Rightarrow> nat \<Rightarrow> 'e IndexedHashTable" where
  "wornWith n S h x c = \<lparr>entryBuffer = Some ((wornBuffer n S)[h := x]), ht_count = c\<rparr>"

lemma wornWith_simps:
  "capacity (wornWith n S h x c) = n" "ht_count (wornWith n S h x c) = c" "(wornWith n S h x c)\<lparr>ht_count := c'\<rparr> = wornWith n S h x c'"
  "putEntry h y (wornWith n S h x c) = wornWith n S h y c"
  by (simp_all add: wornWith_def wornBuffer_def capacity_def putEntry_def)

lemma wornWith_probe:
  assumes "h < n" "hasher k mod n = h" "x = Empty \<or> x = Occupied (k, v)"
  shows "probeEntry hasher fst k (wornWith n S h x c) = Inr (h, x)"
proof -
  let ?buf = "(wornBuffer n S)[h := x]"
  obtain m where m: "length ?buf = Suc m" "n = Suc m" using assms(1) by (cases n) (simp_all add: wornBuffer_def)
  have h: "?buf ! h = x" using assms(1) by (simp add: wornBuffer_def)
  have "probeLoop fst k ?buf h (Suc m) None = Inr h" unfolding probeLoop.simps h using assms(3) by auto
  then have "probeBuffer hasher fst k ?buf = Inr h" using assms(2) m unfolding probeBuffer_def by simp
  then show ?thesis using h by (simp add: probeEntry_def wornWith_def)
qed

lemma wornWith_keep:
  assumes "2 \<le> n" "n \<le> 16" "c \<le> 1"
  shows "resizeIfNecessary hasher fst (wornWith n S h x c) = Inr (wornWith n S h x c, False)"
proof -
  have "100 div n \<le> 50" using div_le_mono2 [of 2 n 100] assms(1) by simp
  then have "\<not> rehashes c n" using assms by (auto simp: rehashes_def le_Suc_eq)
  then show ?thesis using assms(3) by (intro resizeIfNecessary_keep) (simp_all add: wornWith_simps)
qed

text \<open>One key goes through the table and leaves a tombstone at its index.\<close>

lemma worn_step:
  fixes v :: 'v and k :: 'k
  assumes n: "2 \<le> n" "n \<le> 16" and h: "hasher k mod n = h" "h \<notin> S"
  shows "bindO (hm_insert hasher k v \<lparr>entryBuffer = Some (wornBuffer n S), ht_count = 0\<rparr>) (hm_remove hasher k) =
    Inr (\<lparr>entryBuffer = Some (wornBuffer n (insert h S)), ht_count = 0\<rparr>, True)"
proof -
  have l: "h < n" using n(1) h(1) by auto
  have "(wornBuffer n S)[h := Empty] = (wornBuffer n S :: ('k \<times> 'v) HashEntry list)"
    using l h(2) by (intro list_update_same_conv [THEN iffD2]) (simp_all add: wornBuffer_def)
  then have start: "\<lparr>entryBuffer = Some (wornBuffer n S), ht_count = 0\<rparr> = (wornWith n S h Empty 0 :: ('k, 'v) HashMap)"
    unfolding wornWith_def by simp
  have "(wornBuffer n S)[h := Tombstone] = (wornBuffer n (insert h S) :: ('k \<times> 'v) HashEntry list)"
    using l by (intro nth_equalityI) (auto simp: wornBuffer_def nth_list_update)
  then have stop: "wornWith n S h Tombstone 0 = (\<lparr>entryBuffer = Some (wornBuffer n (insert h S)), ht_count = 0\<rparr> :: ('k, 'v) HashMap)"
    unfolding wornWith_def by simp
  note probe = wornWith_probe [of h n hasher k _ v S, OF l h(1)]
  have "hm_insert hasher k v (wornWith n S h Empty 0) = Inr (wornWith n S h (Occupied (k, v)) 1)"
    unfolding hm_insert_def ht_insert_def using n by (simp add: wornWith_keep probe wornWith_simps)
  moreover have "hm_remove hasher k (wornWith n S h (Occupied (k, v)) 1) = Inr (wornWith n S h Tombstone 0, True)"
    unfolding hm_remove_def eraseAt_def using n by (simp add: wornWith_keep probe wornWith_simps)
  ultimately show ?thesis unfolding start by (simp add: stop)
qed

lemma worn_churn:
  assumes "2 \<le> n" "n \<le> 16" "distinct (map (\<lambda>k. hasher k mod n) ks)" "set (map (\<lambda>k. hasher k mod n) ks) \<inter> S = {}"
  shows "hm_churn hasher v ks \<lparr>entryBuffer = Some (wornBuffer n S), ht_count = 0\<rparr> =
    Inr \<lparr>entryBuffer = Some (wornBuffer n (S \<union> (\<lambda>k. hasher k mod n) ` set ks)), ht_count = 0\<rparr>"
  using assms(3,4)
proof (induction ks arbitrary: S)
  case (Cons k ks)
  let ?h = "hasher k mod n"
  have f: "?h \<notin> S" "set (map (\<lambda>k. hasher k mod n) ks) \<inter> insert ?h S = {}" using Cons.prems by auto
  obtain t where "hm_insert hasher k v \<lparr>entryBuffer = Some (wornBuffer n S), ht_count = 0\<rparr> = Inr t"
    "hm_remove hasher k t = Inr (\<lparr>entryBuffer = Some (wornBuffer n (insert ?h S)), ht_count = 0\<rparr>, True)"
    using worn_step [of n hasher k ?h S v, OF assms(1,2) refl f(1)] unfolding bindO_eq_Inr_iff by blast
  moreover have "insert ?h S \<union> (\<lambda>k. hasher k mod n) ` set ks = S \<union> (\<lambda>k. hasher k mod n) ` set (k # ks)" by auto
  ultimately show ?case using Cons.IH [OF _ f(2)] Cons.prems(1) by simp
qed simp

section \<open>Properties\<close>

text \<open>
  C34: \<open>HashMap\<close> refines a finite map. In a table that satisfies the invariant and has fewer than \<open>2 ^ 57 - 1\<close> keys, the
  counter is the number of keys and an iteration visits the pairs of the map, each key once. As long as the key is in the
  table or an empty entry is left, \<open>get\<close>, \<open>contains\<close>, \<open>at\<close> and \<open>remove\<close> return what the map has, where \<open>at\<close> of a missing key is
  its assertion, \<open>remove\<close> deletes the key, and \<open>[]\<close> adds a missing key with the default value and refers to the key's
  entry; \<open>insert\<close> updates the map at the key, also when it rehashes the table first or afterwards. Otherwise every one of
  these operations is the assertion failure of \<open>probeEntry\<close>, save for an \<open>insert\<close> that rehashes first. \<open>clear\<close> empties the map;
  with the buffer of capacity 0 it leaves, \<open>insert\<close> works, \<open>contains\<close> is false, and the other operations divide by zero.
\<close>

theorem hash_map_refines:
  assumes "hm_inv hasher t" "ht_count t + 1 < 2 ^ 57"
  shows "ht_count t = card (dom (hm_map t)) \<and> distinct (map fst (iterated t)) \<and> set (iterated t) = {(k, w). hm_map t k = Some w} \<and>
    (answers fst key t \<longrightarrow>
       hm_get hasher key t = Inr (hm_map t key) \<and> hm_contains hasher key t = Inr (key \<in> dom (hm_map t)) \<and>
       hm_at hasher key t = (case hm_map t key of Some w \<Rightarrow> Inr w | None \<Rightarrow> Inl (Assertion ''Key not found in HashMap::at()'')) \<and>
       (\<exists>t'. hm_remove hasher key t = Inr (t', key \<in> dom (hm_map t)) \<and> hm_inv hasher t' \<and> hm_map t' = (hm_map t)(key := None)) \<and>
       (\<exists>t' i. hm_index hasher dflt key t = Inr (t', i) \<and> hm_inv hasher t' \<and>
          hm_map t' = (if key \<in> dom (hm_map t) then hm_map t else (hm_map t)(key \<mapsto> dflt)) \<and>
          (\<exists>w. hm_map t' key = Some w \<and> tableBuffer t' ! i = Occupied (key, w)))) \<and>
    (answers fst key t \<or> rehashes (ht_count t) (capacity t) \<longrightarrow>
       (\<exists>t'. hm_insert hasher key v t = Inr t' \<and> hm_inv hasher t' \<and> hm_map t' = (hm_map t)(key \<mapsto> v))) \<and>
    (\<not> answers fst key t \<and> 0 < capacity t \<longrightarrow>
       hm_get hasher key t = Inl loadLimit \<and> hm_contains hasher key t = Inl loadLimit \<and> hm_at hasher key t = Inl loadLimit \<and>
       hm_remove hasher key t = Inl loadLimit \<and> hm_index hasher dflt key t = Inl loadLimit \<and>
       (\<not> rehashes (ht_count t) (capacity t) \<longrightarrow> hm_insert hasher key v t = Inl loadLimit)) \<and>
    (let c = clear t in hm_inv hasher c \<and> hm_map c = Map.empty \<and> hm_contains hasher key c = Inr False \<and>
       (\<exists>t'. hm_insert hasher key v c = Inr t' \<and> hm_inv hasher t' \<and> hm_map t' = [key \<mapsto> v]) \<and>
       hm_get hasher key c = Inl (Undefined ''division by zero'') \<and> hm_at hasher key c = Inl (Undefined ''division by zero'') \<and>
       hm_remove hasher key c = Inl (Undefined ''division by zero'') \<and> hm_index hasher dflt key c = Inl (Undefined ''division by zero''))"
proof (intro conjI impI)
  have b: "ht_count t < 2 ^ 57" using assms(2) by simp
  have store: "\<exists>t'. hm_insert hasher key v u = Inr t' \<and> hm_inv hasher t' \<and> hm_map t' = (hm_map u)(key \<mapsto> v)"
    if "hm_inv hasher u" "hm_writes key u" for u :: "('a, 'b) HashMap" using hm_insert_spec [OF that] by metis
  show "ht_count t = card (dom (hm_map t))" "distinct (map fst (iterated t))" "set (iterated t) = {(k, w). hm_map t k = Some w}"
    using assms(1) by (rule count_is_card, rule count_is_card, rule iterated_set)
  {
    assume s: "answers fst key t"
    then have r: "hm_reads key t" using b by (simp add: hm_reads_def)
    show "hm_get hasher key t = Inr (hm_map t key)" using assms(1) s by (rule hm_get_spec)
    show "hm_contains hasher key t = Inr (key \<in> dom (hm_map t))"
      using ht_contains_spec [of hasher fst t key] assms(1) s by (simp add: hm_contains_def hm_inv_def hm_map_None dom_def)
    show "hm_at hasher key t = (case hm_map t key of Some w \<Rightarrow> Inr w | None \<Rightarrow> Inl (Assertion ''Key not found in HashMap::at()''))"
      using hm_at_spec [OF assms(1)] hm_at_missing [OF assms(1) s] by (simp split: option.split)
    show "\<exists>t'. hm_remove hasher key t = Inr (t', key \<in> dom (hm_map t)) \<and> hm_inv hasher t' \<and> hm_map t' = (hm_map t)(key := None)"
      unfolding domIff using hm_remove_spec [OF assms(1) r] by metis
    show "\<exists>t' i. hm_index hasher dflt key t = Inr (t', i) \<and> hm_inv hasher t' \<and>
          hm_map t' = (if key \<in> dom (hm_map t) then hm_map t else (hm_map t)(key \<mapsto> dflt)) \<and>
          (\<exists>w. hm_map t' key = Some w \<and> tableBuffer t' ! i = Occupied (key, w))" using assms s by (rule hm_index_spec)
  }
  show "\<exists>t'. hm_insert hasher key v t = Inr t' \<and> hm_inv hasher t' \<and> hm_map t' = (hm_map t)(key \<mapsto> v)"
    if "answers fst key t \<or> rehashes (ht_count t) (capacity t)" using store [OF assms(1)] that assms(2) by (simp add: hm_writes_def)
  {
    assume s: "\<not> answers fst key t \<and> 0 < capacity t"
    then show "hm_get hasher key t = Inl loadLimit" "hm_contains hasher key t = Inl loadLimit" "hm_at hasher key t = Inl loadLimit"
      "hm_remove hasher key t = Inl loadLimit" "hm_index hasher dflt key t = Inl loadLimit" by (auto intro: no_hole_fails)
    show "hm_insert hasher key v t = Inl loadLimit" if "\<not> rehashes (ht_count t) (capacity t)"
      unfolding hm_insert_def using b conjunct1 [OF s] that by (rule ht_insert_fails)
  }
  let ?c = "clear t"
  have c: "hm_inv hasher ?c" "hm_map ?c = Map.empty" "entryBuffer ?c = None" "ht_count ?c = 0" using clear_spec [OF assms(1)] by blast+
  have "capacity ?c = 0" "hm_writes key ?c" using c(3,4) by (simp_all add: capacity_def hm_writes_def rehashes_def)
  then show "let c = clear t in hm_inv hasher c \<and> hm_map c = Map.empty \<and> hm_contains hasher key c = Inr False \<and>
       (\<exists>t'. hm_insert hasher key v c = Inr t' \<and> hm_inv hasher t' \<and> hm_map t' = [key \<mapsto> v]) \<and>
       hm_get hasher key c = Inl (Undefined ''division by zero'') \<and> hm_at hasher key c = Inl (Undefined ''division by zero'') \<and>
       hm_remove hasher key c = Inl (Undefined ''division by zero'') \<and> hm_index hasher dflt key c = Inl (Undefined ''division by zero'')"
    using c store [OF c(1)] unfolding Let_def by (simp add: no_buffer_fails)
qed

text \<open>A table with one entry, a tombstone and empty entries answers every key.\<close>

definition smallMap :: "(nat, nat) HashMap" where
  "smallMap = \<lparr>entryBuffer = Some [Tombstone, Occupied (4, 7), Empty, Empty], ht_count = 1\<rparr>"

lemma smallMap_ok:
  "hm_inv id smallMap" "answers fst 8 smallMap" "0 < capacity smallMap" "ht_count smallMap + 1 < 2 ^ 57"
  "hm_map smallMap = [4 \<mapsto> 7]"
proof -
  have p: "probes [Tombstone, Occupied (4, 7), Empty, Empty] 0 (Suc 0)"
    unfolding probes_def by (intro exI [of _ 1]) auto
  have "well_placed id fst [Tombstone, Occupied (4, 7), Empty, Empty]"
    unfolding well_placed_def using p by (auto simp: less_Suc_eq nth_Cons')
  then show "hm_inv id smallMap"
    by (simp add: hm_inv_def ht_inv_def buffer_ok_def tableBuffer_def smallMap_def unique_keys_def)
qed (simp_all add: smallMap_def answers_def hole_def tableBuffer_def capacity_def hm_map_def iterated_eq)

theorem hash_map_refines_witness:
  "hm_get id 8 smallMap = Inr None \<and> hm_at id 8 smallMap = Inl (Assertion ''Key not found in HashMap::at()'') \<and>
   (\<exists>t'. hm_insert id 8 1 smallMap = Inr t' \<and> hm_map t' = [4 \<mapsto> 7, 8 \<mapsto> 1])"
proof -
  note w = hash_map_refines [OF smallMap_ok(1,4), of 8 0 1]
  have "hm_get id 8 smallMap = Inr None" "hm_at id 8 smallMap = Inl (Assertion ''Key not found in HashMap::at()'')"
    using w smallMap_ok(2,5) by simp_all
  moreover have "\<exists>t'. hm_insert id 8 1 smallMap = Inr t' \<and> hm_map t' = [4 \<mapsto> 7, 8 \<mapsto> 1]" using w smallMap_ok(2,5) by metis
  ultimately show ?thesis by blast
qed

text \<open>
  a new \<open>HashMap\<close> that is only inserted into never fails, whatever its initial capacity and its hash function: it
  then holds for each key the value inserted last, looks up every key, present or not, and its size is the number of
  different keys.
\<close>

lemma hash_map_fill_exact:
  assumes "length kvs + 1 < 2 ^ 57" "kvs \<noteq> []"
  shows "\<exists>t. hm_fill hasher kvs (mkTable init_capacity) = Inr t \<and> (\<forall>key. hm_get hasher key t = Inr (map_of (rev kvs) key)) \<and>
    ht_count t = card (fst ` set kvs) \<and> set (iterated t) = {(k, v). map_of (rev kvs) k = Some v}"
proof -
  have "ht_count (mkTable init_capacity :: ('a, 'b) HashMap) = 0" by (simp add: mkTable_def)
  then obtain t where t: "hm_fill hasher kvs (mkTable init_capacity) = Inr t" "hm_inv hasher t" "hole (tableBuffer t)" "hm_map t = map_of (rev kvs)"
    using hm_fill_spec [OF mkTable_inv(1,3), of init_capacity kvs hasher] assms by (auto simp: mkTable_inv(2))
  have "hm_get hasher key t = Inr (map_of (rev kvs) key)" for key using hm_get_spec [OF t(2)] t(3,4) by (simp add: answers_def)
  moreover have "ht_count t = card (fst ` set kvs)" using count_is_card(1) [OF t(2)] t(4) by (simp add: dom_map_of_conv_image_fst)
  moreover have "set (iterated t) = {(k, v). map_of (rev kvs) k = Some v}"
    using count_is_card(2) [OF t(2)] unfolding t(4) [symmetric] hm_map_def by auto
  ultimately show ?thesis using t(1) by blast
qed

text \<open>
  C35: removed entries stay behind as tombstones that nothing counts. Insert and remove, one at a time, as many keys as
  the table has entries, with pairwise different hash indices, in a new map of any capacity from 2 to 16, the default:
  whatever the hash function, the keys and the value, no step fails, and the map is then empty; but every lookup, removal
  and insertion, of any key, is the assertion failure of \<open>probeEntry\<close>.
\<close>

theorem tombstones_exhaust_table:
  assumes "2 \<le> n" "n \<le> 16" "length ks = n" "distinct (map (\<lambda>k. hasher k mod n) ks)"
  shows "\<exists>t. hm_churn hasher v ks (mkTable n) = Inr t \<and> ht_count t = 0 \<and> hm_map t = Map.empty \<and>
     (\<forall>key w. hm_get hasher key t = Inl loadLimit \<and> hm_contains hasher key t = Inl loadLimit \<and> hm_at hasher key t = Inl loadLimit \<and>
        hm_remove hasher key t = Inl loadLimit \<and> hm_index hasher w key t = Inl loadLimit \<and> hm_insert hasher key w t = Inl loadLimit)"
proof -
  let ?S = "(\<lambda>k. hasher k mod n) ` set ks"
  let ?t = "\<lparr>entryBuffer = Some (wornBuffer n ?S), ht_count = 0\<rparr> :: ('a, 'b) HashMap"
  have "?S \<subseteq> {..<n}" using assms(1) by auto
  moreover have "card ?S = n" using distinct_card [OF assms(4)] assms(3) by simp
  ultimately have S: "?S = {..<n}" by (simp add: card_subset_eq)
  have start: "mkTable n = (\<lparr>entryBuffer = Some (wornBuffer n {}), ht_count = 0\<rparr> :: ('a, 'b) HashMap)"
    by (simp add: mkTable_def wornBuffer_def map_replicate_const)
  have run: "hm_churn hasher v ks (mkTable n) = Inr ?t" unfolding start using worn_churn [OF assms(1,2,4), of "{}" v] by simp
  have buf: "tableBuffer ?t = replicate n Tombstone"
    unfolding S by (simp add: tableBuffer_def wornBuffer_def list_eq_iff_nth_eq)
  have o: "occupants (replicate n Tombstone :: ('a \<times> 'b) HashEntry list) = []" by (induction n) simp_all
  have c: "0 < capacity ?t" "\<not> rehashes (ht_count ?t) (capacity ?t)" using assms(1,2) unfolding capacity_eq buf by (simp_all add: rehashes_def)
  have f: "\<not> answers fst key ?t" for key unfolding answers_def buf o by (simp add: tableOf_def hole_def)
  have "hm_insert hasher key w ?t = Inl loadLimit" for key w unfolding hm_insert_def using f c(2) by (intro ht_insert_fails) simp_all
  moreover have "hm_map ?t = Map.empty" unfolding hm_map_def iterated_eq buf o by simp
  ultimately show ?thesis using run no_hole_fails [OF f c(1)] by (intro exI [of _ ?t]) simp
qed

theorem tombstones_exhaust_table_witness:
  "\<exists>t. hm_churn id (0::nat) [0..<16] (mkTable 16) = Inr t \<and> hm_insert id 3 1 t = Inl loadLimit"
proof -
  have d: "distinct (map (\<lambda>k. id k mod 16) [0..<16])" by (simp add: upt_rec)
  show ?thesis using tombstones_exhaust_table [of 16 "[0..<16]" id, OF _ _ _ d] by fastforce
qed

end
