(* ===== verification/Hash_Set.thy ===== *)
theory Hash_Set
  imports Hash_Map
begin

text \<open>
  \<open>HashSet\<close> as a set, \<open>ImmutableIndexedHashSet\<close> as a numbering of its elements, and \<open>Bimap\<close> of \<open>core/ds/Bimap.h\<close>, a
  bijection kept in two \<open>HashMap\<close>s.
\<close>

section \<open>The set\<close>

definition hs_inv :: "('t \<Rightarrow> nat) \<Rightarrow> 't HashSet \<Rightarrow> bool" where
  "hs_inv hasher t \<longleftrightarrow> ht_inv hasher id t"

lemma hs_map: "hs_inv hasher t \<Longrightarrow> ht_map id t e = (if e \<in> set (iterated t) then Some e else None)"
  by (auto simp: hs_inv_def ht_inv_def buffer_ok_def iterated_eq tableOf_iff tableOf_None_iff)

lemma hs_set_eq:
  assumes "hs_inv hasher t"
  shows "set (iterated t) = dom (ht_map id t)"
  using hs_map [OF assms] by (auto split: if_splits)

text \<open>Both insertions add the element and tell whether it was there; the moving one if the move leaves the element as it is.\<close>

lemma hs_insert_spec:
  assumes "hs_inv hasher t" "answers id e t" "ht_count t + 1 < 2 ^ 57"
  shows "\<exists>t'. hs_insert hasher e t = Inr (t', e \<in> set (iterated t)) \<and> hs_inv hasher t' \<and> set (iterated t') = insert e (set (iterated t))"
    and "moved e = e \<Longrightarrow> \<exists>t'. hs_insertMove hasher moved e t = Inr (t', e \<in> set (iterated t)) \<and> hs_inv hasher t' \<and> set (iterated t') = insert e (set (iterated t))"
proof -
  have i: "ht_inv hasher id t" using assms(1) by (simp add: hs_inv_def)
  have c: "ht_contains hasher id e t = Inr (e \<in> set (iterated t))"
    using ht_contains_spec [OF i assms(2)] hs_map [OF assms(1), of e] by simp
  obtain t' where t': "ht_insert hasher id e e (\<lambda>_. e) t = Inr t'" "ht_inv hasher id t'"
    "ht_map id t' = (ht_map id t)(e \<mapsto> (case ht_map id t e of None \<Rightarrow> e | Some x \<Rightarrow> e))"
    using i assms(3) by (rule ht_insert_spec [where fresh = e and over = "\<lambda>_. e"]) (use assms(2) in auto)
  have v: "hs_inv hasher t'" using t'(2) by (simp add: hs_inv_def)
  have s: "set (iterated t') = insert e (set (iterated t))"
    unfolding hs_set_eq [OF v] hs_set_eq [OF assms(1)] t'(3) by simp
  show "\<exists>t'. hs_insert hasher e t = Inr (t', e \<in> set (iterated t)) \<and> hs_inv hasher t' \<and> set (iterated t') = insert e (set (iterated t))"
    using c t'(1) v s assms(1) by (cases "e \<in> set (iterated t)") (auto simp: hs_insert_def)
  show "\<exists>t'. hs_insertMove hasher moved e t = Inr (t', e \<in> set (iterated t)) \<and> hs_inv hasher t' \<and> set (iterated t') = insert e (set (iterated t))" if "moved e = e"
    using c t'(1) v s that by (auto simp: hs_insertMove_def)
qed

lemma hs_remove_spec:
  assumes "hs_inv hasher t" "answers id e t" "ht_count t < 2 ^ 57"
  shows "\<exists>t'. hs_remove hasher e t = Inr t' \<and> hs_inv hasher t' \<and> set (iterated t') = set (iterated t) - {e}"
proof (cases "ht_map id t e")
  case None
  then have h: "hole (tableBuffer t)" using assms(2) by (simp add: answers_def)
  obtain i x where "probeEntry hasher id e t = Inr (i, x)" "\<not> isOccupied x"
    using assms(1) None h unfolding hs_inv_def by (rule probeEntry_absent)
  moreover have "entryBuffer t \<noteq> None" using h by (cases "entryBuffer t") (simp_all add: hole_def tableBuffer_def)
  moreover have "e \<notin> set (iterated t)" using None hs_map [OF assms(1), of e] by (simp split: if_splits)
  ultimately show ?thesis using assms(1) by (simp add: hs_remove_def ht_remove_def)
next
  case (Some x)
  obtain i where i: "probeEntry hasher id e t = Inr (i, Occupied x)" "i < length (tableBuffer t)" "tableBuffer t ! i = Occupied x" "id x = e"
    using assms(1) Some unfolding hs_inv_def by (rule probeEntry_present)
  obtain t' where t': "eraseAt hasher id i t = Inr t'" "ht_inv hasher id t'" "ht_map id t' = (ht_map id t)(id x := None)"
    using assms(1) [unfolded hs_inv_def] assms(3) i(2,3) by (rule eraseAt_spec)
  have ne: "entryBuffer t \<noteq> None" using i(2) by (cases "entryBuffer t") (simp_all add: tableBuffer_def)
  have v: "hs_inv hasher t'" using t'(2) by (simp add: hs_inv_def)
  moreover have "set (iterated t') = set (iterated t) - {e}" unfolding hs_set_eq [OF v] hs_set_eq [OF assms(1)] t'(3) using i(4) by simp
  moreover have "hs_remove hasher e t = Inr t'" unfolding hs_remove_def ht_remove_def if_not_P [OF ne] i(1) using t'(1) by simp
  ultimately show ?thesis using v by blast
qed

section \<open>The numbering\<close>

lemma fromIndex_iff: "fromIndex i t = Some e \<longleftrightarrow> i < length (tableBuffer t) \<and> tableBuffer t ! i = Occupied e"
  by (cases "entryBuffer t") (auto simp: fromIndex_def capacity_def tableBuffer_def split: HashEntry.split)

lemma indexOf_present:
  assumes "hs_inv hasher t" "e \<in> set (iterated t)"
  obtains i where "indexOf hasher e t = Inr (Some i)" "i < capacity t" "fromIndex i t = Some e"
proof -
  have m: "ht_map id t e = Some e" using hs_map [OF assms(1)] assms(2) by simp
  obtain i where "probeEntry hasher id e t = Inr (i, Occupied e)" "i < length (tableBuffer t)" "tableBuffer t ! i = Occupied e"
    using assms(1) m unfolding hs_inv_def by (rule probeEntry_present)
  then show ?thesis using that by (simp add: indexOf_def fromIndex_iff capacity_eq)
qed

text \<open>The entries of a buffer with distinct keys are at different indices.\<close>

lemma occupant_unique:
  assumes "distinct (occupants buf)" "i < length buf" "j < length buf" "buf ! i = Occupied e" "buf ! j = Occupied e"
  shows "i = j"
  using assms
proof (induction buf arbitrary: i j)
  case (Cons x buf)
  have n: "e \<notin> set (occupants buf)" if "x = Occupied e" using Cons.prems(1) that by simp
  have d: "distinct (occupants buf)" using Cons.prems(1) by simp
  show ?case
  proof (cases i)
    case 0
    then show ?thesis using Cons.prems n by (cases j) (auto dest: occupant_at)
  next
    case (Suc i')
    then show ?thesis using Cons.prems n Cons.IH [OF d] by (cases j) (auto dest: occupant_at)
  qed
qed simp

lemma indexOf_unique:
  assumes "hs_inv hasher t" "fromIndex i t = Some e"
  shows "indexOf hasher e t = Inr (Some i)"
proof -
  have i: "i < length (tableBuffer t)" "tableBuffer t ! i = Occupied e" using assms(2) by (simp_all add: fromIndex_iff)
  then have "e \<in> set (iterated t)" by (simp add: iterated_eq occupant_at)
  then obtain j where j: "indexOf hasher e t = Inr (Some j)" "fromIndex j t = Some e" using indexOf_present [OF assms(1)] by metis
  have "distinct (occupants (tableBuffer t))" using assms(1) by (simp add: hs_inv_def ht_inv_def buffer_ok_def unique_keys_def)
  then have "j = i" using j(2) i by (intro occupant_unique) (simp_all add: fromIndex_iff)
  then show ?thesis using j(1) by simp
qed

section \<open>Bimap\<close>

text \<open>The two maps; copies and the inverse share them.\<close>

record ('l, 'r) Bimap =
  leftMap :: "('l, 'r) HashMap"
  rightMap :: "('r, 'l) HashMap"

definition bm_new :: "('l, 'r) Bimap" where
  "bm_new = \<lparr>leftMap = mkTable 16, rightMap = mkTable 16\<rparr>"

definition bm_inverse :: "('l, 'r) Bimap \<Rightarrow> ('r, 'l) Bimap" where
  "bm_inverse b = \<lparr>leftMap = rightMap b, rightMap = leftMap b\<rparr>"

definition bm_contains :: "('l \<Rightarrow> nat) \<Rightarrow> 'l \<Rightarrow> ('l, 'r) Bimap \<Rightarrow> bool outcome" where
  "bm_contains lh left b = hm_contains lh left (leftMap b)"

definition bm_containsRight :: "('r \<Rightarrow> nat) \<Rightarrow> 'r \<Rightarrow> ('l, 'r) Bimap \<Rightarrow> bool outcome" where
  "bm_containsRight rh right b = hm_contains rh right (rightMap b)"

definition bm_at :: "('l \<Rightarrow> nat) \<Rightarrow> 'l \<Rightarrow> ('l, 'r) Bimap \<Rightarrow> 'r outcome" where
  "bm_at lh left b = hm_at lh left (leftMap b)"

definition bm_atRight :: "('r \<Rightarrow> nat) \<Rightarrow> 'r \<Rightarrow> ('l, 'r) Bimap \<Rightarrow> 'l outcome" where
  "bm_atRight rh right b = hm_at rh right (rightMap b)"

definition bm_insert :: "('l \<Rightarrow> nat) \<Rightarrow> ('r \<Rightarrow> nat) \<Rightarrow> 'l \<Rightarrow> 'r \<Rightarrow> ('l, 'r) Bimap \<Rightarrow> (('l, 'r) Bimap \<times> bool) outcome" where
  "bm_insert lh rh left right b =
     bindO (hm_contains lh left (leftMap b)) (\<lambda>l. if l then Inr (b, False) else
     bindO (hm_contains rh right (rightMap b)) (\<lambda>r. if r then Inr (b, False) else
     bindO (hm_insert lh left right (leftMap b)) (\<lambda>lm.
     bindO (hm_insert rh right left (rightMap b)) (\<lambda>rm. Inr (\<lparr>leftMap = lm, rightMap = rm\<rparr>, True)))))"

definition bm_remove :: "('l \<Rightarrow> nat) \<Rightarrow> ('r \<Rightarrow> nat) \<Rightarrow> 'l \<Rightarrow> ('l, 'r) Bimap \<Rightarrow> (('l, 'r) Bimap \<times> bool) outcome" where
  "bm_remove lh rh left b =
     bindO (hm_contains lh left (leftMap b)) (\<lambda>present. if present then
       bindO (hm_at lh left (leftMap b)) (\<lambda>right.
       bindO (hm_remove rh right (rightMap b)) (\<lambda>(rm, _).
       bindO (hm_remove lh left (leftMap b)) (\<lambda>(lm, _). Inr (\<lparr>leftMap = lm, rightMap = rm\<rparr>, True))))
     else Inr (b, False))"

definition bm_removeRight :: "('l \<Rightarrow> nat) \<Rightarrow> ('r \<Rightarrow> nat) \<Rightarrow> 'r \<Rightarrow> ('l, 'r) Bimap \<Rightarrow> (('l, 'r) Bimap \<times> bool) outcome" where
  "bm_removeRight lh rh right b =
     bindO (hm_contains rh right (rightMap b)) (\<lambda>present. if present then
       bindO (hm_at rh right (rightMap b)) (\<lambda>left.
       bindO (hm_remove lh left (leftMap b)) (\<lambda>(lm, _).
       bindO (hm_remove rh right (rightMap b)) (\<lambda>(rm, _). Inr (\<lparr>leftMap = lm, rightMap = rm\<rparr>, True))))
     else Inr (b, False))"

definition bm_inv :: "('l \<Rightarrow> nat) \<Rightarrow> ('r \<Rightarrow> nat) \<Rightarrow> ('l, 'r) Bimap \<Rightarrow> bool" where
  "bm_inv lh rh b \<longleftrightarrow> hm_good lh (leftMap b) \<and> hm_good rh (rightMap b) \<and>
     (\<forall>l r. hm_map (leftMap b) l = Some r \<longleftrightarrow> hm_map (rightMap b) r = Some l)"

lemma bm_inv_inverse: "bm_inv rh lh (bm_inverse b) \<longleftrightarrow> bm_inv lh rh b"
  by (auto simp: bm_inv_def bm_inverse_def)

lemma bm_removeRight_eq: "bm_removeRight lh rh right b = bindO (bm_remove rh lh right (bm_inverse b)) (\<lambda>(b', ok). Inr (bm_inverse b', ok))"
  by (auto simp: bm_removeRight_def bm_remove_def bm_inverse_def bindO_def split: sum.split)

text \<open>
  A lookup that finds neither the key nor an empty entry is the assertion of \<open>probeEntry\<close>. Otherwise an insertion of
  the key succeeds: both lookups of \<open>insert\<close> come before its first change.
\<close>

lemma hm_searches:
  assumes "hm_good hasher t"
  shows "hm_contains hasher key t = (if answers fst key t then Inr (key \<in> dom (hm_map t)) else Inl loadLimit)"
    "hm_at hasher key t = (if answers fst key t then case hm_map t key of Some w \<Rightarrow> Inr w | None \<Rightarrow> Inl (Assertion ''Key not found in HashMap::at()'')
      else Inl loadLimit)"
    "hm_map t key = Some v \<Longrightarrow> answers fst key t"
proof -
  have g: "hm_inv hasher t" "ht_count t < 2 ^ 57" "0 < capacity t" using assms by (simp_all add: hm_good_def)
  show "hm_contains hasher key t = (if answers fst key t then Inr (key \<in> dom (hm_map t)) else Inl loadLimit)"
    using hm.holds [OF assms, of key] no_hole_fails(2) [OF _ g(3)] g(2) by (auto simp: hm_reads_def domIff)
  show "hm_at hasher key t = (if answers fst key t then case hm_map t key of Some w \<Rightarrow> Inr w | None \<Rightarrow> Inl (Assertion ''Key not found in HashMap::at()'')
      else Inl loadLimit)"
    using hm_at_spec [OF g(1)] hm_at_missing [OF g(1)] no_hole_fails(3) [OF _ g(3)] by (auto split: option.split)
  show "hm_map t key = Some v \<Longrightarrow> answers fst key t" using hm.present_readable [OF assms] by (simp add: hm_reads_def)
qed

lemma bm_insert_spec:
  assumes "bm_inv lh rh b" "ht_count (leftMap b) + 1 < 2 ^ 57" "ht_count (rightMap b) + 1 < 2 ^ 57"
    "answers fst left (leftMap b)" "answers fst right (rightMap b)"
    "hm_map (leftMap b) left = None" "hm_map (rightMap b) right = None"
  shows "\<exists>b'. bm_insert lh rh left right b = Inr (b', True) \<and> bm_inv lh rh b' \<and>
    hm_map (leftMap b') = (hm_map (leftMap b))(left \<mapsto> right) \<and> hm_map (rightMap b') = (hm_map (rightMap b))(right \<mapsto> left)"
proof -
  have g: "hm_good lh (leftMap b)" "hm_good rh (rightMap b)"
    and c: "\<And>l r. hm_map (leftMap b) l = Some r \<longleftrightarrow> hm_map (rightMap b) r = Some l" using assms(1) by (auto simp: bm_inv_def)
  have w: "hm_writes left (leftMap b)" "hm_writes right (rightMap b)" using assms(2-5) by (simp_all add: hm_writes_def)
  obtain lm where lm: "hm_insert lh left right (leftMap b) = Inr lm" "hm_good lh lm" "hm_map lm = (hm_map (leftMap b))(left \<mapsto> right)"
    using hm.store [OF g(1) w(1)] by blast
  obtain rm where rm: "hm_insert rh right left (rightMap b) = Inr rm" "hm_good rh rm" "hm_map rm = (hm_map (rightMap b))(right \<mapsto> left)"
    using hm.store [OF g(2) w(2)] by blast
  let ?b = "\<lparr>leftMap = lm, rightMap = rm\<rparr>"
  have "bm_insert lh rh left right b = Inr (?b, True)"
    using assms(4-7) hm_searches(1) [OF g(1)] hm_searches(1) [OF g(2)] lm(1) rm(1) by (simp add: bm_insert_def domIff)
  moreover have "hm_map (rightMap b) r \<noteq> Some left" "hm_map (leftMap b) l \<noteq> Some right" for l r
    using c [of left r] c [of l right] assms(6,7) by auto
  then have "bm_inv lh rh ?b" using c lm rm by (auto simp: bm_inv_def)
  ultimately show ?thesis using lm(3) rm(3) by (intro exI [of _ ?b]) simp
qed

lemma bm_remove_spec:
  assumes "bm_inv lh rh b" "answers fst left (leftMap b)"
  obtains b' where "bm_remove lh rh left b = Inr (b', left \<in> dom (hm_map (leftMap b)))"
    "bm_inv lh rh b'" "hm_map (leftMap b') = (hm_map (leftMap b))(left := None)"
proof -
  have g: "hm_good lh (leftMap b)" "hm_good rh (rightMap b)"
    and c: "\<And>l r. hm_map (leftMap b) l = Some r \<longleftrightarrow> hm_map (rightMap b) r = Some l" using assms(1) by (auto simp: bm_inv_def)
  have h: "hm_contains lh left (leftMap b) = Inr (left \<in> dom (hm_map (leftMap b)))" using hm_searches(1) [OF g(1)] assms(2) by simp
  show ?thesis
  proof (cases "hm_map (leftMap b) left")
    case None
    then have "bm_remove lh rh left b = Inr (b, False)" using h by (simp add: bm_remove_def domIff)
    moreover have "hm_map (leftMap b) = (hm_map (leftMap b))(left := None)" using None by auto
    ultimately show ?thesis using that [of b] None assms(1) by (simp add: domIff)
  next
    case (Some right)
    then have r: "hm_map (rightMap b) right = Some left" using c by simp
    obtain rm where rm: "hm_remove rh right (rightMap b) = Inr (rm, True)" "hm_good rh rm" "hm_map rm = (hm_map (rightMap b))(right := None)"
      using hm.discard [OF g(2) hm.present_readable [OF g(2) r]] r by auto
    obtain lm where lm: "hm_remove lh left (leftMap b) = Inr (lm, True)" "hm_good lh lm" "hm_map lm = (hm_map (leftMap b))(left := None)"
      using hm.discard [OF g(1) hm.present_readable [OF g(1) Some]] Some by auto
    let ?b = "\<lparr>leftMap = lm, rightMap = rm\<rparr>"
    have "bm_remove lh rh left b = Inr (?b, True)" using h Some hm.fetch [OF g(1) Some] rm(1) lm(1) by (simp add: bm_remove_def domIff)
    moreover have "bm_inv lh rh ?b" unfolding bm_inv_def using rm(2,3) lm(2,3) c r Some by (auto; metis option.inject)
    ultimately show ?thesis using that [of ?b] Some lm(3) by (simp add: domIff)
  qed
qed

lemma bm_removeRight_spec:
  assumes "bm_inv lh rh b" "answers fst right (rightMap b)"
  obtains b' where "bm_removeRight lh rh right b = Inr (b', right \<in> dom (hm_map (rightMap b)))"
    "bm_inv lh rh b'" "hm_map (rightMap b') = (hm_map (rightMap b))(right := None)"
proof -
  have "bm_inv rh lh (bm_inverse b)" "answers fst right (leftMap (bm_inverse b))"
    using assms by (simp add: bm_inv_inverse) (use assms in \<open>simp add: bm_inverse_def\<close>)
  then obtain b' where "bm_remove rh lh right (bm_inverse b) = Inr (b', right \<in> dom (hm_map (leftMap (bm_inverse b))))"
    "bm_inv rh lh b'" "hm_map (leftMap b') = (hm_map (leftMap (bm_inverse b)))(right := None)" by (rule bm_remove_spec)
  then show ?thesis using that [of "bm_inverse b'"] by (simp add: bm_removeRight_eq bm_inv_inverse) (simp add: bm_inverse_def)
qed

lemma bm_new_ok:
  "bm_inv lh rh bm_new" "answers fst left (leftMap bm_new)" "answers fst right (rightMap bm_new)"
  "ht_count (leftMap bm_new) = 0" "ht_count (rightMap bm_new) = 0" "hm_map (leftMap bm_new) = Map.empty" "hm_map (rightMap bm_new) = Map.empty"
  by (simp_all add: bm_new_def bm_inv_def hm_good_def mkTable_inv answers_def) (simp_all add: mkTable_def hole_def tableBuffer_def capacity_def)

section \<open>Properties\<close>

text \<open>
  C36: a \<open>Bimap\<close> is a bijection. The invariant, that its two maps are tables with a buffer and converse to each other, holds
  of a new one and after every operation. From any such \<open>Bimap\<close> with fewer than \<open>2 ^ 57 - 1\<close> pairs, where a search of a value
  succeeds if the value is there or its table has an empty entry left: \<open>insert\<close> adds the pair exactly when neither side is
  taken and changes nothing otherwise, the two removals take the whole pair out from either side, \<open>contains\<close> and \<open>at\<close>
  answer on both sides, and looking up the right value of a left one and back returns it. An operation whose search
  does not succeed, as tombstones may fill either table, is the assertion of that search; there is no other failure, and
  none after the first change: the searches of \<open>insert\<close> come before it, and the removals find the partner they look for.
\<close>

theorem bimap_bijection:
  fixes left :: 'l and right :: 'r
  assumes "bm_inv lh rh b" "ht_count (leftMap b) + 1 < 2 ^ 57" "ht_count (rightMap b) + 1 < 2 ^ 57"
  defines "L \<equiv> hm_map (leftMap b)" and "R \<equiv> hm_map (rightMap b)"
    and "foundL \<equiv> answers fst left (leftMap b)" and "foundR \<equiv> answers fst right (rightMap b)"
  shows "bm_inv lh rh bm_new \<and>
    (if \<not> foundL then bm_insert lh rh left right b = Inl loadLimit
     else if left \<in> dom L then bm_insert lh rh left right b = Inr (b, False)
     else if \<not> foundR then bm_insert lh rh left right b = Inl loadLimit
     else if right \<in> dom R then bm_insert lh rh left right b = Inr (b, False)
     else \<exists>b'. bm_insert lh rh left right b = Inr (b', True) \<and> bm_inv lh rh b' \<and>
       hm_map (leftMap b') = L(left \<mapsto> right) \<and> hm_map (rightMap b') = R(right \<mapsto> left)) \<and>
    (if foundL then \<exists>b'. bm_remove lh rh left b = Inr (b', left \<in> dom L) \<and> bm_inv lh rh b' \<and> hm_map (leftMap b') = L(left := None)
     else bm_remove lh rh left b = Inl loadLimit) \<and>
    (if foundR then \<exists>b'. bm_removeRight lh rh right b = Inr (b', right \<in> dom R) \<and> bm_inv lh rh b' \<and> hm_map (rightMap b') = R(right := None)
     else bm_removeRight lh rh right b = Inl loadLimit) \<and>
    bm_contains lh left b = (if foundL then Inr (left \<in> dom L) else Inl loadLimit) \<and>
    bm_containsRight rh right b = (if foundR then Inr (right \<in> dom R) else Inl loadLimit) \<and>
    (left \<notin> dom L \<longrightarrow> bm_at lh left b = Inl (if foundL then Assertion ''Key not found in HashMap::at()'' else loadLimit)) \<and>
    (right \<notin> dom R \<longrightarrow> bm_atRight rh right b = Inl (if foundR then Assertion ''Key not found in HashMap::at()'' else loadLimit)) \<and>
    (\<forall>l r. L l = Some r \<longleftrightarrow> R r = Some l) \<and>
    (\<forall>l r. L l = Some r \<longrightarrow> bm_at lh l b = Inr r \<and> bm_atRight rh r b = Inr l)"
proof -
  have g: "hm_good lh (leftMap b)" "hm_good rh (rightMap b)" and c: "\<And>l r. L l = Some r \<longleftrightarrow> R r = Some l"
    using assms(1) by (auto simp: bm_inv_def L_def R_def)
  note sL = hm_searches [OF g(1), folded L_def] and sR = hm_searches [OF g(2), folded R_def]
  have at: "left \<notin> dom L \<longrightarrow> bm_at lh left b = Inl (if foundL then Assertion ''Key not found in HashMap::at()'' else loadLimit)"
    "right \<notin> dom R \<longrightarrow> bm_atRight rh right b = Inl (if foundR then Assertion ''Key not found in HashMap::at()'' else loadLimit)"
    using sL(2) sR(2) by (simp_all add: bm_at_def bm_atRight_def domIff foundL_def foundR_def)
  have both: "bm_at lh l b = Inr r \<and> bm_atRight rh r b = Inr l" if "L l = Some r" for l r
    using that c hm.fetch [OF g(1), folded L_def] hm.fetch [OF g(2), folded R_def] by (simp add: bm_at_def bm_atRight_def)
  have has: "bm_contains lh left b = (if foundL then Inr (left \<in> dom L) else Inl loadLimit)"
    "bm_containsRight rh right b = (if foundR then Inr (right \<in> dom R) else Inl loadLimit)"
    using sL(1) sR(1) by (simp_all add: bm_contains_def bm_containsRight_def foundL_def foundR_def)
  have rem: "if foundL then \<exists>b'. bm_remove lh rh left b = Inr (b', left \<in> dom L) \<and> bm_inv lh rh b' \<and> hm_map (leftMap b') = L(left := None)
     else bm_remove lh rh left b = Inl loadLimit"
  proof (cases foundL)
    case True
    then show ?thesis using bm_remove_spec [OF assms(1), of left] unfolding L_def foundL_def by (simp only: if_True) metis
  next
    case False
    then show ?thesis using sL(1) by (simp add: bm_remove_def foundL_def)
  qed
  have remR: "if foundR then \<exists>b'. bm_removeRight lh rh right b = Inr (b', right \<in> dom R) \<and> bm_inv lh rh b' \<and> hm_map (rightMap b') = R(right := None)
     else bm_removeRight lh rh right b = Inl loadLimit"
  proof (cases foundR)
    case True
    then show ?thesis using bm_removeRight_spec [OF assms(1), of right] unfolding R_def foundR_def by (simp only: if_True) metis
  next
    case False
    then show ?thesis using sR(1) by (simp add: bm_removeRight_def foundR_def)
  qed
  have ins: "if \<not> foundL then bm_insert lh rh left right b = Inl loadLimit
     else if left \<in> dom L then bm_insert lh rh left right b = Inr (b, False)
     else if \<not> foundR then bm_insert lh rh left right b = Inl loadLimit
     else if right \<in> dom R then bm_insert lh rh left right b = Inr (b, False)
     else \<exists>b'. bm_insert lh rh left right b = Inr (b', True) \<and> bm_inv lh rh b' \<and>
       hm_map (leftMap b') = L(left \<mapsto> right) \<and> hm_map (rightMap b') = R(right \<mapsto> left)"
    using bm_insert_spec [OF assms(1-3), of left right, folded L_def R_def foundL_def foundR_def]
      sL(1) [of left, folded foundL_def] sR(1) [of right, folded foundR_def] by (auto simp: bm_insert_def domIff)
  show ?thesis using bm_new_ok(1) at both has rem remR ins c by (simp only: simp_thms) blast
qed

theorem bimap_bijection_witness:
  "\<exists>b'. bm_insert id id (3::nat) (5::nat) bm_new = Inr (b', True) \<and> hm_map (leftMap b') = [3 \<mapsto> 5]"
  using bimap_bijection [where b = bm_new and left = "3::nat" and right = "5::nat" and lh = id and rh = id, OF bm_new_ok(1)]
  by (auto simp: bm_new_ok)

text \<open>
  a \<open>HashSet\<close> is a set, and the immutable set made of it numbers its elements. Inserting adds the element and tells whether it was
  there already, removing takes it out; \<open>indexOf\<close> of every element is an index below the capacity that \<open>fromIndex\<close>
  maps back to it, and every index \<open>fromIndex\<close> has an element at is that element's \<open>indexOf\<close>.
\<close>

lemma hash_set_exact:
  assumes "hs_inv hasher t" "answers id e t" "ht_count t + 1 < 2 ^ 57"
  shows "(\<exists>t'. hs_insert hasher e t = Inr (t', e \<in> set (iterated t)) \<and> hs_inv hasher t' \<and> set (iterated t') = insert e (set (iterated t))) \<and>
    (moved e = e \<longrightarrow>
       (\<exists>t'. hs_insertMove hasher moved e t = Inr (t', e \<in> set (iterated t)) \<and> hs_inv hasher t' \<and> set (iterated t') = insert e (set (iterated t)))) \<and>
    (\<exists>t'. hs_remove hasher e t = Inr t' \<and> hs_inv hasher t' \<and> set (iterated t') = set (iterated t) - {e}) \<and>
    (\<forall>x. x \<in> set (iterated t) \<longrightarrow> (\<exists>i<capacity t. indexOf hasher x t = Inr (Some i) \<and> fromIndex i t = Some x)) \<and>
    (\<forall>i x. fromIndex i t = Some x \<longrightarrow> indexOf hasher x t = Inr (Some i))"
proof (intro conjI allI impI)
  show "\<exists>t'. hs_remove hasher e t = Inr t' \<and> hs_inv hasher t' \<and> set (iterated t') = set (iterated t) - {e}"
    using assms by (intro hs_remove_spec) simp_all
  show "\<exists>i<capacity t. indexOf hasher x t = Inr (Some i) \<and> fromIndex i t = Some x" if "x \<in> set (iterated t)" for x
    using indexOf_present [OF assms(1) that] by metis
  show "indexOf hasher x t = Inr (Some i)" if "fromIndex i t = Some x" for i x using assms(1) that by (rule indexOf_unique)
qed (rule hs_insert_spec [OF assms]; assumption?)+

text \<open>
  \<open>HashSet::insert(T&&)\<close> of an element whose move leaves another value behind puts it where that value belongs. With
  the element 5 that a move sets to 0, the new set iterates over 5 and has size 1, but does not contain 5.
\<close>

lemma moved_element_lost:
  "\<exists>t'. hs_insertMove id (\<lambda>_. 0) 5 (mkTable 16) = Inr (t', False) \<and> iterated t' = [5::nat] \<and> ht_count t' = 1 \<and>
     ht_contains id id 5 t' = Inr False"
proof -
  let ?buf = "Occupied 5 # replicate 15 Empty :: nat HashEntry list"
  let ?t = "\<lparr>entryBuffer = Some ?buf, ht_count = 1\<rparr>"
  have k: "resizeIfNecessary id id t = Inr (t, False)" if "capacity t = 16" "ht_count t \<le> 1" for t :: "nat HashSet"
    using that by (intro resizeIfNecessary_keep) (auto simp: rehashes_def le_Suc_eq)
  have c: "capacity (mkTable 16 :: nat HashSet) = 16" "capacity ?t = 16" "ht_count (mkTable 16 :: nat HashSet) = 0"
    by (simp_all add: capacity_def mkTable_def)
  have p: "probeEntry id id x (mkTable 16 :: nat HashSet) = Inr (x, Empty)" if "x < 16" for x
    using that by (intro probeEntry_home [where buf = "replicate 16 Empty"]) (simp_all add: mkTable_def)
  have "putEntry 0 (Occupied 5) ((mkTable 16)\<lparr>ht_count := 1\<rparr>) = ?t"
    by (simp add: putEntry_def mkTable_def numeral_eq_Suc)
  then have "ht_insert id id 0 5 (\<lambda>_. 5) (mkTable 16) = Inr ?t" using k c by (simp add: ht_insert_def p)
  moreover have "ht_contains id id 5 (mkTable 16 :: nat HashSet) = Inr False" by (simp add: ht_contains_def p)
  ultimately have "hs_insertMove id (\<lambda>_. 0) 5 (mkTable 16) = Inr (?t, False)" by (simp add: hs_insertMove_def)
  moreover have "probeEntry id id 5 ?t = Inr (5, Empty)" by (intro probeEntry_home [where buf = ?buf]) simp_all
  then have "ht_contains id id 5 ?t = Inr False" by (simp add: ht_contains_def)
  moreover have "iterated ?t = [5]" by (simp add: iterated_eq tableBuffer_def)
  ultimately show ?thesis by simp
qed

end
