(* ===== verification/Vector.thy ===== *)
theory Vector
  imports Sorting
begin

text \<open>
  \<open>Vector\<close> of \<open>core/ds/Vector.h\<close> and \<open>StaticStack\<close> of \<open>core/ds/Stack.h\<close>. The buffer is a list of slots that remember
  whether an object lives in them. \<open>trivial\<close> is \<open>is_trivially_copyable_v\<close> of the element type: for other types an
  assignment needs an object to assign to, and one to a slot without one is \<open>Undefined\<close>.
\<close>

section \<open>Slots\<close>

datatype 'a slot = Raw | Live 'a | MovedFrom

fun slotValue :: "'a slot \<Rightarrow> 'a outcome" where
  "slotValue (Live x) = Inr x"
| "slotValue _ = Inl (Undefined ''no value in this slot'')"

text \<open>\<open>data[i] = x\<close>, \<open>new (&data[i]) T(x)\<close>, \<open>data[i].~T()\<close>, and \<open>data[i] = move(data[j])\<close>.\<close>

definition assignSlot :: "bool \<Rightarrow> nat \<Rightarrow> 'a \<Rightarrow> 'a slot list \<Rightarrow> 'a slot list outcome" where
  "assignSlot trivial i x d =
     (if length d \<le> i then Inl (Undefined ''out of bounds'')
      else if \<not> trivial \<and> d ! i = Raw then Inl (Undefined ''assignment to a dead object'')
      else Inr (d[i := Live x]))"

definition constructSlot :: "nat \<Rightarrow> 'a \<Rightarrow> 'a slot list \<Rightarrow> 'a slot list outcome" where
  "constructSlot i x d = (if length d \<le> i then Inl (Undefined ''out of bounds'') else Inr (d[i := Live x]))"

definition destroySlot :: "nat \<Rightarrow> 'a slot list \<Rightarrow> 'a slot list outcome" where
  "destroySlot i d =
     (if length d \<le> i then Inl (Undefined ''out of bounds'')
      else if d ! i = Raw then Inl (Undefined ''destruction of a dead object'')
      else Inr (d[i := Raw]))"

definition moveSlot :: "bool \<Rightarrow> nat \<Rightarrow> nat \<Rightarrow> 'a slot list \<Rightarrow> 'a slot list outcome" where
  "moveSlot trivial i j d =
     bindO (readAt d j) (\<lambda>s. bindO (slotValue s) (\<lambda>x.
     bindO (assignSlot trivial i x d) (\<lambda>d'. Inr (if trivial then d' else d'[j := MovedFrom]))))"

section \<open>The vector\<close>

text \<open>\<open>vec_data\<close> is \<open>None\<close> for the null pointer; the capacity is the length of the buffer.\<close>

record 'a Vector =
  vec_data :: "'a slot list option"
  vec_size :: nat

definition slots :: "'a Vector \<Rightarrow> 'a slot list" where
  "slots v = (case vec_data v of None \<Rightarrow> [] | Some d \<Rightarrow> d)"

definition getCapacity :: "'a Vector \<Rightarrow> nat" where
  "getCapacity v = length (slots v)"

fun readAll :: "'a slot list \<Rightarrow> 'a list outcome" where
  "readAll [] = Inr []"
| "readAll (s # ss) = bindO (slotValue s) (\<lambda>x. bindO (readAll ss) (\<lambda>xs. Inr (x # xs)))"

text \<open>Every element is moved to the new buffer and destroyed in the old one, which is then freed.\<close>

definition reallocate :: "nat \<Rightarrow> 'a Vector \<Rightarrow> 'a Vector outcome" where
  "reallocate new_capacity v =
     (if new_capacity < vec_size v then Inl (Undefined ''out of bounds'')
      else bindO (readAll (take (vec_size v) (slots v))) (\<lambda>xs.
        Inr (v\<lparr>vec_data := Some (map Live xs @ replicate (new_capacity - vec_size v) Raw)\<rparr>)))"

definition growOrShrink :: "'a Vector \<Rightarrow> 'a Vector outcome" where
  "growOrShrink v =
     (if vec_size v = getCapacity v then reallocate (getCapacity v * 2 mod 2 ^ 64) v
      else if vec_size v \<le> getCapacity v div 4 \<and> 8 < getCapacity v then reallocate (getCapacity v div 2) v
      else Inr v)"

definition reallocate_if_necessary :: "'a Vector \<Rightarrow> 'a Vector outcome" where
  "reallocate_if_necessary v = bindO (if getCapacity v = 0 then reallocate 8 v else Inr v) growOrShrink"

definition vec_new :: "'a Vector" where
  "vec_new = \<lparr>vec_data = None, vec_size = 0\<rparr>"

definition vec_withCapacity :: "nat \<Rightarrow> 'a Vector" where
  "vec_withCapacity init_capacity = \<lparr>vec_data = Some (replicate init_capacity Raw), vec_size = 0\<rparr>"

text \<open>The copying constructors and the copy assignment fill a new buffer by assignments.\<close>

fun assignAll :: "bool \<Rightarrow> nat \<Rightarrow> 'a list \<Rightarrow> 'a slot list \<Rightarrow> 'a slot list outcome" where
  "assignAll trivial i [] d = Inr d"
| "assignAll trivial i (x # xs) d = bindO (assignSlot trivial i x d) (assignAll trivial (i + 1) xs)"

definition vec_fromArray :: "bool \<Rightarrow> 'a list \<Rightarrow> 'a Vector outcome" where
  "vec_fromArray trivial xs =
     bindO (assignAll trivial 0 xs (replicate (length xs) Raw)) (\<lambda>d. Inr \<lparr>vec_data = Some d, vec_size = length xs\<rparr>)"

definition vec_copy :: "bool \<Rightarrow> 'a Vector \<Rightarrow> 'a Vector outcome" where
  "vec_copy trivial other =
     bindO (readAll (take (vec_size other) (slots other))) (\<lambda>xs.
     bindO (assignAll trivial 0 xs (replicate (getCapacity other) Raw)) (\<lambda>d. Inr \<lparr>vec_data = Some d, vec_size = vec_size other\<rparr>))"

text \<open>The moved-to vector and what is left of the source.\<close>

definition vec_move :: "'a Vector \<Rightarrow> 'a Vector \<times> 'a Vector" where
  "vec_move other = (other, \<lparr>vec_data = None, vec_size = 0\<rparr>)"

section \<open>Operations\<close>

definition vec_push :: "bool \<Rightarrow> 'a \<Rightarrow> 'a Vector \<Rightarrow> 'a Vector outcome" where
  "vec_push trivial x v =
     bindO (reallocate_if_necessary v) (\<lambda>v1.
     bindO (if trivial then assignSlot trivial (vec_size v1) x (slots v1) else constructSlot (vec_size v1) x (slots v1)) (\<lambda>d.
       Inr (v1\<lparr>vec_data := Some d, vec_size := vec_size v1 + 1\<rparr>)))"

definition vec_pop :: "'a Vector \<Rightarrow> ('a \<times> 'a Vector) outcome" where
  "vec_pop v =
     (if vec_size v = 0 then Inl (Assertion ''Cannot pop from empty vector'')
      else bindO (readAt (slots v) (vec_size v - 1)) (\<lambda>s. bindO (slotValue s) (\<lambda>x.
           bindO (destroySlot (vec_size v - 1) (slots v)) (\<lambda>d.
           bindO (reallocate_if_necessary (v\<lparr>vec_data := Some d, vec_size := vec_size v - 1\<rparr>)) (\<lambda>v'. Inr (x, v'))))))"

text \<open>The shifting loops: \<open>n\<close> elements down by one from \<open>i + 1\<close>, and \<open>n\<close> elements up by one ending at \<open>i\<close>.\<close>

fun shiftDown :: "bool \<Rightarrow> nat \<Rightarrow> nat \<Rightarrow> 'a slot list \<Rightarrow> 'a slot list outcome" where
  "shiftDown trivial i 0 d = Inr d"
| "shiftDown trivial i (Suc n) d = bindO (moveSlot trivial i (i + 1) d) (shiftDown trivial (i + 1) n)"

fun shiftUp :: "bool \<Rightarrow> nat \<Rightarrow> nat \<Rightarrow> 'a slot list \<Rightarrow> 'a slot list outcome" where
  "shiftUp trivial i 0 d = Inr d"
| "shiftUp trivial i (Suc n) d = bindO (moveSlot trivial i (i - 1) d) (shiftUp trivial (i - 1) n)"

definition vec_remove :: "bool \<Rightarrow> nat \<Rightarrow> 'a Vector \<Rightarrow> 'a Vector outcome" where
  "vec_remove trivial index v =
     (if \<not> index < vec_size v then Inl (Assertion ''Index out of bounds'')
      else bindO (destroySlot index (slots v)) (\<lambda>d.
           bindO (shiftDown trivial index (vec_size v - 1 - index) d) (\<lambda>d'.
             reallocate_if_necessary (v\<lparr>vec_data := Some d', vec_size := vec_size v - 1\<rparr>))))"

text \<open>
  \<open>insert(index, const T&)\<close> constructs in the gap, \<open>insert(index, T&&)\<close> assigns there for trivial types; the result is
  the same.
\<close>

definition vec_insert :: "bool \<Rightarrow> nat \<Rightarrow> 'a \<Rightarrow> 'a Vector \<Rightarrow> 'a Vector outcome" where
  "vec_insert trivial index x v =
     (if \<not> index \<le> vec_size v then Inl (Assertion ''Index out of bounds'')
      else bindO (reallocate_if_necessary v) (\<lambda>v1.
        if index = vec_size v1 then vec_push trivial x v1
        else bindO (shiftUp trivial (vec_size v1) (vec_size v1 - index) (slots v1)) (\<lambda>d.
             bindO (constructSlot index x d) (\<lambda>d'. Inr (v1\<lparr>vec_data := Some d', vec_size := vec_size v1 + 1\<rparr>)))))"

definition vec_at :: "nat \<Rightarrow> 'a Vector \<Rightarrow> 'a outcome" where
  "vec_at index v =
     (if \<not> index < vec_size v then Inl (Assertion ''Index out of bounds'') else bindO (readAt (slots v) index) slotValue)"

text \<open>The signed subscript, for a 64-bit index type: the size is converted to it.\<close>

definition toSigned :: "nat \<Rightarrow> int" where
  "toSigned n = (if int n mod 2 ^ 64 < 2 ^ 63 then int n mod 2 ^ 64 else int n mod 2 ^ 64 - 2 ^ 64)"

definition vec_atSigned :: "int \<Rightarrow> 'a Vector \<Rightarrow> 'a outcome" where
  "vec_atSigned index v =
     (if \<not> index < toSigned (vec_size v) then Inl (Assertion ''Index out of bounds'')
      else if toSigned (vec_size v) + index < 0 then Inl (Assertion ''Index out of bounds'')
      else bindO (readAt (slots v) (if index < 0 then nat (int (vec_size v) + index) else nat index)) slotValue)"

definition vec_top :: "'a Vector \<Rightarrow> 'a outcome" where
  "vec_top v = bindO (readAt (slots v) (sub_size (vec_size v) 1)) slotValue"

definition ensureRoom :: "nat \<Rightarrow> 'a Vector \<Rightarrow> 'a Vector outcome" where
  "ensureRoom openSlots v =
     (let min_size = (vec_size v + openSlots) mod 2 ^ 64
      in if getCapacity v < min_size then reallocate ((min_size + 4) mod 2 ^ 64) v else Inr v)"

definition shrinkToFit :: "'a Vector \<Rightarrow> 'a Vector outcome" where
  "shrinkToFit v = reallocate (vec_size v) v"

text \<open>\<open>sort\<close> works on the elements in place.\<close>

definition vec_sort :: "('a \<Rightarrow> 'a \<Rightarrow> bool) \<Rightarrow> 'a Vector \<Rightarrow> 'a Vector outcome" where
  "vec_sort cmp v =
     bindO (readAll (take (vec_size v) (slots v))) (\<lambda>xs.
     bindO (sort_array cmp xs (vec_size v)) (\<lambda>ys.
       Inr (v\<lparr>vec_data := Some (map Live ys @ drop (vec_size v) (slots v))\<rparr>)))"

fun sinkLeft :: "('a \<Rightarrow> 'a \<Rightarrow> bool) \<Rightarrow> nat \<Rightarrow> 'a slot list \<Rightarrow> 'a slot list outcome" where
  "sinkLeft cmp 0 d = Inr d"
| "sinkLeft cmp (Suc i) d =
     bindO (bindO (readAt d (Suc i)) slotValue) (\<lambda>x. bindO (bindO (readAt d i) slotValue) (\<lambda>y.
       if cmp x y then bindO (swap d (Suc i) i) (sinkLeft cmp i) else Inr d))"

definition mergeIn :: "bool \<Rightarrow> ('a \<Rightarrow> 'a \<Rightarrow> bool) \<Rightarrow> 'a \<Rightarrow> 'a Vector \<Rightarrow> 'a Vector outcome" where
  "mergeIn trivial cmp x v =
     bindO (vec_push trivial x v) (\<lambda>v1.
       if vec_size v1 = 1 then Inr v1
       else bindO (sinkLeft cmp (vec_size v1 - 1) (slots v1)) (\<lambda>d. Inr (v1\<lparr>vec_data := Some d\<rparr>)))"

definition vec_clear :: "'a Vector \<Rightarrow> 'a Vector" where
  "vec_clear v = \<lparr>vec_data = None, vec_size = 0\<rparr>"

section \<open>StaticStack\<close>

record 'a StaticStack =
  stk_data :: "'a list"
  stackPointer :: nat

definition stk_push :: "'a \<Rightarrow> 'a StaticStack \<Rightarrow> 'a StaticStack outcome" where
  "stk_push x s =
     (if \<not> stackPointer s < length (stk_data s) then Inl (Assertion ''Stack is full'')
      else Inr (s\<lparr>stk_data := (stk_data s)[stackPointer s := x], stackPointer := stackPointer s + 1\<rparr>))"

definition stk_pop :: "'a StaticStack \<Rightarrow> ('a \<times> 'a StaticStack) outcome" where
  "stk_pop s =
     (let sp = sub_size (stackPointer s) 1
      in bindO (readAt (stk_data s) sp) (\<lambda>x. Inr (x, s\<lparr>stackPointer := sp\<rparr>)))"

definition stk_top :: "'a StaticStack \<Rightarrow> 'a outcome" where
  "stk_top s = readAt (stk_data s) (sub_size (stackPointer s) 1)"

definition stk_at :: "nat \<Rightarrow> 'a StaticStack \<Rightarrow> 'a outcome" where
  "stk_at index s = (if \<not> index < stackPointer s then Inl (Assertion ''Index out of bounds'') else readAt (stk_data s) index)"

end
