(* ===== verification/Vector_Laws.thy ===== *)
theory Vector_Laws
  imports Vector
begin

text \<open>
  A vector as the list of its elements: what every operation does to the list, for which element types, and where the
  buffer is grown and shrunk.
\<close>

section \<open>Representation\<close>

definition vec_rep :: "'a Vector \<Rightarrow> 'a list \<Rightarrow> bool" where
  "vec_rep v xs \<longleftrightarrow> vec_size v = length xs \<and> (\<exists>rest. slots v = map Live xs @ rest)"

text \<open>No object is alive behind the elements; so it is after every reallocation.\<close>

definition vec_clean :: "'a Vector \<Rightarrow> bool" where
  "vec_clean v \<longleftrightarrow> (\<forall>s\<in>set (drop (vec_size v) (slots v)). s = Raw)"

lemma vec_repE:
  assumes "vec_rep v xs"
  obtains rest where "slots v = map Live xs @ rest" "vec_size v = length xs" "getCapacity v = length xs + length rest"
  using assms by (auto simp: vec_rep_def getCapacity_def)

lemma slots_update [simp]: "slots (v\<lparr>vec_data := Some d\<rparr>) = d" "slots (v\<lparr>vec_data := Some d, vec_size := n\<rparr>) = d" "slots (v\<lparr>vec_size := n\<rparr>) = slots v"
  by (simp_all add: slots_def)

lemma vec_repI: "vec_rep (v\<lparr>vec_data := Some (map Live xs @ rest), vec_size := length xs\<rparr>) xs"
  by (auto simp: vec_rep_def)

lemma readAll_Live [simp]: "readAll (map Live xs) = Inr xs"
  by (induction xs) simp_all

lemma readAll_rep [simp]: "vec_rep v xs \<Longrightarrow> readAll (take (vec_size v) (slots v)) = Inr xs"
  by (auto simp: vec_rep_def)

lemma rep_size: "vec_rep v xs \<Longrightarrow> vec_size v = length xs \<and> length xs \<le> getCapacity v"
  by (auto simp: vec_rep_def getCapacity_def)

section \<open>Reallocation\<close>

lemma reallocate_spec:
  assumes "vec_rep v xs" "length xs \<le> n"
  obtains v' where "reallocate n v = Inr v'" "vec_rep v' xs" "vec_clean v'" "getCapacity v' = n"
proof
  let ?v = "v\<lparr>vec_data := Some (map Live xs @ replicate (n - vec_size v) Raw)\<rparr>"
  show "reallocate n v = Inr ?v" using assms readAll_rep [OF assms(1)] rep_size [OF assms(1)] by (simp add: reallocate_def)
  show "vec_rep ?v xs" using assms by (auto simp: vec_rep_def)
  show "vec_clean ?v" "getCapacity ?v = n" using rep_size [OF assms(1)] assms(2) by (auto simp: vec_clean_def getCapacity_def)
qed

text \<open>After it there is room for one more element, and the buffer is at most twice as large as before.\<close>

lemma reallocate_if_necessary_spec:
  assumes "vec_rep v xs" "getCapacity v < 2 ^ 63"
  obtains v' where "reallocate_if_necessary v = Inr v'" "vec_rep v' xs" "length xs < getCapacity v'"
    "getCapacity v' \<le> max 8 (2 * getCapacity v)" "vec_clean v \<Longrightarrow> vec_clean v'"
proof -
  obtain v1 where v1: "(if getCapacity v = 0 then reallocate 8 v else Inr v) = Inr v1" "vec_rep v1 xs" "0 < getCapacity v1" "getCapacity v1 < 2 ^ 63"
    "getCapacity v1 = (if getCapacity v = 0 then 8 else getCapacity v)" "vec_clean v \<Longrightarrow> vec_clean v1"
  proof (cases "getCapacity v = 0")
    case True
    then have "length xs \<le> 8" using rep_size [OF assms(1)] by simp
    then obtain v' where "reallocate 8 v = Inr v'" "vec_rep v' xs" "vec_clean v'" "getCapacity v' = 8" using reallocate_spec [OF assms(1)] by metis
    then show ?thesis using that [of v'] True by simp
  next
    case False
    then show ?thesis using that [of v] assms by simp
  qed
  note s = rep_size [OF v1(2)]
  have e: "reallocate_if_necessary v = growOrShrink v1" using v1(1) by (simp add: reallocate_if_necessary_def)
  consider (grow) "vec_size v1 = getCapacity v1" | (shrink) "vec_size v1 \<noteq> getCapacity v1" "vec_size v1 \<le> getCapacity v1 div 4" "8 < getCapacity v1"
    | (keep) "vec_size v1 \<noteq> getCapacity v1" "\<not> (vec_size v1 \<le> getCapacity v1 div 4 \<and> 8 < getCapacity v1)" by blast
  then show ?thesis
  proof cases
    case grow
    have w: "getCapacity v1 * 2 mod 2 ^ 64 = getCapacity v1 * 2" using v1(4) by simp
    obtain v' where "reallocate (getCapacity v1 * 2) v1 = Inr v'" "vec_rep v' xs" "vec_clean v'" "getCapacity v' = getCapacity v1 * 2"
      using reallocate_spec [OF v1(2), of "getCapacity v1 * 2"] s by auto
    moreover then have "growOrShrink v1 = Inr v'" using grow w by (simp add: growOrShrink_def)
    ultimately show ?thesis using that [of v'] e grow s rep_size [OF assms(1)] v1(3,5) by (auto split: if_splits)
  next
    case shrink
    have "length xs \<le> getCapacity v1 div 2" using shrink(2) s by linarith
    then obtain v' where "reallocate (getCapacity v1 div 2) v1 = Inr v'" "vec_rep v' xs" "vec_clean v'" "getCapacity v' = getCapacity v1 div 2"
      using reallocate_spec [OF v1(2)] by metis
    moreover then have "growOrShrink v1 = Inr v'" using shrink by (simp add: growOrShrink_def)
    ultimately show ?thesis using that [of v'] e shrink s v1(3,5) by (auto split: if_splits)
  next
    case keep
    then have "growOrShrink v1 = Inr v1" by (auto simp: growOrShrink_def)
    then show ?thesis using that [of v1] e keep s v1(2,5,6) by (auto split: if_splits)
  qed
qed

section \<open>At the end\<close>

lemma vec_push_spec:
  assumes "vec_rep v xs" "getCapacity v < 2 ^ 63"
  obtains v' where "vec_push trivial x v = Inr v'" "vec_rep v' (xs @ [x])" "vec_clean v \<Longrightarrow> vec_clean v'"
proof -
  obtain v1 where v1: "reallocate_if_necessary v = Inr v1" "vec_rep v1 xs" "length xs < getCapacity v1" "vec_clean v \<Longrightarrow> vec_clean v1"
    using reallocate_if_necessary_spec [OF assms] by metis
  obtain s rest where r: "slots v1 = map Live xs @ s # rest"
    using v1(2,3) by (auto simp: vec_rep_def getCapacity_def elim: vec_repE) (metis add_cancel_right_right length_append length_map less_irrefl list.exhaust list.size(3))
  have z: "vec_size v1 = length xs" using v1(2) by (simp add: vec_rep_def)
  let ?v = "v1\<lparr>vec_data := Some (map Live (xs @ [x]) @ rest), vec_size := vec_size v1 + 1\<rparr>"
  have "vec_push trivial x v = Inr ?v"
    using v1(1) r z by (simp add: vec_push_def assignSlot_def constructSlot_def list_update_append)
  moreover have "vec_rep ?v (xs @ [x])" using z by (auto simp: vec_rep_def)
  moreover have "vec_clean ?v" if "vec_clean v" using v1(4) [OF that] r z by (auto simp: vec_clean_def)
  ultimately show ?thesis using that by blast
qed

lemma vec_pop_spec:
  assumes "vec_rep v (xs @ [x])" "getCapacity v < 2 ^ 63"
  obtains v' where "vec_pop v = Inr (x, v')" "vec_rep v' xs" "vec_clean v \<Longrightarrow> vec_clean v'"
proof -
  obtain rest where r: "slots v = map Live xs @ Live x # rest" "vec_size v = Suc (length xs)" using assms(1) by (auto simp: vec_rep_def)
  let ?v = "v\<lparr>vec_data := Some (map Live xs @ Raw # rest), vec_size := length xs\<rparr>"
  have d: "destroySlot (length xs) (slots v) = Inr (map Live xs @ Raw # rest)"
    unfolding r(1) by (simp add: destroySlot_def list_update_append nth_append)
  have p: "vec_rep ?v xs" "getCapacity ?v < 2 ^ 63" using assms(2) r by (auto simp: vec_rep_def getCapacity_def)
  obtain v' where v': "reallocate_if_necessary ?v = Inr v'" "vec_rep v' xs" "vec_clean ?v \<Longrightarrow> vec_clean v'"
    using reallocate_if_necessary_spec [OF p] by metis
  have "readAt (slots v) (length xs) = Inr (Live x)" by (simp add: r(1) nth_append)
  then have "vec_pop v = Inr (x, v')" using r(2) d v'(1) by (simp add: vec_pop_def)
  moreover have "vec_clean ?v" if "vec_clean v" using that r by (auto simp: vec_clean_def)
  ultimately show ?thesis using that v' by blast
qed

section \<open>In the middle\<close>

text \<open>Closing the gap at slot \<open>s\<close> and opening one works for trivial types, or if an object is alive in it.\<close>

lemma moveSlot_ok:
  assumes "i < length d" "j < length d" "d ! j = Live x" "trivial \<or> d ! i \<noteq> Raw"
  shows "moveSlot trivial i j d = Inr (if trivial then d[i := Live x] else d[i := Live x, j := MovedFrom])"
  using assms by (auto simp: moveSlot_def assignSlot_def)

lemma shiftDown_spec:
  assumes "trivial \<or> s \<noteq> Raw \<or> ys = []"
  shows "\<exists>s'. shiftDown trivial (length xs) (length ys) (map Live xs @ s # map Live ys @ rest) = Inr (map Live (xs @ ys) @ s' # rest)"
  using assms
proof (induction ys arbitrary: xs s)
  case (Cons y ys)
  let ?s = "if trivial then Live y else MovedFrom"
  have a: "trivial \<or> ?s \<noteq> Raw \<or> ys = []" by simp
  let ?d = "map Live xs @ s # map Live (y # ys) @ rest"
  have "moveSlot trivial (length xs) (length xs + 1) ?d = Inr (map Live (xs @ [y]) @ ?s # map Live ys @ rest)"
    using Cons.prems moveSlot_ok [of "length xs" ?d "length xs + 1" y trivial] by (simp add: nth_append list_update_append)
  moreover obtain s' where "shiftDown trivial (length (xs @ [y])) (length ys) (map Live (xs @ [y]) @ ?s # map Live ys @ rest) =
    Inr (map Live ((xs @ [y]) @ ys) @ s' # rest)" using Cons.IH [OF a, of "xs @ [y]"] by auto
  ultimately show ?case by simp
qed auto

lemma shiftUp_spec:
  assumes "trivial \<or> s \<noteq> Raw \<or> ys = []"
  shows "\<exists>s'. shiftUp trivial (length xs + length ys) (length ys) (map Live (xs @ ys) @ s # rest) = Inr (map Live xs @ s' # map Live ys @ rest)"
  using assms
proof (induction ys arbitrary: s rest rule: rev_induct)
  case (snoc y ys)
  let ?s = "if trivial then Live y else MovedFrom"
  have a: "trivial \<or> ?s \<noteq> Raw \<or> ys = []" by simp
  let ?d = "map Live (xs @ ys) @ Live y # s # rest"
  let ?n = "length xs + length ys"
  have "moveSlot trivial (Suc ?n) ?n ?d = Inr (map Live (xs @ ys) @ ?s # Live y # rest)"
    using snoc.prems moveSlot_ok [of "Suc ?n" ?d ?n y trivial] by (simp add: nth_append list_update_append)
  moreover obtain s' where "shiftUp trivial ?n (length ys) (map Live (xs @ ys) @ ?s # Live y # rest) = Inr (map Live xs @ s' # map Live ys @ Live y # rest)"
    using snoc.IH [OF a, of "Live y # rest"] by auto
  ultimately show ?case by simp
qed auto

lemma shiftDown_dead:
  "ys \<noteq> [] \<Longrightarrow> shiftDown False (length xs) (length ys) (map Live xs @ Raw # map Live ys @ rest) = Inl (Undefined ''assignment to a dead object'')"
  by (cases ys) (simp_all add: moveSlot_def assignSlot_def readAt_def nth_append)

lemma shiftUp_dead:
  assumes "ys \<noteq> []"
  shows "shiftUp False (length xs + length ys) (length ys) (map Live (xs @ ys) @ Raw # rest) = Inl (Undefined ''assignment to a dead object'')"
proof -
  obtain zs y where "ys = zs @ [y]" using assms by (metis rev_exhaust)
  then show ?thesis by (simp add: moveSlot_def assignSlot_def readAt_def nth_append)
qed


lemma split_at: "i < length xs \<Longrightarrow> xs = take i xs @ xs ! i # drop (Suc i) xs"
  by (rule id_take_nth_drop)

lemma vec_remove_spec:
  assumes "vec_rep v (xs @ x # ys)" "getCapacity v < 2 ^ 63" "trivial \<or> ys = []"
  obtains v' where "vec_remove trivial (length xs) v = Inr v'" "vec_rep v' (xs @ ys)"
proof -
  obtain rest where r: "slots v = map Live xs @ Live x # map Live ys @ rest" "vec_size v = Suc (length xs + length ys)"
    using assms(1) by (auto simp: vec_rep_def)
  have d: "destroySlot (length xs) (slots v) = Inr (map Live xs @ Raw # map Live ys @ rest)"
    unfolding r(1) by (simp add: destroySlot_def list_update_append nth_append)
  have "trivial \<or> (Raw :: 'a slot) \<noteq> Raw \<or> ys = []" using assms(3) by simp
  from shiftDown_spec [OF this, of xs rest] obtain s' where s': "shiftDown trivial (length xs) (length ys) (map Live xs @ Raw # map Live ys @ rest) =
    Inr (map Live (xs @ ys) @ s' # rest)" by blast
  let ?v = "v\<lparr>vec_data := Some (map Live (xs @ ys) @ s' # rest), vec_size := length xs + length ys\<rparr>"
  have p: "vec_rep ?v (xs @ ys)" "getCapacity ?v < 2 ^ 63" using assms(2) r by (auto simp: vec_rep_def getCapacity_def)
  obtain v' where "reallocate_if_necessary ?v = Inr v'" "vec_rep v' (xs @ ys)" using reallocate_if_necessary_spec [OF p] by metis
  then show ?thesis using that [of v'] r(2) d s' by (simp add: vec_remove_def)
qed

lemma vec_insert_spec:
  assumes "vec_rep v (xs @ ys)" "getCapacity v < 2 ^ 62" "trivial \<or> ys = []"
  obtains v' where "vec_insert trivial (length xs) x v = Inr v'" "vec_rep v' (xs @ x # ys)"
proof -
  have "getCapacity v < 2 ^ 63" using assms(2) by simp
  then obtain v1 where v1: "reallocate_if_necessary v = Inr v1" "vec_rep v1 (xs @ ys)" "length (xs @ ys) < getCapacity v1"
    "getCapacity v1 \<le> max 8 (2 * getCapacity v)" using reallocate_if_necessary_spec [OF assms(1)] by metis
  have z: "vec_size v1 = length xs + length ys" "vec_size v = length xs + length ys" using v1(2) assms(1) by (simp_all add: vec_rep_def)
  show ?thesis
  proof (cases "ys = []")
    case True
    have "getCapacity v1 < 2 ^ 63" using v1(4) assms(2) by simp
    moreover have "vec_rep v1 xs" using v1(2) True by simp
    ultimately obtain v' where "vec_push trivial x v1 = Inr v'" "vec_rep v' (xs @ [x])" using vec_push_spec by metis
    then show ?thesis using that [of v'] v1(1) z True by (simp add: vec_insert_def)
  next
    case False
    then have t: "trivial" using assms(3) by simp
    obtain s rest where r: "slots v1 = map Live (xs @ ys) @ s # rest"
      using v1(2,3) by (auto simp: vec_rep_def getCapacity_def) (metis add_cancel_right_right length_append length_map less_irrefl list.exhaust list.size(3) append_assoc)
    have "trivial \<or> s \<noteq> Raw \<or> ys = []" using t by simp
    from shiftUp_spec [OF this, of xs rest] obtain s' where s': "shiftUp trivial (length xs + length ys) (length ys) (slots v1) =
      Inr (map Live xs @ s' # map Live ys @ rest)" unfolding r by blast
    have c: "constructSlot (length xs) x (map Live xs @ s' # map Live ys @ rest) = Inr (map Live (xs @ x # ys) @ rest)"
      by (simp add: constructSlot_def list_update_append)
    let ?v = "v1\<lparr>vec_data := Some (map Live (xs @ x # ys) @ rest), vec_size := vec_size v1 + 1\<rparr>"
    have "vec_insert trivial (length xs) x v = Inr ?v" using v1(1) z False s' c by (simp add: vec_insert_def)
    moreover have "vec_rep ?v (xs @ x # ys)" using z(1) by (auto simp: vec_rep_def)
    ultimately show ?thesis using that by blast
  qed
qed

text \<open>The same at an index, with the assertions.\<close>

lemma vec_pop_list:
  assumes "vec_rep v xs" "getCapacity v < 2 ^ 63"
  shows "if xs = [] then vec_pop v = Inl (Assertion ''Cannot pop from empty vector'') else \<exists>v'. vec_pop v = Inr (last xs, v') \<and> vec_rep v' (butlast xs)"
proof (cases "xs = []")
  case False
  then have "vec_rep v (butlast xs @ [last xs])" using assms(1) by simp
  from vec_pop_spec [OF this assms(2)] show ?thesis unfolding if_not_P [OF False] by blast
qed (use assms(1) in \<open>simp add: vec_pop_def vec_rep_def\<close>)

lemma vec_insert_list:
  assumes "vec_rep v xs" "getCapacity v < 2 ^ 62"
  shows "if i \<le> length xs then \<exists>v'. vec_insert True i x v = Inr v' \<and> vec_rep v' (take i xs @ x # drop i xs)
    else vec_insert True i x v = Inl (Assertion ''Index out of bounds'')"
proof (cases "i \<le> length xs")
  case True
  then have l: "length (take i xs) = i" by simp
  have "vec_rep v (take i xs @ drop i xs)" using assms(1) by simp
  from vec_insert_spec [OF this assms(2), of True x] show ?thesis unfolding l if_P [OF True] by blast
qed (use assms(1) in \<open>simp add: vec_insert_def vec_rep_def\<close>)

lemma vec_remove_list:
  assumes "vec_rep v xs" "getCapacity v < 2 ^ 63"
  shows "if i < length xs then \<exists>v'. vec_remove True i v = Inr v' \<and> vec_rep v' (take i xs @ drop (Suc i) xs)
    else vec_remove True i v = Inl (Assertion ''Index out of bounds'')"
proof (cases "i < length xs")
  case True
  then have l: "length (take i xs) = i" by simp
  have "vec_rep v (take i xs @ xs ! i # drop (Suc i) xs)" using assms(1) split_at [OF True] by simp
  from vec_remove_spec [OF this assms(2), of True] show ?thesis unfolding l if_P [OF True] by blast
qed (use assms(1) in \<open>simp add: vec_remove_def vec_rep_def\<close>)

lemma vec_at_spec: "vec_rep v xs \<Longrightarrow> vec_at i v = (if i < length xs then Inr (xs ! i) else Inl (Assertion ''Index out of bounds''))"
  by (auto simp: vec_rep_def vec_at_def nth_append)

lemma toSigned_id: "n < 2 ^ 63 \<Longrightarrow> toSigned n = int n"
  by (simp add: toSigned_def)

lemma vec_atSigned_spec:
  assumes "vec_rep v xs" "length xs < 2 ^ 63"
  shows "vec_atSigned i v =
    (if 0 \<le> i \<and> i < int (length xs) then Inr (xs ! nat i)
     else if i < 0 \<and> - int (length xs) \<le> i then Inr (xs ! nat (int (length xs) + i))
     else Inl (Assertion ''Index out of bounds''))"
proof -
  obtain rest where r: "slots v = map Live xs @ rest" "vec_size v = length xs" using assms(1) by (auto simp: vec_rep_def)
  have n: "bindO (readAt (slots v) k) slotValue = Inr (xs ! k)" if "k < length xs" for k using that r by (simp add: nth_append)
  show ?thesis unfolding vec_atSigned_def r(2) toSigned_id [OF assms(2)]
    using n [of "nat i"] n [of "nat (int (length xs) + i)"] by (auto simp: not_less)
qed

section \<open>Copies\<close>

lemma assignAll_spec:
  assumes "length xs \<le> n"
  shows "assignAll True (length ys) xs (map Live ys @ replicate n Raw) = Inr (map Live (ys @ xs) @ replicate (n - length xs) Raw)"
  using assms
proof (induction xs arbitrary: ys n)
  case (Cons x xs)
  then obtain m where m: "n = Suc m" by (cases n) auto
  have "assignSlot True (length ys) x (map Live ys @ replicate n Raw) = Inr (map Live (ys @ [x]) @ replicate m Raw)"
    by (simp add: m assignSlot_def list_update_append)
  then show ?case using Cons.IH [of m "ys @ [x]"] Cons.prems m by simp
qed simp

lemma assignAll_dead: "\<lbrakk>xs \<noteq> []; length xs \<le> n\<rbrakk> \<Longrightarrow> assignAll False 0 xs (replicate n Raw) = Inl (Undefined ''assignment to a dead object'')"
  by (cases xs) (auto simp: assignSlot_def)

lemma vec_copy_spec:
  assumes "vec_rep v xs"
  obtains v' where "vec_copy True v = Inr v'" "vec_rep v' xs" "getCapacity v' = getCapacity v" "vec_clean v'"
proof
  let ?v = "\<lparr>vec_data = Some (map Live xs @ replicate (getCapacity v - length xs) Raw), vec_size = vec_size v\<rparr>"
  have s: "vec_size v = length xs" "length xs \<le> getCapacity v" using rep_size [OF assms] by simp_all
  show "vec_copy True v = Inr ?v" using readAll_rep [OF assms] assignAll_spec [OF s(2), of "[]"] by (simp add: vec_copy_def)
  show "vec_rep ?v xs" "getCapacity ?v = getCapacity v" "vec_clean ?v" using s by (auto simp: vec_rep_def getCapacity_def slots_def vec_clean_def)
qed

lemma vec_fromArray_spec: "\<exists>v'. vec_fromArray True xs = Inr v' \<and> vec_rep v' xs"
proof -
  have "assignAll True 0 xs (replicate (length xs) Raw) = Inr (map Live xs)" using assignAll_spec [of xs "length xs" "[]"] by simp
  then show ?thesis by (simp add: vec_fromArray_def vec_rep_def slots_def)
qed

section \<open>The whole buffer\<close>

lemma vec_top_spec:
  assumes "vec_rep v xs" "getCapacity v < 2 ^ 62"
  shows "vec_top v = (if xs = [] then Inl (Undefined ''out of bounds'') else Inr (last xs))"
proof -
  obtain rest where r: "slots v = map Live xs @ rest" "vec_size v = length xs" using assms(1) by (auto simp: vec_rep_def)
  show ?thesis
  proof (cases "xs = []")
    case True
    then have "\<not> sub_size (vec_size v) 1 < length (slots v)" using assms(2) r(2) by (simp add: sub_size_def getCapacity_def)
    then show ?thesis using True by (simp add: vec_top_def readAt_def)
  next
    case False
    have "length xs < 2 ^ 64" using rep_size [OF assms(1)] assms(2) by simp
    then have "sub_size (vec_size v) 1 = length xs - 1" using False r(2) by (simp add: Suc_leI)
    moreover have "length xs - 1 < length xs + length rest" using False by (cases xs) simp_all
    ultimately show ?thesis using False r(1) by (simp add: vec_top_def readAt_def nth_append last_conv_nth)
  qed
qed

lemma ensureRoom_spec:
  assumes "vec_rep v xs" "length xs + n + 4 < 2 ^ 64"
  shows "\<exists>v'. ensureRoom n v = Inr v' \<and> vec_rep v' xs \<and> length xs + n \<le> getCapacity v' \<and> getCapacity v \<le> getCapacity v'"
proof (cases "getCapacity v < length xs + n")
  case True
  obtain v' where "reallocate (length xs + n + 4) v = Inr v'" "vec_rep v' xs" "getCapacity v' = length xs + n + 4"
    using reallocate_spec [OF assms(1), of "length xs + n + 4"] by auto
  then show ?thesis using True assms(2) rep_size [OF assms(1)] by (simp add: ensureRoom_def Let_def)
next
  case False
  then show ?thesis using assms rep_size [OF assms(1)] by (simp add: ensureRoom_def Let_def)
qed

lemma shrinkToFit_spec:
  assumes "vec_rep v xs"
  shows "\<exists>v'. shrinkToFit v = Inr v' \<and> vec_rep v' xs \<and> getCapacity v' = length xs"
  using reallocate_spec [OF assms order_refl] rep_size [OF assms] unfolding shrinkToFit_def by metis

text \<open>\<open>algorithm::sort\<close> takes the logarithm of the size, which is not defined for the empty vector.\<close>

lemma vec_sort_spec:
  assumes "vec_rep v xs" "getCapacity v < 2 ^ 62" "weak_order cmp"
  shows "if xs = [] then vec_sort cmp v = Inl (Undefined ''__builtin_clzl(0)'')
    else \<exists>v' ys. vec_sort cmp v = Inr v' \<and> vec_rep v' ys \<and> mset ys = mset xs \<and> sorted_wrt (\<lambda>x y. \<not> cmp y x) ys \<and> getCapacity v' = getCapacity v"
proof -
  obtain rest where r: "slots v = map Live xs @ rest" "vec_size v = length xs" using assms(1) by (auto simp: vec_rep_def)
  have run: "vec_sort cmp v = bindO (sort_array cmp xs (length xs)) (\<lambda>ys. Inr (v\<lparr>vec_data := Some (map Live ys @ rest)\<rparr>))"
    using readAll_rep [OF assms(1)] r by (simp add: vec_sort_def)
  show ?thesis
  proof (cases "xs = []")
    case True
    then show ?thesis using run by (simp add: sort_array_def log2floor_u64_def)
  next
    case False
    have "length xs < 2 ^ 64" using rep_size [OF assms(1)] assms(2) by simp
    then obtain ys where ys: "sort_array cmp xs (length xs) = Inr ys" "rearr 0 (length xs) xs ys" "sortedRange cmp 0 (length xs) ys"
      using weak_order.sort_array_correct [OF assms(3), of "length xs" xs] False by auto
    have len: "length ys = length xs" using ys(2) by (rule rearr_length)
    have "mset ys = mset xs" using rearr_segment_mset [OF ys(2)] len by (simp add: segment_def)
    moreover have "sorted_wrt (\<lambda>x y. \<not> cmp y x) ys" using ys(3) len by (auto simp: sorted_wrt_iff_nth_less sortedRange_def)
    moreover have "vec_rep (v\<lparr>vec_data := Some (map Live ys @ rest)\<rparr>) ys" "getCapacity (v\<lparr>vec_data := Some (map Live ys @ rest)\<rparr>) = getCapacity v"
      using r len by (auto simp: vec_rep_def getCapacity_def)
    ultimately show ?thesis using run ys(1) False by auto
  qed
qed

section \<open>Sorted vectors\<close>

text \<open>Where \<open>mergeIn\<close> puts a value: behind the last element it is not smaller than.\<close>

definition mergedIn :: "('a \<Rightarrow> 'a \<Rightarrow> bool) \<Rightarrow> 'a \<Rightarrow> 'a list \<Rightarrow> 'a list" where
  "mergedIn cmp x xs = rev (dropWhile (cmp x) (rev xs)) @ x # rev (takeWhile (cmp x) (rev xs))"

lemma mergedIn_mset: "mset (mergedIn cmp x xs) = add_mset x (mset xs)"
proof -
  have "mset (takeWhile (cmp x) (rev xs) @ dropWhile (cmp x) (rev xs)) = mset xs" by simp
  then show ?thesis unfolding mergedIn_def by (simp only: mset_append mset_rev mset.simps) (simp add: union_commute)
qed

lemma sinkLeft_spec: "sinkLeft cmp (length xs) (map Live (xs @ [x]) @ rest) = Inr (map Live (mergedIn cmp x xs) @ rest)"
proof (induction xs arbitrary: rest rule: rev_induct)
  case (snoc y xs)
  let ?d = "map Live xs @ Live y # Live x # rest"
  have "swap ?d (Suc (length xs)) (length xs) = Inr (map Live (xs @ [x]) @ Live y # rest)"
    by (simp add: nth_append list_update_append)
  then show ?case using snoc.IH [of "Live y # rest"] by (simp add: mergedIn_def nth_append)
qed (simp add: mergedIn_def)

lemma mergedIn_sorted:
  assumes "weak_order cmp" "sorted_wrt (\<lambda>x y. \<not> cmp y x) xs"
  shows "sorted_wrt (\<lambda>x y. \<not> cmp y x) (mergedIn cmp x xs)"
proof -
  have s: "sorted_wrt (\<lambda>x y. \<not> cmp x y) (rev xs)" using assms(2) by (simp add: sorted_wrt_rev)
  let ?T = "takeWhile (cmp x) (rev xs)" and ?D = "dropWhile (cmp x) (rev xs)"
  have td: "?T @ ?D = rev xs" by simp
  have s2: "sorted_wrt (\<lambda>x y. \<not> cmp x y) (?T @ ?D)" unfolding td by (rule s)
  have D: "\<not> cmp x y" if "y \<in> set ?D" for y
  proof (cases ?D)
    case (Cons z zs)
    then have z: "\<not> cmp x z" using hd_dropWhile [of "cmp x" "rev xs"] by auto
    have "sorted_wrt (\<lambda>x y. \<not> cmp x y) ?D" using s td sorted_wrt_append by metis
    then have "y = z \<or> \<not> cmp z y" using that Cons by auto
    then show ?thesis using z weak_order.negtrans [OF assms(1)] by blast
  next
    case Nil
    show ?thesis using that unfolding Nil by simp
  qed
  have T: "\<not> cmp y x" if "y \<in> set ?T" for y using set_takeWhileD [OF that] weak_order.asym [OF assms(1)] by blast
  have "sorted_wrt (\<lambda>x y. \<not> cmp x y) (?T @ x # ?D)"
    using T D s2 by (simp only: sorted_wrt_append sorted_wrt.simps) auto
  then have "sorted_wrt (\<lambda>x y. \<not> cmp y x) (rev (?T @ x # ?D))" by (simp only: sorted_wrt_rev)
  then show ?thesis by (simp add: mergedIn_def)
qed

lemma mergeIn_spec:
  assumes "vec_rep v xs" "getCapacity v < 2 ^ 63"
  obtains v' where "mergeIn trivial cmp x v = Inr v'" "vec_rep v' (mergedIn cmp x xs)"
proof -
  obtain v1 where v1: "vec_push trivial x v = Inr v1" "vec_rep v1 (xs @ [x])" using vec_push_spec [OF assms] by metis
  obtain rest where r: "slots v1 = map Live (xs @ [x]) @ rest" "vec_size v1 = Suc (length xs)" using v1(2) by (auto simp: vec_rep_def)
  show ?thesis
  proof (cases "xs = []")
    case True
    then show ?thesis using that [of v1] v1 r(2) by (simp add: mergeIn_def mergedIn_def)
  next
    case False
    let ?v = "v1\<lparr>vec_data := Some (map Live (mergedIn cmp x xs) @ rest)\<rparr>"
    have "mergeIn trivial cmp x v = Inr ?v" using v1(1) r False sinkLeft_spec [of cmp xs x rest] by (simp add: mergeIn_def)
    moreover have "length (mergedIn cmp x xs) = Suc (length xs)" using arg_cong [OF mergedIn_mset [of cmp x xs], of size] by simp
    then have "vec_rep ?v (mergedIn cmp x xs)" using r(2) by (auto simp: vec_rep_def)
    ultimately show ?thesis using that by blast
  qed
qed


section \<open>Properties\<close>

text \<open>
  C37: a \<open>Vector\<close> of a trivially copyable type, with a capacity below \<open>2 ^ 62\<close>, is the list of its elements: its operations do
  to the list what this says, whatever the buffer they grow or shrink. The constructors, the copy and the move give the list they are made
  of, and the moved-from and the cleared vector are empty. \<open>push\<close>, \<open>pop\<close>, \<open>insert\<close> and \<open>remove\<close> are the list operations; an
  index out of range and a \<open>pop\<close> of the empty vector are assertion failures. The unsigned subscript reads the element at its
  index; the signed one, for a 64-bit index, also counts from the end for a negative index; all other indices are assertion
  failures. \<open>top\<close> is the last element, and out of bounds of the buffer for the empty vector. \<open>ensureRoom\<close> and \<open>shrinkToFit\<close>
  leave the elements and give the promised capacity, if the requested one fits in 64 bits. For a comparator that is a
  strict weak order, \<open>sort\<close> permutes the elements into order, save that on the empty vector it asks for the logarithm of 0,
  which is undefined; \<open>mergeIn\<close> adds a value and keeps a sorted vector sorted.
\<close>

theorem vector_refines_list:
  assumes "vec_rep v xs" "getCapacity v < 2 ^ 62"
  shows "vec_rep vec_new [] \<and> vec_rep (vec_withCapacity n) [] \<and> getCapacity (vec_withCapacity n) = n \<and>
    (\<exists>v'. vec_fromArray True xs = Inr v' \<and> vec_rep v' xs) \<and>
    (\<exists>v'. vec_copy True v = Inr v' \<and> vec_rep v' xs) \<and>
    vec_rep (fst (vec_move v)) xs \<and> vec_rep (snd (vec_move v)) [] \<and> vec_rep (vec_clear v) [] \<and>
    (\<exists>v'. vec_push True x v = Inr v' \<and> vec_rep v' (xs @ [x])) \<and>
    (if xs = [] then vec_pop v = Inl (Assertion ''Cannot pop from empty vector'')
     else \<exists>v'. vec_pop v = Inr (last xs, v') \<and> vec_rep v' (butlast xs)) \<and>
    (if i \<le> length xs then \<exists>v'. vec_insert True i x v = Inr v' \<and> vec_rep v' (take i xs @ x # drop i xs)
     else vec_insert True i x v = Inl (Assertion ''Index out of bounds'')) \<and>
    (if i < length xs then \<exists>v'. vec_remove True i v = Inr v' \<and> vec_rep v' (take i xs @ drop (Suc i) xs)
     else vec_remove True i v = Inl (Assertion ''Index out of bounds'')) \<and>
    vec_at i v = (if i < length xs then Inr (xs ! i) else Inl (Assertion ''Index out of bounds'')) \<and>
    vec_atSigned j v =
      (if 0 \<le> j \<and> j < int (length xs) then Inr (xs ! nat j)
       else if j < 0 \<and> - int (length xs) \<le> j then Inr (xs ! nat (int (length xs) + j))
       else Inl (Assertion ''Index out of bounds'')) \<and>
    vec_top v = (if xs = [] then Inl (Undefined ''out of bounds'') else Inr (last xs)) \<and>
    (length xs + n + 4 < 2 ^ 64 \<longrightarrow> (\<exists>v'. ensureRoom n v = Inr v' \<and> vec_rep v' xs \<and> length xs + n \<le> getCapacity v' \<and> getCapacity v \<le> getCapacity v')) \<and>
    (\<exists>v'. shrinkToFit v = Inr v' \<and> vec_rep v' xs \<and> getCapacity v' = length xs) \<and>
    (weak_order cmp \<longrightarrow>
      (if xs = [] then vec_sort cmp v = Inl (Undefined ''__builtin_clzl(0)'')
       else \<exists>v' ys. vec_sort cmp v = Inr v' \<and> vec_rep v' ys \<and> mset ys = mset xs \<and> sorted_wrt (\<lambda>x y. \<not> cmp y x) ys \<and>
         getCapacity v' = getCapacity v)) \<and>
    (\<exists>v' ys. mergeIn True cmp x v = Inr v' \<and> vec_rep v' ys \<and> mset ys = add_mset x (mset xs) \<and>
      (weak_order cmp \<longrightarrow> sorted_wrt (\<lambda>x y. \<not> cmp y x) xs \<longrightarrow> sorted_wrt (\<lambda>x y. \<not> cmp y x) ys))"
proof (intro conjI impI)
  have c: "getCapacity v < 2 ^ 63" using assms(2) by simp
  have z: "vec_size v = length xs" "length xs < 2 ^ 63" using rep_size [OF assms(1)] c by simp_all
  show "vec_rep vec_new []" "vec_rep (vec_withCapacity n) []" "getCapacity (vec_withCapacity n) = n"
    "vec_rep (fst (vec_move v)) xs" "vec_rep (snd (vec_move v)) []" "vec_rep (vec_clear v) []" using assms(1)
    by (simp_all add: vec_rep_def vec_new_def vec_withCapacity_def slots_def getCapacity_def vec_move_def vec_clear_def)
  show "\<exists>v'. vec_copy True v = Inr v' \<and> vec_rep v' xs" using vec_copy_spec [OF assms(1)] by metis
  show "\<exists>v'. vec_push True x v = Inr v' \<and> vec_rep v' (xs @ [x])" using vec_push_spec [OF assms(1) c] by metis
  show "if xs = [] then vec_pop v = Inl (Assertion ''Cannot pop from empty vector'') else \<exists>v'. vec_pop v = Inr (last xs, v') \<and> vec_rep v' (butlast xs)"
    using assms(1) c by (rule vec_pop_list)
  show "if i \<le> length xs then \<exists>v'. vec_insert True i x v = Inr v' \<and> vec_rep v' (take i xs @ x # drop i xs)
     else vec_insert True i x v = Inl (Assertion ''Index out of bounds'')" using assms by (rule vec_insert_list)
  show "if i < length xs then \<exists>v'. vec_remove True i v = Inr v' \<and> vec_rep v' (take i xs @ drop (Suc i) xs)
     else vec_remove True i v = Inl (Assertion ''Index out of bounds'')" using assms(1) c by (rule vec_remove_list)
  show "\<exists>v' ys. mergeIn True cmp x v = Inr v' \<and> vec_rep v' ys \<and> mset ys = add_mset x (mset xs) \<and>
      (weak_order cmp \<longrightarrow> sorted_wrt (\<lambda>x y. \<not> cmp y x) xs \<longrightarrow> sorted_wrt (\<lambda>x y. \<not> cmp y x) ys)"
    using mergeIn_spec [OF assms(1) c] mergedIn_mset mergedIn_sorted by metis
  show "vec_atSigned j v =
      (if 0 \<le> j \<and> j < int (length xs) then Inr (xs ! nat j)
       else if j < 0 \<and> - int (length xs) \<le> j then Inr (xs ! nat (int (length xs) + j))
       else Inl (Assertion ''Index out of bounds''))" using assms(1) z(2) by (rule vec_atSigned_spec)
qed (use assms in \<open>auto simp only: intro!: vec_fromArray_spec vec_at_spec vec_top_spec ensureRoom_spec shrinkToFit_spec vec_sort_spec\<close>)

definition threeInts :: "nat Vector" where
  "threeInts = \<lparr>vec_data = Some [Live 1, Live 4, Live 9, Raw], vec_size = 3\<rparr>"

lemma threeInts_ok: "vec_rep threeInts [1, 4, 9]" "getCapacity threeInts < 2 ^ 62" "vec_clean threeInts" "getCapacity threeInts < 2 ^ 63"
  by (simp_all add: vec_rep_def threeInts_def slots_def getCapacity_def vec_clean_def)

theorem vector_refines_list_witness:
  "(\<exists>v'. vec_insert True 1 (7::nat) threeInts = Inr v' \<and> vec_rep v' [1, 7, 4, 9]) \<and> vec_atSigned (- 1) threeInts = Inr 9"
proof -
  note w = vector_refines_list [where v = threeInts and i = 1 and j = "- 1" and x = 7, OF threeInts_ok(1,2)]
  have "if 1 \<le> length [1 :: nat, 4, 9] then \<exists>v'. vec_insert True 1 7 threeInts = Inr v' \<and> vec_rep v' (take 1 [1, 4, 9] @ 7 # drop 1 [1, 4, 9])
    else vec_insert True 1 7 threeInts = Inl (Assertion ''Index out of bounds'')" using w by blast
  moreover have "vec_atSigned (- 1) threeInts =
      (if 0 \<le> (- 1 :: int) \<and> - 1 < int (length [1 :: nat, 4, 9]) then Inr ([1, 4, 9] ! nat (- 1))
       else if (- 1 :: int) < 0 \<and> - int (length [1 :: nat, 4, 9]) \<le> - 1 then Inr ([1, 4, 9] ! nat (int (length [1 :: nat, 4, 9]) + - 1))
       else Inl (Assertion ''Index out of bounds''))" using w by blast
  moreover have "nat (int (length [1 :: nat, 4, 9]) + - 1) = 2" by simp
  ultimately show ?thesis by simp
qed

text \<open>
  for an element type with its own constructors, \<open>Vector\<close> assigns to objects that do not exist: removing any element
  but the last, inserting anywhere but at the end and copying a vector that is not empty. Pushing and popping,
  inserting at the end and removing the last element stay defined, and leave no object behind the elements.
\<close>

lemma vector_assigns_to_dead_objects:
  assumes "vec_rep v xs" "getCapacity v < 2 ^ 62" "vec_clean v"
  shows "(Suc i < length xs \<longrightarrow> vec_remove False i v = Inl (Undefined ''assignment to a dead object'')) \<and>
    (i < length xs \<longrightarrow> vec_insert False i x v = Inl (Undefined ''assignment to a dead object'')) \<and>
    (xs \<noteq> [] \<longrightarrow> vec_copy False v = Inl (Undefined ''assignment to a dead object'')) \<and>
    (\<exists>v'. vec_push False x v = Inr v' \<and> vec_rep v' (xs @ [x]) \<and> vec_clean v') \<and>
    (xs \<noteq> [] \<longrightarrow> (\<exists>v'. vec_pop v = Inr (last xs, v') \<and> vec_rep v' (butlast xs) \<and> vec_clean v'))"
proof (intro conjI impI)
  have c: "getCapacity v < 2 ^ 63" using assms(2) by simp
  obtain rest where r: "slots v = map Live xs @ rest" and z: "vec_size v = length xs" using assms(1) by (auto simp: vec_rep_def)
  show "vec_remove False i v = Inl (Undefined ''assignment to a dead object'')" if i: "Suc i < length xs"
  proof -
    have l: "i < length xs" using i by simp
    have s: "slots v = map Live (take i xs) @ Live (xs ! i) # map Live (drop (Suc i) xs) @ rest"
      unfolding r by (subst split_at [OF l]) simp
    have "destroySlot i (slots v) = Inr (map Live (take i xs) @ Raw # map Live (drop (Suc i) xs) @ rest)"
      unfolding s using l by (simp add: destroySlot_def list_update_append nth_append)
    moreover have "shiftDown False i (length xs - 1 - i) (map Live (take i xs) @ Raw # map Live (drop (Suc i) xs) @ rest) = Inl (Undefined ''assignment to a dead object'')"
      using shiftDown_dead [of "drop (Suc i) xs" "take i xs" rest] i by simp
    ultimately show ?thesis using l z by (simp add: vec_remove_def)
  qed
  show "vec_insert False i x v = Inl (Undefined ''assignment to a dead object'')" if i: "i < length xs"
  proof -
    obtain v1 where v1: "reallocate_if_necessary v = Inr v1" "vec_rep v1 xs" "length xs < getCapacity v1" "vec_clean v1"
      using reallocate_if_necessary_spec [OF assms(1) c] assms(3) by metis
    obtain rest1 where r1: "slots v1 = map Live xs @ rest1" and z1: "vec_size v1 = length xs" using v1(2) by (auto simp: vec_rep_def)
    obtain rest2 where r2: "rest1 = Raw # rest2" using v1(3,4) r1 z1 by (cases rest1) (auto simp: getCapacity_def vec_clean_def)
    have "map Live xs = map Live (take i xs @ drop i xs)" by simp
    then have "shiftUp False (length xs) (length xs - i) (slots v1) = Inl (Undefined ''assignment to a dead object'')"
      using shiftUp_dead [of "drop i xs" "take i xs" rest2] i unfolding r1 r2 by simp
    then show ?thesis using v1(1) i z z1 by (simp add: vec_insert_def)
  qed
  show "vec_copy False v = Inl (Undefined ''assignment to a dead object'')" if "xs \<noteq> []"
    using readAll_rep [OF assms(1)] assignAll_dead [OF that] rep_size [OF assms(1)] by (simp add: vec_copy_def)
  show "\<exists>v'. vec_push False x v = Inr v' \<and> vec_rep v' (xs @ [x]) \<and> vec_clean v'" using vec_push_spec [OF assms(1) c] assms(3) by metis
  show "\<exists>v'. vec_pop v = Inr (last xs, v') \<and> vec_rep v' (butlast xs) \<and> vec_clean v'" if "xs \<noteq> []"
    using vec_pop_spec [of v "butlast xs" "last xs"] assms that c by (metis append_butlast_last_id)
qed

end
