(* ===== verification/Linked_List.thy ===== *)
theory Linked_List
  imports Croc_Prelude "HOL-Library.While_Combinator"
begin

text \<open>
  \<open>IntrusiveLinkedList\<close> and \<open>LinkedList\<close> of \<open>core/ds/LinkedList.h\<close> on an explicit store: the two pointer fields of every node
  are functions of its address, \<open>None\<close> is the null pointer. The owning list also has the data of the nodes it has
  allocated; the address of a new node is given by the allocator.
\<close>

section \<open>The intrusive list\<close>

record 'n IntrusiveLinkedList =
  headNode :: "'n option"
  tailNode :: "'n option"
  previous :: "'n \<Rightarrow> 'n option"
  successor :: "'n \<Rightarrow> 'n option"

definition setPrevious :: "'n \<Rightarrow> 'n option \<Rightarrow> 'n IntrusiveLinkedList \<Rightarrow> 'n IntrusiveLinkedList" where
  "setPrevious n p l = l\<lparr>previous := (previous l)(n := p)\<rparr>"

definition setNext :: "'n \<Rightarrow> 'n option \<Rightarrow> 'n IntrusiveLinkedList \<Rightarrow> 'n IntrusiveLinkedList" where
  "setNext n p l = l\<lparr>successor := (successor l)(n := p)\<rparr>"

definition ill_pushBack :: "'n \<Rightarrow> 'n IntrusiveLinkedList \<Rightarrow> 'n IntrusiveLinkedList outcome" where
  "ill_pushBack node l =
     (if headNode l = None then Inr (setNext node None (setPrevious node None (l\<lparr>headNode := Some node, tailNode := Some node\<rparr>)))
      else case tailNode l of
        None \<Rightarrow> Inl (Undefined ''null pointer'')
      | Some t \<Rightarrow> Inr ((setNext node None (setPrevious node (tailNode l) (setNext t (Some node) l)))\<lparr>tailNode := Some node\<rparr>))"

definition ill_pushFront :: "'n \<Rightarrow> 'n IntrusiveLinkedList \<Rightarrow> 'n IntrusiveLinkedList" where
  "ill_pushFront node l =
     (case headNode l of
        None \<Rightarrow> setPrevious node None (setNext node None (l\<lparr>headNode := Some node, tailNode := Some node\<rparr>))
      | Some h \<Rightarrow> (setPrevious node None (setNext node (headNode l) (setPrevious h (Some node) l)))\<lparr>headNode := Some node\<rparr>)"

text \<open>\<open>remove\<close> first moves the ends of the list off the node, then links its neighbours.\<close>

definition clipEnds :: "'n \<Rightarrow> 'n IntrusiveLinkedList \<Rightarrow> 'n IntrusiveLinkedList" where
  "clipEnds node l =
     (let l1 = (if headNode l = Some node then l\<lparr>headNode := successor l node\<rparr> else l)
      in if tailNode l1 = Some node then l1\<lparr>tailNode := previous l1 node\<rparr> else l1)"

definition unlink :: "'n \<Rightarrow> 'n IntrusiveLinkedList \<Rightarrow> 'n IntrusiveLinkedList" where
  "unlink node l =
     (let l1 = (case previous l node of None \<Rightarrow> l | Some p \<Rightarrow> setNext p (successor l node) l)
      in case successor l1 node of None \<Rightarrow> l1 | Some s \<Rightarrow> setPrevious s (previous l1 node) l1)"

definition ill_remove :: "'n \<Rightarrow> 'n IntrusiveLinkedList \<Rightarrow> 'n IntrusiveLinkedList" where
  "ill_remove node l = unlink node (clipEnds node l)"

definition ill_popFront :: "'n IntrusiveLinkedList \<Rightarrow> 'n option \<times> 'n IntrusiveLinkedList" where
  "ill_popFront l = (headNode l, case headNode l of None \<Rightarrow> l | Some h \<Rightarrow> ill_remove h l)"

definition ill_popBack :: "'n IntrusiveLinkedList \<Rightarrow> 'n option \<times> 'n IntrusiveLinkedList" where
  "ill_popBack l = (tailNode l, case tailNode l of None \<Rightarrow> l | Some t \<Rightarrow> ill_remove t l)"

text \<open>An iterator holds the node it is at and the one after it, read when it got there.\<close>

record 'n NodeIterator =
  current :: "'n option"
  ahead :: "'n option"

definition link :: "bool \<Rightarrow> 'n IntrusiveLinkedList \<Rightarrow> 'n \<Rightarrow> 'n option" where
  "link forward l n = (if forward then successor l n else previous l n)"

definition mkIterator :: "bool \<Rightarrow> 'n IntrusiveLinkedList \<Rightarrow> 'n option \<Rightarrow> 'n NodeIterator" where
  "mkIterator forward l n = \<lparr>current = n, ahead = (case n of None \<Rightarrow> None | Some m \<Rightarrow> link forward l m)\<rparr>"

definition advance :: "bool \<Rightarrow> 'n IntrusiveLinkedList \<Rightarrow> 'n NodeIterator \<Rightarrow> 'n NodeIterator" where
  "advance forward l it =
     (case current it of None \<Rightarrow> it
      | Some _ \<Rightarrow> \<lparr>current = ahead it, ahead = (case ahead it of None \<Rightarrow> None | Some m \<Rightarrow> link forward l m)\<rparr>)"

text \<open>A range-based loop: run \<open>body\<close> on the node and the list, then advance.\<close>

definition forEach :: "bool \<Rightarrow> ('n \<Rightarrow> 'n IntrusiveLinkedList \<times> 's \<Rightarrow> 'n IntrusiveLinkedList \<times> 's) \<Rightarrow>
    'n IntrusiveLinkedList \<times> 's \<Rightarrow> ('n NodeIterator \<times> 'n IntrusiveLinkedList \<times> 's) option" where
  "forEach forward body ls =
     while_option (\<lambda>(it, _). current it \<noteq> None)
       (\<lambda>(it, ls). case current it of None \<Rightarrow> (it, ls) | Some n \<Rightarrow> (let ls' = body n ls in (advance forward (fst ls') it, ls')))
       (mkIterator forward (fst ls) (if forward then headNode (fst ls) else tailNode (fst ls)), ls)"

section \<open>The owning list\<close>

text \<open>\<open>nodeData\<close> has the allocated nodes. Using the pointer fields or the data of a freed node is \<open>Undefined\<close>.\<close>

record 'd LinkedList =
  base :: "nat IntrusiveLinkedList"
  nodeData :: "nat \<rightharpoonup> 'd"

definition ll_pushBack :: "nat \<Rightarrow> 'd \<Rightarrow> 'd LinkedList \<Rightarrow> 'd LinkedList outcome" where
  "ll_pushBack newNode d l =
     bindO (ill_pushBack newNode (setNext newNode None (setPrevious newNode None (base l)))) (\<lambda>b.
       Inr (l\<lparr>nodeData := (nodeData l)(newNode \<mapsto> d), base := b\<rparr>))"

definition ll_pushFront :: "nat \<Rightarrow> 'd \<Rightarrow> 'd LinkedList \<Rightarrow> 'd LinkedList" where
  "ll_pushFront newNode d l =
     l\<lparr>nodeData := (nodeData l)(newNode \<mapsto> d), base := ill_pushFront newNode (setNext newNode None (setPrevious newNode None (base l)))\<rparr>"

definition ll_remove :: "nat \<Rightarrow> 'd LinkedList \<Rightarrow> 'd LinkedList outcome" where
  "ll_remove node l =
     (if nodeData l node = None then Inl (Undefined ''use of a freed node'')
      else Inr (l\<lparr>base := ill_remove node (base l), nodeData := (nodeData l)(node := None)\<rparr>))"

definition takeOut :: "nat option \<times> nat IntrusiveLinkedList \<Rightarrow> 'd LinkedList \<Rightarrow> ('d option \<times> 'd LinkedList) outcome" where
  "takeOut popped l =
     (case fst popped of
        None \<Rightarrow> Inr (None, l\<lparr>base := snd popped\<rparr>)
      | Some n \<Rightarrow> (case nodeData l n of
           None \<Rightarrow> Inl (Undefined ''use of a freed node'')
         | Some d \<Rightarrow> Inr (Some d, l\<lparr>base := snd popped, nodeData := (nodeData l)(n := None)\<rparr>)))"

definition ll_popFront :: "'d LinkedList \<Rightarrow> ('d option \<times> 'd LinkedList) outcome" where
  "ll_popFront l = takeOut (ill_popFront (base l)) l"

definition ll_popBack :: "'d LinkedList \<Rightarrow> ('d option \<times> 'd LinkedList) outcome" where
  "ll_popBack l = takeOut (ill_popBack (base l)) l"

definition ll_head :: "'d LinkedList \<Rightarrow> 'd option outcome" where
  "ll_head l =
     (case headNode (base l) of None \<Rightarrow> Inr None
      | Some n \<Rightarrow> (case nodeData l n of None \<Rightarrow> Inl (Undefined ''use of a freed node'') | Some d \<Rightarrow> Inr (Some d)))"

definition ll_tail :: "'d LinkedList \<Rightarrow> 'd option outcome" where
  "ll_tail l =
     (case tailNode (base l) of None \<Rightarrow> Inr None
      | Some n \<Rightarrow> (case nodeData l n of None \<Rightarrow> Inl (Undefined ''use of a freed node'') | Some d \<Rightarrow> Inr (Some d)))"

definition ll_empty :: "'d LinkedList \<Rightarrow> bool" where
  "ll_empty l \<longleftrightarrow> headNode (base l) = None"

text \<open>The destructor: read the next node, free this one.\<close>

definition ll_destroy :: "'d LinkedList \<Rightarrow> (nat option \<times> (nat \<rightharpoonup> 'd)) option" where
  "ll_destroy l =
     while_option (\<lambda>(n, _). n \<noteq> None)
       (\<lambda>(n, nodes). case n of None \<Rightarrow> (n, nodes) | Some m \<Rightarrow> (successor (base l) m, nodes(m := None)))
       (headNode (base l), nodeData l)"

section \<open>A chain of nodes\<close>

definition first :: "'n list \<Rightarrow> 'n option \<Rightarrow> 'n option" where
  "first xs q = (case xs of [] \<Rightarrow> q | x # _ \<Rightarrow> Some x)"

lemma first_simps [simp]: "first [] q = q" "first (x # xs) q = Some x"
  by (simp_all add: first_def)

fun chain :: "'n IntrusiveLinkedList \<Rightarrow> 'n option \<Rightarrow> 'n list \<Rightarrow> 'n option \<Rightarrow> bool" where
  "chain l p [] q = True"
| "chain l p (x # xs) q \<longleftrightarrow> previous l x = p \<and> successor l x = first xs q \<and> chain l (Some x) xs q"

definition final :: "'n option \<Rightarrow> 'n list \<Rightarrow> 'n option" where
  "final p xs = (if xs = [] then p else Some (last xs))"

lemma final_simps [simp]: "final p [] = p" "final p (x # xs) = final (Some x) xs" "final p (xs @ [x]) = Some x"
  by (simp_all add: final_def)

lemma final_append: "final p (xs @ ys) = final (final p xs) ys"
  by (simp add: final_def)

lemma first_append: "first (xs @ ys) q = first xs (first ys q)"
  by (cases xs) simp_all

lemma chain_append: "chain l p (xs @ ys) q \<longleftrightarrow> chain l p xs (first ys q) \<and> chain l (final p xs) ys q"
  by (induction xs arbitrary: p) (auto simp: first_append)

lemma chain_cong: "\<lbrakk>\<And>x. x \<in> set xs \<Longrightarrow> previous l x = previous l' x \<and> successor l x = successor l' x\<rbrakk> \<Longrightarrow> chain l p xs q = chain l' p xs q"
  by (induction xs arbitrary: p) auto

text \<open>A list of nodes laid out in the store.\<close>

definition ill_rep :: "'n IntrusiveLinkedList \<Rightarrow> 'n list \<Rightarrow> bool" where
  "ill_rep l xs \<longleftrightarrow> distinct xs \<and> headNode l = first xs None \<and> tailNode l = final None xs \<and> chain l None xs None"

text \<open>The nodes outside of a list keep their fields.\<close>

definition untouched :: "'n set \<Rightarrow> 'n IntrusiveLinkedList \<Rightarrow> 'n IntrusiveLinkedList \<Rightarrow> bool" where
  "untouched S l l' \<longleftrightarrow> (\<forall>n. n \<notin> S \<longrightarrow> previous l' n = previous l n \<and> successor l' n = successor l n)"

lemma fields [simp]:
  "previous (setPrevious n p l) = (previous l)(n := p)" "successor (setPrevious n p l) = successor l"
  "previous (setNext n p l) = previous l" "successor (setNext n p l) = (successor l)(n := p)"
  "headNode (setPrevious n p l) = headNode l" "tailNode (setPrevious n p l) = tailNode l"
  "headNode (setNext n p l) = headNode l" "tailNode (setNext n p l) = tailNode l"
  by (simp_all add: setPrevious_def setNext_def)

lemma chain_last:
  assumes "chain l p xs q" "xs \<noteq> []"
  shows "successor l (last xs) = q"
  using assms by (induction xs arbitrary: p) auto

text \<open>Redirecting the end of a chain, and its start.\<close>

lemma chain_setNext:
  assumes "chain l p xs q" "distinct xs" "xs \<noteq> []"
  shows "chain (setNext (last xs) q' l) p xs q'"
proof -
  obtain ys y where xs: "xs = ys @ [y]" using assms(3) by (metis rev_exhaust)
  have "chain (setNext y q' l) p ys (Some y) = chain l p ys (Some y)" using assms(2) xs by (intro chain_cong) auto
  then show ?thesis using assms(1) by (simp add: xs chain_append)
qed

lemma chain_setPrevious:
  assumes "chain l p (x # xs) q" "x \<notin> set xs"
  shows "chain (setPrevious x p' l) p' (x # xs) q"
proof -
  have "chain (setPrevious x p' l) (Some x) xs q = chain l (Some x) xs q" using assms(2) by (intro chain_cong) auto
  then show ?thesis using assms(1) by simp
qed

lemma ill_pushBack_rep:
  assumes "ill_rep l xs" "n \<notin> set xs"
  obtains l' where "ill_pushBack n l = Inr l'" "ill_rep l' (xs @ [n])" "untouched (insert n (set xs)) l l'"
proof -
  have r: "distinct xs" "headNode l = first xs None" "tailNode l = final None xs" "chain l None xs None" using assms(1) by (simp_all add: ill_rep_def)
  show ?thesis
  proof (cases xs)
    case Nil
    let ?l = "setNext n None (setPrevious n None (l\<lparr>headNode := Some n, tailNode := Some n\<rparr>))"
    show ?thesis using that [of ?l] r Nil by (simp add: ill_rep_def ill_pushBack_def untouched_def)
  next
    case (Cons x xs')
    let ?l1 = "setNext (last xs) (Some n) l"
    let ?l = "(setNext n None (setPrevious n (Some (last xs)) ?l1))\<lparr>tailNode := Some n\<rparr>"
    have h: "headNode l = Some x" "tailNode l = Some (last xs)" using r(2,3) Cons by (simp_all add: final_def)
    then have e: "ill_pushBack n l = Inr ?l" by (simp add: ill_pushBack_def)
    have "chain ?l1 None xs (Some n)" using r(1,4) Cons by (intro chain_setNext) auto
    moreover have "chain ?l None xs (Some n) = chain ?l1 None xs (Some n)" using assms(2) by (intro chain_cong) auto
    ultimately have "chain ?l None xs (Some n)" by simp
    moreover have "final None xs = Some (last xs)" using Cons by (simp add: final_def)
    ultimately have "chain ?l None (xs @ [n]) None" unfolding chain_append by simp
    moreover have "headNode ?l = first (xs @ [n]) None" using h(1) Cons by simp
    ultimately have "ill_rep ?l (xs @ [n])" using r(1) assms(2) unfolding ill_rep_def by (simp del: chain.simps)
    moreover have "untouched (insert n (set xs)) l ?l" using Cons by (auto simp: untouched_def)
    ultimately show ?thesis using that e by blast
  qed
qed

lemma ill_pushFront_rep:
  assumes "ill_rep l xs" "n \<notin> set xs"
  shows "ill_rep (ill_pushFront n l) (n # xs)" "untouched (insert n (set xs)) l (ill_pushFront n l)"
proof -
  have r: "distinct xs" "headNode l = first xs None" "tailNode l = final None xs" "chain l None xs None" using assms(1) by (simp_all add: ill_rep_def)
  have "ill_rep (ill_pushFront n l) (n # xs) \<and> untouched (insert n (set xs)) l (ill_pushFront n l)"
  proof (cases xs)
    case Nil
    then show ?thesis using r by (simp add: ill_rep_def ill_pushFront_def untouched_def)
  next
    case (Cons x xs')
    let ?l1 = "setPrevious x (Some n) l"
    let ?l = "(setPrevious n None (setNext n (Some x) ?l1))\<lparr>headNode := Some n\<rparr>"
    have h: "headNode l = Some x" using r(2) Cons by simp
    then have e: "ill_pushFront n l = ?l" by (simp add: ill_pushFront_def)
    have "chain ?l1 (Some n) xs None" using r(1,4) Cons by (simp add: chain_setPrevious del: chain.simps)
    moreover have "chain ?l (Some n) xs None = chain ?l1 (Some n) xs None" using assms(2) by (intro chain_cong) auto
    moreover have "first xs None = Some x" using Cons by simp
    ultimately have "chain ?l None (n # xs) None" unfolding chain.simps by simp
    moreover have "tailNode ?l = final None (n # xs)" using r(3) Cons by (simp add: final_def)
    moreover have "untouched (insert n (set xs)) l ?l" using Cons by (auto simp: untouched_def)
    ultimately show ?thesis using r(1) assms(2) unfolding e ill_rep_def by (simp del: chain.simps)
  qed
  then show "ill_rep (ill_pushFront n l) (n # xs)" "untouched (insert n (set xs)) l (ill_pushFront n l)" by simp_all
qed


section \<open>Removal\<close>

lemma ill_remove_rep:
  assumes "ill_rep l (ys @ n # zs)"
  shows "ill_rep (ill_remove n l) (ys @ zs)" "untouched (set (ys @ zs)) l (ill_remove n l)"
proof -
  have d: "distinct ys" "distinct zs" "n \<notin> set ys" "n \<notin> set zs" "set ys \<inter> set zs = {}"
    and h: "headNode l = first ys (Some n)" and t: "tailNode l = final (Some n) zs"
    and c: "chain l None ys (Some n)" "previous l n = final None ys" "successor l n = first zs None" "chain l (Some n) zs None"
    using assms by (auto simp: ill_rep_def chain_append first_append final_append)
  let ?l1 = "l\<lparr>headNode := first (ys @ zs) None, tailNode := final None (ys @ zs)\<rparr>"
  let ?l2 = "if ys = [] then ?l1 else setNext (last ys) (first zs None) ?l1"
  let ?l3 = "if zs = [] then ?l2 else setPrevious (hd zs) (final None ys) ?l2"
  have "headNode l = Some n \<longleftrightarrow> ys = []" "tailNode l = Some n \<longleftrightarrow> zs = []" using h t d(3,4) by (cases ys; auto simp: final_def)+
  moreover have "first ys q = headNode l" if "ys \<noteq> []" for q using h that by (cases ys) auto
  ultimately have e1: "clipEnds n l = ?l1"
    using t c(2,3) by (cases "ys = []"; cases "zs = []") (auto simp: clipEnds_def final_def first_append intro!: IntrusiveLinkedList.equality)
  have "(case previous ?l1 n of None \<Rightarrow> ?l1 | Some p \<Rightarrow> setNext p (successor ?l1 n) ?l1) = ?l2" using c(2,3) by (simp add: final_def)
  moreover have "successor ?l2 n = first zs None" "previous ?l2 n = final None ys" using c(2,3) d(3) last_in_set [of ys] by auto
  ultimately have e: "ill_remove n l = ?l3" unfolding ill_remove_def e1 unlink_def by (cases zs) (simp_all add: Let_def)
  have c1: "chain ?l3 None ys (first zs None)"
  proof -
    have "chain ?l3 None ys (first zs None) = chain ?l2 None ys (first zs None)" using d(5) by (intro chain_cong) (cases zs; auto)
    moreover have "chain ?l1 None ys (Some n)" using c(1) chain_cong [of ys ?l1 l] by simp
    then have "chain ?l2 None ys (first zs None)" using d(1) chain_setNext [of ?l1 None ys "Some n" "first zs None"] by auto
    ultimately show ?thesis by simp
  qed
  have c2: "chain ?l3 (final None ys) zs None"
  proof (cases zs)
    case (Cons z zs')
    have "last ys \<notin> set zs" if "ys \<noteq> []" using that d(5) last_in_set by blast
    then have "chain ?l2 (Some n) zs None = chain l (Some n) zs None" by (intro chain_cong) auto
    then show ?thesis using c(4) d(2) chain_setPrevious [of ?l2 "Some n" z zs' None "final None ys"] Cons by simp
  qed simp
  have f: "headNode ?l3 = first (ys @ zs) None" "tailNode ?l3 = final None (ys @ zs)" by simp_all
  show "ill_rep (ill_remove n l) (ys @ zs)" unfolding e ill_rep_def chain_append using d c1 c2 f by (simp del: chain.simps)
  show "untouched (set (ys @ zs)) l (ill_remove n l)" unfolding e untouched_def by auto
qed

text \<open>The popped node is the end of the list, or null for the empty list, which does not change.\<close>

lemma ill_pops:
  assumes "ill_rep l xs"
  shows "ill_popFront l = (first xs None, snd (ill_popFront l))" "ill_rep (snd (ill_popFront l)) (tl xs)"
    "ill_popBack l = (final None xs, snd (ill_popBack l))" "ill_rep (snd (ill_popBack l)) (butlast xs)"
proof -
  have r: "headNode l = first xs None" "tailNode l = final None xs" using assms by (simp_all add: ill_rep_def)
  show "ill_popFront l = (first xs None, snd (ill_popFront l))" "ill_popBack l = (final None xs, snd (ill_popBack l))"
    using r by (simp_all add: ill_popFront_def ill_popBack_def)
  show "ill_rep (snd (ill_popFront l)) (tl xs)"
    using assms r ill_remove_rep(1) [of l "[]" "hd xs" "tl xs"] by (cases xs) (simp_all add: ill_popFront_def)
  show "ill_rep (snd (ill_popBack l)) (butlast xs)"
    using assms r ill_remove_rep(1) [of l "butlast xs" "last xs" "[]"] by (cases xs rule: rev_cases) (simp_all add: ill_popBack_def)
qed

lemma ill_pops_untouched:
  assumes "ill_rep l xs"
  shows "untouched (set xs) l (snd (ill_popFront l))" "untouched (set xs) l (snd (ill_popBack l))"
proof -
  have r: "headNode l = first xs None" "tailNode l = final None xs" using assms by (simp_all add: ill_rep_def)
  show "untouched (set xs) l (snd (ill_popFront l))"
    using assms r ill_remove_rep(2) [of l "[]" "hd xs" "tl xs"] by (cases xs) (auto simp: ill_popFront_def untouched_def)
  show "untouched (set xs) l (snd (ill_popBack l))"
    using assms r ill_remove_rep(2) [of l "butlast xs" "last xs" "[]"] by (cases xs rule: rev_cases) (auto simp: ill_popBack_def untouched_def)
qed

section \<open>Iteration\<close>

text \<open>A loop body that may remove the node it is called on, and nothing else, from the list.\<close>

definition visiting :: "('n \<Rightarrow> bool) \<Rightarrow> ('n \<Rightarrow> 's \<Rightarrow> 's) \<Rightarrow> 'n \<Rightarrow> 'n IntrusiveLinkedList \<times> 's \<Rightarrow> 'n IntrusiveLinkedList \<times> 's" where
  "visiting keep f n ls = (if keep n then fst ls else ill_remove n (fst ls), f n (snd ls))"

lemma chain_successor: "ill_rep l (ys @ n # zs) \<Longrightarrow> successor l n = first zs None"
  by (simp add: ill_rep_def chain_append)

lemma forEach_from:
  fixes l :: "'n IntrusiveLinkedList"
  assumes "ill_rep l (ys @ zs)"
  shows "\<exists>l' it. while_option (\<lambda>(it, _). current it \<noteq> None)
       (\<lambda>(it, ls). case current it of None \<Rightarrow> (it, ls) | Some n \<Rightarrow> (let ls' = visiting keep f n ls in (advance True (fst ls') it, ls')))
       (mkIterator True l (first zs None), (l, s)) = Some (it, l', fold f zs s) \<and> ill_rep l' (ys @ filter keep zs)"
  (is "\<exists>l' it. while_option ?b ?c _ = _ \<and> _")
  using assms
proof (induction zs arbitrary: l ys s)
  case Nil
  then show ?case by (subst while_option_unfold) (simp add: mkIterator_def)
next
  case (Cons z zs)
  let ?l = "if keep z then l else ill_remove z l"
  let ?ys = "if keep z then ys @ [z] else ys"
  have s1: "successor l z = first zs None" using Cons.prems by (rule chain_successor)
  have r: "ill_rep ?l (?ys @ zs)" using Cons.prems ill_remove_rep(1) [OF Cons.prems] by simp
  have a: "advance True ?l (mkIterator True l (Some z)) = mkIterator True ?l (first zs None)"
    using s1 by (simp add: advance_def mkIterator_def link_def)
  have k: "current (mkIterator True l (Some z)) = Some z" by (simp add: mkIterator_def)
  have step: "while_option ?b ?c (mkIterator True l (first (z # zs) None), (l, s)) = while_option ?b ?c (mkIterator True ?l (first zs None), (?l, f z s))"
    unfolding a [symmetric] by (subst while_option_unfold) (simp add: visiting_def k Let_def del: if_split)
  obtain l' it where "while_option ?b ?c (mkIterator True ?l (first zs None), (?l, f z s)) = Some (it, l', fold f zs (f z s))"
    "ill_rep l' (?ys @ filter keep zs)" using Cons.IH [OF r, of "f z s"] by blast
  moreover have "?ys @ filter keep zs = ys @ filter keep (z # zs)" by simp
  ultimately show ?case unfolding step by (intro exI [of _ l'] exI [of _ it]) (simp only: fold_simps simp_thms)
qed

lemma chain_previous: "ill_rep l (ys @ n # zs) \<Longrightarrow> previous l n = final None ys"
  by (simp add: ill_rep_def chain_append)

lemma forEach_back_from:
  fixes l :: "'n IntrusiveLinkedList"
  assumes "ill_rep l (ys @ zs)"
  shows "\<exists>l' it. while_option (\<lambda>(it, _). current it \<noteq> None)
       (\<lambda>(it, ls). case current it of None \<Rightarrow> (it, ls) | Some n \<Rightarrow> (let ls' = visiting keep f n ls in (advance False (fst ls') it, ls')))
       (mkIterator False l (final None ys), (l, s)) = Some (it, l', fold f (rev ys) s) \<and> ill_rep l' (filter keep ys @ zs)"
  (is "\<exists>l' it. while_option ?b ?c _ = _ \<and> _")
  using assms
proof (induction ys arbitrary: l zs s rule: rev_induct)
  case Nil
  then show ?case by (subst while_option_unfold) (simp add: mkIterator_def)
next
  case (snoc y ys)
  let ?l = "if keep y then l else ill_remove y l"
  let ?zs = "if keep y then y # zs else zs"
  have p: "ill_rep l (ys @ y # zs)" using snoc.prems by simp
  have s1: "previous l y = final None ys" using p by (rule chain_previous)
  have r: "ill_rep ?l (ys @ ?zs)" using p ill_remove_rep(1) [OF p] by simp
  have a: "advance False ?l (mkIterator False l (Some y)) = mkIterator False ?l (final None ys)"
    using s1 by (simp add: advance_def mkIterator_def link_def)
  have k: "current (mkIterator False l (Some y)) = Some y" by (simp add: mkIterator_def)
  have step: "while_option ?b ?c (mkIterator False l (final None (ys @ [y])), (l, s)) = while_option ?b ?c (mkIterator False ?l (final None ys), (?l, f y s))"
    unfolding a [symmetric] by (subst while_option_unfold) (simp add: visiting_def k Let_def del: if_split)
  obtain l' it where "while_option ?b ?c (mkIterator False ?l (final None ys), (?l, f y s)) = Some (it, l', fold f (rev ys) (f y s))"
    "ill_rep l' (filter keep ys @ ?zs)" using snoc.IH [OF r, of "f y s"] by blast
  moreover have "filter keep ys @ ?zs = filter keep (ys @ [y]) @ zs" by simp
  moreover have "fold f (rev (ys @ [y])) s = fold f (rev ys) (f y s)" by simp
  ultimately show ?case unfolding step by (intro exI [of _ l'] exI [of _ it]) (simp only: simp_thms)
qed

text \<open>The loops of a program start at an end of the list.\<close>

lemma forEach_spec:
  assumes "ill_rep l xs"
  shows "\<exists>it l'. forEach True (visiting keep f) (l, s) = Some (it, l', fold f xs s) \<and> ill_rep l' (filter keep xs)"
    "\<exists>it l'. forEach False (visiting keep f) (l, s) = Some (it, l', fold f (rev xs) s) \<and> ill_rep l' (filter keep xs)"
proof -
  have e: "headNode l = first xs None" "tailNode l = final None xs" using assms by (simp_all add: ill_rep_def)
  show "\<exists>it l'. forEach True (visiting keep f) (l, s) = Some (it, l', fold f xs s) \<and> ill_rep l' (filter keep xs)"
    using forEach_from [of l "[]" xs keep f s] assms unfolding forEach_def fst_conv if_True e by auto
  show "\<exists>it l'. forEach False (visiting keep f) (l, s) = Some (it, l', fold f (rev xs) s) \<and> ill_rep l' (filter keep xs)"
    using forEach_back_from [of l xs "[]" keep f s] assms unfolding forEach_def fst_conv if_False e by auto
qed

section \<open>The owning list\<close>

definition ll_rep :: "'d LinkedList \<Rightarrow> nat list \<Rightarrow> 'd list \<Rightarrow> bool" where
  "ll_rep l xs ds \<longleftrightarrow> ill_rep (base l) xs \<and> dom (nodeData l) = set xs \<and> map (nodeData l) xs = map Some ds"

lemma ll_repD: "ll_rep l xs ds \<Longrightarrow> ill_rep (base l) xs \<and> distinct xs \<and> length ds = length xs \<and> dom (nodeData l) = set xs"
  by (auto simp: ll_rep_def ill_rep_def dest: map_eq_imp_length_eq)

lemma fresh_fields: "\<lbrakk>ill_rep l xs; n \<notin> set xs\<rbrakk> \<Longrightarrow> ill_rep (setNext n p (setPrevious n q l)) xs"
proof -
  assume a: "ill_rep l xs" "n \<notin> set xs"
  have "chain (setNext n p (setPrevious n q l)) None xs None = chain l None xs None" using a(2) by (intro chain_cong) auto
  then show ?thesis using a(1) by (simp add: ill_rep_def)
qed

lemma map_data_cong: "n \<notin> set xs \<Longrightarrow> map (m(n := v)) xs = map m xs"
  by auto

lemma ll_push_spec:
  assumes "ll_rep l xs ds" "nodeData l n = None"
  shows "\<exists>l'. ll_pushBack n d l = Inr l' \<and> ll_rep l' (xs @ [n]) (ds @ [d])" "ll_rep (ll_pushFront n d l) (n # xs) (d # ds)"
proof -
  have n: "n \<notin> set xs" using assms by (auto simp: ll_rep_def)
  have r: "ill_rep (setNext n None (setPrevious n None (base l))) xs" using assms(1) n by (simp add: ll_rep_def fresh_fields)
  obtain b where "ill_pushBack n (setNext n None (setPrevious n None (base l))) = Inr b" "ill_rep b (xs @ [n])" using ill_pushBack_rep [OF r n] by metis
  then show "\<exists>l'. ll_pushBack n d l = Inr l' \<and> ll_rep l' (xs @ [n]) (ds @ [d])"
    using assms(1) n by (simp add: ll_pushBack_def ll_rep_def map_data_cong)
  show "ll_rep (ll_pushFront n d l) (n # xs) (d # ds)"
    using ill_pushFront_rep(1) [OF r n] assms(1) n by (simp add: ll_pushFront_def ll_rep_def map_data_cong)
qed

lemma ll_remove_spec:
  assumes "ll_rep l (xs @ n # ys) (ds @ d # es)" "length ds = length xs"
  shows "\<exists>l'. ll_remove n l = Inr l' \<and> ll_rep l' (xs @ ys) (ds @ es)" "nodeData l n = Some d"
proof -
  have i: "ill_rep (base l) (xs @ n # ys)" and dm: "dom (nodeData l) = set (xs @ n # ys)" and m: "map (nodeData l) (xs @ n # ys) = map Some (ds @ d # es)"
    using assms(1) by (simp_all add: ll_rep_def)
  have k: "n \<notin> set xs" "n \<notin> set ys" using i by (auto simp: ill_rep_def)
  have m': "map (nodeData l) xs = map Some ds" "nodeData l n = Some d" "map (nodeData l) ys = map Some es" using m assms(2) by auto
  then show "nodeData l n = Some d" by simp
  let ?l = "l\<lparr>base := ill_remove n (base l), nodeData := (nodeData l)(n := None)\<rparr>"
  have "ll_rep ?l (xs @ ys) (ds @ es)" using ill_remove_rep(1) [OF i] dm m' k by (auto simp: ll_rep_def map_data_cong)
  then show "\<exists>l'. ll_remove n l = Inr l' \<and> ll_rep l' (xs @ ys) (ds @ es)" using m'(2) by (simp add: ll_remove_def)
qed

lemma ll_pop_spec:
  assumes "ll_rep l xs ds"
  shows "\<exists>l'. ll_popFront l = Inr (if ds = [] then None else Some (hd ds), l') \<and> ll_rep l' (tl xs) (tl ds)"
    "\<exists>l'. ll_popBack l = Inr (if ds = [] then None else Some (last ds), l') \<and> ll_rep l' (butlast xs) (butlast ds)"
proof -
  have i: "ill_rep (base l) xs" and z: "length ds = length xs" using ll_repD [OF assms] by simp_all
  have h: "headNode (base l) = first xs None" "tailNode (base l) = final None xs" using i by (simp_all add: ill_rep_def)
  show "\<exists>l'. ll_popFront l = Inr (if ds = [] then None else Some (hd ds), l') \<and> ll_rep l' (tl xs) (tl ds)"
  proof (cases xs)
    case Nil
    then show ?thesis using assms z h by (simp add: ll_popFront_def ill_popFront_def takeOut_def)
  next
    case (Cons n ys)
    then obtain d es where ds: "ds = d # es" using z by (cases ds) auto
    have "ll_rep l ([] @ n # ys) ([] @ d # es)" using assms Cons ds by simp
    from ll_remove_spec [OF this] obtain l' where "ll_remove n l = Inr l'" "ll_rep l' ys es" "nodeData l n = Some d" by auto
    then show ?thesis using Cons ds h by (simp add: ll_popFront_def ill_popFront_def takeOut_def ll_remove_def)
  qed
  show "\<exists>l'. ll_popBack l = Inr (if ds = [] then None else Some (last ds), l') \<and> ll_rep l' (butlast xs) (butlast ds)"
  proof (cases xs rule: rev_cases)
    case Nil
    then show ?thesis using assms z h by (simp add: ll_popBack_def ill_popBack_def takeOut_def)
  next
    case (snoc ys n)
    then obtain es d where ds: "ds = es @ [d]" using z by (cases ds rule: rev_cases) auto
    have "ll_rep l (ys @ n # []) (es @ d # [])" "length es = length ys" using assms snoc ds z by simp_all
    from ll_remove_spec [OF this] obtain l' where "ll_remove n l = Inr l'" "ll_rep l' ys es" "nodeData l n = Some d" by auto
    then show ?thesis using snoc ds h by (simp add: ll_popBack_def ill_popBack_def takeOut_def ll_remove_def)
  qed
qed

lemma ll_destroy_from:
  assumes "chain b p xs None"
  shows "while_option (\<lambda>(n, _). n \<noteq> None) (\<lambda>(n, nodes). case n of None \<Rightarrow> (n, nodes) | Some m \<Rightarrow> (successor b m, nodes(m := None)))
    (first xs None, nodes) = Some (None, \<lambda>m. if m \<in> set xs then None else nodes m)"
  (is "while_option ?b ?c _ = _")
  using assms
proof (induction xs arbitrary: p nodes)
  case Nil
  then show ?case by (subst while_option_unfold) simp
next
  case (Cons x xs)
  have "while_option ?b ?c (first (x # xs) None, nodes) = while_option ?b ?c (first xs None, nodes(x := None))"
    using Cons.prems by (subst while_option_unfold) simp
  moreover have "(\<lambda>m. if m \<in> set xs then None else (nodes(x := None)) m) = (\<lambda>m. if m \<in> set (x # xs) then None else nodes m)" by auto
  moreover have "chain b (Some x) xs None" using Cons.prems by simp
  note Cons.IH [OF this, of "nodes(x := None)"]
  ultimately show ?case by (simp only:)
qed

lemma ll_destroy_spec:
  assumes "ll_rep l xs ds"
  shows "ll_destroy l = Some (None, Map.empty)"
proof -
  have c: "chain (base l) None xs None" "headNode (base l) = first xs None" "dom (nodeData l) = set xs" using assms by (auto simp: ll_rep_def ill_rep_def)
  have "(\<lambda>m. if m \<in> set xs then None else nodeData l m) = Map.empty" unfolding c(3) [symmetric] by auto
  then show ?thesis using ll_destroy_from [OF c(1), of "nodeData l"] unfolding ll_destroy_def c(2) by simp
qed

section \<open>Properties\<close>

text \<open>
  C38: whatever list of nodes \<open>xs\<close> the pointers of an \<open>IntrusiveLinkedList\<close> represent, the empty one included, its
  operations are the list operations. Pushing a node that is not in the list appends it at that end. A pop returns the
  node at its end, or null for the empty list, and removes it; \<open>remove\<close> takes a node of the list out wherever it is.
  The nodes outside of the list keep their fields. The range-based loop visits each node once, in the order of the list,
  and the loop of the backward iterators in the reverse order, also when the body removes the node it is at; what the body
  keeps stays in its order.
\<close>

theorem intrusive_list_refines_list:
  assumes "ill_rep l xs" "m \<notin> set xs"
  shows "(\<exists>l'. ill_pushBack m l = Inr l' \<and> ill_rep l' (xs @ [m]) \<and> untouched (insert m (set xs)) l l') \<and>
    ill_rep (ill_pushFront m l) (m # xs) \<and> untouched (insert m (set xs)) l (ill_pushFront m l) \<and>
    fst (ill_popFront l) = (if xs = [] then None else Some (hd xs)) \<and> ill_rep (snd (ill_popFront l)) (tl xs) \<and>
    fst (ill_popBack l) = (if xs = [] then None else Some (last xs)) \<and> ill_rep (snd (ill_popBack l)) (butlast xs) \<and>
    untouched (set xs) l (snd (ill_popFront l)) \<and> untouched (set xs) l (snd (ill_popBack l)) \<and>
    (\<forall>ys n zs. xs = ys @ n # zs \<longrightarrow> ill_rep (ill_remove n l) (ys @ zs) \<and> untouched (set (ys @ zs)) l (ill_remove n l)) \<and>
    (\<exists>it l'. forEach True (visiting keep f) (l, s) = Some (it, l', fold f xs s) \<and> ill_rep l' (filter keep xs)) \<and>
    (\<exists>it l'. forEach False (visiting keep f) (l, s) = Some (it, l', fold f (rev xs) s) \<and> ill_rep l' (filter keep xs))"
proof (intro conjI allI impI)
  note p = ill_pops [OF assms(1)]
  show "\<exists>l'. ill_pushBack m l = Inr l' \<and> ill_rep l' (xs @ [m]) \<and> untouched (insert m (set xs)) l l'"
    using ill_pushBack_rep [OF assms] by metis
  show "ill_rep (ill_pushFront m l) (m # xs)" "untouched (insert m (set xs)) l (ill_pushFront m l)" using assms by (rule ill_pushFront_rep)+
  show "fst (ill_popFront l) = (if xs = [] then None else Some (hd xs))" by (subst p(1)) (cases xs; simp)
  show "fst (ill_popBack l) = (if xs = [] then None else Some (last xs))" by (subst p(3)) (simp add: final_def)
  show "ill_rep (snd (ill_popFront l)) (tl xs)" "ill_rep (snd (ill_popBack l)) (butlast xs)" by (fact p(2), fact p(4))
  show "untouched (set xs) l (snd (ill_popFront l))" "untouched (set xs) l (snd (ill_popBack l))" using ill_pops_untouched [OF assms(1)] by blast+
  show "ill_rep (ill_remove n l) (ys @ zs)" "untouched (set (ys @ zs)) l (ill_remove n l)" if "xs = ys @ n # zs" for ys n zs
    using ill_remove_rep [of l ys n zs] assms(1) that by blast+
qed (rule forEach_spec [OF assms(1)])+

definition twoNodes :: "nat IntrusiveLinkedList" where
  "twoNodes = \<lparr>headNode = Some 3, tailNode = Some 8, previous = (\<lambda>_. None)(8 := Some 3), successor = (\<lambda>_. None)(3 := Some 8)\<rparr>"

lemma twoNodes_ok: "ill_rep twoNodes [3, 8]" "(5::nat) \<notin> set [3, 8]"
  by (simp_all add: twoNodes_def ill_rep_def)

theorem intrusive_list_refines_list_witness:
  "ill_rep (ill_remove 8 twoNodes) [3] \<and> fst (ill_popBack twoNodes) = Some 8 \<and>
   (\<exists>it l'. forEach False (visiting (\<lambda>_. True) (#)) (twoNodes, []) = Some (it, l', [3, 8]) \<and> ill_rep l' [3, 8])"
proof -
  note w = intrusive_list_refines_list [OF twoNodes_ok, of "\<lambda>_. True" "(#)" "[]"]
  have "\<forall>ys n zs. [3, 8] = ys @ n # zs \<longrightarrow> ill_rep (ill_remove n twoNodes) (ys @ zs)" using w by blast
  from this [rule_format, of "[3]" 8 "[]"] have "ill_rep (ill_remove 8 twoNodes) [3]" by simp
  then show ?thesis using w by simp
qed

text \<open>
  \<open>LinkedList\<close> owns its nodes exactly: its memory is one node per element after every operation, no operation touches a
  freed node, and the destructor's loop ends with every node freed.
\<close>

lemma linked_list_owns_nodes:
  assumes "ll_rep l xs ds" "nodeData l n = None"
  shows "(\<exists>l'. ll_pushBack n d l = Inr l' \<and> ll_rep l' (xs @ [n]) (ds @ [d])) \<and> ll_rep (ll_pushFront n d l) (n # xs) (d # ds) \<and>
    (\<exists>l'. ll_popFront l = Inr (if ds = [] then None else Some (hd ds), l') \<and> ll_rep l' (tl xs) (tl ds)) \<and>
    (\<exists>l'. ll_popBack l = Inr (if ds = [] then None else Some (last ds), l') \<and> ll_rep l' (butlast xs) (butlast ds)) \<and>
    (\<forall>i<length xs. \<exists>l'. ll_remove (xs ! i) l = Inr l' \<and> ll_rep l' (take i xs @ drop (Suc i) xs) (take i ds @ drop (Suc i) ds)) \<and>
    ll_remove n l = Inl (Undefined ''use of a freed node'') \<and>
    ll_destroy l = Some (None, Map.empty)"
proof (intro conjI allI impI)
  fix i assume i: "i < length xs"
  have z: "length ds = length xs" using ll_repD [OF assms(1)] by simp
  have "ll_rep l (take i xs @ xs ! i # drop (Suc i) xs) (take i ds @ ds ! i # drop (Suc i) ds)"
    using assms(1) id_take_nth_drop [OF i] id_take_nth_drop [of i ds] i z by simp
  then show "\<exists>l'. ll_remove (xs ! i) l = Inr l' \<and> ll_rep l' (take i xs @ drop (Suc i) xs) (take i ds @ drop (Suc i) ds)"
    using i z by (intro ll_remove_spec(1)) simp_all
qed (use ll_push_spec [OF assms] ll_pop_spec [OF assms(1)] ll_destroy_spec [OF assms(1)] assms(2) in \<open>simp_all add: ll_remove_def\<close>)

end
