(* ===== verification/Size_Class.thy ===== *)
theory Size_Class
  imports Array_Slices Core_Math
begin

text \<open>
  The size classes of \<open>core/SizeClass.h\<close>: the jump table that is computed at compile time and the lookup of the class of a
  size through it, and the classes that \<open>InternalAllocator.cpp\<close> instantiates it with.
\<close>

section \<open>Definitions\<close>

text \<open>\<open>while (array[index] < (1ul << i)) index++\<close>\<close>

function skipSmaller :: "nat list \<Rightarrow> nat \<Rightarrow> nat \<Rightarrow> nat outcome" where
  "skipSmaller array bound index =
     (if index < length array then (if array ! index < bound then skipSmaller array bound (index + 1) else Inr index)
      else Inl (Undefined ''out of bounds''))"
  by pat_completeness auto
termination by (relation "measure (\<lambda>(array, _, index). length array - index)") auto

fun jumpTableFrom :: "nat list \<Rightarrow> nat \<Rightarrow> nat list \<Rightarrow> nat list outcome" where
  "jumpTableFrom array index [] = Inr []"
| "jumpTableFrom array index (i # is) =
     bindO (skipSmaller array (2 ^ i) index) (\<lambda>index'. bindO (jumpTableFrom array index' is) (\<lambda>rest. Inr (index' # rest)))"

definition makeSizeClassJumpTable :: "nat list \<Rightarrow> nat list outcome" where
  "makeSizeClassJumpTable array =
     bindO (log2floor_u64 (of_nat (last array))) (\<lambda>l. jumpTableFrom array 0 [0..<l + 1])"

definition npos :: nat where
  "npos = 2 ^ 64 - 1"

text \<open>The loop runs to the size of the jump table, not to that of the array.\<close>

function classFrom :: "nat list \<Rightarrow> nat \<Rightarrow> nat \<Rightarrow> nat \<Rightarrow> nat outcome" where
  "classFrom array tableSize sz index =
     (if index < tableSize
      then bindO (readAt array index) (\<lambda>c. if sz \<le> c then Inr index else classFrom array tableSize sz (index + 1))
      else Inr npos)"
  by pat_completeness auto
termination by (relation "measure (\<lambda>(_, tableSize, _, index). tableSize - index)") auto

definition sizeClassIndex :: "nat list \<Rightarrow> nat \<Rightarrow> nat outcome" where
  "sizeClassIndex array sz =
     bindO (makeSizeClassJumpTable array) (\<lambda>jumpTable.
       if sz = 0 then Inr 0
       else bindO (log2floor_u64 (of_nat sz)) (\<lambda>log2Size.
         if length jumpTable \<le> log2Size then Inr npos
         else bindO (readAt jumpTable log2Size) (classFrom array (length jumpTable) sz)))"

definition slabSizeClasses :: "nat list" where
  "slabSizeClasses = [8, 16, 32, 64, 96, 128, 256, 512]"

definition slabAllocatorBufferSizes :: "nat list" where
  "slabAllocatorBufferSizes = [1024, 1024, 1024, 2048, 2048, 2048, 2048, 8192]"

declare skipSmaller.simps [simp del] classFrom.simps [simp del]

section \<open>The jump table\<close>

text \<open>The first class of at least \<open>b\<close>.\<close>

definition firstFit :: "nat list \<Rightarrow> nat \<Rightarrow> nat \<Rightarrow> bool" where
  "firstFit array b i \<longleftrightarrow> i < length array \<and> b \<le> array ! i \<and> (\<forall>j<i. array ! j < b)"

lemma firstFit_unique: "\<lbrakk>firstFit array b i; firstFit array b j\<rbrakk> \<Longrightarrow> i = j"
  by (metis firstFit_def linorder_neqE_nat not_less)

lemma skipSmaller_spec:
  assumes "firstFit array b k" "index \<le> k"
  shows "skipSmaller array b index = Inr k"
  using assms(2)
proof (induction "k - index" arbitrary: index)
  case 0
  then show ?case using assms(1) by (subst skipSmaller.simps) (simp add: firstFit_def)
next
  case (Suc d)
  then have "index < k" by simp
  then show ?case using Suc assms(1) by (subst skipSmaller.simps) (simp add: firstFit_def)
qed

lemma firstFit_exists:
  assumes "array \<noteq> []" "b \<le> last array"
  obtains k where "firstFit array b k"
proof -
  have ex: "\<exists>i. i < length array \<and> b \<le> array ! i" using assms by (intro exI [of _ "length array - 1"]) (simp add: last_conv_nth)
  let ?k = "LEAST i. i < length array \<and> b \<le> array ! i"
  have k: "?k < length array \<and> b \<le> array ! ?k" using ex by (rule LeastI_ex)
  have "array ! j < b" if "j < ?k" for j using not_less_Least [OF that] that k by auto
  then show ?thesis using that k by (auto simp: firstFit_def)
qed

lemma firstFit_mono:
  assumes "firstFit array b k" "firstFit array b' k'" "b \<le> b'"
  shows "k \<le> k'"
proof (rule ccontr)
  assume "\<not> k \<le> k'"
  then have "array ! k' < b" using assms(1) by (simp add: firstFit_def)
  moreover have "b' \<le> array ! k'" using assms(2) by (simp add: firstFit_def)
  ultimately show False using assms(3) by simp
qed

lemma jumpTableFrom_spec:
  assumes "array \<noteq> []" "2 ^ (m - 1) \<le> last array" "i \<le> m" "\<And>k. firstFit array (2 ^ i) k \<Longrightarrow> index \<le> k" "0 < m"
  shows "\<exists>t. jumpTableFrom array index [i..<m] = Inr t \<and> length t = m - i \<and> (\<forall>j<m - i. firstFit array (2 ^ (i + j)) (t ! j))"
  using assms(3,4)
proof (induction "m - i" arbitrary: i index)
  case (Suc d)
  then have im: "i < m" by simp
  have le: "(2::nat) ^ i \<le> last array" using im by (intro order_trans [OF _ assms(2)] power_increasing) simp_all
  obtain k where k: "firstFit array (2 ^ i) k" using firstFit_exists [OF assms(1) le] by blast
  have s: "skipSmaller array (2 ^ i) index = Inr k" using skipSmaller_spec [OF k] Suc.prems(2) [OF k] by simp
  have mono: "k \<le> k'" if "firstFit array (2 ^ Suc i) k'" for k' using firstFit_mono [OF k that] by simp
  have d: "d = m - Suc i" "Suc i \<le> m" using Suc.hyps(2) im by simp_all
  obtain t where t: "jumpTableFrom array k [Suc i..<m] = Inr t" "length t = m - Suc i" "\<forall>j<m - Suc i. firstFit array (2 ^ (Suc i + j)) (t ! j)"
    using Suc.hyps(1) [OF d mono] by blast
  have "jumpTableFrom array index [i..<m] = Inr (k # t)" using im s t(1) by (simp add: upt_conv_Cons)
  moreover have "\<forall>j<m - i. firstFit array (2 ^ (i + j)) ((k # t) ! j)"
  proof (intro allI impI)
    fix j assume "j < m - i"
    then show "firstFit array (2 ^ (i + j)) ((k # t) ! j)" using k t(3) by (cases j) auto
  qed
  ultimately show ?case using t(2) im by simp
qed simp

lemma classFrom_spec:
  assumes "firstFit array sz k" "index \<le> k" "k < tableSize" "\<forall>j<k. j < length array"
  shows "classFrom array tableSize sz index = Inr k"
  using assms(2)
proof (induction "k - index" arbitrary: index)
  case 0
  then show ?case using assms(1,3) by (subst classFrom.simps) (simp add: firstFit_def)
next
  case (Suc d)
  then have "index < k" by simp
  moreover then have "index < length array" using assms(1) by (simp add: firstFit_def)
  ultimately show ?case using Suc assms(1,3) by (subst classFrom.simps) (simp add: firstFit_def not_le)
qed

lemma sizeClassIndex_spec:
  assumes "array \<noteq> []" "0 < last array" "last array < 2 ^ 64" "0 < sz" "sz < 2 ^ 64"
  obtains t l where "makeSizeClassJumpTable array = Inr t" "2 ^ (length t - 1) \<le> last array" "last array < 2 ^ length t" "0 < length t"
    "2 ^ l \<le> sz" "sz < 2 ^ Suc l"
    "sizeClassIndex array sz = (if length t \<le> l then Inr npos else classFrom array (length t) sz (t ! l))"
    "\<forall>j<length t. firstFit array (2 ^ j) (t ! j)"
proof -
  have u: "unat (of_nat (last array) :: u64) = last array" "unat (of_nat sz :: u64) = sz"
    using assms(3,5) by (simp_all add: unat_of_nat)
  have n0: "(of_nat (last array) :: u64) \<noteq> 0" "(of_nat sz :: u64) \<noteq> 0" using u assms(2,4) by (metis unat_0 less_irrefl)+
  obtain m where m: "log2floor_u64 (of_nat (last array)) = Inr m" using log2floor_u64_ok [OF n0(1)] by blast
  obtain l where l: "log2floor_u64 (of_nat sz) = Inr l" using log2floor_u64_ok [OF n0(2)] by blast
  have mb: "2 ^ m \<le> last array" "last array < 2 ^ Suc m" "2 ^ l \<le> sz" "sz < 2 ^ Suc l"
    using log2floor_u64_spec [OF m] log2floor_u64_spec [OF l] u by simp_all
  obtain t where t: "jumpTableFrom array 0 [0..<Suc m] = Inr t" "length t = Suc m" "\<forall>j<Suc m. firstFit array (2 ^ j) (t ! j)"
    using jumpTableFrom_spec [of array "Suc m" 0 0] assms(1) mb(1) by auto
  have j: "makeSizeClassJumpTable array = Inr t" using m t(1) by (simp add: makeSizeClassJumpTable_def)
  have "sizeClassIndex array sz = (if length t \<le> l then Inr npos else classFrom array (length t) sz (t ! l))"
    using j l assms(4) by (simp add: sizeClassIndex_def)
  then show ?thesis using that [OF j] t mb by simp
qed


text \<open>Beyond the end of the jump table no class is looked at; before it, one past the end of the array may be.\<close>

lemma classFrom_misses:
  assumes "\<forall>j<tableSize. j < length array \<and> array ! j < sz"
  shows "classFrom array tableSize sz index = Inr npos"
proof (induction "tableSize - index" arbitrary: index)
  case 0
  then show ?case by (subst classFrom.simps) simp
next
  case (Suc d)
  then have "index < tableSize" by simp
  moreover then have "index < length array" "\<not> sz \<le> array ! index" using assms by (auto simp: not_le)
  ultimately show ?case using Suc by (subst classFrom.simps) simp
qed

lemma classFrom_overruns:
  assumes "\<forall>c\<in>set array. c < sz" "length array < tableSize" "index \<le> length array"
  shows "classFrom array tableSize sz index = Inl (Undefined ''out of bounds'')"
  using assms(3)
proof (induction "length array - index" arbitrary: index)
  case 0
  then show ?case using assms(2) by (subst classFrom.simps) (simp add: readAt_def)
next
  case (Suc d)
  then have i: "index < length array" by simp
  then show ?case using Suc assms(1,2) by (subst classFrom.simps) (simp add: not_le)
qed

section \<open>Properties\<close>

text \<open>
  C39: for size classes as the internal allocator has them, no more of them than binary digits in the largest,
  \<open>sizeClassIndex\<close> returns the first class that holds the size, for every size up to the largest class.
\<close>

theorem size_class_exact:
  assumes "array \<noteq> []" "last array < 2 ^ 64" "2 ^ (length array - 1) \<le> last array" "0 < sz" "sz \<le> last array"
  shows "\<exists>k. sizeClassIndex array sz = Inr k \<and> firstFit array sz k"
proof -
  have p: "0 < last array" "sz < 2 ^ 64" using assms(2,4,5) by simp_all
  obtain t l where t: "last array < 2 ^ length t" "2 ^ l \<le> sz"
    "sizeClassIndex array sz = (if length t \<le> l then Inr npos else classFrom array (length t) sz (t ! l))" "\<forall>j<length t. firstFit array (2 ^ j) (t ! j)"
    using sizeClassIndex_spec [OF assms(1) p(1) assms(2,4) p(2)] by metis
  obtain k where k: "firstFit array sz k" using firstFit_exists [OF assms(1,5)] by blast
  have "(2::nat) ^ l < 2 ^ length t" using t(1,2) assms(5) by linarith
  then have l: "l < length t" by simp
  have "(2::nat) ^ (length array - 1) < 2 ^ length t" using t(1) assms(3) by linarith
  then have n: "length array \<le> length t" by (simp add: Suc_leI)
  have "t ! l \<le> k" using firstFit_mono [OF _ k t(2)] t(4) l by blast
  then have "classFrom array (length t) sz (t ! l) = Inr k" using k n by (intro classFrom_spec) (auto simp: firstFit_def)
  then show ?thesis using t(3) l k by auto
qed

theorem size_class_exact_witness:
  "\<exists>k. sizeClassIndex slabSizeClasses 65 = Inr k \<and> firstFit slabSizeClasses 65 k"
  using size_class_exact [of slabSizeClasses 65] by (simp add: slabSizeClasses_def)

text \<open>
  The search loop of \<open>sizeClassIndex\<close> is bounded by the size of the jump table. With more classes than that, a size whose class
  lies behind is reported as too large although a class holds it; with fewer, a size above the largest class but with
  as many binary digits reads past the end of the array.
\<close>

lemma size_class_loop_bound:
  assumes "array \<noteq> []" "last array < 2 ^ 64" "0 < sz" "sz < 2 ^ 64" "0 < last array"
  shows "(firstFit array sz k \<and> last array < 2 ^ k \<longrightarrow> sizeClassIndex array sz = Inr npos) \<and>
    ((\<forall>c\<in>set array. c < sz) \<and> sz < 2 ^ n \<and> 2 ^ (n - 1) \<le> last array \<and> length array < n \<longrightarrow>
       sizeClassIndex array sz = Inl (Undefined ''out of bounds''))"
proof (intro conjI impI)
  obtain t l where t: "2 ^ (length t - 1) \<le> last array" "last array < 2 ^ length t" "0 < length t" "2 ^ l \<le> sz" "sz < 2 ^ Suc l"
    "sizeClassIndex array sz = (if length t \<le> l then Inr npos else classFrom array (length t) sz (t ! l))" "\<forall>j<length t. firstFit array (2 ^ j) (t ! j)"
    using sizeClassIndex_spec [OF assms(1,5,2,3,4)] by metis
  show "sizeClassIndex array sz = Inr npos" if k: "firstFit array sz k \<and> last array < 2 ^ k"
  proof -
    have "(2::nat) ^ (length t - 1) < 2 ^ k" using t(1) k by linarith
    then have "length t \<le> k" using t(3) by simp
    then have "\<forall>j<length t. j < length array \<and> array ! j < sz" using k by (auto simp: firstFit_def)
    then show ?thesis using t(6) classFrom_misses by simp
  qed
  show "sizeClassIndex array sz = Inl (Undefined ''out of bounds'')"
    if h: "(\<forall>c\<in>set array. c < sz) \<and> sz < 2 ^ n \<and> 2 ^ (n - 1) \<le> last array \<and> length array < n"
  proof -
    have "(2::nat) ^ (n - 1) < 2 ^ length t" using t(2) h by linarith
    then have n: "n \<le> length t" by simp
    have "(2::nat) ^ l < 2 ^ n" using t(4) h by linarith
    then have l: "l < length t" using n by simp
    have "t ! l \<le> length array" using t(7) l by (auto simp: firstFit_def)
    then have "classFrom array (length t) sz (t ! l) = Inl (Undefined ''out of bounds'')" using h n by (intro classFrom_overruns) auto
    then show ?thesis using t(6) l by simp
  qed
qed

end
