(* ===== verification/Frequency_Data.thy ===== *)
theory Frequency_Data
  imports Core_Math
begin

text \<open>
  \<open>FrequencyData\<close> of \<open>core/FrequencyData.h\<close>: a clock's frequency and period in 64.64 fixed point, and the conversions between
  nanoseconds and ticks. Values are natural numbers below the width of their type, with the wrap-around written out.
\<close>

section \<open>Definitions\<close>

text \<open>The default constructor sets the frequency only; the period is then indeterminate.\<close>

record FrequencyData =
  freq :: nat
  period :: "nat option"

definition freq_default :: FrequencyData where
  "freq_default = \<lparr>freq = 0, period = None\<rparr>"

definition mkFrequency :: "nat \<Rightarrow> FrequencyData outcome" where
  "mkFrequency m =
     (if m div 2 = 0 then Inl (Undefined ''division by zero'') else Inr \<lparr>freq = m, period = Some (2 ^ 127 div (m div 2))\<rparr>)"

definition populated :: "FrequencyData \<Rightarrow> bool" where
  "populated f \<longleftrightarrow> freq f \<noteq> 0"

definition nanosToTicks :: "nat \<Rightarrow> FrequencyData \<Rightarrow> nat" where
  "nanosToTicks ns f = (ns * freq f mod 2 ^ 128) div 2 ^ 64 mod 2 ^ 64"

definition ticksToNanos :: "nat \<Rightarrow> FrequencyData \<Rightarrow> nat outcome" where
  "ticksToNanos ticks f =
     (case period f of None \<Rightarrow> Inl (Undefined ''indeterminate value'') | Some p \<Rightarrow> Inr ((ticks * p mod 2 ^ 128) div 2 ^ 64 mod 2 ^ 64))"

definition fromHz :: "nat \<Rightarrow> FrequencyData outcome" where
  "fromHz hz = mkFrequency ((hz * 2 ^ 64 mod 2 ^ 128) div 1000000000)"

definition fromKHz :: "nat \<Rightarrow> FrequencyData outcome" where
  "fromKHz khz = mkFrequency ((khz * 2 ^ 64 mod 2 ^ 128) div 1000000)"

definition fromMHz :: "nat \<Rightarrow> FrequencyData outcome" where
  "fromMHz mhz = mkFrequency ((mhz * 2 ^ 64 mod 2 ^ 128) div 1000)"

definition fromGHz :: "nat \<Rightarrow> FrequencyData outcome" where
  "fromGHz ghz = mkFrequency (ghz * 2 ^ 64 mod 2 ^ 128)"

definition divided :: "nat \<Rightarrow> nat \<Rightarrow> FrequencyData outcome" where
  "divided num denom = (if denom = 0 then Inl (Undefined ''division by zero'') else mkFrequency (num div denom))"

definition fromPeriodFs :: "nat \<Rightarrow> FrequencyData outcome" where
  "fromPeriodFs fs = divided (1000000 * 2 ^ 64) fs"

definition fromPeriodNs :: "nat \<Rightarrow> FrequencyData outcome" where
  "fromPeriodNs ns = divided (2 ^ 64) ns"

definition fromPeriodUs :: "nat \<Rightarrow> FrequencyData outcome" where
  "fromPeriodUs us = fromPeriodNs (us * 1000 mod 2 ^ 64)"

definition fromPeriodMs :: "nat \<Rightarrow> FrequencyData outcome" where
  "fromPeriodMs ms = fromPeriodNs (ms * 1000000 mod 2 ^ 64)"

definition fromPeriodSeconds :: "nat \<Rightarrow> FrequencyData outcome" where
  "fromPeriodSeconds s = fromPeriodNs (s * 1000000000 mod 2 ^ 64)"

definition scaledFrequency :: "nat \<Rightarrow> nat \<Rightarrow> FrequencyData \<Rightarrow> FrequencyData outcome" where
  "scaledFrequency num denom f =
     bindO (log2floor_u64 (of_nat num)) (\<lambda>a. bindO (log2floor_u128 (of_nat (freq f))) (\<lambda>b.
       if a + b < 126 then divided (freq f * num mod 2 ^ 128) denom else Inl (Assertion ''Calibration might overflow'')))"

text \<open>What is printed: strings and decimal numbers.\<close>

datatype token = Text string | Number nat

definition padding :: "nat \<Rightarrow> token list" where
  "padding frac = (if frac < 100 then [Text ''0''] else []) @ (if frac < 10 then [Text ''0''] else [])"

definition printed :: "FrequencyData \<Rightarrow> token list" where
  "printed f =
     (if \<not> populated f then [Text ''FrequencyData{uncalibrated}'']
      else let hz = (freq f * 1000000000 mod 2 ^ 128) div 2 ^ 64 mod 2 ^ 64 in
        if 1000000000 \<le> hz then
          (let frac = hz mod 1000000000 div 1000000 in [Number (hz div 1000000000), Text ''.''] @ padding frac @ [Number frac, Text '' GHz''])
        else if 1000000 \<le> hz then
          (let frac = hz mod 1000000 div 1000 in [Number (hz div 1000000), Text ''.''] @ padding frac @ [Number frac, Text '' MHz''])
        else if 1000 \<le> hz then
          (let frac = hz mod 1000 in [Number (hz div 1000), Text ''.''] @ padding frac @ [Number frac, Text '' KHz''])
        else [Number hz, Text '' Hz''])"

section \<open>Accuracy\<close>

lemma div_mult_le': "(a div b) * b \<le> (a::nat)"
  by (simp add: mult.commute)

lemma lt_Suc_div: "0 < b \<Longrightarrow> a < (a div b + 1) * (b::nat)"
  using dividend_less_div_times [of b a] by (simp add: algebra_simps)

text \<open>
  A product with a rounded-down fixed-point factor \<open>F = \<lfloor>h * D / q\<rfloor>\<close>: \<open>\<lfloor>x * F / D\<rfloor>\<close> is \<open>\<lfloor>x * h / q\<rfloor>\<close> or one less, for \<open>x \<le> D\<close>.
\<close>

lemma fixed_point_error:
  fixes x h q D :: nat
  assumes "0 < q" "0 < D" "x \<le> D"
  shows "x * (h * D div q) div D \<le> x * h div q" "x * h div q \<le> x * (h * D div q) div D + 1"
proof -
  define F where "F = h * D div q"
  have F: "F * q \<le> h * D" "h * D < (F + 1) * q" unfolding F_def using div_mult_le' lt_Suc_div [OF assms(1)] by simp_all
  have "x * F div D * D * q \<le> x * F * q" using div_mult_le' [of "x * F" D] by simp
  also have "\<dots> \<le> x * (h * D)" using F(1) by (simp add: mult.assoc mult_le_mono2)
  finally have "(x * F div D * q) * D \<le> (x * h) * D" by (simp add: algebra_simps)
  then have "x * F div D * q \<le> x * h" using assms(2) by simp
  then show "x * (h * D div q) div D \<le> x * h div q" using assms(1) unfolding F_def [symmetric] by (simp add: less_eq_div_iff_mult_less_eq)
  define r where "r = x * F div D"
  have "x * F < (r + 1) * D" unfolding r_def using lt_Suc_div [OF assms(2)] .
  then have "x * F + 1 \<le> (r + 1) * D" by simp
  have "x * (h * D) \<le> x * ((F + 1) * q)" using F(2) by simp
  also have "\<dots> = (x * F + x) * q" by (simp add: algebra_simps)
  also have "\<dots> < ((r + 1) * D + D) * q" using \<open>x * F < (r + 1) * D\<close> assms(1,3) by (simp add: add_less_le_mono)
  also have "\<dots> = ((r + 2) * q) * D" by (simp add: algebra_simps)
  finally have "(x * h) * D < ((r + 2) * q) * D" by (simp add: algebra_simps)
  then have "x * h < (r + 2) * q" using assms(2) by simp
  then have "x * h div q < r + 2" using assms(1) by (simp add: div_less_iff_less_mult)
  then show "x * h div q \<le> x * (h * D div q) div D + 1" unfolding r_def F_def by simp
qed

lemma mkFrequency_ok: "2 \<le> m \<Longrightarrow> mkFrequency m = Inr \<lparr>freq = m, period = Some (2 ^ 127 div (m div 2))\<rparr>"
  by (auto simp: mkFrequency_def)

lemma fromHz_ok:
  assumes "0 < hz" "hz < 2 ^ 64"
  shows "fromHz hz = Inr \<lparr>freq = hz * 2 ^ 64 div 1000000000, period = Some (2 ^ 127 div (hz * 2 ^ 64 div 1000000000 div 2))\<rparr>"
proof -
  have w: "hz * 2 ^ 64 mod 2 ^ 128 = hz * 2 ^ 64" using assms(2) by simp
  have "2 * 1000000000 \<le> hz * 2 ^ 64" using assms(1) by simp
  then have "2 \<le> hz * 2 ^ 64 div 1000000000" by (simp add: less_eq_div_iff_mult_less_eq)
  then show ?thesis unfolding fromHz_def w by (rule mkFrequency_ok)
qed

section \<open>Properties\<close>

text \<open>
  C40: for a clock given in Hertz, \<open>nanosToTicks\<close> is the exact number of ticks in the time, rounded down, or one less, as long
  as that number fits 64 bits: the fixed-point frequency costs at most one tick over the whole range of times.
\<close>

theorem nanos_to_ticks_error:
  assumes "0 < hz" "hz < 2 ^ 64" "ns < 2 ^ 64" "ns * hz div 1000000000 < 2 ^ 64 - 1"
  shows "\<exists>f. fromHz hz = Inr f \<and> nanosToTicks ns f \<le> ns * hz div 1000000000 \<and> ns * hz div 1000000000 \<le> nanosToTicks ns f + 1"
proof -
  let ?F = "hz * 2 ^ 64 div 1000000000"
  have e: "ns * ?F div 2 ^ 64 \<le> ns * hz div 1000000000" "ns * hz div 1000000000 \<le> ns * ?F div 2 ^ 64 + 1"
    using assms(3) by (intro fixed_point_error; simp)+
  have b: "ns * ?F div 2 ^ 64 < 2 ^ 64" using e(1) assms(4) by linarith
  then have "ns * ?F < 2 ^ 64 * 2 ^ 64" by (simp add: div_less_iff_less_mult)
  then have w: "ns * ?F mod 2 ^ 128 = ns * ?F" by simp
  have "nanosToTicks ns \<lparr>freq = ?F, period = p\<rparr> = ns * ?F div 2 ^ 64" for p
    unfolding nanosToTicks_def FrequencyData.simps w using b by (rule mod_less)
  then show ?thesis using fromHz_ok [OF assms(1,2)] e by auto
qed

theorem nanos_to_ticks_error_witness:
  "\<exists>f. fromHz 1193182 = Inr f \<and> nanosToTicks 1000000 f \<le> 1193 \<and> 1193 \<le> nanosToTicks 1000000 f + 1"
  using nanos_to_ticks_error [of 1193182 1000000] by simp

text \<open>A clock of 0 Hertz and one of a period above \<open>2 ^ 63\<close> nanoseconds divide by zero in the constructor.\<close>

lemma frequency_too_small:
  "fromHz 0 = Inl (Undefined ''division by zero'')" "2 ^ 63 < ns \<Longrightarrow> fromPeriodNs ns = Inl (Undefined ''division by zero'')"
proof -
  show "fromHz 0 = Inl (Undefined ''division by zero'')" by (simp add: fromHz_def mkFrequency_def)
  assume "2 ^ 63 < ns"
  then have "2 ^ 64 div ns < 2" by (simp add: div_less_iff_less_mult)
  then show "fromPeriodNs ns = Inl (Undefined ''division by zero'')" by (auto simp: fromPeriodNs_def divided_def mkFrequency_def)
qed

end
