(* ===== verification/Core_Text.thy ===== *)
theory Core_Text
  imports Array_Slices "HOL-Library.Sublist"
begin

text \<open>
  The string helpers of \<open>core/str.h\<close> and \<open>str.cpp\<close>: decimal and other representations of integers, padded ones, and the prefix test. A
  character buffer is a list; \<open>itoa\<close> appends, \<open>paddedItoa\<close> writes into a buffer of the given length and its terminator.
\<close>

section \<open>Definitions\<close>

definition digits :: string where
  "digits = ''0123456789abcdefghijklmnopqrstuvwxyz''"

text \<open>The digit loop, least significant digit first. In base 1 it does not end, in base 0 it divides by zero.\<close>

function digitLoop :: "nat \<Rightarrow> nat \<Rightarrow> string outcome" where
  "digitLoop b v =
     (if v = 0 then Inr []
      else if b = 0 then Inl (Undefined ''division by zero'')
      else if b = 1 then Inl Diverges
      else bindO (readAt digits (v mod b)) (\<lambda>c. bindO (digitLoop b (v div b)) (\<lambda>cs. Inr (c # cs))))"
  by pat_completeness auto
termination by (relation "measure snd") (auto intro: div_less_dividend)

declare digitLoop.simps [simp del]

text \<open>The exchange loop that reverses the first \<open>len\<close> characters.\<close>

function reverseFrom :: "nat \<Rightarrow> nat \<Rightarrow> 'a list \<Rightarrow> 'a list outcome" where
  "reverseFrom i len s = (if i < len div 2 then bindO (swap s i (len - i - 1)) (reverseFrom (i + 1) len) else Inr s)"
  by pat_completeness auto
termination by (relation "measure (\<lambda>(i, len, _). len div 2 - i)") auto

declare reverseFrom.simps [simp del]

text \<open>
  \<open>minimum\<close> is the least value of the type, negative for a signed one: its negation overflows. The result is the text and
  the returned length, which does not count the sign.
\<close>

definition itoa :: "int \<Rightarrow> int \<Rightarrow> nat \<Rightarrow> (string \<times> nat) outcome" where
  "itoa minimum value b =
     (if value = 0 then Inr (''0'', 1)
      else if value < 0 \<and> value = minimum then Inl (Undefined ''signed overflow'')
      else bindO (digitLoop b (nat \<bar>value\<bar>)) (\<lambda>cs.
           bindO (reverseFrom 0 (length cs) cs) (\<lambda>ds.
             Inr ((if value < 0 then ''-'' else []) @ ds, length ds))))"

text \<open>Unsigned values; the buffer has \<open>length\<close> characters and the terminator, and more digits than that overrun it.\<close>

definition paddedItoa :: "nat \<Rightarrow> nat \<Rightarrow> nat \<Rightarrow> string outcome" where
  "paddedItoa value b len =
     (if value = 0 then Inr (replicate len (CHR ''0''))
      else bindO (digitLoop b value) (\<lambda>cs.
        if len < length cs then Inl (Undefined ''out of bounds'')
        else reverseFrom 0 len (cs @ replicate (len - length cs) (CHR ''0''))))"

text \<open>C strings without their terminator: at its end \<open>*str\<close> is 0 and differs from the character of the prefix.\<close>

fun startsWith :: "string \<Rightarrow> string \<Rightarrow> bool" where
  "startsWith str [] = True"
| "startsWith [] (p # ps) = False"
| "startsWith (c # str) (p # ps) = (if c \<noteq> p then False else startsWith str ps)"

section \<open>What a text denotes\<close>

definition digitValue :: "char \<Rightarrow> nat" where
  "digitValue c = length (takeWhile (\<lambda>x. x \<noteq> c) digits)"

definition textValue :: "nat \<Rightarrow> string \<Rightarrow> nat" where
  "textValue b s = foldl (\<lambda>n c. n * b + digitValue c) 0 s"

lemma length_digits [simp]: "length digits = 36"
  by (simp add: digits_def)

lemma digitValue_nth:
  assumes "d < 36"
  shows "digitValue (digits ! d) = d"
proof -
  have "distinct digits" by (simp add: digits_def)
  then have "\<forall>x\<in>set (take d digits). x \<noteq> digits ! d" using assms by (auto simp: in_set_conv_nth nth_eq_iff_index_eq)
  then have "takeWhile (\<lambda>x. x \<noteq> digits ! d) digits = take d digits"
    using assms by (intro takeWhile_eq_take_P_nth) (auto simp: nth_eq_iff_index_eq \<open>distinct digits\<close>)
  then show ?thesis using assms by (simp add: digitValue_def)
qed

lemma digitValue_zero: "digitValue (CHR ''0'') = 0"
  by (simp add: digitValue_def digits_def)

lemma reverseFrom_middle:
  assumes "length A = length B"
  shows "reverseFrom (length A) (length A + length m + length B) (A @ m @ B) = Inr (A @ rev m @ B)"
  using assms
proof (induction "length m" arbitrary: A m B rule: less_induct)
  case less
  show ?case
  proof (cases "length m \<le> 1")
    case True
    then have "rev m = m" by (cases m) auto
    moreover have "\<not> length A < (length A + length m + length B) div 2" using True less.prems by simp
    ultimately show ?thesis by (subst reverseFrom.simps) simp
  next
    case False
    then obtain x m' y where m: "m = x # m' @ [y]" by (cases m; cases "tl m" rule: rev_cases) auto
    have sw: "swap (A @ m @ B) (length A) (length A + length m + length B - length A - 1) = Inr ((A @ [y]) @ m' @ x # B)"
      using less.prems by (simp add: m nth_append list_update_append)
    have "reverseFrom (length (A @ [y])) (length (A @ [y]) + length m' + length (x # B)) ((A @ [y]) @ m' @ x # B) = Inr ((A @ [y]) @ rev m' @ x # B)"
      using less.prems m by (intro less.hyps) simp_all
    moreover have "length A < (length A + length m + length B) div 2" using less.prems m by simp
    moreover have "length A + length m + length B = length (A @ [y]) + length m' + length (x # B)" using m by simp
    ultimately show ?thesis using sw by (subst reverseFrom.simps) (simp add: m)
  qed
qed

lemma reverseFrom_all: "reverseFrom 0 (length s) s = Inr (rev s)"
  using reverseFrom_middle [of "[]" "[]" s] by simp

text \<open>The digit loop writes the number backwards, without a leading zero.\<close>

lemma digitLoop_spec:
  assumes "2 \<le> b" "b \<le> 36"
  shows "\<exists>cs. digitLoop b v = Inr cs \<and> textValue b (rev cs) = v \<and> (v \<noteq> 0 \<longrightarrow> cs \<noteq> [] \<and> last cs \<noteq> CHR ''0'') \<and>
    (\<forall>n. v < b ^ n \<longrightarrow> length cs \<le> n)"
proof (induction v rule: less_induct)
  case (less v)
  show ?case
  proof (cases "v = 0")
    case True
    then show ?thesis by (subst digitLoop.simps) (simp add: textValue_def)
  next
    case False
    then have "v div b < v" using assms(1) by (intro div_less_dividend) simp_all
    then obtain cs where cs: "digitLoop b (v div b) = Inr cs" "textValue b (rev cs) = v div b"
      "v div b \<noteq> 0 \<longrightarrow> cs \<noteq> [] \<and> last cs \<noteq> CHR ''0''" "\<forall>n. v div b < b ^ n \<longrightarrow> length cs \<le> n" using less by blast
    let ?c = "digits ! (v mod b)"
    have m: "v mod b < 36" using assms by (meson mod_less_divisor less_le_trans zero_less_numeral)
    have "digitLoop b v = Inr (?c # cs)" using False assms cs(1) m by (subst digitLoop.simps) simp
    moreover have "textValue b (rev (?c # cs)) = v" using cs(2) digitValue_nth [OF m] by (simp add: textValue_def)
    moreover have "last (?c # cs) \<noteq> CHR ''0''"
    proof (cases "v div b = 0")
      case True
      then have "cs = []" using cs(1) by (subst (asm) digitLoop.simps) simp
      moreover have "v mod b \<noteq> 0" using True False by (metis div_mult_mod_eq add_0 mult_0)
      then have "digitValue ?c \<noteq> 0" using digitValue_nth [OF m] by simp
      then have "?c \<noteq> CHR ''0''" using digitValue_zero by metis
      ultimately show ?thesis by simp
    qed (use cs(3) in simp)
    moreover have "length (?c # cs) \<le> n" if n: "v < b ^ n" for n
    proof (cases n)
      case (Suc k)
      then have "v div b < b ^ k" using n assms(1) by (simp add: div_less_iff_less_mult mult.commute)
      then show ?thesis using cs(4) Suc by simp
    qed (use n False in simp)
    ultimately show ?thesis by blast
  qed
qed

lemma textValue_zeros: "textValue b (replicate k (CHR ''0'') @ s) = textValue b s"
  by (induction k) (simp_all add: textValue_def digitValue_zero)

section \<open>Properties\<close>

text \<open>
  \<open>itoa\<close> of any value but the least one of a signed type ends in every base from 2 to 36 and writes a text that denotes the
  value: a sign exactly for a negative value, no leading zero, and the returned length is that of the digits.
\<close>

lemma itoa_denotes:
  assumes "2 \<le> b" "b \<le> 36" "value < 0 \<longrightarrow> value \<noteq> minimum"
  shows "\<exists>ds. itoa minimum value b = Inr ((if value < 0 then ''-'' else []) @ ds, length ds) \<and> textValue b ds = nat \<bar>value\<bar> \<and>
    ds \<noteq> [] \<and> (hd ds = CHR ''0'' \<longleftrightarrow> value = 0)"
proof (cases "value = 0")
  case True
  then show ?thesis by (auto simp: itoa_def textValue_def digitValue_zero)
next
  case False
  obtain cs where cs: "digitLoop b (nat \<bar>value\<bar>) = Inr cs" "textValue b (rev cs) = nat \<bar>value\<bar>" "nat \<bar>value\<bar> \<noteq> 0 \<longrightarrow> cs \<noteq> [] \<and> last cs \<noteq> CHR ''0''"
    using digitLoop_spec [OF assms(1,2)] by blast
  have "cs \<noteq> []" "hd (rev cs) \<noteq> CHR ''0''" using cs(3) False by (simp_all add: hd_rev)
  then show ?thesis using cs(1,2) False assms(3) reverseFrom_all [of cs] by (intro exI [of _ "rev cs"]) (auto simp: itoa_def)
qed

text \<open>The padded text has the given length and denotes the value if that fits; otherwise the buffer is overrun.\<close>

lemma paddedItoa_denotes:
  assumes "2 \<le> b" "b \<le> 36" "value < b ^ len"
  shows "\<exists>s. paddedItoa value b len = Inr s \<and> length s = len \<and> textValue b s = value"
proof (cases "value = 0")
  case True
  then show ?thesis using textValue_zeros [of b len "[]"] by (auto simp: paddedItoa_def textValue_def)
next
  case False
  obtain cs where cs: "digitLoop b value = Inr cs" "textValue b (rev cs) = value" "length cs \<le> len"
    using digitLoop_spec [OF assms(1,2), of "value"] assms(3) by blast
  let ?p = "cs @ replicate (len - length cs) (CHR ''0'')"
  have "length ?p = len" using cs(3) by simp
  then have "reverseFrom 0 len ?p = Inr (rev ?p)" using reverseFrom_all [of ?p] by simp
  moreover have "textValue b (rev ?p) = value" using cs(2) by (simp add: textValue_zeros)
  ultimately show ?thesis using cs(1,3) False by (auto simp: paddedItoa_def)
qed

lemma startsWith_iff: "startsWith s p \<longleftrightarrow> prefix p s"
  by (induction s p rule: startsWith.induct) auto

end
