(* ===== verification/Tree_Heap.thy ===== *)
theory Tree_Heap
  imports Sorting
begin

text \<open>
  The intrusive trees of \<open>core/ds/Trees.h\<close> for nodes with parent pointers and without augmentation: \<open>IntrusiveBinaryTree\<close>,
  \<open>IntrusiveBinarySearchTree\<close> and \<open>IntrusiveRedBlackTree\<close>, on an explicit store. The links, the colour and the data of a node are
  functions of its address, \<open>None\<close> is the null pointer, and a pointer to a pointer (\<open>NodeType **\<close>, \<open>NodeType *&\<close>) is a \<open>nodeRef\<close>.
  Loops that follow pointers are partial functions: \<open>None\<close> means that the loop does not end.
\<close>

section \<open>The store\<close>

record 'k treeHeap =
  treeRoot :: "nat option"
  leftOf :: "nat \<Rightarrow> nat option"
  rightOf :: "nat \<Rightarrow> nat option"
  parentOf :: "nat \<Rightarrow> nat option"
  redOf :: "nat \<Rightarrow> bool"
  dataOf :: "nat \<Rightarrow> 'k"

datatype direction = DirLeft | DirRight

datatype nodeRef = RootRef | ChildRef nat direction

definition opposite :: "direction \<Rightarrow> direction" where
  "opposite d = (if d = DirLeft then DirRight else DirLeft)"

definition getChild :: "nat \<Rightarrow> direction \<Rightarrow> 'k treeHeap \<Rightarrow> nat option" where
  "getChild node d s = (if d = DirLeft then leftOf s node else rightOf s node)"

definition setChild :: "nat \<Rightarrow> direction \<Rightarrow> nat option \<Rightarrow> 'k treeHeap \<Rightarrow> 'k treeHeap" where
  "setChild node d p s = (if d = DirLeft then s\<lparr>leftOf := (leftOf s)(node := p)\<rparr> else s\<lparr>rightOf := (rightOf s)(node := p)\<rparr>)"

definition setParent :: "nat \<Rightarrow> nat option \<Rightarrow> 'k treeHeap \<Rightarrow> 'k treeHeap" where
  "setParent node p s = s\<lparr>parentOf := (parentOf s)(node := p)\<rparr>"

definition setColor :: "nat \<Rightarrow> bool \<Rightarrow> 'k treeHeap \<Rightarrow> 'k treeHeap" where
  "setColor node red s = s\<lparr>redOf := (redOf s)(node := red)\<rparr>"

fun readRef :: "nodeRef \<Rightarrow> 'k treeHeap \<Rightarrow> nat option" where
  "readRef RootRef s = treeRoot s"
| "readRef (ChildRef a d) s = getChild a d s"

fun writeRef :: "nodeRef \<Rightarrow> nat option \<Rightarrow> 'k treeHeap \<Rightarrow> 'k treeHeap" where
  "writeRef RootRef p s = s\<lparr>treeRoot := p\<rparr>"
| "writeRef (ChildRef a d) p s = setChild a d p s"

text \<open>\<open>if (child != nullptr) parent(*child) = p\<close> and the same for the colour.\<close>

definition adopt :: "nat option \<Rightarrow> nat option \<Rightarrow> 'k treeHeap \<Rightarrow> 'k treeHeap" where
  "adopt child p s = (case child of None \<Rightarrow> s | Some c \<Rightarrow> setParent c p s)"

definition colorIfAny :: "nat option \<Rightarrow> bool \<Rightarrow> 'k treeHeap \<Rightarrow> 'k treeHeap" where
  "colorIfAny node red s = (case node of None \<Rightarrow> s | Some c \<Rightarrow> setColor c red s)"

definition isRedNode :: "nat option \<Rightarrow> 'k treeHeap \<Rightarrow> bool" where
  "isRedNode node s = (case node of None \<Rightarrow> False | Some c \<Rightarrow> redOf s c)"

definition getChildDirection :: "nat \<Rightarrow> nat option \<Rightarrow> 'k treeHeap \<Rightarrow> direction" where
  "getChildDirection p child s = (if leftOf s p = child then DirLeft else DirRight)"

definition hasChild :: "nat \<Rightarrow> 'k treeHeap \<Rightarrow> bool" where
  "hasChild node s \<longleftrightarrow> leftOf s node \<noteq> None \<or> rightOf s node \<noteq> None"

section \<open>Rotations\<close>

text \<open>\<open>rotateLeft\<close> is the rotation towards \<open>DirLeft\<close>, \<open>rotateRight\<close> the one towards \<open>DirRight\<close>; the two bodies are mirror images.\<close>

definition rotateTo :: "direction \<Rightarrow> nodeRef \<Rightarrow> 'k treeHeap \<Rightarrow> bool \<times> 'k treeHeap" where
  "rotateTo d node s =
     (case readRef node s of
        None \<Rightarrow> (False, s)
      | Some pivot \<Rightarrow> (case getChild pivot (opposite d) s of
          None \<Rightarrow> (False, s)
        | Some newRoot \<Rightarrow>
            let s1 = setChild pivot (opposite d) (getChild newRoot d s) s;
                s2 = setChild newRoot d (Some pivot) s1;
                s3 = writeRef node (Some newRoot) s2;
                s4 = setParent newRoot (parentOf s3 pivot) s3;
                s5 = setParent pivot (Some newRoot) s4
            in (True, adopt (getChild pivot (opposite d) s5) (Some pivot) s5)))"

definition rotateLeft :: "nodeRef \<Rightarrow> 'k treeHeap \<Rightarrow> bool \<times> 'k treeHeap" where
  "rotateLeft = rotateTo DirLeft"

definition rotateRight :: "nodeRef \<Rightarrow> 'k treeHeap \<Rightarrow> bool \<times> 'k treeHeap" where
  "rotateRight = rotateTo DirRight"

definition rotateSubtree :: "nat \<Rightarrow> direction \<Rightarrow> 'k treeHeap \<Rightarrow> 'k treeHeap" where
  "rotateSubtree node d s =
     (let parentRef = (case parentOf s node of
                         None \<Rightarrow> RootRef
                       | Some p \<Rightarrow> if leftOf s p = Some node then ChildRef p DirLeft else ChildRef p DirRight)
      in snd (if d = DirLeft then rotateLeft parentRef s else rotateRight parentRef s))"

section \<open>Red-black insertion\<close>

text \<open>The rotations of \<open>insertFixup\<close> when the uncle is not red.\<close>

definition insertRotate :: "nat \<Rightarrow> nat \<Rightarrow> nat \<Rightarrow> direction \<Rightarrow> 'k treeHeap \<Rightarrow> 'k treeHeap" where
  "insertRotate current p g parentDirection s =
     (let nodeDirection = getChildDirection p (Some current) s;
          newParent = (if nodeDirection \<noteq> parentDirection then current else p);
          s1 = (if nodeDirection \<noteq> parentDirection then rotateSubtree p parentDirection s else s);
          s2 = rotateSubtree g (opposite parentDirection) s1;
          s3 = setColor newParent False s2;
          s4 = colorIfAny (leftOf s3 newParent) True s3
      in colorIfAny (rightOf s4 newParent) True s4)"

text \<open>The loop of \<open>insertFixup\<close>; the flag tells an early return, after which the root is not painted.\<close>

partial_function (option) insertFixupLoop :: "nat \<Rightarrow> 'k treeHeap \<Rightarrow> (bool \<times> 'k treeHeap) option" where
  "insertFixupLoop current s =
     (case parentOf s current of
        None \<Rightarrow> Some (False, s)
      | Some p \<Rightarrow> (case parentOf s p of
          None \<Rightarrow> Some (False, s)
        | Some g \<Rightarrow>
            if \<not> redOf s p then Some (True, s)
            else let parentDirection = getChildDirection g (Some p) s; uncle = getChild g (opposite parentDirection) s
                 in if isRedNode uncle s then insertFixupLoop g (setColor g True (colorIfAny uncle False (setColor p False s)))
                    else Some (False, insertRotate current p g parentDirection s)))"

definition insertFixup :: "nat \<Rightarrow> 'k treeHeap \<Rightarrow> 'k treeHeap option" where
  "insertFixup node s =
     (case insertFixupLoop node s of
        None \<Rightarrow> None
      | Some (returned, s1) \<Rightarrow> Some (if returned then s1 else colorIfAny (treeRoot s1) False s1))"

text \<open>The descent of \<open>insertImpl\<close>: the parent and the reference to write, or \<open>None\<close> when the key is there already.\<close>

partial_function (option) insertDescend :: "('k \<Rightarrow> 'k \<Rightarrow> bool) \<Rightarrow> 'k \<Rightarrow> nodeRef \<Rightarrow> nat option \<Rightarrow> 'k treeHeap \<Rightarrow> (nodeRef \<times> nat option) option option" where
  "insertDescend cmp nvalue current p s =
     (case readRef current s of
        None \<Rightarrow> Some (Some (current, p))
      | Some c \<Rightarrow>
          if nvalue = dataOf s c then Some None
          else insertDescend cmp nvalue (ChildRef c (if cmp nvalue (dataOf s c) then DirLeft else DirRight)) (Some c) s)"

definition insertImpl :: "('k \<Rightarrow> 'k \<Rightarrow> bool) \<Rightarrow> nat option \<Rightarrow> 'k treeHeap \<Rightarrow> (bool \<times> 'k treeHeap) option" where
  "insertImpl cmp nodePtr s =
     (case nodePtr of
        None \<Rightarrow> Some (False, s)
      | Some node \<Rightarrow>
          let s1 = setParent node None (setChild node DirRight None (setChild node DirLeft None s))
          in if treeRoot s1 = None then Some (True, setColor node False (s1\<lparr>treeRoot := Some node\<rparr>))
             else (case insertDescend cmp (dataOf s1 node) RootRef None s1 of
                     None \<Rightarrow> None
                   | Some None \<Rightarrow> Some (False, s1)
                   | Some (Some (current, p)) \<Rightarrow>
                       map_option (Pair True) (insertFixup node (setParent node p (setColor node True (writeRef current (Some node) s1))))))"

section \<open>Red-black removal\<close>

text \<open>One round of the loop of \<open>eraseFixup\<close>: the next parent and direction, or the end of the loop.\<close>

definition eraseNephews :: "nat \<Rightarrow> nat \<Rightarrow> direction \<Rightarrow> 'k treeHeap \<Rightarrow> ((nat \<times> direction) option \<times> 'k treeHeap) outcome" where
  "eraseNephews p sibling d s =
     (let nearNephew = getChild sibling d s; farNephew = getChild sibling (opposite d) s
      in if \<not> isRedNode nearNephew s \<and> \<not> isRedNode farNephew s
         then let s1 = setColor sibling True s
              in if redOf s1 p then Inr (None, setColor p False s1)
                 else (case parentOf s1 p of
                         None \<Rightarrow> Inr (None, s1)
                       | Some grandparent \<Rightarrow> Inr (Some (grandparent, getChildDirection grandparent (Some p) s1), s1))
         else let rotate = \<not> isRedNode farNephew s;
                  s1 = (if rotate then rotateSubtree sibling (opposite d) (setColor sibling True (colorIfAny nearNephew False s)) else s);
                  siblingPtr = (if rotate then getChild p (opposite d) s1 else Some sibling)
              in (case siblingPtr of
                    None \<Rightarrow> Inl (Undefined ''null pointer'')
                  | Some sibling1 \<Rightarrow>
                      let farNephew1 = getChild sibling1 (opposite d) s1
                      in if isRedNode farNephew1 s1
                         then let s2 = setColor sibling1 (redOf s1 p) s1; s3 = setColor p False s2; s4 = colorIfAny farNephew1 False s3
                              in Inr (None, rotateSubtree p d s4)
                         else Inr (Some (p, d), s1)))"

definition eraseFixupStep :: "nat \<Rightarrow> direction \<Rightarrow> 'k treeHeap \<Rightarrow> ((nat \<times> direction) option \<times> 'k treeHeap) outcome" where
  "eraseFixupStep p d s =
     (case getChild p (opposite d) s of
        None \<Rightarrow> Inl (Undefined ''null pointer'')
      | Some sibling \<Rightarrow>
          if redOf s sibling then Inr (Some (p, d), rotateSubtree p d (setColor p True (setColor sibling False s)))
          else eraseNephews p sibling d s)"

partial_function (option) eraseFixupLoop :: "nat \<Rightarrow> direction \<Rightarrow> 'k treeHeap \<Rightarrow> 'k treeHeap outcome option" where
  "eraseFixupLoop p d s =
     (case eraseFixupStep p d s of
        Inl e \<Rightarrow> Some (Inl e)
      | Inr (nxt, s1) \<Rightarrow> (case nxt of None \<Rightarrow> Some (Inr s1) | Some (p1, d1) \<Rightarrow> eraseFixupLoop p1 d1 s1))"

definition paintRoot :: "'k treeHeap \<Rightarrow> 'k treeHeap" where
  "paintRoot s = colorIfAny (treeRoot s) False s"

definition eraseFixup :: "nat option \<Rightarrow> direction \<Rightarrow> 'k treeHeap \<Rightarrow> 'k treeHeap outcome option" where
  "eraseFixup parentPtr d s =
     (case parentPtr of
        None \<Rightarrow> Some (Inr (paintRoot s))
      | Some p \<Rightarrow> map_option (map_sum id paintRoot) (eraseFixupLoop p d s))"

definition eraseCaseSingleChild :: "direction \<Rightarrow> nat \<Rightarrow> nodeRef \<Rightarrow> 'k treeHeap \<Rightarrow> 'k treeHeap outcome" where
  "eraseCaseSingleChild d node nodeRf s =
     (case getChild node d s of
        None \<Rightarrow> Inl (Undefined ''null pointer'')
      | Some child \<Rightarrow> Inr (setColor child False (writeRef nodeRf (Some child) (setParent child (parentOf s node) s))))"

text \<open>The search for the successor in \<open>eraseCaseTwoChildren\<close>, with the fixup direction it leaves.\<close>

partial_function (option) eraseSuccessor :: "nat \<Rightarrow> direction \<Rightarrow> 'k treeHeap \<Rightarrow> (nat \<times> direction) option" where
  "eraseSuccessor succ d s = (case leftOf s succ of None \<Rightarrow> Some (succ, d) | Some l \<Rightarrow> eraseSuccessor l DirLeft s)"

text \<open>
  \<open>eraseCaseTwoChildren\<close> after the search: the node is replaced by its successor. The result has the colour that was lost,
  and where the fixup starts.
\<close>

definition eraseUnhook :: "nat \<Rightarrow> nat \<Rightarrow> 'k treeHeap \<Rightarrow> (bool \<times> 'k treeHeap) outcome" where
  "eraseUnhook node succ s =
     (if rightOf s node \<noteq> Some succ
      then let oldRightChild = rightOf s succ; p = parentOf s succ;
               s1 = colorIfAny oldRightChild False (adopt oldRightChild p s)
           in (case p of
                 None \<Rightarrow> Inl (Undefined ''null pointer'')
               | Some pn \<Rightarrow>
                   let s2 = setChild pn DirLeft oldRightChild s1;
                       rightChild = rightOf s2 node;
                       s3 = adopt rightChild (Some succ) s2
                   in Inr (oldRightChild \<noteq> None, setChild succ DirRight rightChild s3))
      else Inr (rightOf s succ \<noteq> None, colorIfAny (rightOf s succ) False s))"

definition eraseReplace :: "nat \<Rightarrow> nodeRef \<Rightarrow> nat \<Rightarrow> direction \<Rightarrow> 'k treeHeap \<Rightarrow> (bool \<times> nat option \<times> direction \<times> 'k treeHeap) outcome" where
  "eraseReplace node nodeRf succ d s =
     (let fixupStart = (if d = DirLeft then parentOf s succ else Some succ);
          originalColor = redOf s node; successorColor = redOf s succ;
          leftChild = leftOf s node;
          s1 = setChild succ DirLeft leftChild (adopt leftChild (Some succ) s)
      in bindO (eraseUnhook node succ s1) (\<lambda>(recolored, s2).
           let s3 = writeRef nodeRf (Some succ) (setParent succ (parentOf s2 node) s2)
           in Inr (recolored \<or> successorColor, fixupStart, d, setColor succ originalColor s3)))"

definition eraseCaseTwoChildren :: "nat \<Rightarrow> nodeRef \<Rightarrow> 'k treeHeap \<Rightarrow> (bool \<times> nat option \<times> direction \<times> 'k treeHeap) outcome option" where
  "eraseCaseTwoChildren node nodeRf s =
     (case rightOf s node of
        None \<Rightarrow> Some (Inl (Undefined ''null pointer''))
      | Some r \<Rightarrow> map_option (\<lambda>(succ, d). eraseReplace node nodeRf succ d s) (eraseSuccessor r DirRight s))"

text \<open>\<open>eraseImpl\<close>: the cases of a leaf, of one child and of two; then the fixup if a black node was lost.\<close>

definition eraseCases :: "nat \<Rightarrow> nodeRef \<Rightarrow> 'k treeHeap \<Rightarrow> (bool \<times> nat option \<times> direction \<times> 'k treeHeap) outcome option" where
  "eraseCases node toRemove s =
     (if \<not> hasChild node s
      then (if Some node \<noteq> treeRoot s \<and> \<not> redOf s node
            then (case parentOf s node of
                    None \<Rightarrow> Some (Inl (Undefined ''null pointer''))
                  | Some p \<Rightarrow> Some (Inr (True, Some p, getChildDirection p (Some node) s, writeRef toRemove None s)))
            else Some (Inr (False, parentOf s node, DirRight, writeRef toRemove None s)))
      else if leftOf s node = None
      then Some (bindO (eraseCaseSingleChild DirRight node toRemove s) (\<lambda>s1. Inr (False, parentOf s node, DirRight, s1)))
      else if rightOf s node = None
      then Some (bindO (eraseCaseSingleChild DirLeft node toRemove s) (\<lambda>s1. Inr (False, parentOf s node, DirRight, s1)))
      else map_option (\<lambda>r. bindO r (\<lambda>(red, start, d, s1). Inr (\<not> red, start, d, s1))) (eraseCaseTwoChildren node toRemove s))"

definition eraseImpl :: "nodeRef \<Rightarrow> 'k treeHeap \<Rightarrow> 'k treeHeap outcome option" where
  "eraseImpl toRemove s =
     (case readRef toRemove s of
        None \<Rightarrow> Some (Inr s)
      | Some node \<Rightarrow> (case eraseCases node toRemove s of
          None \<Rightarrow> None
        | Some (Inl e) \<Rightarrow> Some (Inl e)
        | Some (Inr (performFixup, start, d, s1)) \<Rightarrow> if performFixup then eraseFixup start d s1 else Some (Inr s1)))"

definition rbErase :: "nat option \<Rightarrow> 'k treeHeap \<Rightarrow> (nat option \<times> 'k treeHeap) outcome option" where
  "rbErase nodePtr s =
     (case nodePtr of
        None \<Rightarrow> Some (Inr (None, s))
      | Some node \<Rightarrow>
          map_option (map_sum id (Pair (Some node)))
            (if Some node = treeRoot s then eraseImpl RootRef s
             else (case parentOf s node of
                     None \<Rightarrow> Some (Inl (Undefined ''null pointer''))
                   | Some p \<Rightarrow> eraseImpl (ChildRef p (if leftOf s p = Some node then DirLeft else DirRight)) s)))"

end
