(* ===== verification/Tree_Shape.thy ===== *)
theory Tree_Shape
  imports Tree_Heap "HOL-Library.Tree"
begin

text \<open>
  What the store of \<open>Tree_Heap\<close> represents: a binary tree whose nodes are pairs of an address and a colour. A place in a tree is
  a context, the list of the nodes above it with their other subtrees, from the inside out. The laws here say what the
  pointer operations do to the represented tree at such a place.
\<close>

type_synonym ctree = "(nat \<times> bool) tree"
type_synonym frame = "direction \<times> (nat \<times> bool) \<times> ctree"

section \<open>Trees and contexts\<close>

fun rootAddr :: "ctree \<Rightarrow> nat option" where
  "rootAddr \<langle>\<rangle> = None"
| "rootAddr \<langle>l, x, r\<rangle> = Some (fst x)"

definition addrs :: "ctree \<Rightarrow> nat list" where
  "addrs t = map fst (inorder t)"

fun mkNode :: "direction \<Rightarrow> ctree \<Rightarrow> nat \<times> bool \<Rightarrow> ctree \<Rightarrow> ctree" where
  "mkNode DirLeft t x u = \<langle>t, x, u\<rangle>"
| "mkNode DirRight t x u = \<langle>u, x, t\<rangle>"

fun plug :: "frame list \<Rightarrow> ctree \<Rightarrow> ctree" where
  "plug [] t = t"
| "plug ((d, x, u) # c) t = plug c (mkNode d t x u)"

fun holeRef :: "frame list \<Rightarrow> nodeRef" where
  "holeRef [] = RootRef"
| "holeRef ((d, x, u) # c) = ChildRef (fst x) d"

fun holeParent :: "frame list \<Rightarrow> nat option" where
  "holeParent [] = None"
| "holeParent ((d, x, u) # c) = Some (fst x)"

fun caddrs :: "frame list \<Rightarrow> nat list" where
  "caddrs [] = []"
| "caddrs ((d, x, u) # c) = fst x # addrs u @ caddrs c"

lemma addrs_simps [simp]: "addrs \<langle>\<rangle> = []" "addrs \<langle>l, x, r\<rangle> = addrs l @ fst x # addrs r"
  by (simp_all add: addrs_def)

lemma addrs_mkNode [simp]: "set (addrs (mkNode d t x u)) = insert (fst x) (set (addrs t) \<union> set (addrs u))"
  by (cases d) auto

lemma mset_addrs_mkNode [simp]: "mset (addrs (mkNode d t x u)) = mset (addrs t) + mset (addrs u) + {#fst x#}"
  by (cases d) auto

lemma rootAddr_mkNode [simp]: "rootAddr (mkNode d t x u) = Some (fst x)"
  by (cases d) auto

lemma distinct_mkNode [simp]:
  "distinct (addrs (mkNode d t x u)) \<longleftrightarrow> distinct (addrs t) \<and> distinct (addrs u) \<and> set (addrs t) \<inter> set (addrs u) = {} \<and>
     fst x \<notin> set (addrs t) \<and> fst x \<notin> set (addrs u)"
  by (cases d) auto

lemma mset_addrs_plug: "mset (addrs (plug c t)) = mset (caddrs c) + mset (addrs t)"
  by (induction c t rule: plug.induct) auto

lemma distinct_addrs_plug:
  "distinct (addrs (plug c t)) \<longleftrightarrow> distinct (caddrs c) \<and> distinct (addrs t) \<and> set (caddrs c) \<inter> set (addrs t) = {}"
proof -
  have "distinct (addrs (plug c t)) \<longleftrightarrow> distinct (caddrs c @ addrs t)"
    by (rule mset_eq_imp_distinct_iff) (simp add: mset_addrs_plug)
  then show ?thesis by auto
qed

lemma plug_append: "plug (c1 @ c2) t = plug c2 (plug c1 t)"
  by (induction c1 t rule: plug.induct) auto

lemma opposite_simps [simp]: "opposite DirLeft = DirRight" "opposite DirRight = DirLeft" "opposite (opposite d) = d" "opposite d \<noteq> d" "d \<noteq> opposite d"
  by (cases d; simp add: opposite_def)+

lemma field_upd [simp]:
  "leftOf (setChild a d v s) b = (if d = DirLeft \<and> b = a then v else leftOf s b)"
  "rightOf (setChild a d v s) b = (if d = DirRight \<and> b = a then v else rightOf s b)"
  "parentOf (setChild a d v s) = parentOf s" "redOf (setChild a d v s) = redOf s" "dataOf (setChild a d v s) = dataOf s"
  "treeRoot (setChild a d v s) = treeRoot s"
  "leftOf (setParent a v s) = leftOf s" "rightOf (setParent a v s) = rightOf s" "getChild b e (setParent a v s) = getChild b e s"
  "parentOf (setParent a v s) b = (if b = a then v else parentOf s b)" "redOf (setParent a v s) = redOf s" "dataOf (setParent a v s) = dataOf s"
  "treeRoot (setParent a v s) = treeRoot s"
  "leftOf (setColor a k s) = leftOf s" "rightOf (setColor a k s) = rightOf s" "getChild b e (setColor a k s) = getChild b e s"
  "parentOf (setColor a k s) = parentOf s" "redOf (setColor a k s) b = (if b = a then k else redOf s b)" "dataOf (setColor a k s) = dataOf s"
  "treeRoot (setColor a k s) = treeRoot s" "getChild b e (s\<lparr>treeRoot := v\<rparr>) = getChild b e s"
  by (auto simp: setChild_def setParent_def setColor_def getChild_def) (metis direction.exhaust)

lemma getChild_setChild [simp]: "getChild b e (setChild a d v s) = (if e = d \<and> b = a then v else getChild b e s)"
  by (cases e; cases d) (auto simp: setChild_def getChild_def)

lemma getChild_dir [simp]: "getChild a DirLeft s = leftOf s a" "getChild a DirRight s = rightOf s a"
  by (simp_all add: getChild_def)

section \<open>Representation\<close>

fun shape :: "'k treeHeap \<Rightarrow> nat option \<Rightarrow> nat option \<Rightarrow> ctree \<Rightarrow> bool" where
  "shape s p q \<langle>\<rangle> \<longleftrightarrow> p = None"
| "shape s p q \<langle>l, x, r\<rangle> \<longleftrightarrow> p = Some (fst x) \<and> parentOf s (fst x) = q \<and> redOf s (fst x) = snd x \<and>
     shape s (leftOf s (fst x)) (Some (fst x)) l \<and> shape s (rightOf s (fst x)) (Some (fst x)) r"

fun ctxOk :: "'k treeHeap \<Rightarrow> frame list \<Rightarrow> bool" where
  "ctxOk s [] \<longleftrightarrow> True"
| "ctxOk s ((d, x, u) # c) \<longleftrightarrow> readRef (holeRef c) s = Some (fst x) \<and> parentOf s (fst x) = holeParent c \<and> redOf s (fst x) = snd x \<and>
     shape s (getChild (fst x) (opposite d) s) (Some (fst x)) u \<and> ctxOk s c"

definition represents :: "'k treeHeap \<Rightarrow> ctree \<Rightarrow> bool" where
  "represents s t \<longleftrightarrow> shape s (treeRoot s) None t \<and> distinct (addrs t)"

lemma shape_mkNode:
  "shape s p q (mkNode d t x u) \<longleftrightarrow> p = Some (fst x) \<and> parentOf s (fst x) = q \<and> redOf s (fst x) = snd x \<and>
     shape s (getChild (fst x) d s) (Some (fst x)) t \<and> shape s (getChild (fst x) (opposite d) s) (Some (fst x)) u"
  by (cases d) (auto simp: getChild_def)

lemma shape_plug: "shape s (treeRoot s) None (plug c t) \<longleftrightarrow> ctxOk s c \<and> shape s (readRef (holeRef c) s) (holeParent c) t"
  by (induction c t rule: plug.induct) (auto simp: shape_mkNode)

text \<open>The working form: the context, the tree in the hole, and that no address occurs twice.\<close>

lemma represents_plug:
  "represents s (plug c t) \<longleftrightarrow> ctxOk s c \<and> shape s (readRef (holeRef c) s) (holeParent c) t \<and>
     distinct (caddrs c) \<and> distinct (addrs t) \<and> set (caddrs c) \<inter> set (addrs t) = {}"
  by (auto simp: represents_def shape_plug distinct_addrs_plug)

lemma shape_rootAddr: "shape s p q t \<Longrightarrow> p = rootAddr t"
  by (cases t) auto

lemma rootAddr_in: "rootAddr t = Some a \<Longrightarrow> a \<in> set (addrs t)"
  by (cases t) auto

lemma rootAddr_None [simp]: "rootAddr t = None \<longleftrightarrow> t = \<langle>\<rangle>"
  by (cases t) auto

lemma holeParent_in: "holeParent c = Some a \<Longrightarrow> a \<in> set (caddrs c)"
  by (cases c rule: holeParent.cases) auto

section \<open>Updates elsewhere\<close>

lemma shape_cong:
  assumes "\<And>a. a \<in> set (addrs t) \<Longrightarrow> leftOf s' a = leftOf s a \<and> rightOf s' a = rightOf s a \<and> parentOf s' a = parentOf s a \<and> redOf s' a = redOf s a"
  shows "shape s' p q t = shape s p q t"
  using assms by (induction t arbitrary: p q) auto

lemma ctxOk_cong:
  assumes "\<And>a. a \<in> set (caddrs c) \<Longrightarrow> leftOf s' a = leftOf s a \<and> rightOf s' a = rightOf s a \<and> parentOf s' a = parentOf s a \<and> redOf s' a = redOf s a"
    "treeRoot s' = treeRoot s"
  shows "ctxOk s' c = ctxOk s c \<and> readRef (holeRef c) s' = readRef (holeRef c) s"
  using assms
proof (induction c rule: caddrs.induct)
  case (2 d x u c)
  have "shape s' p q u = shape s p q u" for p q by (rule shape_cong) (use 2(2) in auto)
  then show ?case using 2 by (cases d) auto
qed simp

lemma shape_other [simp]:
  "a \<notin> set (addrs t) \<Longrightarrow> shape (setChild a d v s) p q t = shape s p q t"
  "a \<notin> set (addrs t) \<Longrightarrow> shape (setParent a v s) p q t = shape s p q t"
  "a \<notin> set (addrs t) \<Longrightarrow> shape (setColor a b s) p q t = shape s p q t"
  "shape (s\<lparr>treeRoot := v\<rparr>) p q t = shape s p q t"
  by (rule shape_cong; auto)+

lemma ctxOk_other [simp]:
  "a \<notin> set (caddrs c) \<Longrightarrow> ctxOk (setChild a d v s) c = ctxOk s c"
  "a \<notin> set (caddrs c) \<Longrightarrow> ctxOk (setParent a v s) c = ctxOk s c"
  "a \<notin> set (caddrs c) \<Longrightarrow> ctxOk (setColor a b s) c = ctxOk s c"
  by (rule ctxOk_cong [THEN conjunct1]; auto)+

lemma readRef_other [simp]:
  "a \<notin> set (caddrs c) \<Longrightarrow> readRef (holeRef c) (setChild a d v s) = readRef (holeRef c) s"
  "readRef r (setParent a v s) = readRef r s"
  "readRef r (setColor a b s) = readRef r s"
proof -
  show "a \<notin> set (caddrs c) \<Longrightarrow> readRef (holeRef c) (setChild a d v s) = readRef (holeRef c) s"
    by (cases c rule: holeRef.cases) auto
qed (cases r; simp)+

lemma shape_writeRef [simp]: "set (caddrs c) \<inter> set (addrs t) = {} \<Longrightarrow> shape (writeRef (holeRef c) v s) p q t = shape s p q t"
  by (cases c rule: holeRef.cases) auto

lemma ctxOk_writeRef [simp]: "distinct (caddrs c) \<Longrightarrow> ctxOk (writeRef (holeRef c) v s) c = ctxOk s c"
proof (cases c rule: holeRef.cases)
  case (2 d x u c')
  assume "distinct (caddrs c)"
  then have "fst x \<notin> set (addrs u)" "fst x \<notin> set (caddrs c')" using 2 by auto
  then show ?thesis using 2 by simp
qed simp

lemma readRef_writeRef [simp]: "readRef r (writeRef r v s) = v"
  by (cases r) auto

section \<open>What the operations read\<close>

lemma adopt_simps [simp]:
  "adopt None v s = s" "adopt (Some a) v s = setParent a v s"
  by (simp_all add: adopt_def)

lemma colorIfAny_simps [simp]: "colorIfAny None k s = s" "colorIfAny (Some a) k s = setColor a k s"
  by (simp_all add: colorIfAny_def)

lemma isRedNode_simps [simp]: "isRedNode None s = False" "isRedNode (Some a) s = redOf s a"
  by (simp_all add: isRedNode_def)

lemma dataOf_upd [simp]:
  "dataOf (adopt p v s) = dataOf s" "dataOf (colorIfAny p k s) = dataOf s" "dataOf (writeRef r v s) = dataOf s"
proof -
  show "dataOf (writeRef r v s) = dataOf s" by (cases r) auto
qed (cases p; simp)+

lemma adopt_fields [simp]:
  "leftOf (adopt p v s) = leftOf s" "rightOf (adopt p v s) = rightOf s" "getChild a d (adopt p v s) = getChild a d s" "redOf (adopt p v s) = redOf s"
  "treeRoot (adopt p v s) = treeRoot s" "parentOf (adopt p v s) a = (if p = Some a then v else parentOf s a)" "readRef r (adopt p v s) = readRef r s"
  by (cases p; simp)+

lemma writeRef_fields [simp]:
  "parentOf (writeRef r v s) = parentOf s" "redOf (writeRef r v s) = redOf s" "a \<notin> set (caddrs c) \<Longrightarrow> getChild a d (writeRef (holeRef c) v s) = getChild a d s"
  "a \<notin> set (caddrs c) \<Longrightarrow> leftOf (writeRef (holeRef c) v s) a = leftOf s a" "a \<notin> set (caddrs c) \<Longrightarrow> rightOf (writeRef (holeRef c) v s) a = rightOf s a"
proof -
  show "a \<notin> set (caddrs c) \<Longrightarrow> getChild a d (writeRef (holeRef c) v s) = getChild a d s"
    "a \<notin> set (caddrs c) \<Longrightarrow> leftOf (writeRef (holeRef c) v s) a = leftOf s a" "a \<notin> set (caddrs c) \<Longrightarrow> rightOf (writeRef (holeRef c) v s) a = rightOf s a"
    by (cases c rule: holeRef.cases; auto)+
qed (cases r; simp)+

lemma represents_node:
  assumes "represents s (plug c (mkNode d l (a, k) r))"
  shows "readRef (holeRef c) s = Some a" "parentOf s a = holeParent c" "redOf s a = k" "getChild a d s = rootAddr l" "getChild a (opposite d) s = rootAddr r"
  using assms by (auto simp: represents_plug shape_mkNode dest: shape_rootAddr)

text \<open>A node knows on which side of its parent it hangs.\<close>

lemma represents_side:
  assumes "represents s (plug ((d, (p, k), u) # c) t)" "rootAddr t = Some a"
  shows "parentOf s a = Some p" "leftOf s p = Some a \<longleftrightarrow> d = DirLeft" "getChildDirection p (Some a) s = d"
    "(if leftOf s p = Some a then ChildRef p DirLeft else ChildRef p DirRight) = holeRef ((d, (p, k), u) # c)"
proof -
  obtain l x r where t: "t = \<langle>l, x, r\<rangle>" "fst x = a" using assms(2) by (cases t) auto
  show "parentOf s a = Some p" using assms(1) t by (auto simp: represents_plug shape_mkNode)
  show 1: "leftOf s p = Some a \<longleftrightarrow> d = DirLeft"
  proof (cases d)
    case DirLeft
    then show ?thesis using assms(1) t by (auto simp: represents_plug shape_mkNode)
  next
    case DirRight
    then have "leftOf s p = rootAddr u" using assms(1) by (auto simp: represents_plug shape_mkNode dest: shape_rootAddr)
    moreover have "rootAddr u \<noteq> Some a" using assms(1) t rootAddr_in [of u a] by (auto simp: represents_plug)
    ultimately show ?thesis using DirRight by simp
  qed
  then show "getChildDirection p (Some a) s = d" by (cases d) (auto simp: getChildDirection_def)
  show "(if leftOf s p = Some a then ChildRef p DirLeft else ChildRef p DirRight) = holeRef ((d, (p, k), u) # c)"
    using 1 by (cases d) auto
qed

section \<open>What the operations do to the tree\<close>

lemma represents_setColor:
  assumes "represents s (plug c (mkNode d l (a, k) r))"
  shows "represents (setColor a k' s) (plug c (mkNode d l (a, k') r))"
  using assms by (cases d) (auto simp: represents_plug)

text \<open>A subtree that moves gets a new parent.\<close>

lemma shape_adopt:
  assumes "shape s p q t" "distinct (addrs t)"
  shows "shape (adopt p v s) p v t"
  using assms by (cases t) auto

lemma shape_adopt_other:
  "set (addrs u) \<inter> set (addrs t) = {} \<Longrightarrow> shape (adopt (rootAddr u) v s) p q t = shape s p q t"
  "set (caddrs c) \<inter> set (addrs u) = {} \<Longrightarrow> ctxOk (adopt (rootAddr u) v s) c = ctxOk s c"
  by (cases u; auto)+

lemma represents_rotate:
  assumes "represents s (plug c (mkNode (opposite d) (mkNode d B (y, ky) C) (x, kx) A))"
  shows "fst (rotateTo d (holeRef c) s)"
    "represents (snd (rotateTo d (holeRef c) s)) (plug c (mkNode d (mkNode (opposite d) B (x, kx) A) (y, ky) C))"
    "dataOf (snd (rotateTo d (holeRef c) s)) = dataOf s"
proof -
  note R = represents_node [OF assms]
  have dj: "x \<noteq> y" "x \<notin> set (caddrs c)" "y \<notin> set (caddrs c)" "x \<notin> set (addrs A)" "y \<notin> set (addrs A)" "x \<notin> set (addrs B)" "y \<notin> set (addrs B)"
    "x \<notin> set (addrs C)" "y \<notin> set (addrs C)" "set (addrs B) \<inter> set (addrs A) = {}" "set (addrs B) \<inter> set (addrs C) = {}" "set (addrs A) \<inter> set (addrs C) = {}"
    "set (caddrs c) \<inter> set (addrs A) = {}" "set (caddrs c) \<inter> set (addrs B) = {}" "set (caddrs c) \<inter> set (addrs C) = {}"
    "distinct (addrs A)" "distinct (addrs B)" "distinct (addrs C)" "distinct (caddrs c)"
    using assms by (cases d; auto simp: represents_plug)+
  have sh: "ctxOk s c" "shape s (getChild x d s) (Some x) A" "shape s (getChild y d s) (Some y) B" "shape s (getChild y (opposite d) s) (Some y) C"
    "getChild y d s = rootAddr B" "getChild x (opposite d) s = Some y" "redOf s y = ky" "parentOf s y = Some x"
    using assms by (auto simp: represents_plug shape_mkNode dest: shape_rootAddr)
  let ?q = "holeParent c"
  define s5 where "s5 = setParent x (Some y) (setParent y ?q (writeRef (holeRef c) (Some y) (setChild y d (Some x) (setChild x (opposite d) (rootAddr B) s))))"
  have e: "rotateTo d (holeRef c) s = (True, adopt (rootAddr B) (Some x) s5)"
    using R sh(5,6) dj(1-3) by (simp add: rotateTo_def s5_def Let_def)
  then show "fst (rotateTo d (holeRef c) s)" by simp
  show "dataOf (snd (rotateTo d (holeRef c) s)) = dataOf s" using e by (simp add: s5_def)
  have nB: "rootAddr B \<noteq> Some x" "rootAddr B \<noteq> Some y" using dj(6,7) rootAddr_in by auto
  have "shape s5 (rootAddr B) (Some y) B" using sh(3,5) dj by (simp add: s5_def)
  from shape_adopt [OF this dj(17)] have B: "shape (adopt (rootAddr B) (Some x) s5) (rootAddr B) (Some x) B" .
  have "shape s5 (getChild x d s) (Some x) A" "shape s5 (getChild y (opposite d) s) (Some y) C" "ctxOk s5 c" "readRef (holeRef c) s5 = Some y"
    using sh dj by (simp_all add: s5_def)
  moreover have "getChild x d s5 = getChild x d s" "getChild x (opposite d) s5 = rootAddr B" "getChild y d s5 = Some x" "getChild y (opposite d) s5 = getChild y (opposite d) s"
    "parentOf s5 x = Some y" "parentOf s5 y = ?q" "redOf s5 x = kx" "redOf s5 y = ky"
    using dj(1-3) R(3) sh(7) by (simp_all add: s5_def)
  ultimately show "represents (snd (rotateTo d (holeRef c) s)) (plug c (mkNode d (mkNode (opposite d) B (x, kx) A) (y, ky) C))"
    using B dj nB by (simp add: e represents_plug shape_mkNode shape_adopt_other Int_Un_distrib Int_Un_distrib2)
qed

lemma represents_rotateSubtree:
  assumes "represents s (plug c (mkNode (opposite d) (mkNode d B (y, ky) C) (x, kx) A))"
  shows "represents (rotateSubtree x d s) (plug c (mkNode d (mkNode (opposite d) B (x, kx) A) (y, ky) C))"
    "dataOf (rotateSubtree x d s) = dataOf s"
proof -
  have "(case parentOf s x of None \<Rightarrow> RootRef | Some p \<Rightarrow> if leftOf s p = Some x then ChildRef p DirLeft else ChildRef p DirRight) = holeRef c"
  proof (cases c rule: holeRef.cases)
    case 1
    then show ?thesis using represents_node(2) [OF assms] by simp
  next
    case (2 e p u c')
    then have "represents s (plug ((e, (fst p, snd p), u) # c') (mkNode (opposite d) (mkNode d B (y, ky) C) (x, kx) A))" using assms by simp
    from represents_side [OF this, of x] show ?thesis using 2 by simp
  qed
  then have "rotateSubtree x d s = snd (rotateTo d (holeRef c) s)"
    by (cases d) (auto simp: rotateSubtree_def rotateLeft_def rotateRight_def)
  then show "represents (rotateSubtree x d s) (plug c (mkNode d (mkNode (opposite d) B (x, kx) A) (y, ky) C))"
    "dataOf (rotateSubtree x d s) = dataOf s"
    using represents_rotate [OF assms] by simp_all
qed

lemma represents_attach:
  assumes "represents s (plug c \<langle>\<rangle>)" "n \<notin> set (addrs (plug c \<langle>\<rangle>))" "leftOf s n = None" "rightOf s n = None"
  shows "represents (setParent n (holeParent c) (setColor n k (writeRef (holeRef c) (Some n) s))) (plug c \<langle>\<langle>\<rangle>, (n, k), \<langle>\<rangle>\<rangle>)"
proof -
  have "n \<notin> set (caddrs c)" using assms(2) mset_addrs_plug [of c "\<langle>\<rangle>"] by (metis Un_iff set_mset_mset set_mset_union)
  then show ?thesis using assms by (simp add: represents_plug)
qed

text \<open>A node without a left or a right child is replaced by its other child.\<close>

lemma represents_splice:
  assumes "represents s (plug c (mkNode d t (m, k) \<langle>\<rangle>))"
  shows "represents (writeRef (holeRef c) (rootAddr t) (adopt (rootAddr t) (holeParent c) s)) (plug c t)"
proof -
  have sh: "ctxOk s c" "shape s (getChild m d s) (Some m) t" "distinct (caddrs c)" "distinct (addrs t)" "set (caddrs c) \<inter> set (addrs t) = {}"
    using assms by (auto simp: represents_plug shape_mkNode)
  then have "shape (adopt (rootAddr t) (holeParent c) s) (rootAddr t) (holeParent c) t"
    using shape_adopt [OF sh(2,4)] shape_rootAddr [OF sh(2)] by simp
  then show ?thesis using sh by (simp add: represents_plug shape_adopt_other)
qed

text \<open>A fresh node takes the place, the children and the parent of another.\<close>

lemma represents_substitute:
  assumes "represents s (plug c \<langle>l, (a, k), r\<rangle>)" "m \<notin> set (addrs (plug c \<langle>l, (a, k), r\<rangle>))"
  shows "represents (setColor m k' (writeRef (holeRef c) (Some m) (setParent m (holeParent c) (setChild m DirRight (rootAddr r) (adopt (rootAddr r) (Some m)
    (setChild m DirLeft (rootAddr l) (adopt (rootAddr l) (Some m) s))))))) (plug c \<langle>l, (m, k'), r\<rangle>)" (is "represents ?s _")
proof -
  have m: "m \<notin> set (caddrs c)" "m \<notin> set (addrs l)" "m \<notin> set (addrs r)"
    using assms(2) mset_addrs_plug [of c "\<langle>l, (a, k), r\<rangle>"] by (auto dest!: arg_cong [of _ _ set_mset])
  moreover have sh: "ctxOk s c" "shape s (leftOf s a) (Some a) l" "shape s (rightOf s a) (Some a) r" "leftOf s a = rootAddr l" "rightOf s a = rootAddr r"
    "distinct (caddrs c)" "distinct (addrs l)" "distinct (addrs r)" "set (caddrs c) \<inter> set (addrs l) = {}" "set (caddrs c) \<inter> set (addrs r) = {}"
    "set (addrs l) \<inter> set (addrs r) = {}"
    using assms(1) by (auto simp: represents_plug dest: shape_rootAddr)
  moreover have l: "shape (adopt (rootAddr l) (Some m) s) (rootAddr l) (Some m) l" using shape_adopt [OF sh(2,7)] sh(4) by simp
  moreover have "shape (adopt (rootAddr r) (Some m) (setChild m DirLeft (rootAddr l) (adopt (rootAddr l) (Some m) s))) (rootAddr r) (Some m) r"
    by (rule shape_adopt [of _ _ "Some a"]) (use sh m in \<open>simp_all add: shape_adopt_other\<close>)
  moreover have "set (addrs r) \<inter> set (addrs l) = {}" using sh(11) by auto
  ultimately show ?thesis by (simp add: represents_plug shape_adopt_other Int_Un_distrib)
qed

end
