(* ===== verification/Rb_Insert.thy ===== *)
theory Rb_Insert
  imports Tree_Shape
begin

text \<open>
  The red-black conditions on the represented tree and on its contexts, and that \<open>insertImpl\<close> of \<open>core/ds/Trees.h\<close> keeps them:
  the loop of \<open>insertFixup\<close> ends, whatever the tree, and leaves the nodes in their order.
\<close>

section \<open>Red-black conditions\<close>

fun redRoot :: "ctree \<Rightarrow> bool" where
  "redRoot \<langle>\<rangle> = False"
| "redRoot \<langle>l, x, r\<rangle> = snd x"

fun blackHeight :: "ctree \<Rightarrow> nat" where
  "blackHeight \<langle>\<rangle> = 0"
| "blackHeight \<langle>l, x, r\<rangle> = (if snd x then blackHeight l else Suc (blackHeight l))"

text \<open>No red node has a red child, and the two subtrees of a node have the same number of black nodes on every path.\<close>

fun balanced :: "ctree \<Rightarrow> bool" where
  "balanced \<langle>\<rangle> \<longleftrightarrow> True"
| "balanced \<langle>l, x, r\<rangle> \<longleftrightarrow> (snd x \<longrightarrow> \<not> redRoot l \<and> \<not> redRoot r) \<and> blackHeight l = blackHeight r \<and> balanced l \<and> balanced r"

definition redBlack :: "ctree \<Rightarrow> bool" where
  "redBlack t \<longleftrightarrow> balanced t \<and> \<not> redRoot t"

fun parentRed :: "frame list \<Rightarrow> bool" where
  "parentRed [] = False"
| "parentRed ((d, x, u) # c) = snd x"

text \<open>A context that takes a balanced tree of black height \<open>h\<close>, if the hole may be red.\<close>

fun balancedCtx :: "frame list \<Rightarrow> nat \<Rightarrow> bool" where
  "balancedCtx [] h \<longleftrightarrow> True"
| "balancedCtx ((d, x, u) # c) h \<longleftrightarrow> balanced u \<and> blackHeight u = h \<and> (snd x \<longrightarrow> \<not> redRoot u \<and> c \<noteq> [] \<and> \<not> parentRed c) \<and>
     balancedCtx c (if snd x then h else Suc h)"

lemma mkNode_rb [simp]:
  "redRoot (mkNode d t x u) = snd x"
  "balanced (mkNode d t x u) \<longleftrightarrow> (snd x \<longrightarrow> \<not> redRoot t \<and> \<not> redRoot u) \<and> blackHeight t = blackHeight u \<and> balanced t \<and> balanced u"
  by (cases d; auto)+

lemma blackHeight_mkNode: "blackHeight t = blackHeight u \<Longrightarrow> blackHeight (mkNode d t x u) = (if snd x then blackHeight t else Suc (blackHeight t))"
  by (cases d) auto

lemma redBlack_plug:
  "redBlack (plug c t) \<longleftrightarrow> balanced t \<and> balancedCtx c (blackHeight t) \<and> (redRoot t \<longrightarrow> c \<noteq> [] \<and> \<not> parentRed c)"
proof (induction c t rule: plug.induct)
  case (2 d x u c t)
  show ?case
  proof (cases "blackHeight t = blackHeight u")
    case True
    then show ?thesis using 2 by (cases "snd x") (auto simp: blackHeight_mkNode)
  next
    case False
    then show ?thesis using 2 by auto
  qed
qed (auto simp: redBlack_def)

lemma inorder_mkNode: "inorder (mkNode d t x u) = (if d = DirLeft then inorder t @ x # inorder u else inorder u @ x # inorder t)"
  by (cases d) auto

text \<open>The nodes left and right of a hole.\<close>

fun before :: "frame list \<Rightarrow> nat list" where
  "before [] = []"
| "before ((d, x, u) # c) = before c @ (if d = DirLeft then [] else addrs u @ [fst x])"

fun after :: "frame list \<Rightarrow> nat list" where
  "after [] = []"
| "after ((d, x, u) # c) = (if d = DirLeft then fst x # addrs u else []) @ after c"

lemma addrs_mkNode_list: "addrs (mkNode d t x u) = (if d = DirLeft then addrs t @ fst x # addrs u else addrs u @ fst x # addrs t)"
  by (cases d) auto

lemma addrs_plug: "addrs (plug c t) = before c @ addrs t @ after c"
  by (induction c t rule: plug.induct) (auto simp: addrs_mkNode_list)

section \<open>The fixup after an insertion\<close>

text \<open>
  What the loop leaves: the same nodes in the same order, and a tree that is red-black once its root is black; after an early
  return it is red-black as it is.
\<close>

definition paint :: "bool \<Rightarrow> ctree \<Rightarrow> ctree" where
  "paint k t = (case t of \<langle>\<rangle> \<Rightarrow> \<langle>\<rangle> | \<langle>l, x, r\<rangle> \<Rightarrow> \<langle>l, (fst x, k), r\<rangle>)"

abbreviation paintBlack :: "ctree \<Rightarrow> ctree" where
  "paintBlack \<equiv> paint False"

lemma paint_simps [simp]: "paint k \<langle>\<rangle> = \<langle>\<rangle>" "paint k \<langle>l, x, r\<rangle> = \<langle>l, (fst x, k), r\<rangle>" "addrs (paint k t) = addrs t"
  "rootAddr (paint k t) = rootAddr t" "paint k (mkNode d t1 x t2) = mkNode d t1 (fst x, k) t2"
  by (cases d; cases t; simp add: paint_def)+

lemma redRoot_paint [simp]: "redRoot (paint k t) \<longleftrightarrow> k \<and> t \<noteq> \<langle>\<rangle>"
  by (cases t) auto

lemma paint_same: "redRoot t = k \<Longrightarrow> paint k t = t"
  by (cases t) (auto simp: prod_eq_iff)

lemma redBlack_paint: "redBlack t \<Longrightarrow> paintBlack t = t"
  by (cases t) (auto simp: redBlack_def prod_eq_iff)

lemma represents_paintRoot: "represents s t \<Longrightarrow> represents (colorIfAny (treeRoot s) False s) (paintBlack t)"
proof (cases t)
  case (Node l x r)
  assume "represents s t"
  then have r: "represents s (plug [] (mkNode DirLeft l (fst x, snd x) r))" using Node by simp
  then have "treeRoot s = Some (fst x)" using represents_node(1) [OF r] by simp
  then show ?thesis using represents_setColor [OF r, of False] Node by simp
qed (simp add: represents_def)

definition fixed :: "'k treeHeap \<Rightarrow> ctree \<Rightarrow> 'k treeHeap \<Rightarrow> ctree \<Rightarrow> bool" where
  "fixed s t s' t' \<longleftrightarrow> represents s' t' \<and> addrs t' = addrs t \<and> dataOf s' = dataOf s"

lemma fixed_trans: "fixed s t s' t' \<Longrightarrow> fixed s' t' s'' t'' \<Longrightarrow> fixed s t s'' t''"
  by (simp add: fixed_def)

lemma fixed_setColor:
  "represents s (plug c (mkNode d l (a, k) r)) \<Longrightarrow> fixed s (plug c (mkNode d l (a, k) r)) (setColor a k' s) (plug c (mkNode d l (a, k') r))"
  by (simp add: fixed_def represents_setColor addrs_plug addrs_mkNode_list)

lemma fixed_rotateSubtree:
  assumes "represents s (plug c (mkNode (opposite d) (mkNode d B (y, ky) C) (x, kx) A))"
  shows "fixed s (plug c (mkNode (opposite d) (mkNode d B (y, ky) C) (x, kx) A))
    (rotateSubtree x d s) (plug c (mkNode d (mkNode (opposite d) B (x, kx) A) (y, ky) C))"
  using represents_rotateSubtree [OF assms] by (cases d) (simp_all add: fixed_def addrs_plug addrs_mkNode_list)

lemma represents_paint: "represents s (plug c t) \<Longrightarrow> represents (colorIfAny (rootAddr t) k s) (plug c (paint k t))"
proof (cases t)
  case (Node l x r)
  assume "represents s (plug c t)"
  then have "represents s (plug c (mkNode DirLeft l (fst x, snd x) r))" using Node by simp
  from represents_setColor [OF this, of k] show ?thesis using Node by simp
qed simp

lemma fixed_paint: "represents s (plug c t) \<Longrightarrow> fixed s (plug c t) (colorIfAny (rootAddr t) k s) (plug c (paint k t))"
  by (simp add: fixed_def represents_paint addrs_plug)

lemma mkNode_flip: "mkNode d t x u = mkNode (opposite d) u x t"
  by (cases d) auto

definition colorChildren :: "nat \<Rightarrow> 'k treeHeap \<Rightarrow> 'k treeHeap" where
  "colorChildren q s = (let s4 = colorIfAny (leftOf s q) True s in colorIfAny (rightOf s4 q) True s4)"

lemma fixed_colorChildren:
  assumes "represents s (plug c (mkNode d t (q, k) u))"
  shows "fixed s (plug c (mkNode d t (q, k) u)) (colorChildren q s) (plug c (mkNode d (paint True t) (q, k) (paint True u)))"
proof -
  obtain l r where lr: "mkNode d t (q, k) u = mkNode DirLeft l (q, k) r" "mkNode d (paint True t) (q, k) (paint True u) = mkNode DirLeft (paint True l) (q, k) (paint True r)"
    by (cases d) auto
  have r0: "represents s (plug ((DirLeft, (q, k), r) # c) l)" using assms lr by simp
  let ?s1 = "colorIfAny (leftOf s q) True s"
  have "leftOf s q = rootAddr l" using represents_node(4) [of s c DirLeft l] r0 by simp
  then have f1: "fixed s (plug ((DirLeft, (q, k), r) # c) l) ?s1 (plug ((DirLeft, (q, k), r) # c) (paint True l))" using fixed_paint [OF r0, of True] by simp
  then have r1: "represents ?s1 (plug ((DirRight, (q, k), paint True l) # c) r)" by (simp add: fixed_def)
  have "rightOf ?s1 q = rootAddr r" using represents_node(4) [of ?s1 c DirRight r] r1 by simp
  then have f2: "fixed ?s1 (plug ((DirRight, (q, k), paint True l) # c) r) (colorIfAny (rightOf ?s1 q) True ?s1) (plug ((DirRight, (q, k), paint True l) # c) (paint True r))"
    using fixed_paint [OF r1, of True] by simp
  show ?thesis using fixed_trans [OF f1] f2 lr by (simp add: colorChildren_def Let_def)
qed

lemma fixed_insertLine:
  assumes "represents s (plug c (mkNode d (mkNode d t (q, kq) u1) (g, kg) u2))"
  shows "fixed s (plug c (mkNode d (mkNode d t (q, kq) u1) (g, kg) u2))
    (colorChildren q (setColor q False (rotateSubtree g (opposite d) s))) (plug c (mkNode d (paint True t) (q, False) (mkNode d u1 (g, True) u2)))"
proof -
  let ?s2 = "rotateSubtree g (opposite d) s"
  have e: "mkNode d (mkNode d t (q, kq) u1) (g, kg) u2 = mkNode (opposite (opposite d)) (mkNode (opposite d) u1 (q, kq) t) (g, kg) u2"
    using mkNode_flip [of d t "(q, kq)" u1] by simp
  have r0: "represents s (plug c (mkNode (opposite (opposite d)) (mkNode (opposite d) u1 (q, kq) t) (g, kg) u2))" using assms unfolding e .
  note f1 = fixed_rotateSubtree [OF r0]
  have e2: "mkNode (opposite d) (mkNode (opposite (opposite d)) u1 (g, kg) u2) (q, kq) t = mkNode d t (q, kq) (mkNode d u1 (g, kg) u2)"
    using mkNode_flip [of d t] by simp
  then have r1: "represents ?s2 (plug c (mkNode d t (q, kq) (mkNode d u1 (g, kg) u2)))" using f1 by (simp add: fixed_def)
  note f2 = fixed_setColor [OF r1, of False]
  then have r2: "represents (setColor q False ?s2) (plug c (mkNode d t (q, False) (mkNode d u1 (g, kg) u2)))" by (simp add: fixed_def)
  note f3 = fixed_colorChildren [OF r2]
  show ?thesis using f1 f2 f3 e2 unfolding e by (simp add: fixed_def)
qed

lemma fixed_insertRotate:
  assumes "represents s (plug ((dp, (p, kp), u1) # (dg, (g, kg), u2) # c) t)" "rootAddr t = Some n" "redRoot t"
  shows "\<exists>t'. fixed s (plug ((dp, (p, kp), u1) # (dg, (g, kg), u2) # c) t) (insertRotate n p g dg s) (plug c t') \<and>
    (balanced t \<and> balanced u1 \<and> balanced u2 \<and> \<not> redRoot u1 \<and> \<not> redRoot u2 \<and> blackHeight t = blackHeight u1 \<and> blackHeight u2 = blackHeight u1 \<longrightarrow>
       balanced t' \<and> \<not> redRoot t' \<and> blackHeight t' = Suc (blackHeight u1))"
proof -
  have dir: "getChildDirection p (Some n) s = dp" using represents_side(3) [OF assms(1,2)] .
  show ?thesis
  proof (cases "dp = dg")
    case True
    have r: "represents s (plug c (mkNode dg (mkNode dg t (p, kp) u1) (g, kg) u2))" using assms(1) True by simp
    have "insertRotate n p g dg s = colorChildren p (setColor p False (rotateSubtree g (opposite dg) s))"
      using dir True by (simp add: insertRotate_def colorChildren_def Let_def)
    then show ?thesis using fixed_insertLine [OF r] True assms(3)
      by (intro exI [of _ "mkNode dg (paint True t) (p, False) (mkNode dg u1 (g, True) u2)"]) (simp add: blackHeight_mkNode paint_same)
  next
    case False
    then have op: "dp = opposite dg" by (cases dp; cases dg) auto
    obtain tl tr where t: "t = mkNode dg tl (n, True) tr" using assms(2,3) by (cases t; cases dg) (auto simp: prod_eq_iff)
    have r: "represents s (plug ((dg, (g, kg), u2) # c) (mkNode (opposite dg) (mkNode dg tl (n, True) tr) (p, kp) u1))" using assms(1) t op by simp
    note f1 = fixed_rotateSubtree [OF r]
    let ?s1 = "rotateSubtree p dg s"
    have r1: "represents ?s1 (plug c (mkNode dg (mkNode dg (mkNode (opposite dg) tl (p, kp) u1) (n, True) tr) (g, kg) u2))" using f1 by (simp add: fixed_def)
    note f2 = fixed_insertLine [OF r1]
    have "insertRotate n p g dg s = colorChildren n (setColor n False (rotateSubtree g (opposite dg) ?s1))"
      using dir op by (simp add: insertRotate_def colorChildren_def Let_def)
    then have "fixed s (plug ((dp, (p, kp), u1) # (dg, (g, kg), u2) # c) t) (insertRotate n p g dg s)
      (plug c (mkNode dg (mkNode (opposite dg) tl (p, True) u1) (n, False) (mkNode dg tr (g, True) u2)))"
      using f1 f2 t op by (simp add: fixed_def)
    then show ?thesis using t
      by (intro exI [of _ "mkNode dg (mkNode (opposite dg) tl (p, True) u1) (n, False) (mkNode dg tr (g, True) u2)"]) (auto simp: blackHeight_mkNode)
  qed
qed

lemma represents_isRed: "represents s (plug c t) \<Longrightarrow> isRedNode (rootAddr t) s = redRoot t"
  by (cases t) (auto simp: represents_plug)

lemma redBlack_paintBlack: "balanced t \<Longrightarrow> redBlack (paintBlack t)"
  by (cases t) (auto simp: redBlack_def)

text \<open>Recolouring parent, uncle and grandparent.\<close>

lemma fixed_insertRecolor:
  assumes "represents s (plug c (mkNode dg (mkNode dp t (p, kp) u1) (g, kg) u2))"
  shows "fixed s (plug c (mkNode dg (mkNode dp t (p, kp) u1) (g, kg) u2)) (setColor g True (colorIfAny (rootAddr u2) False (setColor p False s)))
    (plug c (mkNode dg (mkNode dp t (p, False) u1) (g, True) (paintBlack u2)))"
proof -
  have r0: "represents s (plug ((dg, (g, kg), u2) # c) (mkNode dp t (p, kp) u1))" using assms by simp
  note f1 = fixed_setColor [OF r0, of False]
  have r1: "represents (setColor p False s) (plug ((opposite dg, (g, kg), mkNode dp t (p, False) u1) # c) u2)"
    using f1 mkNode_flip [of dg "mkNode dp t (p, False) u1"] by (simp add: fixed_def)
  note f2 = fixed_paint [OF r1, of False]
  have r2: "represents (colorIfAny (rootAddr u2) False (setColor p False s)) (plug c (mkNode dg (mkNode dp t (p, False) u1) (g, kg) (paintBlack u2)))"
    using f2 mkNode_flip [of dg "mkNode dp t (p, False) u1"] by (simp add: fixed_def)
  note f3 = fixed_setColor [OF r2, of True]
  show ?thesis using f1 f2 f3 by (simp add: fixed_def addrs_plug addrs_mkNode_list)
qed

lemma blackHeight_paintBlack: "balanced u \<Longrightarrow> redRoot u \<Longrightarrow> balanced (paintBlack u) \<and> blackHeight (paintBlack u) = Suc (blackHeight u)"
  by (cases u) auto

lemma insertFixupLoop_ok:
  assumes "represents s (plug c t)" "rootAddr t = Some n" "redRoot t" "balanced t" "balancedCtx c (blackHeight t)"
  shows "\<exists>b s' t'. insertFixupLoop n s = Some (b, s') \<and> fixed s (plug c t) s' t' \<and> redBlack (paintBlack t') \<and> (b \<longrightarrow> redBlack t')"
  using assms
proof (induction "length c" arbitrary: c t s n rule: less_induct)
  case less
  note r = less.prems(1) and n = less.prems(2) and red = less.prems(3) and bal = less.prems(4) and ctx = less.prems(5)
  have self: "fixed s (plug c t) s (plug c t)" using r by (simp add: fixed_def)
  consider "c = []" | d p k u where "c = [(d, (p, k), u)]" | dp p kp u1 dg g kg u2 c' where "c = (dp, (p, kp), u1) # (dg, (g, kg), u2) # c'"
    by (metis list.exhaust prod.exhaust)
  then show ?case
  proof cases
    case 1
    then have "parentOf s n = None" using r n by (cases t) (auto simp: represents_def)
    then have "insertFixupLoop n s = Some (False, s)" by (subst insertFixupLoop.simps) simp
    then show ?thesis using self bal redBlack_paintBlack 1 by auto
  next
    case 2
    have p: "parentOf s n = Some p" using represents_side(1) r n 2 by metis
    have "parentOf s p = None" using represents_node(2) [of s "[]" d t p k u] r 2 by simp
    then have "insertFixupLoop n s = Some (False, s)" using p by (subst insertFixupLoop.simps) simp
    moreover have "redBlack (plug c t)" using bal ctx 2 by (auto simp: redBlack_plug simp del: plug.simps)
    ultimately show ?thesis using self redBlack_paint by metis
  next
    case 3
    have p: "parentOf s n = Some p" using represents_side(1) r n 3 by metis
    have r1: "represents s (plug ((dg, (g, kg), u2) # c') (mkNode dp t (p, kp) u1))" using r 3 by simp
    have g: "parentOf s p = Some g" "redOf s p = kp" "getChildDirection g (Some p) s = dg"
      using represents_node(2,3) [OF r1] represents_side(3) [OF r1] by simp_all
    have r2: "represents s (plug c' (mkNode dg (mkNode dp t (p, kp) u1) (g, kg) u2))" using r1 by simp
    have u: "getChild g (opposite dg) s = rootAddr u2" using represents_node(5) [OF r2] .
    have "represents s (plug ((opposite dg, (g, kg), mkNode dp t (p, kp) u1) # c') u2)" using r2 mkNode_flip [of dg "mkNode dp t (p, kp) u1"] by simp
    then have ur: "isRedNode (rootAddr u2) s = redRoot u2" by (rule represents_isRed)
    show ?thesis
    proof (cases kp)
      case False
      then have "insertFixupLoop n s = Some (True, s)" using p g by (subst insertFixupLoop.simps) simp
      moreover have "redBlack (plug c t)" using bal ctx False 3 by (auto simp: redBlack_plug simp del: plug.simps)
      ultimately show ?thesis using self redBlack_paint by metis
    next
      case True
      have b: "balanced u1" "blackHeight u1 = blackHeight t" "\<not> redRoot u1" "\<not> kg" "balanced u2" "blackHeight u2 = blackHeight t" "balancedCtx c' (Suc (blackHeight t))"
        using ctx 3 True by auto
      show ?thesis
      proof (cases "redRoot u2")
        case red2: True
        let ?s = "setColor g True (colorIfAny (rootAddr u2) False (setColor p False s))"
        let ?t = "mkNode dg (mkNode dp t (p, False) u1) (g, True) (paintBlack u2)"
        have f: "fixed s (plug c t) ?s (plug c' ?t)" using fixed_insertRecolor [OF r2] 3 by simp
        have "\<exists>b s' t'. insertFixupLoop g ?s = Some (b, s') \<and> fixed ?s (plug c' ?t) s' t' \<and> redBlack (paintBlack t') \<and> (b \<longrightarrow> redBlack t')"
          by (rule less.hyps) (use 3 f b bal blackHeight_paintBlack [OF b(5) red2] in \<open>auto simp: fixed_def blackHeight_mkNode\<close>)
        moreover have "insertFixupLoop n s = insertFixupLoop g ?s" using p g u ur red2 True by (subst insertFixupLoop.simps) (simp add: Let_def)
        ultimately show ?thesis using fixed_trans [OF f] by metis
      next
        case False
        have e: "insertFixupLoop n s = Some (False, insertRotate n p g dg s)" using p g u ur False True by (subst insertFixupLoop.simps) (simp add: Let_def)
        obtain t' where t': "fixed s (plug c t) (insertRotate n p g dg s) (plug c' t')" "balanced t'" "\<not> redRoot t'" "blackHeight t' = Suc (blackHeight u1)"
          using fixed_insertRotate [OF r [unfolded 3] n red] b bal False unfolding 3 by auto
        have "redBlack (plug c' t')" using t' b by (simp add: redBlack_plug)
        then show ?thesis using e t'(1) redBlack_paint by metis
      qed
    qed
  qed
qed

lemma insertFixup_ok:
  assumes "represents s (plug c t)" "rootAddr t = Some n" "redRoot t" "balanced t" "balancedCtx c (blackHeight t)"
  shows "\<exists>s' t'. insertFixup n s = Some s' \<and> fixed s (plug c t) s' t' \<and> redBlack t'"
proof -
  obtain b s' t' where l: "insertFixupLoop n s = Some (b, s')" "fixed s (plug c t) s' t'" "redBlack (paintBlack t')" "b \<longrightarrow> redBlack t'"
    using insertFixupLoop_ok [OF assms] by blast
  then have "represents (colorIfAny (treeRoot s') False s') (paintBlack t')" using represents_paintRoot by (auto simp: fixed_def)
  then have "fixed s (plug c t) (colorIfAny (treeRoot s') False s') (paintBlack t')" using l(2) by (simp add: fixed_def)
  then show ?thesis using l by (cases b) (auto simp: insertFixup_def)
qed

end
