(* ===== verification/Rb_Search.thy ===== *)
theory Rb_Search
  imports Rb_Insert
begin

text \<open>
  Search trees: the data of the nodes increase from left to right. The descents of \<open>core/ds/Trees.h\<close> (\<open>insertImpl\<close>, \<open>findImpl\<close>, \<open>floorImpl\<close>,
  \<open>ceilImpl\<close>, \<open>successorImpl\<close>, \<open>predecessorImpl\<close>, \<open>min\<close>, \<open>max\<close>) for a comparator that is a strict total order, and insertion as a whole.
\<close>

section \<open>Comparators of trees\<close>

locale total_order = weak_order +
  assumes trichotomy: "\<lbrakk>\<not> cmp x y; \<not> cmp y x\<rbrakk> \<Longrightarrow> x = y"

interpretation default_total: total_order "DefaultComparator :: 'a::linorder \<Rightarrow> 'a \<Rightarrow> bool"
  by unfold_locales (auto simp: DefaultComparator_def)

definition ordered :: "('k \<Rightarrow> 'k \<Rightarrow> bool) \<Rightarrow> 'k treeHeap \<Rightarrow> nat list \<Rightarrow> bool" where
  "ordered cmp s xs \<longleftrightarrow> sorted_wrt cmp (map (dataOf s) xs)"

lemma ordered_append:
  "ordered cmp s (xs @ ys) \<longleftrightarrow> ordered cmp s xs \<and> ordered cmp s ys \<and> (\<forall>x\<in>set xs. \<forall>y\<in>set ys. cmp (dataOf s x) (dataOf s y))"
  by (auto simp: ordered_def sorted_wrt_append)

lemma ordered_Cons: "ordered cmp s (x # xs) \<longleftrightarrow> (\<forall>y\<in>set xs. cmp (dataOf s x) (dataOf s y)) \<and> ordered cmp s xs"
  by (auto simp: ordered_def)

lemma ordered_Nil [simp]: "ordered cmp s []"
  by (simp add: ordered_def)

lemma ordered_data: "dataOf s' = dataOf s \<Longrightarrow> ordered cmp s' = ordered cmp s"
  by (rule ext) (simp add: ordered_def)

text \<open>The store holds a red-black search tree with the nodes \<open>xs\<close>, from the smallest to the largest.\<close>

definition rbTree :: "('k \<Rightarrow> 'k \<Rightarrow> bool) \<Rightarrow> 'k treeHeap \<Rightarrow> nat list \<Rightarrow> bool" where
  "rbTree cmp s xs \<longleftrightarrow> ordered cmp s xs \<and> (\<exists>t. represents s t \<and> redBlack t \<and> addrs t = xs)"

definition unlinked :: "nat \<Rightarrow> 'k treeHeap \<Rightarrow> 'k treeHeap" where
  "unlinked n s = setParent n None (setChild n DirRight None (setChild n DirLeft None s))"

lemma represents_unlinked: "represents s t \<Longrightarrow> n \<notin> set (addrs t) \<Longrightarrow> represents (unlinked n s) t"
  by (simp add: represents_def unlinked_def)

context total_order
begin


lemma insertDescend_ok:
  assumes "represents s (plug c t)" "ordered cmp s (addrs (plug c t))" "\<forall>a\<in>set (before c). cmp (dataOf s a) k" "\<forall>a\<in>set (after c). cmp k (dataOf s a)"
  shows "if k \<in> dataOf s ` set (addrs t) then insertDescend cmp k (holeRef c) (holeParent c) s = Some None
    else \<exists>c'. insertDescend cmp k (holeRef c) (holeParent c) s = Some (Some (holeRef c', holeParent c')) \<and> plug c' \<langle>\<rangle> = plug c t \<and>
      (\<forall>a\<in>set (before c'). cmp (dataOf s a) k) \<and> (\<forall>a\<in>set (after c'). cmp k (dataOf s a))"
  using assms
proof (induction t arbitrary: c)
  case Leaf
  then have "readRef (holeRef c) s = None" by (simp add: represents_plug)
  then show ?case using Leaf by (subst insertDescend.simps, subst insertDescend.simps) auto
next
  case (Node l x r)
  obtain a ka where x: "x = (a, ka)" by (cases x)
  have rd: "readRef (holeRef c) s = Some a" using Node.prems(1) by (simp add: represents_plug x)
  have o: "ordered cmp s (addrs l)" "ordered cmp s (addrs r)" "\<forall>b\<in>set (addrs l). cmp (dataOf s b) (dataOf s a)" "\<forall>b\<in>set (addrs r). cmp (dataOf s a) (dataOf s b)"
    using Node.prems(2) by (auto simp: addrs_plug ordered_append ordered_Cons x)
  show ?case
  proof (cases "k = dataOf s a")
    case True
    then show ?thesis using rd x by (subst insertDescend.simps) auto
  next
    case False
    have step: "insertDescend cmp k (holeRef c) (holeParent c) s = insertDescend cmp k (ChildRef a (if cmp k (dataOf s a) then DirLeft else DirRight)) (Some a) s"
      using rd False by (subst insertDescend.simps) simp
    show ?thesis
    proof (cases "cmp k (dataOf s a)")
      case True
      let ?c = "(DirLeft, (a, ka), r) # c"
      have "k \<notin> dataOf s ` set (addrs r)" using True o(4) less_trans asym by blast
      moreover have "\<forall>b\<in>set (after ?c). cmp k (dataOf s b)" using True o(4) less_trans Node.prems(4) by auto
      ultimately show ?thesis using Node.IH(1) [of ?c] Node.prems step True False x by (auto simp: if_distrib split: if_splits)
    next
      case ge: False
      let ?c = "(DirRight, (a, ka), l) # c"
      have gt: "cmp (dataOf s a) k" using ge False trichotomy by blast
      have "k \<notin> dataOf s ` set (addrs l)" using gt o(3) less_trans asym by blast
      moreover have "\<forall>b\<in>set (before ?c). cmp (dataOf s b) k" using gt o(3) less_trans Node.prems(3) by auto
      ultimately show ?thesis using Node.IH(2) [of ?c] Node.prems step ge False x by (auto simp: if_distrib split: if_splits)
    qed
  qed
qed

lemma insertImpl_ok:
  assumes "rbTree cmp s xs" "n \<notin> set xs"
  shows "if dataOf s n \<in> dataOf s ` set xs
    then \<exists>s'. insertImpl cmp (Some n) s = Some (False, s') \<and> rbTree cmp s' xs \<and> dataOf s' = dataOf s
    else \<exists>s' ys zs. insertImpl cmp (Some n) s = Some (True, s') \<and> rbTree cmp s' (ys @ n # zs) \<and> xs = ys @ zs \<and> dataOf s' = dataOf s"
proof -
  obtain t where t: "represents s t" "redBlack t" "addrs t = xs" "ordered cmp s xs" using assms(1) by (auto simp: rbTree_def)
  let ?s1 = "unlinked n s" and ?k = "dataOf s n"
  have r1: "represents ?s1 (plug [] t)" using represents_unlinked [OF t(1)] assms(2) t(3) by simp
  have d1: "dataOf ?s1 = dataOf s" by (simp add: unlinked_def)
  have o1: "ordered cmp ?s1 = ordered cmp s" by (rule ordered_data) (rule d1)
  have root: "treeRoot ?s1 = rootAddr t" using r1 by (auto simp: represents_def dest: shape_rootAddr)
  show ?thesis
  proof (cases "t = \<langle>\<rangle>")
    case True
    let ?s = "setColor n False (?s1\<lparr>treeRoot := Some n\<rparr>)"
    have "insertImpl cmp (Some n) s = Some (True, ?s)" using True root by (auto simp: insertImpl_def unlinked_def Let_def)
    moreover have "represents ?s \<langle>\<langle>\<rangle>, (n, False), \<langle>\<rangle>\<rangle>" "redBlack \<langle>\<langle>\<rangle>, (n, False), \<langle>\<rangle>\<rangle>" by (simp_all add: represents_def redBlack_def unlinked_def)
    then have "rbTree cmp ?s ([] @ n # [])" unfolding rbTree_def by (auto simp: ordered_Cons intro!: exI [of _ "\<langle>\<langle>\<rangle>, (n, False), \<langle>\<rangle>\<rangle>"])
    moreover have "xs = []" using t(3) True by simp
    ultimately show ?thesis using d1 by auto
  next
    case False
    have D: "if ?k \<in> dataOf s ` set (addrs t) then insertDescend cmp ?k RootRef None ?s1 = Some None
      else \<exists>c. insertDescend cmp ?k RootRef None ?s1 = Some (Some (holeRef c, holeParent c)) \<and> plug c \<langle>\<rangle> = t \<and>
        (\<forall>a\<in>set (before c). cmp (dataOf s a) ?k) \<and> (\<forall>a\<in>set (after c). cmp ?k (dataOf s a))"
      using insertDescend_ok [OF r1, of ?k] t(3,4) by (simp add: o1 d1 cong: if_cong split del: if_split)
    have root': "treeRoot ?s1 \<noteq> None" using root False by simp
    show ?thesis
    proof (cases "?k \<in> dataOf s ` set (addrs t)")
      case True
      then have "insertImpl cmp (Some n) s = Some (False, ?s1)" using D root' d1 by (auto simp: insertImpl_def unlinked_def Let_def)
      moreover have "rbTree cmp ?s1 xs" using r1 t o1 by (auto simp: rbTree_def)
      ultimately show ?thesis using True t(3) d1 by auto
    next
      case new: False
      then obtain c where c: "insertDescend cmp ?k RootRef None ?s1 = Some (Some (holeRef c, holeParent c))" "plug c \<langle>\<rangle> = t"
        "\<forall>a\<in>set (before c). cmp (dataOf s a) ?k" "\<forall>a\<in>set (after c). cmp ?k (dataOf s a)" using D by auto
      let ?s2 = "setParent n (holeParent c) (setColor n True (writeRef (holeRef c) (Some n) ?s1))" and ?t = "plug c \<langle>\<langle>\<rangle>, (n, True), \<langle>\<rangle>\<rangle>"
      have r2: "represents ?s2 ?t"
        by (rule represents_attach) (use r1 c(2) assms(2) t(3) in \<open>auto simp: unlinked_def\<close>)
      have "balancedCtx c 0" using t(2) c(2) redBlack_plug [of c "\<langle>\<rangle>"] by simp
      then obtain s' t' where f: "insertFixup n ?s2 = Some s'" "fixed ?s2 ?t s' t'" "redBlack t'" using insertFixup_ok [OF r2] by auto
      have d': "dataOf s' = dataOf s" using f(2) d1 by (simp add: fixed_def)
      have "insertImpl cmp (Some n) s = Some (True, s')" using c(1) f(1) root' d1 by (auto simp: insertImpl_def unlinked_def Let_def)
      moreover have xs: "xs = before c @ after c" using t(3) c(2) addrs_plug [of c "\<langle>\<rangle>"] by simp
      moreover have "ordered cmp s (before c @ n # after c)" using t(4) xs c(3,4) by (auto simp: ordered_append ordered_Cons)
      then have "rbTree cmp s' (before c @ n # after c)" using f ordered_data [OF d'] by (auto simp: rbTree_def fixed_def addrs_plug)
      ultimately show ?thesis using new t(3) d' by auto
    qed
  qed
qed

end

end
