(* ===== verification/Rb_Erase.thy ===== *)
theory Rb_Erase
  imports Rb_Search
begin

text \<open>
  Removal from the red-black tree of \<open>core/ds/Trees.h\<close>: the loop of \<open>eraseFixup\<close> repairs a tree whose hole lacks one black node,
  and \<open>eraseImpl\<close> removes exactly the node it is given.
\<close>

section \<open>One round of the fixup\<close>

text \<open>The hole \<open>t\<close> below \<open>p\<close> is one black node short, its sibling is \<open>\<langle>near, q, far\<rangle>\<close>.\<close>

lemma sibling_reads:
  assumes "represents s (plug c (mkNode d t (p, kp) (mkNode d near (q, kq) far)))"
  shows "getChild p (opposite d) s = Some q" "redOf s p = kp" "redOf s q = kq" "parentOf s p = holeParent c"
    "getChild q d s = rootAddr near" "getChild q (opposite d) s = rootAddr far"
    "isRedNode (rootAddr near) s = redRoot near" "isRedNode (rootAddr far) s = redRoot far"
proof -
  show "getChild p (opposite d) s = Some q" "redOf s p = kp" "parentOf s p = holeParent c" using represents_node [OF assms] by simp_all
  have r: "represents s (plug ((opposite d, (p, kp), t) # c) (mkNode d near (q, kq) far))" using assms mkNode_flip [of d t] by simp
  show "redOf s q = kq" "getChild q d s = rootAddr near" "getChild q (opposite d) s = rootAddr far" using represents_node [OF r] by simp_all
  have n: "represents s (plug ((d, (q, kq), far) # (opposite d, (p, kp), t) # c) near)" and f: "represents s (plug ((opposite d, (q, kq), near) # (opposite d, (p, kp), t) # c) far)"
    using r mkNode_flip [of d near] by simp_all
  show "isRedNode (rootAddr near) s = redRoot near" "isRedNode (rootAddr far) s = redRoot far" using represents_isRed [OF n] represents_isRed [OF f] .
qed

lemma fixed_sibling_color:
  assumes "represents s (plug c (mkNode d t (p, kp) (mkNode d near (q, kq) far)))"
  shows "fixed s (plug c (mkNode d t (p, kp) (mkNode d near (q, kq) far))) (setColor q k s) (plug c (mkNode d t (p, kp) (mkNode d near (q, k) far)))"
proof -
  have "represents s (plug ((opposite d, (p, kp), t) # c) (mkNode d near (q, kq) far))" using assms mkNode_flip [of d t] by simp
  from fixed_setColor [OF this, of k] show ?thesis using mkNode_flip [of d t] by simp
qed

lemma fixed_near_color:
  assumes "represents s (plug c (mkNode d t (p, kp) (mkNode d near (q, kq) far)))"
  shows "fixed s (plug c (mkNode d t (p, kp) (mkNode d near (q, kq) far))) (colorIfAny (rootAddr near) k s) (plug c (mkNode d t (p, kp) (mkNode d (paint k near) (q, kq) far)))"
proof -
  have "represents s (plug ((d, (q, kq), far) # (opposite d, (p, kp), t) # c) near)" using assms mkNode_flip [of d t] by simp
  from fixed_paint [OF this, of k] show ?thesis using mkNode_flip [of d t] by simp
qed

lemma fixed_far_color:
  assumes "represents s (plug c (mkNode d t (p, kp) (mkNode d near (q, kq) far)))"
  shows "fixed s (plug c (mkNode d t (p, kp) (mkNode d near (q, kq) far))) (colorIfAny (rootAddr far) k s) (plug c (mkNode d t (p, kp) (mkNode d near (q, kq) (paint k far))))"
proof -
  have "represents s (plug ((opposite d, (q, kq), near) # (opposite d, (p, kp), t) # c) far)" using assms mkNode_flip [of d t] mkNode_flip [of d near] by simp
  from fixed_paint [OF this, of k] show ?thesis using mkNode_flip [of d t] mkNode_flip [of d near] by simp
qed

lemma fixed_parent_rotate:
  assumes "represents s (plug c (mkNode d t (p, kp) (mkNode d near (q, kq) far)))"
  shows "fixed s (plug c (mkNode d t (p, kp) (mkNode d near (q, kq) far))) (rotateSubtree p d s) (plug c (mkNode d (mkNode d t (p, kp) near) (q, kq) far))"
proof -
  have "represents s (plug c (mkNode (opposite d) (mkNode d near (q, kq) far) (p, kp) t))" using assms mkNode_flip [of d t] by simp
  from fixed_rotateSubtree [OF this] show ?thesis using mkNode_flip [of d t] by simp
qed

lemma fixed_sibling_rotate:
  assumes "represents s (plug c (mkNode d t (p, kp) (mkNode d (mkNode d nl (m, km) nr) (q, kq) far)))"
  shows "fixed s (plug c (mkNode d t (p, kp) (mkNode d (mkNode d nl (m, km) nr) (q, kq) far))) (rotateSubtree q (opposite d) s)
    (plug c (mkNode d t (p, kp) (mkNode d nl (m, km) (mkNode d nr (q, kq) far))))"
proof -
  have e: "plug ((opposite d, (p, kp), t) # c) (mkNode (opposite (opposite d)) (mkNode (opposite d) nr (m, km) nl) (q, kq) far) =
      plug c (mkNode d t (p, kp) (mkNode d (mkNode d nl (m, km) nr) (q, kq) far))"
    using mkNode_flip [of d t] mkNode_flip [of d nl] by simp
  have "represents s (plug ((opposite d, (p, kp), t) # c) (mkNode (opposite (opposite d)) (mkNode (opposite d) nr (m, km) nl) (q, kq) far))" using assms unfolding e .
  from fixed_rotateSubtree [OF this] show ?thesis unfolding e using mkNode_flip [of d t] mkNode_flip [of d nl] by simp
qed

text \<open>The last case: the far nephew is red.\<close>

definition eraseFar :: "nat \<Rightarrow> nat \<Rightarrow> direction \<Rightarrow> nat option \<Rightarrow> 'k treeHeap \<Rightarrow> 'k treeHeap" where
  "eraseFar p q d f s = rotateSubtree p d (colorIfAny f False (setColor p False (setColor q (redOf s p) s)))"

lemma fixed_eraseFar:
  assumes "represents s (plug c (mkNode d t (p, kp) (mkNode d near (q, kq) far)))"
  shows "fixed s (plug c (mkNode d t (p, kp) (mkNode d near (q, kq) far))) (eraseFar p q d (rootAddr far) s)
    (plug c (mkNode d (mkNode d t (p, False) near) (q, kp) (paintBlack far)))"
proof -
  have k: "redOf s p = kp" using sibling_reads(2) [OF assms] .
  note f1 = fixed_sibling_color [OF assms, of kp]
  then have r1: "represents (setColor q kp s) (plug c (mkNode d t (p, kp) (mkNode d near (q, kp) far)))" by (simp add: fixed_def)
  note f2 = fixed_setColor [OF r1, of False]
  then have r2: "represents (setColor p False (setColor q kp s)) (plug c (mkNode d t (p, False) (mkNode d near (q, kp) far)))" by (simp add: fixed_def)
  note f3 = fixed_far_color [OF r2, of False]
  then have r3: "represents (colorIfAny (rootAddr far) False (setColor p False (setColor q kp s))) (plug c (mkNode d t (p, False) (mkNode d near (q, kp) (paintBlack far))))"
    by (simp add: fixed_def)
  note f4 = fixed_parent_rotate [OF r3]
  show ?thesis unfolding eraseFar_def k by (rule fixed_trans [OF f1 fixed_trans [OF f2 fixed_trans [OF f3 f4]]])
qed

lemma redBlack_eraseFar:
  assumes "balancedCtx ((d, (p, kp), mkNode d near (q, False) far) # c) (Suc (blackHeight t))" "balanced t" "\<not> redRoot t" "redRoot far"
  shows "redBlack (plug c (mkNode d (mkNode d t (p, False) near) (q, kp) (paintBlack far)))"
proof -
  have b: "balanced near" "balanced far" "blackHeight near = blackHeight t" "blackHeight far = blackHeight t" "kp \<Longrightarrow> c \<noteq> [] \<and> \<not> parentRed c"
    "balancedCtx c (if kp then Suc (blackHeight t) else Suc (Suc (blackHeight t)))"
    using assms(1) by (auto simp: blackHeight_mkNode split: if_splits)
  have "balanced (paintBlack far)" "blackHeight (paintBlack far) = Suc (blackHeight far)" using blackHeight_paintBlack [OF b(2) assms(4)] by auto
  then show ?thesis using assms(2,3) b by (auto simp: redBlack_plug blackHeight_mkNode)
qed

text \<open>A round with a black sibling: it ends the loop, or moves up.\<close>

lemma eraseNephews_red:
  assumes r: "represents s (plug c (mkNode d t (p, kp) (mkNode d near (q, False) far)))" and red: "redRoot near \<or> redRoot far"
    and bal: "balancedCtx ((d, (p, kp), mkNode d near (q, False) far) # c) (Suc (blackHeight t))" "balanced t" "\<not> redRoot t"
  shows "\<exists>s' t'. eraseNephews p q d s = Inr (None, s') \<and> fixed s (plug c (mkNode d t (p, kp) (mkNode d near (q, False) far))) s' t' \<and> redBlack t'"
proof (cases "redRoot far")
  case True
  have "eraseNephews p q d s = Inr (None, eraseFar p q d (rootAddr far) s)"
    using sibling_reads [OF r] True by (simp add: eraseNephews_def eraseFar_def Let_def)
  then show ?thesis using fixed_eraseFar [OF r] redBlack_eraseFar [OF bal True] by blast
next
  case False
  then obtain nl m nr where near: "near = mkNode d nl (m, True) nr" using red by (cases near; cases d) (auto simp: prod_eq_iff)
  let ?s1 = "colorIfAny (rootAddr near) False s"
  note f1 = fixed_near_color [OF r, of False]
  then have r1: "represents ?s1 (plug c (mkNode d t (p, kp) (mkNode d (mkNode d nl (m, False) nr) (q, False) far)))" by (simp add: fixed_def near)
  note f2 = fixed_sibling_color [OF r1, of True]
  then have r2: "represents (setColor q True ?s1) (plug c (mkNode d t (p, kp) (mkNode d (mkNode d nl (m, False) nr) (q, True) far)))" by (simp add: fixed_def)
  note f3 = fixed_sibling_rotate [OF r2]
  let ?s3 = "rotateSubtree q (opposite d) (setColor q True ?s1)" and ?far = "mkNode d nr (q, True) far"
  have r3: "represents ?s3 (plug c (mkNode d t (p, kp) (mkNode d nl (m, False) ?far)))" using f3 by (simp add: fixed_def)
  have "eraseNephews p q d s = Inr (None, eraseFar p m d (rootAddr ?far) ?s3)"
    using sibling_reads [OF r] sibling_reads [OF r3] False near by (simp add: eraseNephews_def eraseFar_def Let_def)
  moreover have "fixed s (plug c (mkNode d t (p, kp) (mkNode d near (q, False) far))) ?s3 (plug c (mkNode d t (p, kp) (mkNode d nl (m, False) ?far)))"
    using f1 f2 f3 near by (simp add: fixed_def)
  then have "fixed s (plug c (mkNode d t (p, kp) (mkNode d near (q, False) far))) (eraseFar p m d (rootAddr ?far) ?s3)
      (plug c (mkNode d (mkNode d t (p, False) nl) (m, kp) (paintBlack ?far)))" by (rule fixed_trans) (rule fixed_eraseFar [OF r3])
  moreover have "balancedCtx ((d, (p, kp), mkNode d nl (m, False) ?far) # c) (Suc (blackHeight t))"
    using bal(1) False near by (auto simp: blackHeight_mkNode)
  then have "redBlack (plug c (mkNode d (mkNode d t (p, False) nl) (m, kp) (paintBlack ?far)))" by (rule redBlack_eraseFar) (use bal in simp_all)
  ultimately show ?thesis by blast
qed

lemma eraseNephews_black:
  assumes r: "represents s (plug c (mkNode d t (p, kp) (mkNode d near (q, False) far)))" and black: "\<not> redRoot near" "\<not> redRoot far"
    and bal: "balancedCtx ((d, (p, kp), mkNode d near (q, False) far) # c) (Suc (blackHeight t))" "balanced t" "\<not> redRoot t"
  shows "\<exists>s' t'. fixed s (plug c (mkNode d t (p, kp) (mkNode d near (q, False) far))) s' (plug c t') \<and> balanced t' \<and> \<not> redRoot t' \<and> blackHeight t' = Suc (blackHeight t) \<and>
    eraseNephews p q d s = Inr (if kp then None else (case c of [] \<Rightarrow> None | (dg, g, u) # c' \<Rightarrow> Some (fst g, dg)), s')"
proof -
  let ?s1 = "setColor q True s"
  note f1 = fixed_sibling_color [OF r, of True]
  then have r1: "represents ?s1 (plug c (mkNode d t (p, kp) (mkNode d near (q, True) far)))" by (simp add: fixed_def)
  note R = sibling_reads [OF r] and R1 = sibling_reads [OF r1]
  have b: "balanced near" "balanced far" "blackHeight near = blackHeight t" "blackHeight far = blackHeight t"
    using bal(1) by (auto simp: blackHeight_mkNode)
  let ?t = "mkNode d t (p, False) (mkNode d near (q, True) far)"
  have T: "balanced ?t" "\<not> redRoot ?t" "blackHeight ?t = Suc (blackHeight t)" using b black bal(2,3) by (auto simp: blackHeight_mkNode)
  show ?thesis
  proof (cases kp)
    case True
    have "eraseNephews p q d s = Inr (None, setColor p False ?s1)" using R R1 black True by (simp add: eraseNephews_def Let_def)
    then show ?thesis using fixed_trans [OF f1 fixed_setColor [OF r1, of False]] T True by auto
  next
    case False
    have "eraseNephews p q d s = Inr (case c of [] \<Rightarrow> None | (dg, g, u) # c' \<Rightarrow> Some (fst g, dg), ?s1)"
    proof (cases c rule: holeParent.cases)
      case 1
      then show ?thesis using R R1 black False by (simp add: eraseNephews_def Let_def)
    next
      case (2 dg g u c')
      then have "represents ?s1 (plug ((dg, (fst g, snd g), u) # c') (mkNode d t (p, kp) (mkNode d near (q, True) far)))" using r1 by simp
      from represents_side(3) [OF this] have "getChildDirection (fst g) (Some p) ?s1 = dg" by simp
      then show ?thesis using R R1 black False 2 by (simp add: eraseNephews_def Let_def)
    qed
    then show ?thesis using f1 T False by auto
  qed
qed

section \<open>The loop of the fixup\<close>

lemma sibling_exists:
  assumes "balancedCtx ((d, (p, kp), u) # c) (Suc h)"
  obtains near q kq far where "u = mkNode d near (q, kq) far"
  using assms by (cases u; cases d) auto

lemma eraseFixupLoop_red_parent:
  assumes r: "represents s (plug ((d, (p, True), u) # c) t)" and bal: "balancedCtx ((d, (p, True), u) # c) (Suc (blackHeight t))" "balanced t" "\<not> redRoot t"
  shows "\<exists>s' t'. eraseFixupLoop p d s = Some (Inr s') \<and> fixed s (plug ((d, (p, True), u) # c) t) s' t' \<and> redBlack t'"
proof -
  obtain near q kq far where u: "u = mkNode d near (q, kq) far" using sibling_exists [OF bal(1)] .
  have kq: "kq = False" using bal(1) u by auto
  have r': "represents s (plug c (mkNode d t (p, True) (mkNode d near (q, False) far)))" using r u kq by simp
  note R = sibling_reads [OF r']
  note bal' = bal(1) [unfolded u kq] bal(2,3)
  have step: "eraseFixupStep p d s = eraseNephews p q d s" using R by (simp add: eraseFixupStep_def)
  show ?thesis
  proof (cases "redRoot near \<or> redRoot far")
    case True
    then show ?thesis using eraseNephews_red [OF r' True bal'] step u kq by (subst eraseFixupLoop.simps) auto
  next
    case False
    then obtain s' t' where n: "fixed s (plug c (mkNode d t (p, True) (mkNode d near (q, False) far))) s' (plug c t')" "balanced t'" "\<not> redRoot t'"
      "blackHeight t' = Suc (blackHeight t)" "eraseNephews p q d s = Inr (None, s')" using eraseNephews_black [OF r' _ _ bal'] by auto
    have "redBlack (plug c t')" using n bal(1) by (auto simp: redBlack_plug)
    then show ?thesis using n step u kq by (subst eraseFixupLoop.simps) auto
  qed
qed

lemma eraseFixupLoop_ok:
  assumes "represents s (plug ((d, (p, kp), u) # c) t)" "balancedCtx ((d, (p, kp), u) # c) (Suc (blackHeight t))" "balanced t" "\<not> redRoot t"
  shows "\<exists>s' t'. eraseFixupLoop p d s = Some (Inr s') \<and> fixed s (plug ((d, (p, kp), u) # c) t) s' t' \<and> redBlack t'"
  using assms
proof (induction "length c" arbitrary: c s d p kp u t rule: less_induct)
  case less
  note r = less.prems(1) and bal = less.prems(2-4)
  obtain near q kq far where u: "u = mkNode d near (q, kq) far" using sibling_exists [OF bal(1)] .
  have r': "represents s (plug c (mkNode d t (p, kp) (mkNode d near (q, kq) far)))" using r u by simp
  note R = sibling_reads [OF r']
  show ?case
  proof (cases kq)
    case True
    let ?s1 = "setColor p True (setColor q False s)"
    have kp: "\<not> kp" using bal(1) u True by auto
    note f1 = fixed_sibling_color [OF r', of False]
    then have r1: "represents (setColor q False s) (plug c (mkNode d t (p, kp) (mkNode d near (q, False) far)))" by (simp add: fixed_def)
    note f2 = fixed_setColor [OF r1, of True]
    then have r2: "represents ?s1 (plug c (mkNode d t (p, True) (mkNode d near (q, False) far)))" by (simp add: fixed_def)
    note f3 = fixed_parent_rotate [OF r2]
    let ?s2 = "rotateSubtree p d ?s1" and ?c = "(d, (p, True), near) # (d, (q, False), far) # c"
    have r3: "represents ?s2 (plug ?c t)" using f3 by (simp add: fixed_def)
    have "balancedCtx ?c (Suc (blackHeight t))" using bal(1) u True kp by (auto simp: blackHeight_mkNode)
    from eraseFixupLoop_red_parent [OF r3 this bal(2,3)] obtain s' t' where e: "eraseFixupLoop p d ?s2 = Some (Inr s')" "fixed ?s2 (plug ?c t) s' t'" "redBlack t'" by blast
    have "eraseFixupLoop p d s = Some (Inr s')" using R True e(1) by (subst eraseFixupLoop.simps) (simp add: eraseFixupStep_def)
    moreover have "fixed s (plug ((d, (p, kp), u) # c) t) s' t'" using f1 f2 f3 e(2) u by (simp add: fixed_def)
    ultimately show ?thesis using e(3) by blast
  next
    case False
    then have r0: "represents s (plug c (mkNode d t (p, kp) (mkNode d near (q, False) far)))" using r' by simp
    have bal0: "balancedCtx ((d, (p, kp), mkNode d near (q, False) far) # c) (Suc (blackHeight t))" using bal(1) u False by simp
    have step: "eraseFixupStep p d s = eraseNephews p q d s" using R False by (simp add: eraseFixupStep_def)
    show ?thesis
    proof (cases "redRoot near \<or> redRoot far")
      case True
      then show ?thesis using eraseNephews_red [OF r0 True bal0 bal(2,3)] step u False by (subst eraseFixupLoop.simps) auto
    next
      case black: False
      then obtain s' t' where n: "fixed s (plug c (mkNode d t (p, kp) (mkNode d near (q, False) far))) s' (plug c t')" "balanced t'" "\<not> redRoot t'"
        "blackHeight t' = Suc (blackHeight t)" "eraseNephews p q d s = Inr (if kp then None else (case c of [] \<Rightarrow> None | (dg, g, u) # c' \<Rightarrow> Some (fst g, dg)), s')"
        using eraseNephews_black [OF r0 _ _ bal0 bal(2,3)] by blast
      have ctx: "balancedCtx c (if kp then Suc (blackHeight t) else Suc (Suc (blackHeight t)))" using bal0 by simp
      show ?thesis
      proof (cases "kp \<or> c = []")
        case True
        then have "redBlack (plug c t')" using n ctx by (auto simp: redBlack_plug)
        moreover have "eraseFixupLoop p d s = Some (Inr s')" using n(5) step True by (subst eraseFixupLoop.simps) auto
        ultimately show ?thesis using n(1) u False by auto
      next
        case up: False
        then obtain dg g kg v c' where c: "c = (dg, (g, kg), v) # c'" by (cases c) auto
        have "represents s' (plug ((dg, (g, kg), v) # c') t')" using n(1) c by (simp add: fixed_def)
        moreover have "balancedCtx ((dg, (g, kg), v) # c') (Suc (blackHeight t'))" using ctx n(4) up c by (simp split: if_splits)
        ultimately obtain s'' t'' where e: "eraseFixupLoop g dg s' = Some (Inr s'')" "fixed s' (plug c t') s'' t''" "redBlack t''"
          using less.hyps [of c' s' dg g kg v t'] c n(2,3) by auto
        have "eraseFixupLoop p d s = Some (Inr s'')" using n(5) step up c e(1) by (subst eraseFixupLoop.simps) simp
        then show ?thesis using fixed_trans [OF n(1) e(2)] e(3) u False by auto
      qed
    qed
  qed
qed

lemma eraseFixup_ok:
  assumes "represents s (plug c t)" "c = (d, (p, k), u) # c'" "balancedCtx c (Suc (blackHeight t))" "balanced t" "\<not> redRoot t"
  shows "\<exists>s' t'. eraseFixup (Some p) d s = Some (Inr s') \<and> fixed s (plug c t) s' t' \<and> redBlack t'"
proof -
  obtain s' t' where e: "eraseFixupLoop p d s = Some (Inr s')" "fixed s (plug c t) s' t'" "redBlack t'"
    using eraseFixupLoop_ok [of s d p k u c' t] assms by blast
  have "represents (paintRoot s') (paintBlack t')" using represents_paintRoot [of s' t'] e(2) by (simp add: fixed_def paintRoot_def)
  then have "fixed s (plug c t) (paintRoot s') t'" using e(2) redBlack_paint [OF e(3)] by (simp add: fixed_def paintRoot_def)
  then show ?thesis using e(1,3) by (auto simp: eraseFixup_def)
qed

section \<open>Taking a node out\<close>

text \<open>A node with at most one child makes room for it; if neither it nor the child was red, a black node is missing.\<close>

lemma redBlack_splice:
  assumes "redBlack (plug c (mkNode d t (m, k) \<langle>\<rangle>))"
  shows "t \<noteq> \<langle>\<rangle> \<or> k \<or> c = [] \<Longrightarrow> redBlack (plug c (paintBlack t))" "t = \<langle>\<rangle> \<Longrightarrow> \<not> k \<Longrightarrow> balancedCtx c (Suc 0)"
proof -
  have b: "balanced t" "blackHeight t = 0" "k \<Longrightarrow> \<not> redRoot t" "balancedCtx c (if k then 0 else Suc 0)"
    using assms by (auto simp: redBlack_plug blackHeight_mkNode split: if_splits)
  have red: "t \<noteq> \<langle>\<rangle> \<Longrightarrow> redRoot t" using b(2) by (cases t) (auto split: if_splits)
  show "t = \<langle>\<rangle> \<Longrightarrow> \<not> k \<Longrightarrow> balancedCtx c (Suc 0)" using b by simp
  assume "t \<noteq> \<langle>\<rangle> \<or> k \<or> c = []"
  then show "redBlack (plug c (paintBlack t))"
  proof (cases "t = \<langle>\<rangle>")
    case True
    then show ?thesis using b \<open>t \<noteq> \<langle>\<rangle> \<or> k \<or> c = []\<close> by (auto simp: redBlack_plug)
  next
    case False
    then show ?thesis using b red blackHeight_paintBlack [OF b(1)] by (cases k) (auto simp: redBlack_plug)
  qed
qed

lemma represents_remove: "represents s (plug c t) \<Longrightarrow> represents (writeRef (holeRef c) None s) (plug c \<langle>\<rangle>)"
  by (simp add: represents_plug)

lemma eraseCaseSingleChild_ok:
  assumes "represents s (plug c (mkNode d t (a, k) \<langle>\<rangle>))" "t \<noteq> \<langle>\<rangle>"
  shows "\<exists>s'. eraseCaseSingleChild d a (holeRef c) s = Inr s' \<and> represents s' (plug c (paintBlack t)) \<and> dataOf s' = dataOf s"
proof -
  obtain b where b: "rootAddr t = Some b" using assms(2) by (cases t) auto
  have "represents (writeRef (holeRef c) (Some b) (setParent b (holeParent c) s)) (plug c t)" using represents_splice [OF assms(1)] b by simp
  from represents_paint [OF this, of False] show ?thesis using b represents_node(2,4) [OF assms(1)] by (simp add: eraseCaseSingleChild_def)
qed

subsection \<open>The successor\<close>

definition leftSpine :: "frame list \<Rightarrow> bool" where
  "leftSpine c \<longleftrightarrow> (\<forall>f\<in>set c. fst f = DirLeft)"

lemma before_leftSpine [simp]: "leftSpine c \<Longrightarrow> before c = []"
  by (induction c rule: before.induct) (auto simp: leftSpine_def)

lemma eraseSuccessor_ok:
  assumes "represents s (plug c t)" "rootAddr t = Some b"
  shows "\<exists>cl m k mr. t = plug cl \<langle>\<langle>\<rangle>, (m, k), mr\<rangle> \<and> leftSpine cl \<and> eraseSuccessor b d s = Some (m, if cl = [] then d else DirLeft)"
  using assms
proof (induction t arbitrary: c b d)
  case (Node l x r)
  have lb: "leftOf s b = rootAddr l" using represents_node(4) [of s c DirLeft l "fst x" "snd x" r] Node.prems by simp
  show ?case
  proof (cases "rootAddr l")
    case None
    then have "eraseSuccessor b d s = Some (b, d)" using lb by (subst eraseSuccessor.simps) simp
    then show ?thesis using None Node.prems(2) by (intro exI [of _ "[]"] exI [of _ b] exI [of _ "snd x"] exI [of _ r]) (auto simp: leftSpine_def prod_eq_iff)
  next
    case (Some b')
    have "represents s (plug ((DirLeft, x, r) # c) l)" using Node.prems(1) by simp
    from Node.IH(1) [OF this Some, of DirLeft] obtain cl m k mr where cl: "l = plug cl \<langle>\<langle>\<rangle>, (m, k), mr\<rangle>" "leftSpine cl" "eraseSuccessor b' DirLeft s = Some (m, DirLeft)"
      by (auto split: if_splits)
    have "eraseSuccessor b d s = Some (m, DirLeft)" using lb Some cl(3) by (subst eraseSuccessor.simps) simp
    then show ?thesis using cl by (intro exI [of _ "cl @ [(DirLeft, x, r)]"] exI [of _ m] exI [of _ k] exI [of _ mr]) (auto simp: leftSpine_def plug_append)
  qed
qed simp

subsection \<open>A node with two children\<close>

lemma shape_color:
  assumes "shape s p q t" "distinct (addrs t)"
  shows "shape (colorIfAny (rootAddr t) k s) p q (paint k t)"
  using assms by (cases t) auto

lemma shape_color_other:
  "set (addrs u) \<inter> set (addrs t) = {} \<Longrightarrow> shape (colorIfAny (rootAddr u) v s) p q t = shape s p q t"
  "set (caddrs c) \<inter> set (addrs u) = {} \<Longrightarrow> ctxOk (colorIfAny (rootAddr u) v s) c = ctxOk s c"
  by (cases u; auto)+

lemma colorIfAny_fields [simp]:
  "leftOf (colorIfAny p v s) = leftOf s" "rightOf (colorIfAny p v s) = rightOf s" "getChild a d (colorIfAny p v s) = getChild a d s" "parentOf (colorIfAny p v s) = parentOf s"
  "treeRoot (colorIfAny p v s) = treeRoot s" "readRef r (colorIfAny p v s) = readRef r s"
  by (cases p; simp)+

text \<open>The successor is the right child itself.\<close>

lemma eraseReplace_near:
  assumes r: "represents s (plug c \<langle>l, (a, ka), \<langle>\<langle>\<rangle>, (m, km), mr\<rangle>\<rangle>)"
  shows "\<exists>s'. eraseReplace a (holeRef c) m DirRight s = Inr (mr \<noteq> \<langle>\<rangle> \<or> km, Some m, DirRight, s') \<and>
    represents s' (plug c \<langle>l, (m, ka), paintBlack mr\<rangle>) \<and> dataOf s' = dataOf s"
proof -
  have sh: "ctxOk s c" "shape s (leftOf s a) (Some a) l" "shape s (rightOf s m) (Some m) mr" "leftOf s a = rootAddr l" "rightOf s m = rootAddr mr" "rightOf s a = Some m"
    "parentOf s a = holeParent c" "redOf s a = ka" "redOf s m = km"
    "distinct (caddrs c)" "distinct (addrs l)" "distinct (addrs mr)" "set (caddrs c) \<inter> set (addrs l) = {}" "set (caddrs c) \<inter> set (addrs mr) = {}"
    "set (addrs l) \<inter> set (addrs mr) = {}" "m \<notin> set (caddrs c)" "m \<notin> set (addrs l)" "m \<notin> set (addrs mr)" "a \<noteq> m" "a \<notin> set (addrs l)"
    using r by (auto simp: represents_plug dest: shape_rootAddr)
  let ?s1 = "setChild m DirLeft (rootAddr l) (adopt (rootAddr l) (Some m) s)"
  let ?s2 = "colorIfAny (rootAddr mr) False ?s1"
  let ?s' = "setColor m ka (writeRef (holeRef c) (Some m) (setParent m (holeParent c) ?s2))"
  have na: "rootAddr l \<noteq> Some a" "rootAddr l \<noteq> Some m" using rootAddr_in sh(17,20) by auto
  have "eraseReplace a (holeRef c) m DirRight s = Inr (mr \<noteq> \<langle>\<rangle> \<or> km, Some m, DirRight, ?s')"
    using sh na by (simp add: eraseReplace_def eraseUnhook_def Let_def)
  moreover have l: "shape ?s2 (rootAddr l) (Some m) l" using shape_adopt [OF sh(2,11)] sh by (simp add: shape_color_other Int_commute)
  moreover have "shape ?s1 (rootAddr mr) (Some m) mr" using sh by (simp add: shape_adopt_other)
  then have "shape ?s2 (rootAddr mr) (Some m) (paintBlack mr)" by (rule shape_color) (rule sh(12))
  ultimately show ?thesis using sh by (simp add: represents_plug shape_adopt_other shape_color_other Int_Un_distrib)
qed

text \<open>The successor is further down: taking it out, then putting it in the place of the node.\<close>

lemma upd_commute:
  assumes "P \<noteq> m" "l0 = None \<or> l0 \<noteq> m0"
  shows "setChild P DirLeft m0 (colorIfAny m0 False (adopt m0 p (setChild m DirLeft l0 (adopt l0 q s)))) =
    setChild m DirLeft l0 (adopt l0 q (colorIfAny m0 False (setChild P DirLeft m0 (adopt m0 p s))))"
  using assms by (cases l0; cases m0) (auto simp: setChild_def setParent_def setColor_def fun_upd_twist)

lemma eraseReplace_far:
  assumes r: "represents s (plug c \<langle>l, (a, ka), plug cl \<langle>\<langle>\<rangle>, (m, km), mr\<rangle>\<rangle>)" and cl: "cl = (DirLeft, (P, kP), uP) # cl'"
  shows "\<exists>s'. eraseReplace a (holeRef c) m DirLeft s = Inr (mr \<noteq> \<langle>\<rangle> \<or> km, Some P, DirLeft, s') \<and>
    represents s' (plug c \<langle>l, (m, ka), plug cl (paintBlack mr)\<rangle>) \<and> dataOf s' = dataOf s"
proof -
  let ?C = "cl @ (DirRight, (a, ka), l) # c" and ?l = "rootAddr l" and ?m = "rootAddr mr"
  have T: "plug ?C t = plug c \<langle>l, (a, ka), plug cl t\<rangle>" for t by (simp add: plug_append)
  have rC: "represents s (plug ?C (mkNode DirRight mr (m, km) \<langle>\<rangle>))" using r by (simp add: T)
  have hole: "holeRef ?C = ChildRef P DirLeft" "holeParent ?C = Some P" by (simp_all add: cl)
  let ?R = "rootAddr (plug cl (paintBlack mr))"
  have R: "rootAddr (plug cl t) = ?R" for t
  proof (cases cl rule: rev_cases)
    case (snoc xs f)
    then show ?thesis by (cases f) (simp add: plug_append)
  qed (simp add: cl)
  define sA where "sA = setChild P DirLeft ?m (adopt ?m (Some P) s)"
  have rA: "represents sA (plug ?C mr)" using represents_splice [OF rC] hole by (simp add: sA_def)
  define sB where "sB = colorIfAny ?m False sA"
  have rB: "represents sB (plug c \<langle>l, (a, ka), plug cl (paintBlack mr)\<rangle>)" using represents_paint [OF rA, of False] by (simp add: sB_def T)
  have d: "distinct (addrs (plug ?C (mkNode DirRight mr (m, km) \<langle>\<rangle>)))" using rC by (simp add: represents_def)
  have m: "m \<notin> set (addrs (plug ?C (paintBlack mr)))" using d mset_addrs_plug [of ?C "paintBlack mr"] by (auto simp: distinct_addrs_plug dest!: arg_cong [of _ _ set_mset])
  have S: "represents (setColor m ka (writeRef (holeRef c) (Some m) (setParent m (holeParent c) (setChild m DirRight ?R (adopt ?R (Some m)
    (setChild m DirLeft ?l (adopt ?l (Some m) sB))))))) (plug c \<langle>l, (m, ka), plug cl (paintBlack mr)\<rangle>)"
    using represents_substitute [OF rB, of m ka] m by (simp add: T)
  have ra: "represents s (plug c (mkNode DirLeft l (a, ka) (plug cl \<langle>\<langle>\<rangle>, (m, km), mr\<rangle>)))" using r by simp
  have A: "leftOf s a = ?l" "rightOf s a = ?R" "parentOf s a = holeParent c" "redOf s a = ka" using represents_node [OF ra] R by simp_all
  have M: "parentOf s m = Some P" "rightOf s m = ?m" "redOf s m = km" using represents_node [OF rC] hole by simp_all
  have dj: "a \<notin> set (addrs l)" "m \<notin> set (addrs l)" "set (addrs l) \<inter> set (addrs mr) = {}" "m \<notin> set (caddrs cl)" "a \<notin> set (caddrs cl)" "a \<noteq> m" "a \<notin> set (addrs mr)"
    using d mset_addrs_plug [of cl "\<langle>\<langle>\<rangle>, (m, km), mr\<rangle>"] by (auto simp: T distinct_addrs_plug dest!: arg_cong [of _ _ set_mset])
  obtain b where b: "?R = Some b" "b \<in> set (caddrs cl)"
  proof -
    have "set (addrs (plug cl \<langle>\<rangle>)) = set (caddrs cl)" using arg_cong [OF mset_addrs_plug [of cl "\<langle>\<rangle>"], of set_mset] by simp
    moreover have "plug cl \<langle>\<rangle> \<noteq> \<langle>\<rangle>" using R [of "\<langle>\<rangle>"] cl rootAddr_None [of "plug cl \<langle>\<rangle>"] calculation by auto
    ultimately show ?thesis using that R [of "\<langle>\<rangle>"] rootAddr_in by (metis not_Some_eq rootAddr_None)
  qed
  have ne: "?l \<noteq> Some a" "?l \<noteq> Some m" "?m \<noteq> Some a" "b \<noteq> a" "b \<noteq> m" "P \<noteq> m" "?l = None \<or> ?l \<noteq> ?m" using rootAddr_in dj b(2) cl by fastforce+
  let ?s' = "setColor m ka (writeRef (holeRef c) (Some m) (setParent m (holeParent c) (setChild m DirRight ?R (adopt ?R (Some m)
    (setChild P DirLeft ?m (colorIfAny ?m False (adopt ?m (Some P) (setChild m DirLeft ?l (adopt ?l (Some m) s)))))))))"
  have "eraseReplace a (holeRef c) m DirLeft s = Inr (mr \<noteq> \<langle>\<rangle> \<or> km, Some P, DirLeft, ?s')"
    using A M ne b(1) by (simp add: eraseReplace_def eraseUnhook_def Let_def)
  moreover have "represents ?s' (plug c \<langle>l, (m, ka), plug cl (paintBlack mr)\<rangle>)"
    using S unfolding sB_def sA_def upd_commute [OF ne(6,7)] .
  ultimately show ?thesis by simp
qed

lemma balancedCtx_rename: "balancedCtx (cl @ (d, (a, k), l) # c) h \<longleftrightarrow> balancedCtx (cl @ (d, (m, k), l) # c) h"
  and parentRed_rename: "parentRed (cl @ (d, (a, k), l) # c) \<longleftrightarrow> parentRed (cl @ (d, (m, k), l) # c)"
proof -
  show p: "parentRed (cl @ (d, (a, k), l) # c) \<longleftrightarrow> parentRed (cl @ (d, (m, k), l) # c)" for cl by (cases cl rule: parentRed.cases) auto
  show "balancedCtx (cl @ (d, (a, k), l) # c) h \<longleftrightarrow> balancedCtx (cl @ (d, (m, k), l) # c) h"
    by (induction cl h rule: balancedCtx.induct) (auto simp: p)
qed

lemma redBlack_rename: "redBlack (plug (cl @ (d, (a, k), l) # c) t) \<longleftrightarrow> redBlack (plug (cl @ (d, (m, k), l) # c) t)"
  by (simp only: redBlack_plug balancedCtx_rename [of cl d a k l c _ m] parentRed_rename [of cl d a k l c m]) simp

text \<open>The three cases together: what is left, and where a black node is missing.\<close>

lemma eraseCaseTwoChildren_ok:
  assumes r: "represents s (plug c \<langle>l, (a, ka), r\<rangle>)" and rb: "redBlack (plug c \<langle>l, (a, ka), r\<rangle>)" and two: "r \<noteq> \<langle>\<rangle>"
  shows "\<exists>red p d k u c' s' t'. eraseCaseTwoChildren a (holeRef c) s = Some (Inr (red, Some p, d, s')) \<and> represents s' (plug ((d, (p, k), u) # c') t') \<and>
    addrs (plug ((d, (p, k), u) # c') t') = before c @ addrs l @ addrs r @ after c \<and> dataOf s' = dataOf s \<and>
    (if red then redBlack (plug ((d, (p, k), u) # c') t') else t' = \<langle>\<rangle> \<and> balancedCtx ((d, (p, k), u) # c') (Suc 0))"
proof -
  obtain b where b: "rootAddr r = Some b" using two by (cases r) auto
  have ra: "represents s (plug c (mkNode DirLeft l (a, ka) r))" using r by simp
  have rb': "rightOf s a = Some b" using represents_node(5) [OF ra] b by simp
  have "represents s (plug ((DirRight, (a, ka), l) # c) r)" using r by simp
  from eraseSuccessor_ok [OF this b, of DirRight] obtain cl m km mr where cl: "r = plug cl \<langle>\<langle>\<rangle>, (m, km), mr\<rangle>" "leftSpine cl"
    "eraseSuccessor b DirRight s = Some (m, if cl = [] then DirRight else DirLeft)" by blast
  let ?C = "cl @ (DirRight, (a, ka), l) # c" and ?C' = "cl @ (DirRight, (m, ka), l) # c" and ?d = "if cl = [] then DirRight else DirLeft"
  obtain p k u c' where C': "?C' = (?d, (p, k), u) # c'"
  proof (cases cl)
    case (Cons f cl')
    then show ?thesis using cl(2) that by (cases f) (auto simp: leftSpine_def)
  qed (use that in auto)
  obtain s' where s': "eraseReplace a (holeRef c) m ?d s = Inr (mr \<noteq> \<langle>\<rangle> \<or> km, Some p, ?d, s')" "represents s' (plug ?C' (paintBlack mr))" "dataOf s' = dataOf s"
  proof (cases cl)
    case Nil
    then show ?thesis using eraseReplace_near [of s c l a ka m km mr] r cl(1) C' that by auto
  next
    case (Cons f cl')
    then obtain kP uP where f: "cl = (DirLeft, (p, kP), uP) # cl'" using C' cl(2) by (cases f) (auto simp: leftSpine_def)
    show ?thesis using eraseReplace_far [OF r [unfolded cl(1)] f] that f by (auto simp: plug_append)
  qed
  have e: "eraseCaseTwoChildren a (holeRef c) s = Some (Inr (mr \<noteq> \<langle>\<rangle> \<or> km, Some p, ?d, s'))" using rb' cl(3) s'(1) by (simp add: eraseCaseTwoChildren_def)
  have ad: "addrs (plug ?C' (paintBlack mr)) = before c @ addrs l @ addrs r @ after c" using cl by (simp add: plug_append addrs_plug)
  have rbC: "redBlack (plug ?C (mkNode DirRight mr (m, km) \<langle>\<rangle>))" using rb cl(1) by (simp add: plug_append)
  have "if mr \<noteq> \<langle>\<rangle> \<or> km then redBlack (plug ?C' (paintBlack mr)) else paintBlack mr = \<langle>\<rangle> \<and> balancedCtx ?C' (Suc 0)"
    using redBlack_splice [OF rbC] redBlack_rename [of cl DirRight a ka l c _ m] balancedCtx_rename [of cl DirRight a ka l c _ m] by auto
  then show ?thesis using e s'(2,3) ad unfolding C' by blast
qed

lemma eraseImpl_ok:
  assumes r: "represents s (plug c \<langle>l, (a, ka), r\<rangle>)" and rb: "redBlack (plug c \<langle>l, (a, ka), r\<rangle>)"
  shows "\<exists>s' t'. eraseImpl (holeRef c) s = Some (Inr s') \<and> represents s' t' \<and> redBlack t' \<and> addrs t' = before c @ addrs l @ addrs r @ after c \<and> dataOf s' = dataOf s"
proof -
  have ra: "represents s (plug c (mkNode DirLeft l (a, ka) r))" using r by simp
  note R = represents_node [OF ra]
  have h: "hasChild a s \<longleftrightarrow> l \<noteq> \<langle>\<rangle> \<or> r \<noteq> \<langle>\<rangle>" using R by (auto simp: hasChild_def)
  have "treeRoot s = Some a \<Longrightarrow> parentOf s a = None" using r by (cases "plug c \<langle>l, (a, ka), r\<rangle>") (auto simp: represents_def)
  then have root: "treeRoot s = Some a \<longleftrightarrow> c = []" using R(1,2) by (cases c rule: holeRef.cases) auto
  have unf: "eraseImpl (holeRef c) s = (case eraseCases a (holeRef c) s of None \<Rightarrow> None | Some (Inl e) \<Rightarrow> Some (Inl e)
      | Some (Inr (performFixup, start, d, s1)) \<Rightarrow> if performFixup then eraseFixup start d s1 else Some (Inr s1))"
    using R(1) by (simp add: eraseImpl_def)
  consider (leaf) "l = \<langle>\<rangle>" "r = \<langle>\<rangle>" | (right) "l = \<langle>\<rangle>" "r \<noteq> \<langle>\<rangle>" | (left) "l \<noteq> \<langle>\<rangle>" "r = \<langle>\<rangle>" | (two) "l \<noteq> \<langle>\<rangle>" "r \<noteq> \<langle>\<rangle>" by blast
  then show ?thesis
  proof cases
    case leaf
    let ?s1 = "writeRef (holeRef c) None s"
    have rm: "represents ?s1 (plug c \<langle>\<rangle>)" using represents_remove [OF r] .
    note rs = redBlack_splice [of c DirLeft "\<langle>\<rangle>" a ka] rb leaf
    show ?thesis
    proof (cases "c \<noteq> [] \<and> \<not> ka")
      case True
      then obtain d p k u c' where c: "c = (d, (p, k), u) # c'" by (cases c) auto
      have "getChildDirection p (Some a) s = d" using represents_side(3) [of s d p k u c' "\<langle>l, (a, ka), r\<rangle>" a] r c by simp
      then have e: "eraseImpl (holeRef c) s = eraseFixup (Some p) d ?s1" using unf h leaf root True R c by (simp add: eraseCases_def)
      have "balancedCtx c (Suc (blackHeight \<langle>\<rangle>))" using rs True by simp
      from eraseFixup_ok [OF rm c this] obtain s' t' where "eraseFixup (Some p) d ?s1 = Some (Inr s')" "fixed ?s1 (plug c \<langle>\<rangle>) s' t'" "redBlack t'" by auto
      then show ?thesis using e leaf by (auto simp: fixed_def addrs_plug)
    next
      case False
      then have "eraseImpl (holeRef c) s = Some (Inr ?s1)" using unf h leaf root R by (auto simp: eraseCases_def)
      moreover have "redBlack (plug c \<langle>\<rangle>)" using rs False by auto
      ultimately show ?thesis using rm leaf by (auto simp: addrs_plug intro!: exI [of _ "plug c \<langle>\<rangle>"])
    qed
  next
    case right
    then have r': "represents s (plug c (mkNode DirRight r (a, ka) \<langle>\<rangle>))" and rb': "redBlack (plug c (mkNode DirRight r (a, ka) \<langle>\<rangle>))" using r rb by simp_all
    obtain s' where "eraseCaseSingleChild DirRight a (holeRef c) s = Inr s'" "represents s' (plug c (paintBlack r))" "dataOf s' = dataOf s"
      using eraseCaseSingleChild_ok [OF r' right(2)] by blast
    then show ?thesis using redBlack_splice(1) [OF rb'] right unf h R by (auto simp: eraseCases_def addrs_plug intro!: exI [of _ "plug c (paintBlack r)"])
  next
    case left
    then have r': "represents s (plug c (mkNode DirLeft l (a, ka) \<langle>\<rangle>))" and rb': "redBlack (plug c (mkNode DirLeft l (a, ka) \<langle>\<rangle>))" using r rb by simp_all
    obtain s' where "eraseCaseSingleChild DirLeft a (holeRef c) s = Inr s'" "represents s' (plug c (paintBlack l))" "dataOf s' = dataOf s"
      using eraseCaseSingleChild_ok [OF r' left(1)] by blast
    then show ?thesis using redBlack_splice(1) [OF rb'] left unf h R by (auto simp: eraseCases_def addrs_plug intro!: exI [of _ "plug c (paintBlack l)"])
  next
    case two
    obtain red p d k u c' s' t' where e: "eraseCaseTwoChildren a (holeRef c) s = Some (Inr (red, Some p, d, s'))" "represents s' (plug ((d, (p, k), u) # c') t')"
      "addrs (plug ((d, (p, k), u) # c') t') = before c @ addrs l @ addrs r @ after c" "dataOf s' = dataOf s"
      "if red then redBlack (plug ((d, (p, k), u) # c') t') else t' = \<langle>\<rangle> \<and> balancedCtx ((d, (p, k), u) # c') (Suc 0)"
      using eraseCaseTwoChildren_ok [OF r rb two(2)] by blast
    have i: "eraseImpl (holeRef c) s = (if \<not> red then eraseFixup (Some p) d s' else Some (Inr s'))" using unf h two R e(1) by (simp add: eraseCases_def)
    show ?thesis
    proof (cases red)
      case True
      then show ?thesis using i e by auto
    next
      case False
      from eraseFixup_ok [OF e(2) refl] e(5) False obtain s'' t'' where "eraseFixup (Some p) d s' = Some (Inr s'')" "fixed s' (plug ((d, (p, k), u) # c') t') s'' t''" "redBlack t''"
        by auto
      then show ?thesis using i e(3,4) False by (auto simp: fixed_def)
    qed
  qed
qed

section \<open>Removal\<close>

text \<open>Every node of a tree is at some place.\<close>

lemma find_context:
  assumes "a \<in> set (addrs t)"
  shows "\<exists>c' l k r. plug c t = plug c' \<langle>l, (a, k), r\<rangle>"
  using assms
proof (induction t arbitrary: c)
  case (Node l x r)
  consider "a \<in> set (addrs l)" | "a = fst x" | "a \<in> set (addrs r)" using Node.prems by auto
  then show ?case
  proof cases
    case 1
    from Node.IH(1) [OF 1, of "(DirLeft, x, r) # c"] show ?thesis by simp
  next
    case 2
    then show ?thesis by (intro exI [of _ c] exI [of _ l] exI [of _ "snd x"] exI [of _ r]) (simp add: prod_eq_iff)
  next
    case 3
    from Node.IH(2) [OF 3, of "(DirRight, x, l) # c"] show ?thesis by simp
  qed
qed simp

lemma rbErase_represents:
  assumes t: "represents s t" "redBlack t" and a: "a \<in> set (addrs t)"
  shows "\<exists>s' t'. rbErase (Some a) s = Some (Inr (Some a, s')) \<and> represents s' t' \<and> redBlack t' \<and> addrs t' = remove1 a (addrs t) \<and> dataOf s' = dataOf s"
proof -
  obtain c l k r where c: "t = plug c \<langle>l, (a, k), r\<rangle>" using find_context [of a t "[]"] a by auto
  have r: "represents s (plug c (mkNode DirLeft l (a, k) r))" using t(1) c by simp
  note R = represents_node [OF r]
  obtain s' t' where e: "eraseImpl (holeRef c) s = Some (Inr s')" "represents s' t'" "redBlack t'" "addrs t' = before c @ addrs l @ addrs r @ after c" "dataOf s' = dataOf s"
    using eraseImpl_ok t c by blast
  have xs: "addrs t = (before c @ addrs l) @ a # addrs r @ after c" using c by (simp add: addrs_plug)
  have "distinct (addrs t)" using t(1) by (simp add: represents_def)
  then have rm: "remove1 a (addrs t) = before c @ addrs l @ addrs r @ after c" unfolding xs by (subst remove1_append) auto
  have "rbErase (Some a) s = Some (Inr (Some a, s'))"
  proof (cases c rule: holeRef.cases)
    case 1
    then show ?thesis using R e(1) by (simp add: rbErase_def)
  next
    case (2 d p u c')
    have "represents s (plug ((d, (fst p, snd p), u) # c') \<langle>l, (a, k), r\<rangle>)" using t(1) c 2 by simp
    note S = represents_side [OF this, of a]
    have "treeRoot s \<noteq> Some a" using t(1) S(1) by (cases t) (auto simp: represents_def)
    moreover have "ChildRef (fst p) (if leftOf s (fst p) = Some a then DirLeft else DirRight) = holeRef c" using S(4) 2 by (simp split: if_splits)
    ultimately show ?thesis using S(1) e(1) by (simp add: rbErase_def)
  qed
  then show ?thesis using e rm by auto
qed

lemma ordered_remove1: "ordered cmp s xs \<Longrightarrow> ordered cmp s (remove1 a xs)"
  by (induction xs) (auto simp: ordered_Cons dest: notin_set_remove1)

lemma rbErase_ok:
  assumes "rbTree cmp s xs" "a \<in> set xs"
  shows "\<exists>s'. rbErase (Some a) s = Some (Inr (Some a, s')) \<and> rbTree cmp s' (remove1 a xs) \<and> dataOf s' = dataOf s"
proof -
  obtain t where t: "represents s t" "redBlack t" "addrs t = xs" "ordered cmp s xs" using assms(1) by (auto simp: rbTree_def)
  obtain s' t' where "rbErase (Some a) s = Some (Inr (Some a, s'))" "represents s' t'" "redBlack t'" "addrs t' = remove1 a xs" "dataOf s' = dataOf s"
    using rbErase_represents [OF t(1,2)] assms(2) t(3) by blast
  then show ?thesis using ordered_remove1 [OF t(4)] ordered_data [of s' s cmp] by (auto simp: rbTree_def)
qed

end
