(* ===== verification/Tree_Query.thy ===== *)
theory Tree_Query
  imports Rb_Erase
begin

text \<open>
  The queries of \<open>IntrusiveBinarySearchTree\<close> in \<open>core/ds/Trees.h\<close>, which the red-black tree shares: \<open>find\<close>, \<open>floor\<close>, \<open>ceil\<close>, \<open>successor\<close>, \<open>predecessor\<close>,
  \<open>min\<close>, \<open>max\<close>, the mapped variants, the in-order visit, removal by value and \<open>update\<close>; each is exact on a red-black search tree.
\<close>

section \<open>Queries\<close>

partial_function (option) findImpl :: "('k \<Rightarrow> 'k \<Rightarrow> bool) \<Rightarrow> 'k \<Rightarrow> nodeRef \<Rightarrow> 'k treeHeap \<Rightarrow> nodeRef option option" where
  "findImpl cmp target current s =
     (case readRef current s of
        None \<Rightarrow> Some None
      | Some c \<Rightarrow>
          if target = dataOf s c then Some (Some current)
          else findImpl cmp target (ChildRef c (if cmp target (dataOf s c) then DirLeft else DirRight)) s)"

definition tree_find :: "('k \<Rightarrow> 'k \<Rightarrow> bool) \<Rightarrow> 'k \<Rightarrow> 'k treeHeap \<Rightarrow> nat option option" where
  "tree_find cmp target s = map_option (\<lambda>r. case r of None \<Rightarrow> None | Some ref \<Rightarrow> readRef ref s) (findImpl cmp target RootRef s)"

partial_function (option) floorLoop :: "('k \<Rightarrow> 'k \<Rightarrow> bool) \<Rightarrow> 'k \<Rightarrow> nat option \<Rightarrow> nodeRef \<Rightarrow> 'k treeHeap \<Rightarrow> nat option option" where
  "floorLoop cmp target result current s =
     (case readRef current s of
        None \<Rightarrow> Some result
      | Some c \<Rightarrow>
          if dataOf s c = target then Some (Some c)
          else if cmp (dataOf s c) target then floorLoop cmp target (Some c) (ChildRef c DirRight) s
          else floorLoop cmp target result (ChildRef c DirLeft) s)"

definition tree_floor :: "('k \<Rightarrow> 'k \<Rightarrow> bool) \<Rightarrow> 'k \<Rightarrow> 'k treeHeap \<Rightarrow> nat option option" where
  "tree_floor cmp target s = floorLoop cmp target None RootRef s"

partial_function (option) ceilLoop :: "('k \<Rightarrow> 'k \<Rightarrow> bool) \<Rightarrow> 'k \<Rightarrow> nat option \<Rightarrow> nodeRef \<Rightarrow> 'k treeHeap \<Rightarrow> nat option option" where
  "ceilLoop cmp target result current s =
     (case readRef current s of
        None \<Rightarrow> Some result
      | Some c \<Rightarrow>
          if dataOf s c = target then Some (Some c)
          else if cmp target (dataOf s c) then ceilLoop cmp target (Some c) (ChildRef c DirLeft) s
          else ceilLoop cmp target result (ChildRef c DirRight) s)"

definition tree_ceil :: "('k \<Rightarrow> 'k \<Rightarrow> bool) \<Rightarrow> 'k \<Rightarrow> 'k treeHeap \<Rightarrow> nat option option" where
  "tree_ceil cmp target s = ceilLoop cmp target None RootRef s"

text \<open>The loops that follow one side to its end, of \<open>min\<close>, \<open>max\<close>, \<open>successorImpl\<close> and \<open>predecessorImpl\<close>.\<close>

partial_function (option) followSide :: "direction \<Rightarrow> nat \<Rightarrow> 'k treeHeap \<Rightarrow> nat option" where
  "followSide d c s = (case getChild c d s of None \<Rightarrow> Some c | Some c' \<Rightarrow> followSide d c' s)"

definition tree_min :: "'k treeHeap \<Rightarrow> nat option option" where
  "tree_min s = (case treeRoot s of None \<Rightarrow> Some None | Some r \<Rightarrow> map_option Some (followSide DirLeft r s))"

definition tree_max :: "'k treeHeap \<Rightarrow> nat option option" where
  "tree_max s = (case treeRoot s of None \<Rightarrow> Some None | Some r \<Rightarrow> map_option Some (followSide DirRight r s))"

partial_function (option) successorLoop :: "('k \<Rightarrow> 'k \<Rightarrow> bool) \<Rightarrow> nat \<Rightarrow> nat option \<Rightarrow> nodeRef \<Rightarrow> 'k treeHeap \<Rightarrow> nat option option" where
  "successorLoop cmp node result current s =
     (case readRef current s of
        None \<Rightarrow> Some result
      | Some c \<Rightarrow>
          if cmp (dataOf s node) (dataOf s c) then successorLoop cmp node (Some c) (ChildRef c DirLeft) s
          else if cmp (dataOf s c) (dataOf s node) then successorLoop cmp node result (ChildRef c DirRight) s
          else Some result)"

definition tree_successor :: "('k \<Rightarrow> 'k \<Rightarrow> bool) \<Rightarrow> nat option \<Rightarrow> 'k treeHeap \<Rightarrow> nat option option" where
  "tree_successor cmp nodePtr s =
     (case nodePtr of
        None \<Rightarrow> Some None
      | Some node \<Rightarrow> (case rightOf s node of
          Some r \<Rightarrow> map_option Some (followSide DirLeft r s)
        | None \<Rightarrow> successorLoop cmp node None RootRef s))"

partial_function (option) predecessorLoop :: "('k \<Rightarrow> 'k \<Rightarrow> bool) \<Rightarrow> nat \<Rightarrow> nat option \<Rightarrow> nodeRef \<Rightarrow> 'k treeHeap \<Rightarrow> nat option option" where
  "predecessorLoop cmp node result current s =
     (case readRef current s of
        None \<Rightarrow> Some result
      | Some c \<Rightarrow>
          if cmp (dataOf s c) (dataOf s node) then predecessorLoop cmp node (Some c) (ChildRef c DirRight) s
          else if cmp (dataOf s node) (dataOf s c) then predecessorLoop cmp node result (ChildRef c DirLeft) s
          else Some result)"

definition tree_predecessor :: "('k \<Rightarrow> 'k \<Rightarrow> bool) \<Rightarrow> nat option \<Rightarrow> 'k treeHeap \<Rightarrow> nat option option" where
  "tree_predecessor cmp nodePtr s =
     (case nodePtr of
        None \<Rightarrow> Some None
      | Some node \<Rightarrow> (case leftOf s node of
          Some l \<Rightarrow> map_option Some (followSide DirRight l s)
        | None \<Rightarrow> predecessorLoop cmp node None RootRef s))"

text \<open>
  \<open>mappedCeilImpl\<close> and \<open>mappedFloorImpl\<close>: the search by a function of the data. \<open>result\<close> starts as a null pointer to a node pointer, and is
  dereferenced at the end.
\<close>

partial_function (option) mappedCeilLoop :: "('v \<Rightarrow> 'v \<Rightarrow> bool) \<Rightarrow> 'v \<Rightarrow> ('k \<Rightarrow> 'v) \<Rightarrow> nat option \<Rightarrow> nodeRef \<Rightarrow> 'k treeHeap \<Rightarrow> nat outcome option" where
  "mappedCeilLoop tcomp target transform result current s =
     (case readRef current s of
        None \<Rightarrow> Some (case result of None \<Rightarrow> Inl (Undefined ''null pointer'') | Some r \<Rightarrow> Inr r)
      | Some c \<Rightarrow>
          if transform (dataOf s c) = target then Some (Inr c)
          else if tcomp target (transform (dataOf s c)) then mappedCeilLoop tcomp target transform (Some c) (ChildRef c DirLeft) s
          else mappedCeilLoop tcomp target transform result (ChildRef c DirRight) s)"

definition mappedCeil :: "('v \<Rightarrow> 'v \<Rightarrow> bool) \<Rightarrow> 'v \<Rightarrow> ('k \<Rightarrow> 'v) \<Rightarrow> 'k treeHeap \<Rightarrow> nat outcome option" where
  "mappedCeil tcomp target transform s = mappedCeilLoop tcomp target transform None RootRef s"

partial_function (option) mappedFloorLoop :: "('v \<Rightarrow> 'v \<Rightarrow> bool) \<Rightarrow> 'v \<Rightarrow> ('k \<Rightarrow> 'v) \<Rightarrow> nat option \<Rightarrow> nodeRef \<Rightarrow> 'k treeHeap \<Rightarrow> nat outcome option" where
  "mappedFloorLoop tcomp target transform result current s =
     (case readRef current s of
        None \<Rightarrow> Some (case result of None \<Rightarrow> Inl (Undefined ''null pointer'') | Some r \<Rightarrow> Inr r)
      | Some c \<Rightarrow>
          if transform (dataOf s c) = target then Some (Inr c)
          else if tcomp (transform (dataOf s c)) target then mappedFloorLoop tcomp target transform (Some c) (ChildRef c DirLeft) s
          else mappedFloorLoop tcomp target transform result (ChildRef c DirRight) s)"

definition mappedFloor :: "('v \<Rightarrow> 'v \<Rightarrow> bool) \<Rightarrow> 'v \<Rightarrow> ('k \<Rightarrow> 'v) \<Rightarrow> 'k treeHeap \<Rightarrow> nat outcome option" where
  "mappedFloor tcomp target transform s = mappedFloorLoop tcomp target transform None RootRef s"

text \<open>The depth-first visits; the visitor has a state of its own and tells whether to stop.\<close>

partial_function (option) visitInOrder :: "(nat \<Rightarrow> 'v \<Rightarrow> bool \<times> 'v) \<Rightarrow> nat option \<Rightarrow> 'v \<Rightarrow> 'k treeHeap \<Rightarrow> (bool \<times> 'v) option" where
  "visitInOrder visitor node v s =
     (case node of
        None \<Rightarrow> Some (False, v)
      | Some n \<Rightarrow> Option.bind (visitInOrder visitor (leftOf s n) v s) (\<lambda>(stopped, v1).
          if stopped then Some (True, v1)
          else let (stopped2, v2) = visitor n v1
               in if stopped2 then Some (True, v2) else visitInOrder visitor (rightOf s n) v2 s))"

partial_function (option) visitReverseOrder :: "(nat \<Rightarrow> 'v \<Rightarrow> bool \<times> 'v) \<Rightarrow> nat option \<Rightarrow> 'v \<Rightarrow> 'k treeHeap \<Rightarrow> (bool \<times> 'v) option" where
  "visitReverseOrder visitor node v s =
     (case node of
        None \<Rightarrow> Some (False, v)
      | Some n \<Rightarrow> Option.bind (visitReverseOrder visitor (rightOf s n) v s) (\<lambda>(stopped, v1).
          if stopped then Some (True, v1)
          else let (stopped2, v2) = visitor n v1
               in if stopped2 then Some (True, v2) else visitReverseOrder visitor (leftOf s n) v2 s))"

partial_function (option) visitPostOrder :: "(nat \<Rightarrow> 'v \<Rightarrow> bool \<times> 'v) \<Rightarrow> nat option \<Rightarrow> 'v \<Rightarrow> 'k treeHeap \<Rightarrow> (bool \<times> 'v) option" where
  "visitPostOrder visitor node v s =
     (case node of
        None \<Rightarrow> Some (False, v)
      | Some n \<Rightarrow> Option.bind (visitPostOrder visitor (leftOf s n) v s) (\<lambda>(stopped, v1).
          if stopped then Some (True, v1)
          else Option.bind (visitPostOrder visitor (rightOf s n) v1 s) (\<lambda>(stopped2, v2).
            if stopped2 then Some (True, v2) else Some (visitor n v2))))"

definition eraseValue :: "('k \<Rightarrow> 'k \<Rightarrow> bool) \<Rightarrow> 'k \<Rightarrow> 'k treeHeap \<Rightarrow> (nat option \<times> 'k treeHeap) outcome option" where
  "eraseValue cmp target s = (case tree_find cmp target s of None \<Rightarrow> None | Some node \<Rightarrow> rbErase node s)"

text \<open>\<open>update\<close>: change the data of a node, keep its colour, then take it out and put it in again. The lambda may change the data only.\<close>

definition rbUpdate :: "('k \<Rightarrow> 'k \<Rightarrow> bool) \<Rightarrow> nat option \<Rightarrow> ('k \<Rightarrow> 'k) \<Rightarrow> 'k treeHeap \<Rightarrow> (bool \<times> 'k treeHeap) outcome option" where
  "rbUpdate cmp nodePtr f s =
     (case nodePtr of
        None \<Rightarrow> Some (Inr (False, s))
      | Some node \<Rightarrow>
          (case rbErase (Some node) (s\<lparr>dataOf := (dataOf s)(node := f (dataOf s node))\<rparr>) of
             None \<Rightarrow> None
           | Some (Inl e) \<Rightarrow> Some (Inl e)
           | Some (Inr (_, s1)) \<Rightarrow> map_option (\<lambda>(_, s2). Inr (True, s2)) (insertImpl cmp (Some node) s1)))"

section \<open>Descents\<close>

text \<open>The node a descent stands at splits the tree.\<close>

lemma represents_hole:
  assumes "represents s (plug c t)"
  shows "readRef (holeRef c) s = rootAddr t"
  using assms by (auto simp: represents_plug dest: shape_rootAddr)

definition lastOpt :: "'a list \<Rightarrow> 'a option" where
  "lastOpt xs = (if xs = [] then None else Some (last xs))"

definition headOpt :: "'a list \<Rightarrow> 'a option" where
  "headOpt xs = (case xs of [] \<Rightarrow> None | x # _ \<Rightarrow> Some x)"

lemma lastOpt_snoc [simp]: "lastOpt [] = None" "lastOpt (xs @ [x]) = Some x" "lastOpt (xs @ y # ys) = lastOpt (y # ys)" "lastOpt [x] = Some x" "lastOpt (xs @ ys @ [x]) = Some x"
  by (simp_all add: lastOpt_def)

lemma headOpt_simps [simp]: "headOpt [] = None" "headOpt (x # xs) = Some x"
  by (simp_all add: headOpt_def)

lemma headOpt_append: "headOpt (xs @ ys) = (if xs = [] then headOpt ys else headOpt xs)"
  by (cases xs) auto

lemma followSide_ok:
  assumes "represents s (plug c t)" "rootAddr t = Some b"
  shows "followSide DirLeft b s = headOpt (addrs t)" "followSide DirRight b s = lastOpt (addrs t)"
proof -
  show "followSide DirLeft b s = headOpt (addrs t)" using assms
  proof (induction t arbitrary: c b)
    case (Node l x r)
    have b: "leftOf s b = rootAddr l" using represents_node(4) [of s c DirLeft l "fst x" "snd x" r] Node.prems by simp
    have "represents s (plug ((DirLeft, x, r) # c) l)" using Node.prems(1) by simp
    then show ?case using b Node.IH(1) [of "(DirLeft, x, r) # c"] Node.prems(2)
      by (subst followSide.simps) (cases l; auto simp: headOpt_append)
  qed simp
  show "followSide DirRight b s = lastOpt (addrs t)" using assms
  proof (induction t arbitrary: c b)
    case (Node l x r)
    have b: "rightOf s b = rootAddr r" using represents_node(5) [of s c DirLeft l "fst x" "snd x" r] Node.prems by simp
    have "represents s (plug ((DirRight, x, l) # c) r)" using Node.prems(1) by simp
    then show ?case using b Node.IH(2) [of "(DirRight, x, l) # c"] Node.prems(2)
      by (subst followSide.simps) (cases r; auto simp: lastOpt_def)
  qed simp
qed

context total_order
begin

text \<open>At every step all nodes before the hole are smaller than the key, and all nodes after it larger.\<close>

definition around :: "'a treeHeap \<Rightarrow> 'a \<Rightarrow> frame list \<Rightarrow> ctree \<Rightarrow> bool" where
  "around s k c t \<longleftrightarrow> represents s (plug c t) \<and> ordered cmp s (addrs (plug c t)) \<and> (\<forall>a\<in>set (before c). cmp (dataOf s a) k) \<and> (\<forall>a\<in>set (after c). cmp k (dataOf s a))"

lemma around_start: "represents s t \<Longrightarrow> ordered cmp s (addrs t) \<Longrightarrow> around s k [] t"
  by (simp add: around_def)

lemma around_left: "around s k c \<langle>l, x, r\<rangle> \<Longrightarrow> cmp k (dataOf s (fst x)) \<Longrightarrow> around s k ((DirLeft, x, r) # c) l"
  by (auto simp: around_def addrs_plug ordered_append ordered_Cons intro: less_trans)

lemma around_right: "around s k c \<langle>l, x, r\<rangle> \<Longrightarrow> cmp (dataOf s (fst x)) k \<Longrightarrow> around s k ((DirRight, x, l) # c) r"
  by (auto simp: around_def addrs_plug ordered_append ordered_Cons intro: less_trans)

lemma around_read: "around s k c t \<Longrightarrow> readRef (holeRef c) s = rootAddr t"
  by (auto simp: around_def intro: represents_hole)

lemma around_end:
  assumes "around s k c \<langle>\<rangle>"
  shows "filter (\<lambda>a. \<not> cmp k (dataOf s a)) (addrs (plug c \<langle>\<rangle>)) = before c" "filter (\<lambda>a. \<not> cmp (dataOf s a) k) (addrs (plug c \<langle>\<rangle>)) = after c"
    "k \<notin> dataOf s ` set (addrs (plug c \<langle>\<rangle>))"
  using assms asym by (auto simp: around_def addrs_plug filter_empty_conv intro!: filter_True)

lemma around_found:
  assumes "around s (dataOf s (fst x)) c \<langle>l, x, r\<rangle>"
  shows "filter (\<lambda>a. \<not> cmp (dataOf s (fst x)) (dataOf s a)) (addrs (plug c \<langle>l, x, r\<rangle>)) = before c @ addrs l @ [fst x]"
    "filter (\<lambda>a. \<not> cmp (dataOf s a) (dataOf s (fst x))) (addrs (plug c \<langle>l, x, r\<rangle>)) = fst x # addrs r @ after c"
proof -
  have "\<forall>a\<in>set (addrs l). cmp (dataOf s a) (dataOf s (fst x))" "\<forall>a\<in>set (addrs r). cmp (dataOf s (fst x)) (dataOf s a)"
    using assms by (auto simp: around_def addrs_plug ordered_append ordered_Cons)
  then show "filter (\<lambda>a. \<not> cmp (dataOf s (fst x)) (dataOf s a)) (addrs (plug c \<langle>l, x, r\<rangle>)) = before c @ addrs l @ [fst x]"
    "filter (\<lambda>a. \<not> cmp (dataOf s a) (dataOf s (fst x))) (addrs (plug c \<langle>l, x, r\<rangle>)) = fst x # addrs r @ after c"
    using assms asym by (auto simp: around_def addrs_plug filter_empty_conv intro!: filter_True)
qed

lemma findImpl_ok:
  assumes "around s k c t"
  shows "\<exists>r. findImpl cmp k (holeRef c) s = Some r \<and>
    (case r of None \<Rightarrow> k \<notin> dataOf s ` set (addrs (plug c t)) | Some ref \<Rightarrow> \<exists>a\<in>set (addrs (plug c t)). readRef ref s = Some a \<and> dataOf s a = k)"
  using assms
proof (induction t arbitrary: c)
  case Leaf
  then show ?case using around_read [OF Leaf] around_end(3) [OF Leaf] by (subst findImpl.simps) simp
next
  case (Node l x r)
  show ?case
  proof (cases "k = dataOf s (fst x)")
    case True
    have "fst x \<in> set (addrs (plug c \<langle>l, x, r\<rangle>))" by (simp add: addrs_plug)
    then show ?thesis using around_read [OF Node.prems] True by (subst findImpl.simps) auto
  next
    case False
    show ?thesis
    proof (cases "cmp k (dataOf s (fst x))")
      case True
      then show ?thesis using around_read [OF Node.prems] False Node.IH(1) [OF around_left [OF Node.prems True]] by (subst findImpl.simps) (simp cong: option.case_cong)
    next
      case ge: False
      then have "cmp (dataOf s (fst x)) k" using trichotomy False by blast
      then show ?thesis using around_read [OF Node.prems] False ge Node.IH(2) [OF around_right [OF Node.prems]] by (subst findImpl.simps) (simp cong: option.case_cong)
    qed
  qed
qed

lemma floorLoop_ok:
  assumes "around s k c t"
  shows "floorLoop cmp k (lastOpt (before c)) (holeRef c) s = Some (lastOpt (filter (\<lambda>a. \<not> cmp k (dataOf s a)) (addrs (plug c t))))"
  using assms
proof (induction t arbitrary: c)
  case Leaf
  then show ?case using around_read [OF Leaf] around_end(1) [OF Leaf] by (subst floorLoop.simps) simp
next
  case (Node l x r)
  note rd = around_read [OF Node.prems]
  show ?case
  proof (cases "dataOf s (fst x) = k")
    case True
    then show ?thesis using rd around_found(1) [of s x c l r] Node.prems by (subst floorLoop.simps) (auto simp: lastOpt_def)
  next
    case ne: False
    show ?thesis
    proof (cases "cmp (dataOf s (fst x)) k")
      case True
      then show ?thesis using rd ne Node.IH(2) [OF around_right [OF Node.prems True]] by (subst floorLoop.simps) simp
    next
      case False
      then have "cmp k (dataOf s (fst x))" using trichotomy ne by blast
      then show ?thesis using rd ne False Node.IH(1) [OF around_left [OF Node.prems]] by (subst floorLoop.simps) simp
    qed
  qed
qed

lemma ceilLoop_ok:
  assumes "around s k c t"
  shows "ceilLoop cmp k (headOpt (after c)) (holeRef c) s = Some (headOpt (filter (\<lambda>a. \<not> cmp (dataOf s a) k) (addrs (plug c t))))"
  using assms
proof (induction t arbitrary: c)
  case Leaf
  then show ?case using around_read [OF Leaf] around_end(2) [OF Leaf] by (subst ceilLoop.simps) simp
next
  case (Node l x r)
  note rd = around_read [OF Node.prems]
  show ?case
  proof (cases "dataOf s (fst x) = k")
    case True
    then show ?thesis using rd around_found(2) [of s x c l r] Node.prems by (subst ceilLoop.simps) auto
  next
    case ne: False
    show ?thesis
    proof (cases "cmp k (dataOf s (fst x))")
      case True
      then show ?thesis using rd ne Node.IH(1) [OF around_left [OF Node.prems True]] by (subst ceilLoop.simps) simp
    next
      case False
      then have "cmp (dataOf s (fst x)) k" using trichotomy ne by blast
      then show ?thesis using rd ne False Node.IH(2) [OF around_right [OF Node.prems]] by (subst ceilLoop.simps) simp
    qed
  qed
qed

text \<open>The loops for a node without a child on the side of its neighbour.\<close>

lemma around_self:
  assumes "around s k c \<langle>l, x, r\<rangle>" "node \<in> set (addrs (plug c \<langle>l, x, r\<rangle>))" "k = dataOf s node" "\<not> cmp k (dataOf s (fst x))" "\<not> cmp (dataOf s (fst x)) k"
  shows "fst x = node"
proof -
  have "dataOf s (fst x) = k" using assms(4,5) trichotomy by blast
  moreover have "y \<in> set (before c) \<union> set (addrs l) \<union> set (addrs r) \<union> set (after c) \<Longrightarrow> cmp (dataOf s y) (dataOf s (fst x)) \<or> cmp (dataOf s (fst x)) (dataOf s y)" for y
    using assms(1) by (auto simp: around_def addrs_plug ordered_append ordered_Cons)
  moreover have "node = fst x \<or> node \<in> set (before c) \<union> set (addrs l) \<union> set (addrs r) \<union> set (after c)" using assms(2) by (auto simp: addrs_plug)
  ultimately show ?thesis using assms(3) irrefl by metis
qed

lemma filter_around:
  assumes "around s k c \<langle>l, x, r\<rangle>" "k = dataOf s (fst x)"
  shows "filter (\<lambda>a. cmp k (dataOf s a)) (addrs (plug c \<langle>l, x, r\<rangle>)) = addrs r @ after c" "filter (\<lambda>a. cmp (dataOf s a) k) (addrs (plug c \<langle>l, x, r\<rangle>)) = before c @ addrs l"
  using assms asym by (auto simp: around_def addrs_plug ordered_append ordered_Cons filter_empty_conv intro!: filter_True)

lemma successorLoop_ok:
  assumes "around s k c t" "node \<in> set (addrs (plug c t))" "k = dataOf s node" "rightOf s node = None"
  shows "successorLoop cmp node (headOpt (after c)) (holeRef c) s = Some (headOpt (filter (\<lambda>a. cmp k (dataOf s a)) (addrs (plug c t))))"
  using assms(1,2)
proof (induction t arbitrary: c)
  case Leaf
  then show ?case using around_end(3) [OF Leaf(1)] assms(3) by blast
next
  case (Node l x r)
  note rd = around_read [OF Node.prems(1)]
  consider "cmp k (dataOf s (fst x))" | "cmp (dataOf s (fst x)) k" "\<not> cmp k (dataOf s (fst x))" | "\<not> cmp k (dataOf s (fst x))" "\<not> cmp (dataOf s (fst x)) k" by blast
  then show ?case
  proof cases
    case 1
    then show ?thesis using rd Node.IH(1) [OF around_left [OF Node.prems(1) 1]] Node.prems(2) assms(3) by (subst successorLoop.simps) simp
  next
    case 2
    then show ?thesis using rd Node.IH(2) [OF around_right [OF Node.prems(1) 2(1)]] Node.prems(2) assms(3) by (subst successorLoop.simps) simp
  next
    case 3
    have x: "fst x = node" using around_self [OF Node.prems assms(3) 3] .
    have "rightOf s (fst x) = rootAddr r" using represents_node(5) [of s c DirLeft l "fst x" "snd x" r] Node.prems(1) by (simp add: around_def)
    then have "r = \<langle>\<rangle>" using assms(4) x by (metis rootAddr_None)
    then show ?thesis using rd 3 assms(3) filter_around(1) [OF Node.prems(1)] x by (subst successorLoop.simps) simp
  qed
qed

lemma predecessorLoop_ok:
  assumes "around s k c t" "node \<in> set (addrs (plug c t))" "k = dataOf s node" "leftOf s node = None"
  shows "predecessorLoop cmp node (lastOpt (before c)) (holeRef c) s = Some (lastOpt (filter (\<lambda>a. cmp (dataOf s a) k) (addrs (plug c t))))"
  using assms(1,2)
proof (induction t arbitrary: c)
  case Leaf
  then show ?case using around_end(3) [OF Leaf(1)] assms(3) by blast
next
  case (Node l x r)
  note rd = around_read [OF Node.prems(1)]
  consider "cmp (dataOf s (fst x)) k" | "cmp k (dataOf s (fst x))" "\<not> cmp (dataOf s (fst x)) k" | "\<not> cmp k (dataOf s (fst x))" "\<not> cmp (dataOf s (fst x)) k" by blast
  then show ?case
  proof cases
    case 1
    then show ?thesis using rd Node.IH(2) [OF around_right [OF Node.prems(1) 1]] Node.prems(2) assms(3) by (subst predecessorLoop.simps) simp
  next
    case 2
    then show ?thesis using rd Node.IH(1) [OF around_left [OF Node.prems(1) 2(1)]] Node.prems(2) assms(3) by (subst predecessorLoop.simps) simp
  next
    case 3
    have x: "fst x = node" using around_self [OF Node.prems assms(3) 3] .
    have "leftOf s (fst x) = rootAddr l" using represents_node(4) [of s c DirLeft l "fst x" "snd x" r] Node.prems(1) by (simp add: around_def)
    then have "l = \<langle>\<rangle>" using assms(4) x by (metis rootAddr_None)
    then show ?thesis using rd 3 assms(3) filter_around(2) [OF Node.prems(1)] x by (subst predecessorLoop.simps) simp
  qed
qed

section \<open>Queries on a search tree\<close>

lemma tree_find_ok:
  assumes "rbTree cmp s xs"
  shows "\<exists>r. tree_find cmp k s = Some r \<and> (case r of None \<Rightarrow> k \<notin> dataOf s ` set xs | Some a \<Rightarrow> a \<in> set xs \<and> dataOf s a = k)"
proof -
  obtain t where t: "represents s t" "addrs t = xs" "ordered cmp s xs" using assms by (auto simp: rbTree_def)
  obtain r where r: "findImpl cmp k RootRef s = Some r"
    "case r of None \<Rightarrow> k \<notin> dataOf s ` set xs | Some ref \<Rightarrow> \<exists>a\<in>set xs. readRef ref s = Some a \<and> dataOf s a = k"
    using findImpl_ok [OF around_start [of s t k]] t by (auto cong: option.case_cong)
  then show ?thesis by (cases r) (auto simp: tree_find_def)
qed

lemma tree_floor_ok: "rbTree cmp s xs \<Longrightarrow> tree_floor cmp k s = Some (lastOpt (filter (\<lambda>a. \<not> cmp k (dataOf s a)) xs))"
  using floorLoop_ok [OF around_start, of s _ k] by (auto simp: rbTree_def tree_floor_def)

lemma tree_ceil_ok: "rbTree cmp s xs \<Longrightarrow> tree_ceil cmp k s = Some (headOpt (filter (\<lambda>a. \<not> cmp (dataOf s a) k) xs))"
  using ceilLoop_ok [OF around_start, of s _ k] by (auto simp: rbTree_def tree_ceil_def)

lemma tree_neighbours_ok:
  assumes "rbTree cmp s xs" "a \<in> set xs"
  shows "tree_successor cmp (Some a) s = Some (headOpt (filter (\<lambda>b. cmp (dataOf s a) (dataOf s b)) xs))"
    "tree_predecessor cmp (Some a) s = Some (lastOpt (filter (\<lambda>b. cmp (dataOf s b) (dataOf s a)) xs))"
proof -
  obtain t where t: "represents s t" "addrs t = xs" "ordered cmp s xs" using assms(1) by (auto simp: rbTree_def)
  obtain c l k r where c: "t = plug c \<langle>l, (a, k), r\<rangle>" using find_context [of a t "[]"] assms(2) t(2) by auto
  have st: "around s (dataOf s a) [] t" using around_start t by simp
  have ar: "around s (dataOf s a) c \<langle>l, (a, k), r\<rangle>" using t c by (auto simp: around_def addrs_plug ordered_append ordered_Cons)
  have rep: "represents s (plug c (mkNode DirLeft l (a, k) r))" using t(1) c by simp
  note F = filter_around [OF ar] and R = represents_node(4,5) [OF rep]
  show "tree_successor cmp (Some a) s = Some (headOpt (filter (\<lambda>b. cmp (dataOf s a) (dataOf s b)) xs))"
  proof (cases "rootAddr r")
    case None
    then show ?thesis using successorLoop_ok [OF st _ refl] R t(2) assms(2) by (simp add: tree_successor_def)
  next
    case (Some b)
    have "represents s (plug ((DirRight, (a, k), l) # c) r)" using rep by simp
    from followSide_ok(1) [OF this Some] have "followSide DirLeft b s = headOpt (addrs r)" .
    moreover have "addrs r \<noteq> []" using Some by (cases r) auto
    ultimately show ?thesis using Some R F(1) t(2) c by (cases "addrs r") (auto simp: tree_successor_def)
  qed
  show "tree_predecessor cmp (Some a) s = Some (lastOpt (filter (\<lambda>b. cmp (dataOf s b) (dataOf s a)) xs))"
  proof (cases "rootAddr l")
    case None
    then show ?thesis using predecessorLoop_ok [OF st _ refl] R t(2) assms(2) by (simp add: tree_predecessor_def)
  next
    case (Some b)
    have "represents s (plug ((DirLeft, (a, k), r) # c) l)" using rep by simp
    from followSide_ok(2) [OF this Some] have "followSide DirRight b s = lastOpt (addrs l)" .
    moreover have "addrs l \<noteq> []" using Some by (cases l) auto
    ultimately show ?thesis using Some R F(2) t(2) c by (auto simp: tree_predecessor_def lastOpt_def)
  qed
qed

lemma eraseValue_ok:
  assumes "rbTree cmp s xs"
  shows "if k \<in> dataOf s ` set xs then \<exists>a s'. eraseValue cmp k s = Some (Inr (Some a, s')) \<and> a \<in> set xs \<and> dataOf s a = k \<and> rbTree cmp s' (remove1 a xs) \<and> dataOf s' = dataOf s
    else eraseValue cmp k s = Some (Inr (None, s))"
proof -
  obtain r where r: "tree_find cmp k s = Some r" "case r of None \<Rightarrow> k \<notin> dataOf s ` set xs | Some a \<Rightarrow> a \<in> set xs \<and> dataOf s a = k" using tree_find_ok [OF assms] by blast
  show ?thesis
  proof (cases r)
    case None
    then show ?thesis using r by (simp add: eraseValue_def rbErase_def)
  next
    case (Some a)
    then show ?thesis using r rbErase_ok [OF assms, of a] by (auto simp: eraseValue_def)
  qed
qed

end

lemma tree_ends_ok:
  assumes "rbTree cmp s xs"
  shows "tree_min s = Some (headOpt xs)" "tree_max s = Some (lastOpt xs)"
proof -
  obtain t where t: "represents s (plug [] t)" "addrs t = xs" using assms by (auto simp: rbTree_def)
  have root: "treeRoot s = rootAddr t" using represents_hole [OF t(1)] by simp
  show "tree_min s = Some (headOpt xs)"
  proof (cases t)
    case (Node l x r)
    then show ?thesis using root followSide_ok(1) [OF t(1), of "fst x"] t(2) by (cases "addrs t") (auto simp: tree_min_def)
  qed (use root t in \<open>auto simp: tree_min_def\<close>)
  show "tree_max s = Some (lastOpt xs)"
  proof (cases t)
    case (Node l x r)
    then show ?thesis using root followSide_ok(2) [OF t(1), of "fst x"] t(2) by (auto simp: tree_max_def lastOpt_def)
  qed (use root t in \<open>auto simp: tree_max_def\<close>)
qed

section \<open>Visits\<close>

fun visitList :: "(nat \<Rightarrow> 'v \<Rightarrow> bool \<times> 'v) \<Rightarrow> nat list \<Rightarrow> 'v \<Rightarrow> bool \<times> 'v" where
  "visitList visitor [] v = (False, v)"
| "visitList visitor (n # ns) v = (let (stopped, v1) = visitor n v in if stopped then (True, v1) else visitList visitor ns v1)"

lemma visitList_append:
  "visitList visitor (xs @ ys) v = (let (stopped, v1) = visitList visitor xs v in if stopped then (True, v1) else visitList visitor ys v1)"
  by (induction xs arbitrary: v) (auto simp: Let_def split: prod.splits)

lemma visitList_post: "visitList visitor [n] v = visitor n v"
  by (auto simp: Let_def split: prod.splits)

lemma visits_shape:
  assumes "shape s p q t"
  shows "visitInOrder visitor p v s = Some (visitList visitor (addrs t) v)"
    "visitReverseOrder visitor p v s = Some (visitList visitor (rev (addrs t)) v)"
    "visitPostOrder visitor p v s = Some (visitList visitor (map fst (postorder t)) v)"
proof -
  show "visitInOrder visitor p v s = Some (visitList visitor (addrs t) v)" using assms
    by (induction t arbitrary: p q v) (subst visitInOrder.simps; auto simp: visitList_append Let_def split: prod.splits)+
  show "visitReverseOrder visitor p v s = Some (visitList visitor (rev (addrs t)) v)" using assms
    by (induction t arbitrary: p q v) (subst visitReverseOrder.simps; auto simp: visitList_append Let_def split: prod.splits)+
  show "visitPostOrder visitor p v s = Some (visitList visitor (map fst (postorder t)) v)" using assms
    by (induction t arbitrary: p q v) (subst visitPostOrder.simps; auto simp: visitList_append visitList_post Let_def split: prod.splits)+
qed

section \<open>Depth\<close>

lemma balanced_size: "balanced t \<Longrightarrow> 2 ^ blackHeight t \<le> size1 t"
  by (induction t) (auto simp: size1_size)

lemma balanced_height: "balanced t \<Longrightarrow> height t \<le> 2 * blackHeight t + (if redRoot t then 1 else 0)"
  by (induction t) (auto split: if_splits)

lemma size_addrs: "length (addrs t) = size t"
  by (simp add: addrs_def)

lemma redBlack_depth:
  assumes "redBlack t"
  shows "2 ^ height t \<le> (length (addrs t) + 1) ^ 2"
proof -
  have b: "balanced t" "\<not> redRoot t" using assms by (auto simp: redBlack_def)
  have "height t \<le> 2 * blackHeight t" using balanced_height [OF b(1)] b(2) by simp
  then have "(2 :: nat) ^ height t \<le> (2 ^ blackHeight t) ^ 2" by (simp add: power_mult [symmetric] mult.commute)
  also have "\<dots> \<le> (size1 t) ^ 2" using balanced_size [OF b(1)] by (rule power_mono) simp
  finally show ?thesis by (simp add: size1_size size_addrs)
qed

section \<open>The mapped searches\<close>

lemma mappedFloor_runs_left:
  assumes "represents s (plug c t)" "\<forall>a\<in>set (addrs t). tcomp (f (dataOf s a)) k \<and> f (dataOf s a) \<noteq> k"
  shows "mappedFloorLoop tcomp k f res (holeRef c) s = Some (case (if t = \<langle>\<rangle> then res else headOpt (addrs t)) of None \<Rightarrow> Inl (Undefined ''null pointer'') | Some r \<Rightarrow> Inr r)"
  using assms
proof (induction t arbitrary: c res)
  case Leaf
  then show ?case using represents_hole [OF Leaf(1)] by (subst mappedFloorLoop.simps) simp
next
  case (Node l x r)
  have "mappedFloorLoop tcomp k f res (holeRef c) s = mappedFloorLoop tcomp k f (Some (fst x)) (holeRef ((DirLeft, x, r) # c)) s"
    using represents_hole [OF Node.prems(1)] Node.prems(2) by (subst mappedFloorLoop.simps) simp
  also have "\<dots> = Some (case (if l = \<langle>\<rangle> then Some (fst x) else headOpt (addrs l)) of None \<Rightarrow> Inl (Undefined ''null pointer'') | Some r \<Rightarrow> Inr r)"
    using Node.IH(1) [of "(DirLeft, x, r) # c"] Node.prems by simp
  finally show ?case by (cases l) (auto simp: headOpt_append)
qed

lemma mappedCeil_runs_right:
  assumes "represents s (plug c t)" "\<forall>a\<in>set (addrs t). \<not> tcomp k (f (dataOf s a)) \<and> f (dataOf s a) \<noteq> k"
  shows "mappedCeilLoop tcomp k f None (holeRef c) s = Some (Inl (Undefined ''null pointer''))"
  using assms
proof (induction t arbitrary: c)
  case Leaf
  then show ?case using represents_hole [OF Leaf(1)] by (subst mappedCeilLoop.simps) simp
next
  case (Node l x r)
  then show ?case using represents_hole [OF Node.prems(1)] Node.IH(2) [of "(DirRight, x, l) # c"] by (subst mappedCeilLoop.simps) simp
qed

section \<open>Updating a node\<close>

lemma represents_setData: "represents (s\<lparr>dataOf := f\<rparr>) t = represents s t"
  unfolding represents_def using shape_cong [of t "s\<lparr>dataOf := f\<rparr>" s] by simp

lemma rbUpdate_ok:
  assumes "total_order cmp" "rbTree cmp s xs" "a \<in> set xs"
  shows "\<exists>s' xs'. rbUpdate cmp (Some a) f s = Some (Inr (True, s')) \<and> dataOf s' = (dataOf s)(a := f (dataOf s a)) \<and> rbTree cmp s' xs' \<and>
    set xs' = (if f (dataOf s a) \<in> dataOf s ` (set xs - {a}) then set xs - {a} else set xs)"
proof -
  obtain t where t: "represents s t" "redBlack t" "addrs t = xs" "ordered cmp s xs" using assms(2) by (auto simp: rbTree_def)
  have dist: "distinct xs" using t(1,3) by (simp add: represents_def)
  let ?s0 = "s\<lparr>dataOf := (dataOf s)(a := f (dataOf s a))\<rparr>" and ?ys = "remove1 a xs"
  have ys: "set ?ys = set xs - {a}" using dist by simp
  have "represents ?s0 t" using t(1) by (simp add: represents_setData)
  from rbErase_represents [OF this t(2), of a] obtain s1 t1 where e: "rbErase (Some a) ?s0 = Some (Inr (Some a, s1))" "represents s1 t1" "redBlack t1" "addrs t1 = ?ys"
    "dataOf s1 = (dataOf s)(a := f (dataOf s a))" using assms(3) t(3) by auto
  have "map (dataOf s1) ?ys = map (dataOf s) ?ys" using e(5) ys by auto
  then have "ordered cmp s1 ?ys" using ordered_remove1 [OF t(4), of a] by (simp only: ordered_def)
  then have "rbTree cmp s1 ?ys" using e by (auto simp: rbTree_def)
  moreover have "a \<notin> set ?ys" using ys by simp
  moreover have "dataOf s1 ` set ?ys = dataOf s ` (set xs - {a})" using e(5) ys by auto
  ultimately have I: "if f (dataOf s a) \<in> dataOf s ` (set xs - {a})
      then \<exists>s'. insertImpl cmp (Some a) s1 = Some (False, s') \<and> rbTree cmp s' ?ys \<and> dataOf s' = dataOf s1
      else \<exists>s' us vs. insertImpl cmp (Some a) s1 = Some (True, s') \<and> rbTree cmp s' (us @ a # vs) \<and> ?ys = us @ vs \<and> dataOf s' = dataOf s1"
    using total_order.insertImpl_ok [OF assms(1), of s1 ?ys a] e(5) by simp
  show ?thesis
  proof (cases "f (dataOf s a) \<in> dataOf s ` (set xs - {a})")
    case True
    then show ?thesis using I e(1,5) ys by (auto simp: rbUpdate_def)
  next
    case False
    then obtain s' us vs where n: "insertImpl cmp (Some a) s1 = Some (True, s')" "rbTree cmp s' (us @ a # vs)" "?ys = us @ vs" "dataOf s' = dataOf s1" using I by auto
    have "set (us @ a # vs) = set xs" using n(3) ys assms(3) by (metis insert_Diff list.simps(15) set_append Un_insert_right)
    then show ?thesis using n e(1,5) False by (intro exI [of _ s'] exI [of _ "us @ a # vs"]) (simp add: rbUpdate_def)
  qed
qed

end
