(* ===== verification/Tree_Props.thy ===== *)
theory Tree_Props
  imports Tree_Query
begin

text \<open>What the red-black tree of \<open>core/ds/Trees.h\<close> promises to its users, for every comparator that is a strict total order.\<close>

definition exampleTree :: "nat treeHeap" where
  "exampleTree = \<lparr>treeRoot = Some 2, leftOf = (\<lambda>_. None)(2 := Some 1), rightOf = (\<lambda>_. None)(2 := Some 3),
     parentOf = (\<lambda>_. None)(1 := Some 2, 3 := Some 2), redOf = (\<lambda>a. a \<noteq> 2), dataOf = (\<lambda>a. a)\<rparr>"

lemma exampleTree_ok: "rbTree DefaultComparator exampleTree [1, 2, 3]" "dataOf exampleTree = (\<lambda>a. a)"
proof -
  have "represents exampleTree \<langle>\<langle>\<langle>\<rangle>, (1, True), \<langle>\<rangle>\<rangle>, (2, False), \<langle>\<langle>\<rangle>, (3, True), \<langle>\<rangle>\<rangle>\<rangle>" by (simp add: represents_def exampleTree_def)
  moreover have "redBlack \<langle>\<langle>\<langle>\<rangle>, (1, True), \<langle>\<rangle>\<rangle>, (2, False), \<langle>\<langle>\<rangle>, (3, True), \<langle>\<rangle>\<rangle>\<rangle>" by (simp add: redBlack_def)
  moreover show "dataOf exampleTree = (\<lambda>a. a)" by (simp add: exampleTree_def)
  ultimately show "rbTree DefaultComparator exampleTree [1, 2, 3]"
    unfolding rbTree_def by (intro conjI exI [of _ "\<langle>\<langle>\<langle>\<rangle>, (1, True), \<langle>\<rangle>\<rangle>, (2, False), \<langle>\<langle>\<rangle>, (3, True), \<langle>\<rangle>\<rangle>\<rangle>"]) (simp_all add: ordered_Cons DefaultComparator_def)
qed

lemma default_total_order: "total_order (DefaultComparator :: 'a::linorder \<Rightarrow> 'a \<Rightarrow> bool)"
  by unfold_locales

text \<open>
  C15: Inserting a node into a red-black search tree ends. If a node with equal data is there, the tree keeps its nodes and the
  answer is false; otherwise the answer is true and the tree, again red-black with correct parent pointers, has the node
  at its place in the order.
\<close>

theorem rb_tree_insert:
  assumes "total_order cmp" "rbTree cmp s xs" "n \<notin> set xs"
  shows "if dataOf s n \<in> dataOf s ` set xs
    then \<exists>s'. insertImpl cmp (Some n) s = Some (False, s') \<and> rbTree cmp s' xs \<and> dataOf s' = dataOf s
    else \<exists>s' ys zs. insertImpl cmp (Some n) s = Some (True, s') \<and> rbTree cmp s' (ys @ n # zs) \<and> xs = ys @ zs \<and> dataOf s' = dataOf s"
  by (rule total_order.insertImpl_ok) (rule assms)+

theorem rb_tree_insert_witness:
  "\<exists>s' ys zs. insertImpl DefaultComparator (Some 4) exampleTree = Some (True, s') \<and> rbTree DefaultComparator s' (ys @ 4 # zs) \<and> ys @ zs = [1, 2, 3]"
  using rb_tree_insert [OF default_total_order exampleTree_ok(1), of 4] by (simp add: exampleTree_ok(2)) metis

text \<open>
  C16: Removing a node of a red-black search tree, by its address or by its data, ends without following a null pointer, returns
  the node, and leaves a red-black search tree of exactly the other nodes in their order; removing data that no node has
  returns null and changes nothing.
\<close>

theorem rb_tree_erase:
  assumes "total_order cmp" "rbTree cmp s xs"
  shows "(\<forall>a\<in>set xs. \<exists>s'. rbErase (Some a) s = Some (Inr (Some a, s')) \<and> rbTree cmp s' (remove1 a xs) \<and> dataOf s' = dataOf s) \<and>
    (\<forall>k. if k \<in> dataOf s ` set xs
       then \<exists>a s'. eraseValue cmp k s = Some (Inr (Some a, s')) \<and> a \<in> set xs \<and> dataOf s a = k \<and> rbTree cmp s' (remove1 a xs) \<and> dataOf s' = dataOf s
       else eraseValue cmp k s = Some (Inr (None, s)))"
  using rbErase_ok [OF assms(2)] total_order.eraseValue_ok [OF assms] by blast

theorem rb_tree_erase_witness:
  "\<exists>s'. rbErase (Some 2) exampleTree = Some (Inr (Some 2, s')) \<and> rbTree DefaultComparator s' [1, 3]"
proof -
  have "(\<forall>a\<in>set [1, 2, 3]. \<exists>s'. rbErase (Some a) exampleTree = Some (Inr (Some a, s')) \<and> rbTree DefaultComparator s' (remove1 a [1, 2, 3]) \<and> dataOf s' = dataOf exampleTree)"
    using rb_tree_erase [OF default_total_order exampleTree_ok(1)] by (rule conjunct1)
  then have "\<exists>s'. rbErase (Some 2) exampleTree = Some (Inr (Some 2, s')) \<and> rbTree DefaultComparator s' (remove1 2 [1, 2, 3]) \<and> dataOf s' = dataOf exampleTree"
    by (rule bspec) simp
  then show ?thesis by auto
qed

text \<open>
  C17: On a red-black search tree the queries end and are exact: \<open>find\<close> finds the node with the data if there is one, \<open>floor\<close> and \<open>ceil\<close>
  the last node that is not larger and the first that is not smaller, \<open>successor\<close> and \<open>predecessor\<close> the neighbours, \<open>min\<close> and \<open>max\<close> the
  ends, and the in-order visit goes through the nodes in order until the visitor stops it. No path is longer than twice the
  logarithm of the number of nodes.
\<close>

theorem rb_tree_queries:
  assumes "total_order cmp" "rbTree cmp s xs"
  shows "(\<exists>r. tree_find cmp k s = Some r \<and> (case r of None \<Rightarrow> k \<notin> dataOf s ` set xs | Some a \<Rightarrow> a \<in> set xs \<and> dataOf s a = k)) \<and>
    tree_floor cmp k s = Some (lastOpt (filter (\<lambda>a. \<not> cmp k (dataOf s a)) xs)) \<and>
    tree_ceil cmp k s = Some (headOpt (filter (\<lambda>a. \<not> cmp (dataOf s a) k) xs)) \<and>
    (\<forall>a\<in>set xs. tree_successor cmp (Some a) s = Some (headOpt (filter (\<lambda>b. cmp (dataOf s a) (dataOf s b)) xs)) \<and>
       tree_predecessor cmp (Some a) s = Some (lastOpt (filter (\<lambda>b. cmp (dataOf s b) (dataOf s a)) xs))) \<and>
    tree_min s = Some (headOpt xs) \<and> tree_max s = Some (lastOpt xs) \<and>
    visitInOrder visitor (treeRoot s) v s = Some (visitList visitor xs v) \<and>
    (\<exists>t. represents s t \<and> addrs t = xs \<and> 2 ^ height t \<le> (length xs + 1) ^ 2)"
proof -
  obtain t where t: "represents s t" "addrs t = xs" "redBlack t" using assms(2) by (auto simp: rbTree_def)
  have "visitInOrder visitor (treeRoot s) v s = Some (visitList visitor xs v)" using visits_shape(1) t(1,2) by (auto simp: represents_def)
  moreover have "2 ^ height t \<le> (length xs + 1) ^ 2" using redBlack_depth [OF t(3)] t(2) by simp
  ultimately show ?thesis
    using total_order.tree_find_ok [OF assms] total_order.tree_floor_ok [OF assms] total_order.tree_ceil_ok [OF assms] total_order.tree_neighbours_ok [OF assms]
      tree_ends_ok [OF assms(2)] t(1,2) by blast
qed

theorem rb_tree_queries_witness:
  "tree_floor DefaultComparator 5 exampleTree = Some (Some 3) \<and> tree_successor DefaultComparator (Some 1) exampleTree = Some (Some 2) \<and>
   visitInOrder (\<lambda>a v. (False, v @ [a])) (treeRoot exampleTree) [] exampleTree = Some (False, [1, 2, 3])"
  using rb_tree_queries [OF default_total_order exampleTree_ok(1), of 5 "\<lambda>a v. (False, v @ [a])" "[]"]
  by (simp add: exampleTree_ok(2) DefaultComparator_def lastOpt_def)

text \<open>
  C18: \<open>update\<close> changes the data of a node and moves it to its new place. It answers true in every case; when another node has the
  new data, the updated node is no longer in the tree.
\<close>

theorem rb_tree_update:
  assumes "total_order cmp" "rbTree cmp s xs" "a \<in> set xs"
  shows "\<exists>s' xs'. rbUpdate cmp (Some a) f s = Some (Inr (True, s')) \<and> dataOf s' = (dataOf s)(a := f (dataOf s a)) \<and> rbTree cmp s' xs' \<and>
    set xs' = (if f (dataOf s a) \<in> dataOf s ` (set xs - {a}) then set xs - {a} else set xs)"
  by (rule rbUpdate_ok) (rule assms)+

theorem rb_tree_update_witness:
  "\<exists>s' xs'. rbUpdate DefaultComparator (Some 1) (\<lambda>_. 3) exampleTree = Some (Inr (True, s')) \<and> rbTree DefaultComparator s' xs' \<and> set xs' = {2, 3}"
proof -
  have "{1, 2, 3} - {1} = {2, 3 :: nat}" by auto
  then show ?thesis using rb_tree_update [OF default_total_order exampleTree_ok(1), of 1 "\<lambda>_. 3"] by (auto simp: exampleTree_ok(2))
qed

text \<open>
  C19: When every mapped value is below the target, \<open>mappedFloor\<close> returns the first node of the tree instead of the last, and \<open>mappedCeil\<close>
  dereferences a null pointer instead of returning null; on an empty tree both do the latter.
\<close>

theorem mapped_search_faults:
  assumes "rbTree cmp s xs" "\<forall>a\<in>set xs. tcomp (f (dataOf s a)) k \<and> \<not> tcomp k (f (dataOf s a)) \<and> f (dataOf s a) \<noteq> k"
  shows "mappedFloor tcomp k f s = Some (case headOpt xs of None \<Rightarrow> Inl (Undefined ''null pointer'') | Some r \<Rightarrow> Inr r) \<and>
    mappedCeil tcomp k f s = Some (Inl (Undefined ''null pointer''))"
proof -
  obtain t where t: "represents s (plug [] t)" "addrs t = xs" using assms(1) by (auto simp: rbTree_def)
  have "t = \<langle>\<rangle> \<longleftrightarrow> xs = []" using t(2) by (cases t) auto
  then show ?thesis using mappedFloor_runs_left [OF t(1), of tcomp f k None] mappedCeil_runs_right [OF t(1), of tcomp k f] t(2) assms(2)
    by (auto simp: mappedFloor_def mappedCeil_def)
qed

theorem mapped_search_faults_witness:
  "mappedFloor DefaultComparator (5 :: nat) (\<lambda>k. k) exampleTree = Some (Inr 1) \<and> mappedCeil DefaultComparator (5 :: nat) (\<lambda>k. k) exampleTree = Some (Inl (Undefined ''null pointer''))"
  using mapped_search_faults [OF exampleTree_ok(1), of DefaultComparator "\<lambda>k. k" 5] by (simp add: exampleTree_ok(2) DefaultComparator_def)

end
