(* ===== verification/Alloc_Slab.thy ===== *)
theory Alloc_Slab
  imports Core_Math
begin

text \<open>
  \<open>LibAlloc::Slab\<close> of \<open>liballoc/SlabAllocator.h\<close> and \<open>SlabAllocator.cpp\<close>: slots of one size carved from a buffer, with the free
  slots linked through their own memory, a horizon of slots never used so far, and a bitmap of free slots that catches
  double frees. Addresses are natural numbers, the null pointer is \<open>None\<close>; \<open>slotLink\<close> is the first word of a slot's memory.
\<close>

section \<open>Pointer arithmetic\<close>

definition alignDown :: "bool \<Rightarrow> u64 \<Rightarrow> u64 \<Rightarrow> u64" where
  "alignDown pow2 addr alignment = (if pow2 then addr AND NOT (alignment - 1) else addr - addr mod alignment)"

definition alignUp :: "bool \<Rightarrow> u64 \<Rightarrow> u64 \<Rightarrow> u64" where
  "alignUp pow2 addr alignment = alignDown pow2 (addr + alignment - 1) alignment"

section \<open>The slab\<close>

record AllocSlab =
  slotSize :: nat
  backingStorage :: nat
  initializedHorizon :: nat
  backingSize :: nat
  freeCount :: nat
  numSlots :: nat
  nextFree :: "nat option"
  freeList :: "u8 list"
  slotLink :: "nat \<Rightarrow> nat option"

definition getAlignValForSlotSize :: "nat \<Rightarrow> u64" where
  "getAlignValForSlotSize sz = max (largestPowerOf2Dividing (of_nat sz)) 64"

text \<open>The free bitmap comes first, then the slots from the next aligned address on.\<close>

definition newSlab :: "nat \<Rightarrow> nat \<Rightarrow> nat \<Rightarrow> AllocSlab outcome" where
  "newSlab slot_size backing_store backing_size =
     (let objectCount = (8 * backing_size) div (8 * slot_size + 1);
          freeListSize = (objectCount + 7) div 8;
          backingStoreEnd = backing_store + backing_size;
          start = unat (alignUp True (of_nat (backing_store + freeListSize)) (getAlignValForSlotSize slot_size));
          rest = sub_size backingStoreEnd start;
          slotCount = rest div slot_size
      in if slot_size = 0 then Inl (Undefined ''division by zero'')
         else if slot_size < 8 then Inl (Assertion ''Minimum slot size is 8 bytes'')
         else if slotCount \<le> 1 then Inl (Assertion ''A slab must have more than 1 slot.'')
         else Inr \<lparr>slotSize = slot_size, backingStorage = start, initializedHorizon = start, backingSize = rest,
                   freeCount = slotCount, numSlots = slotCount, nextFree = Some start,
                   freeList = replicate freeListSize 0xff, slotLink = (\<lambda>_. None)\<rparr>)"

definition slotIndex :: "nat \<Rightarrow> AllocSlab \<Rightarrow> nat" where
  "slotIndex ptr s = sub_size ptr (backingStorage s) div slotSize s"

definition markSlotFreeState :: "nat \<Rightarrow> bool \<Rightarrow> AllocSlab \<Rightarrow> AllocSlab outcome" where
  "markSlotFreeState ptr fr s =
     (let i = slotIndex ptr s; m = push_bit (i mod 8) 1
      in if length (freeList s) \<le> i div 8 then Inl (Undefined ''out of bounds'')
         else Inr (s\<lparr>freeList := (freeList s)[i div 8 := freeList s ! (i div 8) AND NOT m OR (if fr then m else 0)]\<rparr>))"

definition as_isSlotFree :: "nat \<Rightarrow> AllocSlab \<Rightarrow> bool outcome" where
  "as_isSlotFree ptr s =
     (let i = slotIndex ptr s
      in if length (freeList s) \<le> i div 8 then Inl (Undefined ''out of bounds'')
         else Inr (freeList s ! (i div 8) AND push_bit (i mod 8) 1 \<noteq> 0))"

definition as_alloc :: "AllocSlab \<Rightarrow> (nat \<times> AllocSlab) outcome" where
  "as_alloc s =
     (case nextFree s of
        None \<Rightarrow> Inl (Assertion ''Caller did not confirm slab allocator has free space'')
      | Some toReturn \<Rightarrow>
          let s1 = (if toReturn = initializedHorizon s
                    then let horizonAddr = initializedHorizon s + slotSize s
                         in s\<lparr>initializedHorizon := horizonAddr,
                              nextFree := (if backingStorage s + backingSize s < horizonAddr + slotSize s then None else Some horizonAddr)\<rparr>
                    else s\<lparr>nextFree := slotLink s toReturn, slotLink := (slotLink s)(toReturn := None)\<rparr>)
          in bindO (markSlotFreeState toReturn False (s1\<lparr>freeCount := sub_size (freeCount s1) 1\<rparr>)) (\<lambda>s2. Inr (toReturn, s2)))"

definition as_contains :: "nat \<Rightarrow> AllocSlab \<Rightarrow> bool" where
  "as_contains ptr s \<longleftrightarrow> backingStorage s \<le> ptr \<and> ptr < backingStorage s + backingSize s"

definition containsWithAlignment :: "nat \<Rightarrow> AllocSlab \<Rightarrow> bool" where
  "containsWithAlignment ptr s \<longleftrightarrow> as_contains ptr s \<and> (ptr - backingStorage s) mod slotSize s = 0"

definition as_free :: "nat \<Rightarrow> AllocSlab \<Rightarrow> AllocSlab outcome" where
  "as_free ptr s =
     bindO (as_isSlotFree ptr s) (\<lambda>fr.
       if fr then Inl (Assertion ''Double-freeing pointer'')
       else bindO (markSlotFreeState ptr True s) (\<lambda>s1.
         Inr (s1\<lparr>slotLink := (slotLink s1)(ptr := nextFree s1), nextFree := Some ptr, freeCount := freeCount s1 + 1\<rparr>)))"

definition getOccupancyPercent :: "AllocSlab \<Rightarrow> nat" where
  "getOccupancyPercent s = sub_size 100 ((freeCount s * 100 + (numSlots s - 1)) div numSlots s)"

definition as_isFull :: "AllocSlab \<Rightarrow> bool" where
  "as_isFull s \<longleftrightarrow> freeCount s = 0"

definition as_isEmpty :: "AllocSlab \<Rightarrow> bool" where
  "as_isEmpty s \<longleftrightarrow> freeCount s = numSlots s"

section \<open>The free bitmap\<close>

definition freeBit :: "u8 list \<Rightarrow> nat \<Rightarrow> bool" where
  "freeBit fl i \<longleftrightarrow> bit (fl ! (i div 8)) (i mod 8)"

lemma byte_bit: "j < 8 \<Longrightarrow> bit (w AND NOT (push_bit k 1) OR (if fr then push_bit k 1 else 0)) j \<longleftrightarrow> (if j = k then fr else bit (w :: u8) j)"
  by (auto simp: bit_simps)

lemma freeBit_mark:
  assumes "i div 8 < length fl"
  shows "freeBit (fl[i div 8 := fl ! (i div 8) AND NOT (push_bit (i mod 8) 1) OR (if fr then push_bit (i mod 8) 1 else 0)]) j \<longleftrightarrow>
    (if j = i then fr else freeBit fl j)"
proof (cases "j div 8 = i div 8")
  case True
  have "j mod 8 = i mod 8 \<longleftrightarrow> j = i" using True by (metis div_mult_mod_eq)
  then show ?thesis unfolding freeBit_def True using assms byte_bit [of "j mod 8" "fl ! (i div 8)" "i mod 8" fr] by simp
next
  case False
  then show ?thesis by (auto simp: freeBit_def)
qed

lemma test_byte: "k < 8 \<Longrightarrow> (w :: u8) AND push_bit k 1 \<noteq> 0 \<longleftrightarrow> bit w k"
  by (simp add: and_exp_eq_0_iff_not_bit push_bit_eq_mult)

section \<open>The invariant\<close>

text \<open>The slots freed again are linked through their memory; the list ends at the horizon, or at null once every slot was used.\<close>

fun freeChain :: "(nat \<Rightarrow> nat option) \<Rightarrow> nat option \<Rightarrow> nat list \<Rightarrow> nat option \<Rightarrow> bool" where
  "freeChain l p [] q \<longleftrightarrow> p = q"
| "freeChain l p (x # xs) q \<longleftrightarrow> p = Some x \<and> freeChain l (l x) xs q"

lemma freeChain_upd: "x \<notin> set xs \<Longrightarrow> freeChain (l(x := v)) p xs q = freeChain l p xs q"
  by (induction xs arbitrary: p) auto

definition slotAddr :: "AllocSlab \<Rightarrow> nat \<Rightarrow> nat" where
  "slotAddr s i = backingStorage s + i * slotSize s"

text \<open>\<open>A\<close>: the slots in use, \<open>L\<close>: those freed again, \<open>h\<close>: how many were ever used.\<close>

definition slab_state :: "AllocSlab \<Rightarrow> nat set \<Rightarrow> nat list \<Rightarrow> nat \<Rightarrow> bool" where
  "slab_state s A L h \<longleftrightarrow>
     0 < slotSize s \<and> numSlots s = backingSize s div slotSize s \<and> numSlots s \<le> 8 * length (freeList s) \<and>
     h \<le> numSlots s \<and> initializedHorizon s = slotAddr s h \<and> distinct L \<and> set L \<subseteq> {..<h} \<and> A = {..<h} - set L \<and>
     freeChain (slotLink s) (nextFree s) (map (slotAddr s) L) (if h < numSlots s then Some (slotAddr s h) else None) \<and>
     freeCount s = numSlots s - card A \<and> (\<forall>i<numSlots s. freeBit (freeList s) i \<longleftrightarrow> i \<notin> A)"

definition slab_inv :: "AllocSlab \<Rightarrow> nat set \<Rightarrow> bool" where
  "slab_inv s A \<longleftrightarrow> (\<exists>L h. slab_state s A L h)"

lemma slotAddr_eq [simp]: "0 < slotSize s \<Longrightarrow> slotAddr s i = slotAddr s j \<longleftrightarrow> i = j"
  by (auto simp: slotAddr_def)

lemma slotIndex_addr: "0 < slotSize s \<Longrightarrow> slotIndex (slotAddr s i) s = i"
  by (simp add: slotIndex_def slotAddr_def)

lemma slotAddr_cong: "\<lbrakk>backingStorage s' = backingStorage s; slotSize s' = slotSize s\<rbrakk> \<Longrightarrow> slotAddr s' = slotAddr s"
  by (auto simp: slotAddr_def)

lemma slab_inv_facts:
  assumes "slab_inv s A"
  shows "A \<subseteq> {..<numSlots s}" "finite A" "card A \<le> numSlots s" "freeCount s = numSlots s - card A" "0 < slotSize s"
proof -
  obtain L h where st: "slab_state s A L h" using assms by (auto simp: slab_inv_def)
  then show A: "A \<subseteq> {..<numSlots s}" by (auto simp: slab_state_def)
  show "finite A" using A by (rule finite_subset) simp
  show "card A \<le> numSlots s" using card_mono [OF _ A] by simp
  show "freeCount s = numSlots s - card A" "0 < slotSize s" using st by (simp_all add: slab_state_def)
qed


section \<open>Operations\<close>

lemma markSlotFreeState_ok:
  assumes "0 < slotSize s" "i < 8 * length (freeList s)"
  obtains fl where "markSlotFreeState (slotAddr s i) fr s = Inr (s\<lparr>freeList := fl\<rparr>)" "length fl = length (freeList s)"
    "\<And>j. freeBit fl j \<longleftrightarrow> (if j = i then fr else freeBit (freeList s) j)"
proof -
  have d: "i div 8 < length (freeList s)" using assms(2) by (simp add: div_less_iff_less_mult mult.commute)
  let ?fl = "(freeList s)[i div 8 := freeList s ! (i div 8) AND NOT (push_bit (i mod 8) 1) OR (if fr then push_bit (i mod 8) 1 else 0)]"
  have "markSlotFreeState (slotAddr s i) fr s = Inr (s\<lparr>freeList := ?fl\<rparr>)"
    using d by (simp only: markSlotFreeState_def slotIndex_addr [OF assms(1)] Let_def not_le [symmetric] if_False)
  then show ?thesis using that [of ?fl] freeBit_mark [OF d, of fr] by simp
qed

lemma as_isSlotFree_ok:
  assumes "0 < slotSize s" "i < 8 * length (freeList s)"
  shows "as_isSlotFree (slotAddr s i) s = Inr (freeBit (freeList s) i)"
proof -
  have "i div 8 < length (freeList s)" using assms(2) by (simp add: div_less_iff_less_mult mult.commute)
  then show ?thesis using test_byte [of "i mod 8" "freeList s ! (i div 8)"]
    by (simp add: as_isSlotFree_def slotIndex_addr [OF assms(1)] Let_def freeBit_def)
qed

text \<open>The next slot is the one freed last, then the horizon.\<close>

definition nextSlot :: "nat list \<Rightarrow> nat \<Rightarrow> nat" where
  "nextSlot L h = (case L of [] \<Rightarrow> h | i # _ \<Rightarrow> i)"

lemma as_alloc_state:
  assumes "slab_state s A L h" "card A < numSlots s"
  obtains s' where "as_alloc s = Inr (slotAddr s (nextSlot L h), s')" "slab_state s' (insert (nextSlot L h) A) (tl L) (if L = [] then h + 1 else h)"
    "nextSlot L h \<notin> A" "nextSlot L h < numSlots s" "slotAddr s' = slotAddr s" "numSlots s' = numSlots s"
proof -
  let ?S = "slotSize s" and ?N = "numSlots s" and ?i = "nextSlot L h"
  have st: "0 < ?S" "?N = backingSize s div ?S" "?N \<le> 8 * length (freeList s)" "h \<le> ?N" "initializedHorizon s = slotAddr s h" "distinct L"
    "set L \<subseteq> {..<h}" "A = {..<h} - set L" "freeCount s = ?N - card A" "\<forall>i<?N. freeBit (freeList s) i \<longleftrightarrow> i \<notin> A"
    "freeChain (slotLink s) (nextFree s) (map (slotAddr s) L) (if h < ?N then Some (slotAddr s h) else None)"
    using assms(1) unfolding slab_state_def by blast+
  have hN: "L = [] \<Longrightarrow> h < ?N" using st(4,8) assms(2) by (cases "h = ?N") auto
  have i: "?i < ?N" "?i \<notin> A" using hN st(4,7,8) by (cases L; auto simp: nextSlot_def)+
  have nf: "nextFree s = Some (slotAddr s ?i)" using st(11) hN by (cases L) (auto simp: nextSlot_def)
  define s1 where "s1 = (if L = [] then s\<lparr>initializedHorizon := slotAddr s (h + 1), nextFree := (if h + 1 < ?N then Some (slotAddr s (h + 1)) else None)\<rparr>
     else s\<lparr>nextFree := slotLink s (slotAddr s ?i), slotLink := (slotLink s)(slotAddr s ?i := None)\<rparr>)"
  define s2 where "s2 = s1\<lparr>freeCount := sub_size (freeCount s1) 1\<rparr>"
  have f: "slotSize s2 = ?S" "slotAddr s2 = slotAddr s" "freeList s2 = freeList s" "numSlots s2 = ?N" "freeCount s2 = ?N - card A - 1" "backingSize s2 = backingSize s"
    using st(9) assms(2) by (auto simp: s2_def s1_def slotAddr_def fun_eq_iff)
  have last: "backingStorage s + backingSize s < slotAddr s (h + 1) + ?S \<longleftrightarrow> \<not> h + 1 < ?N"
  proof -
    have "backingStorage s + backingSize s < slotAddr s (h + 1) + ?S \<longleftrightarrow> backingSize s < (h + 2) * ?S" by (simp add: slotAddr_def algebra_simps)
    also have "\<dots> \<longleftrightarrow> ?N < h + 2" using st(1,2) by (simp add: div_less_iff_less_mult)
    finally show ?thesis by auto
  qed
  have hor: "slotAddr s ?i = initializedHorizon s \<longleftrightarrow> L = []" using st(1,5,7) by (cases L) (auto simp: nextSlot_def)
  have "slotAddr s h + ?S = slotAddr s (h + 1)" by (simp add: slotAddr_def)
  then have a1: "as_alloc s = bindO (markSlotFreeState (slotAddr s ?i) False s2) (\<lambda>s2. Inr (slotAddr s ?i, s2))"
    using hor nf st(5) last unfolding as_alloc_def s2_def s1_def by (cases "L = []") (simp_all add: Let_def)
  obtain fl where m: "markSlotFreeState (slotAddr s2 ?i) False s2 = Inr (s2\<lparr>freeList := fl\<rparr>)" "length fl = length (freeList s2)"
    "\<And>j. freeBit fl j \<longleftrightarrow> (if j = ?i then False else freeBit (freeList s2) j)"
    using markSlotFreeState_ok [of s2 ?i False] st(1,3) i(1) f by auto
  let ?s = "s2\<lparr>freeList := fl\<rparr>"
  let ?h = "if L = [] then h + 1 else h"
  have addr: "slotAddr ?s = slotAddr s" using f(2) by (auto simp: slotAddr_def fun_eq_iff)
  have fin: "finite A" using st(8) by simp
  have A': "insert ?i A = {..<?h} - set (tl L)" using st(6-8) by (cases L) (auto simp: nextSlot_def)
  have "slab_state ?s (insert ?i A) (tl L) ?h"
    unfolding slab_state_def
  proof (intro conjI)
    show "freeChain (slotLink ?s) (nextFree ?s) (map (slotAddr ?s) (tl L)) (if ?h < numSlots ?s then Some (slotAddr ?s ?h) else None)"
    proof (cases L)
      case Nil
      then show ?thesis using f(4) by (simp add: addr) (simp add: s2_def s1_def)
    next
      case (Cons j L')
      have "slotAddr s j \<notin> set (map (slotAddr s) L')" using st(1,6) Cons by auto
      then show ?thesis using st(11) Cons f(4) addr by (simp add: s2_def s1_def nextSlot_def freeChain_upd split: if_splits)
    qed
    show "freeCount ?s = numSlots ?s - card (insert ?i A)" using f(4,5) fin i(2) by simp
    show "\<forall>j<numSlots ?s. freeBit (freeList ?s) j \<longleftrightarrow> j \<notin> insert ?i A" using st(10) m(3) f(3,4) by auto
    show "initializedHorizon ?s = slotAddr ?s ?h" using addr st(5) by (simp add: s2_def s1_def)
    show "set (tl L) \<subseteq> {..<?h}" using st(7) by (cases L) auto
    show "?h \<le> numSlots ?s" using st(4) hN f(4) by auto
    show "distinct (tl L)" using st(6) by (cases L) auto
  qed (use st f m A' in simp_all)
  then show ?thesis using that [of ?s] a1 m(1) f(2,4) i addr by simp
qed

lemma as_free_state:
  assumes "slab_state s A L h" "i \<in> A"
  obtains s' where "as_free (slotAddr s i) s = Inr s'" "slab_state s' (A - {i}) (i # L) h" "slotAddr s' = slotAddr s" "numSlots s' = numSlots s"
proof -
  let ?N = "numSlots s"
  have st: "0 < slotSize s" "?N = backingSize s div slotSize s" "?N \<le> 8 * length (freeList s)" "h \<le> ?N" "initializedHorizon s = slotAddr s h" "distinct L"
    "set L \<subseteq> {..<h}" "A = {..<h} - set L" "freeCount s = ?N - card A" "\<forall>i<?N. freeBit (freeList s) i \<longleftrightarrow> i \<notin> A"
    "freeChain (slotLink s) (nextFree s) (map (slotAddr s) L) (if h < ?N then Some (slotAddr s h) else None)"
    using assms(1) unfolding slab_state_def by blast+
  have i: "i < ?N" "i < h" "i \<notin> set L" using assms(2) st(4,8) by auto
  have i8: "i < 8 * length (freeList s)" using i(1) st(3) by linarith
  have t: "as_isSlotFree (slotAddr s i) s = Inr False" using as_isSlotFree_ok [OF st(1) i8] st(10) i(1) assms(2) by simp
  obtain fl where m: "markSlotFreeState (slotAddr s i) True s = Inr (s\<lparr>freeList := fl\<rparr>)" "length fl = length (freeList s)"
    "\<And>j. freeBit fl j \<longleftrightarrow> (if j = i then True else freeBit (freeList s) j)" using markSlotFreeState_ok [OF st(1) i8, of True] by metis
  let ?s = "s\<lparr>freeList := fl, slotLink := (slotLink s)(slotAddr s i := nextFree s), nextFree := Some (slotAddr s i), freeCount := freeCount s + 1\<rparr>"
  have e: "as_free (slotAddr s i) s = Inr ?s" using t m(1) by (simp add: as_free_def)
  have addr: "slotAddr ?s = slotAddr s" by (auto simp: slotAddr_def fun_eq_iff)
  have fin: "finite A" using st(8) by simp
  have "A \<subseteq> {..<?N}" using st(4,8) by auto
  then have "card A \<le> ?N" using card_mono [of "{..<?N}" A] by simp
  moreover have "0 < card A" using fin assms(2) by (auto simp: card_gt_0_iff)
  ultimately have c: "?N - card A + 1 = ?N - (card A - 1)" by simp
  have "slotAddr s i \<notin> set (map (slotAddr s) L)" using st(1) i(3) by auto
  then have "freeChain (slotLink ?s) (nextFree ?s) (map (slotAddr ?s) (i # L)) (if h < numSlots ?s then Some (slotAddr ?s h) else None)"
    using st(11) addr by (simp add: freeChain_upd split: if_splits)
  moreover have "freeCount ?s = numSlots ?s - card (A - {i})" using st(9) c fin assms(2) by simp
  moreover have "\<forall>j<numSlots ?s. freeBit (freeList ?s) j \<longleftrightarrow> j \<notin> A - {i}" using st(10) m(3) by auto
  ultimately have "slab_state ?s (A - {i}) (i # L) h"
    unfolding slab_state_def using st(1-8) i m(2) addr by auto
  then show ?thesis using that e addr by simp
qed

text \<open>A slot that is free already is caught.\<close>

lemma as_free_twice:
  assumes "slab_inv s A" "i < numSlots s" "i \<notin> A"
  shows "as_free (slotAddr s i) s = Inl (Assertion ''Double-freeing pointer'')"
proof -
  have st: "0 < slotSize s" "numSlots s \<le> 8 * length (freeList s)" "\<forall>i<numSlots s. freeBit (freeList s) i \<longleftrightarrow> i \<notin> A"
    using assms(1) by (auto simp: slab_inv_def slab_state_def)
  then have "as_isSlotFree (slotAddr s i) s = Inr True" using as_isSlotFree_ok [of s i] assms(2,3) by simp
  then show ?thesis by (simp add: as_free_def)
qed

section \<open>A new slab\<close>

lemma largestPowerOf2Dividing_loop_power:
  assumes "v \<noteq> 0" "unat v * 2 ^ j < 2 ^ 64"
  shows "\<exists>k<64. largestPowerOf2Dividing_loop v (2 ^ j) = 2 ^ k \<and> 2 ^ k \<le> unat v * 2 ^ j"
  using assms
proof (induction "unat v" arbitrary: v j rule: less_induct)
  case less
  have v: "0 < unat v" using less(2) by (simp add: unat_gt_0)
  have j: "2 ^ j \<le> unat v * 2 ^ j" using v by simp
  have "v AND 1 = 0 \<longleftrightarrow> \<not> bit v 0" by (simp add: and_one_eq mod2_eq_if bit_0)
  also have "\<dots> \<longleftrightarrow> even (unat v)" using bit_unat_u64 [of v 0] by (simp add: bit_0)
  finally have ev: "v AND 1 = 0 \<longleftrightarrow> even (unat v)" .
  show ?case
  proof (cases "v AND 1 = 0")
    case True
    then have two: "unat v = 2 * unat (drop_bit 1 v)" using ev unat_drop_bit_1 [of v] by simp
    have p: "push_bit 1 (2 ^ j) = (2 ^ (j + 1) :: u64)" by (simp add: push_bit_eq_mult mult.commute)
    have "drop_bit 1 v \<noteq> 0" using two v by auto
    moreover have "unat (drop_bit 1 v) < unat v" "unat (drop_bit 1 v) * 2 ^ (j + 1) = unat v * 2 ^ j" using two v by auto
    ultimately have "\<exists>k<64. largestPowerOf2Dividing_loop (drop_bit 1 v) (2 ^ (j + 1)) = 2 ^ k \<and> 2 ^ k \<le> unat v * 2 ^ j"
      using less(1) [of "drop_bit 1 v" "j + 1"] less(3) by metis
    then show ?thesis using True less(2) by (subst largestPowerOf2Dividing_loop.simps) (simp only: p simp_thms if_True)
  next
    case False
    have "j < 64" using j less(3) by (meson le_less_trans one_less_numeral_iff power_less_imp_less_exp semiring_norm(76))
    then show ?thesis using False j by (subst largestPowerOf2Dividing_loop.simps) auto
  qed
qed

text \<open>Slots are aligned to at least a cache line, and to every power of two that divides their size.\<close>

lemma getAlignValForSlotSize_power:
  assumes "0 < z" "z < 2 ^ 64"
  obtains k where "getAlignValForSlotSize z = 2 ^ k" "k < 64" "2 ^ k \<le> max z 64"
proof -
  have u: "unat (of_nat z :: u64) = z" using assms(2) by (simp add: unat_of_nat take_bit_nat_eq_self)
  then have nz: "(of_nat z :: u64) \<noteq> 0" using assms(1) by auto
  obtain k where k: "k < 64" "largestPowerOf2Dividing (of_nat z) = 2 ^ k" "2 ^ k \<le> z"
    using largestPowerOf2Dividing_loop_power [of "of_nat z" 0] nz u assms(2) by (auto simp: largestPowerOf2Dividing_def)
  have "(64 :: u64) = 2 ^ 6" by simp
  then show ?thesis using that [of k] that [of 6] k by (cases "2 ^ k \<le> (64 :: u64)") (auto simp: getAlignValForSlotSize_def max_def)
qed

lemma unat_slabAlign:
  assumes "k < 64" "a + 2 ^ k \<le> 2 ^ 64"
  shows "unat (alignUp True (of_nat a) (2 ^ k)) = (a + 2 ^ k - 1) div 2 ^ k * 2 ^ k"
proof -
  have "unat (x AND NOT (mask k)) = push_bit k (drop_bit k (unat x))" for x :: u64
    by (rule bit_eqI) (auto simp: bit_simps bit_unat_u64 dest: bit_imp_le_length)
  moreover have "of_nat a + 2 ^ k - 1 = (of_nat (a + 2 ^ k - 1) :: u64)" by (subst of_nat_diff) (simp_all add: Suc_le_eq)
  moreover have "unat (of_nat (a + 2 ^ k - 1) :: u64) = a + 2 ^ k - 1"
    using assms(2) by (subst unat_of_nat) (simp add: take_bit_nat_eq_self_iff)
  ultimately show ?thesis by (simp only: alignUp_def alignDown_def if_True mask_eq_exp_minus_1 [symmetric]) (simp add: push_bit_eq_mult drop_bit_eq_div)
qed

lemma byte_full: "k < 8 \<Longrightarrow> bit (0xff :: u8) k"
proof -
  have "(0xff :: u8) = - 1" by simp
  then show "k < 8 \<Longrightarrow> bit (0xff :: u8) k" by (simp only: bit_minus_1_iff) simp
qed

lemma align_le: "0 < m \<Longrightarrow> a \<le> (a + m - 1) div m * m" for a :: nat
  using div_mult_mod_eq [of "a + m - 1" m] mod_less_divisor [of m "a + m - 1"] by linarith

definition bitmapBytes :: "nat \<Rightarrow> nat \<Rightarrow> nat" where
  "bitmapBytes z n = ((8 * n) div (8 * z + 1) + 7) div 8"

lemma bitmapBytes_le: "8 \<le> z \<Longrightarrow> 0 < n \<Longrightarrow> bitmapBytes z n \<le> n"
proof -
  assume "8 \<le> z" "0 < n"
  moreover have "8 * n div (8 * z + 1) \<le> 8 * n div 8" by (rule div_le_mono2) (use \<open>8 \<le> z\<close> in auto)
  ultimately show ?thesis unfolding bitmapBytes_def by simp
qed

text \<open>The slots lie in the buffer behind the bitmap; the bitmap has a bit for each of them, except for one size of the buffer.\<close>

lemma newSlab_layout:
  assumes "newSlab z b n = Inr s" "b + bitmapBytes z n + max z 64 \<le> 2 ^ 64" "backingStorage s \<le> b + n" "z < 2 ^ 64"
  shows "b + bitmapBytes z n \<le> backingStorage s" "backingStorage s + numSlots s * z \<le> b + n" "1 < numSlots s"
    "slotSize s = z" "8 \<le> z" "length (freeList s) = bitmapBytes z n"
    "n \<noteq> bitmapBytes z n * (8 * z + 1) + z \<Longrightarrow> slab_inv s {}"
proof -
  show z: "slotSize s = z" "8 \<le> z" "length (freeList s) = bitmapBytes z n"
    using assms(1) by (auto simp: newSlab_def Let_def bitmapBytes_def split: if_splits)
  let ?f = "bitmapBytes z n"
  have e: "backingStorage s = unat (alignUp True (of_nat (b + ?f)) (getAlignValForSlotSize z))" "backingSize s = sub_size (b + n) (backingStorage s)"
    "numSlots s = backingSize s div z" "1 < numSlots s"
    using assms(1) by (auto simp: newSlab_def Let_def bitmapBytes_def split: if_splits)
  have ini: "initializedHorizon s = backingStorage s" "nextFree s = Some (backingStorage s)" "freeCount s = numSlots s" "freeList s = replicate ?f 0xff"
    using assms(1) by (auto simp: newSlab_def Let_def bitmapBytes_def split: if_splits)
  show "1 < numSlots s" by (rule e(4))
  have size: "backingStorage s + backingSize s = b + n" using e(2) assms(3) by simp
  obtain k where k: "getAlignValForSlotSize z = 2 ^ k" "k < 64" "2 ^ k \<le> max z 64" using getAlignValForSlotSize_power [of z] z(2) assms(4) by auto
  have "backingStorage s = (b + ?f + 2 ^ k - 1) div 2 ^ k * 2 ^ k" unfolding e(1) k(1) by (rule unat_slabAlign) (use k assms(2) in auto)
  then show lo: "b + ?f \<le> backingStorage s" using align_le [of "2 ^ k" "b + ?f"] by simp
  have "numSlots s * z \<le> backingSize s" using e(3) by simp
  then show "backingStorage s + numSlots s * z \<le> b + n" using size by simp
  assume ne: "n \<noteq> ?f * (8 * z + 1) + z"
  have "numSlots s \<le> 8 * ?f"
  proof (rule ccontr)
    assume "\<not> ?thesis"
    then have "(8 * ?f + 1) * z \<le> numSlots s * z" by (intro mult_le_mono1) simp
    then have 1: "8 * ?f * z + z + ?f \<le> n" using \<open>numSlots s * z \<le> backingSize s\<close> size lo by (simp add: algebra_simps)
    have "(8 * n) div (8 * z + 1) < 8 * ?f + 1" unfolding bitmapBytes_def by simp
    then have "8 * n < (8 * ?f + 1) * (8 * z + 1)" by (subst (asm) div_less_iff_less_mult) auto
    then have "n \<le> ?f * (8 * z + 1) + z" by (simp add: algebra_simps)
    then show False using 1 ne by (simp add: algebra_simps)
  qed
  then have bits: "numSlots s \<le> 8 * length (freeList s)" "\<forall>i<numSlots s. freeBit (freeList s) i"
    using z(3) ini(4) byte_full by (auto simp only: freeBit_def nth_replicate length_replicate div_less_iff_less_mult mult.commute
        mod_less_divisor zero_less_numeral)
  have "slab_state s {} [] 0"
    unfolding slab_state_def using z bits e(3,4) ini by (simp add: slotAddr_def)
  then show "slab_inv s {}" unfolding slab_inv_def by blast
qed

text \<open>A buffer with room for the bitmap, the alignment and two slots holds a slab.\<close>

lemma newSlab_ok:
  assumes "8 \<le> z" "b + n \<le> 2 ^ 64" "bitmapBytes z n + max z 64 + 2 * z \<le> n" "n \<noteq> bitmapBytes z n * (8 * z + 1) + z"
  obtains s where "newSlab z b n = Inr s" "slab_inv s {}" "1 < numSlots s" "b + bitmapBytes z n \<le> backingStorage s" "backingStorage s + numSlots s * z \<le> b + n" "slotSize s = z"
proof -
  let ?f = "bitmapBytes z n"
  have z64: "z < 2 ^ 64" using assms(1-3) by simp
  obtain k where k: "getAlignValForSlotSize z = 2 ^ k" "k < 64" "2 ^ k \<le> max z 64" using getAlignValForSlotSize_power [of z] assms(1) z64 by auto
  let ?start = "unat (alignUp True (of_nat (b + ?f)) (getAlignValForSlotSize z))"
  have top: "b + ?f + max z 64 \<le> 2 ^ 64" using assms(2,3) by simp
  have "?start = (b + ?f + 2 ^ k - 1) div 2 ^ k * 2 ^ k" unfolding k(1) by (rule unat_slabAlign) (use k top in auto)
  moreover have "(b + ?f + 2 ^ k - 1) div 2 ^ k * 2 ^ k \<le> b + ?f + 2 ^ k - 1" by (rule div_times_less_eq_dividend)
  moreover have "0 < (2 :: nat) ^ k" by simp
  ultimately have st: "?start < b + ?f + max z 64" using k(3) by linarith
  then have rest: "sub_size (b + n) ?start = b + n - ?start" "2 * z \<le> b + n - ?start" using assms(3) by simp_all
  have "2 * z div z \<le> (b + n - ?start) div z" by (rule div_le_mono [OF rest(2)])
  then have two: "1 < (b + n - ?start) div z" using assms(1) by simp
  have "\<exists>s. newSlab z b n = Inr s \<and> backingStorage s = ?start"
    using assms(1) two unfolding newSlab_def Let_def bitmapBytes_def [symmetric] rest(1) by simp
  then obtain s where s: "newSlab z b n = Inr s" "backingStorage s = ?start" by blast
  have "backingStorage s \<le> b + n" using s(2) st assms(3) by simp
  note L = newSlab_layout [OF s(1) top this z64]
  show thesis by (rule that [OF s(1) L(7) [OF assms(4)] L(3,1,2,4)])
qed

section \<open>Contract\<close>

lemma slotAddr_inside:
  assumes "0 < slotSize s" "numSlots s = backingSize s div slotSize s" "i < numSlots s"
  shows "containsWithAlignment (slotAddr s i) s"
proof -
  have "(i + 1) * slotSize s \<le> numSlots s * slotSize s" using assms(3) by (intro mult_le_mono1) simp
  also have "\<dots> \<le> backingSize s" using assms(2) by simp
  finally show ?thesis using assms(1) by (simp add: containsWithAlignment_def as_contains_def slotAddr_def)
qed

lemma as_alloc_inv:
  assumes "slab_inv s A" "card A < numSlots s"
  obtains i s' where "as_alloc s = Inr (slotAddr s i, s')" "i < numSlots s" "i \<notin> A" "slab_inv s' (insert i A)"
    "slotAddr s' = slotAddr s" "numSlots s' = numSlots s" "containsWithAlignment (slotAddr s i) s"
proof -
  obtain L h where st: "slab_state s A L h" using assms(1) by (auto simp: slab_inv_def)
  then have "0 < slotSize s" "numSlots s = backingSize s div slotSize s" unfolding slab_state_def by blast+
  then show ?thesis using as_alloc_state [OF st assms(2)] that slotAddr_inside unfolding slab_inv_def by metis
qed

lemma as_alloc_full:
  assumes "slab_inv s A" "card A = numSlots s"
  shows "as_alloc s = Inl (Assertion ''Caller did not confirm slab allocator has free space'')"
proof -
  obtain L h where st: "h \<le> numSlots s" "set L \<subseteq> {..<h}" "A = {..<h} - set L" "distinct L"
    "freeChain (slotLink s) (nextFree s) (map (slotAddr s) L) (if h < numSlots s then Some (slotAddr s h) else None)"
    using assms(1) unfolding slab_inv_def slab_state_def by blast
  have "card A = h - length L" using st(2-4) by (simp add: card_Diff_subset distinct_card)
  then have "L = []" "h = numSlots s" using assms(2) st(1,2,4) by (cases L; auto)+
  then show ?thesis using st(5) by (simp add: as_alloc_def)
qed

lemma as_free_realloc:
  assumes "slab_inv s A" "i \<in> A"
  obtains s' s'' where "as_free (slotAddr s i) s = Inr s'" "slab_inv s' (A - {i})" "slotAddr s' = slotAddr s" "numSlots s' = numSlots s"
    "as_alloc s' = Inr (slotAddr s i, s'')" "slab_inv s'' A"
proof -
  obtain L h where st: "slab_state s A L h" using assms(1) by (auto simp: slab_inv_def)
  obtain s' where f: "as_free (slotAddr s i) s = Inr s'" "slab_state s' (A - {i}) (i # L) h" "slotAddr s' = slotAddr s" "numSlots s' = numSlots s"
    using as_free_state [OF st assms(2)] by blast
  have "card (A - {i}) < card A" using slab_inv_facts(2) [OF assms(1)] assms(2) by (rule card_Diff1_less)
  then have "card (A - {i}) < numSlots s'" using slab_inv_facts(3) [OF assms(1)] f(4) by simp
  from as_alloc_state [OF f(2) this] obtain s'' where "as_alloc s' = Inr (slotAddr s' i, s'')" "slab_state s'' (insert i (A - {i})) L h"
    by (auto simp: nextSlot_def)
  then show ?thesis using that [OF f(1)] f insert_absorb [OF assms(2)] unfolding slab_inv_def by auto
qed

lemma slab_ops_exact:
  assumes inv: "slab_inv s A"
  shows "(if card A < numSlots s
       then \<exists>i s'. as_alloc s = Inr (slotAddr s i, s') \<and> i < numSlots s \<and> i \<notin> A \<and> containsWithAlignment (slotAddr s i) s \<and> slab_inv s' (insert i A)
       else as_alloc s = Inl (Assertion ''Caller did not confirm slab allocator has free space'')) \<and>
      (\<forall>i\<in>A. \<exists>s' s''. as_free (slotAddr s i) s = Inr s' \<and> slab_inv s' (A - {i}) \<and> as_alloc s' = Inr (slotAddr s i, s'') \<and> slab_inv s'' A) \<and>
      (\<forall>i<numSlots s. i \<notin> A \<longrightarrow> as_free (slotAddr s i) s = Inl (Assertion ''Double-freeing pointer'')) \<and>
      (as_isFull s \<longleftrightarrow> card A = numSlots s) \<and> (1 < numSlots s \<longrightarrow> (as_isEmpty s \<longleftrightarrow> A = {}))"
proof -
  note F = slab_inv_facts [OF inv]
  have "0 < card A \<longleftrightarrow> A \<noteq> {}" using F(2) by (auto simp: card_gt_0_iff)
  then have "1 < numSlots s \<longrightarrow> (as_isEmpty s \<longleftrightarrow> A = {})" using F(3,4) by (auto simp: as_isEmpty_def)
  moreover have "as_isFull s \<longleftrightarrow> card A = numSlots s" using F(3,4) by (auto simp: as_isFull_def)
  moreover have "if card A < numSlots s
       then \<exists>i s'. as_alloc s = Inr (slotAddr s i, s') \<and> i < numSlots s \<and> i \<notin> A \<and> containsWithAlignment (slotAddr s i) s \<and> slab_inv s' (insert i A)
       else as_alloc s = Inl (Assertion ''Caller did not confirm slab allocator has free space'')"
    using as_alloc_inv [OF inv] as_alloc_full [OF inv] F(3) by (metis le_neq_implies_less)
  moreover have "\<forall>i\<in>A. \<exists>s' s''. as_free (slotAddr s i) s = Inr s' \<and> slab_inv s' (A - {i}) \<and> as_alloc s' = Inr (slotAddr s i, s'') \<and> slab_inv s'' A"
    using as_free_realloc [OF inv] by metis
  ultimately show ?thesis using as_free_twice [OF inv] by blast
qed

text \<open>
  C20: A slab built over a buffer that holds its bitmap keeps its slots behind the bitmap and inside the buffer, and starts with
  all of them free, except when the buffer has exactly the size for which the bitmap is one bit short. From then on, \<open>alloc\<close>
  returns an aligned slot that is not in use as long as there is one and asserts otherwise; freeing a slot in use makes it
  free and the next to be allocated, and freeing a free slot is caught; \<open>isFull\<close> and \<open>isEmpty\<close> are exact.
\<close>

theorem slab_slots_exact:
  assumes "newSlab z b n = Inr s0" "b + n + max z 64 \<le> 2 ^ 64" "backingStorage s0 \<le> b + n" "0 < n"
  shows "b + length (freeList s0) \<le> backingStorage s0 \<and> slotAddr s0 (numSlots s0) \<le> b + n \<and>
      (n \<noteq> length (freeList s0) * (8 * z + 1) + z \<longrightarrow> slab_inv s0 {}) \<and>
      (slab_inv s A \<longrightarrow> (if card A < numSlots s
       then \<exists>i s'. as_alloc s = Inr (slotAddr s i, s') \<and> i < numSlots s \<and> i \<notin> A \<and> containsWithAlignment (slotAddr s i) s \<and> slab_inv s' (insert i A)
       else as_alloc s = Inl (Assertion ''Caller did not confirm slab allocator has free space'')) \<and>
      (\<forall>i\<in>A. \<exists>s' s''. as_free (slotAddr s i) s = Inr s' \<and> slab_inv s' (A - {i}) \<and> as_alloc s' = Inr (slotAddr s i, s'') \<and> slab_inv s'' A) \<and>
      (\<forall>i<numSlots s. i \<notin> A \<longrightarrow> as_free (slotAddr s i) s = Inl (Assertion ''Double-freeing pointer'')) \<and>
      (as_isFull s \<longleftrightarrow> card A = numSlots s) \<and> (1 < numSlots s \<longrightarrow> (as_isEmpty s \<longleftrightarrow> A = {})))"
proof (intro conjI)
  have "8 \<le> z" using assms(1) by (auto simp: newSlab_def Let_def split: if_splits)
  then have "b + bitmapBytes z n + max z 64 \<le> 2 ^ 64" "z < 2 ^ 64" using bitmapBytes_le [of z n] assms(2,4) by simp_all
  then show "b + length (freeList s0) \<le> backingStorage s0" "slotAddr s0 (numSlots s0) \<le> b + n"
    "n \<noteq> length (freeList s0) * (8 * z + 1) + z \<longrightarrow> slab_inv s0 {}"
    using newSlab_layout [OF assms(1) _ assms(3)] by (simp_all add: slotAddr_def)
qed (rule impI, erule slab_ops_exact)

definition exampleSlab :: AllocSlab where
  "exampleSlab = \<lparr>slotSize = 64, backingStorage = 4160, initializedHorizon = 4160, backingSize = 960, freeCount = 15, numSlots = 15,
     nextFree = Some 4160, freeList = [0xff, 0xff], slotLink = (\<lambda>_. None)\<rparr>"

theorem slab_slots_exact_witness:
  "newSlab 64 4096 1024 = Inr exampleSlab \<and> slab_inv exampleSlab {} \<and>
   (\<exists>i s'. as_alloc exampleSlab = Inr (slotAddr exampleSlab i, s') \<and> i < 15 \<and> slab_inv s' {i})"
proof -
  have a: "alignUp True 4098 (getAlignValForSlotSize 64) = 4160" by code_simp
  have r: "replicate 2 (255 :: u8) = [255, 255]" by (simp add: numeral_2_eq_2)
  have n: "newSlab 64 4096 1024 = Inr exampleSlab"
    unfolding newSlab_def exampleSlab_def Let_def by (simp add: a r)
  have e: "numSlots exampleSlab = 15" "backingStorage exampleSlab = 4160" "length (freeList exampleSlab) = 2" by (simp_all add: exampleSlab_def)
  show ?thesis using slab_slots_exact [OF n, of exampleSlab "{}"] n by (simp add: e) blast
qed

end
