(* ===== verification/Heap_Span.thy ===== *)
theory Heap_Span
  imports Tree_Query Alloc_Slab
begin

text \<open>
  The memory spans of the internal heap, \<open>MemorySpanHeader\<close> of \<open>LibAlloc/InternalAllocator.cpp\<close>: a buffer cut into allocated and
  unallocated blocks, each with its header at its start. The two trees of unallocated blocks, by size and by address, and
  the tree of allocated blocks are the lists of their nodes in address order, with the queries that \<open>Tree_Query\<close> proves of the trees; which
  of several blocks of the same size a search by size returns depends on the shape of the tree and is an argument, \<open>pick\<close>.
  Addresses and sizes are naturals below \<open>2 ^ 64\<close>; the sizes of the block headers are those of amd64.
\<close>

section \<open>Layout\<close>

text \<open>Sums of \<open>size_t\<close> wrap around; addresses are aligned by the masks of \<open>PointerArithmetic.h\<close>.\<close>

definition add_size :: "nat \<Rightarrow> nat \<Rightarrow> nat" where
  "add_size a b = (a + b) mod 2 ^ 64"

definition alignUpAddr :: "nat \<Rightarrow> nat \<Rightarrow> nat" where
  "alignUpAddr addr alignment = unat (alignUp True (of_nat addr) (of_nat alignment))"

definition alignDownAddr :: "nat \<Rightarrow> nat \<Rightarrow> nat" where
  "alignDownAddr addr alignment = unat (alignDown True (of_nat addr) (of_nat alignment))"

definition sizeofAllocated :: nat where "sizeofAllocated = 32"

definition sizeofAlignedAllocated :: nat where "sizeofAlignedAllocated = 48"

definition sizeofUnallocated :: nat where "sizeofUnallocated = 48"

definition alignofBlock :: nat where "alignofBlock = 16"

definition minimumBlockSize :: nat where
  "minimumBlockSize = 2 * max sizeofUnallocated (max sizeofAllocated sizeofAlignedAllocated)"

definition guaranteedAlignAfterBlock :: nat where
  "guaranteedAlignAfterBlock = min (unat (largestPowerOf2Dividing (of_nat sizeofAllocated))) alignofBlock"

text \<open>\<open>size()\<close> of a header: \<open>sizeAndColor & ~3u\<close>, where the mask has 32 bits.\<close>

definition headerSize :: "nat \<Rightarrow> nat" where
  "headerSize sizeAndColor = sizeAndColor mod 2 ^ 32 div 4 * 4"

definition computeWorstCaseAlignedSize :: "nat \<Rightarrow> nat \<Rightarrow> nat" where
  "computeWorstCaseAlignedSize req align =
     (if guaranteedAlignAfterBlock AND sub_size align 1 \<noteq> 0 then add_size (add_size req align) sizeofAlignedAllocated
      else add_size req sizeofAllocated)"

definition alignedHeaderMetadataSize :: nat where
  "alignedHeaderMetadataSize = sizeofAlignedAllocated - sizeofAllocated"

definition findFirstAlignedAddressAfterHeaderSpace :: "nat \<Rightarrow> nat \<Rightarrow> nat" where
  "findFirstAlignedAddressAfterHeaderSpace addr align =
     (let outAddr = add_size addr sizeofAllocated
      in if outAddr AND sub_size align 1 \<noteq> 0 then alignUpAddr (add_size outAddr alignedHeaderMetadataSize) align else outAddr)"

definition findFirstAlignedHeaderLocationBelowAddr :: "nat \<Rightarrow> nat" where
  "findFirstAlignedHeaderLocationBelowAddr addr = alignDownAddr (sub_size addr sizeofAllocated) alignofBlock"

section \<open>Spans\<close>

text \<open>
  An unallocated block is its address and its size; an allocated block has its size, the start of its data (\<open>dataBegin\<close>, if that is not
  right behind the header) and the size that was asked for. The size of \<open>MemorySpanHeader\<close> itself is an argument.
\<close>

type_synonym freeBlock = "nat \<times> nat"
type_synonym usedBlock = "nat \<times> nat \<times> nat option \<times> nat"

record memorySpan =
  spanBase :: nat
  spanSize :: nat
  releasable :: bool
  unallocatedBlocks :: "freeBlock list"
  allocatedBlocks :: "usedBlock list"
  freeSpace :: nat
  largestFreeBlockSize :: nat

record spanStats =
  totalBytesRequested :: nat
  totalBytesInAllocatedBlocks :: nat

definition insertBlock :: "nat \<times> 'a \<Rightarrow> (nat \<times> 'a) list \<Rightarrow> (nat \<times> 'a) list" where
  "insertBlock b bs = (if fst b \<in> fst ` set bs then bs else takeWhile (\<lambda>x. fst x < fst b) bs @ b # dropWhile (\<lambda>x. fst x < fst b) bs)"

definition removeBlock :: "nat \<Rightarrow> (nat \<times> 'a) list \<Rightarrow> (nat \<times> 'a) list" where
  "removeBlock a bs = filter (\<lambda>x. fst x \<noteq> a) bs"

definition maxSize :: "freeBlock list \<Rightarrow> nat" where
  "maxSize bs = foldr max (map snd bs) 0"

definition spanBuffer :: "nat \<Rightarrow> memorySpan \<Rightarrow> nat" where
  "spanBuffer sizeofSpan s = alignUpAddr (spanBase s + sizeofSpan) alignofBlock"

definition getBufferSize :: "nat \<Rightarrow> memorySpan \<Rightarrow> nat" where
  "getBufferSize sizeofSpan s = sub_size (spanBase s + spanSize s) (spanBuffer sizeofSpan s)"

definition insertFreeBlock :: "freeBlock \<Rightarrow> memorySpan \<Rightarrow> memorySpan" where
  "insertFreeBlock b s =
     (let s1 = s\<lparr>unallocatedBlocks := insertBlock b (unallocatedBlocks s)\<rparr>
      in if largestFreeBlockSize s1 < snd b then s1\<lparr>largestFreeBlockSize := snd b\<rparr> else s1)"

definition removeFreeBlock :: "freeBlock \<Rightarrow> memorySpan \<Rightarrow> memorySpan" where
  "removeFreeBlock b s =
     (let s1 = s\<lparr>unallocatedBlocks := removeBlock (fst b) (unallocatedBlocks s)\<rparr>
      in if largestFreeBlockSize s1 = snd b then s1\<lparr>largestFreeBlockSize := maxSize (unallocatedBlocks s1)\<rparr> else s1)"

definition newSpan :: "nat \<Rightarrow> nat \<Rightarrow> nat \<Rightarrow> memorySpan" where
  "newSpan sizeofSpan base bytes =
     (let s = \<lparr>spanBase = base, spanSize = bytes, releasable = True, unallocatedBlocks = [], allocatedBlocks = [], freeSpace = 0, largestFreeBlockSize = 0\<rparr>;
          fr = getBufferSize sizeofSpan s
      in insertFreeBlock (spanBuffer sizeofSpan s, headerSize fr) (s\<lparr>freeSpace := fr, largestFreeBlockSize := fr\<rparr>))"

definition markUnreleasable :: "memorySpan \<Rightarrow> memorySpan" where
  "markUnreleasable s = s\<lparr>releasable := False\<rparr>"

text \<open>The block of \<open>allocateBlock\<close> inside the free block: where its header goes and where the next one.\<close>

definition headerPlace :: "nat \<Rightarrow> nat \<Rightarrow> nat" where
  "headerPlace base ret =
     (let h = findFirstAlignedHeaderLocationBelowAddr ret in if sub_size h base < minimumBlockSize then base else h)"

definition nextPlace :: "nat \<Rightarrow> nat \<Rightarrow> nat \<Rightarrow> nat \<Rightarrow> nat" where
  "nextPlace h ret req blockEnd =
     (let n = alignUpAddr (max (add_size ret req) (add_size h minimumBlockSize)) alignofBlock in if sub_size blockEnd n < minimumBlockSize then blockEnd else n)"

definition allocateBlock :: "(nat \<Rightarrow> freeBlock list \<Rightarrow> freeBlock option) \<Rightarrow> nat \<Rightarrow> nat \<Rightarrow> memorySpan \<times> spanStats \<Rightarrow> (nat option \<times> memorySpan \<times> spanStats) outcome" where
  "allocateBlock pick req align st =
     (let paddedSize = computeWorstCaseAlignedSize req align; s = fst st
      in if largestFreeBlockSize s < paddedSize then Inr (None, st)
         else case pick paddedSize (unallocatedBlocks s) of
           None \<Rightarrow> Inl (Undefined ''null pointer'')
         | Some (base, freeSize) \<Rightarrow>
             let s1 = removeFreeBlock (base, freeSize) s;
                 blockEnd = add_size base freeSize;
                 ret = findFirstAlignedAddressAfterHeaderSpace base align;
                 h = headerPlace base ret;
                 n = nextPlace h ret req blockEnd;
                 used = headerSize (sub_size n h);
                 s2 = s1\<lparr>allocatedBlocks := insertBlock (h, used, if add_size h sizeofAllocated \<noteq> ret then Some ret else None, req) (allocatedBlocks s1)\<rparr>;
                 s3 = (if h \<noteq> base then insertFreeBlock (base, headerSize (sub_size h base)) s2 else s2);
                 s4 = (if n \<noteq> blockEnd then insertFreeBlock (n, headerSize (sub_size blockEnd n)) s3 else s3)
             in Inr (Some ret, s4\<lparr>freeSpace := sub_size (freeSpace s4) used\<rparr>,
                     \<lparr>totalBytesRequested = add_size (totalBytesRequested (snd st)) paddedSize,
                      totalBytesInAllocatedBlocks = add_size (totalBytesInAllocatedBlocks (snd st)) used\<rparr>))"

definition coalesceAdjacentFreeBlocks :: "freeBlock \<Rightarrow> memorySpan \<Rightarrow> memorySpan" where
  "coalesceAdjacentFreeBlocks b s =
     (let before = (case lastOpt (filter (\<lambda>x. fst x < fst b) (unallocatedBlocks s)) of
                      None \<Rightarrow> None | Some p \<Rightarrow> if fst p + snd p \<noteq> fst b then None else Some p);
          after = (case headOpt (filter (\<lambda>x. fst b < fst x) (unallocatedBlocks s)) of
                     None \<Rightarrow> None | Some q \<Rightarrow> if fst b + snd b \<noteq> fst q then None else Some q)
      in if before = None \<and> after = None then s
         else let s1 = removeFreeBlock b s;
                  s2 = (case before of None \<Rightarrow> s1 | Some p \<Rightarrow> removeFreeBlock p s1);
                  s3 = (case after of None \<Rightarrow> s2 | Some q \<Rightarrow> removeFreeBlock q s2);
                  b1 = (case before of None \<Rightarrow> b | Some p \<Rightarrow> (fst p, headerSize (snd p + snd b)));
                  b2 = (case after of None \<Rightarrow> b1 | Some q \<Rightarrow> (fst b1, headerSize (snd b1 + snd q)))
              in insertFreeBlock b2 s3)"

definition getValidatedHeaderForPtr :: "nat \<Rightarrow> memorySpan \<Rightarrow> usedBlock option" where
  "getValidatedHeaderForPtr ptr s =
     (case lastOpt (filter (\<lambda>x. fst x \<le> ptr) (allocatedBlocks s)) of
        None \<Rightarrow> None
      | Some (h, sz, dataBegin, req) \<Rightarrow>
          (case dataBegin of
             Some d \<Rightarrow> if d \<noteq> ptr then None else Some (h, sz, dataBegin, req)
           | None \<Rightarrow> if h + sizeofAllocated \<noteq> ptr then None else Some (h, sz, dataBegin, req)))"

definition freeSpanBlock :: "nat \<Rightarrow> memorySpan \<times> spanStats \<Rightarrow> bool \<times> memorySpan \<times> spanStats" where
  "freeSpanBlock ptr st =
     (case getValidatedHeaderForPtr ptr (fst st) of
        None \<Rightarrow> (False, st)
      | Some (h, sz, dataBegin, req) \<Rightarrow>
          let s1 = (fst st)\<lparr>allocatedBlocks := removeBlock h (allocatedBlocks (fst st))\<rparr>;
              s2 = coalesceAdjacentFreeBlocks (h, sz) (insertFreeBlock (h, sz) s1)
          in (True, s2\<lparr>freeSpace := add_size (freeSpace s2) sz\<rparr>,
              \<lparr>totalBytesRequested = sub_size (totalBytesRequested (snd st)) req,
               totalBytesInAllocatedBlocks = sub_size (totalBytesInAllocatedBlocks (snd st)) sz\<rparr>))"

definition isPointerAllocated :: "nat \<Rightarrow> memorySpan \<Rightarrow> bool" where
  "isPointerAllocated ptr s \<longleftrightarrow> getValidatedHeaderForPtr ptr s \<noteq> None"

section \<open>The search by size\<close>

text \<open>
  \<open>unallocatedBlockTree\<close> orders the free blocks by their size and then by their address; the data of a node is the pair of both.
  The interface is what \<open>allocateBlock\<close> relies on: \<open>mappedCeil\<close> finds a smallest block that is large enough.
\<close>

definition UnallocatedMemoryBlockComparator :: "nat \<times> nat \<Rightarrow> nat \<times> nat \<Rightarrow> bool" where
  "UnallocatedMemoryBlockComparator a b = (if fst a = fst b then snd a < snd b else fst a < fst b)"

locale block_index =
  fixes pick :: "nat \<Rightarrow> freeBlock list \<Rightarrow> freeBlock option"
  assumes pick_least: "distinct (map fst bs) \<Longrightarrow> \<exists>x\<in>set bs. n \<le> snd x \<Longrightarrow>
    \<exists>b\<in>set bs. pick n bs = Some b \<and> n \<le> snd b \<and> (\<forall>x\<in>set bs. n \<le> snd x \<longrightarrow> snd b \<le> snd x)"

fun insertBlocks :: "nat list \<Rightarrow> (nat \<times> nat) treeHeap \<Rightarrow> (nat \<times> nat) treeHeap option" where
  "insertBlocks [] s = Some s"
| "insertBlocks (a # as) s = Option.bind (insertImpl UnallocatedMemoryBlockComparator (Some a) s) (\<lambda>(inserted, s1). insertBlocks as s1)"

definition emptyBlockTree :: "freeBlock list \<Rightarrow> (nat \<times> nat) treeHeap" where
  "emptyBlockTree bs = \<lparr>treeRoot = None, leftOf = (\<lambda>_. None), rightOf = (\<lambda>_. None), parentOf = (\<lambda>_. None), redOf = (\<lambda>_. False),
     dataOf = (\<lambda>a. (case map_of bs a of None \<Rightarrow> 0 | Some z \<Rightarrow> z, a))\<rparr>"

definition pickBlock :: "nat \<Rightarrow> freeBlock list \<Rightarrow> freeBlock option" where
  "pickBlock n bs = Option.bind (insertBlocks (map fst bs) (emptyBlockTree bs)) (\<lambda>s.
     case mappedCeil (<) n fst s of Some (Inr a) \<Rightarrow> Some (a, fst (dataOf s a)) | _ \<Rightarrow> None)"

lemma block_total_order: "total_order UnallocatedMemoryBlockComparator"
  by unfold_locales (auto simp: UnallocatedMemoryBlockComparator_def prod_eq_iff split: if_splits)

lemma insertBlocks_ok:
  assumes "rbTree UnallocatedMemoryBlockComparator s xs" "distinct (xs @ as)" "\<forall>a. snd (dataOf s a) = a"
  shows "\<exists>s' xs'. insertBlocks as s = Some s' \<and> rbTree UnallocatedMemoryBlockComparator s' xs' \<and> set xs' = set xs \<union> set as \<and> dataOf s' = dataOf s"
  using assms
proof (induction as arbitrary: s xs)
  case (Cons a as)
  have "dataOf s a \<notin> dataOf s ` set xs" using Cons.prems(2,3) by (auto dest: arg_cong [where f = snd])
  then obtain s1 ys zs where 1: "insertImpl UnallocatedMemoryBlockComparator (Some a) s = Some (True, s1)" "rbTree UnallocatedMemoryBlockComparator s1 (ys @ a # zs)"
    "xs = ys @ zs" "dataOf s1 = dataOf s"
    using total_order.insertImpl_ok [OF block_total_order Cons.prems(1), of a] Cons.prems(2) by auto
  have "distinct ((ys @ a # zs) @ as)" "\<forall>a. snd (dataOf s1 a) = a" using Cons.prems(2,3) 1(3,4) by auto
  from Cons.IH [OF 1(2) this] show ?case using 1 by auto
qed auto

lemma mappedCeilLoop_ok:
  assumes "represents s (plug c t)" "sorted (map (\<lambda>a. f (dataOf s a)) (addrs t))"
  shows "case headOpt (filter (\<lambda>a. n \<le> f (dataOf s a)) (addrs t)) of
      None \<Rightarrow> mappedCeilLoop (<) n f res (holeRef c) s = Some (case res of None \<Rightarrow> Inl (Undefined ''null pointer'') | Some r \<Rightarrow> Inr r)
    | Some a \<Rightarrow> \<exists>b\<in>set (addrs t). f (dataOf s b) = (f (dataOf s a) :: nat) \<and> mappedCeilLoop (<) n f res (holeRef c) s = Some (Inr b)"
  using assms
proof (induction t arbitrary: c res)
  case Leaf
  then show ?case using represents_hole [OF Leaf(1)] by (subst mappedCeilLoop.simps) simp
next
  case (Node l x r)
  let ?v = "\<lambda>a. f (dataOf s a)"
  have rd: "readRef (holeRef c) s = Some (fst x)" using represents_hole [OF Node.prems(1)] by simp
  have so: "sorted (map ?v (addrs l))" "sorted (map ?v (addrs r))" "\<forall>a\<in>set (addrs l). ?v a \<le> ?v (fst x)" "\<forall>a\<in>set (addrs r). ?v (fst x) \<le> ?v a"
    using Node.prems(2) by (auto simp: sorted_append)
  consider "?v (fst x) = n" | "n < ?v (fst x)" | "?v (fst x) < n" by linarith
  then show ?case
  proof cases
    case 1
    then have run: "mappedCeilLoop (<) n f res (holeRef c) s = Some (Inr (fst x))" using rd by (subst mappedCeilLoop.simps) simp
    have "\<forall>a\<in>set (addrs l). n \<le> ?v a \<longrightarrow> ?v a = n" using so(3) 1 by fastforce
    then show ?thesis using run 1 by (cases "filter (\<lambda>a. n \<le> ?v a) (addrs l)") (auto simp: headOpt_append filter_eq_Cons_iff)
  next
    case 2
    then have run: "mappedCeilLoop (<) n f res (holeRef c) s = mappedCeilLoop (<) n f (Some (fst x)) (holeRef ((DirLeft, x, r) # c)) s"
      using rd by (subst mappedCeilLoop.simps) simp
    show ?thesis using Node.IH(1) [of "(DirLeft, x, r) # c" "Some (fst x)"] Node.prems(1) so(1) 2 unfolding run
      by (cases "filter (\<lambda>a. n \<le> ?v a) (addrs l)") (auto simp: headOpt_append)
  next
    case 3
    then have run: "mappedCeilLoop (<) n f res (holeRef c) s = mappedCeilLoop (<) n f res (holeRef ((DirRight, x, l) # c)) s"
      using rd by (subst mappedCeilLoop.simps) simp
    have "filter (\<lambda>a. n \<le> ?v a) (addrs l) = []" using so(3) 3 by (fastforce simp: filter_empty_conv)
    then show ?thesis using Node.IH(2) [of "(DirRight, x, l) # c" res] Node.prems(1) so(2) 3 unfolding run
      by (auto split: option.splits)
  qed
qed

lemma mappedCeil_least:
  assumes "rbTree cmp s xs" "sorted (map (\<lambda>a. f (dataOf s a)) xs)" "b \<in> set xs" "n \<le> (f (dataOf s b) :: nat)"
  obtains a where "mappedCeil (<) n f s = Some (Inr a)" "a \<in> set xs" "n \<le> f (dataOf s a)" "\<forall>b\<in>set xs. n \<le> f (dataOf s b) \<longrightarrow> f (dataOf s a) \<le> f (dataOf s b)"
proof -
  let ?v = "\<lambda>a. f (dataOf s a)"
  obtain t where t: "represents s (plug [] t)" "addrs t = xs" using assms(1) by (auto simp: rbTree_def)
  have "filter (\<lambda>a. n \<le> ?v a) xs \<noteq> []" using assms(3,4) by (auto simp: filter_empty_conv)
  then obtain a0 as where h: "filter (\<lambda>a. n \<le> ?v a) xs = a0 # as" by (cases "filter (\<lambda>a. n \<le> ?v a) xs") auto
  have "sorted (map ?v (a0 # as))" unfolding h [symmetric] by (rule sorted_filter [OF assms(2)])
  then have least: "n \<le> ?v a0" "\<forall>b\<in>set (a0 # as). ?v a0 \<le> ?v b" using h by (auto simp: filter_eq_Cons_iff)
  have all: "b \<in> set (a0 # as)" if "b \<in> set xs" "n \<le> ?v b" for b unfolding h [symmetric] using that by simp
  obtain a where "a \<in> set xs" "?v a = ?v a0" "mappedCeilLoop (<) n f None RootRef s = Some (Inr a)"
    using mappedCeilLoop_ok [OF t(1), of f n None] t(2) assms(2) h by auto
  then show thesis using that [of a] least all by (simp only: mappedCeil_def) blast
qed

lemma pickBlock_least:
  assumes "distinct (map fst bs)" "x \<in> set bs" "n \<le> snd x"
  shows "\<exists>b\<in>set bs. pickBlock n bs = Some b \<and> n \<le> snd b \<and> (\<forall>x\<in>set bs. n \<le> snd x \<longrightarrow> snd b \<le> snd x)"
proof -
  let ?s = "emptyBlockTree bs"
  have "rbTree UnallocatedMemoryBlockComparator ?s []"
    unfolding rbTree_def by (intro conjI exI [of _ "\<langle>\<rangle>"]) (simp_all add: ordered_def represents_def redBlack_def emptyBlockTree_def)
  then obtain s xs where s: "insertBlocks (map fst bs) ?s = Some s" "rbTree UnallocatedMemoryBlockComparator s xs" "set xs = fst ` set bs" "dataOf s = dataOf ?s"
    using insertBlocks_ok [of ?s "[]" "map fst bs"] assms(1) by (auto simp: emptyBlockTree_def)
  have d: "fst (dataOf s (fst b)) = snd b" if "b \<in> set bs" for b
    using map_of_eq_Some_iff [OF assms(1), of "fst b" "snd b"] that by (simp add: s(4) emptyBlockTree_def)
  have "sorted_wrt UnallocatedMemoryBlockComparator (map (dataOf s) xs)" using s(2) by (simp add: rbTree_def ordered_def)
  then have so: "sorted (map (\<lambda>a. fst (dataOf s a)) xs)"
    by (auto simp: sorted_wrt_map UnallocatedMemoryBlockComparator_def elim!: sorted_wrt_mono_rel [rotated] split: if_splits)
  obtain a where a: "mappedCeil (<) n fst s = Some (Inr a)" "a \<in> set xs" "n \<le> fst (dataOf s a)" "\<forall>b\<in>set xs. n \<le> fst (dataOf s b) \<longrightarrow> fst (dataOf s a) \<le> fst (dataOf s b)"
    using mappedCeil_least [OF s(2) so, of "fst x" n] assms(2,3) s(3) d [OF assms(2)] by auto
  obtain b where b: "b \<in> set bs" "a = fst b" using a(2) s(3) by auto
  have "pickBlock n bs = Some b" using s(1) a(1) b d [OF b(1)] by (simp add: pickBlock_def)
  then show ?thesis using a(3,4) b d s(3) by (metis image_eqI)
qed

interpretation bt: block_index pickBlock
  by unfold_locales (use pickBlock_least in blast)

section \<open>Where a block goes\<close>

lemma add_size_le [simp]: "a + b < 2 ^ 64 \<Longrightarrow> add_size a b = a + b"
  by (simp add: add_size_def)

lemma alignUpAddr_power:
  assumes "k < 64" "a + 2 ^ k \<le> 2 ^ 64"
  shows "2 ^ k dvd alignUpAddr a (2 ^ k)" "a \<le> alignUpAddr a (2 ^ k)" "alignUpAddr a (2 ^ k) < a + 2 ^ k"
proof -
  have e: "alignUpAddr a (2 ^ k) = (a + 2 ^ k - 1) div 2 ^ k * 2 ^ k"
    using unat_slabAlign [OF assms] by (simp add: alignUpAddr_def)
  show "2 ^ k dvd alignUpAddr a (2 ^ k)" unfolding e by simp
  show "a \<le> alignUpAddr a (2 ^ k)" unfolding e by (rule align_le) simp
  have "(a + 2 ^ k - 1) div 2 ^ k * 2 ^ k \<le> a + 2 ^ k - 1" by simp
  moreover have "0 < (2 :: nat) ^ k" by simp
  ultimately show "alignUpAddr a (2 ^ k) < a + 2 ^ k" unfolding e by linarith
qed

lemma alignUp_block:
  assumes "a + 16 \<le> 2 ^ 64"
  shows "16 dvd alignUpAddr a alignofBlock" "a \<le> alignUpAddr a alignofBlock" "alignUpAddr a alignofBlock < a + 16"
    "16 dvd a \<Longrightarrow> alignUpAddr a alignofBlock = a"
proof -
  have e: "alignofBlock = 2 ^ 4" by (simp add: alignofBlock_def)
  show d: "16 dvd alignUpAddr a alignofBlock" and l: "a \<le> alignUpAddr a alignofBlock" and u: "alignUpAddr a alignofBlock < a + 16"
    using alignUpAddr_power [of 4 a] assms unfolding e by simp_all
  assume "16 dvd a"
  then have "16 dvd alignUpAddr a alignofBlock - a" using d by simp
  moreover have "alignUpAddr a alignofBlock - a < 16" using l u by linarith
  ultimately show "alignUpAddr a alignofBlock = a" using l nat_dvd_not_less [of "alignUpAddr a alignofBlock - a" 16] by linarith
qed

lemma alignDown_block: "16 dvd a \<Longrightarrow> a < 2 ^ 64 \<Longrightarrow> alignDownAddr a alignofBlock = a"
proof -
  assume a: "16 dvd a" "a < 2 ^ 64"
  have "(16 :: u64) - 1 = mask 4" by (simp add: mask_eq_exp_minus_1)
  moreover have "unat (x AND NOT (mask 4)) = push_bit 4 (drop_bit 4 (unat x))" for x :: u64
    by (rule bit_eqI) (auto simp: bit_simps bit_unat_u64 dest: bit_imp_le_length)
  ultimately have "unat (alignDown True x 16) = unat x div 16 * 16" for x
    by (simp only: alignDown_def if_True) (simp add: push_bit_eq_mult drop_bit_eq_div)
  then show ?thesis using a by (simp add: alignDownAddr_def alignofBlock_def unat_of_nat take_bit_nat_eq_self)
qed

lemma block_sizes [simp]: "minimumBlockSize = 96" "sizeofAllocated = 32" "alignedHeaderMetadataSize = 16" "sizeofAlignedAllocated = 48"
  by (simp_all add: minimumBlockSize_def sizeofAllocated_def sizeofAlignedAllocated_def sizeofUnallocated_def alignedHeaderMetadataSize_def)

lemma guaranteedAlign: "guaranteedAlignAfterBlock = 16"
proof -
  have "largestPowerOf2Dividing 32 = 32" by code_simp
  then show ?thesis by (simp add: guaranteedAlignAfterBlock_def alignofBlock_def)
qed

lemma and_sub_one [simp]: "a AND (2 ^ k - Suc 0) = a mod 2 ^ k" for a :: nat
proof -
  have "2 ^ k - Suc 0 = mask k" by (simp add: mask_eq_exp_minus_1)
  then show ?thesis by (simp add: take_bit_eq_mask [symmetric] take_bit_eq_mod)
qed

lemma worstCase:
  assumes "req + 2 ^ k + 48 < 2 ^ 64"
  shows "computeWorstCaseAlignedSize req (2 ^ k) = (if k \<le> 4 then req + 32 else req + 2 ^ k + 48)"
proof -
  have "(16 :: nat) mod 2 ^ k = 0 \<longleftrightarrow> k \<le> 4"
  proof (cases "k \<le> 4")
    case True
    then have "(2 :: nat) ^ k dvd 2 ^ 4" by (rule le_imp_power_dvd)
    then show ?thesis using True by simp
  next
    case False
    then have "(2 :: nat) ^ 5 \<le> 2 ^ k" by (intro power_increasing) auto
    then show ?thesis using False by simp
  qed
  then show ?thesis using assms by (simp add: computeWorstCaseAlignedSize_def guaranteedAlign)
qed


lemma return_place:
  assumes "16 dvd base" "base + 48 + 2 ^ k \<le> 2 ^ 64"
  defines "ret \<equiv> findFirstAlignedAddressAfterHeaderSpace base (2 ^ k)"
  shows "2 ^ k dvd ret" "16 dvd ret" "ret = base + 32 \<or> 4 < k \<and> base + 48 \<le> ret \<and> ret \<le> base + 16 + 2 ^ k"
proof -
  have k64: "k < 64"
  proof (rule ccontr)
    assume "\<not> ?thesis"
    then have "(2 :: nat) ^ 64 \<le> 2 ^ k" by (intro power_increasing) auto
    then show False using assms(2) by simp
  qed
  have "0 < (2 :: nat) ^ k" by simp
  then have "base + 48 < 2 ^ 64" using assms(2) by linarith
  then have b32: "16 dvd base + 32" "base + 32 < 2 ^ 64" "base + 32 + 16 < 2 ^ 64" using assms(1) by auto
  have "2 ^ k dvd ret \<and> 16 dvd ret \<and> (ret = base + 32 \<or> 4 < k \<and> base + 48 \<le> ret \<and> ret \<le> base + 16 + 2 ^ k)"
  proof (cases "2 ^ k dvd base + 32")
    case True
    then have "ret = base + 32" unfolding ret_def findFirstAlignedAddressAfterHeaderSpace_def using b32(2) by (simp add: Let_def)
    then show ?thesis using True b32 by simp
  next
    case False
    then have "ret = alignUpAddr (base + 48) (2 ^ k)"
      unfolding ret_def findFirstAlignedAddressAfterHeaderSpace_def using b32(2,3)
      by (simp add: Let_def dvd_eq_mod_eq_0 add.commute)
    then have r: "2 ^ k dvd ret" "base + 48 \<le> ret" "ret < base + 48 + 2 ^ k" using alignUpAddr_power [OF k64 assms(2)] by simp_all
    have k: "4 < k"
    proof (rule ccontr)
      assume "\<not> ?thesis"
      then have "(2 :: nat) ^ k dvd 2 ^ 4" by (intro le_imp_power_dvd) simp
      then have "(2 :: nat) ^ k dvd 16" by simp
      then have "2 ^ k dvd base + 32" using b32(1) by (rule dvd_trans)
      then show False using False by simp
    qed
    then have "(2 :: nat) ^ 4 dvd 2 ^ k" by (intro le_imp_power_dvd) simp
    then obtain m where m: "(2 :: nat) ^ k = 16 * m" by (auto elim: dvdE)
    obtain b where b: "base = 16 * b" using assms(1) by (auto elim: dvdE)
    obtain q where q: "ret = 16 * m * q" using r(1) m by (auto elim: dvdE)
    have "m * q \<noteq> b + 2 + m"
    proof
      assume "m * q = b + 2 + m"
      then have "base + 32 = 16 * m * (q - 1)" using b by (simp add: algebra_simps)
      then show False using False m by simp
    qed
    moreover have "m * q < b + 3 + m" using r(3) q b m by simp
    ultimately show ?thesis using r k q b m by (auto simp: algebra_simps)
  qed
  then show "2 ^ k dvd ret" "16 dvd ret" "ret = base + 32 \<or> 4 < k \<and> base + 48 \<le> ret \<and> ret \<le> base + 16 + 2 ^ k" by blast+
qed

lemma header_place:
  assumes "16 dvd ret" "base + 32 \<le> ret" "ret < 2 ^ 64"
  shows "headerPlace base ret = (if ret < base + 128 then base else ret - 32)"
  using alignDown_block [of "ret - 32"] assms by (auto simp: headerPlace_def findFirstAlignedHeaderLocationBelowAddr_def)

lemma next_place:
  assumes "16 dvd e" "ret + req \<le> e" "h + 96 \<le> e" "e + 16 \<le> 2 ^ 64"
  defines "n \<equiv> nextPlace h ret req e"
  shows "16 dvd n" "ret + req \<le> n" "h + 96 \<le> n" "n = e \<or> n + 96 \<le> e"
proof -
  let ?m = "max (ret + req) (h + 96)" and ?a = "alignUpAddr (max (ret + req) (h + 96)) alignofBlock"
  have a: "16 dvd ?a" "?m \<le> ?a" "?a < ?m + 16" using alignUp_block [of ?m] assms(2-4) by auto
  have "?a \<le> e"
  proof (rule ccontr)
    assume "\<not> ?thesis"
    then have "?a - e < 16" "e < ?a" using a(3) assms(2,3) by auto
    moreover have "16 dvd ?a - e" using a(1) assms(1) by simp
    ultimately show False using nat_dvd_not_less [of "?a - e" 16] by simp
  qed
  moreover have "n = (if e - ?a < 96 then e else ?a)" if "?a \<le> e"
    using that assms(2-4) unfolding n_def nextPlace_def by simp
  ultimately have "16 dvd n \<and> ?m \<le> n \<and> (n = e \<or> n + 96 \<le> e)" using a assms(1,2,3) by auto
  then show "16 dvd n" "ret + req \<le> n" "h + 96 \<le> n" "n = e \<or> n + 96 \<le> e" by auto
qed

text \<open>A small request that is aligned to more than 64 bytes is the exception: the minimum size of a block may not fit.\<close>

lemma block_placement:
  assumes "16 dvd base" "16 dvd z" "96 \<le> z" "base + z + 16 \<le> 2 ^ 64" "0 < req" "req + 2 ^ k + 48 < 2 ^ 64"
    "computeWorstCaseAlignedSize req (2 ^ k) \<le> z" "k \<le> 6 \<or> 16 < req"
  defines "ret \<equiv> findFirstAlignedAddressAfterHeaderSpace base (2 ^ k)"
  defines "h \<equiv> headerPlace base ret"
  defines "n \<equiv> nextPlace h ret req (base + z)"
  shows "2 ^ k dvd ret" "16 dvd h" "h = base \<or> base + 96 \<le> h" "16 dvd n" "h + 96 \<le> n" "n = base + z \<or> n + 96 \<le> base + z"
    "ret = h + 32 \<or> h + 48 \<le> ret" "ret + req \<le> n"
proof -
  have w: "if k \<le> 4 then req + 32 \<le> z else req + 2 ^ k + 48 \<le> z" using assms(7) worstCase [OF assms(6)] by (simp split: if_splits)
  have small: "(2 :: nat) ^ k \<le> 2 ^ j" if "k \<le> j" for j by (rule power_increasing) (use that in auto)
  have "base + 48 + 2 ^ k \<le> 2 ^ 64" using w assms(3,4) small [of 4] by (auto split: if_splits)
  note R = return_place [OF assms(1) this, folded ret_def]
  have low: "base + 32 \<le> ret" and fits: "ret + req \<le> base + z" and top: "ret < 2 ^ 64" using R(3) w assms(4) by (auto split: if_splits)
  have h: "h = (if ret < base + 128 then base else ret - 32)" unfolding h_def by (rule header_place [OF R(2) low top])
  have room: "h + 96 \<le> base + z"
  proof (cases "ret < base + 128")
    case True
    then show ?thesis using h assms(3) by simp
  next
    case False
    then have k: "4 < k" "ret \<le> base + 16 + 2 ^ k" using R(3) by auto
    then have z: "req + 2 ^ k + 48 \<le> z" using w by simp
    have "2 ^ 4 dvd (2 :: nat) ^ k" using k(1) by (intro le_imp_power_dvd) simp
    then obtain m y where m: "(2 :: nat) ^ k = 16 * m" "z = 16 * y" using assms(2) by (auto elim!: dvdE)
    have "\<not> k \<le> 6" using small [of 6] False k(2) by auto
    then have "16 < req" using assms(8) by simp
    then have "m + 5 \<le> y" using z m by simp
    then show ?thesis using h False k(2) m by simp
  qed
  have n: "16 dvd n" "ret + req \<le> n" "h + 96 \<le> n" "n = base + z \<or> n + 96 \<le> base + z"
    unfolding n_def by (rule next_place; use assms(1-4) fits room in simp)+
  show "2 ^ k dvd ret" by (rule R(1))
  show "16 dvd h" "h = base \<or> base + 96 \<le> h" using h assms(1) R(2) by auto
  show "16 dvd n" "h + 96 \<le> n" "n = base + z \<or> n + 96 \<le> base + z" "ret + req \<le> n" by (rule n)+
  show "ret = h + 32 \<or> h + 48 \<le> ret" using h R(3) low by auto
qed

end
