(* ===== verification/Slab_Buckets.thy ===== *)
theory Slab_Buckets
  imports Heap_Span Size_Class
begin

text \<open>
  \<open>SlabAllocator\<close> of \<open>LibAlloc/SlabAllocator.cpp\<close>: slabs of one slot size in buckets by occupancy. A bucket is the list of the addresses of its
  slabs, the intrusive list through \<open>nextInBucket\<close> and \<open>prevInBucket\<close>; \<open>slabAt\<close> is the memory of the slabs. The tree of all slabs by
  address is the list \<open>slabTree\<close>. The backing allocator is an argument with a state of its own.
\<close>

section \<open>Bucket indices\<close>

datatype bucketRef = FullBucket | FreeBucket | PartialBucket nat

definition slabAllocatorBucketCount :: nat where "slabAllocatorBucketCount = 6"

definition bucketPercentTableSize :: nat where "bucketPercentTableSize = drop_bit 2 100 + 1"

definition intervalNudge :: nat where
  "intervalNudge = (let n = bucketPercentTableSize * 20 + 100 * slabAllocatorBucketCount - 1; d = 100 * slabAllocatorBucketCount in (n + (d - 1)) div d)"

definition occupancyToBucketLower :: "nat \<Rightarrow> nat" where
  "occupancyToBucketLower i =
     min ((max i intervalNudge - intervalNudge) * slabAllocatorBucketCount div bucketPercentTableSize) (slabAllocatorBucketCount - 1)"

definition occupancyToBucketUpper :: "nat \<Rightarrow> nat" where
  "occupancyToBucketUpper i =
     min (min (i + intervalNudge) (bucketPercentTableSize - 1) * slabAllocatorBucketCount div bucketPercentTableSize) (slabAllocatorBucketCount - 1)"

definition getBucketIndexForOccupancyInAlloc :: "nat \<Rightarrow> nat" where
  "getBucketIndexForOccupancyInAlloc occupancyPercentage =
     (let adjusted = drop_bit 2 occupancyPercentage
      in if bucketPercentTableSize \<le> adjusted then slabAllocatorBucketCount - 1 else occupancyToBucketUpper adjusted)"

definition getBucketIndexForOccupancyInFree :: "nat \<Rightarrow> nat" where
  "getBucketIndexForOccupancyInFree occupancyPercentage =
     (let adjusted = drop_bit 2 occupancyPercentage
      in if bucketPercentTableSize \<le> adjusted then slabAllocatorBucketCount - 1 else occupancyToBucketLower adjusted)"

definition fullBucketReintroductionOccupancyThreshold :: nat where "fullBucketReintroductionOccupancyThreshold = 90"

definition freeBucketReleaseThreshold :: nat where "freeBucketReleaseThreshold = 4"

definition freeBucketRetainLimit :: nat where "freeBucketRetainLimit = 2"

section \<open>The allocator\<close>

record slabAllocator =
  allocSlotSize :: nat
  desiredSlabSize :: nat
  buckets :: "bucketRef \<Rightarrow> nat list"
  numFreeSlabs :: nat
  numNonFullSlabs :: nat
  topOccupiedBucket :: "bucketRef option"
  slabAt :: "nat \<Rightarrow> AllocSlab"
  bucketIndex :: "nat \<Rightarrow> bucketRef"
  slabTree :: "nat list"
  totalBackingSize :: nat
  currentlyAllocatedSize :: nat
  netAllocatedSize :: nat
  netFreedSize :: nat
  numSlabs :: nat

text \<open>The constructor leaves the statistics as it finds them in memory.\<close>

definition newSlabAllocator :: "nat \<Rightarrow> nat \<Rightarrow> nat list \<Rightarrow> slabAllocator \<Rightarrow> slabAllocator" where
  "newSlabAllocator slot_size desired_slab_size slab_tree memory =
     memory\<lparr>allocSlotSize := slot_size, desiredSlabSize := desired_slab_size, slabTree := slab_tree, buckets := (\<lambda>_. []), numNonFullSlabs := 0, numFreeSlabs := 0,
            topOccupiedBucket := None\<rparr>"

definition initializeSlab :: "nat \<Rightarrow> nat \<Rightarrow> nat \<Rightarrow> nat \<Rightarrow> AllocSlab outcome" where
  "initializeSlab sizeofSlab memory slot_size backing_size = newSlab slot_size (memory + sizeofSlab) (sub_size backing_size sizeofSlab)"

definition removeSlabFromBucket :: "nat \<Rightarrow> bucketRef \<Rightarrow> slabAllocator \<Rightarrow> slabAllocator" where
  "removeSlabFromBucket slab b m = m\<lparr>buckets := (buckets m)(b := remove1 slab (buckets m b))\<rparr>"

definition insertSlabAtBucketHead :: "nat \<Rightarrow> bucketRef \<Rightarrow> slabAllocator \<Rightarrow> slabAllocator" where
  "insertSlabAtBucketHead slab b m = m\<lparr>buckets := (buckets m)(b := slab # buckets m b)\<rparr>"

text \<open>The old head of the free bucket does not get a predecessor; \<open>alloc\<close> adds a slab only when there is none.\<close>

definition addNewSlab :: "(nat \<Rightarrow> 'h \<Rightarrow> (nat option \<times> 'h) outcome) \<Rightarrow> nat \<Rightarrow> nat \<Rightarrow> slabAllocator \<times> 'h \<Rightarrow> (bool \<times> slabAllocator \<times> 'h) outcome" where
  "addNewSlab balloc sizeofSlab requestedSize st =
     bindO (balloc requestedSize (snd st)) (\<lambda>(backingBuffer, h). let m = fst st in
       case backingBuffer of
         None \<Rightarrow> Inr (False, m, h)
       | Some a \<Rightarrow> bindO (initializeSlab sizeofSlab a (allocSlotSize m) requestedSize) (\<lambda>s.
           Inr (True, m\<lparr>slabTree := insort a (slabTree m), slabAt := (slabAt m)(a := s), buckets := (buckets m)(FreeBucket := a # buckets m FreeBucket),
                       bucketIndex := (bucketIndex m)(a := FreeBucket), numNonFullSlabs := numNonFullSlabs m + 1, numFreeSlabs := numFreeSlabs m + 1,
                       topOccupiedBucket := (if topOccupiedBucket m = None then Some FreeBucket else topOccupiedBucket m),
                       totalBackingSize := add_size (totalBackingSize m) requestedSize, numSlabs := numSlabs m + 1\<rparr>, h)))"

definition topPartialBucket :: "nat \<Rightarrow> nat \<Rightarrow> (bucketRef \<Rightarrow> nat list) \<Rightarrow> bucketRef option" where
  "topPartialBucket lo hi bk = map_option PartialBucket (List.find (\<lambda>i. bk (PartialBucket i) \<noteq> []) (rev [lo..<hi]))"

definition topAfterFull :: "slabAllocator \<Rightarrow> bucketRef option" where
  "topAfterFull m =
     (if numNonFullSlabs m = 0 then None
      else case topPartialBucket 0 slabAllocatorBucketCount (buckets m) of None \<Rightarrow> Some FreeBucket | Some b \<Rightarrow> Some b)"

text \<open>What happens to the slab after it has handed out a slot.\<close>

definition rebucketAlloc :: "nat \<Rightarrow> bucketRef \<Rightarrow> slabAllocator \<Rightarrow> slabAllocator" where
  "rebucketAlloc t b m =
     (let s = slabAt m t; newIndex = getBucketIndexForOccupancyInAlloc (getOccupancyPercent s)
      in if as_isFull s
         then let m1 = insertSlabAtBucketHead t FullBucket (removeSlabFromBucket t b m);
                  m2 = m1\<lparr>bucketIndex := (bucketIndex m1)(t := FullBucket), numNonFullSlabs := sub_size (numNonFullSlabs m1) 1\<rparr>
              in m2\<lparr>topOccupiedBucket := topAfterFull m2\<rparr>
         else if b = FreeBucket \<or> bucketIndex m t \<noteq> PartialBucket newIndex
         then let m1 = (if b = FreeBucket then m\<lparr>numFreeSlabs := sub_size (numFreeSlabs m) 1\<rparr> else m);
                  m2 = removeSlabFromBucket t b m1;
                  m3 = insertSlabAtBucketHead t (PartialBucket newIndex) (m2\<lparr>bucketIndex := (bucketIndex m2)(t := PartialBucket newIndex)\<rparr>)
              in m3\<lparr>topOccupiedBucket := Some (PartialBucket newIndex)\<rparr>
         else m)"

definition slabAlloc :: "(nat \<Rightarrow> 'h \<Rightarrow> (nat option \<times> 'h) outcome) \<Rightarrow> nat \<Rightarrow> slabAllocator \<times> 'h \<Rightarrow> (nat \<times> slabAllocator \<times> 'h) outcome" where
  "slabAlloc balloc sizeofSlab st =
     bindO (if numNonFullSlabs (fst st) = 0 then bindO (addNewSlab balloc sizeofSlab (desiredSlabSize (fst st)) st) (\<lambda>r. Inr (snd r)) else Inr st) (\<lambda>(m, h).
       case topOccupiedBucket m of
         None \<Rightarrow> Inl (Undefined ''null pointer'')
       | Some b \<Rightarrow>
           (case buckets m b of
              [] \<Rightarrow> Inl (Undefined ''null pointer'')
            | t # _ \<Rightarrow> bindO (as_alloc (slabAt m t)) (\<lambda>(p, s).
                let m1 = rebucketAlloc t b (m\<lparr>slabAt := (slabAt m)(t := s)\<rparr>)
                in Inr (p, m1\<lparr>currentlyAllocatedSize := add_size (currentlyAllocatedSize m1) (allocSlotSize m1), netAllocatedSize := add_size (netAllocatedSize m1) (allocSlotSize m1)\<rparr>, h))))"

text \<open>Slabs go back to the backing allocator, whose answer is not looked at.\<close>

function releaseLoop :: "(nat \<Rightarrow> 'h \<Rightarrow> bool \<times> 'h) \<Rightarrow> slabAllocator \<Rightarrow> 'h \<Rightarrow> (slabAllocator \<times> 'h) outcome" where
  "releaseLoop bfree m h =
     (if numFreeSlabs m \<le> freeBucketRetainLimit then Inr (m, h)
      else case buckets m FreeBucket of
             [] \<Rightarrow> Inl (Undefined ''null pointer'')
           | a # rest \<Rightarrow>
               if rest = [] then Inl (Undefined ''null pointer'')
               else releaseLoop bfree
                      (m\<lparr>buckets := (buckets m)(FreeBucket := rest), slabTree := remove1 a (slabTree m), numSlabs := sub_size (numSlabs m) 1,
                         totalBackingSize := sub_size (totalBackingSize m) (backingSize (slabAt m a)), numFreeSlabs := sub_size (numFreeSlabs m) 1,
                         numNonFullSlabs := sub_size (numNonFullSlabs m) 1\<rparr>) (snd (bfree a h)))"
  by pat_completeness auto
termination by (relation "measure (\<lambda>(bfree, m, h). numFreeSlabs m)") (auto simp: freeBucketRetainLimit_def)

declare releaseLoop.simps [simp del]

definition releaseFreeSlabsIfNecessary :: "(nat \<Rightarrow> 'h \<Rightarrow> bool \<times> 'h) \<Rightarrow> slabAllocator \<Rightarrow> 'h \<Rightarrow> (slabAllocator \<times> 'h) outcome" where
  "releaseFreeSlabsIfNecessary bfree m h =
     bindO (if freeBucketReleaseThreshold < numFreeSlabs m then releaseLoop bfree m h else Inr (m, h)) (\<lambda>(m1, h1).
       if buckets m1 FreeBucket = [] \<and> topOccupiedBucket m1 = Some FreeBucket then Inl (Assertion ''topOccupiedBucket should never point to null'')
       else Inr (m1, h1))"

text \<open>What happens to the slab after it has taken a slot back. A null top bucket cannot be dereferenced, and a slab of the free bucket has no
  partial bucket it could be removed from.\<close>

definition rebucketFree :: "(nat \<Rightarrow> 'h \<Rightarrow> bool \<times> 'h) \<Rightarrow> nat \<Rightarrow> slabAllocator \<Rightarrow> 'h \<Rightarrow> (slabAllocator \<times> 'h) outcome" where
  "rebucketFree bfree t m h =
     (let s = slabAt m t; newIndex = getBucketIndexForOccupancyInFree (getOccupancyPercent s)
      in if bucketIndex m t = FullBucket
         then if getOccupancyPercent s \<le> fullBucketReintroductionOccupancyThreshold
              then let i = slabAllocatorBucketCount - 1;
                       m1 = removeSlabFromBucket t FullBucket m;
                       m2 = insertSlabAtBucketHead t (PartialBucket i) (m1\<lparr>numNonFullSlabs := numNonFullSlabs m1 + 1\<rparr>)
                   in Inr (m2\<lparr>topOccupiedBucket := Some (PartialBucket i), bucketIndex := (bucketIndex m2)(t := PartialBucket i)\<rparr>, h)
              else Inr (m, h)
         else if bucketIndex m t = FreeBucket then Inl (Undefined ''out of bounds'')
         else if as_isEmpty s
         then let m1 = insertSlabAtBucketHead t FreeBucket (removeSlabFromBucket t (bucketIndex m t) m);
                  m2 = m1\<lparr>numFreeSlabs := numFreeSlabs m1 + 1, bucketIndex := (bucketIndex m1)(t := FreeBucket)\<rparr>
              in (case topOccupiedBucket m2 of
                    None \<Rightarrow> Inl (Undefined ''null pointer'')
                  | Some b \<Rightarrow> releaseFreeSlabsIfNecessary bfree (if buckets m2 b = [] then m2\<lparr>topOccupiedBucket := Some FreeBucket\<rparr> else m2) h)
         else if bucketIndex m t \<noteq> PartialBucket newIndex
         then let oldBucket = bucketIndex m t;
                  m1 = removeSlabFromBucket t oldBucket m;
                  m2 = insertSlabAtBucketHead t (PartialBucket newIndex) (m1\<lparr>bucketIndex := (bucketIndex m1)(t := PartialBucket newIndex)\<rparr>)
              in (case topOccupiedBucket m2 of
                    None \<Rightarrow> Inl (Undefined ''null pointer'')
                  | Some b \<Rightarrow>
                      if buckets m2 b = []
                      then (case oldBucket of
                              PartialBucket oldIndex \<Rightarrow>
                                (case topPartialBucket newIndex (oldIndex + 1) (buckets m2) of None \<Rightarrow> Inr (m2, h) | Some b1 \<Rightarrow> Inr (m2\<lparr>topOccupiedBucket := Some b1\<rparr>, h))
                            | _ \<Rightarrow> Inr (m2, h))
                      else Inr (m2, h))
         else Inr (m, h))"

definition slabFree :: "(nat \<Rightarrow> 'h \<Rightarrow> bool \<times> 'h) \<Rightarrow> nat \<Rightarrow> nat \<Rightarrow> slabAllocator \<times> 'h \<Rightarrow> (slabAllocator \<times> 'h) outcome" where
  "slabFree bfree p t st =
     bindO (as_free p (slabAt (fst st) t)) (\<lambda>s.
     bindO (rebucketFree bfree t ((fst st)\<lparr>slabAt := (slabAt (fst st))(t := s)\<rparr>) (snd st)) (\<lambda>(m, h).
       Inr (m\<lparr>currentlyAllocatedSize := sub_size (currentlyAllocatedSize m) (allocSlotSize m), netFreedSize := add_size (netFreedSize m) (allocSlotSize m)\<rparr>, h)))"

fun releaseSlabs :: "(nat \<Rightarrow> 'h \<Rightarrow> bool \<times> 'h) \<Rightarrow> bucketRef \<Rightarrow> nat list \<Rightarrow> slabAllocator \<Rightarrow> 'h \<Rightarrow> slabAllocator \<times> 'h" where
  "releaseSlabs bfree b [] m h = (m\<lparr>buckets := (buckets m)(b := [])\<rparr>, h)"
| "releaseSlabs bfree b (a # rest) m h =
     releaseSlabs bfree b rest
       (m\<lparr>slabTree := remove1 a (slabTree m), numSlabs := sub_size (numSlabs m) 1, totalBackingSize := sub_size (totalBackingSize m) (backingSize (slabAt m a)),
          numNonFullSlabs := (if b \<noteq> FullBucket then sub_size (numNonFullSlabs m) 1 else numNonFullSlabs m),
          numFreeSlabs := (if b = FreeBucket then sub_size (numFreeSlabs m) 1 else numFreeSlabs m)\<rparr>) (snd (bfree a h))"

definition releaseAllFromBucket :: "(nat \<Rightarrow> 'h \<Rightarrow> bool \<times> 'h) \<Rightarrow> bucketRef \<Rightarrow> slabAllocator \<times> 'h \<Rightarrow> slabAllocator \<times> 'h" where
  "releaseAllFromBucket bfree b st = releaseSlabs bfree b (buckets (fst st) b) (fst st) (snd st)"

definition releaseAllFreeSlabs :: "(nat \<Rightarrow> 'h \<Rightarrow> bool \<times> 'h) \<Rightarrow> slabAllocator \<times> 'h \<Rightarrow> slabAllocator \<times> 'h" where
  "releaseAllFreeSlabs bfree st = releaseAllFromBucket bfree FreeBucket st"

definition destroySlabAllocator :: "(nat \<Rightarrow> 'h \<Rightarrow> bool \<times> 'h) \<Rightarrow> slabAllocator \<times> 'h \<Rightarrow> slabAllocator \<times> 'h" where
  "destroySlabAllocator bfree st = fold (releaseAllFromBucket bfree) (FullBucket # map PartialBucket [0..<slabAllocatorBucketCount] @ [FreeBucket]) st"

record SlabAllocatorStats =
  statTotalBackingSize :: nat
  statTotalMetadataSize :: nat
  statCurrentlyAllocatedSize :: nat
  statNetAllocatedSize :: nat
  statNetFreedSize :: nat
  statNumSlabs :: nat
  statNumFreeSlabs :: nat
  statNumNonFullSlabs :: nat

definition getStatistics :: "slabAllocator \<Rightarrow> SlabAllocatorStats" where
  "getStatistics m = \<lparr>statTotalBackingSize = totalBackingSize m, statTotalMetadataSize = 0, statCurrentlyAllocatedSize = currentlyAllocatedSize m,
     statNetAllocatedSize = netAllocatedSize m, statNetFreedSize = netFreedSize m, statNumSlabs = numSlabs m, statNumFreeSlabs = numFreeSlabs m,
     statNumNonFullSlabs = numNonFullSlabs m\<rparr>"

section \<open>Bucket tables\<close>

lemma bucket_constants [simp]: "slabAllocatorBucketCount = 6" "bucketPercentTableSize = 26" "intervalNudge = 2" "freeBucketRetainLimit = 2" "freeBucketReleaseThreshold = 4"
  "fullBucketReintroductionOccupancyThreshold = 90"
  by (simp_all add: slabAllocatorBucketCount_def bucketPercentTableSize_def intervalNudge_def freeBucketRetainLimit_def freeBucketReleaseThreshold_def
      fullBucketReintroductionOccupancyThreshold_def drop_bit_eq_div)

lemma bucket_tables_le: "occupancyToBucketUpper i \<le> 5" "occupancyToBucketLower i \<le> 5"
  unfolding occupancyToBucketUpper_def occupancyToBucketLower_def bucket_constants by (rule order.trans [OF min.cobounded2], simp)+

lemma bucket_index_bounds:
  "getBucketIndexForOccupancyInAlloc p < 6" "getBucketIndexForOccupancyInFree p < 6" "getBucketIndexForOccupancyInFree p \<le> getBucketIndexForOccupancyInAlloc p"
proof -
  show "getBucketIndexForOccupancyInAlloc p < 6" "getBucketIndexForOccupancyInFree p < 6"
    using bucket_tables_le [of "drop_bit 2 p"] by (simp_all add: getBucketIndexForOccupancyInAlloc_def getBucketIndexForOccupancyInFree_def Let_def)
  have "(max i 2 - 2) * 6 div 26 \<le> min (i + 2) 25 * 6 div 26" if "i < 26" for i :: nat by (rule div_le_mono) (use that in auto)
  then show "getBucketIndexForOccupancyInFree p \<le> getBucketIndexForOccupancyInAlloc p"
    unfolding getBucketIndexForOccupancyInAlloc_def getBucketIndexForOccupancyInFree_def Let_def occupancyToBucketUpper_def occupancyToBucketLower_def bucket_constants
    by (fastforce simp: not_le intro: min.mono)
qed

lemma bucket_index_mono:
  assumes "p \<le> q"
  shows "getBucketIndexForOccupancyInFree p \<le> getBucketIndexForOccupancyInFree q"
proof -
  let ?i = "drop_bit 2 p" and ?j = "drop_bit 2 q"
  have d: "?i \<le> ?j" using assms by (simp add: drop_bit_eq_div div_le_mono)
  have "(max ?i 2 - 2) * 6 div 26 \<le> (max ?j 2 - 2) * 6 div 26" by (intro div_le_mono mult_le_mono1 diff_le_mono max.mono d order.refl)
  then have "occupancyToBucketLower ?i \<le> occupancyToBucketLower ?j" unfolding occupancyToBucketLower_def bucket_constants by (rule min.mono) simp
  moreover have "occupancyToBucketLower ?i \<le> 5" by (rule bucket_tables_le)
  ultimately show ?thesis using d unfolding getBucketIndexForOccupancyInFree_def Let_def bucket_constants by auto
qed

lemma occupancy_antimono:
  assumes "freeCount s \<le> freeCount s'" "freeCount s' \<le> numSlots s'" "numSlots s' = numSlots s" "0 < numSlots s"
  shows "getOccupancyPercent s' \<le> getOccupancyPercent s"
proof -
  let ?n = "numSlots s" and ?a = "freeCount s" and ?b = "freeCount s'"
  have "(?a * 100 + (?n - 1)) div ?n \<le> (?b * 100 + (?n - 1)) div ?n" by (rule div_le_mono) (use assms(1) in simp)
  moreover have "(?b * 100 + (?n - 1)) div ?n \<le> 100"
  proof -
    have "?b * 100 + (?n - 1) < 101 * ?n" using assms(2,3,4) by simp
    then show ?thesis using assms(4) by (simp add: div_less_iff_less_mult less_Suc_eq_le [symmetric])
  qed
  ultimately show ?thesis by (simp add: getOccupancyPercent_def assms(3))
qed

lemma high_occupancy:
  assumes "90 < getOccupancyPercent s" "freeCount s \<le> numSlots s" "1 < numSlots s"
  shows "freeCount s + 1 < numSlots s"
proof -
  let ?n = "numSlots s" and ?a = "freeCount s"
  have "(?a * 100 + (?n - 1)) div ?n < 10"
  proof (rule ccontr)
    assume n: "\<not> ?thesis"
    have "?a * 100 + (?n - 1) < 101 * ?n" using assms(2,3) by simp
    then have "(?a * 100 + (?n - 1)) div ?n < 101" using assms(3) by (simp add: div_less_iff_less_mult)
    then show False using n assms(1) by (simp add: getOccupancyPercent_def)
  qed
  then have "?a * 100 + (?n - 1) < 10 * ?n" using assms(3) by (simp add: div_less_iff_less_mult)
  then show ?thesis using assms(3) by linarith
qed

lemma full_occupancy: "freeCount s = 0 \<Longrightarrow> 0 < numSlots s \<Longrightarrow> getOccupancyPercent s = 100"
  by (simp add: getOccupancyPercent_def)

end
