(* ===== verification/Slab_Buckets_Laws.thy ===== *)
theory Slab_Buckets_Laws
  imports Slab_Buckets
begin

text \<open>
  The invariant of a slab allocator: every slab is in one bucket that fits its occupancy, the counters count, and the top bucket has a slab
  whenever one has a free slot. A set of slot numbers per slab says which slots are in use; allocation and deallocation change
  exactly one of them.
\<close>

section \<open>Buckets\<close>

definition bucketFits :: "bucketRef \<Rightarrow> AllocSlab \<Rightarrow> bool" where
  "bucketFits b s = (case b of FullBucket \<Rightarrow> 90 < getOccupancyPercent s
     | FreeBucket \<Rightarrow> freeCount s = numSlots s
     | PartialBucket i \<Rightarrow> i < 6 \<and> 0 < freeCount s \<and> freeCount s < numSlots s \<and> getBucketIndexForOccupancyInFree (getOccupancyPercent s) \<le> i)"

definition slabOk :: "AllocSlab \<Rightarrow> nat set \<Rightarrow> bool" where
  "slabOk s A \<longleftrightarrow> slab_inv s A \<and> 1 < numSlots s"

definition slabs_ok :: "(bucketRef \<Rightarrow> nat list) \<Rightarrow> (nat \<Rightarrow> bucketRef) \<Rightarrow> (nat \<Rightarrow> AllocSlab) \<Rightarrow> (nat \<Rightarrow> nat set) \<Rightarrow> bool" where
  "slabs_ok bk ix sl A \<longleftrightarrow> (\<forall>b. distinct (bk b)) \<and> (\<forall>b. \<forall>a\<in>set (bk b). ix a = b \<and> slabOk (sl a) (A a) \<and> bucketFits b (sl a))"

definition nonFullRefs :: "bucketRef list" where
  "nonFullRefs = FreeBucket # map PartialBucket [0..<6]"

definition nonFull :: "(bucketRef \<Rightarrow> nat list) \<Rightarrow> nat" where
  "nonFull bk = (\<Sum>b\<leftarrow>nonFullRefs. length (bk b))"

definition top_ok :: "bucketRef option \<Rightarrow> nat \<Rightarrow> (bucketRef \<Rightarrow> nat list) \<Rightarrow> bool" where
  "top_ok tb n bk = (case tb of None \<Rightarrow> n = 0 | Some b \<Rightarrow> b \<noteq> FullBucket \<and> (if n = 0 then b = FreeBucket else bk b \<noteq> []))"

definition allSlabs :: "slabAllocator \<Rightarrow> nat set" where
  "allSlabs m = {a. \<exists>b. a \<in> set (buckets m b)}"

definition bucket_inv :: "slabAllocator \<Rightarrow> (nat \<Rightarrow> nat set) \<Rightarrow> bool" where
  "bucket_inv m A \<longleftrightarrow> slabs_ok (buckets m) (bucketIndex m) (slabAt m) A \<and> numFreeSlabs m = length (buckets m FreeBucket) \<and>
     numNonFullSlabs m = nonFull (buckets m) \<and> top_ok (topOccupiedBucket m) (numNonFullSlabs m) (buckets m) \<and>
     sorted (slabTree m) \<and> distinct (slabTree m) \<and> allSlabs m \<subseteq> set (slabTree m)"

lemma bucket_inv_stats [simp]:
  "bucket_inv (m\<lparr>currentlyAllocatedSize := x\<rparr>) A = bucket_inv m A" "bucket_inv (m\<lparr>netAllocatedSize := x\<rparr>) A = bucket_inv m A" "bucket_inv (m\<lparr>netFreedSize := x\<rparr>) A = bucket_inv m A"
  "allSlabs (m\<lparr>currentlyAllocatedSize := x\<rparr>) = allSlabs m" "allSlabs (m\<lparr>netAllocatedSize := x\<rparr>) = allSlabs m" "allSlabs (m\<lparr>netFreedSize := x\<rparr>) = allSlabs m"
  by (simp_all add: bucket_inv_def allSlabs_def)

lemma mem_nonFullRefs: "b \<in> set nonFullRefs \<longleftrightarrow> (case b of FullBucket \<Rightarrow> False | FreeBucket \<Rightarrow> True | PartialBucket i \<Rightarrow> i < 6)"
  by (auto simp: nonFullRefs_def split: bucketRef.splits)

lemma distinct_nonFullRefs: "distinct nonFullRefs"
  by (auto simp: nonFullRefs_def distinct_map inj_on_def)

lemma sum_list_upd: "distinct xs \<Longrightarrow> b \<in> set xs \<Longrightarrow> (\<Sum>x\<leftarrow>xs. f ((g(b := v)) x)) + f (g b) = (\<Sum>x\<leftarrow>xs. (f (g x) :: nat)) + f v"
proof (induction xs)
  case (Cons x xs)
  show ?case
  proof (cases "x = b")
    case True
    then have "(\<Sum>x\<leftarrow>xs. f ((g(b := v)) x)) = (\<Sum>x\<leftarrow>xs. f (g x))" using Cons.prems(1) by (intro arg_cong [where f = sum_list] map_cong) auto
    then show ?thesis using True by simp
  next
    case False
    then show ?thesis using Cons by simp
  qed
qed simp

lemma nonFull_upd: "b \<in> set nonFullRefs \<Longrightarrow> nonFull (bk(b := v)) + length (bk b) = nonFull bk + length v"
  unfolding nonFull_def by (rule sum_list_upd [OF distinct_nonFullRefs])

lemma nonFull_other: "b \<notin> set nonFullRefs \<Longrightarrow> nonFull (bk(b := v)) = nonFull bk"
  unfolding nonFull_def by (rule arg_cong [where f = sum_list]) (auto intro: map_cong)

lemma nonFull_zero: "nonFull bk = 0 \<longleftrightarrow> (\<forall>b\<in>set nonFullRefs. bk b = [])"
  by (auto simp: nonFull_def sum_list_eq_0_iff)

lemma slabs_ok_other: "slabs_ok bk ix sl A \<Longrightarrow> t \<in> set (bk b) \<Longrightarrow> t \<in> set (bk c) \<longleftrightarrow> c = b"
  unfolding slabs_ok_def by metis

lemma slabs_ok_move:
  assumes "slabs_ok bk ix sl A" "t \<in> set (bk b)" "b \<noteq> c" "slabOk s B" "bucketFits c s"
  shows "slabs_ok (bk(b := remove1 t (bk b), c := t # bk c)) (ix(t := c)) (sl(t := s)) (A(t := B))"
proof -
  have "t \<notin> set (bk d)" if "d \<noteq> b" for d using slabs_ok_other [OF assms(1,2)] that by simp
  then show ?thesis using assms unfolding slabs_ok_def by (auto simp: set_remove1_eq)
qed

lemma slabs_ok_stay:
  assumes "slabs_ok bk ix sl A" "t \<in> set (bk b)" "slabOk s B" "bucketFits b s"
  shows "slabs_ok bk ix (sl(t := s)) (A(t := B))"
proof -
  have "ix a = c \<and> slabOk ((sl(t := s)) a) ((A(t := B)) a) \<and> bucketFits c ((sl(t := s)) a)" if "a \<in> set (bk c)" for a c
    using slabs_ok_other [OF assms(1,2), of c] assms that by (cases "a = t") (auto simp: slabs_ok_def)
  then show ?thesis using assms(1) by (simp only: slabs_ok_def) blast
qed

lemma slabs_ok_add:
  assumes "slabs_ok bk ix sl A" "\<forall>c. t \<notin> set (bk c)" "slabOk s B" "bucketFits b s"
  shows "slabs_ok (bk(b := t # bk b)) (ix(t := b)) (sl(t := s)) (A(t := B))"
  using assms unfolding slabs_ok_def by auto

lemma slabs_ok_drop: "slabs_ok bk ix sl A \<Longrightarrow> bk b = t # r \<Longrightarrow> slabs_ok (bk(b := r)) ix sl A"
  unfolding slabs_ok_def by auto (metis distinct.simps(2) list.set_intros(2))+

lemma move_sets: "t \<in> set (bk b) \<Longrightarrow> b \<noteq> c \<Longrightarrow> distinct (bk b) \<Longrightarrow> {a. \<exists>d. a \<in> set ((bk(b := remove1 t (bk b), c := t # bk c)) d)} = {a. \<exists>d. a \<in> set (bk d)}"
proof (intro set_eqI iffI; unfold mem_Collect_eq; elim exE)
  assume t: "t \<in> set (bk b)" "b \<noteq> c" "distinct (bk b)"
  fix a d
  { assume "a \<in> set ((bk(b := remove1 t (bk b), c := t # bk c)) d)"
    then show "\<exists>d. a \<in> set (bk d)" using t by (auto simp: set_remove1_eq split: if_splits) }
  { assume "a \<in> set (bk d)"
    then show "\<exists>d. a \<in> set ((bk(b := remove1 t (bk b), c := t # bk c)) d)" using t by (intro exI [of _ "if a = t then c else d"]) (auto simp: set_remove1_eq) }
qed

lemma all_slabs_add: "{x. \<exists>d. x \<in> set ((bk(b := a # bk b)) d)} = insert a {x. \<exists>d. x \<in> set (bk d)}"
proof (intro set_eqI iffI)
  fix x assume "x \<in> {x. \<exists>d. x \<in> set ((bk(b := a # bk b)) d)}"
  then show "x \<in> insert a {x. \<exists>d. x \<in> set (bk d)}" by (auto split: if_splits)
next
  fix x assume "x \<in> insert a {x. \<exists>d. x \<in> set (bk d)}"
  then obtain d where "x = a \<and> d = b \<or> x \<in> set (bk d)" by auto
  then show "x \<in> {x. \<exists>d. x \<in> set ((bk(b := a # bk b)) d)}" by (intro CollectI exI [of _ d]) auto
qed

section \<open>The top bucket\<close>

lemma topPartialBucket_ok:
  "case topPartialBucket lo hi bk of None \<Rightarrow> \<forall>i. lo \<le> i \<and> i < hi \<longrightarrow> bk (PartialBucket i) = [] | Some b \<Rightarrow> \<exists>i. b = PartialBucket i \<and> lo \<le> i \<and> i < hi \<and> bk b \<noteq> []"
proof (cases "List.find (\<lambda>i. bk (PartialBucket i) \<noteq> []) (rev [lo..<hi])")
  case None
  then have "\<forall>i. lo \<le> i \<and> i < hi \<longrightarrow> bk (PartialBucket i) = []" by (auto simp: find_None_iff)
  then show ?thesis unfolding topPartialBucket_def None by simp
next
  case (Some i)
  then have "i \<in> set (rev [lo..<hi])" "bk (PartialBucket i) \<noteq> []" unfolding find_Some_iff in_set_conv_nth by blast+
  then show ?thesis using Some by (auto simp: topPartialBucket_def)
qed

lemma topAfterFull_ok: "numNonFullSlabs m = nonFull (buckets m) \<Longrightarrow> top_ok (topAfterFull m) (numNonFullSlabs m) (buckets m)"
proof -
  assume n: "numNonFullSlabs m = nonFull (buckets m)"
  have T: "case topPartialBucket 0 6 (buckets m) of None \<Rightarrow> \<forall>i. 0 \<le> i \<and> i < 6 \<longrightarrow> buckets m (PartialBucket i) = []
     | Some b \<Rightarrow> \<exists>i. b = PartialBucket i \<and> 0 \<le> i \<and> i < 6 \<and> buckets m b \<noteq> []" by (rule topPartialBucket_ok)
  show ?thesis
  proof (cases "numNonFullSlabs m = 0")
    case True
    then show ?thesis by (simp add: topAfterFull_def top_ok_def)
  next
    case False
    then obtain b where b: "b \<in> set nonFullRefs" "buckets m b \<noteq> []" using n nonFull_zero [of "buckets m"] by auto
    show ?thesis
    proof (cases "topPartialBucket 0 6 (buckets m)")
      case None
      then have "buckets m FreeBucket \<noteq> []" using T b by (cases b) (auto simp: mem_nonFullRefs)
      then show ?thesis using None False by (simp add: topAfterFull_def top_ok_def)
    next
      case (Some c)
      then show ?thesis using T False by (auto simp: topAfterFull_def top_ok_def)
    qed
  qed
qed

lemma nonFull_move:
  assumes "t \<in> set (bk b)" "b \<noteq> c"
  shows "nonFull (bk(b := remove1 t (bk b), c := t # bk c)) + (if b \<in> set nonFullRefs then 1 else 0) = nonFull bk + (if c \<in> set nonFullRefs then 1 else 0)"
proof -
  have len: "length (remove1 t (bk b)) + 1 = length (bk b)" using assms(1) length_pos_if_in_set [OF assms(1)] by (simp add: length_remove1)
  have 1: "nonFull (bk(b := remove1 t (bk b))) + (if b \<in> set nonFullRefs then 1 else 0) = nonFull bk"
    using nonFull_upd [of b bk "remove1 t (bk b)"] nonFull_other [of b bk] len by auto
  have 2: "nonFull (bk(b := remove1 t (bk b), c := t # bk c)) = nonFull (bk(b := remove1 t (bk b))) + (if c \<in> set nonFullRefs then 1 else 0)"
    using nonFull_upd [of c "bk(b := remove1 t (bk b))" "t # bk c"] nonFull_other [of c "bk(b := remove1 t (bk b))"] assms(2) by auto
  show ?thesis using 1 2 by simp
qed

lemma nonFull_pos: "b \<in> set nonFullRefs \<Longrightarrow> bk b \<noteq> [] \<Longrightarrow> 0 < nonFull bk"
  using nonFull_zero [of bk] by auto

lemma bucket_member:
  assumes "bucket_inv m A" "t \<in> set (buckets m b)"
  shows "bucketIndex m t = b" "slab_inv (slabAt m t) (A t)" "1 < numSlots (slabAt m t)" "bucketFits b (slabAt m t)" "b \<noteq> FullBucket \<Longrightarrow> b \<in> set nonFullRefs"
  using assms by (auto simp: bucket_inv_def slabs_ok_def slabOk_def mem_nonFullRefs bucketFits_def split: bucketRef.splits)

lemma free_slab_unused:
  assumes "bucket_inv m A" "a \<in> set (buckets m FreeBucket)"
  shows "A a = {}"
proof -
  note M = bucket_member [OF assms]
  show ?thesis using M(4) slab_inv_facts [OF M(2)] by (simp add: bucketFits_def card_gt_0_iff) (metis card_0_eq diff_is_0_eq' diff_diff_cancel le_refl)
qed

text \<open>A slab changes and moves to another bucket; the fields in question of the new state are given.\<close>

lemma bucket_inv_move:
  assumes "bucket_inv m A" "t \<in> set (buckets m b)" "b \<noteq> c" "slabOk s B" "bucketFits c s"
    "buckets m' = (buckets m)(b := remove1 t (buckets m b), c := t # buckets m c)" "bucketIndex m' = (bucketIndex m)(t := c)" "slabAt m' = (slabAt m)(t := s)"
    "slabTree m' = slabTree m" "numFreeSlabs m' = length (buckets m' FreeBucket)"
    "numNonFullSlabs m' + (if b = FullBucket then 0 else 1) = numNonFullSlabs m + (if c = FullBucket then 0 else 1)"
    "top_ok (topOccupiedBucket m') (numNonFullSlabs m') (buckets m')"
  shows "bucket_inv m' (A(t := B))" "allSlabs m' = allSlabs m"
proof -
  have ok: "slabs_ok (buckets m) (bucketIndex m) (slabAt m) A" "numNonFullSlabs m = nonFull (buckets m)" using assms(1) by (auto simp: bucket_inv_def)
  have refs: "b \<noteq> FullBucket \<longleftrightarrow> b \<in> set nonFullRefs" "c \<noteq> FullBucket \<longleftrightarrow> c \<in> set nonFullRefs"
    using bucket_member(5) [OF assms(1,2)] assms(5) by (auto simp: mem_nonFullRefs bucketFits_def split: bucketRef.splits)
  have "numNonFullSlabs m' = nonFull (buckets m')" using nonFull_move [of t "buckets m" b c] assms(2,3,6,11) ok(2) refs by (auto split: if_splits)
  moreover have "distinct (buckets m b)" using ok(1) by (simp add: slabs_ok_def)
  then show all: "allSlabs m' = allSlabs m" unfolding allSlabs_def assms(6) by (rule move_sets [of t "buckets m" b c, OF assms(2,3)])
  ultimately show "bucket_inv m' (A(t := B))"
    using slabs_ok_move [OF ok(1) assms(2-5)] assms(1,6-10,12) unfolding bucket_inv_def by simp
qed

section \<open>Allocation\<close>

lemma rebucketAlloc_ok:
  assumes "bucket_inv m A" "topOccupiedBucket m = Some b" "buckets m b = t # r" "slab_inv s (insert i (A t))" "i \<notin> A t" "numSlots s = numSlots (slabAt m t)"
  defines "m1 \<equiv> rebucketAlloc t b (m\<lparr>slabAt := (slabAt m)(t := s)\<rparr>)"
  shows "bucket_inv m1 (A(t := insert i (A t)))" "allSlabs m1 = allSlabs m" "slabAt m1 = (slabAt m)(t := s)"
    "allocSlotSize m1 = allocSlotSize m" "desiredSlabSize m1 = desiredSlabSize m"
proof -
  have t: "t \<in> set (buckets m b)" using assms(3) by simp
  note M = bucket_member [OF assms(1) t]
  have nf: "numFreeSlabs m = length (buckets m FreeBucket)" "numNonFullSlabs m = nonFull (buckets m)" "b \<noteq> FullBucket"
    using assms(1,2) by (auto simp: bucket_inv_def top_ok_def)
  have pos: "0 < numNonFullSlabs m" using nf(2) nonFull_pos [OF M(5) [OF nf(3)], of "buckets m"] assms(3) by simp
  note F = slab_inv_facts [OF M(2)] and F' = slab_inv_facts [OF assms(4)]
  have fc: "freeCount s + 1 = freeCount (slabAt m t)" using F(2-4) F'(3,4) assms(5,6) by simp
  have ok: "slabOk s (insert i (A t))" using assms(4,6) M(3) by (simp add: slabOk_def)
  let ?c = "getBucketIndexForOccupancyInAlloc (getOccupancyPercent s)"
  have fitP: "bucketFits (PartialBucket ?c) s" if "freeCount s \<noteq> 0"
    using that fc F(4) assms(6) bucket_index_bounds [of "getOccupancyPercent s"] by (auto simp: bucketFits_def)
  have rm: "remove1 t (buckets m b) = r" using assms(3) by simp
  consider (full) "freeCount s = 0" | (move) "freeCount s \<noteq> 0" "b = FreeBucket \<or> b \<noteq> PartialBucket ?c" | (stay) "freeCount s \<noteq> 0" "b = PartialBucket ?c" by blast
  then have "bucket_inv m1 (A(t := insert i (A t))) \<and> allSlabs m1 = allSlabs m \<and> slabAt m1 = (slabAt m)(t := s) \<and>
    allocSlotSize m1 = allocSlotSize m \<and> desiredSlabSize m1 = desiredSlabSize m"
  proof cases
    case full
    then have fit: "bucketFits FullBucket s" using M(3) assms(6) full_occupancy [of s] by (simp add: bucketFits_def)
    have b: "b \<noteq> FreeBucket" using full fc M(3,4) by (auto simp: bucketFits_def)
    define m2 where "m2 = m\<lparr>slabAt := (slabAt m)(t := s), buckets := (buckets m)(b := remove1 t (buckets m b), FullBucket := t # buckets m FullBucket),
      bucketIndex := (bucketIndex m)(t := FullBucket), numNonFullSlabs := numNonFullSlabs m - 1\<rparr>"
    have e: "m1 = m2\<lparr>topOccupiedBucket := topAfterFull m2\<rparr>"
      using full pos nf(3) by (simp add: m1_def rebucketAlloc_def as_isFull_def Let_def m2_def insertSlabAtBucketHead_def removeSlabFromBucket_def)
    have "nonFull (buckets m2) + 1 = nonFull (buckets m)" using nonFull_move [of t "buckets m" b FullBucket] t nf(3) M(5) by (simp add: m2_def mem_nonFullRefs)
    then have "top_ok (topAfterFull m2) (numNonFullSlabs m2) (buckets m2)" by (intro topAfterFull_ok) (use nf(2) in \<open>simp add: m2_def\<close>)
    then show ?thesis using bucket_inv_move [OF assms(1) t nf(3) ok fit, of m1] b nf pos unfolding e by (simp add: m2_def)
  next
    case move
    have ne: "b \<noteq> PartialBucket ?c" using move by auto
    have e: "m1 = m\<lparr>slabAt := (slabAt m)(t := s), buckets := (buckets m)(b := remove1 t (buckets m b), PartialBucket ?c := t # buckets m (PartialBucket ?c)),
      bucketIndex := (bucketIndex m)(t := PartialBucket ?c), numFreeSlabs := (if b = FreeBucket then sub_size (numFreeSlabs m) 1 else numFreeSlabs m),
      topOccupiedBucket := Some (PartialBucket ?c)\<rparr>"
      using move ne M(1) by (simp add: m1_def rebucketAlloc_def as_isFull_def Let_def insertSlabAtBucketHead_def removeSlabFromBucket_def)
    have "numFreeSlabs m1 = length (buckets m1 FreeBucket)" using nf(1) assms(3) unfolding e by auto
    moreover have "top_ok (topOccupiedBucket m1) (numNonFullSlabs m1) (buckets m1)" using pos unfolding e by (simp add: top_ok_def)
    ultimately show ?thesis using bucket_inv_move [OF assms(1) t ne ok fitP [OF move(1)], of m1] nf(3) unfolding e by simp
  next
    case stay
    have e: "m1 = m\<lparr>slabAt := (slabAt m)(t := s)\<rparr>" using stay M(1) by (simp add: m1_def rebucketAlloc_def as_isFull_def Let_def)
    have "bucketFits b s" using fitP stay by simp
    then show ?thesis using slabs_ok_stay [of "buckets m" "bucketIndex m" "slabAt m" A t b s "insert i (A t)"] assms(1) t ok unfolding e
      by (auto simp: bucket_inv_def allSlabs_def)
  qed
  then show "bucket_inv m1 (A(t := insert i (A t)))" "allSlabs m1 = allSlabs m" "slabAt m1 = (slabAt m)(t := s)"
    "allocSlotSize m1 = allocSlotSize m" "desiredSlabSize m1 = desiredSlabSize m" by blast+
qed

text \<open>
  The interface to the backing allocator (class \<open>Allocator\<close>): a block it grants was not live before and is live afterwards, and a live block
  can be given back. The sizes are those of slabs.
\<close>

locale backing_allocator =
  fixes balloc :: "nat \<Rightarrow> 'h \<Rightarrow> (nat option \<times> 'h) outcome" and bfree :: "nat \<Rightarrow> 'h \<Rightarrow> bool \<times> 'h" and binv :: "'h \<Rightarrow> bool" and blive :: "'h \<Rightarrow> (nat \<times> nat) set"
  assumes balloc_ok: "binv h \<Longrightarrow> 16 < n \<Longrightarrow> n \<le> 8192 \<Longrightarrow> balloc n h = Inr (Some a, h') \<Longrightarrow>
      binv h' \<and> blive h' = insert (a, n) (blive h) \<and> a \<notin> fst ` blive h \<and> a + n \<le> 2 ^ 64"
    and bfree_ok: "binv h \<Longrightarrow> (a, n) \<in> blive h \<Longrightarrow> binv (snd (bfree a h)) \<and> blive (snd (bfree a h)) = blive h - {(a, n)}"
    and blive_apart: "binv h \<Longrightarrow> (a, n) \<in> blive h \<Longrightarrow> (b, k) \<in> blive h \<Longrightarrow> (a, n) \<noteq> (b, k) \<Longrightarrow> a + n \<le> b \<or> b + k \<le> a"

definition slabSizes_ok :: "nat \<Rightarrow> nat \<Rightarrow> nat \<Rightarrow> bool" where
  "slabSizes_ok H z n \<longleftrightarrow> 8 \<le> z \<and> 16 < n \<and> n \<le> 8192 \<and> H \<le> n \<and> bitmapBytes z (n - H) + max z 64 + 2 * z \<le> n - H \<and>
     n - H \<noteq> bitmapBytes z (n - H) * (8 * z + 1) + z"

text \<open>The slabs of the allocator are live blocks of the backing allocator, as are all the slabs in the tree.\<close>

definition slabs_backed :: "(nat \<times> nat) set \<Rightarrow> slabAllocator \<Rightarrow> bool" where
  "slabs_backed L m \<longleftrightarrow> set (slabTree m) \<subseteq> fst ` L \<and> (\<forall>a\<in>allSlabs m. (a, desiredSlabSize m) \<in> L)"

text \<open>Where the slots of a slab are: behind the header of the slab, inside its block.\<close>

definition slabGeom :: "AllocSlab \<Rightarrow> nat \<times> nat \<times> nat" where
  "slabGeom s = (backingStorage s, backingSize s, slotSize s)"

definition slabPlaced :: "nat \<Rightarrow> nat \<Rightarrow> nat \<Rightarrow> nat \<Rightarrow> AllocSlab \<Rightarrow> bool" where
  "slabPlaced H n z a s \<longleftrightarrow> a + H \<le> backingStorage s \<and> backingStorage s + backingSize s \<le> a + n \<and> slotSize s = z"

definition slabs_placed :: "nat \<Rightarrow> slabAllocator \<Rightarrow> bool" where
  "slabs_placed H m \<longleftrightarrow> (\<forall>a\<in>allSlabs m. slabPlaced H (desiredSlabSize m) (allocSlotSize m) a (slabAt m a))"

lemma slabGeom_addr: "slabGeom s = slabGeom s' \<Longrightarrow> slotAddr s = slotAddr s'"
  by (rule slotAddr_cong) (simp_all add: slabGeom_def)

lemma slabGeom_placed: "slabGeom s = slabGeom s' \<Longrightarrow> slabPlaced H n z a s = slabPlaced H n z a s'"
  by (simp add: slabGeom_def slabPlaced_def)

lemma as_alloc_geom: "as_alloc s = Inr (p, s') \<Longrightarrow> slabGeom s' = slabGeom s"
  by (auto simp: as_alloc_def markSlotFreeState_def Let_def slabGeom_def split: option.splits if_splits)

lemma as_free_geom: "as_free p s = Inr s' \<Longrightarrow> slabGeom s' = slabGeom s"
  by (auto simp: as_free_def as_isSlotFree_def markSlotFreeState_def Let_def slabGeom_def split: option.splits if_splits)

lemma newSlab_placed:
  assumes "newSlab z (a + H) (n - H) = Inr s" "a + H \<le> backingStorage s" "backingStorage s \<le> a + n" "H \<le> n"
  shows "slabPlaced H n z a s"
proof -
  have "backingSize s = sub_size (a + H + (n - H)) (backingStorage s)" "slotSize s = z" using assms(1) by (auto simp: newSlab_def Let_def split: if_splits)
  then show ?thesis using assms(2-4) by (simp add: slabPlaced_def)
qed

context backing_allocator
begin

lemma addNewSlab_ok:
  assumes "bucket_inv m A" "binv h" "slabs_backed (blive h) m" "slabSizes_ok H (allocSlotSize m) (desiredSlabSize m)" "numNonFullSlabs m = 0"
    "balloc (desiredSlabSize m) h = Inr (Some a, h')"
  obtains m' where "addNewSlab balloc H (desiredSlabSize m) (m, h) = Inr (True, m', h')" "bucket_inv m' (A(a := {}))" "binv h'" "slabs_backed (blive h') m'"
    "blive h' = insert (a, desiredSlabSize m) (blive h)" "a \<notin> fst ` blive h" "a \<notin> allSlabs m"
    "allSlabs m' = insert a (allSlabs m)" "numNonFullSlabs m' \<noteq> 0" "allocSlotSize m' = allocSlotSize m" "desiredSlabSize m' = desiredSlabSize m"
    "\<And>c. c \<noteq> a \<Longrightarrow> slabAt m' c = slabAt m c" "slabPlaced H (desiredSlabSize m) (allocSlotSize m) a (slabAt m' a)"
proof -
  let ?n = "desiredSlabSize m" and ?z = "allocSlotSize m"
  have sz: "8 \<le> ?z" "16 < ?n" "?n \<le> 8192" "H \<le> ?n" "bitmapBytes ?z (?n - H) + max ?z 64 + 2 * ?z \<le> ?n - H" "?n - H \<noteq> bitmapBytes ?z (?n - H) * (8 * ?z + 1) + ?z"
    using assms(4) by (auto simp: slabSizes_ok_def)
  have B: "binv h'" "blive h' = insert (a, ?n) (blive h)" "a \<notin> fst ` blive h" "a + ?n \<le> 2 ^ 64" using balloc_ok [OF assms(2) sz(2,3) assms(6)] by auto
  have "a + H + (?n - H) \<le> 2 ^ 64" using B(4) sz(4) by simp
  then obtain s where s: "newSlab ?z (a + H) (?n - H) = Inr s" "slab_inv s {}" "1 < numSlots s"
    "a + H + bitmapBytes ?z (?n - H) \<le> backingStorage s" "backingStorage s + numSlots s * ?z \<le> a + H + (?n - H)" by (rule newSlab_ok [OF sz(1) _ sz(5,6)]) blast
  have plc: "slabPlaced H ?n ?z a s" by (rule newSlab_placed [OF s(1)]) (use s(4,5) sz(4) in simp_all)
  have new: "a \<notin> set (slabTree m)" "a \<notin> allSlabs m" using assms(1,3) B(3) by (auto simp: slabs_backed_def bucket_inv_def)
  define m' where "m' = m\<lparr>slabTree := insort a (slabTree m), slabAt := (slabAt m)(a := s), buckets := (buckets m)(FreeBucket := a # buckets m FreeBucket),
     bucketIndex := (bucketIndex m)(a := FreeBucket), numNonFullSlabs := numNonFullSlabs m + 1, numFreeSlabs := numFreeSlabs m + 1,
     topOccupiedBucket := (if topOccupiedBucket m = None then Some FreeBucket else topOccupiedBucket m),
     totalBackingSize := add_size (totalBackingSize m) ?n, numSlabs := numSlabs m + 1\<rparr>"
  have run: "addNewSlab balloc H ?n (m, h) = Inr (True, m', h')"
    using s(1) sz(4) unfolding addNewSlab_def m'_def by (simp add: assms(6) initializeSlab_def Let_def)
  have fit: "bucketFits FreeBucket s" using slab_inv_facts [OF s(2)] by (simp add: bucketFits_def)
  have ok: "slabs_ok (buckets m') (bucketIndex m') (slabAt m') (A(a := {}))"
    using slabs_ok_add [of "buckets m" "bucketIndex m" "slabAt m" A a s "{}" FreeBucket] assms(1) s(2,3) fit new(2)
    by (auto simp: m'_def bucket_inv_def slabOk_def allSlabs_def)
  have all: "allSlabs m' = insert a (allSlabs m)" using all_slabs_add [of "buckets m" FreeBucket a] by (simp add: allSlabs_def m'_def)
  have top: "topOccupiedBucket m' = Some FreeBucket" using assms(1,5) by (auto simp: m'_def bucket_inv_def top_ok_def split: option.splits)
  have nf: "nonFull (buckets m') = nonFull (buckets m) + 1" using nonFull_upd [of FreeBucket "buckets m" "a # buckets m FreeBucket"] by (simp add: m'_def mem_nonFullRefs)
  have inv: "bucket_inv m' (A(a := {}))"
    using assms(1,5) ok top nf new(1) unfolding bucket_inv_def all
    by (simp add: m'_def top_ok_def sorted_insort distinct_insort set_insort_key) blast
  have bkd: "slabs_backed (blive h') m'" using assms(3) all B(2) by (auto simp: slabs_backed_def m'_def set_insort_key)
  show thesis by (rule that [OF run inv B(1) bkd B(2,3) new(2) all]) (use plc in \<open>simp_all add: m'_def\<close>)
qed

text \<open>The slot that is handed out was not in use, in whichever slab it is.\<close>

lemma slabAlloc_in:
  assumes "bucket_inv m A" "numNonFullSlabs m \<noteq> 0"
  obtains t i m' where "bindO (Inr (m, h)) (\<lambda>(m, h). case topOccupiedBucket m of None \<Rightarrow> Inl (Undefined ''null pointer'') | Some b \<Rightarrow>
       (case buckets m b of [] \<Rightarrow> Inl (Undefined ''null pointer'') | t # _ \<Rightarrow> bindO (as_alloc (slabAt m t)) (\<lambda>(p, s).
          let m1 = rebucketAlloc t b (m\<lparr>slabAt := (slabAt m)(t := s)\<rparr>)
          in Inr (p, m1\<lparr>currentlyAllocatedSize := add_size (currentlyAllocatedSize m1) (allocSlotSize m1), netAllocatedSize := add_size (netAllocatedSize m1) (allocSlotSize m1)\<rparr>, h))))
      = Inr (slotAddr (slabAt m t) i, m', h)"
    "t \<in> allSlabs m" "i < numSlots (slabAt m t)" "i \<notin> A t" "bucket_inv m' (A(t := insert i (A t)))" "allSlabs m' = allSlabs m" "slabTree m' = slabTree m"
    "\<And>c. slabGeom (slabAt m' c) = slabGeom (slabAt m c)" "allocSlotSize m' = allocSlotSize m" "desiredSlabSize m' = desiredSlabSize m"
proof -
  obtain b where b: "topOccupiedBucket m = Some b" "b \<noteq> FullBucket" "buckets m b \<noteq> []"
    using assms by (auto simp: bucket_inv_def top_ok_def split: option.splits)
  then obtain t r where t: "buckets m b = t # r" by (cases "buckets m b") auto
  then have tm: "t \<in> set (buckets m b)" by simp
  note M = bucket_member [OF assms(1) tm]
  have "0 < freeCount (slabAt m t)" using M(3,4) b(2) by (auto simp: bucketFits_def split: bucketRef.splits)
  then have "card (A t) < numSlots (slabAt m t)" using slab_inv_facts [OF M(2)] by simp
  then obtain i s where A: "as_alloc (slabAt m t) = Inr (slotAddr (slabAt m t) i, s)" "i < numSlots (slabAt m t)" "i \<notin> A t" "slab_inv s (insert i (A t))"
    "slotAddr s = slotAddr (slabAt m t)" "numSlots s = numSlots (slabAt m t)" using as_alloc_inv [OF M(2)] by metis
  note R = rebucketAlloc_ok [OF assms(1) b(1) t A(4,3,6)]
  let ?m = "rebucketAlloc t b (m\<lparr>slabAt := (slabAt m)(t := s)\<rparr>)"
  let ?m' = "?m\<lparr>currentlyAllocatedSize := add_size (currentlyAllocatedSize ?m) (allocSlotSize ?m), netAllocatedSize := add_size (netAllocatedSize ?m) (allocSlotSize ?m)\<rparr>"
  have tree: "slabTree ?m = slabTree m" by (simp add: rebucketAlloc_def Let_def insertSlabAtBucketHead_def removeSlabFromBucket_def)
  have inv: "bucket_inv ?m' (A(t := insert i (A t)))" "allSlabs ?m' = allSlabs m" using R(1,2) by simp_all
  have "t \<in> allSlabs m" using tm by (auto simp: allSlabs_def)
  then show thesis
    by (rule that [of t i ?m', rotated]) (use A as_alloc_geom [OF A(1)] b(1) t inv R(3-5) tree in \<open>auto simp: Let_def\<close>)
qed

lemma slabAlloc_ok:
  assumes "bucket_inv m A" "binv h" "slabs_backed (blive h) m" "slabSizes_ok H (allocSlotSize m) (desiredSlabSize m)"
    "numNonFullSlabs m = 0 \<Longrightarrow> \<exists>a. balloc (desiredSlabSize m) h = Inr (Some a, h')" "numNonFullSlabs m \<noteq> 0 \<Longrightarrow> h' = h"
  shows "\<exists>t i m' A'. slabAlloc balloc H (m, h) = Inr (slotAddr (slabAt m' t) i, m', h') \<and> t \<in> allSlabs m' \<and> i \<notin> A' t \<and>
    bucket_inv m' (A'(t := insert i (A' t))) \<and> binv h' \<and> slabs_backed (blive h') m' \<and>
    allSlabs m \<subseteq> allSlabs m' \<and> (\<forall>c\<in>allSlabs m. A' c = A c \<and> slabGeom (slabAt m' c) = slabGeom (slabAt m c)) \<and> (\<forall>c\<in>allSlabs m' - allSlabs m. A' c = {}) \<and>
    (\<forall>c\<in>allSlabs m' - allSlabs m. slabPlaced H (desiredSlabSize m) (allocSlotSize m) c (slabAt m' c)) \<and>
    allocSlotSize m' = allocSlotSize m \<and> desiredSlabSize m' = desiredSlabSize m"
proof (cases "numNonFullSlabs m = 0")
  case False
  obtain t i m' where R: "slabAlloc balloc H (m, h) = Inr (slotAddr (slabAt m t) i, m', h)" "t \<in> allSlabs m" "i < numSlots (slabAt m t)" "i \<notin> A t"
    "bucket_inv m' (A(t := insert i (A t)))" "allSlabs m' = allSlabs m" "slabTree m' = slabTree m" "\<And>c. slabGeom (slabAt m' c) = slabGeom (slabAt m c)"
    "allocSlotSize m' = allocSlotSize m" "desiredSlabSize m' = desiredSlabSize m"
    by (rule slabAlloc_in [OF assms(1) False, of h]) (simp add: slabAlloc_def False)
  have "slabs_backed (blive h) m'" using assms(3) R(6,7,10) by (simp add: slabs_backed_def)
  then show ?thesis using R slabGeom_addr [OF R(8)] assms(2,6) False by (intro exI [of _ t] exI [of _ i] exI [of _ m'] exI [of _ A]) auto
next
  case True
  obtain a where a: "balloc (desiredSlabSize m) h = Inr (Some a, h')" using assms(5) True by blast
  obtain m1 where N: "addNewSlab balloc H (desiredSlabSize m) (m, h) = Inr (True, m1, h')" "bucket_inv m1 (A(a := {}))" "binv h'" "slabs_backed (blive h') m1"
    "blive h' = insert (a, desiredSlabSize m) (blive h)" "a \<notin> fst ` blive h" "a \<notin> allSlabs m" "allSlabs m1 = insert a (allSlabs m)" "numNonFullSlabs m1 \<noteq> 0"
    "allocSlotSize m1 = allocSlotSize m" "desiredSlabSize m1 = desiredSlabSize m" "\<And>c. c \<noteq> a \<Longrightarrow> slabAt m1 c = slabAt m c"
    "slabPlaced H (desiredSlabSize m) (allocSlotSize m) a (slabAt m1 a)"
    by (rule addNewSlab_ok [OF assms(1-4) True a]) blast
  obtain t i m' where R: "slabAlloc balloc H (m, h) = Inr (slotAddr (slabAt m1 t) i, m', h')" "t \<in> allSlabs m1" "i < numSlots (slabAt m1 t)" "i \<notin> (A(a := {})) t"
    "bucket_inv m' ((A(a := {}))(t := insert i ((A(a := {})) t)))" "allSlabs m' = allSlabs m1" "slabTree m' = slabTree m1"
    "\<And>c. slabGeom (slabAt m' c) = slabGeom (slabAt m1 c)" "allocSlotSize m' = allocSlotSize m1" "desiredSlabSize m' = desiredSlabSize m1"
    by (rule slabAlloc_in [OF N(2,9), of h']) (simp add: slabAlloc_def True N(1))
  have "slabs_backed (blive h') m'" using N(4) R(6,7,10) by (simp add: slabs_backed_def)
  moreover have "\<forall>c\<in>allSlabs m. c \<noteq> a" using N(7) by auto
  moreover have "slabPlaced H (desiredSlabSize m) (allocSlotSize m) a (slabAt m' a)" using N(13) slabGeom_placed [OF R(8)] by simp
  ultimately show ?thesis using R slabGeom_addr [OF R(8)] N by (intro exI [of _ t] exI [of _ i] exI [of _ m'] exI [of _ "A(a := {})"]) auto
qed

end

section \<open>Releasing free slabs\<close>

lemma all_slabs_drop:
  assumes "slabs_ok bk ix sl A" "bk b = a # r"
  shows "{x. \<exists>d. x \<in> set ((bk(b := r)) d)} = {x. \<exists>d. x \<in> set (bk d)} - {a}"
proof (intro set_eqI iffI)
  have a: "a \<in> set (bk b)" "a \<notin> set r" using assms by (auto simp: slabs_ok_def) (metis distinct.simps(2))
  fix x
  { assume "x \<in> {x. \<exists>d. x \<in> set ((bk(b := r)) d)}"
    then obtain d where d: "x \<in> set ((bk(b := r)) d)" by blast
    then have "x \<in> set (bk d)" "x \<noteq> a" using a slabs_ok_other [OF assms(1) a(1), of d] assms(2) by (auto split: if_splits)
    then show "x \<in> {x. \<exists>d. x \<in> set (bk d)} - {a}" by blast }
  { assume "x \<in> {x. \<exists>d. x \<in> set (bk d)} - {a}"
    then obtain d where "x \<in> set (bk d)" "x \<noteq> a" by blast
    then show "x \<in> {x. \<exists>d. x \<in> set ((bk(b := r)) d)}" using assms(2) by (intro CollectI exI [of _ d]) auto }
qed

context backing_allocator
begin

lemma slabs_backed_release:
  assumes "slabs_backed (blive h) m" "binv h" "a \<in> allSlabs m" "distinct (slabTree m)" "slabTree m' = remove1 a (slabTree m)" "allSlabs m' = allSlabs m - {a}"
    "desiredSlabSize m' = desiredSlabSize m"
  shows "binv (snd (bfree a h))" "slabs_backed (blive (snd (bfree a h))) m'"
proof -
  have "(a, desiredSlabSize m) \<in> blive h" using assms(1,3) by (simp add: slabs_backed_def)
  then have F: "binv (snd (bfree a h))" "blive (snd (bfree a h)) = blive h - {(a, desiredSlabSize m)}" using bfree_ok [OF assms(2)] by blast+
  show "binv (snd (bfree a h))" by (rule F(1))
  have "set (slabTree m') \<subseteq> fst ` (blive h - {(a, desiredSlabSize m)})"
    using assms(1,4,5) by (force simp: slabs_backed_def set_remove1_eq)
  then show "slabs_backed (blive (snd (bfree a h))) m'" using assms(1,6,7) by (auto simp: slabs_backed_def F(2))
qed

lemma releaseLoop_ok:
  assumes "bucket_inv m A" "binv h" "slabs_backed (blive h) m"
  shows "\<exists>m' h'. releaseLoop bfree m h = Inr (m', h') \<and> bucket_inv m' A \<and> binv h' \<and> slabs_backed (blive h') m' \<and> allSlabs m' \<subseteq> allSlabs m \<and>
    (\<forall>c\<in>allSlabs m - allSlabs m'. A c = {}) \<and> slabAt m' = slabAt m \<and> allocSlotSize m' = allocSlotSize m \<and> desiredSlabSize m' = desiredSlabSize m \<and>
    min 2 (numFreeSlabs m) \<le> numFreeSlabs m'"
  using assms
proof (induction "numFreeSlabs m" arbitrary: m h rule: less_induct)
  case less
  show ?case
  proof (cases "numFreeSlabs m \<le> 2")
    case True
    then show ?thesis using less.prems by (subst releaseLoop.simps) auto
  next
    case False
    have inv: "slabs_ok (buckets m) (bucketIndex m) (slabAt m) A" "numFreeSlabs m = length (buckets m FreeBucket)" "numNonFullSlabs m = nonFull (buckets m)"
      "top_ok (topOccupiedBucket m) (numNonFullSlabs m) (buckets m)" "sorted (slabTree m)" "distinct (slabTree m)" "allSlabs m \<subseteq> set (slabTree m)"
      using less.prems(1) by (auto simp: bucket_inv_def)
    then have "Suc (Suc (Suc 0)) \<le> length (buckets m FreeBucket)" using False by simp
    then obtain a b c r where f: "buckets m FreeBucket = a # b # c # r" by (auto simp: Suc_le_length_iff)
    define m1 where "m1 = m\<lparr>buckets := (buckets m)(FreeBucket := b # c # r), slabTree := remove1 a (slabTree m), numSlabs := sub_size (numSlabs m) 1,
       totalBackingSize := sub_size (totalBackingSize m) (backingSize (slabAt m a)), numFreeSlabs := sub_size (numFreeSlabs m) 1,
       numNonFullSlabs := sub_size (numNonFullSlabs m) 1\<rparr>"
    have run: "releaseLoop bfree m h = releaseLoop bfree m1 (snd (bfree a h))" using False f by (subst releaseLoop.simps) (simp add: m1_def)
    have am: "a \<in> set (buckets m FreeBucket)" "a \<in> allSlabs m" using f by (auto simp: allSlabs_def intro: exI [of _ FreeBucket])
    note empty = free_slab_unused [OF less.prems(1) am(1)]
    have all: "allSlabs m1 = allSlabs m - {a}" using all_slabs_drop [OF inv(1) f] by (simp add: allSlabs_def m1_def)
    have nf: "nonFull (buckets m1) + 1 = nonFull (buckets m)" "0 < nonFull (buckets m1)"
      using nonFull_upd [of FreeBucket "buckets m" "b # c # r"] nonFull_pos [of FreeBucket "buckets m1"] f by (simp_all add: m1_def mem_nonFullRefs)
    have "top_ok (topOccupiedBucket m1) (numNonFullSlabs m1) (buckets m1)" using inv(3,4) nf by (auto simp: m1_def top_ok_def split: option.splits if_splits)
    then have inv1: "bucket_inv m1 A"
      using slabs_ok_drop [OF inv(1) f] inv nf f all unfolding bucket_inv_def by (auto simp: m1_def sorted_remove1 set_remove1_eq)
    note B = slabs_backed_release [OF less.prems(3,2) am(2) inv(6), of m1, OF _ all]
    have B1: "binv (snd (bfree a h))" "slabs_backed (blive (snd (bfree a h))) m1" by (rule B; simp add: m1_def)+
    have "numFreeSlabs m1 < numFreeSlabs m" "2 \<le> numFreeSlabs m1" using False by (simp_all add: m1_def)
    from less.hyps [OF this(1) inv1 B1] obtain m' h' where I: "releaseLoop bfree m1 (snd (bfree a h)) = Inr (m', h')" "bucket_inv m' A" "binv h'" "slabs_backed (blive h') m'"
      "allSlabs m' \<subseteq> allSlabs m1" "\<forall>c\<in>allSlabs m1 - allSlabs m'. A c = {}" "slabAt m' = slabAt m1" "allocSlotSize m' = allocSlotSize m1"
      "desiredSlabSize m' = desiredSlabSize m1" "min 2 (numFreeSlabs m1) \<le> numFreeSlabs m'" by blast
    have "\<forall>c\<in>allSlabs m - allSlabs m'. A c = {}" using I(6) all empty by blast
    moreover have "slabAt m1 = slabAt m" "allocSlotSize m1 = allocSlotSize m" "desiredSlabSize m1 = desiredSlabSize m" by (simp_all add: m1_def)
    moreover have "min 2 (numFreeSlabs m) \<le> numFreeSlabs m'" using I(10) \<open>2 \<le> numFreeSlabs m1\<close> by simp
    moreover have "allSlabs m' \<subseteq> allSlabs m" using I(5) all by blast
    ultimately show ?thesis unfolding run using I by (intro exI [of _ m'] exI [of _ h']) simp
  qed
qed

end

end
