(* ===== verification/Slab_Free.thy ===== *)
theory Slab_Free
  imports Slab_Buckets_Laws
begin

text \<open>Deallocation in a slab allocator: the slab moves to the bucket of its new occupancy, and free slabs beyond the retained ones go back.\<close>

section \<open>Moving the slab\<close>

lemma freed_slab:
  assumes "bucket_inv m A" "t \<in> set (buckets m b)" "slab_inv s (A t - {i})" "i \<in> A t" "numSlots s = numSlots (slabAt m t)"
  shows "freeCount s = freeCount (slabAt m t) + 1" "freeCount s \<le> numSlots s" "b \<noteq> FreeBucket" "slabOk s (A t - {i})" "0 < freeCount s"
    "b = FullBucket \<Longrightarrow> freeCount s < numSlots s"
    "getBucketIndexForOccupancyInFree (getOccupancyPercent s) \<le> getBucketIndexForOccupancyInFree (getOccupancyPercent (slabAt m t))"
proof -
  note M = bucket_member [OF assms(1,2)] and F' = slab_inv_facts [OF assms(3)]
  note F = slab_inv_facts [OF M(2)]
  have c: "card (A t - {i}) + 1 = card (A t)" using card_Suc_Diff1 [OF F(2) assms(4)] by simp
  show fc: "freeCount s = freeCount (slabAt m t) + 1" "freeCount s \<le> numSlots s" using F(3,4) F'(4) c assms(5) by auto
  then show "0 < freeCount s" by simp
  show "b \<noteq> FreeBucket" using M(4) fc assms(5) by (auto simp: bucketFits_def)
  show "slabOk s (A t - {i})" using assms(3,5) M(3) by (simp add: slabOk_def)
  show "freeCount s < numSlots s" if "b = FullBucket" using high_occupancy [of "slabAt m t"] M(3,4) that fc assms(5) by (simp add: bucketFits_def)
  show "getBucketIndexForOccupancyInFree (getOccupancyPercent s) \<le> getBucketIndexForOccupancyInFree (getOccupancyPercent (slabAt m t))"
    by (rule bucket_index_mono, rule occupancy_antimono) (use fc assms(5) M(3) in auto)
qed

text \<open>A slab that stays in its bucket.\<close>

lemma bucket_inv_stay:
  assumes "bucket_inv m A" "t \<in> set (buckets m b)" "slabOk s B" "bucketFits b s"
  shows "bucket_inv (m\<lparr>slabAt := (slabAt m)(t := s)\<rparr>) (A(t := B))" "allSlabs (m\<lparr>slabAt := (slabAt m)(t := s)\<rparr>) = allSlabs m"
  using slabs_ok_stay [of "buckets m" "bucketIndex m" "slabAt m" A t b s B] assms by (auto simp: bucket_inv_def allSlabs_def)

text \<open>A slab of the full bucket comes back to the top partial bucket once its occupancy is low enough.\<close>

lemma rebucketFree_full:
  assumes "bucket_inv m A" "t \<in> set (buckets m FullBucket)" "slab_inv s (A t - {i})" "i \<in> A t" "numSlots s = numSlots (slabAt m t)"
  shows "\<exists>m'. rebucketFree bfree t (m\<lparr>slabAt := (slabAt m)(t := s)\<rparr>) h = Inr (m', h) \<and> bucket_inv m' (A(t := A t - {i})) \<and> allSlabs m' = allSlabs m \<and>
    slabAt m' = (slabAt m)(t := s) \<and> slabTree m' = slabTree m \<and> allocSlotSize m' = allocSlotSize m \<and> desiredSlabSize m' = desiredSlabSize m"
proof -
  note F = freed_slab [OF assms] and M = bucket_member [OF assms(1,2)]
  let ?m0 = "m\<lparr>slabAt := (slabAt m)(t := s)\<rparr>"
  show ?thesis
  proof (cases "getOccupancyPercent s \<le> 90")
    case True
    define m' where "m' = m\<lparr>slabAt := (slabAt m)(t := s), buckets := (buckets m)(FullBucket := remove1 t (buckets m FullBucket), PartialBucket 5 := t # buckets m (PartialBucket 5)),
      numNonFullSlabs := numNonFullSlabs m + 1, topOccupiedBucket := Some (PartialBucket 5), bucketIndex := (bucketIndex m)(t := PartialBucket 5)\<rparr>"
    have run: "rebucketFree bfree t ?m0 h = Inr (m', h)"
      using True M(1) by (simp add: rebucketFree_def Let_def removeSlabFromBucket_def insertSlabAtBucketHead_def m'_def)
    have fit: "bucketFits (PartialBucket 5) s" using F(5) F(6) [OF refl] bucket_index_bounds(2) [of "getOccupancyPercent s"] by (simp add: bucketFits_def)
    have ne: "FullBucket \<noteq> PartialBucket 5" by simp
    have "numFreeSlabs m = length (buckets m FreeBucket)" using assms(1) by (simp add: bucket_inv_def)
    then have "bucket_inv m' (A(t := A t - {i}))" "allSlabs m' = allSlabs m"
      using bucket_inv_move [OF assms(1,2) ne F(4) fit, of m'] by (simp_all add: m'_def top_ok_def)
    then show ?thesis unfolding run by (simp add: m'_def)
  next
    case False
    then have "rebucketFree bfree t ?m0 h = Inr (?m0, h)" using M(1) by (simp add: rebucketFree_def Let_def)
    moreover have "bucketFits FullBucket s" using False by (simp add: bucketFits_def)
    ultimately show ?thesis using bucket_inv_stay [OF assms(1,2) F(4)] by simp
  qed
qed

lemma top_exists:
  assumes "bucket_inv m A" "t \<in> set (buckets m b)" "b \<noteq> FullBucket"
  obtains c where "topOccupiedBucket m = Some c" "c \<noteq> FullBucket" "buckets m c \<noteq> []" "0 < numNonFullSlabs m"
proof -
  have "b \<in> set nonFullRefs" by (rule bucket_member(5) [OF assms(1,2,3)])
  moreover have "buckets m b \<noteq> []" using assms(2) by auto
  ultimately have "0 < numNonFullSlabs m" using nonFull_pos [of b "buckets m"] assms(1) by (simp add: bucket_inv_def)
  then show thesis using assms(1) that by (auto simp: bucket_inv_def top_ok_def split: option.splits)
qed

text \<open>A slab that stays partly occupied moves down, and the search for the new top bucket ends at the latest where the slab is now.\<close>

lemma rebucketFree_partial:
  assumes "bucket_inv m A" "t \<in> set (buckets m (PartialBucket j))" "slab_inv s (A t - {i})" "i \<in> A t" "numSlots s = numSlots (slabAt m t)" "\<not> as_isEmpty s"
  shows "\<exists>m'. rebucketFree bfree t (m\<lparr>slabAt := (slabAt m)(t := s)\<rparr>) h = Inr (m', h) \<and> bucket_inv m' (A(t := A t - {i})) \<and> allSlabs m' = allSlabs m \<and>
    slabAt m' = (slabAt m)(t := s) \<and> slabTree m' = slabTree m \<and> allocSlotSize m' = allocSlotSize m \<and> desiredSlabSize m' = desiredSlabSize m"
proof -
  note F = freed_slab [OF assms(1-5)] and M = bucket_member [OF assms(1,2)]
  let ?m0 = "m\<lparr>slabAt := (slabAt m)(t := s)\<rparr>" and ?n = "getBucketIndexForOccupancyInFree (getOccupancyPercent s)"
  have le: "?n \<le> j" using F(7) M(4) by (simp add: bucketFits_def)
  have fit: "bucketFits (PartialBucket ?n) s" using F(2,5) assms(6) bucket_index_bounds(2) [of "getOccupancyPercent s"] by (simp add: bucketFits_def as_isEmpty_def)
  show ?thesis
  proof (cases "?n = j")
    case True
    then have "rebucketFree bfree t ?m0 h = Inr (?m0, h)" using M(1) assms(6) by (simp add: rebucketFree_def Let_def)
    then show ?thesis using bucket_inv_stay [OF assms(1,2) F(4)] fit True by simp
  next
    case False
    obtain b where b: "topOccupiedBucket m = Some b" "b \<noteq> FullBucket" "buckets m b \<noteq> []" "0 < numNonFullSlabs m" using top_exists [OF assms(1,2)] by blast
    define m2 where "m2 = m\<lparr>slabAt := (slabAt m)(t := s), buckets := (buckets m)(PartialBucket j := remove1 t (buckets m (PartialBucket j)), PartialBucket ?n := t # buckets m (PartialBucket ?n)),
      bucketIndex := (bucketIndex m)(t := PartialBucket ?n)\<rparr>"
    define tb where "tb = (if buckets m2 b = [] then case topPartialBucket ?n (j + 1) (buckets m2) of None \<Rightarrow> Some b | Some b1 \<Rightarrow> Some b1 else Some b)"
    have run: "rebucketFree bfree t ?m0 h = Inr (m2\<lparr>topOccupiedBucket := tb\<rparr>, h)"
      using M(1) assms(6) False b(1) unfolding rebucketFree_def Let_def removeSlabFromBucket_def insertSlabAtBucketHead_def tb_def m2_def
      by (simp split: option.splits)
    have ne: "PartialBucket j \<noteq> PartialBucket ?n" using False by simp
    have "buckets m2 (PartialBucket ?n) \<noteq> []" by (simp add: m2_def)
    then have "\<exists>c. tb = Some c \<and> c \<noteq> FullBucket \<and> buckets m2 c \<noteq> []"
      using topPartialBucket_ok [of ?n "j + 1" "buckets m2"] le b(2) unfolding tb_def by (auto split: option.splits)
    then have top: "top_ok tb (numNonFullSlabs m) (buckets m2)" using b(4) by (auto simp: top_ok_def)
    have "numFreeSlabs m = length (buckets m FreeBucket)" using assms(1) by (simp add: bucket_inv_def)
    then have "bucket_inv (m2\<lparr>topOccupiedBucket := tb\<rparr>) (A(t := A t - {i}))" "allSlabs (m2\<lparr>topOccupiedBucket := tb\<rparr>) = allSlabs m"
      using bucket_inv_move [OF assms(1,2) ne F(4) fit, of "m2\<lparr>topOccupiedBucket := tb\<rparr>"] top by (simp_all add: m2_def)
    then show ?thesis unfolding run by (simp add: m2_def)
  qed
qed

context backing_allocator
begin

lemma releaseFreeSlabs_ok:
  assumes "bucket_inv m A" "binv h" "slabs_backed (blive h) m" "buckets m FreeBucket \<noteq> []"
  shows "\<exists>m' h'. releaseFreeSlabsIfNecessary bfree m h = Inr (m', h') \<and> bucket_inv m' A \<and> binv h' \<and> slabs_backed (blive h') m' \<and> allSlabs m' \<subseteq> allSlabs m \<and>
    (\<forall>c\<in>allSlabs m - allSlabs m'. A c = {}) \<and> slabAt m' = slabAt m \<and> allocSlotSize m' = allocSlotSize m \<and> desiredSlabSize m' = desiredSlabSize m"
proof (cases "4 < numFreeSlabs m")
  case True
  obtain m' h' where R: "releaseLoop bfree m h = Inr (m', h')" "bucket_inv m' A" "binv h'" "slabs_backed (blive h') m'" "allSlabs m' \<subseteq> allSlabs m"
    "\<forall>c\<in>allSlabs m - allSlabs m'. A c = {}" "slabAt m' = slabAt m" "allocSlotSize m' = allocSlotSize m" "desiredSlabSize m' = desiredSlabSize m"
    "min 2 (numFreeSlabs m) \<le> numFreeSlabs m'" using releaseLoop_ok [OF assms(1-3)] by blast
  have "buckets m' FreeBucket \<noteq> []" using R(2,10) True by (auto simp: bucket_inv_def)
  then show ?thesis using R True by (simp add: releaseFreeSlabsIfNecessary_def)
next
  case False
  then show ?thesis using assms by (simp add: releaseFreeSlabsIfNecessary_def)
qed

lemma rebucketFree_empty:
  assumes "bucket_inv m A" "t \<in> set (buckets m (PartialBucket j))" "slab_inv s (A t - {i})" "i \<in> A t" "numSlots s = numSlots (slabAt m t)" "as_isEmpty s"
    "binv h" "slabs_backed (blive h) m"
  shows "\<exists>m' h'. rebucketFree bfree t (m\<lparr>slabAt := (slabAt m)(t := s)\<rparr>) h = Inr (m', h') \<and> bucket_inv m' (A(t := A t - {i})) \<and> binv h' \<and> slabs_backed (blive h') m' \<and>
    allSlabs m' \<subseteq> allSlabs m \<and> (\<forall>c\<in>allSlabs m - allSlabs m'. (A(t := A t - {i})) c = {}) \<and> slabAt m' = (slabAt m)(t := s) \<and>
    allocSlotSize m' = allocSlotSize m \<and> desiredSlabSize m' = desiredSlabSize m"
proof -
  note F = freed_slab [OF assms(1-5)] and M = bucket_member [OF assms(1,2)]
  obtain b where b: "topOccupiedBucket m = Some b" "b \<noteq> FullBucket" "buckets m b \<noteq> []" "0 < numNonFullSlabs m" using top_exists [OF assms(1,2)] by blast
  define m2 where "m2 = m\<lparr>slabAt := (slabAt m)(t := s), buckets := (buckets m)(PartialBucket j := remove1 t (buckets m (PartialBucket j)), FreeBucket := t # buckets m FreeBucket),
    numFreeSlabs := numFreeSlabs m + 1, bucketIndex := (bucketIndex m)(t := FreeBucket)\<rparr>"
  define m3 where "m3 = m2\<lparr>topOccupiedBucket := Some (if buckets m2 b = [] then FreeBucket else b)\<rparr>"
  have "(if buckets m2 b = [] then m2\<lparr>topOccupiedBucket := Some FreeBucket\<rparr> else m2) = m3" using b(1) by (auto simp: m3_def m2_def)
  moreover have "rebucketFree bfree t (m\<lparr>slabAt := (slabAt m)(t := s)\<rparr>) h
      = releaseFreeSlabsIfNecessary bfree (if buckets m2 b = [] then m2\<lparr>topOccupiedBucket := Some FreeBucket\<rparr> else m2) h"
    using M(1) assms(6) b(1) unfolding m2_def by (simp add: rebucketFree_def Let_def removeSlabFromBucket_def insertSlabAtBucketHead_def)
  ultimately have run: "rebucketFree bfree t (m\<lparr>slabAt := (slabAt m)(t := s)\<rparr>) h = releaseFreeSlabsIfNecessary bfree m3 h" by simp
  have fit: "bucketFits FreeBucket s" using assms(6) by (simp add: bucketFits_def as_isEmpty_def)
  have ne: "PartialBucket j \<noteq> FreeBucket" by simp
  have f: "buckets m3 FreeBucket \<noteq> []" by (simp add: m3_def m2_def)
  then have top: "top_ok (topOccupiedBucket m3) (numNonFullSlabs m3) (buckets m3)" using b by (simp add: top_ok_def m3_def m2_def)
  have "numFreeSlabs m = length (buckets m FreeBucket)" using assms(1) by (simp add: bucket_inv_def)
  then have inv: "bucket_inv m3 (A(t := A t - {i}))" and all: "allSlabs m3 = allSlabs m"
    using bucket_inv_move [OF assms(1,2) ne F(4) fit, of m3] top by (simp_all add: m3_def m2_def)
  have "slabs_backed (blive h) m3" using assms(8) all by (simp add: slabs_backed_def m3_def m2_def)
  from releaseFreeSlabs_ok [OF inv assms(7) this f] show ?thesis unfolding run all by (simp add: m3_def m2_def)
qed

lemma rebucketFree_ok:
  assumes "bucket_inv m A" "t \<in> allSlabs m" "slab_inv s (A t - {i})" "i \<in> A t" "numSlots s = numSlots (slabAt m t)" "binv h" "slabs_backed (blive h) m"
  shows "\<exists>m' h'. rebucketFree bfree t (m\<lparr>slabAt := (slabAt m)(t := s)\<rparr>) h = Inr (m', h') \<and> bucket_inv m' (A(t := A t - {i})) \<and> binv h' \<and> slabs_backed (blive h') m' \<and>
    allSlabs m' \<subseteq> allSlabs m \<and> (\<forall>c\<in>allSlabs m - allSlabs m'. (A(t := A t - {i})) c = {}) \<and> slabAt m' = (slabAt m)(t := s) \<and>
    allocSlotSize m' = allocSlotSize m \<and> desiredSlabSize m' = desiredSlabSize m"
proof -
  obtain b where b: "t \<in> set (buckets m b)" using assms(2) by (auto simp: allSlabs_def)
  have bk: "slabs_backed (blive h) m'" if "allSlabs m' = allSlabs m" "slabTree m' = slabTree m" "desiredSlabSize m' = desiredSlabSize m" for m'
    using assms(7) that by (simp add: slabs_backed_def)
  consider "b = FullBucket" | j where "b = PartialBucket j" "as_isEmpty s" | j where "b = PartialBucket j" "\<not> as_isEmpty s"
    using freed_slab(3) [OF assms(1) b assms(3-5)] by (cases b) auto
  then show ?thesis
  proof cases
    case 1
    then show ?thesis using rebucketFree_full [OF assms(1) _ assms(3-5), of bfree h] b bk assms(6) by (metis Diff_cancel empty_iff order_refl)
  next
    case 2
    then show ?thesis using rebucketFree_empty [OF assms(1) _ assms(3-5) 2(2) assms(6,7)] b by simp
  next
    case 3
    then show ?thesis using rebucketFree_partial [OF assms(1) _ assms(3-5) 3(2), of j bfree h] b bk assms(6) by (metis Diff_cancel empty_iff order_refl)
  qed
qed

end

section \<open>Live slots\<close>

definition liveSlots :: "slabAllocator \<Rightarrow> (nat \<Rightarrow> nat set) \<Rightarrow> nat set" where
  "liveSlots m A = (\<Union>t\<in>allSlabs m. slotAddr (slabAt m t) ` A t)"

text \<open>\<open>U\<close>: the addresses of the slots in use.\<close>

definition slab_heap :: "('h \<Rightarrow> bool) \<Rightarrow> ('h \<Rightarrow> (nat \<times> nat) set) \<Rightarrow> nat \<Rightarrow> nat set \<Rightarrow> slabAllocator \<times> 'h \<Rightarrow> bool" where
  "slab_heap binv blive H U st \<longleftrightarrow> (\<exists>A. bucket_inv (fst st) A \<and> binv (snd st) \<and> slabs_backed (blive (snd st)) (fst st) \<and> slabs_placed H (fst st) \<and>
     slabSizes_ok H (allocSlotSize (fst st)) (desiredSlabSize (fst st)) \<and> U = liveSlots (fst st) A)"

lemma mem_liveSlots: "q \<in> liveSlots m A \<longleftrightarrow> (\<exists>t i. t \<in> allSlabs m \<and> i \<in> A t \<and> q = slotAddr (slabAt m t) i)"
  by (auto simp: liveSlots_def)

lemma liveSlots_insert: "t \<in> allSlabs m \<Longrightarrow> liveSlots m (A(t := insert i (A t))) = insert (slotAddr (slabAt m t) i) (liveSlots m A)"
proof (intro set_eqI iffI; unfold insert_iff mem_liveSlots)
  fix q assume t: "t \<in> allSlabs m"
  { assume "\<exists>c j. c \<in> allSlabs m \<and> j \<in> (A(t := insert i (A t))) c \<and> q = slotAddr (slabAt m c) j"
    then obtain c j where "c \<in> allSlabs m" "j \<in> (A(t := insert i (A t))) c" "q = slotAddr (slabAt m c) j" by blast
    then show "q = slotAddr (slabAt m t) i \<or> (\<exists>c j. c \<in> allSlabs m \<and> j \<in> A c \<and> q = slotAddr (slabAt m c) j)" by (cases "c = t") auto }
  { assume "q = slotAddr (slabAt m t) i \<or> (\<exists>c j. c \<in> allSlabs m \<and> j \<in> A c \<and> q = slotAddr (slabAt m c) j)"
    then obtain c j where "c \<in> allSlabs m" "c = t \<and> j = i \<or> j \<in> A c" "q = slotAddr (slabAt m c) j" using t by blast
    then show "\<exists>c j. c \<in> allSlabs m \<and> j \<in> (A(t := insert i (A t))) c \<and> q = slotAddr (slabAt m c) j" by (intro exI [of _ c] exI [of _ j]) auto }
qed

lemma allSlabs_member: "bucket_inv m A \<Longrightarrow> t \<in> allSlabs m \<Longrightarrow> slab_inv (slabAt m t) (A t)"
  using bucket_member(2) by (auto simp: allSlabs_def)

lemma slot_inside:
  assumes "bucket_inv m A" "slabs_placed H m" "t \<in> allSlabs m" "i < numSlots (slabAt m t)"
  shows "t + H \<le> slotAddr (slabAt m t) i" "slotAddr (slabAt m t) i + allocSlotSize m \<le> t + desiredSlabSize m"
proof -
  let ?s = "slabAt m t"
  have n: "numSlots ?s = backingSize ?s div slotSize ?s" using allSlabs_member [OF assms(1,3)] by (auto simp: slab_inv_def slab_state_def)
  have p: "t + H \<le> backingStorage ?s" "backingStorage ?s + backingSize ?s \<le> t + desiredSlabSize m" "slotSize ?s = allocSlotSize m"
    using assms(2,3) by (auto simp: slabs_placed_def slabPlaced_def)
  have "(i + 1) * slotSize ?s \<le> numSlots ?s * slotSize ?s" using assms(4) by (intro mult_le_mono1) simp
  also have "\<dots> \<le> backingSize ?s" unfolding n by simp
  finally show "t + H \<le> slotAddr ?s i" "slotAddr ?s i + allocSlotSize m \<le> t + desiredSlabSize m" using p by (simp_all add: slotAddr_def)
qed

lemma slots_apart:
  fixes i j :: nat
  assumes "slotSize s = z" "i \<noteq> j"
  shows "slotAddr s i + z \<le> slotAddr s j \<or> slotAddr s j + z \<le> slotAddr s i"
proof (cases "i < j")
  case True
  then have "(i + 1) * z \<le> j * z" by (intro mult_le_mono1) simp
  then show ?thesis using assms(1) by (simp add: slotAddr_def)
next
  case False
  then have "(j + 1) * z \<le> i * z" using assms(2) by (intro mult_le_mono1) simp
  then show ?thesis using assms(1) by (simp add: slotAddr_def)
qed

context backing_allocator
begin

text \<open>Two slots do not overlap, in the same slab or in two.\<close>

lemma slots_disjoint:
  assumes "bucket_inv m A" "binv h" "slabs_backed (blive h) m" "slabs_placed H m" "t \<in> allSlabs m" "t' \<in> allSlabs m"
    "i < numSlots (slabAt m t)" "j < numSlots (slabAt m t')" "(t, i) \<noteq> (t', j)"
  shows "slotAddr (slabAt m t) i + allocSlotSize m \<le> slotAddr (slabAt m t') j \<or> slotAddr (slabAt m t') j + allocSlotSize m \<le> slotAddr (slabAt m t) i"
proof (cases "t = t'")
  case True
  have "slotSize (slabAt m t) = allocSlotSize m" using assms(4,5) by (simp add: slabs_placed_def slabPlaced_def)
  then show ?thesis using slots_apart True assms(9) by auto
next
  case False
  let ?n = "desiredSlabSize m"
  have "(t, ?n) \<in> blive h" "(t', ?n) \<in> blive h" using assms(3,5,6) by (auto simp: slabs_backed_def)
  then have "t + ?n \<le> t' \<or> t' + ?n \<le> t" using blive_apart [OF assms(2)] False by simp
  then show ?thesis using slot_inside [OF assms(1,4,5,7)] slot_inside [OF assms(1,4,6,8)] by linarith
qed

lemma slab_heap_alloc:
  assumes "slab_heap binv blive H U (m, h)"
    "numNonFullSlabs m = 0 \<Longrightarrow> \<exists>a. balloc (desiredSlabSize m) h = Inr (Some a, h')" "numNonFullSlabs m \<noteq> 0 \<Longrightarrow> h' = h"
  shows "\<exists>p m'. slabAlloc balloc H (m, h) = Inr (p, m', h') \<and> slab_heap binv blive H (insert p U) (m', h') \<and>
    (\<forall>q\<in>U. q + allocSlotSize m \<le> p \<or> p + allocSlotSize m \<le> q) \<and> (\<exists>(a, n)\<in>blive h'. a + H \<le> p \<and> p + allocSlotSize m \<le> a + n) \<and>
    allocSlotSize m' = allocSlotSize m \<and> desiredSlabSize m' = desiredSlabSize m"
proof -
  obtain A where I: "bucket_inv m A" "binv h" "slabs_backed (blive h) m" "slabs_placed H m" "slabSizes_ok H (allocSlotSize m) (desiredSlabSize m)" "U = liveSlots m A"
    using assms(1) by (auto simp: slab_heap_def)
  obtain t i m' A' where R: "slabAlloc balloc H (m, h) = Inr (slotAddr (slabAt m' t) i, m', h')" "t \<in> allSlabs m'" "i \<notin> A' t"
    "bucket_inv m' (A'(t := insert i (A' t)))" "binv h'" "slabs_backed (blive h') m'" "allSlabs m \<subseteq> allSlabs m'"
    "\<forall>c\<in>allSlabs m. A' c = A c \<and> slabGeom (slabAt m' c) = slabGeom (slabAt m c)" "\<forall>c\<in>allSlabs m' - allSlabs m. A' c = {}"
    "\<forall>c\<in>allSlabs m' - allSlabs m. slabPlaced H (desiredSlabSize m) (allocSlotSize m) c (slabAt m' c)"
    "allocSlotSize m' = allocSlotSize m" "desiredSlabSize m' = desiredSlabSize m"
    using slabAlloc_ok [OF I(1,2,3,5) assms(2,3)] by metis
  let ?p = "slotAddr (slabAt m' t) i" and ?A = "A'(t := insert i (A' t))"
  have pl: "slabs_placed H m'" unfolding slabs_placed_def R(11,12)
    using I(4) R(8,10) slabGeom_placed [of "slabAt m' c" "slabAt m c" for c] unfolding slabs_placed_def by blast
  have U: "U = liveSlots m' A'"
  proof -
    have "slotAddr (slabAt m' c) = slotAddr (slabAt m c)" if "c \<in> allSlabs m" for c using slabGeom_addr R(8) that by blast
    then have "(\<Union>c\<in>allSlabs m. slotAddr (slabAt m' c) ` A' c) = U" using R(8) I(6) by (simp add: liveSlots_def)
    moreover have "(\<Union>c\<in>allSlabs m'. slotAddr (slabAt m' c) ` A' c) = (\<Union>c\<in>allSlabs m. slotAddr (slabAt m' c) ` A' c)" using R(7,9) by blast
    ultimately show ?thesis by (simp add: liveSlots_def)
  qed
  have "liveSlots m' ?A = insert ?p U" unfolding U by (rule liveSlots_insert [OF R(2)])
  then have heap: "slab_heap binv blive H (insert ?p U) (m', h')" using R(4,5,6,11,12) pl I(5) unfolding slab_heap_def by force
  have num: "j < numSlots (slabAt m' c)" if "c \<in> allSlabs m'" "j \<in> ?A c" for c j using slab_inv_facts(1) [OF allSlabs_member [OF R(4) that(1)]] that(2) by auto
  have "q + allocSlotSize m' \<le> ?p \<or> ?p + allocSlotSize m' \<le> q" if "q \<in> U" for q
  proof -
    note q = that
    obtain c j where c: "c \<in> allSlabs m'" "j \<in> A' c" "q = slotAddr (slabAt m' c) j" using q unfolding U mem_liveSlots by blast
    have "j \<in> ?A c" "i \<in> ?A t" "(c, j) \<noteq> (t, i)" using c(2) R(3) by auto
    then show ?thesis using slots_disjoint [OF R(4-6) pl c(1) R(2) num num] c R(2) by blast
  qed
  moreover have "t + H \<le> ?p" "?p + allocSlotSize m' \<le> t + desiredSlabSize m'" by (rule slot_inside [OF R(4) pl R(2)], rule num [OF R(2)], simp)+
  moreover have "(t, desiredSlabSize m') \<in> blive h'" using R(2,6) by (auto simp: slabs_backed_def)
  ultimately show ?thesis using R(1,11,12) heap by (intro exI [of _ ?p] exI [of _ m']) auto
qed

text \<open>Only one slot has the address, so freeing it frees no other.\<close>

lemma slab_heap_free:
  assumes "slab_heap binv blive H U (m, h)" "t \<in> allSlabs m" "i < numSlots (slabAt m t)"
  defines "p \<equiv> slotAddr (slabAt m t) i"
  shows "if p \<in> U
    then \<exists>m' h'. slabFree bfree p t (m, h) = Inr (m', h') \<and> slab_heap binv blive H (U - {p}) (m', h') \<and> allocSlotSize m' = allocSlotSize m \<and>
      desiredSlabSize m' = desiredSlabSize m
    else slabFree bfree p t (m, h) = Inl (Assertion ''Double-freeing pointer'')"
proof -
  obtain A where I: "bucket_inv m A" "binv h" "slabs_backed (blive h) m" "slabs_placed H m" "slabSizes_ok H (allocSlotSize m) (desiredSlabSize m)" "U = liveSlots m A"
    using assms(1) by (auto simp: slab_heap_def)
  note S = allSlabs_member [OF I(1) assms(2)]
  have num: "j < numSlots (slabAt m c)" if "c \<in> allSlabs m" "j \<in> A c" for c j using slab_inv_facts(1) [OF allSlabs_member [OF I(1) that(1)]] that(2) by auto
  have "0 < allocSlotSize m" using I(5) by (simp add: slabSizes_ok_def)
  then have uniq: "c = t \<and> j = i" if "c \<in> allSlabs m" "j \<in> A c" "p = slotAddr (slabAt m c) j" for c j
    using slots_disjoint [OF I(1-4) that(1) assms(2) num [OF that(1,2)] assms(3)] that(3) p_def by fastforce
  then have mem: "p \<in> U \<longleftrightarrow> i \<in> A t" unfolding I(6) mem_liveSlots using assms(2) p_def by blast
  show ?thesis
  proof (cases "i \<in> A t")
    case False
    then show ?thesis using as_free_twice [OF S assms(3)] mem by (simp add: slabFree_def p_def)
  next
    case True
    obtain s where s: "as_free p (slabAt m t) = Inr s" "slab_inv s (A t - {i})" "numSlots s = numSlots (slabAt m t)"
      unfolding p_def by (rule as_free_realloc [OF S True]) blast
    let ?A = "A(t := A t - {i})"
    obtain m1 h' where R: "rebucketFree bfree t (m\<lparr>slabAt := (slabAt m)(t := s)\<rparr>) h = Inr (m1, h')" "bucket_inv m1 ?A" "binv h'" "slabs_backed (blive h') m1"
      "allSlabs m1 \<subseteq> allSlabs m" "\<forall>c\<in>allSlabs m - allSlabs m1. ?A c = {}" "slabAt m1 = (slabAt m)(t := s)" "allocSlotSize m1 = allocSlotSize m"
      "desiredSlabSize m1 = desiredSlabSize m" using rebucketFree_ok [OF I(1) assms(2) s(2) True s(3) I(2,3)] by blast
    have geom: "slabGeom (slabAt m1 c) = slabGeom (slabAt m c)" for c using as_free_geom [OF s(1)] R(7) by simp
    have pl: "slabs_placed H m1" using I(4) R(5,8,9) slabGeom_placed [OF geom] unfolding slabs_placed_def by auto
    have U: "liveSlots m1 ?A = U - {p}"
    proof (intro set_eqI)
      fix q
      have "q \<in> liveSlots m1 ?A \<longleftrightarrow> (\<exists>c j. c \<in> allSlabs m \<and> j \<in> ?A c \<and> q = slotAddr (slabAt m c) j)"
        unfolding mem_liveSlots slabGeom_addr [OF geom] using R(5,6) by blast
      also have "\<dots> \<longleftrightarrow> q \<in> U - {p}" unfolding I(6) Diff_iff mem_liveSlots using uniq by (auto simp: p_def) (metis)+
      finally show "q \<in> liveSlots m1 ?A \<longleftrightarrow> q \<in> U - {p}" .
    qed
    define m' where "m' = m1\<lparr>currentlyAllocatedSize := sub_size (currentlyAllocatedSize m1) (allocSlotSize m1), netFreedSize := add_size (netFreedSize m1) (allocSlotSize m1)\<rparr>"
    have "slabFree bfree p t (m, h) = Inr (m', h')" using s(1) R(1) by (simp add: slabFree_def m'_def)
    moreover have "slab_heap binv blive H (U - {p}) (m', h')"
      using R(2-4,8,9) pl I(5) U unfolding slab_heap_def m'_def by (intro exI [of _ ?A]) (simp add: slabs_backed_def slabs_placed_def liveSlots_def)
    ultimately show ?thesis using True mem R(8,9) by (simp add: m'_def)
  qed
qed

end

end
