(* ===== verification/Slab_Release.thy ===== *)
theory Slab_Release
  imports Slab_Free
begin

text \<open>Construction and destruction of a slab allocator, and the release of all its free slabs.\<close>

section \<open>Releasing a bucket\<close>

lemma releaseSlabs_fields:
  "buckets (fst (releaseSlabs bfree b xs m h)) = (buckets m)(b := [])" "slabAt (fst (releaseSlabs bfree b xs m h)) = slabAt m"
  "bucketIndex (fst (releaseSlabs bfree b xs m h)) = bucketIndex m" "topOccupiedBucket (fst (releaseSlabs bfree b xs m h)) = topOccupiedBucket m"
  "allocSlotSize (fst (releaseSlabs bfree b xs m h)) = allocSlotSize m" "desiredSlabSize (fst (releaseSlabs bfree b xs m h)) = desiredSlabSize m"
  "slabTree (fst (releaseSlabs bfree b xs m h)) = fold remove1 xs (slabTree m)"
  by (induction bfree b xs m h rule: releaseSlabs.induct) simp_all

lemma releaseSlabs_counts:
  "b \<noteq> FullBucket \<Longrightarrow> length xs \<le> numNonFullSlabs m \<Longrightarrow> numNonFullSlabs (fst (releaseSlabs bfree b xs m h)) = numNonFullSlabs m - length xs"
  "b = FreeBucket \<Longrightarrow> length xs \<le> numFreeSlabs m \<Longrightarrow> numFreeSlabs (fst (releaseSlabs bfree b xs m h)) = numFreeSlabs m - length xs"
  by (induction bfree b xs m h rule: releaseSlabs.induct) simp_all

lemma fold_remove1: "distinct ys \<Longrightarrow> set (fold remove1 xs ys) = set ys - set xs" "distinct ys \<Longrightarrow> distinct (fold remove1 xs ys)"
  "sorted ys \<Longrightarrow> sorted (fold remove1 xs (ys :: nat list))"
  by (induction xs arbitrary: ys) (auto simp: set_remove1_eq sorted_remove1)

lemma slabs_backed_drop:
  assumes "slabs_backed L m" "distinct (slabTree m)" "slabTree m' = fold remove1 xs (slabTree m)" "L' = L - (\<lambda>a. (a, desiredSlabSize m)) ` set xs"
    "allSlabs m' = allSlabs m - set xs" "desiredSlabSize m' = desiredSlabSize m"
  shows "slabs_backed L' m'"
proof -
  have "set (slabTree m') \<subseteq> fst ` L'"
  proof
    fix a assume "a \<in> set (slabTree m')"
    then have a: "a \<in> set (slabTree m)" "a \<notin> set xs" using assms(3) fold_remove1(1) [OF assms(2), of xs] by auto
    then obtain k where "(a, k) \<in> L" using assms(1) by (auto simp: slabs_backed_def)
    then have "(a, k) \<in> L'" using a(2) assms(4) by auto
    then show "a \<in> fst ` L'" by force
  qed
  then show ?thesis using assms(1,4-6) by (auto simp: slabs_backed_def)
qed

context backing_allocator
begin

lemma releaseSlabs_backing:
  assumes "binv h" "distinct xs" "\<forall>a\<in>set xs. (a, n) \<in> blive h"
  shows "binv (snd (releaseSlabs bfree b xs m h)) \<and> blive (snd (releaseSlabs bfree b xs m h)) = blive h - (\<lambda>a. (a, n)) ` set xs"
  using assms
proof (induction xs arbitrary: m h)
  case (Cons a xs)
  have F: "binv (snd (bfree a h))" "blive (snd (bfree a h)) = blive h - {(a, n)}" using bfree_ok [OF Cons.prems(1), of a n] Cons.prems(3) by auto
  have "\<forall>c\<in>set xs. (c, n) \<in> blive (snd (bfree a h))" using Cons.prems(2,3) F(2) by auto
  then show ?case using Cons.IH [OF F(1)] Cons.prems(2) F(2) by auto
qed simp

text \<open>Destruction gives every slab back and leaves the blocks of others alone.\<close>

lemma release_buckets:
  assumes "binv h" "\<forall>b. distinct (buckets m b)" "\<forall>b c a. a \<in> set (buckets m b) \<and> a \<in> set (buckets m c) \<longrightarrow> b = c"
    "\<forall>b. \<forall>a\<in>set (buckets m b). (a, n) \<in> blive h" "distinct (slabTree m)" "distinct bs"
  defines "R \<equiv> \<Union>b\<in>set bs. set (buckets m b)" and "st \<equiv> fold (releaseAllFromBucket bfree) bs (m, h)"
  shows "binv (snd st) \<and> blive (snd st) = blive h - (\<lambda>a. (a, n)) ` R \<and> buckets (fst st) = (\<lambda>b. if b \<in> set bs then [] else buckets m b) \<and>
    set (slabTree (fst st)) = set (slabTree m) - R"
  unfolding R_def st_def using assms(1-6)
proof (induction bs arbitrary: m h)
  case (Cons b bs)
  let ?xs = "buckets m b"
  let ?st = "releaseSlabs bfree b (buckets m b) m h"
  have L: "binv (snd ?st)" "blive (snd ?st) = blive h - (\<lambda>a. (a, n)) ` set ?xs"
    using releaseSlabs_backing [OF Cons.prems(1), of ?xs n b m] Cons.prems(2,4) by auto
  note F = releaseSlabs_fields [of bfree b ?xs m h] and T = fold_remove1(1,2) [OF Cons.prems(5), of ?xs]
  have other: "\<forall>c. \<forall>a\<in>set (buckets (fst ?st) c). (a, n) \<in> blive (snd ?st)" using Cons.prems(3,4) F(1) L(2) by (auto split: if_splits)
  have "binv (snd (fold (releaseAllFromBucket bfree) bs ?st)) \<and>
    blive (snd (fold (releaseAllFromBucket bfree) bs ?st)) = blive (snd ?st) - (\<lambda>a. (a, n)) ` (\<Union>b\<in>set bs. set (buckets (fst ?st) b)) \<and>
    buckets (fst (fold (releaseAllFromBucket bfree) bs ?st)) = (\<lambda>b. if b \<in> set bs then [] else buckets (fst ?st) b) \<and>
    set (slabTree (fst (fold (releaseAllFromBucket bfree) bs ?st))) = set (slabTree (fst ?st)) - (\<Union>b\<in>set bs. set (buckets (fst ?st) b))"
    using Cons.IH [of "snd ?st" "fst ?st", OF L(1) _ _ other] F(1,7) T(2) Cons.prems(2,3,6) by (auto split: if_splits)
  moreover have "(\<Union>c\<in>set bs. set (buckets (fst ?st) c)) = (\<Union>c\<in>set bs. set (buckets m c))" using F(1) Cons.prems(6) by (intro SUP_cong) auto
  moreover have "fold (releaseAllFromBucket bfree) (b # bs) (m, h) = fold (releaseAllFromBucket bfree) bs ?st" by (simp add: releaseAllFromBucket_def)
  ultimately show ?case using L(2) F(1,7) T(1) by (auto simp: fun_eq_iff image_Un)
qed simp

lemma slab_heap_destroy:
  assumes "slab_heap binv blive H U (m, h)"
  shows "binv (snd (destroySlabAllocator bfree (m, h)))"
    "blive (snd (destroySlabAllocator bfree (m, h))) = blive h - (\<lambda>a. (a, desiredSlabSize m)) ` allSlabs m"
    "allSlabs (fst (destroySlabAllocator bfree (m, h))) = {}"
    "set (slabTree (fst (destroySlabAllocator bfree (m, h)))) = set (slabTree m) - allSlabs m"
proof -
  let ?bs = "FullBucket # map PartialBucket [0..<slabAllocatorBucketCount] @ [FreeBucket]"
  obtain A where I: "bucket_inv m A" "binv h" "slabs_backed (blive h) m" using assms by (auto simp: slab_heap_def)
  then have ok: "slabs_ok (buckets m) (bucketIndex m) (slabAt m) A" "distinct (slabTree m)" by (simp_all add: bucket_inv_def)
  have mem: "b \<in> set ?bs" if "a \<in> set (buckets m b)" for a b
    by (cases "b = FullBucket") (use bucket_member(5) [OF I(1) that] in \<open>auto simp: nonFullRefs_def\<close>)
  have bs: "distinct ?bs" by (auto simp: distinct_map inj_on_def)
  have all: "(\<Union>b\<in>set ?bs. set (buckets m b)) = allSlabs m" unfolding allSlabs_def using mem by blast
  have none: "(if b \<in> set ?bs then [] else buckets m b) = []" for b using mem [of "hd (buckets m b)" b] by (cases "buckets m b") auto
  have "\<forall>b. \<forall>a\<in>set (buckets m b). (a, desiredSlabSize m) \<in> blive h" using I(3) by (auto simp: slabs_backed_def allSlabs_def)
  note R = release_buckets [OF I(2) _ _ this ok(2) bs, unfolded all, folded destroySlabAllocator_def]
  have sep: "\<forall>b c a. a \<in> set (buckets m b) \<and> a \<in> set (buckets m c) \<longrightarrow> b = c" "\<forall>b. distinct (buckets m b)"
    using slabs_ok_other [OF ok(1)] ok(1) by (auto simp: slabs_ok_def)
  have R: "binv (snd (destroySlabAllocator bfree (m, h))) \<and> blive (snd (destroySlabAllocator bfree (m, h))) = blive h - (\<lambda>a. (a, desiredSlabSize m)) ` allSlabs m \<and>
     buckets (fst (destroySlabAllocator bfree (m, h))) = (\<lambda>b. if b \<in> set ?bs then [] else buckets m b) \<and>
     set (slabTree (fst (destroySlabAllocator bfree (m, h)))) = set (slabTree m) - allSlabs m"
    by (rule R [OF sep(2,1)])
  then show "binv (snd (destroySlabAllocator bfree (m, h)))"
    "blive (snd (destroySlabAllocator bfree (m, h))) = blive h - (\<lambda>a. (a, desiredSlabSize m)) ` allSlabs m"
    "set (slabTree (fst (destroySlabAllocator bfree (m, h)))) = set (slabTree m) - allSlabs m" by blast+
  show "allSlabs (fst (destroySlabAllocator bfree (m, h))) = {}" using R none by (simp only: allSlabs_def) simp
qed

text \<open>
  After the release of the free slabs the allocator is as good as before, unless the top bucket was the free one although there was a
  partly occupied slab: then the next allocation follows a null pointer.
\<close>

lemma slab_heap_release:
  assumes "slab_heap binv blive H U (m, h)"
  defines "st \<equiv> releaseAllFreeSlabs bfree (m, h)"
  shows "if topOccupiedBucket m = Some FreeBucket \<and> numFreeSlabs m < numNonFullSlabs m
    then slabAlloc balloc H st = Inl (Undefined ''null pointer'') else slab_heap binv blive H U st"
proof -
  let ?xs = "buckets m FreeBucket" and ?m = "fst st" and ?h = "snd st"
  obtain A where I: "bucket_inv m A" "binv h" "slabs_backed (blive h) m" "slabs_placed H m" "slabSizes_ok H (allocSlotSize m) (desiredSlabSize m)" "U = liveSlots m A"
    using assms(1) by (auto simp: slab_heap_def)
  have ok: "slabs_ok (buckets m) (bucketIndex m) (slabAt m) A" "numFreeSlabs m = length ?xs" "numNonFullSlabs m = nonFull (buckets m)"
    "top_ok (topOccupiedBucket m) (numNonFullSlabs m) (buckets m)" "sorted (slabTree m)" "distinct (slabTree m)" "allSlabs m \<subseteq> set (slabTree m)"
    using I(1) by (auto simp: bucket_inv_def)
  have st: "st = releaseSlabs bfree FreeBucket ?xs m h" by (simp add: st_def releaseAllFreeSlabs_def releaseAllFromBucket_def)
  note F = releaseSlabs_fields [of bfree FreeBucket ?xs m h, folded st]
  have nf: "nonFull ((buckets m)(FreeBucket := [])) + length ?xs = nonFull (buckets m)" using nonFull_upd [of FreeBucket "buckets m" "[]"] by (simp add: mem_nonFullRefs)
  then have n: "numNonFullSlabs ?m = numNonFullSlabs m - length ?xs" "numFreeSlabs ?m = 0"
    using releaseSlabs_counts [of FreeBucket ?xs m bfree h, folded st] ok(2,3) by simp_all
  show ?thesis
  proof (cases "topOccupiedBucket m = Some FreeBucket \<and> numFreeSlabs m < numNonFullSlabs m")
    case True
    then have "numNonFullSlabs ?m \<noteq> 0" using n(1) ok(2) by simp
    then show ?thesis using True F(1,4) by (cases st) (simp add: slabAlloc_def)
  next
    case False
    note fm = free_slab_unused [OF I(1)]
    have all: "allSlabs ?m = allSlabs m - set ?xs"
    proof (intro set_eqI)
      fix a
      have "a \<in> set (buckets m FreeBucket) \<Longrightarrow> a \<in> set (buckets m b) \<Longrightarrow> b = FreeBucket" for b using slabs_ok_other [OF ok(1)] by blast
      then show "a \<in> allSlabs ?m \<longleftrightarrow> a \<in> allSlabs m - set ?xs" by (auto simp: allSlabs_def F(1) split: if_splits) metis
    qed
    have sl: "slabs_ok (buckets ?m) (bucketIndex ?m) (slabAt ?m) A" using ok(1) by (auto simp: slabs_ok_def F)
    have left: "0 < numNonFullSlabs ?m" if "b \<noteq> FullBucket" "b \<noteq> FreeBucket" "buckets m b \<noteq> []" for b
      using nonFull_pos [of b "(buckets m)(FreeBucket := [])"] bucket_member(5) [OF I(1) _ that(1), of "hd (buckets m b)"] that n(1) nf ok(3) by simp
    have "top_ok (topOccupiedBucket ?m) (numNonFullSlabs ?m) (buckets ?m)"
      using ok(2,4) False n(1) left by (auto simp: top_ok_def F split: option.splits if_splits)
    then have bi: "bucket_inv ?m A" using sl n nf ok all F(1,7) fold_remove1 [of "slabTree m" ?xs] by (auto simp: bucket_inv_def)
    have blk: "\<forall>a\<in>set ?xs. (a, desiredSlabSize m) \<in> blive h" using I(3) by (auto simp: slabs_backed_def allSlabs_def)
    have "distinct ?xs" using ok(1) by (simp add: slabs_ok_def)
    note B = releaseSlabs_backing [OF I(2) this blk, of FreeBucket m, folded st]
    have "slabs_backed (blive ?h) ?m" by (rule slabs_backed_drop [OF I(3) ok(6) F(7) _ all F(6)]) (use B in simp)
    moreover have "slabs_placed H ?m" using I(4) all F(2,5,6) by (auto simp: slabs_placed_def)
    moreover have "U = liveSlots ?m A" unfolding I(6) liveSlots_def all F(2) using fm by blast
    ultimately show ?thesis using bi B False I(5) F(5,6) unfolding slab_heap_def by auto
  qed
qed

lemma slab_heap_new:
  assumes "binv h" "sorted tr" "distinct tr" "set tr \<subseteq> fst ` blive h" "slabSizes_ok H z n"
  shows "slab_heap binv blive H {} (newSlabAllocator z n tr memory, h)"
proof -
  have "nonFull (\<lambda>_. []) = 0" by (simp add: nonFull_zero)
  then show ?thesis using assms
    by (simp add: slab_heap_def newSlabAllocator_def bucket_inv_def slabs_ok_def top_ok_def allSlabs_def slabs_backed_def slabs_placed_def liveSlots_def)
qed

end

end
