(* ===== verification/Heap_Span_Laws.thy ===== *)
theory Heap_Span_Laws
  imports Heap_Span
begin

text \<open>
  The contract of a memory span. The buffer is tiled by blocks, free ones and allocated ones, no two free blocks are adjacent, and
  \<open>freeSpace\<close> and \<open>largestFreeBlockSize\<close> agree with the tiling. \<open>allocateBlock\<close> cuts one free tile and \<open>freeBlock\<close> joins
  the freed tile with its free neighbours, so that a block that is allocated and freed leaves the span as it was.
\<close>

section \<open>Tilings\<close>

type_synonym tile = "nat \<times> nat \<times> (nat option \<times> nat) option"

fun tileUse :: "nat \<Rightarrow> nat \<Rightarrow> (nat option \<times> nat) option \<Rightarrow> bool" where
  "tileUse h z None = True"
| "tileUse h z (Some (None, req)) = (0 < req \<and> 32 + req \<le> z)"
| "tileUse h z (Some (Some d, req)) = (0 < req \<and> h + 48 \<le> d \<and> d + req \<le> h + z)"

fun tiled :: "nat \<Rightarrow> tile list \<Rightarrow> nat \<Rightarrow> bool" where
  "tiled a [] e = (a = e)"
| "tiled a ((h, z, u) # ts) e = (h = a \<and> 16 dvd z \<and> 96 \<le> z \<and> tileUse h z u \<and> tiled (a + z) ts e)"

fun freeOf :: "tile list \<Rightarrow> freeBlock list" where
  "freeOf [] = []"
| "freeOf ((h, z, None) # ts) = (h, z) # freeOf ts"
| "freeOf ((h, z, Some u) # ts) = freeOf ts"

fun usedOf :: "tile list \<Rightarrow> usedBlock list" where
  "usedOf [] = []"
| "usedOf ((h, z, None) # ts) = usedOf ts"
| "usedOf ((h, z, Some (d, req)) # ts) = (h, z, d, req) # usedOf ts"

definition isFreeTile :: "tile \<Rightarrow> bool" where
  "isFreeTile t \<longleftrightarrow> snd (snd t) = None"

fun apart :: "tile list \<Rightarrow> bool" where
  "apart (x # y # ts) = (\<not> (isFreeTile x \<and> isFreeTile y) \<and> apart (y # ts))"
| "apart ts = True"

definition usedBytes :: "usedBlock list \<Rightarrow> nat" where
  "usedBytes bs = sum_list (map (fst \<circ> snd) bs)"

definition span_ok :: "nat \<Rightarrow> memorySpan \<Rightarrow> tile list \<Rightarrow> bool" where
  "span_ok H s ts \<longleftrightarrow> 16 dvd spanBuffer H s \<and> tiled (spanBuffer H s) ts (spanBuffer H s + getBufferSize H s) \<and> getBufferSize H s < 2 ^ 32
     \<and> spanBuffer H s + getBufferSize H s + 16 \<le> 2 ^ 64 \<and> unallocatedBlocks s = freeOf ts \<and> allocatedBlocks s = usedOf ts
     \<and> largestFreeBlockSize s = maxSize (freeOf ts) \<and> freeSpace s + usedBytes (usedOf ts) = getBufferSize H s \<and> apart ts"

lemma tiled_append: "tiled a (xs @ ys) e \<longleftrightarrow> (\<exists>m. tiled a xs m \<and> tiled m ys e)"
  by (induction a xs e rule: tiled.induct) auto

lemma freeOf_append [simp]: "freeOf (xs @ ys) = freeOf xs @ freeOf ys"
  by (induction xs rule: freeOf.induct) auto

lemma usedOf_append [simp]: "usedOf (xs @ ys) = usedOf xs @ usedOf ys"
  by (induction xs rule: usedOf.induct) auto

lemma usedBytes_simps [simp]: "usedBytes [] = 0" "usedBytes (b # bs) = fst (snd b) + usedBytes bs" "usedBytes (bs @ cs) = usedBytes bs + usedBytes cs"
  by (simp_all add: usedBytes_def)

lemma mem_freeOf: "(h, z) \<in> set (freeOf ts) \<longleftrightarrow> (h, z, None) \<in> set ts"
  by (induction ts rule: freeOf.induct) auto

lemma mem_usedOf: "(h, z, d, req) \<in> set (usedOf ts) \<longleftrightarrow> (h, z, Some (d, req)) \<in> set ts"
  by (induction ts rule: usedOf.induct) auto

lemma tiled_bounds:
  assumes "tiled a ts e"
  shows "a \<le> e" "(h, z, u) \<in> set ts \<Longrightarrow> a \<le> h \<and> h + z \<le> e \<and> 96 \<le> z \<and> 16 dvd z \<and> tileUse h z u"
  using assms by (induction a ts e rule: tiled.induct) fastforce+

lemma tiled_aligned: "tiled a ts e \<Longrightarrow> 16 dvd a \<Longrightarrow> 16 dvd e"
  by (induction a ts e rule: tiled.induct) auto

lemma tiled_sorted:
  assumes "tiled a (l @ (h, z, u) # r) e"
  shows "\<forall>x\<in>set (freeOf l). fst x + snd x \<le> h \<and> fst x < h" "\<forall>x\<in>set (freeOf r). h + z \<le> fst x \<and> h < fst x"
    "\<forall>x\<in>set (usedOf l). fst x + fst (snd x) \<le> h \<and> fst x < h" "\<forall>x\<in>set (usedOf r). h + z \<le> fst x \<and> h < fst x"
proof -
  have t: "tiled a l h" "tiled (h + z) r e" "96 \<le> z" using assms by (auto simp: tiled_append)
  show "\<forall>x\<in>set (freeOf l). fst x + snd x \<le> h \<and> fst x < h" "\<forall>x\<in>set (freeOf r). h + z \<le> fst x \<and> h < fst x"
    using tiled_bounds(2) [OF t(1)] tiled_bounds(2) [OF t(2)] t(3) by (fastforce simp: mem_freeOf)+
  show "\<forall>x\<in>set (usedOf l). fst x + fst (snd x) \<le> h \<and> fst x < h" "\<forall>x\<in>set (usedOf r). h + z \<le> fst x \<and> h < fst x"
    using tiled_bounds(2) [OF t(1)] tiled_bounds(2) [OF t(2)] t(3) by (fastforce simp: mem_usedOf)+
qed

lemma tiled_distinct: "tiled a ts e \<Longrightarrow> distinct (map fst (freeOf ts))"
proof (induction a ts e rule: tiled.induct)
  case (2 a h z u ts e)
  then show ?case using tiled_bounds(2) [of "a + z" ts e] by (cases u) (fastforce simp: mem_freeOf)+
qed simp

lemma apart_Cons: "apart (x # ys) \<longleftrightarrow> apart ys \<and> (ys \<noteq> [] \<longrightarrow> \<not> (isFreeTile x \<and> isFreeTile (hd ys)))"
  by (cases ys) auto

lemma apart_append: "apart (xs @ ys) \<longleftrightarrow> apart xs \<and> apart ys \<and> (xs \<noteq> [] \<and> ys \<noteq> [] \<longrightarrow> \<not> (isFreeTile (last xs) \<and> isFreeTile (hd ys)))"
  by (induction xs rule: apart.induct) (auto simp: apart_Cons)

lemma tiled_bytes: "tiled a ts e \<Longrightarrow> a + sum_list (map snd (freeOf ts)) + usedBytes (usedOf ts) = e"
proof (induction a ts e rule: tiled.induct)
  case (2 a h z u ts e)
  then show ?case by (cases u) auto
qed simp

lemma usedBytes_zero: "tiled a ts e \<Longrightarrow> usedBytes (usedOf ts) = 0 \<longleftrightarrow> usedOf ts = []"
proof (induction a ts e rule: tiled.induct)
  case (2 a h z u ts e)
  then show ?case by (cases u) auto
qed simp

section \<open>The lists of blocks\<close>

lemma insertBlock_between:
  assumes "\<forall>x\<in>set xs. fst x < a" "\<forall>y\<in>set ys. a < fst y"
  shows "insertBlock (a, v) (xs @ ys) = xs @ (a, v) # ys"
proof -
  have "a \<notin> fst ` set (xs @ ys)" using assms by auto
  moreover have "takeWhile (\<lambda>x. fst x < a) (xs @ ys) = xs" "dropWhile (\<lambda>x. fst x < a) (xs @ ys) = ys"
    using assms by (cases ys; auto simp: takeWhile_append dropWhile_append)+
  ultimately show ?thesis by (simp add: insertBlock_def)
qed

lemma removeBlock_between:
  assumes "\<forall>x\<in>set xs. fst x < a" "\<forall>y\<in>set ys. a < fst y"
  shows "removeBlock a (xs @ (a, v) # ys) = xs @ ys"
proof -
  have "filter (\<lambda>x. fst x \<noteq> a) xs = xs" "filter (\<lambda>x. fst x \<noteq> a) ys = ys" using assms by (auto simp: filter_id_conv)
  then show ?thesis by (simp add: removeBlock_def)
qed

lemma maxSize_simps [simp]: "maxSize [] = 0" "maxSize (b # bs) = max (snd b) (maxSize bs)" "maxSize (bs @ cs) = max (maxSize bs) (maxSize cs)"
  by (simp_all add: maxSize_def) (induction bs; simp add: max.assoc)

lemma maxSize_ge: "b \<in> set bs \<Longrightarrow> snd b \<le> maxSize bs"
  by (induction bs) (auto simp: max.coboundedI2)

lemma maxSize_reached: "0 < n \<Longrightarrow> n \<le> maxSize bs \<Longrightarrow> \<exists>b\<in>set bs. n \<le> snd b"
  by (induction bs) (auto simp: le_max_iff_disj)

text \<open>The free blocks of a span, with the largest size recomputed.\<close>

definition setFree :: "freeBlock list \<Rightarrow> memorySpan \<Rightarrow> memorySpan" where
  "setFree bs s = s\<lparr>unallocatedBlocks := bs, largestFreeBlockSize := maxSize bs\<rparr>"

lemma setFree_sel [simp]:
  "unallocatedBlocks (setFree bs s) = bs" "largestFreeBlockSize (setFree bs s) = maxSize bs" "allocatedBlocks (setFree bs s) = allocatedBlocks s"
  "freeSpace (setFree bs s) = freeSpace s" "spanBase (setFree bs s) = spanBase s" "spanSize (setFree bs s) = spanSize s"
  "releasable (setFree bs s) = releasable s"
  by (simp_all add: setFree_def)

lemma setFree_self: "span_ok H s ts \<Longrightarrow> s = setFree (freeOf ts) s"
  by (simp add: span_ok_def setFree_def)

lemma insertFreeBlock_between:
  assumes "\<forall>x\<in>set xs. fst x < a" "\<forall>y\<in>set ys. a < fst y"
  shows "insertFreeBlock (a, z) (setFree (xs @ ys) s) = setFree (xs @ (a, z) # ys) s"
  using insertBlock_between [OF assms] by (auto simp: insertFreeBlock_def setFree_def max_def Let_def)

lemma removeFreeBlock_between:
  assumes "\<forall>x\<in>set xs. fst x < a" "\<forall>y\<in>set ys. a < fst y"
  shows "removeFreeBlock (a, z) (setFree (xs @ (a, z) # ys) s) = setFree (xs @ ys) s"
  using removeBlock_between [OF assms] by (auto simp: removeFreeBlock_def setFree_def max_def Let_def)

section \<open>Allocation\<close>

definition cutTiles :: "nat \<Rightarrow> nat \<Rightarrow> nat \<Rightarrow> nat \<Rightarrow> nat \<Rightarrow> nat \<Rightarrow> tile list" where
  "cutTiles base z h n ret req =
     (if h = base then [] else [(base, h - base, None)]) @ (h, n - h, Some (if h + 32 \<noteq> ret then Some ret else None, req))
     # (if n = base + z then [] else [(n, base + z - n, None)])"

lemma headerSize_id: "16 dvd z \<Longrightarrow> z < 2 ^ 32 \<Longrightarrow> headerSize z = z"
  by (auto simp: headerSize_def elim!: dvdE)

lemma cutTiles_tiled:
  assumes "16 dvd base" "16 dvd z" "16 dvd h" "h = base \<or> base + 96 \<le> h" "16 dvd n" "h + 96 \<le> n" "n = base + z \<or> n + 96 \<le> base + z"
    "ret = h + 32 \<or> h + 48 \<le> ret" "ret + req \<le> n" "0 < req"
  shows "tiled base (cutTiles base z h n ret req) (base + z)" "usedBytes (usedOf (cutTiles base z h n ret req)) = n - h"
    "isFreeTile (hd (cutTiles base z h n ret req)) \<longleftrightarrow> h \<noteq> base" "apart (cutTiles base z h n ret req)"
proof -
  have "16 dvd n - h" "16 dvd h - base" "16 dvd base + z - n" using assms by auto
  then show "tiled base (cutTiles base z h n ret req) (base + z)"
    using assms(4,6,7,8,9,10) by (auto simp: cutTiles_def)
  show "usedBytes (usedOf (cutTiles base z h n ret req)) = n - h" "isFreeTile (hd (cutTiles base z h n ret req)) \<longleftrightarrow> h \<noteq> base"
    "apart (cutTiles base z h n ret req)"
    by (simp_all add: cutTiles_def isFreeTile_def)
qed

lemma cut_apart:
  assumes "apart (l @ (base, z, None) # r)"
  shows "apart (l @ cutTiles base z h n ret req @ r)"
  using assms by (auto simp: cutTiles_def apart_append apart_Cons isFreeTile_def)

lemma retile:
  assumes "tiled a (l @ (h, z, u) # r) e" "tiled h new (h + z)"
  shows "tiled a (l @ new @ r) e"
  using assms by (auto simp: tiled_append)

text \<open>What is left of the block below and above goes back to the free blocks.\<close>

lemma insert_leftovers:
  fixes s :: memorySpan
  assumes "\<forall>x\<in>set xs. fst x < base" "\<forall>y\<in>set ys. base + z \<le> fst y \<and> base < fst y" "base \<le> h" "h < n" "n \<le> base + z"
  defines "fb \<equiv> if h = base then [] else [(base, h - base)]" and "fa \<equiv> if n = base + z then [] else [(n, base + z - n)]"
  defines "s3 \<equiv> if h \<noteq> base then insertFreeBlock (base, h - base) (setFree (xs @ ys) s) else setFree (xs @ ys) s"
  shows "(if n \<noteq> base + z then insertFreeBlock (n, base + z - n) s3 else s3) = setFree (xs @ fb @ fa @ ys) s"
proof -
  have s3: "s3 = setFree ((xs @ fb) @ ys) s"
    using insertFreeBlock_between [of xs base ys "h - base" s] assms(1,2) by (simp add: s3_def fb_def)
  have "fst x < n" if "x \<in> set xs" for x using assms(1,3,4) that by (meson le_less_trans less_trans)
  then have "\<forall>x\<in>set (xs @ fb). fst x < n" using assms(3,4) unfolding fb_def by auto
  moreover have "n \<noteq> base + z \<Longrightarrow> \<forall>y\<in>set ys. n < fst y" using assms(2,5) by fastforce
  ultimately show ?thesis using insertFreeBlock_between [of "xs @ fb" n ys "base + z - n" s] unfolding s3 by (simp add: fa_def)
qed

lemma usedBytes_mid:
  assumes "tiled a (l @ (h, z, None) # r) e"
  shows "a + usedBytes (usedOf l) + z + usedBytes (usedOf r) \<le> e"
proof -
  have "tiled a l h" "tiled (h + z) r e" using assms by (auto simp: tiled_append)
  then show ?thesis using tiled_bytes [of a l h] tiled_bytes [of "h + z" r e] by simp
qed

context block_index
begin

lemma pick_tile:
  assumes "span_ok H s ts" "0 < n" "n \<le> maxSize (freeOf ts)"
  obtains l base z r where "pick n (freeOf ts) = Some (base, z)" "ts = l @ (base, z, None) # r" "n \<le> z"
proof -
  have "distinct (map fst (freeOf ts))" using assms(1) tiled_distinct by (auto simp: span_ok_def)
  then obtain b where b: "b \<in> set (freeOf ts)" "pick n (freeOf ts) = Some b" "n \<le> snd b"
    using pick_least [of "freeOf ts" n] maxSize_reached [OF assms(2,3)] by blast
  have "(fst b, snd b, None) \<in> set ts" using b(1) by (simp add: mem_freeOf [symmetric])
  then obtain l r where "ts = l @ (fst b, snd b, None) # r" using split_list by fastforce
  then show thesis using that [of "fst b" "snd b"] b by simp
qed

lemma allocate_none:
  assumes "largestFreeBlockSize s < computeWorstCaseAlignedSize req align"
  shows "allocateBlock pick req align (s, st) = Inr (None, s, st)"
  using assms by (simp add: allocateBlock_def)

lemma allocate_cuts:
  assumes "span_ok H s ts" "0 < req" "req + 2 ^ k + 48 < 2 ^ 64" "k \<le> 6 \<or> 16 < req"
    "computeWorstCaseAlignedSize req (2 ^ k) \<le> largestFreeBlockSize s"
  obtains l base z r ret h n s' where "ts = l @ (base, z, None) # r" "computeWorstCaseAlignedSize req (2 ^ k) \<le> z"
    "allocateBlock pick req (2 ^ k) (s, st) = Inr (Some ret, s', \<lparr>totalBytesRequested = add_size (totalBytesRequested st) (computeWorstCaseAlignedSize req (2 ^ k)),
       totalBytesInAllocatedBlocks = add_size (totalBytesInAllocatedBlocks st) (n - h)\<rparr>)"
    "span_ok H s' (l @ cutTiles base z h n ret req @ r)" "spanBase s' = spanBase s" "spanSize s' = spanSize s" "releasable s' = releasable s"
    "2 ^ k dvd ret" "base \<le> h" "h + 32 \<le> ret" "ret + req \<le> n" "n \<le> base + z"
proof -
  let ?p = "computeWorstCaseAlignedSize req (2 ^ k)" and ?B = "spanBuffer H s" and ?N = "getBufferSize H s"
  have ok: "16 dvd ?B" "tiled ?B ts (?B + ?N)" "?N < 2 ^ 32" "?B + ?N + 16 \<le> 2 ^ 64" "unallocatedBlocks s = freeOf ts" "allocatedBlocks s = usedOf ts"
    "largestFreeBlockSize s = maxSize (freeOf ts)" "freeSpace s + usedBytes (usedOf ts) = ?N" "apart ts"
    using assms(1) by (auto simp: span_ok_def)
  have "0 < ?p" using worstCase [OF assms(3)] assms(2) by simp
  then obtain l base z r where t: "pick ?p (freeOf ts) = Some (base, z)" "ts = l @ (base, z, None) # r" "?p \<le> z"
    using pick_tile [OF assms(1)] assms(5) ok(7) by metis
  have tl: "tiled ?B l base" "tiled (base + z) r (?B + ?N)" "16 dvd z" "96 \<le> z" using ok(2) t(2) by (auto simp: tiled_append)
  have al: "16 dvd base" by (rule tiled_aligned [OF tl(1) ok(1)])
  have top: "base + z \<le> ?B + ?N" "?B \<le> base" using tiled_bounds(1) [OF tl(2)] tiled_bounds(1) [OF tl(1)] by auto
  define ret where "ret = findFirstAlignedAddressAfterHeaderSpace base (2 ^ k)"
  define h where "h = headerPlace base ret"
  define n where "n = nextPlace h ret req (base + z)"
  have e: "base + z + 16 \<le> 2 ^ 64" using top ok(4) by simp
  note P = block_placement [OF al tl(3,4) e assms(2,3) t(3) assms(4), folded ret_def, folded h_def, folded n_def]
  have pos: "base \<le> h" "h + 32 \<le> ret" "ret + req \<le> n" "n \<le> base + z" "h < n" using P by auto
  have sz: "headerSize (n - h) = n - h" "headerSize (h - base) = h - base" "headerSize (base + z - n) = base + z - n"
    by (rule headerSize_id; use P al tl(3) pos ok(3) top in auto)+
  note S = tiled_sorted [OF ok(2) [unfolded t(2)]]
  define ub where "ub = (h, n - h, if h + 32 \<noteq> ret then Some ret else None, req)"
  define fb where "fb = (if h = base then [] else [(base, h - base)])"
  define fa where "fa = (if n = base + z then [] else [(n, base + z - n)])"
  define s1 where "s1 = s\<lparr>allocatedBlocks := usedOf l @ ub # usedOf r\<rparr>"
  have rem: "removeFreeBlock (base, z) s = setFree (freeOf l @ freeOf r) s"
    using removeFreeBlock_between [of "freeOf l" base "freeOf r" z s] S setFree_self [OF assms(1)] t(2) by auto
  have "\<forall>x\<in>set (usedOf l). fst x < h" "\<forall>y\<in>set (usedOf r). h < fst y" using S(3,4) pos(1,4,5) by (meson le_less_trans less_le_trans)+
  then have "insertBlock ub (usedOf l @ usedOf r) = usedOf l @ ub # usedOf r" unfolding ub_def by (rule insertBlock_between)
  then have s1: "(setFree (freeOf l @ freeOf r) s)\<lparr>allocatedBlocks := insertBlock ub (allocatedBlocks s)\<rparr>
      = setFree (freeOf l @ freeOf r) s1" "freeSpace s1 = freeSpace s"
    using ok(6) t(2) by (simp_all add: setFree_def s1_def)
  have left: "\<forall>x\<in>set (freeOf l). fst x < base" "\<forall>y\<in>set (freeOf r). base + z \<le> fst y \<and> base < fst y" using S(1,2) by blast+
  note put = insert_leftovers [OF left pos(1,5,4), of s1, folded fb_def fa_def]
  define s' where "s' = (setFree (freeOf l @ fb @ fa @ freeOf r) s1)\<lparr>freeSpace := freeSpace s - (n - h)\<rparr>"
  have cut: "freeOf (cutTiles base z h n ret req) = fb @ fa" "usedOf (cutTiles base z h n ret req) = [ub]"
    by (simp_all add: cutTiles_def fb_def fa_def ub_def)
  have fsp: "n - h \<le> freeSpace s" using usedBytes_mid [OF ok(2) [unfolded t(2)]] ok(8) t(2) pos by simp
  have sub: "sub_size (freeSpace s) (n - h) = freeSpace s - (n - h)" "sub_size h base = h - base" "sub_size n h = n - h" "sub_size (base + z) n = base + z - n"
    using fsp pos by simp_all
  have adds: "add_size base z = base + z" "add_size h 32 = h + 32" using e pos by simp_all
  have run: "allocateBlock pick req (2 ^ k) (s, st) = Inr (Some ret, s', \<lparr>totalBytesRequested = add_size (totalBytesRequested st) ?p,
       totalBytesInAllocatedBlocks = add_size (totalBytesInAllocatedBlocks st) (n - h)\<rparr>)"
    using assms(5) t(1) ok(5) unfolding allocateBlock_def
    by (simp only: Let_def fst_conv snd_conv not_less [symmetric] if_False option.case prod.case block_sizes ret_def [symmetric] h_def [symmetric]
        adds n_def [symmetric] sub sz rem ub_def [symmetric] s1 put setFree_sel s'_def)
  have geo: "spanBuffer H s' = ?B" "getBufferSize H s' = ?N" by (simp_all add: s'_def s1_def spanBuffer_def getBufferSize_def)
  have new: "tiled ?B (l @ cutTiles base z h n ret req @ r) (?B + ?N)"
    by (rule retile [OF ok(2) [unfolded t(2)]]) (rule cutTiles_tiled(1) [OF al tl(3) P(2-8) assms(2)])
  have "span_ok H s' (l @ cutTiles base z h n ret req @ r)"
    unfolding span_ok_def geo using ok(1,3,4) new cut_apart [OF ok(9) [unfolded t(2)]] ok(8) t(2) fsp
    by (simp add: cut) (simp add: s'_def s1_def ub_def)
  then show thesis using that [OF t(2,3) run] P(1) pos by (simp add: s'_def s1_def)
qed

end

section \<open>Freeing\<close>

definition dataStart :: "nat \<Rightarrow> nat option \<Rightarrow> nat" where
  "dataStart h d = (case d of None \<Rightarrow> h + 32 | Some p \<Rightarrow> p)"

definition leftFree :: "tile list \<Rightarrow> freeBlock option" where
  "leftFree l = (case lastOpt l of Some (p, pz, None) \<Rightarrow> Some (p, pz) | _ \<Rightarrow> None)"

definition rightFree :: "tile list \<Rightarrow> freeBlock option" where
  "rightFree r = (case headOpt r of Some (q, qz, None) \<Rightarrow> Some (q, qz) | _ \<Rightarrow> None)"

definition joinLeft :: "tile list \<Rightarrow> nat \<Rightarrow> nat \<Rightarrow> tile list \<times> nat \<times> nat" where
  "joinLeft l h z = (case leftFree l of None \<Rightarrow> (l, h, z) | Some (p, pz) \<Rightarrow> (butlast l, p, pz + z))"

definition joinRight :: "tile list \<Rightarrow> nat \<Rightarrow> nat \<times> tile list" where
  "joinRight r z = (case rightFree r of None \<Rightarrow> (z, r) | Some (q, qz) \<Rightarrow> (z + qz, tl r))"

definition freeTiles :: "tile list \<Rightarrow> nat \<Rightarrow> nat \<Rightarrow> tile list \<Rightarrow> tile list" where
  "freeTiles l h z r = (case joinLeft l h z of (l1, h1, z1) \<Rightarrow> case joinRight r z1 of (z2, r1) \<Rightarrow> l1 @ (h1, z2, None) # r1)"

lemma leftFree_None:
  assumes "leftFree l = None" "tiled a l h"
  shows "(case lastOpt (freeOf l) of None \<Rightarrow> None | Some p \<Rightarrow> if fst p + snd p \<noteq> h then None else Some p) = None" "l \<noteq> [] \<Longrightarrow> \<not> isFreeTile (last l)"
proof -
  have "l \<noteq> [] \<longrightarrow> \<not> isFreeTile (last l)"
    using assms(1) by (cases l rule: rev_cases) (auto simp: leftFree_def isFreeTile_def split: option.splits)
  then show last: "l \<noteq> [] \<Longrightarrow> \<not> isFreeTile (last l)" by simp
  show "(case lastOpt (freeOf l) of None \<Rightarrow> None | Some p \<Rightarrow> if fst p + snd p \<noteq> h then None else Some p) = None"
  proof (cases l rule: rev_cases)
    case (snoc l' t)
    obtain th tz u where t: "t = (th, tz, Some u)" using last snoc by (cases t) (auto simp: isFreeTile_def)
    have tl: "tiled a l' th" "h = th + tz" "96 \<le> tz" using assms(2) snoc t by (auto simp: tiled_append)
    have "fst x + snd x \<noteq> h" if "x \<in> set (freeOf l')" for x
      using tiled_bounds(2) [OF tl(1), of "fst x" "snd x" None] that tl(2,3) by (simp add: mem_freeOf [symmetric])
    moreover have "freeOf l = freeOf l'" using snoc t by simp
    ultimately show ?thesis by (cases "freeOf l'" rule: rev_cases) auto
  qed simp
qed

lemma rightFree_None:
  assumes "rightFree r = None" "tiled m r e"
  shows "(case headOpt (freeOf r) of None \<Rightarrow> None | Some q \<Rightarrow> if m \<noteq> fst q then None else Some q) = None" "r \<noteq> [] \<Longrightarrow> \<not> isFreeTile (hd r)"
proof -
  have "r \<noteq> [] \<longrightarrow> \<not> isFreeTile (hd r)"
    using assms(1) by (cases r) (auto simp: rightFree_def isFreeTile_def split: option.splits)
  then show first: "r \<noteq> [] \<Longrightarrow> \<not> isFreeTile (hd r)" by simp
  show "(case headOpt (freeOf r) of None \<Rightarrow> None | Some q \<Rightarrow> if m \<noteq> fst q then None else Some q) = None"
  proof (cases r)
    case (Cons t r')
    obtain th tz u where t: "t = (th, tz, Some u)" using first Cons by (cases t) (auto simp: isFreeTile_def)
    have tl: "tiled (m + tz) r' e" "96 \<le> tz" using assms(2) Cons t by auto
    have "m \<noteq> fst x" if "x \<in> set (freeOf r')" for x
      using tiled_bounds(2) [OF tl(1), of "fst x" "snd x" None] that tl(2) by (simp add: mem_freeOf [symmetric])
    moreover have "freeOf r = freeOf r'" using Cons t by simp
    ultimately show ?thesis by (cases "freeOf r'") auto
  qed simp
qed

lemma leftFree_Some: "leftFree l = Some (p, pz) \<Longrightarrow> l = butlast l @ [(p, pz, None)]"
  by (cases l rule: rev_cases) (auto simp: leftFree_def split: option.splits)

lemma rightFree_Some: "rightFree r = Some (q, qz) \<Longrightarrow> r = (q, qz, None) # tl r"
  by (cases r) (auto simp: rightFree_def split: option.splits)

lemma filter_sides:
  fixes a :: nat
  assumes "\<forall>x\<in>set xs. fst x < a" "\<forall>y\<in>set ys. a < fst y"
  shows "filter (\<lambda>x. fst x < a) (xs @ (a, v) # ys) = xs" "filter (\<lambda>x. a < fst x) (xs @ (a, v) # ys) = ys"
proof -
  have "\<forall>y\<in>set ys. \<not> fst y < a" "\<forall>x\<in>set xs. \<not> a < fst x" using assms by fastforce+
  then have "filter (\<lambda>x. fst x < a) xs = xs" "filter (\<lambda>x. fst x < a) ys = []" "filter (\<lambda>x. a < fst x) xs = []" "filter (\<lambda>x. a < fst x) ys = ys"
    using assms by simp_all
  then show "filter (\<lambda>x. fst x < a) (xs @ (a, v) # ys) = xs" "filter (\<lambda>x. a < fst x) (xs @ (a, v) # ys) = ys" by simp_all
qed

lemma coalesce_neighbours:
  assumes "tiled a (l @ (h, z, u) # r) e"
  shows "(case lastOpt (filter (\<lambda>x. fst x < h) (freeOf l @ (h, z) # freeOf r)) of None \<Rightarrow> None | Some p \<Rightarrow> if fst p + snd p \<noteq> h then None else Some p) = leftFree l"
    "(case headOpt (filter (\<lambda>x. h < fst x) (freeOf l @ (h, z) # freeOf r)) of None \<Rightarrow> None | Some q \<Rightarrow> if h + z \<noteq> fst q then None else Some q) = rightFree r"
proof -
  have t: "tiled a l h" "tiled (h + z) r e" using assms by (auto simp: tiled_append)
  have f: "filter (\<lambda>x. fst x < h) (freeOf l @ (h, z) # freeOf r) = freeOf l" "filter (\<lambda>x. h < fst x) (freeOf l @ (h, z) # freeOf r) = freeOf r"
    by (rule filter_sides; use tiled_sorted [OF assms] in blast)+
  show "(case lastOpt (filter (\<lambda>x. fst x < h) (freeOf l @ (h, z) # freeOf r)) of None \<Rightarrow> None | Some p \<Rightarrow> if fst p + snd p \<noteq> h then None else Some p) = leftFree l"
  proof (cases "leftFree l")
    case (Some p)
    obtain l' where l: "l = l' @ [(fst p, snd p, None)]" using leftFree_Some [of l "fst p" "snd p"] Some by auto
    then have "fst p + snd p = h" using t(1) by (auto simp: tiled_append)
    then show ?thesis unfolding f(1) using Some l by simp
  qed (simp only: f leftFree_None(1) [OF _ t(1)])
  show "(case headOpt (filter (\<lambda>x. h < fst x) (freeOf l @ (h, z) # freeOf r)) of None \<Rightarrow> None | Some q \<Rightarrow> if h + z \<noteq> fst q then None else Some q) = rightFree r"
  proof (cases "rightFree r")
    case (Some q)
    obtain r' where r: "r = (fst q, snd q, None) # r'" using rightFree_Some [of r "fst q" "snd q"] Some by auto
    then have "h + z = fst q" using t(2) by auto
    then show ?thesis unfolding f(2) using Some r by simp
  qed (simp only: f rightFree_None(1) [OF _ t(2)])
qed

lemma joinLeft_ok:
  assumes "tiled a l h" "joinLeft l h z = (l1, h1, z1)" "16 dvd z" "96 \<le> z"
  shows "tiled a l1 h1" "h1 + z1 = h + z" "h1 \<le> h" "16 dvd z1" "96 \<le> z1" "usedOf l1 = usedOf l"
    "apart l \<Longrightarrow> apart l1 \<and> (l1 \<noteq> [] \<longrightarrow> \<not> isFreeTile (last l1))"
    "\<forall>y\<in>set ys. h \<le> fst y \<Longrightarrow>
      (case leftFree l of None \<Rightarrow> setFree (freeOf l @ ys) s | Some p \<Rightarrow> removeFreeBlock p (setFree (freeOf l @ ys) s)) = setFree (freeOf l1 @ ys) s"
    "z1 < 2 ^ 32 \<Longrightarrow> (case leftFree l of None \<Rightarrow> (h, z) | Some p \<Rightarrow> (fst p, headerSize (snd p + z))) = (h1, z1)"
proof -
  have "tiled a l1 h1 \<and> h1 + z1 = h + z \<and> h1 \<le> h \<and> 16 dvd z1 \<and> 96 \<le> z1 \<and> usedOf l1 = usedOf l \<and> (apart l \<longrightarrow> apart l1 \<and> (l1 \<noteq> [] \<longrightarrow> \<not> isFreeTile (last l1)))
    \<and> (z1 < 2 ^ 32 \<longrightarrow> (case leftFree l of None \<Rightarrow> (h, z) | Some p \<Rightarrow> (fst p, headerSize (snd p + z))) = (h1, z1))
    \<and> ((\<forall>y\<in>set ys. h \<le> fst y) \<longrightarrow>
      (case leftFree l of None \<Rightarrow> setFree (freeOf l @ ys) s | Some p \<Rightarrow> removeFreeBlock p (setFree (freeOf l @ ys) s)) = setFree (freeOf l1 @ ys) s)"
  proof (cases "leftFree l")
    case None
    then show ?thesis using assms leftFree_None(2) [OF None assms(1)] by (auto simp: joinLeft_def)
  next
    case (Some p)
    obtain ph pz where p: "p = (ph, pz)" by (cases p)
    have l: "l = butlast l @ [(ph, pz, None)]" by (rule leftFree_Some) (use Some p in simp)
    have e: "l1 = butlast l" "h1 = ph" "z1 = pz + z" using assms(2) Some p by (auto simp: joinLeft_def)
    have ll: "l = l1 @ [(ph, pz, None)]" using l e(1) by simp
    have t: "tiled a l1 ph" "ph + pz = h" "16 dvd pz" "96 \<le> pz" using assms(1) ll by (auto simp: tiled_append)
    have "removeFreeBlock (ph, pz) (setFree (freeOf l1 @ (ph, pz) # ys) s) = setFree (freeOf l1 @ ys) s" if "\<forall>y\<in>set ys. h \<le> fst y"
      by (rule removeFreeBlock_between) (use tiled_sorted(1) [of a l1 ph pz None "[]" h] assms(1) ll that t(2,4) in fastforce)+
    moreover have "apart l \<longrightarrow> apart l1 \<and> (l1 \<noteq> [] \<longrightarrow> \<not> isFreeTile (last l1))" by (simp add: ll apart_append isFreeTile_def)
    moreover have "usedOf l1 = usedOf l" "freeOf l = freeOf l1 @ [(ph, pz)]" by (simp_all add: ll)
    ultimately show ?thesis using Some p e t assms(3,4) headerSize_id [of "pz + z"] by simp
  qed
  then show "tiled a l1 h1" "h1 + z1 = h + z" "h1 \<le> h" "16 dvd z1" "96 \<le> z1" "usedOf l1 = usedOf l"
    "apart l \<Longrightarrow> apart l1 \<and> (l1 \<noteq> [] \<longrightarrow> \<not> isFreeTile (last l1))"
    "\<forall>y\<in>set ys. h \<le> fst y \<Longrightarrow>
      (case leftFree l of None \<Rightarrow> setFree (freeOf l @ ys) s | Some p \<Rightarrow> removeFreeBlock p (setFree (freeOf l @ ys) s)) = setFree (freeOf l1 @ ys) s"
    "z1 < 2 ^ 32 \<Longrightarrow> (case leftFree l of None \<Rightarrow> (h, z) | Some p \<Rightarrow> (fst p, headerSize (snd p + z))) = (h1, z1)"
    by blast+
qed

lemma joinRight_ok:
  assumes "tiled (h1 + z1) r e" "joinRight r z1 = (z2, r1)" "16 dvd z1" "96 \<le> z1"
  shows "tiled (h1 + z2) r1 e" "16 dvd z2" "z1 \<le> z2" "usedOf r1 = usedOf r" "apart r \<Longrightarrow> apart r1 \<and> (r1 \<noteq> [] \<longrightarrow> \<not> isFreeTile (hd r1))"
    "\<forall>x\<in>set xs. fst x < h1 \<Longrightarrow>
      (case rightFree r of None \<Rightarrow> setFree (xs @ freeOf r) s | Some q \<Rightarrow> removeFreeBlock q (setFree (xs @ freeOf r) s)) = setFree (xs @ freeOf r1) s"
    "z2 < 2 ^ 32 \<Longrightarrow> (case rightFree r of None \<Rightarrow> (h1, z1) | Some q \<Rightarrow> (h1, headerSize (z1 + snd q))) = (h1, z2)"
proof -
  have "tiled (h1 + z2) r1 e \<and> 16 dvd z2 \<and> z1 \<le> z2 \<and> usedOf r1 = usedOf r \<and> (apart r \<longrightarrow> apart r1 \<and> (r1 \<noteq> [] \<longrightarrow> \<not> isFreeTile (hd r1)))
    \<and> (z2 < 2 ^ 32 \<longrightarrow> (case rightFree r of None \<Rightarrow> (h1, z1) | Some q \<Rightarrow> (h1, headerSize (z1 + snd q))) = (h1, z2))
    \<and> ((\<forall>x\<in>set xs. fst x < h1) \<longrightarrow>
      (case rightFree r of None \<Rightarrow> setFree (xs @ freeOf r) s | Some q \<Rightarrow> removeFreeBlock q (setFree (xs @ freeOf r) s)) = setFree (xs @ freeOf r1) s)"
  proof (cases "rightFree r")
    case None
    then show ?thesis using assms rightFree_None(2) [OF None assms(1)] by (auto simp: joinRight_def)
  next
    case (Some q)
    obtain qh qz where q: "q = (qh, qz)" by (cases q)
    have r: "r = (qh, qz, None) # tl r" by (rule rightFree_Some) (use Some q in simp)
    have e: "r1 = tl r" "z2 = z1 + qz" using assms(2) Some q by (auto simp: joinRight_def)
    have rr: "r = (qh, qz, None) # r1" using r e(1) by simp
    have t: "tiled (h1 + z2) r1 e" "qh = h1 + z1" "16 dvd qz" "96 \<le> qz" using assms(1) rr e(2) by (auto simp: add.assoc)
    have "removeFreeBlock (qh, qz) (setFree (xs @ (qh, qz) # freeOf r1) s) = setFree (xs @ freeOf r1) s" if "\<forall>x\<in>set xs. fst x < h1"
      by (rule removeFreeBlock_between) (use tiled_sorted(2) [of "h1 + z1" "[]" qh qz None r1 e] assms(1) rr that t(2,4) in fastforce)+
    moreover have "apart r \<longrightarrow> apart r1 \<and> (r1 \<noteq> [] \<longrightarrow> \<not> isFreeTile (hd r1))" by (simp add: rr apart_Cons isFreeTile_def)
    moreover have "usedOf r1 = usedOf r" "freeOf r = (qh, qz) # freeOf r1" by (simp_all add: rr)
    ultimately show ?thesis using Some q e t assms(3) headerSize_id [of "z1 + qz"] by simp
  qed
  then show "tiled (h1 + z2) r1 e" "16 dvd z2" "z1 \<le> z2" "usedOf r1 = usedOf r" "apart r \<Longrightarrow> apart r1 \<and> (r1 \<noteq> [] \<longrightarrow> \<not> isFreeTile (hd r1))"
    "\<forall>x\<in>set xs. fst x < h1 \<Longrightarrow>
      (case rightFree r of None \<Rightarrow> setFree (xs @ freeOf r) s | Some q \<Rightarrow> removeFreeBlock q (setFree (xs @ freeOf r) s)) = setFree (xs @ freeOf r1) s"
    "z2 < 2 ^ 32 \<Longrightarrow> (case rightFree r of None \<Rightarrow> (h1, z1) | Some q \<Rightarrow> (h1, headerSize (z1 + snd q))) = (h1, z2)"
    by blast+
qed

lemma freeTiles_eq:
  obtains l1 h1 z1 z2 r1 where "joinLeft l h z = (l1, h1, z1)" "joinRight r z1 = (z2, r1)" "freeTiles l h z r = l1 @ (h1, z2, None) # r1"
  by (cases "joinLeft l h z", cases "joinRight r (snd (snd (joinLeft l h z)))") (auto simp: freeTiles_def)

lemma joins_none: "leftFree l = None \<Longrightarrow> rightFree r = None \<Longrightarrow> freeTiles l h z r = l @ (h, z, None) # r"
  by (simp add: freeTiles_def joinLeft_def joinRight_def)

lemma freeTiles_tiled:
  assumes "tiled a (l @ (h, z, u) # r) e" "apart (l @ (h, z, u) # r)"
  shows "tiled a (freeTiles l h z r) e" "apart (freeTiles l h z r)" "usedOf (freeTiles l h z r) = usedOf l @ usedOf r"
proof -
  have t: "tiled a l h" "tiled (h + z) r e" "16 dvd z" "96 \<le> z" "apart l" "apart r" using assms by (auto simp: tiled_append apart_append apart_Cons)
  obtain l1 h1 z1 z2 r1 where j: "joinLeft l h z = (l1, h1, z1)" "joinRight r z1 = (z2, r1)" "freeTiles l h z r = l1 @ (h1, z2, None) # r1"
    by (rule freeTiles_eq)
  note L = joinLeft_ok [OF t(1) j(1) t(3,4)]
  have "tiled (h1 + z1) r e" using L(2) t(2) by simp
  note R = joinRight_ok [OF this j(2) L(4,5)]
  show "tiled a (freeTiles l h z r) e" "usedOf (freeTiles l h z r) = usedOf l @ usedOf r"
    unfolding j(3) using L(1,5,6) R(1-4) by (auto simp: tiled_append)
  show "apart (freeTiles l h z r)" unfolding j(3) using L(7) [OF t(5)] R(5) [OF t(6)] by (auto simp: apart_append apart_Cons)
qed

lemma coalesce_tiles:
  assumes "tiled a (l @ (h, z, u) # r) e" "e < a + 2 ^ 32"
  shows "coalesceAdjacentFreeBlocks (h, z) (setFree (freeOf l @ (h, z) # freeOf r) s) = setFree (freeOf (freeTiles l h z r)) s"
proof -
  have t: "tiled a l h" "tiled (h + z) r e" "16 dvd z" "96 \<le> z" using assms(1) by (auto simp: tiled_append)
  note S = tiled_sorted [OF assms(1)] and N = coalesce_neighbours [OF assms(1)]
  obtain l1 h1 z1 z2 r1 where j: "joinLeft l h z = (l1, h1, z1)" "joinRight r z1 = (z2, r1)" "freeTiles l h z r = l1 @ (h1, z2, None) # r1"
    by (rule freeTiles_eq)
  note L = joinLeft_ok [OF t(1) j(1) t(3,4)]
  have t1: "tiled (h1 + z1) r e" using L(2) t(2) by simp
  note R = joinRight_ok [OF t1 j(2) L(4,5)]
  have "a \<le> h1" "h1 + z2 \<le> e" using tiled_bounds(1) [OF L(1)] tiled_bounds(1) [OF R(1)] by auto
  then have small: "z1 < 2 ^ 32" "z2 < 2 ^ 32" using R(3) assms(2) by auto
  have T: "tiled a (l1 @ (h1, z2, None) # r1) e" using L(1,5) R(1-3) by (auto simp: tiled_append)
  note S1 = tiled_sorted [OF T]
  have a1: "removeFreeBlock (h, z) (setFree (freeOf l @ (h, z) # freeOf r) s) = setFree (freeOf l @ freeOf r) s"
    by (rule removeFreeBlock_between) (use S(1,2) in blast)+
  have "\<forall>y\<in>set (freeOf r). h \<le> fst y" using S(2) by (auto intro: less_imp_le)
  note a2 = L(8) [OF this, of s]
  have "\<forall>x\<in>set (freeOf l1). fst x < h1" using S1(1) by blast
  note a3 = R(6) [OF this, of s]
  have a4: "insertFreeBlock (h1, z2) (setFree (freeOf l1 @ freeOf r1) s) = setFree (freeOf l1 @ (h1, z2) # freeOf r1) s"
    by (rule insertFreeBlock_between) (use S1(1,2) in blast)+
  show ?thesis
  proof (cases "leftFree l = None \<and> rightFree r = None")
    case True
    then show ?thesis unfolding coalesceAdjacentFreeBlocks_def setFree_sel fst_conv snd_conv N Let_def by (simp add: joins_none)
  next
    case False
    then show ?thesis
      unfolding coalesceAdjacentFreeBlocks_def setFree_sel fst_conv snd_conv N Let_def j(3)
      by (simp only: if_False a1 a2 a3 L(9) [OF small(1)] R(7) [OF small(2)] fst_conv snd_conv a4 freeOf_append freeOf.simps)
  qed
qed

lemma data_inside:
  assumes "tileUse h z (Some (d, req))" "96 \<le> z"
  shows "h + 32 \<le> dataStart h d" "dataStart h d + req \<le> h + z" "0 < req"
  using assms by (cases d; simp add: dataStart_def)+

lemma validated_sound: "getValidatedHeaderForPtr ptr s = Some (h, z, d, req) \<Longrightarrow> (h, z, d, req) \<in> set (allocatedBlocks s) \<and> ptr = dataStart h d"
proof -
  assume a: "getValidatedHeaderForPtr ptr s = Some (h, z, d, req)"
  then have l: "lastOpt (filter (\<lambda>x. fst x \<le> ptr) (allocatedBlocks s)) = Some (h, z, d, req)" and p: "ptr = dataStart h d"
    unfolding getValidatedHeaderForPtr_def by (auto simp: dataStart_def split: option.splits if_splits)
  have "(h, z, d, req) \<in> set (filter (\<lambda>x. fst x \<le> ptr) (allocatedBlocks s))"
    using l by (cases "filter (\<lambda>x. fst x \<le> ptr) (allocatedBlocks s)" rule: rev_cases) auto
  then show ?thesis using p by simp
qed

lemma validated_complete:
  assumes "tiled a (l @ (h, z, Some (d, req)) # r) e" "allocatedBlocks s = usedOf l @ (h, z, d, req) # usedOf r"
  shows "getValidatedHeaderForPtr (dataStart h d) s = Some (h, z, d, req)"
proof -
  note S = tiled_sorted [OF assms(1)]
  have u: "tileUse h z (Some (d, req))" "96 \<le> z" using assms(1) by (auto simp: tiled_append)
  have p: "h \<le> dataStart h d" "dataStart h d < h + z" using data_inside [OF u] by auto
  have "\<forall>x\<in>set (usedOf l). fst x \<le> dataStart h d" using S(3) p(1) by (meson le_trans less_imp_le)
  moreover have "\<forall>x\<in>set (usedOf r). \<not> fst x \<le> dataStart h d" using S(4) p(2) by (meson leD le_trans less_le_trans)
  ultimately have "filter (\<lambda>x. fst x \<le> dataStart h d) (allocatedBlocks s) = usedOf l @ [(h, z, d, req)]" using p(1) assms(2) by simp
  then show ?thesis unfolding getValidatedHeaderForPtr_def by (auto simp: dataStart_def split: option.splits)
qed

lemma free_rejects:
  assumes "span_ok H s ts" "\<And>h z d req. (h, z, Some (d, req)) \<in> set ts \<Longrightarrow> ptr \<noteq> dataStart h d"
  shows "freeSpanBlock ptr (s, st) = (False, s, st)"
proof -
  have "getValidatedHeaderForPtr ptr s = None"
  proof (rule ccontr)
    assume "\<not> ?thesis"
    then obtain h z d req where "getValidatedHeaderForPtr ptr s = Some (h, z, d, req)" by auto
    then have "(h, z, Some (d, req)) \<in> set ts" "ptr = dataStart h d"
      using validated_sound [of ptr s h z d req] assms(1) by (auto simp: span_ok_def mem_usedOf)
    then show False using assms(2) by blast
  qed
  then show ?thesis by (simp add: freeSpanBlock_def)
qed

lemma free_joins:
  assumes "span_ok H s (l @ (h, z, Some (d, req)) # r)"
  obtains s' where "freeSpanBlock (dataStart h d) (s, st) = (True, s', \<lparr>totalBytesRequested = sub_size (totalBytesRequested st) req,
       totalBytesInAllocatedBlocks = sub_size (totalBytesInAllocatedBlocks st) z\<rparr>)"
    "span_ok H s' (freeTiles l h z r)" "spanBase s' = spanBase s" "spanSize s' = spanSize s" "releasable s' = releasable s"
proof -
  let ?B = "spanBuffer H s" and ?N = "getBufferSize H s" and ?ts = "l @ (h, z, Some (d, req)) # r"
  have ok: "16 dvd ?B" "tiled ?B ?ts (?B + ?N)" "?N < 2 ^ 32" "?B + ?N + 16 \<le> 2 ^ 64" "unallocatedBlocks s = freeOf l @ freeOf r"
    "allocatedBlocks s = usedOf l @ (h, z, d, req) # usedOf r" "largestFreeBlockSize s = maxSize (freeOf l @ freeOf r)"
    "freeSpace s + usedBytes (usedOf l @ (h, z, d, req) # usedOf r) = ?N" "apart ?ts"
    using assms by (auto simp: span_ok_def)
  note S = tiled_sorted [OF ok(2)]
  define s1 where "s1 = s\<lparr>allocatedBlocks := usedOf l @ usedOf r\<rparr>"
  have s1: "s\<lparr>allocatedBlocks := removeBlock h (allocatedBlocks s)\<rparr> = setFree (freeOf l @ freeOf r) s1"
    using removeBlock_between [of "usedOf l" h "usedOf r" "(z, d, req)"] S(3,4) ok(5,6,7) by (simp add: s1_def setFree_def)
  have s2: "insertFreeBlock (h, z) (setFree (freeOf l @ freeOf r) s1) = setFree (freeOf l @ (h, z) # freeOf r) s1"
    by (rule insertFreeBlock_between) (use S(1,2) in blast)+
  have s3: "coalesceAdjacentFreeBlocks (h, z) (setFree (freeOf l @ (h, z) # freeOf r) s1) = setFree (freeOf (freeTiles l h z r)) s1"
    by (rule coalesce_tiles [OF ok(2)]) (use ok(3) in simp)
  have fs: "freeSpace s1 = freeSpace s" "add_size (freeSpace s) z = freeSpace s + z" using ok(3,8) by (simp_all add: s1_def)
  define s' where "s' = (setFree (freeOf (freeTiles l h z r)) s1)\<lparr>freeSpace := freeSpace s + z\<rparr>"
  have run: "freeSpanBlock (dataStart h d) (s, st) = (True, s', \<lparr>totalBytesRequested = sub_size (totalBytesRequested st) req,
       totalBytesInAllocatedBlocks = sub_size (totalBytesInAllocatedBlocks st) z\<rparr>)"
    unfolding freeSpanBlock_def fst_conv snd_conv validated_complete [OF ok(2,6)] option.case prod.case Let_def s1 s2 s3 setFree_sel fs s'_def ..
  have geo: "spanBuffer H s' = ?B" "getBufferSize H s' = ?N" by (simp_all add: s'_def s1_def spanBuffer_def getBufferSize_def)
  note T = freeTiles_tiled [OF ok(2,9)]
  have "span_ok H s' (freeTiles l h z r)"
    unfolding span_ok_def geo using ok(1,3,4,8) T(1,2) by (simp add: T(3)) (simp add: s'_def s1_def)
  then show thesis using that [OF run] by (simp add: s'_def s1_def)
qed

section \<open>New spans, and the span of a tiling\<close>

lemma newSpan_ok:
  assumes "base + H + 112 \<le> base + bytes" "base + bytes + 16 \<le> 2 ^ 64" "16 dvd base + bytes" "bytes < 2 ^ 32"
  defines "s \<equiv> newSpan H base bytes"
  shows "span_ok H s [(spanBuffer H s, getBufferSize H s, None)]" "spanBase s = base" "spanSize s = bytes" "releasable s"
    "base + H \<le> spanBuffer H s" "spanBuffer H s < base + H + 16" "spanBuffer H s + getBufferSize H s = base + bytes"
proof -
  have sel: "spanBase s = base" "spanSize s = bytes" "releasable s" by (simp_all add: s_def newSpan_def Let_def insertFreeBlock_def)
  have B: "16 dvd spanBuffer H s" "base + H \<le> spanBuffer H s" "spanBuffer H s < base + H + 16"
    using alignUp_block [of "base + H"] assms(1,2) by (simp_all add: spanBuffer_def sel)
  have N: "spanBuffer H s + getBufferSize H s = base + bytes" using B(3) assms(1) by (simp add: getBufferSize_def sel)
  have n: "16 dvd getBufferSize H s" using N B(1) assms(3) by (metis dvd_add_right_iff)
  have big: "96 \<le> getBufferSize H s" "getBufferSize H s < 2 ^ 32" using N B(2,3) assms(1,4) by linarith+
  have hs: "headerSize (getBufferSize H s) = getBufferSize H s" by (rule headerSize_id [OF n big(2)])
  let ?raw = "\<lparr>spanBase = base, spanSize = bytes, releasable = True, unallocatedBlocks = [], allocatedBlocks = [], freeSpace = 0, largestFreeBlockSize = 0\<rparr>"
  have raw: "getBufferSize H ?raw = getBufferSize H s" "spanBuffer H ?raw = spanBuffer H s"
    by (simp_all add: getBufferSize_def spanBuffer_def sel)
  define b m where "b = spanBuffer H s" and "m = getBufferSize H s"
  have "newSpan H base bytes = insertFreeBlock (b, m) (?raw\<lparr>freeSpace := m, largestFreeBlockSize := m\<rparr>)"
    unfolding newSpan_def Let_def raw hs b_def m_def ..
  then have "unallocatedBlocks s = [(b, m)]" "allocatedBlocks s = []" "freeSpace s = m" "largestFreeBlockSize s = m"
    unfolding s_def [symmetric] by (simp_all add: insertFreeBlock_def insertBlock_def)
  then show "span_ok H s [(spanBuffer H s, getBufferSize H s, None)]"
    using B(1) N n big assms(2) by (simp add: span_ok_def b_def m_def)
  show "spanBase s = base" "spanSize s = bytes" "releasable s" by (rule sel)+
  show "base + H \<le> spanBuffer H s" "spanBuffer H s < base + H + 16" "spanBuffer H s + getBufferSize H s = base + bytes" using B N by auto
qed

lemma span_ok_unique:
  assumes "span_ok H s ts" "span_ok H s' ts" "spanBase s' = spanBase s" "spanSize s' = spanSize s" "releasable s' = releasable s"
  shows "s' = s"
proof -
  have "spanBuffer H s' = spanBuffer H s" "getBufferSize H s' = getBufferSize H s" using assms(3,4) by (simp_all add: spanBuffer_def getBufferSize_def)
  then show ?thesis using assms by (auto simp: span_ok_def intro!: memorySpan.equality)
qed

lemma freeTiles_cut:
  assumes "apart (l @ (base, z, None) # r)" "base \<le> h" "h < n" "n \<le> base + z" "tiled a (l @ (base, z, None) # r) e"
  defines "lo \<equiv> if h = base then [] else [(base, h - base, None)]" and "hi \<equiv> if n = base + z then [] else [(n, base + z - n, None)]"
  shows "freeTiles (l @ lo) h (n - h) (hi @ r) = l @ (base, z, None) # r"
proof -
  have ends: "l \<noteq> [] \<Longrightarrow> \<not> isFreeTile (last l)" "r \<noteq> [] \<Longrightarrow> \<not> isFreeTile (hd r)"
    using assms(1) by (auto simp: apart_append apart_Cons isFreeTile_def)
  have l: "leftFree l = None" using ends(1) by (cases l rule: rev_cases) (auto simp: leftFree_def isFreeTile_def split: option.splits)
  have r: "rightFree r = None" using ends(2) by (cases r) (auto simp: rightFree_def isFreeTile_def split: option.splits)
  have "joinLeft (l @ lo) h (n - h) = (l, base, n - base)"
    using l assms(2,3) by (auto simp: joinLeft_def lo_def leftFree_def)
  moreover have "joinRight (hi @ r) (n - base) = (z, r)"
    using r assms(2,3,4) by (auto simp: joinRight_def hi_def rightFree_def)
  ultimately show ?thesis by (simp add: freeTiles_def)
qed

section \<open>Round trip\<close>

context block_index
begin

lemma allocate_then_free:
  assumes "span_ok H s ts" "0 < req" "req + 2 ^ k + 48 < 2 ^ 64" "k \<le> 6 \<or> 16 < req"
    "computeWorstCaseAlignedSize req (2 ^ k) \<le> largestFreeBlockSize s"
    "totalBytesRequested st + computeWorstCaseAlignedSize req (2 ^ k) < 2 ^ 64" "totalBytesInAllocatedBlocks st + getBufferSize H s < 2 ^ 64"
  obtains ret s' st' where "allocateBlock pick req (2 ^ k) (s, st) = Inr (Some ret, s', st')"
    "freeSpanBlock ret (s', st') = (True, s, st\<lparr>totalBytesRequested := totalBytesRequested st + computeWorstCaseAlignedSize req (2 ^ k) - req\<rparr>)"
proof -
  let ?p = "computeWorstCaseAlignedSize req (2 ^ k)"
  obtain l base z r ret h n s' where A: "ts = l @ (base, z, None) # r" "?p \<le> z"
    "allocateBlock pick req (2 ^ k) (s, st) = Inr (Some ret, s', \<lparr>totalBytesRequested = add_size (totalBytesRequested st) ?p,
       totalBytesInAllocatedBlocks = add_size (totalBytesInAllocatedBlocks st) (n - h)\<rparr>)"
    "span_ok H s' (l @ cutTiles base z h n ret req @ r)" "spanBase s' = spanBase s" "spanSize s' = spanSize s" "releasable s' = releasable s"
    "2 ^ k dvd ret" "base \<le> h" "h + 32 \<le> ret" "ret + req \<le> n" "n \<le> base + z"
    by (rule allocate_cuts [OF assms(1-5)])
  let ?lo = "if h = base then [] else [(base, h - base, None)]" and ?hi = "if n = base + z then [] else [(n, base + z - n, None)]"
  let ?d = "if h + 32 \<noteq> ret then Some ret else None"
  have T: "span_ok H s' ((l @ ?lo) @ (h, n - h, Some (?d, req)) # (?hi @ r))" using A(4) by (simp add: cutTiles_def)
  have ds: "dataStart h ?d = ret" by (simp add: dataStart_def)
  obtain s'' where F: "freeSpanBlock ret (s', \<lparr>totalBytesRequested = add_size (totalBytesRequested st) ?p, totalBytesInAllocatedBlocks = add_size (totalBytesInAllocatedBlocks st) (n - h)\<rparr>)
      = (True, s'', \<lparr>totalBytesRequested = sub_size (add_size (totalBytesRequested st) ?p) req,
         totalBytesInAllocatedBlocks = sub_size (add_size (totalBytesInAllocatedBlocks st) (n - h)) (n - h)\<rparr>)"
    "span_ok H s'' (freeTiles (l @ ?lo) h (n - h) (?hi @ r))" "spanBase s'' = spanBase s'" "spanSize s'' = spanSize s'" "releasable s'' = releasable s'"
    using free_joins [OF T] unfolding ds by (metis spanStats.select_convs)
  have ok: "tiled (spanBuffer H s) ts (spanBuffer H s + getBufferSize H s)" "apart ts" using assms(1) by (auto simp: span_ok_def)
  have "freeTiles (l @ ?lo) h (n - h) (?hi @ r) = ts"
    unfolding A(1) by (rule freeTiles_cut [OF ok(2) [unfolded A(1)] A(9) _ A(12) ok(1) [unfolded A(1)]]) (use A(10,11) assms(2) in simp)
  then have "s'' = s" using span_ok_unique [OF assms(1), of s''] F(2-5) A(5-7) by simp
  moreover have "n - h \<le> getBufferSize H s" using tiled_bounds(2) [OF ok(1), of base z None] A(1,9,12) by auto
  moreover have "req \<le> ?p" using worstCase [OF assms(3)] by (simp split: if_splits)
  ultimately show thesis using that [OF A(3)] F(1) assms(6,7) by simp
qed

end

end
