(* ===== verification/Coarse_Heap.thy ===== *)
theory Coarse_Heap
  imports Heap_Span_Laws
begin

text \<open>
  \<open>CoarseInternalAllocator\<close> of \<open>LibAlloc/InternalAllocator.cpp\<close>: the memory spans of the heap, ordered by address and by free space, and the
  statistics. The spans are the list of the tree by address; the tree by free space has the same spans in the order of
  \<open>MemorySpanUnallocatedComparator\<close>, and since its shape depends on the history of the heap it is a function of that order, with the
  contract of the locale \<open>span_index\<close>. The pages come from the backend, whose answer is an argument.
\<close>

section \<open>Operations\<close>

record coarseHeap =
  spans :: "memorySpan list"
  blockStats :: spanStats
  totalSystemMemoryAllocated :: nat
  totalSizeOfSpanHeaders :: nat

definition minimumSpanSize :: nat where "minimumSpanSize = 16 * 1024"

definition backendPageSize :: nat where "backendPageSize = 4096"

text \<open>The largest free block in the subtree, as \<open>recomputeAugmentedData\<close> keeps it.\<close>

fun largestFreeBlockInMallocSubtree :: "memorySpan tree \<Rightarrow> nat" where
  "largestFreeBlockInMallocSubtree \<langle>\<rangle> = 0"
| "largestFreeBlockInMallocSubtree \<langle>l, s, r\<rangle> =
     max (largestFreeBlockSize s) (max (largestFreeBlockInMallocSubtree l) (largestFreeBlockInMallocSubtree r))"

fun fittingSpanLoop :: "nat \<Rightarrow> memorySpan option \<Rightarrow> memorySpan tree \<Rightarrow> memorySpan option" where
  "fittingSpanLoop paddedSize best \<langle>\<rangle> = best"
| "fittingSpanLoop paddedSize best \<langle>l, s, r\<rangle> =
     (if largestFreeBlockInMallocSubtree \<langle>l, s, r\<rangle> < paddedSize then best
      else if paddedSize \<le> largestFreeBlockSize s then fittingSpanLoop paddedSize (Some s) l
      else if l \<noteq> \<langle>\<rangle> \<and> paddedSize \<le> largestFreeBlockInMallocSubtree l then fittingSpanLoop paddedSize best l
      else fittingSpanLoop paddedSize best r)"

text \<open>The order of \<open>MemorySpanUnallocatedComparator\<close>: the sort is stable and the spans are in the order of their addresses.\<close>

definition spansByFreeSpace :: "coarseHeap \<Rightarrow> memorySpan list" where
  "spansByFreeSpace c = sort_key freeSpace (spans c)"

definition findMostOccupiedSpanFittingRequest :: "(memorySpan list \<Rightarrow> memorySpan tree) \<Rightarrow> nat \<Rightarrow> nat \<Rightarrow> coarseHeap \<Rightarrow> memorySpan option" where
  "findMostOccupiedSpanFittingRequest shp req align c =
     fittingSpanLoop (computeWorstCaseAlignedSize req align) None (shp (spansByFreeSpace c))"

definition findSpanContaining :: "nat \<Rightarrow> coarseHeap \<Rightarrow> memorySpan option" where
  "findSpanContaining ptr c =
     (case lastOpt (filter (\<lambda>s. spanBase s \<le> ptr) (spans c)) of
        None \<Rightarrow> None
      | Some s \<Rightarrow> if spanBase s + spanSize s \<le> ptr then None else Some s)"

definition insertSpan :: "memorySpan \<Rightarrow> memorySpan list \<Rightarrow> memorySpan list" where
  "insertSpan s xs = takeWhile (\<lambda>x. spanBase x < spanBase s) xs @ s # dropWhile (\<lambda>x. spanBase x < spanBase s) xs"

definition replaceSpan :: "memorySpan \<Rightarrow> memorySpan list \<Rightarrow> memorySpan list" where
  "replaceSpan s xs = map (\<lambda>x. if spanBase x = spanBase s then s else x) xs"

definition createSpan :: "nat \<Rightarrow> nat \<Rightarrow> nat \<Rightarrow> coarseHeap \<Rightarrow> coarseHeap" where
  "createSpan sizeofSpan bytes base c =
     c\<lparr>spans := insertSpan (newSpan sizeofSpan base bytes) (spans c),
       totalSystemMemoryAllocated := add_size (totalSystemMemoryAllocated c) bytes,
       totalSizeOfSpanHeaders := add_size (totalSizeOfSpanHeaders c) sizeofSpan\<rparr>"

definition grantSpan :: "nat \<Rightarrow> nat \<Rightarrow> nat \<Rightarrow> coarseHeap \<Rightarrow> coarseHeap" where
  "grantSpan sizeofSpan buffer bytes c =
     (let c1 = createSpan sizeofSpan bytes buffer c
      in c1\<lparr>spans := map (\<lambda>x. if spanBase x = buffer then markUnreleasable x else x) (spans c1)\<rparr>)"

definition emptyHeap :: coarseHeap where
  "emptyHeap = \<lparr>spans = [], blockStats = \<lparr>totalBytesRequested = 0, totalBytesInAllocatedBlocks = 0\<rparr>, totalSystemMemoryAllocated = 0, totalSizeOfSpanHeaders = 0\<rparr>"

text \<open>The pages that go back to the backend are the second result.\<close>

definition destroySpan :: "nat \<Rightarrow> memorySpan \<Rightarrow> coarseHeap \<Rightarrow> coarseHeap \<times> (nat \<times> nat) option" where
  "destroySpan sizeofSpan s c =
     (if \<not> releasable s then (c, None)
      else (c\<lparr>spans := filter (\<lambda>x. spanBase x \<noteq> spanBase s) (spans c),
              totalSystemMemoryAllocated := sub_size (totalSystemMemoryAllocated c) (spanSize s),
              totalSizeOfSpanHeaders := sub_size (totalSizeOfSpanHeaders c) sizeofSpan\<rparr>,
            Some (spanBase s, spanSize s div backendPageSize)))"

definition coarseFree :: "nat \<Rightarrow> nat \<Rightarrow> coarseHeap \<Rightarrow> bool \<times> coarseHeap \<times> (nat \<times> nat) option" where
  "coarseFree sizeofSpan ptr c =
     (case findSpanContaining ptr c of
        None \<Rightarrow> (False, c, None)
      | Some s \<Rightarrow>
          (case freeSpanBlock ptr (s, blockStats c) of
             (out, s1, st) \<Rightarrow>
               let c1 = c\<lparr>spans := replaceSpan s1 (spans c), blockStats := st\<rparr>
               in (out, if freeSpace s1 = getBufferSize sizeofSpan s1 then destroySpan sizeofSpan s1 c1 else (c1, None))))"

definition allocateInSpan :: "(nat \<Rightarrow> freeBlock list \<Rightarrow> freeBlock option) \<Rightarrow> nat \<Rightarrow> nat \<Rightarrow> memorySpan \<Rightarrow> coarseHeap \<Rightarrow> (nat option \<times> coarseHeap) outcome" where
  "allocateInSpan pick req align s c =
     bindO (allocateBlock pick req align (s, blockStats c)) (\<lambda>(out, s1, st). Inr (out, c\<lparr>spans := replaceSpan s1 (spans c), blockStats := st\<rparr>))"

definition newSpanBytes :: "nat \<Rightarrow> nat \<Rightarrow> nat" where
  "newSpanBytes sizeofSpan paddedSize =
     unat (roundUpToNearestMultiple (of_nat (max (add_size (add_size paddedSize paddedSize) sizeofSpan) minimumSpanSize) :: u64) (of_nat backendPageSize))"

definition coarseAllocate :: "(memorySpan list \<Rightarrow> memorySpan tree) \<Rightarrow> (nat \<Rightarrow> freeBlock list \<Rightarrow> freeBlock option) \<Rightarrow> (nat \<Rightarrow> nat option) \<Rightarrow> nat
    \<Rightarrow> nat \<Rightarrow> nat \<Rightarrow> coarseHeap \<Rightarrow> (nat option \<times> coarseHeap) outcome" where
  "coarseAllocate shp pick allocPages sizeofSpan req align c =
     (case findMostOccupiedSpanFittingRequest shp req align c of
        Some s \<Rightarrow> allocateInSpan pick req align s c
      | None \<Rightarrow>
          let paddedSize = computeWorstCaseAlignedSize req align; bytes = newSpanBytes sizeofSpan paddedSize
          in case allocPages (bytes div backendPageSize) of
               None \<Rightarrow> Inl (Assertion ''Failed to allocate memory for new span'')
             | Some spanStart \<Rightarrow>
                 let c1 = createSpan sizeofSpan bytes spanStart c
                 in case findMostOccupiedSpanFittingRequest shp req align c1 of
                      None \<Rightarrow> Inl (Assertion ''Failed to create new span'')
                    | Some s \<Rightarrow>
                        if spanSize s < paddedSize then Inl (Assertion ''New span has unexpected size'')
                        else if spanBase s mod backendPageSize \<noteq> 0 then Inl (Assertion ''New span not page aligned'')
                        else allocateInSpan pick req align s c1)"

section \<open>Validation\<close>

text \<open>The checks of \<open>InternalAllocatorDebug.h\<close>; a block without successor has the successor address 0.\<close>

fun validateNoAdjacentFreeBlocks :: "freeBlock list \<Rightarrow> unit outcome" where
  "validateNoAdjacentFreeBlocks [] = Inr ()"
| "validateNoAdjacentFreeBlocks (b # bs) =
     (if (case bs of [] \<Rightarrow> 0 | b2 # bs2 \<Rightarrow> fst b2) = add_size (fst b) (snd b) then Inl (Assertion ''Adjacent free blocks found'')
      else validateNoAdjacentFreeBlocks bs)"

definition totalFreeBlockSize :: "memorySpan \<Rightarrow> nat" where
  "totalFreeBlockSize s = fold (\<lambda>b out. add_size out (snd b)) (unallocatedBlocks s) 0"

definition totalAllocatedBlockSize :: "memorySpan \<Rightarrow> nat" where
  "totalAllocatedBlockSize s = fold (\<lambda>b out. add_size out (fst (snd b))) (allocatedBlocks s) 0"

definition validateSpan :: "nat \<Rightarrow> memorySpan \<Rightarrow> unit outcome" where
  "validateSpan sizeofSpan s =
     bindO (validateNoAdjacentFreeBlocks (unallocatedBlocks s)) (\<lambda>_.
       if totalFreeBlockSize s \<noteq> freeSpace s then Inl (Assertion ''Free block size does not match free space'')
       else if add_size (totalFreeBlockSize s) (totalAllocatedBlockSize s) \<noteq> getBufferSize sizeofSpan s
       then Inl (Assertion ''Allocated block size does not match span size'') else Inr ())"

fun validateSpans :: "nat \<Rightarrow> memorySpan list \<Rightarrow> unit outcome" where
  "validateSpans sizeofSpan [] = Inr ()"
| "validateSpans sizeofSpan (s # xs) = bindO (validateSpan sizeofSpan s) (\<lambda>_. validateSpans sizeofSpan xs)"

definition validateAllocatorIntegrity :: "nat \<Rightarrow> coarseHeap \<Rightarrow> unit outcome" where
  "validateAllocatorIntegrity sizeofSpan c = validateSpans sizeofSpan (spans c)"

text \<open>
  The second half of \<open>isValidPointer\<close>, which asks the span of the address. The lookup of a slab that comes before it is not
  part of the coarse heap.
\<close>

definition isCoarsePointer :: "nat \<Rightarrow> coarseHeap \<Rightarrow> bool" where
  "isCoarsePointer ptr c = (case findSpanContaining ptr c of None \<Rightarrow> False | Some s \<Rightarrow> isPointerAllocated ptr s)"

section \<open>The search for a span\<close>

locale span_index =
  fixes shp :: "memorySpan list \<Rightarrow> memorySpan tree"
  assumes shape_inorder: "inorder (shp xs) = xs"

lemma largest_subtree: "n \<le> largestFreeBlockInMallocSubtree t \<longleftrightarrow> n = 0 \<or> (\<exists>s\<in>set_tree t. n \<le> largestFreeBlockSize s)"
  by (induction t) (auto simp: le_max_iff_disj)

lemma fittingSpanLoop_first:
  assumes "0 < n"
  shows "fittingSpanLoop n best t = (case List.find (\<lambda>s. n \<le> largestFreeBlockSize s) (inorder t) of None \<Rightarrow> best | Some s \<Rightarrow> Some s)"
proof (induction t arbitrary: best)
  case (Node l s r)
  have none: "List.find (\<lambda>s. n \<le> largestFreeBlockSize s) (inorder u) = None \<longleftrightarrow> \<not> n \<le> largestFreeBlockInMallocSubtree u" for u
    using assms by (auto simp: largest_subtree find_None_iff)
  have app: "List.find P (xs @ ys) = (case List.find P xs of None \<Rightarrow> List.find P ys | Some x \<Rightarrow> Some x)" for P and xs ys :: "memorySpan list"
    by (induction xs) auto
  show ?case
  proof (cases "n \<le> largestFreeBlockInMallocSubtree \<langle>l, s, r\<rangle>")
    case False
    then have "largestFreeBlockInMallocSubtree \<langle>l, s, r\<rangle> < n" by (simp only: not_le)
    moreover have "List.find (\<lambda>s. n \<le> largestFreeBlockSize s) (inorder \<langle>l, s, r\<rangle>) = None" using False none [of "\<langle>l, s, r\<rangle>"] by (simp only: simp_thms)
    ultimately show ?thesis by (simp only: fittingSpanLoop.simps if_True option.case)
  next
    case True
    then have run: "fittingSpanLoop n best \<langle>l, s, r\<rangle> = (if n \<le> largestFreeBlockSize s then fittingSpanLoop n (Some s) l
        else if l \<noteq> \<langle>\<rangle> \<and> n \<le> largestFreeBlockInMallocSubtree l then fittingSpanLoop n best l else fittingSpanLoop n best r)"
      by (simp only: fittingSpanLoop.simps not_less [symmetric] if_False)
    have "l \<noteq> \<langle>\<rangle> \<and> n \<le> largestFreeBlockInMallocSubtree l \<longleftrightarrow> n \<le> largestFreeBlockInMallocSubtree l" using assms by (cases l) auto
    then show ?thesis unfolding run using none [of l] Node.IH by (auto simp: app split: option.splits)
  qed
qed simp

definition fits :: "nat \<Rightarrow> memorySpan \<Rightarrow> bool" where
  "fits n s \<longleftrightarrow> n \<le> largestFreeBlockSize s"

context span_index
begin

text \<open>The search returns a span that fits, the one with the least free space; none only if none fits.\<close>

lemma findSpan_exact:
  assumes "0 < computeWorstCaseAlignedSize req align"
  shows "case findMostOccupiedSpanFittingRequest shp req align c of
      None \<Rightarrow> \<forall>s\<in>set (spans c). \<not> fits (computeWorstCaseAlignedSize req align) s
    | Some s \<Rightarrow> s \<in> set (spans c) \<and> fits (computeWorstCaseAlignedSize req align) s \<and>
        (\<forall>x\<in>set (spans c). fits (computeWorstCaseAlignedSize req align) x \<longrightarrow> freeSpace s \<le> freeSpace x)"
proof -
  let ?n = "computeWorstCaseAlignedSize req align" and ?xs = "sort_key freeSpace (spans c)"
  have f: "findMostOccupiedSpanFittingRequest shp req align c = List.find (fits ?n) ?xs"
    unfolding findMostOccupiedSpanFittingRequest_def fittingSpanLoop_first [OF assms] shape_inorder spansByFreeSpace_def fits_def by (simp split: option.splits)
  show ?thesis
  proof (cases "List.find (fits ?n) ?xs")
    case None
    then have "\<forall>s\<in>set (spans c). \<not> fits ?n s" by (auto simp: find_None_iff)
    then show ?thesis unfolding f None by simp
  next
    case (Some s)
    then obtain i where i: "i < length ?xs" "fits ?n (?xs ! i)" "s = ?xs ! i" "\<forall>j<i. \<not> fits ?n (?xs ! j)" by (auto simp: find_Some_iff)
    have "freeSpace s \<le> freeSpace x" if "x \<in> set (spans c)" "fits ?n x" for x
    proof -
      have "x \<in> set ?xs" using that(1) by simp
      then obtain j where j: "j < length ?xs" "x = ?xs ! j" unfolding in_set_conv_nth by blast
      then have "i \<le> j" using i(4) that(2) not_less by blast
      then show ?thesis using sorted_nth_mono [OF sorted_sort_key [of freeSpace "spans c"], of i j] i(1,3) j by simp
    qed
    moreover have "s \<in> set ?xs" unfolding i(3) by (rule nth_mem [OF i(1)])
    ultimately show ?thesis unfolding f Some using i(2,3) by simp
  qed
qed

end

text \<open>One shape of a tree with the spans in this order: the middle one at the root.\<close>

function balancedTree :: "'a list \<Rightarrow> 'a tree" where
  "balancedTree xs = (if xs = [] then \<langle>\<rangle>
     else \<langle>balancedTree (take (length xs div 2) xs), xs ! (length xs div 2), balancedTree (drop (Suc (length xs div 2)) xs)\<rangle>)"
  by auto
termination
proof (relation "measure length")
  show "wf (measure length)" by simp
  fix xs :: "'a list" assume "xs \<noteq> []"
  then show "(take (length xs div 2) xs, xs) \<in> measure length" "(drop (Suc (length xs div 2)) xs, xs) \<in> measure length" by auto
qed

declare balancedTree.simps [simp del]

lemma balancedTree_inorder: "inorder (balancedTree xs) = xs"
proof (induction xs rule: balancedTree.induct)
  case (1 xs)
  show ?case
  proof (cases "xs = []")
    case False
    then have "length xs div 2 < length xs" by simp
    then have "take (length xs div 2) xs @ xs ! (length xs div 2) # drop (Suc (length xs div 2)) xs = xs" by (simp add: Cons_nth_drop_Suc)
    then show ?thesis using 1 False by (subst balancedTree.simps) simp
  qed (simp add: balancedTree.simps)
qed

interpretation bs: span_index balancedTree
  by unfold_locales (rule balancedTree_inorder)

section \<open>Live blocks\<close>

definition spanLive :: "memorySpan \<Rightarrow> (nat \<times> nat) list" where
  "spanLive s = map (\<lambda>(h, z, d, req). (dataStart h d, req)) (allocatedBlocks s)"

definition liveBlocks :: "coarseHeap \<Rightarrow> (nat \<times> nat) list" where
  "liveBlocks c = concat (map spanLive (spans c))"

definition blockBefore :: "nat \<times> nat \<Rightarrow> nat \<times> nat \<Rightarrow> bool" where
  "blockBefore x y \<longleftrightarrow> fst x + snd x \<le> fst y"

definition span_inv :: "nat \<Rightarrow> memorySpan \<Rightarrow> bool" where
  "span_inv H s \<longleftrightarrow> (\<exists>ts. span_ok H s ts) \<and> 0 < spanSize s \<and> spanBase s + H \<le> spanBuffer H s \<and> spanBuffer H s + getBufferSize H s = spanBase s + spanSize s"

definition spanBefore :: "memorySpan \<Rightarrow> memorySpan \<Rightarrow> bool" where
  "spanBefore a b \<longleftrightarrow> spanBase a + spanSize a \<le> spanBase b"

text \<open>The statistics of the bytes that were asked for are not part of the invariant: see the round trip.\<close>

definition heap_inv :: "nat \<Rightarrow> coarseHeap \<Rightarrow> bool" where
  "heap_inv H c \<longleftrightarrow> (\<forall>s\<in>set (spans c). span_inv H s \<and> (releasable s \<longrightarrow> allocatedBlocks s \<noteq> [])) \<and> sorted_wrt spanBefore (spans c) \<and>
     totalBytesInAllocatedBlocks (blockStats c) = (\<Sum>s\<leftarrow>spans c. usedBytes (allocatedBlocks s)) \<and>
     totalSystemMemoryAllocated c = (\<Sum>s\<leftarrow>spans c. spanSize s) \<and> totalSizeOfSpanHeaders c = H * length (spans c)"

lemma tiled_live:
  assumes "tiled a ts e"
  shows "sorted_wrt blockBefore (map (\<lambda>(h, z, d, req). (dataStart h d, req)) (usedOf ts))"
    "\<forall>x\<in>set (map (\<lambda>(h, z, d, req). (dataStart h d, req)) (usedOf ts)). a + 32 \<le> fst x \<and> fst x + snd x \<le> e \<and> 0 < snd x"
proof -
  have "sorted_wrt blockBefore (map (\<lambda>(h, z, d, req). (dataStart h d, req)) (usedOf ts)) \<and>
    (\<forall>x\<in>set (map (\<lambda>(h, z, d, req). (dataStart h d, req)) (usedOf ts)). a + 32 \<le> fst x \<and> fst x + snd x \<le> e \<and> 0 < snd x)"
    using assms
  proof (induction a ts e rule: tiled.induct)
    case (2 a h z u ts e)
    have t: "tiled (a + z) ts e" "96 \<le> z" "h = a" "tileUse h z u" using 2(2) by auto
    show ?case
    proof (cases u)
      case None
      then show ?thesis using 2(1) [OF t(1)] by fastforce
    next
      case (Some v)
      obtain d req where v: "v = (d, req)" by (cases v)
      have D: "a + 32 \<le> dataStart h d" "dataStart h d + req \<le> a + z" "0 < req" using data_inside [of h z d req] t Some v by auto
      have "a + z \<le> e" by (rule tiled_bounds(1) [OF t(1)])
      then show ?thesis using 2(1) [OF t(1)] D Some v by (fastforce simp: blockBefore_def)
    qed
  qed simp
  then show "sorted_wrt blockBefore (map (\<lambda>(h, z, d, req). (dataStart h d, req)) (usedOf ts))"
    "\<forall>x\<in>set (map (\<lambda>(h, z, d, req). (dataStart h d, req)) (usedOf ts)). a + 32 \<le> fst x \<and> fst x + snd x \<le> e \<and> 0 < snd x" by blast+
qed

lemma spanLive_ok:
  assumes "span_inv H s"
  shows "sorted_wrt blockBefore (spanLive s)" "\<forall>x\<in>set (spanLive s). spanBase s + H + 32 \<le> fst x \<and> fst x + snd x \<le> spanBase s + spanSize s \<and> 0 < snd x"
proof -
  obtain ts where ts: "tiled (spanBuffer H s) ts (spanBuffer H s + getBufferSize H s)" "allocatedBlocks s = usedOf ts"
    using assms by (auto simp: span_inv_def span_ok_def)
  have g: "spanBase s + H \<le> spanBuffer H s" "spanBuffer H s + getBufferSize H s = spanBase s + spanSize s" using assms by (auto simp: span_inv_def)
  show "sorted_wrt blockBefore (spanLive s)" using tiled_live(1) [OF ts(1)] by (simp add: spanLive_def ts(2))
  have "\<forall>x\<in>set (spanLive s). spanBuffer H s + 32 \<le> fst x \<and> fst x + snd x \<le> spanBuffer H s + getBufferSize H s \<and> 0 < snd x"
    using tiled_live(2) [OF ts(1)] unfolding spanLive_def ts(2) .
  then show "\<forall>x\<in>set (spanLive s). spanBase s + H + 32 \<le> fst x \<and> fst x + snd x \<le> spanBase s + spanSize s \<and> 0 < snd x"
    using g by (metis add_le_mono1 le_trans)
qed

lemma spans_live_sorted:
  assumes "\<forall>s\<in>set xs. span_inv H s" "sorted_wrt spanBefore xs"
  shows "sorted_wrt blockBefore (concat (map spanLive xs))"
  using assms
proof (induction xs)
  case (Cons s xs)
  have "blockBefore x y" if "x \<in> set (spanLive s)" "y \<in> set (spanLive t)" "t \<in> set xs" for x y t
  proof -
    have "spanBase s + spanSize s \<le> spanBase t" using Cons.prems(2) that(3) by (simp add: spanBefore_def)
    moreover have "fst x + snd x \<le> spanBase s + spanSize s" "spanBase t \<le> fst y"
      using spanLive_ok(2) [of H s] spanLive_ok(2) [of H t] Cons.prems(1) that by fastforce+
    ultimately show ?thesis by (simp add: blockBefore_def)
  qed
  then show ?case using Cons spanLive_ok(1) [of H s] by (auto simp: sorted_wrt_append)
qed simp

lemma liveBlocks_disjoint: "heap_inv H c \<Longrightarrow> sorted_wrt blockBefore (liveBlocks c)"
  unfolding liveBlocks_def by (rule spans_live_sorted) (auto simp: heap_inv_def)

end
