(* ===== verification/Coarse_Heap_Laws.thy ===== *)
theory Coarse_Heap_Laws
  imports Coarse_Heap
begin

text \<open>
  The contract of the coarse heap. Its state, seen from outside, is the list of the live blocks in the order of their addresses, which are
  disjoint; an allocation adds one aligned block to it and a deallocation removes one, or rejects a pointer that is not the start
  of a live block.
\<close>

section \<open>Heaps\<close>

definition heap_core :: "nat \<Rightarrow> coarseHeap \<Rightarrow> bool" where
  "heap_core H c \<longleftrightarrow> (\<forall>s\<in>set (spans c). span_inv H s) \<and> sorted_wrt spanBefore (spans c) \<and>
     totalBytesInAllocatedBlocks (blockStats c) = (\<Sum>s\<leftarrow>spans c. usedBytes (allocatedBlocks s)) \<and>
     totalSystemMemoryAllocated c = (\<Sum>s\<leftarrow>spans c. spanSize s) \<and> totalSizeOfSpanHeaders c = H * length (spans c)"

definition spanRetained :: "memorySpan \<Rightarrow> bool" where
  "spanRetained s \<longleftrightarrow> (releasable s \<longrightarrow> allocatedBlocks s \<noteq> [])"

lemma heap_inv_core: "heap_inv H c \<longleftrightarrow> heap_core H c \<and> (\<forall>s\<in>set (spans c). spanRetained s)"
  by (auto simp: heap_inv_def heap_core_def spanRetained_def)

lemma span_inv_bounds:
  assumes "span_inv H s"
  shows "usedBytes (allocatedBlocks s) \<le> spanSize s" "spanBase s + spanSize s + 16 \<le> 2 ^ 64" "0 < spanSize s" "H \<le> spanSize s"
proof -
  obtain ts where ts: "tiled (spanBuffer H s) ts (spanBuffer H s + getBufferSize H s)" "allocatedBlocks s = usedOf ts"
    "spanBuffer H s + getBufferSize H s + 16 \<le> 2 ^ 64"
    using assms by (auto simp: span_inv_def span_ok_def)
  have g: "spanBase s + H \<le> spanBuffer H s" "spanBuffer H s + getBufferSize H s = spanBase s + spanSize s" "0 < spanSize s" using assms by (auto simp: span_inv_def)
  show "spanBase s + spanSize s + 16 \<le> 2 ^ 64" "0 < spanSize s" "H \<le> spanSize s" using ts(3) g by auto
  show "usedBytes (allocatedBlocks s) \<le> spanSize s" using tiled_bytes [OF ts(1)] g ts(2) by simp
qed

lemma spans_sum:
  assumes "\<forall>s\<in>set xs. span_inv H s" "sorted_wrt spanBefore xs" "\<forall>s\<in>set xs. lo \<le> spanBase s" "lo + 16 \<le> 2 ^ 64"
  shows "lo + (\<Sum>s\<leftarrow>xs. spanSize s) + 16 \<le> 2 ^ 64"
  using assms
proof (induction xs arbitrary: lo)
  case (Cons s xs)
  have "spanBase s + spanSize s + (\<Sum>s\<leftarrow>xs. spanSize s) + 16 \<le> 2 ^ 64"
    using Cons.IH [of "spanBase s + spanSize s"] Cons.prems span_inv_bounds(2) [of H s] by (simp add: spanBefore_def)
  then show ?case using Cons.prems(3) by simp
qed simp

lemma used_sum: "\<forall>s\<in>set xs. span_inv H s \<Longrightarrow> (\<Sum>s\<leftarrow>xs. usedBytes (allocatedBlocks s)) \<le> (\<Sum>s\<leftarrow>xs. spanSize s)"
  by (rule sum_list_mono) (use span_inv_bounds(1) in blast)

lemma headers_sum: "\<forall>s\<in>set xs. span_inv H s \<Longrightarrow> H * length xs \<le> (\<Sum>s\<leftarrow>xs. spanSize s)"
proof (induction xs)
  case (Cons s xs)
  then show ?case using span_inv_bounds(4) [of H s] by simp
qed simp

lemma spans_total:
  assumes "\<forall>s\<in>set xs. span_inv H s" "sorted_wrt spanBefore xs"
  shows "(\<Sum>s\<leftarrow>xs. spanSize s) < 2 ^ 64" "(\<Sum>s\<leftarrow>xs. usedBytes (allocatedBlocks s)) < 2 ^ 64" "H * length xs < 2 ^ 64"
  using spans_sum [OF assms, of 0] used_sum [OF assms(1)] headers_sum [OF assms(1)] by simp_all

lemma spans_apart:
  assumes "sorted_wrt spanBefore (L @ s # R)" "\<forall>x\<in>set (L @ s # R). span_inv H x"
  shows "\<forall>x\<in>set L. spanBase x + spanSize x \<le> spanBase s \<and> spanBase x < spanBase s" "\<forall>x\<in>set R. spanBase s + spanSize s \<le> spanBase x \<and> spanBase s < spanBase x"
proof -
  have "0 < spanSize x" if "x \<in> set (L @ s # R)" for x using span_inv_bounds(3) assms(2) that by blast
  then show "\<forall>x\<in>set L. spanBase x + spanSize x \<le> spanBase s \<and> spanBase x < spanBase s" "\<forall>x\<in>set R. spanBase s + spanSize s \<le> spanBase x \<and> spanBase s < spanBase x"
    using assms(1) by (fastforce simp: sorted_wrt_append spanBefore_def)+
qed

lemma replaceSpan_mid:
  assumes "sorted_wrt spanBefore (L @ s # R)" "\<forall>x\<in>set (L @ s # R). span_inv H x" "spanBase s' = spanBase s"
  shows "replaceSpan s' (L @ s # R) = L @ s' # R"
proof -
  have "\<forall>x\<in>set L. spanBase x \<noteq> spanBase s" "\<forall>x\<in>set R. spanBase x \<noteq> spanBase s" using spans_apart [OF assms(1,2)] by auto
  then show ?thesis using assms(3) by (simp add: replaceSpan_def map_idI)
qed

lemma heap_core_replace:
  assumes "heap_core H c" "spans c = L @ s # R" "span_inv H s'" "spanBase s' = spanBase s" "spanSize s' = spanSize s"
    "totalBytesInAllocatedBlocks st + usedBytes (allocatedBlocks s) = totalBytesInAllocatedBlocks (blockStats c) + usedBytes (allocatedBlocks s')"
  shows "replaceSpan s' (spans c) = L @ s' # R" "heap_core H (c\<lparr>spans := L @ s' # R, blockStats := st\<rparr>)"
proof -
  have c: "\<forall>x\<in>set (L @ s # R). span_inv H x" "sorted_wrt spanBefore (L @ s # R)" using assms(1,2) by (auto simp: heap_core_def)
  show "replaceSpan s' (spans c) = L @ s' # R" unfolding assms(2) by (rule replaceSpan_mid [OF c(2,1) assms(4)])
  have "sorted_wrt spanBefore (L @ s' # R)" using c(2) assms(4,5) by (simp add: sorted_wrt_append spanBefore_def)
  then show "heap_core H (c\<lparr>spans := L @ s' # R, blockStats := st\<rparr>)"
    using assms c(1) by (auto simp: heap_core_def)
qed

section \<open>Allocation in a span\<close>

locale coarse_index = block_index pick + span_index shp for pick shp
begin

lemma span_allocate:
  assumes "span_inv H s" "0 < req" "req + 2 ^ k + 48 < 2 ^ 64" "k \<le> 6 \<or> 16 < req" "fits (computeWorstCaseAlignedSize req (2 ^ k)) s"
  obtains ret s' m ys zs rq where
    "allocateBlock pick req (2 ^ k) (s, st) = Inr (Some ret, s', \<lparr>totalBytesRequested = rq, totalBytesInAllocatedBlocks = add_size (totalBytesInAllocatedBlocks st) m\<rparr>)"
    "span_inv H s'" "spanBase s' = spanBase s" "spanSize s' = spanSize s" "releasable s' = releasable s" "2 ^ k dvd ret"
    "spanLive s = ys @ zs" "spanLive s' = ys @ (ret, req) # zs" "usedBytes (allocatedBlocks s') = usedBytes (allocatedBlocks s) + m" "allocatedBlocks s' \<noteq> []"
proof -
  obtain ts where ts: "span_ok H s ts" using assms(1) by (auto simp: span_inv_def)
  have "computeWorstCaseAlignedSize req (2 ^ k) \<le> largestFreeBlockSize s" using assms(5) by (simp add: fits_def)
  from allocate_cuts [OF ts assms(2-4) this, of st]
  obtain l base z r ret h n s' where A: "ts = l @ (base, z, None) # r"
    "allocateBlock pick req (2 ^ k) (s, st) = Inr (Some ret, s', \<lparr>totalBytesRequested = add_size (totalBytesRequested st) (computeWorstCaseAlignedSize req (2 ^ k)),
       totalBytesInAllocatedBlocks = add_size (totalBytesInAllocatedBlocks st) (n - h)\<rparr>)"
    "span_ok H s' (l @ cutTiles base z h n ret req @ r)" "spanBase s' = spanBase s" "spanSize s' = spanSize s" "releasable s' = releasable s" "2 ^ k dvd ret"
    by metis
  let ?d = "if h + 32 \<noteq> ret then Some ret else None"
  have u: "allocatedBlocks s = usedOf l @ usedOf r" "allocatedBlocks s' = usedOf l @ (h, n - h, ?d, req) # usedOf r"
    using ts A(1,3) by (simp_all add: span_ok_def cutTiles_def)
  have "dataStart h ?d = ret" by (simp add: dataStart_def)
  then have "spanLive s' = map (\<lambda>(h, z, d, req). (dataStart h d, req)) (usedOf l) @ (ret, req) # map (\<lambda>(h, z, d, req). (dataStart h d, req)) (usedOf r)"
    "spanLive s = map (\<lambda>(h, z, d, req). (dataStart h d, req)) (usedOf l) @ map (\<lambda>(h, z, d, req). (dataStart h d, req)) (usedOf r)"
    by (simp_all add: spanLive_def u)
  moreover have "span_inv H s'" using assms(1) A(3-5) by (auto simp: span_inv_def spanBuffer_def getBufferSize_def)
  ultimately show thesis using that [OF A(2)] A(4-7) u by simp
qed

lemma allocateInSpan_ok:
  assumes "heap_core H c" "spans c = L @ s # R" "0 < req" "req + 2 ^ k + 48 < 2 ^ 64" "k \<le> 6 \<or> 16 < req" "fits (computeWorstCaseAlignedSize req (2 ^ k)) s"
  obtains ret c' ys zs s' where "allocateInSpan pick req (2 ^ k) s c = Inr (Some ret, c')" "heap_core H c'" "spans c' = L @ s' # R" "spanRetained s'"
    "liveBlocks c = ys @ zs" "liveBlocks c' = ys @ (ret, req) # zs" "2 ^ k dvd ret"
proof -
  have s: "span_inv H s" using assms(1,2) by (simp add: heap_core_def)
  obtain ret s' m ys zs rq where A:
    "allocateBlock pick req (2 ^ k) (s, blockStats c) = Inr (Some ret, s', \<lparr>totalBytesRequested = rq, totalBytesInAllocatedBlocks = add_size (totalBytesInAllocatedBlocks (blockStats c)) m\<rparr>)"
    "span_inv H s'" "spanBase s' = spanBase s" "spanSize s' = spanSize s" "releasable s' = releasable s" "2 ^ k dvd ret"
    "spanLive s = ys @ zs" "spanLive s' = ys @ (ret, req) # zs" "usedBytes (allocatedBlocks s') = usedBytes (allocatedBlocks s) + m" "allocatedBlocks s' \<noteq> []"
    by (rule span_allocate [OF s assms(3-6)])
  let ?st = "\<lparr>totalBytesRequested = rq, totalBytesInAllocatedBlocks = add_size (totalBytesInAllocatedBlocks (blockStats c)) m\<rparr>"
  have co: "\<forall>x\<in>set (L @ s # R). span_inv H x" "sorted_wrt spanBefore (L @ s # R)" "totalBytesInAllocatedBlocks (blockStats c) = (\<Sum>s\<leftarrow>L @ s # R. usedBytes (allocatedBlocks s))"
    using assms(1,2) by (auto simp: heap_core_def)
  have "sorted_wrt spanBefore (L @ s' # R)" "\<forall>x\<in>set (L @ s' # R). span_inv H x" using co(1,2) A(2-4) by (auto simp: sorted_wrt_append spanBefore_def)
  from spans_total(2) [OF this(2,1)] have "totalBytesInAllocatedBlocks (blockStats c) + m < 2 ^ 64" using co(3) A(9) by simp
  then have "totalBytesInAllocatedBlocks ?st + usedBytes (allocatedBlocks s) = totalBytesInAllocatedBlocks (blockStats c) + usedBytes (allocatedBlocks s')"
    using A(9) by simp
  note P = heap_core_replace [OF assms(1,2) A(2-4) this]
  have "allocateInSpan pick req (2 ^ k) s c = Inr (Some ret, c\<lparr>spans := L @ s' # R, blockStats := ?st\<rparr>)"
    unfolding allocateInSpan_def A(1) by (simp add: P(1))
  from that [OF this P(2), of s' "concat (map spanLive L) @ ys" "zs @ concat (map spanLive R)"] show thesis using A(6-8,10) assms(2) by (simp add: spanRetained_def liveBlocks_def)
qed

end

section \<open>New spans\<close>

definition freshRegion :: "nat \<Rightarrow> nat \<Rightarrow> coarseHeap \<Rightarrow> bool" where
  "freshRegion a bytes c \<longleftrightarrow> a + bytes + 16 \<le> 2 ^ 64 \<and> (\<forall>s\<in>set (spans c). spanBase s + spanSize s \<le> a \<or> a + bytes \<le> spanBase s)"

definition freshPages :: "nat \<Rightarrow> nat \<Rightarrow> coarseHeap \<Rightarrow> bool" where
  "freshPages a bytes c \<longleftrightarrow> 4096 dvd a \<and> freshRegion a bytes c"

lemma insertSpan_between:
  assumes "heap_core H c" "freshRegion a bytes c" "spanBase s = a" "spanSize s = bytes" "span_inv H s"
  obtains L R where "spans c = L @ R" "insertSpan s (spans c) = L @ s # R" "sorted_wrt spanBefore (L @ s # R)"
proof -
  let ?P = "\<lambda>x. spanBase x < spanBase s"
  define L R where "L = takeWhile ?P (spans c)" and "R = dropWhile ?P (spans c)"
  have sp: "spans c = L @ R" by (simp add: L_def R_def)
  have so: "sorted_wrt spanBefore (L @ R)" and inv: "\<forall>x\<in>set (L @ R). span_inv H x" using assms(1) sp by (auto simp: heap_core_def)
  have bytes: "0 < bytes" using span_inv_bounds(3) [OF assms(5)] assms(4) by simp
  have free: "spanBase x + spanSize x \<le> a \<or> a + bytes \<le> spanBase x" if "x \<in> set (L @ R)" for x using assms(2) that sp by (auto simp: freshRegion_def)
  have "spanBefore x s" if "x \<in> set L" for x
    using free [of x] that set_takeWhileD [of x ?P "spans c"] assms(3) by (auto simp: L_def spanBefore_def)
  moreover have "spanBefore s x" if "x \<in> set R" for x
  proof -
    have "R \<noteq> []" using that by auto
    then obtain y R' where R: "R = y # R'" by (cases R) auto
    have "\<not> ?P y" using R hd_dropWhile [of ?P "spans c"] unfolding R_def by auto
    moreover have "spanBase y \<le> spanBase x" using so R that by (auto simp: sorted_wrt_append spanBefore_def)
    moreover have "0 < spanSize x" using span_inv_bounds(3) inv that by fastforce
    ultimately show ?thesis using free [of x] that assms(3,4) by (auto simp: spanBefore_def)
  qed
  ultimately have "sorted_wrt spanBefore (L @ s # R)" using so by (auto simp: sorted_wrt_append)
  then show thesis using that [OF sp] by (simp add: insertSpan_def L_def R_def)
qed

lemma newSpanBytes_ok:
  assumes "2 * p + H + 4096 < 2 ^ 64" "0 < p"
  shows "4096 dvd newSpanBytes H p" "2 * p + H \<le> newSpanBytes H p" "16384 \<le> newSpanBytes H p" "newSpanBytes H p < max (2 * p + H) 16384 + 4096"
proof -
  let ?m = "max (2 * p + H) 16384"
  have "add_size (add_size p p) H = 2 * p + H" using assms(1) by simp
  then have e: "newSpanBytes H p = unat (roundUpToNearestMultiple (of_nat ?m :: u64) 4096)"
    by (simp add: newSpanBytes_def minimumSpanSize_def backendPageSize_def)
  have u: "unat (of_nat ?m :: u64) = ?m" using assms(1) by (simp add: unat_of_nat take_bit_nat_eq_self)
  have r: "newSpanBytes H p = (?m + 4095) div 4096 * 4096" unfolding e using unat_round(2) [of "4096 :: u64" "of_nat ?m"] assms(1) u by simp
  have "m \<le> (m + 4095) div 4096 * 4096 \<and> (m + 4095) div 4096 * 4096 < m + 4096" for m :: nat
    using div_mult_mod_eq [of "m + 4095" 4096] mod_less_divisor [of 4096 "m + 4095"] by linarith
  then have b: "?m \<le> newSpanBytes H p" "newSpanBytes H p < ?m + 4096" unfolding r by blast+
  then show "2 * p + H \<le> newSpanBytes H p" "16384 \<le> newSpanBytes H p" "newSpanBytes H p < ?m + 4096" by auto
  show "4096 dvd newSpanBytes H p" unfolding r by simp
qed

lemma createSpan_ok:
  assumes "heap_core H c" "freshRegion a bytes c" "16 dvd a + bytes" "H + 112 \<le> bytes" "bytes < 2 ^ 32"
  obtains L R where "spans c = L @ R" "spans (createSpan H bytes a c) = L @ newSpan H a bytes # R" "heap_core H (createSpan H bytes a c)"
    "liveBlocks (createSpan H bytes a c) = liveBlocks c"
proof -
  let ?s = "newSpan H a bytes"
  have f: "a + bytes + 16 \<le> 2 ^ 64" using assms(2) by (simp add: freshRegion_def)
  have h: "a + H + 112 \<le> a + bytes" using assms(4) by simp
  note N = newSpan_ok [OF h f assms(3,5)]
  have al: "allocatedBlocks ?s = []" by (simp add: newSpan_def Let_def insertFreeBlock_def)
  have inv: "span_inv H ?s" unfolding span_inv_def using N assms(4) by auto
  obtain L R where LR: "spans c = L @ R" "insertSpan ?s (spans c) = L @ ?s # R" "sorted_wrt spanBefore (L @ ?s # R)"
    by (rule insertSpan_between [OF assms(1,2) N(2,3) inv])
  have all: "\<forall>x\<in>set (L @ ?s # R). span_inv H x" using assms(1) LR(1) inv by (auto simp: heap_core_def)
  note T = spans_total [OF all LR(3)]
  have sp: "spans (createSpan H bytes a c) = L @ ?s # R" by (simp add: createSpan_def LR(2))
  have "heap_core H (createSpan H bytes a c)"
    unfolding heap_core_def sp using all LR(3) T assms(1) LR(1) al N(3) by (auto simp: createSpan_def heap_core_def)
  moreover have "liveBlocks (createSpan H bytes a c) = liveBlocks c" by (simp add: liveBlocks_def sp LR(1) spanLive_def al)
  ultimately show thesis using that [OF LR(1) sp] by simp
qed

lemma newSpan_fits:
  assumes "H + 112 \<le> bytes" "a + bytes + 16 \<le> 2 ^ 64" "16 dvd a + bytes" "bytes < 2 ^ 32" "p + H + 16 \<le> bytes"
  shows "fits p (newSpan H a bytes)"
proof -
  have "a + H + 112 \<le> a + bytes" using assms(1) by simp
  note N = newSpan_ok [OF this assms(2-4)]
  have "largestFreeBlockSize (newSpan H a bytes) = getBufferSize H (newSpan H a bytes)" using N(1) by (simp add: span_ok_def)
  then show ?thesis using N(6,7) assms(5) by (simp add: fits_def)
qed

section \<open>The allocator\<close>

lemma heap_core_distinct: "heap_core H c \<Longrightarrow> distinct (spans c)"
proof -
  assume c: "heap_core H c"
  have "a \<noteq> b" if "a \<in> set (spans c)" "spanBefore a b" for a b
    using span_inv_bounds(3) [of H a] that c by (auto simp: heap_core_def spanBefore_def)
  moreover have "sorted_wrt spanBefore (spans c)" using c by (simp add: heap_core_def)
  ultimately show ?thesis unfolding distinct_conv_nth sorted_wrt_iff_nth_less by (metis linorder_neqE_nat nth_mem)
qed

context coarse_index
begin

lemma allocateInSpan_inv:
  assumes "heap_core H c" "s \<in> set (spans c)" "\<forall>x\<in>set (spans c). x \<noteq> s \<longrightarrow> spanRetained x" "0 < req" "req + 2 ^ k + 48 < 2 ^ 64" "k \<le> 6 \<or> 16 < req"
    "fits (computeWorstCaseAlignedSize req (2 ^ k)) s"
  shows "\<exists>ret c' ys zs. allocateInSpan pick req (2 ^ k) s c = Inr (Some ret, c') \<and> heap_inv H c' \<and> 2 ^ k dvd ret \<and>
    liveBlocks c = ys @ zs \<and> liveBlocks c' = ys @ (ret, req) # zs"
proof -
  obtain L R where LR: "spans c = L @ s # R" using split_list [OF assms(2)] by blast
  obtain ret c' ys zs s' where A: "allocateInSpan pick req (2 ^ k) s c = Inr (Some ret, c')" "heap_core H c'" "spans c' = L @ s' # R" "spanRetained s'"
    "liveBlocks c = ys @ zs" "liveBlocks c' = ys @ (ret, req) # zs" "2 ^ k dvd ret"
    by (rule allocateInSpan_ok [OF assms(1) LR assms(4-7)])
  have "s \<notin> set L \<union> set R" using heap_core_distinct [OF assms(1)] LR by simp
  then have "\<forall>x\<in>set (L @ s' # R). spanRetained x" using assms(3) LR A(4) by auto
  then show ?thesis using A by (auto simp: heap_inv_core)
qed

text \<open>A request that no span has room for needs a new one, whose only block has a size of 32 bits.\<close>

lemma coarseAllocate_ok:
  assumes "heap_inv H c" "0 < req" "req + 2 ^ k + 48 < 2 ^ 64" "k \<le> 6 \<or> 16 < req" "H \<le> 4096"
  defines "p \<equiv> computeWorstCaseAlignedSize req (2 ^ k)"
  assumes "(\<exists>s\<in>set (spans c). fits p s) \<or> allocPages (newSpanBytes H p div 4096) = None \<or> 2 * p + H + 4096 \<le> 2 ^ 32"
    "\<And>a. allocPages (newSpanBytes H p div 4096) = Some a \<Longrightarrow> freshPages a (newSpanBytes H p) c"
  shows "if (\<exists>s\<in>set (spans c). fits p s) \<or> allocPages (newSpanBytes H p div 4096) \<noteq> None
    then \<exists>ret c' ys zs. coarseAllocate shp pick allocPages H req (2 ^ k) c = Inr (Some ret, c') \<and> heap_inv H c' \<and> 2 ^ k dvd ret \<and>
      liveBlocks c = ys @ zs \<and> liveBlocks c' = ys @ (ret, req) # zs
    else coarseAllocate shp pick allocPages H req (2 ^ k) c = Inl (Assertion ''Failed to allocate memory for new span'')"
proof -
  have core: "heap_core H c" and kept: "\<forall>s\<in>set (spans c). spanRetained s" using assms(1) by (auto simp: heap_inv_core)
  note r = assms(3)
  have p: "33 \<le> p" using worstCase [OF r] assms(2) unfolding p_def by auto
  have pos: "0 < computeWorstCaseAlignedSize req (2 ^ k)" using p by (simp add: p_def)
  note F = findSpan_exact [OF pos, folded p_def] and run = coarseAllocate_def [of shp pick allocPages H req "2 ^ k" c, folded p_def]
  show ?thesis
  proof (cases "findMostOccupiedSpanFittingRequest shp req (2 ^ k) c")
    case (Some s)
    then have s: "s \<in> set (spans c)" "fits p s" using F [of c] by auto
    then show ?thesis using allocateInSpan_inv [OF core s(1) _ assms(2) r assms(4) s(2) [unfolded p_def]] kept Some unfolding run by auto
  next
    case None
    then have none: "\<forall>s\<in>set (spans c). \<not> fits p s" using F [of c] by simp
    show ?thesis
    proof (cases "allocPages (newSpanBytes H p div 4096)")
      case None
      then show ?thesis using \<open>findMostOccupiedSpanFittingRequest shp req (2 ^ k) c = None\<close> none unfolding run by (simp add: Let_def backendPageSize_def)
    next
      case (Some a)
      let ?b = "newSpanBytes H p" and ?s = "newSpan H a (newSpanBytes H p)" and ?c = "createSpan H (newSpanBytes H p) a c"
      have size4: "2 * p + H + 4096 \<le> 2 ^ 32" using assms(7) none Some by auto
      have B: "4096 dvd ?b" "2 * p + H \<le> ?b" "16384 \<le> ?b" "?b < max (2 * p + H) 16384 + 4096"
        by (rule newSpanBytes_ok; use p size4 in simp)+
      have f: "freshPages a ?b c" by (rule assms(8) [OF Some])
      have small: "H + 112 \<le> ?b" "?b < 2 ^ 32" using B assms(5) size4 by auto
      have fa: "4096 dvd a" "freshRegion a ?b c" "a + ?b + 16 \<le> 2 ^ 64" using f by (auto simp: freshPages_def freshRegion_def)
      have "(16 :: nat) dvd 4096" by simp
      then have d16: "16 dvd a + ?b" using fa(1) B(1) by (meson dvd_add dvd_trans)
      obtain L R where C: "spans c = L @ R" "spans ?c = L @ ?s # R" "heap_core H ?c" "liveBlocks ?c = liveBlocks c"
        by (rule createSpan_ok [OF core fa(2) d16 small])
      have "fits p ?s" by (rule newSpan_fits [OF small(1) fa(3) d16 small(2)]) (use B p in simp)
      then have find: "findMostOccupiedSpanFittingRequest shp req (2 ^ k) ?c = Some ?s" using F [of ?c] none C(1,2) by (auto split: option.splits)
      have "a + H + 112 \<le> a + ?b" using small(1) by simp
      note N = newSpan_ok(2,3) [OF this fa(3) d16 small(2)]
      have "coarseAllocate shp pick allocPages H req (2 ^ k) c = allocateInSpan pick req (2 ^ k) ?s ?c"
        using \<open>findMostOccupiedSpanFittingRequest shp req (2 ^ k) c = None\<close> Some find N B(2) fa(1) unfolding run by (simp add: Let_def backendPageSize_def)
      moreover have "\<forall>x\<in>set (spans ?c). x \<noteq> ?s \<longrightarrow> spanRetained x" "?s \<in> set (spans ?c)" using kept C(1,2) by auto
      ultimately show ?thesis using allocateInSpan_inv [OF C(3) _ _ assms(2) r assms(4) \<open>fits p ?s\<close> [unfolded p_def]] Some C(4) p_def by auto
    qed
  qed
qed

end

interpretation ch: coarse_index pickBlock balancedTree
  by unfold_locales

section \<open>Freeing\<close>

lemma findSpanContaining_mem:
  assumes "heap_core H c" "s \<in> set (spans c)" "spanBase s \<le> ptr" "ptr < spanBase s + spanSize s"
  shows "findSpanContaining ptr c = Some s"
proof -
  obtain L R where LR: "spans c = L @ s # R" using split_list [OF assms(2)] by blast
  have "sorted_wrt spanBefore (L @ s # R)" "\<forall>x\<in>set (L @ s # R). span_inv H x" using assms(1) LR by (auto simp: heap_core_def)
  note A = spans_apart [OF this]
  have "\<forall>x\<in>set L. spanBase x \<le> ptr" "\<forall>x\<in>set R. \<not> spanBase x \<le> ptr" using A assms(3,4) by fastforce+
  then have "filter (\<lambda>x. spanBase x \<le> ptr) (spans c) = L @ [s]" using LR assms(3) by simp
  then show ?thesis using assms(4) by (simp add: findSpanContaining_def)
qed

lemma findSpanContaining_sound: "findSpanContaining ptr c = Some s \<Longrightarrow> s \<in> set (spans c) \<and> spanBase s \<le> ptr \<and> ptr < spanBase s + spanSize s"
proof -
  assume a: "findSpanContaining ptr c = Some s"
  then have l: "lastOpt (filter (\<lambda>s. spanBase s \<le> ptr) (spans c)) = Some s" and e: "ptr < spanBase s + spanSize s"
    by (auto simp: findSpanContaining_def split: option.splits if_splits)
  have "s \<in> set (filter (\<lambda>s. spanBase s \<le> ptr) (spans c))" using l by (cases "filter (\<lambda>s. spanBase s \<le> ptr) (spans c)" rule: rev_cases) auto
  then show ?thesis using e by simp
qed

lemma filter_live:
  assumes "sorted_wrt blockBefore (ys @ (p, m) # zs)" "\<forall>x\<in>set (ys @ (p, m) # zs). 0 < snd x"
  shows "filter (\<lambda>x. fst x \<noteq> p) (ys @ (p, m) # zs) = ys @ zs"
proof -
  have "fst x \<noteq> p" if "x \<in> set ys" for x using assms that by (auto simp: sorted_wrt_append blockBefore_def dest!: bspec)
  moreover have "fst x \<noteq> p" if "x \<in> set zs" for x using assms that by (auto simp: sorted_wrt_append blockBefore_def)
  ultimately show ?thesis by (simp add: filter_id_conv)
qed

lemma span_free:
  assumes "span_inv H s" "(ptr, req) \<in> set (spanLive s)"
  obtains s' m ys zs rq where
    "freeSpanBlock ptr (s, st) = (True, s', \<lparr>totalBytesRequested = rq, totalBytesInAllocatedBlocks = sub_size (totalBytesInAllocatedBlocks st) m\<rparr>)"
    "span_inv H s'" "spanBase s' = spanBase s" "spanSize s' = spanSize s" "releasable s' = releasable s"
    "spanLive s = ys @ (ptr, req) # zs" "spanLive s' = ys @ zs" "usedBytes (allocatedBlocks s) = usedBytes (allocatedBlocks s') + m"
    "freeSpace s' = getBufferSize H s' \<longleftrightarrow> allocatedBlocks s' = []"
proof -
  obtain ts where ts: "span_ok H s ts" using assms(1) by (auto simp: span_inv_def)
  obtain h z d where b: "(h, z, d, req) \<in> set (usedOf ts)" "ptr = dataStart h d" using assms(2) ts by (auto simp: spanLive_def span_ok_def)
  then have "(h, z, Some (d, req)) \<in> set ts" by (simp add: mem_usedOf)
  then obtain l r where lr: "ts = l @ (h, z, Some (d, req)) # r" using split_list by fastforce
  obtain s' where A: "freeSpanBlock (dataStart h d) (s, st) = (True, s', \<lparr>totalBytesRequested = sub_size (totalBytesRequested st) req,
       totalBytesInAllocatedBlocks = sub_size (totalBytesInAllocatedBlocks st) z\<rparr>)"
    "span_ok H s' (freeTiles l h z r)" "spanBase s' = spanBase s" "spanSize s' = spanSize s" "releasable s' = releasable s"
    by (rule free_joins [OF ts [unfolded lr]])
  have t: "tiled (spanBuffer H s) (l @ (h, z, Some (d, req)) # r) (spanBuffer H s + getBufferSize H s)" "apart (l @ (h, z, Some (d, req)) # r)"
    using ts lr by (auto simp: span_ok_def)
  have u: "allocatedBlocks s = usedOf l @ (h, z, d, req) # usedOf r" "allocatedBlocks s' = usedOf l @ usedOf r"
    using ts lr A(2) freeTiles_tiled(3) [OF t] by (simp_all add: span_ok_def)
  let ?f = "\<lambda>(h, z, d, req). (dataStart h d, req :: nat)"
  have live: "spanLive s = map ?f (usedOf l) @ (ptr, req) # map ?f (usedOf r)" "spanLive s' = map ?f (usedOf l) @ map ?f (usedOf r)"
    using u b(2) by (simp_all add: spanLive_def)
  have inv: "span_inv H s'" using assms(1) A(2-4) by (auto simp: span_inv_def spanBuffer_def getBufferSize_def)
  have "usedBytes (usedOf (freeTiles l h z r)) = 0 \<longleftrightarrow> usedOf (freeTiles l h z r) = []"
    using A(2) usedBytes_zero by (auto simp: span_ok_def)
  then have "freeSpace s' = getBufferSize H s' \<longleftrightarrow> allocatedBlocks s' = []" using A(2) by (auto simp: span_ok_def)
  then show thesis using that [OF A(1) [folded b(2)] inv A(3-5) live] u by simp
qed

lemma coarseFree_invalid:
  assumes "heap_inv H c" "ptr \<notin> fst ` set (liveBlocks c)"
  shows "coarseFree H ptr c = (False, c, None)"
proof (cases "findSpanContaining ptr c")
  case (Some s)
  have core: "heap_core H c" and kept: "\<forall>s\<in>set (spans c). spanRetained s" using assms(1) by (auto simp: heap_inv_core)
  have s: "s \<in> set (spans c)" using findSpanContaining_sound [OF Some] by simp
  obtain L R where LR: "spans c = L @ s # R" using split_list [OF s] by blast
  have inv: "span_inv H s" using core s by (simp add: heap_core_def)
  then obtain ts where ts: "span_ok H s ts" by (auto simp: span_inv_def)
  have rej: "freeSpanBlock ptr (s, blockStats c) = (False, s, blockStats c)"
  proof (rule free_rejects [OF ts])
    fix h z d req assume "(h, z, Some (d, req)) \<in> set ts"
    then have "(h, z, d, req) \<in> set (allocatedBlocks s)" using ts by (simp add: span_ok_def mem_usedOf)
    then have "(dataStart h d, req) \<in> set (spanLive s)" by (force simp: spanLive_def)
    then show "ptr \<noteq> dataStart h d" using assms(2) s by (force simp: liveBlocks_def)
  qed
  have "replaceSpan s (spans c) = spans c" using heap_core_replace(1) [OF core LR inv, of "blockStats c"] LR by simp
  moreover have "\<not> releasable s" if "freeSpace s = getBufferSize H s"
  proof
    assume "releasable s"
    then have "usedOf ts \<noteq> []" "usedBytes (usedOf ts) = 0" using kept s ts that by (auto simp: spanRetained_def span_ok_def)
    then show False using usedBytes_zero ts by (auto simp: span_ok_def)
  qed
  ultimately show ?thesis using Some rej by (auto simp: coarseFree_def Let_def destroySpan_def)
qed (simp add: coarseFree_def)

lemma heap_core_remove:
  assumes "heap_core H c" "spans c = L @ s # R" "allocatedBlocks s = []" "releasable s"
  shows "destroySpan H s c = (c\<lparr>spans := L @ R, totalSystemMemoryAllocated := (\<Sum>s\<leftarrow>L @ R. spanSize s), totalSizeOfSpanHeaders := H * length (L @ R)\<rparr>,
      Some (spanBase s, spanSize s div 4096))"
    "heap_core H (c\<lparr>spans := L @ R, totalSystemMemoryAllocated := (\<Sum>s\<leftarrow>L @ R. spanSize s), totalSizeOfSpanHeaders := H * length (L @ R)\<rparr>)"
proof -
  have c: "\<forall>x\<in>set (L @ s # R). span_inv H x" "sorted_wrt spanBefore (L @ s # R)" using assms(1,2) by (auto simp: heap_core_def)
  have "\<forall>x\<in>set L. spanBase x \<noteq> spanBase s" "\<forall>x\<in>set R. spanBase x \<noteq> spanBase s" using spans_apart [OF c(2,1)] by auto
  then have "filter (\<lambda>x. spanBase x \<noteq> spanBase s) (spans c) = L @ R" using assms(2) by simp
  then show "destroySpan H s c = (c\<lparr>spans := L @ R, totalSystemMemoryAllocated := (\<Sum>s\<leftarrow>L @ R. spanSize s), totalSizeOfSpanHeaders := H * length (L @ R)\<rparr>,
      Some (spanBase s, spanSize s div 4096))"
    using assms by (simp add: destroySpan_def heap_core_def backendPageSize_def)
  show "heap_core H (c\<lparr>spans := L @ R, totalSystemMemoryAllocated := (\<Sum>s\<leftarrow>L @ R. spanSize s), totalSizeOfSpanHeaders := H * length (L @ R)\<rparr>)"
    using assms(1,2,3) c by (auto simp: heap_core_def sorted_wrt_append)
qed

lemma coarseFree_valid:
  assumes "heap_inv H c" "(ptr, req) \<in> set (liveBlocks c)"
  shows "\<exists>c' out. coarseFree H ptr c = (True, c', out) \<and> heap_inv H c' \<and> liveBlocks c' = filter (\<lambda>x. fst x \<noteq> ptr) (liveBlocks c) \<and>
    (case out of None \<Rightarrow> map spanBase (spans c') = map spanBase (spans c)
     | Some (a, n) \<Rightarrow> \<exists>L s R. spans c = L @ s # R \<and> spans c' = L @ R \<and> releasable s \<and> a = spanBase s \<and> n = spanSize s div 4096)"
proof -
  have core: "heap_core H c" and kept: "\<forall>s\<in>set (spans c). spanRetained s" using assms(1) by (auto simp: heap_inv_core)
  obtain s where s: "s \<in> set (spans c)" "(ptr, req) \<in> set (spanLive s)" using assms(2) by (auto simp: liveBlocks_def)
  obtain L R where LR: "spans c = L @ s # R" using split_list [OF s(1)] by blast
  have inv: "span_inv H s" using core s(1) by (simp add: heap_core_def)
  have "spanBase s \<le> ptr" "ptr < spanBase s + spanSize s" using spanLive_ok(2) [OF inv] s(2) by fastforce+
  note find = findSpanContaining_mem [OF core s(1) this]
  obtain s' m ys zs rq where A:
    "freeSpanBlock ptr (s, blockStats c) = (True, s', \<lparr>totalBytesRequested = rq, totalBytesInAllocatedBlocks = sub_size (totalBytesInAllocatedBlocks (blockStats c)) m\<rparr>)"
    "span_inv H s'" "spanBase s' = spanBase s" "spanSize s' = spanSize s" "releasable s' = releasable s"
    "spanLive s = ys @ (ptr, req) # zs" "spanLive s' = ys @ zs" "usedBytes (allocatedBlocks s) = usedBytes (allocatedBlocks s') + m"
    "freeSpace s' = getBufferSize H s' \<longleftrightarrow> allocatedBlocks s' = []"
    by (rule span_free [OF inv s(2)])
  let ?st = "\<lparr>totalBytesRequested = rq, totalBytesInAllocatedBlocks = sub_size (totalBytesInAllocatedBlocks (blockStats c)) m\<rparr>"
  have "totalBytesInAllocatedBlocks (blockStats c) = (\<Sum>s\<leftarrow>L @ s # R. usedBytes (allocatedBlocks s))" using core LR by (simp add: heap_core_def)
  then have "totalBytesInAllocatedBlocks ?st + usedBytes (allocatedBlocks s) = totalBytesInAllocatedBlocks (blockStats c) + usedBytes (allocatedBlocks s')" using A(8) by simp
  note P = heap_core_replace [OF core LR A(2-4) this]
  let ?c = "c\<lparr>spans := L @ s' # R, blockStats := ?st\<rparr>"
  have live: "concat (map spanLive L) @ (ys @ zs) @ concat (map spanLive R) = filter (\<lambda>x. fst x \<noteq> ptr) (liveBlocks c)"
  proof -
    have "\<forall>x\<in>set (liveBlocks c). 0 < snd x" using spanLive_ok(2) core by (force simp: liveBlocks_def heap_core_def)
    then show ?thesis using filter_live [of "concat (map spanLive L) @ ys" ptr req "zs @ concat (map spanLive R)"] liveBlocks_disjoint [OF assms(1)] LR A(6)
      by (simp add: liveBlocks_def)
  qed
  have run: "coarseFree H ptr c = (True, if allocatedBlocks s' = [] then destroySpan H s' ?c else (?c, None))"
    unfolding coarseFree_def find by (simp add: A(1,9) P(1) Let_def)
  have rest: "\<forall>x\<in>set (L @ R). spanRetained x" using kept LR by auto
  show ?thesis
  proof (cases "allocatedBlocks s' = [] \<and> releasable s'")
    case True
    then have "spanLive s' = []" by (simp add: spanLive_def)
    then show ?thesis using heap_core_remove [OF P(2), of L s' R] True run rest live LR A(3-5,7) by (auto simp: heap_inv_core liveBlocks_def)
  next
    case False
    then have "coarseFree H ptr c = (True, ?c, None)" "spanRetained s'" using run by (auto simp: destroySpan_def spanRetained_def)
    then show ?thesis using P(2) rest live LR A(3,7) by (auto simp: heap_inv_core liveBlocks_def)
  qed
qed

section \<open>Validation\<close>

lemma validateNoAdjacent_ok:
  assumes "tiled a ts e" "apart ts" "e < 2 ^ 64"
  shows "validateNoAdjacentFreeBlocks (freeOf ts) = Inr ()"
  using assms
proof (induction a ts e rule: tiled.induct)
  case (2 a h z u ts e)
  have t: "tiled (a + z) ts e" "96 \<le> z" "h = a" using 2(2) by auto
  have ap: "apart ts" "ts \<noteq> [] \<Longrightarrow> \<not> (isFreeTile (h, z, u) \<and> isFreeTile (hd ts))" using 2(3) by (auto simp: apart_Cons)
  have IH: "validateNoAdjacentFreeBlocks (freeOf ts) = Inr ()" by (rule 2(1) [OF t(1) ap(1) 2(4)])
  show ?case
  proof (cases u)
    case None
    then have r: "rightFree ts = None" using ap(2) by (cases ts) (auto simp: rightFree_def isFreeTile_def split: option.splits)
    have "add_size a z = a + z" using tiled_bounds(1) [OF t(1)] 2(4) by simp
    then show ?thesis using rightFree_None(1) [OF r t(1)] IH None t(2,3) by (cases "freeOf ts") (auto split: if_splits)
  qed (use IH in auto)
qed simp

lemma fold_sizes: "(\<Sum>b\<leftarrow>bs. f b) + n < 2 ^ 64 \<Longrightarrow> fold (\<lambda>b out. add_size out (f b)) bs n = n + (\<Sum>b\<leftarrow>bs. f b)"
  by (induction bs arbitrary: n) auto

lemma validateSpan_ok: "span_inv H s \<Longrightarrow> validateSpan H s = Inr ()"
proof -
  assume "span_inv H s"
  then obtain ts where ts: "span_ok H s ts" by (auto simp: span_inv_def)
  let ?B = "spanBuffer H s" and ?N = "getBufferSize H s"
  have ok: "tiled ?B ts (?B + ?N)" "apart ts" "?B + ?N + 16 \<le> 2 ^ 64" "?N < 2 ^ 32" "unallocatedBlocks s = freeOf ts" "allocatedBlocks s = usedOf ts"
    "freeSpace s + usedBytes (usedOf ts) = ?N" using ts by (auto simp: span_ok_def)
  have sum: "(\<Sum>b\<leftarrow>freeOf ts. snd b) + usedBytes (usedOf ts) = ?N" using tiled_bytes [OF ok(1)] by simp
  have "totalFreeBlockSize s = (\<Sum>b\<leftarrow>freeOf ts. snd b)" using fold_sizes [of snd "freeOf ts" 0] sum ok(4,5) by (simp add: totalFreeBlockSize_def)
  moreover have "totalAllocatedBlockSize s = usedBytes (usedOf ts)"
    using fold_sizes [of "fst \<circ> snd" "usedOf ts" 0] sum ok(4,6) by (simp add: totalAllocatedBlockSize_def usedBytes_def comp_def)
  moreover have "validateNoAdjacentFreeBlocks (freeOf ts) = Inr ()" by (rule validateNoAdjacent_ok [OF ok(1,2)]) (use ok(3) in simp)
  ultimately show ?thesis using ok sum by (simp add: validateSpan_def)
qed

lemma validateAllocatorIntegrity_ok: "heap_inv H c \<Longrightarrow> validateAllocatorIntegrity H c = Inr ()"
proof -
  have "\<forall>s\<in>set xs. span_inv H s \<Longrightarrow> validateSpans H xs = Inr ()" for xs by (induction xs) (auto simp: validateSpan_ok)
  then show "heap_inv H c \<Longrightarrow> validateAllocatorIntegrity H c = Inr ()" by (simp add: validateAllocatorIntegrity_def heap_inv_def)
qed

lemma isCoarsePointer_exact:
  assumes "heap_inv H c"
  shows "isCoarsePointer ptr c \<longleftrightarrow> ptr \<in> fst ` set (liveBlocks c)"
proof
  assume "isCoarsePointer ptr c"
  then obtain s where s: "s \<in> set (spans c)" "isPointerAllocated ptr s" using findSpanContaining_sound by (auto simp: isCoarsePointer_def split: option.splits)
  then obtain h z d req where "getValidatedHeaderForPtr ptr s = Some (h, z, d, req)" by (auto simp: isPointerAllocated_def)
  then have "(h, z, d, req) \<in> set (allocatedBlocks s)" "ptr = dataStart h d" using validated_sound by blast+
  then show "ptr \<in> fst ` set (liveBlocks c)" using s(1) by (force simp: liveBlocks_def spanLive_def)
next
  have core: "heap_core H c" using assms by (simp add: heap_inv_core)
  assume "ptr \<in> fst ` set (liveBlocks c)"
  then obtain s req where s: "s \<in> set (spans c)" "(ptr, req) \<in> set (spanLive s)" by (auto simp: liveBlocks_def)
  have inv: "span_inv H s" using core s(1) by (simp add: heap_core_def)
  then obtain ts where ts: "span_ok H s ts" by (auto simp: span_inv_def)
  obtain h z d where b: "(h, z, d, req) \<in> set (usedOf ts)" "ptr = dataStart h d" using s(2) ts by (auto simp: spanLive_def span_ok_def)
  then obtain l r where lr: "ts = l @ (h, z, Some (d, req)) # r" using mem_usedOf split_list by metis
  have "getValidatedHeaderForPtr ptr s = Some (h, z, d, req)" unfolding b(2)
    by (rule validated_complete [of "spanBuffer H s" l h z d req r "spanBuffer H s + getBufferSize H s"]) (use ts lr in \<open>auto simp: span_ok_def\<close>)
  moreover have "spanBase s \<le> ptr" "ptr < spanBase s + spanSize s" using spanLive_ok(2) [OF inv] s(2) by fastforce+
  ultimately show "isCoarsePointer ptr c" using findSpanContaining_mem [OF core s(1)] by (simp add: isCoarsePointer_def isPointerAllocated_def)
qed

section \<open>Reachable heaps\<close>

lemma grantSpan_ok:
  assumes "heap_inv H c" "freshRegion a bytes c" "16 dvd a + bytes" "H + 112 \<le> bytes" "bytes < 2 ^ 32"
  shows "heap_inv H (grantSpan H a bytes c)" "liveBlocks (grantSpan H a bytes c) = liveBlocks c"
proof -
  have core: "heap_core H c" and kept: "\<forall>s\<in>set (spans c). spanRetained s" using assms(1) by (auto simp: heap_inv_core)
  let ?s = "newSpan H a bytes" and ?c = "createSpan H bytes a c"
  obtain L R where C: "spans c = L @ R" "spans ?c = L @ ?s # R" "heap_core H ?c" "liveBlocks ?c = liveBlocks c"
    by (rule createSpan_ok [OF core assms(2-5)])
  have base: "spanBase ?s = a" by (simp add: newSpan_def Let_def insertFreeBlock_def)
  have co: "sorted_wrt spanBefore (L @ ?s # R)" "\<forall>x\<in>set (L @ ?s # R). span_inv H x" using C(2,3) by (auto simp: heap_core_def)
  have m: "map (\<lambda>x. if spanBase x = a then markUnreleasable x else x) (L @ ?s # R) = L @ markUnreleasable ?s # R"
    using spans_apart [OF co] base by (auto intro!: map_idI)
  have g: "grantSpan H a bytes c = ?c\<lparr>spans := L @ markUnreleasable ?s # R, blockStats := blockStats ?c\<rparr>"
    unfolding grantSpan_def Let_def C(2) m by simp
  have u: "allocatedBlocks (markUnreleasable ?s) = allocatedBlocks ?s" "spanBase (markUnreleasable ?s) = spanBase ?s" "spanSize (markUnreleasable ?s) = spanSize ?s"
    by (simp_all add: markUnreleasable_def)
  have "span_ok H (markUnreleasable ?s) ts = span_ok H ?s ts" for ts by (simp add: span_ok_def markUnreleasable_def spanBuffer_def getBufferSize_def)
  then have inv: "span_inv H (markUnreleasable ?s)" using co(2) u by (simp add: span_inv_def spanBuffer_def getBufferSize_def)
  have "heap_core H (grantSpan H a bytes c)" unfolding g by (rule heap_core_replace(2) [OF C(3,2) inv u(2,3)]) (simp add: u)
  moreover have "\<forall>x\<in>set (spans (grantSpan H a bytes c)). spanRetained x"
    using kept C(1) by (auto simp: g spanRetained_def markUnreleasable_def)
  ultimately show "heap_inv H (grantSpan H a bytes c)" by (simp add: heap_inv_core)
  show "liveBlocks (grantSpan H a bytes c) = liveBlocks c" using C(2,4) by (simp add: g liveBlocks_def spanLive_def u)
qed

text \<open>
  The heaps of a run within the contract, from the empty heap: any address is freed; a buffer is granted that is apart from the
  spans and from the end of the address space, ends at a multiple of 16, is at least 112 bytes larger than the span
  header and smaller than 4 GiB; a request that is not empty, not one of at most 16 bytes aligned to 128 or more, and whose
  padded size does not wrap around, is allocated at a power of two, with unused and aligned pages or none from the backend, where a
  request that needs a new span is so small that the span stays below 4 GiB. The code checks none of this: other grants and requests
  are not part of these runs, and some of them break the heap.
\<close>

inductive heap_reachable :: "(memorySpan list \<Rightarrow> memorySpan tree) \<Rightarrow> (nat \<Rightarrow> freeBlock list \<Rightarrow> freeBlock option) \<Rightarrow> nat \<Rightarrow> coarseHeap \<Rightarrow> bool"
  for shp pick H where
  reach_empty: "heap_reachable shp pick H emptyHeap"
| reach_grant: "\<lbrakk>heap_reachable shp pick H c; freshRegion a bytes c; 16 dvd a + bytes; H + 112 \<le> bytes; bytes < 2 ^ 32\<rbrakk>
    \<Longrightarrow> heap_reachable shp pick H (grantSpan H a bytes c)"
| reach_allocate: "\<lbrakk>heap_reachable shp pick H c; 0 < req; req + 2 ^ k + 48 < 2 ^ 64; k \<le> 6 \<or> 16 < req; p = computeWorstCaseAlignedSize req (2 ^ k);
     (\<exists>s\<in>set (spans c). fits p s) \<or> allocPages (newSpanBytes H p div 4096) = None \<or> 2 * p + H + 4096 \<le> 2 ^ 32;
     \<forall>a. allocPages (newSpanBytes H p div 4096) = Some a \<longrightarrow> freshPages a (newSpanBytes H p) c;
     coarseAllocate shp pick allocPages H req (2 ^ k) c = Inr (out, c')\<rbrakk> \<Longrightarrow> heap_reachable shp pick H c'"
| reach_free: "\<lbrakk>heap_reachable shp pick H c; coarseFree H ptr c = (ok, c', out)\<rbrakk> \<Longrightarrow> heap_reachable shp pick H c'"

context coarse_index
begin

lemma reachable_inv: "heap_reachable shp pick H c \<Longrightarrow> H \<le> 4096 \<Longrightarrow> heap_inv H c"
proof (induction rule: heap_reachable.induct)
  case reach_empty
  show ?case by (simp add: heap_inv_def emptyHeap_def)
next
  case (reach_grant c a bytes)
  then show ?case using grantSpan_ok(1) by blast
next
  case (reach_allocate c req k p allocPages out c')
  have "heap_inv H c" by (rule reach_allocate.IH [OF reach_allocate.prems])
  from coarseAllocate_ok [OF this reach_allocate.hyps(2-4) reach_allocate.prems, of allocPages, folded reach_allocate.hyps(5), OF reach_allocate.hyps(6)]
    reach_allocate.hyps(7,8) show ?case by (auto split: if_splits)
next
  case (reach_free c ptr ok c' out)
  have "heap_inv H c" by (rule reach_free.IH [OF reach_free.prems])
  then show ?case using coarseFree_valid [of H c ptr] coarseFree_invalid [of H c ptr] reach_free.hyps(2) by (cases "ptr \<in> fst ` set (liveBlocks c)") auto
qed

end

end
