(* ===== verification/Heap_Props.thy ===== *)
theory Heap_Props
  imports Coarse_Heap_Laws
begin

text \<open>What the coarse heap of \<open>LibAlloc\<close> promises, with the search by size of \<open>mappedCeil\<close>, and the requests for which it does not.\<close>

text \<open>
  C5: On a heap whose spans are tiled by their blocks, an allocation fails exactly when no span has room for it and the backend has
  no pages, with the assertion for that. Otherwise it returns an address aligned as asked, adds exactly this block to the live
  blocks, which stay disjoint, and keeps the invariant: blocks tile the spans, free blocks are never adjacent, and the statistics of
  spans and blocks are exact. This holds for every request of at least one byte and every alignment that is a power of two, except
  that (1) a request of at most 16 bytes is aligned to at most 64, since beyond it the padded size is too small; (2) the padded
  size does not wrap around; (3) a request for which a new span is created is small enough, below half of 4 GiB with its padding, for
  the span to stay below 4 GiB, since the size of a block is masked to 32 bits. The pages of the backend are aligned, unused and
  not at the very end of the address space, and the header of a span is at most a page.
\<close>

theorem heap_allocate_exact:
  assumes "coarse_index pick shp" "heap_inv H c" "0 < req" "req + 2 ^ k + 48 < 2 ^ 64" "k \<le> 6 \<or> 16 < req" "H \<le> 4096"
    "p = computeWorstCaseAlignedSize req (2 ^ k)"
    "(\<exists>s\<in>set (spans c). fits p s) \<or> allocPages (newSpanBytes H p div 4096) = None \<or> 2 * p + H + 4096 \<le> 2 ^ 32"
    "\<And>a. allocPages (newSpanBytes H p div 4096) = Some a \<Longrightarrow> freshPages a (newSpanBytes H p) c"
  shows "if (\<exists>s\<in>set (spans c). fits p s) \<or> allocPages (newSpanBytes H p div 4096) \<noteq> None
    then \<exists>ret c' ys zs. coarseAllocate shp pick allocPages H req (2 ^ k) c = Inr (Some ret, c') \<and> heap_inv H c' \<and> 2 ^ k dvd ret \<and>
      liveBlocks c = ys @ zs \<and> liveBlocks c' = ys @ (ret, req) # zs \<and> sorted_wrt blockBefore (liveBlocks c')
    else coarseAllocate shp pick allocPages H req (2 ^ k) c = Inl (Assertion ''Failed to allocate memory for new span'')"
proof -
  have A: "if (\<exists>s\<in>set (spans c). fits p s) \<or> allocPages (newSpanBytes H p div 4096) \<noteq> None
    then \<exists>ret c' ys zs. coarseAllocate shp pick allocPages H req (2 ^ k) c = Inr (Some ret, c') \<and> heap_inv H c' \<and> 2 ^ k dvd ret \<and>
      liveBlocks c = ys @ zs \<and> liveBlocks c' = ys @ (ret, req) # zs
    else coarseAllocate shp pick allocPages H req (2 ^ k) c = Inl (Assertion ''Failed to allocate memory for new span'')"
    unfolding assms(7) by (rule coarse_index.coarseAllocate_ok [where allocPages = allocPages, OF assms(1-6) assms(8) [unfolded assms(7)]]) (rule assms(9) [unfolded assms(7)])
  show ?thesis
  proof (cases "(\<exists>s\<in>set (spans c). fits p s) \<or> allocPages (newSpanBytes H p div 4096) \<noteq> None")
    case True
    then show ?thesis using A liveBlocks_disjoint [of H] by (simp only: if_True) metis
  qed (use A in \<open>simp only: if_False\<close>)
qed

definition exampleHeap :: coarseHeap where
  "exampleHeap = grantSpan 144 4096 2048 emptyHeap"

lemma emptyHeap_fresh: "freshRegion 4096 2048 emptyHeap"
  by (simp add: freshRegion_def emptyHeap_def)

lemma exampleHeap_ok: "heap_inv 144 exampleHeap" "liveBlocks exampleHeap = []" "freshPages 65536 n exampleHeap \<longleftrightarrow> n + 65552 \<le> 2 ^ 64"
proof -
  have "heap_inv 144 emptyHeap" "(16 :: nat) dvd 4096 + 2048" by (simp_all add: heap_inv_def emptyHeap_def)
  then show "heap_inv 144 exampleHeap" "liveBlocks exampleHeap = []"
    using grantSpan_ok [OF _ emptyHeap_fresh, of 144] by (simp_all add: exampleHeap_def) (simp add: liveBlocks_def emptyHeap_def)
  have "\<forall>s\<in>set (spans exampleHeap). spanBase s = 4096 \<and> spanSize s = 2048"
    by (simp add: exampleHeap_def grantSpan_def createSpan_def emptyHeap_def insertSpan_def Let_def markUnreleasable_def newSpan_def insertFreeBlock_def)
  then show "freshPages 65536 n exampleHeap \<longleftrightarrow> n + 65552 \<le> 2 ^ 64" by (auto simp: freshPages_def freshRegion_def)
qed

theorem heap_allocate_exact_witness:
  "\<exists>ret c'. coarseAllocate balancedTree pickBlock (\<lambda>_. Some 65536) 144 1000 64 exampleHeap = Inr (Some ret, c') \<and> 64 dvd ret \<and> liveBlocks c' = [(ret, 1000)]"
proof -
  define p where "p = computeWorstCaseAlignedSize 1000 (2 ^ 6)"
  have w: "p = 1112" using worstCase [of 1000 6] by (simp add: p_def)
  then have "newSpanBytes 144 p < 2 ^ 30" using newSpanBytes_ok(4) [of p 144] by simp
  then have f: "freshPages 65536 (newSpanBytes 144 p) exampleHeap" using exampleHeap_ok(3) by simp
  have "\<exists>ret c' ys zs. coarseAllocate balancedTree pickBlock (\<lambda>_. Some 65536) 144 1000 (2 ^ 6) exampleHeap = Inr (Some ret, c') \<and> heap_inv 144 c' \<and> 2 ^ 6 dvd ret \<and>
      liveBlocks exampleHeap = ys @ zs \<and> liveBlocks c' = ys @ (ret, 1000) # zs \<and> sorted_wrt blockBefore (liveBlocks c')"
    using heap_allocate_exact [OF ch.coarse_index_axioms exampleHeap_ok(1), of 1000 6 p "\<lambda>_. Some 65536"] f p_def w by simp
  then show ?thesis using exampleHeap_ok(2) by auto
qed

text \<open>
  C6: Freeing the address of a live block removes exactly this block, keeps the invariant, and hands the pages of a span back when its
  last block goes, if the span came from the backend; freeing any other address is rejected and changes nothing.
\<close>

theorem heap_free_exact:
  assumes "heap_inv H c"
  shows "if ptr \<in> fst ` set (liveBlocks c)
    then \<exists>c' out. coarseFree H ptr c = (True, c', out) \<and> heap_inv H c' \<and> liveBlocks c' = filter (\<lambda>x. fst x \<noteq> ptr) (liveBlocks c) \<and>
      (case out of None \<Rightarrow> map spanBase (spans c') = map spanBase (spans c)
       | Some (a, n) \<Rightarrow> \<exists>L s R. spans c = L @ s # R \<and> spans c' = L @ R \<and> releasable s \<and> a = spanBase s \<and> n = spanSize s div 4096)
    else coarseFree H ptr c = (False, c, None)"
  using coarseFree_valid [OF assms, of ptr] coarseFree_invalid [OF assms, of ptr] by auto

text \<open>A run that grants a buffer and allocates 1000 bytes.\<close>

lemma example_run:
  obtains ret c' where "coarseAllocate balancedTree pickBlock (\<lambda>_. Some 65536) 144 1000 (2 ^ 6) exampleHeap = Inr (Some ret, c')"
    "heap_reachable balancedTree pickBlock 144 c'" "liveBlocks c' = [(ret, 1000)]"
proof -
  define p where "p = computeWorstCaseAlignedSize 1000 (2 ^ 6)"
  have w: "p = 1112" using worstCase [of 1000 6] by (simp add: p_def)
  then have "newSpanBytes 144 p < 2 ^ 30" using newSpanBytes_ok(4) [of p 144] by simp
  then have f: "freshPages 65536 (newSpanBytes 144 p) exampleHeap" using exampleHeap_ok(3) by simp
  obtain ret c' where r: "coarseAllocate balancedTree pickBlock (\<lambda>_. Some 65536) 144 1000 (2 ^ 6) exampleHeap = Inr (Some ret, c')"
    "liveBlocks c' = [(ret, 1000)]"
    using ch.coarseAllocate_ok [where allocPages = "\<lambda>_. Some 65536" and req = 1000 and k = 6, OF exampleHeap_ok(1), folded p_def] f w exampleHeap_ok(2) by auto
  have "(16 :: nat) dvd 4096 + 2048" by simp
  then have "heap_reachable balancedTree pickBlock 144 exampleHeap"
    unfolding exampleHeap_def by (intro reach_grant reach_empty emptyHeap_fresh) simp_all
  then have "heap_reachable balancedTree pickBlock 144 c'"
    using reach_allocate [where allocPages = "\<lambda>_. Some 65536" and req = 1000 and k = 6, OF _ _ _ _ p_def] f w r(1) by simp
  then show thesis using that r by blast
qed

theorem heap_free_exact_witness:
  "coarseFree 144 4096 exampleHeap = (False, exampleHeap, None) \<and>
   (\<exists>ret c' c'' out. coarseAllocate balancedTree pickBlock (\<lambda>_. Some 65536) 144 1000 (2 ^ 6) exampleHeap = Inr (Some ret, c') \<and>
     coarseFree 144 ret c' = (True, c'', out) \<and> liveBlocks c'' = [])"
proof -
  obtain ret c' where r: "coarseAllocate balancedTree pickBlock (\<lambda>_. Some 65536) 144 1000 (2 ^ 6) exampleHeap = Inr (Some ret, c')"
    "heap_reachable balancedTree pickBlock 144 c'" "liveBlocks c' = [(ret, 1000)]" by (rule example_run)
  have "heap_inv 144 c'" using r(2) by (rule ch.reachable_inv) simp
  then obtain c'' out where "coarseFree 144 ret c' = (True, c'', out)" "liveBlocks c'' = []"
    using heap_free_exact [of 144 c' ret] r(3) by auto
  moreover have "coarseFree 144 4096 exampleHeap = (False, exampleHeap, None)"
    using heap_free_exact [OF exampleHeap_ok(1), of 4096] exampleHeap_ok(2) by simp
  ultimately show ?thesis using r(1) by blast
qed

text \<open>
  C12: A block that is allocated in a span with room for it and freed again leaves the span as it was. Of the statistics, the bytes
  in allocated blocks are restored, but the bytes requested are not: they grow by the header and the padding of the request.
  The request is not empty, its alignment is a power of two and its padded size, which does not wrap around, is at most the largest free
  block; requests of at most 16 bytes aligned to 128 or more are excluded, since they can overrun their block; and the two
  counters of the statistics do not overflow.
\<close>

theorem span_allocate_free_roundtrip:
  assumes "block_index pick" "span_ok H s ts" "0 < req" "req + 2 ^ k + 48 < 2 ^ 64" "k \<le> 6 \<or> 16 < req"
    "computeWorstCaseAlignedSize req (2 ^ k) \<le> largestFreeBlockSize s"
    "totalBytesRequested st + computeWorstCaseAlignedSize req (2 ^ k) < 2 ^ 64" "totalBytesInAllocatedBlocks st + getBufferSize H s < 2 ^ 64"
  shows "\<exists>ret s' st'. allocateBlock pick req (2 ^ k) (s, st) = Inr (Some ret, s', st') \<and>
    freeSpanBlock ret (s', st') = (True, s, st\<lparr>totalBytesRequested := totalBytesRequested st + computeWorstCaseAlignedSize req (2 ^ k) - req\<rparr>)"
  using block_index.allocate_then_free [OF assms] by blast

definition exampleSpan :: memorySpan where
  "exampleSpan = newSpan 144 65536 16384"

definition exampleStats :: spanStats where
  "exampleStats = \<lparr>totalBytesRequested = 0, totalBytesInAllocatedBlocks = 0\<rparr>"

lemma exampleSpan_ok:
  "span_ok 144 exampleSpan [(spanBuffer 144 exampleSpan, getBufferSize 144 exampleSpan, None)]" "getBufferSize 144 exampleSpan < 2 ^ 32" "1112 \<le> largestFreeBlockSize exampleSpan"
proof -
  have N: "span_ok 144 exampleSpan [(spanBuffer 144 exampleSpan, getBufferSize 144 exampleSpan, None)]" "spanBuffer 144 exampleSpan < 65536 + 144 + 16"
    "spanBuffer 144 exampleSpan + getBufferSize 144 exampleSpan = 65536 + 16384"
    unfolding exampleSpan_def by (rule newSpan_ok; simp)+
  then show "span_ok 144 exampleSpan [(spanBuffer 144 exampleSpan, getBufferSize 144 exampleSpan, None)]" "getBufferSize 144 exampleSpan < 2 ^ 32"
    "1112 \<le> largestFreeBlockSize exampleSpan" by (simp_all add: span_ok_def)
qed

theorem span_allocate_free_roundtrip_witness:
  "\<exists>ret s' st'. allocateBlock pickBlock 1000 64 (exampleSpan, exampleStats) = Inr (Some ret, s', st') \<and>
    freeSpanBlock ret (s', st') = (True, exampleSpan, exampleStats\<lparr>totalBytesRequested := 112\<rparr>)"
proof -
  have "computeWorstCaseAlignedSize 1000 (2 ^ 6) = 1112" using worstCase [of 1000 6] by simp
  then show ?thesis
    using span_allocate_free_roundtrip [OF bt.block_index_axioms exampleSpan_ok(1), of 1000 6 exampleStats] exampleSpan_ok(2,3) by (simp add: exampleStats_def)
qed

text \<open>
  C13: In every run of the coarse heap within its contract the checks of \<open>validateAllocatorIntegrity\<close> hold, the live blocks are
  disjoint, and the part of \<open>isValidPointer\<close> that asks the spans accepts exactly their addresses. A run starts from the empty heap;
  any address may be freed; a granted buffer is apart from the spans, ends at a multiple of 16, has room for the header and one block and
  is smaller than 4 GiB; and a request is one that the contract of the allocation covers: not empty, aligned to a power of two,
  not of at most 16 bytes aligned to 128 or more, of a padded size that does not wrap around and that does not need a new span of 4 GiB,
  with aligned and unused pages from the backend. The header of a span is at most a page. The lookup of slabs that comes first in
  \<open>isValidPointer\<close> is not part of the heap.
\<close>

theorem heap_runs_validate:
  assumes "coarse_index pick shp" "heap_reachable shp pick H c" "H \<le> 4096"
  shows "validateAllocatorIntegrity H c = Inr () \<and> sorted_wrt blockBefore (liveBlocks c) \<and> (isCoarsePointer ptr c \<longleftrightarrow> ptr \<in> fst ` set (liveBlocks c))"
proof -
  have "heap_inv H c" by (rule coarse_index.reachable_inv [OF assms])
  then show ?thesis using validateAllocatorIntegrity_ok isCoarsePointer_exact liveBlocks_disjoint by blast
qed

theorem heap_runs_validate_witness:
  "\<exists>ret c'. coarseAllocate balancedTree pickBlock (\<lambda>_. Some 65536) 144 1000 (2 ^ 6) exampleHeap = Inr (Some ret, c') \<and>
    validateAllocatorIntegrity 144 c' = Inr () \<and> isCoarsePointer ret c'"
proof -
  obtain ret c' where r: "coarseAllocate balancedTree pickBlock (\<lambda>_. Some 65536) 144 1000 (2 ^ 6) exampleHeap = Inr (Some ret, c')"
    "heap_reachable balancedTree pickBlock 144 c'" "liveBlocks c' = [(ret, 1000)]" by (rule example_run)
  show ?thesis using heap_runs_validate [OF ch.coarse_index_axioms r(2), of ret] r(1,3) by auto
qed

section \<open>Requests that break the heap\<close>

lemma large_power: "7 \<le> k \<Longrightarrow> 128 \<le> (2 :: nat) ^ k \<and> 16 dvd (2 :: nat) ^ k"
  using power_increasing [of 7 k "2 :: nat"] le_imp_power_dvd [of 4 k "2 :: nat"] by simp

lemma insertBlock_mem: "fst b \<notin> fst ` set bs \<Longrightarrow> b \<in> set (insertBlock b bs)"
  by (simp add: insertBlock_def)

lemma insertFreeBlock_sel: "allocatedBlocks (insertFreeBlock b s) = allocatedBlocks s" "unallocatedBlocks (insertFreeBlock b s) = insertBlock b (unallocatedBlocks s)"
  by (simp_all add: insertFreeBlock_def Let_def)

lemma aligned_small_place:
  assumes "7 \<le> k" "0 < req" "req \<le> 16" "2 ^ k dvd base + 16" "base + 2 ^ k + 96 < 2 ^ 64"
  shows "findFirstAlignedAddressAfterHeaderSpace base (2 ^ k) = base + 16 + 2 ^ k" "headerPlace base (base + 16 + 2 ^ k) = base + 2 ^ k - 16"
    "nextPlace (base + 2 ^ k - 16) (base + 16 + 2 ^ k) req (base + 2 ^ k + 64) = base + 2 ^ k + 80"
proof -
  have k: "128 \<le> (2 :: nat) ^ k" "16 dvd (2 :: nat) ^ k" using large_power [OF assms(1)] by simp_all
  then have b16: "16 dvd base + 16" using assms(4) dvd_trans by blast
  then have b: "16 dvd base" by simp
  have no: "\<not> 2 ^ k dvd base + 32"
  proof
    assume "2 ^ k dvd base + 32"
    then have "2 ^ k dvd (base + 32) - (base + 16)" using assms(4) by (rule dvd_diff_nat)
    then show False using k(1) by (auto dest: dvd_imp_le)
  qed
  have "base + 48 + 2 ^ k \<le> 2 ^ 64" using assms(5) by simp
  note R = return_place [OF b this]
  let ?ret = "findFirstAlignedAddressAfterHeaderSpace base (2 ^ k)"
  have "base + 48 \<le> ?ret" "?ret \<le> base + 16 + 2 ^ k" using R(1,3) no by auto
  moreover have "2 ^ k dvd ?ret - (base + 16)" using R(1) assms(4) by (rule dvd_diff_nat)
  ultimately show ret: "?ret = base + 16 + 2 ^ k" using dvd_imp_le [of "2 ^ k" "?ret - (base + 16)"] by simp
  have r16: "16 dvd base + 16 + 2 ^ k" using R(2) ret by simp
  show "headerPlace base (base + 16 + 2 ^ k) = base + 2 ^ k - 16"
    using header_place [OF r16, of base] k(1) assms(5) by simp
  have "16 dvd base + 2 ^ k + 80" using b k(2) by simp
  then have "alignUpAddr (base + 2 ^ k + 80) alignofBlock = base + 2 ^ k + 80" using alignUp_block(4) [of "base + 2 ^ k + 80"] assms(5) by simp
  moreover have "max (add_size (base + 16 + 2 ^ k) req) (add_size (base + 2 ^ k - 16) 96) = base + 2 ^ k + 80"
    using assms(3,5) k(1) by simp
  moreover have "\<not> sub_size (base + 2 ^ k + 64) (base + 2 ^ k + 80) < 96" by (simp add: sub_size_def)
  ultimately show "nextPlace (base + 2 ^ k - 16) (base + 16 + 2 ^ k) req (base + 2 ^ k + 64) = base + 2 ^ k + 80" by (simp add: nextPlace_def)
qed

text \<open>
  C14: A request of at most 16 bytes with an alignment of 128 or more can be given a free block that is large enough by
  \<open>computeWorstCaseAlignedSize\<close> but not for the minimum block size: the allocated block then ends 16 bytes behind the end of the free block, and
  a free block of almost 4 GiB is recorded there.
\<close>

theorem small_aligned_request_overruns:
  assumes "block_index pick" "7 \<le> k" "0 < req" "req \<le> 16" "2 ^ k dvd base + 16" "base + 2 ^ k + 96 < 2 ^ 64"
    "unallocatedBlocks s = [(base, 2 ^ k + 64)]" "largestFreeBlockSize s = 2 ^ k + 64" "base + 2 ^ k - 16 \<notin> fst ` set (allocatedBlocks s)"
  shows "\<exists>s' st'. allocateBlock pick req (2 ^ k) (s, st) = Inr (Some (base + 16 + 2 ^ k), s', st') \<and>
    (base + 2 ^ k - 16, 96, None, req) \<in> set (allocatedBlocks s') \<and> base + 2 ^ k - 16 + 96 = base + (2 ^ k + 64) + 16 \<and>
    (base + (2 ^ k + 64) + 16, 2 ^ 32 - 16) \<in> set (unallocatedBlocks s')"
proof -
  have k: "128 \<le> (2 :: nat) ^ k" using large_power [OF assms(2)] by simp
  have w: "computeWorstCaseAlignedSize req (2 ^ k) = req + 2 ^ k + 48" using worstCase [of req k] assms(2,4,6) by simp
  have "distinct (map fst [(base, 2 ^ k + 64 :: nat)])" by simp
  then have pk: "pick (req + 2 ^ k + 48) [(base, 2 ^ k + 64)] = Some (base, 2 ^ k + 64)"
    using block_index.pick_least [OF assms(1), of "[(base, 2 ^ k + 64)]" "req + 2 ^ k + 48"] assms(4) by auto
  have hs: "headerSize 96 = 96" "headerSize (sub_size (base + 2 ^ k + 64) (base + 2 ^ k + 80)) = 2 ^ 32 - 16" by (simp_all add: headerSize_def sub_size_def)
  note P = aligned_small_place [OF assms(2-6)]
  define s1 where "s1 = removeFreeBlock (base, 2 ^ k + 64) s"
  have s1: "unallocatedBlocks s1 = []" "allocatedBlocks s1 = allocatedBlocks s" using assms(7) by (simp_all add: s1_def removeFreeBlock_def Let_def removeBlock_def)
  have ne: "base + 2 ^ k - 16 \<noteq> base" "base + 2 ^ k + 80 \<noteq> base + 2 ^ k + 64" "add_size (base + 2 ^ k - 16) 32 = base + 16 + 2 ^ k"
    "add_size base (2 ^ k + 64) = base + 2 ^ k + 64" "sub_size (base + 2 ^ k + 80) (base + 2 ^ k - 16) = 96" using k assms(6) by simp_all
  define s2 where "s2 = s1\<lparr>allocatedBlocks := insertBlock (base + 2 ^ k - 16, 96, None, req) (allocatedBlocks s1)\<rparr>"
  define s3 where "s3 = insertFreeBlock (base, headerSize (sub_size (base + 2 ^ k - 16) base)) s2"
  define s4 where "s4 = insertFreeBlock (base + 2 ^ k + 80, 2 ^ 32 - 16) s3"
  have guard: "\<not> largestFreeBlockSize s < req + 2 ^ k + 48" using assms(4,8) by simp
  have "\<exists>st'. allocateBlock pick req (2 ^ k) (s, st) = Inr (Some (base + 16 + 2 ^ k), s4\<lparr>freeSpace := sub_size (freeSpace s4) 96\<rparr>, st')"
    unfolding allocateBlock_def fst_conv w Let_def assms(7) pk option.case prod.case
    by (simp only: guard if_False s1_def [symmetric] P block_sizes ne hs simp_thms if_True s2_def [symmetric] s3_def [symmetric] s4_def [symmetric]) blast
  moreover have "(base + 2 ^ k - 16, 96, None, req) \<in> set (allocatedBlocks s4)"
    using insertBlock_mem [of "(base + 2 ^ k - 16, 96, None, req)" "allocatedBlocks s1"] assms(9) s1(2) by (simp add: s4_def s3_def s2_def insertFreeBlock_sel)
  moreover have "(base + 2 ^ k + 80, 2 ^ 32 - 16) \<in> set (unallocatedBlocks s4)"
    using s1(1) by (simp add: s4_def s3_def s2_def insertFreeBlock_sel insertBlock_def)
  ultimately show ?thesis using k by (auto simp: add.assoc add.commute)
qed

definition exampleTightSpan :: memorySpan where
  "exampleTightSpan = \<lparr>spanBase = 65536, spanSize = 16384, releasable = False, unallocatedBlocks = [(65648, 192)], allocatedBlocks = [(65840, 16080, None, 16000)],
     freeSpace = 192, largestFreeBlockSize = 192\<rparr>"

text \<open>Here the block of the request reaches from 65760 to 65856, into the block at 65840.\<close>

theorem small_aligned_request_overruns_witness:
  "\<exists>s' st'. allocateBlock pickBlock 8 128 (exampleTightSpan, exampleStats) = Inr (Some 65792, s', st') \<and> (65760, 96, None, 8) \<in> set (allocatedBlocks s') \<and>
     (65856, 2 ^ 32 - 16) \<in> set (unallocatedBlocks s')"
proof -
  have "(2 :: nat) ^ 7 dvd 65648 + 16" by (simp add: dvd_eq_mod_eq_0)
  then show ?thesis
    using small_aligned_request_overruns [OF bt.block_index_axioms, of 7 8 65648 exampleTightSpan exampleStats] by (simp add: exampleTightSpan_def)
qed

text \<open>The padded size of a request close to \<open>2 ^ 64\<close> wraps around: the request is granted with a block of less than 192 bytes.\<close>

lemma huge_request_accepted:
  assumes "block_index pick" "k \<le> 4" "0 < r" "r < 32" "unallocatedBlocks s = [(base, z)]" "largestFreeBlockSize s = z" "96 \<le> z" "16 dvd base" "16 dvd z"
    "base + z + 16 \<le> 2 ^ 64" "z < 2 ^ 32" "base \<notin> fst ` set (allocatedBlocks s)"
  shows "\<exists>s' st' u. allocateBlock pick (2 ^ 64 - r) (2 ^ k) (s, st) = Inr (Some (base + 32), s', st') \<and>
    (base, u, None, 2 ^ 64 - r) \<in> set (allocatedBlocks s') \<and> u < 192"
proof -
  let ?req = "2 ^ 64 - r"
  have "(2 :: nat) ^ k dvd 2 ^ 4" using assms(2) by (rule le_imp_power_dvd)
  then have k: "(2 :: nat) ^ k dvd 16" "(2 :: nat) ^ k \<le> 16" by (simp_all add: dvd_imp_le)
  have "?req + 32 = (32 - r) + 2 ^ 64" using assms(3,4) by simp
  then have "add_size ?req 32 = 32 - r" unfolding add_size_def by (simp only: mod_add_self2) simp
  then have w: "computeWorstCaseAlignedSize ?req (2 ^ k) = 32 - r" using k(1) by (simp add: computeWorstCaseAlignedSize_def guaranteedAlign)
  have pk: "pick (32 - r) [(base, z)] = Some (base, z)"
    using block_index.pick_least [OF assms(1), of "[(base, z)]" "32 - r"] assms(7) by auto
  have "16 dvd base + 32" using assms(8) by simp
  then have "2 ^ k dvd base + 32" by (rule dvd_trans [OF k(1)])
  then have ret: "findFirstAlignedAddressAfterHeaderSpace base (2 ^ k) = base + 32"
    using assms(7,10) by (simp add: findFirstAlignedAddressAfterHeaderSpace_def Let_def)
  have h: "headerPlace base (base + 32) = base" using header_place [of "base + 32" base] assms(7,8,10) by simp
  define n where "n = nextPlace base (base + 32) ?req (base + z)"
  have "(base + 32 + ?req) mod 2 ^ 64 = base + 32 - r"
  proof -
    have "base + 32 + ?req = (base + 32 - r) + 2 ^ 64" using assms(3,4) by simp
    then show ?thesis using assms(7,10) by (simp only: mod_add_self2) simp
  qed
  then have m: "max (add_size (base + 32) ?req) (add_size base 96) = base + 96" using assms(7,10) by (simp add: add_size_def)
  have a: "alignUpAddr (base + 96) alignofBlock = base + 96" using alignUp_block(4) [of "base + 96"] assms(7,8,10) by simp
  have n: "n = (if z - 96 < 96 then base + z else base + 96)" using assms(7) unfolding n_def nextPlace_def block_sizes m a by simp
  then have u: "n - base < 192" "base \<le> n" "16 dvd n - base" "n - base < 2 ^ 32" using assms(7,9,11) by auto
  have hs: "headerSize (sub_size n base) = n - base" using headerSize_id [OF u(3,4)] u(2) by simp
  define s1 where "s1 = removeFreeBlock (base, z) s"
  have s1: "allocatedBlocks s1 = allocatedBlocks s" by (simp add: s1_def removeFreeBlock_def Let_def)
  define s2 where "s2 = s1\<lparr>allocatedBlocks := insertBlock (base, n - base, None, ?req) (allocatedBlocks s1)\<rparr>"
  define s3 where "s3 = (if n \<noteq> base + z then insertFreeBlock (n, headerSize (sub_size (base + z) n)) s2 else s2)"
  have guard: "\<not> largestFreeBlockSize s < 32 - r" using assms(6,7) by simp
  have e: "add_size base z = base + z" "add_size base 32 = base + 32" using assms(7,10) by simp_all
  have "\<exists>st'. allocateBlock pick ?req (2 ^ k) (s, st) = Inr (Some (base + 32), s3\<lparr>freeSpace := sub_size (freeSpace s3) (n - base)\<rparr>, st')"
    unfolding allocateBlock_def fst_conv w Let_def assms(5) pk option.case prod.case ret h block_sizes e
    by (simp only: guard if_False s1_def [symmetric] e n_def [symmetric] hs simp_thms s2_def [symmetric] s3_def [symmetric]) blast
  moreover have "(base, n - base, None, ?req) \<in> set (allocatedBlocks s3)"
    using insertBlock_mem [of "(base, n - base, None, ?req)" "allocatedBlocks s1"] assms(12) s1 by (auto simp: s3_def s2_def insertFreeBlock_sel)
  ultimately show ?thesis using u(1) by fastforce
qed

end
