(* ===== verification/Slab_Props.thy ===== *)
theory Slab_Props
  imports Slab_Release Heap_Props
begin

text \<open>The coarse heap as the backing allocator of the slabs, and what a slab allocator on top of it promises.\<close>

section \<open>The backing allocator\<close>

text \<open>\<open>backingAllocator.allocate(requestedSize, alignof(void*))\<close> and \<open>backingAllocator.free\<close> on a heap of granted buffers, with no pages to come.\<close>

definition heapAlloc :: "nat \<Rightarrow> nat \<Rightarrow> coarseHeap \<Rightarrow> (nat option \<times> coarseHeap) outcome" where
  "heapAlloc sizeofSpan n c = coarseAllocate balancedTree pickBlock (\<lambda>_. None) sizeofSpan n (2 ^ 3) c"

definition heapFree :: "nat \<Rightarrow> nat \<Rightarrow> coarseHeap \<Rightarrow> bool \<times> coarseHeap" where
  "heapFree sizeofSpan a c = (case coarseFree sizeofSpan a c of (ok, c', _) \<Rightarrow> (ok, c'))"

definition heapLive :: "coarseHeap \<Rightarrow> (nat \<times> nat) set" where
  "heapLive c = set (liveBlocks c)"

definition heapFits :: "nat \<Rightarrow> coarseHeap \<Rightarrow> bool" where
  "heapFits n c \<longleftrightarrow> (\<exists>s\<in>set (spans c). fits (computeWorstCaseAlignedSize n (2 ^ 3)) s)"

lemma heapAlloc_ok:
  assumes "heap_inv H c" "H \<le> 4096" "0 < n" "n \<le> 8192"
  shows "if heapFits n c then \<exists>a c' ys zs. heapAlloc H n c = Inr (Some a, c') \<and> heap_inv H c' \<and> liveBlocks c = ys @ zs \<and> liveBlocks c' = ys @ (a, n) # zs
    else heapAlloc H n c = Inl (Assertion ''Failed to allocate memory for new span'')"
  using ch.coarseAllocate_ok [OF assms(1,3) _ _ assms(2), of 3 "\<lambda>_. None"] assms(4) unfolding heapFits_def heapAlloc_def by (simp split: if_splits) blast

lemma liveBlocks_bounds: "heap_inv H c \<Longrightarrow> x \<in> set (liveBlocks c) \<Longrightarrow> 0 < snd x \<and> fst x + snd x \<le> 2 ^ 64"
proof -
  assume c: "heap_inv H c" "x \<in> set (liveBlocks c)"
  then obtain s where s: "span_inv H s" "x \<in> set (spanLive s)" by (auto simp: heap_inv_def liveBlocks_def)
  then show ?thesis using spanLive_ok(2) [OF s(1)] span_inv_bounds(2) [OF s(1)] by fastforce
qed

lemma sorted_wrt_cases: "sorted_wrt P xs \<Longrightarrow> x \<in> set xs \<Longrightarrow> y \<in> set xs \<Longrightarrow> x \<noteq> y \<Longrightarrow> P x y \<or> P y x"
  by (induction xs) auto

lemma liveBlocks_apart:
  assumes "heap_inv H c" "x \<in> set (liveBlocks c)" "y \<in> set (liveBlocks c)" "x \<noteq> y"
  shows "fst x + snd x \<le> fst y \<or> fst y + snd y \<le> fst x" "fst x \<noteq> fst y"
proof -
  show 1: "fst x + snd x \<le> fst y \<or> fst y + snd y \<le> fst x"
    using sorted_wrt_cases [OF liveBlocks_disjoint [OF assms(1)] assms(2-4)] by (simp add: blockBefore_def)
  show "fst x \<noteq> fst y" using 1 liveBlocks_bounds [OF assms(1,2)] liveBlocks_bounds [OF assms(1,3)] by auto
qed

lemma heap_backing:
  assumes "H \<le> 4096"
  shows "backing_allocator (heapAlloc H) (heapFree H) (heap_inv H) heapLive"
proof
  fix c c' a n assume c: "heap_inv H c" "16 < n" "n \<le> 8192" "heapAlloc H n c = Inr (Some a, c')"
  then obtain ys zs where R: "heap_inv H c'" "liveBlocks c = ys @ zs" "liveBlocks c' = ys @ (a, n) # zs"
    using heapAlloc_ok [OF c(1) assms, of n] by (auto split: if_splits)
  have s: "sorted_wrt blockBefore (ys @ (a, n) # zs)" "\<forall>x\<in>set (ys @ (a, n) # zs). 0 < snd x"
    using liveBlocks_disjoint [OF R(1)] liveBlocks_bounds [OF R(1)] R(3) by auto
  have "filter (\<lambda>x. fst x \<noteq> a) (ys @ zs) = ys @ zs" using filter_live [OF s] by simp
  then have "a \<notin> fst ` set (ys @ zs)" unfolding filter_id_conv by force
  then show "heap_inv H c' \<and> heapLive c' = insert (a, n) (heapLive c) \<and> a \<notin> fst ` heapLive c \<and> a + n \<le> 2 ^ 64"
    using R liveBlocks_bounds [OF R(1), of "(a, n)"] by (auto simp: heapLive_def)
next
  fix c a n assume c: "heap_inv H c" "(a, n) \<in> heapLive c"
  then obtain c' out where R: "coarseFree H a c = (True, c', out)" "heap_inv H c'" "liveBlocks c' = filter (\<lambda>x. fst x \<noteq> a) (liveBlocks c)"
    using coarseFree_valid [OF c(1), of a n] by (auto simp: heapLive_def)
  have "heapLive c' = heapLive c - {(a, n)}"
    using liveBlocks_apart(2) [OF c(1), of "(a, n)"] c(2) R(3) by (auto simp: heapLive_def)
  then show "heap_inv H (snd (heapFree H a c)) \<and> heapLive (snd (heapFree H a c)) = heapLive c - {(a, n)}" using R by (simp add: heapFree_def)
next
  fix c a n b k assume "heap_inv H c" "(a, n) \<in> heapLive c" "(b, k) \<in> heapLive c" "(a, n) \<noteq> (b, k)"
  then show "a + n \<le> b \<or> b + k \<le> a" using liveBlocks_apart(1) [of H c "(a, n)" "(b, k)"] by (simp add: heapLive_def)
qed

interpretation sh: backing_allocator "heapAlloc 144" "heapFree 144" "heap_inv 144" heapLive
  by (rule heap_backing) simp

text \<open>The size classes of \<open>InternalAllocator.cpp\<close> and the sizes of their slabs fit, with a slab header of 128 bytes.\<close>

lemma configured_slabs: "list_all2 (slabSizes_ok 128) slabSizeClasses slabAllocatorBufferSizes"
  unfolding slabSizeClasses_def slabAllocatorBufferSizes_def by (simp add: slabSizes_ok_def bitmapBytes_def)

section \<open>Properties\<close>

text \<open>
  C7: On a slab allocator over the coarse heap whose slots in use are \<open>U\<close>, \<open>alloc\<close> returns the address of a slot that overlaps none of
  them and lies behind the header of a slab, inside a live block of the heap; \<open>U\<close> grows by exactly this address and the
  invariant holds again (every slab in the bucket of its occupancy, exact counters, a top bucket that is not empty). It fails, with
  the assertion of the heap, only if no slab has a free slot and no span has room for a new slab.
\<close>

theorem slab_allocate_exact:
  assumes "slab_heap (heap_inv S) heapLive H U (m, c)" "S \<le> 4096"
  shows "if numNonFullSlabs m \<noteq> 0 \<or> heapFits (desiredSlabSize m) c
    then \<exists>p m' c'. slabAlloc (heapAlloc S) H (m, c) = Inr (p, m', c') \<and> slab_heap (heap_inv S) heapLive H (insert p U) (m', c') \<and>
      (\<forall>q\<in>U. q + allocSlotSize m \<le> p \<or> p + allocSlotSize m \<le> q) \<and> (\<exists>(a, n)\<in>set (liveBlocks c'). a + H \<le> p \<and> p + allocSlotSize m \<le> a + n)
    else slabAlloc (heapAlloc S) H (m, c) = Inl (Assertion ''Failed to allocate memory for new span'')"
proof -
  have "slabSizes_ok H (allocSlotSize m) (desiredSlabSize m)" "heap_inv S c" using assms(1) by (auto simp: slab_heap_def)
  then have B: "if heapFits (desiredSlabSize m) c then \<exists>a c'. heapAlloc S (desiredSlabSize m) c = Inr (Some a, c')
      else heapAlloc S (desiredSlabSize m) c = Inl (Assertion ''Failed to allocate memory for new span'')"
    using heapAlloc_ok [OF _ assms(2), of c "desiredSlabSize m"] by (auto simp: slabSizes_ok_def split: if_splits)
  note A = backing_allocator.slab_heap_alloc [OF heap_backing [OF assms(2)] assms(1)]
  show ?thesis
  proof (cases "numNonFullSlabs m \<noteq> 0 \<or> heapFits (desiredSlabSize m) c")
    case True
    then obtain c' where "numNonFullSlabs m = 0 \<Longrightarrow> \<exists>a. heapAlloc S (desiredSlabSize m) c = Inr (Some a, c')" "numNonFullSlabs m \<noteq> 0 \<Longrightarrow> c' = c"
      using B by (cases "numNonFullSlabs m = 0") auto
    from A [OF this] show ?thesis using True unfolding heapLive_def [of c'] by (simp only: if_True) blast
  next
    case False
    then show ?thesis using B by (simp add: slabAlloc_def addNewSlab_def)
  qed
qed

definition exampleMemory :: slabAllocator where
  "exampleMemory = \<lparr>allocSlotSize = 0, desiredSlabSize = 0, buckets = (\<lambda>_. []), numFreeSlabs = 0, numNonFullSlabs = 0, topOccupiedBucket = None,
     slabAt = (\<lambda>_. exampleSlab), bucketIndex = (\<lambda>_. FullBucket), slabTree = [], totalBackingSize = 0, currentlyAllocatedSize = 0, netAllocatedSize = 0,
     netFreedSize = 0, numSlabs = 0\<rparr>"

definition exampleAllocator :: slabAllocator where
  "exampleAllocator = newSlabAllocator 8 1024 [] exampleMemory"

lemma exampleAllocator_ok: "slab_heap (heap_inv 144) heapLive 128 {} (exampleAllocator, exampleHeap)" "heapFits (desiredSlabSize exampleAllocator) exampleHeap"
proof -
  have "slabSizes_ok 128 8 1024" using configured_slabs by (simp add: slabSizeClasses_def slabAllocatorBufferSizes_def)
  then show "slab_heap (heap_inv 144) heapLive 128 {} (exampleAllocator, exampleHeap)"
    unfolding exampleAllocator_def by (intro sh.slab_heap_new exampleHeap_ok(1)) auto
  have "fits 1104 (newSpan 144 4096 2048)" by (rule newSpan_fits) auto
  moreover have "computeWorstCaseAlignedSize 1024 (2 ^ 3) \<le> 1104" using worstCase [of 1024 3] by simp
  ultimately have "fits (computeWorstCaseAlignedSize 1024 (2 ^ 3)) (newSpan 144 4096 2048)" by (simp add: fits_def)
  then show "heapFits (desiredSlabSize exampleAllocator) exampleHeap"
    by (simp add: heapFits_def exampleAllocator_def newSlabAllocator_def exampleHeap_def grantSpan_def createSpan_def emptyHeap_def insertSpan_def Let_def
        markUnreleasable_def fits_def)
qed

theorem slab_allocate_exact_witness:
  "\<exists>p m' c'. slabAlloc (heapAlloc 144) 128 (exampleAllocator, exampleHeap) = Inr (p, m', c') \<and> slab_heap (heap_inv 144) heapLive 128 {p} (m', c')"
  using slab_allocate_exact [OF exampleAllocator_ok(1)] exampleAllocator_ok(2) by auto

text \<open>
  C8: Freeing a slot in use of a slab removes exactly its address from the slots in use and keeps the invariant, whichever bucket the slab
  moves to and however many free slabs go back to the heap: the search for a new top bucket ends, and neither a null pointer nor
  an assertion is met. Freeing a slot that is not in use is caught.
\<close>

theorem slab_free_exact:
  assumes "slab_heap (heap_inv S) heapLive H U (m, c)" "S \<le> 4096" "t \<in> allSlabs m" "i < numSlots (slabAt m t)"
  shows "if slotAddr (slabAt m t) i \<in> U
    then \<exists>m' c'. slabFree (heapFree S) (slotAddr (slabAt m t) i) t (m, c) = Inr (m', c') \<and> slab_heap (heap_inv S) heapLive H (U - {slotAddr (slabAt m t) i}) (m', c')
    else slabFree (heapFree S) (slotAddr (slabAt m t) i) t (m, c) = Inl (Assertion ''Double-freeing pointer'')"
  using backing_allocator.slab_heap_free [OF heap_backing [OF assms(2)] assms(1,3,4)] by (auto split: if_splits)

theorem slab_free_exact_witness:
  "\<exists>p t m c m' c'. slabAlloc (heapAlloc 144) 128 (exampleAllocator, exampleHeap) = Inr (p, m, c) \<and>
     slabFree (heapFree 144) p t (m, c) = Inr (m', c') \<and> slab_heap (heap_inv 144) heapLive 128 {} (m', c')"
proof -
  obtain h where h: "numNonFullSlabs exampleAllocator = 0" "\<exists>a. heapAlloc 144 (desiredSlabSize exampleAllocator) exampleHeap = Inr (Some a, h)"
    using heapAlloc_ok [OF exampleHeap_ok(1), of "desiredSlabSize exampleAllocator"] exampleAllocator_ok(2)
    by (auto simp: exampleAllocator_def newSlabAllocator_def split: if_splits)
  obtain p m c where P: "slabAlloc (heapAlloc 144) 128 (exampleAllocator, exampleHeap) = Inr (p, m, c)" "slab_heap (heap_inv 144) heapLive 128 {p} (m, c)"
    using sh.slab_heap_alloc [OF exampleAllocator_ok(1), of h] h by auto
  then obtain A where A: "bucket_inv m A" "{p} = liveSlots m A" by (auto simp: slab_heap_def)
  then obtain t i where t: "t \<in> allSlabs m" "i \<in> A t" "p = slotAddr (slabAt m t) i" using mem_liveSlots [of p m A] by auto
  then have "i < numSlots (slabAt m t)" using slab_inv_facts(1) [OF allSlabs_member [OF A(1) t(1)]] by auto
  from slab_free_exact [OF P(2) _ t(1) this] show ?thesis using P(1) t(3) by auto
qed

text \<open>
  C9: Releasing all free slabs keeps the slots in use and the invariant, except in one state: when the top bucket is the free one although
  a partly occupied slab exists, the next allocation follows a null pointer. That state is reachable, see
  \<open>release_strands_run\<close>. The destructor gives exactly the slabs of the allocator back to the heap.
\<close>

theorem slab_release_exact:
  assumes "slab_heap (heap_inv S) heapLive H U (m, c)" "S \<le> 4096"
  shows "(if topOccupiedBucket m = Some FreeBucket \<and> numFreeSlabs m < numNonFullSlabs m
      then slabAlloc (heapAlloc S) H (releaseAllFreeSlabs (heapFree S) (m, c)) = Inl (Undefined ''null pointer'')
      else slab_heap (heap_inv S) heapLive H U (releaseAllFreeSlabs (heapFree S) (m, c))) \<and>
    set (liveBlocks (snd (destroySlabAllocator (heapFree S) (m, c)))) = set (liveBlocks c) - (\<lambda>a. (a, desiredSlabSize m)) ` allSlabs m \<and>
    heap_inv S (snd (destroySlabAllocator (heapFree S) (m, c)))"
  using backing_allocator.slab_heap_release [OF heap_backing [OF assms(2)] assms(1)] backing_allocator.slab_heap_destroy(1,2) [OF heap_backing [OF assms(2)] assms(1)]
  unfolding heapLive_def by blast

theorem slab_release_exact_witness:
  "slab_heap (heap_inv 144) heapLive 128 {} (releaseAllFreeSlabs (heapFree 144) (exampleAllocator, exampleHeap)) \<and>
    heap_inv 144 (snd (destroySlabAllocator (heapFree 144) (exampleAllocator, exampleHeap)))"
  using slab_release_exact [OF exampleAllocator_ok(1)] by (simp add: exampleAllocator_def newSlabAllocator_def)

section \<open>A run that strands the allocator\<close>

datatype slabOp = OpAlloc | OpFree nat nat

fun runSlabOps :: "(nat \<Rightarrow> 'h \<Rightarrow> (nat option \<times> 'h) outcome) \<Rightarrow> (nat \<Rightarrow> 'h \<Rightarrow> bool \<times> 'h) \<Rightarrow> nat \<Rightarrow> slabOp list \<Rightarrow> slabAllocator \<times> 'h \<Rightarrow> (slabAllocator \<times> 'h) outcome" where
  "runSlabOps balloc bfree H [] st = Inr st"
| "runSlabOps balloc bfree H (OpAlloc # ops) st = bindO (slabAlloc balloc H st) (\<lambda>(_, st'). runSlabOps balloc bfree H ops st')"
| "runSlabOps balloc bfree H (OpFree p t # ops) st = bindO (slabFree bfree p t st) (runSlabOps balloc bfree H ops)"

text \<open>A backing allocator that hands out one block after the other.\<close>

definition bumpAlloc :: "nat \<Rightarrow> nat \<Rightarrow> (nat option \<times> nat) outcome" where
  "bumpAlloc n h = Inr (Some h, h + n)"

definition bumpFree :: "nat \<Rightarrow> nat \<Rightarrow> bool \<times> nat" where
  "bumpFree a h = (True, h)"

lemma slab_256:
  assumes "b = 4224 \<or> b = 5248"
  shows "newSlab 256 b 896 = Inr \<lparr>slotSize = 256, backingStorage = b + 128, initializedHorizon = b + 128, backingSize = 768, freeCount = 3, numSlots = 3,
    nextFree = Some (b + 128), freeList = [0xff], slotLink = (\<lambda>_. None)\<rparr>"
proof -
  have a: "getAlignValForSlotSize 256 = 2 ^ 8" unfolding getAlignValForSlotSize_def by code_simp
  have "unat (alignUp True (of_nat (b + 1)) (2 ^ 8)) = (b + 1 + 2 ^ 8 - 1) div 2 ^ 8 * 2 ^ 8" by (rule unat_slabAlign) (use assms in auto)
  then have "unat (alignUp True (of_nat (b + 1)) (2 ^ 8)) = b + 128" using assms by auto
  then show ?thesis using assms unfolding newSlab_def a by (elim disjE) (simp_all add: Let_def)
qed

lemmas slab_eval = slabAlloc_def slabFree_def addNewSlab_def initializeSlab_def bumpAlloc_def bumpFree_def slab_256 as_alloc_def as_free_def as_isSlotFree_def
  markSlotFreeState_def slotIndex_def rebucketAlloc_def rebucketFree_def as_isFull_def as_isEmpty_def getOccupancyPercent_def insertSlabAtBucketHead_def
  removeSlabFromBucket_def topAfterFull_def topPartialBucket_def getBucketIndexForOccupancyInAlloc_def getBucketIndexForOccupancyInFree_def
  occupancyToBucketUpper_def occupancyToBucketLower_def releaseFreeSlabsIfNecessary_def releaseAllFreeSlabs_def releaseAllFromBucket_def

text \<open>Slabs of three slots: the first slab is filled, the second gets one slot; two slots of the first and the one of the second are freed.\<close>

lemma release_strands_run:
  "\<exists>m h. runSlabOps bumpAlloc bumpFree 128 [OpAlloc, OpAlloc, OpAlloc, OpAlloc, OpFree 4352 4096, OpFree 4608 4096, OpFree 5376 5120]
       (newSlabAllocator 256 1024 [] exampleMemory, 4096) = Inr (m, h) \<and>
     topOccupiedBucket m = Some FreeBucket \<and> buckets m (PartialBucket 1) = [4096] \<and>
     slabAlloc bumpAlloc 128 (releaseAllFreeSlabs bumpFree (m, h)) = Inl (Undefined ''null pointer'')"
  by (simp add: slab_eval newSlabAllocator_def exampleMemory_def Let_def drop_bit_eq_div upt_rec)

end
