(* ===== verification/Spec2Isabelle.thy ===== *)
theory Spec2Isabelle
  imports Split_Bitmap_Conc Slab_Bookkeeper Binary_Heap Ring_Buffer_Conc Page_Alloc_Props Hash_Set Vector_Laws Linked_List Size_Class Frequency_Data Core_Text Tree_Props Slab_Props
begin

text \<open>
  A verification development for CroCOS, a NUMA-aware kernel for amd64 written in C++. It covers the physical page
  allocator of the kernel with everything it is built from, the NUMA code that configures it, the internal heap, and the
  containers, search trees, lock-free structures, sorts and helpers of the \<open>Core\<close> and \<open>LibAlloc\<close> libraries they rest on.

  \<^bold>\<open>The program's parts and how they interact.\<close>
  \<^item> \<open>libraries/Core\<close>: arithmetic (\<open>math.h\<close>), strings, sort, heap, vector, linked lists, red-black trees, hash tables, and the
    lock-free structures \<open>SplitBitmap\<close>, \<open>AtomicBitPool\<close> and \<open>MPMCRingBuffer\<close>.
  \<^item> \<open>libraries/LibAlloc\<close>: \<open>SlabBookkeeper\<close> keeps the slots of a slab in a split bitmap; the small pages of a big page are
    such slots. The internal heap finds a slab by size class and has slabs and large blocks in spans of pages
    (\<open>CoarseInternalAllocator\<close>), whose blocks are in red-black trees by size and by address.
  \<^item> \<open>kernel/mm\<close>: at boot \<open>NUMA.cpp\<close> builds the topology from the firmware's tables and partitions the usable memory by
    domain; \<open>createNumaPool\<close> makes one pool per domain from its ranges, with a free-page ring buffer, a bit pool of partly
    allocated big pages and a metadata entry per big page; \<open>PageAllocatorImpl\<close> puts per-processor caches (\<open>LocalPool\<close>) in
    front of the pools and routes each freed page back to its pool by address.

  \<^bold>\<open>Conventions.\<close> Code that can panic or run into undefined behaviour returns an \<open>outcome\<close> (\<open>Croc_Prelude\<close>): \<open>Assertion\<close> is a
  failed \<open>assert\<close>, \<open>Undefined\<close> an access outside of an array, a division by zero, a builtin outside its domain or a use of a dead
  object, \<open>Diverges\<close> a loop that exhausts the bound of the model. State is a record that is passed along; \<open>size_t\<close> values
  are naturals with the wrap-around written out, or 64-bit words where bits matter. Atomic operations are sequentially
  consistent: one step each in the interleaving models, one after the other elsewhere.

  \<^bold>\<open>Theories, in the order of the code.\<close>
  \<^item> \<open>Croc_Prelude\<close>, \<open>Array_Slices\<close>, \<open>Slot_Store\<close>: outcomes, builtins, bit sets of words, checked arrays, and the contract of a
    slot allocator (locale \<open>slot_store\<close>, interpreted by \<open>SplitBitmap\<close> as \<open>sb\<close>).
  \<^item> \<open>Core_Math\<close>: \<open>math.h\<close>; the logarithms are exact where the builtins are defined, and the 32-bit overload is off by 32.
    \<open>Core_Text\<close>: \<open>str.h\<close>, \<open>str.cpp\<close>; a printed number denotes its value. \<open>Size_Class\<close>: \<open>SizeClass.h\<close>; the jump table finds the first
    class. \<open>Frequency_Data\<close>: \<open>FrequencyData.cpp\<close>; the fixed-point conversion is off by at most one tick.
  \<^item> \<open>Sorting\<close>, \<open>Binary_Heap\<close>: \<open>algo/sort.h\<close> and \<open>ds/Heap.h\<close>; introsort sorts for every strict weak order (locale \<open>weak_order\<close>), and a
    heap pops in order (locale \<open>max_queue\<close>).
  \<^item> \<open>Vector\<close>, \<open>Vector_Laws\<close>: \<open>ds/Vector.h\<close>, \<open>ds/Stack.h\<close>; slots remember object lifetimes, a vector refines a list, and the
    operations that assign to dead objects are exactly characterised.
  \<^item> \<open>Linked_List\<close>: \<open>ds/LinkedList.h\<close> on an explicit store of pointers; chains of nodes, loops in both directions with removal, ownership.
  \<^item> \<open>Tree_Heap\<close>, \<open>Tree_Shape\<close>, \<open>Rb_Insert\<close>, \<open>Rb_Search\<close>, \<open>Rb_Erase\<close>, \<open>Tree_Query\<close>, \<open>Tree_Props\<close>: \<open>ds/Trees.h\<close>, the red-black tree with parent
    pointers on an explicit store. The store represents a tree with a context (zipper) around the current node; insertion,
    removal, update and the queries are exact for every strict total order (locale \<open>total_order\<close>), and the mapped searches are
    shown to go wrong.
  \<^item> \<open>Alloc_Slab\<close>: a \<open>LibAlloc::Slab\<close>; the slots, the free list through them and the bitmap that catches double frees.
  \<^item> \<open>Heap_Span\<close>, \<open>Heap_Span_Laws\<close>, \<open>Coarse_Heap\<close>, \<open>Coarse_Heap_Laws\<close>, \<open>Heap_Props\<close>: \<open>LibAlloc/InternalAllocator.cpp\<close>, the spans and the coarse heap. A
    span is tiled by its blocks; seen from outside the heap is the list of its disjoint live blocks, to which allocation adds one and
    from which deallocation removes one. The searches in the trees are the locales \<open>block_index\<close> (instance \<open>bt\<close>, on \<open>mappedCeil\<close>) and
    \<open>span_index\<close> (instance \<open>bs\<close>), joined in \<open>coarse_index\<close> (instance \<open>ch\<close>); \<open>heap_reachable\<close> are the heaps of the
    runs within the contract. \<open>isValidPointer\<close> is modelled in its part for the spans.
  \<^item> \<open>Slab_Buckets\<close>, \<open>Slab_Buckets_Laws\<close>, \<open>Slab_Free\<close>, \<open>Slab_Release\<close>, \<open>Slab_Props\<close>: \<open>LibAlloc/SlabAllocator.cpp\<close>, the slabs of a size class in buckets by
    occupancy. Seen from outside it is the set of the addresses in use, to which allocation adds one slot that overlaps no
    other and from which deallocation removes one; every slab stays in a bucket that fits it and the top bucket is not empty. The slabs
    come from a backing allocator (locale \<open>backing_allocator\<close>, instance \<open>sh\<close> on the coarse heap). One state from which the release of
    the free slabs strands the allocator is characterised, and a run reaches it.
  \<^item> \<open>Hash_Table\<close>, \<open>Hash_Table_Laws\<close>, \<open>Hash_Table_Ops\<close>, \<open>Hash_Map\<close>, \<open>Hash_Set\<close>: \<open>ds/IndexedHashTable.h\<close>, \<open>HashMap.h\<close>, \<open>HashSet.h\<close>,
    \<open>Bimap.h\<close>; probing and rehashing against the invariant of open addressing, the map as an instance \<open>hm\<close> of locale \<open>lookup_table\<close>,
    the bijection of a bimap from the laws of that locale with every failure of its lookups, and how tombstones exhaust a table.
  \<^item> \<open>Split_Bitmap\<close>, \<open>Split_Bitmap_Conc\<close>: \<open>atomic/SplitBitmap.h\<close>, sequentially and as an \<open>inductive\<close> step relation of one owner and any
    number of freeing processors, with its invariant by rule induction.
  \<^item> \<open>Slab_Bookkeeper\<close>: \<open>liballoc/Slab.h\<close>, \<open>OccupancyTransition.h\<close>; allocation and bulk operations are exact.
  \<^item> \<open>Atomic_Bit_Pool\<close>, \<open>Atomic_Bit_Pool_Set\<close>, \<open>Atomic_Bit_Pool_Get\<close>: \<open>atomic/AtomicBitPool\<close>; the tree of counters refines a set of indices
    (locale \<open>index_pool\<close>, instance \<open>bp\<close>), and \<open>getAny\<close> finds a member whenever there is one.
  \<^item> \<open>Ring_Buffer\<close>, \<open>Ring_Buffer_Fifo\<close>, \<open>Ring_Buffer_Conc\<close>: \<open>atomic/RingBuffer.h\<close>, \<open>HighReliabilityRingBuffer.h\<close>; three instances of
    the bounded queue (locale \<open>bounded_fifo\<close>), and the waiting discipline under interleaving.
  \<^item> \<open>Page_Types\<close>, \<open>Page_Blocks\<close>: \<open>mem/MemTypes.h\<close>, \<open>mm.h\<close>, the boot allocator, \<open>SmallPageAllocator\<close> and \<open>BigPageMetadata\<close>.
  \<^item> \<open>Numa_Pool\<close>, \<open>Numa_Pool_Alloc\<close>, \<open>Numa_Pool_Init\<close>, \<open>Numa_Pool_Free\<close>, \<open>Numa_Pool_Laws\<close>: \<open>NUMAPool\<close>; a pool's state names the available pages,
    allocation takes exactly what it can, freeing returns exactly what it is given.
  \<^item> \<open>Numa_Topology\<close>, \<open>Numa_Topology_Laws\<close>, \<open>Memory_Partition\<close>, \<open>Pool_Factory\<close>, \<open>Pool_Create\<close>: \<open>kernel/mm/NUMA.cpp\<close> and the pool factory;
    the topology is well formed whatever the firmware reports, and the partition loses no page. The hash map that numbers the
    domains is a finite map there.
  \<^item> \<open>Local_Pool\<close>, \<open>Local_Pool_Laws\<close>, \<open>Page_Allocator\<close>, \<open>Page_Alloc_Laws\<close>, \<open>Page_Alloc_Correct\<close>, \<open>Page_Alloc_Free\<close>, \<open>Page_Alloc_Domain\<close>,
    \<open>Page_Alloc_Create\<close>, \<open>Page_Alloc_Props\<close>: the caches and \<open>PageAllocatorImpl\<close>; \<open>allocatePages\<close> serves every request it can from the
    pages in reach, \<open>freePages\<close> returns pages across pools, construction establishes the invariant.

  \<^bold>\<open>Bounds and fuel.\<close> Every loop is structural, has a termination proof, is a \<open>while_option\<close> or (in the trees) a \<open>partial_function\<close> with
  values in \<open>option\<close> that is shown to return, or takes a bound that is shown to suffice: \<open>drainClaimed\<close> \<open>(toClaim + 1) * (maxSpins + 2)\<close> rounds, one round per claimed index and per spin;
  \<open>hr_readLoop\<close> one round more than the items asked for; \<open>bpm_alloc_loop\<close>, \<open>drainPage\<close> and \<open>fromFreePages\<close> one more than the small
  pages of a big page; \<open>fromPAPages\<close> one more than the members of the bit pool; \<open>reserveLoop\<close> the 512 small pages of a big page;
  \<open>freeEntry\<close> of a rehash the new capacity. The places where the code itself does not end, a big page that is reserved as a
  whole and a bulk read whose spin limit is not looked at, are proved to exhaust every bound.

  \<^bold>\<open>Assumptions.\<close> Comparators are strict weak orders, hash functions are functions of the key, a fresh node's address is not in
  use. Ranges given to the allocator are below \<open>2 ^ 64\<close> and disjoint. Counts of table entries stay below \<open>2 ^ 57\<close>, those of vector
  slots below \<open>2 ^ 62\<close>. Alignments given to the heap are powers of two, a request of at most 16 bytes is aligned to at most 64, the
  padded size of a request does not wrap around, spans are below 4 GiB, and the pages of the backend are aligned and not in use; what
  goes wrong beyond these bounds is in \<open>Heap_Props\<close>. A machine has at most 256 processors. Memory ordering weaker than sequential consistency is not modelled.

  \<^bold>\<open>Not modelled.\<close> Architecture code and drivers (page tables, interrupt controllers, timers, SMP start-up, ACPI parsing), which
  is assembly and device access; the virtual memory substrate and the allocators on it, RCU and the epoch domain, the
  concurrent linked list and Treiber stack, whose correctness is about memory reclamation under weak ordering; the interrupt
  routing graph and the graph templates; the front end of the internal allocator, which chooses between slabs and coarse heap; the trees without parent pointers and with augmentation; timer queues; template metaprogramming (\<open>TypeTraits.h\<close>, \<open>Object.h\<close>, \<open>Variant.h\<close>), which has
  no run-time behaviour of its own; tests, stress tests and tools.
\<close>

end
